(* ===== verification/Prelude.thy ===== *)
theory Prelude
  imports Complex_Main "HOL-Library.Char_ord" "HOL-Library.List_Lexorder"
    "HOL-Library.Product_Lexorder"
begin

text \<open>
  Shared vocabulary of the development: machine integers of the Rust code written as
  \<open>int\<close> and \<open>nat\<close> with their wrap-around and saturation spelled out, results of fallible
  code as sums, loops that stop at the first error, binary search, and the ordered map
  (\<open>std::collections::BTreeMap\<close>, \<open>im::OrdMap\<close>) as a strictly key-sorted association list.
  The collections \<open>map_laws\<close> and \<open>result_laws\<close> gather the facts that the component proofs
  hand to the simplifier.
\<close>

named_theorems map_laws "lookup, membership and well-formedness of ordered maps"
named_theorems result_laws "unfolding of the result monad on known outcomes"

subsection \<open>Machine integers\<close>

text \<open>
  \<open>i64\<close> values are mathematical integers. An unchecked addition or multiplication of the
  release build wraps in two's complement (\<open>wrap64\<close>); \<open>saturating_add\<close> and its kin clamp
  (\<open>sat64\<close>). \<open>div_euclid\<close> by a positive constant is Isabelle's \<open>div\<close> on \<open>int\<close>.
  \<open>u64\<close> and \<open>u32\<close> counters are naturals with an explicit upper bound.
\<close>

type_synonym i64 = int
type_synonym i16 = int

definition i64_max :: int where "i64_max = 2 ^ 63 - 1"
definition i64_min :: int where "i64_min = - (2 ^ 63)"
definition u64_max :: nat where "u64_max = 2 ^ 64 - 1"
definition u32_max :: nat where "u32_max = 2 ^ 32 - 1"

definition in_i64 :: "int \<Rightarrow> bool" where
  "in_i64 x \<longleftrightarrow> i64_min \<le> x \<and> x \<le> i64_max"

definition wrap64 :: "int \<Rightarrow> int" where
  "wrap64 x = (x + 2 ^ 63) mod 2 ^ 64 - 2 ^ 63"

definition sat64 :: "int \<Rightarrow> int" where
  "sat64 x = max i64_min (min i64_max x)"

definition sat_add_u64 :: "nat \<Rightarrow> nat \<Rightarrow> nat" where
  "sat_add_u64 a b = min u64_max (a + b)"

definition sat_add_u32 :: "nat \<Rightarrow> nat \<Rightarrow> nat" where
  "sat_add_u32 a b = min u32_max (a + b)"

definition sat_mul_u32 :: "nat \<Rightarrow> nat \<Rightarrow> nat" where
  "sat_mul_u32 a b = min u32_max (a * b)"

lemma wrap64_id [simp]: "in_i64 x \<Longrightarrow> wrap64 x = x"
  by (simp add: wrap64_def in_i64_def i64_min_def i64_max_def)

lemma wrap64_in_range: "in_i64 (wrap64 x)"
proof -
  have "0 \<le> (x + 2 ^ 63) mod 2 ^ 64" "(x + 2 ^ 63) mod 2 ^ 64 < (2 ^ 64 :: int)"
    by simp_all
  then show ?thesis by (simp add: wrap64_def in_i64_def i64_min_def i64_max_def)
qed

lemma sat64_id [simp]: "in_i64 x \<Longrightarrow> sat64 x = x"
  by (simp add: sat64_def in_i64_def)

lemma sat64_in_range: "in_i64 (sat64 x)"
  by (simp add: sat64_def in_i64_def i64_min_def i64_max_def)

subsection \<open>Results\<close>

text \<open>A Rust \<open>Result\<close>: \<open>Inl\<close> carries the error, \<open>Inr\<close> the value; \<open>rbind\<close> is the \<open>?\<close> operator.\<close>

definition rbind :: "'e + 'a \<Rightarrow> ('a \<Rightarrow> 'e + 'b) \<Rightarrow> 'e + 'b" where
  "rbind m f = (case m of Inl e \<Rightarrow> Inl e | Inr x \<Rightarrow> f x)"

definition rensure :: "bool \<Rightarrow> 'e \<Rightarrow> 'e + unit" where
  "rensure c e = (if c then Inr () else Inl e)"

definition rmap :: "('a \<Rightarrow> 'b) \<Rightarrow> 'e + 'a \<Rightarrow> 'e + 'b" where
  "rmap f m = (case m of Inl e \<Rightarrow> Inl e | Inr x \<Rightarrow> Inr (f x))"

definition rmap_err :: "('e \<Rightarrow> 'f) \<Rightarrow> 'e + 'a \<Rightarrow> 'f + 'a" where
  "rmap_err f m = (case m of Inl e \<Rightarrow> Inl (f e) | Inr x \<Rightarrow> Inr x)"

definition of_option :: "'e \<Rightarrow> 'a option \<Rightarrow> 'e + 'a" where
  "of_option e x = (case x of None \<Rightarrow> Inl e | Some v \<Rightarrow> Inr v)"

text \<open>A \<open>for\<close> loop whose body may fail: the first error ends it.\<close>

fun rfold :: "('s \<Rightarrow> 'x \<Rightarrow> 'e + 's) \<Rightarrow> 's \<Rightarrow> 'x list \<Rightarrow> 'e + 's" where
  "rfold f s [] = Inr s"
| "rfold f s (x # xs) = rbind (f s x) (\<lambda>s'. rfold f s' xs)"

fun rmapM :: "('x \<Rightarrow> 'e + 'y) \<Rightarrow> 'x list \<Rightarrow> 'e + 'y list" where
  "rmapM f [] = Inr []"
| "rmapM f (x # xs) = rbind (f x) (\<lambda>y. rbind (rmapM f xs) (\<lambda>ys. Inr (y # ys)))"

lemma rbind_simps [simp, result_laws]:
  "rbind (Inl e) f = Inl e"
  "rbind (Inr x) f = f x"
  by (simp_all add: rbind_def)

lemma rbind_Inr_iff [result_laws]:
  "rbind m f = Inr y \<longleftrightarrow> (\<exists>x. m = Inr x \<and> f x = Inr y)"
  by (cases m) simp_all

lemma rbind_Inr_right [simp]: "rbind m Inr = m"
  by (cases m) simp_all

lemma rbind_assoc: "rbind (rbind m f) g = rbind m (\<lambda>x. rbind (f x) g)"
  by (cases m) simp_all

lemma rensure_Inr_iff [result_laws]: "rensure c e = Inr u \<longleftrightarrow> c"
  by (simp add: rensure_def)

lemma rensure_simps [simp]: "rensure True e = Inr ()" "rensure False e = Inl e"
  by (simp_all add: rensure_def)

lemma rmap_Inr_iff [result_laws]: "rmap f m = Inr y \<longleftrightarrow> (\<exists>x. m = Inr x \<and> y = f x)"
  by (cases m) (auto simp: rmap_def)

lemma rmap_err_Inr_iff [result_laws]: "rmap_err f m = Inr y \<longleftrightarrow> m = Inr y"
  by (cases m) (auto simp: rmap_err_def)

lemma rmap_err_simps [simp]: "rmap_err f (Inl e) = Inl (f e)" "rmap_err f (Inr x) = Inr x"
  by (simp_all add: rmap_err_def)

lemma of_option_simps [simp]: "of_option e None = Inl e" "of_option e (Some v) = Inr v"
  by (simp_all add: of_option_def)

lemma of_option_Inr_iff [result_laws]: "of_option e x = Inr v \<longleftrightarrow> x = Some v"
  by (cases x) (simp_all add: of_option_def)

lemma rfold_append: "rfold f s (xs @ ys) = rbind (rfold f s xs) (\<lambda>s'. rfold f s' ys)"
  by (induction xs arbitrary: s) (simp_all add: rbind_assoc)

lemma rfold_invariant:
  assumes "rfold f s xs = Inr s'" and "P s"
    and "\<And>s x s'. x \<in> set xs \<Longrightarrow> P s \<Longrightarrow> f s x = Inr s' \<Longrightarrow> P s'"
  shows "P s'"
  using assms
proof (induction xs arbitrary: s)
  case Nil
  then show ?case by simp
next
  case (Cons x xs)
  from Cons.prems(1) obtain t where t: "f s x = Inr t" "rfold f t xs = Inr s'"
    by (auto simp: rbind_Inr_iff)
  have "P t" by (rule Cons.prems(3) [OF _ Cons.prems(2) t(1)]) simp
  then show ?case
    by (rule Cons.IH [OF t(2)]) (rule Cons.prems(3), auto)
qed

lemma rmapM_Inr_iff:
  "rmapM f xs = Inr ys \<longleftrightarrow> list_all2 (\<lambda>x y. f x = Inr y) xs ys"
  by (induction xs arbitrary: ys) (auto simp: rbind_Inr_iff list_all2_Cons1)

subsection \<open>Binary search\<close>

text \<open>
  \<open>partition_point\<close>: the loop \<open>while low < high\<close> over an index interval. On a list that the
  predicate splits into a true prefix and a false suffix it returns the prefix length.
\<close>

function bsearch :: "(nat \<Rightarrow> bool) \<Rightarrow> nat \<Rightarrow> nat \<Rightarrow> nat" where
  "bsearch p low high =
     (if low < high
      then let mid = low + (high - low) div 2
           in if p mid then bsearch p (mid + 1) high else bsearch p low mid
      else low)"
  by pat_completeness auto
termination
  by (relation "measure (\<lambda>(p, low, high). high - low)") auto

declare bsearch.simps [simp del]

lemma bsearch_correct:
  assumes "low \<le> k" and "k \<le> high"
    and "\<And>i. low \<le> i \<Longrightarrow> i < k \<Longrightarrow> p i" and "\<And>i. k \<le> i \<Longrightarrow> i < high \<Longrightarrow> \<not> p i"
  shows "bsearch p low high = k"
  using assms
proof (induction p low high rule: bsearch.induct)
  case (1 p low high)
  show ?case
  proof (cases "low < high")
    case False
    with "1.prems" show ?thesis by (simp add: bsearch.simps)
  next
    case True
    define mid where "mid = low + (high - low) div 2"
    have mid: "low \<le> mid" "mid < high" using True by (auto simp: mid_def)
    show ?thesis
    proof (cases "p mid")
      case p: True
      have "mid < k"
        using p "1.prems"(4) [of mid] mid by (metis not_le)
      then have "bsearch p (mid + 1) high = k"
        using "1.IH"(1) [OF True mid_def p] "1.prems" mid by auto
      then show ?thesis using True p by (subst bsearch.simps) (simp add: mid_def Let_def)
    next
      case p: False
      have "k \<le> mid"
        using p "1.prems"(3) [of mid] mid by (metis not_le)
      then have "bsearch p low mid = k"
        using "1.IH"(2) [OF True mid_def p] "1.prems" mid by auto
      then show ?thesis using True p by (subst bsearch.simps) (simp add: mid_def Let_def)
    qed
  qed
qed

definition partition_point :: "('a \<Rightarrow> bool) \<Rightarrow> 'a list \<Rightarrow> nat" where
  "partition_point P xs = bsearch (\<lambda>i. P (xs ! i)) 0 (length xs)"

lemma partition_point_split:
  assumes "\<forall>x \<in> set xs. P x" and "\<forall>y \<in> set ys. \<not> P y"
  shows "partition_point P (xs @ ys) = length xs"
  unfolding partition_point_def
proof (rule bsearch_correct)
  show "0 \<le> length xs" "length xs \<le> length (xs @ ys)" by simp_all
next
  fix i assume "i < length xs"
  then show "P ((xs @ ys) ! i)" using assms(1) by (simp add: nth_append)
next
  fix i assume i: "length xs \<le> i" "i < length (xs @ ys)"
  then have "(xs @ ys) ! i \<in> set ys" by (simp add: nth_append)
  then show "\<not> P ((xs @ ys) ! i)" using assms(2) by blast
qed

lemma sorted_wrt_split:
  fixes P :: "'a \<Rightarrow> bool"
  assumes "sorted_wrt R xs" and "\<And>x y. R x y \<Longrightarrow> P y \<Longrightarrow> P x"
  shows "\<forall>y \<in> set (dropWhile P xs). \<not> P y"
  using assms(1)
proof (induction xs)
  case Nil
  then show ?case by simp
next
  case (Cons x xs)
  show ?case
  proof (cases "P x")
    case True
    moreover have "\<forall>y \<in> set (dropWhile P xs). \<not> P y"
      using Cons.prems by (intro Cons.IH) simp
    ultimately show ?thesis by simp
  next
    case False
    have "\<not> P y" if "y \<in> set xs" for y
      using Cons.prems that False assms(2) [of x y] by auto
    with False show ?thesis by simp
  qed
qed

lemma partition_point_sorted:
  fixes P :: "'a \<Rightarrow> bool"
  assumes "sorted_wrt R xs" and "\<And>x y. R x y \<Longrightarrow> P y \<Longrightarrow> P x"
  shows "partition_point P xs = length (takeWhile P xs)"
proof -
  have "\<forall>y \<in> set (dropWhile P xs). \<not> P y"
    by (rule sorted_wrt_split [OF assms(1)]) (rule assms(2))
  then have "partition_point P (takeWhile P xs @ dropWhile P xs) = length (takeWhile P xs)"
    by (intro partition_point_split) (auto dest: set_takeWhileD)
  then show ?thesis by simp
qed

end
