(* ===== verification/OrdMap.thy ===== *)
theory OrdMap
  imports Prelude
begin

text \<open>
  The ordered map of the Rust code (\<open>BTreeMap\<close>, \<open>im::OrdMap\<close>, and \<open>BTreeSet\<close> as a map to
  \<open>unit\<close>), as an association list with strictly increasing keys. Iteration is the list
  itself, in key order, which is what the float sums of the reports depend on. The locale
  \<open>ordered_map\<close> states the contract the components use, and what they need of a loop of
  \<open>entry(key).or_insert(default)\<close> updates is proved once inside it.
\<close>

type_synonym ('k, 'v) bmap = "('k \<times> 'v) list"

definition bm_get :: "('k, 'v) bmap \<Rightarrow> 'k \<Rightarrow> 'v option" where
  "bm_get m k = map_of m k"

fun bm_insert :: "'k::linorder \<Rightarrow> 'v \<Rightarrow> ('k, 'v) bmap \<Rightarrow> ('k, 'v) bmap" where
  "bm_insert k v [] = [(k, v)]"
| "bm_insert k v ((k', v') # m) =
     (if k < k' then (k, v) # (k', v') # m
      else if k = k' then (k, v) # m
      else (k', v') # bm_insert k v m)"

definition bm_remove :: "'k \<Rightarrow> ('k, 'v) bmap \<Rightarrow> ('k, 'v) bmap" where
  "bm_remove k m = filter (\<lambda>(k', v). k' \<noteq> k) m"

definition bm_retain :: "('k \<Rightarrow> 'v \<Rightarrow> bool) \<Rightarrow> ('k, 'v) bmap \<Rightarrow> ('k, 'v) bmap" where
  "bm_retain P m = filter (\<lambda>(k, v). P k v) m"

definition bm_wf :: "('k::linorder, 'v) bmap \<Rightarrow> bool" where
  "bm_wf m \<longleftrightarrow> sorted_wrt (<) (map fst m)"

definition bm_contains :: "('k, 'v) bmap \<Rightarrow> 'k \<Rightarrow> bool" where
  "bm_contains m k \<longleftrightarrow> bm_get m k \<noteq> None"

text \<open>\<open>entry(k).or_insert_with(d)\<close> followed by an update of the value in place.\<close>

definition bm_upsert :: "'k::linorder \<Rightarrow> 'v \<Rightarrow> ('v \<Rightarrow> 'v) \<Rightarrow> ('k, 'v) bmap \<Rightarrow> ('k, 'v) bmap" where
  "bm_upsert k d f m = bm_insert k (f (case bm_get m k of None \<Rightarrow> d | Some v \<Rightarrow> v)) m"

text \<open>\<open>entry(k).and_modify(f).or_insert(d)\<close>: the default is stored unmodified.\<close>

definition bm_modify_or :: "'k::linorder \<Rightarrow> ('v \<Rightarrow> 'v) \<Rightarrow> 'v \<Rightarrow> ('k, 'v) bmap \<Rightarrow> ('k, 'v) bmap" where
  "bm_modify_or k f d m = bm_insert k (case bm_get m k of None \<Rightarrow> d | Some v \<Rightarrow> f v) m"

definition bm_map :: "('v \<Rightarrow> 'w) \<Rightarrow> ('k, 'v) bmap \<Rightarrow> ('k, 'w) bmap" where
  "bm_map f m = map (\<lambda>(k, v). (k, f v)) m"

fun bm_of_list :: "('k::linorder \<times> 'v) list \<Rightarrow> ('k, 'v) bmap" where
  "bm_of_list [] = []"
| "bm_of_list ((k, v) # kvs) = foldl (\<lambda>m (k, v). bm_insert k v m) [(k, v)] kvs"

text \<open>\<open>BTreeMap::extend\<close>: later entries replace earlier ones.\<close>

definition bm_extend :: "('k::linorder, 'v) bmap \<Rightarrow> ('k \<times> 'v) list \<Rightarrow> ('k, 'v) bmap" where
  "bm_extend m kvs = foldl (\<lambda>m (k, v). bm_insert k v m) m kvs"

definition bm_keys :: "('k, 'v) bmap \<Rightarrow> 'k list" where
  "bm_keys m = map fst m"

definition bm_vals :: "('k, 'v) bmap \<Rightarrow> 'v list" where
  "bm_vals m = map snd m"

text \<open>A \<open>BTreeSet\<close> built from an iterator: the sorted list of its distinct elements.\<close>

definition set_of_list :: "'k::linorder list \<Rightarrow> 'k list" where
  "set_of_list ks = bm_keys (bm_extend [] (map (\<lambda>k. (k, ())) ks))"

subsection \<open>The representation\<close>

lemma bm_get_Nil [simp, map_laws]: "bm_get [] k = None"
  by (simp add: bm_get_def)

lemma bm_get_Cons [simp]: "bm_get ((a, b) # m) k = (if k = a then Some b else bm_get m k)"
  by (simp add: bm_get_def)

lemma bm_get_insert [simp, map_laws]:
  "bm_get (bm_insert k v m) k' = (if k' = k then Some v else bm_get m k')"
  by (induction k v m rule: bm_insert.induct) auto

lemma bm_get_SomeD: "bm_get m k = Some v \<Longrightarrow> (k, v) \<in> set m"
  by (simp add: bm_get_def map_of_SomeD)

lemma fst_set_insert: "fst ` set (bm_insert k v m) = insert k (fst ` set m)"
  by (induction k v m rule: bm_insert.induct) auto

lemma bm_wf_Nil [simp, map_laws]: "bm_wf []"
  by (simp add: bm_wf_def)

lemma bm_wf_Cons: "bm_wf ((k, v) # m) \<longleftrightarrow> bm_wf m \<and> (\<forall>k' \<in> fst ` set m. k < k')"
  by (auto simp: bm_wf_def)

lemma bm_wf_insert [simp, map_laws]: "bm_wf m \<Longrightarrow> bm_wf (bm_insert k v m)"
  by (induction k v m rule: bm_insert.induct) (auto simp: bm_wf_Cons fst_set_insert)

lemma bm_wf_filter: "bm_wf m \<Longrightarrow> bm_wf (filter P m)"
  by (induction m) (auto simp: bm_wf_Cons)

lemma bm_get_None_iff: "bm_get m k = None \<longleftrightarrow> k \<notin> fst ` set m"
  by (simp add: bm_get_def map_of_eq_None_iff)

lemma bm_get_mem: "bm_wf m \<Longrightarrow> (k, v) \<in> set m \<longleftrightarrow> bm_get m k = Some v"
  by (induction m) (force simp: bm_wf_Cons split: if_splits)+

lemma bm_get_filter:
  "bm_wf m \<Longrightarrow> bm_get (filter (\<lambda>(k, v). P k v) m) k =
     (case bm_get m k of None \<Rightarrow> None | Some v \<Rightarrow> if P k v then Some v else None)"
proof -
  assume wf: "bm_wf m"
  let ?f = "filter (\<lambda>(k, v). P k v) m"
  have mem: "bm_get ?f k = Some v \<longleftrightarrow> bm_get m k = Some v \<and> P k v" for v
    unfolding bm_get_mem [OF wf, symmetric] bm_get_mem [OF bm_wf_filter [OF wf], symmetric]
    by simp
  show ?thesis
  proof (cases "bm_get m k")
    case None
    with mem have "bm_get ?f k = None" by (metis not_None_eq)
    with None show ?thesis by simp
  next
    case (Some w)
    have "bm_get ?f k = Some w" if "P k w" using mem [of w] Some that by (simp only: simp_thms)
    moreover have "bm_get ?f k = None" if "\<not> P k w"
      using mem Some that by (metis not_None_eq option.inject)
    ultimately show ?thesis using Some by simp
  qed
qed

lemma bm_get_retain [map_laws]:
  "bm_wf m \<Longrightarrow> bm_get (bm_retain P m) k =
     (case bm_get m k of None \<Rightarrow> None | Some v \<Rightarrow> if P k v then Some v else None)"
  by (simp add: bm_retain_def bm_get_filter)

lemma bm_wf_retain [simp, map_laws]: "bm_wf m \<Longrightarrow> bm_wf (bm_retain P m)"
  by (simp add: bm_retain_def bm_wf_filter)

lemma bm_get_remove [simp, map_laws]: "bm_get (bm_remove k m) k' = (if k' = k then None else bm_get m k')"
  by (induction m) (auto simp: bm_remove_def)

lemma bm_wf_remove [simp, map_laws]: "bm_wf m \<Longrightarrow> bm_wf (bm_remove k m)"
  by (simp add: bm_remove_def bm_wf_filter)

lemma bm_get_map [simp]: "bm_get (bm_map f m) k = map_option f (bm_get m k)"
  by (induction m) (auto simp: bm_map_def)

lemma bm_wf_map [simp]: "bm_wf (bm_map f m) = bm_wf m"
  by (simp add: bm_wf_def bm_map_def split_def comp_def)

text \<open>The representation is canonical: equal lookups mean equal maps.\<close>

lemma bm_ext:
  assumes "bm_wf m" and "bm_wf m'" and "\<And>k. bm_get m k = bm_get m' k"
  shows "m = m'"
proof -
  have s: "set m = set m'"
    using bm_get_mem [OF assms(1)] bm_get_mem [OF assms(2)] assms(3) by auto
  have "map fst m = map fst m'"
    using assms(1,2) s unfolding bm_wf_def
    by (intro sorted_distinct_set_unique) (simp_all add: strict_sorted_iff)
  moreover have "inj_on fst (set m)"
    using assms(1) by (auto simp: inj_on_def bm_get_mem)
  ultimately show ?thesis
    using s by (metis map_inj_on Un_absorb)
qed

subsection \<open>The contract\<close>

locale ordered_map =
  fixes get :: "'m \<Rightarrow> 'k \<Rightarrow> 'v option"
    and ins :: "'k \<Rightarrow> 'v \<Rightarrow> 'm \<Rightarrow> 'm"
    and emp :: 'm
    and wf :: "'m \<Rightarrow> bool"
  assumes get_emp: "get emp k = None"
    and get_ins: "get (ins k v m) k' = (if k' = k then Some v else get m k')"
    and wf_emp: "wf emp"
    and wf_ins: "wf m \<Longrightarrow> wf (ins k v m)"
    and extensional: "wf m \<Longrightarrow> wf m' \<Longrightarrow> (\<And>k. get m k = get m' k) \<Longrightarrow> m = m'"
begin

text \<open>A loop of upserts: item \<open>x\<close> updates the value at \<open>key x\<close> with \<open>step x\<close>, starting from \<open>d x\<close>.\<close>

fun upserts :: "('x \<Rightarrow> 'k) \<Rightarrow> ('x \<Rightarrow> 'v) \<Rightarrow> ('x \<Rightarrow> 'v \<Rightarrow> 'v) \<Rightarrow> 'm \<Rightarrow> 'x list \<Rightarrow> 'm" where
  "upserts key d step m [] = m"
| "upserts key d step m (x # xs) =
     upserts key d step
       (ins (key x) (step x (case get m (key x) of None \<Rightarrow> d x | Some v \<Rightarrow> v)) m) xs"

text \<open>What one key sees of the loop: the steps of its own items, in order.\<close>

fun run_steps :: "('x \<Rightarrow> 'v) \<Rightarrow> ('x \<Rightarrow> 'v \<Rightarrow> 'v) \<Rightarrow> 'v option \<Rightarrow> 'x list \<Rightarrow> 'v option" where
  "run_steps d step a [] = a"
| "run_steps d step a (x # xs) =
     run_steps d step (Some (step x (case a of None \<Rightarrow> d x | Some v \<Rightarrow> v))) xs"

lemma wf_upserts: "wf m \<Longrightarrow> wf (upserts key d step m xs)"
  by (induction xs arbitrary: m) (simp_all add: wf_ins)

lemma get_upserts:
  "get (upserts key d step m xs) k =
     run_steps d step (get m k) (filter (\<lambda>x. key x = k) xs)"
  by (induction xs arbitrary: m) (auto simp: get_ins)

lemma upserts_append: "upserts key d step m (xs @ ys) = upserts key d step (upserts key d step m xs) ys"
  by (induction xs arbitrary: m) simp_all

lemma upserts_eqI:
  assumes "wf m" and "\<And>k. filter (\<lambda>x. key x = k) xs = filter (\<lambda>x. key x = k) ys"
  shows "upserts key d step m xs = upserts key d step m ys"
  by (rule extensional) (simp_all add: wf_upserts assms get_upserts)

end

interpretation bm: ordered_map bm_get bm_insert "[]" bm_wf
proof unfold_locales
  fix m m' :: "('a::linorder, 'b) bmap"
  assume "bm_wf m" "bm_wf m'" "\<And>k. bm_get m k = bm_get m' k"
  then show "m = m'" by (rule bm_ext)
qed (simp_all add: map_laws)

lemma bm_upserts_foldl:
  "foldl (\<lambda>m x. bm_upsert (key x) (d x) (step x) m) m xs = bm.upserts key d step m xs"
  by (induction xs arbitrary: m) (simp_all add: bm_upsert_def)

lemma bm_get_upsert [map_laws]:
  "bm_get (bm_upsert k d f m) k' =
     (if k' = k then Some (f (case bm_get m k of None \<Rightarrow> d | Some v \<Rightarrow> v)) else bm_get m k')"
  by (simp add: bm_upsert_def)

lemma bm_wf_upsert [simp, map_laws]: "bm_wf m \<Longrightarrow> bm_wf (bm_upsert k d f m)"
  by (simp add: bm_upsert_def)

lemma bm_get_modify_or [map_laws]:
  "bm_get (bm_modify_or k f d m) k' =
     (if k' = k then Some (case bm_get m k of None \<Rightarrow> d | Some v \<Rightarrow> f v) else bm_get m k')"
  by (simp add: bm_modify_or_def)

lemma bm_wf_modify_or [simp, map_laws]: "bm_wf m \<Longrightarrow> bm_wf (bm_modify_or k f d m)"
  by (simp add: bm_modify_or_def)

lemma bm_wf_extend [simp, map_laws]: "bm_wf m \<Longrightarrow> bm_wf (bm_extend m kvs)"
  unfolding bm_extend_def by (induction kvs arbitrary: m) auto

lemma bm_get_extend:
  "bm_get (bm_extend m kvs) k =
     (case map_of (rev kvs) k of None \<Rightarrow> bm_get m k | Some v \<Rightarrow> Some v)"
  unfolding bm_extend_def
  by (induction kvs arbitrary: m) (auto simp: map_add_def split: option.splits)

lemma set_of_list_sorted: "sorted_wrt (<) (set_of_list ks)"
  using bm_wf_extend [of "[]" "map (\<lambda>k. (k, ())) ks"]
  by (simp add: set_of_list_def bm_keys_def bm_wf_def)

lemma fst_set_extend: "fst ` set (bm_extend m kvs) = fst ` set m \<union> fst ` set kvs"
  unfolding bm_extend_def by (induction kvs arbitrary: m) (auto simp only: foldl.simps fst_set_insert split_beta set_simps image_insert fst_conv Un_iff insert_iff)

lemma set_set_of_list [simp]: "set (set_of_list ks) = set ks"
  by (simp add: set_of_list_def bm_keys_def fst_set_extend image_image)

text \<open>The minimum recorded per key, as the first-seen indexes keep it.\<close>

definition bm_min :: "'k::linorder \<Rightarrow> int \<Rightarrow> ('k, int) bmap \<Rightarrow> ('k, int) bmap" where
  "bm_min k t m = bm_modify_or k (\<lambda>old. min old t) t m"

lemma bm_wf_min [simp, map_laws]: "bm_wf m \<Longrightarrow> bm_wf (bm_min k t m)"
  by (simp add: bm_min_def)

lemma bm_get_min:
  "bm_get (bm_min k t m) k' =
     (if k' = k then Some (case bm_get m k of None \<Rightarrow> t | Some old \<Rightarrow> min old t) else bm_get m k')"
  by (simp add: bm_min_def map_laws)

lemma bm_wf_min_fold [simp]:
  "bm_wf m \<Longrightarrow> bm_wf (foldl (\<lambda>m x. bm_min (key x) (t x) m) m xs)"
  by (induction xs arbitrary: m) auto

text \<open>Entries strictly before a cut survive later insertions at or after the cut.\<close>

lemma bm_retain_before_min:
  assumes "bm_wf m" and "c \<le> t"
  shows "bm_retain (\<lambda>_ old. old < c) (bm_min k t m) = bm_retain (\<lambda>_ old. old < c) m"
  by (rule bm_ext)
    (use assms in \<open>auto simp: map_laws bm_get_min split: option.splits\<close>)

lemma bm_retain_before_fold:
  assumes "bm_wf m" and "\<And>x. x \<in> set xs \<Longrightarrow> c \<le> t x"
  shows "bm_retain (\<lambda>_ old. old < c) (foldl (\<lambda>m x. bm_min (key x) (t x) m) m xs) =
         bm_retain (\<lambda>_ old. old < c) m"
  using assms
  by (induction xs arbitrary: m) (simp_all add: bm_retain_before_min)

lemma bm_retain_all:
  assumes "\<And>k v. (k, v) \<in> set m \<Longrightarrow> P k v"
  shows "bm_retain P m = m"
  unfolding bm_retain_def using assms by (induction m) auto

end
