(* ===== verification/F64.thy ===== *)
theory F64
  imports Prelude "HOL-Library.Log_Nat" "HOL-Library.Word"
begin

text \<open>
  IEEE 754 binary64 (\<open>f64\<close>) with round-to-nearest-even, over exact rationals. A value is NaN,
  an infinity or \<open>Fin x\<close> with \<open>x\<close> a rational; every operation computes the exact rational
  result and rounds it with \<open>rnd\<close>. The two zeros are identified and NaN payloads dropped: the
  code that is modelled compares zeros with \<open>==\<close> and divides by values it has checked to be
  nonzero, so it does not observe the difference. \<open>f_ok\<close> says that a value is one the format
  can represent; it is preserved by every operation. The lemmas that the components use are:
  rounding is the identity on representable values, keeps signs, never takes a nonzero
  difference of representable values to zero, and is exact on tick grids (\<open>tick\<close>).
\<close>

subsection \<open>Powers of two and binary logarithm\<close>

definition pow2 :: "int \<Rightarrow> rat" where
  "pow2 k = (if 0 \<le> k then 2 ^ nat k else 1 / 2 ^ nat (- k))"

lemma pow2_powi: "pow2 k = 2 powi k"
proof (cases "0 \<le> k")
  case True
  then show ?thesis by (simp add: pow2_def power_int_def)
next
  case False
  then show ?thesis by (simp add: pow2_def power_int_def power_one_over)
qed

lemma pow2_pos [simp]: "0 < pow2 k"
  by (simp add: pow2_def)

lemma pow2_nonneg [simp]: "0 \<le> pow2 k"
  using pow2_pos [of k] by linarith

lemma pow2_nonzero [simp]: "pow2 k \<noteq> 0"
  using pow2_pos [of k] by linarith

lemma pow2_0 [simp]: "pow2 0 = 1"
  by (simp add: pow2_def)

lemma pow2_add: "pow2 (a + b) = pow2 a * pow2 b"
  by (simp add: pow2_powi power_int_add)

lemma pow2_diff: "pow2 (a - b) = pow2 a / pow2 b"
  by (simp add: pow2_powi power_int_diff)

lemma pow2_nat: "pow2 (int n) = 2 ^ n"
  by (simp add: pow2_def)

lemma pow2_numerals: "pow2 1 = 2" "pow2 52 = 2 ^ 52" "pow2 53 = 2 ^ 53"
  by (simp_all add: pow2_def)

lemma pow2_le_iff [simp]: "pow2 a \<le> pow2 b \<longleftrightarrow> a \<le> b"
proof -
  have le: "pow2 a \<le> pow2 b" if "a \<le> b" for a b
  proof -
    have "1 \<le> pow2 (b - a)" using that by (simp add: pow2_def)
    then have "pow2 a * 1 \<le> pow2 a * pow2 (b - a)" by (intro mult_left_mono) auto
    also have "\<dots> = pow2 b" by (simp flip: pow2_add)
    finally show ?thesis by simp
  qed
  have lt: "pow2 b < pow2 a" if "b < a"
  proof -
    have "pow2 b < pow2 b * 2" by simp
    also have "\<dots> = pow2 (b + 1)" by (simp add: pow2_add pow2_numerals)
    also have "\<dots> \<le> pow2 a" using that by (intro le) simp
    finally show ?thesis .
  qed
  show ?thesis using le lt by (meson linorder_not_le)
qed

lemma pow2_less_iff [simp]: "pow2 a < pow2 b \<longleftrightarrow> a < b"
  using pow2_le_iff [of b a] by linarith

lemma pow2_Suc: "pow2 (k + 1) = 2 * pow2 k"
  by (simp add: pow2_add pow2_numerals)

definition flog2 :: "rat \<Rightarrow> int" where
  "flog2 r = (let (n, d) = quotient_of r; k = bitlen n - bitlen d
              in if pow2 k \<le> r then k else k - 1)"

lemma flog2_bounds:
  assumes "0 < r"
  shows "pow2 (flog2 r) \<le> r" and "r < pow2 (flog2 r + 1)"
proof -
  obtain n d where q: "quotient_of r = (n, d)" by (cases "quotient_of r")
  have d: "0 < d" using q quotient_of_denom_pos by blast
  have r: "r = of_int n / of_int d" using q quotient_of_div by blast
  have n: "0 < n" using assms r d by (simp add: zero_less_divide_iff)
  have bound: "pow2 (bitlen x - 1) \<le> of_int x \<and> of_int x < pow2 (bitlen x)" if "0 < x" for x :: int
  proof -
    have b: "0 < bitlen x" using that by (simp add: bitlen_eq_zero_iff order.not_eq_order_implies_strict bitlen_nonneg)
    have "2 ^ nat (bitlen x - 1) \<le> x" "x < 2 ^ nat (bitlen x)" using bitlen_bounds [OF that] by auto
    then have "(2 :: rat) ^ nat (bitlen x - 1) \<le> of_int x" "of_int x < (2 :: rat) ^ nat (bitlen x)"
      by (metis of_int_le_iff of_int_numeral of_int_power) (metis \<open>x < 2 ^ nat (bitlen x)\<close> of_int_less_iff of_int_numeral of_int_power)
    with b show ?thesis by (simp add: pow2_def)
  qed
  define k where "k = bitlen n - bitlen d"
  have "r < pow2 (bitlen n) / pow2 (bitlen d - 1)"
    unfolding r using bound [OF n] bound [OF d] n d by (intro frac_less) auto
  also have "\<dots> = pow2 (k + 1)" by (simp add: k_def algebra_simps flip: pow2_diff)
  finally have hi: "r < pow2 (k + 1)" .
  have "pow2 (bitlen n - 1) / pow2 (bitlen d) \<le> r"
    unfolding r using bound [OF n] bound [OF d] n d by (intro frac_le) auto
  then have lo: "pow2 (k - 1) \<le> r" by (simp add: k_def pow2_diff [symmetric] algebra_simps)
  have "flog2 r = (if pow2 k \<le> r then k else k - 1)"
    by (simp add: flog2_def q k_def)
  with hi lo show "pow2 (flog2 r) \<le> r" "r < pow2 (flog2 r + 1)" by (auto split: if_splits)
qed

lemma flog2_le: "0 < r \<Longrightarrow> r < pow2 (e + 1) \<Longrightarrow> flog2 r \<le> e"
  using flog2_bounds(1) [of r] pow2_less_iff [of "flog2 r" "e + 1"] by linarith

lemma flog2_mono: "0 < r \<Longrightarrow> r \<le> s \<Longrightarrow> flog2 r \<le> flog2 s"
  using flog2_bounds(2) [of s] by (intro flog2_le) auto

subsection \<open>Rounding to an integer, ties to even\<close>

definition rhe :: "rat \<Rightarrow> int" where
  "rhe x = (let f = \<lfloor>x\<rfloor>; d = x - of_int f
            in if d < 1/2 then f else if 1/2 < d then f + 1 else if even f then f else f + 1)"

lemma rhe_of_int [simp]: "rhe (of_int n) = n"
  by (simp add: rhe_def)

lemma rhe_cases: "rhe x = \<lfloor>x\<rfloor> \<or> (rhe x = \<lfloor>x\<rfloor> + 1 \<and> of_int \<lfloor>x\<rfloor> < x)"
  by (auto simp: rhe_def Let_def)

lemma rhe_ge: "of_int m \<le> x \<Longrightarrow> m \<le> rhe x"
  using rhe_cases [of x] le_floor_iff [of m x] by linarith

lemma rhe_le:
  assumes "x \<le> of_int m"
  shows "rhe x \<le> m"
proof (cases "rhe x = \<lfloor>x\<rfloor>")
  case True
  then show ?thesis using assms by linarith
next
  case False
  with rhe_cases [of x] have "rhe x = \<lfloor>x\<rfloor> + 1" "of_int \<lfloor>x\<rfloor> < x" by auto
  moreover from this(2) assms have "\<lfloor>x\<rfloor> < m" by linarith
  ultimately show ?thesis by simp
qed

subsection \<open>Representable values and rounding\<close>

definition ulp_exp :: "rat \<Rightarrow> int" where
  "ulp_exp x = max (flog2 \<bar>x\<bar>) (-1022) - 52"

definition is_repr :: "rat \<Rightarrow> bool" where
  "is_repr x \<longleftrightarrow> (\<exists>m e. x = of_int m * pow2 e \<and> \<bar>m\<bar> < 2 ^ 53 \<and> -1074 \<le> e) \<and> \<bar>x\<bar> < pow2 1024"

datatype f64 = NaN | NegInf | PosInf | Fin rat

definition rnd :: "rat \<Rightarrow> f64" where
  "rnd x = (if x = 0 then Fin 0
     else let e = ulp_exp x; v = of_int (rhe (x / pow2 e)) * pow2 e
          in if pow2 1024 \<le> v then PosInf else if v \<le> - pow2 1024 then NegInf else Fin v)"

fun f_ok :: "f64 \<Rightarrow> bool" where
  "f_ok (Fin x) = is_repr x"
| "f_ok _ = True"

lemma is_repr_0 [simp]: "is_repr 0"
  unfolding is_repr_def by (intro conjI exI [of _ 0]) auto

lemma is_repr_minus [simp]: "is_repr (- x) = is_repr x"
proof -
  have "is_repr (- x)" if repr: "is_repr x" for x
  proof -
    from repr obtain m e where "x = of_int m * pow2 e" "\<bar>m\<bar> < 2 ^ 53" "-1074 \<le> e"
      by (auto simp: is_repr_def)
    then have "- x = of_int (- m) * pow2 e \<and> \<bar>- m\<bar> < 2 ^ 53 \<and> -1074 \<le> e" by simp
    then show ?thesis using repr unfolding is_repr_def by (metis abs_minus_cancel)
  qed
  from this [of x] this [of "- x"] show ?thesis by auto
qed

lemma is_repr_abs [simp]: "is_repr \<bar>x\<bar> = is_repr x"
  by (simp add: abs_if)

lemma of_int_mult_pow2_shift:
  assumes "e' \<le> e"
  shows "of_int m * pow2 e = of_int (m * 2 ^ nat (e - e')) * pow2 e'"
proof -
  have "pow2 e = pow2 (e - e') * pow2 e'" by (simp flip: pow2_add)
  also have "pow2 (e - e') = of_int (2 ^ nat (e - e'))" using assms by (simp add: pow2_def)
  finally show ?thesis by simp
qed

text \<open>A representable value is an integer multiple of its own unit in the last place.\<close>

lemma is_repr_ulp:
  assumes "is_repr x" and "x \<noteq> 0"
  obtains n where "x = of_int n * pow2 (ulp_exp x)"
proof -
  from assms(1) obtain m e where x: "x = of_int m * pow2 e" and m: "\<bar>m\<bar> < 2 ^ 53" and e: "-1074 \<le> e"
    by (auto simp: is_repr_def)
  have "\<bar>x\<bar> = of_int \<bar>m\<bar> * pow2 e" by (simp add: x abs_mult)
  also have "\<dots> < of_int (2 ^ 53) * pow2 e"
    using m by (intro mult_strict_right_mono) (simp_all only: of_int_less_iff pow2_pos)
  also have "\<dots> = pow2 (52 + e + 1)"
    using pow2_add [of 53 e] by (simp add: pow2_numerals add.commute)
  finally have "flog2 \<bar>x\<bar> \<le> 52 + e" using assms(2) by (intro flog2_le) auto
  then have "ulp_exp x \<le> e" using e by (simp add: ulp_exp_def)
  from of_int_mult_pow2_shift [OF this, of m] that x show thesis by metis
qed

lemma rnd_repr [simp]:
  assumes "is_repr x"
  shows "rnd x = Fin x"
proof (cases "x = 0")
  case True
  then show ?thesis by (simp add: rnd_def)
next
  case False
  obtain n where n: "x = of_int n * pow2 (ulp_exp x)" using is_repr_ulp [OF assms False] .
  then have "x / pow2 (ulp_exp x) = of_int n" by (metis nonzero_mult_div_cancel_right pow2_nonzero)
  moreover have "\<bar>x\<bar> < pow2 1024" using assms by (simp add: is_repr_def)
  ultimately show ?thesis using False n by (auto simp: rnd_def Let_def)
qed

lemma ulp_exp_ge: "-1074 \<le> ulp_exp x"
  by (simp add: ulp_exp_def)

lemma ulp_scaled_less:
  assumes "x \<noteq> 0"
  shows "\<bar>x / pow2 (ulp_exp x)\<bar> < 2 ^ 53"
proof -
  have "\<bar>x\<bar> < pow2 (flog2 \<bar>x\<bar> + 1)" using assms by (intro flog2_bounds) auto
  also have "\<dots> \<le> pow2 (ulp_exp x + 53)" by (simp add: ulp_exp_def)
  also have "\<dots> = 2 ^ 53 * pow2 (ulp_exp x)" by (simp only: pow2_add pow2_numerals mult.commute)
  finally show ?thesis by (simp add: abs_divide field_simps)
qed

lemma rnd_f_ok [simp]: "f_ok (rnd x)"
proof (cases "x = 0")
  case True
  then show ?thesis by (simp add: rnd_def)
next
  case False
  let ?e = "ulp_exp x" and ?m = "rhe (x / pow2 (ulp_exp x))"
  have "\<bar>x / pow2 ?e\<bar> \<le> of_int (2 ^ 53)" using ulp_scaled_less [OF False] by simp
  then have "x / pow2 ?e \<le> of_int (2 ^ 53)" "of_int (- (2 ^ 53)) \<le> x / pow2 ?e"
    by (simp_all only: abs_le_iff of_int_minus) linarith
  then have m: "?m \<le> 2 ^ 53" "- (2 ^ 53) \<le> ?m" using rhe_le rhe_ge by blast+
  have "\<exists>m e. of_int ?m * pow2 ?e = of_int m * pow2 e \<and> \<bar>m\<bar> < 2 ^ 53 \<and> -1074 \<le> e"
  proof (cases "\<bar>?m\<bar> < 2 ^ 53")
    case True
    then show ?thesis using ulp_exp_ge by blast
  next
    case False
    with m have "?m = 2 ^ 53 \<or> ?m = - (2 ^ 53)" by linarith
    then have half: "?m = 2 * (?m div 2)" "\<bar>?m div 2\<bar> < 2 ^ 53"
      by (elim disjE; simp only:; simp)+
    have "of_int ?m * pow2 ?e = of_int (?m div 2) * pow2 (?e + 1)"
      by (subst half(1)) (simp add: pow2_Suc)
    moreover have "-1074 \<le> ?e + 1" using ulp_exp_ge [of x] by linarith
    ultimately show ?thesis using half(2) by blast
  qed
  then show ?thesis using False by (auto simp: rnd_def Let_def is_repr_def abs_less_iff)
qed

text \<open>Rounding keeps the sign, and never loses a nonzero multiple of the smallest subnormal.\<close>

lemma rnd_nonneg: "0 \<le> x \<Longrightarrow> rnd x = PosInf \<or> (\<exists>y. rnd x = Fin y \<and> 0 \<le> y)"
proof -
  assume "0 \<le> x"
  then have "0 \<le> rhe (x / pow2 (ulp_exp x))" by (intro rhe_ge) simp
  then have "0 \<le> of_int (rhe (x / pow2 (ulp_exp x))) * pow2 (ulp_exp x)" by simp
  then show ?thesis using pow2_pos [of 1024] by (auto simp: rnd_def Let_def)
qed

lemma rnd_pos_scaled:
  assumes "0 < x" and "1 \<le> x / pow2 (ulp_exp x)"
  shows "rnd x = PosInf \<or> (\<exists>y. rnd x = Fin y \<and> 0 < y)"
proof -
  have "1 \<le> rhe (x / pow2 (ulp_exp x))" using assms(2) by (intro rhe_ge) simp
  then have "0 < of_int (rhe (x / pow2 (ulp_exp x))) * pow2 (ulp_exp x)" by simp
  then show ?thesis using assms(1) pow2_pos [of 1024] by (auto simp: rnd_def Let_def)
qed

lemma rnd_pos:
  assumes "0 < x" and "x = of_int n * pow2 (-1074)"
  shows "rnd x = PosInf \<or> (\<exists>y. rnd x = Fin y \<and> 0 < y)"
proof (rule rnd_pos_scaled [OF assms(1)])
  show "1 \<le> x / pow2 (ulp_exp x)"
  proof (cases "-1022 \<le> flog2 \<bar>x\<bar>")
    case True
    then have "pow2 (ulp_exp x) \<le> pow2 (flog2 \<bar>x\<bar>)" by (simp add: ulp_exp_def)
    also have "\<dots> \<le> x" using assms(1) flog2_bounds(1) [of x] by simp
    finally show ?thesis by simp
  next
    case False
    then have e: "ulp_exp x = -1074" by (simp add: ulp_exp_def)
    have "0 < (of_int n :: rat) * pow2 (-1074)" using assms by simp
    then have "0 < (of_int n :: rat)" by (rule zero_less_mult_pos2) simp
    then have "(1 :: rat) \<le> of_int n" by simp
    then show ?thesis unfolding e by (simp add: assms(2))
  qed
qed

lemma rnd_pos_normal:
  assumes "pow2 (-1022) \<le> x"
  shows "rnd x = PosInf \<or> (\<exists>y. rnd x = Fin y \<and> 0 < y)"
proof (rule rnd_pos_scaled)
  show x: "0 < x" using assms pow2_pos [of "-1022"] by linarith
  have "-1022 \<le> flog2 x"
    using assms flog2_bounds(2) [OF x] pow2_less_iff [of "-1022" "flog2 x + 1"] by linarith
  then have "pow2 (ulp_exp x) \<le> pow2 (flog2 x)" using x by (simp add: ulp_exp_def)
  also have "\<dots> \<le> x" by (rule flog2_bounds(1) [OF x])
  finally show "1 \<le> x / pow2 (ulp_exp x)" by simp
qed

lemma is_repr_min_ulp:
  assumes "is_repr x"
  obtains n where "x = of_int n * pow2 (-1074)"
  using assms of_int_mult_pow2_shift unfolding is_repr_def by metis

lemma rnd_diff_pos:
  assumes "is_repr x" and "is_repr y" and "x < y"
  shows "rnd (y - x) = PosInf \<or> (\<exists>z. rnd (y - x) = Fin z \<and> 0 < z)"
proof -
  obtain n m where "x = of_int n * pow2 (-1074)" "y = of_int m * pow2 (-1074)"
    using is_repr_min_ulp [OF assms(1)] is_repr_min_ulp [OF assms(2)] by metis
  then have "y - x = of_int (m - n) * pow2 (-1074)" by (simp add: algebra_simps)
  then show ?thesis using assms(3) by (intro rnd_pos [of _ "m - n"]) auto
qed

text \<open>Rounding never crosses a representable bound.\<close>

lemma rnd_le_repr:
  assumes "0 \<le> x" and "x \<le> y" and "is_repr y"
  shows "\<exists>z. rnd x = Fin z \<and> 0 \<le> z \<and> z \<le> y"
proof (cases "x = 0")
  case True
  then show ?thesis using assms by (simp add: rnd_def)
next
  case False
  with assms have pos: "0 < x" "y \<noteq> 0" by auto
  let ?e = "ulp_exp x"
  obtain n where n: "y = of_int n * pow2 (ulp_exp y)" using is_repr_ulp [OF assms(3) pos(2)] .
  have "flog2 \<bar>x\<bar> \<le> flog2 \<bar>y\<bar>" using assms pos by (intro flog2_mono) auto
  then have "?e \<le> ulp_exp y" by (simp add: ulp_exp_def)
  then obtain k where k: "y = of_int k * pow2 ?e" using n of_int_mult_pow2_shift by metis
  have "x / pow2 ?e \<le> of_int k" using assms(2) k by (simp add: field_simps)
  then have "rhe (x / pow2 ?e) \<le> k" by (rule rhe_le)
  then have "of_int (rhe (x / pow2 ?e)) * pow2 ?e \<le> y" unfolding k by (intro mult_right_mono) simp_all
  moreover have "0 \<le> of_int (rhe (x / pow2 ?e)) * pow2 ?e"
    using pos(1) by (intro mult_nonneg_nonneg) (simp_all add: rhe_ge)
  moreover have "y < pow2 1024" using assms(3) abs_ge_self [of y] unfolding is_repr_def by linarith
  ultimately show ?thesis using False by (auto simp: rnd_def Let_def dest: order.strict_trans1)
qed

lemma rnd_ge_repr:
  assumes "is_repr y" and "0 \<le> y" and "y \<le> x"
  shows "rnd x = PosInf \<or> (\<exists>z. rnd x = Fin z \<and> y \<le> z)"
proof (cases "y = 0")
  case True
  then show ?thesis using rnd_nonneg [of x] assms(3) by simp
next
  case False
  then have pos: "0 < y" "0 < x" using assms by linarith+
  let ?e = "ulp_exp x"
  have mono: "flog2 y \<le> flog2 x" by (rule flog2_mono [OF pos(1) assms(3)])
  have "y \<le> of_int (rhe (x / pow2 ?e)) * pow2 ?e"
  proof (cases "ulp_exp y = ?e")
    case True
    obtain n where n: "y = of_int n * pow2 ?e" using is_repr_ulp [OF assms(1) False] True by metis
    then have "of_int n \<le> x / pow2 ?e" using assms(3) by (simp add: pos_le_divide_eq)
    then have "n \<le> rhe (x / pow2 ?e)" by (rule rhe_ge)
    then show ?thesis unfolding n by (simp add: mult_right_mono)
  next
    case False
    then have e: "?e = flog2 x - 52" "flog2 y + 1 \<le> flog2 x" using mono pos by (auto simp: ulp_exp_def)
    have "y \<le> pow2 (flog2 x)"
      using flog2_bounds(2) [OF pos(1)] pow2_le_iff [of "flog2 y + 1" "flog2 x"] e(2) by linarith
    also have scaled: "pow2 (flog2 x) = of_int (2 ^ 52) * pow2 ?e" by (simp add: e(1) pow2_diff pow2_numerals)
    also have "\<dots> \<le> of_int (rhe (x / pow2 ?e)) * pow2 ?e"
    proof -
      have "of_int (2 ^ 52) \<le> x / pow2 ?e"
        using flog2_bounds(1) [OF pos(2)] unfolding scaled by (simp add: pos_le_divide_eq)
      then have "2 ^ 52 \<le> rhe (x / pow2 ?e)" by (rule rhe_ge)
      then show ?thesis by (intro mult_right_mono) (simp_all only: of_int_le_iff pow2_nonneg)
    qed
    finally show ?thesis .
  qed
  moreover have "- pow2 1024 < y" using pos pow2_pos [of 1024] by linarith
  ultimately show ?thesis using pos by (auto simp: rnd_def Let_def)
qed

text \<open>Exactness on a dyadic grid: integers below \<open>2\<^sup>5\<^sup>3\<close> scaled by \<open>2\<^sup>-\<^sup>k\<close>.\<close>

lemma is_repr_grid:
  assumes "\<bar>n\<bar> < 2 ^ 53" and "k \<le> 1074"
  shows "is_repr (of_int n * pow2 (- int k))"
proof -
  have "\<bar>of_int n * pow2 (- int k)\<bar> \<le> of_int \<bar>n\<bar> * pow2 0"
    unfolding abs_mult of_int_abs abs_of_nonneg [OF pow2_nonneg]
    by (rule mult_left_mono) (simp_all del: pow2_0)
  also have "\<dots> < of_int (2 ^ 53)" using assms(1) by (simp only: pow2_0 mult_1_right of_int_less_iff)
  also have "\<dots> \<le> pow2 1024" using pow2_le_iff [of 53 1024] by (simp add: pow2_def)
  finally have "\<bar>of_int n * pow2 (- int k)\<bar> < pow2 1024" .
  then show ?thesis using assms unfolding is_repr_def by (intro conjI exI) auto
qed

subsection \<open>Operations\<close>

text \<open>
  \<open>f_add\<close>, \<open>f_mul\<close>, \<open>f_div\<close>, \<open>f_less\<close> are the IEEE operations; subtraction adds the negation.
  Division by zero gives an infinity or NaN, reading the zero as positive.
\<close>

fun f_neg :: "f64 \<Rightarrow> f64" where
  "f_neg NaN = NaN"
| "f_neg NegInf = PosInf"
| "f_neg PosInf = NegInf"
| "f_neg (Fin x) = Fin (- x)"

fun f_abs :: "f64 \<Rightarrow> f64" where
  "f_abs NaN = NaN"
| "f_abs (Fin x) = Fin \<bar>x\<bar>"
| "f_abs _ = PosInf"

fun f_add :: "f64 \<Rightarrow> f64 \<Rightarrow> f64" where
  "f_add NaN _ = NaN"
| "f_add _ NaN = NaN"
| "f_add (Fin x) (Fin y) = rnd (x + y)"
| "f_add PosInf NegInf = NaN"
| "f_add NegInf PosInf = NaN"
| "f_add PosInf _ = PosInf"
| "f_add _ PosInf = PosInf"
| "f_add NegInf _ = NegInf"
| "f_add _ NegInf = NegInf"

definition f_inf :: "rat \<Rightarrow> f64" where
  "f_inf s = (if s = 0 then NaN else if 0 < s then PosInf else NegInf)"

fun f_sign :: "f64 \<Rightarrow> rat" where
  "f_sign NaN = 0"
| "f_sign PosInf = 1"
| "f_sign NegInf = -1"
| "f_sign (Fin x) = sgn x"

fun f_mul :: "f64 \<Rightarrow> f64 \<Rightarrow> f64" where
  "f_mul NaN _ = NaN"
| "f_mul _ NaN = NaN"
| "f_mul (Fin x) (Fin y) = rnd (x * y)"
| "f_mul x y = f_inf (f_sign x * f_sign y)"

fun f_div :: "f64 \<Rightarrow> f64 \<Rightarrow> f64" where
  "f_div NaN _ = NaN"
| "f_div _ NaN = NaN"
| "f_div (Fin x) (Fin y) = (if y = 0 then f_inf (sgn x) else rnd (x / y))"
| "f_div (Fin x) _ = Fin 0"
| "f_div x (Fin y) = f_inf (f_sign x * (if y < 0 then -1 else 1))"
| "f_div _ _ = NaN"

fun f_less :: "f64 \<Rightarrow> f64 \<Rightarrow> bool" where
  "f_less NaN _ = False"
| "f_less _ NaN = False"
| "f_less PosInf _ = False"
| "f_less _ NegInf = False"
| "f_less (Fin x) (Fin y) = (x < y)"
| "f_less NegInf _ = True"
| "f_less _ PosInf = True"

instantiation f64 :: "{zero, one, plus, minus, uminus, times, inverse, abs, ord}"
begin

definition zero_f64 :: f64 where "zero_f64 = Fin 0"
definition one_f64 :: f64 where "one_f64 = Fin 1"
definition plus_f64 :: "f64 \<Rightarrow> f64 \<Rightarrow> f64" where "plus_f64 = f_add"
definition uminus_f64 :: "f64 \<Rightarrow> f64" where "uminus_f64 = f_neg"
definition minus_f64 :: "f64 \<Rightarrow> f64 \<Rightarrow> f64" where "minus_f64 x y = f_add x (f_neg y)"
definition times_f64 :: "f64 \<Rightarrow> f64 \<Rightarrow> f64" where "times_f64 = f_mul"
definition divide_f64 :: "f64 \<Rightarrow> f64 \<Rightarrow> f64" where "divide_f64 = f_div"
definition inverse_f64 :: "f64 \<Rightarrow> f64" where "inverse_f64 = f_div (Fin 1)"
definition abs_f64 :: "f64 \<Rightarrow> f64" where "abs_f64 = f_abs"
definition less_f64 :: "f64 \<Rightarrow> f64 \<Rightarrow> bool" where "less_f64 = f_less"
definition less_eq_f64 :: "f64 \<Rightarrow> f64 \<Rightarrow> bool" where "less_eq_f64 x y = (f_less x y \<or> (x = y \<and> x \<noteq> NaN))"

instance ..

end

text \<open>\<open>==\<close> on floats, \<open>is_finite\<close>, \<open>f64::min\<close>, \<open>f64::max\<close>, \<open>signum\<close>, \<open>iter().sum()\<close>, a decimal literal.\<close>

definition feq :: "f64 \<Rightarrow> f64 \<Rightarrow> bool" where
  "feq x y \<longleftrightarrow> x = y \<and> x \<noteq> NaN"

fun is_fin :: "f64 \<Rightarrow> bool" where
  "is_fin (Fin _) = True"
| "is_fin _ = False"

definition f_min :: "f64 \<Rightarrow> f64 \<Rightarrow> f64" where
  "f_min x y = (if x = NaN then y else if y = NaN then x else if x \<le> y then x else y)"

definition f_max :: "f64 \<Rightarrow> f64 \<Rightarrow> f64" where
  "f_max x y = (if x = NaN then y else if y = NaN then x else if x \<le> y then y else x)"

definition f_signum :: "f64 \<Rightarrow> f64" where
  "f_signum x = (if x = NaN then NaN else if x < 0 then - 1 else 1)"

definition f_sum :: "f64 list \<Rightarrow> f64" where
  "f_sum xs = foldl (+) 0 xs"

definition f_lit :: "rat \<Rightarrow> f64" where
  "f_lit x = rnd x"

text \<open>The exact value of a finite float.\<close>

fun f_val :: "f64 \<Rightarrow> rat" where
  "f_val (Fin x) = x"
| "f_val _ = 0"

named_theorems f64_ops "the operations on floats, unfolded to their defining functions"

lemmas f64_op_defs [f64_ops] =
  zero_f64_def one_f64_def plus_f64_def minus_f64_def uminus_f64_def times_f64_def
  divide_f64_def abs_f64_def less_f64_def less_eq_f64_def feq_def

subsection \<open>Laws of the operations\<close>

lemma f_ok_zero [simp]: "f_ok 0"
  by (simp add: f64_ops)

lemma f_ok_one [simp]: "f_ok 1"
  using is_repr_grid [of 1 0] by (simp add: f64_ops)

lemma f64_one_simps [simp]: "is_fin 1" "0 < (1 :: f64)" "is_fin 0"
  by (simp_all add: f64_ops)

lemma f_ok_inf [simp]: "f_ok (f_inf s)"
  by (simp add: f_inf_def)

lemma f_ok_neg [simp]: "f_ok (- x) = f_ok x"
  by (cases x) (simp_all add: f64_ops)

lemma f_ok_abs [simp]: "f_ok \<bar>x\<bar> = f_ok x"
  by (cases x) (simp_all add: f64_ops)

lemma f_ok_add [simp]: "f_ok (x + y)"
  by (cases x; cases y) (simp_all add: f64_ops)

lemma f_ok_minus [simp]: "f_ok (x - y)"
  by (cases x; cases y) (simp_all add: f64_ops)

lemma f_ok_mult [simp]: "f_ok (x * y)"
  by (cases x; cases y) (simp_all add: f64_ops)

lemma f_ok_div [simp]: "f_ok (x / y)"
  by (cases x; cases y) (simp_all add: f64_ops)

lemma f_ok_lit [simp]: "f_ok (f_lit x)"
  by (simp add: f_lit_def)

lemma f_ok_min [simp]: "f_ok x \<Longrightarrow> f_ok y \<Longrightarrow> f_ok (f_min x y)"
  by (simp add: f_min_def)

lemma Fin_minus_self [simp]: "Fin x - Fin x = 0"
  by (simp add: f64_ops rnd_def)

lemma minus_self_cases: "x - x = 0 \<or> x - x = (NaN :: f64)"
  by (cases x) (simp_all add: f64_ops rnd_def)

lemma Fin_less [simp]: "Fin x < Fin y \<longleftrightarrow> x < y"
  by (simp add: f64_ops)

lemma Fin_le [simp]: "Fin x \<le> Fin y \<longleftrightarrow> x \<le> y"
  by (auto simp: f64_ops)

lemma zero_less_Fin [simp]: "0 < Fin x \<longleftrightarrow> 0 < x"
  by (simp add: f64_ops)

lemma NaN_less [simp]: "\<not> NaN < x" "\<not> x < NaN" "\<not> NaN \<le> x" "\<not> x \<le> NaN"
  by (cases x; simp add: f64_ops)+

lemma f64_less_irrefl [simp]: "\<not> x < (x :: f64)"
  by (cases x) (simp_all add: f64_ops)

lemma f64_less_trans: "x < y \<Longrightarrow> y < z \<Longrightarrow> x < (z :: f64)"
  by (cases x; cases y; cases z) (simp_all add: f64_ops)

lemma f64_le_trans: "x \<le> y \<Longrightarrow> y \<le> z \<Longrightarrow> x \<le> (z :: f64)"
  by (cases x; cases y; cases z) (auto simp: f64_ops)

lemma f64_not_le: "x \<noteq> NaN \<Longrightarrow> y \<noteq> NaN \<Longrightarrow> \<not> x \<le> y \<longleftrightarrow> y < (x :: f64)"
  by (cases x; cases y) (auto simp: f64_ops)

lemma f64_less_le: "x < y \<Longrightarrow> x \<le> (y :: f64)"
  by (simp add: f64_ops)

lemma is_fin_iff: "is_fin x \<longleftrightarrow> (\<exists>r. x = Fin r)"
  by (cases x) simp_all

lemma f64_fin_not_le_0: "is_fin x \<Longrightarrow> \<not> x \<le> 0 \<longleftrightarrow> 0 < x"
  by (cases x) (auto simp: f64_ops)

lemma f64_mult_commute: "x * y = y * (x :: f64)"
  by (cases x; cases y) (simp_all add: f64_ops mult.commute)

text \<open>The product of positive factors, when it is finite.\<close>

lemma f_mul_fin_nonneg:
  assumes "is_fin (x * y)" "0 < x" "0 < y"
  shows "\<exists>z. x * y = Fin z \<and> is_repr z \<and> 0 \<le> z"
proof -
  obtain z where z: "x * y = Fin z" using assms(1) by (auto simp: is_fin_iff)
  have "f_ok (x * y)" by simp
  then have "is_repr z" by (simp add: z)
  moreover have "0 \<le> z"
  proof (cases "\<exists>a b. x = Fin a \<and> y = Fin b")
    case True
    then obtain a b where "x = Fin a" "y = Fin b" by blast
    then show ?thesis using z assms rnd_nonneg [of "a * b"] by (auto simp: times_f64_def)
  next
    case False
    then show ?thesis using z assms by (cases x; cases y) (simp_all add: f64_ops f_inf_def split: if_splits)
  qed
  ultimately show ?thesis using z by blast
qed

lemma f_min_cases: "f_min x y = x \<or> f_min x y = y"
  by (simp add: f_min_def)

lemma f_min_Fin [simp]: "f_min (Fin x) (Fin y) = Fin (min x y)"
  by (simp add: f_min_def min_def)

lemma f_lit_pos:
  assumes "1 / 2 ^ n \<le> x" and "n \<le> 1022"
  shows "0 < f_lit x"
proof -
  have "pow2 (-1022) \<le> pow2 (- int n)" using assms(2) by simp
  also have "\<dots> = 1 / 2 ^ n" by (simp add: pow2_def)
  finally have "pow2 (-1022) \<le> x" using assms(1) by simp
  from rnd_pos_normal [OF this] show ?thesis by (auto simp: f_lit_def f64_ops)
qed

lemma pos_fin_iff: "is_fin x \<and> 0 < x \<longleftrightarrow> (\<exists>r. x = Fin r \<and> 0 < r)"
  by (cases x) simp_all

text \<open>Subtracting a smaller representable value leaves a positive one, no larger than before.\<close>

lemma Fin_minus_pos:
  assumes "is_repr x" "is_repr y" "0 \<le> x" "x < y"
  shows "\<exists>z. Fin y - Fin x = Fin z \<and> 0 < z \<and> z \<le> y"
proof -
  have "\<exists>z. rnd (y - x) = Fin z \<and> 0 \<le> z \<and> z \<le> y"
    by (rule rnd_le_repr) (use assms in auto)
  with rnd_diff_pos [OF assms(1,2,4)] show ?thesis by (auto simp: f64_ops)
qed

subsection \<open>Exact arithmetic on a tick grid\<close>

text \<open>\<open>tick k n\<close> is the float \<open>n * 2\<^sup>-\<^sup>k\<close>; below \<open>2\<^sup>5\<^sup>3\<close> ticks the operations do not round.\<close>

definition tick :: "nat \<Rightarrow> int \<Rightarrow> f64" where
  "tick k n = Fin (of_int n * pow2 (- int k))"

definition tick_fits :: "int \<Rightarrow> bool" where
  "tick_fits n \<longleftrightarrow> \<bar>n\<bar> < 2 ^ 53"

named_theorems tick_laws "exact operations on tick grids"

lemma f_ok_tick [simp]: "tick_fits n \<Longrightarrow> k \<le> 1074 \<Longrightarrow> f_ok (tick k n)"
  by (simp add: tick_def tick_fits_def is_repr_grid)

lemma tick_0 [simp]: "tick k 0 = 0"
  by (simp add: tick_def f64_ops)

lemma tick_inject [simp]: "tick k n = tick k m \<longleftrightarrow> n = m"
  by (simp add: tick_def)

lemma tick_eq_0_iff [simp]: "tick k n = 0 \<longleftrightarrow> n = 0" "0 = tick k n \<longleftrightarrow> n = 0"
  by (auto simp: tick_def f64_ops)

lemma feq_tick_0 [simp]: "feq (tick k n) 0 \<longleftrightarrow> n = 0"
  by (simp add: feq_def) (simp add: tick_def)

lemma tick_less [tick_laws]: "tick k n < tick k m \<longleftrightarrow> n < m"
proof -
  have "rat_of_int n * pow2 (- int k) < of_int m * pow2 (- int k) \<longleftrightarrow> n < m"
    using mult_less_cancel_right_pos [of "pow2 (- int k)" "of_int n" "of_int m"] by simp
  then show ?thesis by (simp add: tick_def)
qed

lemma tick_pos [tick_laws]: "0 < tick k n \<longleftrightarrow> 0 < n"
  using tick_less [of k 0 n] by simp

lemma tick_min [tick_laws]: "f_min (tick k n) (tick k m) = tick k (min n m)"
proof -
  have "min (of_int n * pow2 (- int k)) (of_int m * pow2 (- int k)) = of_int (min n m) * pow2 (- int k)"
  proof (cases "n \<le> m")
    case True
    then have "(of_int n :: rat) * pow2 (- int k) \<le> of_int m * pow2 (- int k)" by (intro mult_right_mono) auto
    with True show ?thesis by simp
  next
    case False
    then have "(of_int m :: rat) * pow2 (- int k) \<le> of_int n * pow2 (- int k)" by (intro mult_right_mono) auto
    with False show ?thesis by simp
  qed
  then show ?thesis by (simp only: tick_def f_min_Fin)
qed

lemma rnd_tick:
  "tick_fits n \<Longrightarrow> k \<le> 1074 \<Longrightarrow> rnd (of_int n * pow2 (- int k)) = tick k n"
  unfolding tick_def tick_fits_def by (intro rnd_repr is_repr_grid)

lemma tick_add [tick_laws]:
  assumes "tick_fits (n + m)" and "k \<le> 1074"
  shows "tick k n + tick k m = tick k (n + m)"
proof -
  have "of_int n * pow2 (- int k) + of_int m * pow2 (- int k) = of_int (n + m) * pow2 (- int k)"
    by (simp add: algebra_simps)
  then show ?thesis
    unfolding plus_f64_def using rnd_tick [OF assms] by (simp only: tick_def f_add.simps)
qed

lemma tick_neg [tick_laws]: "- tick k n = tick k (- n)"
  by (simp add: tick_def f64_ops)

lemma tick_diff [tick_laws]:
  assumes "tick_fits (n - m)" and "k \<le> 1074"
  shows "tick k n - tick k m = tick k (n - m)"
proof -
  have "tick k n - tick k m = tick k n + tick k (- m)" by (simp add: tick_def f64_ops)
  then show ?thesis using tick_add [of n "- m" k] assms by simp
qed

lemma tick_mult [tick_laws]:
  assumes "tick_fits (n * m)" and "j + k \<le> 1074"
  shows "tick j n * tick k m = tick (j + k) (n * m)"
proof -
  have "of_int n * pow2 (- int j) * (of_int m * pow2 (- int k)) = of_int (n * m) * pow2 (- int (j + k))"
    using pow2_add [of "- int j" "- int k"] by (simp add: algebra_simps)
  then show ?thesis
    unfolding times_f64_def using rnd_tick [OF assms] by (simp only: tick_def f_mul.simps)
qed

lemma one_tick: "(1 :: f64) = tick 0 1"
  by (simp add: tick_def f64_ops)

lemma tick_unit_mult [tick_laws]:
  assumes "tick_fits n" and "k \<le> 1074"
  shows "1 * tick k n = tick k n" "- 1 * tick k n = tick k (- n)"
  using tick_mult [of 1 n 0 k] tick_mult [of "- 1" n 0 k] assms
  by (simp_all add: one_tick tick_neg tick_fits_def)

lemma tick_div_one [tick_laws]: "tick_fits n \<Longrightarrow> k \<le> 1074 \<Longrightarrow> tick k n / 1 = tick k n"
  using rnd_tick [of n k] by (simp add: tick_def f64_ops)

lemma tick_foldl:
  assumes "k \<le> 1074" and "\<And>i. i \<le> length ns \<Longrightarrow> tick_fits (a + sum_list (take i ns))"
  shows "foldl (+) (tick k a) (map (tick k) ns) = tick k (a + sum_list ns)"
  using assms(2)
proof (induction ns arbitrary: a)
  case Nil
  then show ?case by simp
next
  case (Cons n ns)
  have "tick_fits (a + n)" using Cons.prems [of 1] by simp
  then have "tick k a + tick k n = tick k (a + n)" by (rule tick_add [OF _ assms(1)])
  moreover have "foldl (+) (tick k (a + n)) (map (tick k) ns) = tick k (a + n + sum_list ns)"
    using Cons.prems [of "Suc _"] by (intro Cons.IH) (simp add: add.assoc)
  ultimately show ?case by (simp add: add.assoc)
qed

text \<open>The sum of ticks whose magnitudes together fit is exact.\<close>

lemma abs_sum_list_take: "\<bar>sum_list (take i ns)\<bar> \<le> sum_list (map abs (ns :: int list))"
proof (induction ns arbitrary: i)
  case Nil
  then show ?case by simp
next
  case (Cons n ns)
  have "0 \<le> sum_list (map abs ns)" by (intro sum_list_nonneg) auto
  with Cons.IH [of "i - 1"] show ?case by (cases i; simp; linarith)
qed

lemma tick_sum:
  assumes "k \<le> 1074" and "sum_list (map abs ns) < 2 ^ 53"
  shows "f_sum (map (tick k) ns) = tick k (sum_list ns)"
proof -
  have "foldl (+) (tick k 0) (map (tick k) ns) = tick k (0 + sum_list ns)"
    using assms abs_sum_list_take [of _ ns]
    by (intro tick_foldl) (auto simp: tick_fits_def intro: order.strict_trans1)
  then show ?thesis by (simp add: f_sum_def)
qed

subsection \<open>The bit pattern\<close>

text \<open>\<open>f64::from_bits\<close>: sign, 11 exponent bits, 52 fraction bits.\<close>

definition f64_of_bits :: "64 word \<Rightarrow> f64" where
  "f64_of_bits w =
     (let b = unat w; neg = b div 2 ^ 63 = 1; ex = (b div 2 ^ 52) mod 2 ^ 11; fr = b mod 2 ^ 52;
          sgnd = (\<lambda>x. if neg then - x else x)
      in if ex = 2047 then (if fr = 0 then (if neg then NegInf else PosInf) else NaN)
         else if ex = 0 then Fin (sgnd (of_nat fr * pow2 (-1074)))
         else Fin (sgnd (of_nat (2 ^ 52 + fr) * pow2 (int ex - 1075))))"

end
