(* ===== verification/Fifo.thy ===== *)
theory Fifo
  imports OrdMap F64
begin

text \<open>
  The FIFO lot ledger of \<open>nav.rs\<close>: \<open>Lot\<close>, \<open>QuantityFifo\<close> and \<open>close_fifo\<close>. A buy first closes
  short lots from the front of their queue, a sell long lots; what is left opens a new lot.
  Inverse contracts keep USD face value, so their quantity is multiplied by the price first and
  a remainder of at most \<open>1e-10\<close> is dropped. Proved here: the matching loop terminates on all
  floats, NaN and infinities included; the ledger never holds longs and shorts at once; its lots
  stay positive; and on a tick grid the float ledger computes exactly what the same algorithm
  computes over integers, for which the profit identity holds.
\<close>

subsection \<open>Data\<close>

datatype side = Buy | Sell

datatype liquidity_role = Maker | Taker | Unknown | InternalCross

record lot =
  lot_entry_price :: f64
  lot_quantity :: f64

record quantity_fifo =
  qf_longs :: "lot list"
  qf_shorts :: "lot list"
  qf_realized_pnl :: f64
  qf_inverse :: bool

definition fifo_default :: "bool \<Rightarrow> quantity_fifo" where
  "fifo_default is_inverse = \<lparr>qf_longs = [], qf_shorts = [], qf_realized_pnl = 0, qf_inverse = is_inverse\<rparr>"

definition fifo_dust :: f64 where
  "fifo_dust = f_lit (1 / 10 ^ 10)"

definition clean_zero :: "f64 \<Rightarrow> f64" where
  "clean_zero v = (if \<bar>v\<bar> < f_lit (1 / 10 ^ 12) then 0 else v)"

subsection \<open>Closing lots from the front\<close>

text \<open>The divisor of a lot's profit: its entry price for an inverse contract.\<close>

definition lot_divisor :: "bool \<Rightarrow> lot \<Rightarrow> f64" where
  "lot_divisor is_inverse l = (if is_inverse then lot_entry_price l else 1)"

definition lot_spent :: "bool \<Rightarrow> f64 \<Rightarrow> bool" where
  "lot_spent is_inverse q \<longleftrightarrow> feq q 0 \<or> (is_inverse \<and> \<bar>q\<bar> \<le> fifo_dust)"

text \<open>
  Why the loop ends. A round either empties the incoming quantity, or subtracts a lot from
  itself and pops it; only a lot of quantity \<open>-\<infinity>\<close> survives a round, as NaN, and the next round
  ends the loop.
\<close>

lemma round_cases:
  assumes "0 < q"
  shows "\<not> 0 < q - f_min q l \<or> l - f_min q l = 0 \<or> l = NegInf"
  using assms by (cases q; cases l) (simp_all add: f64_ops f_min_def rnd_def)

lemma round_not_NegInf:
  assumes "0 < q" and "l \<noteq> NegInf"
  shows "l - f_min q l \<noteq> NegInf"
proof (cases "\<exists>a b. q = Fin a \<and> l = Fin b")
  case True
  then obtain a b where "q = Fin a" "l = Fin b" by blast
  then show ?thesis using rnd_nonneg [of "b - a"] by (auto simp: f64_ops f_min_def rnd_def [of 0])
next
  case False
  then show ?thesis using assms by (cases q; cases l) (simp_all add: f64_ops f_min_def)
qed

function close_fifo_loop ::
    "lot list \<Rightarrow> f64 \<Rightarrow> f64 \<Rightarrow> f64 \<Rightarrow> bool \<Rightarrow> f64 \<Rightarrow> lot list \<times> f64 \<times> f64" where
  "close_fifo_loop lots close_price quantity direction is_inverse realized =
     (if \<not> 0 < quantity then (lots, realized, quantity)
      else case lots of
        [] \<Rightarrow> (lots, realized, quantity)
      | l # rest \<Rightarrow>
          let matched = f_min quantity (lot_quantity l);
              realized' = realized
                + direction * (close_price - lot_entry_price l) * matched / lot_divisor is_inverse l;
              quantity' = quantity - matched;
              left = lot_quantity l - matched
          in if lot_spent is_inverse left
             then close_fifo_loop rest close_price quantity' direction is_inverse realized'
             else close_fifo_loop (l\<lparr>lot_quantity := left\<rparr> # rest) close_price quantity'
                    direction is_inverse realized')"
  by pat_completeness auto
termination
proof (relation "measure (\<lambda>(lots, _, q, _, _, _). 4 * length lots + (if 0 < q then 1 else 0)
          + (case lots of [] \<Rightarrow> 0 | l # _ \<Rightarrow> if lot_quantity l = NegInf then 2 else 0))", goal_cases)
  case 1
  then show ?case by simp
next
  case (2 lots p q d is_inverse r l rest m r' q' left)
  then show ?case by (auto split: list.splits)
next
  case (3 lots p q d is_inverse r l rest m r' q' left)
  have q: "0 < q" and m: "m = f_min q (lot_quantity l)" using 3 by simp_all
  have left: "left = lot_quantity l - m" "\<not> feq left 0" using 3 by (auto simp: lot_spent_def)
  then have ne: "left \<noteq> 0" by (auto simp: f64_ops)
  show ?case
  proof (cases "lot_quantity l = NegInf")
    case True
    then have "left = NaN" using q m left by (cases q) (simp_all add: f64_ops f_min_def)
    then show ?thesis using True 3 by simp
  next
    case False
    then have "\<not> 0 < q - m" using round_cases [OF q, of "lot_quantity l"] ne m left by auto
    moreover have "left \<noteq> NegInf" using round_not_NegInf [OF q False] m left by simp
    ultimately show ?thesis using 3 False by simp
  qed
qed

declare close_fifo_loop.simps [simp del]

definition close_fifo :: "lot list \<Rightarrow> f64 \<Rightarrow> f64 \<Rightarrow> f64 \<Rightarrow> bool \<Rightarrow> lot list \<times> f64 \<times> f64" where
  "close_fifo lots close_price quantity direction is_inverse =
     close_fifo_loop lots close_price quantity direction is_inverse 0"

definition fifo_apply_fill :: "side \<Rightarrow> f64 \<Rightarrow> f64 \<Rightarrow> quantity_fifo \<Rightarrow> quantity_fifo" where
  "fifo_apply_fill sd price quantity0 f =
     (let is_inverse = qf_inverse f;
          quantity = (if is_inverse then quantity0 * price else quantity0);
          (f', realized, remaining) =
            (case sd of
               Buy \<Rightarrow> (case close_fifo (qf_shorts f) price quantity (- 1) is_inverse of
                        (s, r, q) \<Rightarrow> (f\<lparr>qf_shorts := s\<rparr>, r, q))
             | Sell \<Rightarrow> (case close_fifo (qf_longs f) price quantity 1 is_inverse of
                        (l, r, q) \<Rightarrow> (f\<lparr>qf_longs := l\<rparr>, r, q)));
          f'' = (if (if is_inverse then fifo_dust else 0) < remaining
                 then (let l = \<lparr>lot_entry_price = price, lot_quantity = remaining\<rparr>
                       in case sd of
                            Buy \<Rightarrow> f'\<lparr>qf_longs := qf_longs f' @ [l]\<rparr>
                          | Sell \<Rightarrow> f'\<lparr>qf_shorts := qf_shorts f' @ [l]\<rparr>)
                 else f')
      in f''\<lparr>qf_realized_pnl := qf_realized_pnl f'' + realized\<rparr>)"

definition floating_pnl :: "quantity_fifo \<Rightarrow> f64 \<Rightarrow> f64" where
  "floating_pnl f mark =
     f_sum (map (\<lambda>l. (mark - lot_entry_price l) * lot_quantity l / lot_divisor (qf_inverse f) l)
              (qf_longs f)
          @ map (\<lambda>l. (lot_entry_price l - mark) * lot_quantity l / lot_divisor (qf_inverse f) l)
              (qf_shorts f))"

definition long_quantity :: "quantity_fifo \<Rightarrow> f64 \<Rightarrow> f64" where
  "long_quantity f mark =
     f_sum (map lot_quantity (qf_longs f)) / (if qf_inverse f then mark else 1)"

definition short_quantity :: "quantity_fifo \<Rightarrow> f64 \<Rightarrow> f64" where
  "short_quantity f mark =
     f_sum (map lot_quantity (qf_shorts f)) / (if qf_inverse f then mark else 1)"


subsection \<open>The ledger never holds both sides\<close>

text \<open>One round of the loop, and the invariant rule the ledger lemmas go through.\<close>

definition lot_matched :: "f64 \<Rightarrow> lot \<Rightarrow> f64" where
  "lot_matched q l = f_min q (lot_quantity l)"

definition lot_left :: "f64 \<Rightarrow> lot \<Rightarrow> f64" where
  "lot_left q l = lot_quantity l - lot_matched q l"

definition lot_pnl :: "f64 \<Rightarrow> f64 \<Rightarrow> f64 \<Rightarrow> bool \<Rightarrow> lot \<Rightarrow> f64" where
  "lot_pnl p q d i l = d * (p - lot_entry_price l) * lot_matched q l / lot_divisor i l"

lemma close_fifo_loop_done: "\<not> 0 < q \<Longrightarrow> close_fifo_loop lots p q d i r = (lots, r, q)"
  by (subst close_fifo_loop.simps) simp

lemma close_fifo_loop_Nil: "close_fifo_loop [] p q d i r = ([], r, q)"
  by (subst close_fifo_loop.simps) simp

lemma close_fifo_loop_Cons:
  "0 < q \<Longrightarrow> close_fifo_loop (l # rest) p q d i r =
     close_fifo_loop
       (if lot_spent i (lot_left q l) then rest else l\<lparr>lot_quantity := lot_left q l\<rparr> # rest)
       p (q - lot_matched q l) d i (r + lot_pnl p q d i l)"
  by (subst close_fifo_loop.simps) (simp add: lot_left_def lot_matched_def lot_pnl_def Let_def)

lemma close_fifo_loop_inv:
  assumes "close_fifo_loop lots p q d i r = (lots', r', q')" and "Inv lots q r"
    and pop: "\<And>l rest q r. 0 < q \<Longrightarrow> Inv (l # rest) q r \<Longrightarrow> lot_spent i (lot_left q l) \<Longrightarrow>
               Inv rest (q - lot_matched q l) (r + lot_pnl p q d i l)"
    and keep: "\<And>l rest q r. 0 < q \<Longrightarrow> Inv (l # rest) q r \<Longrightarrow> \<not> lot_spent i (lot_left q l) \<Longrightarrow>
               Inv (l\<lparr>lot_quantity := lot_left q l\<rparr> # rest) (q - lot_matched q l) (r + lot_pnl p q d i l)"
  shows "Inv lots' q' r' \<and> (\<not> 0 < q' \<or> lots' = [])"
  using assms
proof (induction lots p q d i r rule: close_fifo_loop.induct)
  case (1 lots p q d i r)
  note eq = "1.prems"(1) and Inv = "1.prems"(2) and pop = "1.prems"(3) and keep = "1.prems"(4)
  show ?case
  proof (cases "0 < q \<and> lots \<noteq> []")
    case False
    then show ?thesis using eq Inv by (auto simp: close_fifo_loop_done close_fifo_loop_Nil)
  next
    case True
    then obtain l rest where lots: "lots = l # rest" and q: "0 < q" by (cases lots) auto
    note eq' = eq [unfolded lots close_fifo_loop_Cons [OF q]]
    note folds = lot_left_def lot_matched_def lot_pnl_def
    show ?thesis
    proof (cases "lot_spent i (lot_left q l)")
      case spent: True
      show ?thesis
        by (rule "1.IH"(1) [OF _ lots refl refl refl refl])
          (use q spent eq' pop [OF q Inv [unfolded lots] spent] pop keep in \<open>simp_all add: folds\<close>)
    next
      case spent: False
      show ?thesis
        by (rule "1.IH"(2) [OF _ lots refl refl refl refl])
          (use q spent eq' keep [OF q Inv [unfolded lots] spent] pop keep in \<open>simp_all add: folds\<close>)
    qed
  qed
qed

text \<open>When quantity is left over, every lot of the opposite side has been consumed.\<close>

lemma close_fifo_leftover:
  "close_fifo lots p q d i = (lots', r', q') \<Longrightarrow> 0 < q' \<Longrightarrow> lots' = []"
  using close_fifo_loop_inv [of lots p q d i 0 lots' r' q' "\<lambda>_ _ _. True"] by (simp add: close_fifo_def)

lemma close_fifo_Nil [simp]: "close_fifo [] p q d i = ([], 0, q)"
  by (simp add: close_fifo_def close_fifo_loop.simps)

definition fifo_one_sided :: "quantity_fifo \<Rightarrow> bool" where
  "fifo_one_sided f \<longleftrightarrow> qf_longs f = [] \<or> qf_shorts f = []"

lemma fifo_dust_pos: "0 < fifo_dust" "f_ok fifo_dust"
  by (simp_all add: fifo_dust_def f_lit_pos [of 34])

lemma fifo_dust_not_NaN: "fifo_dust \<noteq> NaN"
  using fifo_dust_pos(1) by auto

lemma fifo_threshold_pos: "(if i then fifo_dust else 0) < x \<Longrightarrow> 0 < x"
  using fifo_dust_pos f64_less_trans [of 0 fifo_dust x] by (auto split: if_splits)

lemma fifo_apply_fill_inverse [simp]: "qf_inverse (fifo_apply_fill sd p q f) = qf_inverse f"
  by (simp add: fifo_apply_fill_def Let_def split: side.splits prod.splits)

lemma fifo_apply_fill_one_sided:
  assumes "fifo_one_sided f"
  shows "fifo_one_sided (fifo_apply_fill sd p q f)"
proof (cases sd)
  case Buy
  obtain s r q' where c: "close_fifo (qf_shorts f) p (if qf_inverse f then q * p else q) (- 1) (qf_inverse f)
      = (s, r, q')" by (metis prod_cases3)
  have "0 < q' \<Longrightarrow> s = []" by (rule close_fifo_leftover [OF c])
  moreover have "qf_shorts f = [] \<Longrightarrow> s = []" using c by auto
  ultimately show ?thesis using assms c Buy fifo_threshold_pos [of "qf_inverse f" q']
    by (auto simp: fifo_apply_fill_def fifo_one_sided_def Let_def)
next
  case Sell
  obtain s r q' where c: "close_fifo (qf_longs f) p (if qf_inverse f then q * p else q) 1 (qf_inverse f)
      = (s, r, q')" by (metis prod_cases3)
  have "0 < q' \<Longrightarrow> s = []" by (rule close_fifo_leftover [OF c])
  moreover have "qf_longs f = [] \<Longrightarrow> s = []" using c by auto
  ultimately show ?thesis using assms c Sell fifo_threshold_pos [of "qf_inverse f" q']
    by (auto simp: fifo_apply_fill_def fifo_one_sided_def Let_def)
qed


subsection \<open>Lots stay positive and close in order\<close>

definition fifo_threshold :: "bool \<Rightarrow> f64" where
  "fifo_threshold i = (if i then fifo_dust else 0)"

definition lot_ok :: "bool \<Rightarrow> lot \<Rightarrow> bool" where
  "lot_ok i l \<longleftrightarrow> is_fin (lot_quantity l) \<and> f_ok (lot_quantity l) \<and> fifo_threshold i < lot_quantity l"

definition fifo_ok :: "quantity_fifo \<Rightarrow> bool" where
  "fifo_ok f \<longleftrightarrow> fifo_one_sided f
     \<and> list_all (lot_ok (qf_inverse f)) (qf_longs f) \<and> list_all (lot_ok (qf_inverse f)) (qf_shorts f)"

text \<open>A usable quantity: a representable finite number, not negative.\<close>

definition qty_ok :: "f64 \<Rightarrow> bool" where
  "qty_ok q \<longleftrightarrow> is_fin q \<and> f_ok q \<and> 0 \<le> q"

lemma qty_ok_Fin: "qty_ok q \<longleftrightarrow> (\<exists>a. q = Fin a \<and> is_repr a \<and> 0 \<le> a)"
  by (cases q) (auto simp: qty_ok_def f64_ops)

lemma lot_ok_Fin:
  "lot_ok i l \<longleftrightarrow> (\<exists>a. lot_quantity l = Fin a \<and> is_repr a \<and> 0 < a \<and> fifo_threshold i < Fin a)"
proof -
  have "0 < x" if "fifo_threshold i < x" for x
    using fifo_threshold_pos that by (simp add: fifo_threshold_def)
  then have "0 < y" if "fifo_threshold i < Fin y" for y using that zero_less_Fin by blast
  then show ?thesis by (cases "lot_quantity l") (auto simp: lot_ok_def)
qed

text \<open>The difference of two usable quantities, the smaller from the larger.\<close>

lemma qty_ok_diff:
  assumes "is_repr a" "is_repr b" "0 \<le> b" "b \<le> a"
  shows "\<exists>c. Fin a - Fin b = Fin c \<and> is_repr c \<and> 0 \<le> c \<and> c \<le> a \<and> (b < a \<longrightarrow> 0 < c)"
proof (cases "b = a")
  case True
  then show ?thesis using assms by (auto simp: zero_f64_def)
next
  case False
  then have "b < a" using assms by simp
  from Fin_minus_pos [OF assms(2,1,3) this] obtain c where c: "Fin a - Fin b = Fin c" "0 < c" "c \<le> a" by blast
  moreover have "f_ok (Fin a - Fin b)" by simp
  ultimately show ?thesis by auto
qed

text \<open>The round keeps both quantities usable; a lot it leaves in the queue is still positive.\<close>

lemma round_ok:
  assumes "qty_ok q" "0 < q" "lot_ok i l"
  shows "qty_ok (q - lot_matched q l)" and "q - lot_matched q l \<le> q"
    and "\<not> lot_spent i (lot_left q l) \<Longrightarrow> lot_ok i (l\<lparr>lot_quantity := lot_left q l\<rparr>)"
proof -
  obtain a where a: "q = Fin a" "is_repr a" "0 \<le> a" using assms by (auto simp: qty_ok_Fin)
  obtain b where b: "lot_quantity l = Fin b" "is_repr b" "0 < b" using assms by (auto simp: lot_ok_Fin)
  have m: "lot_matched q l = Fin (min a b)" by (simp add: lot_matched_def a b)
  have mr: "is_repr (min a b)" "0 \<le> min a b" using a b by (simp_all add: min_def)
  obtain e where e: "Fin a - Fin (min a b) = Fin e" "is_repr e" "0 \<le> e" "e \<le> a"
    using qty_ok_diff [OF a(2) mr] by auto
  have "q - lot_matched q l = Fin e" using e(1) m by (simp add: a(1))
  then show "qty_ok (q - lot_matched q l)" "q - lot_matched q l \<le> q"
    using e a(1) by (simp_all add: qty_ok_Fin)
  obtain c where c: "Fin b - Fin (min a b) = Fin c" "is_repr c" "0 \<le> c" using qty_ok_diff [OF b(2) mr] by auto
  then have "lot_left q l = Fin c" by (simp add: lot_left_def m b)
  then show "\<not> lot_spent i (lot_left q l) \<Longrightarrow> lot_ok i (l\<lparr>lot_quantity := lot_left q l\<rparr>)"
    using c fifo_dust_not_NaN f64_not_le [of "Fin c" fifo_dust]
    by (cases "c = 0") (auto simp: lot_spent_def lot_ok_def fifo_threshold_def feq_def zero_f64_def abs_f64_def)
qed


text \<open>What closing leaves: usable lots, a usable rest, and the queue with its front cut off.\<close>

lemma close_fifo_loop_ok:
  assumes "close_fifo_loop lots p q d i r = (lots', r', q')"
    and "list_all (lot_ok i) lots" and "qty_ok q"
  shows "list_all (lot_ok i) lots' \<and> qty_ok q' \<and> q' \<le> q"
proof -
  let ?Inv = "\<lambda>ls x (r :: f64). list_all (lot_ok i) ls \<and> qty_ok x \<and> x \<le> q"
  have "?Inv lots' q' r' \<and> (\<not> 0 < q' \<or> lots' = [])"
  proof (rule close_fifo_loop_inv [OF assms(1), of ?Inv])
    show "?Inv lots q r" using assms(2,3) by (auto simp: qty_ok_Fin)
  next
    fix l rest x r
    assume x: "0 < x" and I: "?Inv (l # rest) x r" and "lot_spent i (lot_left x l)"
    show "?Inv rest (x - lot_matched x l) (r + lot_pnl p x d i l)"
      using I x round_ok(1,2) [of x i l] f64_le_trans [of _ x q] by simp
  next
    fix l rest x r
    assume x: "0 < x" and I: "?Inv (l # rest) x r" and "\<not> lot_spent i (lot_left x l)"
    then show "?Inv (l\<lparr>lot_quantity := lot_left x l\<rparr> # rest) (x - lot_matched x l) (r + lot_pnl p x d i l)"
      using round_ok [of x i l] f64_le_trans [of _ x q] by simp
  qed
  then show ?thesis by blast
qed

definition cut_front :: "lot list \<Rightarrow> lot list \<Rightarrow> bool" where
  "cut_front lots lots' \<longleftrightarrow>
     (\<exists>n. lots' = drop n lots
        \<or> (n < length lots \<and> (\<exists>q. lots' = (lots ! n)\<lparr>lot_quantity := q\<rparr> # drop (Suc n) lots)))"

lemma cut_front_pop: "cut_front lots (l # rest) \<Longrightarrow> cut_front lots rest"
  unfolding cut_front_def by (metis drop_Suc list.sel(3) tl_drop)

lemma cut_front_keep:
  assumes "cut_front lots (l # rest)"
  shows "cut_front lots (l\<lparr>lot_quantity := q\<rparr> # rest)"
proof -
  from assms obtain n where n: "l # rest = drop n lots
      \<or> (n < length lots \<and> (\<exists>q. l # rest = (lots ! n)\<lparr>lot_quantity := q\<rparr> # drop (Suc n) lots))"
    by (auto simp: cut_front_def)
  then have "n < length lots \<and> rest = drop (Suc n) lots \<and> (\<exists>q. l = lots ! n \<or> l = (lots ! n)\<lparr>lot_quantity := q\<rparr>)"
  proof (elim disjE)
    assume e: "l # rest = drop n lots"
    then have "n < length lots" by (metis drop_all list.distinct(1) not_le)
    moreover from this have "drop n lots = lots ! n # drop (Suc n) lots" by (simp add: Cons_nth_drop_Suc)
    ultimately show ?thesis using e by simp
  qed auto
  then show ?thesis unfolding cut_front_def by (intro exI [of _ n] disjI2) auto
qed

lemma close_fifo_cut_front:
  assumes "close_fifo lots p q d i = (lots', r', q')"
  shows "cut_front lots lots'"
proof -
  have "cut_front lots lots" unfolding cut_front_def by (rule exI [of _ 0]) simp
  from close_fifo_loop_inv [OF assms [unfolded close_fifo_def], of "\<lambda>ls _ _. cut_front lots ls", OF this]
  show ?thesis using cut_front_pop cut_front_keep by blast
qed

lemma fifo_default_ok [simp]: "fifo_ok (fifo_default i)" "qf_inverse (fifo_default i) = i"
  by (simp_all add: fifo_default_def fifo_ok_def fifo_one_sided_def)

lemma fifo_apply_fill_ok:
  assumes "fifo_ok f" and "is_fin (if qf_inverse f then q * p else q)" "f_ok q" "0 < q" "0 < p"
  shows "fifo_ok (fifo_apply_fill sd p q f)"
proof -
  define x where "x = (if qf_inverse f then q * p else q)"
  have x: "qty_ok x"
  proof (cases "qf_inverse f")
    case True
    then show ?thesis using f_mul_fin_nonneg [of q p] assms(2-5) by (auto simp: x_def qty_ok_Fin)
  next
    case False
    then show ?thesis using assms(2-4) f64_less_le by (auto simp: x_def qty_ok_def)
  qed
  have one: "fifo_one_sided (fifo_apply_fill sd p q f)"
    using assms(1) by (intro fifo_apply_fill_one_sided) (simp add: fifo_ok_def)
  show ?thesis
  proof (cases sd)
    case Buy
    obtain s r y where c: "close_fifo (qf_shorts f) p x (- 1) (qf_inverse f) = (s, r, y)" by (metis prod_cases3)
    have "list_all (lot_ok (qf_inverse f)) s \<and> qty_ok y"
      using close_fifo_loop_ok [OF c [unfolded close_fifo_def] _ x] assms(1) by (simp add: fifo_ok_def)
    then show ?thesis using one assms(1) Buy c
      by (auto simp: fifo_apply_fill_def fifo_ok_def Let_def x_def [symmetric] lot_ok_def qty_ok_def
          fifo_threshold_def split: if_splits)
  next
    case Sell
    obtain s r y where c: "close_fifo (qf_longs f) p x 1 (qf_inverse f) = (s, r, y)" by (metis prod_cases3)
    have "list_all (lot_ok (qf_inverse f)) s \<and> qty_ok y"
      using close_fifo_loop_ok [OF c [unfolded close_fifo_def] _ x] assms(1) by (simp add: fifo_ok_def)
    then show ?thesis using one assms(1) Sell c
      by (auto simp: fifo_apply_fill_def fifo_ok_def Let_def x_def [symmetric] lot_ok_def qty_ok_def
          fifo_threshold_def split: if_splits)
  qed
qed


subsection \<open>The same ledger over integer ticks\<close>

text \<open>
  The reference: lots as (price ticks, quantity ticks), integer arithmetic. A ledger of floats
  on a grid is the image \<open>fifo_of\<close> of one over ticks, and the code's operation commutes with it
  as long as the figures fit the 53-bit significand.
\<close>

type_synonym tlot = "int \<times> int"

record tick_fifo =
  tf_longs :: "tlot list"
  tf_shorts :: "tlot list"
  tf_realized :: int

fun close_ticks :: "tlot list \<Rightarrow> int \<Rightarrow> int \<Rightarrow> int \<Rightarrow> int \<Rightarrow> tlot list \<times> int \<times> int" where
  "close_ticks [] p q d r = ([], r, q)"
| "close_ticks ((e, l) # rest) p q d r =
     (if q \<le> 0 then ((e, l) # rest, r, q)
      else let m = min q l; r' = r + d * (p - e) * m
           in if l - m = 0 then close_ticks rest p (q - m) d r'
              else ((e, l - m) # rest, r', q - m))"

fun apply_ticks :: "side \<Rightarrow> int \<Rightarrow> int \<Rightarrow> tick_fifo \<Rightarrow> tick_fifo" where
  "apply_ticks Buy p q t =
     (case close_ticks (tf_shorts t) p q (-1) 0 of (s, r, x) \<Rightarrow>
        \<lparr>tf_longs = (if 0 < x then tf_longs t @ [(p, x)] else tf_longs t),
         tf_shorts = s, tf_realized = tf_realized t + r\<rparr>)"
| "apply_ticks Sell p q t =
     (case close_ticks (tf_longs t) p q 1 0 of (l, r, x) \<Rightarrow>
        \<lparr>tf_longs = l, tf_shorts = (if 0 < x then tf_shorts t @ [(p, x)] else tf_shorts t),
         tf_realized = tf_realized t + r\<rparr>)"

fun side_sign :: "side \<Rightarrow> int" where
  "side_sign Buy = 1"
| "side_sign Sell = -1"

definition lots_pnl :: "int \<Rightarrow> tlot list \<Rightarrow> int" where
  "lots_pnl m ls = sum_list (map (\<lambda>(e, l). (m - e) * l) ls)"

definition lots_qty :: "tlot list \<Rightarrow> int" where
  "lots_qty ls = sum_list (map snd ls)"

definition tick_value :: "int \<Rightarrow> tick_fifo \<Rightarrow> int" where
  "tick_value m t = tf_realized t + lots_pnl m (tf_longs t) - lots_pnl m (tf_shorts t)"

definition tick_net :: "tick_fifo \<Rightarrow> int" where
  "tick_net t = lots_qty (tf_longs t) - lots_qty (tf_shorts t)"

definition lots_pos :: "tlot list \<Rightarrow> bool" where
  "lots_pos ls = list_all (\<lambda>(e, l). 0 < l) ls"

lemmas lots_defs = lots_pnl_def lots_qty_def lots_pos_def

lemma close_ticks_facts:
  assumes "close_ticks ls p q d r = (ls', r', q')" and "0 \<le> q" and "lots_pos ls"
  shows "0 \<le> q' \<and> q' \<le> q \<and> lots_pos ls' \<and> set (map fst ls') \<subseteq> set (map fst ls)
    \<and> lots_qty ls' = lots_qty ls - (q - q')
    \<and> r' + d * lots_pnl m ls' = r + d * lots_pnl m ls + d * (p - m) * (q - q')"
  using assms
proof (induction ls p q d r rule: close_ticks.induct)
  case (1 p q d r)
  then show ?case by simp
next
  case (2 e l rest p q d r)
  show ?case
  proof (cases "q \<le> 0 \<or> l \<le> q")
    case True
    have "0 < l" using "2.prems"(3) by (simp add: lots_defs)
    show ?thesis
    proof (cases "q \<le> 0")
      case True
      then show ?thesis using "2.prems" by auto
    next
      case False
      with True have l: "min q l = l" "l \<le> q" by auto
      have c: "close_ticks rest p (q - l) d (r + d * (p - e) * l) = (ls', r', q')"
        using "2.prems"(1) False l by (simp add: Let_def)
      have "0 \<le> q' \<and> q' \<le> q - l \<and> lots_pos ls' \<and> set (map fst ls') \<subseteq> set (map fst rest)
        \<and> lots_qty ls' = lots_qty rest - (q - l - q')
        \<and> r' + d * lots_pnl m ls' =
            r + d * (p - e) * l + d * lots_pnl m rest + d * (p - m) * (q - l - q')"
        by (rule "2.IH") (use False l c "2.prems" in \<open>simp_all add: lots_defs\<close>)
      then show ?thesis using \<open>0 < l\<close> l by (auto simp: lots_defs algebra_simps)
    qed
  next
    case False
    then show ?thesis using "2.prems"(1,3) by (auto simp: lots_defs min_def algebra_simps split: if_splits)
  qed
qed

lemma apply_ticks_value:
  assumes "0 < q" and "lots_pos (tf_longs t)" and "lots_pos (tf_shorts t)"
  shows "tick_value m (apply_ticks sd p q t) = tick_value m t + side_sign sd * (m - p) * q"
    and "tick_net (apply_ticks sd p q t) = tick_net t + side_sign sd * q"
    and "lots_pos (tf_longs (apply_ticks sd p q t)) \<and> lots_pos (tf_shorts (apply_ticks sd p q t))"
proof -
  let ?A = "apply_ticks sd p q t"
  have "tick_value m ?A = tick_value m t + side_sign sd * (m - p) * q
      \<and> tick_net ?A = tick_net t + side_sign sd * q \<and> lots_pos (tf_longs ?A) \<and> lots_pos (tf_shorts ?A)"
  proof (cases sd)
    case Buy
    obtain s r x where c: "close_ticks (tf_shorts t) p q (-1) 0 = (s, r, x)" by (metis prod_cases3)
    from close_ticks_facts [OF c, of m] show ?thesis using assms Buy c
      by (auto simp: tick_value_def tick_net_def lots_defs algebra_simps)
  next
    case Sell
    obtain s r x where c: "close_ticks (tf_longs t) p q 1 0 = (s, r, x)" by (metis prod_cases3)
    from close_ticks_facts [OF c, of m] show ?thesis using assms Sell c
      by (auto simp: tick_value_def tick_net_def lots_defs algebra_simps)
  qed
  then show "tick_value m ?A = tick_value m t + side_sign sd * (m - p) * q"
    "tick_net ?A = tick_net t + side_sign sd * q" "lots_pos (tf_longs ?A) \<and> lots_pos (tf_shorts ?A)" by auto
qed


subsection \<open>The float ledger refines the tick ledger\<close>

definition lot_of :: "nat \<Rightarrow> nat \<Rightarrow> tlot \<Rightarrow> lot" where
  "lot_of j k el = \<lparr>lot_entry_price = tick j (fst el), lot_quantity = tick k (snd el)\<rparr>"

definition fifo_of :: "nat \<Rightarrow> nat \<Rightarrow> tick_fifo \<Rightarrow> quantity_fifo" where
  "fifo_of j k t =
     \<lparr>qf_longs = map (lot_of j k) (tf_longs t), qf_shorts = map (lot_of j k) (tf_shorts t),
      qf_realized_pnl = tick (j + k) (tf_realized t), qf_inverse = False\<rparr>"

text \<open>Lots whose prices are within \<open>d\<close> of \<open>p\<close> and whose quantities fit.\<close>

definition lots_near :: "int \<Rightarrow> int \<Rightarrow> tlot list \<Rightarrow> bool" where
  "lots_near d p ls \<longleftrightarrow> (\<forall>(e, l) \<in> set ls. \<bar>p - e\<bar> \<le> d \<and> 0 < l \<and> tick_fits l)"

lemma tick_fits_le: "tick_fits b \<Longrightarrow> \<bar>a\<bar> \<le> \<bar>b\<bar> \<Longrightarrow> tick_fits a"
  by (simp add: tick_fits_def)

lemma lot_pnl_tick:
  assumes "j + k \<le> 1074" "\<bar>d\<bar> = 1" "\<bar>p - e\<bar> \<le> D" "0 < m" "m \<le> q" "tick_fits (D * q)"
    and "m = min q l"
  shows "lot_pnl (tick j p) (tick k q) (tick 0 d) False (lot_of j k (e, l)) = tick (j + k) (d * (p - e) * m)"
proof -
  have D: "0 \<le> D" using assms(3) by linarith
  have m: "D * m \<le> D * q" using assms D by (intro mult_left_mono) auto
  have "\<bar>d * (p - e) * m\<bar> \<le> D * m"
    using assms(2,3,4) by (simp add: abs_mult mult_right_mono)
  then have f3: "tick_fits (d * (p - e) * m)"
    using m by (intro tick_fits_le [OF assms(6)]) linarith
  have "\<bar>p - e\<bar> * 1 \<le> \<bar>p - e\<bar> * m" using assms(4) by (intro mult_left_mono) auto
  then have f1: "tick_fits (p - e)" "tick_fits (d * (p - e))"
    using assms(2,4) by (auto intro!: tick_fits_le [OF f3] simp: abs_mult)
  have "tick 0 d * (tick j p - tick j e) * tick k m = tick (j + k) (d * (p - e) * m)"
    using tick_diff [OF f1(1), of j] tick_mult [OF f1(2), of 0 j] tick_mult [OF f3, of j k] assms(1) by simp
  then show ?thesis
    using assms f3 tick_div_one [of "d * (p - e) * m" "j + k"]
    by (simp add: lot_pnl_def lot_of_def lot_matched_def tick_min lot_divisor_def)
qed

lemma close_fifo_loop_ticks:
  assumes "j + k \<le> 1074" "\<bar>d\<bar> = 1" "tick_fits q" "tick_fits (\<bar>r\<bar> + D * q)" "0 \<le> q" "0 \<le> D" "lots_near D p ls"
  shows "close_fifo_loop (map (lot_of j k) ls) (tick j p) (tick k q) (tick 0 d) False (tick (j + k) r) =
    (case close_ticks ls p q d r of (ls', r', q') \<Rightarrow> (map (lot_of j k) ls', tick (j + k) r', tick k q'))"
  using assms
proof (induction ls p q d r rule: close_ticks.induct)
  case (1 p q d r)
  then show ?case by (simp add: close_fifo_loop_Nil)
next
  case (2 e l rest p q d r)
  show ?case
  proof (cases "q \<le> 0")
    case True
    then show ?thesis by (simp add: close_fifo_loop_done tick_laws)
  next
    case False
    let ?L = "lot_of j k (e, l)" and ?m = "min q l" and ?r = "r + d * (p - e) * min q l"
    have q: "0 < tick k q" and q0: "0 < q" using False by (simp_all add: tick_laws)
    have near: "\<bar>p - e\<bar> \<le> D" "0 < l" "tick_fits l" "lots_near D p rest"
      using "2.prems"(7) by (auto simp: lots_near_def)
    have m: "0 < ?m" "?m \<le> q" "?m \<le> l" using near(2) q0 by auto
    have Dm: "D * q = D * ?m + D * (q - ?m)" by (simp add: right_diff_distrib)
    have "0 \<le> D * (q - ?m)" "0 \<le> D * ?m"
      using "2.prems"(6) m by (intro mult_nonneg_nonneg; linarith)+
    note Dm = Dm this
    have fDq: "tick_fits (D * q)" using Dm by (intro tick_fits_le [OF "2.prems"(4)]) linarith
    have pnl: "lot_pnl (tick j p) (tick k q) (tick 0 d) False ?L = tick (j + k) (d * (p - e) * ?m)"
      by (rule lot_pnl_tick [OF "2.prems"(1,2) near(1) m(1,2) fDq refl])
    have dm: "\<bar>d * (p - e) * ?m\<bar> \<le> D * ?m"
      using "2.prems"(2) near(1) m(1) by (simp add: abs_mult mult_right_mono)
    have fr: "tick_fits ?r"
      using dm Dm by (intro tick_fits_le [OF "2.prems"(4)]) linarith
    have r: "tick (j + k) r + tick (j + k) (d * (p - e) * ?m) = tick (j + k) ?r"
      using fr "2.prems"(1) by (intro tick_add) auto
    have matched: "lot_matched (tick k q) ?L = tick k ?m" by (simp add: lot_matched_def lot_of_def tick_laws)
    have fq: "tick_fits (q - ?m)" "tick_fits (l - ?m)"
      using m near q0 by (auto intro: tick_fits_le [OF "2.prems"(3)] tick_fits_le [OF near(3)])
    have k: "k \<le> 1074" using "2.prems"(1) by simp
    have q': "tick k q - lot_matched (tick k q) ?L = tick k (q - ?m)"
      using tick_diff [OF fq(1) k] by (simp add: matched)
    have left: "lot_left (tick k q) ?L = tick k (l - ?m)"
      using tick_diff [OF fq(2) k] by (simp add: lot_left_def matched) (simp add: lot_of_def)
    have spent: "lot_spent False (lot_left (tick k q) ?L) \<longleftrightarrow> l - ?m = 0"
      unfolding left by (simp add: lot_spent_def)
    note step = close_fifo_loop_Cons [OF q, of ?L "map (lot_of j k) rest" "tick j p" "tick 0 d" False "tick (j + k) r",
        unfolded pnl q' r spent]
    show ?thesis
    proof (cases "l - ?m = 0")
      case spent: True
      have "tick_fits (\<bar>?r\<bar> + D * (q - ?m))"
        using dm Dm by (intro tick_fits_le [OF "2.prems"(4)]) linarith
      then have "close_fifo_loop (map (lot_of j k) rest) (tick j p) (tick k (q - ?m)) (tick 0 d) False
            (tick (j + k) ?r) =
          (case close_ticks rest p (q - ?m) d ?r of
             (ls', r', q') \<Rightarrow> (map (lot_of j k) ls', tick (j + k) r', tick k q'))"
        using "2.prems" near fq m by (intro "2.IH" [OF False refl refl spent]) auto
      then show ?thesis using step spent False by (simp add: Let_def)
    next
      case remains: False
      then have lq: "q < l" by (auto simp: min_def split: if_splits)
      then have "q - ?m = 0" "\<not> 0 < tick k (q - ?m)" by (auto simp: tick_laws)
      moreover have "?L\<lparr>lot_quantity := lot_left (tick k q) ?L\<rparr> = lot_of j k (e, l - ?m)"
        unfolding left by (simp add: lot_of_def)
      ultimately show ?thesis using step lq False by (simp add: Let_def close_fifo_loop_done)
    qed
  qed
qed


text \<open>The bounds a ledger of volume \<open>v\<close> at prices up to \<open>b\<close> satisfies.\<close>

definition tick_bounded :: "int \<Rightarrow> int \<Rightarrow> tick_fifo \<Rightarrow> bool" where
  "tick_bounded b v t \<longleftrightarrow>
     lots_pos (tf_longs t) \<and> lots_pos (tf_shorts t)
     \<and> (\<forall>e \<in> set (map fst (tf_longs t @ tf_shorts t)). 0 \<le> e \<and> e \<le> b)
     \<and> lots_qty (tf_longs t) + lots_qty (tf_shorts t) \<le> v \<and> \<bar>tf_realized t\<bar> \<le> b * v"

lemma lots_qty_nonneg: "lots_pos ls \<Longrightarrow> 0 \<le> lots_qty ls"
  by (induction ls) (auto simp: lots_defs)

lemma lots_qty_member: "lots_pos ls \<Longrightarrow> (e, l) \<in> set ls \<Longrightarrow> 0 < l \<and> l \<le> lots_qty ls"
proof (induction ls)
  case Nil
  then show ?case by simp
next
  case (Cons a ls)
  have "0 \<le> lots_qty ls" using Cons.prems by (intro lots_qty_nonneg) (simp add: lots_pos_def)
  then show ?case using Cons by (auto simp: lots_defs)
qed

lemma close_ticks_realized:
  assumes "close_ticks ls p q d r = (ls', r', q')" "0 \<le> q" "lots_pos ls" "\<bar>d\<bar> = 1"
    and "\<forall>e \<in> set (map fst ls). \<bar>p - e\<bar> \<le> b"
  shows "\<bar>r'\<bar> \<le> \<bar>r\<bar> + b * (q - q')"
  using assms
proof (induction ls p q d r rule: close_ticks.induct)
  case (1 p q d r)
  then show ?case by simp
next
  case (2 e l rest p q d r)
  show ?case
  proof (cases "q \<le> 0")
    case True
    then show ?thesis using "2.prems" by auto
  next
    case False
    let ?m = "min q l"
    have l: "0 < l" "\<bar>p - e\<bar> \<le> b" using "2.prems"(3,5) by (auto simp: lots_defs)
    have m: "0 < ?m" "?m \<le> q" using False l by auto
    have dm: "\<bar>d * (p - e) * ?m\<bar> \<le> b * ?m"
      using "2.prems"(4) l m by (simp add: abs_mult mult_right_mono)
    show ?thesis
    proof (cases "l - ?m = 0")
      case True
      have "\<bar>r'\<bar> \<le> \<bar>r + d * (p - e) * ?m\<bar> + b * (q - ?m - q')"
        by (rule "2.IH" [OF False refl refl True])
          (use False True m "2.prems" in \<open>simp_all add: lots_defs Let_def\<close>)
      then show ?thesis using dm by (simp add: right_diff_distrib)
    next
      case remains: False
      then have lq: "q < l" by (auto simp: min_def split: if_splits)
      then show ?thesis using "2.prems"(1) False dm by (auto simp: Let_def)
    qed
  qed
qed

lemma close_fifo_ticks:
  assumes "j + k \<le> 1074" "\<bar>d\<bar> = 1" "tick_fits v" "tick_fits (b * v)" "0 < q" "q \<le> v" "0 \<le> p" "p \<le> b"
    and "lots_pos ls" "\<forall>e \<in> set (map fst ls). 0 \<le> e \<and> e \<le> b" "lots_qty ls \<le> v"
  shows "close_fifo (map (lot_of j k) ls) (tick j p) (tick k q) (tick 0 d) False =
    (case close_ticks ls p q d 0 of (ls', r', q') \<Rightarrow> (map (lot_of j k) ls', tick (j + k) r', tick k q'))"
proof -
  have b: "0 \<le> b" "0 \<le> b * q" "b * q \<le> b * v" using assms by (auto intro: mult_left_mono)
  have "lots_near b p ls"
    unfolding lots_near_def
  proof clarify
    fix e l assume "(e, l) \<in> set ls"
    then have "0 < l \<and> l \<le> lots_qty ls" "0 \<le> e" "e \<le> b"
      using lots_qty_member [OF assms(9)] assms(10) by force+
    then show "\<bar>p - e\<bar> \<le> b \<and> 0 < l \<and> tick_fits l"
      using assms(7,8,11) by (auto intro: tick_fits_le [OF assms(3)])
  qed
  moreover have "tick_fits q" "tick_fits (\<bar>0\<bar> + b * q)"
    using assms(5,6) b by (auto intro: tick_fits_le [OF assms(3)] tick_fits_le [OF assms(4)])
  ultimately show ?thesis
    using close_fifo_loop_ticks [OF assms(1,2), of q 0 b p ls] assms(5) b by (simp add: close_fifo_def)
qed

lemma apply_fill_ticks:
  assumes "j + k \<le> 1074" "tick_fits (v + q)" "tick_fits (b * (v + q))" "0 < q" "0 \<le> p" "p \<le> b"
    and "0 \<le> v" "tick_bounded b v t"
  shows "fifo_apply_fill sd (tick j p) (tick k q) (fifo_of j k t) = fifo_of j k (apply_ticks sd p q t)
       \<and> tick_bounded b (v + q) (apply_ticks sd p q t)"
proof -
  define ls where "ls = (case sd of Buy \<Rightarrow> tf_shorts t | Sell \<Rightarrow> tf_longs t)"
  define d :: int where "d = (case sd of Buy \<Rightarrow> -1 | Sell \<Rightarrow> 1)"
  obtain s r x where c: "close_ticks ls p q d 0 = (s, r, x)" by (metis prod_cases3)
  note B = assms(8) [unfolded tick_bounded_def]
  have d: "\<bar>d\<bar> = 1" by (simp add: d_def split: side.splits)
  have ls: "lots_pos ls" "\<forall>e \<in> set (map fst ls). 0 \<le> e \<and> e \<le> b" "lots_qty ls \<le> v + q"
    using B lots_qty_nonneg [of "tf_longs t"] lots_qty_nonneg [of "tf_shorts t"] assms(4)
    by (auto simp: ls_def split: side.splits)
  have f: "close_fifo (map (lot_of j k) ls) (tick j p) (tick k q) (tick 0 d) False
      = (map (lot_of j k) s, tick (j + k) r, tick k x)"
    using close_fifo_ticks [OF assms(1) d assms(2,3,4) _ assms(5,6) ls] assms(7) by (simp add: c)
  have near: "\<forall>e \<in> set (map fst ls). \<bar>p - e\<bar> \<le> b" using ls(2) assms(5,6) by force
  have facts: "0 \<le> x" "x \<le> q" "lots_pos s" "set (map fst s) \<subseteq> set (map fst ls)"
      "lots_qty s = lots_qty ls - (q - x)"
    using close_ticks_facts [OF c, of 0] assms(4) ls(1) by auto
  have "0 \<le> b" using assms(5,6) by simp
  then have r: "\<bar>r\<bar> \<le> b * q"
    using close_ticks_realized [OF c _ ls(1) d near] assms(4) facts mult_left_mono [of "q - x" q b] by simp
  have bv: "b * (v + q) = b * v + b * q" by (simp add: algebra_simps)
  have "tick_fits (tf_realized t + r)"
    using r B bv by (intro tick_fits_le [OF assms(3)]) linarith
  then have sum: "tick (j + k) (tf_realized t) + tick (j + k) r = tick (j + k) (tf_realized t + r)"
    using assms(1) by (rule tick_add)
  have m1: "tick 0 (- 1) = - 1" "tick 0 1 = 1" by (simp_all add: one_tick tick_neg)
  show ?thesis
  proof (cases sd)
    case Buy
    then have lsd: "ls = tf_shorts t" "d = -1" by (simp_all add: ls_def d_def)
    have "fifo_apply_fill sd (tick j p) (tick k q) (fifo_of j k t) = fifo_of j k (apply_ticks sd p q t)"
      using f [unfolded lsd m1] c [unfolded lsd] sum Buy
      by (auto simp: fifo_apply_fill_def fifo_of_def tick_pos Let_def lot_of_def)
    moreover have "tick_bounded b (v + q) (apply_ticks sd p q t)"
      using Buy c B facts r bv assms unfolding lsd tick_bounded_def
      by (auto simp: lots_defs)
    ultimately show ?thesis by blast
  next
    case Sell
    then have lsd: "ls = tf_longs t" "d = 1" by (simp_all add: ls_def d_def)
    have "fifo_apply_fill sd (tick j p) (tick k q) (fifo_of j k t) = fifo_of j k (apply_ticks sd p q t)"
      using f [unfolded lsd m1] c [unfolded lsd] sum Sell
      by (auto simp: fifo_apply_fill_def fifo_of_def tick_pos Let_def lot_of_def)
    moreover have "tick_bounded b (v + q) (apply_ticks sd p q t)"
      using Sell c B facts r bv assms unfolding lsd tick_bounded_def
      by (auto simp: lots_defs)
    ultimately show ?thesis by blast
  qed
qed


text \<open>A run of fills, in floats and in ticks.\<close>

type_synonym tick_fill = "side \<times> int \<times> int"

definition run_fills :: "nat \<Rightarrow> nat \<Rightarrow> tick_fill list \<Rightarrow> quantity_fifo \<Rightarrow> quantity_fifo" where
  "run_fills j k fills f =
     foldl (\<lambda>f (sd, p, q). fifo_apply_fill sd (tick j p) (tick k q) f) f fills"

definition run_ticks :: "tick_fill list \<Rightarrow> tick_fifo \<Rightarrow> tick_fifo" where
  "run_ticks fills t = foldl (\<lambda>t (sd, p, q). apply_ticks sd p q t) t fills"

definition fills_within :: "int \<Rightarrow> tick_fill list \<Rightarrow> bool" where
  "fills_within b fills \<longleftrightarrow> list_all (\<lambda>(sd, p, q). 0 \<le> p \<and> p \<le> b \<and> 0 < q) fills"

definition fills_volume :: "tick_fill list \<Rightarrow> int" where
  "fills_volume fills = sum_list (map (\<lambda>(sd, p, q). q) fills)"

definition empty_ticks :: tick_fifo where
  "empty_ticks = \<lparr>tf_longs = [], tf_shorts = [], tf_realized = 0\<rparr>"

lemma fills_volume_nonneg: "fills_within b fills \<Longrightarrow> 0 \<le> fills_volume fills"
  by (induction fills) (auto simp: fills_within_def fills_volume_def)

lemma run_fills_ticks:
  assumes "j + k \<le> 1074" "fills_within b fills" "0 \<le> b" "0 \<le> v" "tick_bounded b v t"
    and "v + fills_volume fills < 2 ^ 53" "b * (v + fills_volume fills) < 2 ^ 53"
  shows "run_fills j k fills (fifo_of j k t) = fifo_of j k (run_ticks fills t)
    \<and> tick_bounded b (v + fills_volume fills) (run_ticks fills t)"
  using assms(2-)
proof (induction fills arbitrary: v t)
  case Nil
  then show ?case by (simp add: run_fills_def run_ticks_def fills_volume_def)
next
  case (Cons a fills)
  obtain sd p q where a: "a = (sd, p, q)" by (metis prod_cases3)
  have w: "0 \<le> p" "p \<le> b" "0 < q" "fills_within b fills" using Cons.prems(1) by (simp_all add: a fills_within_def)
  have vol: "v + fills_volume (a # fills) = v + q + fills_volume fills" "0 \<le> fills_volume fills"
    using fills_volume_nonneg [OF w(4)] by (simp_all add: a fills_volume_def)
  have bv: "b * (v + q) \<le> b * (v + q + fills_volume fills)"
    using Cons.prems(2) vol(2) by (intro mult_left_mono) auto
  have "tick_fits (v + q)" "tick_fits (b * (v + q))"
    using Cons.prems w vol bv unfolding tick_fits_def by simp_all
  from apply_fill_ticks [OF assms(1) this w(3,1,2) Cons.prems(3,4)]
  have step: "fifo_apply_fill sd (tick j p) (tick k q) (fifo_of j k t) = fifo_of j k (apply_ticks sd p q t)"
    "tick_bounded b (v + q) (apply_ticks sd p q t)" by auto
  have "run_fills j k fills (fifo_of j k (apply_ticks sd p q t)) = fifo_of j k (run_ticks fills (apply_ticks sd p q t))
      \<and> tick_bounded b (v + q + fills_volume fills) (run_ticks fills (apply_ticks sd p q t))"
    using Cons.prems w vol step by (intro Cons.IH) auto
  then show ?case unfolding vol(1) by (simp add: a run_fills_def run_ticks_def step)
qed

lemma run_ticks_value:
  assumes "fills_within b fills" "lots_pos (tf_longs t)" "lots_pos (tf_shorts t)"
  shows "tick_value m (run_ticks fills t) =
           tick_value m t + sum_list (map (\<lambda>(sd, p, q). side_sign sd * (m - p) * q) fills)
     \<and> tick_net (run_ticks fills t) = tick_net t + sum_list (map (\<lambda>(sd, p, q). side_sign sd * q) fills)"
  using assms
proof (induction fills arbitrary: t)
  case Nil
  then show ?case by (simp add: run_ticks_def)
next
  case (Cons a fills)
  obtain sd p q where a: "a = (sd, p, q)" by (metis prod_cases3)
  have w: "0 < q" "fills_within b fills" using Cons.prems(1) by (simp_all add: a fills_within_def)
  note step = apply_ticks_value [OF w(1) Cons.prems(2,3), where sd = sd and p = p]
  from Cons.IH [OF w(2)] step show ?case by (simp add: a run_ticks_def)
qed

lemma lots_pnl_floats:
  assumes "j + k \<le> 1074" "0 \<le> m" "m \<le> b" "lots_pos ls" "\<forall>e \<in> set (map fst ls). 0 \<le> e \<and> e \<le> b"
    and "tick_fits (b * lots_qty ls)" "l \<in> set ls"
  shows "(tick j m - tick j (fst l)) * tick k (snd l) / 1 = tick (j + k) ((m - fst l) * snd l)"
    and "(tick j (fst l) - tick j m) * tick k (snd l) / 1 = tick (j + k) (- ((m - fst l) * snd l))"
proof -
  have l: "0 < snd l" "snd l \<le> lots_qty ls" "\<bar>m - fst l\<bar> \<le> b"
    using lots_qty_member [OF assms(4), of "fst l" "snd l"] assms(2,3,5,7) by auto
  have "\<bar>(m - fst l) * snd l\<bar> \<le> b * lots_qty ls"
    unfolding abs_mult using l by (intro mult_mono) auto
  then have f: "tick_fits ((m - fst l) * snd l)" using assms(6) by (auto simp: tick_fits_def)
  have "\<bar>m - fst l\<bar> * 1 \<le> \<bar>m - fst l\<bar> * snd l" using l by (intro mult_left_mono) auto
  then have g: "tick_fits (m - fst l)" using l by (intro tick_fits_le [OF f]) (auto simp: abs_mult)
  have n: "tick_fits (- ((m - fst l) * snd l))" "tick_fits (fst l - m)" using f g by (auto simp: tick_fits_def)
  have e: "(fst l - m) * snd l = - ((m - fst l) * snd l)" by (simp add: algebra_simps)
  show "(tick j m - tick j (fst l)) * tick k (snd l) / 1 = tick (j + k) ((m - fst l) * snd l)"
    using assms(1) tick_diff [OF g, of j] tick_mult [OF f, of j k] tick_div_one [OF f] by simp
  show "(tick j (fst l) - tick j m) * tick k (snd l) / 1 = tick (j + k) (- ((m - fst l) * snd l))"
    using assms(1) tick_diff [OF n(2), of j] tick_mult [of "fst l - m" "snd l" j k, unfolded e, OF n(1)]
      tick_div_one [OF n(1)] by simp
qed

lemma sum_abs_lots:
  assumes "lots_pos ls" "0 \<le> m" "m \<le> b" "\<forall>e \<in> set (map fst ls). 0 \<le> e \<and> e \<le> b"
  shows "sum_list (map (\<lambda>l. \<bar>(m - fst l) * snd l\<bar>) ls) \<le> b * lots_qty ls"
  using assms
proof (induction ls)
  case Nil
  then show ?case by (simp add: lots_defs)
next
  case (Cons l ls)
  have "\<bar>m - fst l\<bar> \<le> b" "0 < snd l" using Cons.prems by (auto simp: lots_defs)
  then have "\<bar>(m - fst l) * snd l\<bar> \<le> b * snd l" by (simp add: abs_mult mult_right_mono)
  then show ?case using Cons by (simp add: lots_defs distrib_left)
qed

lemma floating_pnl_ticks:
  assumes "j + k \<le> 1074" "0 \<le> m" "m \<le> b" "tick_bounded b v t" "b * v < 2 ^ 53"
  shows "floating_pnl (fifo_of j k t) (tick j m) = tick (j + k) (lots_pnl m (tf_longs t) - lots_pnl m (tf_shorts t))"
proof -
  note B = assms(4) [unfolded tick_bounded_def]
  let ?L = "tf_longs t" and ?S = "tf_shorts t"
  have b: "0 \<le> b" "0 \<le> lots_qty ?L" "0 \<le> lots_qty ?S" using assms B lots_qty_nonneg by auto
  have bs: "b * lots_qty ?L + b * lots_qty ?S \<le> b * v"
    using B b by (simp only: distrib_left [symmetric]) (intro mult_left_mono, auto)
  have nn: "0 \<le> b * lots_qty ?L" "0 \<le> b * lots_qty ?S" using b by auto
  then have f: "tick_fits (b * lots_qty ?L)" "tick_fits (b * lots_qty ?S)"
    using bs assms(5) unfolding tick_fits_def by auto
  have e: "\<forall>e \<in> set (map fst ?L). 0 \<le> e \<and> e \<le> b" "\<forall>e \<in> set (map fst ?S). 0 \<le> e \<and> e \<le> b" using B by auto
  let ?ns = "map (\<lambda>l. (m - fst l) * snd l) ?L @ map (\<lambda>l. - ((m - fst l) * snd l)) ?S"
  have "floating_pnl (fifo_of j k t) (tick j m) = f_sum (map (tick (j + k)) ?ns)"
    using lots_pnl_floats [OF assms(1-3), of ?L] lots_pnl_floats [OF assms(1-3), of ?S] B e f
    unfolding floating_pnl_def fifo_of_def
    by (auto simp: lot_of_def lot_divisor_def comp_def intro!: arg_cong [of _ _ f_sum])
  also have "\<dots> = tick (j + k) (sum_list ?ns)"
  proof (rule tick_sum [OF assms(1)])
    have "sum_list (map abs ?ns) \<le> b * lots_qty ?L + b * lots_qty ?S"
      using sum_abs_lots [of ?L m b] sum_abs_lots [of ?S m b] B e assms(2,3) by (simp add: comp_def)
    then show "sum_list (map abs ?ns) < 2 ^ 53" using bs assms(5) by linarith
  qed
  also have "sum_list ?ns = lots_pnl m ?L - lots_pnl m ?S"
    by (simp add: lots_pnl_def split_def uminus_sum_list_map [unfolded comp_def, symmetric])
  finally show ?thesis .
qed

lemma quantity_ticks:
  assumes "k \<le> 1074" "lots_pos ls" "lots_qty ls < 2 ^ 53"
  shows "f_sum (map lot_quantity (map (lot_of j k) ls)) / 1 = tick k (lots_qty ls)"
proof -
  have "sum_list (map abs (map snd ls)) = lots_qty ls"
    using assms(2) by (induction ls) (auto simp: lots_defs)
  then have s: "f_sum (map (tick k) (map snd ls)) = tick k (lots_qty ls)"
    using tick_sum [OF assms(1), of "map snd ls"] assms(3) by (simp add: lots_qty_def)
  have "tick_fits (lots_qty ls)" using lots_qty_nonneg [OF assms(2)] assms(3) by (simp add: tick_fits_def)
  from tick_div_one [OF this assms(1)] s show ?thesis by (simp add: lot_of_def comp_def)
qed

subsection \<open>Properties\<close>

text \<open>
  C20: The ledger books profit exactly. Run any fills through \<open>QuantityFifo::apply_fill\<close> from an
  empty linear ledger, with prices on a tick grid of at most \<open>b\<close> ticks and quantities whose total
  is \<open>v\<close> ticks, where \<open>v\<close> and \<open>b * v\<close> are below \<open>2\<^sup>5\<^sup>3\<close>. Then realized profit plus
  \<open>floating_pnl\<close> at any mark in range equals, with no rounding error, the sum over the fills of
  \<open>\<plusminus>(mark - price) * quantity\<close>, and long minus short quantity is the signed sum of the quantities.
\<close>

theorem fifo_pnl_exact:
  assumes "j + k \<le> 1074" and "fills_within b fills" and "0 \<le> m" and "m \<le> b"
    and "fills_volume fills < 2 ^ 53" and "b * fills_volume fills < 2 ^ 53"
  shows "let f = run_fills j k fills (fifo_default False); mark = tick j m
    in qf_realized_pnl f + floating_pnl f mark
         = tick (j + k) (\<Sum>(sd, p, q)\<leftarrow>fills. side_sign sd * (m - p) * q)
     \<and> long_quantity f mark - short_quantity f mark = tick k (\<Sum>(sd, p, q)\<leftarrow>fills. side_sign sd * q)"
proof -
  define t v where "t = run_ticks fills empty_ticks" and "v = fills_volume fills"
  let ?V = "\<Sum>(sd, p, q)\<leftarrow>fills. side_sign sd * (m - p) * q" and ?N = "\<Sum>(sd, p, q)\<leftarrow>fills. side_sign sd * q"
  have e: "fifo_default False = fifo_of j k empty_ticks"
    by (simp add: fifo_default_def fifo_of_def empty_ticks_def)
  have "tick_bounded b 0 empty_ticks" by (simp add: tick_bounded_def empty_ticks_def lots_defs)
  then have t: "run_fills j k fills (fifo_default False) = fifo_of j k t" "tick_bounded b v t"
    using run_fills_ticks [of j k b fills 0 empty_ticks] assms by (simp_all add: e t_def v_def)
  have val: "tick_value m t = ?V" "tick_net t = ?N"
    using run_ticks_value [OF assms(2), of empty_ticks m]
    by (simp_all add: t_def empty_ticks_def tick_value_def tick_net_def lots_defs)
  note B = t(2) [unfolded tick_bounded_def]
  have qn: "0 \<le> lots_qty (tf_longs t)" "0 \<le> lots_qty (tf_shorts t)" using B lots_qty_nonneg by auto
  have "\<bar>tick_net t\<bar> \<le> v" using qn B unfolding tick_net_def by linarith
  then have fn: "tick_fits (tick_net t)" using assms(5) by (simp add: tick_fits_def v_def)
  have "\<bar>?V\<bar> \<le> b * v" unfolding v_def using assms(2)
  proof (induction fills)
    case Nil
    then show ?case by (simp add: fills_volume_def)
  next
    case (Cons a fills)
    obtain sd p q where a: "a = (sd, p, q)" by (metis prod_cases3)
    have w: "0 \<le> p" "p \<le> b" "0 < q" "fills_within b fills" using Cons.prems by (simp_all add: a fills_within_def)
    have "\<bar>side_sign sd * (m - p)\<bar> \<le> b" using w assms(3,4) by (cases sd) auto
    then have "\<bar>side_sign sd * (m - p) * q\<bar> \<le> b * q" using w(3) by (simp add: abs_mult mult_right_mono)
    with Cons.IH [OF w(4)] show ?case by (simp add: a fills_volume_def distrib_left)
  qed
  then have fv: "tick_fits (tick_value m t)" using assms(6) by (simp add: val tick_fits_def v_def)
  have fl: "floating_pnl (fifo_of j k t) (tick j m) = tick (j + k) (lots_pnl m (tf_longs t) - lots_pnl m (tf_shorts t))"
    using assms(6) by (intro floating_pnl_ticks [OF assms(1,3,4) t(2)]) (simp add: v_def)
  have "tick (j + k) (tf_realized t) + tick (j + k) (lots_pnl m (tf_longs t) - lots_pnl m (tf_shorts t))
      = tick (j + k) (tick_value m t)"
    using fv assms(1) by (subst tick_add) (simp_all add: tick_value_def add_diff_eq)
  then have nav: "qf_realized_pnl (fifo_of j k t) + floating_pnl (fifo_of j k t) (tick j m) = tick (j + k) ?V"
    unfolding fl by (simp add: fifo_of_def val)
  have "long_quantity (fifo_of j k t) (tick j m) = tick k (lots_qty (tf_longs t))"
    "short_quantity (fifo_of j k t) (tick j m) = tick k (lots_qty (tf_shorts t))"
    using quantity_ticks [of k _ j] B qn assms(1,5)
    by (simp_all add: long_quantity_def short_quantity_def fifo_of_def v_def)
  then have "long_quantity (fifo_of j k t) (tick j m) - short_quantity (fifo_of j k t) (tick j m) = tick k ?N"
    using tick_diff [of "lots_qty (tf_longs t)" "lots_qty (tf_shorts t)" k] fn assms(1)
    by (simp add: tick_net_def flip: val(2))
  with nav show ?thesis unfolding t(1) Let_def by simp
qed

theorem fifo_pnl_exact_witness:
  "let f = run_fills 4 3 [(Buy, 160, 8), (Sell, 200, 12), (Buy, 184, 2)] (fifo_default False); mark = tick 4 192
    in qf_realized_pnl f + floating_pnl f mark = tick 7 368
     \<and> long_quantity f mark - short_quantity f mark = tick 3 (- 2)"
  using fifo_pnl_exact [of 4 3 1000 "[(Buy, 160, 8), (Sell, 200, 12), (Buy, 184, 2)]" 192]
  by (simp add: fills_within_def fills_volume_def)


text \<open>
  C25: Every accepted fill keeps the ledger in order. Starting from a ledger with lots on one side
  only, all finite and above the drop threshold, \<open>apply_fill\<close> with a positive representable
  quantity and finite notional leaves such a ledger; the closing side loses lots only from its
  front (at most the new front lot is reduced), and the opening side gains at most one lot, at
  the fill's price, at its back.
\<close>

theorem fifo_fill_discipline:
  assumes "fifo_ok f" and "is_fin (if qf_inverse f then q * p else q)" and "f_ok q" and "0 < q" and "0 < p"
  shows "let f' = fifo_apply_fill sd p q f;
             (closing, closing') = (case sd of Buy \<Rightarrow> (qf_shorts f, qf_shorts f') | Sell \<Rightarrow> (qf_longs f, qf_longs f'));
             (opening, opening') = (case sd of Buy \<Rightarrow> (qf_longs f, qf_longs f') | Sell \<Rightarrow> (qf_shorts f, qf_shorts f'))
         in fifo_ok f' \<and> cut_front closing closing'
          \<and> (opening' = opening
             \<or> (closing' = [] \<and> (\<exists>x. opening' = opening @ [\<lparr>lot_entry_price = p, lot_quantity = x\<rparr>])))"
proof -
  define x where "x = (if qf_inverse f then q * p else q)"
  have ok: "fifo_ok (fifo_apply_fill sd p q f)" by (rule fifo_apply_fill_ok [OF assms])
  show ?thesis
  proof (cases sd)
    case Buy
    obtain s r y where c: "close_fifo (qf_shorts f) p x (- 1) (qf_inverse f) = (s, r, y)" by (metis prod_cases3)
    show ?thesis using ok Buy c close_fifo_cut_front [OF c] close_fifo_leftover [OF c]
        fifo_threshold_pos [of "qf_inverse f" y]
      by (auto simp: fifo_apply_fill_def Let_def x_def [symmetric])
  next
    case Sell
    obtain s r y where c: "close_fifo (qf_longs f) p x 1 (qf_inverse f) = (s, r, y)" by (metis prod_cases3)
    show ?thesis using ok Sell c close_fifo_cut_front [OF c] close_fifo_leftover [OF c]
        fifo_threshold_pos [of "qf_inverse f" y]
      by (auto simp: fifo_apply_fill_def Let_def x_def [symmetric])
  qed
qed

theorem fifo_fill_discipline_witness:
  "fifo_ok (fifo_apply_fill Sell 1 1 (fifo_default False))"
  using fifo_fill_discipline [of "fifo_default False" 1 1 Sell]
  by (simp add: fifo_default_ok) (simp add: fifo_default_def Let_def)

end
