(* ===== verification/Text.thy ===== *)
theory Text
  imports Prelude
begin

text \<open>
  Rust strings. A \<open>string\<close> is the list of the bytes of its UTF-8 encoding, so comparison is the
  bytewise lexicographic order of \<open>str\<close>, \<open>length\<close> is \<open>len()\<close>, and prefixes and suffixes are
  compared byte by byte. \<open>trim\<close> removes the encodings of the \<open>White_Space\<close> code points.
\<close>

definition byte_of :: "char \<Rightarrow> nat" where
  "byte_of c = of_char c"

definition is_digit :: "char \<Rightarrow> bool" where
  "is_digit c \<longleftrightarrow> 48 \<le> byte_of c \<and> byte_of c \<le> 57"

definition is_upper :: "char \<Rightarrow> bool" where
  "is_upper c \<longleftrightarrow> 65 \<le> byte_of c \<and> byte_of c \<le> 90"

definition is_lower :: "char \<Rightarrow> bool" where
  "is_lower c \<longleftrightarrow> 97 \<le> byte_of c \<and> byte_of c \<le> 122"

definition is_alnum :: "char \<Rightarrow> bool" where
  "is_alnum c \<longleftrightarrow> is_digit c \<or> is_upper c \<or> is_lower c"

definition is_hex :: "char \<Rightarrow> bool" where
  "is_hex c \<longleftrightarrow> is_digit c \<or> (65 \<le> byte_of c \<and> byte_of c \<le> 70) \<or> (97 \<le> byte_of c \<and> byte_of c \<le> 102)"

definition ascii_upper :: "string \<Rightarrow> string" where
  "ascii_upper s = map (\<lambda>c. if is_lower c then char_of (byte_of c - 32) else c) s"

definition ascii_lower :: "string \<Rightarrow> string" where
  "ascii_lower s = map (\<lambda>c. if is_upper c then char_of (byte_of c + 32) else c) s"

definition eq_ignore_case :: "string \<Rightarrow> string \<Rightarrow> bool" where
  "eq_ignore_case s t \<longleftrightarrow> ascii_lower s = ascii_lower t"

definition strip_prefix :: "string \<Rightarrow> string \<Rightarrow> string option" where
  "strip_prefix p s = (if take (length p) s = p then Some (drop (length p) s) else None)"

definition starts_with :: "string \<Rightarrow> string \<Rightarrow> bool" where
  "starts_with p s \<longleftrightarrow> take (length p) s = p"

definition strip_suffix :: "string \<Rightarrow> string \<Rightarrow> string option" where
  "strip_suffix p s = map_option rev (strip_prefix (rev p) (rev s))"

definition ends_with :: "string \<Rightarrow> string \<Rightarrow> bool" where
  "ends_with p s \<longleftrightarrow> starts_with (rev p) (rev s)"

definition white_spaces :: "string list" where
  "white_spaces =
     map (\<lambda>b. [char_of b]) [9, 10, 11, 12, 13, 32 :: nat]
     @ [[char_of (194 :: nat), char_of (133 :: nat)], [char_of (194 :: nat), char_of (160 :: nat)],
        map char_of [225, 154, 128 :: nat]]
     @ map (\<lambda>b. map char_of [226, 128, b :: nat])
         [128, 129, 130, 131, 132, 133, 134, 135, 136, 137, 138, 168, 169, 175]
     @ [map char_of [226, 129, 159 :: nat], map char_of [227, 128, 128 :: nat]]"

function trim_with :: "string list \<Rightarrow> string \<Rightarrow> string" where
  "trim_with ws s =
     (case find (\<lambda>w. w \<noteq> [] \<and> starts_with w s) ws of
        None \<Rightarrow> s | Some w \<Rightarrow> trim_with ws (drop (length w) s))"
  by pat_completeness auto
termination
proof (relation "measure (\<lambda>(ws, s). length s)", goal_cases)
  case (2 ws s w)
  then have "w \<noteq> [] \<and> starts_with w s" by (auto simp: find_Some_iff)
  then have "0 < length w" "0 < length s" by (auto simp: starts_with_def)
  then show ?case by simp
qed simp

declare trim_with.simps [simp del]

definition trim :: "string \<Rightarrow> string" where
  "trim s = rev (trim_with (map rev white_spaces) (rev (trim_with white_spaces s)))"

lemma strip_prefix_Some: "strip_prefix p s = Some r \<longleftrightarrow> s = p @ r"
  by (auto simp: strip_prefix_def) (metis append_take_drop_id)

lemma starts_with_iff: "starts_with p s \<longleftrightarrow> (\<exists>r. s = p @ r)"
  by (metis append_eq_conv_conj append_take_drop_id starts_with_def)

lemma strip_suffix_Some: "strip_suffix p s = Some r \<longleftrightarrow> s = r @ p"
  unfolding strip_suffix_def by (auto simp: strip_prefix_Some) (metis rev_append rev_rev_ident)

lemma ends_with_iff: "ends_with p s \<longleftrightarrow> (\<exists>r. s = r @ p)"
  unfolding ends_with_def starts_with_iff by (metis rev_append rev_rev_ident)

lemma eq_ignore_case_refl [simp]: "eq_ignore_case s s"
  by (simp add: eq_ignore_case_def)

text \<open>The decimal rendering of a number, and of a code inside \<open>UNKNOWN(..)\<close>.\<close>

fun digits_rev :: "nat \<Rightarrow> nat \<Rightarrow> string" where
  "digits_rev 0 n = ''''"
| "digits_rev (Suc fuel) n =
     char_of (48 + n mod 10) # (if n div 10 = 0 then '''' else digits_rev fuel (n div 10))"

definition show_nat :: "nat \<Rightarrow> string" where
  "show_nat n = rev (digits_rev (Suc n) n)"

text \<open>
  The value of a string of digits, and \<open>str::parse\<close> for an unsigned integer with maximum \<open>limit\<close>: an
  optional plus sign, at least one digit, and no overflow.
\<close>

definition decimal_value :: "string \<Rightarrow> nat" where
  "decimal_value s = foldl (\<lambda>n c. 10 * n + (byte_of c - 48)) 0 s"

definition parse_unsigned :: "nat \<Rightarrow> string \<Rightarrow> nat option" where
  "parse_unsigned limit s =
     (let digits = (case strip_prefix ''+'' s of Some rest \<Rightarrow> rest | None \<Rightarrow> s)
      in if digits = [] \<or> \<not> list_all is_digit digits \<or> limit < decimal_value digits then None
         else Some (decimal_value digits))"

end
