(* ===== verification/Config.thy ===== *)
theory Config
  imports OrdMap F64 Text
begin

text \<open>
  The part of \<open>config.rs\<close> the accounting depends on: fee rates by quote asset, their validation,
  the fee rates a source resolves to, the overlay of operator-managed rates, the source fields
  and identifier checks; and from \<open>exec_routing.rs\<close> the identity a cash fill is accounted under.
\<close>

subsection \<open>Fee rates\<close>

record quote_fee_rates =
  qr_maker_fee_rate :: f64
  qr_taker_fee_rate :: f64
  qr_theoretical_twap_fee_rate :: f64

record fee_rates =
  fr_maker :: f64
  fr_taker :: f64
  fr_by_quote :: "(string, quote_fee_rates) bmap"

definition symbol_quote :: "string \<Rightarrow> string" where
  "symbol_quote symbol =
     (if ends_with ''USDC'' symbol then ''USDC''
      else if ends_with ''USD'' symbol then ''USD'' else ''USDT'')"

definition for_symbol :: "fee_rates \<Rightarrow> string \<Rightarrow> f64 \<times> f64" where
  "for_symbol r symbol =
     (case bm_get (fr_by_quote r) (symbol_quote symbol) of
        None \<Rightarrow> (fr_maker r, fr_taker r)
      | Some q \<Rightarrow> (qr_maker_fee_rate q, qr_taker_fee_rate q))"

record theoretical_fee_rates =
  tr_default :: f64
  tr_by_quote :: "(string, f64) bmap"
  tr_taker_default :: f64
  tr_taker_by_quote :: "(string, f64) bmap"

definition theoretical_from :: "f64 \<Rightarrow> theoretical_fee_rates" where
  "theoretical_from d = \<lparr>tr_default = d, tr_by_quote = [], tr_taker_default = d, tr_taker_by_quote = []\<rparr>"

definition taker_for_symbol :: "theoretical_fee_rates \<Rightarrow> string \<Rightarrow> f64" where
  "taker_for_symbol r symbol =
     (case bm_get (tr_taker_by_quote r) (symbol_quote symbol) of None \<Rightarrow> tr_taker_default r | Some x \<Rightarrow> x)"

definition twap_for_symbol :: "theoretical_fee_rates \<Rightarrow> string \<Rightarrow> f64" where
  "twap_for_symbol r symbol =
     (case bm_get (tr_by_quote r) (symbol_quote symbol) of None \<Rightarrow> tr_default r | Some x \<Rightarrow> x)"

datatype config_error =
    UnsupportedFeeQuote string
  | QuoteRatesNotFinite string
  | MakerRateNotFinite
  | TakerRateNotFinite
  | MissingMakerRate string
  | MissingTakerRate string
  | BadSourceId string
  | BadGatewayPrefix string string
  | ProxyNeedsBybit
  | ProxyBadSymbol string
  | ProxyBadMultiplier
  | ProxyBadRatio
  | ProxyDuplicateDestination string

definition validate_quote_fee_rate :: "string \<times> quote_fee_rates \<Rightarrow> config_error + unit" where
  "validate_quote_fee_rate kv =
     (case kv of (quote, r) \<Rightarrow>
        rbind (rensure (quote \<in> {''USDT'', ''USDC'', ''USD''}) (UnsupportedFeeQuote quote)) (\<lambda>_.
        rensure (is_fin (qr_maker_fee_rate r) \<and> is_fin (qr_taker_fee_rate r)
                 \<and> is_fin (qr_theoretical_twap_fee_rate r)) (QuoteRatesNotFinite quote)))"

definition validate_quote_fee_rates :: "(string, quote_fee_rates) bmap \<Rightarrow> config_error + unit" where
  "validate_quote_fee_rates rates = rfold (\<lambda>_ kv. validate_quote_fee_rate kv) () rates"

definition validate_fee_rates :: "fee_rates \<Rightarrow> config_error + unit" where
  "validate_fee_rates r =
     rbind (rensure (is_fin (fr_maker r)) MakerRateNotFinite) (\<lambda>_.
     rbind (rensure (is_fin (fr_taker r)) TakerRateNotFinite) (\<lambda>_.
     validate_quote_fee_rates (fr_by_quote r)))"

subsection \<open>Sources\<close>

record contract_mapping =
  cm_symbol :: string
  cm_source_contract_multiplier :: f64
  cm_target_contract_multiplier :: f64

record source_config =
  sc_id :: string
  sc_account :: string
  sc_alias :: "string option"
  sc_venue :: string
  sc_rocksdb_path :: string
  sc_enabled :: bool
  sc_monitor_enabled :: bool
  sc_estimated_fee_rate :: "f64 option"
  sc_maker_fee_rate :: "f64 option"
  sc_taker_fee_rate :: "f64 option"
  sc_quote_fee_rates :: "(string, quote_fee_rates) bmap"
  sc_gateway_prefix :: "string option"
  sc_exec_config_url :: "string option"
  sc_exec_viz_url :: "string option"
  sc_ipc_namespace :: "string option"
  sc_account_ipc_service :: "string option"
  sc_legacy_share_unit_usdt :: "f64 option"
  sc_env_path :: "string option"
  sc_target_proxy :: "(string, contract_mapping) bmap option"

definition or_else :: "'a option \<Rightarrow> 'a option \<Rightarrow> 'a option" where
  "or_else a b = (case a of None \<Rightarrow> b | Some x \<Rightarrow> Some x)"

definition nav_fee_rates :: "source_config \<Rightarrow> config_error + fee_rates" where
  "nav_fee_rates s =
     rbind (of_option (MissingMakerRate (sc_id s)) (or_else (sc_maker_fee_rate s) (sc_estimated_fee_rate s))) (\<lambda>maker.
     rbind (of_option (MissingTakerRate (sc_id s)) (or_else (sc_taker_fee_rate s) (sc_estimated_fee_rate s))) (\<lambda>taker.
     let rates = \<lparr>fr_maker = maker, fr_taker = taker, fr_by_quote = sc_quote_fee_rates s\<rparr>
     in rbind (validate_fee_rates rates) (\<lambda>_. Inr rates)))"

definition with_fee_rates :: "(string, fee_rates) bmap \<Rightarrow> source_config list \<Rightarrow> source_config list" where
  "with_fee_rates rates sources =
     map (\<lambda>s. case bm_get rates (sc_id s) of
                None \<Rightarrow> s
              | Some r \<Rightarrow> s\<lparr>sc_maker_fee_rate := Some (fr_maker r), sc_taker_fee_rate := Some (fr_taker r),
                            sc_quote_fee_rates := fr_by_quote r\<rparr>) sources"

definition display_name :: "source_config \<Rightarrow> string" where
  "display_name s =
     (case map_option trim (sc_alias s) of
        None \<Rightarrow> sc_account s | Some a \<Rightarrow> if a = [] then sc_account s else a)"

text \<open>A trimmed nonempty option, or the fallback: the pattern the service names share.\<close>

definition trimmed_or :: "string option \<Rightarrow> string \<Rightarrow> string" where
  "trimmed_or v d = (case map_option trim v of None \<Rightarrow> d | Some x \<Rightarrow> if x = [] then d else x)"

definition account_ipc_service_name :: "source_config \<Rightarrow> string option" where
  "account_ipc_service_name s =
     (let namespace = trimmed_or (sc_ipc_namespace s) (sc_id s)
      in if namespace = [] then None
         else let service = trimmed_or (sc_account_ipc_service s)
                (if sc_venue s = ''bybit-futures'' then ''account_pubs/bybit_pm''
                 else if sc_venue s = ''bitget-futures'' then ''account_pubs/bitget_pm''
                 else if sc_venue s = ''okex-futures'' then ''account_pubs/okex_pm''
                 else ''account_pubs/binance_pm'')
              in Some (namespace @ ''/'' @ service))"

definition reload_notify_service_name :: "source_config \<Rightarrow> string option" where
  "reload_notify_service_name s =
     (let namespace = trimmed_or (sc_ipc_namespace s) (sc_id s)
      in if namespace = [] then None else Some (namespace @ ''/batch_exec_pubs/reload_notify''))"

definition exec_viz_origin :: "source_config \<Rightarrow> string option" where
  "exec_viz_origin s =
     (case map_option trim (sc_exec_viz_url s) of
        None \<Rightarrow> None | Some v \<Rightarrow> if v = [] then None else Some v)"

definition id_char :: "char \<Rightarrow> bool" where
  "id_char c \<longleftrightarrow> is_alnum c \<or> c = CHR ''_'' \<or> c = CHR ''-''"

definition validate_source_id :: "string \<Rightarrow> config_error + unit" where
  "validate_source_id v =
     rensure (v \<noteq> [] \<and> length v \<le> 128 \<and> list_all id_char v) (BadSourceId v)"

definition validate_gateway_prefix :: "string \<Rightarrow> string \<Rightarrow> config_error + unit" where
  "validate_gateway_prefix source_id v =
     (let suffix = (case strip_prefix ''/'' v of None \<Rightarrow> [] | Some r \<Rightarrow> r)
      in rensure (suffix \<noteq> [] \<and> length v \<le> 128 \<and> list_all id_char suffix) (BadGatewayPrefix source_id v))"

subsection \<open>Market identity of a fill\<close>

definition is_spot_target :: "string \<Rightarrow> bool" where
  "is_spot_target s \<longleftrightarrow> \<not> ends_with ''USDT'' s \<and> \<not> ends_with ''USDC'' s \<and> \<not> ends_with ''USD'' s"

definition target_symbol :: "string \<Rightarrow> i16 \<Rightarrow> string" where
  "target_symbol symbol venue =
     (if venue = 0 \<or> venue = 2
      then (case strip_suffix ''USDT'' symbol of None \<Rightarrow> symbol | Some r \<Rightarrow> r) else symbol)"

subsection \<open>What resolved rates guarantee\<close>

lemma validate_quote_fee_rates_ok:
  assumes "validate_quote_fee_rates m = Inr u" and "(quote, r) \<in> set m"
  shows "quote \<in> {''USDT'', ''USDC'', ''USD''} \<and> is_fin (qr_maker_fee_rate r) \<and> is_fin (qr_taker_fee_rate r)"
  using assms unfolding validate_quote_fee_rates_def
  by (induction m) (auto simp: validate_quote_fee_rate_def result_laws)

lemma validate_fee_rates_finite:
  assumes "validate_fee_rates r = Inr u"
  shows "is_fin (fst (for_symbol r s)) \<and> is_fin (snd (for_symbol r s))"
proof (cases "bm_get (fr_by_quote r) (symbol_quote s)")
  case None
  then show ?thesis using assms by (auto simp: for_symbol_def validate_fee_rates_def result_laws)
next
  case (Some q)
  have "validate_quote_fee_rates (fr_by_quote r) = Inr ()"
    using assms by (auto simp: validate_fee_rates_def result_laws)
  from validate_quote_fee_rates_ok [OF this bm_get_SomeD [OF Some]] Some show ?thesis
    by (simp add: for_symbol_def)
qed

lemma nav_fee_rates_valid:
  "nav_fee_rates s = Inr r \<Longrightarrow> validate_fee_rates r = Inr () \<and> fr_by_quote r = sc_quote_fee_rates s"
  by (auto simp: nav_fee_rates_def Let_def result_laws)

text \<open>
  Fee resolution is sound. The rates \<open>nav_fee_rates\<close> returns are finite for every symbol; the
  explicit maker and taker rates win over the legacy rate, which is only a fallback; and an
  overlay of valid operator rates (\<open>with_fee_rates\<close>) is what every source named in it resolves
  to, the other sources keeping their own.
\<close>

theorem fee_overlay_resolves:
  assumes "i < length sources"
    and "\<And>r. bm_get rates (sc_id (sources ! i)) = Some r \<Longrightarrow> validate_fee_rates r = Inr ()"
  shows "let s = sources ! i; s' = with_fee_rates rates sources ! i
    in sc_id s' = sc_id s
     \<and> nav_fee_rates s' =
         (case bm_get rates (sc_id s) of
            None \<Rightarrow> nav_fee_rates s
          | Some r \<Rightarrow> Inr \<lparr>fr_maker = fr_maker r, fr_taker = fr_taker r, fr_by_quote = fr_by_quote r\<rparr>)
     \<and> (\<forall>r sym. nav_fee_rates s' = Inr r \<longrightarrow> is_fin (fst (for_symbol r sym)) \<and> is_fin (snd (for_symbol r sym)))"
proof -
  define s s' where "s = sources ! i" and "s' = with_fee_rates rates sources ! i"
  have eq: "s' = (case bm_get rates (sc_id s) of None \<Rightarrow> s
       | Some r \<Rightarrow> s\<lparr>sc_maker_fee_rate := Some (fr_maker r), sc_taker_fee_rate := Some (fr_taker r),
                     sc_quote_fee_rates := fr_by_quote r\<rparr>)"
    unfolding s_def s'_def using assms(1) by (simp add: with_fee_rates_def)
  have id: "sc_id s' = sc_id s" by (simp add: eq split: option.splits)
  have fin: "is_fin (fst (for_symbol r sym)) \<and> is_fin (snd (for_symbol r sym))"
    if "nav_fee_rates s' = Inr r" for r sym
    using nav_fee_rates_valid [OF that] validate_fee_rates_finite by blast
  have "nav_fee_rates s' = (case bm_get rates (sc_id s) of None \<Rightarrow> nav_fee_rates s
       | Some r \<Rightarrow> Inr \<lparr>fr_maker = fr_maker r, fr_taker = fr_taker r, fr_by_quote = fr_by_quote r\<rparr>)"
  proof (cases "bm_get rates (sc_id s)")
    case None
    then show ?thesis by (simp add: eq)
  next
    case (Some r)
    then have "validate_fee_rates r = Inr ()" using assms(2) by (simp add: s_def)
    then have "validate_fee_rates \<lparr>fr_maker = fr_maker r, fr_taker = fr_taker r, fr_by_quote = fr_by_quote r\<rparr> = Inr ()"
      by (simp add: validate_fee_rates_def)
    then show ?thesis using Some by (simp add: eq nav_fee_rates_def or_else_def Let_def)
  qed
  with id fin show ?thesis unfolding Let_def s_def s'_def by blast
qed

definition sample_source :: "string \<Rightarrow> source_config" where
  "sample_source sid =
     \<lparr>sc_id = sid, sc_account = ''trade01'', sc_alias = None, sc_venue = ''binance-futures'',
      sc_rocksdb_path = ''/srv/trade01/persist_manager'', sc_enabled = True, sc_monitor_enabled = True,
      sc_estimated_fee_rate = Some 0, sc_maker_fee_rate = None, sc_taker_fee_rate = None,
      sc_quote_fee_rates = [], sc_gateway_prefix = None, sc_exec_config_url = None,
      sc_exec_viz_url = None, sc_ipc_namespace = None, sc_account_ipc_service = None,
      sc_legacy_share_unit_usdt = None, sc_env_path = None, sc_target_proxy = None\<rparr>"

theorem fee_overlay_resolves_witness:
  "nav_fee_rates (with_fee_rates [(''a'', \<lparr>fr_maker = 0, fr_taker = 1, fr_by_quote = []\<rparr>)] [sample_source ''a''] ! 0)
     = Inr \<lparr>fr_maker = 0, fr_taker = 1, fr_by_quote = []\<rparr>"
  using fee_overlay_resolves [of 0 "[sample_source ''a'']" "[(''a'', \<lparr>fr_maker = 0, fr_taker = 1, fr_by_quote = []\<rparr>)]"]
  by (simp add: sample_source_def validate_fee_rates_def validate_quote_fee_rates_def Let_def)

end
