(* ===== verification/Decode.thy ===== *)
theory Decode
  imports F64 Text
begin

text \<open>
  The binary record decoder of \<open>model.rs\<close>: the cursor \<open>Decoder\<close>, UTF-8 handling, timestamp keys,
  and the three record kinds (trade update, order update, uniform order with its optional tail).
  The contract of a field reader is the locale \<open>field_codec\<close>: it succeeds exactly when the
  cursor stands on an encoding of the value it returns. Interpreted on each primitive reader it
  gives the exactness theorems: a payload decodes to an event if and only if it is the layout of
  the fields of that event, so no truncated or padded record is accepted.
\<close>

subsection \<open>UTF-8\<close>

type_synonym bytes = "8 word list"

definition chars_of :: "bytes \<Rightarrow> string" where
  "chars_of bs = map (\<lambda>b. char_of (unat b)) bs"

definition in_range :: "nat \<Rightarrow> nat \<Rightarrow> 8 word \<Rightarrow> bool" where
  "in_range lo hi b \<longleftrightarrow> lo \<le> unat b \<and> unat b \<le> hi"

definition cont :: "8 word \<Rightarrow> bool" where
  "cont b \<longleftrightarrow> in_range 128 191 b"

text \<open>
  One step of the standard library's UTF-8 scanner: whether the sequence at the front is valid,
  and how many bytes it (or its maximal invalid prefix) takes.
\<close>

definition second_ok :: "8 word \<Rightarrow> 8 word \<Rightarrow> bool" where
  "second_ok b c =
     (if unat b = 224 then in_range 160 191 c else if unat b = 237 then in_range 128 159 c
      else if unat b = 240 then in_range 144 191 c else if unat b = 244 then in_range 128 143 c
      else cont c)"

definition utf8_step :: "8 word \<Rightarrow> bytes \<Rightarrow> bool \<times> nat" where
  "utf8_step b rest =
     (if unat b < 128 then (True, 1)
      else if in_range 194 223 b then
        (case rest of c # _ \<Rightarrow> if cont c then (True, 2) else (False, 1) | [] \<Rightarrow> (False, 1))
      else if in_range 224 239 b then
        (case rest of
           c # d # _ \<Rightarrow> if \<not> second_ok b c then (False, 1) else if cont d then (True, 3) else (False, 2)
         | [c] \<Rightarrow> if second_ok b c then (False, 2) else (False, 1)
         | [] \<Rightarrow> (False, 1))
      else if in_range 240 244 b then
        (case rest of
           c # d # e # _ \<Rightarrow>
             if \<not> second_ok b c then (False, 1) else if \<not> cont d then (False, 2)
             else if cont e then (True, 4) else (False, 3)
         | [c, d] \<Rightarrow> if \<not> second_ok b c then (False, 1) else if cont d then (False, 3) else (False, 2)
         | [c] \<Rightarrow> if second_ok b c then (False, 2) else (False, 1)
         | [] \<Rightarrow> (False, 1))
      else (False, 1))"

definition replacement :: string where
  "replacement = map char_of [239, 191, 189 :: nat]"

function from_utf8_lossy :: "bytes \<Rightarrow> string" where
  "from_utf8_lossy [] = []"
| "from_utf8_lossy (b # rest) =
     (case utf8_step b rest of (ok, n) \<Rightarrow>
        (if ok then chars_of (b # take (n - 1) rest) else replacement)
        @ from_utf8_lossy (drop (n - 1) rest))"
  by pat_completeness auto
termination by (relation "measure length") auto

function utf8_valid :: "bytes \<Rightarrow> bool" where
  "utf8_valid [] = True"
| "utf8_valid (b # rest) =
     (case utf8_step b rest of (ok, n) \<Rightarrow> ok \<and> utf8_valid (drop (n - 1) rest))"
  by pat_completeness auto
termination by (relation "measure length") auto

lemma from_utf8_lossy_valid: "utf8_valid bs \<Longrightarrow> from_utf8_lossy bs = chars_of bs"
proof (induction bs rule: utf8_valid.induct)
  case 1
  then show ?case by (simp add: chars_of_def)
next
  case (2 b rest)
  obtain ok n where s: "utf8_step b rest = (ok, n)" by fastforce
  with 2 have "ok" "from_utf8_lossy (drop (n - 1) rest) = chars_of (drop (n - 1) rest)" by auto
  then show ?case by (simp add: s chars_of_def flip: map_append)
qed

lemma utf8_valid_ascii: "list_all (\<lambda>b. unat b < 128) bs \<Longrightarrow> utf8_valid bs"
  by (induction bs) (auto simp: utf8_step_def)

subsection \<open>Little-endian integers\<close>

fun le_nat :: "bytes \<Rightarrow> nat" where
  "le_nat [] = 0"
| "le_nat (b # bs) = unat b + 256 * le_nat bs"

fun le_bytes :: "nat \<Rightarrow> nat \<Rightarrow> bytes" where
  "le_bytes 0 x = []"
| "le_bytes (Suc n) x = of_nat (x mod 256) # le_bytes n (x div 256)"

definition to_signed64 :: "nat \<Rightarrow> int" where
  "to_signed64 x = (if x < 2 ^ 63 then int x else int x - 2 ^ 64)"

definition f64_from :: "nat \<Rightarrow> f64" where
  "f64_from x = f64_of_bits (of_nat x)"

lemma length_le_bytes [simp]: "length (le_bytes n x) = n"
  by (induction n arbitrary: x) auto

lemma unat_byte: "unat (of_nat (x mod 256) :: 8 word) = x mod 256"
  by (simp add: unat_of_nat)

lemma le_nat_le_bytes: "x < 256 ^ n \<Longrightarrow> le_nat (le_bytes n x) = x"
proof (induction n arbitrary: x)
  case 0
  then show ?case by simp
next
  case (Suc n)
  then have "x div 256 < 256 ^ n" by (simp add: less_mult_imp_div_less mult.commute)
  from Suc.IH [OF this] show ?case by (simp add: unat_byte)
qed

lemma byte_less: "unat (b :: 8 word) < 256"
  using unsigned_less [of b, where 'a = nat] by simp

lemma le_bytes_le_nat: "le_bytes (length bs) (le_nat bs) = bs"
proof (induction bs)
  case (Cons b bs)
  have "(unat b + 256 * le_nat bs) mod 256 = unat b" "(unat b + 256 * le_nat bs) div 256 = le_nat bs"
    using byte_less [of b] by simp_all
  with Cons show ?case by simp
qed simp

lemma le_nat_bound: "le_nat bs < 256 ^ length bs"
proof (induction bs)
  case (Cons b bs)
  have "unat b < 256" by (rule byte_less)
  with Cons show ?case by simp
qed simp

subsection \<open>The cursor\<close>

record decoder =
  dc_input :: bytes
  dc_offset :: nat

datatype decode_error =
    KeyNotUtf8 | KeyNotTimestamp string | KeyExceedsI64
  | LengthOverflow string
  | TooShort string nat nat
  | BadPresentFlag string nat
  | BadStatusFlag nat
  | BadLiquidity nat
  | BadMask nat
  | BadLegLength nat
  | BadTail nat
  | TrailingBytes nat

definition usize_max :: nat where "usize_max = 2 ^ 64 - 1"
definition isize_max :: nat where "isize_max = 2 ^ 63 - 1"

definition new_decoder :: "bytes \<Rightarrow> decoder" where
  "new_decoder input = \<lparr>dc_input = input, dc_offset = 0\<rparr>"

definition d_remaining :: "decoder \<Rightarrow> nat" where
  "d_remaining d = length (dc_input d) - dc_offset d"

type_synonym 'a read = "decode_error + 'a \<times> decoder"

definition d_bytes :: "nat \<Rightarrow> string \<Rightarrow> decoder \<Rightarrow> bytes read" where
  "d_bytes n field d =
     (let stop_at = dc_offset d + n
      in if usize_max < stop_at then Inl (LengthOverflow field)
         else if length (dc_input d) < stop_at then Inl (TooShort field n (d_remaining d))
         else Inr (take n (drop (dc_offset d) (dc_input d)), d\<lparr>dc_offset := stop_at\<rparr>))"

definition d_lossy :: "nat \<Rightarrow> string \<Rightarrow> decoder \<Rightarrow> string read" where
  "d_lossy n field d = rbind (d_bytes n field d) (\<lambda>(bs, d). Inr (from_utf8_lossy bs, d))"

definition d_uint :: "nat \<Rightarrow> string \<Rightarrow> decoder \<Rightarrow> nat read" where
  "d_uint n field d = rbind (d_bytes n field d) (\<lambda>(bs, d). Inr (le_nat bs, d))"

definition d_u8 :: "string \<Rightarrow> decoder \<Rightarrow> nat read" where "d_u8 = d_uint 1"
definition d_u16 :: "string \<Rightarrow> decoder \<Rightarrow> nat read" where "d_u16 = d_uint 2"
definition d_u32 :: "string \<Rightarrow> decoder \<Rightarrow> nat read" where "d_u32 = d_uint 4"

definition d_i64 :: "string \<Rightarrow> decoder \<Rightarrow> i64 read" where
  "d_i64 field d = rbind (d_uint 8 field d) (\<lambda>(x, d). Inr (to_signed64 x, d))"

definition d_f64 :: "string \<Rightarrow> decoder \<Rightarrow> f64 read" where
  "d_f64 field d = rbind (d_uint 8 field d) (\<lambda>(x, d). Inr (f64_from x, d))"

definition d_string :: "string \<Rightarrow> decoder \<Rightarrow> string read" where
  "d_string field d = rbind (d_u32 (field @ ''_len'') d) (\<lambda>(n, d). d_lossy n field d)"

definition d_optional_string :: "string \<Rightarrow> decoder \<Rightarrow> string option read" where
  "d_optional_string field d =
     rbind (d_u8 (field @ ''_present'') d) (\<lambda>(flag, d).
       if flag = 0 then Inr (None, d)
       else if flag = 1 then rbind (d_string field d) (\<lambda>(s, d). Inr (Some s, d))
       else Inl (BadPresentFlag field flag))"

subsection \<open>Keys and names\<close>

definition decode_timestamp_key :: "bytes \<Rightarrow> decode_error + string \<times> i64" where
  "decode_timestamp_key key =
     (if \<not> utf8_valid key then Inl KeyNotUtf8
      else let k = chars_of key
           in if length k \<noteq> 20 \<or> \<not> list_all is_digit k then Inl (KeyNotTimestamp k)
              else if i64_max < int (decimal_value k) then Inl KeyExceedsI64
              else Inr (k, int (decimal_value k)))"

definition unknown_name :: "nat \<Rightarrow> string" where
  "unknown_name v = ''UNKNOWN('' @ show_nat v @ '')''"

definition name_at :: "string list \<Rightarrow> nat \<Rightarrow> nat \<Rightarrow> string" where
  "name_at names first v = (if first \<le> v \<and> v - first < length names then names ! (v - first) else unknown_name v)"

definition venue_name :: "nat \<Rightarrow> string" where
  "venue_name = name_at [''BinanceMargin'', ''BinanceFutures'', ''OkexMargin'', ''OkexFutures'',
     ''BybitMargin'', ''BybitFutures'', ''BitgetMargin'', ''BitgetFutures'', ''GateMargin'', ''GateFutures'',
     ''AsterMargin'', ''AsterFutures'', ''HyperliquidMargin'', ''HyperliquidFutures'',
     ''BinanceCoinFutures'', ''BitgetCoinFutures''] 0"

definition order_type_name :: "nat \<Rightarrow> string" where
  "order_type_name = name_at [''LIMIT'', ''INTERNAL_CROSS'', ''MARKET'', ''STOP_LOSS'', ''STOP_LOSS_LIMIT'',
     ''TAKE_PROFIT'', ''TAKE_PROFIT_LIMIT'', ''STOP_MARKET'', ''TAKE_PROFIT_MARKET''] 1"

definition side_name :: "nat \<Rightarrow> string" where
  "side_name = name_at [''BUY'', ''SELL''] 1"

definition status_name :: "nat \<Rightarrow> string" where
  "status_name = name_at [''NEW'', ''PARTIALLY_FILLED'', ''FILLED'', ''CANCELED'', ''EXPIRED'', ''EXPIRED_IN_MATCH''] 1"


subsection \<open>Record kinds\<close>

datatype fill_liquidity = FillUnknown | FillMaker | FillTaker

definition fill_liquidity_decode :: "nat \<Rightarrow> decode_error + fill_liquidity" where
  "fill_liquidity_decode code =
     (if code = 0 then Inr FillUnknown else if code = 1 then Inr FillMaker
      else if code = 2 then Inr FillTaker else Inl (BadLiquidity code))"

record trade_update_event =
  tu_record_key :: string
  tu_record_ts_us :: i64
  tu_recv_ts_us :: i64
  tu_event_ts_us :: i64
  tu_trade_ts_us :: i64
  tu_symbol :: string
  tu_order_id :: i64
  tu_client_order_id :: i64
  tu_side_code :: i16
  tu_price :: f64
  tu_is_maker :: bool
  tu_venue_code :: i16
  tu_cumulative_filled_quantity :: f64
  tu_status_code :: "i16 option"

record order_update_event =
  ou_record_key :: string
  ou_record_ts_us :: i64
  ou_recv_ts_us :: i64
  ou_event_ts_us :: i64
  ou_symbol :: string
  ou_order_id :: i64
  ou_client_order_id :: i64
  ou_client_order_id_text :: "string option"
  ou_side_code :: i16
  ou_order_type_code :: i16
  ou_time_in_force_code :: i16
  ou_price :: f64
  ou_quantity :: f64
  ou_cumulative_filled_quantity :: f64
  ou_status_code :: i16
  ou_raw_status :: string
  ou_execution_type_code :: i16
  ou_raw_execution_type :: string
  ou_venue_code :: i16

record signal_bbo_leg =
  sl_venue_code :: i16
  sl_ts_us :: i64
  sl_bid_price :: f64
  sl_bid_quantity :: f64
  sl_ask_price :: f64
  sl_ask_quantity :: f64

record uniform_order_event =
  uo_record_key :: string
  uo_event_ts_us :: i64
  uo_recv_ts_us :: i64
  uo_symbol :: string
  uo_create_ts_us :: i64
  uo_update_ts_us :: i64
  uo_signal_ts_us :: i64
  uo_submit_ts_us :: i64
  uo_local_ts_us :: i64
  uo_market_ts_us :: i64
  uo_client_order_id :: i64
  uo_venue_code :: i16
  uo_venue :: string
  uo_order_type_code :: i16
  uo_order_type :: string
  uo_side_code :: i16
  uo_side :: string
  uo_price :: f64
  uo_price_offset :: f64
  uo_amount_initial :: f64
  uo_amount_update :: f64
  uo_status_code :: i16
  uo_status :: string
  uo_from_key :: bytes
  uo_from_key_text :: string
  uo_bbo_spread :: string
  uo_signal_open :: "signal_bbo_leg option"
  uo_signal_hedge :: "signal_bbo_leg option"
  uo_fill_liquidity :: "fill_liquidity option"

definition no_trailing :: "decoder \<Rightarrow> decode_error + unit" where
  "no_trailing d = rensure (d_remaining d = 0) (TrailingBytes (d_remaining d))"

definition d_status :: "decoder \<Rightarrow> i16 option read" where
  "d_status d =
     rbind (d_u8 ''status_present'' d) (\<lambda>(flag, d).
       if flag = 0 then Inr (None, d)
       else if flag = 1 then rbind (d_u8 ''status'' d) (\<lambda>(s, d). Inr (Some (int s), d))
       else Inl (BadStatusFlag flag))"

definition decode_trade_update :: "bytes \<Rightarrow> bytes \<Rightarrow> decode_error + trade_update_event" where
  "decode_trade_update key payload =
     rbind (decode_timestamp_key key) (\<lambda>(k, ts).
     rbind (d_i64 ''recv_ts_us'' (new_decoder payload)) (\<lambda>(recv, d).
     rbind (d_i64 ''event_time'' d) (\<lambda>(event_t, d).
     rbind (d_i64 ''trade_time'' d) (\<lambda>(trade_t, d).
     rbind (d_string ''symbol'' d) (\<lambda>(symbol, d).
     rbind (d_i64 ''order_id'' d) (\<lambda>(order_id, d).
     rbind (d_i64 ''client_order_id'' d) (\<lambda>(client, d).
     rbind (d_u8 ''side'' d) (\<lambda>(sd, d).
     rbind (d_f64 ''price'' d) (\<lambda>(price, d).
     rbind (d_u8 ''is_maker'' d) (\<lambda>(maker, d).
     rbind (d_u8 ''venue'' d) (\<lambda>(venue, d).
     rbind (d_f64 ''cumulative_filled_quantity'' d) (\<lambda>(cum, d).
     rbind (d_status d) (\<lambda>(status, d).
     rbind (no_trailing d) (\<lambda>_.
     Inr \<lparr>tu_record_key = k, tu_record_ts_us = ts, tu_recv_ts_us = recv, tu_event_ts_us = event_t,
          tu_trade_ts_us = trade_t, tu_symbol = symbol, tu_order_id = order_id, tu_client_order_id = client,
          tu_side_code = int sd, tu_price = price, tu_is_maker = (maker \<noteq> 0), tu_venue_code = int venue,
          tu_cumulative_filled_quantity = cum, tu_status_code = status\<rparr>))))))))))))))"

definition decode_order_update :: "bytes \<Rightarrow> bytes \<Rightarrow> decode_error + order_update_event" where
  "decode_order_update key payload =
     rbind (decode_timestamp_key key) (\<lambda>(k, ts).
     rbind (d_i64 ''recv_ts_us'' (new_decoder payload)) (\<lambda>(recv, d).
     rbind (d_i64 ''event_time'' d) (\<lambda>(event_t, d).
     rbind (d_string ''symbol'' d) (\<lambda>(symbol, d).
     rbind (d_i64 ''order_id'' d) (\<lambda>(order_id, d).
     rbind (d_i64 ''client_order_id'' d) (\<lambda>(client, d).
     rbind (d_optional_string ''client_order_id_str'' d) (\<lambda>(client_text, d).
     rbind (d_u8 ''side'' d) (\<lambda>(sd, d).
     rbind (d_u8 ''order_type'' d) (\<lambda>(otype, d).
     rbind (d_u8 ''time_in_force'' d) (\<lambda>(tif, d).
     rbind (d_f64 ''price'' d) (\<lambda>(price, d).
     rbind (d_f64 ''quantity'' d) (\<lambda>(quantity, d).
     rbind (d_f64 ''cumulative_filled_quantity'' d) (\<lambda>(cum, d).
     rbind (d_u8 ''status'' d) (\<lambda>(status, d).
     rbind (d_string ''raw_status'' d) (\<lambda>(raw_status, d).
     rbind (d_u8 ''execution_type'' d) (\<lambda>(etype, d).
     rbind (d_string ''raw_execution_type'' d) (\<lambda>(raw_etype, d).
     rbind (d_u8 ''venue'' d) (\<lambda>(venue, d).
     rbind (no_trailing d) (\<lambda>_.
     Inr \<lparr>ou_record_key = k, ou_record_ts_us = ts, ou_recv_ts_us = recv, ou_event_ts_us = event_t,
          ou_symbol = symbol, ou_order_id = order_id, ou_client_order_id = client,
          ou_client_order_id_text = client_text, ou_side_code = int sd, ou_order_type_code = int otype,
          ou_time_in_force_code = int tif, ou_price = price, ou_quantity = quantity,
          ou_cumulative_filled_quantity = cum, ou_status_code = int status, ou_raw_status = raw_status,
          ou_execution_type_code = int etype, ou_raw_execution_type = raw_etype,
          ou_venue_code = int venue\<rparr>)))))))))))))))))))"

definition signal_bbo_leg_binary_len :: nat where "signal_bbo_leg_binary_len = 41"
definition signal_bbo_binary_len :: nat where "signal_bbo_binary_len = 83"
definition uniform_order_tail_binary_len :: nat where
  "uniform_order_tail_binary_len = signal_bbo_binary_len + 1"

definition decode_signal_leg :: "bytes \<Rightarrow> bool \<Rightarrow> decode_error + signal_bbo_leg option" where
  "decode_signal_leg raw present =
     (if \<not> present then Inr None
      else if length raw \<noteq> signal_bbo_leg_binary_len then Inl (BadLegLength (length raw))
      else let word = (\<lambda>i. le_nat (take 8 (drop i raw)))
           in Inr (Some \<lparr>sl_venue_code = int (unat (raw ! 0)), sl_ts_us = to_signed64 (word 1),
                sl_bid_price = f64_from (word 9), sl_bid_quantity = f64_from (word 17),
                sl_ask_price = f64_from (word 25), sl_ask_quantity = f64_from (word 33)\<rparr>))"

definition decode_signal_bbo ::
    "bytes \<Rightarrow> decode_error + signal_bbo_leg option \<times> signal_bbo_leg option" where
  "decode_signal_bbo raw =
     (let mask = unat (raw ! 0)
      in if 4 \<le> mask then Inl (BadMask mask)
         else rbind (decode_signal_leg (take signal_bbo_leg_binary_len (drop 1 raw)) (mask mod 2 \<noteq> 0)) (\<lambda>opn.
              rbind (decode_signal_leg (drop (1 + signal_bbo_leg_binary_len) raw) (mask div 2 mod 2 \<noteq> 0)) (\<lambda>hedge.
              Inr (opn, hedge))))"

text \<open>The optional tail of a uniform order: the bbo spread text, the signal legs, the liquidity byte.\<close>

definition d_bbo_spread :: "decoder \<Rightarrow> string read" where
  "d_bbo_spread d =
     (if d_remaining d = 0 then Inr ([], d)
      else rbind (d_u16 ''bbo_spread_len'' d) (\<lambda>(n, d). d_lossy n ''bbo_spread'' d))"

definition d_signals :: "decoder \<Rightarrow> (signal_bbo_leg option \<times> signal_bbo_leg option) read" where
  "d_signals d =
     (let r = d_remaining d
      in if r = 0 then Inr ((None, None), d)
         else if r = signal_bbo_binary_len \<or> r = uniform_order_tail_binary_len
         then rbind (d_bytes signal_bbo_binary_len ''signal_bbo'' d) (\<lambda>(raw, d).
              rbind (decode_signal_bbo raw) (\<lambda>legs. Inr (legs, d)))
         else Inl (BadTail r))"

definition d_fill_liquidity :: "decoder \<Rightarrow> fill_liquidity option read" where
  "d_fill_liquidity d =
     (if d_remaining d = 1
      then rbind (d_u8 ''fill_liquidity'' d) (\<lambda>(code, d).
           rbind (fill_liquidity_decode code) (\<lambda>l. Inr (Some l, d)))
      else Inr (None, d))"

definition decode_uniform_order :: "bytes \<Rightarrow> bytes \<Rightarrow> decode_error + uniform_order_event" where
  "decode_uniform_order key payload =
     rbind (decode_timestamp_key key) (\<lambda>(k, ts).
     rbind (d_i64 ''recv_ts_us'' (new_decoder payload)) (\<lambda>(recv, d).
     rbind (d_u16 ''symbol_len'' d) (\<lambda>(symbol_len, d).
     rbind (d_lossy symbol_len ''symbol'' d) (\<lambda>(symbol, d).
     rbind (d_i64 ''create_ts'' d) (\<lambda>(create_ts, d).
     rbind (d_i64 ''update_ts'' d) (\<lambda>(update_ts, d).
     rbind (d_i64 ''signal_ts'' d) (\<lambda>(signal_ts, d).
     rbind (d_i64 ''submit_ts'' d) (\<lambda>(submit_ts, d).
     rbind (d_i64 ''local_ts'' d) (\<lambda>(local_ts, d).
     rbind (d_i64 ''mkt_ts'' d) (\<lambda>(mkt_ts, d).
     rbind (d_i64 ''client_order_id'' d) (\<lambda>(client, d).
     rbind (d_u8 ''venue'' d) (\<lambda>(venue_raw, d).
     rbind (d_u8 ''order_type'' d) (\<lambda>(order_type_raw, d).
     rbind (d_u8 ''side'' d) (\<lambda>(side_raw, d).
     rbind (d_f64 ''price'' d) (\<lambda>(price, d).
     rbind (d_f64 ''price_offset'' d) (\<lambda>(price_offset, d).
     rbind (d_f64 ''amount_init'' d) (\<lambda>(amount_initial, d).
     rbind (d_f64 ''amount_update'' d) (\<lambda>(amount_update, d).
     rbind (d_u8 ''status'' d) (\<lambda>(status_raw, d).
     rbind (d_u32 ''from_key_len'' d) (\<lambda>(from_key_len, d).
     rbind (d_bytes from_key_len ''from_key'' d) (\<lambda>(from_key, d).
     rbind (d_bbo_spread d) (\<lambda>(bbo_spread, d).
     rbind (d_signals d) (\<lambda>((signal_open, signal_hedge), d).
     rbind (d_fill_liquidity d) (\<lambda>(liquidity, d).
     rbind (no_trailing d) (\<lambda>_.
     Inr \<lparr>uo_record_key = k, uo_event_ts_us = ts, uo_recv_ts_us = recv, uo_symbol = symbol,
          uo_create_ts_us = create_ts, uo_update_ts_us = update_ts, uo_signal_ts_us = signal_ts,
          uo_submit_ts_us = submit_ts, uo_local_ts_us = local_ts, uo_market_ts_us = mkt_ts,
          uo_client_order_id = client, uo_venue_code = int venue_raw, uo_venue = venue_name venue_raw,
          uo_order_type_code = int order_type_raw, uo_order_type = order_type_name order_type_raw,
          uo_side_code = int side_raw, uo_side = side_name side_raw, uo_price = price,
          uo_price_offset = price_offset, uo_amount_initial = amount_initial,
          uo_amount_update = amount_update, uo_status_code = int status_raw,
          uo_status = status_name status_raw, uo_from_key = from_key,
          uo_from_key_text = from_utf8_lossy from_key, uo_bbo_spread = bbo_spread,
          uo_signal_open = signal_open, uo_signal_hedge = signal_hedge,
          uo_fill_liquidity = liquidity\<rparr>)))))))))))))))))))))))))"


subsection \<open>The contract of a field reader\<close>

definition cursor :: "bytes \<Rightarrow> bytes \<Rightarrow> decoder" where
  "cursor pre post = \<lparr>dc_input = pre @ post, dc_offset = length pre\<rparr>"

definition fits :: "bytes \<Rightarrow> bytes \<Rightarrow> bool" where
  "fits pre post \<longleftrightarrow> length (pre @ post) \<le> isize_max"

lemma fits_append [simp]: "fits (pre @ a) post \<longleftrightarrow> fits pre (a @ post)"
  by (simp add: fits_def)

lemma fits_norm: "NO_MATCH [] pre \<Longrightarrow> fits pre post \<longleftrightarrow> fits [] (pre @ post)"
  by (simp add: fits_def)

lemma cursor_remaining [simp]: "d_remaining (cursor pre post) = length post"
  by (simp add: d_remaining_def cursor_def)

lemma new_decoder_cursor: "new_decoder p = cursor [] p"
  by (simp add: new_decoder_def cursor_def)

locale field_codec =
  fixes read :: "decoder \<Rightarrow> decode_error + 'a \<times> decoder"
    and enc :: "'r \<Rightarrow> bytes" and val :: "'r \<Rightarrow> 'a" and ok :: "'r \<Rightarrow> bool"
  assumes read_enc: "ok r \<Longrightarrow> fits pre (enc r @ post) \<Longrightarrow>
      read (cursor pre (enc r @ post)) = Inr (val r, cursor (pre @ enc r) post)"
    and read_dec: "fits pre post \<Longrightarrow> read (cursor pre post) = Inr (x, d) \<Longrightarrow>
      \<exists>r post'. ok r \<and> post = enc r @ post' \<and> x = val r \<and> d = cursor (pre @ enc r) post'"
begin

lemma bind_enc:
  "ok r \<Longrightarrow> fits pre (enc r @ post) \<Longrightarrow>
   rbind (read (cursor pre (enc r @ post))) k = k (val r, cursor (pre @ enc r) post)"
  by (simp add: read_enc)

lemma bind_last:
  "ok r \<Longrightarrow> fits pre (enc r) \<Longrightarrow>
   rbind (read (cursor pre (enc r))) k = k (val r, cursor (pre @ enc r) [])"
  using bind_enc [of r pre "[]"] by simp

lemma bind_iff:
  assumes "fits pre post"
  shows "rbind (read (cursor pre post)) k = Inr y \<longleftrightarrow>
    (\<exists>r post'. ok r \<and> post = enc r @ post' \<and> k (val r, cursor (pre @ enc r) post') = Inr y)"
proof
  assume "rbind (read (cursor pre post)) k = Inr y"
  then obtain x d where "read (cursor pre post) = Inr (x, d)" "k (x, d) = Inr y"
    by (auto simp: rbind_Inr_iff)
  with read_dec [OF assms] show "\<exists>r post'. ok r \<and> post = enc r @ post' \<and> k (val r, cursor (pre @ enc r) post') = Inr y"
    by blast
next
  assume "\<exists>r post'. ok r \<and> post = enc r @ post' \<and> k (val r, cursor (pre @ enc r) post') = Inr y"
  then obtain r post' where r: "ok r" "post = enc r @ post'" "k (val r, cursor (pre @ enc r) post') = Inr y" by blast
  then show "rbind (read (cursor pre post)) k = Inr y" using bind_enc [OF r(1), of pre post' k] assms by simp
qed

end

lemma d_bytes_cursor:
  assumes "fits pre post"
  shows "d_bytes n f (cursor pre post) =
     (if n \<le> length post then Inr (take n post, cursor (pre @ take n post) (drop n post))
      else if usize_max < length pre + n then Inl (LengthOverflow f)
      else Inl (TooShort f n (length post)))"
  using assms by (auto simp: d_bytes_def cursor_def d_remaining_def fits_def isize_max_def usize_max_def Let_def)

lemma d_bytes_iff:
  assumes "fits pre post"
  shows "d_bytes n f (cursor pre post) = Inr (x, d) \<longleftrightarrow>
    (\<exists>post'. length x = n \<and> post = x @ post' \<and> d = cursor (pre @ x) post')"
  using assms by (auto simp: d_bytes_cursor) (metis append_take_drop_id)

interpretation raw_bytes: field_codec "d_bytes n f" "\<lambda>bs. bs" "\<lambda>bs. bs" "\<lambda>bs. length bs = n" for n f
  by unfold_locales (auto simp: d_bytes_iff)

interpretation lossy: field_codec "d_lossy n f" "\<lambda>bs. bs" from_utf8_lossy "\<lambda>bs. length bs = n" for n f
  unfolding d_lossy_def
  by unfold_locales (auto simp: raw_bytes.bind_enc raw_bytes.bind_iff)

lemma uint_codec: "field_codec (d_uint n f) (le_bytes n) (\<lambda>x. x) (\<lambda>x. x < 256 ^ n)"
proof
  fix r pre post
  assume "r < 256 ^ n" "fits pre (le_bytes n r @ post)"
  then show "d_uint n f (cursor pre (le_bytes n r @ post)) = Inr (r, cursor (pre @ le_bytes n r) post)"
    by (simp add: d_uint_def raw_bytes.bind_enc le_nat_le_bytes)
next
  fix pre post x d
  assume "fits pre post" "d_uint n f (cursor pre post) = Inr (x, d)"
  then obtain bs post' where b: "length bs = n" "post = bs @ post'" "x = le_nat bs" "d = cursor (pre @ bs) post'"
    by (auto simp: d_uint_def raw_bytes.bind_iff)
  then show "\<exists>r post'. r < 256 ^ n \<and> post = le_bytes n r @ post' \<and> x = r \<and> d = cursor (pre @ le_bytes n r) post'"
    using le_bytes_le_nat [of bs] le_nat_bound [of bs] by auto
qed

interpretation uint: field_codec "d_uint n f" "le_bytes n" "\<lambda>x. x" "\<lambda>x. x < 256 ^ n" for n f
  by (rule uint_codec)

interpretation u8: field_codec "d_u8 f" "le_bytes 1" "\<lambda>x. x" "\<lambda>x. x < 256 ^ 1" for f
  unfolding d_u8_def by (rule uint_codec)

interpretation u16: field_codec "d_u16 f" "le_bytes 2" "\<lambda>x. x" "\<lambda>x. x < 256 ^ 2" for f
  unfolding d_u16_def by (rule uint_codec)

interpretation u32: field_codec "d_u32 f" "le_bytes 4" "\<lambda>x. x" "\<lambda>x. x < 256 ^ 4" for f
  unfolding d_u32_def by (rule uint_codec)

interpretation i64: field_codec "d_i64 f" "le_bytes 8" to_signed64 "\<lambda>x. x < 256 ^ 8" for f
  unfolding d_i64_def by unfold_locales (auto simp: uint.bind_enc uint.bind_iff)

interpretation f64: field_codec "d_f64 f" "le_bytes 8" f64_from "\<lambda>x. x < 256 ^ 8" for f
  unfolding d_f64_def by unfold_locales (auto simp: uint.bind_enc uint.bind_iff)

text \<open>A string behind its length: four bytes of length in updates, two in uniform orders.\<close>

definition enc_prefixed :: "nat \<Rightarrow> bytes \<Rightarrow> bytes" where
  "enc_prefixed w bs = le_bytes w (length bs) @ bs"

definition d_prefixed :: "nat \<Rightarrow> string \<Rightarrow> string \<Rightarrow> decoder \<Rightarrow> string read" where
  "d_prefixed w g field d = rbind (d_uint w g d) (\<lambda>(n, d). d_lossy n field d)"

lemma prefixed_codec:
  "field_codec (d_prefixed w g f) (enc_prefixed w) from_utf8_lossy (\<lambda>bs. length bs < 256 ^ w)"
proof
  fix r pre post
  assume "length r < 256 ^ w" "fits pre (enc_prefixed w r @ post)"
  then show "d_prefixed w g f (cursor pre (enc_prefixed w r @ post)) = Inr (from_utf8_lossy r, cursor (pre @ enc_prefixed w r) post)"
    using lossy.read_enc [of r "length r" "pre @ le_bytes w (length r)" post]
    by (simp add: d_prefixed_def enc_prefixed_def uint.bind_enc)
next
  fix pre post x d
  assume "fits pre post" "d_prefixed w g f (cursor pre post) = Inr (x, d)"
  then obtain n p where n: "n < 256 ^ w" "post = le_bytes w n @ p" "d_lossy n f (cursor (pre @ le_bytes w n) p) = Inr (x, d)"
    by (auto simp: d_prefixed_def uint.bind_iff)
  moreover have "fits (pre @ le_bytes w n) p" using \<open>fits pre post\<close> n by simp
  ultimately show "\<exists>r post'. length r < 256 ^ w \<and> post = enc_prefixed w r @ post' \<and> x = from_utf8_lossy r
      \<and> d = cursor (pre @ enc_prefixed w r) post'"
    using lossy.read_dec by (fastforce simp: enc_prefixed_def)
qed

definition enc_string :: "bytes \<Rightarrow> bytes" where
  "enc_string bs = enc_prefixed 4 bs"

lemma d_string_prefixed: "d_string f = d_prefixed 4 (f @ ''_len'') f"
  by (rule ext) (simp add: d_string_def d_prefixed_def d_u32_def)

interpretation str: field_codec "d_string f" enc_string from_utf8_lossy "\<lambda>bs. length bs < 256 ^ 4" for f
  unfolding d_string_prefixed enc_string_def by (rule prefixed_codec)

lemma d_short_prefixed:
  "rbind (d_u16 g d) (\<lambda>(n, d). rbind (d_lossy n f d) k) = rbind (d_prefixed 2 g f d) k"
  by (simp add: d_prefixed_def d_u16_def rbind_assoc split_def)

interpretation short_str: field_codec "d_prefixed 2 g f" "enc_prefixed 2" from_utf8_lossy
    "\<lambda>bs. length bs < 256 ^ 2" for g f
  by (rule prefixed_codec)

text \<open>A reader behind a presence flag is a reader of an option.\<close>

fun enc_optional :: "('a \<Rightarrow> bytes) \<Rightarrow> 'a option \<Rightarrow> bytes" where
  "enc_optional e None = le_bytes 1 0"
| "enc_optional e (Some r) = le_bytes 1 1 @ e r"

definition d_flagged :: "string \<Rightarrow> (nat \<Rightarrow> decode_error) \<Rightarrow> ('a \<Rightarrow> 'b) \<Rightarrow> (decoder \<Rightarrow> 'a read) \<Rightarrow> decoder \<Rightarrow> 'b option read" where
  "d_flagged g err h rd d =
     rbind (d_u8 g d) (\<lambda>(flag, d).
       if flag = 0 then Inr (None, d)
       else if flag = 1 then rbind (rd d) (\<lambda>(s, d). Inr (Some (h s), d))
       else Inl (err flag))"

context field_codec
begin

lemma flagged:
  "field_codec (d_flagged g err h read) (enc_optional enc) (map_option (\<lambda>r. h (val r))) (pred_option ok)"
proof
  fix r pre post
  assume "pred_option ok r" "fits pre (enc_optional enc r @ post)"
  then show "d_flagged g err h read (cursor pre (enc_optional enc r @ post)) =
      Inr (map_option (\<lambda>r. h (val r)) r, cursor (pre @ enc_optional enc r) post)"
    by (cases r) (simp_all add: d_flagged_def u8.bind_enc read_enc del: One_nat_def le_bytes.simps)
next
  fix pre post x d
  assume f: "fits pre post" and "d_flagged g err h read (cursor pre post) = Inr (x, d)"
  then obtain n p where n: "post = le_bytes 1 n @ p" and k:
    "(if n = 0 then Inr (None, cursor (pre @ le_bytes 1 n) p)
      else if n = 1 then rbind (read (cursor (pre @ le_bytes 1 n) p)) (\<lambda>(s, d). Inr (Some (h s), d))
      else Inl (err n)) = Inr (x, d)"
    unfolding d_flagged_def u8.bind_iff [OF f] by (auto simp del: le_bytes.simps One_nat_def)
  have g: "fits (pre @ le_bytes 1 n) p" using f n by simp
  show "\<exists>r post'. pred_option ok r \<and> post = enc_optional enc r @ post' \<and>
      x = map_option (\<lambda>r. h (val r)) r \<and> d = cursor (pre @ enc_optional enc r) post'"
  proof (cases "n = 0")
    case True
    then show ?thesis using n k by (intro exI [of _ None] exI [of _ p]) (simp del: le_bytes.simps)
  next
    case False
    with k have "n = 1" by (auto split: if_splits)
    with k obtain s where s: "read (cursor (pre @ le_bytes 1 n) p) = Inr (s, d)" "x = Some (h s)"
      by (auto simp: rbind_Inr_iff)
    from read_dec [OF g s(1)] obtain r p' where
      "ok r" "p = enc r @ p'" "s = val r" "d = cursor ((pre @ le_bytes 1 n) @ enc r) p'" by blast
    then show ?thesis using s n \<open>n = 1\<close>
      by (intro exI [of _ "Some r"] exI [of _ p']) (simp del: le_bytes.simps)
  qed
qed

end

lemma optional_string_flagged:
  "d_optional_string f = d_flagged (f @ ''_present'') (BadPresentFlag f) (\<lambda>s. s) (d_string f)"
  by (rule ext) (simp add: d_optional_string_def d_flagged_def)

lemma status_flagged: "d_status = d_flagged ''status_present'' BadStatusFlag int (d_u8 ''status'')"
  by (rule ext) (simp add: d_status_def d_flagged_def)

interpretation optional_str: field_codec "d_optional_string f" "enc_optional enc_string"
    "map_option from_utf8_lossy" "pred_option (\<lambda>bs. length bs < 256 ^ 4)" for f
  unfolding optional_string_flagged by (rule str.flagged)

interpretation status: field_codec d_status "enc_optional (le_bytes 1)" "map_option int"
    "pred_option (\<lambda>x. x < 256 ^ 1)"
  unfolding status_flagged by (rule u8.flagged)

subsection \<open>Record layouts\<close>

text \<open>The fields of a trade update as the writer lays them out, and the event they denote.\<close>

record trade_fields =
  tf_recv :: nat
  tf_event :: nat
  tf_trade :: nat
  tf_symbol :: bytes
  tf_order :: nat
  tf_client :: nat
  tf_side :: nat
  tf_price :: nat
  tf_maker :: nat
  tf_venue :: nat
  tf_cum :: nat
  tf_status :: "nat option"

definition trade_fields_ok :: "trade_fields \<Rightarrow> bool" where
  "trade_fields_ok r \<longleftrightarrow>
     tf_recv r < 256 ^ 8 \<and> tf_event r < 256 ^ 8 \<and> tf_trade r < 256 ^ 8 \<and> length (tf_symbol r) < 256 ^ 4
     \<and> tf_order r < 256 ^ 8 \<and> tf_client r < 256 ^ 8 \<and> tf_side r < 256 ^ 1 \<and> tf_price r < 256 ^ 8
     \<and> tf_maker r < 256 ^ 1 \<and> tf_venue r < 256 ^ 1 \<and> tf_cum r < 256 ^ 8
     \<and> pred_option (\<lambda>x. x < 256 ^ 1) (tf_status r)"

definition trade_layout :: "trade_fields \<Rightarrow> bytes" where
  "trade_layout r =
     le_bytes 8 (tf_recv r) @ le_bytes 8 (tf_event r) @ le_bytes 8 (tf_trade r) @ enc_string (tf_symbol r)
     @ le_bytes 8 (tf_order r) @ le_bytes 8 (tf_client r) @ le_bytes 1 (tf_side r) @ le_bytes 8 (tf_price r)
     @ le_bytes 1 (tf_maker r) @ le_bytes 1 (tf_venue r) @ le_bytes 8 (tf_cum r)
     @ enc_optional (le_bytes 1) (tf_status r)"

definition trade_event :: "string \<times> i64 \<Rightarrow> trade_fields \<Rightarrow> trade_update_event" where
  "trade_event k r =
     \<lparr>tu_record_key = fst k, tu_record_ts_us = snd k, tu_recv_ts_us = to_signed64 (tf_recv r),
      tu_event_ts_us = to_signed64 (tf_event r), tu_trade_ts_us = to_signed64 (tf_trade r),
      tu_symbol = from_utf8_lossy (tf_symbol r), tu_order_id = to_signed64 (tf_order r),
      tu_client_order_id = to_signed64 (tf_client r), tu_side_code = int (tf_side r),
      tu_price = f64_from (tf_price r), tu_is_maker = (tf_maker r \<noteq> 0), tu_venue_code = int (tf_venue r),
      tu_cumulative_filled_quantity = f64_from (tf_cum r), tu_status_code = map_option int (tf_status r)\<rparr>"

lemma no_trailing_cursor: "no_trailing (cursor pre post) = Inr u \<longleftrightarrow> post = []"
  by (auto simp: no_trailing_def rensure_Inr_iff)

lemma rbind_no_trailing: "rbind (no_trailing (cursor pre post)) k = Inr y \<longleftrightarrow> post = [] \<and> k () = Inr y"
  by (auto simp: rbind_Inr_iff no_trailing_cursor)

lemmas codec_enc =
  u8.bind_enc u16.bind_enc u32.bind_enc i64.bind_enc f64.bind_enc str.bind_enc optional_str.bind_enc
  status.bind_enc raw_bytes.bind_enc lossy.bind_enc
  u8.bind_last str.bind_last status.bind_last raw_bytes.bind_last lossy.bind_last

lemmas codec_iff =
  u8.bind_iff u16.bind_iff u32.bind_iff i64.bind_iff f64.bind_iff str.bind_iff optional_str.bind_iff
  status.bind_iff raw_bytes.bind_iff lossy.bind_iff

lemma trade_fields_witness:
  assumes "a1 < 256 ^ 8" "a2 < 256 ^ 8" "a3 < 256 ^ 8" "length a4 < 256 ^ 4" "a5 < 256 ^ 8" "a6 < 256 ^ 8"
    "a7 < 256 ^ 1" "a8 < 256 ^ 8" "a9 < 256 ^ 1" "a10 < 256 ^ 1" "a11 < 256 ^ 8" "pred_option (\<lambda>x. x < 256 ^ 1) a12"
  shows "\<exists>r. trade_fields_ok r \<and>
    le_bytes 8 a1 @ le_bytes 8 a2 @ le_bytes 8 a3 @ enc_string a4 @ le_bytes 8 a5 @ le_bytes 8 a6 @ le_bytes 1 a7
      @ le_bytes 8 a8 @ le_bytes 1 a9 @ le_bytes 1 a10 @ le_bytes 8 a11 @ enc_optional (le_bytes 1) a12 = trade_layout r \<and>
    \<lparr>tu_record_key = k, tu_record_ts_us = ts, tu_recv_ts_us = to_signed64 a1, tu_event_ts_us = to_signed64 a2,
     tu_trade_ts_us = to_signed64 a3, tu_symbol = from_utf8_lossy a4, tu_order_id = to_signed64 a5,
     tu_client_order_id = to_signed64 a6, tu_side_code = int a7, tu_price = f64_from a8,
     tu_is_maker = (0 < a9), tu_venue_code = int a10, tu_cumulative_filled_quantity = f64_from a11,
     tu_status_code = map_option int a12\<rparr> = trade_event (k, ts) r"
  by (rule exI [of _ "\<lparr>tf_recv = a1, tf_event = a2, tf_trade = a3, tf_symbol = a4, tf_order = a5,
        tf_client = a6, tf_side = a7, tf_price = a8, tf_maker = a9, tf_venue = a10, tf_cum = a11, tf_status = a12\<rparr>"])
    (use assms in \<open>simp add: trade_fields_ok_def trade_layout_def trade_event_def\<close>)

text \<open>
  A trade update decodes exactly when it is well formed. For any payload of addressable size,
  \<open>decode_trade_update\<close> returns an event if and only if the key is a 20-digit timestamp within
  \<open>i64\<close> and the payload is, byte for byte, the layout of in-range fields, and then the event is the
  one those fields denote. In particular truncated payloads and payloads with trailing bytes or an
  unknown presence flag are rejected.
\<close>

theorem decode_trade_update_exact:
  assumes "length payload \<le> isize_max"
  shows "decode_trade_update key payload = Inr e \<longleftrightarrow>
    (\<exists>k r. decode_timestamp_key key = Inr k \<and> trade_fields_ok r \<and> payload = trade_layout r \<and> e = trade_event k r)"
proof -
  have f: "fits [] payload" using assms by (simp add: fits_def)
  show ?thesis
  proof
    assume "decode_trade_update key payload = Inr e"
    then obtain k ts where k: "decode_timestamp_key key = Inr (k, ts)"
      by (auto simp: decode_trade_update_def rbind_Inr_iff)
    show "\<exists>k r. decode_timestamp_key key = Inr k \<and> trade_fields_ok r \<and> payload = trade_layout r \<and> e = trade_event k r"
      using \<open>decode_trade_update key payload = Inr e\<close> f
      unfolding decode_trade_update_def new_decoder_cursor k rbind_simps prod.case
      by (clarsimp simp: codec_iff rbind_no_trailing fits_norm simp del: One_nat_def le_bytes.simps)
        (rule trade_fields_witness; simp)
  next
    assume "\<exists>k r. decode_timestamp_key key = Inr k \<and> trade_fields_ok r \<and> payload = trade_layout r \<and> e = trade_event k r"
    then show "decode_trade_update key payload = Inr e"
      using f
      by (auto simp: decode_trade_update_def new_decoder_cursor codec_enc rbind_no_trailing fits_norm trade_layout_def
          trade_fields_ok_def trade_event_def simp del: One_nat_def le_bytes.simps)
  qed
qed


text \<open>The fields of an order update.\<close>

record order_fields =
  of_recv :: nat
  of_event :: nat
  of_symbol :: bytes
  of_order :: nat
  of_client :: nat
  of_client_text :: "bytes option"
  of_side :: nat
  of_otype :: nat
  of_tif :: nat
  of_price :: nat
  of_quantity :: nat
  of_cum :: nat
  of_status :: nat
  of_raw_status :: bytes
  of_etype :: nat
  of_raw_etype :: bytes
  of_venue :: nat

definition order_fields_ok :: "order_fields \<Rightarrow> bool" where
  "order_fields_ok r \<longleftrightarrow>
     of_recv r < 256 ^ 8 \<and> of_event r < 256 ^ 8 \<and> length (of_symbol r) < 256 ^ 4 \<and> of_order r < 256 ^ 8
     \<and> of_client r < 256 ^ 8 \<and> pred_option (\<lambda>bs. length bs < 256 ^ 4) (of_client_text r)
     \<and> of_side r < 256 ^ 1 \<and> of_otype r < 256 ^ 1 \<and> of_tif r < 256 ^ 1 \<and> of_price r < 256 ^ 8
     \<and> of_quantity r < 256 ^ 8 \<and> of_cum r < 256 ^ 8 \<and> of_status r < 256 ^ 1
     \<and> length (of_raw_status r) < 256 ^ 4 \<and> of_etype r < 256 ^ 1 \<and> length (of_raw_etype r) < 256 ^ 4
     \<and> of_venue r < 256 ^ 1"

definition order_layout :: "order_fields \<Rightarrow> bytes" where
  "order_layout r =
     le_bytes 8 (of_recv r) @ le_bytes 8 (of_event r) @ enc_string (of_symbol r) @ le_bytes 8 (of_order r)
     @ le_bytes 8 (of_client r) @ enc_optional enc_string (of_client_text r) @ le_bytes 1 (of_side r)
     @ le_bytes 1 (of_otype r) @ le_bytes 1 (of_tif r) @ le_bytes 8 (of_price r) @ le_bytes 8 (of_quantity r)
     @ le_bytes 8 (of_cum r) @ le_bytes 1 (of_status r) @ enc_string (of_raw_status r)
     @ le_bytes 1 (of_etype r) @ enc_string (of_raw_etype r) @ le_bytes 1 (of_venue r)"

definition order_event :: "string \<times> i64 \<Rightarrow> order_fields \<Rightarrow> order_update_event" where
  "order_event k r =
     \<lparr>ou_record_key = fst k, ou_record_ts_us = snd k, ou_recv_ts_us = to_signed64 (of_recv r),
      ou_event_ts_us = to_signed64 (of_event r), ou_symbol = from_utf8_lossy (of_symbol r),
      ou_order_id = to_signed64 (of_order r), ou_client_order_id = to_signed64 (of_client r),
      ou_client_order_id_text = map_option from_utf8_lossy (of_client_text r), ou_side_code = int (of_side r),
      ou_order_type_code = int (of_otype r), ou_time_in_force_code = int (of_tif r),
      ou_price = f64_from (of_price r), ou_quantity = f64_from (of_quantity r),
      ou_cumulative_filled_quantity = f64_from (of_cum r), ou_status_code = int (of_status r),
      ou_raw_status = from_utf8_lossy (of_raw_status r), ou_execution_type_code = int (of_etype r),
      ou_raw_execution_type = from_utf8_lossy (of_raw_etype r), ou_venue_code = int (of_venue r)\<rparr>"

lemma order_fields_witness:
  assumes "a1 < 256 ^ 8" "a2 < 256 ^ 8" "length a3 < 256 ^ 4" "a4 < 256 ^ 8" "a5 < 256 ^ 8"
    "pred_option (\<lambda>bs. length bs < 256 ^ 4) a6" "a7 < 256 ^ 1" "a8 < 256 ^ 1" "a9 < 256 ^ 1" "a10 < 256 ^ 8"
    "a11 < 256 ^ 8" "a12 < 256 ^ 8" "a13 < 256 ^ 1" "length a14 < 256 ^ 4" "a15 < 256 ^ 1"
    "length a16 < 256 ^ 4" "a17 < 256 ^ 1"
  shows "\<exists>r. order_fields_ok r \<and>
    le_bytes 8 a1 @ le_bytes 8 a2 @ enc_string a3 @ le_bytes 8 a4 @ le_bytes 8 a5 @ enc_optional enc_string a6
      @ le_bytes 1 a7 @ le_bytes 1 a8 @ le_bytes 1 a9 @ le_bytes 8 a10 @ le_bytes 8 a11 @ le_bytes 8 a12
      @ le_bytes 1 a13 @ enc_string a14 @ le_bytes 1 a15 @ enc_string a16 @ le_bytes 1 a17 = order_layout r \<and>
    \<lparr>ou_record_key = k, ou_record_ts_us = ts, ou_recv_ts_us = to_signed64 a1, ou_event_ts_us = to_signed64 a2,
     ou_symbol = from_utf8_lossy a3, ou_order_id = to_signed64 a4, ou_client_order_id = to_signed64 a5,
     ou_client_order_id_text = map_option from_utf8_lossy a6, ou_side_code = int a7, ou_order_type_code = int a8,
     ou_time_in_force_code = int a9, ou_price = f64_from a10, ou_quantity = f64_from a11,
     ou_cumulative_filled_quantity = f64_from a12, ou_status_code = int a13,
     ou_raw_status = from_utf8_lossy a14, ou_execution_type_code = int a15,
     ou_raw_execution_type = from_utf8_lossy a16, ou_venue_code = int a17\<rparr> = order_event (k, ts) r"
  by (rule exI [of _ "\<lparr>of_recv = a1, of_event = a2, of_symbol = a3, of_order = a4, of_client = a5,
        of_client_text = a6, of_side = a7, of_otype = a8, of_tif = a9, of_price = a10, of_quantity = a11,
        of_cum = a12, of_status = a13, of_raw_status = a14, of_etype = a15, of_raw_etype = a16, of_venue = a17\<rparr>"])
    (use assms in \<open>simp add: order_fields_ok_def order_layout_def order_event_def\<close>)

text \<open>
  An order update decodes exactly when its key is a timestamp and its payload is the layout of
  in-range fields, the optional client id text behind its presence flag included; the event is
  then the one those fields denote.
\<close>

theorem decode_order_update_exact:
  assumes "length payload \<le> isize_max"
  shows "decode_order_update key payload = Inr e \<longleftrightarrow>
    (\<exists>k r. decode_timestamp_key key = Inr k \<and> order_fields_ok r \<and> payload = order_layout r \<and> e = order_event k r)"
proof -
  have f: "fits [] payload" using assms by (simp add: fits_def)
  show ?thesis
  proof
    assume "decode_order_update key payload = Inr e"
    then obtain k ts where k: "decode_timestamp_key key = Inr (k, ts)"
      by (auto simp: decode_order_update_def rbind_Inr_iff)
    show "\<exists>k r. decode_timestamp_key key = Inr k \<and> order_fields_ok r \<and> payload = order_layout r \<and> e = order_event k r"
      using \<open>decode_order_update key payload = Inr e\<close> f
      unfolding decode_order_update_def new_decoder_cursor k rbind_simps prod.case
      by (clarsimp simp: codec_iff rbind_no_trailing fits_norm simp del: One_nat_def le_bytes.simps)
        (rule order_fields_witness; simp)
  next
    assume "\<exists>k r. decode_timestamp_key key = Inr k \<and> order_fields_ok r \<and> payload = order_layout r \<and> e = order_event k r"
    then show "decode_order_update key payload = Inr e"
      using f
      by (auto simp: decode_order_update_def new_decoder_cursor codec_enc rbind_no_trailing fits_norm order_layout_def
          order_fields_ok_def order_event_def simp del: One_nat_def le_bytes.simps)
  qed
qed

subsection \<open>Uniform orders\<close>

text \<open>What may follow the strategy key: nothing, the spread text, or text, signals and liquidity.\<close>

datatype uniform_tail =
    BareTail
  | SpreadTail bytes
  | SignalTail bytes bytes "nat option"

fun tail_ok :: "uniform_tail \<Rightarrow> bool" where
  "tail_ok BareTail \<longleftrightarrow> True"
| "tail_ok (SpreadTail s) \<longleftrightarrow> length s < 256 ^ 2"
| "tail_ok (SignalTail s raw l) \<longleftrightarrow>
     length s < 256 ^ 2 \<and> length raw = 83 \<and> unat (raw ! 0) < 4 \<and> pred_option (\<lambda>c. c < 3) l"

fun tail_layout :: "uniform_tail \<Rightarrow> bytes" where
  "tail_layout BareTail = []"
| "tail_layout (SpreadTail s) = enc_prefixed 2 s"
| "tail_layout (SignalTail s raw l) =
     enc_prefixed 2 s @ raw @ (case l of None \<Rightarrow> [] | Some c \<Rightarrow> le_bytes 1 c)"

fun tail_spread :: "uniform_tail \<Rightarrow> string" where
  "tail_spread BareTail = []"
| "tail_spread (SpreadTail s) = from_utf8_lossy s"
| "tail_spread (SignalTail s raw l) = from_utf8_lossy s"

definition leg_at :: "bytes \<Rightarrow> nat \<Rightarrow> signal_bbo_leg" where
  "leg_at raw i =
     (let word = (\<lambda>j. le_nat (take 8 (drop (i + j) raw)))
      in \<lparr>sl_venue_code = int (unat (raw ! i)), sl_ts_us = to_signed64 (word 1),
          sl_bid_price = f64_from (word 9), sl_bid_quantity = f64_from (word 17),
          sl_ask_price = f64_from (word 25), sl_ask_quantity = f64_from (word 33)\<rparr>)"

fun tail_signals :: "uniform_tail \<Rightarrow> signal_bbo_leg option \<times> signal_bbo_leg option" where
  "tail_signals (SignalTail s raw l) =
     (if odd (unat (raw ! 0)) then Some (leg_at raw 1) else None,
      if 2 \<le> unat (raw ! 0) then Some (leg_at raw 42) else None)"
| "tail_signals _ = (None, None)"

definition liquidity_of_code :: "nat \<Rightarrow> fill_liquidity" where
  "liquidity_of_code c = (if c = 0 then FillUnknown else if c = 1 then FillMaker else FillTaker)"

fun tail_liquidity :: "uniform_tail \<Rightarrow> fill_liquidity option" where
  "tail_liquidity (SignalTail s raw l) = map_option liquidity_of_code l"
| "tail_liquidity _ = None"

lemma decode_signal_bbo_spec:
  assumes "length raw = 83"
  shows "decode_signal_bbo raw = Inr legs \<longleftrightarrow> unat (raw ! 0) < 4 \<and> legs = tail_signals (SignalTail s raw l)"
proof -
  define m where "m = unat (raw ! 0)"
  have o: "decode_signal_leg (take 41 (drop 1 raw)) p = Inr (if p then Some (leg_at raw 1) else None)" for p
    using assms by (simp add: decode_signal_leg_def leg_at_def signal_bbo_leg_binary_len_def Let_def take_drop)
  have h: "decode_signal_leg (drop 42 raw) p = Inr (if p then Some (leg_at raw 42) else None)" for p
    using assms by (simp add: decode_signal_leg_def leg_at_def signal_bbo_leg_binary_len_def Let_def add.commute)
  have b: "m < 4 \<Longrightarrow> (m div 2 mod 2 \<noteq> 0) = (2 \<le> m)" by presburger
  show ?thesis
    unfolding decode_signal_bbo_def Let_def m_def [symmetric]
    using b by (auto simp: o o [unfolded One_nat_def] h signal_bbo_leg_binary_len_def m_def [symmetric] odd_iff_mod_2_eq_one not_le)
qed


definition d_tail ::
    "(string \<Rightarrow> signal_bbo_leg option \<Rightarrow> signal_bbo_leg option \<Rightarrow> fill_liquidity option \<Rightarrow> decode_error + 'a) \<Rightarrow> decoder \<Rightarrow> decode_error + 'a" where
  "d_tail k d =
     rbind (d_bbo_spread d) (\<lambda>(bbo_spread, d).
     rbind (d_signals d) (\<lambda>((signal_open, signal_hedge), d).
     rbind (d_fill_liquidity d) (\<lambda>(liquidity, d).
     rbind (no_trailing d) (\<lambda>_. k bbo_spread signal_open signal_hedge liquidity))))"

lemma d_fill_liquidity_iff:
  assumes "fits pre post"
  shows "rbind (d_fill_liquidity (cursor pre post)) (\<lambda>(l, d). rbind (no_trailing d) (\<lambda>_. k l)) = Inr y \<longleftrightarrow>
    (\<exists>l. pred_option (\<lambda>c. c < 3) l \<and> post = (case l of None \<Rightarrow> [] | Some c \<Rightarrow> le_bytes 1 c)
         \<and> k (map_option liquidity_of_code l) = Inr y)"
proof (cases "length post = 1")
  case False
  then have "post \<noteq> le_bytes 1 c" for c by (metis length_le_bytes)
  with False show ?thesis
    by (auto simp: d_fill_liquidity_def rbind_no_trailing split: option.splits)
next
  case True
  have c256: "c < 3 \<Longrightarrow> c < 256 ^ 1" for c :: nat by simp
  have dec: "fill_liquidity_decode c = Inr z \<longleftrightarrow> c < 3 \<and> z = liquidity_of_code c" for c z
    by (auto simp: fill_liquidity_decode_def liquidity_of_code_def)
  have step: "rbind (fill_liquidity_decode c) (\<lambda>l. rbind (no_trailing (cursor pre' p)) (\<lambda>_. k (Some l))) = Inr y
      \<longleftrightarrow> c < 3 \<and> p = [] \<and> k (Some (liquidity_of_code c)) = Inr y" for c p pre'
    by (auto simp: rbind_Inr_iff no_trailing_cursor dec)
  have "rbind (d_fill_liquidity (cursor pre post)) (\<lambda>(l, d). rbind (no_trailing d) (\<lambda>_. k l)) =
      rbind (d_u8 ''fill_liquidity'' (cursor pre post)) (\<lambda>(code, d).
        rbind (fill_liquidity_decode code) (\<lambda>l. rbind (no_trailing d) (\<lambda>_. k (Some l))))"
    using True by (simp add: d_fill_liquidity_def rbind_assoc split_def)
  then have "rbind (d_fill_liquidity (cursor pre post)) (\<lambda>(l, d). rbind (no_trailing d) (\<lambda>_. k l)) = Inr y \<longleftrightarrow>
    (\<exists>c p. c < 256 ^ 1 \<and> post = le_bytes 1 c @ p \<and> c < 3 \<and> p = [] \<and> k (Some (liquidity_of_code c)) = Inr y)"
    by (simp only: u8.bind_iff [OF assms] step prod.case)
  also have "\<dots> \<longleftrightarrow> (\<exists>c. c < 3 \<and> post = le_bytes 1 c \<and> k (Some (liquidity_of_code c)) = Inr y)"
    by (metis append_Nil2 c256)
  also have "\<dots> \<longleftrightarrow> (\<exists>l. pred_option (\<lambda>c. c < 3) l \<and> post = (case l of None \<Rightarrow> [] | Some c \<Rightarrow> le_bytes 1 c)
         \<and> k (map_option liquidity_of_code l) = Inr y)"
    using True by (auto simp: split_option_ex simp del: le_bytes.simps One_nat_def)
  finally show ?thesis .
qed

lemma d_signals_short:
  assumes "length post \<noteq> 83" "length post \<noteq> 84"
  shows "rbind (d_signals (cursor pre post)) (\<lambda>((signal_open, signal_hedge), d).
     rbind (d_fill_liquidity d) (\<lambda>(liquidity, d). rbind (no_trailing d) (\<lambda>_. k signal_open signal_hedge liquidity))) = Inr y
   \<longleftrightarrow> post = [] \<and> k None None None = Inr y"
proof (cases "post = []")
  case True
  then show ?thesis by (simp add: d_signals_def d_fill_liquidity_def rbind_no_trailing)
next
  case False
  then show ?thesis using assms
    by (simp add: d_signals_def signal_bbo_binary_len_def uniform_order_tail_binary_len_def Let_def)
qed

lemma d_signals_iff:
  assumes f: "fits pre post"
  shows "rbind (d_signals (cursor pre post)) (\<lambda>((signal_open, signal_hedge), d).
     rbind (d_fill_liquidity d) (\<lambda>(liquidity, d). rbind (no_trailing d) (\<lambda>_. k signal_open signal_hedge liquidity))) = Inr y
   \<longleftrightarrow> (post = [] \<and> k None None None = Inr y)
      \<or> (\<exists>raw l. length raw = 83 \<and> unat (raw ! 0) < 4 \<and> pred_option (\<lambda>c. c < 3) l
          \<and> post = raw @ (case l of None \<Rightarrow> [] | Some c \<Rightarrow> le_bytes 1 c)
          \<and> k (fst (tail_signals (SignalTail [] raw l))) (snd (tail_signals (SignalTail [] raw l)))
              (map_option liquidity_of_code l) = Inr y)"
proof (cases "length post = 83 \<or> length post = 84")
  case False
  have "post \<noteq> raw @ (case l of None \<Rightarrow> [] | Some c \<Rightarrow> le_bytes 1 c)" if "length raw = 83" for raw l
  proof
    assume "post = raw @ (case l of None \<Rightarrow> [] | Some c \<Rightarrow> le_bytes 1 c)"
    then have "length post = 83 \<or> length post = 84" using that by (cases l) auto
    with False show False by blast
  qed
  moreover have "length post \<noteq> 83" "length post \<noteq> 84" using False by auto
  ultimately show ?thesis unfolding d_signals_short [OF \<open>length post \<noteq> 83\<close> \<open>length post \<noteq> 84\<close>] by blast
next
  case True
  have "rbind (d_signals (cursor pre post)) (\<lambda>((signal_open, signal_hedge), d).
     rbind (d_fill_liquidity d) (\<lambda>(liquidity, d). rbind (no_trailing d) (\<lambda>_. k signal_open signal_hedge liquidity)))
     = rbind (d_bytes 83 ''signal_bbo'' (cursor pre post)) (\<lambda>(raw, d).
        rbind (decode_signal_bbo raw) (\<lambda>legs.
          rbind (d_fill_liquidity d) (\<lambda>(l, d). rbind (no_trailing d) (\<lambda>_. k (fst legs) (snd legs) l))))"
    using True by (auto simp: d_signals_def Let_def signal_bbo_binary_len_def
        uniform_order_tail_binary_len_def rbind_assoc split_def)
  also have "\<dots> = Inr y \<longleftrightarrow> (\<exists>raw post'. length raw = 83 \<and> post = raw @ post' \<and>
      rbind (decode_signal_bbo raw) (\<lambda>legs.
        rbind (d_fill_liquidity (cursor (pre @ raw) post'))
          (\<lambda>(l, d). rbind (no_trailing d) (\<lambda>_. k (fst legs) (snd legs) l))) = Inr y)"
    by (simp only: raw_bytes.bind_iff [OF f] prod.case)
  also have "\<dots> \<longleftrightarrow> (\<exists>raw post'. length raw = 83 \<and> post = raw @ post' \<and> unat (raw ! 0) < 4 \<and>
      (\<exists>l. pred_option (\<lambda>c. c < 3) l \<and> post' = (case l of None \<Rightarrow> [] | Some c \<Rightarrow> le_bytes 1 c)
       \<and> k (fst (tail_signals (SignalTail [] raw None))) (snd (tail_signals (SignalTail [] raw None)))
           (map_option liquidity_of_code l) = Inr y))"
  proof (intro ex_cong1 conj_cong refl)
    fix raw post' assume r: "length raw = 83" "post = raw @ post'"
    then have g: "fits (pre @ raw) post'" using f by simp
    define legs where "legs = tail_signals (SignalTail [] raw None)"
    have "rbind (decode_signal_bbo raw) h = Inr y \<longleftrightarrow> unat (raw ! 0) < 4 \<and> h legs = Inr y" for h
      unfolding rbind_Inr_iff decode_signal_bbo_spec [OF r(1), of _ "[]" None] legs_def by blast
    then show "rbind (decode_signal_bbo raw) (\<lambda>legs.
        rbind (d_fill_liquidity (cursor (pre @ raw) post'))
          (\<lambda>(l, d). rbind (no_trailing d) (\<lambda>_. k (fst legs) (snd legs) l))) = Inr y \<longleftrightarrow>
      (unat (raw ! 0) < 4 \<and> (\<exists>l. pred_option (\<lambda>c. c < 3) l \<and> post' = (case l of None \<Rightarrow> [] | Some c \<Rightarrow> le_bytes 1 c)
       \<and> k (fst (tail_signals (SignalTail [] raw None))) (snd (tail_signals (SignalTail [] raw None)))
           (map_option liquidity_of_code l) = Inr y))"
      unfolding legs_def [symmetric] by (simp only: d_fill_liquidity_iff [OF g])
  qed
  also have "\<dots> \<longleftrightarrow> (\<exists>raw l. length raw = 83 \<and> unat (raw ! 0) < 4 \<and> pred_option (\<lambda>c. c < 3) l
        \<and> post = raw @ (case l of None \<Rightarrow> [] | Some c \<Rightarrow> le_bytes 1 c)
        \<and> k (fst (tail_signals (SignalTail [] raw l))) (snd (tail_signals (SignalTail [] raw l)))
            (map_option liquidity_of_code l) = Inr y)"
    unfolding tail_signals.simps by blast
  finally show ?thesis using True by auto
qed

lemma d_tail_iff:
  assumes f: "fits pre post"
  shows "d_tail k (cursor pre post) = Inr y \<longleftrightarrow>
    (\<exists>t. tail_ok t \<and> post = tail_layout t
       \<and> k (tail_spread t) (fst (tail_signals t)) (snd (tail_signals t)) (tail_liquidity t) = Inr y)"
proof (cases "post = []")
  case True
  have "[] = tail_layout t \<longleftrightarrow> t = BareTail" for t by (cases t) (auto simp: enc_prefixed_def numeral_2_eq_2)
  then show ?thesis using True
    by (simp add: d_tail_def d_bbo_spread_def d_signals_def d_fill_liquidity_def Let_def rbind_no_trailing)
next
  case False
  define S where "S = (\<lambda>bbo d. rbind (d_signals d) (\<lambda>((signal_open, signal_hedge), d).
     rbind (d_fill_liquidity d) (\<lambda>(liquidity, d).
     rbind (no_trailing d) (\<lambda>_. k bbo signal_open signal_hedge liquidity))))"
  have S: "S bbo (cursor pre' post') = Inr y \<longleftrightarrow> (post' = [] \<and> k bbo None None None = Inr y)
      \<or> (\<exists>raw l. length raw = 83 \<and> unat (raw ! 0) < 4 \<and> pred_option (\<lambda>c. c < 3) l
          \<and> post' = raw @ (case l of None \<Rightarrow> [] | Some c \<Rightarrow> le_bytes 1 c)
          \<and> k bbo (fst (tail_signals (SignalTail [] raw l))) (snd (tail_signals (SignalTail [] raw l)))
              (map_option liquidity_of_code l) = Inr y)"
    if "fits pre' post'" for bbo pre' post'
    unfolding S_def by (rule d_signals_iff [OF that, where k = "k bbo"])
  have "d_tail k (cursor pre post) =
      rbind (d_prefixed 2 ''bbo_spread_len'' ''bbo_spread'' (cursor pre post)) (\<lambda>(bbo, d). S bbo d)"
    using False by (simp add: d_tail_def d_bbo_spread_def S_def d_prefixed_def d_u16_def)
  also have "\<dots> = Inr y \<longleftrightarrow> (\<exists>s p'. length s < 256 ^ 2 \<and> post = enc_prefixed 2 s @ p' \<and>
      S (from_utf8_lossy s) (cursor (pre @ enc_prefixed 2 s) p') = Inr y)"
    by (simp only: short_str.bind_iff [OF f] prod.case)
  also have "\<dots> \<longleftrightarrow> (\<exists>t. tail_ok t \<and> post = tail_layout t
       \<and> k (tail_spread t) (fst (tail_signals t)) (snd (tail_signals t)) (tail_liquidity t) = Inr y)" (is "?A \<longleftrightarrow> ?B")
  proof
    assume ?A
    then obtain s p' where s: "length s < 256 ^ 2" "post = enc_prefixed 2 s @ p'"
      "S (from_utf8_lossy s) (cursor (pre @ enc_prefixed 2 s) p') = Inr y" by blast
    then have "fits (pre @ enc_prefixed 2 s) p'" using f by simp
    from s(3) [unfolded S [OF this]] show ?B
    proof (elim disjE conjE exE)
      assume "p' = []" "k (from_utf8_lossy s) None None None = Inr y"
      then show ?B using s by (intro exI [of _ "SpreadTail s"]) simp
    next
      fix raw l assume "length raw = 83" "unat (raw ! 0) < 4" "pred_option (\<lambda>c. c < 3) l"
        "p' = raw @ (case l of None \<Rightarrow> [] | Some c \<Rightarrow> le_bytes 1 c)"
        "k (from_utf8_lossy s) (fst (tail_signals (SignalTail [] raw l))) (snd (tail_signals (SignalTail [] raw l)))
           (map_option liquidity_of_code l) = Inr y"
      then show ?B using s by (intro exI [of _ "SignalTail s raw l"]) simp
    qed
  next
    assume ?B
    then obtain t where t: "tail_ok t" "post = tail_layout t"
      "k (tail_spread t) (fst (tail_signals t)) (snd (tail_signals t)) (tail_liquidity t) = Inr y" by blast
    show ?A
    proof (cases t)
      case BareTail
      then show ?thesis using t False by simp
    next
      case (SpreadTail s)
      then have "fits (pre @ enc_prefixed 2 s) []" using f t by simp
      from S [OF this] have "S (from_utf8_lossy s) (cursor (pre @ enc_prefixed 2 s) []) = Inr y"
        using t SpreadTail by simp
      then show ?thesis using t SpreadTail by auto
    next
      case (SignalTail s raw l)
      let ?p = "raw @ (case l of None \<Rightarrow> [] | Some c \<Rightarrow> le_bytes 1 c)"
      have "fits (pre @ enc_prefixed 2 s) ?p" using f t SignalTail by simp
      have "S (from_utf8_lossy s) (cursor (pre @ enc_prefixed 2 s) ?p) = Inr y"
        unfolding S [OF \<open>fits (pre @ enc_prefixed 2 s) ?p\<close>] using t SignalTail
        by (intro disjI2 exI [of _ raw] exI [of _ l] conjI) auto
      moreover have "length s < 256 ^ 2 \<and> post = enc_prefixed 2 s @ ?p" using t SignalTail by simp
      ultimately show ?thesis by blast
    qed
  qed
  finally show ?thesis .
qed


record uniform_fields =
  uf_recv :: nat
  uf_symbol :: bytes
  uf_create :: nat
  uf_update :: nat
  uf_signal :: nat
  uf_submit :: nat
  uf_local :: nat
  uf_market :: nat
  uf_client :: nat
  uf_venue :: nat
  uf_otype :: nat
  uf_side :: nat
  uf_price :: nat
  uf_price_offset :: nat
  uf_amount_init :: nat
  uf_amount_update :: nat
  uf_status :: nat
  uf_from_key :: bytes
  uf_tail :: uniform_tail

definition uniform_fields_ok :: "uniform_fields \<Rightarrow> bool" where
  "uniform_fields_ok r \<longleftrightarrow>
     uf_recv r < 256 ^ 8 \<and> length (uf_symbol r) < 256 ^ 2 \<and> uf_create r < 256 ^ 8 \<and> uf_update r < 256 ^ 8
     \<and> uf_signal r < 256 ^ 8 \<and> uf_submit r < 256 ^ 8 \<and> uf_local r < 256 ^ 8 \<and> uf_market r < 256 ^ 8
     \<and> uf_client r < 256 ^ 8 \<and> uf_venue r < 256 ^ 1 \<and> uf_otype r < 256 ^ 1 \<and> uf_side r < 256 ^ 1
     \<and> uf_price r < 256 ^ 8 \<and> uf_price_offset r < 256 ^ 8 \<and> uf_amount_init r < 256 ^ 8
     \<and> uf_amount_update r < 256 ^ 8 \<and> uf_status r < 256 ^ 1 \<and> length (uf_from_key r) < 256 ^ 4
     \<and> tail_ok (uf_tail r)"

definition uniform_layout :: "uniform_fields \<Rightarrow> bytes" where
  "uniform_layout r =
     le_bytes 8 (uf_recv r) @ enc_prefixed 2 (uf_symbol r) @ le_bytes 8 (uf_create r) @ le_bytes 8 (uf_update r)
     @ le_bytes 8 (uf_signal r) @ le_bytes 8 (uf_submit r) @ le_bytes 8 (uf_local r) @ le_bytes 8 (uf_market r)
     @ le_bytes 8 (uf_client r) @ le_bytes 1 (uf_venue r) @ le_bytes 1 (uf_otype r) @ le_bytes 1 (uf_side r)
     @ le_bytes 8 (uf_price r) @ le_bytes 8 (uf_price_offset r) @ le_bytes 8 (uf_amount_init r)
     @ le_bytes 8 (uf_amount_update r) @ le_bytes 1 (uf_status r) @ enc_prefixed 4 (uf_from_key r)
     @ tail_layout (uf_tail r)"

definition uniform_event :: "string \<times> i64 \<Rightarrow> uniform_fields \<Rightarrow> uniform_order_event" where
  "uniform_event k r =
     \<lparr>uo_record_key = fst k, uo_event_ts_us = snd k, uo_recv_ts_us = to_signed64 (uf_recv r),
      uo_symbol = from_utf8_lossy (uf_symbol r), uo_create_ts_us = to_signed64 (uf_create r),
      uo_update_ts_us = to_signed64 (uf_update r), uo_signal_ts_us = to_signed64 (uf_signal r),
      uo_submit_ts_us = to_signed64 (uf_submit r), uo_local_ts_us = to_signed64 (uf_local r),
      uo_market_ts_us = to_signed64 (uf_market r), uo_client_order_id = to_signed64 (uf_client r),
      uo_venue_code = int (uf_venue r), uo_venue = venue_name (uf_venue r),
      uo_order_type_code = int (uf_otype r), uo_order_type = order_type_name (uf_otype r),
      uo_side_code = int (uf_side r), uo_side = side_name (uf_side r), uo_price = f64_from (uf_price r),
      uo_price_offset = f64_from (uf_price_offset r), uo_amount_initial = f64_from (uf_amount_init r),
      uo_amount_update = f64_from (uf_amount_update r), uo_status_code = int (uf_status r),
      uo_status = status_name (uf_status r), uo_from_key = uf_from_key r,
      uo_from_key_text = from_utf8_lossy (uf_from_key r), uo_bbo_spread = tail_spread (uf_tail r),
      uo_signal_open = fst (tail_signals (uf_tail r)), uo_signal_hedge = snd (tail_signals (uf_tail r)),
      uo_fill_liquidity = tail_liquidity (uf_tail r)\<rparr>"

lemma uniform_fields_witness:
  assumes "a1 < 256 ^ 8" "length a2 < 256 ^ 2" "a3 < 256 ^ 8" "a4 < 256 ^ 8" "a5 < 256 ^ 8" "a6 < 256 ^ 8"
    "a7 < 256 ^ 8" "a8 < 256 ^ 8" "a9 < 256 ^ 8" "a10 < 256 ^ 1" "a11 < 256 ^ 1" "a12 < 256 ^ 1" "a13 < 256 ^ 8"
    "a14 < 256 ^ 8" "a15 < 256 ^ 8" "a16 < 256 ^ 8" "a17 < 256 ^ 1" "length a18 < 256 ^ 4" "tail_ok a19"
  shows "\<exists>r. uniform_fields_ok r \<and>
    le_bytes 8 a1 @ enc_prefixed 2 a2 @ le_bytes 8 a3 @ le_bytes 8 a4 @ le_bytes 8 a5 @ le_bytes 8 a6
      @ le_bytes 8 a7 @ le_bytes 8 a8 @ le_bytes 8 a9 @ le_bytes 1 a10 @ le_bytes 1 a11 @ le_bytes 1 a12
      @ le_bytes 8 a13 @ le_bytes 8 a14 @ le_bytes 8 a15 @ le_bytes 8 a16 @ le_bytes 1 a17
      @ le_bytes 4 (length a18) @ a18 @ tail_layout a19 = uniform_layout r \<and>
    \<lparr>uo_record_key = k, uo_event_ts_us = ts, uo_recv_ts_us = to_signed64 a1,
      uo_symbol = from_utf8_lossy a2, uo_create_ts_us = to_signed64 a3,
      uo_update_ts_us = to_signed64 a4, uo_signal_ts_us = to_signed64 a5,
      uo_submit_ts_us = to_signed64 a6, uo_local_ts_us = to_signed64 a7,
      uo_market_ts_us = to_signed64 a8, uo_client_order_id = to_signed64 a9,
      uo_venue_code = int a10, uo_venue = venue_name a10,
      uo_order_type_code = int a11, uo_order_type = order_type_name a11,
      uo_side_code = int a12, uo_side = side_name a12, uo_price = f64_from a13,
      uo_price_offset = f64_from a14, uo_amount_initial = f64_from a15,
      uo_amount_update = f64_from a16, uo_status_code = int a17,
      uo_status = status_name a17, uo_from_key = a18,
      uo_from_key_text = from_utf8_lossy a18, uo_bbo_spread = tail_spread a19,
      uo_signal_open = fst (tail_signals a19), uo_signal_hedge = snd (tail_signals a19),
      uo_fill_liquidity = tail_liquidity a19\<rparr> = uniform_event (k, ts) r"
  by (rule exI [of _ "\<lparr>uf_recv = a1, uf_symbol = a2, uf_create = a3, uf_update = a4, uf_signal = a5,
        uf_submit = a6, uf_local = a7, uf_market = a8, uf_client = a9, uf_venue = a10, uf_otype = a11,
        uf_side = a12, uf_price = a13, uf_price_offset = a14, uf_amount_init = a15, uf_amount_update = a16,
        uf_status = a17, uf_from_key = a18, uf_tail = a19\<rparr>"])
    (use assms in \<open>simp add: uniform_fields_ok_def uniform_layout_def uniform_event_def enc_prefixed_def\<close>)

lemmas d_tail_fold = d_tail_def [symmetric]

lemma uniform_order_iff:
  assumes "length payload \<le> isize_max"
  shows "decode_uniform_order key payload = Inr e \<longleftrightarrow>
    (\<exists>k r. decode_timestamp_key key = Inr k \<and> uniform_fields_ok r \<and> payload = uniform_layout r \<and> e = uniform_event k r)"
proof -
  have f: "fits [] payload" using assms by (simp add: fits_def)
  show ?thesis
  proof
    assume "decode_uniform_order key payload = Inr e"
    then obtain k ts where k: "decode_timestamp_key key = Inr (k, ts)"
      by (auto simp: decode_uniform_order_def rbind_Inr_iff)
    show "\<exists>k r. decode_timestamp_key key = Inr k \<and> uniform_fields_ok r \<and> payload = uniform_layout r \<and> e = uniform_event k r"
      using \<open>decode_uniform_order key payload = Inr e\<close> f
      unfolding decode_uniform_order_def new_decoder_cursor k rbind_simps prod.case d_tail_fold d_short_prefixed
      by (clarsimp simp: codec_iff short_str.bind_iff d_tail_iff fits_norm simp del: One_nat_def le_bytes.simps)
        (rule uniform_fields_witness; simp)
  next
    assume "\<exists>k r. decode_timestamp_key key = Inr k \<and> uniform_fields_ok r \<and> payload = uniform_layout r \<and> e = uniform_event k r"
    then obtain k r where r: "decode_timestamp_key key = Inr k" "uniform_fields_ok r" "payload = uniform_layout r"
      "e = uniform_event k r" by blast
    show "decode_uniform_order key payload = Inr e"
      using f r(1,2)
      unfolding decode_uniform_order_def new_decoder_cursor r(3,4) d_tail_fold d_short_prefixed
      by (cases k) (simp add: codec_enc short_str.bind_enc fits_norm uniform_layout_def enc_prefixed_def [of 4]
          uniform_fields_ok_def uniform_event_def d_tail_iff del: One_nat_def le_bytes.simps, blast)
  qed
qed

text \<open>
  C27: A uniform order decodes exactly when its key is a timestamp and its payload is the layout of
  in-range fields followed by one of the admitted tails: nothing, a spread text, or a spread text
  with the 83 signal bytes (presence mask below 4) and at most one liquidity byte below 3. The
  event carries those fields, the signal legs the mask announces, and the liquidity class.
\<close>

theorem decode_uniform_order_exact:
  assumes "length payload \<le> isize_max"
  shows "decode_uniform_order key payload = Inr e \<longleftrightarrow>
    (\<exists>k r. decode_timestamp_key key = Inr k \<and> uniform_fields_ok r \<and> payload = uniform_layout r \<and> e = uniform_event k r)"
  using assms by (rule uniform_order_iff)


subsection \<open>Sample records\<close>

definition zero_key :: bytes where
  "zero_key = replicate 20 48"

lemma zero_key_decodes: "decode_timestamp_key zero_key = Inr (replicate 20 CHR ''0'', 0)"
proof -
  have c: "chars_of zero_key = replicate 20 CHR ''0''"
    unfolding zero_key_def chars_of_def by code_simp
  have "utf8_valid zero_key" by (rule utf8_valid_ascii) (simp add: zero_key_def list_all_iff)
  moreover have "list_all is_digit (replicate 20 CHR ''0'')"
    by (simp add: list_all_iff is_digit_def byte_of_def)
  moreover have "decimal_value (replicate 20 CHR ''0'') = 0"
    by (simp add: decimal_value_def byte_of_def numeral_eq_Suc)
  ultimately show ?thesis by (simp add: decode_timestamp_key_def c Let_def i64_max_def)
qed

definition sample_trade :: trade_fields where
  "sample_trade = \<lparr>tf_recv = 1, tf_event = 2, tf_trade = 3, tf_symbol = [66], tf_order = 4, tf_client = 5,
     tf_side = 1, tf_price = 0, tf_maker = 1, tf_venue = 1, tf_cum = 0, tf_status = Some 3\<rparr>"

definition sample_order :: order_fields where
  "sample_order = \<lparr>of_recv = 1, of_event = 2, of_symbol = [66], of_order = 4, of_client = 5,
     of_client_text = Some [67], of_side = 1, of_otype = 1, of_tif = 1, of_price = 0, of_quantity = 0, of_cum = 0,
     of_status = 1, of_raw_status = [], of_etype = 1, of_raw_etype = [], of_venue = 1\<rparr>"

definition sample_uniform :: uniform_fields where
  "sample_uniform = \<lparr>uf_recv = 1, uf_symbol = [66], uf_create = 1, uf_update = 1, uf_signal = 1, uf_submit = 1,
     uf_local = 1, uf_market = 1, uf_client = 9, uf_venue = 1, uf_otype = 1, uf_side = 1, uf_price = 0,
     uf_price_offset = 0, uf_amount_init = 0, uf_amount_update = 0, uf_status = 3, uf_from_key = [98],
     uf_tail = SignalTail [] (replicate 83 0) (Some 2)\<rparr>"

theorem decode_trade_update_exact_witness:
  "decode_trade_update zero_key (trade_layout sample_trade) = Inr (trade_event (replicate 20 CHR ''0'', 0) sample_trade)"
  by (rule decode_trade_update_exact [THEN iffD2])
    (auto simp: zero_key_decodes trade_layout_def sample_trade_def trade_fields_ok_def isize_max_def
      enc_string_def enc_prefixed_def intro!: exI [of _ sample_trade])

theorem decode_order_update_exact_witness:
  "decode_order_update zero_key (order_layout sample_order) = Inr (order_event (replicate 20 CHR ''0'', 0) sample_order)"
  by (rule decode_order_update_exact [THEN iffD2])
    (auto simp: zero_key_decodes order_layout_def sample_order_def order_fields_ok_def isize_max_def
      enc_string_def enc_prefixed_def intro!: exI [of _ sample_order])

theorem decode_uniform_order_exact_witness:
  "decode_uniform_order zero_key (uniform_layout sample_uniform)
     = Inr (uniform_event (replicate 20 CHR ''0'', 0) sample_uniform)"
  by (rule decode_uniform_order_exact [THEN iffD2])
    (auto simp: zero_key_decodes uniform_layout_def sample_uniform_def uniform_fields_ok_def isize_max_def
      enc_string_def enc_prefixed_def intro!: exI [of _ sample_uniform])

end
