(* ===== verification/Venue.thy ===== *)
theory Venue
  imports Fifo Config Decode
begin

text \<open>
  The per-venue ledger of \<open>nav.rs\<close>: the analysis projection of an order event (\<open>NavEvent\<close>), which
  events are fills and with which liquidity role, \<open>VenueState\<close> with its fill handler, and the
  reports built from it: \<open>VenueNavReport\<close>, the symbol and aggregate builders, \<open>NavTotals\<close>
  arithmetic, the source aggregate and its restriction to the sources a user may see.
\<close>

subsection \<open>Events\<close>

record nav_event =
  ne_record_key :: string
  ne_event_ts_us :: i64
  ne_create_ts_us :: i64
  ne_update_ts_us :: i64
  ne_signal_ts_us :: i64
  ne_symbol :: string
  ne_client_order_id :: i64
  ne_venue_code :: i16
  ne_venue :: string
  ne_order_type_code :: i16
  ne_side_code :: i16
  ne_price :: f64
  ne_amount_update :: f64
  ne_from_key_text :: string
  ne_fill_liquidity :: "fill_liquidity option"

definition nav_event_from :: "uniform_order_event \<Rightarrow> nav_event" where
  "nav_event_from e =
     \<lparr>ne_record_key = uo_record_key e, ne_event_ts_us = uo_event_ts_us e, ne_create_ts_us = uo_create_ts_us e,
      ne_update_ts_us = uo_update_ts_us e, ne_signal_ts_us = uo_signal_ts_us e,
      ne_symbol = target_symbol (uo_symbol e) (uo_venue_code e), ne_client_order_id = uo_client_order_id e,
      ne_venue_code = uo_venue_code e, ne_venue = uo_venue e, ne_order_type_code = uo_order_type_code e,
      ne_side_code = uo_side_code e, ne_price = uo_price e, ne_amount_update = uo_amount_update e,
      ne_from_key_text = uo_from_key_text e, ne_fill_liquidity = uo_fill_liquidity e\<rparr>"

datatype nav_error =
    NavConfig config_error
  | NavDecode decode_error
  | VenueNameChanged i16 string string
  | BadFillQuantity
  | NotionalOverflow
  | FillCountOverflow
  | CumulativeOverflow
  | FeeOverflow
  | InvalidAmountUpdate string
  | BadPositive string
  | EmptyEventSymbol string
  | UnsupportedSide string i16
  | EventCountOverflow
  | SnapshotInvalid string
  | SnapshotSourceMismatch string string
  | MissingReferencePrice string i16
  | DuplicateInitialPosition string i16
  | AllocationInvalid string
  | AllocationSourceMismatch
  | AllocationOrder
  | AllocationResidual
  | AllocationMismatch string i64 string string
  | SelectionError string
  | MarkError string

definition fifo_ts_us :: "nav_event \<Rightarrow> i64" where
  "fifo_ts_us e = (if 0 < ne_update_ts_us e then ne_update_ts_us e else ne_event_ts_us e)"

definition validate_positive :: "f64 \<Rightarrow> string \<Rightarrow> nav_error + unit" where
  "validate_positive v field = rensure (is_fin v \<and> 0 < v) (BadPositive field)"

definition validated_fill_side :: "nav_event \<Rightarrow> nav_error + side option" where
  "validated_fill_side e =
     (if \<not> is_fin (ne_amount_update e) \<or> ne_amount_update e < 0 then Inl (InvalidAmountUpdate (ne_record_key e))
      else if feq (ne_amount_update e) 0 then Inr None
      else rbind (validate_positive (ne_price e) ''fill price'') (\<lambda>_.
           if trim (ne_symbol e) = [] then Inl (EmptyEventSymbol (ne_record_key e))
           else if ne_side_code e = 1 then Inr (Some Buy)
           else if ne_side_code e = 2 then Inr (Some Sell)
           else Inl (UnsupportedSide (ne_record_key e) (ne_side_code e))))"

type_synonym order_key = "string \<times> i16 \<times> i64"
type_synonym liquidity_by_order = "(order_key, liquidity_role) bmap"

definition internal_cross_order_type_code :: i16 where
  "internal_cross_order_type_code = 2"

definition liquidity_role_for_event :: "nav_event \<Rightarrow> liquidity_by_order \<Rightarrow> liquidity_role" where
  "liquidity_role_for_event e roles =
     (if ne_order_type_code e = internal_cross_order_type_code then InternalCross
      else case ne_fill_liquidity e of
        Some FillMaker \<Rightarrow> Maker
      | Some FillTaker \<Rightarrow> Taker
      | Some FillUnknown \<Rightarrow> Unknown
      | None \<Rightarrow>
          (case bm_get roles (ne_symbol e, ne_venue_code e, ne_client_order_id e) of
             Some role \<Rightarrow> role
           | None \<Rightarrow> (if ne_order_type_code e = 1 then Maker
                      else if ne_order_type_code e \<in> {3, 4, 5, 6, 7, 8, 9} then Taker else Unknown)))"

text \<open>The evidence table: a trade update adds a role, a contradicting one demotes it for good.\<close>

definition merge_liquidity_record ::
    "liquidity_by_order \<times> order_key list \<Rightarrow> trade_update_event \<Rightarrow> liquidity_by_order \<times> order_key list" where
  "merge_liquidity_record st e =
     (case st of (roles, changed) \<Rightarrow>
        if tu_cumulative_filled_quantity e \<le> 0 \<or> tu_client_order_id e = 0 then (roles, changed)
        else let key = (target_symbol (tu_symbol e) (tu_venue_code e), tu_venue_code e, tu_client_order_id e);
                 observed = (if tu_is_maker e then Maker else Taker)
             in case bm_get roles key of
                  Some role \<Rightarrow>
                    (if role \<noteq> observed \<and> role \<noteq> Unknown
                     then (bm_insert key Unknown roles, changed @ [key]) else (roles, changed))
                | None \<Rightarrow> (bm_insert key observed roles, changed @ [key]))"

definition merge_liquidity_records ::
    "liquidity_by_order \<Rightarrow> (bytes \<times> bytes) list list \<Rightarrow> nav_error + liquidity_by_order \<times> order_key list" where
  "merge_liquidity_records roles families =
     rmap (\<lambda>(roles, changed). (roles, set_of_list changed))
       (rfold (\<lambda>st (key, payload).
          rbind (rmap_err NavDecode (decode_trade_update key payload)) (\<lambda>e. Inr (merge_liquidity_record st e)))
        (roles, []) (concat families))"

definition fee_rate_for :: "fee_rates \<Rightarrow> string \<Rightarrow> liquidity_role \<Rightarrow> f64" where
  "fee_rate_for rates symbol role =
     (case role of
        Maker \<Rightarrow> fst (for_symbol rates symbol)
      | Taker \<Rightarrow> snd (for_symbol rates symbol)
      | Unknown \<Rightarrow> snd (for_symbol rates symbol)
      | InternalCross \<Rightarrow> 0)"

subsection \<open>Venue state\<close>

datatype mark_price_source = LatestFill | InitialSnapshot | Override
datatype initial_reference_price_source = Configured | FirstFill

record venue_state =
  vs_venue_code :: i16
  vs_venue :: string
  vs_fifo :: quantity_fifo
  vs_initial_quantity :: f64
  vs_initial_reference_price :: "f64 option"
  vs_initial_reference_price_source :: "initial_reference_price_source option"
  vs_fill_count :: nat
  vs_volume_quote :: f64
  vs_maker_fill_count :: nat
  vs_maker_volume_quote :: f64
  vs_taker_fill_count :: nat
  vs_taker_volume_quote :: f64
  vs_unknown_liquidity_fill_count :: nat
  vs_unknown_liquidity_volume_quote :: f64
  vs_estimated_fee_quote :: f64
  vs_first_fill_ts_us :: "i64 option"
  vs_last_fill_ts_us :: "i64 option"
  vs_latest_fill_price :: f64

definition is_inverse_venue :: "i16 \<Rightarrow> bool" where
  "is_inverse_venue venue \<longleftrightarrow> venue = 14 \<or> venue = 15"

definition blank_venue_state :: "i16 \<Rightarrow> string \<Rightarrow> quantity_fifo \<Rightarrow> f64 \<Rightarrow> venue_state" where
  "blank_venue_state code venue f price =
     \<lparr>vs_venue_code = code, vs_venue = venue, vs_fifo = f, vs_initial_quantity = 0,
      vs_initial_reference_price = None, vs_initial_reference_price_source = None, vs_fill_count = 0,
      vs_volume_quote = 0, vs_maker_fill_count = 0, vs_maker_volume_quote = 0, vs_taker_fill_count = 0,
      vs_taker_volume_quote = 0, vs_unknown_liquidity_fill_count = 0, vs_unknown_liquidity_volume_quote = 0,
      vs_estimated_fee_quote = 0, vs_first_fill_ts_us = None, vs_last_fill_ts_us = None,
      vs_latest_fill_price = price\<rparr>"

definition venue_state_new :: "nav_event \<Rightarrow> venue_state" where
  "venue_state_new e =
     blank_venue_state (ne_venue_code e) (ne_venue e)
       (fifo_default (is_inverse_venue (ne_venue_code e))) (ne_price e)"

definition from_initial_position ::
    "i16 \<Rightarrow> string \<Rightarrow> f64 \<Rightarrow> f64 \<Rightarrow> initial_reference_price_source \<Rightarrow> venue_state" where
  "from_initial_position code venue quantity reference_price source =
     (let sd = (if 0 < quantity then Buy else Sell);
          f = fifo_apply_fill sd reference_price \<bar>quantity\<bar> (fifo_default (is_inverse_venue code))
      in (blank_venue_state code venue f reference_price)
           \<lparr>vs_initial_quantity := quantity, vs_initial_reference_price := Some reference_price,
            vs_initial_reference_price_source := Some source\<rparr>)"

definition book_liquidity :: "liquidity_role \<Rightarrow> f64 \<Rightarrow> venue_state \<Rightarrow> venue_state" where
  "book_liquidity role notional v =
     (case role of
        Maker \<Rightarrow> v\<lparr>vs_maker_fill_count := sat_add_u64 (vs_maker_fill_count v) 1,
                   vs_maker_volume_quote := vs_maker_volume_quote v + notional\<rparr>
      | Taker \<Rightarrow> v\<lparr>vs_taker_fill_count := sat_add_u64 (vs_taker_fill_count v) 1,
                   vs_taker_volume_quote := vs_taker_volume_quote v + notional\<rparr>
      | _ \<Rightarrow> v\<lparr>vs_unknown_liquidity_fill_count := sat_add_u64 (vs_unknown_liquidity_fill_count v) 1,
                vs_unknown_liquidity_volume_quote := vs_unknown_liquidity_volume_quote v + notional\<rparr>)"

definition venue_apply_fill ::
    "nav_event \<Rightarrow> side \<Rightarrow> fee_rates \<Rightarrow> liquidity_role \<Rightarrow> i64 \<Rightarrow> venue_state \<Rightarrow> nav_error + venue_state" where
  "venue_apply_fill e sd rates role fill_ts v =
     (if vs_venue v \<noteq> ne_venue e then Inl (VenueNameChanged (vs_venue_code v) (vs_venue v) (ne_venue e))
      else let quantity = ne_amount_update e in
      if \<not> is_fin quantity \<or> quantity \<le> 0 then Inl BadFillQuantity
      else let notional = ne_price e * quantity; fee = notional * fee_rate_for rates (ne_symbol e) role in
      if \<not> is_fin notional \<or> \<not> is_fin fee then Inl NotionalOverflow
      else if u64_max \<le> vs_fill_count v then Inl FillCountOverflow
      else let v1 = v\<lparr>vs_fifo := fifo_apply_fill sd (ne_price e) quantity (vs_fifo v),
                      vs_fill_count := vs_fill_count v + 1,
                      vs_volume_quote := vs_volume_quote v + notional\<rparr>;
               v2 = book_liquidity role notional v1;
               v3 = v2\<lparr>vs_estimated_fee_quote := vs_estimated_fee_quote v2 + fee\<rparr> in
      if \<not> is_fin (vs_volume_quote v3) \<or> \<not> is_fin (vs_maker_volume_quote v3)
         \<or> \<not> is_fin (vs_taker_volume_quote v3) \<or> \<not> is_fin (vs_unknown_liquidity_volume_quote v3)
         \<or> \<not> is_fin (vs_estimated_fee_quote v3) then Inl CumulativeOverflow
      else Inr (v3\<lparr>vs_first_fill_ts_us := (case vs_first_fill_ts_us v3 of None \<Rightarrow> Some fill_ts | Some t \<Rightarrow> Some t),
                   vs_last_fill_ts_us := Some fill_ts, vs_latest_fill_price := ne_price e\<rparr>))"

subsection \<open>Totals\<close>

record nav_totals =
  nt_fill_count :: nat
  nt_volume_quote :: f64
  nt_maker_fill_count :: nat
  nt_maker_volume_quote :: f64
  nt_taker_fill_count :: nat
  nt_taker_volume_quote :: f64
  nt_unknown_liquidity_fill_count :: nat
  nt_unknown_liquidity_volume_quote :: f64
  nt_realized_pnl_before_fee_quote :: f64
  nt_estimated_trading_fee_quote :: f64
  nt_realized_pnl_after_fee_quote :: f64
  nt_floating_pnl_quote :: f64
  nt_nav_change_before_fee_quote :: f64
  nt_nav_change_after_fee_quote :: f64

definition totals_default :: nav_totals where
  "totals_default =
     \<lparr>nt_fill_count = 0, nt_volume_quote = 0, nt_maker_fill_count = 0, nt_maker_volume_quote = 0,
      nt_taker_fill_count = 0, nt_taker_volume_quote = 0, nt_unknown_liquidity_fill_count = 0,
      nt_unknown_liquidity_volume_quote = 0, nt_realized_pnl_before_fee_quote = 0,
      nt_estimated_trading_fee_quote = 0, nt_realized_pnl_after_fee_quote = 0, nt_floating_pnl_quote = 0,
      nt_nav_change_before_fee_quote = 0, nt_nav_change_after_fee_quote = 0\<rparr>"

definition totals_add :: "nav_totals \<Rightarrow> nav_totals \<Rightarrow> nav_totals" where
  "totals_add a b =
     \<lparr>nt_fill_count = sat_add_u64 (nt_fill_count a) (nt_fill_count b),
      nt_volume_quote = nt_volume_quote a + nt_volume_quote b,
      nt_maker_fill_count = sat_add_u64 (nt_maker_fill_count a) (nt_maker_fill_count b),
      nt_maker_volume_quote = nt_maker_volume_quote a + nt_maker_volume_quote b,
      nt_taker_fill_count = sat_add_u64 (nt_taker_fill_count a) (nt_taker_fill_count b),
      nt_taker_volume_quote = nt_taker_volume_quote a + nt_taker_volume_quote b,
      nt_unknown_liquidity_fill_count =
        sat_add_u64 (nt_unknown_liquidity_fill_count a) (nt_unknown_liquidity_fill_count b),
      nt_unknown_liquidity_volume_quote =
        nt_unknown_liquidity_volume_quote a + nt_unknown_liquidity_volume_quote b,
      nt_realized_pnl_before_fee_quote = nt_realized_pnl_before_fee_quote a + nt_realized_pnl_before_fee_quote b,
      nt_estimated_trading_fee_quote = nt_estimated_trading_fee_quote a + nt_estimated_trading_fee_quote b,
      nt_realized_pnl_after_fee_quote = nt_realized_pnl_after_fee_quote a + nt_realized_pnl_after_fee_quote b,
      nt_floating_pnl_quote = nt_floating_pnl_quote a + nt_floating_pnl_quote b,
      nt_nav_change_before_fee_quote = nt_nav_change_before_fee_quote a + nt_nav_change_before_fee_quote b,
      nt_nav_change_after_fee_quote = nt_nav_change_after_fee_quote a + nt_nav_change_after_fee_quote b\<rparr>"

definition totals_cleaned :: "nav_totals \<Rightarrow> nav_totals" where
  "totals_cleaned t =
     t\<lparr>nt_volume_quote := clean_zero (nt_volume_quote t),
       nt_maker_volume_quote := clean_zero (nt_maker_volume_quote t),
       nt_taker_volume_quote := clean_zero (nt_taker_volume_quote t),
       nt_unknown_liquidity_volume_quote := clean_zero (nt_unknown_liquidity_volume_quote t),
       nt_realized_pnl_before_fee_quote := clean_zero (nt_realized_pnl_before_fee_quote t),
       nt_estimated_trading_fee_quote := clean_zero (nt_estimated_trading_fee_quote t),
       nt_realized_pnl_after_fee_quote := clean_zero (nt_realized_pnl_after_fee_quote t),
       nt_floating_pnl_quote := clean_zero (nt_floating_pnl_quote t),
       nt_nav_change_before_fee_quote := clean_zero (nt_nav_change_before_fee_quote t),
       nt_nav_change_after_fee_quote := clean_zero (nt_nav_change_after_fee_quote t)\<rparr>"

definition totals_difference :: "nav_totals \<Rightarrow> nav_totals \<Rightarrow> nav_totals" where
  "totals_difference a b = totals_cleaned
     \<lparr>nt_fill_count = nt_fill_count a - nt_fill_count b,
      nt_volume_quote = nt_volume_quote a - nt_volume_quote b,
      nt_maker_fill_count = nt_maker_fill_count a - nt_maker_fill_count b,
      nt_maker_volume_quote = nt_maker_volume_quote a - nt_maker_volume_quote b,
      nt_taker_fill_count = nt_taker_fill_count a - nt_taker_fill_count b,
      nt_taker_volume_quote = nt_taker_volume_quote a - nt_taker_volume_quote b,
      nt_unknown_liquidity_fill_count = nt_unknown_liquidity_fill_count a - nt_unknown_liquidity_fill_count b,
      nt_unknown_liquidity_volume_quote =
        nt_unknown_liquidity_volume_quote a - nt_unknown_liquidity_volume_quote b,
      nt_realized_pnl_before_fee_quote = nt_realized_pnl_before_fee_quote a - nt_realized_pnl_before_fee_quote b,
      nt_estimated_trading_fee_quote = nt_estimated_trading_fee_quote a - nt_estimated_trading_fee_quote b,
      nt_realized_pnl_after_fee_quote = nt_realized_pnl_after_fee_quote a - nt_realized_pnl_after_fee_quote b,
      nt_floating_pnl_quote = nt_floating_pnl_quote a - nt_floating_pnl_quote b,
      nt_nav_change_before_fee_quote = nt_nav_change_before_fee_quote a - nt_nav_change_before_fee_quote b,
      nt_nav_change_after_fee_quote = nt_nav_change_after_fee_quote a - nt_nav_change_after_fee_quote b\<rparr>"


subsection \<open>Reports\<close>

record venue_nav_report =
  vr_venue_code :: i16
  vr_venue :: string
  vr_mark_price :: f64
  vr_mark_price_source :: mark_price_source
  vr_initial_quantity :: f64
  vr_initial_reference_price :: "f64 option"
  vr_initial_reference_price_source :: "initial_reference_price_source option"
  vr_long_quantity :: f64
  vr_short_quantity :: f64
  vr_net_quantity :: f64
  vr_long_position_value_quote :: f64
  vr_short_position_value_quote :: f64
  vr_net_position_value_quote :: f64
  vr_first_fill_ts_us :: "i64 option"
  vr_last_fill_ts_us :: "i64 option"
  vr_totals :: nav_totals

definition venue_report :: "f64 option \<Rightarrow> venue_state \<Rightarrow> venue_nav_report" where
  "venue_report mark_override v =
     (let (mark, source) = (case mark_override of
            Some m \<Rightarrow> (m, Override)
          | None \<Rightarrow> (vs_latest_fill_price v, if 0 < vs_fill_count v then LatestFill else InitialSnapshot));
          floating = floating_pnl (vs_fifo v) mark;
          long = long_quantity (vs_fifo v) mark;
          short = short_quantity (vs_fifo v) mark;
          net = long - short;
          realized_before = qf_realized_pnl (vs_fifo v);
          realized_after = realized_before - vs_estimated_fee_quote v;
          nav_before = realized_before + floating;
          nav_after = nav_before - vs_estimated_fee_quote v
      in \<lparr>vr_venue_code = vs_venue_code v, vr_venue = vs_venue v, vr_mark_price = clean_zero mark,
          vr_mark_price_source = source, vr_initial_quantity = clean_zero (vs_initial_quantity v),
          vr_initial_reference_price = map_option clean_zero (vs_initial_reference_price v),
          vr_initial_reference_price_source = vs_initial_reference_price_source v,
          vr_long_quantity = clean_zero long, vr_short_quantity = clean_zero short,
          vr_net_quantity = clean_zero net, vr_long_position_value_quote = clean_zero (long * mark),
          vr_short_position_value_quote = clean_zero (short * mark),
          vr_net_position_value_quote = clean_zero (net * mark),
          vr_first_fill_ts_us = vs_first_fill_ts_us v, vr_last_fill_ts_us = vs_last_fill_ts_us v,
          vr_totals =
            \<lparr>nt_fill_count = vs_fill_count v, nt_volume_quote = clean_zero (vs_volume_quote v),
             nt_maker_fill_count = vs_maker_fill_count v,
             nt_maker_volume_quote = clean_zero (vs_maker_volume_quote v),
             nt_taker_fill_count = vs_taker_fill_count v,
             nt_taker_volume_quote = clean_zero (vs_taker_volume_quote v),
             nt_unknown_liquidity_fill_count = vs_unknown_liquidity_fill_count v,
             nt_unknown_liquidity_volume_quote = clean_zero (vs_unknown_liquidity_volume_quote v),
             nt_realized_pnl_before_fee_quote = clean_zero realized_before,
             nt_estimated_trading_fee_quote = clean_zero (vs_estimated_fee_quote v),
             nt_realized_pnl_after_fee_quote = clean_zero realized_after,
             nt_floating_pnl_quote = clean_zero floating,
             nt_nav_change_before_fee_quote = clean_zero nav_before,
             nt_nav_change_after_fee_quote = clean_zero nav_after\<rparr>\<rparr>)"

record symbol_nav_report =
  sr_symbol :: string
  sr_venue_count :: nat
  sr_initial_net_quantity :: f64
  sr_long_quantity :: f64
  sr_short_quantity :: f64
  sr_net_quantity :: f64
  sr_long_position_value_quote :: f64
  sr_short_position_value_quote :: f64
  sr_net_position_value_quote :: f64
  sr_totals :: nav_totals
  sr_venues :: "venue_nav_report list"

record symbol_report_builder =
  sb_totals :: nav_totals
  sb_initial_net_quantity :: f64
  sb_long_quantity :: f64
  sb_short_quantity :: f64
  sb_long_position_value_quote :: f64
  sb_short_position_value_quote :: f64
  sb_net_position_value_quote :: f64
  sb_venues :: "venue_nav_report list"

definition symbol_builder_default :: symbol_report_builder where
  "symbol_builder_default =
     \<lparr>sb_totals = totals_default, sb_initial_net_quantity = 0, sb_long_quantity = 0, sb_short_quantity = 0,
      sb_long_position_value_quote = 0, sb_short_position_value_quote = 0, sb_net_position_value_quote = 0,
      sb_venues = []\<rparr>"

definition symbol_push :: "venue_nav_report \<Rightarrow> symbol_report_builder \<Rightarrow> symbol_report_builder" where
  "symbol_push venue b =
     \<lparr>sb_totals = totals_add (sb_totals b) (vr_totals venue),
      sb_initial_net_quantity = sb_initial_net_quantity b + vr_initial_quantity venue,
      sb_long_quantity = sb_long_quantity b + vr_long_quantity venue,
      sb_short_quantity = sb_short_quantity b + vr_short_quantity venue,
      sb_long_position_value_quote = sb_long_position_value_quote b + vr_long_position_value_quote venue,
      sb_short_position_value_quote = sb_short_position_value_quote b + vr_short_position_value_quote venue,
      sb_net_position_value_quote = sb_net_position_value_quote b + vr_net_position_value_quote venue,
      sb_venues = sb_venues b @ [venue]\<rparr>"

definition symbol_finish :: "string \<Rightarrow> symbol_report_builder \<Rightarrow> symbol_nav_report" where
  "symbol_finish symbol b =
     \<lparr>sr_symbol = symbol, sr_venue_count = length (sb_venues b),
      sr_initial_net_quantity = clean_zero (sb_initial_net_quantity b),
      sr_long_quantity = clean_zero (sb_long_quantity b),
      sr_short_quantity = clean_zero (sb_short_quantity b),
      sr_net_quantity = clean_zero (sb_long_quantity b - sb_short_quantity b),
      sr_long_position_value_quote = clean_zero (sb_long_position_value_quote b),
      sr_short_position_value_quote = clean_zero (sb_short_position_value_quote b),
      sr_net_position_value_quote = clean_zero (sb_net_position_value_quote b),
      sr_totals = totals_cleaned (sb_totals b), sr_venues = sb_venues b\<rparr>"

record source_nav_report =
  so_source_id :: string
  so_account :: string
  so_configured_venue :: string
  so_estimated_fee_rate :: f64
  so_maker_fee_rate :: f64
  so_taker_fee_rate :: f64
  so_quote_fee_rates :: "(string, quote_fee_rates) bmap"
  so_initial_position_snapshot_ts_us :: "i64 option"
  so_initial_position_count :: nat
  so_order_event_count :: nat
  so_ignored_at_or_before_snapshot_event_count :: nat
  so_ignored_non_fill_event_count :: nat
  so_first_fill_ts_us :: "i64 option"
  so_last_fill_ts_us :: "i64 option"
  so_totals :: nav_totals
  so_symbols :: "symbol_nav_report list"

record aggregate_symbol_nav_report =
  ar_symbol :: string
  ar_source_count :: nat
  ar_venue_count :: nat
  ar_initial_net_quantity :: f64
  ar_long_quantity :: f64
  ar_short_quantity :: f64
  ar_net_quantity :: f64
  ar_long_position_value_quote :: f64
  ar_short_position_value_quote :: f64
  ar_net_position_value_quote :: f64
  ar_totals :: nav_totals

record aggregate_symbol_builder =
  ab_source_count :: nat
  ab_venue_count :: nat
  ab_totals :: nav_totals
  ab_initial_net_quantity :: f64
  ab_long_quantity :: f64
  ab_short_quantity :: f64
  ab_long_position_value_quote :: f64
  ab_short_position_value_quote :: f64
  ab_net_position_value_quote :: f64

definition aggregate_builder_default :: aggregate_symbol_builder where
  "aggregate_builder_default =
     \<lparr>ab_source_count = 0, ab_venue_count = 0, ab_totals = totals_default, ab_initial_net_quantity = 0,
      ab_long_quantity = 0, ab_short_quantity = 0, ab_long_position_value_quote = 0,
      ab_short_position_value_quote = 0, ab_net_position_value_quote = 0\<rparr>"

definition aggregate_push :: "symbol_nav_report \<Rightarrow> aggregate_symbol_builder \<Rightarrow> aggregate_symbol_builder" where
  "aggregate_push s b =
     \<lparr>ab_source_count = ab_source_count b + 1, ab_venue_count = ab_venue_count b + sr_venue_count s,
      ab_totals = totals_add (ab_totals b) (sr_totals s),
      ab_initial_net_quantity = ab_initial_net_quantity b + sr_initial_net_quantity s,
      ab_long_quantity = ab_long_quantity b + sr_long_quantity s,
      ab_short_quantity = ab_short_quantity b + sr_short_quantity s,
      ab_long_position_value_quote = ab_long_position_value_quote b + sr_long_position_value_quote s,
      ab_short_position_value_quote = ab_short_position_value_quote b + sr_short_position_value_quote s,
      ab_net_position_value_quote = ab_net_position_value_quote b + sr_net_position_value_quote s\<rparr>"

definition aggregate_finish :: "string \<Rightarrow> aggregate_symbol_builder \<Rightarrow> aggregate_symbol_nav_report" where
  "aggregate_finish symbol b =
     \<lparr>ar_symbol = symbol, ar_source_count = ab_source_count b, ar_venue_count = ab_venue_count b,
      ar_initial_net_quantity = clean_zero (ab_initial_net_quantity b),
      ar_long_quantity = clean_zero (ab_long_quantity b),
      ar_short_quantity = clean_zero (ab_short_quantity b),
      ar_net_quantity = clean_zero (ab_long_quantity b - ab_short_quantity b),
      ar_long_position_value_quote = clean_zero (ab_long_position_value_quote b),
      ar_short_position_value_quote = clean_zero (ab_short_position_value_quote b),
      ar_net_position_value_quote = clean_zero (ab_net_position_value_quote b),
      ar_totals = totals_cleaned (ab_totals b)\<rparr>"

record aggregate_nav_report =
  ag_totals :: nav_totals
  ag_symbols :: "aggregate_symbol_nav_report list"

record nav_report =
  nr_valuation :: string
  nr_source_count :: nat
  nr_aggregate :: aggregate_nav_report
  nr_sources :: "source_nav_report list"

definition push_source_symbols ::
    "source_nav_report \<Rightarrow> (string, aggregate_symbol_builder) bmap \<Rightarrow> (string, aggregate_symbol_builder) bmap" where
  "push_source_symbols source m =
     foldl (\<lambda>m s. bm_upsert (sr_symbol s) aggregate_builder_default (aggregate_push s) m) m (so_symbols source)"

definition aggregate_source_reports :: "source_nav_report list \<Rightarrow> nav_report" where
  "aggregate_source_reports sources =
     (let totals = foldl (\<lambda>t s. totals_add t (so_totals s)) totals_default sources;
          symbols = foldl (\<lambda>m s. push_source_symbols s m) [] sources
      in \<lparr>nr_valuation = ''quantity_fifo'', nr_source_count = length sources,
          nr_aggregate = \<lparr>ag_totals = totals_cleaned totals,
                          ag_symbols = map (\<lambda>(symbol, b). aggregate_finish symbol b) symbols\<rparr>,
          nr_sources = sources\<rparr>)"

definition restrict_report :: "nav_report \<Rightarrow> string list \<Rightarrow> nav_report" where
  "restrict_report report allowed =
     aggregate_source_reports (filter (\<lambda>s. so_source_id s \<in> set allowed) (nr_sources report))"

definition batch_exec_from_key_prefix :: string where
  "batch_exec_from_key_prefix = ''batch_exec:''"

definition chase_exec_from_key_prefix :: string where
  "chase_exec_from_key_prefix = ''chase_exec:''"

definition initial_position_strategy :: string where
  "initial_position_strategy = ''__initial_position__''"

definition unallocated_strategy :: string where
  "unallocated_strategy = ''__unallocated__''"

definition unattributed_strategy :: string where
  "unattributed_strategy = ''__unattributed__''"

definition strategy_char :: "char \<Rightarrow> bool" where
  "strategy_char c \<longleftrightarrow> is_alnum c \<or> c = CHR ''.'' \<or> c = CHR ''_'' \<or> c = CHR ''-''"

definition strategy_from_from_key :: "string \<Rightarrow> string" where
  "strategy_from_from_key k =
     (case or_else (strip_prefix batch_exec_from_key_prefix k) (strip_prefix chase_exec_from_key_prefix k) of
        None \<Rightarrow> unattributed_strategy
      | Some s \<Rightarrow> if s \<noteq> [] \<and> length s \<le> 256 \<and> list_all strategy_char s then s else unattributed_strategy)"

definition is_system_position_close :: "string \<Rightarrow> bool" where
  "is_system_position_close s \<longleftrightarrow> eq_ignore_case s ''system_position_close''"

subsection \<open>Invariant of the venue ledger\<close>

text \<open>
  The lots are in order and usable, the counters split the fills by liquidity, all sums are
  finite, and the times of the first and last fill exist exactly when there was one.
\<close>

definition venue_wf :: "venue_state \<Rightarrow> bool" where
  "venue_wf v \<longleftrightarrow> fifo_ok (vs_fifo v)
     \<and> vs_fill_count v = vs_maker_fill_count v + vs_taker_fill_count v + vs_unknown_liquidity_fill_count v
     \<and> vs_fill_count v \<le> u64_max
     \<and> (0 < vs_fill_count v \<longleftrightarrow> vs_last_fill_ts_us v \<noteq> None)
     \<and> (vs_first_fill_ts_us v = None \<longleftrightarrow> vs_last_fill_ts_us v = None)
     \<and> is_fin (vs_volume_quote v) \<and> is_fin (vs_maker_volume_quote v) \<and> is_fin (vs_taker_volume_quote v)
     \<and> is_fin (vs_unknown_liquidity_volume_quote v) \<and> is_fin (vs_estimated_fee_quote v)"

lemma venue_wf_new: "venue_wf (venue_state_new e)"
  by (simp add: venue_wf_def venue_state_new_def blank_venue_state_def)

lemma venue_wf_initial:
  assumes "is_fin q" "f_ok q" "q \<noteq> 0" "0 < p" "is_fin (\<bar>q\<bar> * p)"
  shows "venue_wf (from_initial_position code venue q p src)"
proof -
  have a: "0 < \<bar>q\<bar>" "is_fin \<bar>q\<bar>" using assms(1,3) by (cases q; auto simp: f64_ops)+
  have "fifo_ok (fifo_apply_fill sd p \<bar>q\<bar> (fifo_default i))" for sd i
    using a assms by (intro fifo_apply_fill_ok) auto
  then show ?thesis
    by (simp add: from_initial_position_def blank_venue_state_def venue_wf_def Let_def)
qed

text \<open>What a liquidity class books, and what the handler leaves alone.\<close>

fun role_counts :: "liquidity_role \<Rightarrow> venue_state \<Rightarrow> nat \<times> f64" where
  "role_counts Maker v = (vs_maker_fill_count v, vs_maker_volume_quote v)"
| "role_counts Taker v = (vs_taker_fill_count v, vs_taker_volume_quote v)"
| "role_counts _ v = (vs_unknown_liquidity_fill_count v, vs_unknown_liquidity_volume_quote v)"

fun bucket :: "liquidity_role \<Rightarrow> nat" where
  "bucket Maker = 0"
| "bucket Taker = 1"
| "bucket _ = 2"

definition same_bucket :: "liquidity_role \<Rightarrow> liquidity_role \<Rightarrow> bool" where
  "same_bucket r s \<longleftrightarrow> bucket r = bucket s"

text \<open>The state an accepted fill leaves.\<close>

definition booked :: "nav_event \<Rightarrow> side \<Rightarrow> fee_rates \<Rightarrow> liquidity_role \<Rightarrow> i64 \<Rightarrow> venue_state \<Rightarrow> venue_state" where
  "booked e sd rates role ts v =
     (let notional = ne_price e * ne_amount_update e;
          w = book_liquidity role notional
                (v\<lparr>vs_fifo := fifo_apply_fill sd (ne_price e) (ne_amount_update e) (vs_fifo v),
                   vs_fill_count := vs_fill_count v + 1, vs_volume_quote := vs_volume_quote v + notional\<rparr>)
      in w\<lparr>vs_estimated_fee_quote := vs_estimated_fee_quote w + notional * fee_rate_for rates (ne_symbol e) role,
           vs_first_fill_ts_us := (case vs_first_fill_ts_us w of None \<Rightarrow> Some ts | Some t \<Rightarrow> Some t),
           vs_last_fill_ts_us := Some ts, vs_latest_fill_price := ne_price e\<rparr>)"

lemma venue_apply_fill_Inr:
  assumes "venue_apply_fill e sd rates role ts v = Inr v'"
  shows "vs_venue v = ne_venue e \<and> is_fin (ne_amount_update e) \<and> 0 < ne_amount_update e
    \<and> is_fin (ne_price e * ne_amount_update e) \<and> vs_fill_count v < u64_max
    \<and> v' = booked e sd rates role ts v
    \<and> is_fin (vs_volume_quote v') \<and> is_fin (vs_maker_volume_quote v') \<and> is_fin (vs_taker_volume_quote v')
    \<and> is_fin (vs_unknown_liquidity_volume_quote v') \<and> is_fin (vs_estimated_fee_quote v')"
  using assms f64_fin_not_le_0 [of "ne_amount_update e"]
  unfolding venue_apply_fill_def Let_def booked_def
  by (simp split: if_splits) (elim conjE; hypsubst; simp)

lemma booked_fields:
  "vs_fifo (booked e sd rates role ts v) = fifo_apply_fill sd (ne_price e) (ne_amount_update e) (vs_fifo v)"
  "vs_fill_count (booked e sd rates role ts v) = vs_fill_count v + 1"
  "vs_volume_quote (booked e sd rates role ts v) = vs_volume_quote v + ne_price e * ne_amount_update e"
  "vs_estimated_fee_quote (booked e sd rates role ts v) =
     vs_estimated_fee_quote v + ne_price e * ne_amount_update e * fee_rate_for rates (ne_symbol e) role"
  "vs_first_fill_ts_us (booked e sd rates role ts v) =
     (case vs_first_fill_ts_us v of None \<Rightarrow> Some ts | Some t \<Rightarrow> Some t)"
  "vs_last_fill_ts_us (booked e sd rates role ts v) = Some ts"
  "vs_latest_fill_price (booked e sd rates role ts v) = ne_price e"
  "vs_initial_quantity (booked e sd rates role ts v) = vs_initial_quantity v"
  "vs_venue (booked e sd rates role ts v) = vs_venue v"
  by (simp_all add: booked_def book_liquidity_def Let_def split: liquidity_role.splits)

lemma booked_roles:
  "role_counts r (booked e sd rates role ts v) =
     (if same_bucket r role
      then (sat_add_u64 (fst (role_counts r v)) 1, snd (role_counts r v) + ne_price e * ne_amount_update e)
      else role_counts r v)"
  by (cases role; cases r; simp add: booked_def book_liquidity_def Let_def same_bucket_def)

lemma sat_add_u64_exact: "a + b \<le> u64_max \<Longrightarrow> sat_add_u64 a b = a + b"
  by (simp add: sat_add_u64_def)

lemma venue_apply_fill_fifo_ok:
  assumes "venue_apply_fill e sd rates role ts v = Inr v'" "fifo_ok (vs_fifo v)" "0 < ne_price e" "f_ok (ne_amount_update e)"
  shows "fifo_ok (vs_fifo v')"
proof -
  note I = venue_apply_fill_Inr [OF assms(1)]
  have "is_fin (if qf_inverse (vs_fifo v) then ne_amount_update e * ne_price e else ne_amount_update e)"
    using I by (simp add: f64_mult_commute)
  then show ?thesis using I assms by (simp add: booked_fields fifo_apply_fill_ok)
qed

text \<open>
  C26: The fill handler books what it accepts, and keeps the venue ledger well formed. An accepted
  fill (venue name unchanged, finite positive quantity, finite notional and fee) appears once in
  the fill count and volume and once in the bucket of its liquidity role, the other buckets
  staying as they were; the fee is the notional at the role's rate; the first fill time is kept
  and the last one is this fill's; lots stay in order and all sums stay finite.
\<close>

theorem venue_fill_booking:
  assumes "venue_apply_fill e sd rates role ts v = Inr v'"
    and "venue_wf v" and "0 < ne_price e" and "f_ok (ne_amount_update e)"
  shows "let notional = ne_price e * ne_amount_update e
    in venue_wf v'
     \<and> vs_fill_count v' = vs_fill_count v + 1 \<and> vs_volume_quote v' = vs_volume_quote v + notional
     \<and> role_counts role v' = (fst (role_counts role v) + 1, snd (role_counts role v) + notional)
     \<and> (\<forall>r. same_bucket r role \<or> role_counts r v' = role_counts r v)
     \<and> vs_estimated_fee_quote v' = vs_estimated_fee_quote v + notional * fee_rate_for rates (ne_symbol e) role
     \<and> vs_first_fill_ts_us v' = (if vs_fill_count v = 0 then Some ts else vs_first_fill_ts_us v)
     \<and> vs_last_fill_ts_us v' = Some ts \<and> vs_latest_fill_price v' = ne_price e
     \<and> vs_initial_quantity v' = vs_initial_quantity v
     \<and> vs_fifo v' = fifo_apply_fill sd (ne_price e) (ne_amount_update e) (vs_fifo v)"
proof -
  note I = venue_apply_fill_Inr [OF assms(1)]
  note W = assms(2) [unfolded venue_wf_def]
  have fifo: "fifo_ok (vs_fifo v')"
    using venue_apply_fill_fifo_ok [OF assms(1) _ assms(3,4)] W by blast
  have v': "v' = booked e sd rates role ts v" using I by blast
  have b: "fst (role_counts r v) + 1 \<le> u64_max" for r using W I by (cases r) auto
  have roles: "role_counts r v' = (if same_bucket r role
      then (fst (role_counts r v) + 1, snd (role_counts r v) + ne_price e * ne_amount_update e)
      else role_counts r v)" for r
    unfolding v' booked_roles using b [of r] by (simp add: sat_add_u64_exact)
  have first: "vs_first_fill_ts_us v' = (if vs_fill_count v = 0 then Some ts else vs_first_fill_ts_us v)"
    using W by (cases "vs_first_fill_ts_us v") (auto simp: v' booked_fields)
  have count: "vs_fill_count v' = vs_maker_fill_count v' + vs_taker_fill_count v' + vs_unknown_liquidity_fill_count v'"
    using roles [of Maker] roles [of Taker] roles [of Unknown] W
    by (cases role) (auto simp: same_bucket_def v' booked_fields)
  have t: "vs_first_fill_ts_us v' \<noteq> None" by (simp add: v' booked_fields split: option.splits)
  have n: "vs_last_fill_ts_us v' \<noteq> None" "0 < vs_fill_count v'" "vs_fill_count v' \<le> u64_max"
    using I by (simp_all add: v' booked_fields)
  have wf: "venue_wf v'"
    unfolding venue_wf_def using fifo count I t n by blast
  show ?thesis
    unfolding Let_def using wf roles first by (auto simp: v' booked_fields same_bucket_def)
qed


definition sample_fill :: nav_event where
  "sample_fill =
     \<lparr>ne_record_key = ''r1'', ne_event_ts_us = 10, ne_create_ts_us = 9, ne_update_ts_us = 11, ne_signal_ts_us = 8,
      ne_symbol = ''BTCUSDT'', ne_client_order_id = 7, ne_venue_code = 1, ne_venue = ''BinanceFutures'',
      ne_order_type_code = 1, ne_side_code = 1, ne_price = 1, ne_amount_update = 1,
      ne_from_key_text = ''batch_exec:alpha'', ne_fill_liquidity = Some FillMaker\<rparr>"

definition zero_rates :: fee_rates where
  "zero_rates = \<lparr>fr_maker = 0, fr_taker = 0, fr_by_quote = []\<rparr>"

lemma f64_unit_simps [simp]: "1 * 1 = (1 :: f64)" "1 * 0 = (0 :: f64)" "0 + 1 = (1 :: f64)" "0 + 0 = (0 :: f64)"
  using is_repr_grid [of 1 0] by (simp_all add: f64_ops)

lemma sample_fill_applies:
  "\<exists>v'. venue_apply_fill sample_fill Buy zero_rates Maker 11 (venue_state_new sample_fill) = Inr v'"
proof -
  have q: "\<not> (1 :: f64) \<le> 0" by (simp add: f64_ops)
  then show ?thesis
    by (simp add: venue_apply_fill_def sample_fill_def venue_state_new_def blank_venue_state_def Let_def
        book_liquidity_def fee_rate_for_def for_symbol_def zero_rates_def u64_max_def)
qed

theorem venue_fill_booking_witness:
  "\<exists>v'. venue_apply_fill sample_fill Buy zero_rates Maker 11 (venue_state_new sample_fill) = Inr v'
     \<and> venue_wf v' \<and> vs_fill_count v' = 1 \<and> vs_volume_quote v' = 1 \<and> vs_last_fill_ts_us v' = Some 11"
proof -
  obtain v' where v': "venue_apply_fill sample_fill Buy zero_rates Maker 11 (venue_state_new sample_fill) = Inr v'"
    using sample_fill_applies by blast
  have "0 < ne_price sample_fill" "f_ok (ne_amount_update sample_fill)"
    by (simp_all add: sample_fill_def)
  from venue_fill_booking [OF v' venue_wf_new this] v' show ?thesis
    by (auto simp: Let_def sample_fill_def venue_state_new_def blank_venue_state_def)
qed

subsection \<open>Aggregation\<close>

lemma run_steps_default:
  "bm.run_steps (\<lambda>_. d) step a xs =
     (if xs = [] then a else Some (foldl (\<lambda>v x. step x v) (case a of None \<Rightarrow> d | Some v \<Rightarrow> v) xs))"
  by (induction xs arbitrary: a) auto

lemma foldl_concat_map: "foldl (\<lambda>m s. foldl f m (g s)) m ss = foldl f m (concat (map g ss))"
  by (induction ss arbitrary: m) simp_all

lemma map_keys_eqI:
  assumes "bm_wf m" and "sorted_wrt (<) ks" and "\<And>k. bm_get m k = (if k \<in> set ks then Some (f k) else None)"
  shows "m = map (\<lambda>k. (k, f k)) ks"
proof (rule bm_ext [OF assms(1)])
  show "bm_wf (map (\<lambda>k. (k, f k)) ks)" using assms(2) by (simp add: bm_wf_def comp_def)
  show "bm_get m k = bm_get (map (\<lambda>k. (k, f k)) ks) k" for k
    unfolding assms(3) by (induction ks) auto
qed

text \<open>
  The aggregate report is a function of the rows of its sources. Its symbols are the distinct
  symbols of all source reports in order, and the row of each symbol is built from exactly the
  source rows of that symbol, in source order; its source count is their number.
\<close>

theorem aggregate_rows:
  "let rows = concat (map so_symbols sources);
       row = (\<lambda>k. aggregate_finish k
                    (foldl (\<lambda>b s. aggregate_push s b) aggregate_builder_default
                       (filter (\<lambda>s. sr_symbol s = k) rows)))
   in ag_symbols (nr_aggregate (aggregate_source_reports sources)) = map row (set_of_list (map sr_symbol rows))
    \<and> (\<forall>k. ar_source_count (row k) = length (filter (\<lambda>s. sr_symbol s = k) rows)
          \<and> ar_symbol (row k) = k)"
proof -
  define rows where "rows = concat (map so_symbols sources)"
  define b where "b = (\<lambda>k. foldl (\<lambda>b s. aggregate_push s b) aggregate_builder_default
      (filter (\<lambda>s. sr_symbol s = k) rows))"
  define m where "m = foldl (\<lambda>m s. push_source_symbols s m) [] sources"
  have m: "m = bm.upserts sr_symbol (\<lambda>_. aggregate_builder_default) aggregate_push [] rows"
    unfolding m_def push_source_symbols_def foldl_concat_map rows_def by (rule bm_upserts_foldl)
  have "bm_get m k = (if k \<in> set (set_of_list (map sr_symbol rows)) then Some (b k) else None)" for k
    unfolding m bm.get_upserts run_steps_default b_def by (auto simp: filter_empty_conv)
  then have "m = map (\<lambda>k. (k, b k)) (set_of_list (map sr_symbol rows))"
    by (intro map_keys_eqI) (simp_all add: m bm.wf_upserts set_of_list_sorted)
  then have "ag_symbols (nr_aggregate (aggregate_source_reports sources))
      = map (\<lambda>k. aggregate_finish k (b k)) (set_of_list (map sr_symbol rows))"
    by (simp add: aggregate_source_reports_def Let_def m_def)
  moreover have "ab_source_count (foldl (\<lambda>b s. aggregate_push s b) b0 xs) = ab_source_count b0 + length xs" for b0 xs
    by (induction xs arbitrary: b0) (simp_all add: aggregate_push_def)
  ultimately show ?thesis
    by (simp add: Let_def rows_def [symmetric] b_def [symmetric] aggregate_finish_def)
      (simp add: b_def aggregate_builder_default_def)
qed

text \<open>
  C29: A restricted report shows the allowed sources and nothing else. Its sources are the allowed
  ones, its aggregate lists exactly the symbols those sources hold, restricting twice is
  restricting to the intersection, and what the other sources contain has no effect: the result
  is that of a report made of the allowed sources only.
\<close>

theorem restrict_report_isolates:
  "nr_sources (restrict_report r allowed) = filter (\<lambda>s. so_source_id s \<in> set allowed) (nr_sources r)
   \<and> map ar_symbol (ag_symbols (nr_aggregate (restrict_report r allowed)))
       = set_of_list (map sr_symbol (concat (map so_symbols
           (filter (\<lambda>s. so_source_id s \<in> set allowed) (nr_sources r)))))
   \<and> restrict_report (restrict_report r allowed) others = restrict_report r (filter (\<lambda>i. i \<in> set others) allowed)
   \<and> restrict_report (aggregate_source_reports (filter (\<lambda>s. so_source_id s \<in> set allowed) (nr_sources r))) allowed
       = restrict_report r allowed"
proof -
  have src: "nr_sources (aggregate_source_reports ss) = ss" for ss
    by (simp add: aggregate_source_reports_def Let_def)
  have sym: "map ar_symbol (ag_symbols (nr_aggregate (aggregate_source_reports ss)))
      = set_of_list (map sr_symbol (concat (map so_symbols ss)))" for ss
  proof -
    define m where "m = foldl (\<lambda>m s. push_source_symbols s m) [] ss"
    have m: "m = bm.upserts sr_symbol (\<lambda>_. aggregate_builder_default) aggregate_push [] (concat (map so_symbols ss))"
      unfolding m_def push_source_symbols_def foldl_concat_map by (rule bm_upserts_foldl)
    have wf: "bm_wf m" by (simp add: m bm.wf_upserts)
    have "set (map fst m) = set (map sr_symbol (concat (map so_symbols ss)))"
    proof -
      have "k \<in> fst ` set m \<longleftrightarrow> bm_get m k \<noteq> None" for k by (simp add: bm_get_None_iff)
      moreover have "bm_get m k = None \<longleftrightarrow> k \<notin> sr_symbol ` set (concat (map so_symbols ss))" for k
        unfolding m bm.get_upserts run_steps_default by (auto simp: filter_empty_conv)
      ultimately have "fst ` set m = sr_symbol ` set (concat (map so_symbols ss))" by blast
      then show ?thesis by (simp only: set_map)
    qed
    then have "map fst m = set_of_list (map sr_symbol (concat (map so_symbols ss)))"
      using wf set_of_list_sorted [of "map sr_symbol (concat (map so_symbols ss))"]
      by (intro sorted_distinct_set_unique) (simp_all only: bm_wf_def strict_sorted_iff set_set_of_list)
    then show ?thesis
      by (simp add: aggregate_source_reports_def Let_def m_def [symmetric] split_def comp_def aggregate_finish_def)
  qed
  show ?thesis
    unfolding restrict_report_def src sym by (simp add: conj_commute src)
qed

subsection \<open>Liquidity evidence\<close>

text \<open>What the trade updates of an order prove, independently of the order they arrive in.\<close>

definition evidence :: "liquidity_role set \<Rightarrow> liquidity_role option" where
  "evidence s = (if s = {} then None else if card s = 1 then Some (the_elem s) else Some Unknown)"

definition trade_key :: "trade_update_event \<Rightarrow> order_key" where
  "trade_key e = (target_symbol (tu_symbol e) (tu_venue_code e), tu_venue_code e, tu_client_order_id e)"

definition trade_role :: "trade_update_event \<Rightarrow> liquidity_role" where
  "trade_role e = (if tu_is_maker e then Maker else Taker)"

definition relevant_trade :: "trade_update_event \<Rightarrow> bool" where
  "relevant_trade e \<longleftrightarrow> \<not> (tu_cumulative_filled_quantity e \<le> 0 \<or> tu_client_order_id e = 0)"

definition observed_roles :: "order_key \<Rightarrow> trade_update_event list \<Rightarrow> liquidity_role set" where
  "observed_roles k es = trade_role ` {e \<in> set es. relevant_trade e \<and> trade_key e = k}"

lemma evidence_step:
  assumes "finite s" and "r \<noteq> Unknown"
  shows "(case evidence s of
            Some role \<Rightarrow> if role \<noteq> r \<and> role \<noteq> Unknown then Some Unknown else Some role
          | None \<Rightarrow> Some r) = evidence (insert r s)"
proof (cases "s = {}")
  case True
  then show ?thesis by (simp add: evidence_def)
next
  case ne: False
  show ?thesis
  proof (cases "card s = 1")
    case True
    then obtain x where "s = {x}" by (auto simp: card_1_singleton_iff)
    then show ?thesis using assms(2) by (auto simp: evidence_def card_insert_if)
  next
    case False
    moreover have "0 < card s" using ne assms(1) by (simp add: card_gt_0_iff)
    ultimately have "2 \<le> card s" by linarith
    moreover have "card s \<le> card (insert r s)" by (simp add: card_insert_le)
    ultimately have "2 \<le> card (insert r s)" by linarith
    then show ?thesis using ne False by (simp add: evidence_def)
  qed
qed


fun role_rank :: "liquidity_role option \<Rightarrow> nat" where
  "role_rank None = 0"
| "role_rank (Some r) = (if r = Unknown then 2 else 1)"

lemma merge_record_evidence:
  assumes "finite (s k)" and "bm_get roles k = evidence (s k)"
    and "merge_liquidity_record (roles, changed) e = (roles', changed')"
  shows "bm_get roles' k = evidence (if relevant_trade e \<and> trade_key e = k then insert (trade_role e) (s k) else s k)
    \<and> set changed' = set changed \<union> {k'. k' = trade_key e \<and> bm_get roles' k' \<noteq> bm_get roles k'}
    \<and> (bm_get roles' k = bm_get roles k \<or> role_rank (bm_get roles k) < role_rank (bm_get roles' k))"
proof -
  have r: "trade_role e \<noteq> Unknown" by (simp add: trade_role_def)
  note step = evidence_step [OF assms(1) r]
  have def: "merge_liquidity_record (roles, changed) e =
      (if \<not> relevant_trade e then (roles, changed)
       else case bm_get roles (trade_key e) of
         Some role \<Rightarrow> if role \<noteq> trade_role e \<and> role \<noteq> Unknown
            then (bm_insert (trade_key e) Unknown roles, changed @ [trade_key e]) else (roles, changed)
       | None \<Rightarrow> (bm_insert (trade_key e) (trade_role e) roles, changed @ [trade_key e]))"
    by (simp add: merge_liquidity_record_def relevant_trade_def trade_key_def trade_role_def Let_def split: option.splits)
  show ?thesis
  proof (cases "relevant_trade e")
    case False
    then show ?thesis using assms(2,3) by (auto simp: def)
  next
    case True
    show ?thesis
    proof (cases "trade_key e = k")
      case False
      then show ?thesis using assms(2,3) True r
        by (auto simp: def split: option.splits if_splits)
    next
      case key: True
      then have ev: "evidence (if relevant_trade e \<and> trade_key e = k then insert (trade_role e) (s k) else s k)
          = (case evidence (s k) of
              Some role \<Rightarrow> if role \<noteq> trade_role e \<and> role \<noteq> Unknown then Some Unknown else Some role
            | None \<Rightarrow> Some (trade_role e))"
        using True step by simp
      show ?thesis unfolding ev using assms(2,3) True r key
        by (auto simp: def split: option.splits if_splits)
    qed
  qed
qed


lemma merge_fold_evidence:
  assumes "foldl merge_liquidity_record (roles0, []) es = (roles, changed)"
  shows "bm_get roles k = evidence (set_option (bm_get roles0 k) \<union> observed_roles k es)
    \<and> (k \<in> set changed \<longleftrightarrow> bm_get roles k \<noteq> bm_get roles0 k)
    \<and> (bm_get roles k = bm_get roles0 k \<or> role_rank (bm_get roles0 k) < role_rank (bm_get roles k))"
  using assms
proof (induction es arbitrary: roles changed rule: rev_induct)
  case Nil
  then show ?case by (cases "bm_get roles0 k") (auto simp: observed_roles_def evidence_def)
next
  case (snoc e es)
  obtain r1 c1 where f: "foldl merge_liquidity_record (roles0, []) es = (r1, c1)" by fastforce
  note IH = snoc.IH [OF f]
  have fin: "finite (set_option (bm_get roles0 k) \<union> observed_roles k es)" by (simp add: observed_roles_def)
  have "merge_liquidity_record (r1, c1) e = (roles, changed)" using snoc.prems f by simp
  note S = merge_record_evidence [where s = "\<lambda>k. set_option (bm_get roles0 k) \<union> observed_roles k es" and k = k,
      OF fin _ this]
  have "observed_roles k (es @ [e]) =
      (if relevant_trade e \<and> trade_key e = k then insert (trade_role e) (observed_roles k es) else observed_roles k es)"
    by (auto simp: observed_roles_def)
  then show ?case using IH S by (auto split: if_splits)
qed

text \<open>
  C28: The liquidity table is the evidence of the trade updates, whatever their order. Merging a
  batch fails only with its first undecodable record; otherwise each order's role is determined
  by the set of roles observed for it (with the role already in the table): none, the one they
  agree on, or unknown when they differ; and the reported change set is exactly the set of orders
  whose role is different afterwards. Records without fill or client id count for nothing.
\<close>

theorem liquidity_merge_evidence:
  "case rmapM (\<lambda>(key, payload). decode_trade_update key payload) (concat families) of
     Inl e \<Rightarrow> merge_liquidity_records roles families = Inl (NavDecode e)
   | Inr es \<Rightarrow>
       (\<exists>roles' changed. merge_liquidity_records roles families = Inr (roles', changed)
          \<and> (\<forall>k. bm_get roles' k = evidence (set_option (bm_get roles k) \<union> observed_roles k es)
               \<and> (k \<in> set changed \<longleftrightarrow> bm_get roles' k \<noteq> bm_get roles k)))"
proof -
  let ?step = "\<lambda>st (key, payload).
     rbind (rmap_err NavDecode (decode_trade_update key payload)) (\<lambda>e. Inr (merge_liquidity_record st e))"
  have fold: "rfold ?step st records =
      (case rmapM (\<lambda>(key, payload). decode_trade_update key payload) records of
         Inl e \<Rightarrow> Inl (NavDecode e) | Inr es \<Rightarrow> Inr (foldl merge_liquidity_record st es))" for st records
  proof (induction records arbitrary: st)
    case Nil
    then show ?case by simp
  next
    case (Cons r records)
    obtain k p where r: "r = (k, p)" by fastforce
    show ?case using Cons.IH
      by (cases "decode_trade_update k p"; cases "rmapM (\<lambda>(key, payload). decode_trade_update key payload) records")
        (simp_all add: r)
  qed
  show ?thesis
  proof (cases "rmapM (\<lambda>(key, payload). decode_trade_update key payload) (concat families)")
    case (Inl e)
    then show ?thesis by (simp add: merge_liquidity_records_def fold rmap_def)
  next
    case (Inr es)
    obtain roles' c where f: "foldl merge_liquidity_record (roles, []) es = (roles', c)" by fastforce
    have "merge_liquidity_records roles families = Inr (roles', set_of_list c)"
      by (simp add: merge_liquidity_records_def fold Inr f rmap_def)
    then show ?thesis using merge_fold_evidence [OF f] by (auto simp: Inr)
  qed
qed

text \<open>
  Strategy attribution is well defined. A key \<open>batch_exec:\<close> or \<open>chase_exec:\<close> followed by a
  valid name (1 to 256 bytes of letters, digits, dot, underscore, hyphen) is attributed to that
  name, any other key to the reserved unattributed bucket; every attribution is itself a valid
  name, so attributing it again through a batch key gives it back.
\<close>

definition valid_strategy :: "string \<Rightarrow> bool" where
  "valid_strategy s \<longleftrightarrow> s \<noteq> [] \<and> length s \<le> 256 \<and> list_all strategy_char s"

theorem strategy_attribution:
  "strategy_from_from_key (batch_exec_from_key_prefix @ s) = (if valid_strategy s then s else unattributed_strategy)
   \<and> strategy_from_from_key (chase_exec_from_key_prefix @ s) = (if valid_strategy s then s else unattributed_strategy)
   \<and> valid_strategy (strategy_from_from_key k)
   \<and> strategy_from_from_key (batch_exec_from_key_prefix @ strategy_from_from_key k) = strategy_from_from_key k
   \<and> (starts_with batch_exec_from_key_prefix k \<or> starts_with chase_exec_from_key_prefix k
      \<or> strategy_from_from_key k = unattributed_strategy)"
proof -
  have b: "strategy_from_from_key (batch_exec_from_key_prefix @ s) = (if valid_strategy s then s else unattributed_strategy)" for s
    by (auto simp: strategy_from_from_key_def or_else_def strip_prefix_def valid_strategy_def)
  have "strip_prefix batch_exec_from_key_prefix (chase_exec_from_key_prefix @ s) = None"
    by (simp add: strip_prefix_def batch_exec_from_key_prefix_def chase_exec_from_key_prefix_def)
  then have c: "strategy_from_from_key (chase_exec_from_key_prefix @ s) = (if valid_strategy s then s else unattributed_strategy)"
    by (auto simp: strategy_from_from_key_def or_else_def strip_prefix_def valid_strategy_def)
  have "list_all strategy_char unattributed_strategy"
    by (simp add: unattributed_strategy_def strategy_char_def is_alnum_def is_lower_def byte_of_def)
  then have u: "valid_strategy unattributed_strategy"
    by (simp add: valid_strategy_def) (simp add: unattributed_strategy_def)
  then have v: "valid_strategy (strategy_from_from_key k)" for k
    by (auto simp: strategy_from_from_key_def valid_strategy_def split: option.splits)
  have n: "starts_with batch_exec_from_key_prefix k \<or> starts_with chase_exec_from_key_prefix k
      \<or> strategy_from_from_key k = unattributed_strategy"
    by (auto simp: strategy_from_from_key_def or_else_def strip_prefix_def starts_with_def)
  show ?thesis using b c v n by simp
qed

end
