(* ===== verification/Snapshot.thy ===== *)
theory Snapshot
  imports Venue
begin

text \<open>
  Position anchors (\<open>snapshot.rs\<close>): the account snapshot, the per-strategy snapshot, their
  validation and the account snapshot a strategy snapshot implies, with the strategy-name rules
  of \<open>order_config.rs\<close> that the validation calls.
\<close>

subsection \<open>Strategy names\<close>

datatype name_error = NameHedgeReserved | NameFormat | NameReserved

definition hedge_strategy :: string where
  "hedge_strategy = ''SYSTEM_BNB_RESERVE''"

definition validate_runtime_strategy_name :: "string \<Rightarrow> name_error + unit" where
  "validate_runtime_strategy_name name =
     (let valid_len = (name \<noteq> [] \<and> length name \<le> 256);
          valid_first = (case name of [] \<Rightarrow> False | c # _ \<Rightarrow> is_alnum c);
          valid_rest = (case name of [] \<Rightarrow> True | _ # cs \<Rightarrow> list_all strategy_char cs)
      in if \<not> valid_len \<or> \<not> valid_first \<or> \<not> valid_rest then Inl NameFormat
         else if name \<in> {''strategy_names'', ''removed_strategy_names'', ''SYSTEM_POSITION_CLOSE''}
         then Inl NameReserved
         else Inr ())"

definition validate_strategy_name :: "string \<Rightarrow> name_error + unit" where
  "validate_strategy_name name =
     (if name = hedge_strategy then Inl NameHedgeReserved else validate_runtime_strategy_name name)"

text \<open>
  A name the configuration admits is a name the ledger attributes. The fills of a strategy
  whose name passes the check are booked under exactly that name, whether it executes in batches
  or by chasing, and the name is none of the reserved buckets (initial position, unallocated,
  unattributed, reserve hedge).
\<close>

theorem admitted_names_attributed:
  assumes "validate_strategy_name name = Inr ()"
  shows "strategy_from_from_key (batch_exec_from_key_prefix @ name) = name
    \<and> strategy_from_from_key (chase_exec_from_key_prefix @ name) = name
    \<and> name \<notin> {initial_position_strategy, unallocated_strategy, unattributed_strategy, hedge_strategy}"
proof -
  have v: "name \<noteq> []" "length name \<le> 256" "is_alnum (hd name)" "list_all strategy_char (tl name)" "name \<noteq> hedge_strategy"
    using assms by (cases name; simp add: validate_strategy_name_def validate_runtime_strategy_name_def split: if_splits)+
  then have "list_all strategy_char name" by (cases name) (auto simp: strategy_char_def)
  moreover have "strip_prefix batch_exec_from_key_prefix (chase_exec_from_key_prefix @ name) = None"
    by (simp add: strip_prefix_def batch_exec_from_key_prefix_def chase_exec_from_key_prefix_def)
  moreover have "hd name \<noteq> CHR ''_''" using v(3) by (auto simp: is_alnum_def is_digit_def is_upper_def is_lower_def byte_of_def)
  ultimately show ?thesis
    using v by (auto simp: strategy_from_from_key_def or_else_def strip_prefix_def
        initial_position_strategy_def unallocated_strategy_def unattributed_strategy_def)
qed

theorem admitted_names_attributed_witness:
  "strategy_from_from_key (batch_exec_from_key_prefix @ ''grid.btc-1'') = ''grid.btc-1''"
  using admitted_names_attributed [of "''grid.btc-1''"]
  by (simp add: validate_strategy_name_def validate_runtime_strategy_name_def hedge_strategy_def
      strategy_char_def is_alnum_def is_digit_def is_upper_def is_lower_def byte_of_def)

text \<open>
  The owner of system closes is reserved by the configuration in upper case only, while the
  ledger recognises it in any case: a strategy may be admitted under the name whose fills the
  ledger takes for system closes.
\<close>

lemma system_close_name_admitted:
  "validate_strategy_name ''system_position_close'' = Inr () \<and> is_system_position_close ''system_position_close''"
  by (simp add: validate_strategy_name_def validate_runtime_strategy_name_def hedge_strategy_def
      strategy_char_def is_alnum_def is_digit_def is_upper_def is_lower_def byte_of_def is_system_position_close_def)

subsection \<open>Snapshots\<close>

record snapshot_position =
  sp_symbol :: string
  sp_venue_code :: i16
  sp_quantity :: f64
  sp_reference_price :: "f64 option"

record position_snapshot =
  ps_source_id :: string
  ps_snapshot_ts_us :: i64
  ps_positions :: "snapshot_position list"

record strategy_snapshot_position =
  tp_strategy_name :: string
  tp_symbol :: string
  tp_venue_code :: i16
  tp_quantity :: f64
  tp_reference_price :: f64

record strategy_position_snapshot =
  ts_source_id :: string
  ts_snapshot_ts_us :: i64
  ts_positions :: "strategy_snapshot_position list"

definition same_mark :: "f64 \<Rightarrow> f64 \<Rightarrow> bool" where
  "same_mark left right \<longleftrightarrow> \<bar>left - right\<bar> \<le> f_max (f_max \<bar>left\<bar> \<bar>right\<bar>) 1 * f_lit (1 / 10 ^ 10)"

definition validate_position :: "string \<Rightarrow> i16 \<Rightarrow> f64 \<Rightarrow> f64 option \<Rightarrow> nav_error + unit" where
  "validate_position symbol venue_code quantity reference_price =
     (if trim symbol = [] \<or> symbol \<noteq> trim symbol then Inl (SnapshotInvalid ''symbol'')
      else if \<not> (0 \<le> venue_code \<and> venue_code \<le> 255) then Inl (SnapshotInvalid ''venue_code'')
      else if \<not> is_fin quantity \<or> feq quantity 0 then Inl (SnapshotInvalid ''quantity'')
      else if (case reference_price of None \<Rightarrow> False | Some price \<Rightarrow> \<not> is_fin price \<or> price \<le> 0)
      then Inl (SnapshotInvalid ''reference_price'')
      else Inr ())"

definition snapshot_check :: "(string \<times> i16) list \<Rightarrow> snapshot_position \<Rightarrow> nav_error + (string \<times> i16) list" where
  "snapshot_check keys p =
     rbind (validate_position (sp_symbol p) (sp_venue_code p) (sp_quantity p) (sp_reference_price p)) (\<lambda>_.
     let key = (sp_symbol p, sp_venue_code p)
     in if key \<in> set keys then Inl (SnapshotInvalid ''duplicate'') else Inr (key # keys))"

definition snapshot_validate :: "position_snapshot \<Rightarrow> nav_error + unit" where
  "snapshot_validate s =
     (if trim (ps_source_id s) = [] then Inl (SnapshotInvalid ''source_id'')
      else if ps_snapshot_ts_us s \<le> 0 then Inl (SnapshotInvalid ''timestamp'')
      else rmap (\<lambda>_. ()) (rfold snapshot_check [] (ps_positions s)))"

definition validate_owner :: "string \<Rightarrow> nav_error + unit" where
  "validate_owner name =
     (if name = ''__unallocated__'' then Inr ()
      else rmap_err (\<lambda>_. SnapshotInvalid ''strategy_name'') (validate_strategy_name name))"

type_synonym snapshot_seen = "(string \<times> string \<times> i16) list \<times> (string \<times> i16, f64) bmap"

definition strategy_snapshot_check ::
    "snapshot_seen \<Rightarrow> strategy_snapshot_position \<Rightarrow> nav_error + snapshot_seen" where
  "strategy_snapshot_check seen p =
     (case seen of (keys, marks) \<Rightarrow>
        rbind (validate_owner (tp_strategy_name p)) (\<lambda>_.
        rbind (validate_position (tp_symbol p) (tp_venue_code p) (tp_quantity p) (Some (tp_reference_price p))) (\<lambda>_.
        let owner = (tp_strategy_name p, tp_symbol p, tp_venue_code p);
            key = (tp_symbol p, tp_venue_code p)
        in if owner \<in> set keys then Inl (SnapshotInvalid ''duplicate'')
           else if (case bm_get marks key of None \<Rightarrow> False | Some mark \<Rightarrow> \<not> same_mark mark (tp_reference_price p))
           then Inl (SnapshotInvalid ''shared reference price'')
           else Inr (owner # keys, bm_insert key (tp_reference_price p) marks))))"

definition strategy_snapshot_validate :: "strategy_position_snapshot \<Rightarrow> nav_error + unit" where
  "strategy_snapshot_validate s =
     (if trim (ts_source_id s) = [] then Inl (SnapshotInvalid ''source_id'')
      else if ts_snapshot_ts_us s \<le> 0 then Inl (SnapshotInvalid ''timestamp'')
      else if ts_positions s = [] then Inl (SnapshotInvalid ''empty'')
      else rmap (\<lambda>_. ()) (rfold strategy_snapshot_check ([], []) (ts_positions s)))"

definition position_dust :: f64 where
  "position_dust = f_lit (1 / 10 ^ 12)"

definition account_position :: "(string \<times> i16) \<times> (f64 \<times> f64) \<Rightarrow> snapshot_position option" where
  "account_position kv =
     (case kv of ((symbol, venue_code), (quantity, reference_price)) \<Rightarrow>
        if position_dust < \<bar>quantity\<bar>
        then Some \<lparr>sp_symbol = symbol, sp_venue_code = venue_code, sp_quantity = quantity,
                   sp_reference_price = Some reference_price\<rparr>
        else None)"

definition account_snapshot :: "strategy_position_snapshot \<Rightarrow> nav_error + position_snapshot" where
  "account_snapshot s =
     rbind (strategy_snapshot_validate s) (\<lambda>_.
     let positions = foldl (\<lambda>m p. bm_upsert (tp_symbol p, tp_venue_code p) (0, tp_reference_price p)
                               (\<lambda>(q, r). (q + tp_quantity p, r)) m) [] (ts_positions s);
         snapshot = \<lparr>ps_source_id = ts_source_id s, ps_snapshot_ts_us = ts_snapshot_ts_us s,
                     ps_positions = List.map_filter account_position positions\<rparr>
     in rbind (snapshot_validate snapshot) (\<lambda>_. Inr snapshot))"

subsection \<open>What a valid snapshot is\<close>

lemma validate_position_iff:
  "validate_position s c q r = Inr () \<longleftrightarrow>
     trim s \<noteq> [] \<and> s = trim s \<and> 0 \<le> c \<and> c \<le> 255 \<and> is_fin q \<and> \<not> feq q 0
     \<and> (case r of None \<Rightarrow> True | Some p \<Rightarrow> is_fin p \<and> 0 < p)"
  unfolding validate_position_def
  by (auto simp flip: f64_fin_not_le_0 split: option.splits)

definition position_ok :: "snapshot_position \<Rightarrow> bool" where
  "position_ok p \<longleftrightarrow> validate_position (sp_symbol p) (sp_venue_code p) (sp_quantity p) (sp_reference_price p) = Inr ()"

lemma snapshot_check_fold:
  "(\<exists>keys'. rfold snapshot_check keys ps = Inr keys') \<longleftrightarrow>
     list_all position_ok ps \<and> distinct (map (\<lambda>p. (sp_symbol p, sp_venue_code p)) ps)
     \<and> set (map (\<lambda>p. (sp_symbol p, sp_venue_code p)) ps) \<inter> set keys = {}"
proof (induction ps arbitrary: keys)
  case Nil
  then show ?case by simp
next
  case (Cons p ps)
  show ?case
  proof (cases "position_ok p \<and> (sp_symbol p, sp_venue_code p) \<notin> set keys")
    case True
    then have "snapshot_check keys p = Inr ((sp_symbol p, sp_venue_code p) # keys)"
      by (simp add: snapshot_check_def position_ok_def)
    then show ?thesis using Cons.IH [of "(sp_symbol p, sp_venue_code p) # keys"] True by auto
  next
    case False
    then have "\<exists>e. snapshot_check keys p = Inl e"
      by (auto simp: snapshot_check_def position_ok_def rbind_def split: sum.splits)
    then show ?thesis using False by auto
  qed
qed

lemma snapshot_validate_iff:
  "snapshot_validate s = Inr () \<longleftrightarrow>
     trim (ps_source_id s) \<noteq> [] \<and> 0 < ps_snapshot_ts_us s \<and> list_all position_ok (ps_positions s)
     \<and> distinct (map (\<lambda>p. (sp_symbol p, sp_venue_code p)) (ps_positions s))"
  using snapshot_check_fold [of "[]" "ps_positions s"]
  by (auto simp: snapshot_validate_def rmap_Inr_iff)

subsection \<open>The account anchor of a strategy snapshot\<close>

definition market :: "strategy_snapshot_position \<Rightarrow> string \<times> i16" where
  "market p = (tp_symbol p, tp_venue_code p)"

definition markets_of :: "strategy_position_snapshot \<Rightarrow> (string \<times> i16) list" where
  "markets_of s = set_of_list (map market (ts_positions s))"

definition net_of :: "strategy_position_snapshot \<Rightarrow> string \<times> i16 \<Rightarrow> f64" where
  "net_of s k = f_sum (map tp_quantity (filter (\<lambda>p. market p = k) (ts_positions s)))"

definition mark_of :: "strategy_position_snapshot \<Rightarrow> string \<times> i16 \<Rightarrow> f64" where
  "mark_of s k = tp_reference_price (hd (filter (\<lambda>p. market p = k) (ts_positions s)))"

definition net_snapshot :: "strategy_position_snapshot \<Rightarrow> position_snapshot" where
  "net_snapshot s =
     \<lparr>ps_source_id = ts_source_id s, ps_snapshot_ts_us = ts_snapshot_ts_us s,
      ps_positions = map (\<lambda>k. \<lparr>sp_symbol = fst k, sp_venue_code = snd k, sp_quantity = net_of s k,
                               sp_reference_price = Some (mark_of s k)\<rparr>)
        (filter (\<lambda>k. position_dust < \<bar>net_of s k\<bar>) (markets_of s))\<rparr>"

lemma strategy_check_positions:
  assumes "rfold strategy_snapshot_check seen ps = Inr seen'" and "p \<in> set ps"
  shows "validate_owner (tp_strategy_name p) = Inr ()"
    and "validate_position (tp_symbol p) (tp_venue_code p) (tp_quantity p) (Some (tp_reference_price p)) = Inr ()"
  using assms
  by (induction ps arbitrary: seen) (auto simp: rbind_Inr_iff strategy_snapshot_check_def split: prod.splits)

lemma net_run_steps:
  "bm.run_steps (\<lambda>p. (0, rf p)) (\<lambda>p (q, r). (q + f p, r)) a ps =
     (case a of
        Some (q, r) \<Rightarrow> Some (foldl (+) q (map f ps), r)
      | None \<Rightarrow> if ps = [] then None else Some (f_sum (map f ps), rf (hd ps)))"
  by (induction ps arbitrary: a) (auto simp: f_sum_def split: option.splits)

lemma account_positions_eq:
  "foldl (\<lambda>m p. bm_upsert (tp_symbol p, tp_venue_code p) (0, tp_reference_price p)
        (\<lambda>(q, r). (q + tp_quantity p, r)) m) [] (ts_positions s)
     = map (\<lambda>k. (k, (net_of s k, mark_of s k))) (markets_of s)"
proof -
  define m where "m = bm.upserts market (\<lambda>p. (0, tp_reference_price p))
      (\<lambda>p (q, r). (q + tp_quantity p, r)) [] (ts_positions s)"
  have "bm_get m k = (if k \<in> set (markets_of s) then Some (net_of s k, mark_of s k) else None)" for k
    unfolding m_def bm.get_upserts net_run_steps net_of_def mark_of_def markets_of_def
    by (auto simp: filter_empty_conv)
  then have "m = map (\<lambda>k. (k, (net_of s k, mark_of s k))) (markets_of s)"
    by (intro map_keys_eqI) (simp_all add: m_def markets_of_def bm.wf_upserts set_of_list_sorted)
  then show ?thesis
    unfolding m_def by (simp only: market_def flip: bm_upserts_foldl)
qed

lemma sum_finite_not_NaN:
  assumes "list_all is_fin qs"
  shows "f_sum qs \<noteq> NaN"
proof -
  have "a + q \<noteq> NaN" if "a \<noteq> NaN" "is_fin q" for a q
    using that by (cases a; cases q) (auto simp: f64_ops rnd_def Let_def)
  then have "foldl (+) a qs \<noteq> NaN" if "a \<noteq> NaN" for a
    using assms that by (induction qs arbitrary: a) auto
  then show ?thesis by (simp add: f_sum_def f64_ops)
qed

lemma f_lit_small:
  assumes "0 \<le> x" and "x \<le> 1"
  shows "is_fin (f_lit x)"
  using rnd_le_repr [OF assms] is_repr_grid [of 1 0] by (auto simp: f_lit_def)

lemma account_dust: "\<exists>d. position_dust = Fin d \<and> 0 < d"
  using f_lit_pos [of 40 "1 / 10 ^ 12"] f_lit_small [of "1 / 10 ^ 12"]
  by (auto simp: is_fin_iff position_dust_def)

lemma dust_less_infinite [simp]: "position_dust < \<bar>PosInf\<bar>" "position_dust < \<bar>NegInf\<bar>"
proof -
  obtain d where d: "position_dust = Fin d" using account_dust by blast
  show "position_dust < \<bar>PosInf\<bar>" "position_dust < \<bar>NegInf\<bar>" unfolding d by (simp_all add: f64_ops)
qed

lemma dust_less_nonzero: "position_dust < \<bar>q\<bar> \<Longrightarrow> \<not> feq q 0"
proof -
  obtain d where d: "position_dust = Fin d" "0 < d" using account_dust by blast
  show "position_dust < \<bar>q\<bar> \<Longrightarrow> \<not> feq q 0" unfolding d(1) using d(2) by (cases q) (auto simp: f64_ops)
qed

lemma net_snapshot_valid:
  assumes valid: "strategy_snapshot_validate s = Inr ()"
  shows "snapshot_validate (net_snapshot s) = Inr () \<longleftrightarrow> list_all (\<lambda>k. is_fin (net_of s k)) (markets_of s)"
proof -
  obtain seen where seen: "rfold strategy_snapshot_check ([], []) (ts_positions s) = Inr seen"
    and head: "trim (ts_source_id s) \<noteq> []" "0 < ts_snapshot_ts_us s"
    using valid by (auto simp: strategy_snapshot_validate_def rmap_Inr_iff split: if_splits)
  have mem: "hd (filter (\<lambda>p. market p = k) (ts_positions s)) \<in> set (ts_positions s)
      \<and> market (hd (filter (\<lambda>p. market p = k) (ts_positions s))) = k" if "k \<in> set (markets_of s)" for k
  proof -
    have "filter (\<lambda>p. market p = k) (ts_positions s) \<noteq> []"
      using that by (auto simp: markets_of_def filter_empty_conv)
    from hd_in_set [OF this] show ?thesis by simp
  qed
  have ok: "validate_position (fst k) (snd k) q (Some (mark_of s k)) = Inr () \<longleftrightarrow> is_fin q \<and> \<not> feq q 0"
    if "k \<in> set (markets_of s)" for k q
  proof -
    define p where "p = hd (filter (\<lambda>p. market p = k) (ts_positions s))"
    have "p \<in> set (ts_positions s)" "k = (tp_symbol p, tp_venue_code p)" "mark_of s k = tp_reference_price p"
      using mem [OF that] by (auto simp: p_def mark_of_def market_def)
    then show ?thesis
      using strategy_check_positions(2) [OF seen, of p]
      by (cases "tp_symbol p = []") (auto simp: validate_position_iff)
  qed
  have nan: "net_of s k \<noteq> NaN" for k
    unfolding net_of_def using strategy_check_positions(2) [OF seen]
    by (intro sum_finite_not_NaN) (auto simp: list_all_iff validate_position_iff)
  have big: "position_dust < \<bar>net_of s k\<bar>" if "\<not> is_fin (net_of s k)" for k
    using that nan [of k] by (cases "net_of s k") simp_all
  have distinct: "distinct (map (\<lambda>p. (sp_symbol p, sp_venue_code p)) (ps_positions (net_snapshot s)))"
    using set_of_list_sorted [of "map market (ts_positions s)"]
    by (simp add: net_snapshot_def comp_def markets_of_def strict_sorted_iff)
  have "list_all position_ok (ps_positions (net_snapshot s)) \<longleftrightarrow>
      (\<forall>k \<in> set (markets_of s). position_dust < \<bar>net_of s k\<bar> \<longrightarrow>
        validate_position (fst k) (snd k) (net_of s k) (Some (mark_of s k)) = Inr ())"
    unfolding net_snapshot_def list_all_iff position_ok_def by auto
  also have "\<dots> \<longleftrightarrow> (\<forall>k \<in> set (markets_of s). position_dust < \<bar>net_of s k\<bar> \<longrightarrow> is_fin (net_of s k))"
    using ok dust_less_nonzero by (intro ball_cong refl) blast
  also have "\<dots> \<longleftrightarrow> list_all (\<lambda>k. is_fin (net_of s k)) (markets_of s)"
    unfolding list_all_iff using big by (intro ball_cong refl) blast
  finally have "list_all position_ok (ps_positions (net_snapshot s)) \<longleftrightarrow> list_all (\<lambda>k. is_fin (net_of s k)) (markets_of s)" .
  then show ?thesis
    using head distinct by (simp add: snapshot_validate_iff) (simp add: net_snapshot_def)
qed

text \<open>
  The account anchor implied by a strategy snapshot nets its strategies per market. It exists
  exactly when the strategy snapshot is valid and no market's sum overflows; it then lists each
  market whose summed quantity is above the dust of \<open>1e-12\<close>, in market order and once, with that
  sum (taken in snapshot order) and the shared mark of the market, and it passes the account
  snapshot's own validation. Offsetting strategies disappear.
\<close>

theorem account_snapshot_nets:
  "account_snapshot s = Inr a \<longleftrightarrow>
     strategy_snapshot_validate s = Inr () \<and> list_all (\<lambda>k. is_fin (net_of s k)) (markets_of s)
     \<and> a = net_snapshot s \<and> snapshot_validate a = Inr ()"
proof -
  have "List.map_filter account_position (map (\<lambda>k. (k, (net_of s k, mark_of s k))) ks)
      = map (\<lambda>k. \<lparr>sp_symbol = fst k, sp_venue_code = snd k, sp_quantity = net_of s k,
                  sp_reference_price = Some (mark_of s k)\<rparr>)
          (filter (\<lambda>k. position_dust < \<bar>net_of s k\<bar>) ks)" for ks
    by (induction ks) (auto simp: account_position_def)
  then have "account_snapshot s = rbind (strategy_snapshot_validate s) (\<lambda>_.
      rbind (snapshot_validate (net_snapshot s)) (\<lambda>_. Inr (net_snapshot s)))"
    unfolding account_snapshot_def account_positions_eq by (simp add: net_snapshot_def Let_def)
  then show ?thesis
    using net_snapshot_valid [of s] by (auto simp: rbind_Inr_iff)
qed

end
