(* ===== verification/Allocation.thy ===== *)
theory Allocation
  imports Snapshot
begin

text \<open>
  Audited ownership corrections (\<open>nav/allocation.rs\<close>): the snapshot of transfers between strategy
  ledgers, its validation (a transfer conserves the account quantity of every market), and the
  resolution of append-only amendments. The SHA-256 fingerprint of a position list is a
  parameter \<open>fp\<close>; nothing is assumed of it. Applying a correction to the ledgers is in Timeline.
\<close>

record allocation_quantity_row =
  aq_strategy :: string
  aq_symbol :: string
  aq_venue_code :: i16
  aq_quantity :: f64

record allocation_restatement =
  rs_snapshot_ts_us :: i64
  rs_original_positions_sha256 :: string
  rs_before :: "allocation_quantity_row list"

record allocation_position =
  al_strategy :: string
  al_symbol :: string
  al_venue_code :: i16
  al_before_qty :: f64
  al_after_qty :: f64
  al_reference_price :: f64

record allocation_snapshot =
  as_source_id :: string
  as_snapshot_ts_us :: i64
  as_positions :: "allocation_position list"
  as_restatements :: "allocation_restatement list"

type_synonym owner_key = "string \<times> string \<times> i16"
type_synonym fingerprint = "allocation_position list \<Rightarrow> nav_error + string"

definition al_owner :: "allocation_position \<Rightarrow> owner_key" where
  "al_owner p = (al_strategy p, al_symbol p, al_venue_code p)"

definition al_market :: "allocation_position \<Rightarrow> string \<times> i16" where
  "al_market p = (al_symbol p, al_venue_code p)"

definition uses_residual :: "allocation_snapshot \<Rightarrow> bool" where
  "uses_residual a \<longleftrightarrow> list_ex (\<lambda>p. al_strategy p = unallocated_strategy) (as_positions a)"

subsection \<open>Validation\<close>

definition restatement_check :: "i64 \<Rightarrow> allocation_restatement \<Rightarrow> nav_error + unit" where
  "restatement_check ts r =
     rbind (rensure (ts < rs_snapshot_ts_us r) (AllocationInvalid ''only a later allocation can be restated'')) (\<lambda>_.
     rbind (rensure (length (rs_original_positions_sha256 r) = 64 \<and> list_all is_hex (rs_original_positions_sha256 r))
              (AllocationInvalid ''restatement fingerprint'')) (\<lambda>_.
     rensure (rs_before r \<noteq> [] \<and> list_all (\<lambda>q. is_fin (aq_quantity q)) (rs_before r))
       (AllocationInvalid ''restatement quantities'')))"

definition allocation_position_check :: "allocation_position \<Rightarrow> nav_error + unit" where
  "allocation_position_check p =
     rbind (rensure (al_venue_code p \<in> {0, 1}) (AllocationInvalid ''venue'')) (\<lambda>_.
     rbind (rensure (al_symbol p \<noteq> [] \<and> trim (al_symbol p) = al_symbol p) (AllocationInvalid ''symbol'')) (\<lambda>_.
     rbind (rensure (strategy_from_from_key (batch_exec_from_key_prefix @ al_strategy p) = al_strategy p)
              (AllocationInvalid ''strategy'')) (\<lambda>_.
     rensure (is_fin (al_before_qty p) \<and> is_fin (al_after_qty p) \<and> is_fin (al_reference_price p)
              \<and> 0 < al_reference_price p) (AllocationInvalid ''quantity or price''))))"

type_synonym market_deltas = "(string \<times> i16, f64 \<times> f64) bmap"

definition allocation_check ::
    "owner_key list \<times> market_deltas \<Rightarrow> allocation_position \<Rightarrow> nav_error + owner_key list \<times> market_deltas" where
  "allocation_check st p =
     (case st of (keys, markets) \<Rightarrow>
        rbind (allocation_position_check p) (\<lambda>_.
        rbind (rensure (al_owner p \<notin> set keys) (AllocationInvalid ''duplicate position'')) (\<lambda>_.
        let market = (case bm_get markets (al_market p) of None \<Rightarrow> (0, al_reference_price p) | Some m \<Rightarrow> m)
        in rbind (rensure (\<bar>snd market - al_reference_price p\<bar> \<le> snd market * f_lit (1 / 10 ^ 12))
                    (AllocationInvalid ''shared reference price'')) (\<lambda>_.
           Inr (al_owner p # keys,
                bm_insert (al_market p) (fst market + (al_after_qty p - al_before_qty p), snd market) markets)))))"

definition conserved :: "(string \<times> i16) \<times> (f64 \<times> f64) \<Rightarrow> bool" where
  "conserved kv \<longleftrightarrow> (case kv of (k, (delta, price)) \<Rightarrow> \<bar>delta * price\<bar> < f_lit (1 / 10 ^ 6))"

definition allocation_validate :: "allocation_snapshot \<Rightarrow> nav_error + unit" where
  "allocation_validate a =
     rbind (rensure (trim (as_source_id a) \<noteq> [] \<and> 0 < as_snapshot_ts_us a)
              (AllocationInvalid ''source and timestamp'')) (\<lambda>_.
     rbind (rensure (as_positions a \<noteq> []) (AllocationInvalid ''empty'')) (\<lambda>_.
     rbind (rfold (\<lambda>_ r. restatement_check (as_snapshot_ts_us a) r) () (as_restatements a)) (\<lambda>_.
     rbind (rfold allocation_check ([], []) (as_positions a)) (\<lambda>(_, markets).
     rfold (\<lambda>_ kv. rensure (conserved kv) (AllocationInvalid ''changes account quantity'')) () markets))))"

subsection \<open>Amendments\<close>

definition index_snapshot ::
    "(string \<times> i64, nat) bmap \<Rightarrow> nat \<times> allocation_snapshot \<Rightarrow> nav_error + (string \<times> i64, nat) bmap" where
  "index_snapshot indexes ia =
     (case ia of (index, a) \<Rightarrow>
        rbind (allocation_validate a) (\<lambda>_.
        rbind (rensure (\<not> bm_contains indexes (as_source_id a, as_snapshot_ts_us a))
                 (AllocationInvalid ''duplicate timestamp'')) (\<lambda>_.
        Inr (bm_insert (as_source_id a, as_snapshot_ts_us a) index indexes))))"

definition restate_position :: "(owner_key, f64) bmap \<Rightarrow> allocation_position \<Rightarrow> nav_error + allocation_position" where
  "restate_position before p =
     rbind (of_option (AllocationInvalid ''restatement position mismatch'') (bm_get before (al_owner p))) (\<lambda>q.
     Inr (p\<lparr>al_before_qty := q\<rparr>))"

definition restate_step ::
    "fingerprint \<Rightarrow> allocation_snapshot list \<Rightarrow> (string \<times> i64, nat) bmap
      \<Rightarrow> allocation_snapshot list \<times> (string \<times> i64) list \<Rightarrow> allocation_snapshot \<times> allocation_restatement
      \<Rightarrow> nav_error + allocation_snapshot list \<times> (string \<times> i64) list" where
  "restate_step fp snapshots indexes st sr =
     (case st of (result, amended) \<Rightarrow> case sr of (snapshot, revision) \<Rightarrow>
        let key = (as_source_id snapshot, rs_snapshot_ts_us revision)
        in rbind (of_option (AllocationInvalid ''restated allocation is missing'') (bm_get indexes key)) (\<lambda>index.
           rbind (rensure (uses_residual snapshot = uses_residual (snapshots ! index))
                    (AllocationInvalid ''restatement scope'')) (\<lambda>_.
           rbind (rensure (key \<notin> set amended) (AllocationInvalid ''restated twice'')) (\<lambda>_.
           rbind (fp (as_positions (snapshots ! index))) (\<lambda>print.
           rbind (rensure (print = rs_original_positions_sha256 revision)
                    (AllocationInvalid ''original fingerprint changed'')) (\<lambda>_.
           let before = bm_extend [] (map (\<lambda>q. ((aq_strategy q, aq_symbol q, aq_venue_code q), aq_quantity q))
                                           (rs_before revision))
           in rbind (rensure (length before = length (rs_before revision)
                              \<and> length before = length (as_positions (result ! index)))
                       (AllocationInvalid ''restatement must name every position once'')) (\<lambda>_.
              rbind (rmapM (restate_position before) (as_positions (result ! index))) (\<lambda>positions.
              let amended_snapshot = (result ! index)\<lparr>as_positions := positions\<rparr>
              in rbind (allocation_validate amended_snapshot) (\<lambda>_.
                 Inr (result[index := amended_snapshot], key # amended))))))))))"

definition allocation_resolve :: "fingerprint \<Rightarrow> allocation_snapshot list \<Rightarrow> nav_error + allocation_snapshot list" where
  "allocation_resolve fp snapshots =
     rbind (rfold index_snapshot [] (enumerate 0 snapshots)) (\<lambda>indexes.
     rmap fst (rfold (restate_step fp snapshots indexes) (snapshots, [])
       (concat (map (\<lambda>s. map (Pair s) (as_restatements s)) snapshots))))"

subsection \<open>A valid correction conserves every market\<close>

definition delta_of :: "allocation_snapshot \<Rightarrow> string \<times> i16 \<Rightarrow> f64" where
  "delta_of a k = f_sum (map (\<lambda>p. al_after_qty p - al_before_qty p) (filter (\<lambda>p. al_market p = k) (as_positions a)))"

definition al_mark_of :: "allocation_snapshot \<Rightarrow> string \<times> i16 \<Rightarrow> f64" where
  "al_mark_of a k = al_reference_price (hd (filter (\<lambda>p. al_market p = k) (as_positions a)))"

lemma allocation_check_Inr:
  assumes "allocation_check (keys, markets) p = Inr (keys', markets')"
  shows "allocation_position_check p = Inr () \<and> al_owner p \<notin> set keys \<and> keys' = al_owner p # keys
    \<and> markets' = bm_upsert (al_market p) (0, al_reference_price p)
        (\<lambda>(q, r). (q + (al_after_qty p - al_before_qty p), r)) markets"
  using assms unfolding allocation_check_def Let_def prod.case
  by (clarsimp simp: rbind_Inr_iff rensure_Inr_iff bm_upsert_def split_beta)

lemma allocation_check_fold:
  assumes "rfold allocation_check (keys, markets) ps = Inr (keys', markets')"
  shows "list_all (\<lambda>p. allocation_position_check p = Inr ()) ps \<and> distinct (map al_owner ps)
    \<and> al_owner ` set ps \<inter> set keys = {}
    \<and> markets' = bm.upserts al_market (\<lambda>p. (0, al_reference_price p))
        (\<lambda>p (q, r). (q + (al_after_qty p - al_before_qty p), r)) markets ps"
  using assms
proof (induction ps arbitrary: keys markets)
  case Nil
  then show ?case by simp
next
  case (Cons p ps)
  obtain k1 m1 where c: "allocation_check (keys, markets) p = Inr (k1, m1)"
    and r: "rfold allocation_check (k1, m1) ps = Inr (keys', markets')"
    using Cons.prems by (auto simp: rbind_Inr_iff)
  show ?case using allocation_check_Inr [OF c] Cons.IH [OF r] by (auto simp: bm_upsert_def)
qed

lemma rfold_rensure_iff:
  "rfold (\<lambda>_ x. rensure (P x) (e x)) () xs = Inr () \<longleftrightarrow> list_all P xs"
  by (induction xs) (auto simp: rbind_Inr_iff rensure_Inr_iff)

text \<open>
  C30: A correction that validates moves ownership and creates none. Each owner of a market appears
  once, under a strategy name the ledger attributes to itself; the quantities and marks are finite
  and the marks positive; and the value of the summed quantity changes of each market, at the mark
  of its first leg, is below one millionth of a quote unit.
\<close>

theorem allocation_conserves:
  assumes "allocation_validate a = Inr ()"
  shows "as_positions a \<noteq> [] \<and> distinct (map al_owner (as_positions a))
    \<and> (\<forall>p \<in> set (as_positions a).
         strategy_from_from_key (batch_exec_from_key_prefix @ al_strategy p) = al_strategy p
         \<and> is_fin (al_before_qty p) \<and> is_fin (al_after_qty p) \<and> is_fin (al_reference_price p) \<and> 0 < al_reference_price p
         \<and> \<bar>delta_of a (al_market p) * al_mark_of a (al_market p)\<bar> < f_lit (1 / 10 ^ 6))"
proof -
  obtain keys markets where f: "rfold allocation_check ([], []) (as_positions a) = Inr (keys, markets)"
    and c: "list_all conserved markets" and ne: "as_positions a \<noteq> []"
    using assms by (auto simp: allocation_validate_def rbind_Inr_iff rensure_Inr_iff rfold_rensure_iff split: prod.splits)
  note F = allocation_check_fold [OF f]
  have "\<bar>delta_of a (al_market p) * al_mark_of a (al_market p)\<bar> < f_lit (1 / 10 ^ 6)" if "p \<in> set (as_positions a)" for p
  proof -
    have "bm_get markets (al_market p) = Some (delta_of a (al_market p), al_mark_of a (al_market p))"
      using F that by (auto simp: bm.get_upserts net_run_steps delta_of_def al_mark_of_def filter_empty_conv)
    from bm_get_SomeD [OF this] show ?thesis using c by (auto simp: list_all_iff conserved_def)
  qed
  then show ?thesis
    using F ne unfolding list_all_iff allocation_position_check_def
    by (auto simp: rbind_Inr_iff rensure_Inr_iff)
qed

definition sample_leg :: "string \<Rightarrow> f64 \<Rightarrow> f64 \<Rightarrow> allocation_position" where
  "sample_leg owner before after =
     \<lparr>al_strategy = owner, al_symbol = ''BTCUSDT'', al_venue_code = 1, al_before_qty = before,
      al_after_qty = after, al_reference_price = 1\<rparr>"

definition sample_allocation :: allocation_snapshot where
  "sample_allocation =
     \<lparr>as_source_id = ''alpha'', as_snapshot_ts_us = 5,
      as_positions = [sample_leg ''grid'' 1 0, sample_leg ''trend'' 0 1], as_restatements = []\<rparr>"

lemma unit_transfer: "0 + (0 - 1) + (1 - 0) = (0 :: f64)" "1 - 1 = (0 :: f64)" "0 * x = (if is_fin x then 0 else NaN)"
  using is_repr_grid [of 1 0] by (cases x; simp add: f64_ops rnd_def [of 0] f_inf_def)+

lemma f64_unit_mult: "f_ok x \<Longrightarrow> 1 * x = x"
  by (cases x) (simp_all add: f64_ops f_inf_def)

lemma plain_text:
  "trim ''alpha'' = ''alpha''" "trim ''BTCUSDT'' = ''BTCUSDT''"
  by code_simp+

lemma plain_owner:
  "strategy_from_from_key (batch_exec_from_key_prefix @ ''grid'') = ''grid''"
  "strategy_from_from_key (batch_exec_from_key_prefix @ ''trend'') = ''trend''"
  by code_simp+

lemma sample_leg_ok:
  assumes "s \<in> {''grid'', ''trend''}" and "is_fin b" and "is_fin a"
  shows "allocation_position_check (sample_leg s b a) = Inr ()"
proof -
  have "strategy_from_from_key (batch_exec_from_key_prefix @ s) = s" using assms(1) plain_owner by blast
  then show ?thesis using assms(2,3) by (simp add: allocation_position_check_def sample_leg_def plain_text)
qed

lemma sample_legs_fold:
  "rfold allocation_check ([], []) (as_positions sample_allocation) =
     Inr ([(''trend'', ''BTCUSDT'', 1), (''grid'', ''BTCUSDT'', 1)], [((''BTCUSDT'', 1), (0, 1))])"
proof -
  have "0 < f_lit (1 / 10 ^ 12)" by (rule f_lit_pos [of 40]) simp_all
  then have dust: "\<bar>1 - 1 :: f64\<bar> \<le> 1 * f_lit (1 / 10 ^ 12)"
    using f64_unit_mult [OF f_ok_lit, of "1 / 10 ^ 12"] by (simp add: unit_transfer) (simp add: f64_ops)
  have 1: "allocation_check ([], []) (sample_leg ''grid'' 1 0) =
      Inr ([(''grid'', ''BTCUSDT'', 1)], [((''BTCUSDT'', 1), (0 + (0 - 1), 1))])"
    unfolding allocation_check_def prod.case using dust
    by (simp add: sample_leg_ok) (simp add: sample_leg_def al_owner_def al_market_def)
  have 2: "allocation_check ([(''grid'', ''BTCUSDT'', 1)], [((''BTCUSDT'', 1), (0 + (0 - 1), 1))]) (sample_leg ''trend'' 0 1) =
      Inr ([(''trend'', ''BTCUSDT'', 1), (''grid'', ''BTCUSDT'', 1)], [((''BTCUSDT'', 1), (0, 1))])"
    unfolding allocation_check_def prod.case using dust
    by (simp add: sample_leg_ok) (simp add: sample_leg_def al_owner_def al_market_def unit_transfer)
  show ?thesis by (simp add: sample_allocation_def 1 2)
qed

lemma sample_allocation_valid: "allocation_validate sample_allocation = Inr ()"
proof -
  have "0 < f_lit (1 / 10 ^ 6)" by (rule f_lit_pos [of 40]) simp_all
  then have "conserved ((''BTCUSDT'', 1), (0, 1))"
    by (simp add: conserved_def unit_transfer) (simp add: f64_ops)
  then show ?thesis
    unfolding allocation_validate_def sample_legs_fold by (simp add: sample_allocation_def plain_text)
qed

theorem allocation_conserves_witness:
  "distinct (map al_owner (as_positions sample_allocation))
   \<and> \<bar>delta_of sample_allocation (''BTCUSDT'', 1) * al_mark_of sample_allocation (''BTCUSDT'', 1)\<bar> < f_lit (1 / 10 ^ 6)"
  using allocation_conserves [OF sample_allocation_valid]
  by (simp add: sample_allocation_def sample_leg_def al_market_def)

subsection \<open>Amendments change audited preconditions only\<close>

definition same_but_before :: "allocation_position \<Rightarrow> allocation_position \<Rightarrow> bool" where
  "same_but_before p q \<longleftrightarrow> q = p\<lparr>al_before_qty := al_before_qty q\<rparr>"

text \<open>\<open>b\<close> is \<open>a\<close> with the before quantities that the restatement \<open>r\<close> of a snapshot of the same source names.\<close>

definition amended_by :: "fingerprint \<Rightarrow> allocation_snapshot list \<Rightarrow> allocation_snapshot \<Rightarrow> allocation_snapshot \<Rightarrow> bool" where
  "amended_by fp snapshots a b \<longleftrightarrow>
     (\<exists>s \<in> set snapshots. \<exists>r \<in> set (as_restatements s).
        as_source_id s = as_source_id a \<and> rs_snapshot_ts_us r = as_snapshot_ts_us a
        \<and> fp (as_positions a) = Inr (rs_original_positions_sha256 r) \<and> uses_residual s = uses_residual a
        \<and> (\<forall>q \<in> set (as_positions b). \<exists>row \<in> set (rs_before r).
             (aq_strategy row, aq_symbol row, aq_venue_code row) = al_owner q \<and> aq_quantity row = al_before_qty q))"

definition resolved_from :: "fingerprint \<Rightarrow> allocation_snapshot list \<Rightarrow> allocation_snapshot \<Rightarrow> allocation_snapshot \<Rightarrow> bool" where
  "resolved_from fp snapshots a b \<longleftrightarrow>
     as_source_id b = as_source_id a \<and> as_snapshot_ts_us b = as_snapshot_ts_us a
     \<and> as_restatements b = as_restatements a \<and> list_all2 same_but_before (as_positions a) (as_positions b)
     \<and> allocation_validate b = Inr () \<and> (b = a \<or> amended_by fp snapshots a b)"

lemma same_but_before_owner: "same_but_before p q \<Longrightarrow> al_owner q = al_owner p"
  unfolding same_but_before_def by (cases p; cases q) (simp add: al_owner_def)

lemma index_snapshot_fold:
  assumes "rfold index_snapshot idx (enumerate n as) = Inr idx'"
  shows "list_all (\<lambda>a. allocation_validate a = Inr ()) as
    \<and> (\<forall>key i. bm_get idx' key = Some i \<longrightarrow> bm_get idx key = Some i
      \<or> (\<exists>j < length as. i = n + j \<and> key = (as_source_id (as ! j), as_snapshot_ts_us (as ! j))))"
  using assms
proof (induction as arbitrary: idx n)
  case Nil
  then show ?case by simp
next
  case (Cons a as)
  define key where "key = (as_source_id a, as_snapshot_ts_us a)"
  have v: "allocation_validate a = Inr ()"
    and r: "rfold index_snapshot (bm_insert key n idx) (enumerate (Suc n) as) = Inr idx'"
    using Cons.prems by (auto simp: rbind_Inr_iff rensure_Inr_iff index_snapshot_def [of idx "(n, a)"] key_def)
  note IH = Cons.IH [OF r]
  have "bm_get idx k = Some i
      \<or> (\<exists>j < length (a # as). i = n + j \<and> k = (as_source_id ((a # as) ! j), as_snapshot_ts_us ((a # as) ! j)))"
    if "bm_get idx' k = Some i" for k i
  proof -
    from that IH consider "bm_get (bm_insert key n idx) k = Some i"
      | j where "j < length as" "i = Suc n + j" "k = (as_source_id (as ! j), as_snapshot_ts_us (as ! j))" by blast
    then show ?thesis
    proof cases
      case 1
      then show ?thesis by (cases "k = key") (auto simp: key_def)
    next
      case 2
      then show ?thesis by (intro disjI2 exI [of _ "Suc j"]) simp
    qed
  qed
  then show ?case using v IH by simp
qed

lemma restate_positions:
  assumes "rmapM (restate_position before) ps = Inr qs"
  shows "list_all2 same_but_before ps qs \<and> (\<forall>q \<in> set qs. bm_get before (al_owner q) = Some (al_before_qty q))"
  using assms
proof (induction ps arbitrary: qs)
  case Nil
  then show ?case by simp
next
  case (Cons p ps)
  obtain v rest where q: "bm_get before (al_owner p) = Some v" "rmapM (restate_position before) ps = Inr rest"
      "qs = p\<lparr>al_before_qty := v\<rparr> # rest"
    using Cons.prems unfolding rmapM.simps rbind_Inr_iff
    by (auto simp: restate_position_def [of _ p] of_option_Inr_iff rbind_Inr_iff)
  show ?case using Cons.IH [OF q(2)] q
    by (auto simp: same_but_before_def al_owner_def)
qed

lemma same_but_before_trans:
  "same_but_before p q \<Longrightarrow> same_but_before q r \<Longrightarrow> same_but_before p r"
  unfolding same_but_before_def by (cases p; cases q; cases r) simp

lemma bm_get_extend_mem:
  "bm_get (bm_extend [] kvs) k = Some v \<Longrightarrow> (k, v) \<in> set kvs"
  by (auto simp: bm_get_extend dest: map_of_SomeD split: option.splits)

lemma restate_step_resolved:
  assumes step: "restate_step fp snapshots indexes (result, amended) (s, r) = Inr (result', amended')"
    and s: "s \<in> set snapshots" "r \<in> set (as_restatements s)"
    and idx: "\<And>key i. bm_get indexes key = Some i \<Longrightarrow>
        i < length snapshots \<and> key = (as_source_id (snapshots ! i), as_snapshot_ts_us (snapshots ! i))"
    and res: "list_all2 (resolved_from fp snapshots) snapshots result"
  shows "list_all2 (resolved_from fp snapshots) snapshots result'"
proof -
  define key where "key = (as_source_id s, rs_snapshot_ts_us r)"
  define before where "before = bm_extend [] (map (\<lambda>q. ((aq_strategy q, aq_symbol q, aq_venue_code q), aq_quantity q))
      (rs_before r))"
  obtain i print positions where i: "bm_get indexes key = Some i"
    and scope: "uses_residual s = uses_residual (snapshots ! i)"
    and print: "fp (as_positions (snapshots ! i)) = Inr print" "print = rs_original_positions_sha256 r"
    and pos: "rmapM (restate_position before) (as_positions (result ! i)) = Inr positions"
    and valid: "allocation_validate ((result ! i)\<lparr>as_positions := positions\<rparr>) = Inr ()"
    and r': "result' = result[i := (result ! i)\<lparr>as_positions := positions\<rparr>]"
    using step unfolding restate_step_def Let_def key_def [symmetric] before_def [symmetric] prod.case
    by (clarsimp simp: rbind_Inr_iff of_option_Inr_iff rensure_Inr_iff)
  have il: "i < length snapshots" and key: "key = (as_source_id (snapshots ! i), as_snapshot_ts_us (snapshots ! i))"
    using idx [OF i] by auto
  have len: "length result = length snapshots" using res by (simp add: list_all2_lengthD)
  have R: "resolved_from fp snapshots (snapshots ! i) (result ! i)"
    using res il by (simp add: list_all2_conv_all_nth)
  note P = restate_positions [OF pos]
  have "list_all2 same_but_before (as_positions (snapshots ! i)) positions"
    using R P unfolding resolved_from_def
    by (auto intro: list_all2_trans [of same_but_before same_but_before same_but_before] same_but_before_trans)
  moreover have "amended_by fp snapshots (snapshots ! i) ((result ! i)\<lparr>as_positions := positions\<rparr>)"
    unfolding amended_by_def
  proof (rule bexI [where x = s], rule bexI [where x = r], intro conjI ballI)
    fix q assume "q \<in> set (as_positions ((result ! i)\<lparr>as_positions := positions\<rparr>))"
    then have "bm_get before (al_owner q) = Some (al_before_qty q)" using P by simp
    from bm_get_extend_mem [OF this [unfolded before_def]]
    show "\<exists>row\<in>set (rs_before r). (aq_strategy row, aq_symbol row, aq_venue_code row) = al_owner q
        \<and> aq_quantity row = al_before_qty q" by auto
  qed (use key print scope s in \<open>simp_all add: key_def\<close>)
  ultimately have "resolved_from fp snapshots (snapshots ! i) ((result ! i)\<lparr>as_positions := positions\<rparr>)"
    using R valid by (simp add: resolved_from_def)
  then show ?thesis
    using res len il by (auto simp: r' list_all2_conv_all_nth nth_list_update)
qed

text \<open>
  C31: Amending the correction history touches audited preconditions only. Whatever the fingerprint
  function, a history that resolves does so one correction at a time: each keeps its source, time,
  owners, markets, target quantities and marks, validates again, and is either unchanged or carries
  exactly the before quantities that a restatement of the same source and scope names, one which
  quoted the fingerprint of the original positions.
\<close>

theorem resolve_amends_preconditions:
  assumes "allocation_resolve fp snapshots = Inr resolved"
  shows "list_all2 (resolved_from fp snapshots) snapshots resolved"
proof -
  obtain indexes amended where ix: "rfold index_snapshot [] (enumerate 0 snapshots) = Inr indexes"
    and rs: "rfold (restate_step fp snapshots indexes) (snapshots, [])
        (concat (map (\<lambda>s. map (Pair s) (as_restatements s)) snapshots)) = Inr (resolved, amended)"
    using assms by (auto simp: allocation_resolve_def rbind_Inr_iff rmap_Inr_iff)
  note I = index_snapshot_fold [OF ix]
  have idx: "i < length snapshots \<and> key = (as_source_id (snapshots ! i), as_snapshot_ts_us (snapshots ! i))"
    if "bm_get indexes key = Some i" for key i
    using conjunct2 [OF I, rule_format, OF that] by auto
  have "list_all2 (resolved_from fp snapshots) snapshots (fst (resolved, amended))"
  proof (rule rfold_invariant [OF rs, where P = "\<lambda>st. list_all2 (resolved_from fp snapshots) snapshots (fst st)"])
    show "list_all2 (resolved_from fp snapshots) snapshots (fst (snapshots, []))"
      using I by (auto simp: list_all2_conv_all_nth resolved_from_def list_all_length same_but_before_def)
  next
    fix st sr st'
    assume sr: "sr \<in> set (concat (map (\<lambda>s. map (Pair s) (as_restatements s)) snapshots))"
      and P: "list_all2 (resolved_from fp snapshots) snapshots (fst st)"
      and step: "restate_step fp snapshots indexes st sr = Inr st'"
    obtain s r where "sr = (s, r)" "s \<in> set snapshots" "r \<in> set (as_restatements s)" using sr by auto
    then show "list_all2 (resolved_from fp snapshots) snapshots (fst st')"
      using restate_step_resolved [of fp snapshots indexes "fst st" "snd st" s r "fst st'" "snd st'", OF _ _ _ idx P] step
      by simp
  qed
  then show ?thesis by simp
qed

text \<open>A history whose first correction restates the second.\<close>

definition sample_restatement :: allocation_restatement where
  "sample_restatement =
     \<lparr>rs_snapshot_ts_us = 5, rs_original_positions_sha256 = replicate 64 CHR ''a'',
      rs_before = [\<lparr>aq_strategy = ''grid'', aq_symbol = ''BTCUSDT'', aq_venue_code = 1, aq_quantity = 1\<rparr>,
                   \<lparr>aq_strategy = ''trend'', aq_symbol = ''BTCUSDT'', aq_venue_code = 1, aq_quantity = 0\<rparr>]\<rparr>"

definition sample_amendment :: allocation_snapshot where
  "sample_amendment = sample_allocation\<lparr>as_snapshot_ts_us := 4, as_restatements := [sample_restatement]\<rparr>"

lemma owner_order: "(''grid'', ''BTCUSDT'', 1 :: int) < (''trend'', ''BTCUSDT'', 1)"
  by code_simp

lemma sample_history_resolves:
  "allocation_resolve (\<lambda>_. Inr (replicate 64 CHR ''a'')) [sample_amendment, sample_allocation] =
     Inr [sample_amendment, sample_allocation]"
proof -
  have hex: "is_hex CHR ''a''" by code_simp
  have "restatement_check 4 sample_restatement = Inr ()"
    by (simp add: restatement_check_def sample_restatement_def hex list_all_iff)
  then have v: "allocation_validate sample_amendment = Inr ()"
    using sample_allocation_valid unfolding allocation_validate_def
    by (simp add: sample_amendment_def) (simp add: sample_allocation_def)
  have "rfold index_snapshot [] (enumerate 0 [sample_amendment, sample_allocation]) =
      Inr [((''alpha'', 4), 0), ((''alpha'', 5), 1)]"
    by (simp add: index_snapshot_def v sample_allocation_valid bm_contains_def)
      (simp add: sample_amendment_def sample_allocation_def)
  moreover have "restate_step (\<lambda>_. Inr (replicate 64 CHR ''a'')) [sample_amendment, sample_allocation]
      [((''alpha'', 4), 0), ((''alpha'', 5), 1)] ([sample_amendment, sample_allocation], [])
      (sample_amendment, sample_restatement) = Inr ([sample_amendment, sample_allocation], [(''alpha'', 5)])"
  proof -
    have b: "bm_extend [] (map (\<lambda>q. ((aq_strategy q, aq_symbol q, aq_venue_code q), aq_quantity q))
        (rs_before sample_restatement)) = [((''grid'', ''BTCUSDT'', 1), 1), ((''trend'', ''BTCUSDT'', 1), 0)]"
      using owner_order by (auto simp: sample_restatement_def bm_extend_def)
    have m: "rmapM (restate_position [((''grid'', ''BTCUSDT'', 1), 1), ((''trend'', ''BTCUSDT'', 1), 0)])
        (as_positions sample_allocation) = Inr (as_positions sample_allocation)"
      by (simp add: restate_position_def sample_allocation_def sample_leg_def al_owner_def)
    have "as_positions sample_amendment = as_positions sample_allocation"
      "as_source_id sample_amendment = ''alpha''" "rs_snapshot_ts_us sample_restatement = 5"
      "rs_original_positions_sha256 sample_restatement = replicate 64 CHR ''a''"
      "length (rs_before sample_restatement) = 2" "length (as_positions sample_allocation) = 2"
      by (simp_all add: sample_amendment_def sample_restatement_def sample_allocation_def)
    then show ?thesis
      unfolding restate_step_def Let_def prod.case b
      by (simp add: m sample_allocation_valid uses_residual_def)
  qed
  ultimately show ?thesis
    by (simp add: allocation_resolve_def rmap_def sample_amendment_def [THEN arg_cong [where f = as_restatements]])
      (simp add: sample_allocation_def)
qed

theorem resolve_amends_preconditions_witness:
  "list_all2 (resolved_from (\<lambda>_. Inr (replicate 64 CHR ''a'')) [sample_amendment, sample_allocation])
     [sample_amendment, sample_allocation] [sample_amendment, sample_allocation]"
  by (rule resolve_amends_preconditions [OF sample_history_resolves])

end
