(* ===== verification/Timeline.thy ===== *)
theory Timeline
  imports Allocation
begin

text \<open>
  The replayed state of one source (\<open>nav.rs\<close>, \<open>nav/allocation.rs\<close>): prepared fills, the preparation
  of a source's events, the account and strategy ledgers with the pending opening snapshot and the
  ownership corrections, the fill handler over all of them, and the cached source with its hourly
  checkpoints: \<open>build\<close>, \<open>replay\<close> and the incremental \<open>refresh\<close>. What they satisfy is proved in
  Checkpoint. An \<open>im::Vector\<close> and an \<open>Arc\<close> are the list and the value.
\<close>

subsection \<open>Prepared fills\<close>

record prepared_fill =
  pf_event :: nav_event
  pf_side :: side
  pf_fill_ts_us :: i64
  pf_liquidity :: liquidity_role
  pf_initial_position_close :: bool

type_synonym market_states = "(string \<times> i16, venue_state) bmap"
type_synonym strategy_states = "(string \<times> string \<times> i16, venue_state) bmap"

definition fill_market :: "prepared_fill \<Rightarrow> string \<times> i16" where
  "fill_market f = (ne_symbol (pf_event f), ne_venue_code (pf_event f))"

definition attribute_initial_position :: "bool \<Rightarrow> market_states \<Rightarrow> prepared_fill \<Rightarrow> prepared_fill" where
  "attribute_initial_position strategy_allocation_active initial_states f =
     f\<lparr>pf_initial_position_close := \<not> strategy_allocation_active \<and> bm_contains initial_states (fill_market f)
         \<and> is_system_position_close (strategy_from_from_key (ne_from_key_text (pf_event f)))\<rparr>"

definition fill_strategy :: "prepared_fill \<Rightarrow> string" where
  "fill_strategy f =
     (if pf_initial_position_close f then initial_position_strategy
      else strategy_from_from_key (ne_from_key_text (pf_event f)))"

text \<open>The order of fills: time, then receive time, then record key; \<open>sort_by\<close> is stable.\<close>

definition fill_order_key :: "prepared_fill \<Rightarrow> i64 \<times> i64 \<times> string" where
  "fill_order_key f = (pf_fill_ts_us f, ne_event_ts_us (pf_event f), ne_record_key (pf_event f))"

record prepared_source_events =
  pe_allocations :: "allocation_snapshot list"
  pe_snapshot_ts_us :: "i64 option"
  pe_initial_states :: market_states
  pe_initial_strategy_states :: strategy_states
  pe_strategy_allocation_active :: bool
  pe_fill_events :: "prepared_fill list"
  pe_order_event_count :: nat
  pe_ignored_at_or_before_snapshot_event_count :: nat
  pe_ignored_non_fill_event_count :: nat

subsection \<open>Preparation\<close>

record first_fill_reference =
  ff_price :: f64
  ff_venue :: string

text \<open>Events in replay order, classified: the counters, the fills, and the first fill of each market.\<close>

record scan =
  sn_ignored_snapshot :: nat
  sn_ignored_non_fill :: nat
  sn_fills :: "prepared_fill list"
  sn_first :: "(string \<times> i16, first_fill_reference) bmap"

definition checked_inc :: "nat \<Rightarrow> nav_error + nat" where
  "checked_inc n = (if u64_max \<le> n then Inl EventCountOverflow else Inr (n + 1))"

definition scan_event :: "i64 option \<Rightarrow> liquidity_by_order \<Rightarrow> scan \<Rightarrow> nav_event \<Rightarrow> nav_error + scan" where
  "scan_event snapshot_ts roles s e =
     (if (case snapshot_ts of None \<Rightarrow> False | Some ts \<Rightarrow> fifo_ts_us e \<le> ts)
      then rbind (checked_inc (sn_ignored_snapshot s)) (\<lambda>n. Inr (s\<lparr>sn_ignored_snapshot := n\<rparr>))
      else rbind (validated_fill_side e) (\<lambda>sd. case sd of
          None \<Rightarrow> rbind (checked_inc (sn_ignored_non_fill s)) (\<lambda>n. Inr (s\<lparr>sn_ignored_non_fill := n\<rparr>))
        | Some sd \<Rightarrow>
            let key = (ne_symbol e, ne_venue_code e)
            in Inr (s\<lparr>sn_first := (case bm_get (sn_first s) key of
                          None \<Rightarrow> bm_insert key \<lparr>ff_price = ne_price e, ff_venue = ne_venue e\<rparr> (sn_first s)
                        | Some _ \<Rightarrow> sn_first s),
                      sn_fills := sn_fills s @
                        [\<lparr>pf_event = e, pf_side = sd, pf_fill_ts_us = fifo_ts_us e,
                          pf_liquidity = liquidity_role_for_event e roles, pf_initial_position_close = False\<rparr>]\<rparr>)))"

definition event_order_key :: "nav_event \<Rightarrow> i64 \<times> i64 \<times> string" where
  "event_order_key e = (fifo_ts_us e, ne_event_ts_us e, ne_record_key e)"

definition opening_position ::
    "(string \<times> i16, first_fill_reference) bmap \<Rightarrow> market_states \<Rightarrow> snapshot_position \<Rightarrow> nav_error + market_states" where
  "opening_position firsts states p =
     (let key = (target_symbol (sp_symbol p) (sp_venue_code p), sp_venue_code p);
          first_fill = bm_get firsts key
      in rbind (case sp_reference_price p of
             Some price \<Rightarrow> rbind (validate_positive price ''initial position reference price'') (\<lambda>_.
                             Inr (price, Configured))
           | None \<Rightarrow> rbind (of_option (MissingReferencePrice (sp_symbol p) (sp_venue_code p)) first_fill) (\<lambda>f.
                             Inr (ff_price f, FirstFill)))
           (\<lambda>(price, price_source).
         let venue = (case first_fill of Some f \<Rightarrow> ff_venue f | None \<Rightarrow> venue_name (nat (sp_venue_code p mod 256)))
         in if bm_contains states key then Inl (DuplicateInitialPosition (sp_symbol p) (sp_venue_code p))
            else Inr (bm_insert key
                   (from_initial_position (sp_venue_code p) venue (sp_quantity p) price price_source) states)))"

definition opening_strategy_states ::
    "(string \<times> i16, first_fill_reference) bmap \<Rightarrow> strategy_position_snapshot \<Rightarrow> strategy_states" where
  "opening_strategy_states firsts s =
     foldl (\<lambda>states p.
        if tp_strategy_name p = unallocated_strategy then states
        else let symbol = target_symbol (tp_symbol p) (tp_venue_code p);
                 venue = (case bm_get firsts (symbol, tp_venue_code p) of
                            Some f \<Rightarrow> ff_venue f | None \<Rightarrow> venue_name (nat (tp_venue_code p mod 256)))
             in bm_insert (tp_strategy_name p, symbol, tp_venue_code p)
                  (from_initial_position (tp_venue_code p) venue (tp_quantity p) (tp_reference_price p) Configured)
                  states)
       [] (ts_positions s)"

text \<open>Which corrections a source replays: after its anchor, and residual legs only under a strategy anchor.\<close>

definition select_allocations ::
    "fingerprint \<Rightarrow> string \<Rightarrow> i64 option \<Rightarrow> bool \<Rightarrow> allocation_snapshot list \<Rightarrow> nav_error + allocation_snapshot list" where
  "select_allocations fp source_id snapshot_ts anchored allocations =
     rbind (allocation_resolve fp allocations) (\<lambda>resolved.
     let chosen = filter (\<lambda>a. anchored \<or> \<not> uses_residual a)
                    (filter (\<lambda>a. case snapshot_ts of None \<Rightarrow> True | Some ts \<Rightarrow> ts < as_snapshot_ts_us a) resolved)
     in rbind (rfold (\<lambda>_ a. rbind (allocation_validate a) (\<lambda>_.
                 rensure (as_source_id a = source_id) AllocationSourceMismatch)) () chosen) (\<lambda>_.
        rbind (rensure (list_all (\<lambda>(a, b). as_snapshot_ts_us a < as_snapshot_ts_us b) (zip chosen (tl chosen)))
                 AllocationOrder) (\<lambda>_.
        rbind (if \<not> anchored then Inr ()
               else rfold (\<lambda>_ a. rensure
                 (list_all (\<lambda>p. al_market p \<in> al_market ` set (filter (\<lambda>p. al_strategy p = unallocated_strategy)
                                                           (as_positions a))) (as_positions a))
                 AllocationResidual) () chosen) (\<lambda>_.
        Inr chosen))))"

definition prepare_source_events ::
    "fingerprint \<Rightarrow> source_config \<Rightarrow> nav_event list \<Rightarrow> position_snapshot option \<Rightarrow> strategy_position_snapshot option
      \<Rightarrow> liquidity_by_order \<Rightarrow> allocation_snapshot list \<Rightarrow> nav_error + prepared_source_events" where
  "prepare_source_events fp source events snapshot strategy_snapshot roles allocations =
     rbind (case snapshot of None \<Rightarrow> Inr () | Some s \<Rightarrow> rbind (snapshot_validate s) (\<lambda>_.
              rensure (ps_source_id s = sc_id source) (SnapshotSourceMismatch (ps_source_id s) (sc_id source)))) (\<lambda>_.
     rbind (case strategy_snapshot of None \<Rightarrow> Inr () | Some s \<Rightarrow> rbind (strategy_snapshot_validate s) (\<lambda>_.
              rensure (ts_source_id s = sc_id source) (SnapshotSourceMismatch (ts_source_id s) (sc_id source)))) (\<lambda>_.
     let chosen = (case strategy_snapshot of None \<Rightarrow> None
           | Some t \<Rightarrow> if (case snapshot of None \<Rightarrow> True | Some s \<Rightarrow> ps_snapshot_ts_us s \<le> ts_snapshot_ts_us t)
                      then Some t else None);
         anchored = (chosen \<noteq> None)
     in rbind (case chosen of Some t \<Rightarrow> rmap Some (account_snapshot t) | None \<Rightarrow> Inr snapshot) (\<lambda>effective.
     let sorted_events = sort_key event_order_key events;
         snapshot_ts = map_option ps_snapshot_ts_us effective
     in rbind (rfold (scan_event snapshot_ts roles)
            \<lparr>sn_ignored_snapshot = 0, sn_ignored_non_fill = 0, sn_fills = [], sn_first = []\<rparr> sorted_events) (\<lambda>s.
     rbind (rfold (opening_position (sn_first s)) [] (case effective of None \<Rightarrow> [] | Some e \<Rightarrow> ps_positions e)) (\<lambda>initial.
     let initial_strategy = (case chosen of
           Some t \<Rightarrow> opening_strategy_states (sn_first s) t
         | None \<Rightarrow> bm_extend [] (map (\<lambda>((symbol, code), st). ((initial_position_strategy, symbol, code), st)) initial))
     in rbind (select_allocations fp (sc_id source) snapshot_ts anchored allocations) (\<lambda>allocs.
     Inr \<lparr>pe_allocations = allocs, pe_snapshot_ts_us = snapshot_ts, pe_initial_states = initial,
          pe_initial_strategy_states = initial_strategy, pe_strategy_allocation_active = anchored,
          pe_fill_events = map (attribute_initial_position anchored initial) (sn_fills s),
          pe_order_event_count = length events,
          pe_ignored_at_or_before_snapshot_event_count = sn_ignored_snapshot s,
          pe_ignored_non_fill_event_count = sn_ignored_non_fill s\<rparr>))))))"

subsection \<open>The replayed state\<close>

record timeline_state =
  rt_allocations :: "allocation_snapshot list"
  rt_next_allocation :: nat
  rt_source_id :: string
  rt_fee_rates :: fee_rates
  rt_snapshot_ts_us :: "i64 option"
  rt_pending_initial_states :: "market_states option"
  rt_pending_initial_strategy_states :: "strategy_states option"
  rt_states :: market_states
  rt_strategy_states :: strategy_states
  rt_latest_marks :: "(string \<times> i16, f64) bmap"
  rt_strategy_allocation_active :: bool

definition initial_timeline_state :: "source_config \<Rightarrow> prepared_source_events \<Rightarrow> nav_error + timeline_state" where
  "initial_timeline_state source p =
     rbind (rmap_err NavConfig (nav_fee_rates source)) (\<lambda>rates.
     Inr \<lparr>rt_allocations = pe_allocations p, rt_next_allocation = 0, rt_source_id = sc_id source,
          rt_fee_rates = rates, rt_snapshot_ts_us = pe_snapshot_ts_us p,
          rt_pending_initial_states = map_option (\<lambda>_. pe_initial_states p) (pe_snapshot_ts_us p),
          rt_pending_initial_strategy_states = map_option (\<lambda>_. pe_initial_strategy_states p) (pe_snapshot_ts_us p),
          rt_states = [], rt_strategy_states = [], rt_latest_marks = [],
          rt_strategy_allocation_active = pe_strategy_allocation_active p\<rparr>)"

definition due :: "timeline_state \<Rightarrow> i64 \<Rightarrow> bool" where
  "due s ts \<longleftrightarrow> (case rt_snapshot_ts_us s of None \<Rightarrow> False | Some snapshot_ts \<Rightarrow> snapshot_ts \<le> ts)"

definition activate_snapshot_at :: "i64 \<Rightarrow> timeline_state \<Rightarrow> timeline_state" where
  "activate_snapshot_at ts s =
     (let s1 = (if due s ts then (case rt_pending_initial_states s of
            None \<Rightarrow> s
          | Some initial \<Rightarrow> s\<lparr>rt_pending_initial_states := None,
              rt_latest_marks := bm_extend (rt_latest_marks s) (map (\<lambda>(k, st). (k, vs_latest_fill_price st)) initial),
              rt_states := initial\<rparr>) else s)
      in if due s1 ts then (case rt_pending_initial_strategy_states s1 of
            None \<Rightarrow> s1
          | Some initial \<Rightarrow> s1\<lparr>rt_pending_initial_strategy_states := None, rt_strategy_states := initial\<rparr>) else s1)"

definition fifo_quantity :: "venue_state \<Rightarrow> f64" where
  "fifo_quantity v = long_quantity (vs_fifo v) 1 - short_quantity (vs_fifo v) 1"

definition quantity_or_zero :: "venue_state option \<Rightarrow> f64" where
  "quantity_or_zero v = (case v of None \<Rightarrow> 0 | Some v \<Rightarrow> fifo_quantity v)"

definition allocation_quantity :: "timeline_state \<Rightarrow> string \<Rightarrow> string \<Rightarrow> i16 \<Rightarrow> f64" where
  "allocation_quantity s strategy symbol venue =
     (if strategy = unallocated_strategy
      then quantity_or_zero (bm_get (rt_states s) (symbol, venue))
           - f_sum (map (\<lambda>(_, v). fifo_quantity v)
               (filter (\<lambda>((_, sy, ve), _). sy = symbol \<and> ve = venue) (rt_strategy_states s)))
      else quantity_or_zero (bm_get (rt_strategy_states s) (strategy, symbol, venue)))"

definition clear_if_flat :: "f64 \<Rightarrow> quantity_fifo \<Rightarrow> quantity_fifo" where
  "clear_if_flat after f = (if feq after 0 then f\<lparr>qf_longs := [], qf_shorts := []\<rparr> else f)"

definition transfer_leg :: "allocation_position \<Rightarrow> venue_state \<Rightarrow> venue_state" where
  "transfer_leg p v =
     (let delta = al_after_qty p - fifo_quantity v;
          f = (if \<not> feq delta 0
               then fifo_apply_fill (if 0 < delta then Buy else Sell) (al_reference_price p) \<bar>delta\<bar> (vs_fifo v)
               else vs_fifo v)
      in v\<lparr>vs_fifo := clear_if_flat (al_after_qty p) f\<rparr>)"

definition flat_venue_state :: "allocation_position \<Rightarrow> venue_state" where
  "flat_venue_state p =
     from_initial_position (al_venue_code p) (venue_name (nat (al_venue_code p mod 256))) 0 (al_reference_price p) Configured"

definition precondition_holds :: "timeline_state \<Rightarrow> allocation_position \<Rightarrow> bool" where
  "precondition_holds s p \<longleftrightarrow>
     \<bar>(allocation_quantity s (al_strategy p) (al_symbol p) (al_venue_code p) - al_before_qty p)
        * al_reference_price p\<bar> < f_lit (1 / 10 ^ 6)"

definition apply_leg :: "strategy_states \<Rightarrow> allocation_position \<Rightarrow> strategy_states" where
  "apply_leg states p =
     (if al_strategy p = unallocated_strategy then states
      else bm_upsert (al_owner p) (flat_venue_state p) (transfer_leg p) states)"

definition apply_allocation :: "allocation_snapshot \<Rightarrow> timeline_state \<Rightarrow> nav_error + timeline_state" where
  "apply_allocation a s0 =
     (let s = activate_snapshot_at (as_snapshot_ts_us a) s0
      in rbind (rfold (\<lambda>_ p. rensure (precondition_holds s p)
             (AllocationMismatch (rt_source_id s) (as_snapshot_ts_us a) (al_strategy p) (al_symbol p)))
           () (as_positions a)) (\<lambda>_.
         Inr (s\<lparr>rt_strategy_states := foldl apply_leg (rt_strategy_states s) (as_positions a)\<rparr>)))"

text \<open>The \<open>while let\<close> over the remaining corrections; each round applies one and moves the index.\<close>

fun advance_loop :: "i64 \<Rightarrow> bool \<Rightarrow> allocation_snapshot list \<Rightarrow> timeline_state \<Rightarrow> nav_error + timeline_state" where
  "advance_loop ts inclusive [] s = Inr s"
| "advance_loop ts inclusive (a # rest) s =
     (if ts < as_snapshot_ts_us a \<or> (\<not> inclusive \<and> as_snapshot_ts_us a = ts) then Inr s
      else rbind (apply_allocation a s) (\<lambda>s'.
           advance_loop ts inclusive rest (s'\<lparr>rt_next_allocation := rt_next_allocation s' + 1\<rparr>)))"

definition advance_allocations :: "i64 \<Rightarrow> bool \<Rightarrow> timeline_state \<Rightarrow> nav_error + timeline_state" where
  "advance_allocations ts inclusive s =
     advance_loop ts inclusive (drop (rt_next_allocation s) (rt_allocations s)) s"

definition or_new :: "nav_event \<Rightarrow> venue_state option \<Rightarrow> venue_state" where
  "or_new e v = (case v of None \<Rightarrow> venue_state_new e | Some v \<Rightarrow> v)"

definition timeline_apply_fill :: "prepared_fill \<Rightarrow> timeline_state \<Rightarrow> nav_error + timeline_state" where
  "timeline_apply_fill f s0 =
     rbind (advance_allocations (pf_fill_ts_us f) False s0) (\<lambda>s1.
     let s = activate_snapshot_at (pf_fill_ts_us f) s1;
         e = pf_event f;
         book = venue_apply_fill e (pf_side f) (rt_fee_rates s) (pf_liquidity f) (pf_fill_ts_us f)
     in rbind (book (or_new e (bm_get (rt_states s) (fill_market f)))) (\<lambda>v.
        let s' = s\<lparr>rt_states := bm_insert (fill_market f) v (rt_states s)\<rparr>
        in rbind (if rt_strategy_allocation_active s' \<and> is_system_position_close (fill_strategy f) then Inr s'
                  else let key = (fill_strategy f, ne_symbol e, ne_venue_code e)
                       in rbind (book (or_new e (bm_get (rt_strategy_states s') key))) (\<lambda>sv.
                          Inr (s'\<lparr>rt_strategy_states := bm_insert key sv (rt_strategy_states s')\<rparr>))) (\<lambda>s''.
        Inr (s''\<lparr>rt_latest_marks := bm_insert (fill_market f) (ne_price e) (rt_latest_marks s'')\<rparr>))))"

subsection \<open>The cached source\<close>

definition checkpoint_us :: int where
  "checkpoint_us = 3600000000"

record fifo_checkpoint =
  cp_ts_us :: i64
  cp_next_fill :: nat
  cp_state :: timeline_state

record cached_source =
  cs_prepared :: prepared_source_events
  cs_checkpoints :: "fifo_checkpoint list"
  cs_symbols :: "(string, i64) bmap"
  cs_strategies :: "(string, i64) bmap"
  cs_report :: source_nav_report
  cs_end_state :: timeline_state
  cs_next_checkpoint :: "i64 option"
  cs_replayed_fills :: nat

record history_change =
  hc_previous_revision :: nat
  hc_events :: "nav_event list"
  hc_earliest_liquidity_fill_ts_us :: "i64 option"

record nav_source_history =
  nh_allocations :: "allocation_snapshot list"
  nh_events :: "nav_event list"
  nh_liquidity_by_order :: liquidity_by_order
  nh_revision :: nat
  nh_change :: "history_change option"

text \<open>The loop variables of \<open>replay\<close>.\<close>

record replay_state =
  rp_state :: timeline_state
  rp_checkpoints :: "fifo_checkpoint list"
  rp_symbols :: "(string, i64) bmap"
  rp_strategies :: "(string, i64) bmap"
  rp_next_checkpoint :: "i64 option"

definition strategy_bucket :: "bool \<Rightarrow> prepared_fill \<Rightarrow> string" where
  "strategy_bucket active f =
     (if active \<and> is_system_position_close (fill_strategy f) then unallocated_strategy else fill_strategy f)"

definition index_fill :: "bool \<Rightarrow> prepared_fill \<Rightarrow> replay_state \<Rightarrow> replay_state" where
  "index_fill active f r =
     r\<lparr>rp_symbols := bm_min (ne_symbol (pf_event f)) (pf_fill_ts_us f) (rp_symbols r),
       rp_strategies := bm_min (strategy_bucket active f) (pf_fill_ts_us f) (rp_strategies r)\<rparr>"

definition checkpoint_floor :: "i64 \<Rightarrow> i64" where
  "checkpoint_floor ts = wrap64 (ts div checkpoint_us * checkpoint_us)"

definition take_checkpoint :: "nat \<Rightarrow> prepared_fill \<Rightarrow> replay_state \<Rightarrow> replay_state" where
  "take_checkpoint index f r =
     (if (case rp_next_checkpoint r of None \<Rightarrow> False | Some ts \<Rightarrow> ts \<le> pf_fill_ts_us f)
      then let ts = checkpoint_floor (pf_fill_ts_us f);
               state = activate_snapshot_at ts (rp_state r)
           in r\<lparr>rp_state := state,
                rp_checkpoints := rp_checkpoints r @ [\<lparr>cp_ts_us = ts, cp_next_fill = index, cp_state = state\<rparr>],
                rp_next_checkpoint := Some (sat64 (ts + checkpoint_us))\<rparr>
      else r)"

definition replay_step :: "bool \<Rightarrow> replay_state \<Rightarrow> nat \<times> prepared_fill \<Rightarrow> nav_error + replay_state" where
  "replay_step active r ifill =
     (case ifill of (index, f) \<Rightarrow>
        let r1 = take_checkpoint index f (index_fill active f r)
        in rbind (timeline_apply_fill f (rp_state r1)) (\<lambda>s. Inr (r1\<lparr>rp_state := s\<rparr>)))"

definition index_allocations :: "allocation_snapshot list \<Rightarrow> replay_state \<Rightarrow> replay_state" where
  "index_allocations as r =
     foldl (\<lambda>r a. foldl (\<lambda>r p.
         r\<lparr>rp_symbols := bm_min (al_symbol p) (as_snapshot_ts_us a) (rp_symbols r),
           rp_strategies := bm_min (al_strategy p) (as_snapshot_ts_us a) (rp_strategies r)\<rparr>)
       r (as_positions a)) r as"

definition source_report ::
    "source_config \<Rightarrow> prepared_source_events \<Rightarrow> nat \<Rightarrow> timeline_state \<Rightarrow> source_nav_report" where
  "source_report source p initial_position_count s =
     (let builders = foldl (\<lambda>m ((symbol, _), v). bm_upsert symbol symbol_builder_default
                        (symbol_push (venue_report None v)) m) [] (rt_states s);
          symbols = map (\<lambda>(symbol, b). symbol_finish symbol b) builders;
          totals = foldl (\<lambda>t sym. totals_add t (sr_totals sym)) totals_default symbols
      in \<lparr>so_source_id = sc_id source, so_account = display_name source, so_configured_venue = sc_venue source,
          so_estimated_fee_rate = fr_taker (rt_fee_rates s), so_maker_fee_rate = fr_maker (rt_fee_rates s),
          so_taker_fee_rate = fr_taker (rt_fee_rates s), so_quote_fee_rates = fr_by_quote (rt_fee_rates s),
          so_initial_position_snapshot_ts_us = pe_snapshot_ts_us p, so_initial_position_count = initial_position_count,
          so_order_event_count = pe_order_event_count p,
          so_ignored_at_or_before_snapshot_event_count = pe_ignored_at_or_before_snapshot_event_count p,
          so_ignored_non_fill_event_count = pe_ignored_non_fill_event_count p,
          so_first_fill_ts_us = (case pe_fill_events p of [] \<Rightarrow> None | f # _ \<Rightarrow> Some (pf_fill_ts_us f)),
          so_last_fill_ts_us = (case pe_fill_events p of [] \<Rightarrow> None | fs \<Rightarrow> Some (pf_fill_ts_us (last fs))),
          so_totals = totals_cleaned totals, so_symbols = symbols\<rparr>)"

definition replay ::
    "source_config \<Rightarrow> prepared_source_events \<Rightarrow> nat \<Rightarrow> nat \<Rightarrow> replay_state \<Rightarrow> nav_error + cached_source" where
  "replay source p initial_position_count first_fill r0 =
     rbind (rfold (replay_step (pe_strategy_allocation_active p)) (index_allocations (pe_allocations p) r0)
        (enumerate first_fill (drop first_fill (pe_fill_events p)))) (\<lambda>r.
     rbind (advance_allocations i64_max True (activate_snapshot_at i64_max (rp_state r))) (\<lambda>s.
     Inr \<lparr>cs_prepared = p, cs_checkpoints = rp_checkpoints r, cs_symbols = rp_symbols r,
          cs_strategies = rp_strategies r, cs_report = source_report source p initial_position_count s,
          cs_end_state = s, cs_next_checkpoint = rp_next_checkpoint r,
          cs_replayed_fills = length (pe_fill_events p) - first_fill\<rparr>))"

definition first_fill_ts :: "prepared_fill list \<Rightarrow> i64 option" where
  "first_fill_ts fs = (case fs of [] \<Rightarrow> None | f # _ \<Rightarrow> Some (pf_fill_ts_us f))"

definition checkpoint_after :: "i64 \<Rightarrow> i64" where
  "checkpoint_after ts = wrap64 ((ts div checkpoint_us + 1) * checkpoint_us)"

definition build :: "source_config \<Rightarrow> prepared_source_events \<Rightarrow> nat \<Rightarrow> nav_error + cached_source" where
  "build source p initial_position_count =
     rbind (initial_timeline_state source p) (\<lambda>state.
     let anchor = or_else (pe_snapshot_ts_us p) (first_fill_ts (pe_fill_events p))
     in replay source p initial_position_count 0
          \<lparr>rp_state = state, rp_checkpoints = [], rp_symbols = [], rp_strategies = [],
           rp_next_checkpoint = map_option checkpoint_after anchor\<rparr>)"

subsection \<open>Incremental refresh\<close>

definition inc_u64 :: "nat \<Rightarrow> nat" where
  "inc_u64 n = (n + 1) mod 2 ^ 64"

definition classify_event ::
    "nav_source_history \<Rightarrow> prepared_source_events \<times> prepared_fill list \<Rightarrow> nav_event
      \<Rightarrow> nav_error + prepared_source_events \<times> prepared_fill list" where
  "classify_event h st e =
     (case st of (p0, added) \<Rightarrow>
        let p = p0\<lparr>pe_order_event_count := inc_u64 (pe_order_event_count p0)\<rparr>
        in if (case pe_snapshot_ts_us p of None \<Rightarrow> False | Some ts \<Rightarrow> fifo_ts_us e \<le> ts)
           then Inr (p\<lparr>pe_ignored_at_or_before_snapshot_event_count :=
                         inc_u64 (pe_ignored_at_or_before_snapshot_event_count p)\<rparr>, added)
           else rbind (validated_fill_side e) (\<lambda>sd. case sd of
               None \<Rightarrow> Inr (p\<lparr>pe_ignored_non_fill_event_count := inc_u64 (pe_ignored_non_fill_event_count p)\<rparr>, added)
             | Some sd \<Rightarrow> Inr (p, added @ [attribute_initial_position (pe_strategy_allocation_active p) (pe_initial_states p)
                 \<lparr>pf_event = e, pf_side = sd, pf_fill_ts_us = fifo_ts_us e,
                  pf_liquidity = liquidity_role_for_event e (nh_liquidity_by_order h),
                  pf_initial_position_close = False\<rparr>])))"

definition min_option :: "i64 option \<Rightarrow> i64 option \<Rightarrow> i64 option" where
  "min_option a b = (case a of None \<Rightarrow> b | Some x \<Rightarrow> (case b of None \<Rightarrow> Some x | Some y \<Rightarrow> Some (min x y)))"

definition last_option :: "'a list \<Rightarrow> 'a option" where
  "last_option xs = (if xs = [] then None else Some (last xs))"

definition reclassify :: "liquidity_by_order \<Rightarrow> prepared_fill \<Rightarrow> prepared_fill" where
  "reclassify roles f = f\<lparr>pf_liquidity := liquidity_role_for_event (pf_event f) roles\<rparr>"

definition fill_partition_point :: "(prepared_fill \<Rightarrow> bool) \<Rightarrow> prepared_fill list \<Rightarrow> nat" where
  "fill_partition_point P fills = bsearch (\<lambda>i. P (fills ! i)) 0 (length fills)"

text \<open>A new fill at or before the last one may change which fill priced the opening position.\<close>

definition reference_may_change :: "prepared_source_events \<Rightarrow> i64 option \<Rightarrow> bool" where
  "reference_may_change p earliest_added =
     ((case earliest_added of None \<Rightarrow> False
       | Some ts \<Rightarrow> (case last_option (pe_fill_events p) of None \<Rightarrow> False | Some l \<Rightarrow> ts \<le> pf_fill_ts_us l))
      \<and> list_ex (\<lambda>(_, v). vs_initial_reference_price_source v = Some FirstFill) (pe_initial_states p))"

definition appends_only :: "prepared_source_events \<Rightarrow> prepared_fill list \<Rightarrow> i64 option \<Rightarrow> bool" where
  "appends_only p added earliest_liquidity =
     (earliest_liquidity = None
      \<and> (case added of [] \<Rightarrow> True | first # _ \<Rightarrow>
           (case last_option (pe_fill_events p) of None \<Rightarrow> True
            | Some l \<Rightarrow> \<not> fill_order_key first < fill_order_key l)))"

definition before_ts :: "i64 \<Rightarrow> (string, i64) bmap \<Rightarrow> (string, i64) bmap" where
  "before_ts ts m = filter (\<lambda>(_, t). t < ts) m"

definition cached_refresh ::
    "cached_source \<Rightarrow> source_config \<Rightarrow> nav_source_history \<Rightarrow> nat \<Rightarrow> nav_error + cached_source option" where
  "cached_refresh c source h initial_position_count =
     (if pe_allocations (cs_prepared c) \<noteq> [] then Inr None
      else case nh_change h of None \<Rightarrow> Inr None
      | Some change \<Rightarrow>
          rbind (rfold (classify_event h) (cs_prepared c, []) (hc_events change)) (\<lambda>(p, unsorted).
          let added = sort_key fill_order_key unsorted;
              old_len = length (pe_fill_events p);
              earliest_added = first_fill_ts added;
              earliest_liquidity = hc_earliest_liquidity_fill_ts_us change
          in if reference_may_change (cs_prepared c) earliest_added then Inr None
             else if appends_only p added earliest_liquidity
             then let p' = p\<lparr>pe_fill_events := pe_fill_events p @ added\<rparr>;
                      next = or_else (cs_next_checkpoint c)
                               (map_option checkpoint_after (first_fill_ts (pe_fill_events p')))
                  in rmap Some (replay source p' initial_position_count old_len
                       \<lparr>rp_state = cs_end_state c, rp_checkpoints = cs_checkpoints c, rp_symbols = cs_symbols c,
                        rp_strategies = cs_strategies c, rp_next_checkpoint = next\<rparr>)
             else case min_option earliest_added earliest_liquidity of None \<Rightarrow> Inr None
             | Some first_changed \<Rightarrow>
                 let prefix_len = fill_partition_point (\<lambda>f. pf_fill_ts_us f < first_changed) (pe_fill_events p);
                     tail0 = drop prefix_len (pe_fill_events p);
                     tail1 = (if earliest_liquidity \<noteq> None then map (reclassify (nh_liquidity_by_order h)) tail0 else tail0);
                     p' = p\<lparr>pe_fill_events := take prefix_len (pe_fill_events p)
                                             @ sort_key fill_order_key (tail1 @ added)\<rparr>;
                     cps = take (partition_point (\<lambda>cp. cp_ts_us cp \<le> first_changed) (cs_checkpoints c)) (cs_checkpoints c)
                 in case last_option cps of
                      Some cp \<Rightarrow>
                        rmap Some (replay source p' initial_position_count (cp_next_fill cp)
                          \<lparr>rp_state = cp_state cp, rp_checkpoints = cps,
                           rp_symbols = before_ts (cp_ts_us cp) (cs_symbols c),
                           rp_strategies = before_ts (cp_ts_us cp) (cs_strategies c),
                           rp_next_checkpoint = Some (sat64 (cp_ts_us cp + checkpoint_us))\<rparr>)
                    | None \<Rightarrow> rmap Some (build source p' initial_position_count)))"

end
