(* ===== verification/Corrections.thy ===== *)
theory Corrections
  imports Timeline
begin

text \<open>
  The opening snapshot and the ownership corrections of a replayed source (\<open>nav.rs\<close>,
  \<open>nav/allocation.rs\<close>). Activating the snapshot is idempotent, and past its time it commutes with
  everything that activates it itself. Corrections are applied in order, each once: advancing to a
  time and later advancing again is advancing once, so it makes no difference when, between two
  fills, the corrections that fell due are applied. Corrections follow the snapshot, so a replay
  that activates the snapshot early or late applies the same ones to the same ledgers.
\<close>

subsection \<open>Activation of the opening snapshot\<close>

definition late :: "timeline_state \<Rightarrow> i64 \<Rightarrow> bool" where
  "late s t \<longleftrightarrow> (case rt_snapshot_ts_us s of None \<Rightarrow> True | Some a \<Rightarrow> a \<le> t)"

lemma activate_fields [simp]:
  "rt_snapshot_ts_us (activate_snapshot_at t s) = rt_snapshot_ts_us s"
  "rt_allocations (activate_snapshot_at t s) = rt_allocations s"
  "rt_next_allocation (activate_snapshot_at t s) = rt_next_allocation s"
  "rt_fee_rates (activate_snapshot_at t s) = rt_fee_rates s"
  by (simp_all add: activate_snapshot_at_def Let_def due_def split: option.splits)

lemma activate_not_due: "\<not> due s t \<Longrightarrow> activate_snapshot_at t s = s"
  by (simp add: activate_snapshot_at_def Let_def)

lemma activate_same: "due s t \<Longrightarrow> due s t' \<Longrightarrow> activate_snapshot_at t s = activate_snapshot_at t' s"
  by (auto simp: activate_snapshot_at_def Let_def due_def split: option.splits)

lemma activate_idem: "activate_snapshot_at t (activate_snapshot_at t s) = activate_snapshot_at t s"
  by (auto simp: activate_snapshot_at_def Let_def due_def split: option.splits)

lemma due_activate [simp]: "due (activate_snapshot_at t' s) t = due s t"
  by (simp add: due_def)

lemma late_activate [simp]: "late (activate_snapshot_at t' s) t = late s t"
  by (simp add: late_def)

lemma late_mono: "late s t \<Longrightarrow> t \<le> t' \<Longrightarrow> late s t'"
  by (auto simp: late_def split: option.splits)

text \<open>Past the anchor, activating once more, earlier or later, changes nothing.\<close>

lemma activate_late:
  assumes "late s t"
  shows "activate_snapshot_at t (activate_snapshot_at t' s) = activate_snapshot_at t s"
proof (cases "due s t")
  case True
  show ?thesis
  proof (cases "due s t'")
    case d: True
    have "activate_snapshot_at t (activate_snapshot_at t' s) = activate_snapshot_at t' (activate_snapshot_at t' s)"
      using True d by (intro activate_same) simp_all
    then show ?thesis using activate_same [OF d True] by (simp add: activate_idem)
  next
    case False
    then show ?thesis by (simp add: activate_not_due)
  qed
next
  case False
  then have "rt_snapshot_ts_us s = None" using assms by (auto simp: late_def due_def split: option.splits)
  then have "\<not> due s t'" by (simp add: due_def)
  then show ?thesis by (simp add: activate_not_due)
qed

text \<open>A state whose snapshot has been activated, or that has none.\<close>

definition settled :: "timeline_state \<Rightarrow> bool" where
  "settled s \<longleftrightarrow> (\<forall>t. activate_snapshot_at t s = s)"

lemma settled_late: "late s t \<Longrightarrow> settled (activate_snapshot_at t s)"
  unfolding settled_def
proof
  fix t' assume l: "late s t"
  show "activate_snapshot_at t' (activate_snapshot_at t s) = activate_snapshot_at t s"
  proof (cases "due s t'")
    case True
    then have "due s t" using l by (auto simp: due_def late_def split: option.splits)
    then have "activate_snapshot_at t' (activate_snapshot_at t s) = activate_snapshot_at t (activate_snapshot_at t s)"
      using True by (intro activate_same) simp_all
    then show ?thesis by (simp add: activate_idem)
  qed (simp add: activate_not_due)
qed

lemma settled_pending:
  "settled s \<longleftrightarrow> rt_snapshot_ts_us s = None \<or> (rt_pending_initial_states s = None \<and> rt_pending_initial_strategy_states s = None)"
proof (cases "rt_snapshot_ts_us s")
  case None
  then show ?thesis by (simp add: settled_def activate_not_due due_def)
next
  case (Some a)
  have fields: "rt_pending_initial_states (activate_snapshot_at a s) = None"
    "rt_pending_initial_strategy_states (activate_snapshot_at a s) = None"
    using Some by (simp_all add: activate_snapshot_at_def Let_def due_def split: option.splits)
  have "activate_snapshot_at t s = s" if "rt_pending_initial_states s = None" "rt_pending_initial_strategy_states s = None" for t
    using that by (simp add: activate_snapshot_at_def)
  then show ?thesis using Some fields by (auto simp: settled_def)
qed

lemma settled_activate: "settled s \<Longrightarrow> activate_snapshot_at t s = s"
  by (simp add: settled_def)

subsection \<open>Applying the corrections that fell due\<close>

definition corrections_late :: "timeline_state \<Rightarrow> bool" where
  "corrections_late s \<longleftrightarrow> (\<forall>a \<in> set (rt_allocations s). late s (as_snapshot_ts_us a))"

definition fell_due :: "i64 \<Rightarrow> bool \<Rightarrow> allocation_snapshot \<Rightarrow> bool" where
  "fell_due ts inclusive a \<longleftrightarrow> \<not> (ts < as_snapshot_ts_us a \<or> (\<not> inclusive \<and> as_snapshot_ts_us a = ts))"

lemma corrections_late_activate [simp]: "corrections_late (activate_snapshot_at t s) = corrections_late s"
  by (simp add: corrections_late_def)

lemma corrections_late_cong:
  "rt_allocations s' = rt_allocations s \<Longrightarrow> rt_snapshot_ts_us s' = rt_snapshot_ts_us s \<Longrightarrow> corrections_late s' = corrections_late s"
  by (simp add: corrections_late_def late_def)

lemma corrections_late_none [simp]: "rt_allocations s = [] \<Longrightarrow> corrections_late s"
  by (simp add: corrections_late_def)

lemma fell_due_mono: "fell_due t0 i0 a \<Longrightarrow> t0 < t \<or> (t0 = t \<and> (i0 \<longrightarrow> i)) \<Longrightarrow> fell_due t i a"
  by (auto simp: fell_due_def)

lemma advance_loop_Cons:
  "advance_loop t i (a # rest) s =
     (if fell_due t i a
      then rbind (apply_allocation a s) (\<lambda>s'. advance_loop t i rest (s'\<lparr>rt_next_allocation := rt_next_allocation s' + 1\<rparr>))
      else Inr s)"
  by (simp add: fell_due_def)

declare advance_loop.simps(2) [simp del]

lemma advance_plain [simp]: "rt_allocations s = [] \<Longrightarrow> advance_allocations ts i s = Inr s"
  by (simp add: advance_allocations_def)

lemma apply_allocation_fields:
  assumes "apply_allocation a s = Inr s'"
  shows "rt_allocations s' = rt_allocations s \<and> rt_next_allocation s' = rt_next_allocation s
    \<and> rt_snapshot_ts_us s' = rt_snapshot_ts_us s \<and> rt_fee_rates s' = rt_fee_rates s
    \<and> rt_pending_initial_states s' = rt_pending_initial_states (activate_snapshot_at (as_snapshot_ts_us a) s)
    \<and> rt_pending_initial_strategy_states s' = rt_pending_initial_strategy_states (activate_snapshot_at (as_snapshot_ts_us a) s)"
  using assms by (auto simp: apply_allocation_def Let_def rbind_Inr_iff)

lemma apply_allocation_settles:
  assumes "apply_allocation a s = Inr s'" and "late s (as_snapshot_ts_us a) \<or> settled s"
  shows "settled s'"
proof -
  have "settled (activate_snapshot_at (as_snapshot_ts_us a) s)" using assms(2) by (auto simp: settled_late settled_activate)
  then show ?thesis using apply_allocation_fields [OF assms(1)] by (simp add: settled_pending)
qed

lemma apply_allocation_activated:
  "late s (as_snapshot_ts_us a) \<Longrightarrow> apply_allocation a (activate_snapshot_at t s) = apply_allocation a s"
  by (simp add: apply_allocation_def activate_late)

text \<open>Where the loop stops: it has applied the corrections that fell due, in order, up to the first that did not.\<close>

lemma advance_loop_stops:
  assumes "advance_loop t0 i0 as s = Inr s'"
  shows "\<exists>n. rt_next_allocation s' = rt_next_allocation s + n \<and> n \<le> length as
    \<and> (\<forall>a \<in> set (take n as). fell_due t0 i0 a) \<and> (n < length as \<longrightarrow> \<not> fell_due t0 i0 (as ! n))
    \<and> (\<forall>t i. (\<forall>a. fell_due t0 i0 a \<longrightarrow> fell_due t i a) \<longrightarrow> advance_loop t i as s = advance_loop t i (drop n as) s')
    \<and> rt_allocations s' = rt_allocations s \<and> rt_snapshot_ts_us s' = rt_snapshot_ts_us s \<and> rt_fee_rates s' = rt_fee_rates s"
  using assms
proof (induction as arbitrary: s)
  case (Cons a as)
  show ?case
  proof (cases "fell_due t0 i0 a")
    case False
    then show ?thesis using Cons.prems by (intro exI [of _ 0]) (simp add: advance_loop_Cons)
  next
    case True
    then obtain s1 where s1: "apply_allocation a s = Inr s1"
      "advance_loop t0 i0 as (s1\<lparr>rt_next_allocation := rt_next_allocation s1 + 1\<rparr>) = Inr s'"
      using Cons.prems by (auto simp: advance_loop_Cons rbind_Inr_iff)
    note F = apply_allocation_fields [OF s1(1)]
    obtain n where n: "rt_next_allocation s' = rt_next_allocation s1 + 1 + n" "n \<le> length as"
      "\<forall>a \<in> set (take n as). fell_due t0 i0 a" "n < length as \<longrightarrow> \<not> fell_due t0 i0 (as ! n)"
      "\<forall>t i. (\<forall>a. fell_due t0 i0 a \<longrightarrow> fell_due t i a) \<longrightarrow>
         advance_loop t i as (s1\<lparr>rt_next_allocation := rt_next_allocation s1 + 1\<rparr>) = advance_loop t i (drop n as) s'"
      "rt_allocations s' = rt_allocations s1" "rt_snapshot_ts_us s' = rt_snapshot_ts_us s1" "rt_fee_rates s' = rt_fee_rates s1"
      using Cons.IH [OF s1(2)] by auto
    show ?thesis
      using n F True s1(1) by (intro exI [of _ "Suc n"]) (simp add: advance_loop_Cons)
  qed
qed simp

lemma advance_fields:
  assumes "advance_allocations t i s = Inr s'"
  shows "rt_allocations s' = rt_allocations s" and "rt_snapshot_ts_us s' = rt_snapshot_ts_us s" and "rt_fee_rates s' = rt_fee_rates s"
  using advance_loop_stops [OF assms [unfolded advance_allocations_def]] by auto

text \<open>Advancing in two steps is advancing once; advancing to an earlier time afterwards does nothing.\<close>

lemma advance_advance:
  assumes "advance_allocations t0 i0 s = Inr s'" and "t0 < t \<or> (t0 = t \<and> (i0 \<longrightarrow> i))"
  shows "advance_allocations t i s' = advance_allocations t i s"
proof -
  obtain n where n: "rt_next_allocation s' = rt_next_allocation s + n" "rt_allocations s' = rt_allocations s"
    and go: "\<forall>t i. (\<forall>a. fell_due t0 i0 a \<longrightarrow> fell_due t i a) \<longrightarrow>
      advance_loop t i (drop (rt_next_allocation s) (rt_allocations s)) s
      = advance_loop t i (drop n (drop (rt_next_allocation s) (rt_allocations s))) s'"
    using advance_loop_stops [OF assms(1) [unfolded advance_allocations_def]] by blast
  have "\<forall>a. fell_due t0 i0 a \<longrightarrow> fell_due t i a" using assms(2) fell_due_mono by blast
  then show ?thesis using go n by (simp add: advance_allocations_def add.commute)
qed

lemma advance_again:
  assumes "advance_allocations t0 i0 s = Inr s'" and "t < t0 \<or> (t = t0 \<and> (i \<longrightarrow> i0))"
  shows "advance_allocations t i s' = Inr s'"
proof -
  let ?as = "drop (rt_next_allocation s) (rt_allocations s)"
  obtain n where n: "rt_next_allocation s' = rt_next_allocation s + n" "rt_allocations s' = rt_allocations s"
    and stop: "n < length ?as \<longrightarrow> \<not> fell_due t0 i0 (?as ! n)"
    using advance_loop_stops [OF assms(1) [unfolded advance_allocations_def]] by blast
  have eq: "drop (rt_next_allocation s') (rt_allocations s') = drop n ?as" using n by (simp add: add.commute)
  show ?thesis
  proof (cases "n < length ?as")
    case True
    then have "drop n ?as = ?as ! n # drop (Suc n) ?as" by (rule Cons_nth_drop_Suc [symmetric])
    moreover have "\<not> fell_due t i (?as ! n)" using stop True assms(2) fell_due_mono by blast
    ultimately show ?thesis by (simp add: advance_allocations_def eq advance_loop_Cons)
  next
    case False
    then show ?thesis by (simp add: advance_allocations_def eq)
  qed
qed

lemma advance_loop_fails:
  assumes "advance_loop t0 i0 as s = Inl e" and "\<forall>a. fell_due t0 i0 a \<longrightarrow> fell_due t i a"
  shows "advance_loop t i as s = Inl e"
  using assms
proof (induction as arbitrary: s)
  case (Cons a as)
  then have "fell_due t0 i0 a" "fell_due t i a" by (auto simp: advance_loop_Cons split: if_splits)
  then show ?case using Cons by (cases "apply_allocation a s") (simp_all add: advance_loop_Cons)
qed simp

lemma advance_fails:
  assumes "advance_allocations t0 i0 s = Inl e" and "t0 < t \<or> (t0 = t \<and> (i0 \<longrightarrow> i))"
  shows "advance_allocations t i s = Inl e"
  using assms advance_loop_fails [of t0 i0 _ s e t i] fell_due_mono unfolding advance_allocations_def by blast

lemma advance_loop_settled:
  "advance_loop t i as s = Inr s' \<Longrightarrow> settled s \<Longrightarrow> settled s'"
proof (induction as arbitrary: s)
  case (Cons a as)
  show ?case
  proof (cases "fell_due t i a")
    case True
    then obtain s1 where s1: "apply_allocation a s = Inr s1"
      "advance_loop t i as (s1\<lparr>rt_next_allocation := rt_next_allocation s1 + 1\<rparr>) = Inr s'"
      using Cons.prems by (auto simp: advance_loop_Cons rbind_Inr_iff)
    then show ?thesis using Cons.IH [OF s1(2)] apply_allocation_settles [OF s1(1)] Cons.prems(2) by (simp add: settled_pending)
  qed (use Cons.prems in \<open>simp add: advance_loop_Cons\<close>)
qed simp

lemma advance_settled: "advance_allocations t i s = Inr s' \<Longrightarrow> settled s \<Longrightarrow> settled s'"
  unfolding advance_allocations_def by (rule advance_loop_settled)

text \<open>Whether the snapshot was activated already makes no difference to the corrections.\<close>

lemma advance_activated:
  assumes "corrections_late s"
  shows "(advance_allocations ts i s = Inr s \<and> advance_allocations ts i (activate_snapshot_at t s) = Inr (activate_snapshot_at t s))
    \<or> (advance_allocations ts i (activate_snapshot_at t s) = advance_allocations ts i s
        \<and> (\<forall>s'. advance_allocations ts i s = Inr s' \<longrightarrow> settled s'))"
proof (cases "drop (rt_next_allocation s) (rt_allocations s)")
  case Nil
  then show ?thesis by (simp add: advance_allocations_def)
next
  case (Cons a as)
  show ?thesis
  proof (cases "fell_due ts i a")
    case False
    then show ?thesis by (simp add: advance_allocations_def Cons advance_loop_Cons)
  next
    case True
    have "a \<in> set (rt_allocations s)" using Cons by (metis in_set_dropD list.set_intros(1))
    then have l: "late s (as_snapshot_ts_us a)" using assms by (simp add: corrections_late_def)
    have "settled s'" if adv: "advance_allocations ts i s = Inr s'" for s'
    proof -
      obtain s1 where s1: "apply_allocation a s = Inr s1"
        "advance_loop ts i as (s1\<lparr>rt_next_allocation := rt_next_allocation s1 + 1\<rparr>) = Inr s'"
        using adv True by (auto simp: advance_allocations_def Cons advance_loop_Cons rbind_Inr_iff)
      show ?thesis using advance_loop_settled [OF s1(2)] apply_allocation_settles [OF s1(1)] l by (simp add: settled_pending)
    qed
    then show ?thesis
      using True by (simp add: advance_allocations_def Cons advance_loop_Cons apply_allocation_activated [OF l])
  qed
qed

lemma advance_activated_settles:
  assumes "corrections_late s" and "late s t"
  shows "advance_allocations ts i (activate_snapshot_at t s) = rmap (activate_snapshot_at t) (advance_allocations ts i s)"
  using advance_activated [OF assms(1), of ts i t]
  by (cases "advance_allocations ts i s") (auto simp: rmap_def settled_activate)

subsection \<open>The fill handler\<close>

lemma apply_fill_activated:
  assumes "corrections_late s" and "late s (pf_fill_ts_us f)"
  shows "timeline_apply_fill f (activate_snapshot_at t s) = timeline_apply_fill f s"
  using advance_activated [OF assms(1), of "pf_fill_ts_us f" False t]
  by (elim disjE) (simp_all add: timeline_apply_fill_def activate_late [OF assms(2)])

text \<open>A fill applies the corrections before it, so applying some of them in advance does not show.\<close>

lemma apply_fill_advanced:
  assumes "advance_allocations t i s = Inr s'" and "t < pf_fill_ts_us f"
  shows "timeline_apply_fill f s' = timeline_apply_fill f s"
  using advance_advance [OF assms(1), of "pf_fill_ts_us f" False] assms(2) by (simp add: timeline_apply_fill_def)

lemma apply_fill_fields:
  assumes "timeline_apply_fill f s = Inr s'"
  shows "rt_allocations s' = rt_allocations s \<and> rt_snapshot_ts_us s' = rt_snapshot_ts_us s"
proof -
  obtain s1 where s1: "advance_allocations (pf_fill_ts_us f) False s = Inr s1"
    using assms unfolding timeline_apply_fill_def by (auto simp: rbind_Inr_iff)
  have "rt_allocations s' = rt_allocations s1 \<and> rt_snapshot_ts_us s' = rt_snapshot_ts_us s1"
    using assms unfolding timeline_apply_fill_def Let_def s1 rbind_simps by (auto simp: rbind_Inr_iff split: if_splits)
  then show ?thesis using advance_fields [OF s1] by simp
qed

lemma apply_fill_settles:
  assumes "timeline_apply_fill f s = Inr s'" and "late s (pf_fill_ts_us f)"
  shows "settled s'"
proof -
  obtain s1 where s1: "advance_allocations (pf_fill_ts_us f) False s = Inr s1"
    using assms(1) unfolding timeline_apply_fill_def by (auto simp: rbind_Inr_iff)
  let ?s = "activate_snapshot_at (pf_fill_ts_us f) s1"
  have "rt_pending_initial_states s' = rt_pending_initial_states ?s
      \<and> rt_pending_initial_strategy_states s' = rt_pending_initial_strategy_states ?s \<and> rt_snapshot_ts_us s' = rt_snapshot_ts_us ?s"
    using assms(1) unfolding timeline_apply_fill_def Let_def s1 rbind_simps by (auto simp: rbind_Inr_iff split: if_splits)
  moreover have "late s1 (pf_fill_ts_us f)" using assms(2) advance_fields(2) [OF s1] by (simp add: late_def)
  then have "settled ?s" by (rule settled_late)
  ultimately show ?thesis by (simp add: settled_pending)
qed

end
