(* ===== verification/Checkpoint.thy ===== *)
theory Checkpoint
  imports Corrections "HOL-Library.Multiset"
begin

text \<open>
  Hourly checkpoints are sound: refreshing a cached source with new events, or with fills whose
  liquidity became known, gives the cache that rebuilding the source from the merged fills gives.
  The argument is that a checkpoint stores the state of the loop over a prefix of the fills, all
  earlier than the checkpoint, and that a change at or after the checkpoint leaves that prefix and
  the checkpoint itself as they were.
\<close>

subsection \<open>The replay loop\<close>

definition symbols_after :: "(string, i64) bmap \<Rightarrow> prepared_fill list \<Rightarrow> (string, i64) bmap" where
  "symbols_after m fs = foldl (\<lambda>m f. bm_min (ne_symbol (pf_event f)) (pf_fill_ts_us f) m) m fs"

definition strategies_after :: "bool \<Rightarrow> (string, i64) bmap \<Rightarrow> prepared_fill list \<Rightarrow> (string, i64) bmap" where
  "strategies_after active m fs = foldl (\<lambda>m f. bm_min (strategy_bucket active f) (pf_fill_ts_us f) m) m fs"

lemma take_checkpoint_fields [simp]:
  "rp_symbols (take_checkpoint i f r) = rp_symbols r"
  "rp_strategies (take_checkpoint i f r) = rp_strategies r"
  "rt_allocations (rp_state (take_checkpoint i f r)) = rt_allocations (rp_state r)"
  "rt_snapshot_ts_us (rp_state (take_checkpoint i f r)) = rt_snapshot_ts_us (rp_state r)"
  by (simp_all add: take_checkpoint_def Let_def)

lemma index_fill_fields [simp]:
  "rp_state (index_fill active f r) = rp_state r"
  "rp_checkpoints (index_fill active f r) = rp_checkpoints r"
  "rp_next_checkpoint (index_fill active f r) = rp_next_checkpoint r"
  by (simp_all add: index_fill_def)

lemma replay_step_Inr:
  assumes "replay_step active r (i, f) = Inr r'"
  shows "rp_symbols r' = bm_min (ne_symbol (pf_event f)) (pf_fill_ts_us f) (rp_symbols r)
    \<and> rp_strategies r' = bm_min (strategy_bucket active f) (pf_fill_ts_us f) (rp_strategies r)
    \<and> rp_checkpoints r' = rp_checkpoints (take_checkpoint i f r)
    \<and> rp_next_checkpoint r' = rp_next_checkpoint (take_checkpoint i f r)
    \<and> timeline_apply_fill f (rp_state (take_checkpoint i f r)) = Inr (rp_state r')"
proof -
  have "rp_checkpoints (take_checkpoint i f (index_fill active f r)) = rp_checkpoints (take_checkpoint i f r)"
    "rp_next_checkpoint (take_checkpoint i f (index_fill active f r)) = rp_next_checkpoint (take_checkpoint i f r)"
    "rp_state (take_checkpoint i f (index_fill active f r)) = rp_state (take_checkpoint i f r)"
    by (simp_all add: take_checkpoint_def Let_def)
  then show ?thesis
    using assms by (auto simp: replay_step_def rbind_Inr_iff index_fill_def)
qed

abbreviation run_fills :: "bool \<Rightarrow> replay_state \<Rightarrow> nat \<Rightarrow> prepared_fill list \<Rightarrow> nav_error + replay_state" where
  "run_fills active r n fs \<equiv> rfold (replay_step active) r (enumerate n fs)"

lemma run_fills_append:
  "run_fills active r n (fs @ gs) = rbind (run_fills active r n fs) (\<lambda>r'. run_fills active r' (n + length fs) gs)"
  by (simp add: enumerate_append_eq rfold_append)

lemma run_fills_snoc:
  assumes "run_fills active r n (fs @ [f]) = Inr r'"
  obtains r1 where "run_fills active r n fs = Inr r1" and "replay_step active r1 (n + length fs, f) = Inr r'"
  using assms by (auto simp: run_fills_append rbind_Inr_iff)

lemma run_fills_fields:
  assumes "run_fills active r n fs = Inr r'"
  shows "rp_symbols r' = symbols_after (rp_symbols r) fs
    \<and> rp_strategies r' = strategies_after active (rp_strategies r) fs
    \<and> rt_allocations (rp_state r') = rt_allocations (rp_state r) \<and> rt_snapshot_ts_us (rp_state r') = rt_snapshot_ts_us (rp_state r)"
  using assms
proof (induction fs arbitrary: r' rule: rev_induct)
  case Nil
  then show ?case by (simp add: symbols_after_def strategies_after_def)
next
  case (snoc f fs)
  obtain r1 where r1: "run_fills active r n fs = Inr r1" and step: "replay_step active r1 (n + length fs, f) = Inr r'"
    using run_fills_snoc [OF snoc.prems] .
  note I = snoc.IH [OF r1] and S = replay_step_Inr [OF step]
  have "rt_allocations (rp_state r') = rt_allocations (rp_state r1) \<and> rt_snapshot_ts_us (rp_state r') = rt_snapshot_ts_us (rp_state r1)"
    using apply_fill_fields [of f "rp_state (take_checkpoint (n + length fs) f r1)" "rp_state r'"] S I by simp
  then show ?case using I S by (simp add: symbols_after_def strategies_after_def)
qed

text \<open>What a checkpoint stores: the loop's state over a prefix, settled at the hour of the next fill.\<close>

lemma run_fills_checkpoint:
  assumes "run_fills active r0 0 fs = Inr r" and "rp_checkpoints r0 = []" and "i < length (rp_checkpoints r)"
  shows "cp_next_fill (rp_checkpoints r ! i) < length fs \<and>
    (\<exists>rk N. run_fills active r0 0 (take (cp_next_fill (rp_checkpoints r ! i)) fs) = Inr rk
       \<and> rp_checkpoints rk = take i (rp_checkpoints r) \<and> rp_next_checkpoint rk = Some N
       \<and> N \<le> pf_fill_ts_us (fs ! cp_next_fill (rp_checkpoints r ! i))
       \<and> cp_ts_us (rp_checkpoints r ! i) = checkpoint_floor (pf_fill_ts_us (fs ! cp_next_fill (rp_checkpoints r ! i)))
       \<and> cp_state (rp_checkpoints r ! i) = activate_snapshot_at (cp_ts_us (rp_checkpoints r ! i)) (rp_state rk))"
  using assms(1,3)
proof (induction fs arbitrary: r rule: rev_induct)
  case Nil
  then show ?case using assms(2) by simp
next
  case (snoc f fs)
  obtain r1 where r1: "run_fills active r0 0 fs = Inr r1" and step: "replay_step active r1 (0 + length fs, f) = Inr r"
    using run_fills_snoc [OF snoc.prems(1)] .
  note S = replay_step_Inr [OF step]
  show ?case
  proof (cases "i < length (rp_checkpoints r1)")
    case True
    have "rp_checkpoints r ! i = rp_checkpoints r1 ! i \<and> take i (rp_checkpoints r) = take i (rp_checkpoints r1)"
      using S True by (auto simp: take_checkpoint_def Let_def nth_append)
    then show ?thesis using snoc.IH [OF r1 True] by (auto simp: nth_append)
  next
    case False
    then have new: "rp_checkpoints r \<noteq> rp_checkpoints r1" using snoc.prems(2) by auto
    then obtain N where N: "rp_next_checkpoint r1 = Some N" "N \<le> pf_fill_ts_us f"
      using S by (auto simp: take_checkpoint_def Let_def split: option.splits if_splits)
    then have cps: "rp_checkpoints r = rp_checkpoints r1 @
        [\<lparr>cp_ts_us = checkpoint_floor (pf_fill_ts_us f), cp_next_fill = length fs,
          cp_state = activate_snapshot_at (checkpoint_floor (pf_fill_ts_us f)) (rp_state r1)\<rparr>]"
      using S by (simp add: take_checkpoint_def Let_def)
    then have i: "i = length (rp_checkpoints r1)" using False snoc.prems(2) by simp
    show ?thesis using r1 N by (simp add: cps i nth_append)
  qed
qed

subsection \<open>Hours\<close>

definition in_time :: "i64 \<Rightarrow> bool" where
  "in_time t \<longleftrightarrow> \<bar>t\<bar> \<le> 2 ^ 62"

definition hour_floor :: "i64 \<Rightarrow> i64" where
  "hour_floor t = t div checkpoint_us * checkpoint_us"

lemma hour_floor_bounds: "hour_floor t \<le> t" "t < hour_floor t + checkpoint_us" "hour_floor t mod checkpoint_us = 0"
proof -
  have c: "0 < checkpoint_us" by (simp add: checkpoint_us_def)
  have "hour_floor t + t mod checkpoint_us = t" by (simp add: hour_floor_def)
  then show "hour_floor t \<le> t" "t < hour_floor t + checkpoint_us"
    using pos_mod_bound [OF c, of t] pos_mod_sign [OF c, of t] by linarith+
  show "hour_floor t mod checkpoint_us = 0" by (simp add: hour_floor_def)
qed

lemma hour_multiple_floor:
  assumes "n mod checkpoint_us = 0" and "n \<le> t"
  shows "n \<le> hour_floor t"
proof -
  obtain k where k: "n = k * checkpoint_us" using assms(1) by (auto simp: mod_eq_0_iff_dvd dvd_def mult.commute)
  have "k \<le> t div checkpoint_us"
    using assms(2) unfolding k by (simp add: checkpoint_us_def)
  then show ?thesis by (simp add: k hour_floor_def checkpoint_us_def)
qed

lemma hour_floor_unique:
  assumes "n mod checkpoint_us = 0" and "n \<le> t" and "t < n + checkpoint_us"
  shows "hour_floor t = n"
proof -
  obtain k where k: "n = checkpoint_us * k" using assms(1) by (auto simp: mod_eq_0_iff_dvd dvd_def)
  have "t div checkpoint_us = k"
    using assms(2,3) k by (intro int_div_pos_eq [of _ _ _ "t - n"]) simp_all
  then show ?thesis by (simp add: hour_floor_def k)
qed

lemma in_time_hour:
  assumes "in_time t"
  shows "in_i64 (hour_floor t)" and "in_i64 (hour_floor t + checkpoint_us)"
  using hour_floor_bounds(1,2) [of t] assms
  by (simp_all add: in_time_def in_i64_def i64_min_def i64_max_def checkpoint_us_def abs_le_iff)

lemma checkpoint_floor_eq: "in_time t \<Longrightarrow> checkpoint_floor t = hour_floor t"
  using in_time_hour(1) [of t] unfolding checkpoint_floor_def hour_floor_def by simp

lemma checkpoint_next_eq: "in_time t \<Longrightarrow> sat64 (hour_floor t + checkpoint_us) = hour_floor t + checkpoint_us"
  using in_time_hour(2) [of t] by simp

lemma checkpoint_after_eq: "in_time t \<Longrightarrow> checkpoint_after t = hour_floor t + checkpoint_us"
  using in_time_hour(2) [of t] unfolding checkpoint_after_def hour_floor_def distrib_right by simp

text \<open>The next checkpoint is a full hour, after the anchor, after every fill and checkpoint so far.\<close>

definition hour_ahead :: "i64 option \<Rightarrow> replay_state \<Rightarrow> i64 \<Rightarrow> bool" where
  "hour_ahead snap r N \<longleftrightarrow> rp_next_checkpoint r = Some N \<and> N mod checkpoint_us = 0
     \<and> (case snap of None \<Rightarrow> True | Some a \<Rightarrow> a < N)
     \<and> sorted_wrt (<) (map cp_ts_us (rp_checkpoints r)) \<and> (\<forall>cp \<in> set (rp_checkpoints r). cp_ts_us cp < N)"

lemma run_fills_hours:
  assumes "run_fills active r n fs = Inr r'" and "hour_ahead snap r N"
    and "sorted (map pf_fill_ts_us fs)" and "\<forall>f \<in> set fs. in_time (pf_fill_ts_us f)"
  shows "\<exists>N'. hour_ahead snap r' N' \<and> N \<le> N' \<and> (\<forall>f \<in> set fs. pf_fill_ts_us f < N')"
  using assms(1,3,4)
proof (induction fs arbitrary: r' rule: rev_induct)
  case Nil
  then show ?case using assms(2) by auto
next
  case (snoc f fs)
  obtain r1 where r1: "run_fills active r n fs = Inr r1" and step: "replay_step active r1 (n + length fs, f) = Inr r'"
    using run_fills_snoc [OF snoc.prems(1)] .
  obtain N1 where N1: "hour_ahead snap r1 N1" "N \<le> N1" "\<forall>g \<in> set fs. pf_fill_ts_us g < N1"
    using snoc.IH [OF r1] snoc.prems(2,3) by (auto simp: sorted_append)
  note S = replay_step_Inr [OF step]
  let ?t = "pf_fill_ts_us f"
  have le: "pf_fill_ts_us g \<le> ?t" if "g \<in> set fs" for g using snoc.prems(2) that by (auto simp: sorted_append)
  have t: "in_time ?t" using snoc.prems(3) by simp
  show ?case
  proof (cases "N1 \<le> ?t")
    case False
    then have "rp_checkpoints r' = rp_checkpoints r1" "rp_next_checkpoint r' = Some N1"
      using S N1(1) by (auto simp: take_checkpoint_def hour_ahead_def)
    then have "hour_ahead snap r' N1" using N1(1) by (simp add: hour_ahead_def)
    then show ?thesis using N1 False by (intro exI [of _ N1]) auto
  next
    case True
    have floor: "N1 \<le> hour_floor ?t" using N1(1) True by (intro hour_multiple_floor) (simp_all add: hour_ahead_def)
    have cps: "map cp_ts_us (rp_checkpoints r') = map cp_ts_us (rp_checkpoints r1) @ [hour_floor ?t]"
      "rp_next_checkpoint r' = Some (hour_floor ?t + checkpoint_us)"
      using S N1(1) True t
      by (simp_all add: take_checkpoint_def Let_def hour_ahead_def checkpoint_floor_eq checkpoint_next_eq)
    have set: "cp_ts_us ` set (rp_checkpoints r') = insert (hour_floor ?t) (cp_ts_us ` set (rp_checkpoints r1))"
      using cps(1) by (metis list.set_map list.simps(15) rotate1.simps(2) set_rotate1 set_append Un_insert_right sup_bot.right_neutral list.set(1))
    have "hour_ahead snap r' (hour_floor ?t + checkpoint_us)"
    proof -
      have "\<forall>x \<in> cp_ts_us ` set (rp_checkpoints r'). x < hour_floor ?t + checkpoint_us"
        unfolding set using N1(1) floor by (auto simp: hour_ahead_def checkpoint_us_def)
      moreover have "sorted_wrt (<) (map cp_ts_us (rp_checkpoints r'))"
        unfolding cps(1) using N1(1) floor by (auto simp: hour_ahead_def sorted_wrt_append)
      ultimately show ?thesis
        using N1(1) floor hour_floor_bounds(3) [of ?t]
        by (auto simp: hour_ahead_def cps(2) checkpoint_us_def split: option.splits)
    qed
    moreover have "\<forall>g \<in> set (fs @ [f]). pf_fill_ts_us g < hour_floor ?t + checkpoint_us"
      using le hour_floor_bounds(2) [of ?t] by fastforce
    ultimately show ?thesis using N1(2) floor
      by (intro exI [of _ "hour_floor ?t + checkpoint_us"]) (simp add: checkpoint_us_def)
  qed
qed

subsection \<open>Sorting the fills\<close>

lemma filter_key_sort:
  "filter (\<lambda>x. k = f x) (sort_key f xs) = filter (\<lambda>x. k = f x) xs"
proof -
  have "sorted (map f (filter (\<lambda>x. k = f x) xs))"
    by (induction xs) auto
  then show ?thesis by (simp add: filter_sort sort_key_id_if_sorted)
qed

lemma sort_key_sorted_part: "sort_key f (xs @ sort_key f ys) = sort_key f (xs @ ys)"
  by (rule properties_for_sort_key) (simp_all add: filter_key_sort)

lemma sort_key_prefix:
  assumes "sorted (map f xs)" and "\<forall>x \<in> set xs. \<forall>y \<in> set ys. f x \<le> f y"
  shows "sort_key f (xs @ ys) = xs @ sort_key f ys"
  by (rule properties_for_sort_key)
    (use assms in \<open>auto simp: filter_key_sort sorted_append\<close>)

lemma fill_order_ts:
  "fill_order_key f \<le> fill_order_key g \<Longrightarrow> pf_fill_ts_us f \<le> pf_fill_ts_us g"
  by (auto simp: fill_order_key_def less_eq_prod_def)

lemma fill_order_less_ts:
  "pf_fill_ts_us f < pf_fill_ts_us g \<Longrightarrow> fill_order_key f \<le> fill_order_key g"
  by (auto simp: fill_order_key_def less_eq_prod_def)

lemma sorted_fills_ts: "sorted (map fill_order_key fs) \<Longrightarrow> sorted (map pf_fill_ts_us fs)"
  unfolding sorted_wrt_map by (rule sorted_wrt_mono_rel) (rule fill_order_ts)

lemma reclassify_fields [simp]:
  "fill_order_key (reclassify roles f) = fill_order_key f"
  "pf_fill_ts_us (reclassify roles f) = pf_fill_ts_us f"
  by (simp_all add: reclassify_def fill_order_key_def)

lemma length_takeWhile_ge:
  "k \<le> length xs \<Longrightarrow> \<forall>x \<in> set (take k xs). P x \<Longrightarrow> k \<le> length (takeWhile P xs)"
  by (induction k arbitrary: xs) (auto simp: Suc_le_length_iff)

subsection \<open>Restarting at a checkpoint\<close>

definition min_after :: "('f \<Rightarrow> string) \<Rightarrow> ('f \<Rightarrow> int) \<Rightarrow> 'f list \<Rightarrow> (string, int) bmap" where
  "min_after key t fs = foldl (\<lambda>m f. bm_min (key f) (t f) m) [] fs"

lemma min_after_values: "bm_get (min_after key t fs) k = Some v \<Longrightarrow> \<exists>f \<in> set fs. t f = v"
  unfolding min_after_def
  by (induction fs arbitrary: v rule: rev_induct) (auto simp: bm_get_min min_def split: option.splits if_splits)

lemma before_min_after:
  assumes "\<forall>f \<in> set (take k fs). t f < c" and "\<forall>f \<in> set (drop k fs). c \<le> t f"
  shows "before_ts c (min_after key t fs) = min_after key t (take k fs)"
proof -
  have r: "before_ts c m = bm_retain (\<lambda>_ old. old < c) m" for m :: "(string, int) bmap"
    by (simp add: before_ts_def bm_retain_def)
  have wf: "bm_wf (min_after key t xs)" for xs by (simp add: min_after_def)
  have "min_after key t fs = foldl (\<lambda>m f. bm_min (key f) (t f) m) (min_after key t (take k fs)) (drop k fs)"
    unfolding min_after_def by (metis append_take_drop_id foldl_append)
  then have "before_ts c (min_after key t fs) = before_ts c (min_after key t (take k fs))"
    using bm_retain_before_fold [OF wf, of "drop k fs" c t key] assms(2) by (simp add: r)
  also have "\<dots> = min_after key t (take k fs)"
    unfolding r
  proof (rule bm_retain_all)
    fix x v assume "(x, v) \<in> set (min_after key t (take k fs))"
    then have "bm_get (min_after key t (take k fs)) x = Some v" using bm_get_mem [OF wf] by blast
    then show "v < c" using min_after_values [of key t "take k fs"] assms(1) by blast
  qed
  finally show ?thesis .
qed

definition fills_ok :: "i64 option \<Rightarrow> prepared_fill list \<Rightarrow> bool" where
  "fills_ok snap fs \<longleftrightarrow> sorted (map fill_order_key fs)
     \<and> (\<forall>f \<in> set fs. in_time (pf_fill_ts_us f) \<and> (case snap of None \<Rightarrow> True | Some a \<Rightarrow> a < pf_fill_ts_us f))"

definition fresh :: "replay_state \<Rightarrow> bool" where
  "fresh r \<longleftrightarrow> rp_checkpoints r = [] \<and> rp_symbols r = [] \<and> rp_strategies r = [] \<and> rt_allocations (rp_state r) = []"

lemma fresh_checkpoints: "fresh r \<Longrightarrow> rp_checkpoints r = []"
  by (simp add: fresh_def)

definition restart_at :: "replay_state \<Rightarrow> fifo_checkpoint \<Rightarrow> fifo_checkpoint list \<Rightarrow> replay_state" where
  "restart_at r cp cps =
     \<lparr>rp_state = cp_state cp, rp_checkpoints = cps, rp_symbols = before_ts (cp_ts_us cp) (rp_symbols r),
      rp_strategies = before_ts (cp_ts_us cp) (rp_strategies r),
      rp_next_checkpoint = Some (sat64 (cp_ts_us cp + checkpoint_us))\<rparr>"

text \<open>The fills before a checkpoint are before its hour, the others are not.\<close>

lemma checkpoint_splits_fills:
  assumes run: "run_fills active r0 0 fs = Inr r" and none: "rp_checkpoints r0 = []"
    and ahead: "hour_ahead snap r0 N0" and ok: "fills_ok snap fs" and i: "i < length (rp_checkpoints r)"
    and cp: "cp = rp_checkpoints r ! i" and k: "k = cp_next_fill cp"
  shows "k < length fs \<and> (\<forall>f \<in> set (take k fs). pf_fill_ts_us f < cp_ts_us cp)
    \<and> (\<forall>f \<in> set (drop k fs). cp_ts_us cp \<le> pf_fill_ts_us f)
    \<and> cp_ts_us cp \<le> pf_fill_ts_us (fs ! k) \<and> pf_fill_ts_us (fs ! k) < cp_ts_us cp + checkpoint_us
    \<and> cp_ts_us cp = hour_floor (pf_fill_ts_us (fs ! k)) \<and> in_time (pf_fill_ts_us (fs ! k))
    \<and> (\<exists>rk N. run_fills active r0 0 (take k fs) = Inr rk \<and> rp_checkpoints rk = take i (rp_checkpoints r)
         \<and> hour_ahead snap rk N \<and> N \<le> cp_ts_us cp \<and> cp_state cp = activate_snapshot_at (cp_ts_us cp) (rp_state rk))"
proof -
  obtain rk N where kl: "k < length fs" and rk: "run_fills active r0 0 (take k fs) = Inr rk"
    "rp_checkpoints rk = take i (rp_checkpoints r)" "rp_next_checkpoint rk = Some N" "N \<le> pf_fill_ts_us (fs ! k)"
    and ts: "cp_ts_us cp = checkpoint_floor (pf_fill_ts_us (fs ! k))"
    and st: "cp_state cp = activate_snapshot_at (cp_ts_us cp) (rp_state rk)"
    using run_fills_checkpoint [OF run none i] unfolding cp k by blast
  have sorted: "sorted (map pf_fill_ts_us fs)" using ok by (simp add: fills_ok_def sorted_fills_ts)
  have it: "\<forall>f \<in> set fs. in_time (pf_fill_ts_us f)" using ok by (simp add: fills_ok_def)
  then have itk: "in_time (pf_fill_ts_us (fs ! k))" using kl by simp
  then have ts': "cp_ts_us cp = hour_floor (pf_fill_ts_us (fs ! k))" using ts checkpoint_floor_eq by simp
  have "sorted (map pf_fill_ts_us (take k fs))" using sorted by (simp add: sorted_wrt_take take_map [symmetric])
  moreover have "\<forall>f \<in> set (take k fs). in_time (pf_fill_ts_us f)" using it by (auto dest: in_set_takeD)
  ultimately obtain N' where N': "hour_ahead snap rk N'" "\<forall>f \<in> set (take k fs). pf_fill_ts_us f < N'"
    using run_fills_hours [OF rk(1) ahead] by blast
  then have NN: "N' = N" using rk(3) by (simp add: hour_ahead_def)
  then have le: "N \<le> cp_ts_us cp"
    using N'(1) rk(4) unfolding ts' by (intro hour_multiple_floor) (simp_all add: hour_ahead_def)
  have drop: "pf_fill_ts_us (fs ! k) \<le> pf_fill_ts_us f" if m: "f \<in> set (drop k fs)" for f
  proof -
    obtain i where "i < length (drop k fs)" "drop k fs ! i = f" using m unfolding in_set_conv_nth by blast
    then obtain j where "f = fs ! j" "k \<le> j" "j < length fs"
      using kl by (intro that [of "k + i"]) auto
    then show ?thesis using sorted_nth_mono [OF sorted, of k j] by simp
  qed
  have "\<forall>f \<in> set (take k fs). pf_fill_ts_us f < cp_ts_us cp" using N'(2) NN le by fastforce
  moreover have "\<forall>f \<in> set (drop k fs). cp_ts_us cp \<le> pf_fill_ts_us f"
    using drop hour_floor_bounds(1) [of "pf_fill_ts_us (fs ! k)"] ts' by fastforce
  moreover have "\<exists>rk N. run_fills active r0 0 (take k fs) = Inr rk \<and> rp_checkpoints rk = take i (rp_checkpoints r)
      \<and> hour_ahead snap rk N \<and> N \<le> cp_ts_us cp \<and> cp_state cp = activate_snapshot_at (cp_ts_us cp) (rp_state rk)"
    using rk N'(1) NN le st by blast
  ultimately show ?thesis
    using kl ts' itk hour_floor_bounds [of "pf_fill_ts_us (fs ! k)"] by simp
qed

lemma run_fills_min:
  assumes "run_fills active r0 0 fs = Inr r" and "fresh r0"
  shows "rp_symbols r = min_after (\<lambda>f. ne_symbol (pf_event f)) pf_fill_ts_us fs"
    and "rp_strategies r = min_after (strategy_bucket active) pf_fill_ts_us fs"
  using run_fills_fields [OF assms(1)] assms(2)
  by (simp_all add: fresh_def symbols_after_def strategies_after_def min_after_def)

lemma take_checkpoint_index_fill:
  "take_checkpoint i f (index_fill active f r) = index_fill active f (take_checkpoint i f r)"
  by (simp add: take_checkpoint_def index_fill_def Let_def)

lemma replay_step_eqI:
  assumes "take_checkpoint i f r = take_checkpoint i f r'"
  shows "replay_step active r (i, f) = replay_step active r' (i, f)"
  by (simp add: replay_step_def take_checkpoint_index_fill assms)

text \<open>Starting over at a checkpoint is starting over, when the fills before it are the same.\<close>

lemma restart_at_checkpoint:
  assumes run: "run_fills active r0 0 fs = Inr r" and fresh: "fresh r0"
    and ahead: "hour_ahead snap r0 N0" and ok: "fills_ok snap fs" and i: "i < length (rp_checkpoints r)"
    and cp: "cp = rp_checkpoints r ! i" and k: "k = cp_next_fill cp"
    and same: "take k fs' = take k fs" and more: "k < length fs'"
    and it: "in_time (pf_fill_ts_us (fs' ! k))" and lo: "cp_ts_us cp \<le> pf_fill_ts_us (fs' ! k)" and hi: "pf_fill_ts_us (fs' ! k) \<le> pf_fill_ts_us (fs ! k)"
  shows "run_fills active r0 0 fs'
    = run_fills active (restart_at r cp (take (Suc i) (rp_checkpoints r))) k (drop k fs')"
proof -
  note C = checkpoint_splits_fills [OF run fresh_checkpoints [OF fresh] ahead ok i cp k]
  from C obtain rk N where rk: "run_fills active r0 0 (take k fs) = Inr rk" "rp_checkpoints rk = take i (rp_checkpoints r)"
    "rp_next_checkpoint rk = Some N" "N \<le> cp_ts_us cp" "cp_state cp = activate_snapshot_at (cp_ts_us cp) (rp_state rk)"
    by (auto simp: hour_ahead_def)
  let ?f = "fs' ! k" and ?r = "restart_at r cp (take (Suc i) (rp_checkpoints r))"
  have floor: "hour_floor (pf_fill_ts_us ?f) = cp_ts_us cp"
    using C lo hi hour_floor_bounds(3) [of "pf_fill_ts_us (fs ! k)"]
    by (intro hour_floor_unique) auto
  have sat: "sat64 (cp_ts_us cp + checkpoint_us) = cp_ts_us cp + checkpoint_us"
    using checkpoint_next_eq [OF it] floor by simp
  have split: "fs = take k fs @ drop k fs" by simp
  note M = run_fills_min [OF run fresh] and Mk = run_fills_min [OF rk(1) fresh]
  have sym: "before_ts (cp_ts_us cp) (rp_symbols r) = rp_symbols rk"
    "before_ts (cp_ts_us cp) (rp_strategies r) = rp_strategies rk"
    unfolding M Mk using C by (intro before_min_after; blast)+
  have "take_checkpoint k ?f rk = ?r"
  proof -
    have N: "N \<le> pf_fill_ts_us ?f" using rk(4) lo by linarith
    have "\<lparr>cp_ts_us = cp_ts_us cp, cp_next_fill = k, cp_state = activate_snapshot_at (cp_ts_us cp) (rp_state rk)\<rparr> = cp"
      using k rk(5) by (cases cp) simp
    moreover have "checkpoint_floor (pf_fill_ts_us ?f) = cp_ts_us cp" using checkpoint_floor_eq [OF it] floor by simp
    moreover have "take (Suc i) (rp_checkpoints r) = rp_checkpoints rk @ [cp]"
      using i rk(2) by (simp add: take_Suc_conv_app_nth cp)
    ultimately show ?thesis
      using rk(3,5) N sym by (simp add: take_checkpoint_def restart_at_def Let_def)
  qed
  moreover have "take_checkpoint k ?f ?r = ?r"
  proof -
    have "pf_fill_ts_us (fs ! k) < cp_ts_us cp + checkpoint_us" using C by blast
    then have "\<not> sat64 (cp_ts_us cp + checkpoint_us) \<le> pf_fill_ts_us ?f" unfolding sat using hi by linarith
    then show ?thesis by (simp add: take_checkpoint_def restart_at_def)
  qed
  ultimately have step: "replay_step active rk (k, ?f) = replay_step active ?r (k, ?f)"
    by (intro replay_step_eqI) simp
  have tail: "drop k fs' = ?f # drop (Suc k) fs'" using more by (simp add: Cons_nth_drop_Suc)
  have "run_fills active r0 0 fs' = run_fills active r0 0 (take k fs' @ drop k fs')" by simp
  also have "\<dots> = run_fills active rk k (drop k fs')"
    unfolding run_fills_append same rk(1) using C by simp
  also have "\<dots> = run_fills active ?r k (drop k fs')"
    unfolding tail by (simp add: step)
  finally show ?thesis .
qed

subsection \<open>Appending\<close>

lemma run_fills_activated:
  assumes "rt_allocations (rp_state r) = []" and "rt_snapshot_ts_us (rp_state r) = snap"
    and "case snap of None \<Rightarrow> True | Some a \<Rightarrow> \<exists>N. hour_ahead snap r N"
    and "fills_ok snap (f # fs)"
  shows "run_fills active (r\<lparr>rp_state := activate_snapshot_at t (rp_state r)\<rparr>) n (f # fs) = run_fills active r n (f # fs)"
proof (cases snap)
  case None
  then have "activate_snapshot_at t (rp_state r) = rp_state r"
    using assms(2) by (intro activate_not_due) (simp add: due_def)
  then show ?thesis by simp
next
  case (Some a)
  then obtain N where N: "rp_next_checkpoint r = Some N" "N mod checkpoint_us = 0" "a < N"
    using assms(3) by (auto simp: hour_ahead_def)
  have f: "in_time (pf_fill_ts_us f)" "a < pf_fill_ts_us f" using assms(4) Some by (simp_all add: fills_ok_def)
  let ?r = "r\<lparr>rp_state := activate_snapshot_at t (rp_state r)\<rparr>"
  have "replay_step active ?r (n, f) = replay_step active r (n, f)"
  proof (cases "N \<le> pf_fill_ts_us f")
    case True
    have "a \<le> checkpoint_floor (pf_fill_ts_us f)"
      using hour_multiple_floor [OF N(2) True] N(3) checkpoint_floor_eq [OF f(1)] by simp
    then have "late (rp_state r) (checkpoint_floor (pf_fill_ts_us f))" using assms(2) Some by (simp add: late_def)
    then show ?thesis
      using N(1) True by (intro replay_step_eqI) (simp add: take_checkpoint_def Let_def activate_late)
  next
    case False
    then have "take_checkpoint n f ?r = ?r" "take_checkpoint n f r = r" using N(1) by (simp_all add: take_checkpoint_def)
    moreover have "timeline_apply_fill f (rp_state ?r) = timeline_apply_fill f (rp_state r)"
      using apply_fill_activated [of "rp_state r" f t] f assms(1,2) Some by (simp add: late_def)
    moreover have "(index_fill active f ?r)\<lparr>rp_state := x\<rparr> = (index_fill active f r)\<lparr>rp_state := x\<rparr>" for x
      by (simp add: index_fill_def)
    ultimately show ?thesis by (simp add: replay_step_def take_checkpoint_index_fill)
  qed
  then show ?thesis by simp
qed

subsection \<open>Building\<close>

definition strip :: "cached_source \<Rightarrow> cached_source" where
  "strip c = c\<lparr>cs_replayed_fills := 0\<rparr>"

definition build_start :: "prepared_source_events \<Rightarrow> timeline_state \<Rightarrow> replay_state" where
  "build_start p state =
     \<lparr>rp_state = state, rp_checkpoints = [], rp_symbols = [], rp_strategies = [],
      rp_next_checkpoint = map_option checkpoint_after (or_else (pe_snapshot_ts_us p) (first_fill_ts (pe_fill_events p)))\<rparr>"

text \<open>What is left after the loop, apart from the counter of replayed fills.\<close>

definition finished :: "source_config \<Rightarrow> prepared_source_events \<Rightarrow> nat \<Rightarrow> replay_state \<Rightarrow> cached_source" where
  "finished source p n r =
     (let s = activate_snapshot_at i64_max (rp_state r)
      in \<lparr>cs_prepared = p, cs_checkpoints = rp_checkpoints r, cs_symbols = rp_symbols r,
          cs_strategies = rp_strategies r, cs_report = source_report source p n s, cs_end_state = s,
          cs_next_checkpoint = rp_next_checkpoint r, cs_replayed_fills = 0\<rparr>)"

lemma rmap_rbind: "rmap f (rbind m g) = rbind m (\<lambda>x. rmap f (g x))"
  by (cases m) (simp_all add: rmap_def)

lemma rmap_Inr [simp]: "rmap f (Inr x) = Inr (f x)" "rmap f (Inl e) = Inl e"
  by (simp_all add: rmap_def)

lemma rbind_cong_Inr: "(\<And>x. m = Inr x \<Longrightarrow> f x = g x) \<Longrightarrow> rbind m f = rbind m g"
  by (cases m) simp_all

lemma rmap_strip_Some: "rmap (map_option strip) (rmap Some m) = rmap (Some \<circ> strip) m"
  by (cases m) simp_all

lemma replay_plain:
  assumes "pe_allocations p = []" and "rt_allocations (rp_state r0) = []"
  shows "rmap strip (replay source p n k r0) =
    rmap (finished source p n) (run_fills (pe_strategy_allocation_active p) r0 k (drop k (pe_fill_events p)))"
proof -
  let ?run = "run_fills (pe_strategy_allocation_active p) r0 k (drop k (pe_fill_events p))"
  have end_state: "advance_allocations i64_max True (activate_snapshot_at i64_max (rp_state r)) =
      Inr (activate_snapshot_at i64_max (rp_state r))" if "?run = Inr r" for r
    using run_fills_fields [OF that] assms(2) by simp
  have "index_allocations (pe_allocations p) r0 = r0" by (simp add: assms(1) index_allocations_def)
  then have "rmap strip (replay source p n k r0) = rbind ?run (\<lambda>r. Inr (finished source p n r))"
    unfolding replay_def rmap_rbind
    by (simp only:) (rule rbind_cong_Inr, simp add: end_state strip_def finished_def Let_def)
  then show ?thesis by (simp only: rmap_def rbind_def)
qed

lemma build_plain:
  assumes "pe_allocations p = []"
  shows "rmap strip (build source p n) =
    rbind (initial_timeline_state source p) (\<lambda>s.
      rmap (finished source p n) (run_fills (pe_strategy_allocation_active p) (build_start p s) 0 (pe_fill_events p)))"
  unfolding build_def rmap_rbind Let_def
proof (rule rbind_cong_Inr)
  fix s assume "initial_timeline_state source p = Inr s"
  then have "rt_allocations s = []" using assms by (auto simp: initial_timeline_state_def rbind_Inr_iff)
  then show "rmap strip (replay source p n 0 \<lparr>rp_state = s, rp_checkpoints = [], rp_symbols = [], rp_strategies = [],
        rp_next_checkpoint = map_option checkpoint_after (or_else (pe_snapshot_ts_us p) (first_fill_ts (pe_fill_events p)))\<rparr>)
      = rmap (finished source p n) (run_fills (pe_strategy_allocation_active p) (build_start p s) 0 (pe_fill_events p))"
    using replay_plain [OF assms] by (simp add: build_start_def)
qed

definition prepared_ok :: "prepared_source_events \<Rightarrow> bool" where
  "prepared_ok p \<longleftrightarrow> pe_allocations p = [] \<and> fills_ok (pe_snapshot_ts_us p) (pe_fill_events p)
     \<and> (case pe_snapshot_ts_us p of None \<Rightarrow> True | Some a \<Rightarrow> in_time a)"

text \<open>The times of a prepared source: fills in replay order and after the anchor, corrections not before it.\<close>

definition timed :: "prepared_source_events \<Rightarrow> bool" where
  "timed p \<longleftrightarrow> fills_ok (pe_snapshot_ts_us p) (pe_fill_events p)
     \<and> (case pe_snapshot_ts_us p of None \<Rightarrow> True | Some a \<Rightarrow> in_time a \<and> (\<forall>x \<in> set (pe_allocations p). a \<le> as_snapshot_ts_us x))"

lemma prepared_timed: "prepared_ok p \<Longrightarrow> timed p"
  by (auto simp: prepared_ok_def timed_def split: option.splits)

lemma timed_prepared: "timed p \<Longrightarrow> pe_allocations p = [] \<Longrightarrow> prepared_ok p"
  by (auto simp: prepared_ok_def timed_def split: option.splits)

lemma initial_state_fields:
  "initial_timeline_state source p = Inr s \<Longrightarrow>
     rt_allocations s = pe_allocations p \<and> rt_snapshot_ts_us s = pe_snapshot_ts_us p"
  by (auto simp: initial_timeline_state_def rbind_Inr_iff)

lemma build_start_fresh: "initial_timeline_state source p = Inr s \<Longrightarrow> pe_allocations p = [] \<Longrightarrow> fresh (build_start p s)"
  using initial_state_fields by (simp add: fresh_def build_start_def)

lemma build_start_ahead:
  assumes "timed p" and "pe_snapshot_ts_us p \<noteq> None \<or> pe_fill_events p \<noteq> []"
  shows "\<exists>N. hour_ahead (pe_snapshot_ts_us p) (build_start p s) N"
proof -
  obtain t where t: "or_else (pe_snapshot_ts_us p) (first_fill_ts (pe_fill_events p)) = Some t" "in_time t"
    "pe_snapshot_ts_us p = None \<or> pe_snapshot_ts_us p = Some t"
    using assms by (cases "pe_snapshot_ts_us p"; cases "pe_fill_events p")
      (auto simp: or_else_def first_fill_ts_def timed_def fills_ok_def)
  then show ?thesis
    using hour_floor_bounds [of t]
    by (intro exI [of _ "hour_floor t + checkpoint_us"])
      (auto simp: hour_ahead_def build_start_def checkpoint_after_eq)
qed

subsection \<open>The merged source\<close>

text \<open>What a refresh is to account for: all fills, each under its current liquidity role, in replay order.\<close>

definition merge_change :: "nav_source_history \<Rightarrow> history_change \<Rightarrow> prepared_source_events \<Rightarrow> nav_error + prepared_source_events" where
  "merge_change h change p =
     rbind (rfold (classify_event h) (p, []) (hc_events change)) (\<lambda>(p', added).
     Inr (p'\<lparr>pe_fill_events :=
       sort_key fill_order_key (map (reclassify (nh_liquidity_by_order h)) (pe_fill_events p) @ added)\<rparr>))"

definition same_base :: "prepared_source_events \<Rightarrow> prepared_source_events \<Rightarrow> bool" where
  "same_base p q \<longleftrightarrow> pe_allocations q = pe_allocations p \<and> pe_snapshot_ts_us q = pe_snapshot_ts_us p
     \<and> pe_initial_states q = pe_initial_states p \<and> pe_initial_strategy_states q = pe_initial_strategy_states p
     \<and> pe_strategy_allocation_active q = pe_strategy_allocation_active p"

lemma same_base_initial: "same_base p q \<Longrightarrow> initial_timeline_state source q = initial_timeline_state source p"
  by (simp add: same_base_def initial_timeline_state_def)

lemma classify_event_Inr:
  assumes "classify_event h (p, added) e = Inr (p', added')"
  shows "same_base p p' \<and> pe_fill_events p' = pe_fill_events p
    \<and> (added' = added \<or> (\<exists>f. added' = added @ [f] \<and> pf_fill_ts_us f = fifo_ts_us e
         \<and> (case pe_snapshot_ts_us p of None \<Rightarrow> True | Some a \<Rightarrow> a < pf_fill_ts_us f)))"
  using assms unfolding classify_event_def Let_def
  by (auto simp: same_base_def rbind_Inr_iff attribute_initial_position_def split: option.splits if_splits)

lemma classify_fold:
  assumes "rfold (classify_event h) (p, added) es = Inr (p', added')"
  shows "same_base p p' \<and> pe_fill_events p' = pe_fill_events p
    \<and> (\<forall>f \<in> set added'. f \<in> set added \<or> (\<exists>e \<in> set es. pf_fill_ts_us f = fifo_ts_us e
         \<and> (case pe_snapshot_ts_us p of None \<Rightarrow> True | Some a \<Rightarrow> a < pf_fill_ts_us f)))"
  using assms
proof (induction es arbitrary: p added)
  case Nil
  then show ?case by (simp add: same_base_def)
next
  case (Cons e es)
  obtain p1 a1 where step: "classify_event h (p, added) e = Inr (p1, a1)"
    and rest: "rfold (classify_event h) (p1, a1) es = Inr (p', added')"
    using Cons.prems by (auto simp: rbind_Inr_iff)
  note S = classify_event_Inr [OF step] and I = Cons.IH [OF rest]
  show ?case
  proof (intro conjI ballI)
    show "same_base p p'" "pe_fill_events p' = pe_fill_events p" using S I by (simp_all add: same_base_def)
    fix f assume "f \<in> set added'"
    then consider "f \<in> set a1" | e' where "e' \<in> set es" "pf_fill_ts_us f = fifo_ts_us e'"
      "case pe_snapshot_ts_us p1 of None \<Rightarrow> True | Some a \<Rightarrow> a < pf_fill_ts_us f" using I by blast
    then show "f \<in> set added \<or> (\<exists>e' \<in> set (e # es). pf_fill_ts_us f = fifo_ts_us e'
        \<and> (case pe_snapshot_ts_us p of None \<Rightarrow> True | Some a \<Rightarrow> a < pf_fill_ts_us f))"
    proof cases
      case 1
      then show ?thesis using S by auto
    next
      case 2
      moreover have "pe_snapshot_ts_us p1 = pe_snapshot_ts_us p" using S by (simp add: same_base_def)
      ultimately show ?thesis by auto
    qed
  qed
qed

lemma first_fill_min:
  assumes "sorted (map fill_order_key fs)" and "first_fill_ts fs = Some t" and "f \<in> set fs"
  shows "t \<le> pf_fill_ts_us f"
  using assms sorted_fills_ts [OF assms(1)] by (cases fs) (auto simp: first_fill_ts_def)

text \<open>The merged fills, when nothing before \<open>since\<close> changes: the old prefix, then the sorted rest.\<close>

lemma merged_at_cut:
  assumes fs: "sorted (map fill_order_key fs)" and added: "added = sort_key fill_order_key unsorted"
    and since_le: "\<forall>f \<in> set added. since \<le> pf_fill_ts_us f" and before: "\<forall>f \<in> set fs. pf_fill_ts_us f < since \<longrightarrow> reclassify roles f = f"
    and pl: "pl = fill_partition_point (\<lambda>f. pf_fill_ts_us f < since) fs"
    and tail: "tail1 = map (reclassify roles) (drop pl fs)"
  shows "take pl fs @ sort_key fill_order_key (tail1 @ added)
      = sort_key fill_order_key (map (reclassify roles) fs @ unsorted)"
    and "take pl fs = takeWhile (\<lambda>f. pf_fill_ts_us f < since) fs" and "pl = length (takeWhile (\<lambda>f. pf_fill_ts_us f < since) fs)"
    and "\<forall>f \<in> set (drop pl fs). since \<le> pf_fill_ts_us f"
proof -
  let ?P = "\<lambda>f. pf_fill_ts_us f < since"
  have sw: "sorted_wrt (\<lambda>f g. pf_fill_ts_us f \<le> pf_fill_ts_us g) fs"
    using sorted_fills_ts [OF fs] by (simp add: sorted_wrt_map)
  have "partition_point ?P fs = length (takeWhile ?P fs)" by (rule partition_point_sorted [OF sw]) simp
  then show pl': "pl = length (takeWhile ?P fs)" by (simp only: pl fill_partition_point_def partition_point_def)
  show tk: "take pl fs = takeWhile ?P fs" unfolding pl' by (rule takeWhile_eq_take [symmetric])
  have dr: "drop pl fs = dropWhile ?P fs" unfolding pl' by (rule dropWhile_eq_drop [symmetric])
  have "\<forall>f \<in> set (dropWhile ?P fs). \<not> ?P f" by (rule sorted_wrt_split [OF sw]) simp
  then show late: "\<forall>f \<in> set (drop pl fs). since \<le> pf_fill_ts_us f" by (simp only: dr not_less)
  have "map (reclassify roles) (take pl fs) = take pl fs"
    unfolding tk using before by (intro map_idI) (auto dest: set_takeWhileD)
  then have "map (reclassify roles) fs = take pl fs @ tail1"
    using map_append [of "reclassify roles" "take pl fs" "drop pl fs"] by (simp only: append_take_drop_id tail)
  then have "sort_key fill_order_key (map (reclassify roles) fs @ unsorted)
      = sort_key fill_order_key (take pl fs @ (tail1 @ unsorted))" by simp
  also have "\<dots> = take pl fs @ sort_key fill_order_key (tail1 @ unsorted)"
  proof (rule sort_key_prefix)
    show "sorted (map fill_order_key (take pl fs))" using fs by (simp only: sorted_wrt_take flip: take_map)
    show "\<forall>x \<in> set (take pl fs). \<forall>y \<in> set (tail1 @ unsorted). fill_order_key x \<le> fill_order_key y"
    proof (intro ballI)
      fix x y assume x: "x \<in> set (take pl fs)" and y: "y \<in> set (tail1 @ unsorted)"
      have "pf_fill_ts_us x < since" using x unfolding tk by (auto dest: set_takeWhileD)
      moreover have "since \<le> pf_fill_ts_us y" using y late since_le by (auto simp: tail added)
      ultimately show "fill_order_key x \<le> fill_order_key y" by (intro fill_order_less_ts) simp
    qed
  qed
  finally show "take pl fs @ sort_key fill_order_key (tail1 @ added)
      = sort_key fill_order_key (map (reclassify roles) fs @ unsorted)"
    unfolding added sort_key_sorted_part by (rule sym)
qed

lemma merged_ok:
  assumes ok: "prepared_ok p" and merge: "merge_change h change p = Inr q"
    and time: "\<forall>e \<in> set (hc_events change). in_time (fifo_ts_us e)"
  shows "prepared_ok q \<and> same_base p q"
proof -
  obtain p' unsorted where c: "rfold (classify_event h) (p, []) (hc_events change) = Inr (p', unsorted)"
    and q: "q = p'\<lparr>pe_fill_events := sort_key fill_order_key
        (map (reclassify (nh_liquidity_by_order h)) (pe_fill_events p) @ unsorted)\<rparr>"
    using merge by (auto simp: merge_change_def rbind_Inr_iff)
  note C = classify_fold [OF c]
  have "in_time (pf_fill_ts_us f) \<and> (case pe_snapshot_ts_us p of None \<Rightarrow> True | Some a \<Rightarrow> a < pf_fill_ts_us f)"
    if "f \<in> set (pe_fill_events q)" for f
  proof -
    from that consider g where "g \<in> set (pe_fill_events p)" "pf_fill_ts_us f = pf_fill_ts_us g" | "f \<in> set unsorted"
      by (auto simp: q)
    then show ?thesis
    proof cases
      case 1
      then show ?thesis using ok by (auto simp: prepared_ok_def fills_ok_def split: option.splits)
    next
      case 2
      then show ?thesis using C time by auto
    qed
  qed
  then have "fills_ok (pe_snapshot_ts_us p) (pe_fill_events q)"
    by (simp add: fills_ok_def) (simp add: q)
  then show ?thesis using ok C by (simp add: prepared_ok_def q same_base_def)
qed

subsection \<open>Refreshing\<close>

definition cache_of :: "source_config \<Rightarrow> nat \<Rightarrow> cached_source \<Rightarrow> bool" where
  "cache_of source n c \<longleftrightarrow> prepared_ok (cs_prepared c) \<and> rmap strip (build source (cs_prepared c) n) = Inr (strip c)"

lemma cache_of_run:
  assumes "cache_of source n c"
  obtains s r where "initial_timeline_state source (cs_prepared c) = Inr s"
    and "run_fills (pe_strategy_allocation_active (cs_prepared c)) (build_start (cs_prepared c) s) 0 (pe_fill_events (cs_prepared c)) = Inr r"
    and "cs_checkpoints c = rp_checkpoints r" and "cs_symbols c = rp_symbols r" and "cs_strategies c = rp_strategies r"
    and "cs_end_state c = activate_snapshot_at i64_max (rp_state r)" and "cs_next_checkpoint c = rp_next_checkpoint r"
proof -
  let ?p = "cs_prepared c"
  have "pe_allocations ?p = []" and B: "rmap strip (build source ?p n) = Inr (strip c)"
    using assms by (simp_all add: cache_of_def prepared_ok_def)
  from B [unfolded build_plain [OF this(1)]] obtain s r where s: "initial_timeline_state source ?p = Inr s"
    and r: "run_fills (pe_strategy_allocation_active ?p) (build_start ?p s) 0 (pe_fill_events ?p) = Inr r"
    and c: "strip c = finished source ?p n r"
    by (auto simp: rbind_Inr_iff rmap_Inr_iff)
  have f: "f (strip c) = f (finished source ?p n r)" for f :: "cached_source \<Rightarrow> 'x" by (simp add: c)
  show thesis
    using that [OF s r] f [of cs_checkpoints] f [of cs_symbols] f [of cs_strategies] f [of cs_end_state] f [of cs_next_checkpoint]
    by (simp add: strip_def finished_def Let_def)
qed

lemma build_same_base:
  assumes "prepared_ok q" and "same_base p q" and "initial_timeline_state source p = Inr s"
  shows "rmap strip (build source q n) =
    rmap (finished source q n) (run_fills (pe_strategy_allocation_active p) (build_start q s) 0 (pe_fill_events q))"
  using build_plain [of q source n] assms same_base_initial [OF assms(2), of source]
  by (simp add: prepared_ok_def same_base_def)

lemma refresh_append:
  assumes c: "cache_of source n c" and q: "prepared_ok q" "same_base (cs_prepared c) q"
    and fills: "pe_fill_events q = pe_fill_events (cs_prepared c) @ added"
  shows "rmap strip (replay source q n (length (pe_fill_events (cs_prepared c)))
      \<lparr>rp_state = cs_end_state c, rp_checkpoints = cs_checkpoints c, rp_symbols = cs_symbols c,
       rp_strategies = cs_strategies c,
       rp_next_checkpoint = or_else (cs_next_checkpoint c) (map_option checkpoint_after (first_fill_ts (pe_fill_events q)))\<rparr>)
    = rmap strip (build source q n)"
proof -
  define p where "p = cs_prepared c"
  define a where "a = pe_strategy_allocation_active p"
  define fs where "fs = pe_fill_events p"
  define snap where "snap = pe_snapshot_ts_us p"
  obtain s r where s: "initial_timeline_state source p = Inr s"
    and r: "run_fills a (build_start p s) 0 fs = Inr r"
    and cf: "cs_checkpoints c = rp_checkpoints r" "cs_symbols c = rp_symbols r" "cs_strategies c = rp_strategies r"
      "cs_end_state c = activate_snapshot_at i64_max (rp_state r)" "cs_next_checkpoint c = rp_next_checkpoint r"
    using cache_of_run [OF c] unfolding p_def [symmetric] a_def [symmetric] fs_def [symmetric] by metis
  have ok: "prepared_ok p" using c by (simp add: cache_of_def p_def)
  have qa: "pe_strategy_allocation_active q = a" "pe_allocations q = []" "pe_snapshot_ts_us q = snap"
    using q by (simp_all add: same_base_def prepared_ok_def p_def a_def snap_def)
  have sf: "rt_allocations s = []" "rt_snapshot_ts_us s = snap"
    using initial_state_fields [OF s] ok by (simp_all add: prepared_ok_def snap_def)
  have rf: "rt_allocations (rp_state r) = []" "rt_snapshot_ts_us (rp_state r) = snap"
    using run_fills_fields [OF r] sf by (simp_all add: build_start_def)
  define r0 where "r0 = \<lparr>rp_state = cs_end_state c, rp_checkpoints = cs_checkpoints c, rp_symbols = cs_symbols c,
       rp_strategies = cs_strategies c,
       rp_next_checkpoint = or_else (cs_next_checkpoint c) (map_option checkpoint_after (first_fill_ts (pe_fill_events q)))\<rparr>"
  have r0a: "rt_allocations (rp_state r0) = []" by (simp add: r0_def cf rf)
  have "rmap (finished source q n) (run_fills a r0 (length fs) added) =
      rmap (finished source q n) (run_fills a (build_start q s) 0 (fs @ added))"
  proof (cases "snap = None \<and> fs = []")
    case True
    then have "activate_snapshot_at i64_max (rp_state r) = rp_state r"
      using rf(2) by (intro activate_not_due) (simp add: due_def)
    moreover have "r = build_start p s" using r True by simp
    ultimately have "r0 = build_start q s"
      using True by (simp add: r0_def cf build_start_def qa first_fill_ts_def or_else_def fs_def snap_def)
    then show ?thesis using True by simp
  next
    case False
    have first: "build_start q s = build_start p s"
      using False fills by (auto simp: build_start_def qa or_else_def first_fill_ts_def snap_def [symmetric] fs_def [symmetric] p_def [symmetric] split: option.splits list.splits)
    have ex: "\<exists>N. hour_ahead snap r N"
    proof -
      obtain N0 where "hour_ahead snap (build_start p s) N0"
        using build_start_ahead [OF prepared_timed [OF ok], of s] False by (auto simp: snap_def fs_def)
      then show ?thesis
        using run_fills_hours [OF r, of snap N0] ok sorted_fills_ts [of fs]
        by (auto simp: prepared_ok_def fills_ok_def fs_def)
    qed
    then have "rp_next_checkpoint r \<noteq> None" by (auto simp: hour_ahead_def)
    then have r0: "r0 = r\<lparr>rp_state := activate_snapshot_at i64_max (rp_state r)\<rparr>"
      by (auto simp: r0_def cf or_else_def)
    have step: "run_fills a (build_start q s) 0 (fs @ added) = run_fills a r (length fs) added"
      unfolding first run_fills_append r by simp
    show ?thesis
    proof (cases added)
      case Nil
      then show ?thesis unfolding step by (simp add: r0 finished_def activate_idem)
    next
      case (Cons f gs)
      have "fills_ok snap added"
        using q(1) qa fills by (auto simp: prepared_ok_def fills_ok_def sorted_append)
      then have "run_fills a r0 (length fs) added = run_fills a r (length fs) added"
        unfolding r0 Cons using rf ex by (intro run_fills_activated) (auto split: option.splits)
      then show ?thesis unfolding step by simp
    qed
  qed
  then show ?thesis
    unfolding r0_def [symmetric] p_def [symmetric] fs_def [symmetric]
    using replay_plain [OF qa(2) r0a, of source n "length fs"] build_same_base [OF q s [unfolded p_def], of n]
    by (simp add: qa fills fs_def [symmetric] p_def [symmetric] a_def [symmetric])
qed

lemma refresh_restart:
  assumes c: "cache_of source n c" and q: "prepared_ok q" "same_base (cs_prepared c) q"
    and i: "i < length (cs_checkpoints c)" and cp: "cp = cs_checkpoints c ! i" and since: "cp_ts_us cp \<le> since"
    and fills: "pe_fill_events q = takeWhile (\<lambda>f. pf_fill_ts_us f < since) (pe_fill_events (cs_prepared c)) @ rest"
    and rest: "sorted (map pf_fill_ts_us rest)" "\<forall>f \<in> set rest. since \<le> pf_fill_ts_us f"
      "pf_fill_ts_us ` set (dropWhile (\<lambda>f. pf_fill_ts_us f < since) (pe_fill_events (cs_prepared c))) \<subseteq> pf_fill_ts_us ` set rest"
  shows "rmap strip (replay source q n (cp_next_fill cp)
      \<lparr>rp_state = cp_state cp, rp_checkpoints = take (Suc i) (cs_checkpoints c),
       rp_symbols = before_ts (cp_ts_us cp) (cs_symbols c), rp_strategies = before_ts (cp_ts_us cp) (cs_strategies c),
       rp_next_checkpoint = Some (sat64 (cp_ts_us cp + checkpoint_us))\<rparr>)
    = rmap strip (build source q n)"
proof -
  define p where "p = cs_prepared c"
  define a where "a = pe_strategy_allocation_active p"
  define fs where "fs = pe_fill_events p"
  define snap where "snap = pe_snapshot_ts_us p"
  define k where "k = cp_next_fill cp"
  obtain s r where s: "initial_timeline_state source p = Inr s"
    and r: "run_fills a (build_start p s) 0 fs = Inr r"
    and cf: "cs_checkpoints c = rp_checkpoints r" "cs_symbols c = rp_symbols r" "cs_strategies c = rp_strategies r"
    using cache_of_run [OF c] unfolding p_def [symmetric] a_def [symmetric] fs_def [symmetric] by metis
  have ok: "prepared_ok p" using c by (simp add: cache_of_def p_def)
  have fok: "fills_ok snap fs" using ok by (simp add: prepared_ok_def snap_def fs_def)
  have fresh: "fresh (build_start p s)" using build_start_fresh [OF s] ok by (simp add: prepared_ok_def)
  have sf: "rt_allocations s = []" using initial_state_fields [OF s] ok by (simp add: prepared_ok_def)
  have ne: "fs \<noteq> []"
    using r i cf by (auto simp: build_start_def)
  obtain N0 where ahead: "hour_ahead snap (build_start p s) N0"
    using build_start_ahead [OF prepared_timed [OF ok]] ne by (auto simp: snap_def fs_def)
  have i': "i < length (rp_checkpoints r)" and cp': "cp = rp_checkpoints r ! i" using i cp cf by simp_all
  note C = checkpoint_splits_fills [OF r fresh_checkpoints [OF fresh] ahead fok i' cp' k_def]
  let ?P = "\<lambda>f. pf_fill_ts_us f < since"
  define pl where "pl = length (takeWhile ?P fs)"
  have kpl: "k \<le> pl" unfolding pl_def
    using C since by (intro length_takeWhile_ge) auto
  have tw: "takeWhile ?P fs = take pl fs" unfolding pl_def by (rule takeWhile_eq_take)
  have dw: "dropWhile ?P fs = drop pl fs" unfolding pl_def by (rule dropWhile_eq_drop)
  have qf: "pe_fill_events q = take pl fs @ rest" using fills by (simp add: fs_def p_def tw [unfolded fs_def p_def])
  have pll: "pl \<le> length fs" by (simp add: pl_def length_takeWhile_le)
  have same: "take k (pe_fill_events q) = take k fs" using kpl pll by (simp add: qf)
  have nth: "k < length (pe_fill_events q) \<and> cp_ts_us cp \<le> pf_fill_ts_us (pe_fill_events q ! k)
      \<and> pf_fill_ts_us (pe_fill_events q ! k) \<le> pf_fill_ts_us (fs ! k)"
  proof (cases "k < pl")
    case True
    then show ?thesis using C pll by (simp add: qf nth_append)
  next
    case False
    then have k: "k = pl" using kpl by simp
    have "pf_fill_ts_us (fs ! k) \<in> pf_fill_ts_us ` set rest"
    proof -
      have "fs ! k \<in> set (drop pl fs)" using C k by (metis Cons_nth_drop_Suc list.set_intros(1))
      then show ?thesis using rest(3) unfolding p_def [symmetric] fs_def [symmetric] dw by blast
    qed
    then obtain g where g: "g \<in> set rest" "pf_fill_ts_us g = pf_fill_ts_us (fs ! k)" by auto
    have "pf_fill_ts_us (hd rest) \<le> pf_fill_ts_us g" using rest(1) g(1) by (cases rest) auto
    moreover have "since \<le> pf_fill_ts_us (hd rest)" using rest(2) g(1) by (cases rest) auto
    moreover have "pe_fill_events q ! k = hd rest" using g(1) pll by (cases rest) (auto simp: qf k nth_append)
    ultimately show ?thesis using g pll since by (cases rest) (auto simp: qf k)
  qed
  have it: "in_time (pf_fill_ts_us (pe_fill_events q ! k))"
    using q(1) nth by (simp add: prepared_ok_def fills_ok_def)
  have qa: "pe_strategy_allocation_active q = a" "pe_allocations q = []" "pe_snapshot_ts_us q = snap"
    using q by (simp_all add: same_base_def prepared_ok_def p_def a_def snap_def)
  from C obtain rk N where rk: "run_fills a (build_start p s) 0 (take k fs) = Inr rk"
    "hour_ahead snap rk N" "N \<le> cp_ts_us cp" "cp_state cp = activate_snapshot_at (cp_ts_us cp) (rp_state rk)" by blast
  have start: "build_start q s = build_start p s"
  proof (cases snap)
    case (Some t)
    then show ?thesis using qa by (simp add: build_start_def or_else_def snap_def)
  next
    case None
    obtain f gs where f: "fs = f # gs" using ne by (cases fs) auto
    have "k \<noteq> 0"
    proof
      assume k0: "k = 0"
      then have "rp_next_checkpoint (build_start p s) = Some N" using rk(1,2) by (simp add: hour_ahead_def)
      moreover have "in_time (pf_fill_ts_us f)" using fok f by (simp add: fills_ok_def)
      ultimately have "N = hour_floor (pf_fill_ts_us f) + checkpoint_us"
        using None f by (simp add: build_start_def snap_def [symmetric] fs_def [symmetric] or_else_def first_fill_ts_def checkpoint_after_eq)
      moreover have "cp_ts_us cp \<le> pf_fill_ts_us f" using C k0 f by simp
      ultimately show False using rk(3) hour_floor_bounds(2) [of "pf_fill_ts_us f"] by simp
    qed
    then have "hd (pe_fill_events q) = f" "pe_fill_events q \<noteq> []"
      using same f nth by (cases k; cases "pe_fill_events q"; simp)+
    then have "first_fill_ts (pe_fill_events q) = first_fill_ts fs" using f by (cases "pe_fill_events q") (simp_all add: first_fill_ts_def)
    then show ?thesis using qa by (simp add: build_start_def snap_def fs_def)
  qed
  have restart: "run_fills a (build_start p s) 0 (pe_fill_events q)
      = run_fills a (restart_at r cp (take (Suc i) (rp_checkpoints r))) k (drop k (pe_fill_events q))"
    using nth by (intro restart_at_checkpoint [OF r fresh ahead fok i' cp' k_def same _ it]) simp_all
  have "rt_allocations (cp_state cp) = []"
    using run_fills_fields [OF rk(1)] sf by (simp add: rk(4) build_start_def)
  then have "rmap strip (replay source q n k (restart_at r cp (take (Suc i) (rp_checkpoints r)))) =
      rmap (finished source q n) (run_fills a (build_start q s) 0 (pe_fill_events q))"
    unfolding start restart using replay_plain [OF qa(2)] by (simp add: restart_at_def qa)
  then show ?thesis
    using build_same_base [OF q s [unfolded p_def], of n] by (simp add: restart_at_def cf k_def a_def p_def)
qed

text \<open>
  The table a change was computed with: fills before the first one it touches keep their role.
\<close>

definition change_honest :: "nav_source_history \<Rightarrow> history_change \<Rightarrow> prepared_source_events \<Rightarrow> bool" where
  "change_honest h change p \<longleftrightarrow>
     list_all (\<lambda>e. in_time (fifo_ts_us e)) (hc_events change)
     \<and> list_all (\<lambda>f. reclassify (nh_liquidity_by_order h) f = f)
         (filter (\<lambda>f. case hc_earliest_liquidity_fill_ts_us change of None \<Rightarrow> True | Some t \<Rightarrow> pf_fill_ts_us f < t)
           (pe_fill_events p))"

lemma last_option_Some: "last_option xs = Some x \<longleftrightarrow> xs \<noteq> [] \<and> x = last xs"
  by (auto simp: last_option_def)

lemma cache_checkpoints_sorted:
  assumes "cache_of source n c"
  shows "sorted_wrt (<) (map cp_ts_us (cs_checkpoints c))"
proof -
  let ?p = "cs_prepared c"
  obtain s r where r: "run_fills (pe_strategy_allocation_active ?p) (build_start ?p s) 0 (pe_fill_events ?p) = Inr r"
    and cf: "cs_checkpoints c = rp_checkpoints r"
    using cache_of_run [OF assms] by metis
  have ok: "prepared_ok ?p" using assms by (simp add: cache_of_def)
  show ?thesis
  proof (cases "pe_fill_events ?p = []")
    case True
    then show ?thesis using r cf by (auto simp: build_start_def)
  next
    case False
    then obtain N0 where "hour_ahead (pe_snapshot_ts_us ?p) (build_start ?p s) N0"
      using build_start_ahead [OF prepared_timed [OF ok]] by auto
    then show ?thesis
      using run_fills_hours [OF r, of "pe_snapshot_ts_us ?p" N0] ok sorted_fills_ts [of "pe_fill_events ?p"]
      by (auto simp: prepared_ok_def fills_ok_def hour_ahead_def cf)
  qed
qed

lemma min_option_Some:
  "min_option a b = Some m \<Longrightarrow> (\<forall>x. a = Some x \<longrightarrow> m \<le> x) \<and> (\<forall>x. b = Some x \<longrightarrow> m \<le> x)"
  by (auto simp: min_option_def split: option.splits)

lemma appended_sorted:
  assumes "sorted (map fill_order_key fs)" and "sorted (map fill_order_key added)" and "appends_only p added liq"
    and "pe_fill_events p = fs"
  shows "sorted (map fill_order_key (fs @ added))"
proof (cases "added = [] \<or> fs = []")
  case True
  then show ?thesis using assms by auto
next
  case False
  then obtain g gs where g: "added = g # gs" by (cases added) auto
  have "fill_order_key (last fs) \<le> fill_order_key g"
    using assms(3,4) False g by (simp add: appends_only_def last_option_def not_less)
  moreover have "fill_order_key x \<le> fill_order_key (last fs)" if "x \<in> set fs" for x
    using assms(1) that sorted_nth_mono [of "map fill_order_key fs"] False
    by (auto simp: in_set_conv_nth last_conv_nth)
  ultimately have le: "fill_order_key x \<le> fill_order_key g" if "x \<in> set fs" for x
    using that order_trans by blast
  have "fill_order_key g \<le> fill_order_key y" if "y \<in> set added" for y
    using that assms(2) by (auto simp: g)
  then show ?thesis
    using assms(1,2) le by (auto simp: sorted_append intro: order_trans [of _ "fill_order_key g"])
qed

definition first_fill_priced :: "prepared_source_events \<Rightarrow> bool" where
  "first_fill_priced p \<longleftrightarrow>
     list_ex (\<lambda>(_, v). vs_initial_reference_price_source v = Some FirstFill) (pe_initial_states p)"

lemma refresh_rebuilds:
  assumes c: "cache_of source n c" and h: "nh_change h = Some change" and honest: "change_honest h change (cs_prepared c)"
  shows "(cached_refresh c source h n = Inr None \<and> first_fill_priced (cs_prepared c))
    \<or> (\<exists>e. merge_change h change (cs_prepared c) = Inl e \<and> cached_refresh c source h n = Inl e)
    \<or> (\<exists>q. merge_change h change (cs_prepared c) = Inr q \<and> prepared_ok q
         \<and> rmap (map_option strip) (cached_refresh c source h n) = rmap (Some \<circ> strip) (build source q n))"
proof (cases "rfold (classify_event h) (cs_prepared c, []) (hc_events change)")
  case (Inl e)
  then show ?thesis using h c
    by (auto simp: cached_refresh_def merge_change_def cache_of_def prepared_ok_def)
next
  case (Inr pu)
  obtain p' unsorted where cl: "rfold (classify_event h) (cs_prepared c, []) (hc_events change) = Inr (p', unsorted)"
    using Inr by (cases pu) auto
  define roles where "roles = nh_liquidity_by_order h"
  define fs where "fs = pe_fill_events (cs_prepared c)"
  define added where "added = sort_key fill_order_key unsorted"
  define liq where "liq = hc_earliest_liquidity_fill_ts_us change"
  define q where "q = p'\<lparr>pe_fill_events := sort_key fill_order_key (map (reclassify roles) fs @ unsorted)\<rparr>"
  have ok: "prepared_ok (cs_prepared c)" using c by (simp add: cache_of_def)
  have merge: "merge_change h change (cs_prepared c) = Inr q"
    by (simp add: merge_change_def cl q_def roles_def fs_def)
  have time: "\<forall>e \<in> set (hc_events change). in_time (fifo_ts_us e)" using honest by (simp add: change_honest_def list_all_iff)
  note Q = merged_ok [OF ok merge time]
  note CL = classify_fold [OF cl]
  have fs': "pe_fill_events p' = fs" using CL by (simp add: fs_def)
  have sfs: "sorted (map fill_order_key fs)" using ok by (simp add: prepared_ok_def fills_ok_def fs_def)
  have before: "reclassify roles f = f" if "f \<in> set fs" "case liq of None \<Rightarrow> True | Some t \<Rightarrow> pf_fill_ts_us f < t" for f
    using honest that by (simp add: change_honest_def list_all_iff roles_def fs_def liq_def)
  have sa: "sorted (map fill_order_key added)" by (simp add: added_def)
  have R: "cached_refresh c source h n =
      (if reference_may_change (cs_prepared c) (first_fill_ts added) then Inr None
       else if appends_only p' added liq
       then rmap Some (replay source (p'\<lparr>pe_fill_events := fs @ added\<rparr>) n (length fs)
              \<lparr>rp_state = cs_end_state c, rp_checkpoints = cs_checkpoints c, rp_symbols = cs_symbols c,
               rp_strategies = cs_strategies c,
               rp_next_checkpoint = or_else (cs_next_checkpoint c)
                 (map_option checkpoint_after (first_fill_ts (fs @ added)))\<rparr>)
       else case min_option (first_fill_ts added) liq of None \<Rightarrow> Inr None
       | Some since \<Rightarrow>
           let pl = fill_partition_point (\<lambda>f. pf_fill_ts_us f < since) fs;
               tail1 = (if liq \<noteq> None then map (reclassify roles) (drop pl fs) else drop pl fs);
               p2 = p'\<lparr>pe_fill_events := take pl fs @ sort_key fill_order_key (tail1 @ added)\<rparr>;
               cps = take (partition_point (\<lambda>cp. cp_ts_us cp \<le> since) (cs_checkpoints c)) (cs_checkpoints c)
           in case last_option cps of
                Some cp \<Rightarrow> rmap Some (replay source p2 n (cp_next_fill cp)
                    \<lparr>rp_state = cp_state cp, rp_checkpoints = cps,
                     rp_symbols = before_ts (cp_ts_us cp) (cs_symbols c),
                     rp_strategies = before_ts (cp_ts_us cp) (cs_strategies c),
                     rp_next_checkpoint = Some (sat64 (cp_ts_us cp + checkpoint_us))\<rparr>)
              | None \<Rightarrow> rmap Some (build source p2 n))"
    unfolding cached_refresh_def h option.case cl rbind_simps prod.case Let_def fs' added_def [symmetric]
      liq_def [symmetric] roles_def [symmetric]
    using ok by (simp add: prepared_ok_def)
  consider "reference_may_change (cs_prepared c) (first_fill_ts added)"
    | "\<not> reference_may_change (cs_prepared c) (first_fill_ts added)" "appends_only p' added liq"
    | "\<not> reference_may_change (cs_prepared c) (first_fill_ts added)" "\<not> appends_only p' added liq"
      "min_option (first_fill_ts added) liq = None"
    | since where "\<not> reference_may_change (cs_prepared c) (first_fill_ts added)" "\<not> appends_only p' added liq"
      "min_option (first_fill_ts added) liq = Some since"
    by fastforce
  then show ?thesis
  proof cases
    case 1
    then show ?thesis using R by (simp add: reference_may_change_def first_fill_priced_def)
  next
    case 2
    have "map (reclassify roles) fs = fs"
      using before 2(2) by (intro map_idI) (simp add: appends_only_def)
    then have "pe_fill_events q = fs @ added"
      using sort_key_sorted_part [of fill_order_key fs unsorted]
        sort_key_id_if_sorted [OF appended_sorted [OF sfs sa 2(2) fs']]
      by (simp add: q_def added_def)
    moreover have "q = p'\<lparr>pe_fill_events := pe_fill_events q\<rparr>" by (simp add: q_def)
    ultimately have q: "p'\<lparr>pe_fill_events := fs @ added\<rparr> = q" and qf: "pe_fill_events q = fs @ added" by simp_all
    have "rmap (map_option strip) (cached_refresh c source h n) = rmap (Some \<circ> strip) (build source q n)"
      using refresh_append [OF c Q [THEN conjunct1] Q [THEN conjunct2] qf [unfolded fs_def]] R 2
      unfolding fs_def [symmetric] qf q
      by (cases "build source q n") (auto simp: rmap_strip_Some rmap_def split: sum.splits)
    then show ?thesis using merge Q by blast
  next
    case 3
    then have "added = []" "liq = None"
      by (auto simp: min_option_def first_fill_ts_def split: option.splits list.splits)
    then show ?thesis using 3(2) by (simp add: appends_only_def)
  next
    case 4
    define pl where "pl = fill_partition_point (\<lambda>f. pf_fill_ts_us f < since) fs"
    define tail1 where "tail1 = (if liq \<noteq> None then map (reclassify roles) (drop pl fs) else drop pl fs)"
    define cps where "cps = take (partition_point (\<lambda>cp. cp_ts_us cp \<le> since) (cs_checkpoints c)) (cs_checkpoints c)"
    have lo: "\<forall>f \<in> set added. since \<le> pf_fill_ts_us f"
    proof
      fix f assume f: "f \<in> set added"
      then obtain t where t: "first_fill_ts added = Some t" by (cases added) (auto simp: first_fill_ts_def)
      have "since \<le> t" using min_option_Some [OF 4(3)] t by blast
      also have "t \<le> pf_fill_ts_us f" by (rule first_fill_min [OF sa t f])
      finally show "since \<le> pf_fill_ts_us f" .
    qed
    have early: "\<forall>f \<in> set fs. pf_fill_ts_us f < since \<longrightarrow> reclassify roles f = f"
      using before min_option_Some [OF 4(3)] by (cases liq) force+
    have tail: "tail1 = map (reclassify roles) (drop pl fs)"
      using before by (cases liq) (auto simp: tail1_def intro!: map_idI [symmetric] dest: in_set_dropD)
    note M = merged_at_cut [OF sfs added_def lo early pl_def tail]
    have p2: "p'\<lparr>pe_fill_events := take pl fs @ sort_key fill_order_key (tail1 @ added)\<rparr> = q"
      unfolding M(1) q_def ..
    have R4: "cached_refresh c source h n = (case last_option cps of
          Some cp \<Rightarrow> rmap Some (replay source q n (cp_next_fill cp)
              \<lparr>rp_state = cp_state cp, rp_checkpoints = cps,
               rp_symbols = before_ts (cp_ts_us cp) (cs_symbols c),
               rp_strategies = before_ts (cp_ts_us cp) (cs_strategies c),
               rp_next_checkpoint = Some (sat64 (cp_ts_us cp + checkpoint_us))\<rparr>)
        | None \<Rightarrow> rmap Some (build source q n))"
      unfolding R 4(3) option.case Let_def pl_def [symmetric] tail1_def [symmetric] cps_def [symmetric] p2
      using 4(1,2) by (simp only: if_False)
    have "rmap (map_option strip) (cached_refresh c source h n) = rmap (Some \<circ> strip) (build source q n)"
    proof (cases "last_option cps")
      case None
      then show ?thesis by (simp add: R4 rmap_strip_Some)
    next
      case (Some cp)
      let ?T = "takeWhile (\<lambda>cp. cp_ts_us cp \<le> since) (cs_checkpoints c)"
      have "sorted_wrt (\<lambda>a b. cp_ts_us a < cp_ts_us b) (cs_checkpoints c)"
        using cache_checkpoints_sorted [OF c] by (simp add: sorted_wrt_map)
      then have "partition_point (\<lambda>cp. cp_ts_us cp \<le> since) (cs_checkpoints c) = length ?T"
        by (rule partition_point_sorted) simp
      then have cps: "cps = ?T" by (simp add: cps_def takeWhile_eq_take [symmetric])
      have ne: "cps \<noteq> []" and cp: "cp = last cps" using Some by (simp_all add: last_option_Some)
      define i where "i = length cps - 1"
      have len: "length cps \<le> length (cs_checkpoints c)" by (simp add: cps length_takeWhile_le)
      have i: "i < length (cs_checkpoints c)" "length cps = Suc i" using ne len by (cases cps; simp add: i_def)+
      have take: "take (Suc i) (cs_checkpoints c) = cps" by (metis cps i(2) takeWhile_eq_take)
      have cpi: "cp = cs_checkpoints c ! i"
        using cp ne i take by (metis Suc_n_not_le_n diff_Suc_1 last_conv_nth nat_less_le not_le nth_take)
      have "cp \<in> set ?T" using cp ne cps by simp
      then have le: "cp_ts_us cp \<le> since" by (auto dest: set_takeWhileD)
      have "rmap strip (replay source q n (cp_next_fill cp)
          \<lparr>rp_state = cp_state cp, rp_checkpoints = take (Suc i) (cs_checkpoints c),
           rp_symbols = before_ts (cp_ts_us cp) (cs_symbols c), rp_strategies = before_ts (cp_ts_us cp) (cs_strategies c),
           rp_next_checkpoint = Some (sat64 (cp_ts_us cp + checkpoint_us))\<rparr>) = rmap strip (build source q n)"
      proof (rule refresh_restart [OF c Q [THEN conjunct1] Q [THEN conjunct2] i(1) cpi le])
        show "pe_fill_events q = takeWhile (\<lambda>f. pf_fill_ts_us f < since) (pe_fill_events (cs_prepared c))
            @ sort_key fill_order_key (tail1 @ added)"
          using M(1,2) by (simp add: q_def fs_def)
        show "sorted (map pf_fill_ts_us (sort_key fill_order_key (tail1 @ added)))"
          by (rule sorted_fills_ts) simp
        show "\<forall>f \<in> set (sort_key fill_order_key (tail1 @ added)). since \<le> pf_fill_ts_us f"
          using lo M(4) by (auto simp: tail)
        have "dropWhile (\<lambda>f. pf_fill_ts_us f < since) fs = drop pl fs"
          unfolding M(3) by (rule dropWhile_eq_drop)
        then show "pf_fill_ts_us ` set (dropWhile (\<lambda>f. pf_fill_ts_us f < since) (pe_fill_events (cs_prepared c)))
            \<subseteq> pf_fill_ts_us ` set (sort_key fill_order_key (tail1 @ added))"
          by (auto simp: fs_def [symmetric] tail image_image image_Un)
      qed
      then show ?thesis unfolding take R4 Some option.case
        by (cases "build source q n") (auto simp: rmap_strip_Some rmap_def split: sum.splits)
    qed
    then show ?thesis using merge Q by blast
  qed
qed

subsection \<open>The cache over time\<close>

text \<open>A cached source as the dashboard keeps it: built once, then refreshed with each change of the history.\<close>

inductive refreshed :: "source_config \<Rightarrow> nat \<Rightarrow> cached_source \<Rightarrow> bool" for source n where
  built: "prepared_ok p \<Longrightarrow> build source p n = Inr c \<Longrightarrow> refreshed source n c"
| refresh: "refreshed source n c \<Longrightarrow> nh_change h = Some change \<Longrightarrow> change_honest h change (cs_prepared c) \<Longrightarrow>
    cached_refresh c source h n = Inr (Some c') \<Longrightarrow> refreshed source n c'"

lemma build_prepared:
  assumes "build source p n = Inr c"
  shows "cs_prepared c = p"
  using assms unfolding build_def replay_def Let_def by (auto simp: rbind_Inr_iff)

lemma refresh_cache_of:
  assumes c: "cache_of source n c" and h: "nh_change h = Some change" and honest: "change_honest h change (cs_prepared c)"
    and r: "cached_refresh c source h n = Inr (Some c')"
  shows "\<exists>q. merge_change h change (cs_prepared c) = Inr q \<and> cs_prepared c' = q \<and> prepared_ok q
    \<and> rmap strip (build source q n) = Inr (strip c')"
proof -
  from refresh_rebuilds [OF c h honest] r obtain q where q: "merge_change h change (cs_prepared c) = Inr q" "prepared_ok q"
    "rmap (Some \<circ> strip) (build source q n) = Inr (Some (strip c'))" by auto
  then obtain b where b: "build source q n = Inr b" "strip b = strip c'" by (auto simp: rmap_Inr_iff)
  have keep: "cs_prepared (strip x) = cs_prepared x" for x by (simp add: strip_def)
  have "cs_prepared c' = q" using build_prepared [OF b(1)] b(2) keep [of b] keep [of c'] by simp
  then show ?thesis using q b by auto
qed

lemma refreshed_cache_of: "refreshed source n c \<Longrightarrow> cache_of source n c"
proof (induction rule: refreshed.induct)
  case (built p c)
  have "cs_prepared c = p" by (rule build_prepared [OF built(2)])
  then show ?case using built by (simp add: cache_of_def)
next
  case (refresh c h change c')
  obtain q where "cs_prepared c' = q" "prepared_ok q" "rmap strip (build source q n) = Inr (strip c')"
    using refresh_cache_of [OF refresh.IH refresh.hyps(2,3,4)] by blast
  then show ?case by (simp add: cache_of_def)
qed

text \<open>
  C10: An incremental refresh is a rebuild. However often a cached source has been refreshed, the
  next refresh that succeeds gives the cache that building the source from scratch gives, over all
  fills so far and the new ones, in replay order and under their current liquidity roles: the same
  ledgers, strategy ledgers, marks, report, checkpoints, first-seen indexes and counters; only the
  statistic of replayed fills differs. Late fills, reclassified fills and appended fills all count.
\<close>

theorem refresh_is_rebuild:
  assumes "refreshed source n c" and "nh_change h = Some change" and "change_honest h change (cs_prepared c)"
    and "cached_refresh c source h n = Inr (Some c')"
  shows "\<exists>q. merge_change h change (cs_prepared c) = Inr q \<and> cs_prepared c' = q
    \<and> rmap strip (build source q n) = Inr (strip c')"
  using refresh_cache_of [OF refreshed_cache_of [OF assms(1)] assms(2-4)] by blast

subsection \<open>A small history\<close>

definition sample_prepared :: prepared_source_events where
  "sample_prepared =
     \<lparr>pe_allocations = [], pe_snapshot_ts_us = None, pe_initial_states = [], pe_initial_strategy_states = [],
      pe_strategy_allocation_active = False, pe_fill_events = [], pe_order_event_count = 0,
      pe_ignored_at_or_before_snapshot_event_count = 0, pe_ignored_non_fill_event_count = 0\<rparr>"

definition sample_change :: history_change where
  "sample_change = \<lparr>hc_previous_revision = 1, hc_events = [sample_fill], hc_earliest_liquidity_fill_ts_us = None\<rparr>"

definition sample_history :: nav_source_history where
  "sample_history =
     \<lparr>nh_allocations = [], nh_events = [sample_fill], nh_liquidity_by_order = [], nh_revision = 2,
      nh_change = Some sample_change\<rparr>"

lemma sample_rates: "nav_fee_rates (sample_source ''a'') = Inr zero_rates"
  by (simp add: nav_fee_rates_def sample_source_def or_else_def validate_fee_rates_def validate_quote_fee_rates_def
      zero_rates_def Let_def)

lemma sample_built: "\<exists>c. build (sample_source ''a'') sample_prepared 0 = Inr c \<and> cs_prepared c = sample_prepared
    \<and> rt_states (cs_end_state c) = [] \<and> rt_strategy_states (cs_end_state c) = [] \<and> rt_allocations (cs_end_state c) = []
    \<and> rt_snapshot_ts_us (cs_end_state c) = None \<and> rt_fee_rates (cs_end_state c) = zero_rates
    \<and> cs_next_checkpoint c = None"
  by (simp add: build_def initial_timeline_state_def sample_rates sample_prepared_def replay_def or_else_def
      first_fill_ts_def index_allocations_def activate_not_due due_def)

lemma sample_change_classified:
  "\<exists>f. rfold (classify_event sample_history) (sample_prepared, []) [sample_fill] =
     Inr (sample_prepared\<lparr>pe_order_event_count := 1\<rparr>, [f]) \<and> pf_event f = sample_fill \<and> pf_side f = Buy
     \<and> pf_fill_ts_us f = 11 \<and> pf_liquidity f = Maker"
proof -
  have t: "trim ''BTCUSDT'' = ''BTCUSDT''" by (rule plain_text)
  have z: "\<not> (1 :: f64) < 0" "\<not> feq 1 0" by (simp_all add: f64_ops)
  have "validated_fill_side sample_fill = Inr (Some Buy)"
    using t z by (simp add: validated_fill_side_def sample_fill_def validate_positive_def)
  then show ?thesis
    by (simp add: classify_event_def sample_prepared_def inc_u64_def attribute_initial_position_def fifo_ts_us_def
        liquidity_role_for_event_def internal_cross_order_type_code_def)
      (simp add: sample_fill_def)
qed

lemma sample_fill_booked:
  assumes "pf_event f = sample_fill" "pf_side f = Buy" "pf_fill_ts_us f = 11" "pf_liquidity f = Maker"
    and "rt_allocations s = []" "rt_snapshot_ts_us s = None" "rt_states s = []" "rt_strategy_states s = []"
    and "rt_fee_rates s = zero_rates"
  shows "\<exists>s'. timeline_apply_fill f s = Inr s' \<and> rt_allocations s' = [] \<and> rt_snapshot_ts_us s' = None"
proof -
  obtain v where v: "venue_apply_fill sample_fill Buy zero_rates Maker 11 (venue_state_new sample_fill) = Inr v"
    using sample_fill_applies by blast
  show ?thesis
    using assms by (simp add: timeline_apply_fill_def activate_not_due due_def Let_def or_new_def v)
qed

lemma sample_refresh:
  "\<exists>c c'. refreshed (sample_source ''a'') 0 c \<and> change_honest sample_history sample_change (cs_prepared c)
     \<and> cs_prepared c = sample_prepared \<and> cached_refresh c (sample_source ''a'') sample_history 0 = Inr (Some c')
     \<and> build (sample_source ''a'') sample_prepared 0 = Inr c"
proof -
  obtain c where c: "build (sample_source ''a'') sample_prepared 0 = Inr c" and p: "cs_prepared c = sample_prepared"
    and st: "rt_states (cs_end_state c) = []" "rt_strategy_states (cs_end_state c) = []" "rt_allocations (cs_end_state c) = []"
      "rt_snapshot_ts_us (cs_end_state c) = None" "rt_fee_rates (cs_end_state c) = zero_rates" and nc: "cs_next_checkpoint c = None"
    using sample_built by blast
  obtain f where f: "rfold (classify_event sample_history) (sample_prepared, []) [sample_fill] =
      Inr (sample_prepared\<lparr>pe_order_event_count := 1\<rparr>, [f])"
      "pf_event f = sample_fill" "pf_side f = Buy" "pf_fill_ts_us f = 11" "pf_liquidity f = Maker"
    using sample_change_classified by blast
  obtain s' where s': "timeline_apply_fill f (cs_end_state c) = Inr s'" "rt_allocations s' = []"
    using sample_fill_booked [OF f(2-5) st(3,4,1,2,5)] by blast
  have "checkpoint_after 11 = 3600000000"
    by (simp add: checkpoint_after_def checkpoint_us_def in_i64_def i64_min_def i64_max_def)
  then have "\<exists>c'. cached_refresh c (sample_source ''a'') sample_history 0 = Inr (Some c')"
    using f s' unfolding cached_refresh_def p
    by (simp add: sample_history_def [THEN arg_cong [where f = nh_change]] sample_change_def nc Let_def
        reference_may_change_def appends_only_def last_option_def)
      (simp add: Let_def last_option_def sample_prepared_def replay_def index_allocations_def replay_step_def take_checkpoint_def or_else_def
        first_fill_ts_def index_fill_def)
  moreover have "prepared_ok sample_prepared" by (simp add: prepared_ok_def fills_ok_def sample_prepared_def)
  then have "refreshed (sample_source ''a'') 0 c" by (rule refreshed.built [OF _ c])
  moreover have "change_honest sample_history sample_change (cs_prepared c)"
    by (simp add: change_honest_def p sample_prepared_def sample_change_def in_time_def fifo_ts_us_def sample_fill_def)
  ultimately show ?thesis using p c by blast
qed

lemma sample_history_change: "nh_change sample_history = Some sample_change"
  by (simp add: sample_history_def)

theorem refresh_is_rebuild_witness:
  "\<exists>c c' q. cached_refresh c (sample_source ''a'') sample_history 0 = Inr (Some c')
     \<and> merge_change sample_history sample_change sample_prepared = Inr q
     \<and> rmap strip (build (sample_source ''a'') q 0) = Inr (strip c')"
proof -
  obtain c c' where c: "refreshed (sample_source ''a'') 0 c" "change_honest sample_history sample_change (cs_prepared c)"
    "cs_prepared c = sample_prepared" "cached_refresh c (sample_source ''a'') sample_history 0 = Inr (Some c')"
    using sample_refresh by blast
  from refresh_is_rebuild [OF c(1) sample_history_change c(2,4)] c(3,4) show ?thesis by metis
qed

end
