(* ===== verification/Refresh.thy ===== *)
theory Refresh
  imports Checkpoint
begin

text \<open>
  A served cache against the event history itself. \<open>Checkpoint\<close> shows that a refresh rebuilds from
  the merged fills; here the merged fills are shown to be what \<open>prepare_source_events\<close> reads from the
  whole history, so that the cache the dashboard serves is the one a cold start would load: fills,
  liquidity roles, opening positions and the reference prices taken from first fills included.
\<close>

subsection \<open>What a history contributes\<close>

definition after_anchor :: "i64 option \<Rightarrow> nav_event \<Rightarrow> bool" where
  "after_anchor anchor e = (case anchor of None \<Rightarrow> True | Some ts \<Rightarrow> ts < fifo_ts_us e)"

definition fill_of :: "liquidity_by_order \<Rightarrow> nav_event \<Rightarrow> prepared_fill option" where
  "fill_of roles e = (case validated_fill_side e of
     Inr (Some sd) \<Rightarrow> Some \<lparr>pf_event = e, pf_side = sd, pf_fill_ts_us = fifo_ts_us e,
                            pf_liquidity = liquidity_role_for_event e roles, pf_initial_position_close = False\<rparr>
   | _ \<Rightarrow> None)"

definition readable :: "i64 option \<Rightarrow> nav_event \<Rightarrow> bool" where
  "readable anchor e \<longleftrightarrow> (after_anchor anchor e \<longrightarrow> (\<exists>x. validated_fill_side e = Inr x))"

definition fills_from :: "liquidity_by_order \<Rightarrow> i64 option \<Rightarrow> nav_event list \<Rightarrow> prepared_fill list" where
  "fills_from roles anchor es = List.map_filter (fill_of roles) (filter (after_anchor anchor) es)"

definition skipped :: "i64 option \<Rightarrow> nav_event list \<Rightarrow> nat" where
  "skipped anchor es = length (filter (\<lambda>e. \<not> after_anchor anchor e) es)"

definition non_fills :: "i64 option \<Rightarrow> nav_event list \<Rightarrow> nat" where
  "non_fills anchor es = length (filter (\<lambda>e. after_anchor anchor e \<and> validated_fill_side e = Inr None) es)"

definition fill_reference :: "prepared_fill \<Rightarrow> first_fill_reference" where
  "fill_reference f = \<lparr>ff_price = ne_price (pf_event f), ff_venue = ne_venue (pf_event f)\<rparr>"

definition note_first ::
    "(string \<times> i16, first_fill_reference) bmap \<Rightarrow> prepared_fill \<Rightarrow> (string \<times> i16, first_fill_reference) bmap" where
  "note_first m f = (case bm_get m (fill_market f) of
     None \<Rightarrow> bm_insert (fill_market f) (fill_reference f) m | Some _ \<Rightarrow> m)"

lemma fills_from_simps [simp]:
  "fills_from roles anchor [] = []"
  "fills_from roles anchor (e # es) =
     (if after_anchor anchor e then (case fill_of roles e of None \<Rightarrow> [] | Some f \<Rightarrow> [f]) else []) @ fills_from roles anchor es"
  "fills_from roles anchor (es @ es') = fills_from roles anchor es @ fills_from roles anchor es'"
  by (simp_all add: fills_from_def map_filter_def split: option.splits)

lemma skipped_simps [simp]:
  "skipped anchor [] = 0"
  "skipped anchor (e # es) = (if after_anchor anchor e then 0 else 1) + skipped anchor es"
  "skipped anchor (es @ es') = skipped anchor es + skipped anchor es'"
  by (simp_all add: skipped_def)

lemma non_fills_simps [simp]:
  "non_fills anchor [] = 0"
  "non_fills anchor (e # es) = (if after_anchor anchor e \<and> validated_fill_side e = Inr None then 1 else 0) + non_fills anchor es"
  "non_fills anchor (es @ es') = non_fills anchor es + non_fills anchor es'"
  by (simp_all add: non_fills_def)

lemma counts_bounded: "skipped anchor es \<le> length es" "non_fills anchor es \<le> length es"
  by (simp_all add: skipped_def non_fills_def)

lemma fill_of_Some_iff:
  "fill_of roles e = Some f \<longleftrightarrow> (\<exists>sd. validated_fill_side e = Inr (Some sd)
     \<and> f = \<lparr>pf_event = e, pf_side = sd, pf_fill_ts_us = fifo_ts_us e,
            pf_liquidity = liquidity_role_for_event e roles, pf_initial_position_close = False\<rparr>)"
  unfolding fill_of_def by (cases "validated_fill_side e") (simp, cases "projr (validated_fill_side e)", auto)

lemma fill_of_Some:
  assumes "fill_of roles e = Some f"
  shows "pf_event f = e" "pf_fill_ts_us f = fifo_ts_us e" "fill_order_key f = event_order_key e"
    "fill_market f = (ne_symbol e, ne_venue_code e)" "pf_liquidity f = liquidity_role_for_event e roles"
proof -
  obtain sd where f: "f = \<lparr>pf_event = e, pf_side = sd, pf_fill_ts_us = fifo_ts_us e,
      pf_liquidity = liquidity_role_for_event e roles, pf_initial_position_close = False\<rparr>"
    using assms fill_of_Some_iff by blast
  show "pf_event f = e" "pf_fill_ts_us f = fifo_ts_us e" "fill_order_key f = event_order_key e"
    "fill_market f = (ne_symbol e, ne_venue_code e)" "pf_liquidity f = liquidity_role_for_event e roles"
    unfolding f by (simp_all add: fill_order_key_def event_order_key_def fill_market_def)
qed

lemma fills_from_mem: "f \<in> set (fills_from roles anchor es) \<Longrightarrow> \<exists>e \<in> set es. after_anchor anchor e \<and> fill_of roles e = Some f"
  unfolding fills_from_def by (auto simp: map_filter_def)

lemma scan_event_closed:
  assumes "sn_ignored_snapshot s < u64_max" and "sn_ignored_non_fill s < u64_max"
  shows "scan_event anchor roles s e = Inr s' \<longleftrightarrow> readable anchor e
    \<and> s' = \<lparr>sn_ignored_snapshot = sn_ignored_snapshot s + skipped anchor [e],
           sn_ignored_non_fill = sn_ignored_non_fill s + non_fills anchor [e],
           sn_fills = sn_fills s @ fills_from roles anchor [e],
           sn_first = foldl note_first (sn_first s) (fills_from roles anchor [e])\<rparr>"
  using assms unfolding scan_event_def Let_def
  by (cases s; cases "validated_fill_side e")
    (auto simp: readable_def after_anchor_def checked_inc_def fill_of_def note_first_def fill_reference_def fill_market_def
      rbind_Inr_iff split: option.splits)

lemma scan_closed:
  assumes "sn_ignored_snapshot s + length es \<le> u64_max" and "sn_ignored_non_fill s + length es \<le> u64_max"
  shows "rfold (scan_event anchor roles) s es = Inr s' \<longleftrightarrow> list_all (readable anchor) es
    \<and> s' = \<lparr>sn_ignored_snapshot = sn_ignored_snapshot s + skipped anchor es,
           sn_ignored_non_fill = sn_ignored_non_fill s + non_fills anchor es,
           sn_fills = sn_fills s @ fills_from roles anchor es,
           sn_first = foldl note_first (sn_first s) (fills_from roles anchor es)\<rparr>"
  using assms
proof (induction es arbitrary: s)
  case Nil
  then show ?case by (cases s) auto
next
  case (Cons e es)
  let ?t = "\<lparr>sn_ignored_snapshot = sn_ignored_snapshot s + skipped anchor [e],
           sn_ignored_non_fill = sn_ignored_non_fill s + non_fills anchor [e],
           sn_fills = sn_fills s @ fills_from roles anchor [e],
           sn_first = foldl note_first (sn_first s) (fills_from roles anchor [e])\<rparr>"
  have step: "scan_event anchor roles s e = Inr t \<longleftrightarrow> readable anchor e \<and> t = ?t" for t
    using scan_event_closed [of s anchor roles e t] Cons.prems by simp
  have "rfold (scan_event anchor roles) s (e # es) = Inr s' \<longleftrightarrow> readable anchor e \<and> rfold (scan_event anchor roles) ?t es = Inr s'"
    by (auto simp: rbind_Inr_iff step)
  then show ?case
    using Cons.IH [of ?t] Cons.prems counts_bounded [of anchor "[e]"] by (auto simp: foldl_append add.assoc)
qed

lemma classify_event_closed:
  assumes "pe_order_event_count p + 1 \<le> u64_max" and "pe_ignored_at_or_before_snapshot_event_count p + 1 \<le> u64_max"
    and "pe_ignored_non_fill_event_count p + 1 \<le> u64_max"
  shows "classify_event h (p, added) e = Inr r \<longleftrightarrow> readable (pe_snapshot_ts_us p) e
    \<and> r = (p\<lparr>pe_order_event_count := pe_order_event_count p + 1,
             pe_ignored_at_or_before_snapshot_event_count :=
               pe_ignored_at_or_before_snapshot_event_count p + skipped (pe_snapshot_ts_us p) [e],
             pe_ignored_non_fill_event_count := pe_ignored_non_fill_event_count p + non_fills (pe_snapshot_ts_us p) [e]\<rparr>,
           added @ map (attribute_initial_position (pe_strategy_allocation_active p) (pe_initial_states p))
             (fills_from (nh_liquidity_by_order h) (pe_snapshot_ts_us p) [e]))"
  using assms unfolding classify_event_def Let_def
  by (cases p; cases "validated_fill_side e")
    (auto simp: readable_def after_anchor_def inc_u64_def u64_max_def fill_of_def rbind_Inr_iff split: option.splits)

lemma classify_closed:
  assumes "pe_order_event_count p + length es \<le> u64_max"
    and "pe_ignored_at_or_before_snapshot_event_count p + length es \<le> u64_max"
    and "pe_ignored_non_fill_event_count p + length es \<le> u64_max"
  shows "rfold (classify_event h) (p, added) es = Inr r \<longleftrightarrow> list_all (readable (pe_snapshot_ts_us p)) es
    \<and> r = (p\<lparr>pe_order_event_count := pe_order_event_count p + length es,
             pe_ignored_at_or_before_snapshot_event_count :=
               pe_ignored_at_or_before_snapshot_event_count p + skipped (pe_snapshot_ts_us p) es,
             pe_ignored_non_fill_event_count := pe_ignored_non_fill_event_count p + non_fills (pe_snapshot_ts_us p) es\<rparr>,
           added @ map (attribute_initial_position (pe_strategy_allocation_active p) (pe_initial_states p))
             (fills_from (nh_liquidity_by_order h) (pe_snapshot_ts_us p) es))"
  using assms
proof (induction es arbitrary: p added)
  case Nil
  then show ?case by (cases p) auto
next
  case (Cons e es)
  let ?p = "p\<lparr>pe_order_event_count := pe_order_event_count p + 1,
             pe_ignored_at_or_before_snapshot_event_count :=
               pe_ignored_at_or_before_snapshot_event_count p + skipped (pe_snapshot_ts_us p) [e],
             pe_ignored_non_fill_event_count := pe_ignored_non_fill_event_count p + non_fills (pe_snapshot_ts_us p) [e]\<rparr>"
  let ?a = "added @ map (attribute_initial_position (pe_strategy_allocation_active p) (pe_initial_states p))
             (fills_from (nh_liquidity_by_order h) (pe_snapshot_ts_us p) [e])"
  have step: "classify_event h (p, added) e = Inr q \<longleftrightarrow> readable (pe_snapshot_ts_us p) e \<and> q = (?p, ?a)" for q
    using classify_event_closed [of p h added e q] Cons.prems by simp
  have "rfold (classify_event h) (p, added) (e # es) = Inr r
      \<longleftrightarrow> readable (pe_snapshot_ts_us p) e \<and> rfold (classify_event h) (?p, ?a) es = Inr r"
    by (auto simp: rbind_Inr_iff step)
  then show ?case
    using Cons.IH [of ?p ?a] Cons.prems counts_bounded [of "pe_snapshot_ts_us p" "[e]"] by (auto simp: add.assoc)
qed

subsection \<open>Replay order\<close>

lemma insort_key_map: "\<forall>y \<in> insert x (set ys). f (g y) = k y \<Longrightarrow> insort_key f (g x) (map g ys) = map g (insort_key k x ys)"
  by (induction ys) auto

lemma sort_key_map: "\<forall>x \<in> set xs. f (g x) = k x \<Longrightarrow> sort_key f (map g xs) = map g (sort_key k xs)"
proof (induction xs)
  case (Cons x xs)
  then have "insort_key f (g x) (map g (sort_key k xs)) = map g (insort_key k x (sort_key k xs))"
    by (intro insort_key_map) simp
  then show ?case using Cons by simp
qed simp

lemma sort_key_append_sorted: "sort_key f (sort_key f xs @ ys) = sort_key f (xs @ ys)"
  by (rule properties_for_sort_key) (simp_all add: filter_key_sort)

lemma fills_from_sorted:
  "fills_from roles anchor (sort_key event_order_key es) = sort_key fill_order_key (fills_from roles anchor es)"
proof -
  have cases: "fills_from roles anchor es = map (the \<circ> fill_of roles) (filter (\<lambda>e. after_anchor anchor e \<and> fill_of roles e \<noteq> None) es)" for es
    by (simp add: fills_from_def map_filter_def conj_commute)
  show ?thesis
    unfolding cases filter_sort
    by (rule sym, rule sort_key_map) (auto simp: fill_of_Some(3))
qed

subsection \<open>First fills as reference prices\<close>

lemma bm_get_note_first:
  "bm_get (foldl note_first m fs) k = (case bm_get m k of Some r \<Rightarrow> Some r
     | None \<Rightarrow> map_option fill_reference (find (\<lambda>f. fill_market f = k) fs))"
  by (induction fs arbitrary: m) (auto simp: note_first_def split: option.splits)

definition labelled :: "nav_event \<Rightarrow> bool" where
  "labelled e \<longleftrightarrow> ne_venue e = venue_name (nat (ne_venue_code e mod 256))"

definition labels_known :: "(string \<times> i16, first_fill_reference) bmap \<Rightarrow> bool" where
  "labels_known firsts \<longleftrightarrow> (\<forall>symbol code r. bm_get firsts (symbol, code) = Some r \<longrightarrow> ff_venue r = venue_name (nat (code mod 256)))"

lemma first_labelled:
  assumes "\<forall>f \<in> set fs. labelled (pf_event f)"
  shows "labels_known (foldl note_first [] fs)"
  unfolding labels_known_def
proof (intro allI impI)
  fix symbol code r
  assume r: "bm_get (foldl note_first [] fs) (symbol, code) = Some r"
  obtain f where "find (\<lambda>f. fill_market f = (symbol, code)) fs = Some f" "r = fill_reference f"
    using r by (auto simp: bm_get_note_first)
  then have "f \<in> set fs" "ne_venue_code (pf_event f) = code"
    by (auto simp: find_Some_iff fill_market_def)
  then show "ff_venue r = venue_name (nat (code mod 256))"
    using assms \<open>r = fill_reference f\<close> by (auto simp: labelled_def fill_reference_def)
qed

text \<open>The opening position only uses the first fills of the positions that have no price of their own.\<close>

lemma label_known:
  "labels_known firsts \<Longrightarrow>
     (case bm_get firsts (symbol, code) of Some f \<Rightarrow> ff_venue f | None \<Rightarrow> venue_name (nat (code mod 256))) = venue_name (nat (code mod 256))"
  by (auto simp: labels_known_def split: option.splits)

lemma opening_position_cong:
  assumes "sp_reference_price p = None \<longrightarrow>
      bm_get firsts' (target_symbol (sp_symbol p) (sp_venue_code p), sp_venue_code p)
      = bm_get firsts (target_symbol (sp_symbol p) (sp_venue_code p), sp_venue_code p)"
    and "labels_known firsts" and "labels_known firsts'"
  shows "opening_position firsts' states p = opening_position firsts states p"
  using assms(1) unfolding opening_position_def Let_def label_known [OF assms(2)] label_known [OF assms(3)]
  by (cases "sp_reference_price p") simp_all

lemma opening_strategy_cong:
  assumes "labels_known firsts" and "labels_known firsts'"
  shows "opening_strategy_states firsts' s = opening_strategy_states firsts s"
  unfolding opening_strategy_states_def Let_def label_known [OF assms(1)] label_known [OF assms(2)] ..

lemma rfold_cong_set: "(\<And>s x. x \<in> set xs \<Longrightarrow> f s x = g s x) \<Longrightarrow> rfold f s xs = rfold g s xs"
  by (induction xs arbitrary: s) (auto intro: rbind_cong_Inr)

lemma set_insert_fresh: "bm_get m k = None \<Longrightarrow> set (bm_insert k v m) = insert (k, v) (set m)"
  by (induction k v m rule: bm_insert.induct) (auto split: if_splits)

text \<open>A position without a price leaves its mark: an opening ledger priced by a first fill.\<close>

lemma initial_position_source [simp]:
  "vs_initial_reference_price_source (from_initial_position code venue q price source) = Some source"
  by (simp add: from_initial_position_def Let_def)

lemma opening_position_adds:
  assumes "opening_position firsts states p = Inr states'"
  shows "\<exists>kv. set states' = insert kv (set states)
    \<and> (sp_reference_price p = None \<longrightarrow> vs_initial_reference_price_source (snd kv) = Some FirstFill
         \<and> bm_get firsts (target_symbol (sp_symbol p) (sp_venue_code p), sp_venue_code p) \<noteq> None)"
proof -
  obtain price source venue where fresh: "bm_get states (target_symbol (sp_symbol p) (sp_venue_code p), sp_venue_code p) = None"
    and s: "states' = bm_insert (target_symbol (sp_symbol p) (sp_venue_code p), sp_venue_code p)
      (from_initial_position (sp_venue_code p) venue (sp_quantity p) price source) states"
    and n: "sp_reference_price p = None \<longrightarrow> source = FirstFill
         \<and> bm_get firsts (target_symbol (sp_symbol p) (sp_venue_code p), sp_venue_code p) \<noteq> None"
    using assms unfolding opening_position_def Let_def
    by (cases "sp_reference_price p") (auto simp: rbind_Inr_iff of_option_Inr_iff bm_contains_def split: if_splits)
  show ?thesis unfolding s set_insert_fresh [OF fresh] using n by (intro exI conjI) (rule refl, simp)
qed

lemma opening_sources:
  assumes "rfold (opening_position firsts) states ps = Inr initial"
  shows "set states \<subseteq> set initial
    \<and> (\<forall>p \<in> set ps. sp_reference_price p = None \<longrightarrow>
         (\<exists>kv \<in> set initial. vs_initial_reference_price_source (snd kv) = Some FirstFill)
         \<and> bm_get firsts (target_symbol (sp_symbol p) (sp_venue_code p), sp_venue_code p) \<noteq> None)"
  using assms
proof (induction ps arbitrary: states)
  case (Cons p ps)
  obtain states' where s: "opening_position firsts states p = Inr states'" "rfold (opening_position firsts) states' ps = Inr initial"
    using Cons.prems(1) by (auto simp: rbind_Inr_iff)
  obtain kv where kv: "set states' = insert kv (set states)" "sp_reference_price p = None \<longrightarrow> vs_initial_reference_price_source (snd kv) = Some FirstFill
         \<and> bm_get firsts (target_symbol (sp_symbol p) (sp_venue_code p), sp_venue_code p) \<noteq> None"
    using opening_position_adds [OF s(1)] by (elim exE conjE)
  note I = Cons.IH [OF s(2)]
  have "set states' \<subseteq> set initial" using I ..
  then have sub: "kv \<in> set initial" "set states \<subseteq> set initial" unfolding kv(1) by simp_all
  show ?case
  proof (intro conjI sub(2) ballI impI)
    fix q assume q: "q \<in> set (p # ps)" "sp_reference_price q = None"
    show "\<exists>kv \<in> set initial. vs_initial_reference_price_source (snd kv) = Some FirstFill"
      "bm_get firsts (target_symbol (sp_symbol q) (sp_venue_code q), sp_venue_code q) \<noteq> None"
      using q I kv(2) sub(1) by (cases "q = p"; simp; blast)+
  qed
qed simp

subsection \<open>Reading the history again\<close>

text \<open>The anchors of a source, chosen before its events are read.\<close>

definition chosen_anchors ::
    "source_config \<Rightarrow> position_snapshot option \<Rightarrow> strategy_position_snapshot option
      \<Rightarrow> nav_error + position_snapshot option \<times> strategy_position_snapshot option" where
  "chosen_anchors source snapshot strategy_snapshot =
     rbind (case snapshot of None \<Rightarrow> Inr () | Some s \<Rightarrow> rbind (snapshot_validate s) (\<lambda>_.
              rensure (ps_source_id s = sc_id source) (SnapshotSourceMismatch (ps_source_id s) (sc_id source)))) (\<lambda>_.
     rbind (case strategy_snapshot of None \<Rightarrow> Inr () | Some s \<Rightarrow> rbind (strategy_snapshot_validate s) (\<lambda>_.
              rensure (ts_source_id s = sc_id source) (SnapshotSourceMismatch (ts_source_id s) (sc_id source)))) (\<lambda>_.
     let chosen = (case strategy_snapshot of None \<Rightarrow> None
           | Some t \<Rightarrow> if (case snapshot of None \<Rightarrow> True | Some s \<Rightarrow> ps_snapshot_ts_us s \<le> ts_snapshot_ts_us t)
                      then Some t else None)
     in rbind (case chosen of Some t \<Rightarrow> rmap Some (account_snapshot t) | None \<Rightarrow> Inr snapshot) (\<lambda>effective.
        Inr (effective, chosen))))"

definition opened ::
    "strategy_position_snapshot option \<Rightarrow> position_snapshot option \<Rightarrow> prepared_fill list
      \<Rightarrow> nav_error + market_states \<times> strategy_states" where
  "opened chosen effective fills =
     rbind (rfold (opening_position (foldl note_first [] fills)) [] (case effective of None \<Rightarrow> [] | Some e \<Rightarrow> ps_positions e)) (\<lambda>initial.
     Inr (initial, case chosen of
           Some t \<Rightarrow> opening_strategy_states (foldl note_first [] fills) t
         | None \<Rightarrow> bm_extend [] (map (\<lambda>((symbol, code), st). ((initial_position_strategy, symbol, code), st)) initial)))"

definition prepared_of ::
    "position_snapshot option \<Rightarrow> strategy_position_snapshot option \<Rightarrow> market_states \<Rightarrow> strategy_states
      \<Rightarrow> liquidity_by_order \<Rightarrow> nav_event list \<Rightarrow> prepared_source_events" where
  "prepared_of effective chosen initial initial_strategy roles es =
     (let anchor = map_option ps_snapshot_ts_us effective
      in \<lparr>pe_allocations = [], pe_snapshot_ts_us = anchor, pe_initial_states = initial,
          pe_initial_strategy_states = initial_strategy, pe_strategy_allocation_active = (chosen \<noteq> None),
          pe_fill_events = map (attribute_initial_position (chosen \<noteq> None) initial)
            (sort_key fill_order_key (fills_from roles anchor es)),
          pe_order_event_count = length es,
          pe_ignored_at_or_before_snapshot_event_count = skipped anchor es,
          pe_ignored_non_fill_event_count = non_fills anchor es\<rparr>)"

lemma select_no_allocations: "select_allocations fp source_id ts anchored [] = Inr []"
  by (simp add: select_allocations_def allocation_resolve_def rmap_def)

lemma sorted_counts [simp]:
  "skipped anchor (sort_key f es) = skipped anchor es" "non_fills anchor (sort_key f es) = non_fills anchor es"
  "list_all P (sort_key f es) = list_all P es"
  by (simp_all add: skipped_def non_fills_def filter_sort list_all_iff)

definition read_events ::
    "source_config \<Rightarrow> liquidity_by_order \<Rightarrow> nav_event list
      \<Rightarrow> position_snapshot option \<Rightarrow> strategy_position_snapshot option \<Rightarrow> nav_error + prepared_source_events" where
  "read_events source roles es effective chosen =
     rbind (rfold (scan_event (map_option ps_snapshot_ts_us effective) roles)
            \<lparr>sn_ignored_snapshot = 0, sn_ignored_non_fill = 0, sn_fills = [], sn_first = []\<rparr> (sort_key event_order_key es)) (\<lambda>s.
     rbind (rfold (opening_position (sn_first s)) [] (case effective of None \<Rightarrow> [] | Some e \<Rightarrow> ps_positions e)) (\<lambda>initial.
     Inr \<lparr>pe_allocations = [], pe_snapshot_ts_us = map_option ps_snapshot_ts_us effective, pe_initial_states = initial,
          pe_initial_strategy_states = (case chosen of
              Some t \<Rightarrow> opening_strategy_states (sn_first s) t
            | None \<Rightarrow> bm_extend [] (map (\<lambda>((symbol, code), st). ((initial_position_strategy, symbol, code), st)) initial)),
          pe_strategy_allocation_active = (chosen \<noteq> None),
          pe_fill_events = map (attribute_initial_position (chosen \<noteq> None) initial) (sn_fills s),
          pe_order_event_count = length es,
          pe_ignored_at_or_before_snapshot_event_count = sn_ignored_snapshot s,
          pe_ignored_non_fill_event_count = sn_ignored_non_fill s\<rparr>))"

lemma prepare_reads:
  "prepare_source_events fp source es snapshot strategy_snapshot roles [] =
     rbind (chosen_anchors source snapshot strategy_snapshot) (\<lambda>(effective, chosen). read_events source roles es effective chosen)"
  unfolding prepare_source_events_def chosen_anchors_def read_events_def Let_def
  by (simp only: rbind_assoc rbind_simps select_no_allocations prod.case)

lemma rmap_as_bind: "rmap f m = rbind m (\<lambda>x. Inr (f x))"
  by (cases m) simp_all

text \<open>Preparation is the choice of anchors, the reading of the events, and the selection of corrections.\<close>

lemma prepare_selects:
  "prepare_source_events fp source es snapshot strategy_snapshot roles allocations =
     rbind (chosen_anchors source snapshot strategy_snapshot) (\<lambda>(effective, chosen).
     rbind (read_events source roles es effective chosen) (\<lambda>p.
     rmap (\<lambda>as. p\<lparr>pe_allocations := as\<rparr>)
       (select_allocations fp (sc_id source) (map_option ps_snapshot_ts_us effective) (chosen \<noteq> None) allocations)))"
  unfolding prepare_source_events_def chosen_anchors_def read_events_def Let_def rmap_as_bind
  by (simp only: rbind_assoc rbind_simps prod.case prepared_source_events.simps)

lemma read_no_allocations: "read_events source roles es effective chosen = Inr p \<Longrightarrow> pe_allocations p = []"
  by (auto simp: read_events_def rbind_Inr_iff)

lemma prepare_without_corrections:
  assumes "prepare_source_events fp source es snapshot strategy_snapshot roles allocations = Inr p" and "pe_allocations p = []"
  shows "prepare_source_events fp source es snapshot strategy_snapshot roles [] = Inr p"
  using assms by (fastforce simp: prepare_selects rbind_Inr_iff rmap_Inr_iff select_no_allocations)

lemma prepare_with_corrections:
  assumes "prepare_source_events fp source es snapshot strategy_snapshot roles allocations = Inr p" and "pe_allocations p = []"
    and "prepare_source_events fp source es' snapshot strategy_snapshot roles' [] = Inr q"
  shows "prepare_source_events fp source es' snapshot strategy_snapshot roles' allocations = Inr q"
  using assms by (fastforce simp: prepare_selects rbind_Inr_iff rmap_Inr_iff select_no_allocations)

lemma prepare_reads_anyway:
  "prepare_source_events fp source es snapshot strategy_snapshot roles allocations = Inr p
     \<Longrightarrow> \<exists>q. prepare_source_events fp source es snapshot strategy_snapshot roles [] = Inr q"
  by (auto simp: prepare_selects rbind_Inr_iff select_no_allocations rmap_def)

lemma read_events_closed:
  assumes "length es \<le> u64_max"
  shows "read_events source roles es effective chosen = Inr p \<longleftrightarrow>
    (\<exists>initial initial_strategy.
       list_all (readable (map_option ps_snapshot_ts_us effective)) es
       \<and> opened chosen effective (sort_key fill_order_key (fills_from roles (map_option ps_snapshot_ts_us effective) es))
           = Inr (initial, initial_strategy)
       \<and> p = prepared_of effective chosen initial initial_strategy roles es)"
proof -
  let ?s = "\<lparr>sn_ignored_snapshot = 0, sn_ignored_non_fill = 0, sn_fills = [], sn_first = []\<rparr>"
  have "rfold (scan_event (map_option ps_snapshot_ts_us effective) roles) ?s (sort_key event_order_key es) = Inr s \<longleftrightarrow>
      list_all (readable (map_option ps_snapshot_ts_us effective)) es
      \<and> s = \<lparr>sn_ignored_snapshot = skipped (map_option ps_snapshot_ts_us effective) es,
             sn_ignored_non_fill = non_fills (map_option ps_snapshot_ts_us effective) es,
             sn_fills = sort_key fill_order_key (fills_from roles (map_option ps_snapshot_ts_us effective) es),
             sn_first = foldl note_first [] (sort_key fill_order_key (fills_from roles (map_option ps_snapshot_ts_us effective) es))\<rparr>" for s
    using assms by (simp add: scan_closed fills_from_sorted)
  then show ?thesis
    unfolding read_events_def opened_def prepared_of_def Let_def
    by (cases chosen) (auto simp: rbind_Inr_iff)
qed

subsection \<open>A merged history\<close>

definition history_ok :: "nav_event list \<Rightarrow> bool" where
  "history_ok es \<longleftrightarrow> list_all (\<lambda>e. in_time (fifo_ts_us e) \<and> labelled e) es \<and> distinct (map event_order_key es) \<and> length es \<le> u64_max"

lemma reclassify_market [simp]: "fill_market (reclassify roles f) = fill_market f" "fill_reference (reclassify roles f) = fill_reference f"
  by (simp_all add: reclassify_def fill_market_def fill_reference_def)

lemma reclassify_fill_of: "map_option (reclassify roles') (fill_of roles e) = fill_of roles' e"
  unfolding fill_of_def by (simp add: reclassify_def split: sum.splits option.splits)

lemma reclassify_fills: "map (reclassify roles') (fills_from roles anchor es) = fills_from roles' anchor es"
proof (induction es)
  case (Cons e es)
  then show ?case using reclassify_fill_of [of roles' roles e] by (auto split: option.splits)
qed simp

lemma reclassify_attribute: "reclassify roles (attribute_initial_position a i f) = attribute_initial_position a i (reclassify roles f)"
  by (simp add: reclassify_def attribute_initial_position_def fill_market_def)

lemma attribute_fields [simp]:
  "fill_order_key (attribute_initial_position a i f) = fill_order_key f"
  "pf_fill_ts_us (attribute_initial_position a i f) = pf_fill_ts_us f"
  by (simp_all add: fill_order_key_def attribute_initial_position_def)

definition first_of :: "string \<times> i16 \<Rightarrow> prepared_fill list \<Rightarrow> first_fill_reference option" where
  "first_of k fs = map_option fill_reference (find (\<lambda>f. fill_market f = k) fs)"

lemma first_of_simps [simp]:
  "first_of k [] = None"
  "first_of k (f # fs) = (if fill_market f = k then Some (fill_reference f) else first_of k fs)"
  by (simp_all add: first_of_def)

lemma first_of_append: "first_of k (xs @ ys) = (case first_of k xs of Some r \<Rightarrow> Some r | None \<Rightarrow> first_of k ys)"
  by (induction xs) simp_all

lemma first_of_reclassified: "first_of k (map (reclassify roles) fs) = first_of k fs"
  by (induction fs) simp_all

lemma first_of_note: "bm_get (foldl note_first [] fs) k = first_of k fs"
  by (simp add: bm_get_note_first first_of_def)

lemma sorted_reclassified: "sort_key fill_order_key (map (reclassify roles) fs) = map (reclassify roles) (sort_key fill_order_key fs)"
  by (rule sort_key_map) simp

lemma sorted_attributed:
  "sort_key fill_order_key (map (attribute_initial_position a i) fs) = map (attribute_initial_position a i) (sort_key fill_order_key fs)"
  by (rule sort_key_map) simp

text \<open>The fills of a merged history are the old ones under the new roles, merged with the new ones.\<close>

lemma merged_fills:
  assumes "mset es' = mset (es @ new)" and "distinct (map event_order_key es')"
  shows "sort_key fill_order_key (fills_from roles' anchor es')
    = sort_key fill_order_key (map (reclassify roles') (sort_key fill_order_key (fills_from roles anchor es)) @ fills_from roles' anchor new)"
proof -
  have "sort_key event_order_key es' = sort_key event_order_key (es @ new)"
    using assms by (intro sort_key_eq_sort_key) (simp_all add: distinct_map)
  then have "sort_key fill_order_key (fills_from roles' anchor es') = sort_key fill_order_key (fills_from roles' anchor (es @ new))"
    by (metis fills_from_sorted)
  then show ?thesis
    by (simp add: sorted_reclassified [symmetric] reclassify_fills sort_key_append_sorted)
qed

lemma merged_firsts:
  assumes late: "\<forall>f \<in> set old. \<forall>g \<in> set new. pf_fill_ts_us f < pf_fill_ts_us g" and sorted: "sorted (map fill_order_key old)"
    and known: "first_of k old \<noteq> None"
  shows "first_of k (sort_key fill_order_key (map (reclassify roles) old @ new)) = first_of k old"
proof -
  have "sort_key fill_order_key (map (reclassify roles) old @ new) = map (reclassify roles) old @ sort_key fill_order_key new"
    using late sorted by (intro sort_key_prefix) (auto simp: comp_def intro: fill_order_less_ts)
  then show ?thesis using known by (auto simp: first_of_append first_of_reclassified split: option.splits)
qed

lemma labels_of_fills:
  assumes "list_all labelled es"
  shows "labels_known (foldl note_first [] (sort_key f (fills_from roles anchor es)))"
  by (rule first_labelled) (use assms in \<open>auto dest!: fills_from_mem simp: fill_of_Some(1) list_all_iff\<close>)

lemma opened_cong:
  assumes o: "opened chosen effective fills = Inr (initial, initial_strategy)"
    and known: "labels_known (foldl note_first [] fills)" "labels_known (foldl note_first [] fills')"
    and same: "\<And>k. (\<exists>kv \<in> set initial. vs_initial_reference_price_source (snd kv) = Some FirstFill) \<Longrightarrow>
      first_of k fills \<noteq> None \<Longrightarrow> first_of k fills' = first_of k fills"
  shows "opened chosen effective fills' = Inr (initial, initial_strategy)"
proof -
  let ?ps = "case effective of None \<Rightarrow> [] | Some e \<Rightarrow> ps_positions e"
  have i: "rfold (opening_position (foldl note_first [] fills)) [] ?ps = Inr initial"
    using o by (auto simp: opened_def rbind_Inr_iff)
  note S = opening_sources [OF i, THEN conjunct2, rule_format, unfolded first_of_note]
  have "rfold (opening_position (foldl note_first [] fills')) [] ?ps = rfold (opening_position (foldl note_first [] fills)) [] ?ps"
    by (rule rfold_cong_set, rule opening_position_cong [OF _ known]) (use S same in \<open>auto simp: first_of_note\<close>)
  then show ?thesis
    using o by (simp add: opened_def i opening_strategy_cong [OF known] cong: option.case_cong)
qed

text \<open>Where a refresh does not give up on the reference prices, merging is reading the merged history.\<close>

definition references_settled :: "nav_source_history \<Rightarrow> history_change \<Rightarrow> prepared_source_events \<Rightarrow> bool" where
  "references_settled h change p \<longleftrightarrow>
     (\<forall>p' unsorted. rfold (classify_event h) (p, []) (hc_events change) = Inr (p', unsorted)
        \<longrightarrow> \<not> reference_may_change p (first_fill_ts (sort_key fill_order_key unsorted)))"

lemma settled_fills_late:
  assumes "\<not> reference_may_change p (first_fill_ts (sort_key fill_order_key added))" and "first_fill_priced p"
    and "sorted (map fill_order_key (pe_fill_events p))" and "f \<in> set (pe_fill_events p)" and "g \<in> set added"
  shows "pf_fill_ts_us f < pf_fill_ts_us g"
proof -
  obtain t where t: "first_fill_ts (sort_key fill_order_key added) = Some t"
    using assms(5) by (cases "sort_key fill_order_key added") (auto simp: first_fill_ts_def dest: arg_cong [where f = set])
  have "t \<le> pf_fill_ts_us g" using first_fill_min [OF _ t, of g] assms(5) by simp
  moreover have "last_option (pe_fill_events p) = Some (last (pe_fill_events p))" using assms(4) by (auto simp: last_option_Some)
  then have "pf_fill_ts_us (last (pe_fill_events p)) < t"
    using assms(1,2) t by (simp add: reference_may_change_def first_fill_priced_def)
  moreover have "pf_fill_ts_us f \<le> pf_fill_ts_us (last (pe_fill_events p))"
    using sorted_fills_ts [OF assms(3)] assms(4) by (cases "pe_fill_events p" rule: rev_cases) (auto simp: sorted_append)
  ultimately show ?thesis by simp
qed

lemma read_merged:
  assumes es: "history_ok es" and es': "history_ok es'" and m: "mset es' = mset (es @ hc_events change)"
    and r: "read_events source roles es effective chosen = Inr p" and settled: "references_settled h change p"
  shows "merge_change h change p = Inr q \<Longrightarrow> read_events source (nh_liquidity_by_order h) es' effective chosen = Inr q"
    and "merge_change h change p = Inl e \<Longrightarrow> read_events source (nh_liquidity_by_order h) es' effective chosen \<noteq> Inr q"
proof -
  define anchor where "anchor = map_option ps_snapshot_ts_us effective"
  define new where "new = hc_events change"
  define roles' where "roles' = nh_liquidity_by_order h"
  define old where "old = sort_key fill_order_key (fills_from roles anchor es)"
  define added where "added = fills_from roles' anchor new"
  let ?attr = "\<lambda>i. attribute_initial_position (chosen \<noteq> None) i"
  have len: "length es' = length es + length new" using arg_cong [OF m, of size] by (simp add: new_def)
  have set': "set es' = set es \<union> set new" using arg_cong [OF m, of set_mset] by (simp add: new_def)
  have bound: "length es \<le> u64_max" "length es' \<le> u64_max" using es es' by (simp_all add: history_ok_def)
  obtain initial initial_strategy where old_ok: "list_all (readable anchor) es"
    and o: "opened chosen effective old = Inr (initial, initial_strategy)"
    and p: "p = prepared_of effective chosen initial initial_strategy roles es"
    using r unfolding read_events_closed [OF bound(1)] by (auto simp: anchor_def old_def)
  have pf: "pe_snapshot_ts_us p = anchor" "pe_fill_events p = map (?attr initial) old" "pe_initial_states p = initial"
    "pe_strategy_allocation_active p = (chosen \<noteq> None)" "pe_order_event_count p = length es"
    "pe_ignored_at_or_before_snapshot_event_count p = skipped anchor es" "pe_ignored_non_fill_event_count p = non_fills anchor es"
    by (simp_all add: p prepared_of_def Let_def anchor_def old_def)
  let ?p' = "p\<lparr>pe_order_event_count := length es', pe_ignored_at_or_before_snapshot_event_count := skipped anchor es + skipped anchor new,
      pe_ignored_non_fill_event_count := non_fills anchor es + non_fills anchor new\<rparr>"
  have cl: "rfold (classify_event h) (p, []) new = Inr pr \<longleftrightarrow> list_all (readable anchor) new \<and> pr = (?p', map (?attr initial) added)" for pr
    using classify_closed [of p new h "[]" pr] bound(2) len counts_bounded [of anchor es]
    by (simp add: pf added_def roles'_def)
  have readable': "list_all (readable anchor) es' \<longleftrightarrow> list_all (readable anchor) new"
    using old_ok set' by (auto simp: list_all_iff)
  have parts: "length (filter P es') = length (filter P es) + length (filter P new)" for P
    using arg_cong [OF m, of "\<lambda>M. size (filter_mset P M)"] by (simp add: new_def flip: mset_filter)
  have perm: "skipped anchor es' = skipped anchor es + skipped anchor new" "non_fills anchor es' = non_fills anchor es + non_fills anchor new"
    unfolding skipped_def non_fills_def by (rule parts)+
  have fills': "sort_key fill_order_key (fills_from roles' anchor es') = sort_key fill_order_key (map (reclassify roles') old @ added)"
    unfolding old_def added_def by (rule merged_fills) (use m es' in \<open>simp_all add: new_def history_ok_def\<close>)
  have "list_all labelled es" "list_all labelled es'" using es es' by (auto simp: history_ok_def list_all_iff)
  then have known: "labels_known (foldl note_first [] old)"
    "labels_known (foldl note_first [] (sort_key fill_order_key (map (reclassify roles') old @ added)))"
    using labels_of_fills [of es fill_order_key roles anchor] labels_of_fills [of es' fill_order_key roles' anchor, unfolded fills']
    by (simp_all add: old_def)
  have merge: "merge_change h change p = Inr q \<longleftrightarrow> list_all (readable anchor) new
    \<and> q = ?p'\<lparr>pe_fill_events := sort_key fill_order_key (map (reclassify roles') (pe_fill_events p) @ map (?attr initial) added)\<rparr>" for q
    unfolding merge_change_def new_def [symmetric] roles'_def [symmetric]
    by (auto simp: rbind_Inr_iff cl)
  show "read_events source (nh_liquidity_by_order h) es' effective chosen = Inr q" if "merge_change h change p = Inr q"
  proof -
    have new_ok: "list_all (readable anchor) new"
      and q: "q = ?p'\<lparr>pe_fill_events := sort_key fill_order_key (map (reclassify roles') (pe_fill_events p) @ map (?attr initial) added)\<rparr>"
      using that merge by blast+
    have "rfold (classify_event h) (p, []) (hc_events change) = Inr (?p', map (?attr initial) added)"
      using cl new_ok by (simp add: new_def)
    then have settled': "\<not> reference_may_change p (first_fill_ts (sort_key fill_order_key (map (?attr initial) added)))"
      using settled unfolding references_settled_def by blast
    have "opened chosen effective (sort_key fill_order_key (map (reclassify roles') old @ added)) = Inr (initial, initial_strategy)"
    proof (rule opened_cong [OF o known])
      fix k
      assume ff: "\<exists>kv \<in> set initial. vs_initial_reference_price_source (snd kv) = Some FirstFill" and k: "first_of k old \<noteq> None"
      have "first_fill_priced p" using ff by (auto simp: first_fill_priced_def pf list_ex_iff)
      then have "\<forall>f \<in> set old. \<forall>g \<in> set added. pf_fill_ts_us f < pf_fill_ts_us g"
        using settled_fills_late [OF settled'] by (fastforce simp: pf old_def comp_def)
      then show "first_of k (sort_key fill_order_key (map (reclassify roles') old @ added)) = first_of k old"
        by (rule merged_firsts [OF _ _ k]) (simp add: old_def)
    qed
    moreover have "q = prepared_of effective chosen initial initial_strategy roles' es'"
      unfolding q pf(2) prepared_of_def Let_def anchor_def [symmetric] fills' perm
      by (simp add: p prepared_of_def Let_def anchor_def reclassify_attribute sorted_attributed [symmetric] comp_def)
    ultimately show ?thesis
      unfolding read_events_closed [OF bound(2)] roles'_def [symmetric] anchor_def [symmetric] fills'
      using new_ok readable' by blast
  qed
  show "read_events source (nh_liquidity_by_order h) es' effective chosen \<noteq> Inr q" if "merge_change h change p = Inl e"
  proof -
    have "\<not> list_all (readable anchor) new" using merge that by (metis sum.distinct(1))
    then show ?thesis
      unfolding read_events_closed [OF bound(2)] anchor_def [symmetric] using readable' by blast
  qed
qed

subsection \<open>Caches served along a history\<close>

text \<open>
  What the history store promises of an update: the history it hands out has gained exactly the
  change's events, and a fill whose liquidity role is different from before is no older than the
  change says.
\<close>

definition extends :: "nav_event list \<Rightarrow> liquidity_by_order \<Rightarrow> nav_source_history \<Rightarrow> history_change \<Rightarrow> bool" where
  "extends es roles h change \<longleftrightarrow> history_ok (nh_events h) \<and> mset (nh_events h) = mset (es @ hc_events change)
     \<and> list_all (\<lambda>e. (\<exists>sd. validated_fill_side e = Inr (Some sd))
          \<and> liquidity_role_for_event e (nh_liquidity_by_order h) \<noteq> liquidity_role_for_event e roles
          \<longrightarrow> (case hc_earliest_liquidity_fill_ts_us change of None \<Rightarrow> False | Some t \<Rightarrow> t \<le> fifo_ts_us e)) es"

inductive served ::
    "source_config \<Rightarrow> position_snapshot option \<Rightarrow> strategy_position_snapshot option \<Rightarrow> nat
      \<Rightarrow> nav_event list \<Rightarrow> liquidity_by_order \<Rightarrow> cached_source \<Rightarrow> bool"
  for source snapshot strategy_snapshot n where
  loaded: "history_ok es \<Longrightarrow> prepare_source_events fp source es snapshot strategy_snapshot roles [] = Inr p
    \<Longrightarrow> (\<forall>ts. pe_snapshot_ts_us p = Some ts \<longrightarrow> in_time ts) \<Longrightarrow> build source p n = Inr c
    \<Longrightarrow> served source snapshot strategy_snapshot n es roles c"
| updated: "served source snapshot strategy_snapshot n es roles c \<Longrightarrow> nh_change h = Some change \<Longrightarrow> extends es roles h change
    \<Longrightarrow> cached_refresh c source h n = Inr (Some c')
    \<Longrightarrow> served source snapshot strategy_snapshot n (nh_events h) (nh_liquidity_by_order h) c'"

lemma prepared_of_fills:
  assumes "f \<in> set (pe_fill_events (prepared_of effective chosen initial initial_strategy roles es))"
  obtains e where "e \<in> set es" "after_anchor (map_option ps_snapshot_ts_us effective) e" "pf_event f = e"
    "pf_fill_ts_us f = fifo_ts_us e" "pf_liquidity f = liquidity_role_for_event e roles" "\<exists>sd. validated_fill_side e = Inr (Some sd)"
proof -
  obtain g where g: "g \<in> set (fills_from roles (map_option ps_snapshot_ts_us effective) es)"
    "f = attribute_initial_position (chosen \<noteq> None) initial g"
    using assms by (auto simp: prepared_of_def Let_def)
  obtain e where e: "e \<in> set es" "after_anchor (map_option ps_snapshot_ts_us effective) e" "fill_of roles e = Some g"
    using fills_from_mem [OF g(1)] by blast
  have "\<exists>sd. validated_fill_side e = Inr (Some sd)" using e(3) fill_of_Some_iff by blast
  then show thesis
    by (rule that [OF e(1,2), rotated 3]) (simp_all add: g(2) attribute_initial_position_def fill_of_Some [OF e(3)])
qed

lemma read_prepared_ok:
  assumes es: "history_ok es" and r: "read_events source roles es effective chosen = Inr p"
    and a: "\<forall>ts. pe_snapshot_ts_us p = Some ts \<longrightarrow> in_time ts"
  shows "prepared_ok p"
proof -
  have bound: "length es \<le> u64_max" using es by (simp add: history_ok_def)
  obtain initial initial_strategy where p: "p = prepared_of effective chosen initial initial_strategy roles es"
    using r unfolding read_events_closed [OF bound] by blast
  have "in_time (pf_fill_ts_us f) \<and> (case pe_snapshot_ts_us p of None \<Rightarrow> True | Some a \<Rightarrow> a < pf_fill_ts_us f)"
    if "f \<in> set (pe_fill_events p)" for f
    using that es unfolding p
    by (elim prepared_of_fills) (auto simp: history_ok_def list_all_iff after_anchor_def prepared_of_def Let_def split: option.splits)
  then show ?thesis using a
    by (auto simp: prepared_ok_def fills_ok_def p prepared_of_def Let_def comp_def split: option.splits)
qed

lemma extends_honest:
  assumes es: "history_ok es" and r: "read_events source roles es effective chosen = Inr p" and x: "extends es roles h change"
  shows "change_honest h change p"
proof -
  have bound: "length es \<le> u64_max" using es by (simp add: history_ok_def)
  obtain initial initial_strategy where p: "p = prepared_of effective chosen initial initial_strategy roles es"
    using r unfolding read_events_closed [OF bound] by blast
  have "set (hc_events change) \<subseteq> set (nh_events h)"
    using x by (metis Un_upper2 extends_def mset_eq_setD set_append)
  then have "list_all (\<lambda>e. in_time (fifo_ts_us e)) (hc_events change)"
    using x by (auto simp: extends_def history_ok_def list_all_iff)
  moreover have "reclassify (nh_liquidity_by_order h) f = f"
    if mem: "f \<in> set (pe_fill_events p)" and early: "case hc_earliest_liquidity_fill_ts_us change of None \<Rightarrow> True | Some t \<Rightarrow> pf_fill_ts_us f < t" for f
  proof -
    obtain e where e: "e \<in> set es" "after_anchor (map_option ps_snapshot_ts_us effective) e" "pf_event f = e"
      "pf_fill_ts_us f = fifo_ts_us e" "pf_liquidity f = liquidity_role_for_event e roles" "\<exists>sd. validated_fill_side e = Inr (Some sd)"
      using mem unfolding p by (rule prepared_of_fills)
    then have "liquidity_role_for_event e (nh_liquidity_by_order h) = liquidity_role_for_event e roles"
      using x early by (fastforce simp: extends_def list_all_iff split: option.splits)
    then show ?thesis using e by (simp add: reclassify_def)
  qed
  ultimately show ?thesis by (auto simp: change_honest_def list_all_iff)
qed

lemma refresh_settled:
  assumes "cached_refresh c source h n \<noteq> Inr None" and "nh_change h = Some change" and "pe_allocations (cs_prepared c) = []"
  shows "references_settled h change (cs_prepared c)"
  using assms unfolding references_settled_def by (auto simp: cached_refresh_def Let_def)

text \<open>A refresh gives up on its cache only when a first fill may have been preceded.\<close>

lemma refresh_gives_up:
  assumes r: "cached_refresh c source h n = Inr None" and h: "nh_change h = Some change" and a: "pe_allocations (cs_prepared c) = []"
  shows "first_fill_priced (cs_prepared c)
    \<and> (\<exists>e \<in> set (hc_events change). \<exists>f \<in> set (pe_fill_events (cs_prepared c)). fifo_ts_us e \<le> pf_fill_ts_us f)"
proof -
  obtain p' unsorted where cl: "rfold (classify_event h) (cs_prepared c, []) (hc_events change) = Inr (p', unsorted)"
    using r h a by (auto simp: cached_refresh_def Let_def rbind_Inr_iff)
  define added where "added = sort_key fill_order_key unsorted"
  have "reference_may_change (cs_prepared c) (first_fill_ts added)"
  proof (rule ccontr)
    assume n: "\<not> ?thesis"
    have "first_fill_ts added = None \<longleftrightarrow> added = []" by (cases added) (simp_all add: first_fill_ts_def)
    then have "appends_only p' added (hc_earliest_liquidity_fill_ts_us change)
      \<or> min_option (first_fill_ts added) (hc_earliest_liquidity_fill_ts_us change) \<noteq> None"
      by (auto simp: appends_only_def min_option_def split: list.splits option.splits)
    then show False
      using r h a n unfolding cached_refresh_def
      by (auto simp: cl Let_def added_def [symmetric] rmap_def split: option.splits sum.splits if_splits)
  qed
  then obtain t where t: "first_fill_ts added = Some t" "pe_fill_events (cs_prepared c) \<noteq> []"
      "t \<le> pf_fill_ts_us (last (pe_fill_events (cs_prepared c)))" and ff: "first_fill_priced (cs_prepared c)"
    by (auto simp: reference_may_change_def first_fill_priced_def last_option_Some split: option.splits)
  then obtain f where "f \<in> set added" "pf_fill_ts_us f = t" by (cases added) (auto simp: first_fill_ts_def)
  then obtain e where "e \<in> set (hc_events change)" "fifo_ts_us e = t"
    using classify_fold [OF cl] by (auto simp: added_def)
  then show ?thesis using t ff by (metis last_in_set)
qed

lemma served_reads:
  "served source snapshot strategy_snapshot n es roles c \<Longrightarrow> history_ok es \<and> cache_of source n c
     \<and> (\<exists>effective chosen. chosen_anchors source snapshot strategy_snapshot = Inr (effective, chosen)
          \<and> read_events source roles es effective chosen = Inr (cs_prepared c))"
proof (induction rule: served.induct)
  case (loaded es fp roles p c)
  obtain effective chosen where a: "chosen_anchors source snapshot strategy_snapshot = Inr (effective, chosen)"
    and r: "read_events source roles es effective chosen = Inr p"
    using loaded.hyps(2) by (auto simp: prepare_reads rbind_Inr_iff)
  have p: "cs_prepared c = p" by (rule build_prepared [OF loaded.hyps(4)])
  have "prepared_ok p" by (rule read_prepared_ok [OF loaded.hyps(1) r loaded.hyps(3)])
  then show ?case using a r p loaded.hyps(1,4) by (auto simp: cache_of_def)
next
  case (updated es roles c h change c')
  then obtain effective chosen where a: "chosen_anchors source snapshot strategy_snapshot = Inr (effective, chosen)"
    and r: "read_events source roles es effective chosen = Inr (cs_prepared c)" and es: "history_ok es" and c: "cache_of source n c"
    by blast
  have honest: "change_honest h change (cs_prepared c)" by (rule extends_honest [OF es r updated.hyps(3)])
  obtain q where q: "merge_change h change (cs_prepared c) = Inr q" "cs_prepared c' = q" "prepared_ok q" "rmap strip (build source q n) = Inr (strip c')"
    using refresh_cache_of [OF c updated.hyps(2) honest updated.hyps(4)] by blast
  have "references_settled h change (cs_prepared c)"
    using refresh_settled [of c source h n, OF _ updated.hyps(2)] updated.hyps(4) c by (simp add: cache_of_def prepared_ok_def)
  moreover have es': "history_ok (nh_events h)" "mset (nh_events h) = mset (es @ hc_events change)"
    using updated.hyps(3) by (simp_all add: extends_def)
  ultimately have "read_events source (nh_liquidity_by_order h) (nh_events h) effective chosen = Inr q"
    using read_merged(1) [OF es es' r _ q(1)] by blast
  then show ?case using a es'(1) q by (auto simp: cache_of_def)
qed

text \<open>
  A cached source under the ownership corrections its history carries: loaded with them, carried over
  while its records stay, and refreshed with each change of them. Without corrections to replay it
  is a served cache; with corrections it is never refreshed in place.
\<close>

inductive kept_current ::
    "fingerprint \<Rightarrow> source_config \<Rightarrow> position_snapshot option \<Rightarrow> strategy_position_snapshot option \<Rightarrow> nat
      \<Rightarrow> nav_source_history \<Rightarrow> cached_source \<Rightarrow> bool"
  for fp source snapshot strategy_snapshot n where
  loaded: "history_ok (nh_events h)
    \<Longrightarrow> prepare_source_events fp source (nh_events h) snapshot strategy_snapshot (nh_liquidity_by_order h) (nh_allocations h) = Inr p
    \<Longrightarrow> (\<forall>ts. pe_snapshot_ts_us p = Some ts \<longrightarrow> in_time ts) \<Longrightarrow> build source p n = Inr c
    \<Longrightarrow> kept_current fp source snapshot strategy_snapshot n h c"
| carried: "kept_current fp source snapshot strategy_snapshot n h c \<Longrightarrow> nh_events h' = nh_events h
    \<Longrightarrow> nh_liquidity_by_order h' = nh_liquidity_by_order h \<Longrightarrow> nh_allocations h' = nh_allocations h
    \<Longrightarrow> kept_current fp source snapshot strategy_snapshot n h' c"
| updated: "kept_current fp source snapshot strategy_snapshot n h c \<Longrightarrow> nh_change h' = Some change
    \<Longrightarrow> extends (nh_events h) (nh_liquidity_by_order h) h' change \<Longrightarrow> nh_allocations h' = nh_allocations h
    \<Longrightarrow> cached_refresh c source h' n = Inr (Some c') \<Longrightarrow> kept_current fp source snapshot strategy_snapshot n h' c'"

lemma prepare_timed:
  assumes "prepare_source_events fp source es snapshot strategy_snapshot roles allocations = Inr p"
    and "history_ok es" and "\<forall>ts. pe_snapshot_ts_us p = Some ts \<longrightarrow> in_time ts"
  shows "timed p"
proof -
  obtain effective chosen p0 as where r: "read_events source roles es effective chosen = Inr p0"
    and as: "select_allocations fp (sc_id source) (map_option ps_snapshot_ts_us effective) (chosen \<noteq> None) allocations = Inr as"
    and p: "p = p0\<lparr>pe_allocations := as\<rparr>"
    using assms(1) by (auto simp: prepare_selects rbind_Inr_iff rmap_Inr_iff)
  have "prepared_ok p0" using read_prepared_ok [OF assms(2) r] assms(3) p by simp
  moreover have "pe_snapshot_ts_us p0 = map_option ps_snapshot_ts_us effective" using r by (auto simp: read_events_def rbind_Inr_iff)
  moreover have "\<forall>ts. map_option ps_snapshot_ts_us effective = Some ts \<longrightarrow> (\<forall>a \<in> set as. ts < as_snapshot_ts_us a)"
    using as by (auto simp: select_allocations_def Let_def rbind_Inr_iff)
  ultimately show ?thesis by (auto simp: timed_def prepared_ok_def p split: option.splits)
qed

lemma kept_reads:
  "kept_current fp source snapshot strategy_snapshot n h c \<Longrightarrow> history_ok (nh_events h)
     \<and> prepare_source_events fp source (nh_events h) snapshot strategy_snapshot (nh_liquidity_by_order h) (nh_allocations h) = Inr (cs_prepared c)
     \<and> (\<forall>ts. pe_snapshot_ts_us (cs_prepared c) = Some ts \<longrightarrow> in_time ts)
     \<and> rmap strip (build source (cs_prepared c) n) = Inr (strip c)
     \<and> (pe_allocations (cs_prepared c) = [] \<longrightarrow>
          served source snapshot strategy_snapshot n (nh_events h) (nh_liquidity_by_order h) c)"
proof (induction rule: kept_current.induct)
  case (loaded h p c)
  then show ?case
    using build_prepared [OF loaded.hyps(4)] prepare_without_corrections [OF loaded.hyps(2)] by (auto intro: served.loaded)
next
  case (carried h c h')
  then show ?case by simp
next
  case (updated h c h' change c')
  let ?p = "cs_prepared c" and ?q = "cs_prepared c'"
  have none: "pe_allocations ?p = []" using updated.hyps(5) by (auto simp: cached_refresh_def split: if_splits)
  then have s: "served source snapshot strategy_snapshot n (nh_events h) (nh_liquidity_by_order h) c" using updated.IH by blast
  have s': "served source snapshot strategy_snapshot n (nh_events h') (nh_liquidity_by_order h') c'"
    by (rule served.updated [OF s updated.hyps(2,3,5)])
  note R = served_reads [OF s']
  then have q: "prepare_source_events fp source (nh_events h') snapshot strategy_snapshot (nh_liquidity_by_order h') [] = Inr ?q"
    by (auto simp: prepare_reads)
  have p: "prepare_source_events fp source (nh_events h) snapshot strategy_snapshot (nh_liquidity_by_order h) (nh_allocations h) = Inr ?p"
    using updated.IH by blast
  have "prepare_source_events fp source (nh_events h') snapshot strategy_snapshot (nh_liquidity_by_order h') (nh_allocations h') = Inr ?q"
    unfolding updated.hyps(4) by (rule prepare_with_corrections [OF p none q])
  moreover have "\<forall>ts. pe_snapshot_ts_us ?q = Some ts \<longrightarrow> in_time ts" "rmap strip (build source ?q n) = Inr (strip c')"
    using R by (auto simp: cache_of_def prepared_ok_def split: option.splits)
  ultimately show ?case using R s' by simp
qed

lemma kept_timed: "kept_current fp source snapshot strategy_snapshot n h c \<Longrightarrow> timed (cs_prepared c)"
  by (drule kept_reads, elim conjE, rule prepare_timed)

text \<open>
  C1: What the dashboard serves is what a cold start would load. However many updates a source's
  history and its cache have gone through - appended fills, fills that arrive late, roles that trade
  records settle afterwards - the cache holds the ledgers, strategy ledgers, marks, report,
  checkpoints, indexes and counters that reading the whole history anew and replaying all of it
  gives; only the statistic of replayed fills differs.
\<close>

theorem served_is_reload:
  assumes "served source snapshot strategy_snapshot n es roles c"
  shows "rmap strip (rbind (prepare_source_events fp source es snapshot strategy_snapshot roles []) (\<lambda>p. build source p n))
    = Inr (strip c)"
  using served_reads [OF assms] by (auto simp: prepare_reads cache_of_def)

text \<open>Where an update of a served cache fails, reading the new history fails, or replaying it does.\<close>

lemma update_error_reloads:
  assumes "served source snapshot strategy_snapshot n es roles c"
    and "nh_change h = Some change" and "extends es roles h change" and "cached_refresh c source h n = Inl e"
  shows "\<exists>e'. rbind (prepare_source_events fp source (nh_events h) snapshot strategy_snapshot (nh_liquidity_by_order h) [])
             (\<lambda>p. build source p n) = Inl e'"
proof -
  obtain effective chosen where a: "chosen_anchors source snapshot strategy_snapshot = Inr (effective, chosen)"
    and r: "read_events source roles es effective chosen = Inr (cs_prepared c)" and es: "history_ok es" and c: "cache_of source n c"
    using served_reads [OF assms(1)] by blast
  have settled: "references_settled h change (cs_prepared c)"
    using refresh_settled [of c source h n, OF _ assms(2)] assms(4) c by (simp add: cache_of_def prepared_ok_def)
  have es': "history_ok (nh_events h)" "mset (nh_events h) = mset (es @ hc_events change)"
    using assms(3) by (simp_all add: extends_def)
  note M = read_merged [OF es es' r settled]
  have "\<exists>e'. rbind (read_events source (nh_liquidity_by_order h) (nh_events h) effective chosen) (\<lambda>p. build source p n) = Inl e'"
    using refresh_rebuilds [OF c assms(2) extends_honest [OF es r assms(3)]]
  proof (elim disjE exE conjE)
    fix e' assume "merge_change h change (cs_prepared c) = Inl e'"
    from M(2) [OF this] show ?thesis
      by (cases "read_events source (nh_liquidity_by_order h) (nh_events h) effective chosen") auto
  next
    fix q assume "merge_change h change (cs_prepared c) = Inr q"
      "rmap (map_option strip) (cached_refresh c source h n) = rmap (Some \<circ> strip) (build source q n)"
    then show ?thesis using M(1) [of q] assms(4) by (cases "build source q n") auto
  qed (use assms(4) in auto)
  then show ?thesis using a by (simp add: prepare_reads)
qed

text \<open>
  C2: An update of a cached source never hides an error and never loses data. It is tried only while
  the corrections of the history stay the same. A source that replays ownership corrections is handed
  back for a cold start at every update. The update of any other source gives what a cold start over
  the new history would load; or it fails where that cold start fails too; or it hands the source back
  for a cold start, and that only if an opening position takes its price from a first fill and a new
  record is no later than a fill already booked.
\<close>

theorem update_fails_as_reload:
  assumes "kept_current fp source snapshot strategy_snapshot n h0 c"
    and "nh_change h = Some change" and "extends (nh_events h0) (nh_liquidity_by_order h0) h change"
    and "nh_allocations h = nh_allocations h0"
  defines "reload \<equiv> rbind (prepare_source_events fp source (nh_events h) snapshot strategy_snapshot
      (nh_liquidity_by_order h) (nh_allocations h)) (\<lambda>p. build source p n)"
  shows "if pe_allocations (cs_prepared c) \<noteq> [] then cached_refresh c source h n = Inr None
    else (\<exists>c'. cached_refresh c source h n = Inr (Some c') \<and> rmap strip reload = Inr (strip c'))
    \<or> (cached_refresh c source h n = Inr None \<and> first_fill_priced (cs_prepared c)
       \<and> (\<exists>e \<in> set (hc_events change). \<exists>f \<in> set (pe_fill_events (cs_prepared c)). fifo_ts_us e \<le> pf_fill_ts_us f))
    \<or> (\<exists>e e'. cached_refresh c source h n = Inl e \<and> reload = Inl e')"
proof (cases "pe_allocations (cs_prepared c) = []")
  case False
  then show ?thesis by (simp add: cached_refresh_def)
next
  case True
  note K = kept_reads [OF assms(1)]
  consider c' where "cached_refresh c source h n = Inr (Some c')" | "cached_refresh c source h n = Inr None"
    | e where "cached_refresh c source h n = Inl e"
    by (cases "cached_refresh c source h n") auto
  then show ?thesis
  proof cases
    case (1 c')
    then show ?thesis
      using True kept_reads [OF kept_current.updated [OF assms(1-4) 1]] by (simp add: reload_def)
  next
    case 2
    then show ?thesis using True refresh_gives_up [OF 2 assms(2) True] by simp
  next
    case (3 e)
    have s: "served source snapshot strategy_snapshot n (nh_events h0) (nh_liquidity_by_order h0) c" using K True by blast
    have p: "prepare_source_events fp source (nh_events h0) snapshot strategy_snapshot (nh_liquidity_by_order h0) (nh_allocations h0)
        = Inr (cs_prepared c)" using K by blast
    have "\<exists>e'. reload = Inl e'"
    proof (cases "prepare_source_events fp source (nh_events h) snapshot strategy_snapshot (nh_liquidity_by_order h) []")
      case (Inr q)
      then have "prepare_source_events fp source (nh_events h) snapshot strategy_snapshot (nh_liquidity_by_order h) (nh_allocations h) = Inr q"
        unfolding assms(4) by (rule prepare_with_corrections [OF p True])
      then show ?thesis using update_error_reloads [OF s assms(2,3) 3, of fp] Inr by (simp add: reload_def)
    next
      case (Inl e0)
      then obtain e' where "prepare_source_events fp source (nh_events h) snapshot strategy_snapshot (nh_liquidity_by_order h) (nh_allocations h) = Inl e'"
        using prepare_reads_anyway [of fp source "nh_events h" snapshot strategy_snapshot "nh_liquidity_by_order h" "nh_allocations h"]
        by (cases "prepare_source_events fp source (nh_events h) snapshot strategy_snapshot (nh_liquidity_by_order h) (nh_allocations h)") auto
      then show ?thesis by (simp add: reload_def)
    qed
    then show ?thesis using 3 True by simp
  qed
qed

lemma sample_reads: "prepare_source_events fp (sample_source ''a'') [] None None [] [] = Inr sample_prepared"
  by (simp add: prepare_reads chosen_anchors_def read_events_def sample_prepared_def bm_extend_def)

lemma sample_extends: "extends [] [] sample_history sample_change"
  by (simp add: extends_def sample_history_def sample_change_def history_ok_def u64_max_def in_time_def fifo_ts_us_def
      labelled_def sample_fill_def venue_name_def name_at_def)

lemma sample_served:
  "\<exists>c c'. served (sample_source ''a'') None None 0 [] [] c
     \<and> cached_refresh c (sample_source ''a'') sample_history 0 = Inr (Some c')
     \<and> served (sample_source ''a'') None None 0 [sample_fill] [] c'"
proof -
  obtain c c' where c: "cached_refresh c (sample_source ''a'') sample_history 0 = Inr (Some c')"
    "build (sample_source ''a'') sample_prepared 0 = Inr c" using sample_refresh by blast
  have "served (sample_source ''a'') None None 0 [] [] c"
    by (rule served.loaded [OF _ sample_reads _ c(2)]) (simp_all add: history_ok_def sample_prepared_def)
  moreover have "served (sample_source ''a'') None None 0 [sample_fill] [] c'"
    using served.updated [OF calculation sample_history_change sample_extends c(1)] by (simp add: sample_history_def)
  ultimately show ?thesis using c by blast
qed

theorem served_is_reload_witness:
  "\<exists>c. rmap strip (rbind (prepare_source_events (\<lambda>_. Inr '''') (sample_source ''a'') [sample_fill] None None [] [])
     (\<lambda>p. build (sample_source ''a'') p 0)) = Inr (strip c)"
proof -
  obtain c' where "served (sample_source ''a'') None None 0 [sample_fill] [] c'" using sample_served by blast
  then show ?thesis using served_is_reload by blast
qed

lemma sample_kept:
  "\<exists>c. kept_current fp (sample_source ''a'') None None 0 (sample_history\<lparr>nh_events := []\<rparr>) c \<and> pe_allocations (cs_prepared c) = []"
proof -
  obtain c where c: "build (sample_source ''a'') sample_prepared 0 = Inr c" "cs_prepared c = sample_prepared" using sample_refresh by blast
  have "kept_current fp (sample_source ''a'') None None 0 (sample_history\<lparr>nh_events := []\<rparr>) c"
    by (rule kept_current.loaded [OF _ _ _ c(1)]) (simp_all add: history_ok_def sample_prepared_def sample_history_def sample_reads [unfolded sample_prepared_def])
  then show ?thesis using c(2) by (auto simp: sample_prepared_def)
qed

theorem update_fails_as_reload_witness:
  "\<exists>c. pe_allocations (cs_prepared c) = []
     \<and> ((\<exists>c'. cached_refresh c (sample_source ''a'') sample_history 0 = Inr (Some c')
           \<and> rmap strip (rbind (prepare_source_events (\<lambda>_. Inr '''') (sample_source ''a'') [sample_fill] None None [] [])
               (\<lambda>p. build (sample_source ''a'') p 0)) = Inr (strip c'))
       \<or> first_fill_priced (cs_prepared c)
       \<or> (\<exists>e. cached_refresh c (sample_source ''a'') sample_history 0 = Inl e))"
proof -
  obtain c where c: "kept_current (\<lambda>_. Inr '''') (sample_source ''a'') None None 0 (sample_history\<lparr>nh_events := []\<rparr>) c"
    "pe_allocations (cs_prepared c) = []" using sample_kept by blast
  have "extends (nh_events (sample_history\<lparr>nh_events := []\<rparr>)) (nh_liquidity_by_order (sample_history\<lparr>nh_events := []\<rparr>))
      sample_history sample_change" using sample_extends by (simp add: sample_history_def)
  from update_fails_as_reload [OF c(1) sample_history_change this] c(2) show ?thesis
    by (auto simp: sample_history_def)
qed

end
