(* ===== verification/Valuation.thy ===== *)
theory Valuation
  imports Timeline
begin

text \<open>
  Reading the replayed state (\<open>nav.rs\<close>, \<open>nav/minute_marks.rs\<close>): closed-minute marks, totals by
  symbol and by strategy, the residual the account ledger holds beyond the named strategies,
  position values, symbol reports, one sample of the timeline, its downsampling, and the selection
  of sources and symbols.
\<close>

subsection \<open>Minute marks\<close>

type_synonym market_key = "string \<times> i16"
type_synonym minute_prices = "(market_key, (i64, f64) bmap) bmap"

datatype minute_marks =
    Collect "(market_key, (i64, unit) bmap) bmap"
  | Loaded nat minute_prices

definition minute_us :: int where
  "minute_us = 60000000"

definition mark_open :: "i64 \<Rightarrow> i64" where
  "mark_open ts = wrap64 (ts div minute_us * minute_us - minute_us)"

definition minute_price :: "minute_marks \<Rightarrow> market_key \<Rightarrow> i64 \<Rightarrow> nav_error + f64 option \<times> minute_marks" where
  "minute_price marks mkt ts =
     rbind (rensure (snd mkt \<in> {0, 1, 2, 3}) (MarkError ''market has no minute valuation'')) (\<lambda>_.
     case marks of
       Collect requests \<Rightarrow>
         Inr (None, Collect (bm_upsert mkt [] (bm_insert (mark_open ts) ()) requests))
     | Loaded revision prices \<Rightarrow>
         rbind (of_option (MarkError ''minute price missing'')
                  (case bm_get prices mkt of None \<Rightarrow> None | Some bars \<Rightarrow> bm_get bars (mark_open ts))) (\<lambda>price.
         Inr (Some price, marks)))"

definition open_state :: "venue_state \<Rightarrow> bool" where
  "open_state v \<longleftrightarrow> f_lit (1 / 10 ^ 12) < \<bar>long_quantity (vs_fifo v) 1\<bar>
     \<or> f_lit (1 / 10 ^ 12) < \<bar>short_quantity (vs_fifo v) 1\<bar>"

definition open_markets :: "timeline_state \<Rightarrow> string list \<Rightarrow> market_key list" where
  "open_markets s symbols =
     set_of_list
       (map fst (filter (\<lambda>((symbol, _), v). symbol \<in> set symbols \<and> open_state v) (rt_states s))
        @ map (\<lambda>((_, symbol, venue), _). (symbol, venue))
            (filter (\<lambda>((_, symbol, _), v). symbol \<in> set symbols \<and> open_state v) (rt_strategy_states s)))"

definition mark_market ::
    "i64 \<Rightarrow> timeline_state \<times> minute_marks \<Rightarrow> market_key \<Rightarrow> nav_error + timeline_state \<times> minute_marks" where
  "mark_market ts sm mkt =
     (case sm of (s, marks) \<Rightarrow>
        rbind (minute_price marks mkt ts) (\<lambda>(price, marks').
        Inr (case price of None \<Rightarrow> s
             | Some p \<Rightarrow> s\<lparr>rt_latest_marks := bm_insert mkt p (rt_latest_marks s)\<rparr>, marks')))"

fun mark_runtimes ::
    "i64 \<Rightarrow> string list \<Rightarrow> timeline_state list \<Rightarrow> minute_marks \<Rightarrow> nav_error + timeline_state list \<times> minute_marks" where
  "mark_runtimes ts symbols [] marks = Inr ([], marks)"
| "mark_runtimes ts symbols (s # rest) marks =
     rbind (rfold (mark_market ts) (s, marks) (open_markets s symbols)) (\<lambda>(s', marks').
     rbind (mark_runtimes ts symbols rest marks') (\<lambda>(rest', marks'').
     Inr (s' # rest', marks'')))"

definition apply_minute_marks ::
    "minute_marks option \<Rightarrow> timeline_state list \<Rightarrow> string list \<Rightarrow> i64
      \<Rightarrow> nav_error + timeline_state list \<times> minute_marks option" where
  "apply_minute_marks prices runtimes symbols ts =
     (case prices of None \<Rightarrow> Inr (runtimes, None)
      | Some marks \<Rightarrow> rmap (\<lambda>(rs, m). (rs, Some m)) (mark_runtimes ts symbols runtimes marks))"

subsection \<open>Totals\<close>

definition mark_of_runtime :: "timeline_state \<Rightarrow> market_key \<Rightarrow> f64 option" where
  "mark_of_runtime s k = bm_get (rt_latest_marks s) k"

definition runtime_report :: "timeline_state \<Rightarrow> market_key \<Rightarrow> venue_state \<Rightarrow> venue_nav_report" where
  "runtime_report s k v = venue_report (mark_of_runtime s k) v"

definition add_totals :: "'k::linorder \<Rightarrow> nav_totals \<Rightarrow> ('k, nav_totals) bmap \<Rightarrow> ('k, nav_totals) bmap" where
  "add_totals k t m = bm_upsert k totals_default (\<lambda>u. totals_add u t) m"

definition timeline_totals_by_symbol :: "timeline_state list \<Rightarrow> (string, nav_totals) bmap" where
  "timeline_totals_by_symbol runtimes =
     foldl (\<lambda>m s. foldl (\<lambda>m (k, v). add_totals (fst k) (vr_totals (runtime_report s k v)) m) m (rt_states s)) [] runtimes"

definition position_gross :: "venue_nav_report \<Rightarrow> f64" where
  "position_gross r = \<bar>vr_long_position_value_quote r\<bar> + \<bar>vr_short_position_value_quote r\<bar>"

definition timeline_position_values :: "timeline_state list \<Rightarrow> string list \<Rightarrow> f64 \<times> f64" where
  "timeline_position_values runtimes selected_symbols =
     (let (gross, net) =
        foldl (\<lambda>acc s. foldl (\<lambda>(gross, net) (k, v).
            if fst k \<notin> set selected_symbols then (gross, net)
            else let r = runtime_report s k v
                 in (gross + position_gross r, net + vr_net_position_value_quote r)) acc (rt_states s))
          (0, 0) runtimes
      in (clean_zero gross, clean_zero net))"

text \<open>What the named strategy ledgers explain of each market, and the account ledger's rest.\<close>

definition attributed_totals :: "timeline_state \<Rightarrow> (market_key, nav_totals) bmap" where
  "attributed_totals s =
     foldl (\<lambda>m ((_, symbol, venue), v). add_totals (symbol, venue) (vr_totals (runtime_report s (symbol, venue) v)) m)
       [] (rt_strategy_states s)"

definition account_totals :: "timeline_state \<Rightarrow> market_key \<Rightarrow> nav_totals" where
  "account_totals s k = (case bm_get (rt_states s) k of None \<Rightarrow> totals_default | Some v \<Rightarrow> vr_totals (runtime_report s k v))"

definition unallocated_symbol_totals :: "timeline_state \<Rightarrow> (string, nav_totals) bmap" where
  "unallocated_symbol_totals s =
     (if \<not> rt_strategy_allocation_active s then []
      else let attributed = attributed_totals s;
               keys = set_of_list (bm_keys (rt_states s) @ bm_keys attributed)
           in foldl (\<lambda>m k. add_totals (fst k)
                (totals_difference (account_totals s k)
                   (case bm_get attributed k of None \<Rightarrow> totals_default | Some t \<Rightarrow> t)) m) [] keys)"

definition timeline_totals_by_strategy_symbol :: "timeline_state list \<Rightarrow> (string \<times> string, nav_totals) bmap" where
  "timeline_totals_by_strategy_symbol runtimes =
     foldl (\<lambda>m s.
        let m1 = foldl (\<lambda>m ((strategy, symbol, venue), v).
              add_totals (strategy, symbol) (vr_totals (runtime_report s (symbol, venue) v)) m) m (rt_strategy_states s)
        in foldl (\<lambda>m (symbol, residual). add_totals (unallocated_strategy, symbol) residual m) m1
             (unallocated_symbol_totals s))
       [] runtimes"

definition timeline_position_values_by_symbol :: "timeline_state list \<Rightarrow> (string, f64 \<times> f64) bmap" where
  "timeline_position_values_by_symbol runtimes =
     bm_map (\<lambda>(gross, net). (clean_zero gross, clean_zero net))
       (foldl (\<lambda>m s. foldl (\<lambda>m (k, v).
            let r = runtime_report s k v
            in bm_upsert (fst k) (0, 0) (\<lambda>(gross, net). (gross + position_gross r, net + vr_net_position_value_quote r)) m)
          m (rt_states s)) [] runtimes)"

definition unallocated_venue_quantities :: "timeline_state \<Rightarrow> string list \<Rightarrow> (market_key, f64) bmap" where
  "unallocated_venue_quantities s selected =
     (if \<not> rt_strategy_allocation_active s then []
      else let account = foldl (\<lambda>m (k, v).
                 if fst k \<in> set selected then bm_upsert k 0 (\<lambda>q. q + vr_net_quantity (venue_report None v)) m else m)
                 [] (rt_states s)
           in foldl (\<lambda>m ((_, symbol, venue), v).
                 if symbol \<in> set selected
                 then bm_upsert (symbol, venue) 0 (\<lambda>q. q - vr_net_quantity (venue_report None v)) m else m)
                account (rt_strategy_states s))"

definition strategy_totals :: "timeline_state \<Rightarrow> string \<Rightarrow> nav_totals" where
  "strategy_totals s name =
     totals_cleaned
       (if name = unallocated_strategy
        then foldl totals_add totals_default (bm_vals (unallocated_symbol_totals s))
        else foldl (\<lambda>t ((strategy, symbol, venue), v).
               if strategy \<noteq> name then t else totals_add t (vr_totals (runtime_report s (symbol, venue) v)))
             totals_default (rt_strategy_states s))"

text \<open>Symbols held, gross and net value of one strategy; the residual is valued per market.\<close>

type_synonym held = "string list \<times> f64 \<times> f64"

definition residual_position :: "timeline_state \<Rightarrow> held \<Rightarrow> market_key \<times> f64 \<Rightarrow> held" where
  "residual_position s acc kq =
     (case acc of (symbols, gross, net) \<Rightarrow> case kq of (k, quantity) \<Rightarrow>
        if \<bar>quantity\<bar> \<le> f_lit (1 / 10 ^ 12) then acc
        else (case or_else (mark_of_runtime s k) (map_option vs_latest_fill_price (bm_get (rt_states s) k)) of
            None \<Rightarrow> acc
          | Some mark \<Rightarrow> (symbols @ [fst k], gross + \<bar>quantity\<bar> * mark, net + quantity * mark)))"

definition strategy_position ::
    "string \<Rightarrow> string list \<Rightarrow> timeline_state \<Rightarrow> held \<Rightarrow> (string \<times> string \<times> i16) \<times> venue_state \<Rightarrow> held" where
  "strategy_position strategy selected s acc kv =
     (case acc of (symbols, gross, net) \<Rightarrow> case kv of ((owner, symbol, venue), v) \<Rightarrow>
        if owner \<noteq> strategy \<or> symbol \<notin> set selected then acc
        else let r = runtime_report s (symbol, venue) v
             in if (strategy = initial_position_strategy \<or> is_system_position_close strategy)
                   \<and> position_gross r < f_lit (1 / 10 ^ 8) then acc
                else (if f_lit (1 / 10 ^ 12) < \<bar>vr_long_quantity r\<bar> \<or> f_lit (1 / 10 ^ 12) < \<bar>vr_short_quantity r\<bar>
                      then symbols @ [symbol] else symbols,
                      gross + position_gross r, net + vr_net_position_value_quote r))"

definition timeline_strategy_position_values ::
    "string \<Rightarrow> timeline_state list \<Rightarrow> string list \<Rightarrow> nat \<times> f64 \<times> f64" where
  "timeline_strategy_position_values strategy runtimes selected =
     (let (symbols, gross, net) = foldl (\<lambda>acc s.
            if strategy = unallocated_strategy
            then foldl (residual_position s) acc (unallocated_venue_quantities s selected)
            else foldl (strategy_position strategy selected s) acc (rt_strategy_states s)) ([], 0, 0) runtimes
      in (length (set_of_list symbols), clean_zero gross, clean_zero net))"

definition timeline_symbol_reports :: "timeline_state list \<Rightarrow> aggregate_symbol_nav_report list" where
  "timeline_symbol_reports runtimes =
     map (\<lambda>(symbol, b). aggregate_finish symbol b)
       (foldl (\<lambda>m s.
          let source_symbols = foldl (\<lambda>m (k, v). bm_upsert (fst k) symbol_builder_default
                                  (symbol_push (runtime_report s k v)) m) [] (rt_states s)
          in foldl (\<lambda>m (symbol, b). bm_upsert symbol aggregate_builder_default
                      (aggregate_push (symbol_finish symbol b)) m) m source_symbols)
        [] runtimes)"

subsection \<open>Samples\<close>

record nav_timeline_point =
  tp_ts_us :: i64
  tp_gross_position_value_quote :: f64
  tp_net_position_value_quote :: f64
  tp_totals :: nav_totals

definition push_or_replace_timeline_point :: "nav_timeline_point list \<Rightarrow> nav_timeline_point \<Rightarrow> nav_timeline_point list" where
  "push_or_replace_timeline_point points p =
     (if points \<noteq> [] \<and> tp_ts_us (last points) = tp_ts_us p then butlast points @ [p] else points @ [p])"

definition next_timeline_tick :: "i64 \<Rightarrow> i64 \<Rightarrow> i64" where
  "next_timeline_tick ts interval = sat64 (sat64 (ts div interval + 1) * interval)"

text \<open>What a window fixes: its baselines and the symbols and strategies on display.\<close>

record window =
  wn_baselines :: "(string, nav_totals) bmap"
  wn_strategy_baselines :: "(string \<times> string, nav_totals) bmap"
  wn_selected_symbols :: "string list"
  wn_available_strategies :: "string list"

record timeline_run =
  tr_runtimes :: "timeline_state list"
  tr_points :: "nav_timeline_point list"
  tr_points_by_symbol :: "(string, nav_timeline_point list) bmap"
  tr_points_by_strategy :: "(string, nav_timeline_point list) bmap"
  tr_prices :: "minute_marks option"

definition get_totals :: "('k, nav_totals) bmap \<Rightarrow> 'k \<Rightarrow> nav_totals" where
  "get_totals m k = (case bm_get m k of None \<Rightarrow> totals_default | Some t \<Rightarrow> t)"

definition push_series ::
    "'k::linorder \<Rightarrow> nav_timeline_point \<Rightarrow> ('k, nav_timeline_point list) bmap \<Rightarrow> ('k, nav_timeline_point list) bmap" where
  "push_series k p m =
     (case bm_get m k of None \<Rightarrow> m | Some points \<Rightarrow> bm_insert k (push_or_replace_timeline_point points p) m)"

definition push_timeline_sample :: "window \<Rightarrow> i64 \<Rightarrow> timeline_run \<Rightarrow> nav_error + timeline_run" where
  "push_timeline_sample w ts run =
     rbind (rmapM (advance_allocations ts (tr_points run \<noteq> [])) (tr_runtimes run)) (\<lambda>rs0.
     rbind (apply_minute_marks (tr_prices run) rs0 (wn_selected_symbols w) ts) (\<lambda>(rs, prices).
     let by_symbol = timeline_totals_by_symbol rs;
         by_strategy = timeline_totals_by_strategy_symbol rs;
         values = timeline_position_values_by_symbol rs;
         (gross, net) = timeline_position_values rs (wn_selected_symbols w);
         delta = (\<lambda>symbol. totals_difference (get_totals by_symbol symbol) (get_totals (wn_baselines w) symbol));
         portfolio = foldl (\<lambda>t symbol. totals_add t (delta symbol)) totals_default (wn_selected_symbols w);
         points = push_or_replace_timeline_point (tr_points run)
           \<lparr>tp_ts_us = ts, tp_gross_position_value_quote = gross, tp_net_position_value_quote = net,
            tp_totals = totals_cleaned portfolio\<rparr>;
         symbol_points = foldl (\<lambda>m symbol.
             let (g, n) = (case bm_get values symbol of None \<Rightarrow> (0, 0) | Some v \<Rightarrow> v)
             in push_series symbol
                  \<lparr>tp_ts_us = ts, tp_gross_position_value_quote = g, tp_net_position_value_quote = n,
                   tp_totals = delta symbol\<rparr> m)
           (tr_points_by_symbol run) (wn_selected_symbols w);
         strategy_points = foldl (\<lambda>m strategy.
             push_series strategy
               \<lparr>tp_ts_us = ts, tp_gross_position_value_quote = 0, tp_net_position_value_quote = 0,
                tp_totals = totals_cleaned (foldl (\<lambda>t symbol. totals_add t
                   (totals_difference (get_totals by_strategy (strategy, symbol))
                      (get_totals (wn_strategy_baselines w) (strategy, symbol)))) totals_default (wn_selected_symbols w))\<rparr> m)
           (tr_points_by_strategy run) (wn_available_strategies w)
     in Inr \<lparr>tr_runtimes = rs, tr_points = points, tr_points_by_symbol = symbol_points,
             tr_points_by_strategy = strategy_points, tr_prices = prices\<rparr>))"

subsection \<open>Downsampling\<close>

definition value_selectors :: "(nav_timeline_point \<Rightarrow> f64) list" where
  "value_selectors =
     [\<lambda>p. nt_nav_change_before_fee_quote (tp_totals p), \<lambda>p. nt_nav_change_after_fee_quote (tp_totals p),
      \<lambda>p. nt_realized_pnl_before_fee_quote (tp_totals p), \<lambda>p. nt_floating_pnl_quote (tp_totals p),
      tp_gross_position_value_quote, tp_net_position_value_quote]"

text \<open>
  \<open>min_by\<close> keeps the first of equal elements, \<open>max_by\<close> the last; floats that do not compare count
  as equal.
\<close>

definition min_by :: "('a \<Rightarrow> f64) \<Rightarrow> 'a list \<Rightarrow> 'a option" where
  "min_by f xs = (case xs of [] \<Rightarrow> None | x # rest \<Rightarrow> Some (foldl (\<lambda>m y. if f y < f m then y else m) x rest))"

definition max_by :: "('a \<Rightarrow> f64) \<Rightarrow> 'a list \<Rightarrow> 'a option" where
  "max_by f xs = (case xs of [] \<Rightarrow> None | x # rest \<Rightarrow> Some (foldl (\<lambda>m y. if f y < f m then m else y) x rest))"

function chunks :: "nat \<Rightarrow> 'a list \<Rightarrow> 'a list list" where
  "chunks n xs = (if xs = [] \<or> n = 0 then [] else take n xs # chunks n (drop n xs))"
  by pat_completeness auto
termination by (relation "measure (\<lambda>(n, xs). length xs)") auto

declare chunks.simps [simp del]

fun dedup_by_key :: "('a \<Rightarrow> 'k) \<Rightarrow> 'a list \<Rightarrow> 'a list" where
  "dedup_by_key f (x # y # xs) =
     (if f x = f y then dedup_by_key f (x # xs) else x # dedup_by_key f (y # xs))"
| "dedup_by_key f xs = xs"

definition option_list :: "'a option \<Rightarrow> 'a list" where
  "option_list x = (case x of None \<Rightarrow> [] | Some v \<Rightarrow> [v])"

definition bucket_extrema :: "nav_timeline_point list \<Rightarrow> nav_timeline_point list" where
  "bucket_extrema xs =
     dedup_by_key tp_ts_us (sort_key tp_ts_us
       (concat (map (\<lambda>f. option_list (min_by f xs) @ option_list (max_by f xs)) value_selectors)))"

definition div_ceil :: "nat \<Rightarrow> nat \<Rightarrow> nat" where
  "div_ceil a b = (a + b - 1) div b"

definition downsample_timeline_points :: "nav_timeline_point list \<Rightarrow> nat \<Rightarrow> nav_timeline_point list" where
  "downsample_timeline_points points max_points =
     (if length points \<le> max_points \<or> max_points < 10 then points
      else let interior = take (length points - 2) (drop 1 points);
               bucket_count = max ((max_points - 2) div (length value_selectors * 2)) 1;
               bucket_size = div_ceil (length interior) bucket_count
           in hd points # concat (map bucket_extrema (chunks bucket_size interior)) @ [last points])"

subsection \<open>Selections\<close>

definition select_sources :: "source_config list \<Rightarrow> string list \<Rightarrow> nav_error + source_config list" where
  "select_sources sources selected_ids =
     (let requested = set_of_list selected_ids
      in if length requested \<noteq> length selected_ids then Inl (SelectionError ''duplicates'')
         else rbind (rfold (\<lambda>_ i. case find (\<lambda>s. sc_id s = i) sources of
                None \<Rightarrow> Inl (SelectionError ''not configured'')
              | Some s \<Rightarrow> rensure (sc_enabled s) (SelectionError ''disabled'')) () requested) (\<lambda>_.
           let selected = filter (\<lambda>s. sc_enabled s \<and> (requested = [] \<or> sc_id s \<in> set requested)) sources
           in if selected = [] \<and> requested \<noteq> [] then Inl (SelectionError ''none enabled'') else Inr selected))"

definition select_timeline_symbols :: "string list \<Rightarrow> string list \<Rightarrow> nav_error + string list" where
  "select_timeline_symbols available requested_symbols =
     (let requested = set_of_list (filter (\<lambda>s. s \<noteq> []) (map (\<lambda>s. ascii_upper (trim s)) requested_symbols))
      in if requested = [] then Inr available
         else let selected = filter (\<lambda>s. s \<in> set available) requested
              in if selected = [] \<and> available \<noteq> [] then Inl (SelectionError ''no requested symbol'') else Inr selected)"

end
