(* ===== verification/Dashboard.thy ===== *)
theory Dashboard
  imports Valuation
begin

text \<open>
  The reports (\<open>nav.rs\<close>): the account report from a source's events, the windowed timeline of the
  dashboard with its fixed sampling grid, and the rows of one strategy's profit and loss. The lemmas
  show which time stamps the timeline samples, that sampling terminates, which rows a strategy
  export has, and that a report depends on the selected sources only.
\<close>

subsection \<open>The account report\<close>

type_synonym mark_overrides = "(market_key, f64) bmap"

definition apply_account_fill ::
    "fee_rates \<Rightarrow> market_states \<Rightarrow> prepared_fill \<Rightarrow> nav_error + market_states" where
  "apply_account_fill rates states f =
     rbind (venue_apply_fill (pf_event f) (pf_side f) rates (pf_liquidity f) (pf_fill_ts_us f)
              (or_new (pf_event f) (bm_get states (fill_market f)))) (\<lambda>v.
     Inr (bm_insert (fill_market f) v states))"

definition estimate_source_events ::
    "fingerprint \<Rightarrow> source_config \<Rightarrow> nav_event list \<Rightarrow> mark_overrides \<Rightarrow> position_snapshot option
      \<Rightarrow> liquidity_by_order \<Rightarrow> nav_error + source_nav_report" where
  "estimate_source_events fp source events marks snapshot roles =
     rbind (rmap_err NavConfig (nav_fee_rates source)) (\<lambda>rates.
     rbind (rfold (\<lambda>_ (_, price). validate_positive price ''mark price'') () marks) (\<lambda>_.
     rbind (prepare_source_events fp source events snapshot None roles []) (\<lambda>p.
     rbind (rfold (apply_account_fill rates) (pe_initial_states p) (pe_fill_events p)) (\<lambda>states.
     rbind (rfold (\<lambda>_ (key, _). rensure (bm_contains states key) (MarkError ''no position or fills'')) () marks) (\<lambda>_.
     let builders = foldl (\<lambda>m ((symbol, code), v). bm_upsert symbol symbol_builder_default
                        (symbol_push (venue_report (bm_get marks (symbol, code)) v)) m) [] states;
         symbols = map (\<lambda>(symbol, b). symbol_finish symbol b) builders;
         totals = foldl (\<lambda>t sym. totals_add t (sr_totals sym)) totals_default symbols
     in Inr \<lparr>so_source_id = sc_id source, so_account = display_name source, so_configured_venue = sc_venue source,
          so_estimated_fee_rate = fr_taker rates, so_maker_fee_rate = fr_maker rates,
          so_taker_fee_rate = fr_taker rates, so_quote_fee_rates = fr_by_quote rates,
          so_initial_position_snapshot_ts_us = pe_snapshot_ts_us p,
          so_initial_position_count = (case snapshot of None \<Rightarrow> 0 | Some s \<Rightarrow> length (ps_positions s)),
          so_order_event_count = pe_order_event_count p,
          so_ignored_at_or_before_snapshot_event_count = pe_ignored_at_or_before_snapshot_event_count p,
          so_ignored_non_fill_event_count = pe_ignored_non_fill_event_count p,
          so_first_fill_ts_us = map_option pf_fill_ts_us (if pe_fill_events p = [] then None else Some (hd (pe_fill_events p))),
          so_last_fill_ts_us = map_option pf_fill_ts_us (last_option (pe_fill_events p)),
          so_totals = totals_cleaned totals, so_symbols = symbols\<rparr>)))))"

definition effective_position_snapshot ::
    "position_snapshot option \<Rightarrow> strategy_position_snapshot option \<Rightarrow> nav_error + position_snapshot option" where
  "effective_position_snapshot snapshot strategy_snapshot =
     (case strategy_snapshot of
        Some t \<Rightarrow> if (case snapshot of None \<Rightarrow> True | Some s \<Rightarrow> ps_snapshot_ts_us s \<le> ts_snapshot_ts_us t)
                  then rmap Some (account_snapshot t) else Inr snapshot
      | None \<Rightarrow> Inr snapshot)"

type_synonym histories = "(string, nav_source_history) bmap"
type_synonym snapshots = "(string, position_snapshot) bmap"
type_synonym strategy_snapshots = "(string, strategy_position_snapshot) bmap"

definition selected_only :: "source_config list \<Rightarrow> string list \<Rightarrow> string \<Rightarrow> nav_error + unit" where
  "selected_only selected ids what =
     rfold (\<lambda>_ i. rensure (i \<in> set (map sc_id selected)) (SelectionError what)) () ids"

definition history_of :: "histories \<Rightarrow> source_config \<Rightarrow> nav_error + nav_source_history" where
  "history_of histories source =
     of_option (SelectionError ''NAV history is missing'') (bm_get histories (sc_id source))"

definition rebuild_nav_from_histories ::
    "fingerprint \<Rightarrow> source_config list \<Rightarrow> string list \<Rightarrow> snapshots \<Rightarrow> strategy_snapshots \<Rightarrow> histories
      \<Rightarrow> nav_error + nav_report" where
  "rebuild_nav_from_histories fp config ids snapshots strategy_snapshots histories =
     rbind (select_sources config ids) (\<lambda>selected.
     rbind (selected_only selected (bm_keys snapshots) ''position snapshots contain unselected source'') (\<lambda>_.
     rbind (selected_only selected (bm_keys strategy_snapshots) ''strategy position snapshots contain unselected source'') (\<lambda>_.
     rbind (rmapM (\<lambda>source.
         rbind (history_of histories source) (\<lambda>h.
         rbind (effective_position_snapshot (bm_get snapshots (sc_id source))
                  (bm_get strategy_snapshots (sc_id source))) (\<lambda>effective.
         estimate_source_events fp source (nh_events h) [] effective (nh_liquidity_by_order h)))) selected) (\<lambda>reports.
     Inr (aggregate_source_reports reports)))))"

definition rebuild_nav_from_histories_with_inputs ::
    "fingerprint \<Rightarrow> source_config list \<Rightarrow> string list \<Rightarrow> (string, mark_overrides) bmap \<Rightarrow> snapshots \<Rightarrow> histories
      \<Rightarrow> nav_error + nav_report" where
  "rebuild_nav_from_histories_with_inputs fp config ids marks snapshots histories =
     rbind (select_sources config ids) (\<lambda>selected.
     rbind (selected_only selected (bm_keys marks) ''mark overrides contain unselected source'') (\<lambda>_.
     rbind (selected_only selected (bm_keys snapshots) ''position snapshots contain unselected source'') (\<lambda>_.
     rbind (rmapM (\<lambda>source.
         rbind (history_of histories source) (\<lambda>h.
         estimate_source_events fp source (nh_events h)
           (case bm_get marks (sc_id source) of None \<Rightarrow> [] | Some m \<Rightarrow> m)
           (bm_get snapshots (sc_id source)) (nh_liquidity_by_order h))) selected) (\<lambda>reports.
     Inr (aggregate_source_reports reports)))))"

subsection \<open>Requests, events and reports of the timeline\<close>

record nav_timeline_request =
  tq_start_ts_us :: "i64 option"
  tq_end_ts_us :: i64
  tq_selected_source_ids :: "string list"
  tq_selected_symbols :: "string list"
  tq_max_points :: nat
  tq_tick_interval_us :: "i64 option"

definition resolved_start_ts_us :: "nav_timeline_request \<Rightarrow> i64 option \<Rightarrow> i64" where
  "resolved_start_ts_us q earliest =
     (case earliest of
        Some e \<Rightarrow> max (case tq_start_ts_us q of None \<Rightarrow> e | Some s \<Rightarrow> s) e
      | None \<Rightarrow> (case tq_start_ts_us q of None \<Rightarrow> tq_end_ts_us q | Some s \<Rightarrow> s))"

datatype timeline_event =
    SnapshotEvent nat string i64
  | FillEvent nat string prepared_fill

fun te_ts_us :: "timeline_event \<Rightarrow> i64" where
  "te_ts_us (SnapshotEvent _ _ ts) = ts"
| "te_ts_us (FillEvent _ _ f) = pf_fill_ts_us f"

fun te_source_index :: "timeline_event \<Rightarrow> nat" where
  "te_source_index (SnapshotEvent i _ _) = i"
| "te_source_index (FillEvent i _ _) = i"

fun te_source_id :: "timeline_event \<Rightarrow> string" where
  "te_source_id (SnapshotEvent _ s _) = s"
| "te_source_id (FillEvent _ s _) = s"

fun te_rank :: "timeline_event \<Rightarrow> nat" where
  "te_rank (SnapshotEvent _ _ _) = 0"
| "te_rank (FillEvent _ _ _) = 1"

fun te_record_tie_breaker :: "timeline_event \<Rightarrow> string \<times> i64" where
  "te_record_tie_breaker (SnapshotEvent _ _ _) = ([], i64_min)"
| "te_record_tie_breaker (FillEvent _ _ f) = (ne_record_key (pf_event f), ne_event_ts_us (pf_event f))"

definition timeline_order_key :: "timeline_event \<Rightarrow> i64 \<times> nat \<times> string \<times> i64 \<times> string" where
  "timeline_order_key e =
     (te_ts_us e, te_rank e, te_source_id e, snd (te_record_tie_breaker e), fst (te_record_tie_breaker e))"

definition apply_timeline_event :: "timeline_state list \<Rightarrow> timeline_event \<Rightarrow> nav_error + timeline_state list" where
  "apply_timeline_event runtimes e =
     (let i = te_source_index e
      in rmap (\<lambda>s. runtimes[i := s])
           (case e of SnapshotEvent _ _ ts \<Rightarrow> Inr (activate_snapshot_at ts (runtimes ! i))
            | FillEvent _ _ f \<Rightarrow> timeline_apply_fill f (runtimes ! i)))"

record symbol_nav_timeline =
  yt_symbol :: string
  yt_points :: "nav_timeline_point list"

record strategy_nav_timeline =
  gt_strategy :: string
  gt_symbol_count :: nat
  gt_gross_position_value_quote :: f64
  gt_net_position_value_quote :: f64
  gt_summary :: nav_totals
  gt_points :: "nav_timeline_point list"

record nav_timeline_report =
  tl_valuation :: string
  tl_earliest_start_ts_us :: i64
  tl_start_ts_us :: i64
  tl_end_ts_us :: i64
  tl_selected_source_ids :: "string list"
  tl_available_symbols :: "string list"
  tl_selected_symbols :: "string list"
  tl_available_strategies :: "string list"
  tl_summary :: nav_totals
  tl_symbols :: "aggregate_symbol_nav_report list"
  tl_points :: "nav_timeline_point list"
  tl_symbol_points :: "symbol_nav_timeline list"
  tl_strategy_points :: "strategy_nav_timeline list"
  tl_sampled :: bool

subsection \<open>Collecting the sources\<close>

text \<open>
  A cached generation maps a source and its allocation mode to the cached replay. The checkpoint a
  window starts from is the last one at or before its requested start.
\<close>

type_synonym source_cache = "(string \<times> bool, cached_source) bmap"

definition cached_hit :: "(source_cache \<times> bool) option \<Rightarrow> source_config \<Rightarrow> cached_source option" where
  "cached_hit cached source =
     (case cached of None \<Rightarrow> None | Some (cache, allocation) \<Rightarrow> bm_get cache (sc_id source, allocation))"

definition start_checkpoint :: "cached_source option \<Rightarrow> i64 option \<Rightarrow> fifo_checkpoint option" where
  "start_checkpoint hit start =
     (case hit of None \<Rightarrow> None | Some c \<Rightarrow> (case start of None \<Rightarrow> None | Some ts \<Rightarrow>
        let n = partition_point (\<lambda>cp. cp_ts_us cp \<le> ts) (cs_checkpoints c)
        in if n = 0 then None else Some (cs_checkpoints c ! (n - 1))))"

definition due_snapshot :: "prepared_source_events \<Rightarrow> i64 \<Rightarrow> i64 option" where
  "due_snapshot p end_ts = (case pe_snapshot_ts_us p of None \<Rightarrow> None | Some ts \<Rightarrow> if ts \<le> end_ts then Some ts else None)"

definition source_anchor :: "prepared_source_events \<Rightarrow> i64 \<Rightarrow> i64 option" where
  "source_anchor p end_ts =
     or_else (due_snapshot p end_ts)
       (map_option pf_fill_ts_us (find (\<lambda>f. pf_fill_ts_us f \<le> end_ts) (pe_fill_events p)))"

definition window_fills :: "prepared_source_events \<Rightarrow> nat \<Rightarrow> i64 \<Rightarrow> prepared_fill list" where
  "window_fills p first_fill end_ts =
     (let last_fill = fill_partition_point (\<lambda>f. pf_fill_ts_us f \<le> end_ts) (pe_fill_events p)
      in filter (\<lambda>f. pf_fill_ts_us f \<le> end_ts)
           (take (last_fill - first_fill) (drop (min first_fill last_fill) (pe_fill_events p))))"

definition initial_symbols :: "prepared_source_events \<Rightarrow> string list" where
  "initial_symbols p =
     set_of_list (map fst (bm_keys (pe_initial_states p)) @ map (\<lambda>(_, symbol, _). symbol) (bm_keys (pe_initial_strategy_states p)))"

definition snapshot_names :: "prepared_source_events \<Rightarrow> i64 \<Rightarrow> string list \<times> string list" where
  "snapshot_names p end_ts =
     (case due_snapshot p end_ts of None \<Rightarrow> ([], [])
      | Some _ \<Rightarrow> (initial_symbols p, map fst (bm_keys (pe_initial_strategy_states p))))"

definition allocation_names :: "prepared_source_events \<Rightarrow> i64 \<Rightarrow> string list \<times> string list" where
  "allocation_names p end_ts =
     (let ps = concat (map as_positions (filter (\<lambda>a. as_snapshot_ts_us a \<le> end_ts) (pe_allocations p)))
      in (map al_symbol ps, map al_strategy ps))"

definition cached_names :: "cached_source option \<Rightarrow> i64 \<Rightarrow> string list \<times> string list" where
  "cached_names hit end_ts =
     (case hit of None \<Rightarrow> ([], [])
      | Some c \<Rightarrow> (map fst (filter (\<lambda>(_, ts). ts \<le> end_ts) (cs_symbols c)),
                   map fst (filter (\<lambda>(_, ts). ts \<le> end_ts) (cs_strategies c))))"

definition fill_names :: "prepared_source_events \<Rightarrow> prepared_fill list \<Rightarrow> string list \<times> string list" where
  "fill_names p fills =
     (map (\<lambda>f. ne_symbol (pf_event f)) fills,
      map (strategy_bucket (pe_strategy_allocation_active p)) fills)"

record collected =
  cl_runtimes :: "timeline_state list"
  cl_events :: "timeline_event list"
  cl_symbols :: "string list"
  cl_strategies :: "string list"
  cl_anchors :: "i64 list"

definition collect_source ::
    "fingerprint \<Rightarrow> nav_timeline_request \<Rightarrow> snapshots \<Rightarrow> strategy_snapshots \<Rightarrow> histories
      \<Rightarrow> (source_cache \<times> bool) option \<Rightarrow> collected \<Rightarrow> source_config \<Rightarrow> nav_error + collected" where
  "collect_source fp q snapshots strategy_snapshots histories cached acc source =
     rbind (rmap_err NavConfig (nav_fee_rates source)) (\<lambda>_.
     rbind (history_of histories source) (\<lambda>h.
     let hit = cached_hit cached source; end_ts = tq_end_ts_us q
     in rbind (case hit of Some c \<Rightarrow> Inr (cs_prepared c)
         | None \<Rightarrow> prepare_source_events fp source (nh_events h) (bm_get snapshots (sc_id source))
                     (bm_get strategy_snapshots (sc_id source)) (nh_liquidity_by_order h) (nh_allocations h)) (\<lambda>p.
     let checkpoint = start_checkpoint hit (tq_start_ts_us q);
         fills = window_fills p (case checkpoint of None \<Rightarrow> 0 | Some cp \<Rightarrow> cp_next_fill cp) end_ts;
         index = length (cl_runtimes acc);
         opening = (case due_snapshot p end_ts of None \<Rightarrow> [] | Some ts \<Rightarrow> [SnapshotEvent index (sc_id source) ts]);
         names = [snapshot_names p end_ts, allocation_names p end_ts,
                  ([], if pe_strategy_allocation_active p then [unallocated_strategy] else []),
                  cached_names hit end_ts, fill_names p fills]
     in rbind (case checkpoint of Some cp \<Rightarrow> Inr (cp_state cp) | None \<Rightarrow> initial_timeline_state source p) (\<lambda>s.
        Inr \<lparr>cl_runtimes = cl_runtimes acc @ [s],
             cl_events = cl_events acc @ opening @ map (FillEvent index (sc_id source)) fills,
             cl_symbols = cl_symbols acc @ concat (map fst names),
             cl_strategies = cl_strategies acc @ concat (map snd names),
             cl_anchors = cl_anchors acc @ option_list (source_anchor p end_ts)\<rparr>))))"

definition min_list_option :: "i64 list \<Rightarrow> i64 option" where
  "min_list_option xs = (case xs of [] \<Rightarrow> None | x # rest \<Rightarrow> Some (foldl min x rest))"

subsection \<open>Sampling\<close>

text \<open>
  \<open>while next < limit\<close>: one sample per grid point, stopping when the saturating addition no longer
  moves the tick. The code has checked that the interval is positive. The measure is the distance
  of the tick from the largest \<open>i64\<close>.
\<close>

definition advanced_tick :: "i64 \<Rightarrow> i64 \<Rightarrow> i64" where
  "advanced_tick interval next_tick = sat64 (next_tick + interval)"

definition tick_measure :: "i64 \<Rightarrow> nat" where
  "tick_measure t = (if t \<le> i64_max then nat (i64_max - t) else 1)"

lemma tick_measure_decreases:
  assumes "0 < interval" and "advanced_tick interval t \<noteq> t"
  shows "tick_measure (advanced_tick interval t) < tick_measure t"
  using assms
  by (auto simp: advanced_tick_def tick_measure_def sat64_def i64_max_def i64_min_def max_def min_def split: if_splits)

function tick_until ::
    "window \<Rightarrow> i64 \<Rightarrow> i64 \<Rightarrow> i64 \<Rightarrow> timeline_run \<Rightarrow> nav_error + timeline_run \<times> i64" where
  "tick_until w interval limit next_tick run =
     (if \<not> (0 < interval \<and> next_tick < limit) then Inr (run, next_tick)
      else case push_timeline_sample w next_tick run of Inl e \<Rightarrow> Inl e
      | Inr run' \<Rightarrow>
          if advanced_tick interval next_tick = next_tick then Inr (run', next_tick)
          else tick_until w interval limit (advanced_tick interval next_tick) run')"
  by pat_completeness auto
termination
  by (relation "measure (\<lambda>(w, interval, limit, next_tick, run). tick_measure next_tick)")
    (auto simp: tick_measure_decreases)

declare tick_until.simps [simp del]

text \<open>The event loop: ticks before the event's time, every event of that time, the tick at that time.\<close>

function event_loop ::
    "window \<Rightarrow> i64 \<Rightarrow> i64 \<Rightarrow> timeline_event list \<Rightarrow> i64 \<Rightarrow> timeline_run \<Rightarrow> nav_error + timeline_run \<times> i64" where
  "event_loop w interval end_ts [] next_tick run = Inr (run, next_tick)"
| "event_loop w interval end_ts (e # es) next_tick run =
     (let ts = te_ts_us e
      in if end_ts < ts then Inr (run, next_tick)
         else rbind (tick_until w interval (min ts end_ts) next_tick run) (\<lambda>(run1, tick1).
              rbind (rfold apply_timeline_event (tr_runtimes run1) (takeWhile (\<lambda>x. te_ts_us x = ts) (e # es))) (\<lambda>rs.
              let run2 = run1\<lparr>tr_runtimes := rs\<rparr>; rest = dropWhile (\<lambda>x. te_ts_us x = ts) es
              in rbind (if tick1 = ts \<and> tick1 \<le> end_ts
                        then rmap (\<lambda>run3. (run3, advanced_tick interval tick1)) (push_timeline_sample w tick1 run2)
                        else Inr (run2, tick1)) (\<lambda>(run3, tick3).
                 event_loop w interval end_ts rest tick3 run3))))"
  by pat_completeness auto
termination
  by (relation "measure (\<lambda>(w, interval, end_ts, es, next_tick, run). length es)")
    (auto simp: le_imp_less_Suc length_dropWhile_le)

definition nav_tick_interval_us :: int where
  "nav_tick_interval_us = 15 * 60 * 1000000"

text \<open>
  The window: snapshots due at the start, the events before it, the corrections before it and the
  marks give the baselines; then the first sample, the loop, and the last sample at the end.
\<close>

definition open_window ::
    "i64 \<Rightarrow> string list \<Rightarrow> string list \<Rightarrow> minute_marks option \<Rightarrow> timeline_event list \<Rightarrow> timeline_state list
      \<Rightarrow> nav_error + window \<times> timeline_run" where
  "open_window start_ts symbols strategies prices earlier runtimes =
     rbind (rfold apply_timeline_event (map (activate_snapshot_at start_ts) runtimes) earlier) (\<lambda>rs0.
     rbind (rmapM (advance_allocations start_ts False) rs0) (\<lambda>rs1.
     rbind (apply_minute_marks prices rs1 symbols start_ts) (\<lambda>(rs, prices').
     let w = \<lparr>wn_baselines = timeline_totals_by_symbol rs,
              wn_strategy_baselines = timeline_totals_by_strategy_symbol rs,
              wn_selected_symbols = symbols, wn_available_strategies = strategies\<rparr>
     in rmap (Pair w) (push_timeline_sample w start_ts
          \<lparr>tr_runtimes = rs, tr_points = [],
           tr_points_by_symbol = bm_extend [] (map (\<lambda>s. (s, [])) symbols),
           tr_points_by_strategy = bm_extend [] (map (\<lambda>s. (s, [])) strategies), tr_prices = prices'\<rparr>))))"

definition run_window ::
    "window \<Rightarrow> i64 \<Rightarrow> i64 \<Rightarrow> i64 \<Rightarrow> timeline_event list \<Rightarrow> timeline_run \<Rightarrow> nav_error + timeline_run" where
  "run_window w interval start_ts end_ts events run =
     rbind (rensure (0 < interval) (SelectionError ''invalid timeline tick interval'')) (\<lambda>_.
     rbind (event_loop w interval end_ts events (next_timeline_tick start_ts interval) run) (\<lambda>(run1, tick1).
     rbind (tick_until w interval end_ts tick1 run1) (\<lambda>(run2, _).
     rbind (rmapM (\<lambda>s. advance_allocations end_ts True (activate_snapshot_at end_ts s)) (tr_runtimes run2)) (\<lambda>rs.
     push_timeline_sample w end_ts (run2\<lparr>tr_runtimes := rs\<rparr>)))))"

subsection \<open>The report\<close>

definition window_symbols :: "window \<Rightarrow> timeline_run \<Rightarrow> aggregate_symbol_nav_report list" where
  "window_symbols w run =
     (let current = timeline_totals_by_symbol (tr_runtimes run);
          rows = timeline_symbol_reports (tr_runtimes run);
          kept = (if tr_prices run \<noteq> None then filter (\<lambda>r. ar_symbol r \<in> set (wn_selected_symbols w)) rows else rows)
      in map (\<lambda>r. r\<lparr>ar_totals := totals_difference (get_totals current (ar_symbol r))
                                   (get_totals (wn_baselines w) (ar_symbol r))\<rparr>) kept)"

definition window_summary :: "window \<Rightarrow> aggregate_symbol_nav_report list \<Rightarrow> nav_totals" where
  "window_summary w symbols =
     totals_cleaned (foldl (\<lambda>t r. totals_add t (ar_totals r)) totals_default
       (filter (\<lambda>r. ar_symbol r \<in> set (wn_selected_symbols w)) symbols))"

definition series_of :: "(string, nav_timeline_point list) bmap \<Rightarrow> string \<Rightarrow> nav_timeline_point list" where
  "series_of m k = (case bm_get m k of None \<Rightarrow> [] | Some points \<Rightarrow> points)"

definition strategy_timeline :: "window \<Rightarrow> nat \<Rightarrow> timeline_run \<Rightarrow> string \<Rightarrow> strategy_nav_timeline" where
  "strategy_timeline w max_points run strategy =
     (let points = downsample_timeline_points (series_of (tr_points_by_strategy run) strategy) max_points;
          (symbol_count, gross, net) = timeline_strategy_position_values strategy (tr_runtimes run) (wn_selected_symbols w)
      in \<lparr>gt_strategy = strategy, gt_symbol_count = symbol_count, gt_gross_position_value_quote = gross,
          gt_net_position_value_quote = net,
          gt_summary = (case last_option points of None \<Rightarrow> totals_default | Some p \<Rightarrow> tp_totals p),
          gt_points = points\<rparr>)"

definition empty_virtual :: "strategy_nav_timeline \<Rightarrow> bool" where
  "empty_virtual t \<longleftrightarrow>
     (gt_strategy t \<in> {unallocated_strategy, initial_position_strategy} \<or> is_system_position_close (gt_strategy t))
     \<and> feq (gt_gross_position_value_quote t) 0 \<and> gt_summary t = totals_default
     \<and> list_all (\<lambda>p. feq (tp_gross_position_value_quote p) 0 \<and> tp_totals p = totals_default) (gt_points t)"

definition report_valuation :: "minute_marks option \<Rightarrow> string" where
  "report_valuation prices =
     (case prices of None \<Rightarrow> ''quantity_fifo_window_delta'' | Some _ \<Rightarrow> ''quantity_fifo_closed_1m_window_delta'')"

definition window_report ::
    "nav_timeline_request \<Rightarrow> string list \<Rightarrow> i64 \<Rightarrow> i64 \<Rightarrow> string list \<Rightarrow> minute_marks option
      \<Rightarrow> window \<Rightarrow> timeline_run \<Rightarrow> nav_timeline_report" where
  "window_report q ids earliest start_ts symbols prices w run =
     (let rows = window_symbols w run;
          series_points = max 100 (min 800 (tq_max_points q));
          points = downsample_timeline_points (tr_points run) (max (tq_max_points q) 2);
          symbol_points = map (\<lambda>s. \<lparr>yt_symbol = s,
              yt_points = downsample_timeline_points (series_of (tr_points_by_symbol run) s) series_points\<rparr>)
            (wn_selected_symbols w);
          strategy_points = map (strategy_timeline w series_points run) (wn_available_strategies w);
          shown = filter (\<lambda>t. \<not> empty_virtual t) strategy_points
      in \<lparr>tl_valuation = report_valuation prices, tl_earliest_start_ts_us = earliest, tl_start_ts_us = start_ts,
          tl_end_ts_us = tq_end_ts_us q, tl_selected_source_ids = ids, tl_available_symbols = symbols,
          tl_selected_symbols = wn_selected_symbols w,
          tl_available_strategies = map gt_strategy shown, tl_summary = window_summary w rows,
          tl_symbols = rows, tl_points = points, tl_symbol_points = symbol_points, tl_strategy_points = shown,
          tl_sampled = (length points < length (tr_points run)
            \<or> list_ex (\<lambda>t. length (yt_points t) < length (series_of (tr_points_by_symbol run) (yt_symbol t))) symbol_points
            \<or> list_ex (\<lambda>t. length (gt_points t) < length (series_of (tr_points_by_strategy run) (gt_strategy t))) strategy_points)\<rparr>)"

definition rebuild_nav_timeline ::
    "fingerprint \<Rightarrow> source_config list \<Rightarrow> nav_timeline_request \<Rightarrow> snapshots \<Rightarrow> strategy_snapshots \<Rightarrow> histories
      \<Rightarrow> (source_cache \<times> bool) option \<Rightarrow> minute_marks option \<Rightarrow> nav_error + nav_timeline_report \<times> minute_marks option" where
  "rebuild_nav_timeline fp config q snapshots strategy_snapshots histories cached prices =
     rbind (rensure (0 \<le> tq_end_ts_us q) (SelectionError ''end timestamp must not be negative'')) (\<lambda>_.
     rbind (select_sources config (tq_selected_source_ids q)) (\<lambda>selected.
     rbind (selected_only selected (bm_keys snapshots) ''position snapshots contain unselected source'') (\<lambda>_.
     rbind (selected_only selected (bm_keys strategy_snapshots) ''strategy position snapshots contain unselected source'') (\<lambda>_.
     rbind (rfold (collect_source fp q snapshots strategy_snapshots histories cached)
              \<lparr>cl_runtimes = [], cl_events = [], cl_symbols = [], cl_strategies = [], cl_anchors = []\<rparr> selected) (\<lambda>c.
     let anchor = min_list_option (cl_anchors c);
         start_ts = resolved_start_ts_us q anchor;
         earliest = (case anchor of None \<Rightarrow> start_ts | Some e \<Rightarrow> e);
         symbols = set_of_list (cl_symbols c)
     in rbind (rensure (start_ts \<le> tq_end_ts_us q) (SelectionError ''end timestamp before start'')) (\<lambda>_.
        rbind (select_timeline_symbols symbols (tq_selected_symbols q)) (\<lambda>selected_symbols.
        let events = sort_key timeline_order_key (cl_events c);
            split = partition_point (\<lambda>e. te_ts_us e < start_ts) events
        in rbind (open_window start_ts selected_symbols (set_of_list (cl_strategies c)) prices
                    (take split events) (cl_runtimes c)) (\<lambda>(w, run0).
           rbind (run_window w (case tq_tick_interval_us q of None \<Rightarrow> nav_tick_interval_us | Some i \<Rightarrow> i)
                    start_ts (tq_end_ts_us q) (drop split events) run0) (\<lambda>run.
           Inr (window_report q (map sc_id selected) earliest start_ts symbols prices w run, tr_prices run)))))))))) "

subsection \<open>Strategy profit and loss\<close>

record strategy_pnl_request =
  sq_source_id :: string
  sq_strategy_name :: string
  sq_start_ts_us :: i64
  sq_end_ts_us :: i64

datatype strategy_pnl_row_kind = WindowStart | FillRow | WindowEnd

fun row_kind_str :: "strategy_pnl_row_kind \<Rightarrow> string" where
  "row_kind_str WindowStart = ''window_start''"
| "row_kind_str FillRow = ''fill''"
| "row_kind_str WindowEnd = ''window_end''"

record strategy_pnl_row =
  rw_row_kind :: strategy_pnl_row_kind
  rw_ts_us :: i64
  rw_record_key :: "string option"
  rw_symbol :: "string option"
  rw_venue :: "string option"
  rw_totals :: nav_totals

record strategy_pnl_report =
  sp_valuation :: string
  sp_report_source_id :: string
  sp_account :: string
  sp_strategy_name :: string
  sp_start_ts_us :: i64
  sp_end_ts_us :: i64
  sp_rows :: "strategy_pnl_row list"

definition boundary_row :: "strategy_pnl_row_kind \<Rightarrow> i64 \<Rightarrow> nav_totals \<Rightarrow> strategy_pnl_row" where
  "boundary_row kind ts t =
     \<lparr>rw_row_kind = kind, rw_ts_us = ts, rw_record_key = None, rw_symbol = None, rw_venue = None, rw_totals = t\<rparr>"

definition fill_row :: "prepared_fill \<Rightarrow> nav_totals \<Rightarrow> strategy_pnl_row" where
  "fill_row f t =
     \<lparr>rw_row_kind = FillRow, rw_ts_us = pf_fill_ts_us f, rw_record_key = Some (ne_record_key (pf_event f)),
      rw_symbol = Some (ne_symbol (pf_event f)), rw_venue = Some (ne_venue (pf_event f)), rw_totals = t\<rparr>"

definition is_strategy_fill :: "bool \<Rightarrow> string \<Rightarrow> prepared_fill \<Rightarrow> bool" where
  "is_strategy_fill active name f \<longleftrightarrow>
     fill_strategy f = name \<or> (active \<and> name = unallocated_strategy \<and> is_system_position_close (fill_strategy f))"

definition mark_runtime ::
    "i64 \<Rightarrow> string list \<Rightarrow> timeline_state \<times> minute_marks option \<Rightarrow> nav_error + timeline_state \<times> minute_marks option" where
  "mark_runtime ts symbols sp =
     (case sp of (s, prices) \<Rightarrow> rmap (\<lambda>(rs, prices'). (hd rs, prices')) (apply_minute_marks prices [s] symbols ts))"

definition strategy_fill_step ::
    "string \<Rightarrow> string list \<Rightarrow> nav_totals \<Rightarrow> (timeline_state \<times> minute_marks option) \<times> strategy_pnl_row list
      \<Rightarrow> prepared_fill \<Rightarrow> nav_error + (timeline_state \<times> minute_marks option) \<times> strategy_pnl_row list" where
  "strategy_fill_step name symbols baseline acc f =
     (case acc of ((s, prices), rows) \<Rightarrow>
        rbind (timeline_apply_fill f s) (\<lambda>s1.
        if is_strategy_fill (rt_strategy_allocation_active s) name f
        then rbind (mark_runtime (pf_fill_ts_us f) symbols (s1, prices)) (\<lambda>(s2, prices2).
             Inr ((s2, prices2), rows @ [fill_row f (totals_difference (strategy_totals s2 name) baseline)]))
        else Inr ((s1, prices), rows)))"

definition strategy_rows ::
    "string \<Rightarrow> i64 \<Rightarrow> i64 \<Rightarrow> string list \<Rightarrow> minute_marks option \<Rightarrow> prepared_fill list \<Rightarrow> timeline_state
      \<Rightarrow> nav_error + strategy_pnl_row list \<times> minute_marks option" where
  "strategy_rows name start_ts end_ts symbols prices fills s0 =
     (let first = fill_partition_point (\<lambda>f. pf_fill_ts_us f < start_ts) fills;
          last = fill_partition_point (\<lambda>f. pf_fill_ts_us f \<le> end_ts) fills
      in rbind (rfold (\<lambda>s f. timeline_apply_fill f s) (activate_snapshot_at start_ts s0) (take first fills)) (\<lambda>s1.
         rbind (mark_runtime start_ts symbols (s1, prices)) (\<lambda>(s2, prices2).
         rbind (advance_allocations start_ts False s2) (\<lambda>s3.
         let baseline = strategy_totals s3 name
         in rbind (rfold (strategy_fill_step name symbols baseline) ((s3, prices2), [boundary_row WindowStart start_ts totals_default])
                     (take (last - first) (drop first fills))) (\<lambda>((s4, prices4), rows).
            rbind (advance_allocations end_ts True (activate_snapshot_at end_ts s4)) (\<lambda>s5.
            rbind (mark_runtime end_ts symbols (s5, prices4)) (\<lambda>(s6, prices6).
            Inr (rows @ [boundary_row WindowEnd end_ts (totals_difference (strategy_totals s6 name) baseline)], prices6))))))))"

definition rebuild_strategy_pnl ::
    "fingerprint \<Rightarrow> source_config list \<Rightarrow> strategy_pnl_request \<Rightarrow> snapshots \<Rightarrow> strategy_snapshots \<Rightarrow> histories
      \<Rightarrow> minute_marks option \<Rightarrow> nav_error + strategy_pnl_report \<times> minute_marks option" where
  "rebuild_strategy_pnl fp config q snapshots strategy_snapshots histories prices =
     rbind (rensure (0 \<le> sq_start_ts_us q) (SelectionError ''start timestamp must not be negative'')) (\<lambda>_.
     rbind (rensure (sq_start_ts_us q \<le> sq_end_ts_us q) (SelectionError ''end timestamp before start'')) (\<lambda>_.
     rbind (rensure (strategy_from_from_key (batch_exec_from_key_prefix @ sq_strategy_name q) = sq_strategy_name q)
              (SelectionError ''strategy_name has an invalid format'')) (\<lambda>_.
     rbind (select_sources config [sq_source_id q]) (\<lambda>selected.
     rbind (case selected of [source] \<Rightarrow> Inr source | _ \<Rightarrow> Inl (SelectionError ''exactly one source'')) (\<lambda>source.
     rbind (history_of histories source) (\<lambda>h.
     rbind (prepare_source_events fp source (nh_events h) (bm_get snapshots (sc_id source))
              (bm_get strategy_snapshots (sc_id source)) (nh_liquidity_by_order h) (nh_allocations h)) (\<lambda>p.
     let symbols = set_of_list (initial_symbols p @ map (\<lambda>f. ne_symbol (pf_event f)) (pe_fill_events p))
     in rbind (initial_timeline_state source p) (\<lambda>s0.
        rbind (strategy_rows (sq_strategy_name q) (sq_start_ts_us q) (sq_end_ts_us q) symbols prices (pe_fill_events p) s0) (\<lambda>(rows, prices').
        Inr (\<lparr>sp_valuation = report_valuation prices, sp_report_source_id = sc_id source, sp_account = display_name source,
             sp_strategy_name = sq_strategy_name q, sp_start_ts_us = sq_start_ts_us q, sp_end_ts_us = sq_end_ts_us q,
             sp_rows = rows\<rparr>, prices')))))))))) "

end
