(* ===== verification/Numbers.thy ===== *)
theory Numbers
  imports Text F64
begin

text \<open>
  Reading and writing numbers and splitting text, as the standard library does: signed integers and
  floats from decimal text, zero-padded integers, \<open>split\<close>, \<open>split_once\<close> and \<open>lines\<close>.
\<close>

subsection \<open>Splitting\<close>

fun split_on :: "char \<Rightarrow> string \<Rightarrow> string list" where
  "split_on c [] = [[]]"
| "split_on c (x # xs) =
     (if x = c then [] # split_on c xs
      else (case split_on c xs of [] \<Rightarrow> [[x]] | p # ps \<Rightarrow> (x # p) # ps))"

definition split_once :: "char \<Rightarrow> string \<Rightarrow> (string \<times> string) option" where
  "split_once c s = (if c \<in> set s then Some (takeWhile (\<lambda>x. x \<noteq> c) s, tl (dropWhile (\<lambda>x. x \<noteq> c) s)) else None)"

text \<open>\<open>str::lines\<close>: line feeds end lines, a carriage return before one is dropped, and so is a final empty line.\<close>

definition line_feed :: char where
  "line_feed = char_of (10 :: nat)"

definition text_lines :: "string \<Rightarrow> string list" where
  "text_lines s =
     (let parts = split_on line_feed s;
          ended = map (\<lambda>l. if ends_with [char_of (13 :: nat)] l then butlast l else l) (butlast parts)
      in ended @ (if last parts = [] then [] else [last parts]))"

lemma split_on_ne [simp]: "split_on c s \<noteq> []"
  by (induction c s rule: split_on.induct) (auto split: list.split)

fun join_with :: "string \<Rightarrow> string list \<Rightarrow> string" where
  "join_with sep [] = ''''"
| "join_with sep [s] = s"
| "join_with sep (s # t # ss) = s @ sep @ join_with sep (t # ss)"

lemma join_split: "join_with [c] (split_on c s) = s"
proof (induction c s rule: split_on.induct)
  case (2 c x xs)
  then show ?case by (cases "split_on c xs"; cases "tl (split_on c xs)") (auto split: list.split)
qed simp

lemma split_no_sep: "p \<in> set (split_on c s) \<Longrightarrow> c \<notin> set p"
proof (induction c s arbitrary: p rule: split_on.induct)
  case (2 c x xs)
  then show ?case by (cases "split_on c xs") (auto split: if_splits)
qed simp

subsection \<open>Integers\<close>

definition show_int :: "int \<Rightarrow> string" where
  "show_int n = (if n < 0 then ''-'' @ show_nat (nat (- n)) else show_nat (nat n))"

text \<open>\<open>{:0w}\<close>: zeros go between the sign and the digits.\<close>

definition show_padded :: "nat \<Rightarrow> int \<Rightarrow> string" where
  "show_padded width n =
     (let sign = (if n < 0 then ''-'' else ''''); digits = show_nat (nat \<bar>n\<bar>)
      in sign @ replicate (width - (length sign + length digits)) (CHR ''0'') @ digits)"

definition digits_only :: "string \<Rightarrow> bool" where
  "digits_only s \<longleftrightarrow> s \<noteq> [] \<and> list_all is_digit s"

text \<open>The sign of a number and what follows it.\<close>

definition read_sign :: "string \<Rightarrow> bool \<times> string" where
  "read_sign s = (case s of [] \<Rightarrow> (False, [])
     | c # rest \<Rightarrow> if c = CHR ''-'' then (True, rest) else if c = CHR ''+'' then (False, rest) else (False, s))"

definition parse_i64 :: "string \<Rightarrow> i64 option" where
  "parse_i64 s =
     (let (negative, digits) = read_sign s;
          n = (if negative then - int (decimal_value digits) else int (decimal_value digits))
      in if digits_only digits \<and> in_i64 n then Some n else None)"

subsection \<open>Floats\<close>

text \<open>Digits with an optional fraction, at least one digit, and an optional exponent.\<close>

definition parse_exponent :: "string \<Rightarrow> int option" where
  "parse_exponent s =
     (case s of [] \<Rightarrow> Some 0
      | c # rest \<Rightarrow>
          let (negative, digits) = read_sign rest
          in if (c = CHR ''e'' \<or> c = CHR ''E'') \<and> digits_only digits
             then Some (if negative then - int (decimal_value digits) else int (decimal_value digits)) else None)"

definition parse_decimal :: "string \<Rightarrow> rat option" where
  "parse_decimal s =
     (let whole = takeWhile is_digit s; after = dropWhile is_digit s;
          (fraction, rest) = (case after of [] \<Rightarrow> ([], [])
             | c # r \<Rightarrow> if c = CHR ''.'' then (takeWhile is_digit r, dropWhile is_digit r) else ([], after))
      in if whole = [] \<and> fraction = [] then None
         else map_option (\<lambda>e. of_int (int (decimal_value (whole @ fraction))) * 10 powi (e - int (length fraction)))
                (parse_exponent rest))"

definition parse_f64 :: "string \<Rightarrow> f64 option" where
  "parse_f64 s =
     (let (negative, body) = read_sign s
      in if eq_ignore_case body ''inf'' \<or> eq_ignore_case body ''infinity'' then Some (if negative then NegInf else PosInf)
         else if eq_ignore_case body ''nan'' then Some NaN
         else map_option (\<lambda>x. rnd (if negative then - x else x)) (parse_decimal body))"

end
