(* ===== verification/Environment.thy ===== *)
theory Environment
  imports OrdMap Numbers
begin

text \<open>
  The environment file of an execution process: its assignments (\<open>exchange_leverage.rs\<close>) and the
  execution backend they select for a venue (\<open>market_rules.rs\<close>).
\<close>

type_synonym environment = "(string, string) bmap"

definition double_quote :: char where
  "double_quote = char_of (34 :: nat)"

definition single_quote :: char where
  "single_quote = char_of (39 :: nat)"

definition unquote :: "string \<Rightarrow> string" where
  "unquote v =
     (if 2 \<le> length v \<and> ((hd v = double_quote \<and> last v = double_quote) \<or> (hd v = single_quote \<and> last v = single_quote))
      then butlast (tl v) else v)"

text \<open>The assignment of a line: blank lines, comments, lines without a name or an equals sign have none.\<close>

definition env_assignment :: "string \<Rightarrow> (string \<times> string) option" where
  "env_assignment line =
     (let trimmed = trim line
      in if trimmed = [] \<or> starts_with ''#'' trimmed then None
         else case split_once (CHR ''='') (case strip_prefix ''export '' trimmed of Some rest \<Rightarrow> trim rest | None \<Rightarrow> trimmed) of
                None \<Rightarrow> None
              | Some (key, value) \<Rightarrow> if trim key = [] then None else Some (trim key, unquote (trim value)))"

definition parse_env :: "string \<Rightarrow> environment" where
  "parse_env raw =
     foldl (\<lambda>m line. case env_assignment line of None \<Rightarrow> m | Some (key, value) \<Rightarrow> bm_insert key value m) [] (text_lines raw)"

datatype backend = Native | Ltp

datatype backend_error = UnsupportedRuleVenue | InvalidBackend | MissingEquals | DuplicateWildcard | UnknownExchange
  | DuplicateExchange | RapidxUnsupported string

definition rule_exchange :: "string \<Rightarrow> backend_error + string" where
  "rule_exchange venue =
     (if venue \<in> {''binance-futures'', ''binance-coin-futures'', ''binance-margin''} then Inr ''binance''
      else if venue \<in> {''okex-futures'', ''okex-margin''} then Inr ''okex''
      else if venue = ''bybit-futures'' then Inr ''bybit''
      else if venue = ''bitget-futures'' then Inr ''bitget''
      else Inl UnsupportedRuleVenue)"

definition parse_backend :: "string \<Rightarrow> backend_error + backend" where
  "parse_backend value =
     (let v = ascii_lower (trim value)
      in if v \<in> {'''', ''native'', ''exchange'', ''direct''} then Inr Native
         else if v \<in> {''ltp'', ''rapidx'', ''liquidity'', ''liquiditytech''} then Inr Ltp
         else Inl InvalidBackend)"

definition env_or_empty :: "environment \<Rightarrow> string \<Rightarrow> string" where
  "env_or_empty values key = (case bm_get values key of None \<Rightarrow> '''' | Some v \<Rightarrow> v)"

text \<open>One entry of the backend map, into the wildcard and the mapping of the exchange.\<close>

definition backend_entry ::
    "string \<Rightarrow> backend option \<times> backend option \<Rightarrow> string \<Rightarrow> backend_error + backend option \<times> backend option" where
  "backend_entry exchange acc entry =
     (case acc of (wildcard, specific) \<Rightarrow>
        rbind (of_option MissingEquals (split_once (CHR ''='') entry)) (\<lambda>(key0, value).
        rbind (parse_backend value) (\<lambda>b.
        let key = ascii_lower (trim key0)
        in if key = ''*'' then rbind (rensure (wildcard = None) DuplicateWildcard) (\<lambda>_. Inr (Some b, specific))
           else rbind (rensure (key \<in> {''binance'', ''okex'', ''bybit'', ''bitget'', ''gate'', ''hyperliquid''}) UnknownExchange) (\<lambda>_.
             if key = exchange then rbind (rensure (specific = None) DuplicateExchange) (\<lambda>_. Inr (wildcard, Some b))
             else Inr (wildcard, specific)))))"

definition execution_backend :: "string \<Rightarrow> environment \<Rightarrow> backend_error + backend" where
  "execution_backend venue values =
     rbind (rule_exchange venue) (\<lambda>exchange.
     rbind (parse_backend (env_or_empty values ''TRADE_ENGINE_EXEC_BACKEND'')) (\<lambda>default.
     rbind (rfold (backend_entry exchange) (None, None)
              (filter (\<lambda>s. s \<noteq> []) (map trim (split_on (CHR '','') (env_or_empty values ''TRADE_ENGINE_EXEC_BACKEND_MAP''))))) (\<lambda>(wildcard, specific).
     let b = (case specific of Some b \<Rightarrow> b | None \<Rightarrow> (case wildcard of Some b \<Rightarrow> b | None \<Rightarrow> default))
     in rbind (rensure (b = Native \<or> venue \<in> {''binance-futures'', ''okex-futures'', ''binance-margin'', ''okex-margin''})
              (RapidxUnsupported venue)) (\<lambda>_. Inr b))))"

end
