(* ===== verification/Evidence.thy ===== *)
theory Evidence
  imports Venue Environment "HOL-Library.Multiset"
begin

text \<open>
  Durable execution evidence (\<open>nav/fill_recovery.rs\<close>, \<open>liquidity_journal.rs\<close>): fills without a price
  and fills the lifecycle records miss are recovered from executions that an independent process
  stored, and fill roles from its journal. Reading a stored execution from JSON (\<open>stored\<close>), JSON
  text (\<open>json\<close>) and SHA-256 (\<open>sha\<close>) are library code and parameters.
\<close>

subsection \<open>Stored executions\<close>

record execution =
  ex_transaction_id :: string
  ex_order_id :: string
  ex_client_order_id :: string
  ex_symbol :: string
  ex_side :: string
  ex_quantity :: string
  ex_price :: string
  ex_timestamp_ms :: i64
  ex_rest :: bool

record stored_execution =
  st_portfolio :: string
  st_exchange :: string
  st_execution :: execution

record evidence_fill =
  ef_transaction_id :: string
  ef_order_id :: string
  ef_side_code :: i16
  ef_quantity :: f64
  ef_price :: f64
  ef_timestamp_us :: i64
  ef_liquidity :: "fill_liquidity option"

datatype evidence_error =
    StoredJson | SymbolScope | UnsupportedMarket | CashQuote | StorageIdentity | EvidenceNumber | NotPositive
  | ExecutionIdentity | ExecutionTimestamp | ExecutionSide | JournalConflict string | ExecutionConflict string
  | LifecycleQuantity | LifecycleAttribution i64 | NoExecutions order_key | QuantityMismatch order_key
  | OrderIdentity order_key | RolesConflict i64
  | JournalRow | JournalField string | JournalTimestamp | JournalRoles | JournalLine
  | Unpriced string | PortfolioScope | EvidenceVenue string | Backend backend_error | SourceEnvironment

type_synonym stored_reader = "bytes \<Rightarrow> stored_execution option"
type_synonym evidence = "(order_key, (string, evidence_fill) bmap) bmap"

definition evidence_number :: "string \<Rightarrow> evidence_error + f64" where
  "evidence_number text =
     rbind (of_option EvidenceNumber (parse_f64 text)) (\<lambda>v.
     rbind (rensure (is_fin v \<and> 0 < v) EvidenceNumber) (\<lambda>_. Inr v))"

record role_evidence =
  re_execution :: execution
  re_role :: fill_liquidity

text \<open>A journal role holds for an execution that is the journalled one in every field.\<close>

definition role_validate :: "role_evidence \<Rightarrow> execution \<Rightarrow> evidence_error + fill_liquidity" where
  "role_validate r e =
     (let j = re_execution r; conflict = JournalConflict (ex_transaction_id e)
      in rbind (rensure (ex_transaction_id j = ex_transaction_id e \<and> ex_order_id j = ex_order_id e
                 \<and> ex_client_order_id j = ex_client_order_id e \<and> ex_symbol j = ex_symbol e \<and> ex_side j = ex_side e
                 \<and> ex_timestamp_ms j = ex_timestamp_ms e) conflict) (\<lambda>_.
         rbind (evidence_number (ex_quantity j)) (\<lambda>jq. rbind (evidence_number (ex_quantity e)) (\<lambda>eq.
         rbind (rensure (feq jq eq) conflict) (\<lambda>_.
         rbind (evidence_number (ex_price j)) (\<lambda>jp. rbind (evidence_number (ex_price e)) (\<lambda>ep.
         rbind (rensure (feq jp ep) conflict) (\<lambda>_. Inr (re_role r)))))))))"

definition utf8 :: "string \<Rightarrow> bytes" where
  "utf8 s = map (\<lambda>c. word_of_nat (byte_of c)) s"

definition big_endian :: "nat \<Rightarrow> nat \<Rightarrow> bytes" where
  "big_endian n x = rev (map (\<lambda>i. word_of_nat (x div 256 ^ i)) [0..<n])"

text \<open>What the storage key of an execution is the digest of.\<close>

definition storage_identity :: "string \<Rightarrow> string \<Rightarrow> string \<Rightarrow> bool \<Rightarrow> bytes" where
  "storage_identity portfolio exchange transaction_id rest =
     utf8 ''mkt_signal/rapidx_execution/stable_key''
     @ concat (map (\<lambda>part. big_endian 8 (length part) @ utf8 part) [portfolio, exchange, transaction_id])
     @ [if rest then 1 else 0]"

definition execution_market :: "string \<Rightarrow> string \<Rightarrow> evidence_error + string \<times> i16" where
  "execution_market exchange symbol =
     (let parts = split_on (CHR ''_'') symbol
      in rbind (rensure (length parts = 4 \<and> parts ! 0 = exchange \<and> parts ! 3 \<in> {''USDT'', ''USDC''} \<and> parts ! 2 \<noteq> []) SymbolScope) (\<lambda>_.
         let market = parts ! 1
         in rbind (if exchange = ''BINANCE'' \<and> market \<in> {''SPOT'', ''MARGIN''} then Inr 0
                   else if exchange = ''BINANCE'' \<and> market = ''PERP'' then Inr 1
                   else if exchange = ''OKX'' \<and> market \<in> {''SPOT'', ''MARGIN''} then Inr 2
                   else if exchange = ''OKX'' \<and> market = ''PERP'' then Inr 3
                   else Inl UnsupportedMarket) (\<lambda>venue_code.
            if venue_code = 0 \<or> venue_code = 2
            then rbind (rensure (parts ! 3 = ''USDT'') CashQuote) (\<lambda>_. Inr (parts ! 2, venue_code))
            else Inr (parts ! 2 @ parts ! 3, venue_code))))"

definition execution_fill ::
    "(bytes \<Rightarrow> bytes) \<Rightarrow> string \<Rightarrow> string \<Rightarrow> (string, role_evidence) bmap \<Rightarrow> bytes \<Rightarrow> i64 \<Rightarrow> execution \<Rightarrow> evidence_error + evidence_fill" where
  "execution_fill sha portfolio exchange roles record_key client_order_id e =
     rbind (rensure (record_key = sha (storage_identity portfolio exchange (ex_transaction_id e) (ex_rest e))) StorageIdentity) (\<lambda>_.
     rbind (of_option EvidenceNumber (parse_f64 (ex_quantity e))) (\<lambda>quantity.
     rbind (of_option EvidenceNumber (parse_f64 (ex_price e))) (\<lambda>price.
     rbind (rensure (is_fin quantity \<and> 0 < quantity \<and> is_fin price \<and> 0 < price) NotPositive) (\<lambda>_.
     rbind (rensure (ex_transaction_id e \<noteq> [] \<and> ex_order_id e \<noteq> [] \<and> 0 < client_order_id) ExecutionIdentity) (\<lambda>_.
     rbind (rensure (in_i64 (ex_timestamp_ms e * 1000) \<and> 0 < ex_timestamp_ms e * 1000) ExecutionTimestamp) (\<lambda>_.
     rbind (if ex_side e = ''BUY'' then Inr 1 else if ex_side e = ''SELL'' then Inr 2 else Inl ExecutionSide) (\<lambda>side_code.
     rbind (case bm_get roles (ex_transaction_id e) of None \<Rightarrow> Inr None | Some r \<Rightarrow> rmap Some (role_validate r e)) (\<lambda>liquidity.
     Inr \<lparr>ef_transaction_id = ex_transaction_id e, ef_order_id = ex_order_id e, ef_side_code = side_code,
          ef_quantity = quantity, ef_price = price, ef_timestamp_us = ex_timestamp_ms e * 1000, ef_liquidity = liquidity\<rparr>))))))))"

definition merge_fill :: "order_key \<Rightarrow> evidence_fill \<Rightarrow> evidence \<Rightarrow> evidence_error + evidence" where
  "merge_fill key fill result =
     (let order = (case bm_get result key of None \<Rightarrow> [] | Some order \<Rightarrow> order)
      in case bm_get order (ef_transaction_id fill) of
           Some old \<Rightarrow> rbind (rensure (old = fill) (ExecutionConflict (ef_transaction_id fill))) (\<lambda>_. Inr (bm_insert key order result))
         | None \<Rightarrow> Inr (bm_insert key (bm_insert (ef_transaction_id fill) fill order) result))"

text \<open>Executions of other portfolios, exchanges and orders are passed over.\<close>

definition decode_execution ::
    "stored_reader \<Rightarrow> (bytes \<Rightarrow> bytes) \<Rightarrow> string \<Rightarrow> string \<Rightarrow> order_key list \<Rightarrow> (string, role_evidence) bmap
      \<Rightarrow> evidence \<Rightarrow> bytes \<times> bytes \<Rightarrow> evidence_error + evidence" where
  "decode_execution stored sha portfolio exchange wanted roles result rec =
     rbind (of_option StoredJson (stored (snd rec))) (\<lambda>s.
     if st_portfolio s \<noteq> portfolio \<or> st_exchange s \<noteq> exchange then Inr result
     else let e = st_execution s
       in case parse_i64 (ex_client_order_id e) of
            None \<Rightarrow> Inr result
          | Some client_order_id \<Rightarrow>
              if client_order_id \<notin> (\<lambda>(_, _, c). c) ` set wanted then Inr result
              else rbind (execution_market exchange (ex_symbol e)) (\<lambda>(symbol, venue_code).
                let key = (symbol, venue_code, client_order_id)
                in if key \<notin> set wanted then Inr result
                   else rbind (execution_fill sha portfolio exchange roles (fst rec) client_order_id e) (\<lambda>fill.
                        merge_fill key fill result)))"

definition decode_fills ::
    "stored_reader \<Rightarrow> (bytes \<Rightarrow> bytes) \<Rightarrow> string \<Rightarrow> string \<Rightarrow> order_key list \<Rightarrow> (string, role_evidence) bmap
      \<Rightarrow> (bytes \<times> bytes) list \<Rightarrow> evidence_error + evidence" where
  "decode_fills stored sha portfolio exchange wanted roles records =
     rfold (decode_execution stored sha portfolio exchange wanted roles) [] records"

subsection \<open>Replacing the fills of an order\<close>

definition needs_price :: "nav_event \<Rightarrow> bool" where
  "needs_price e \<longleftrightarrow> 0 < ne_amount_update e \<and> (\<not> is_fin (ne_price e) \<or> ne_price e \<le> 0)"

definition event_order :: "nav_event \<Rightarrow> order_key" where
  "event_order e = (ne_symbol e, ne_venue_code e, ne_client_order_id e)"

text \<open>Division of machine integers truncates towards zero.\<close>

definition trunc_div :: "int \<Rightarrow> int \<Rightarrow> int" where
  "trunc_div a b = (if a < 0 then - (- a div b) else a div b)"

definition with_role :: "nav_event \<Rightarrow> fill_liquidity option \<Rightarrow> evidence_error + nav_event" where
  "with_role e role =
     (case role of None \<Rightarrow> Inr e
      | Some r \<Rightarrow> rbind (rensure (case ne_fill_liquidity e of None \<Rightarrow> True | Some old \<Rightarrow> old = FillUnknown \<or> old = r)
                    (RolesConflict (ne_client_order_id e))) (\<lambda>_. Inr (e\<lparr>ne_fill_liquidity := Some r\<rparr>)))"

text \<open>
  Matching a lifecycle row against the executions of its millisecond and price that are left: the
  parts taken, by position, and the quantity still needed.
\<close>

definition same_trade :: "nav_event \<Rightarrow> evidence_fill \<Rightarrow> bool" where
  "same_trade e fill \<longleftrightarrow> trunc_div (ef_timestamp_us fill) 1000 = trunc_div (ne_update_ts_us e) 1000
     \<and> \<not> \<bar>ne_price e\<bar> * f_lit (1 / 10 ^ 12) < \<bar>ef_price fill - ne_price e\<bar>"

fun take_parts ::
    "nav_event \<Rightarrow> f64 \<Rightarrow> f64 \<Rightarrow> (nat \<times> evidence_fill \<times> f64) list \<Rightarrow> (nat \<times> f64 \<times> fill_liquidity option) list \<times> f64" where
  "take_parts e tolerance needed [] = ([], needed)"
| "take_parts e tolerance needed ((i, fill, quantity) # rest) =
     (if quantity \<le> 0 \<or> \<not> same_trade e fill then take_parts e tolerance needed rest
      else let part = f_min needed quantity; needed' = needed - part
           in if needed' \<le> tolerance then ([(i, part, ef_liquidity fill)], needed')
              else (case take_parts e tolerance needed' rest of (parts, left) \<Rightarrow> ((i, part, ef_liquidity fill) # parts, left)))"

definition spend_parts :: "(nat \<times> f64 \<times> fill_liquidity option) list \<Rightarrow> (evidence_fill \<times> f64) list \<Rightarrow> (evidence_fill \<times> f64) list" where
  "spend_parts parts remaining =
     foldl (\<lambda>rs (i, quantity, _). rs[i := (fst (rs ! i), snd (rs ! i) - quantity)]) remaining parts"

text \<open>A row that several roles share is split; the last part takes what rounding left.\<close>

fun split_row ::
    "nav_event \<Rightarrow> nat \<Rightarrow> f64 \<Rightarrow> (nat \<times> f64 \<times> fill_liquidity option) list \<Rightarrow> evidence_error + nav_event list" where
  "split_row e i used [] = Inr []"
| "split_row e i used ((_, quantity, role) # rest) =
     rbind (with_role e role) (\<lambda>p.
     let amount = (if rest = [] then ne_amount_update e - used else quantity)
     in rbind (split_row e (i + 1) (used + amount) rest) (\<lambda>rows.
        Inr (p\<lparr>ne_amount_update := amount, ne_record_key := ne_record_key e @ '':liquidity:'' @ show_padded 8 (int i)\<rparr> # rows)))"

definition match_row ::
    "(evidence_fill \<times> f64) list \<Rightarrow> nav_event \<Rightarrow> evidence_error + nav_event list \<times> (evidence_fill \<times> f64) list" where
  "match_row remaining e =
     (if ne_amount_update e \<le> 0 then Inr ([e], remaining)
      else let tolerance = \<bar>ne_amount_update e\<bar> * f_lit (1 / 10 ^ 12)
           in case take_parts e tolerance (ne_amount_update e) (enumerate 0 remaining) of
                (parts, needed) \<Rightarrow>
                  if tolerance < needed then Inr ([e], remaining)
                  else let remaining' = spend_parts parts remaining;
                           role = (case parts of [] \<Rightarrow> None | (_, _, r) # _ \<Rightarrow> r)
                       in rmap (\<lambda>rows. (rows, remaining'))
                            (if list_all (\<lambda>(_, _, r). r = role) parts then rmap (\<lambda>e. [e]) (with_role e role)
                             else split_row e 0 0 parts))"

fun match_rows :: "(evidence_fill \<times> f64) list \<Rightarrow> nav_event list \<Rightarrow> evidence_error + nav_event list" where
  "match_rows remaining [] = Inr []"
| "match_rows remaining (e # es) =
     rbind (match_row remaining e) (\<lambda>(rows, remaining').
     rbind (match_rows remaining' es) (\<lambda>rest. Inr (rows @ rest)))"

definition apply_roles :: "nav_event list \<Rightarrow> (string, evidence_fill) bmap \<Rightarrow> evidence_error + nav_event list" where
  "apply_roles original order =
     (let fills = bm_vals order;
          first_role = (case fills of [] \<Rightarrow> None | f # _ \<Rightarrow> ef_liquidity f)
      in if first_role \<noteq> None \<and> list_all (\<lambda>f. ef_liquidity f = first_role) fills
         then rmapM (\<lambda>e. if 0 < ne_amount_update e then with_role e first_role else Inr e) original
         else match_rows (map (\<lambda>f. (f, ef_quantity f)) fills) original)"

definition recovered_row :: "nav_event \<Rightarrow> evidence_fill \<Rightarrow> nav_event" where
  "recovered_row template fill =
     template\<lparr>ne_record_key := show_padded 20 (ne_event_ts_us template) @ '':execution:'' @ ef_transaction_id fill,
              ne_update_ts_us := ef_timestamp_us fill, ne_price := ef_price fill, ne_amount_update := ef_quantity fill,
              ne_fill_liquidity := Some (case ef_liquidity fill of None \<Rightarrow> FillUnknown | Some l \<Rightarrow> l)\<rparr>"

definition same_attribution :: "nav_event \<Rightarrow> nav_event \<Rightarrow> bool" where
  "same_attribution template e \<longleftrightarrow> ne_side_code e = ne_side_code template \<and> ne_from_key_text e = ne_from_key_text template
     \<and> ne_signal_ts_us e = ne_signal_ts_us template"

definition evidence_fits :: "nav_event \<Rightarrow> string \<Rightarrow> evidence_fill \<Rightarrow> bool" where
  "evidence_fits template order_id fill \<longleftrightarrow> ef_side_code fill = ne_side_code template \<and> ef_order_id fill = order_id
     \<and> (ne_create_ts_us template \<le> 0 \<or> ne_create_ts_us template div 1000 * 1000 \<le> ef_timestamp_us fill)"

text \<open>
  With executions of the order: a priced lifecycle ahead of its executions is kept, one that agrees
  with them takes their roles, and any other is rebuilt from them.
\<close>

definition use_executions ::
    "order_key \<Rightarrow> nav_event list \<Rightarrow> f64 \<Rightarrow> bool \<Rightarrow> (string, evidence_fill) bmap \<Rightarrow> evidence_error + nav_event list" where
  "use_executions key original expected unpriced order =
     (let template = hd original;
          actual = f_sum (map ef_quantity (bm_vals order));
          tolerance = f_max \<bar>expected\<bar> \<bar>actual\<bar> * f_lit (1 / 10 ^ 12)
      in if actual + tolerance < expected \<and> \<not> unpriced then Inr original
         else rbind (rensure (is_fin actual \<and> expected \<le> actual + tolerance) (QuantityMismatch key)) (\<lambda>_.
           rbind (of_option (OrderIdentity key) (case bm_vals order of [] \<Rightarrow> None | f # _ \<Rightarrow> Some (ef_order_id f))) (\<lambda>order_id.
           rbind (rensure (list_all (evidence_fits template order_id) (bm_vals order)) (OrderIdentity key)) (\<lambda>_.
           if \<bar>actual - expected\<bar> \<le> tolerance \<and> \<not> unpriced then apply_roles original order
           else Inr (map (recovered_row template) (bm_vals order) @ filter (\<lambda>e. feq (ne_amount_update e) 0) original)))))"

definition replace_order :: "evidence \<Rightarrow> order_key \<times> nav_event list \<Rightarrow> evidence_error + nav_event list" where
  "replace_order fills order_rows =
     (case order_rows of (key, rows) \<Rightarrow>
        let original = sort_key ne_record_key rows;
            template = hd original;
            expected = f_sum (map ne_amount_update original);
            unpriced = list_ex needs_price original
        in rbind (rensure (is_fin expected \<and> 0 \<le> expected) LifecycleQuantity) (\<lambda>_.
           rbind (rensure (list_all (same_attribution template) original) (LifecycleAttribution (ne_client_order_id template))) (\<lambda>_.
           case bm_get fills key of
             None \<Rightarrow> rbind (rensure (\<not> unpriced) (NoExecutions key)) (\<lambda>_. Inr original)
           | Some order \<Rightarrow> use_executions key original expected unpriced order)))"

definition replace_orders :: "nav_event list \<Rightarrow> order_key list \<Rightarrow> evidence \<Rightarrow> evidence_error + nav_event list" where
  "replace_orders events wanted fills =
     (let replaced = foldl (\<lambda>m e. bm_upsert (event_order e) [] (\<lambda>es. es @ [e]) m) []
                       (filter (\<lambda>e. event_order e \<in> set wanted) events);
          untouched = filter (\<lambda>e. event_order e \<notin> set wanted) events
      in rbind (rmapM (replace_order fills) replaced) (\<lambda>rows. Inr (sort_key ne_record_key (untouched @ concat rows))))"


subsection \<open>The liquidity journal\<close>

datatype json = JNull | JBool bool | JNumber f64 | JString string | JArray "json list" | JObject "(string \<times> json) list"

type_synonym json_reader = "bytes \<Rightarrow> json option"

text \<open>Indexing a value by a name yields null where there is no such member.\<close>

definition json_at :: "json \<Rightarrow> string \<Rightarrow> json" where
  "json_at j key = (case j of JObject members \<Rightarrow> (case map_of members key of Some v \<Rightarrow> v | None \<Rightarrow> JNull) | _ \<Rightarrow> JNull)"

definition json_str :: "json \<Rightarrow> string option" where
  "json_str j = (case j of JString s \<Rightarrow> Some s | _ \<Rightarrow> None)"

fun has_infix :: "'a list \<Rightarrow> 'a list \<Rightarrow> bool" where
  "has_infix p [] = (p = [])"
| "has_infix p (x # xs) = (take (length p) (x # xs) = p \<or> has_infix p xs)"

definition exec_type_field :: bytes where
  "exec_type_field = utf8 ([double_quote] @ ''execType'' @ [double_quote])"

definition journal_text :: "json \<Rightarrow> string \<Rightarrow> evidence_error + string" where
  "journal_text data key =
     of_option (JournalField key) (case json_str (json_at data key) of None \<Rightarrow> None | Some s \<Rightarrow> if s = [] then None else Some s)"

definition journal_execution :: "json \<Rightarrow> bool \<Rightarrow> evidence_error + execution" where
  "journal_execution data rest =
     rbind (journal_text data ''transactionId'') (\<lambda>transaction_id.
     rbind (journal_text data ''orderId'') (\<lambda>order_id.
     rbind (journal_text data ''sym'') (\<lambda>symbol.
     rbind (journal_text data ''side'') (\<lambda>side.
     rbind (journal_text data ''quantity'') (\<lambda>quantity.
     rbind (journal_text data ''price'') (\<lambda>price.
     rbind (journal_text data ''createAt'') (\<lambda>created.
     rbind (of_option JournalTimestamp (parse_i64 created)) (\<lambda>timestamp.
     rbind (evidence_number quantity) (\<lambda>_. rbind (evidence_number price) (\<lambda>_.
     rbind (rensure (0 < timestamp) JournalTimestamp) (\<lambda>_.
     Inr \<lparr>ex_transaction_id = transaction_id, ex_order_id = order_id,
          ex_client_order_id = (case json_str (json_at data ''clientOrderId'') of None \<Rightarrow> '''' | Some c \<Rightarrow> c),
          ex_symbol = symbol, ex_side = side, ex_quantity = quantity, ex_price = price, ex_timestamp_ms = timestamp,
          ex_rest = rest\<rparr>)))))))))))"

definition parse_role :: "json_reader \<Rightarrow> string \<Rightarrow> string \<Rightarrow> bytes \<Rightarrow> evidence_error + role_evidence option" where
  "parse_role json portfolio exchange line =
     (if \<not> has_infix exec_type_field line then Inr None
      else rbind (of_option JournalRow (json line)) (\<lambda>row.
        let message = json_at row ''message''; channel = json_str (json_at message ''channel''); data = json_at message ''data''
        in if channel \<notin> {Some ''Trades'', Some ''HistoricalExecution''} then Inr None
           else if json_str (json_at data ''portfolioId'') \<noteq> Some portfolio \<or> json_str (json_at data ''exchangeType'') \<noteq> Some exchange
           then Inr None
           else case (if json_str (json_at data ''execType'') = Some ''MAKER'' then Some FillMaker
                      else if json_str (json_at data ''execType'') = Some ''TAKER'' then Some FillTaker else None) of
                  None \<Rightarrow> Inr None
                | Some role \<Rightarrow> rbind (journal_execution data (channel = Some ''HistoricalExecution'')) (\<lambda>e.
                                Inr (Some \<lparr>re_execution = e, re_role = role\<rparr>))))"

definition merge_role :: "(string, role_evidence) bmap \<Rightarrow> role_evidence \<Rightarrow> evidence_error + (string, role_evidence) bmap" where
  "merge_role roles r =
     (case bm_get roles (ex_transaction_id (re_execution r)) of
        Some old \<Rightarrow> rbind (role_validate old (re_execution r)) (\<lambda>role.
                      rbind (rensure (role = re_role r) JournalRoles) (\<lambda>_. Inr roles))
      | None \<Rightarrow> Inr (bm_insert (ex_transaction_id (re_execution r)) r roles))"

record journal_file =
  jf_identity :: "nat \<times> nat"
  jf_offset :: nat
  jf_roles :: "(string, role_evidence) bmap"

record liquidity_journal =
  jn_scope :: "(string \<times> string \<times> string) option"
  jn_files :: "(string, journal_file) bmap"
  jn_roles :: "(string, role_evidence) bmap"

definition journal_default :: liquidity_journal where
  "journal_default = \<lparr>jn_scope = None, jn_files = [], jn_roles = []\<rparr>"

definition max_line :: nat where
  "max_line = 8 * 1024 * 1024"

definition newline :: "8 word" where
  "newline = 10"

text \<open>\<open>read_until\<close>: up to and with the first newline, or all there is.\<close>

fun read_line :: "bytes \<Rightarrow> bytes" where
  "read_line [] = []"
| "read_line (b # bs) = (if b = newline then [b] else b # read_line bs)"

lemma read_line_take: "read_line bs = take (length (read_line bs)) bs"
  by (induction bs) auto

lemma read_line_length: "length (read_line bs) \<le> length bs"
  by (induction bs) auto

text \<open>
  Reading the complete lines of a file after its offset. What was read before an error stays read; an
  incomplete last line is left for later.
\<close>

function read_journal :: "json_reader \<Rightarrow> string \<Rightarrow> string \<Rightarrow> journal_file \<Rightarrow> bytes \<Rightarrow> evidence_error option \<times> journal_file" where
  "read_journal json portfolio exchange s bs =
     (let line = read_line (take (max_line + 1) bs); n = length line; s' = s\<lparr>jf_offset := jf_offset s + n\<rparr>
      in if max_line < n then (Some JournalLine, s)
         else if line = [] \<or> last line \<noteq> newline then (None, s)
         else case parse_role json portfolio exchange line of
                Inl e \<Rightarrow> (Some e, s)
              | Inr None \<Rightarrow> read_journal json portfolio exchange s' (drop n bs)
              | Inr (Some r) \<Rightarrow> (case merge_role (jf_roles s) r of
                    Inl e \<Rightarrow> (Some e, s)
                  | Inr roles \<Rightarrow> read_journal json portfolio exchange (s'\<lparr>jf_roles := roles\<rparr>) (drop n bs)))"
  by pat_completeness auto
termination
  by (relation "measure (\<lambda>(_, _, _, _, bs). length bs)")
    (auto simp: Let_def intro!: diff_less split: if_splits dest: arg_cong [where f = length])

declare read_journal.simps [simp del]

text \<open>One file of the directory: a new or truncated file is read from its beginning.\<close>

definition refresh_file ::
    "json_reader \<Rightarrow> string \<Rightarrow> string \<Rightarrow> journal_file option \<Rightarrow> (nat \<times> nat) \<times> bytes \<Rightarrow> evidence_error option \<times> journal_file" where
  "refresh_file json portfolio exchange known file =
     (case file of (identity, content) \<Rightarrow>
        let fresh = \<lparr>jf_identity = identity, jf_offset = 0, jf_roles = []\<rparr>;
            s = (case known of None \<Rightarrow> fresh
                 | Some s \<Rightarrow> if jf_identity s \<noteq> identity \<or> length content < jf_offset s then fresh else s)
        in read_journal json portfolio exchange s (drop (jf_offset s) content))"

text \<open>The files in order of their paths, until one fails.\<close>

fun refresh_files ::
    "json_reader \<Rightarrow> string \<Rightarrow> string \<Rightarrow> (string, journal_file) bmap \<Rightarrow> (string \<times> (nat \<times> nat) \<times> bytes) list
      \<Rightarrow> evidence_error option \<times> (string, journal_file) bmap" where
  "refresh_files json portfolio exchange files [] = (None, files)"
| "refresh_files json portfolio exchange files ((path, file) # rest) =
     (case refresh_file json portfolio exchange (bm_get files path) file of (failed, s) \<Rightarrow>
        let files' = bm_insert path s files
        in (case failed of Some e \<Rightarrow> (Some e, files') | None \<Rightarrow> refresh_files json portfolio exchange files' rest))"

definition merge_files :: "(string, journal_file) bmap \<Rightarrow> evidence_error + (string, role_evidence) bmap" where
  "merge_files files = rfold (\<lambda>roles s. rfold merge_role roles (bm_vals (jf_roles s))) [] (bm_vals files)"

text \<open>\<open>directory\<close> is the sorted listing of the journal files, or none if there is no directory.\<close>

definition journal_refresh ::
    "json_reader \<Rightarrow> string \<Rightarrow> string \<Rightarrow> string \<Rightarrow> (string \<times> (nat \<times> nat) \<times> bytes) list option \<Rightarrow> liquidity_journal
      \<Rightarrow> (evidence_error + (string, role_evidence) bmap) \<times> liquidity_journal" where
  "journal_refresh json dir portfolio exchange directory j0 =
     (let scope = (dir, portfolio, exchange);
          j = (if jn_scope j0 = Some scope then j0 else \<lparr>jn_scope = Some scope, jn_files = [], jn_roles = []\<rparr>)
      in case directory of
           None \<Rightarrow> (Inr [], j\<lparr>jn_files := [], jn_roles := []\<rparr>)
         | Some listing \<Rightarrow>
             (case refresh_files json portfolio exchange (bm_retain (\<lambda>path _. path \<in> fst ` set listing) (jn_files j)) listing of
                (Some e, files) \<Rightarrow> (Inl e, j\<lparr>jn_files := files\<rparr>)
              | (None, files) \<Rightarrow>
                  (case merge_files files of
                     Inl e \<Rightarrow> (Inl e, j\<lparr>jn_files := files\<rparr>)
                   | Inr roles \<Rightarrow> (Inr roles, j\<lparr>jn_files := files, jn_roles := roles\<rparr>))))"

subsection \<open>Resolving a source\<close>

definition evidence_exchange :: "string \<Rightarrow> evidence_error + string" where
  "evidence_exchange venue =
     (if venue \<in> {''binance-futures'', ''binance-margin''} then Inr ''BINANCE''
      else if venue \<in> {''okex-futures'', ''okex-margin''} then Inr ''OKX'' else Inl (EvidenceVenue venue))"

definition wanted_orders :: "nav_event list \<Rightarrow> order_key list" where
  "wanted_orders events =
     set_of_list (map event_order
       (filter (\<lambda>e. ne_order_type_code e \<noteq> internal_cross_order_type_code \<and> 0 < ne_client_order_id e) events))"

text \<open>
  What \<open>resolve\<close> reads: the environment of the source or the failure to read it, the stored executions
  if there is such a column family, and the journal directory of a portfolio and exchange.
\<close>

record evidence_input =
  ei_values :: "environment option"
  ei_records :: "(bytes \<times> bytes) list option"
  ei_data_dir :: string
  ei_directory :: "string \<Rightarrow> (string \<times> (nat \<times> nat) \<times> bytes) list option"

definition journal_dir :: "string \<Rightarrow> string \<Rightarrow> string \<Rightarrow> string" where
  "journal_dir data_dir exchange portfolio = data_dir @ ''/rapidx_account/rapidx_'' @ ascii_lower exchange @ ''_'' @ portfolio"

definition evidence_scope :: "source_config \<Rightarrow> environment \<Rightarrow> evidence_error + string \<times> string" where
  "evidence_scope source values =
     rbind (of_option PortfolioScope (bm_get values ''LTP_PORTFOLIO_ID'')) (\<lambda>portfolio.
     rbind (rensure (digits_only portfolio) PortfolioScope) (\<lambda>_.
     rbind (evidence_exchange (sc_venue source)) (\<lambda>exchange. Inr (portfolio, exchange))))"

text \<open>\<open>==\<close> of event lists compares floats, so a NaN makes a list differ from itself.\<close>

definition events_eq :: "nav_event list \<Rightarrow> nav_event list \<Rightarrow> bool" where
  "events_eq xs ys \<longleftrightarrow> xs = ys \<and> list_all (\<lambda>e. ne_price e \<noteq> NaN \<and> ne_amount_update e \<noteq> NaN) xs"

definition resolve_with ::
    "stored_reader \<Rightarrow> json_reader \<Rightarrow> (bytes \<Rightarrow> bytes) \<Rightarrow> source_config \<Rightarrow> evidence_input \<Rightarrow> nav_event list \<Rightarrow> order_key list
      \<Rightarrow> string \<Rightarrow> string \<Rightarrow> (bytes \<times> bytes) list \<Rightarrow> liquidity_journal \<Rightarrow> (evidence_error + nav_event list option) \<times> liquidity_journal" where
  "resolve_with stored json sha source input events wanted portfolio exchange records journal =
     (let dir = journal_dir (ei_data_dir input) exchange portfolio
      in case journal_refresh json dir portfolio exchange (ei_directory input dir) journal of
           (Inl e, journal') \<Rightarrow> (Inl e, journal')
         | (Inr roles, journal') \<Rightarrow>
             (rbind (decode_fills stored sha portfolio exchange wanted roles records) (\<lambda>fills.
              rbind (replace_orders events wanted fills) (\<lambda>resolved.
              Inr (if events_eq resolved events then None else Some resolved))), journal'))"

definition resolve_evidence ::
    "stored_reader \<Rightarrow> json_reader \<Rightarrow> (bytes \<Rightarrow> bytes) \<Rightarrow> source_config \<Rightarrow> evidence_input \<Rightarrow> nav_event list \<Rightarrow> liquidity_journal
      \<Rightarrow> (evidence_error + nav_event list option) \<times> liquidity_journal" where
  "resolve_evidence stored json sha source input events journal =
     (let unpriced = list_ex needs_price events; wanted = wanted_orders events
      in if events = [] then (Inr None, journal)
         else case ei_values input of
           None \<Rightarrow> (if unpriced then Inl SourceEnvironment else Inr None, journal)
         | Some values \<Rightarrow>
             if execution_backend (sc_venue source) values \<noteq> Inr Ltp \<or> wanted = []
             then (if unpriced then Inl (Unpriced (sc_id source)) else Inr None, journal)
             else case evidence_scope source values of
               Inl e \<Rightarrow> (Inl e, journal)
             | Inr (portfolio, exchange) \<Rightarrow>
                 (case ei_records input of
                    None \<Rightarrow> (if unpriced then Inl (Unpriced (sc_id source)) else Inr None, journal)
                  | Some records \<Rightarrow> resolve_with stored json sha source input events wanted portfolio exchange records journal))"


subsection \<open>What the evidence holds\<close>

text \<open>The order and fill a record stands for, if it is one of the wanted orders of the portfolio.\<close>

definition record_evidence ::
    "stored_reader \<Rightarrow> (bytes \<Rightarrow> bytes) \<Rightarrow> string \<Rightarrow> string \<Rightarrow> order_key list \<Rightarrow> (string, role_evidence) bmap
      \<Rightarrow> bytes \<times> bytes \<Rightarrow> evidence_error + (order_key \<times> evidence_fill) option" where
  "record_evidence stored sha portfolio exchange wanted roles rec =
     rbind (of_option StoredJson (stored (snd rec))) (\<lambda>s.
     if st_portfolio s \<noteq> portfolio \<or> st_exchange s \<noteq> exchange then Inr None
     else case parse_i64 (ex_client_order_id (st_execution s)) of
            None \<Rightarrow> Inr None
          | Some client_order_id \<Rightarrow>
              if client_order_id \<notin> (\<lambda>(_, _, c). c) ` set wanted then Inr None
              else rbind (execution_market exchange (ex_symbol (st_execution s))) (\<lambda>(symbol, venue_code).
                if (symbol, venue_code, client_order_id) \<notin> set wanted then Inr None
                else rmap (\<lambda>f. Some ((symbol, venue_code, client_order_id), f))
                       (execution_fill sha portfolio exchange roles (fst rec) client_order_id (st_execution s))))"

lemma decode_execution_evidence:
  "decode_execution stored sha portfolio exchange wanted roles result rec =
     rbind (record_evidence stored sha portfolio exchange wanted roles rec) (\<lambda>r.
       case r of None \<Rightarrow> Inr result | Some (key, fill) \<Rightarrow> merge_fill key fill result)"
  by (auto simp: decode_execution_def record_evidence_def Let_def of_option_def rmap_def rbind_def split: option.split sum.split prod.split)

text \<open>The fill of an order and transaction.\<close>

definition evidence_at :: "evidence \<Rightarrow> order_key \<Rightarrow> string \<Rightarrow> evidence_fill option" where
  "evidence_at m key tx = (case bm_get m key of None \<Rightarrow> None | Some order \<Rightarrow> bm_get order tx)"

definition evidence_wf :: "evidence \<Rightarrow> bool" where
  "evidence_wf m \<longleftrightarrow> bm_wf m \<and> (\<forall>key order. bm_get m key = Some order \<longrightarrow> bm_wf order \<and> order \<noteq> [])"

lemma insert_not_Nil [simp]: "bm_insert k v m \<noteq> []"
  by (induction k v m rule: bm_insert.induct) auto

lemma merge_fill_evidence:
  assumes "merge_fill key fill m = Inr m'" and "evidence_wf m"
  shows "evidence_wf m' \<and> evidence_at m' key (ef_transaction_id fill) = Some fill
    \<and> (\<forall>k tx f. evidence_at m' k tx = Some f \<longleftrightarrow> evidence_at m k tx = Some f \<or> (k = key \<and> tx = ef_transaction_id fill \<and> f = fill))"
proof -
  let ?order = "case bm_get m key of None \<Rightarrow> [] | Some order \<Rightarrow> order"
  have wf: "bm_wf ?order"
  proof (cases "bm_get m key")
    case (Some order)
    then show ?thesis using assms(2) unfolding evidence_wf_def by (metis option.simps(5))
  qed simp
  have at: "evidence_at m key tx = bm_get ?order tx" for tx by (simp add: evidence_at_def split: option.split)
  show ?thesis
  proof (cases "bm_get ?order (ef_transaction_id fill)")
    case None
    then have m': "m' = bm_insert key (bm_insert (ef_transaction_id fill) fill ?order) m"
      using assms(1) by (simp add: merge_fill_def Let_def)
    have "evidence_wf m'" using assms(2) wf unfolding m' evidence_wf_def by auto
    moreover have "evidence_at m' k tx = (if k = key \<and> tx = ef_transaction_id fill then Some fill else evidence_at m k tx)" for k tx
      using at by (simp add: m' evidence_at_def)
    ultimately show ?thesis using None at by auto
  next
    case (Some old)
    then have old: "old = fill" and m': "m' = bm_insert key ?order m"
      using assms(1) by (simp_all add: merge_fill_def Let_def rbind_Inr_iff rensure_Inr_iff)
    have "?order \<noteq> []" using Some by auto
    then have "evidence_wf m'" using assms(2) wf unfolding m' evidence_wf_def by auto
    moreover have "evidence_at m' k tx = evidence_at m k tx" for k tx using at by (simp add: m' evidence_at_def)
    ultimately show ?thesis using Some at old by auto
  qed
qed

lemma decode_fills_evidence:
  assumes "rfold (decode_execution stored sha portfolio exchange wanted roles) m records = Inr fills" and "evidence_wf m"
  shows "evidence_wf fills \<and> (\<forall>rec \<in> set records. \<exists>r. record_evidence stored sha portfolio exchange wanted roles rec = Inr r)
    \<and> (\<forall>key tx f. evidence_at fills key tx = Some f \<longleftrightarrow> evidence_at m key tx = Some f \<or> (\<exists>rec \<in> set records.
         record_evidence stored sha portfolio exchange wanted roles rec = Inr (Some (key, f)) \<and> tx = ef_transaction_id f))"
  using assms
proof (induction records arbitrary: m)
  case (Cons rec records)
  obtain m' where m': "decode_execution stored sha portfolio exchange wanted roles m rec = Inr m'"
    "rfold (decode_execution stored sha portfolio exchange wanted roles) m' records = Inr fills"
    using Cons.prems(1) by (auto simp: rbind_Inr_iff)
  then obtain r where r: "record_evidence stored sha portfolio exchange wanted roles rec = Inr r"
    "(case r of None \<Rightarrow> Inr m | Some (key, fill) \<Rightarrow> merge_fill key fill m) = Inr m'"
    by (auto simp: decode_execution_evidence rbind_Inr_iff)
  show ?case
  proof (cases r)
    case None
    then have "m' = m" using r(2) by simp
    then show ?thesis using Cons.IH [OF m'(2)] Cons.prems(2) r(1) None by auto
  next
    case (Some kf)
    then obtain key fill where kf: "r = Some (key, fill)" by (cases kf) auto
    then have "merge_fill key fill m = Inr m'" using r(2) by simp
    note M = merge_fill_evidence [OF this Cons.prems(2)]
    then have "evidence_wf m'" by blast
    from Cons.IH [OF m'(2) this] M r(1) show ?thesis unfolding kf by auto
  qed
qed simp

lemma merge_fill_succeeds:
  "(\<exists>m'. merge_fill key fill m = Inr m') \<longleftrightarrow>
     (\<forall>f. evidence_at m key (ef_transaction_id fill) = Some f \<longrightarrow> f = fill)"
  by (cases "bm_get m key")
    (auto simp: merge_fill_def evidence_at_def Let_def rbind_Inr_iff rensure_Inr_iff split: option.split)

text \<open>What the records say, whatever their order.\<close>

definition decoded :: "(bytes \<times> bytes \<Rightarrow> evidence_error + (order_key \<times> evidence_fill) option) \<Rightarrow> (bytes \<times> bytes) set \<Rightarrow> order_key \<Rightarrow> evidence_fill \<Rightarrow> bool" where
  "decoded f recs key fill \<longleftrightarrow> (\<exists>rec \<in> recs. f rec = Inr (Some (key, fill)))"

lemma decode_fills_succeeds:
  assumes "evidence_wf m"
    and "\<forall>rec \<in> set records. \<exists>r. record_evidence stored sha portfolio exchange wanted roles rec = Inr r"
    and "\<forall>key f g. decoded (record_evidence stored sha portfolio exchange wanted roles) (set records) key f
      \<longrightarrow> decoded (record_evidence stored sha portfolio exchange wanted roles) (set records) key g
          \<or> evidence_at m key (ef_transaction_id g) = Some g
      \<longrightarrow> ef_transaction_id f = ef_transaction_id g \<longrightarrow> f = g"
    and "\<forall>key tx f. evidence_at m key tx = Some f \<longrightarrow> ef_transaction_id f = tx"
  shows "\<exists>fills. rfold (decode_execution stored sha portfolio exchange wanted roles) m records = Inr fills"
  using assms
proof (induction records arbitrary: m)
  case (Cons rec records)
  let ?ev = "record_evidence stored sha portfolio exchange wanted roles"
  obtain r where r: "?ev rec = Inr r" using Cons.prems(2) by auto
  have rest: "\<forall>rec \<in> set records. \<exists>r. ?ev rec = Inr r" using Cons.prems(2) by simp
  have sub: "decoded ?ev (set records) key f \<Longrightarrow> decoded ?ev (set (rec # records)) key f" for key f
    by (auto simp: decoded_def)
  show ?case
  proof (cases r)
    case None
    have "\<exists>fills. rfold (decode_execution stored sha portfolio exchange wanted roles) m records = Inr fills"
      using Cons.IH [OF Cons.prems(1) rest] Cons.prems(3,4) sub by blast
    then show ?thesis using r None
      by (simp add: decode_execution_evidence [of stored sha portfolio exchange wanted roles m rec])
  next
    case (Some kf)
    then obtain key fill where kf: "r = Some (key, fill)" by (cases kf) auto
    have here: "decoded ?ev (set (rec # records)) key fill" using r kf by (simp add: decoded_def)
    have "\<exists>m'. merge_fill key fill m = Inr m'"
      unfolding merge_fill_succeeds using Cons.prems(3,4) here by metis
    then obtain m' where m': "merge_fill key fill m = Inr m'" ..
    note M = merge_fill_evidence [OF m' Cons.prems(1)]
    note M' = M [THEN conjunct2, THEN conjunct2, rule_format]
    have "\<exists>fills. rfold (decode_execution stored sha portfolio exchange wanted roles) m' records = Inr fills"
    proof (rule Cons.IH [OF _ rest])
      show "evidence_wf m'" using M by blast
      show "\<forall>k tx f. evidence_at m' k tx = Some f \<longrightarrow> ef_transaction_id f = tx"
        unfolding M' using Cons.prems(4) by blast
      show "\<forall>k f g. decoded ?ev (set records) k f \<longrightarrow> decoded ?ev (set records) k g \<or> evidence_at m' k (ef_transaction_id g) = Some g
        \<longrightarrow> ef_transaction_id f = ef_transaction_id g \<longrightarrow> f = g"
      proof (intro allI impI)
        fix k f g
        assume f: "decoded ?ev (set records) k f" and g: "decoded ?ev (set records) k g \<or> evidence_at m' k (ef_transaction_id g) = Some g"
          and tx: "ef_transaction_id f = ef_transaction_id g"
        have "decoded ?ev (set (rec # records)) k g \<or> evidence_at m k (ef_transaction_id g) = Some g"
          using g sub [of k g] here unfolding M' by blast
        then show "f = g" using Cons.prems(3) sub [OF f] tx by blast
      qed
    qed
    then show ?thesis using r kf m'
      by (simp add: decode_execution_evidence [of stored sha portfolio exchange wanted roles m rec])
  qed
next
  case Nil
  show ?case by simp
qed

lemma evidence_ext:
  assumes "evidence_wf m" "evidence_wf m'" "\<And>key tx. evidence_at m key tx = evidence_at m' key tx"
  shows "m = m'"
proof (rule bm_ext)
  show "bm_wf m" "bm_wf m'" using assms(1,2) by (simp_all add: evidence_wf_def)
  fix key
  have some: "\<exists>tx f. bm_get order tx = Some f" if "order \<noteq> []" for order :: "(string, evidence_fill) bmap"
    using that by (cases order) auto
  have nn: "bm_get m2 key = None \<Longrightarrow> bm_get m1 key = None" if "evidence_wf m1" "\<And>tx. evidence_at m1 key tx = evidence_at m2 key tx" for m1 m2
  proof (rule ccontr)
    assume none: "bm_get m2 key = None" and "bm_get m1 key \<noteq> None"
    then obtain order where o: "bm_get m1 key = Some order" by auto
    then have "order \<noteq> []" using that(1) unfolding evidence_wf_def by metis
    then obtain tx f where "bm_get order tx = Some f" using some by blast
    then show False using that(2) [of tx] none o by (simp add: evidence_at_def)
  qed
  show "bm_get m key = bm_get m' key"
  proof (cases "bm_get m key")
    case None
    then show ?thesis using nn [of m' m] assms by simp
  next
    case (Some order)
    then obtain order' where o': "bm_get m' key = Some order'" using nn [of m m'] assms by fastforce
    have "order = order'"
    proof (rule bm_ext)
      show "bm_wf order" "bm_wf order'" using assms(1,2) Some o' unfolding evidence_wf_def by metis+
      show "bm_get order tx = bm_get order' tx" for tx using assms(3) [of key tx] Some o' by (simp add: evidence_at_def)
    qed
    then show ?thesis using Some o' by simp
  qed
qed

lemma evidence_wf_Nil [simp]: "evidence_wf []"
  by (simp add: evidence_wf_def)

lemma evidence_at_Nil [simp]: "evidence_at [] key tx = None"
  by (simp add: evidence_at_def)

lemma decode_fills_at:
  assumes "decode_fills stored sha portfolio exchange wanted roles records = Inr fills"
  shows "evidence_wf fills" and "\<forall>rec \<in> set records. \<exists>r. record_evidence stored sha portfolio exchange wanted roles rec = Inr r"
    and "evidence_at fills key tx = Some f \<longleftrightarrow>
      decoded (record_evidence stored sha portfolio exchange wanted roles) (set records) key f \<and> tx = ef_transaction_id f"
proof -
  note D = decode_fills_evidence [OF assms [unfolded decode_fills_def] evidence_wf_Nil]
  show "evidence_wf fills" "\<forall>rec \<in> set records. \<exists>r. record_evidence stored sha portfolio exchange wanted roles rec = Inr r"
    using D by blast+
  have "evidence_at fills key tx = Some f \<longleftrightarrow> evidence_at [] key tx = Some f \<or> (\<exists>rec \<in> set records.
         record_evidence stored sha portfolio exchange wanted roles rec = Inr (Some (key, f)) \<and> tx = ef_transaction_id f)"
    by (rule D [THEN conjunct2, THEN conjunct2, rule_format])
  then show "evidence_at fills key tx = Some f \<longleftrightarrow>
      decoded (record_evidence stored sha portfolio exchange wanted roles) (set records) key f \<and> tx = ef_transaction_id f"
    unfolding decoded_def evidence_at_Nil by blast
qed

lemma evidence_any_order_lemma:
  assumes "decode_fills stored sha portfolio exchange wanted roles records = Inr fills"
    and "set records' = set records"
  shows "decode_fills stored sha portfolio exchange wanted roles records' = Inr fills"
proof -
  let ?ev = "record_evidence stored sha portfolio exchange wanted roles"
  note D = decode_fills_at [OF assms(1)]
  have agree: "f = g" if "decoded ?ev (set records) key f" "decoded ?ev (set records) key g"
      "ef_transaction_id f = ef_transaction_id g" for key f g
  proof -
    have "evidence_at fills key (ef_transaction_id f) = Some f"
      unfolding D(3) [of key "ef_transaction_id f" f] using that(1) by (rule conjI) (rule refl)
    moreover have "evidence_at fills key (ef_transaction_id g) = Some g"
      unfolding D(3) [of key "ef_transaction_id g" g] using that(2) by (rule conjI) (rule refl)
    ultimately show ?thesis unfolding that(3) by (metis option.inject)
  qed
  have "\<exists>fills'. decode_fills stored sha portfolio exchange wanted roles records' = Inr fills'"
    unfolding decode_fills_def
  proof (rule decode_fills_succeeds [OF evidence_wf_Nil])
    show "\<forall>rec \<in> set records'. \<exists>r. ?ev rec = Inr r" using D(2) assms(2) by simp
    show "\<forall>key f g. decoded ?ev (set records') key f \<longrightarrow> decoded ?ev (set records') key g
        \<or> evidence_at [] key (ef_transaction_id g) = Some g \<longrightarrow> ef_transaction_id f = ef_transaction_id g \<longrightarrow> f = g"
      using agree assms(2) by auto
  qed simp
  then obtain fills' where f': "decode_fills stored sha portfolio exchange wanted roles records' = Inr fills'" ..
  note D' = decode_fills_at [OF f']
  have "fills = fills'"
  proof (rule evidence_ext [OF D(1) D'(1)])
    have same: "evidence_at fills key tx = Some f \<longleftrightarrow> evidence_at fills' key tx = Some f" for key tx f
      unfolding D(3) [of key tx f] D'(3) [of key tx f] assms(2) by (rule refl)
    show "evidence_at fills key tx = evidence_at fills' key tx" for key tx
      using same [of key tx "the (evidence_at fills key tx)"] same [of key tx "the (evidence_at fills' key tx)"]
      by (cases "evidence_at fills key tx"; cases "evidence_at fills' key tx") simp_all
  qed
  then show ?thesis using f' by simp
qed

subsection \<open>What replacing keeps\<close>

lemma f_add_fin: "is_fin (a + b) \<longleftrightarrow> is_fin a \<and> is_fin b \<and> is_fin (a + b)"
  by (cases a; cases b) (simp_all add: f64_ops)

lemma f_sum_fin:
  assumes "is_fin (f_sum xs)"
  shows "list_all is_fin xs"
proof -
  have "is_fin (foldl (+) a xs) \<longrightarrow> is_fin a \<and> list_all is_fin xs" for a
    by (induction xs arbitrary: a) (use f_add_fin in auto)
  then show ?thesis using assms by (simp add: f_sum_def)
qed

lemma fin_cases: "is_fin a \<Longrightarrow> a \<le> 0 \<or> 0 < a"
  using f64_fin_not_le_0 by blast

text \<open>A role changes nothing else; a split changes the quantity and the key.\<close>

definition same_fill :: "nav_event \<Rightarrow> nav_event \<Rightarrow> bool" where
  "same_fill e e' \<longleftrightarrow> (\<exists>key amount role. e' = e\<lparr>ne_record_key := key, ne_amount_update := amount, ne_fill_liquidity := role\<rparr>)"

lemma same_fillI [intro]:
  "same_fill e e" "same_fill e (e\<lparr>ne_fill_liquidity := role\<rparr>)"
  "same_fill e (e\<lparr>ne_fill_liquidity := role, ne_amount_update := amount, ne_record_key := key\<rparr>)"
  "same_fill e (e\<lparr>ne_amount_update := amount, ne_record_key := key\<rparr>)"
  unfolding same_fill_def by (cases e; fastforce)+

lemma same_fill_fields:
  assumes "same_fill e e'"
  shows "event_order e' = event_order e" "ne_price e' = ne_price e" "same_attribution t e' = same_attribution t e"
  using assms by (auto simp: same_fill_def event_order_def same_attribution_def)

lemma with_role_fill: "with_role e role = Inr e' \<Longrightarrow> e' = e \<or> (\<exists>r. e' = e\<lparr>ne_fill_liquidity := r\<rparr>)"
  by (auto simp: with_role_def rbind_Inr_iff split: option.splits)

lemma split_row_fill:
  "split_row e i used parts = Inr rows \<Longrightarrow> (\<forall>row \<in> set rows. same_fill e row) \<and> length rows = length parts"
proof (induction e i used parts arbitrary: rows rule: split_row.induct)
  case (2 e i used index quantity role rest)
  then show ?case by (fastforce simp: rbind_Inr_iff Let_def dest!: with_role_fill)
qed simp

text \<open>A row stands for an event: it is the event, or a fill of it with other role, key and quantity.\<close>

definition stands_for :: "nav_event \<Rightarrow> nav_event \<Rightarrow> bool" where
  "stands_for e row \<longleftrightarrow> row = e \<or> (same_fill e row \<and> \<not> ne_amount_update e \<le> 0)"

lemma match_row_stands:
  assumes "match_row remaining e = Inr (rows, remaining')"
  shows "rows \<noteq> [] \<and> (\<forall>row \<in> set rows. stands_for e row)"
proof (cases "ne_amount_update e \<le> 0")
  case True
  then show ?thesis using assms by (auto simp: match_row_def stands_for_def)
next
  case False
  let ?tol = "\<bar>ne_amount_update e\<bar> * f_lit (1 / 10 ^ 12)"
  obtain parts needed where p: "take_parts e ?tol (ne_amount_update e) (enumerate 0 remaining) = (parts, needed)" by fastforce
  define role where "role = (case parts of [] \<Rightarrow> None | (_, _, r) # _ \<Rightarrow> r)"
  define left where "left = spend_parts parts remaining"
  have unfolded: "(if ?tol < needed then Inr ([e], remaining)
      else rmap (\<lambda>rows. (rows, left)) (if list_all (\<lambda>(_, _, r). r = role) parts then rmap (\<lambda>e. [e]) (with_role e role)
             else split_row e 0 0 parts)) = Inr (rows, remaining')"
    using assms False p unfolding match_row_def Let_def role_def left_def by simp
  have split: "parts \<noteq> []" if "\<not> list_all (\<lambda>(_, _, r). r = role) parts" using that by auto
  consider "rows = [e]" | role e' where "with_role e role = Inr e'" "rows = [e']"
    | "parts \<noteq> []" "split_row e 0 0 parts = Inr rows"
  proof (cases "?tol < needed")
    case True
    then show ?thesis using unfolded that(1) by simp
  next
    case enough: False
    show ?thesis
    proof (cases "list_all (\<lambda>(_, _, r). r = role) parts")
      case True
      then show ?thesis using unfolded enough that(2) by (cases "with_role e role") (simp_all add: rmap_def)
    next
      case False
      then show ?thesis using unfolded enough that(3) split by (cases "split_row e 0 0 parts") (simp_all add: rmap_def)
    qed
  qed
  then show ?thesis
  proof cases
    case 1
    then show ?thesis by (simp add: stands_for_def)
  next
    case 2
    then show ?thesis using with_role_fill [OF 2(1)] False by (auto simp: stands_for_def)
  next
    case 3
    then show ?thesis using split_row_fill [OF 3(2)] False by (auto simp: stands_for_def)
  qed
qed

lemma match_rows_stand:
  "match_rows remaining es = Inr rows \<Longrightarrow>
     (\<forall>row \<in> set rows. \<exists>e \<in> set es. stands_for e row) \<and> (es \<noteq> [] \<longrightarrow> rows \<noteq> [])"
proof (induction remaining es arbitrary: rows rule: match_rows.induct)
  case (2 remaining e es)
  then obtain r remaining' rest where *: "match_row remaining e = Inr (r, remaining')" "match_rows remaining' es = Inr rest" "rows = r @ rest"
    by (auto simp: rbind_Inr_iff)
  show ?case using match_row_stands [OF *(1)] 2(1) [OF *(2)] *(3) by auto
qed simp

lemma apply_roles_stand:
  assumes "apply_roles original order = Inr rows"
  shows "(\<forall>row \<in> set rows. \<exists>e \<in> set original. stands_for e row) \<and> (original \<noteq> [] \<longrightarrow> rows \<noteq> [])"
proof -
  have uniform: ?thesis
    if "rmapM (\<lambda>e. if 0 < ne_amount_update e then with_role e role else Inr e) original = Inr rows" for role
  proof -
    have all: "list_all2 (\<lambda>e row. stands_for e row) original rows"
      using that unfolding rmapM_Inr_iff
    proof (rule list_all2_mono)
      fix e row assume "(if 0 < ne_amount_update e then with_role e role else Inr e) = Inr row"
      then show "stands_for e row"
        by (cases "0 < ne_amount_update e") (auto simp: stands_for_def f64_ops dest: with_role_fill elim: f_less.elims)
    qed
    have "\<exists>e \<in> set original. stands_for e row" if "row \<in> set rows" for row
      using all that by (metis in_set_conv_nth list_all2_conv_all_nth)
    then show ?thesis using list_all2_lengthD [OF all] by auto
  qed
  consider role where "rmapM (\<lambda>e. if 0 < ne_amount_update e then with_role e role else Inr e) original = Inr rows"
    | remaining where "match_rows remaining original = Inr rows"
    using assms unfolding apply_roles_def Let_def by (simp only: split: if_split_asm)
  then show ?thesis
  proof cases
    case 1
    then show ?thesis by (rule uniform)
  next
    case 2
    then show ?thesis by (rule match_rows_stand)
  qed
qed

lemma stands_for_fields:
  assumes "stands_for e row"
  shows "event_order row = event_order e" "same_attribution t row = same_attribution t e"
  using assms same_fill_fields unfolding stands_for_def by metis+

lemma stands_for_priced:
  assumes "stands_for e row" and "is_fin (ne_amount_update e)" and "\<not> needs_price e"
  shows "\<not> needs_price row"
proof (cases "row = e")
  case False
  then have "same_fill e row" "0 < ne_amount_update e"
    using assms(1,2) fin_cases unfolding stands_for_def by blast+
  then show ?thesis using assms(3) same_fill_fields(2) by (simp add: needs_price_def)
qed (use assms in simp)

definition priced_evidence :: "evidence \<Rightarrow> bool" where
  "priced_evidence m \<longleftrightarrow> (\<forall>key tx f. evidence_at m key tx = Some f \<longrightarrow>
     is_fin (ef_price f) \<and> 0 < ef_price f \<and> is_fin (ef_quantity f) \<and> 0 < ef_quantity f)"

lemma priced_evidence_vals:
  assumes "priced_evidence m" "evidence_wf m" "bm_get m key = Some order" "f \<in> set (bm_vals order)"
  shows "is_fin (ef_price f) \<and> 0 < ef_price f \<and> is_fin (ef_quantity f) \<and> 0 < ef_quantity f"
proof -
  have wf: "bm_wf order" using assms(2,3) unfolding evidence_wf_def by metis
  obtain tx where "(tx, f) \<in> set order" using assms(4) by (auto simp: bm_vals_def)
  then have "bm_get order tx = Some f" using bm_get_mem [OF wf] by simp
  then have "evidence_at m key tx = Some f" using assms(3) by (simp add: evidence_at_def)
  then show ?thesis using assms(1) unfolding priced_evidence_def by blast
qed

lemma execution_fill_priced:
  assumes "execution_fill sha portfolio exchange roles record_key client_order_id e = Inr f"
  shows "is_fin (ef_price f) \<and> 0 < ef_price f \<and> is_fin (ef_quantity f) \<and> 0 < ef_quantity f"
  using assms unfolding execution_fill_def
  by (auto simp: rbind_Inr_iff rensure_Inr_iff of_option_def split: option.splits)

lemma record_evidence_priced:
  assumes "record_evidence stored sha portfolio exchange wanted roles rec = Inr (Some (key, f))"
  shows "key \<in> set wanted" and "is_fin (ef_price f) \<and> 0 < ef_price f \<and> is_fin (ef_quantity f) \<and> 0 < ef_quantity f"
proof -
  have *: "key \<in> set wanted \<and> (\<exists>client_order_id e.
      execution_fill sha portfolio exchange roles (fst rec) client_order_id e = Inr f)"
    using assms unfolding record_evidence_def
    by (auto simp: rbind_Inr_iff rmap_Inr_iff split: if_splits option.splits)
  then show "key \<in> set wanted" by simp
  show "is_fin (ef_price f) \<and> 0 < ef_price f \<and> is_fin (ef_quantity f) \<and> 0 < ef_quantity f"
    using * execution_fill_priced by blast
qed

lemma decode_fills_priced:
  assumes "decode_fills stored sha portfolio exchange wanted roles records = Inr fills"
  shows "priced_evidence fills"
  unfolding priced_evidence_def decode_fills_at(3) [OF assms] decoded_def using record_evidence_priced(2) by blast

text \<open>The three ways an order leaves replacement: as it was, with roles, or rebuilt from its executions.\<close>

lemma use_executions_cases:
  assumes "use_executions key original expected unpriced order = Inr out"
  obtains (kept) "out = original" "\<not> unpriced"
  | (roles) "apply_roles original order = Inr out" "\<not> unpriced"
  | (rebuilt) "bm_vals order \<noteq> []"
      "out = map (recovered_row (hd original)) (bm_vals order) @ filter (\<lambda>e. feq (ne_amount_update e) 0) original"
proof -
  define actual where "actual = f_sum (map ef_quantity (bm_vals order))"
  define tolerance where "tolerance = f_max \<bar>expected\<bar> \<bar>actual\<bar> * f_lit (1 / 10 ^ 12)"
  note def = assms [unfolded use_executions_def Let_def, folded actual_def, folded tolerance_def]
  show ?thesis
  proof (cases "actual + tolerance < expected \<and> \<not> unpriced")
    case True
    then show ?thesis using def kept by simp
  next
    case not_behind: False
    then have *: "bm_vals order \<noteq> []" "(if \<bar>actual - expected\<bar> \<le> tolerance \<and> \<not> unpriced then apply_roles original order
         else Inr (map (recovered_row (hd original)) (bm_vals order) @ filter (\<lambda>e. feq (ne_amount_update e) 0) original)) = Inr out"
      using def by (auto simp only: if_False rbind_Inr_iff of_option_def split: list.splits option.splits)
    show ?thesis
    proof (cases "\<bar>actual - expected\<bar> \<le> tolerance \<and> \<not> unpriced")
      case True
      then show ?thesis using *(2) roles by simp
    next
      case False
      then show ?thesis using * rebuilt by auto
    qed
  qed
qed

lemma replace_order_cases:
  assumes "replace_order fills (key, rows) = Inr out"
  defines "original \<equiv> sort_key ne_record_key rows"
  obtains (kept) "out = original" "\<not> list_ex needs_price original"
  | (roles) order where "bm_get fills key = Some order" "apply_roles original order = Inr out" "\<not> list_ex needs_price original"
  | (rebuilt) order where "bm_get fills key = Some order" "bm_vals order \<noteq> []"
      "out = map (recovered_row (hd original)) (bm_vals order) @ filter (\<lambda>e. feq (ne_amount_update e) 0) original"
proof (cases "bm_get fills key")
  case None
  then show ?thesis using assms(1) kept unfolding replace_order_def original_def
    by (auto simp: Let_def rbind_Inr_iff rensure_Inr_iff)
next
  case (Some order)
  have "use_executions key original (f_sum (map ne_amount_update original)) (list_ex needs_price original) order = Inr out"
    using assms(1) Some unfolding replace_order_def original_def Let_def by (simp add: rbind_Inr_iff)
  then show ?thesis
    by (cases rule: use_executions_cases) (fact kept roles [OF Some] rebuilt [OF Some])+
qed

lemma replace_order_checks:
  assumes "replace_order fills (key, rows) = Inr out" and "e \<in> set rows"
  shows "is_fin (ne_amount_update e)" and "same_attribution (hd (sort_key ne_record_key rows)) e"
proof -
  have *: "is_fin (f_sum (map ne_amount_update (sort_key ne_record_key rows)))"
    "list_all (same_attribution (hd (sort_key ne_record_key rows))) (sort_key ne_record_key rows)"
    using assms(1) unfolding replace_order_def by (auto simp: Let_def rbind_Inr_iff rensure_Inr_iff)
  show "is_fin (ne_amount_update e)" using f_sum_fin [OF *(1)] assms(2) by (simp add: list_all_iff)
  show "same_attribution (hd (sort_key ne_record_key rows)) e" using *(2) assms(2) by (simp add: list_all_iff)
qed

lemma same_attribution_trans: "same_attribution t e \<Longrightarrow> same_attribution t e' \<Longrightarrow> same_attribution e e'"
  by (simp add: same_attribution_def)

lemma replace_order_keeps:
  assumes out: "replace_order fills (key, rows) = Inr out"
    and rows: "rows \<noteq> []" "\<forall>e \<in> set rows. event_order e = key"
    and fills: "evidence_wf fills" "priced_evidence fills"
  shows "out \<noteq> [] \<and> (\<forall>row \<in> set out. event_order row = key \<and> \<not> needs_price row \<and> (\<forall>e \<in> set rows. same_attribution e row))"
  using out
proof (cases rule: replace_order_cases)
  case kept
  have attr: "same_attribution e row" if "e \<in> set rows" "row \<in> set rows" for e row
    using same_attribution_trans replace_order_checks(2) [OF out] that by blast
  have "out \<noteq> []" using kept(1) rows(1) by (metis set_empty set_sort)
  then show ?thesis using kept rows attr by (auto simp: list_ex_iff)
next
  case (roles order)
  note stand = apply_roles_stand [OF roles(2)]
  have "event_order row = key \<and> \<not> needs_price row \<and> (\<forall>e \<in> set rows. same_attribution e row)" if row: "row \<in> set out" for row
  proof -
    obtain e where e: "e \<in> set rows" "stands_for e row" using stand row by auto
    then have "event_order row = key" "\<not> needs_price row"
      using rows stands_for_fields(1) stands_for_priced replace_order_checks(1) [OF out] roles(3) by (auto simp: list_ex_iff)
    moreover have "same_attribution t row" if "t \<in> set rows" for t
      using stands_for_fields(2) [OF e(2), of t] same_attribution_trans replace_order_checks(2) [OF out] that e(1) by blast
    ultimately show ?thesis by blast
  qed
  moreover have "out \<noteq> []" using stand rows(1) by (metis set_empty set_sort)
  ultimately show ?thesis by blast
next
  case (rebuilt order)
  let ?t = "hd (sort_key ne_record_key rows)"
  have t: "?t \<in> set rows" using rows(1) by (metis hd_in_set set_empty set_sort)
  have attr: "same_attribution e e'" if "e \<in> set rows" "e' \<in> set rows" for e e'
    using same_attribution_trans replace_order_checks(2) [OF out] that by blast
  have rec: "event_order (recovered_row ?t f) = key \<and> same_attribution e (recovered_row ?t f)" if "e \<in> set rows" for e f
    using attr [OF that t] rows(2) t by (auto simp: recovered_row_def event_order_def same_attribution_def)
  have priced: "\<not> needs_price (recovered_row ?t f)" if "f \<in> set (bm_vals order)" for f
    using priced_evidence_vals [OF fills(2,1) rebuilt(1) that] f64_fin_not_le_0 by (auto simp: needs_price_def recovered_row_def)
  have kept: "\<not> needs_price e" if "feq (ne_amount_update e) 0" for e using that by (auto simp: needs_price_def feq_def)
  have "event_order row = key \<and> \<not> needs_price row \<and> (\<forall>e \<in> set rows. same_attribution e row)" if "row \<in> set out" for row
  proof -
    from that rebuilt(3) consider f where "f \<in> set (bm_vals order)" "row = recovered_row ?t f"
      | "row \<in> set rows" "feq (ne_amount_update row) 0" by auto
    then show ?thesis by cases (use rec [OF t] rec priced kept attr rows(2) in blast)+
  qed
  then show ?thesis using rebuilt(2,3) by auto
qed

lemma run_steps_append: "bm.run_steps d (\<lambda>e es. es @ [e]) (Some es) xs = Some (es @ xs)"
  by (induction xs arbitrary: es) simp_all

lemma grouped_get:
  "bm_get (foldl (\<lambda>m e. bm_upsert (f e) [] (\<lambda>es. es @ [e]) m) [] xs) k =
     (let es = filter (\<lambda>e. f e = k) xs in if es = [] then None else Some es)"
  unfolding bm_upserts_foldl [of f "\<lambda>_. []" "\<lambda>e es. es @ [e]"] bm.get_upserts
  by (cases "filter (\<lambda>e. f e = k) xs") (simp_all add: run_steps_append Let_def)

lemma grouped_wf: "bm_wf (foldl (\<lambda>m e. bm_upsert (f e) [] (\<lambda>es. es @ [e]) m) [] xs)"
  unfolding bm_upserts_foldl [of f "\<lambda>_. []" "\<lambda>e es. es @ [e]"] by (rule bm.wf_upserts) simp

lemma concat_group:
  assumes "list_all2 (\<lambda>kr out. P kr out \<and> (\<forall>e \<in> set out. g e = fst kr)) m rows" and "distinct (map fst m)"
  shows "(key, es) \<in> set m \<Longrightarrow> P (key, es) (filter (\<lambda>e. g e = key) (concat rows))"
    and "key \<notin> fst ` set m \<Longrightarrow> filter (\<lambda>e. g e = key) (concat rows) = []"
proof -
  have none: "filter (\<lambda>e. g e = key) (concat rows) = []"
    if "list_all2 (\<lambda>kr out. P kr out \<and> (\<forall>e \<in> set out. g e = fst kr)) m rows" "key \<notin> fst ` set m" for m rows
    using that by (induction rule: list_all2_induct) (auto simp: filter_empty_conv)
  then show "key \<notin> fst ` set m \<Longrightarrow> filter (\<lambda>e. g e = key) (concat rows) = []" using assms(1) by blast
  show "(key, es) \<in> set m \<Longrightarrow> P (key, es) (filter (\<lambda>e. g e = key) (concat rows))"
    using assms
  proof (induction rule: list_all2_induct)
    case (Cons kr m out rows)
    show ?case
    proof (cases "kr = (key, es)")
      case True
      then have "filter (\<lambda>e. g e = key) (concat rows) = []" using Cons by (intro none [of m]) auto
      moreover have "filter (\<lambda>e. g e = key) out = out" using Cons(1) True by simp
      ultimately show ?thesis using Cons(1) True by simp
    next
      case False
      then have mem: "(key, es) \<in> set m" using Cons by auto
      then have "key \<in> fst ` set m" by force
      then have "fst kr \<noteq> key" using Cons by auto
      moreover from this have "filter (\<lambda>e. g e = key) out = []" using Cons(1) by (auto simp: filter_empty_conv)
      ultimately show ?thesis using Cons mem by simp
    qed
  qed simp
qed

lemma replace_orders_order:
  assumes out: "replace_orders events wanted fills = Inr final" and fills: "evidence_wf fills" "priced_evidence fills"
  shows "filter (\<lambda>e. event_order e \<notin> set wanted) final = sort_key ne_record_key (filter (\<lambda>e. event_order e \<notin> set wanted) events)"
    and "key \<in> set wanted \<Longrightarrow> filter (\<lambda>e. event_order e = key) events \<noteq> [] \<Longrightarrow>
      \<exists>rows. replace_order fills (key, filter (\<lambda>e. event_order e = key) events) = Inr rows
        \<and> filter (\<lambda>e. event_order e = key) final = sort_key ne_record_key rows"
    and "filter (\<lambda>e. event_order e = key) events = [] \<Longrightarrow> filter (\<lambda>e. event_order e = key) final = []"
proof -
  let ?in = "filter (\<lambda>e. event_order e \<in> set wanted) events" and ?un = "filter (\<lambda>e. event_order e \<notin> set wanted) events"
  define m where "m = foldl (\<lambda>m e. bm_upsert (event_order e) [] (\<lambda>es. es @ [e]) m) [] ?in"
  obtain rows where rows: "rmapM (replace_order fills) m = Inr rows" and final: "final = sort_key ne_record_key (?un @ concat rows)"
    using out unfolding replace_orders_def m_def by (auto simp: rbind_Inr_iff Let_def)
  have wf: "bm_wf m" unfolding m_def by (rule grouped_wf)
  then have dist: "distinct (map fst m)" by (simp add: bm_wf_def strict_sorted_iff)
  have get: "bm_get m k = (if filter (\<lambda>e. event_order e = k) ?in = [] then None else Some (filter (\<lambda>e. event_order e = k) ?in))" for k
    unfolding m_def grouped_get Let_def by (rule refl)
  have entry: "replace_order fills kr = Inr r \<and> (\<forall>e \<in> set r. event_order e = fst kr)"
    if "replace_order fills kr = Inr r" "kr \<in> set m" for kr r
  proof -
    obtain k es where kr: "kr = (k, es)" by fastforce
    then have "bm_get m k = Some es" using that(2) bm_get_mem [OF wf] by simp
    then have "es \<noteq> []" "\<forall>e \<in> set es. event_order e = k" unfolding get by (auto split: if_splits)
    then show ?thesis using replace_order_keeps [OF that(1) [unfolded kr] _ _ fills] that(1) kr by simp
  qed
  have all: "list_all2 (\<lambda>kr r. replace_order fills kr = Inr r \<and> (\<forall>e \<in> set r. event_order e = fst kr)) m rows"
    using rows entry unfolding rmapM_Inr_iff by (simp add: list_all2_conv_all_nth)
  have keys: "k \<in> fst ` set m \<longleftrightarrow> filter (\<lambda>e. event_order e = k) ?in \<noteq> []" for k
    using get [of k] bm_get_None_iff [of m k] by (metis option.distinct(1))
  have in_rows: "event_order e \<in> fst ` set m" if "e \<in> set (concat rows)" for e
    using concat_group(2) [OF all dist, of "event_order e"] that by (auto simp: filter_empty_conv)
  have none: "filter (\<lambda>e. event_order e \<notin> set wanted) (concat rows) = []"
    using in_rows keys by (fastforce simp: filter_empty_conv)
  show "filter (\<lambda>e. event_order e \<notin> set wanted) final = sort_key ne_record_key ?un"
    unfolding final filter_sort filter_append none by (simp add: comp_def)
  show "\<exists>rows. replace_order fills (key, filter (\<lambda>e. event_order e = key) events) = Inr rows
        \<and> filter (\<lambda>e. event_order e = key) final = sort_key ne_record_key rows"
    if key: "key \<in> set wanted" and some: "filter (\<lambda>e. event_order e = key) events \<noteq> []"
  proof -
    have same: "filter (\<lambda>e. event_order e = key) ?in = filter (\<lambda>e. event_order e = key) events"
      using key by (auto simp: intro: filter_cong)
    then have "bm_get m key = Some (filter (\<lambda>e. event_order e = key) events)" using some get by simp
    then have "(key, filter (\<lambda>e. event_order e = key) events) \<in> set m" by (rule bm_get_SomeD)
    note concat_group(1) [OF all dist this]
    moreover have "filter (\<lambda>e. event_order e = key) final = sort_key ne_record_key (filter (\<lambda>e. event_order e = key) (concat rows))"
    proof -
      have "filter (\<lambda>e. event_order e = key) ?un = []" using key by (auto simp: filter_empty_conv)
      then show ?thesis unfolding final filter_sort filter_append by simp
    qed
    ultimately show ?thesis by blast
  qed
  show "filter (\<lambda>e. event_order e = key) final = []" if none: "filter (\<lambda>e. event_order e = key) events = []"
  proof -
    have "filter (\<lambda>e. event_order e = key) (concat rows) = []"
      using concat_group(2) [OF all dist, of key] keys [of key] none by (auto simp: filter_empty_conv)
    then show ?thesis unfolding final filter_sort using none by (simp add: filter_empty_conv)
  qed
qed

lemma replace_orders_keep:
  assumes "replace_orders events wanted fills = Inr final" and "evidence_wf fills" "priced_evidence fills"
    and key: "key \<in> set wanted"
  shows "\<forall>row \<in> set final. event_order row = key \<longrightarrow> \<not> needs_price row \<and> (\<forall>e \<in> set events. event_order e = key \<longrightarrow> same_attribution e row)"
    and "key \<in> event_order ` set final \<longleftrightarrow> key \<in> event_order ` set events"
proof -
  note R = replace_orders_order [OF assms(1-3)]
  have "(\<forall>row \<in> set final. event_order row = key \<longrightarrow> \<not> needs_price row \<and> (\<forall>e \<in> set events. event_order e = key \<longrightarrow> same_attribution e row))
    \<and> (key \<in> event_order ` set final \<longleftrightarrow> key \<in> event_order ` set events)"
  proof (cases "filter (\<lambda>e. event_order e = key) events = []")
    case True
    then show ?thesis using R(3) [OF True] by (auto simp: filter_empty_conv)
  next
    case False
    then obtain rows where rows: "replace_order fills (key, filter (\<lambda>e. event_order e = key) events) = Inr rows"
      "filter (\<lambda>e. event_order e = key) final = sort_key ne_record_key rows" using R(2) [OF key] by blast
    have "rows \<noteq> [] \<and> (\<forall>row \<in> set rows. event_order row = key \<and> \<not> needs_price row
        \<and> (\<forall>e \<in> set (filter (\<lambda>e. event_order e = key) events). same_attribution e row))"
      by (rule replace_order_keeps [OF rows(1) False _ assms(2,3)]) simp
    moreover have "{e \<in> set final. event_order e = key} = set rows"
      using arg_cong [OF rows(2), of set] by simp
    ultimately show ?thesis using False by (auto simp: filter_empty_conv image_iff) (metis (mono_tags, lifting) last_in_set mem_Collect_eq)
  qed
  then show "\<forall>row \<in> set final. event_order row = key \<longrightarrow> \<not> needs_price row \<and> (\<forall>e \<in> set events. event_order e = key \<longrightarrow> same_attribution e row)"
    "key \<in> event_order ` set final \<longleftrightarrow> key \<in> event_order ` set events" by blast+
qed

text \<open>The evidence of an order is each of its executions once.\<close>

lemma evidence_once:
  assumes "decode_fills stored sha portfolio exchange wanted roles records = Inr fills" and "bm_get fills key = Some order"
  shows "mset (bm_vals order) = mset_set {f. decoded (record_evidence stored sha portfolio exchange wanted roles) (set records) key f}"
proof -
  note D = decode_fills_at [OF assms(1)]
  have wf: "bm_wf order" using D(1) assms(2) unfolding evidence_wf_def by metis
  have mem: "(tx, f) \<in> set order \<longleftrightarrow>
      decoded (record_evidence stored sha portfolio exchange wanted roles) (set records) key f \<and> tx = ef_transaction_id f" for tx f
    using D(3) [of key tx f] assms(2) bm_get_mem [OF wf, of tx f] by (simp add: evidence_at_def)
  have "tx = ef_transaction_id f" if "(tx, f) \<in> set order" for tx f using that unfolding mem by (rule conjunct2)
  then have "inj_on snd (set order)" by (intro inj_onI) (metis prod.collapse)
  moreover have "distinct order" using wf by (metis bm_wf_def distinct_map strict_sorted_iff)
  ultimately have "distinct (bm_vals order)" by (simp add: bm_vals_def distinct_map)
  moreover have "set (bm_vals order) = {f. decoded (record_evidence stored sha portfolio exchange wanted roles) (set records) key f}"
  proof -
    have "set (bm_vals order) = {f. \<exists>tx. (tx, f) \<in> set order}" by (force simp: bm_vals_def)
    then show ?thesis unfolding mem by simp
  qed
  ultimately show ?thesis by (metis mset_set_set)
qed

text \<open>What resolving a source comes to.\<close>

lemma resolve_evidence_cases:
  assumes "fst (resolve_evidence stored json sha source input events journal) = Inr r"
  obtains (none) "r = None" "\<not> list_ex needs_price events"
  | (decoded) portfolio exchange roles records fills final where
      "decode_fills stored sha portfolio exchange (wanted_orders events) roles records = Inr fills"
      "replace_orders events (wanted_orders events) fills = Inr final"
      "r = (if events_eq final events then None else Some final)"
proof -
  let ?wanted = "wanted_orders events"
  have idle: "r = None \<and> \<not> list_ex needs_price events"
    if "(if list_ex needs_price events then Inl x else Inr None) = Inr r" for x :: evidence_error
    using that by (auto split: if_splits)
  show ?thesis
  proof (cases "events = [] \<or> ei_values input = None
      \<or> (\<exists>values. ei_values input = Some values \<and> (execution_backend (sc_venue source) values \<noteq> Inr Ltp \<or> ?wanted = []))")
    case True
    then show ?thesis using assms none idle unfolding resolve_evidence_def Let_def
      by (auto split: option.splits if_splits)
  next
    case False
    then obtain env where env: "ei_values input = Some env" "execution_backend (sc_venue source) env = Inr Ltp"
      "?wanted \<noteq> []" "events \<noteq> []" by auto
    show ?thesis
    proof (cases "evidence_scope source env")
      case (Inl e)
      then show ?thesis using assms env by (simp add: resolve_evidence_def)
    next
      case (Inr pe)
      then obtain portfolio exchange where pe: "evidence_scope source env = Inr (portfolio, exchange)" by (cases pe) auto
      show ?thesis
      proof (cases "ei_records input")
        case None
        then show ?thesis using assms env pe none idle by (auto simp: resolve_evidence_def split: if_splits)
      next
        case (Some records)
        then have w: "fst (resolve_with stored json sha source input events ?wanted portfolio exchange records journal) = Inr r"
          using assms env pe by (simp add: resolve_evidence_def)
        obtain res journal' where j: "journal_refresh json (journal_dir (ei_data_dir input) exchange portfolio) portfolio exchange
            (ei_directory input (journal_dir (ei_data_dir input) exchange portfolio)) journal = (res, journal')" by fastforce
        show ?thesis
        proof (cases res)
          case (Inl e)
          then show ?thesis using w j by (simp add: resolve_with_def Let_def)
        next
          case (Inr roles)
          then obtain fills final where "decode_fills stored sha portfolio exchange ?wanted roles records = Inr fills"
            "replace_orders events ?wanted fills = Inr final" "r = (if events_eq final events then None else Some final)"
            using w j by (auto simp: resolve_with_def Let_def rbind_Inr_iff)
          then show ?thesis by (rule decoded)
        qed
      qed
    qed
  qed
qed

text \<open>
  C37: When the reader resolves the fills of a source against its execution evidence, every fill of an
  external order leaves with a price. A row it adds has the side, key text and signal that all events
  of its order share; orders neither
  appear nor disappear, and all other events pass unchanged.
\<close>

theorem recovery_prices_fills:
  assumes "fst (resolve_evidence stored json sha source input events journal) = Inr r"
    and "final = (case r of None \<Rightarrow> events | Some final \<Rightarrow> final)"
  shows "(\<forall>row \<in> set final. event_order row \<in> set (wanted_orders events) \<longrightarrow>
           \<not> needs_price row
           \<and> (row \<in> set events \<or> (\<forall>e \<in> set events. event_order e = event_order row \<longrightarrow> same_attribution e row)))
    \<and> event_order ` set final = event_order ` set events
    \<and> mset (filter (\<lambda>e. event_order e \<notin> set (wanted_orders events)) final)
        = mset (filter (\<lambda>e. event_order e \<notin> set (wanted_orders events)) events)"
proof (cases rule: resolve_evidence_cases [OF assms(1)])
  case 1
  then have "final = events" using assms(2) by simp
  then show ?thesis using 1(2) by (auto simp: list_ex_iff)
next
  case (2 portfolio exchange roles records fills final')
  let ?wanted = "wanted_orders events"
  have final: "final = final'" using assms(2) 2(3) by (auto simp: events_eq_def split: if_splits)
  note wf = decode_fills_at(1) [OF 2(1)] decode_fills_priced [OF 2(1)]
  note keep = replace_orders_keep [OF 2(2) wf]
  have un: "mset (filter (\<lambda>e. event_order e \<notin> set ?wanted) final) = mset (filter (\<lambda>e. event_order e \<notin> set ?wanted) events)"
    unfolding final using replace_orders_order(1) [OF 2(2) wf] by simp
  have "key \<in> event_order ` set final \<longleftrightarrow> key \<in> event_order ` set events" for key
  proof (cases "key \<in> set ?wanted")
    case True
    then show ?thesis unfolding final by (rule keep(2))
  next
    case False
    have "set (filter (\<lambda>e. event_order e \<notin> set ?wanted) final) = set (filter (\<lambda>e. event_order e \<notin> set ?wanted) events)"
      using un by (metis set_mset_mset)
    then show ?thesis using False by auto
  qed
  moreover have "\<forall>row \<in> set final. event_order row \<in> set ?wanted \<longrightarrow>
      \<not> needs_price row
           \<and> (row \<in> set events \<or> (\<forall>e \<in> set events. event_order e = event_order row \<longrightarrow> same_attribution e row))"
    unfolding final using keep(1) by blast
  ultimately show ?thesis using un by blast
qed

text \<open>
  An order with an unpriced fill leaves replacement with exactly its stored executions: one row of
  the price, quantity and time of each distinct execution of the records, whatever the number and order
  of their WS and REST copies, beside rows without quantity.
\<close>

theorem recovered_exactly:
  assumes "decode_fills stored sha portfolio exchange wanted roles records = Inr fills"
    and "replace_orders events wanted fills = Inr final"
    and "e \<in> set events" and "needs_price e" and "event_order e \<in> set wanted"
  shows "mset (map (\<lambda>row. (ne_price row, ne_amount_update row, ne_update_ts_us row))
        (filter (\<lambda>row. event_order row = event_order e \<and> \<not> feq (ne_amount_update row) 0) final))
    = image_mset (\<lambda>f. (ef_price f, ef_quantity f, ef_timestamp_us f))
        (mset_set {f. \<exists>rec \<in> set records.
           record_evidence stored sha portfolio exchange wanted roles rec = Inr (Some (event_order e, f))})"
proof -
  let ?rows = "filter (\<lambda>e'. event_order e' = event_order e) events"
  note wf = decode_fills_at(1) [OF assms(1)] decode_fills_priced [OF assms(1)]
  have some: "?rows \<noteq> []" using assms(3) by (auto simp: filter_empty_conv)
  obtain out where out: "replace_order fills (event_order e, ?rows) = Inr out"
    "filter (\<lambda>e'. event_order e' = event_order e) final = sort_key ne_record_key out"
    using replace_orders_order(2) [OF assms(2) wf assms(5) some] by blast
  have unpriced: "list_ex needs_price (sort_key ne_record_key ?rows)" using assms(3,4) by (auto simp: list_ex_iff)
  from out(1) obtain order where order: "bm_get fills (event_order e) = Some order"
      "out = map (recovered_row (hd (sort_key ne_record_key ?rows))) (bm_vals order)
        @ filter (\<lambda>e. feq (ne_amount_update e) 0) (sort_key ne_record_key ?rows)"
    by (cases rule: replace_order_cases) (use unpriced in blast)+
  have nonzero: "\<not> feq (ef_quantity f) 0" if "f \<in> set (bm_vals order)" for f
    using priced_evidence_vals [OF wf(2,1) order(1) that] by (auto simp: feq_def)
  have "filter (\<lambda>row. \<not> feq (ne_amount_update row) 0) out = map (recovered_row (hd (sort_key ne_record_key ?rows))) (bm_vals order)"
    unfolding order(2) using nonzero by (auto simp: filter_empty_conv recovered_row_def intro!: filter_True)
  then have "mset (filter (\<lambda>row. event_order row = event_order e \<and> \<not> feq (ne_amount_update row) 0) final)
      = mset (map (recovered_row (hd (sort_key ne_record_key ?rows))) (bm_vals order))"
    using arg_cong [OF out(2), of "\<lambda>xs. mset (filter (\<lambda>row. \<not> feq (ne_amount_update row) 0) xs)"]
    by (simp add: filter_sort conj_commute)
  then have "mset (map (\<lambda>row. (ne_price row, ne_amount_update row, ne_update_ts_us row))
        (filter (\<lambda>row. event_order row = event_order e \<and> \<not> feq (ne_amount_update row) 0) final))
      = image_mset (\<lambda>f. (ef_price f, ef_quantity f, ef_timestamp_us f)) (mset (bm_vals order))"
    by (simp add: recovered_row_def image_mset.compositionality comp_def)
  then show ?thesis using evidence_once [OF assms(1) order(1)] by (simp add: decoded_def)
qed

text \<open>
  C38: The evidence does not depend on the order in which the store lists the executions, nor on how
  often it lists one: records with the same content give the same evidence.
\<close>

theorem evidence_any_order:
  assumes "decode_fills stored sha portfolio exchange wanted roles records = Inr fills"
    and "set records' = set records"
  shows "decode_fills stored sha portfolio exchange wanted roles records' = Inr fills"
  using assms by (rule evidence_any_order_lemma)

subsection \<open>A concrete source\<close>

definition sample_unpriced :: nav_event where
  "sample_unpriced =
     \<lparr>ne_record_key = ''1'', ne_event_ts_us = 1, ne_create_ts_us = 1, ne_update_ts_us = 1, ne_signal_ts_us = 1,
      ne_symbol = ''FIL'', ne_client_order_id = 7, ne_venue_code = 0, ne_venue = ''BinanceMargin'', ne_order_type_code = 3,
      ne_side_code = 2, ne_price = Fin 0, ne_amount_update = Fin 1, ne_from_key_text = ''alpha'', ne_fill_liquidity = None\<rparr>"

definition sample_stored :: "bool \<Rightarrow> stored_execution" where
  "sample_stored rest =
     \<lparr>st_portfolio = ''1'', st_exchange = ''BINANCE'',
      st_execution = \<lparr>ex_transaction_id = ''a'', ex_order_id = ''88'', ex_client_order_id = ''7'', ex_symbol = ''BINANCE_SPOT_FIL_USDT'',
        ex_side = ''SELL'', ex_quantity = ''1'', ex_price = ''2'', ex_timestamp_ms = 100, ex_rest = rest\<rparr>\<rparr>"

text \<open>The same execution from the stream and from the query interface.\<close>

definition sample_reader :: stored_reader where
  "sample_reader bytes = Some (sample_stored (bytes = [1]))"

definition sample_records :: "(bytes \<times> bytes) list" where
  "sample_records = [([], [0]), ([], [1])]"

definition sample_fill :: evidence_fill where
  "sample_fill =
     \<lparr>ef_transaction_id = ''a'', ef_order_id = ''88'', ef_side_code = 2, ef_quantity = Fin 1, ef_price = Fin 2,
      ef_timestamp_us = 100000, ef_liquidity = None\<rparr>"

definition sample_key :: order_key where
  "sample_key = (''FIL'', 0, 7)"

definition sample_recovered :: nav_event where
  "sample_recovered = recovered_row sample_unpriced sample_fill"

definition sample_input :: evidence_input where
  "sample_input =
     \<lparr>ei_values = Some [(''LTP_PORTFOLIO_ID'', ''1''), (''TRADE_ENGINE_EXEC_BACKEND'', ''ltp'')], ei_records = Some sample_records,
      ei_data_dir = ''data'', ei_directory = (\<lambda>_. None)\<rparr>"

lemma repr_small: "is_repr 1" "is_repr 2"
  using is_repr_grid [of 1 0] is_repr_grid [of 2 0] by simp_all

text \<open>The numbers of the sample, exactly.\<close>

lemma sample_decimal_2: "parse_decimal ''2'' = Some 2" by code_simp

lemma sample_sign_2: "read_sign ''2'' = (False, ''2'')" by code_simp

lemma sample_decimal_1: "parse_decimal ''1'' = Some 1" by code_simp

lemma sample_sign_1: "read_sign ''1'' = (False, ''1'')" by code_simp

lemma sample_number_1: "parse_f64 ''1'' = Some (Fin 1)" using repr_small by (simp add: parse_f64_def sample_decimal_1 sample_sign_1 eq_ignore_case_def ascii_lower_def)

lemma sample_number_2: "parse_f64 ''2'' = Some (Fin 2)" using repr_small by (simp add: parse_f64_def sample_decimal_2 sample_sign_2 eq_ignore_case_def ascii_lower_def)

lemma f_sum1: "f_sum [Fin 1] = Fin 1" using repr_small by (simp add: f_sum_def f64_ops)

lemma f_sum2: "f_sum [Fin 2] = Fin 2" using repr_small by (simp add: f_sum_def f64_ops)

lemma within_tolerance: "Fin 1 \<le> Fin 1 + f_max \<bar>Fin 1\<bar> \<bar>Fin 1\<bar> * f_lit (1 / 10 ^ 12)"
proof -
  define t where "t = f_max \<bar>Fin 1\<bar> \<bar>Fin 1\<bar> * f_lit (1 / 10 ^ 12)"
  have m: "f_max \<bar>Fin 1\<bar> \<bar>Fin 1\<bar> = Fin 1" by (simp add: f_max_def f64_ops)
  have "0 \<le> t"
  proof -
    have nonneg: "0 \<le> Fin 1 * v" if "v = PosInf \<or> (\<exists>y. v = Fin y \<and> 0 \<le> y)" for v
      using that rnd_nonneg [of "f_val v"] by (auto simp: f64_ops less_le f_inf_def)
    show ?thesis unfolding t_def m f_lit_def by (rule nonneg, rule rnd_nonneg) simp
  qed
  then have "Fin 1 \<le> Fin 1 + t"
    using rnd_ge_repr [OF repr_small(1), of "1 + f_val t"] by (cases t) (auto simp: f64_ops less_le)
  then show ?thesis unfolding t_def .
qed

lemma sample_market: "execution_market ''BINANCE'' ''BINANCE_SPOT_FIL_USDT'' = Inr (''FIL'', 0)" by code_simp

lemma sample_i64: "parse_i64 ''7'' = Some 7" by code_simp

lemma sample_decodes:
  "decode_fills sample_reader (\<lambda>_. []) ''1'' ''BINANCE'' [sample_key] [] sample_records = Inr [(sample_key, [(''a'', sample_fill)])]"
proof -
  have e: "execution_fill (\<lambda>_. []) ''1'' ''BINANCE'' [] [] 7 (st_execution (sample_stored rest)) = Inr sample_fill" for rest
    by (simp add: execution_fill_def sample_stored_def sample_fill_def sample_number_1 sample_number_2 of_option_def in_i64_def i64_min_def i64_max_def)
  have d: "record_evidence sample_reader (\<lambda>_. []) ''1'' ''BINANCE'' [sample_key] [] ([], bytes) = Inr (Some (sample_key, sample_fill))" for bytes
    using e [of "bytes = [1]"] by (simp add: record_evidence_def sample_reader_def sample_key_def sample_market sample_i64 of_option_def rmap_def)
      (simp add: sample_stored_def sample_market sample_i64 rmap_def)
  show ?thesis
    by (simp add: decode_fills_def sample_records_def decode_execution_evidence d) (simp add: merge_fill_def sample_fill_def)
qed

lemma sample_replaces:
  "replace_orders [sample_unpriced] [sample_key] [(sample_key, [(''a'', sample_fill)])] = Inr [sample_recovered]"
proof -
  have k: "event_order sample_unpriced = sample_key" "needs_price sample_unpriced"
    by (simp_all add: event_order_def sample_unpriced_def sample_key_def needs_price_def) (simp_all add: f64_ops)
  have a: "ne_amount_update sample_unpriced = Fin 1" "\<not> feq (ne_amount_update sample_unpriced) 0" by (simp_all add: sample_unpriced_def f64_ops)
  have o: "replace_order [(sample_key, [(''a'', sample_fill)])] (sample_key, [sample_unpriced]) = Inr [sample_recovered]"
    using k a within_tolerance
    by (simp add: replace_order_def use_executions_def Let_def f_sum1 bm_vals_def sample_recovered_def of_option_def same_attribution_def)
      (simp add: sample_fill_def f_sum1 evidence_fits_def sample_unpriced_def same_attribution_def f64_ops rensure_def)
  show ?thesis using k o by (simp add: replace_orders_def bm_upsert_def)
qed

lemma sample_resolves:
  "fst (resolve_evidence sample_reader (\<lambda>_. None) (\<lambda>_. []) ((sample_source ''a'')\<lparr>sc_venue := ''binance-margin''\<rparr>)
     sample_input [sample_unpriced] journal_default) = Inr (Some [sample_recovered])"
proof -
  have b: "execution_backend ''binance-margin'' [(''LTP_PORTFOLIO_ID'', ''1''), (''TRADE_ENGINE_EXEC_BACKEND'', ''ltp'')] = Inr Ltp"
  proof -
    have "parse_backend ''ltp'' = Inr Ltp" by code_simp
    moreover have "filter (\<lambda>s. s \<noteq> []) (map trim (split_on (CHR '','') [])) = []" by code_simp
    ultimately show ?thesis by (simp add: execution_backend_def rule_exchange_def env_or_empty_def)
  qed
  have w: "wanted_orders [sample_unpriced] = [sample_key]"
    by (simp add: wanted_orders_def set_of_list_def bm_extend_def bm_keys_def)
      (simp add: event_order_def sample_unpriced_def sample_key_def internal_cross_order_type_code_def)
  have d: "digits_only ''1''" by code_simp
  have ne: "sample_recovered \<noteq> sample_unpriced" by (simp add: sample_recovered_def recovered_row_def sample_unpriced_def sample_fill_def)
  show ?thesis
    by (simp add: resolve_evidence_def sample_input_def b w evidence_scope_def d of_option_def evidence_exchange_def resolve_with_def
        journal_refresh_def journal_default_def sample_decodes sample_replaces events_eq_def ne)
qed

theorem evidence_any_order_witness:
  "decode_fills sample_reader (\<lambda>_. []) ''1'' ''BINANCE'' [sample_key] [] (rev sample_records @ sample_records)
     = Inr [(sample_key, [(''a'', sample_fill)])]"
  by (rule evidence_any_order [OF sample_decodes]) auto

theorem recovered_exactly_witness:
  "mset (map (\<lambda>row. (ne_price row, ne_amount_update row, ne_update_ts_us row))
        (filter (\<lambda>row. event_order row = event_order sample_unpriced \<and> \<not> feq (ne_amount_update row) 0) [sample_recovered]))
    = image_mset (\<lambda>f. (ef_price f, ef_quantity f, ef_timestamp_us f))
        (mset_set {f. \<exists>rec \<in> set sample_records.
           record_evidence sample_reader (\<lambda>_. []) ''1'' ''BINANCE'' [sample_key] [] rec = Inr (Some (event_order sample_unpriced, f))})"
proof (rule recovered_exactly [OF sample_decodes sample_replaces])
  show "needs_price sample_unpriced" by (simp add: sample_unpriced_def needs_price_def f64_ops)
  show "event_order sample_unpriced \<in> set [sample_key]" by (simp add: event_order_def sample_unpriced_def sample_key_def)
qed simp

theorem recovery_prices_fills_witness:
  "\<not> needs_price sample_recovered \<and> event_order sample_recovered = sample_key"
proof -
  have w: "event_order sample_recovered = sample_key" "sample_key \<in> set (wanted_orders [sample_unpriced])"
    by (simp_all add: sample_recovered_def recovered_row_def event_order_def sample_unpriced_def sample_key_def
        wanted_orders_def internal_cross_order_type_code_def)
  then show ?thesis using recovery_prices_fills [OF sample_resolves refl] by simp
qed

end
