(* ===== verification/Journal.thy ===== *)
theory Journal
  imports Evidence
begin

text \<open>
  The liquidity journal grows while it is read: what the incremental reader of
  \<open>nav/fill_recovery/liquidity_journal.rs\<close> keeps between two refreshes, and that it misses nothing.
\<close>

lemma read_line_append:
  assumes "read_line bs \<noteq> []" and "last (read_line bs) = newline"
  shows "read_line (bs @ added) = read_line bs"
  using assms by (induction bs) (auto split: if_splits)

lemma read_line_incomplete:
  assumes "read_line bs = [] \<or> last (read_line bs) \<noteq> newline"
  shows "read_line bs = bs \<and> newline \<notin> set bs"
  using assms by (induction bs) (auto split: if_splits)

lemma read_line_take_append:
  assumes "read_line (take n bs) \<noteq> []" and "last (read_line (take n bs)) = newline"
  shows "read_line (take n (bs @ added)) = read_line (take n bs)"
  using read_line_append [OF assms] by simp

lemma read_line_take_length: "length (read_line (take n bs)) \<le> length bs"
  using read_line_length [of "take n bs"] by simp

text \<open>The ways one turn of the reading loop goes.\<close>

lemma read_journal_success:
  assumes "read_journal json portfolio exchange s bs = (None, s')"
  defines "line \<equiv> read_line (take (max_line + 1) bs)"
  obtains (stop) "s' = s" "length line \<le> max_line" "line = [] \<or> last line \<noteq> newline"
  | (step) t where "line \<noteq> []" "last line = newline" "length line \<le> max_line"
      "jf_offset t = jf_offset s + length line" "jf_identity t = jf_identity s"
      "read_journal json portfolio exchange t (drop (length line) bs) = (None, s')"
      "\<And>added. read_journal json portfolio exchange s (bs @ added) = read_journal json portfolio exchange t (drop (length line) bs @ added)"
proof -
  note unfolded = assms(1) [unfolded read_journal.simps [of _ _ _ s bs], folded line_def, unfolded Let_def]
  have small: "length line \<le> max_line" using unfolded by (auto split: if_splits)
  show ?thesis
  proof (cases "line = [] \<or> last line \<noteq> newline")
    case True
    then show ?thesis using unfolded small stop by (auto split: if_splits)
  next
    case False
    have same: "read_line (take (max_line + 1) (bs @ added)) = line" for added
      using False unfolding line_def by (intro read_line_take_append) auto
    have len: "length line \<le> length bs" unfolding line_def by (rule read_line_take_length)
    show ?thesis
    proof (cases "parse_role json portfolio exchange line")
      case (Inl e)
      then show ?thesis using unfolded small False by auto
    next
      case (Inr found)
      show ?thesis
      proof (cases found)
        case None
        show ?thesis
        proof (rule step [of "s\<lparr>jf_offset := jf_offset s + length line\<rparr>"])
          show "read_journal json portfolio exchange s (bs @ added) =
              read_journal json portfolio exchange (s\<lparr>jf_offset := jf_offset s + length line\<rparr>) (drop (length line) bs @ added)" for added
            unfolding read_journal.simps [of _ _ _ s "bs @ added"] same Let_def using False small Inr None len by simp
        qed (use unfolded small False Inr None in auto)
      next
        case (Some r)
        show ?thesis
        proof (cases "merge_role (jf_roles s) r")
          case (Inl e)
          then show ?thesis using unfolded small False Inr Some \<open>parse_role json portfolio exchange line = Inr found\<close> by auto
        next
          case roles: (Inr roles)
          show ?thesis
          proof (rule step [of "s\<lparr>jf_offset := jf_offset s + length line, jf_roles := roles\<rparr>"])
            show "read_journal json portfolio exchange s (bs @ added) = read_journal json portfolio exchange
                (s\<lparr>jf_offset := jf_offset s + length line, jf_roles := roles\<rparr>) (drop (length line) bs @ added)" for added
              unfolding read_journal.simps [of _ _ _ s "bs @ added"] same Let_def using False small Inr Some roles len by simp
          qed (use unfolded small False Inr Some roles in auto)
        qed
      qed
    qed
  qed
qed

text \<open>A reading without error consumes exactly the complete lines.\<close>

lemma read_journal_consumed:
  "read_journal json portfolio exchange s bs = (None, s') \<Longrightarrow>
     jf_offset s \<le> jf_offset s' \<and> jf_offset s' - jf_offset s \<le> length bs \<and> jf_identity s' = jf_identity s
     \<and> newline \<notin> set (drop (jf_offset s' - jf_offset s) bs)"
proof (induction "length bs" arbitrary: s bs rule: less_induct)
  case less
  from less.prems show ?case
  proof (cases rule: read_journal_success)
    case stop
    have "length (read_line (take (max_line + 1) bs)) \<le> max_line" using stop by simp
    moreover have line: "read_line (take (max_line + 1) bs) = take (max_line + 1) bs \<and> newline \<notin> set (take (max_line + 1) bs)"
      using stop(3) by (rule read_line_incomplete)
    ultimately have "take (max_line + 1) bs = bs" by (cases "length bs \<le> max_line") auto
    then show ?thesis using stop(1) line by simp
  next
    case (step t)
    let ?n = "length (read_line (take (max_line + 1) bs))"
    have n: "0 < ?n" "?n \<le> length bs" using step(1) read_line_take_length by auto
    then have "length (drop ?n bs) < length bs" unfolding length_drop by linarith
    note IH = less.hyps [OF this step(6)]
    define k where "k = jf_offset s' - jf_offset t"
    have k: "jf_offset s' - jf_offset s = ?n + k" "k \<le> length bs - ?n" "newline \<notin> set (drop k (drop ?n bs))" "jf_offset s \<le> jf_offset s'"
      using IH step(4) unfolding k_def length_drop by linarith+
    have "drop k (drop ?n bs) = drop (?n + k) bs" by (simp add: add.commute)
    moreover have "?n + k \<le> length bs" using n(2) k(2) by linarith
    ultimately show ?thesis using IH step(5) k(3,4) unfolding k(1) by metis
  qed
qed

text \<open>A reading without error goes on, when the file has grown, where it stopped.\<close>

lemma read_journal_resume:
  "read_journal json portfolio exchange s bs = (None, s') \<Longrightarrow>
     read_journal json portfolio exchange s (bs @ added)
       = read_journal json portfolio exchange s' (drop (jf_offset s' - jf_offset s) bs @ added)"
proof (induction "length bs" arbitrary: s bs rule: less_induct)
  case less
  from less.prems show ?case
  proof (cases rule: read_journal_success)
    case (step t)
    let ?n = "length (read_line (take (max_line + 1) bs))"
    have n: "0 < ?n" "?n \<le> length bs" using step(1) read_line_take_length by auto
    have "jf_offset t \<le> jf_offset s'" using read_journal_consumed [OF step(6)] by blast
    then have "drop (jf_offset s' - jf_offset t) (drop ?n bs) = drop (jf_offset s' - jf_offset s) bs"
      using step(4) by (simp add: add.commute)
    moreover have "length (drop ?n bs) < length bs" using n unfolding length_drop by linarith
    ultimately show ?thesis using less.hyps [OF _ step(6)] step(7) by simp
  qed simp
qed

text \<open>
  C40: Reading a journal file ends for every content of the file, at its first bad line or after its
  last complete line: the offset kept for the next refresh lies within the file and no complete line
  is left behind it.
\<close>

theorem journal_read_ends:
  "case refresh_file json portfolio exchange known (identity, content) of
     (Some _, _) \<Rightarrow> True
   | (None, s) \<Rightarrow> jf_offset s \<le> length content \<and> jf_identity s = identity \<and> newline \<notin> set (drop (jf_offset s) content)"
proof (cases "refresh_file json portfolio exchange known (identity, content)")
  case (Pair failed s)
  obtain s0 where s0: "read_journal json portfolio exchange s0 (drop (jf_offset s0) content) = (failed, s)"
    "jf_offset s0 \<le> length content" "jf_identity s0 = identity"
    using Pair unfolding refresh_file_def by (fastforce simp: Let_def split: option.splits if_splits)
  show ?thesis
  proof (cases failed)
    case None
    note c = read_journal_consumed [OF s0(1) [unfolded None]]
    then have "drop (jf_offset s - jf_offset s0) (drop (jf_offset s0) content) = drop (jf_offset s) content" by simp
    then show ?thesis using c s0(2,3) Pair None by auto
  qed (use Pair in simp)
qed

text \<open>
  C39: A journal read in pieces is the journal read at once: after a reading without error, the refresh of
  a file that grew, of one that was truncated below the bytes already read and of one that was replaced
  by another file each end with the roles, offset and error of a first reading of the file as it is now.
\<close>

theorem journal_incremental:
  assumes "refresh_file json portfolio exchange None (identity, content) = (None, s)"
    and "(identity' = identity \<and> (\<exists>added. content' = content @ added)) \<or> identity' \<noteq> identity \<or> length content' < jf_offset s"
  shows "refresh_file json portfolio exchange (Some s) (identity', content')
       = refresh_file json portfolio exchange None (identity', content')"
proof -
  let ?fresh = "\<lparr>jf_identity = identity, jf_offset = 0, jf_roles = []\<rparr>"
  have r: "read_journal json portfolio exchange ?fresh content = (None, s)" using assms(1) by (simp add: refresh_file_def)
  note c = read_journal_consumed [OF r]
  show ?thesis
  proof (cases "identity' \<noteq> jf_identity s \<or> length content' < jf_offset s")
    case True
    then show ?thesis by (auto simp: refresh_file_def)
  next
    case False
    then obtain added where "identity' = identity" "content' = content @ added" using assms(2) c by auto
    then show ?thesis using read_journal_resume [OF r, of added] c by (simp add: refresh_file_def)
  qed
qed

text \<open>A file of one complete line and the beginning of another, then finished.\<close>

definition sample_line :: bytes where
  "sample_line = [1, newline]"

lemma sample_journal: "refresh_file (\<lambda>_. None) ''1'' ''BINANCE'' None ((1, 1), sample_line @ [2])
   = (None, \<lparr>jf_identity = (1, 1), jf_offset = 2, jf_roles = []\<rparr>)"
proof -
  have n: "newline \<noteq> 1" "newline \<noteq> 2" by (simp_all add: newline_def)
  have m: "take (Suc max_line) bs = bs" if "length bs \<le> 3" for bs :: bytes using that by (simp add: max_line_def)
  have p: "parse_role (\<lambda>_. None) ''1'' ''BINANCE'' sample_line = Inr None" by (simp add: parse_role_def sample_line_def exec_type_field_def utf8_def)
  show ?thesis using n p
    by (simp add: refresh_file_def sample_line_def read_journal.simps [of _ _ _ _ "[1, newline, 2]"] read_journal.simps [of _ _ _ _ "[2]"] m Let_def max_line_def)
qed

theorem journal_incremental_witness:
  "refresh_file (\<lambda>_. None) ''1'' ''BINANCE'' (Some \<lparr>jf_identity = (1, 1), jf_offset = 2, jf_roles = []\<rparr>) ((1, 1), (sample_line @ [2]) @ [newline])
     = refresh_file (\<lambda>_. None) ''1'' ''BINANCE'' None ((1, 1), (sample_line @ [2]) @ [newline])"
  by (rule journal_incremental [OF sample_journal]) blast

end
