(* ===== verification/History.thy ===== *)
theory History
  imports Refresh Dashboard Journal
begin

text \<open>
  The reader of execution histories (\<open>nav.rs\<close>): the full load of a source and the incremental store,
  which scans each column family from a little before its last key, merges what it has not seen and
  publishes the history with the change since the last one. A RocksDB is the list of its records in
  key order (\<open>rocks_source.rs\<close>).
\<close>

subsection \<open>The database\<close>

type_synonym raw_record = "bytes \<times> bytes"

record source_db =
  sd_current :: bool
  sd_readable :: bool
  sd_identity :: "bytes option"
  sd_families :: "(string, raw_record list) bmap"

definition uniform_orders_cf :: string where
  "uniform_orders_cf = ''uniform_orders''"

definition trade_updates_cf :: string where
  "trade_updates_cf = ''trade_updates''"

definition trade_updates_unmatched_cf :: string where
  "trade_updates_unmatched_cf = ''trade_updates_unmatched''"

definition nav_history_column_families :: "string list" where
  "nav_history_column_families = [uniform_orders_cf, trade_updates_cf, trade_updates_unmatched_cf]"

definition nav_history_scan_overlap_us :: i64 where
  "nav_history_scan_overlap_us = 300 * 1000000"

definition format_time_key :: "i64 \<Rightarrow> bytes" where
  "format_time_key ts = utf8 (show_padded 20 ts)"

text \<open>The available families, each from an optional inclusive key.\<close>

definition read_column_families_from :: "source_db \<Rightarrow> (string \<times> bytes option) list \<Rightarrow> (string, raw_record list) bmap" where
  "read_column_families_from db requests =
     foldl (\<lambda>result (name, start). case bm_get (sd_families db) name of
         None \<Rightarrow> result
       | Some records \<Rightarrow> bm_insert name (case start of None \<Rightarrow> records | Some k \<Rightarrow> dropWhile (\<lambda>r. fst r < k) records) result) [] requests"

definition read_available_column_families :: "source_db \<Rightarrow> string list \<Rightarrow> (string, raw_record list) bmap" where
  "read_available_column_families db names = read_column_families_from db (map (\<lambda>name. (name, None)) names)"

datatype history_error =
    Unreadable | NoUniformOrders | UndecodableOrder bytes decode_error | KeyText bytes | KeyTimestamp bytes
  | HistoryEvidence evidence_error | HistoryRoles nav_error | HistorySelection nav_error

definition parse_record_key_ts :: "bytes \<Rightarrow> history_error + i64" where
  "parse_record_key_ts key =
     rbind (rensure (utf8_valid key) (KeyText key)) (\<lambda>_. of_option (KeyTimestamp key) (parse_i64 (chars_of key)))"

definition decode_event :: "raw_record \<Rightarrow> history_error + nav_event" where
  "decode_event r = rmap nav_event_from (rmap_err (UndecodableOrder (fst r)) (decode_uniform_order (fst r) (snd r)))"

subsection \<open>The full load\<close>

text \<open>What recovery of fills uses beside the history: parameters and the input of the source.\<close>

record recovery =
  rc_stored :: stored_reader
  rc_json :: json_reader
  rc_sha :: "bytes \<Rightarrow> bytes"
  rc_input :: evidence_input

definition recover :: "recovery \<Rightarrow> source_config \<Rightarrow> nav_event list \<Rightarrow> liquidity_journal
    \<Rightarrow> (evidence_error + nav_event list option) \<times> liquidity_journal" where
  "recover rc source events journal =
     resolve_evidence (rc_stored rc) (rc_json rc) (rc_sha rc) source (rc_input rc) events journal"

definition default_history :: nav_source_history where
  "default_history = \<lparr>nh_allocations = [], nh_events = [], nh_liquidity_by_order = [], nh_revision = 0, nh_change = None\<rparr>"

definition decode_liquidity_by_order :: "(string, raw_record list) bmap \<Rightarrow> history_error + liquidity_by_order" where
  "decode_liquidity_by_order records = rmap fst (rmap_err HistoryRoles (merge_liquidity_records [] (bm_vals records)))"

definition load_source_history :: "recovery \<Rightarrow> source_config \<Rightarrow> source_db \<Rightarrow> history_error + nav_source_history" where
  "load_source_history rc source db =
     rbind (rensure (sd_readable db) Unreadable) (\<lambda>_.
     (let records = read_available_column_families db nav_history_column_families
      in rbind (of_option NoUniformOrders (bm_get records uniform_orders_cf)) (\<lambda>uniform.
         rbind (rmapM decode_event uniform) (\<lambda>events.
         rbind (rmap_err HistoryEvidence (fst (recover rc source events journal_default))) (\<lambda>recovered.
         rbind (decode_liquidity_by_order (bm_remove uniform_orders_cf records)) (\<lambda>roles.
         Inr (default_history\<lparr>nh_events := (case recovered of None \<Rightarrow> events | Some es \<Rightarrow> es), nh_liquidity_by_order := roles\<rparr>)))))))"

definition load_nav_source_histories ::
    "(source_config \<Rightarrow> recovery) \<Rightarrow> (source_config \<Rightarrow> source_db) \<Rightarrow> source_config list \<Rightarrow> string list \<Rightarrow> history_error + histories" where
  "load_nav_source_histories rc db config selected_ids =
     rbind (rmap_err HistorySelection (select_sources config selected_ids)) (\<lambda>selected.
     rfold (\<lambda>histories source.
         rbind (if sd_current (db source) then load_source_history (rc source) source (db source) else Inr default_history) (\<lambda>h.
         Inr (bm_insert (sc_id source) h histories))) [] selected)"

subsection \<open>The incremental store\<close>

record family_checkpoint =
  fc_last_record_ts_us :: "i64 option"
  fc_seen_keys :: "bytes list"

definition family_checkpoint_default :: family_checkpoint where
  "family_checkpoint_default = \<lparr>fc_last_record_ts_us = None, fc_seen_keys = []\<rparr>"

definition overlap_start :: "i64 \<Rightarrow> bytes" where
  "overlap_start last_ts = format_time_key (wrap64 (last_ts - nav_history_scan_overlap_us))"

definition scan_start_key :: "family_checkpoint \<Rightarrow> bytes option" where
  "scan_start_key c = map_option overlap_start (fc_last_record_ts_us c)"

record incremental =
  ih_db_identity :: "bytes option"
  ih_checkpoints :: "(string, family_checkpoint) bmap"
  ih_history :: nav_source_history
  ih_raw_events :: "nav_event list option"
  ih_journal :: liquidity_journal
  ih_legacy_fill_times :: "(order_key, i64) bmap"

definition incremental_default :: incremental where
  "incremental_default =
     \<lparr>ih_db_identity = None, ih_checkpoints = [], ih_history = default_history, ih_raw_events = None,
      ih_journal = journal_default, ih_legacy_fill_times = []\<rparr>"

text \<open>Decoded first, committed later: the new events, the new trade records, and the keys and last time scanned.\<close>

record scan_buffers =
  sb_new_events :: "nav_event list"
  sb_new_trades :: "(string, raw_record list) bmap"
  sb_scanned :: "(string, bytes list \<times> i64 option) bmap"

definition seen_keys :: "(string, family_checkpoint) bmap \<Rightarrow> string \<Rightarrow> bytes list" where
  "seen_keys checkpoints name = (case bm_get checkpoints name of None \<Rightarrow> [] | Some c \<Rightarrow> fc_seen_keys c)"

definition scan_family :: "(string, family_checkpoint) bmap \<Rightarrow> scan_buffers \<Rightarrow> string \<times> raw_record list \<Rightarrow> history_error + scan_buffers" where
  "scan_family checkpoints b scan =
     (case scan of (name, records) \<Rightarrow>
        let fresh = filter (\<lambda>r. fst r \<notin> set (seen_keys checkpoints name)) records
        in rbind (if name = uniform_orders_cf
                  then rmap (\<lambda>es. b\<lparr>sb_new_events := sb_new_events b @ es\<rparr>) (rmapM decode_event fresh)
                  else Inr (if fresh = [] then b else b\<lparr>sb_new_trades := bm_insert name fresh (sb_new_trades b)\<rparr>)) (\<lambda>b.
           rbind (if records = [] then Inr None else rmap Some (parse_record_key_ts (fst (last records)))) (\<lambda>last_ts.
           Inr (b\<lparr>sb_scanned := bm_insert name (set_of_list (map fst records), last_ts) (sb_scanned b)\<rparr>))))"

definition requests :: "(string, family_checkpoint) bmap \<Rightarrow> (string \<times> bytes option) list" where
  "requests checkpoints =
     map (\<lambda>name. (name, case bm_get checkpoints name of None \<Rightarrow> None | Some c \<Rightarrow> scan_start_key c)) nav_history_column_families"

definition scan_families :: "(string, family_checkpoint) bmap \<Rightarrow> source_db \<Rightarrow> history_error + scan_buffers" where
  "scan_families checkpoints db =
     rbind (rensure (sd_readable db) Unreadable) (\<lambda>_.
     (let scans = read_column_families_from db (requests checkpoints)
      in rbind (rensure (bm_contains scans uniform_orders_cf) NoUniformOrders) (\<lambda>_.
         rfold (scan_family checkpoints) \<lparr>sb_new_events = [], sb_new_trades = [], sb_scanned = []\<rparr> scans)))"

definition combined_events :: "incremental \<Rightarrow> nav_event list \<Rightarrow> nav_event list" where
  "combined_events s new_events = (case ih_raw_events s of None \<Rightarrow> nh_events (ih_history s) | Some es \<Rightarrow> es) @ new_events"

text \<open>The projection that replaces the events, when recovery changed more than appending the new ones.\<close>

definition recovered_events :: "incremental \<Rightarrow> nav_event list \<Rightarrow> nav_event list option \<Rightarrow> nav_event list option" where
  "recovered_events s new_events recovered =
     (if recovered \<noteq> None \<or> ih_raw_events s \<noteq> None
      then let appended = sort_key ne_record_key (nh_events (ih_history s) @ new_events);
               projection = (case recovered of Some es \<Rightarrow> es | None \<Rightarrow> combined_events s new_events)
           in if events_eq projection appended then None else Some projection
      else None)"

definition earliest_fill :: "(order_key, i64) bmap \<Rightarrow> order_key list \<Rightarrow> i64 option" where
  "earliest_fill observed changed =
     (case List.map_filter (bm_get observed) changed of [] \<Rightarrow> None | t # ts \<Rightarrow> Some (foldl min t ts))"

definition publish_change ::
    "nav_source_history \<Rightarrow> nat \<Rightarrow> bool \<Rightarrow> nav_event list \<Rightarrow> order_key list \<Rightarrow> i64 option \<Rightarrow> nav_source_history \<times> nat" where
  "publish_change h revision replaced new_events changed earliest =
     (if replaced then (h\<lparr>nh_change := None, nh_revision := revision\<rparr>, revision + 1)
      else if new_events \<noteq> [] \<or> changed \<noteq> []
      then (h\<lparr>nh_change := Some \<lparr>hc_previous_revision = nh_revision h, hc_events = new_events,
                 hc_earliest_liquidity_fill_ts_us = earliest\<rparr>, nh_revision := revision\<rparr>, revision + 1)
      else (h, revision))"

definition out_of_order :: "nav_event list \<Rightarrow> nav_event list \<Rightarrow> bool" where
  "out_of_order events new_events \<longleftrightarrow> events \<noteq> [] \<and> new_events \<noteq> [] \<and> ne_record_key (hd new_events) < ne_record_key (last events)"

definition next_events :: "nav_event list \<Rightarrow> nav_event list \<Rightarrow> nav_event list option \<Rightarrow> nav_event list" where
  "next_events events new_events replaced =
     (case replaced of Some es \<Rightarrow> es
      | None \<Rightarrow> if out_of_order events new_events then sort_key ne_record_key (events @ new_events) else events @ new_events)"

definition note_legacy_fill :: "(order_key, i64) bmap \<Rightarrow> nav_event \<Rightarrow> (order_key, i64) bmap" where
  "note_legacy_fill observed e =
     (if ne_fill_liquidity e = None \<and> 0 < ne_amount_update e
      then bm_modify_or (event_order e) (\<lambda>old. min old (fifo_ts_us e)) (fifo_ts_us e) observed else observed)"

definition merge_checkpoint :: "family_checkpoint option \<Rightarrow> bytes list \<Rightarrow> i64 option \<Rightarrow> family_checkpoint" where
  "merge_checkpoint known keys last_ts =
     (let c = (case known of None \<Rightarrow> family_checkpoint_default | Some c \<Rightarrow> c);
          seen = set_of_list (fc_seen_keys c @ keys)
      in case last_ts of
           None \<Rightarrow> c\<lparr>fc_seen_keys := seen\<rparr>
         | Some ts \<Rightarrow> \<lparr>fc_last_record_ts_us = Some ts,
                       fc_seen_keys = filter (\<lambda>k. overlap_start ts \<le> k) seen\<rparr>)"

definition update_checkpoint :: "(string, family_checkpoint) bmap \<Rightarrow> string \<times> bytes list \<times> i64 option \<Rightarrow> (string, family_checkpoint) bmap" where
  "update_checkpoint checkpoints scanned =
     (case scanned of (name, keys, last_ts) \<Rightarrow>
        bm_insert name (merge_checkpoint (bm_get checkpoints name) keys last_ts) checkpoints)"

text \<open>The commit, after every scan and decode has succeeded.\<close>

definition commit_refresh ::
    "incremental \<Rightarrow> nat \<Rightarrow> bytes option \<Rightarrow> scan_buffers \<Rightarrow> nav_event list option \<Rightarrow> liquidity_by_order \<Rightarrow> order_key list \<Rightarrow> incremental \<times> nat" where
  "commit_refresh s revision identity b recovered roles changed =
     (let new_events = sb_new_events b;
          replaced = recovered_events s new_events recovered;
          earliest = earliest_fill (ih_legacy_fill_times s) changed;
          h = ih_history s
      in case publish_change h revision (replaced \<noteq> None) new_events changed earliest of
           (h', revision') \<Rightarrow>
             (s\<lparr>ih_history := h'\<lparr>nh_liquidity_by_order := roles, nh_events := next_events (nh_events h) new_events replaced\<rparr>,
                ih_raw_events := (if recovered \<noteq> None \<or> ih_raw_events s \<noteq> None then Some (combined_events s new_events) else None),
                ih_legacy_fill_times :=
                  (case replaced of Some es \<Rightarrow> foldl note_legacy_fill [] es
                   | None \<Rightarrow> foldl note_legacy_fill (ih_legacy_fill_times s) new_events),
                ih_checkpoints := foldl update_checkpoint (ih_checkpoints s) (sb_scanned b),
                ih_db_identity := identity\<rparr>, revision'))"

definition recreated :: "incremental \<Rightarrow> source_db \<Rightarrow> bool" where
  "recreated s db \<longleftrightarrow> sd_identity db \<noteq> None \<and> ih_db_identity s \<noteq> None \<and> ih_db_identity s \<noteq> sd_identity db"

definition refresh_source ::
    "recovery \<Rightarrow> source_config \<Rightarrow> source_db \<Rightarrow> incremental \<times> nat \<Rightarrow> (history_error + unit) \<times> incremental \<times> nat" where
  "refresh_source rc source db state =
     (case state of (s0, revision) \<Rightarrow>
        let s = (if recreated s0 db then incremental_default else s0)
        in case scan_families (ih_checkpoints s) db of
             Inl e \<Rightarrow> (Inl e, s, revision)
           | Inr b \<Rightarrow>
               (case recover rc source (combined_events s (sb_new_events b)) (ih_journal s) of
                  (Inl e, journal) \<Rightarrow> (Inl (HistoryEvidence e), s\<lparr>ih_journal := journal\<rparr>, revision)
                | (Inr recovered, journal) \<Rightarrow>
                    let s = s\<lparr>ih_journal := journal\<rparr>
                    in case merge_liquidity_records (nh_liquidity_by_order (ih_history s)) (bm_vals (sb_new_trades b)) of
                         Inl e \<Rightarrow> (Inl (HistoryRoles e), s, revision)
                       | Inr (roles, changed) \<Rightarrow> (Inr (), commit_refresh s revision (sd_identity db) b recovered roles changed)))"

text \<open>The store: one incremental history per enabled source with a database; a failure keeps what was read before it.\<close>

fun refresh_sources ::
    "(source_config \<Rightarrow> recovery) \<Rightarrow> (source_config \<Rightarrow> source_db) \<Rightarrow> source_config list
      \<Rightarrow> (string, incremental) bmap \<times> nat \<Rightarrow> histories \<Rightarrow> (history_error + histories) \<times> (string, incremental) bmap \<times> nat" where
  "refresh_sources rc db [] state histories = (Inr histories, state)"
| "refresh_sources rc db (source # sources) (store, revision) histories =
     (if \<not> sd_current (db source)
      then refresh_sources rc db sources (bm_remove (sc_id source) store, revision) (bm_insert (sc_id source) default_history histories)
      else let s = (case bm_get store (sc_id source) of None \<Rightarrow> incremental_default | Some s \<Rightarrow> s)
           in case refresh_source (rc source) source (db source) (s, revision) of
                (Inl e, s', revision') \<Rightarrow> (Inl e, bm_insert (sc_id source) s' store, revision')
              | (Inr _, s', revision') \<Rightarrow>
                  refresh_sources rc db sources (bm_insert (sc_id source) s' store, revision') (bm_insert (sc_id source) (ih_history s') histories))"

definition store_refresh ::
    "(source_config \<Rightarrow> recovery) \<Rightarrow> (source_config \<Rightarrow> source_db) \<Rightarrow> source_config list
      \<Rightarrow> (string, incremental) bmap \<times> nat \<Rightarrow> (history_error + histories) \<times> (string, incremental) bmap \<times> nat" where
  "store_refresh rc db config state =
     (case select_sources config [] of
        Inl e \<Rightarrow> (Inl (HistorySelection e), state)
      | Inr selected \<Rightarrow>
          refresh_sources rc db selected (bm_retain (\<lambda>i _. i \<in> sc_id ` set selected) (fst state), snd state) [])"

subsection \<open>What a history is asked\<close>

definition funding_start :: "nav_event \<Rightarrow> i64 option" where
  "funding_start e = find (\<lambda>ts. 0 < ts) [ne_create_ts_us e, ne_event_ts_us e, ne_update_ts_us e]"

definition funding_symbols :: "nav_source_history \<Rightarrow> (string, i64) bmap" where
  "funding_symbols h =
     foldl (\<lambda>symbols e.
       if ne_venue_code e = 1 \<and> (ends_with ''USDT'' (ne_symbol e) \<or> ends_with ''USDC'' (ne_symbol e))
       then (case funding_start e of None \<Rightarrow> symbols | Some start \<Rightarrow> bm_min (ne_symbol e) start symbols)
       else symbols) [] (nh_events h)"

definition estimated_fee_quote :: "nav_source_history \<Rightarrow> source_config \<Rightarrow> nav_event \<Rightarrow> nav_error + f64" where
  "estimated_fee_quote h source e =
     rbind (rmap_err NavConfig (nav_fee_rates source)) (\<lambda>rates.
     let rate = (case liquidity_role_for_event e (nh_liquidity_by_order h) of
                   Maker \<Rightarrow> fst (for_symbol rates (ne_symbol e))
                 | InternalCross \<Rightarrow> 0
                 | _ \<Rightarrow> snd (for_symbol rates (ne_symbol e)));
         fee = ne_price e * ne_amount_update e * rate
     in rbind (rensure (is_fin fee) FeeOverflow) (\<lambda>_. Inr fee))"

definition liquidity_role_name :: "nav_source_history \<Rightarrow> nav_event \<Rightarrow> string" where
  "liquidity_role_name h e =
     (case liquidity_role_for_event e (nh_liquidity_by_order h) of
        Maker \<Rightarrow> ''maker'' | Taker \<Rightarrow> ''taker'' | Unknown \<Rightarrow> ''unclassified'' | InternalCross \<Rightarrow> ''internal_cross'')"

subsection \<open>Trade records\<close>

lemma merge_fold:
  assumes "rfold (\<lambda>st (key, payload). rbind (rmap_err NavDecode (decode_trade_update key payload)) (\<lambda>e. Inr (merge_liquidity_record st e)))
      st records = Inr st'"
  shows "\<exists>es. rmapM (\<lambda>(key, payload). decode_trade_update key payload) records = Inr es \<and> foldl merge_liquidity_record st es = st'"
  using assms
proof (induction records arbitrary: st)
  case (Cons r records)
  obtain key payload where r: "r = (key, payload)" by fastforce
  then obtain e where e: "decode_trade_update key payload = Inr e"
    "rfold (\<lambda>st (key, payload). rbind (rmap_err NavDecode (decode_trade_update key payload)) (\<lambda>e. Inr (merge_liquidity_record st e)))
      (merge_liquidity_record st e) records = Inr st'"
    using Cons.prems by (auto simp: rbind_Inr_iff rmap_err_Inr_iff)
  show ?case using Cons.IH [OF e(2)] e(1) by (auto simp: r)
qed simp

lemma merge_record_wf: "bm_wf (fst st) \<Longrightarrow> bm_wf (fst (merge_liquidity_record st e))"
  by (cases st) (auto simp: merge_liquidity_record_def Let_def split: option.split)

lemma merge_records:
  assumes "merge_liquidity_records roles families = Inr (roles', changed)"
  obtains es where "rmapM (\<lambda>(key, payload). decode_trade_update key payload) (concat families) = Inr es"
    "\<And>k. bm_get roles' k = evidence (set_option (bm_get roles k) \<union> observed_roles k es)"
    "\<And>k. k \<in> set changed \<longleftrightarrow> bm_get roles' k \<noteq> bm_get roles k"
    "bm_wf roles \<Longrightarrow> bm_wf roles'"
proof -
  obtain c where c: "rfold (\<lambda>st (key, payload). rbind (rmap_err NavDecode (decode_trade_update key payload)) (\<lambda>e. Inr (merge_liquidity_record st e)))
      (roles, []) (concat families) = Inr (roles', c)" "changed = set_of_list c"
    using assms by (auto simp: merge_liquidity_records_def rmap_Inr_iff)
  obtain es where es: "rmapM (\<lambda>(key, payload). decode_trade_update key payload) (concat families) = Inr es"
    "foldl merge_liquidity_record (roles, []) es = (roles', c)" using merge_fold [OF c(1)] by blast
  have wf: "bm_wf (fst st) \<Longrightarrow> bm_wf (fst (foldl merge_liquidity_record st es))" for st
    by (induction es arbitrary: st) (simp_all add: merge_record_wf)
  show ?thesis
    by (rule that [OF es(1)]) (use merge_fold_evidence [OF es(2)] c(2) wf [of "(roles, [])"] es(2) in auto)
qed

subsection \<open>First fills without a role\<close>

definition covers :: "(order_key, i64) bmap \<Rightarrow> nav_event list \<Rightarrow> bool" where
  "covers fill_times es \<longleftrightarrow> (\<forall>e \<in> set es. ne_fill_liquidity e = None \<and> 0 < ne_amount_update e
     \<longrightarrow> (\<exists>t. bm_get fill_times (event_order e) = Some t \<and> t \<le> fifo_ts_us e))"

lemma note_legacy_keeps:
  "bm_get fill_times k = Some t \<Longrightarrow> \<exists>t'. bm_get (note_legacy_fill fill_times e) k = Some t' \<and> t' \<le> t"
  by (auto simp: note_legacy_fill_def bm_get_modify_or)

lemma note_legacy_covers: "covers fill_times es \<Longrightarrow> covers (note_legacy_fill fill_times e) (es @ [e])"
  using note_legacy_keeps unfolding covers_def
  by (fastforce simp: note_legacy_fill_def bm_get_modify_or split: option.split)

lemma legacy_fold_covers: "covers fill_times es \<Longrightarrow> covers (foldl note_legacy_fill fill_times news) (es @ news)"
proof (induction news arbitrary: fill_times es)
  case (Cons e news)
  then show ?case using Cons.IH [OF note_legacy_covers [OF Cons.prems]] by simp
qed simp

lemma covers_mono: "covers fill_times es \<Longrightarrow> set es' \<subseteq> set es \<Longrightarrow> covers fill_times es'"
  by (auto simp: covers_def)

lemma foldl_min_le: "foldl min (t :: int) ts \<le> t \<and> (\<forall>x \<in> set ts. foldl min t ts \<le> x)"
  by (induction ts arbitrary: t) (simp, fastforce)

lemma earliest_fill_le:
  assumes "k \<in> set changed" and "bm_get fill_times k = Some t"
  shows "\<exists>m. earliest_fill fill_times changed = Some m \<and> m \<le> t"
proof -
  have mem: "t \<in> set (List.map_filter (bm_get fill_times) changed)"
    using assms by (force simp: map_filter_def)
  then obtain x xs where x: "List.map_filter (bm_get fill_times) changed = x # xs"
    by (cases "List.map_filter (bm_get fill_times) changed") auto
  then have "foldl min x xs \<le> t" using mem foldl_min_le [of x xs] by auto
  then show ?thesis using x by (simp add: earliest_fill_def)
qed

subsection \<open>What the published histories promise each other\<close>

text \<open>The history of a source, as the events and roles of one moment and the change since another.\<close>

definition grown :: "nav_source_history \<Rightarrow> nav_source_history \<Rightarrow> history_change \<Rightarrow> bool" where
  "grown h0 h change \<longleftrightarrow> mset (nh_events h) = mset (nh_events h0 @ hc_events change)
     \<and> list_all (\<lambda>e. (\<exists>sd. validated_fill_side e = Inr (Some sd))
          \<and> liquidity_role_for_event e (nh_liquidity_by_order h) \<noteq> liquidity_role_for_event e (nh_liquidity_by_order h0)
          \<longrightarrow> (case hc_earliest_liquidity_fill_ts_us change of None \<Rightarrow> False | Some t \<Rightarrow> t \<le> fifo_ts_us e)) (nh_events h0)"

definition same_content :: "nav_source_history \<Rightarrow> nav_source_history \<Rightarrow> bool" where
  "same_content h h' \<longleftrightarrow> nh_events h = nh_events h' \<and> nh_liquidity_by_order h = nh_liquidity_by_order h'"

lemma grown_same: "grown h0 h change \<Longrightarrow> same_content h0 h0' \<Longrightarrow> grown h0' h change"
  by (simp add: grown_def same_content_def)

lemma validated_amount: "validated_fill_side e = Inr (Some sd) \<Longrightarrow> 0 < ne_amount_update e"
  by (cases "ne_amount_update e") (auto simp: validated_fill_side_def f64_ops split: if_splits)

text \<open>A change that appends new events and roles.\<close>

lemma appended_grown:
  assumes m: "merge_liquidity_records (nh_liquidity_by_order h) families = Inr (roles, changed)"
    and c: "covers fill_times (nh_events h)"
    and e: "mset es = mset (nh_events h @ news)"
  shows "grown h (h\<lparr>nh_change := x, nh_revision := r, nh_liquidity_by_order := roles, nh_events := es\<rparr>)
    \<lparr>hc_previous_revision = p, hc_events = news, hc_earliest_liquidity_fill_ts_us = earliest_fill fill_times changed\<rparr>"
proof -
  obtain ts where ch: "\<And>k. k \<in> set changed \<longleftrightarrow> bm_get roles k \<noteq> bm_get (nh_liquidity_by_order h) k"
    using merge_records [OF m] by metis
  have "(case earliest_fill fill_times changed of None \<Rightarrow> False | Some t \<Rightarrow> t \<le> fifo_ts_us e)"
    if mem: "e \<in> set (nh_events h)" and side: "validated_fill_side e = Inr (Some sd)"
      and role: "liquidity_role_for_event e roles \<noteq> liquidity_role_for_event e (nh_liquidity_by_order h)" for e sd
  proof -
    have legacy: "ne_fill_liquidity e = None" "bm_get roles (event_order e) \<noteq> bm_get (nh_liquidity_by_order h) (event_order e)"
      using role by (auto simp: liquidity_role_for_event_def event_order_def split: option.splits fill_liquidity.splits if_splits)
    then obtain t where t: "bm_get fill_times (event_order e) = Some t" "t \<le> fifo_ts_us e"
      using c mem validated_amount [OF side] unfolding covers_def by blast
    then show ?thesis using earliest_fill_le [OF _ t(1), of changed] legacy(2) ch by fastforce
  qed
  then show ?thesis using e by (auto simp: grown_def list_all_iff)
qed

definition histories_agree :: "nat \<Rightarrow> nav_source_history set \<Rightarrow> bool" where
  "histories_agree revision hs \<longleftrightarrow>
     (\<forall>h \<in> hs. nh_revision h < revision \<and> bm_wf (nh_liquidity_by_order h)
        \<and> (nh_revision h = 0 \<longrightarrow> nh_events h = [] \<and> nh_liquidity_by_order h = [])
        \<and> (\<forall>change. nh_change h = Some change \<longrightarrow> hc_previous_revision change < nh_revision h
              \<and> (\<forall>h0 \<in> hs. nh_revision h0 = hc_previous_revision change \<longrightarrow> grown h0 h change)))
   \<and> (\<forall>h \<in> hs. \<forall>h' \<in> hs. nh_revision h = nh_revision h' \<longrightarrow> same_content h h')"

text \<open>The state of a reader and the histories it published.\<close>

definition reader_ok :: "incremental \<Rightarrow> nat \<Rightarrow> nav_source_history list \<Rightarrow> bool" where
  "reader_ok s revision hs \<longleftrightarrow> histories_agree revision (insert default_history (insert (ih_history s) (set hs)))
     \<and> covers (ih_legacy_fill_times s) (nh_events (ih_history s))"

lemma histories_agree_mono: "histories_agree revision hs \<Longrightarrow> revision \<le> revision' \<Longrightarrow> hs' \<subseteq> hs \<Longrightarrow> histories_agree revision' hs'"
  unfolding histories_agree_def by (meson order_less_le_trans subsetD)

text \<open>A history with a fresh revision joins those that agree.\<close>

lemma histories_agree_insert:
  assumes hs: "histories_agree revision hs" and h: "nh_revision h = revision" "0 < revision" "bm_wf (nh_liquidity_by_order h)"
    and change: "\<forall>change. nh_change h = Some change \<longrightarrow> hc_previous_revision change < revision
      \<and> (\<forall>h0 \<in> hs. nh_revision h0 = hc_previous_revision change \<longrightarrow> grown h0 h change)"
  shows "histories_agree (revision + 1) (insert h hs)"
proof -
  have less: "nh_revision h' < revision" if "h' \<in> hs" for h' using hs that unfolding histories_agree_def by blast
  have one: "nh_revision h' < revision + 1 \<and> bm_wf (nh_liquidity_by_order h')
        \<and> (nh_revision h' = 0 \<longrightarrow> nh_events h' = [] \<and> nh_liquidity_by_order h' = [])
        \<and> (\<forall>change. nh_change h' = Some change \<longrightarrow> hc_previous_revision change < nh_revision h'
              \<and> (\<forall>h0 \<in> insert h hs. nh_revision h0 = hc_previous_revision change \<longrightarrow> grown h0 h' change))"
    if "h' \<in> insert h hs" for h'
  proof (cases "h' = h")
    case True
    then show ?thesis using h change by auto
  next
    case False
    then have mem: "h' \<in> hs" using that by blast
    then have l: "nh_revision h' < revision" by (rule less)
    have "\<forall>change. nh_change h' = Some change \<longrightarrow> hc_previous_revision change < nh_revision h'
              \<and> (\<forall>h0 \<in> insert h hs. nh_revision h0 = hc_previous_revision change \<longrightarrow> grown h0 h' change)"
      using hs mem l h(1) unfolding histories_agree_def by fastforce
    then show ?thesis using hs mem l unfolding histories_agree_def by fastforce
  qed
  have two: "same_content h1 h2" if "h1 \<in> insert h hs" "h2 \<in> insert h hs" "nh_revision h1 = nh_revision h2" for h1 h2
  proof (cases "h1 = h2")
    case False
    then have "h1 \<in> hs \<and> h2 \<in> hs" using that less h(1) by (metis insertE less_irrefl)
    then show ?thesis using hs that(3) unfolding histories_agree_def by blast
  qed (simp add: same_content_def)
  show ?thesis unfolding histories_agree_def using one two by blast
qed

lemma histories_agree_content:
  "histories_agree revision hs \<Longrightarrow> h \<in> hs \<Longrightarrow> h' \<in> hs \<Longrightarrow> nh_revision h = nh_revision h' \<Longrightarrow> same_content h h'"
  unfolding histories_agree_def by blast

lemma histories_agree_same:
  assumes "histories_agree revision hs" and "h \<in> hs"
    and "nh_revision h' = nh_revision h" "nh_change h' = nh_change h" "same_content h' h"
  shows "histories_agree revision (insert h' hs)"
proof -
  have g: "grown h0 h' change = grown h0 h change" "grown h' h0 change = grown h h0 change" for h0 change
    using assms(5) by (auto simp: grown_def same_content_def)
  have s: "same_content h' x = same_content h x" "same_content x h' = same_content x h" for x
    using assms(5) by (auto simp: same_content_def)
  have f: "nh_events h' = nh_events h" "nh_liquidity_by_order h' = nh_liquidity_by_order h" using assms(5) by (auto simp: same_content_def)
  show ?thesis using assms(1,2) unfolding histories_agree_def by (simp add: g s f assms(3,4))
qed

lemma next_events_mset: "replaced = None \<Longrightarrow> mset (next_events es news replaced) = mset (es @ news)"
  by (simp add: next_events_def)

lemma commit_ok:
  assumes ok: "reader_ok s revision hs" and le: "revision \<le> revision'" "0 < revision"
    and m: "merge_liquidity_records (nh_liquidity_by_order (ih_history s)) families = Inr (roles, changed)"
    and c: "commit_refresh s revision' identity b recovered roles changed = (s', revision'')"
  shows "reader_ok s' revision'' (ih_history s' # hs) \<and> revision' \<le> revision''"
proof -
  let ?h = "ih_history s" and ?all = "insert default_history (insert (ih_history s) (set hs))"
  have agree: "histories_agree revision' ?all"
    by (rule histories_agree_mono [OF _ le(1) order_refl]) (use ok in \<open>simp add: reader_ok_def\<close>)
  have cov: "covers (ih_legacy_fill_times s) (nh_events ?h)" using ok unfolding reader_ok_def by blast
  obtain ts where roles: "\<And>k. k \<in> set changed \<longleftrightarrow> bm_get roles k \<noteq> bm_get (nh_liquidity_by_order ?h) k"
    "bm_wf (nh_liquidity_by_order ?h) \<Longrightarrow> bm_wf roles" using merge_records [OF m] by metis
  have wf0: "bm_wf (nh_liquidity_by_order ?h)" using agree unfolding histories_agree_def by blast
  have wf: "bm_wf roles" using roles(2) wf0 by blast
  define news where "news = sb_new_events b"
  define replaced where "replaced = recovered_events s news recovered"
  define earliest where "earliest = earliest_fill (ih_legacy_fill_times s) changed"
  define h' where "h' = ih_history s'"
  have fields: "(h', revision'') = (case publish_change ?h revision' (replaced \<noteq> None) news changed earliest of
      (h1, r) \<Rightarrow> (h1\<lparr>nh_liquidity_by_order := roles, nh_events := next_events (nh_events ?h) news replaced\<rparr>, r))"
    "ih_legacy_fill_times s' = (case replaced of Some es \<Rightarrow> foldl note_legacy_fill [] es
       | None \<Rightarrow> foldl note_legacy_fill (ih_legacy_fill_times s) news)"
    using c unfolding commit_refresh_def h'_def news_def replaced_def earliest_def Let_def by (auto split: prod.splits)
  have content: "nh_events h' = next_events (nh_events ?h) news replaced" "nh_liquidity_by_order h' = roles"
    using fields(1) by (auto split: prod.splits)
  have covers': "covers (ih_legacy_fill_times s') (nh_events h')"
  proof (cases replaced)
    case None
    have "covers (ih_legacy_fill_times s') (nh_events ?h @ news)" unfolding fields(2) None using legacy_fold_covers [OF cov] by simp
    then show ?thesis using next_events_mset [OF None, of "nh_events ?h" news] unfolding content
      by (metis covers_mono order_refl set_mset_mset)
  next
    case (Some es)
    have "covers [] []" by (simp add: covers_def)
    then have "covers (foldl note_legacy_fill [] es) ([] @ es)" by (rule legacy_fold_covers)
    then show ?thesis unfolding fields(2) content Some by (simp add: next_events_def)
  qed
  consider (replaced) "replaced \<noteq> None" | (grew) "replaced = None" "news \<noteq> [] \<or> changed \<noteq> []" | (same) "replaced = None" "news = []" "changed = []"
    by blast
  then have agreed: "histories_agree revision'' (insert h' ?all) \<and> revision' \<le> revision''"
  proof cases
    case replaced
    then have "nh_revision h' = revision'" "nh_change h' = None" "revision'' = revision' + 1"
      using fields(1) by (auto simp: publish_change_def)
    then show ?thesis using histories_agree_insert [OF agree, of h'] wf content le by simp
  next
    case grew
    then have h': "h' = ?h\<lparr>nh_change := Some \<lparr>hc_previous_revision = nh_revision ?h, hc_events = news, hc_earliest_liquidity_fill_ts_us = earliest\<rparr>,
        nh_revision := revision', nh_liquidity_by_order := roles, nh_events := next_events (nh_events ?h) news replaced\<rparr>" "revision'' = revision' + 1"
      using fields(1) by (auto simp: publish_change_def)
    have g: "grown ?h h' \<lparr>hc_previous_revision = nh_revision ?h, hc_events = news, hc_earliest_liquidity_fill_ts_us = earliest\<rparr>"
      unfolding h'(1) earliest_def by (rule appended_grown [OF m cov next_events_mset [OF grew(1)]])
    have "nh_revision ?h < revision'" using agree unfolding histories_agree_def by blast
    moreover have "grown h0 h' \<lparr>hc_previous_revision = nh_revision ?h, hc_events = news, hc_earliest_liquidity_fill_ts_us = earliest\<rparr>"
      if "h0 \<in> ?all" "nh_revision h0 = nh_revision ?h" for h0
      by (rule grown_same [OF g], rule histories_agree_content [OF agree]) (use that in simp_all)
    moreover have "nh_revision h' = revision'" "nh_change h' = Some \<lparr>hc_previous_revision = nh_revision ?h, hc_events = news,
        hc_earliest_liquidity_fill_ts_us = earliest\<rparr>" by (simp_all add: h'(1))
    ultimately have "histories_agree (revision' + 1) (insert h' ?all)"
      using le wf content(2) by (intro histories_agree_insert [OF agree]) auto
    then show ?thesis using h'(2) by simp
  next
    case same
    have "nh_revision h' = nh_revision ?h" "nh_change h' = nh_change ?h" "revision'' = revision'"
      using fields(1) same by (auto simp: publish_change_def)
    moreover have "roles = nh_liquidity_by_order ?h" using roles(1) same(3) wf wf0 by (intro bm_ext) auto
    then have "same_content h' ?h" using content same by (simp add: same_content_def next_events_def out_of_order_def)
    ultimately show ?thesis using histories_agree_same [OF agree, of ?h h'] by simp
  qed
  have "insert default_history (insert (ih_history s') (set (ih_history s' # hs))) \<subseteq> insert h' ?all" unfolding h'_def by auto
  note histories_agree_mono [OF conjunct1 [OF agreed] le_refl this]
  then show ?thesis using covers' agreed unfolding reader_ok_def h'_def by blast
qed

lemma reader_ok_mono: "reader_ok s revision hs \<Longrightarrow> revision \<le> revision' \<Longrightarrow> reader_ok s revision' hs"
  unfolding reader_ok_def by (meson histories_agree_mono order_refl)

lemma reader_ok_default: "reader_ok s revision hs \<Longrightarrow> reader_ok incremental_default revision hs"
  unfolding reader_ok_def incremental_default_def default_history_def covers_def
  by (auto intro: histories_agree_mono)

lemma reader_ok_journal: "reader_ok (s\<lparr>ih_journal := j\<rparr>) revision hs = reader_ok s revision hs"
  by (simp add: reader_ok_def)

lemma reader_ok_closed: "reader_ok s revision hs \<Longrightarrow> reader_ok incremental_default revision (default_history # hs)"
  using reader_ok_default unfolding reader_ok_def by (simp add: insert_commute)

lemma reader_ok_fresh: "0 < revision \<Longrightarrow> reader_ok incremental_default revision []"
  by (simp add: reader_ok_def incremental_default_def default_history_def histories_agree_def covers_def same_content_def)

lemma refresh_source_ok:
  assumes ok: "reader_ok s0 revision hs" and pos: "0 < revision"
    and r: "refresh_source rc source db (s0, revision) = (r, s', revision')"
  shows "revision \<le> revision' \<and> (case r of Inl _ \<Rightarrow> reader_ok s' revision' hs | Inr _ \<Rightarrow> reader_ok s' revision' (ih_history s' # hs))"
proof -
  define s where "s = (if recreated s0 db then incremental_default else s0)"
  have s: "reader_ok s revision hs" using ok reader_ok_default unfolding s_def by simp
  note r = r [unfolded refresh_source_def, simplified, folded s_def, unfolded Let_def]
  show ?thesis
  proof (cases "scan_families (ih_checkpoints s) db")
    case (Inl e)
    then show ?thesis using r s by auto
  next
    case (Inr b)
    obtain res j where j: "recover rc source (combined_events s (sb_new_events b)) (ih_journal s) = (res, j)" by fastforce
    have sj: "reader_ok (s\<lparr>ih_journal := j\<rparr>) revision hs" using s by (simp add: reader_ok_journal)
    show ?thesis
    proof (cases res)
      case (Inl e)
      then show ?thesis using r Inr j sj by auto
    next
      case rec: (Inr recovered)
      show ?thesis
      proof (cases "merge_liquidity_records (nh_liquidity_by_order (ih_history s)) (bm_vals (sb_new_trades b))")
        case (Inl e)
        then show ?thesis using r Inr j sj rec by auto
      next
        case m: (Inr rc)
        obtain roles changed where rc: "rc = (roles, changed)" by fastforce
        have c: "commit_refresh (s\<lparr>ih_journal := j\<rparr>) revision (sd_identity db) b recovered roles changed = (s', revision')" "r = Inr ()"
          using r Inr j rec m rc by auto
        show ?thesis using commit_ok [OF sj order_refl pos _ c(1), of "bm_vals (sb_new_trades b)"] m rc c(2) by simp
      qed
    qed
  qed
qed

text \<open>Runs of the store over any configurations, databases and evidence, with what they published.\<close>

inductive store_run :: "(string, incremental) bmap \<Rightarrow> nat \<Rightarrow> histories list \<Rightarrow> bool" where
  empty: "0 < revision \<Longrightarrow> store_run [] revision []"
| published: "store_run store revision published \<Longrightarrow> store_refresh rc db config (store, revision) = (Inr histories, store', revision')
    \<Longrightarrow> store_run store' revision' (histories # published)"
| failed: "store_run store revision published \<Longrightarrow> store_refresh rc db config (store, revision) = (Inl e, store', revision')
    \<Longrightarrow> store_run store' revision' published"

definition reader_of :: "(string, incremental) bmap \<Rightarrow> string \<Rightarrow> incremental" where
  "reader_of store i = (case bm_get store i of None \<Rightarrow> incremental_default | Some s \<Rightarrow> s)"

definition listed :: "histories \<Rightarrow> (string \<Rightarrow> nav_source_history list) \<Rightarrow> bool" where
  "listed histories hs \<longleftrightarrow> (\<forall>i h. bm_get histories i = Some h \<longrightarrow> h \<in> set (hs i))"

lemma reader_of_insert [simp]: "reader_of (bm_insert i s store) k = (if k = i then s else reader_of store k)"
  by (simp add: reader_of_def)

lemma reader_of_remove [simp]: "reader_of (bm_remove i store) k = (if k = i then incremental_default else reader_of store k)"
  by (simp add: reader_of_def)

lemma refresh_sources_ok:
  "refresh_sources rc db sources (store, revision) acc = (r, store', revision') \<Longrightarrow> 0 < revision
   \<Longrightarrow> \<forall>i. reader_ok (reader_of store i) revision (hs i) \<Longrightarrow> listed acc hs
   \<Longrightarrow> \<exists>hs'. 0 < revision' \<and> (\<forall>i. reader_ok (reader_of store' i) revision' (hs' i) \<and> set (hs i) \<subseteq> set (hs' i))
         \<and> (\<forall>H. r = Inr H \<longrightarrow> listed H hs')"
proof (induction sources arbitrary: store revision acc hs)
  case Nil
  then show ?case by auto
next
  case (Cons source sources)
  let ?i = "sc_id source"
  show ?case
  proof (cases "sd_current (db source)")
    case False
    define hs1 where "hs1 = hs(?i := default_history # hs ?i)"
    have "\<forall>i. reader_ok (reader_of (bm_remove ?i store) i) revision (hs1 i)" "listed (bm_insert ?i default_history acc) hs1"
      using Cons.prems(3,4) reader_ok_closed [of "reader_of store ?i" revision "hs ?i"] by (auto simp: hs1_def listed_def)
    moreover have "refresh_sources rc db sources (bm_remove ?i store, revision) (bm_insert ?i default_history acc) = (r, store', revision')"
      using Cons.prems(1) False by simp
    ultimately obtain hs' where "0 < revision' \<and> (\<forall>i. reader_ok (reader_of store' i) revision' (hs' i) \<and> set (hs1 i) \<subseteq> set (hs' i))
         \<and> (\<forall>H. r = Inr H \<longrightarrow> listed H hs')" using Cons.IH [OF _ Cons.prems(2)] by blast
    moreover have "set (hs i) \<subseteq> set (hs1 i)" for i by (auto simp: hs1_def)
    ultimately show ?thesis by blast
  next
    case True
    obtain r1 s1 revision1 where one: "refresh_source (rc source) source (db source) (reader_of store ?i, revision) = (r1, s1, revision1)"
      by (metis prod.collapse)
    have ok: "revision \<le> revision1 \<and> (case r1 of Inl _ \<Rightarrow> reader_ok s1 revision1 (hs ?i) | Inr _ \<Rightarrow> reader_ok s1 revision1 (ih_history s1 # hs ?i))"
      using refresh_source_ok [OF _ Cons.prems(2) one] Cons.prems(3) by blast
    have mono: "reader_ok (reader_of store i) revision1 (hs i)" for i using Cons.prems(3) ok reader_ok_mono by blast
    show ?thesis
    proof (cases r1)
      case (Inl e)
      then have "r = Inl e" "store' = bm_insert ?i s1 store" "revision' = revision1"
        using Cons.prems(1) True one by (auto simp: reader_of_def)
      then show ?thesis using ok mono Inl Cons.prems(2) by (intro exI [of _ hs]) auto
    next
      case (Inr u)
      define hs1 where "hs1 = hs(?i := ih_history s1 # hs ?i)"
      have "\<forall>i. reader_ok (reader_of (bm_insert ?i s1 store) i) revision1 (hs1 i)" "listed (bm_insert ?i (ih_history s1) acc) hs1"
        using ok mono Inr Cons.prems(4) by (auto simp: hs1_def listed_def)
      moreover have "refresh_sources rc db sources (bm_insert ?i s1 store, revision1) (bm_insert ?i (ih_history s1) acc) = (r, store', revision')"
        using Cons.prems(1) True one Inr by (simp add: reader_of_def)
      moreover have "0 < revision1" using ok Cons.prems(2) by simp
      ultimately obtain hs' where "0 < revision' \<and> (\<forall>i. reader_ok (reader_of store' i) revision' (hs' i) \<and> set (hs1 i) \<subseteq> set (hs' i))
         \<and> (\<forall>H. r = Inr H \<longrightarrow> listed H hs')" using Cons.IH by blast
      moreover have "set (hs i) \<subseteq> set (hs1 i)" for i by (auto simp: hs1_def)
      ultimately show ?thesis by blast
    qed
  qed
qed

lemma store_refresh_ok:
  assumes r: "store_refresh rc db config (store, revision) = (r, store', revision')" and pos: "0 < revision"
    and ok: "\<forall>i. reader_ok (reader_of store i) revision (hs i)"
  shows "\<exists>hs'. 0 < revision' \<and> (\<forall>i. reader_ok (reader_of store' i) revision' (hs' i) \<and> set (hs i) \<subseteq> set (hs' i))
         \<and> (\<forall>H. r = Inr H \<longrightarrow> listed H hs')"
proof (cases "select_sources config []")
  case (Inl e)
  then show ?thesis using r pos ok by (auto simp: store_refresh_def)
next
  case (Inr selected)
  let ?store = "bm_retain (\<lambda>i _. i \<in> sc_id ` set selected) store"
  have "bm_get ?store i = (if i \<in> sc_id ` set selected then bm_get store i else None)" for i
    unfolding bm_retain_def by (induction store) auto
  then have "reader_of ?store i = (if i \<in> sc_id ` set selected then reader_of store i else incremental_default)" for i
    by (simp add: reader_of_def)
  then have "reader_ok (reader_of ?store i) revision (hs i)" for i
    using ok reader_ok_default [of "reader_of store i" revision "hs i"] by simp
  then have all: "\<forall>i. reader_ok (reader_of ?store i) revision (hs i)" by blast
  have "refresh_sources rc db selected (?store, revision) [] = (r, store', revision')" using r Inr by (simp add: store_refresh_def)
  then show ?thesis by (rule refresh_sources_ok [OF _ pos all]) (simp add: listed_def)
qed

lemma store_run_ok:
  assumes "store_run store revision published"
  shows "\<exists>hs. 0 < revision \<and> (\<forall>i. reader_ok (reader_of store i) revision (hs i)) \<and> (\<forall>H \<in> set published. listed H hs)"
  using assms
proof induction
  case (empty revision)
  then show ?case by (auto simp: reader_of_def intro!: exI [of _ "\<lambda>_. []"] reader_ok_fresh)
next
  case (published store revision published rc db config histories store' revision')
  then obtain hs where hs: "0 < revision" "\<forall>i. reader_ok (reader_of store i) revision (hs i)" "\<forall>H \<in> set published. listed H hs" by blast
  from store_refresh_ok [OF published(2) hs(1,2)] hs(3) show ?case unfolding listed_def by simp blast
next
  case (failed store revision published rc db config e store' revision')
  then obtain hs where hs: "0 < revision" "\<forall>i. reader_ok (reader_of store i) revision (hs i)" "\<forall>H \<in> set published. listed H hs" by blast
  from store_refresh_ok [OF failed(2) hs(1,2)] hs(3) show ?case unfolding listed_def by blast
qed

text \<open>Histories the store published in any two of its refreshes.\<close>

lemma store_histories:
  assumes run: "store_run store revision published" and H: "H \<in> set published" "H0 \<in> set published"
    and h: "bm_get H i = Some h" "bm_get H0 i = Some h0"
  shows "nh_revision h = nh_revision h0 \<Longrightarrow> same_content h h0"
    and "nh_change h = Some change \<Longrightarrow> hc_previous_revision change = nh_revision h0 \<Longrightarrow> grown h0 h change"
proof -
  obtain hs where hs: "reader_ok (reader_of store i) revision (hs i)" "h \<in> set (hs i)" "h0 \<in> set (hs i)"
    using store_run_ok [OF run] H h unfolding listed_def by blast
  then have agree: "histories_agree revision (insert default_history (insert (ih_history (reader_of store i)) (set (hs i))))"
    unfolding reader_ok_def by blast
  show "nh_revision h = nh_revision h0 \<Longrightarrow> same_content h h0"
    by (rule histories_agree_content [OF agree]) (use hs in simp_all)
  show "grown h0 h change" if "nh_change h = Some change" "hc_previous_revision change = nh_revision h0"
    using agree hs that unfolding histories_agree_def by simp
qed

end
