(* ===== verification/TimeKeys.thy ===== *)
theory TimeKeys
  imports History
begin

text \<open>
  Record keys are the 20 digits of a time: their byte order is the order of the times, and a scan that
  starts at a formatted time starts at that time.
\<close>

subsection \<open>Digit strings\<close>

lemma decimal_foldl: "foldl (\<lambda>n c. 10 * n + (byte_of c - 48)) a s = a * 10 ^ length s + decimal_value s"
proof (induction s arbitrary: a)
  case (Cons c s)
  have "decimal_value (c # s) = foldl (\<lambda>n c. 10 * n + (byte_of c - 48)) (byte_of c - 48) s" by (simp add: decimal_value_def)
  then show ?case using Cons.IH [of "10 * a + (byte_of c - 48)"] Cons.IH [of "byte_of c - 48"] by (simp add: algebra_simps)
qed (simp add: decimal_value_def)

lemma decimal_Cons: "decimal_value (c # s) = (byte_of c - 48) * 10 ^ length s + decimal_value s"
  using decimal_foldl [of "byte_of c - 48" s] by (simp add: decimal_value_def)

lemma decimal_Nil [simp]: "decimal_value [] = 0"
  by (simp add: decimal_value_def)

lemma decimal_append: "decimal_value (s @ t) = decimal_value s * 10 ^ length t + decimal_value t"
  using decimal_foldl [of "decimal_value s" t] by (simp add: decimal_value_def)

lemma decimal_less: "list_all is_digit s \<Longrightarrow> decimal_value s < 10 ^ length s"
proof (induction s)
  case (Cons c s)
  then have "is_digit c" "decimal_value s < 10 ^ length s" by simp_all
  moreover from this(1) have "byte_of c \<le> 57" by (simp add: is_digit_def)
  then have "byte_of c - 48 \<le> 9" by linarith
  ultimately have "byte_of c - 48 \<le> 9" "decimal_value s < 10 ^ length s" by simp_all
  then have "(byte_of c - 48) * 10 ^ length s + decimal_value s < 9 * 10 ^ length s + 10 ^ length s"
    by (intro add_le_less_mono mult_right_mono) simp_all
  then show ?case by (simp add: decimal_Cons)
qed simp

lemma decimal_zeros [simp]: "decimal_value (replicate n CHR ''0'') = 0"
  by (induction n) (simp_all add: decimal_Cons byte_of_def)

definition digit_bytes :: "bytes \<Rightarrow> bool" where
  "digit_bytes k \<longleftrightarrow> list_all is_digit (chars_of k)"

definition key_value :: "bytes \<Rightarrow> nat" where
  "key_value k = decimal_value (chars_of k)"

lemma byte_of_char: "byte_of (char_of (unat (b :: 8 word))) = unat b"
proof -
  have "unat b < 2 ^ LENGTH(8)" by (rule unsigned_less)
  then have "unat b < 256" by simp
  then show ?thesis by (simp add: byte_of_def)
qed

lemma key_Cons:
  "digit_bytes (b # k) \<longleftrightarrow> 48 \<le> unat b \<and> unat b \<le> 57 \<and> digit_bytes k"
  "key_value (b # k) = (unat b - 48) * 10 ^ length k + key_value k"
  by (simp_all add: digit_bytes_def key_value_def chars_of_def is_digit_def decimal_Cons byte_of_char)

lemma key_Nil: "digit_bytes []" "key_value [] = 0"
  by (simp_all add: digit_bytes_def key_value_def chars_of_def)

lemma key_less: "digit_bytes k \<Longrightarrow> key_value k < 10 ^ length k"
  using decimal_less [of "chars_of k"] by (simp add: digit_bytes_def key_value_def chars_of_def)

lemma place_less: "(i :: nat) < j \<Longrightarrow> 48 \<le> i \<Longrightarrow> (i - 48) * p + p \<le> (j - 48) * p"
proof -
  assume "i < j" "48 \<le> i"
  then have "Suc (i - 48) \<le> j - 48" by linarith
  then have "Suc (i - 48) * p \<le> (j - 48) * p" by (rule mult_right_mono) simp
  then show ?thesis by simp
qed

text \<open>Between keys of one length, byte order is numeric order.\<close>

lemma key_order:
  "digit_bytes k \<Longrightarrow> digit_bytes k' \<Longrightarrow> length k = length k' \<Longrightarrow> k \<le> k' \<longleftrightarrow> key_value k \<le> key_value k'"
proof (induction k arbitrary: k')
  case (Cons b k)
  then obtain c r where k': "k' = c # r" by (cases k') auto
  have lt: "key_value k < 10 ^ length r" "key_value r < 10 ^ length r"
    using key_less Cons.prems unfolding k' key_Cons by fastforce+
  have d: "48 \<le> unat b" "48 \<le> unat c" using Cons.prems unfolding k' key_Cons by auto
  have IH: "k \<le> r \<longleftrightarrow> key_value k \<le> key_value r" using Cons unfolding k' key_Cons by simp
  have len: "length k = length r" using Cons.prems(3) k' by simp
  consider "unat b < unat c" | "b = c" | "unat c < unat b" by (metis linorder_neqE_nat unsigned_word_eqI)
  then show ?case
  proof cases
    case 1
    then have "(unat b - 48) * 10 ^ length r + 10 ^ length r \<le> (unat c - 48) * 10 ^ length r"
      by (rule place_less) (use 1 d in simp_all)
    then show ?thesis using 1 lt unfolding k' key_Cons Cons_le_Cons len word_less_nat_alt by linarith
  next
    case 2
    then show ?thesis using IH unfolding k' key_Cons Cons_le_Cons len by simp
  next
    case 3
    then have "(unat c - 48) * 10 ^ length r + 10 ^ length r \<le> (unat b - 48) * 10 ^ length r"
      by (rule place_less) (use 3 d in simp_all)
    then show ?thesis using 3 lt unfolding k' key_Cons Cons_le_Cons len word_less_nat_alt by (auto simp: not_le)
  qed
qed (simp add: key_Nil)

subsection \<open>Formatted times\<close>

lemma digits_rev_facts:
  "n < 10 ^ fuel \<Longrightarrow> list_all is_digit (digits_rev fuel n) \<and> decimal_value (rev (digits_rev fuel n)) = n"
proof (induction fuel arbitrary: n)
  case (Suc fuel)
  have c: "is_digit (char_of (48 + n mod 10))" "byte_of (char_of (48 + n mod 10)) = 48 + n mod 10"
    by (simp_all add: is_digit_def byte_of_def)
  show ?case
  proof (cases "n div 10 = 0")
    case True
    then show ?thesis using c by (simp add: decimal_Cons)
  next
    case False
    have "n div 10 < 10 ^ fuel" using Suc.prems by (simp add: less_mult_imp_div_less mult.commute)
    then show ?thesis using Suc.IH [of "n div 10"] c False by (simp add: decimal_append decimal_Cons)
  qed
qed simp

lemma digits_rev_length: "n < 10 ^ d \<Longrightarrow> 0 < d \<Longrightarrow> length (digits_rev fuel n) \<le> d"
proof (induction fuel arbitrary: n d)
  case (Suc fuel)
  show ?case
  proof (cases "n div 10 = 0")
    case False
    then have "1 < d" using Suc.prems by (cases "d = 1") (auto simp: div_eq_0_iff)
    moreover have "n div 10 < 10 ^ (d - 1)"
      using Suc.prems by (cases d) (simp_all add: less_mult_imp_div_less mult.commute)
    ultimately have "length (digits_rev fuel (n div 10)) \<le> d - 1" "1 < d" using Suc.IH [of "n div 10" "d - 1"] by simp_all
    then have "Suc (length (digits_rev fuel (n div 10))) \<le> d" by linarith
    then show ?thesis using False by simp
  qed (use Suc.prems in simp)
qed simp

lemma show_nat_facts: "list_all is_digit (show_nat n)" "decimal_value (show_nat n) = n"
proof -
  have "n < 10 ^ Suc n" by (induction n) simp_all
  then show "list_all is_digit (show_nat n)" "decimal_value (show_nat n) = n"
    using digits_rev_facts [of n "Suc n"] unfolding show_nat_def by (simp_all only: list_all_rev)
qed

lemma show_padded_facts:
  assumes "0 \<le> ts" and "ts \<le> i64_max"
  shows "length (show_padded 20 ts) = 20" "list_all is_digit (show_padded 20 ts)" "decimal_value (show_padded 20 ts) = nat ts"
proof -
  have "nat ts < 10 ^ 20" using assms by (simp add: i64_max_def)
  then have "length (show_nat (nat ts)) \<le> 20" unfolding show_nat_def length_rev by (rule digits_rev_length) simp
  moreover have "list_all is_digit (replicate n CHR ''0'')" for n by (simp add: list_all_iff is_digit_def byte_of_def)
  ultimately show "length (show_padded 20 ts) = 20" "list_all is_digit (show_padded 20 ts)" "decimal_value (show_padded 20 ts) = nat ts"
    using assms show_nat_facts(1) [of "nat ts"] show_nat_facts(2) [of "nat ts"]
    by (simp_all add: show_padded_def Let_def decimal_append)
qed

lemma chars_of_utf8: "chars_of (utf8 s) = s"
proof -
  have "char_of (unat (word_of_nat (byte_of c) :: 8 word)) = c" for c
  proof -
    have "byte_of c < 256" by (simp add: byte_of_def)
    then have "unat (word_of_nat (byte_of c) :: 8 word) = byte_of c" by (simp add: unat_of_nat)
    then show ?thesis by (simp add: byte_of_def)
  qed
  then show ?thesis by (induction s) (simp_all add: chars_of_def utf8_def)
qed

text \<open>The time of a record key, as the decoders read it.\<close>

definition key_time :: "bytes \<Rightarrow> i64 option" where
  "key_time key = (case decode_timestamp_key key of Inl _ \<Rightarrow> None | Inr (_, ts) \<Rightarrow> Some ts)"

lemma key_time_facts:
  assumes "key_time key = Some ts"
  shows "length key = 20" "digit_bytes key" "ts = int (key_value key)" "ts \<le> i64_max" "utf8_valid key"
  using assms by (auto simp: key_time_def decode_timestamp_key_def digit_bytes_def key_value_def Let_def chars_of_def split: if_splits)

lemma key_time_order:
  assumes "key_time k = Some t" and "key_time k' = Some t'"
  shows "k \<le> k' \<longleftrightarrow> t \<le> t'"
  using key_order [of k k'] key_time_facts [OF assms(1)] key_time_facts [OF assms(2)] by simp

lemma format_key_le:
  assumes "key_time k = Some t" and "ts \<le> i64_max"
  shows "format_time_key ts \<le> k \<longleftrightarrow> ts \<le> t"
proof (cases "0 \<le> ts")
  case True
  note f = show_padded_facts [OF True assms(2)]
  have k: "digit_bytes (format_time_key ts)" "key_value (format_time_key ts) = nat ts" "length (format_time_key ts) = 20"
    using f by (simp_all add: digit_bytes_def key_value_def format_time_key_def chars_of_utf8) (simp add: utf8_def)
  then show ?thesis using key_order [of "format_time_key ts" k] key_time_facts [OF assms(1)] True by (simp add: nat_le_iff)
next
  case False
  obtain b r where k: "k = b # r" using key_time_facts(1) [OF assms(1)] by (cases k) auto
  then have "48 \<le> unat b" using key_time_facts(2) [OF assms(1)] by (simp add: key_Cons)
  moreover have "\<exists>r. format_time_key ts = 45 # r"
    using False by (simp add: format_time_key_def show_padded_def utf8_def byte_of_def Let_def)
  ultimately have "format_time_key ts \<le> k" unfolding k by (auto simp: word_less_nat_alt)
  moreover have "0 \<le> t" using key_time_facts(3) [OF assms(1)] by simp
  ultimately show ?thesis using False by simp
qed

lemma overlap_start_le:
  assumes k: "key_time k = Some t" and l: "key_time k' = Some l"
  shows "overlap_start l \<le> k \<longleftrightarrow> l - nav_history_scan_overlap_us \<le> t"
proof -
  have "0 \<le> l" "l \<le> i64_max" using key_time_facts(3,4) [OF l] by simp_all
  then have "in_i64 (l - nav_history_scan_overlap_us)" "l - nav_history_scan_overlap_us \<le> i64_max"
    by (simp_all add: in_i64_def i64_min_def i64_max_def nav_history_scan_overlap_us_def)
  then show ?thesis unfolding overlap_start_def using format_key_le [OF k] by simp
qed

lemma parse_record_key:
  assumes "key_time key = Some ts"
  shows "parse_record_key_ts key = Inr ts"
proof -
  note f = key_time_facts [OF assms]
  have d: "list_all is_digit (chars_of key)" "chars_of key \<noteq> []" using f(1,2) by (auto simp: digit_bytes_def chars_of_def)
  then have "read_sign (chars_of key) = (False, chars_of key)"
    by (cases "chars_of key") (auto simp: read_sign_def is_digit_def byte_of_def)
  then show ?thesis using f d by (simp add: parse_record_key_ts_def parse_i64_def digits_only_def in_i64_def key_value_def i64_min_def)
qed

end
