(* ===== verification/ReadOnce.thy ===== *)
theory ReadOnce
  imports TimeKeys
begin

text \<open>
  The incremental reader merges every record of a growing database once, although its scans overlap:
  its history is the history a full load of the database gives.
\<close>

definition family :: "source_db \<Rightarrow> string \<Rightarrow> raw_record list" where
  "family db name = (case bm_get (sd_families db) name of None \<Rightarrow> [] | Some records \<Rightarrow> records)"

text \<open>
  What the execution process promises of its database: keys are the digits of times, in order, and a
  database that goes on keeps its identity and its records and adds none more than the overlap behind
  the last.
\<close>

definition db_ok :: "source_db \<Rightarrow> bool" where
  "db_ok db \<longleftrightarrow> (\<forall>name. sorted_wrt (<) (map fst (family db name)) \<and> (\<forall>r \<in> set (family db name). key_time (fst r) \<noteq> None))"

definition goes_on :: "source_db \<Rightarrow> source_db \<Rightarrow> bool" where
  "goes_on db db' \<longleftrightarrow> (sd_identity db = None \<or> sd_identity db' = None \<or> sd_identity db' = sd_identity db)
     \<and> (\<forall>name. set (family db name) \<subseteq> set (family db' name)
          \<and> (\<forall>r \<in> set (family db' name) - set (family db name). \<forall>last_ts t.
                family db name \<noteq> [] \<and> key_time (fst (last (family db name))) = Some last_ts \<and> key_time (fst r) = Some t
                \<longrightarrow> last_ts - nav_history_scan_overlap_us \<le> t))"

definition no_db :: source_db where
  "no_db = \<lparr>sd_current = False, sd_readable = False, sd_identity = None, sd_families = []\<rparr>"

text \<open>A reader that followed a database from the beginning.\<close>

inductive followed :: "source_config \<Rightarrow> source_db \<Rightarrow> incremental \<Rightarrow> bool" for source where
  start: "followed source no_db incremental_default"
| refreshed: "followed source db s \<Longrightarrow> db_ok db' \<Longrightarrow> goes_on db db' \<Longrightarrow> refresh_source rc source db' (s, revision) = (Inr (), s', revision')
    \<Longrightarrow> followed source db' s'"
| failed: "followed source db s \<Longrightarrow> goes_on db db' \<Longrightarrow> refresh_source rc source db' (s, revision) = (Inl e, s', revision')
    \<Longrightarrow> followed source db s'"

subsection \<open>One family\<close>

definition scan_of :: "family_checkpoint option \<Rightarrow> raw_record list \<Rightarrow> raw_record list" where
  "scan_of c records =
     (case (case c of None \<Rightarrow> None | Some c \<Rightarrow> scan_start_key c) of None \<Rightarrow> records | Some k \<Rightarrow> dropWhile (\<lambda>r. fst r < k) records)"

definition seen_of :: "family_checkpoint option \<Rightarrow> bytes list" where
  "seen_of c = (case c of None \<Rightarrow> [] | Some c \<Rightarrow> fc_seen_keys c)"

definition family_tracked :: "family_checkpoint option \<Rightarrow> raw_record list \<Rightarrow> bool" where
  "family_tracked c records \<longleftrightarrow>
     (case c of None \<Rightarrow> records = []
      | Some c \<Rightarrow> (case fc_last_record_ts_us c of None \<Rightarrow> records = [] \<and> fc_seen_keys c = []
          | Some last_ts \<Rightarrow> records \<noteq> [] \<and> key_time (fst (last records)) = Some last_ts
              \<and> set (fc_seen_keys c) = {k \<in> fst ` set records. overlap_start last_ts \<le> k}))"

lemma dropWhile_sorted:
  assumes "sorted_wrt (<) (map fst records)"
  shows "dropWhile (\<lambda>r. fst r < k) records = filter (\<lambda>r. (k :: bytes) \<le> fst r) records"
  using assms
proof (induction records)
  case (Cons r records)
  show ?case
  proof (cases "fst r < k")
    case False
    then have "filter (\<lambda>r. k \<le> fst r) records = records" using Cons.prems by (intro filter_True) (auto simp: not_less)
    then show ?thesis using False by simp
  qed (use Cons in auto)
qed simp

lemma last_time_max:
  assumes "sorted_wrt (<) (map fst records)" "r \<in> set records" "key_time (fst r) = Some t" "key_time (fst (last records)) = Some l"
  shows "t \<le> l"
proof (cases "r = last records")
  case False
  have split: "map fst records = map fst (butlast records) @ [fst (last records)]" and "r \<in> set (butlast records)"
    using assms(2) False append_butlast_last_id [of records] by (cases records rule: rev_cases; simp)+
  then have "fst r < fst (last records)" using assms(1) unfolding split sorted_wrt_append by simp
  then have "fst r \<le> fst (last records)" by (rule less_imp_le)
  then show ?thesis using key_time_order [OF assms(3,4)] by blast
qed (use assms in simp)

lemma last_filter_same:
  assumes "xs \<noteq> []" and "P (last xs)"
  shows "filter P xs \<noteq> [] \<and> last (filter P xs) = last xs"
proof -
  have "filter P xs = filter P (butlast xs) @ [last xs]"
    using assms(2) append_butlast_last_id [OF assms(1)] filter_append [of P "butlast xs" "[last xs]"] by simp
  then show ?thesis by simp
qed

definition last_of :: "family_checkpoint option \<Rightarrow> i64 option" where
  "last_of c = (case c of None \<Rightarrow> None | Some c \<Rightarrow> fc_last_record_ts_us c)"

lemma tracked_cases:
  assumes "family_tracked c records"
  obtains (none) "last_of c = None" "records = []" "seen_of c = []"
  | (some) l where "last_of c = Some l" "records \<noteq> []" "key_time (fst (last records)) = Some l"
      "set (seen_of c) = {k \<in> fst ` set records. overlap_start l \<le> k}"
  using assms by (cases c) (auto simp: family_tracked_def last_of_def seen_of_def split: option.splits)

lemma scan_filter:
  assumes "sorted_wrt (<) (map fst records)"
  shows "scan_of c records = filter (\<lambda>r. \<forall>l. last_of c = Some l \<longrightarrow> overlap_start l \<le> fst r) records"
  unfolding scan_of_def scan_start_key_def last_of_def using dropWhile_sorted [OF assms]
  by (auto split: option.split)

lemma set_of_list_Nil [simp]: "set_of_list [] = []"
  by (metis list.set(1) set_empty2 set_set_of_list)

lemma strict_sorted_imp_distinct_key: "sorted_wrt (<) (map fst records) \<Longrightarrow> inj_on fst (set (records :: raw_record list))"
  by (simp add: strict_sorted_iff distinct_map)

text \<open>What a scan adds is what the family did not have, and the checkpoint follows.\<close>

lemma family_scan:
  assumes tracked: "family_tracked c records"
    and sorted: "sorted_wrt (<) (map fst records')" "\<forall>r \<in> set records'. key_time (fst r) \<noteq> None"
    and old: "set records \<subseteq> set records'"
    and late: "\<forall>r \<in> set records' - set records. \<forall>last_ts t. records \<noteq> [] \<and> key_time (fst (last records)) = Some last_ts
      \<and> key_time (fst r) = Some t \<longrightarrow> last_ts - nav_history_scan_overlap_us \<le> t"
  defines "scan \<equiv> scan_of c records'"
  shows "filter (\<lambda>r. fst r \<notin> set (seen_of c)) scan = filter (\<lambda>r. r \<notin> set records) records'"
    and "scan = [] \<longleftrightarrow> records' = []" and "records' \<noteq> [] \<Longrightarrow> last scan = last records'"
    and "family_tracked (Some (merge_checkpoint c (set_of_list (map fst scan)) (if scan = [] then None else key_time (fst (last scan))))) records'"
proof -
  let ?in = "\<lambda>r. \<forall>l. last_of c = Some l \<longrightarrow> overlap_start l \<le> fst r"
  have scan: "scan = filter ?in records'" unfolding scan_def by (rule scan_filter [OF sorted(1)])
  have ov: "0 \<le> nav_history_scan_overlap_us" by (simp add: nav_history_scan_overlap_us_def)
  have timed: "\<exists>t. key_time (fst r) = Some t" if "r \<in> set records'" for r using sorted(2) that by auto
  have from_l: "?in r" if mem: "r \<in> set records'" and late_r: "\<And>l t. last_of c = Some l \<Longrightarrow> key_time (fst r) = Some t \<Longrightarrow> l - nav_history_scan_overlap_us \<le> t" for r
  proof (intro allI impI)
    fix l assume l: "last_of c = Some l"
    obtain t where t: "key_time (fst r) = Some t" using timed [OF mem] by blast
    from tracked l have "key_time (fst (last records)) = Some l" by (cases rule: tracked_cases) simp_all
    then show "overlap_start l \<le> fst r" using overlap_start_le [OF t] late_r [OF l t] by simp
  qed
  have inj: "r = r'" if "r \<in> set records'" "r' \<in> set records'" "fst r = fst r'" for r r'
    using strict_sorted_imp_distinct_key [OF sorted(1)] that by (meson inj_onD)
  have unseen: "(?in r \<and> fst r \<notin> set (seen_of c)) = (r \<notin> set records)" if r: "r \<in> set records'" for r
    using tracked
  proof (cases rule: tracked_cases)
    case none
    then show ?thesis by simp
  next
    case (some l)
    show ?thesis
    proof (cases "r \<in> set records")
      case True
      then show ?thesis using some by auto
    next
      case False
      then have late_r: "\<And>t. key_time (fst r) = Some t \<Longrightarrow> l - nav_history_scan_overlap_us \<le> t" using late r some(2,3) by blast
      have "?in r"
      proof (rule from_l [OF r])
        fix l' t assume "last_of c = Some l'" and t: "key_time (fst r) = Some t"
        then have "l' = l" using some(1) by simp
        then show "l' - nav_history_scan_overlap_us \<le> t" using late_r [OF t] by simp
      qed
      moreover have "fst r \<notin> fst ` set records" proof
        assume "fst r \<in> fst ` set records"
        then obtain r' where r': "r' \<in> set records" "fst r = fst r'" by (rule imageE)
        then show False using inj [OF r _ r'(2)] old False by blast
      qed
      ultimately show ?thesis using False some(4) by simp
    qed
  qed
  show "filter (\<lambda>r. fst r \<notin> set (seen_of c)) scan = filter (\<lambda>r. r \<notin> set records) records'"
    unfolding scan filter_filter using unseen by (intro filter_cong) auto
  have last: "scan \<noteq> [] \<and> last scan = last records'" if ne: "records' \<noteq> []"
    unfolding scan
  proof (rule last_filter_same [OF ne])
    show "?in (last records')"
    proof (rule from_l)
      fix l t assume l: "last_of c = Some l" and t: "key_time (fst (last records')) = Some t"
      from tracked l have "records \<noteq> []" "key_time (fst (last records)) = Some l" by (cases rule: tracked_cases; simp)+
      then have "l \<le> t" using last_time_max [OF sorted(1) subsetD [OF old last_in_set] _ t] by blast
      then show "l - nav_history_scan_overlap_us \<le> t" using ov by simp
    qed (use ne in simp)
  qed
  then show "records' \<noteq> [] \<Longrightarrow> last scan = last records'" by blast
  show empty: "scan = [] \<longleftrightarrow> records' = []" using last unfolding scan by auto
  show "family_tracked (Some (merge_checkpoint c (set_of_list (map fst scan)) (if scan = [] then None else key_time (fst (last scan))))) records'"
  proof (cases "records' = []")
    case True
    then have "records = []" using old by simp
    from tracked this have "last_of c = None" "seen_of c = []" by (cases rule: tracked_cases; simp)+
    then show ?thesis using True empty
      by (auto simp: family_tracked_def merge_checkpoint_def family_checkpoint_default_def last_of_def seen_of_def Let_def split: option.splits)
  next
    case False
    then obtain t where t: "key_time (fst (last records')) = Some t" using timed [OF last_in_set] by blast
    have "set (seen_of c) \<subseteq> fst ` set records'" using tracked old by (cases rule: tracked_cases) auto
    moreover have "k \<in> fst ` set scan" if k: "k \<in> fst ` set records'" "overlap_start t \<le> k" for k
    proof -
      obtain r where r: "r \<in> set records'" "k = fst r" using k(1) by blast
      obtain u where u: "key_time (fst r) = Some u" using timed [OF r(1)] by blast
      have "t - nav_history_scan_overlap_us \<le> u" using overlap_start_le [OF u t] k(2) r(2) by simp
      moreover have "l \<le> t" if "last_of c = Some l" for l
      proof -
        from tracked that have "records \<noteq> []" "key_time (fst (last records)) = Some l" by (cases rule: tracked_cases; simp)+
        then show ?thesis using last_time_max [OF sorted(1) subsetD [OF old last_in_set] _ t] by blast
      qed
      ultimately have "?in r" using u r(1) by (intro from_l) force+
      then show ?thesis using r unfolding scan by auto
    qed
    ultimately have "set (filter (\<lambda>k. overlap_start t \<le> k) (seen_of c @ map fst scan))
        = {k \<in> fst ` set records'. overlap_start t \<le> k}"
      unfolding scan by auto
    then show ?thesis using False t last
      by (auto simp: family_tracked_def merge_checkpoint_def family_checkpoint_default_def seen_of_def Let_def split: option.splits)
  qed
qed

subsection \<open>Decoding by record\<close>

definition event_of :: "raw_record \<Rightarrow> nav_event" where
  "event_of r = projr (decode_event r)"

definition trade_of :: "raw_record \<Rightarrow> trade_update_event" where
  "trade_of r = projr (decode_trade_update (fst r) (snd r))"

lemma rmapM_map_iff: "rmapM f xs = Inr ys \<longleftrightarrow> (\<forall>x \<in> set xs. \<not> isl (f x)) \<and> ys = map (\<lambda>x. projr (f x)) xs"
proof (induction xs arbitrary: ys)
  case (Cons x xs)
  show ?case using Cons.IH by (cases "f x"; cases "rmapM f xs") (auto simp: rbind_Inr_iff)
qed auto

lemma rmapM_events: "rmapM decode_event rs = Inr es \<longleftrightarrow> (\<forall>r \<in> set rs. \<not> isl (decode_event r)) \<and> es = map event_of rs"
  unfolding rmapM_map_iff event_of_def ..

lemma rmapM_trades:
  "rmapM (\<lambda>(key, payload). decode_trade_update key payload) rs = Inr es
   \<longleftrightarrow> (\<forall>r \<in> set rs. \<not> isl (decode_trade_update (fst r) (snd r))) \<and> es = map trade_of rs"
  unfolding rmapM_map_iff trade_of_def by (simp add: case_prod_beta)

lemma chars_of_less: "k < k' \<Longrightarrow> chars_of k < chars_of k'"
proof (induction k arbitrary: k')
  case Nil
  then show ?case by (cases k') (simp_all add: chars_of_def)
next
  case (Cons b k)
  then obtain c r where k': "k' = c # r" by (cases k') auto
  have "char_of (unat b) < (char_of (unat c) :: char) \<longleftrightarrow> b < c" "(char_of (unat b) :: char) = char_of (unat c) \<longleftrightarrow> b = c"
    using byte_of_char [of b] byte_of_char [of c] by (auto simp: less_char_def byte_of_def word_less_nat_alt unsigned_word_eqI)
  then show ?case using Cons by (auto simp: k' chars_of_def)
qed

lemma decode_event_key: "decode_event r = Inr e \<Longrightarrow> ne_record_key e = chars_of (fst r)"
  by (auto simp: decode_event_def decode_uniform_order_def rbind_Inr_iff rmap_Inr_iff rmap_err_Inr_iff nav_event_from_def
      decode_timestamp_key_def Let_def split: if_splits)

lemma event_key: "\<not> isl (decode_event r) \<Longrightarrow> ne_record_key (event_of r) = chars_of (fst r)"
  by (cases "decode_event r") (auto simp: event_of_def decode_event_key)

lemma events_sorted:
  assumes "sorted_wrt (<) (map fst rs)" and "\<forall>r \<in> set rs. \<not> isl (decode_event r)"
  shows "sorted_wrt (<) (map (\<lambda>r. ne_record_key (event_of r)) rs)"
proof -
  have "sorted_wrt (\<lambda>r r'. fst r < fst r') rs" using assms(1) by (simp add: sorted_wrt_map)
  then have "sorted_wrt (\<lambda>r r'. ne_record_key (event_of r) < ne_record_key (event_of r')) rs"
    by (rule sorted_wrt_mono_rel [rotated]) (use assms(2) in \<open>simp add: event_key chars_of_less\<close>)
  then show ?thesis by (simp add: sorted_wrt_map)
qed

text \<open>The events in the order of their keys are determined by which they are.\<close>

lemma events_in_order:
  assumes "sorted_wrt (<) (map ne_record_key es)" and "sorted (map ne_record_key es')" and "mset es' = mset es"
  shows "es' = es"
proof -
  have d: "distinct (map ne_record_key es)" "sorted (map ne_record_key es)" using assms(1) by (simp_all add: strict_sorted_iff)
  have "mset (map ne_record_key es') = mset (map ne_record_key es)" using assms(3) by simp
  then have d': "distinct (map ne_record_key es')" using d(1) mset_eq_imp_distinct_iff by blast
  have s: "set es' = set es" using assms(3) by (rule mset_eq_setD)
  show ?thesis
    by (rule map_sorted_distinct_set_unique [OF _ assms(2) d' d(2,1) s]) (use d(1) s in \<open>simp add: distinct_map\<close>)
qed

subsection \<open>A scan of the families\<close>

definition unseen :: "(string, family_checkpoint) bmap \<Rightarrow> string \<Rightarrow> raw_record list \<Rightarrow> raw_record list" where
  "unseen checkpoints name rs = filter (\<lambda>r. fst r \<notin> set (seen_of (bm_get checkpoints name))) rs"

definition scanned_of :: "raw_record list \<Rightarrow> bytes list \<times> i64 option" where
  "scanned_of rs = (set_of_list (map fst rs), if rs = [] then None else key_time (fst (last rs)))"

lemma scan_one:
  assumes "scan_family cps b (name, rs) = Inr b'" and timed: "\<forall>r \<in> set rs. key_time (fst r) \<noteq> None"
  shows "sb_new_events b' = sb_new_events b @ (if name = uniform_orders_cf then map event_of (unseen cps name rs) else [])"
    "name = uniform_orders_cf \<Longrightarrow> r \<in> set (unseen cps name rs) \<Longrightarrow> \<not> isl (decode_event r)"
    "sb_new_trades b' = (if name = uniform_orders_cf \<or> unseen cps name rs = [] then sb_new_trades b
       else bm_insert name (unseen cps name rs) (sb_new_trades b))"
    "sb_scanned b' = bm_insert name (scanned_of rs) (sb_scanned b)"
proof -
  have f: "filter (\<lambda>r. fst r \<notin> set (seen_keys cps name)) rs = unseen cps name rs"
    by (simp add: unseen_def seen_keys_def seen_of_def)
  have last: "(if rs = [] then Inr None else rmap Some (parse_record_key_ts (fst (last rs)))) = Inr (snd (scanned_of rs))"
  proof (cases "rs = []")
    case False
    then obtain t where "key_time (fst (last rs)) = Some t" using timed by fastforce
    then show ?thesis using False parse_record_key [of "fst (last rs)" t] by (simp add: scanned_of_def rmap_def)
  qed (simp add: scanned_of_def)
  note s = assms(1) [unfolded scan_family_def prod.case Let_def f last rbind_simps]
  show "sb_new_events b' = sb_new_events b @ (if name = uniform_orders_cf then map event_of (unseen cps name rs) else [])"
    "name = uniform_orders_cf \<Longrightarrow> r \<in> set (unseen cps name rs) \<Longrightarrow> \<not> isl (decode_event r)"
    "sb_new_trades b' = (if name = uniform_orders_cf \<or> unseen cps name rs = [] then sb_new_trades b
       else bm_insert name (unseen cps name rs) (sb_new_trades b))"
    "sb_scanned b' = bm_insert name (scanned_of rs) (sb_scanned b)"
    using s by (auto simp: rbind_Inr_iff rmap_Inr_iff rmapM_events scanned_of_def split: if_splits)
qed

lemma scan_fold:
  assumes "rfold (scan_family cps) b scans = Inr b'" and "distinct (map fst scans)"
    and "\<forall>scan \<in> set scans. \<forall>r \<in> set (snd scan). key_time (fst r) \<noteq> None"
  shows "sb_new_events b' = sb_new_events b @ (case bm_get scans uniform_orders_cf of None \<Rightarrow> [] | Some rs \<Rightarrow> map event_of (unseen cps uniform_orders_cf rs))
    \<and> (\<forall>rs. bm_get scans uniform_orders_cf = Some rs \<longrightarrow> (\<forall>r \<in> set (unseen cps uniform_orders_cf rs). \<not> isl (decode_event r)))
    \<and> (\<forall>n. bm_get (sb_new_trades b') n = (case bm_get scans n of None \<Rightarrow> bm_get (sb_new_trades b) n
          | Some rs \<Rightarrow> if n = uniform_orders_cf \<or> unseen cps n rs = [] then bm_get (sb_new_trades b) n else Some (unseen cps n rs)))
    \<and> (\<forall>n. bm_get (sb_scanned b') n = (case bm_get scans n of None \<Rightarrow> bm_get (sb_scanned b) n | Some rs \<Rightarrow> Some (scanned_of rs)))
    \<and> (bm_wf (sb_new_trades b) \<longrightarrow> bm_wf (sb_new_trades b')) \<and> (bm_wf (sb_scanned b) \<longrightarrow> bm_wf (sb_scanned b'))"
  using assms
proof (induction scans arbitrary: b)
  case (Cons scan scans)
  obtain name rs where scan: "scan = (name, rs)" by fastforce
  obtain b1 where b1: "scan_family cps b (name, rs) = Inr b1" "rfold (scan_family cps) b1 scans = Inr b'"
    using Cons.prems(1) by (auto simp: scan rbind_Inr_iff)
  have timed: "\<forall>r \<in> set rs. key_time (fst r) \<noteq> None" using Cons.prems(3) by (simp add: scan)
  note one = scan_one [OF b1(1) timed]
  have none: "bm_get scans name = None" using Cons.prems(2) by (simp add: scan bm_get_None_iff)
  have d: "distinct (map fst scans)" "\<forall>scan \<in> set scans. \<forall>r \<in> set (snd scan). key_time (fst r) \<noteq> None" using Cons.prems(2,3) by simp_all
  note IH = Cons.IH [OF b1(2) d]
  show ?case using IH one(2) none unfolding scan one(1,3,4)
    by (cases "name = uniform_orders_cf") (auto split: option.split)
qed auto

lemma scans_get:
  "bm_get (read_column_families_from db (requests cps)) n
     = (if n \<in> set nav_history_column_families then map_option (scan_of (bm_get cps n)) (bm_get (sd_families db) n) else None)"
  by (auto simp: read_column_families_from_def requests_def nav_history_column_families_def scan_of_def uniform_orders_cf_def
      trade_updates_cf_def trade_updates_unmatched_cf_def split: option.split)

lemma scans_wf: "bm_wf (read_column_families_from db (requests cps))"
proof -
  have "bm_wf acc \<Longrightarrow> bm_wf (foldl (\<lambda>result (name, start). case bm_get (sd_families db) name of None \<Rightarrow> result
       | Some records \<Rightarrow> bm_insert name (case start of None \<Rightarrow> records | Some k \<Rightarrow> dropWhile (\<lambda>r. fst r < k) records) result) acc rs)" for acc rs
    by (induction rs arbitrary: acc) (auto split: option.split)
  then show ?thesis by (simp add: read_column_families_from_def)
qed

lemma checkpoints_get:
  "bm_wf scanned \<Longrightarrow> bm_get (foldl update_checkpoint cps scanned) n
     = (case bm_get scanned n of None \<Rightarrow> bm_get cps n | Some (keys, ts) \<Rightarrow> Some (merge_checkpoint (bm_get cps n) keys ts))"
proof (induction scanned arbitrary: cps)
  case (Cons a scanned)
  obtain name keys ts where a: "a = (name, keys, ts)" by (cases a) auto
  have "bm_get scanned name = None" "bm_wf scanned" using Cons.prems unfolding a bm_wf_Cons bm_get_None_iff by auto
  then show ?case using Cons.IH [of "update_checkpoint cps a"] by (auto simp: a update_checkpoint_def split: option.split)
qed simp

definition new_records :: "source_db \<Rightarrow> source_db \<Rightarrow> string \<Rightarrow> raw_record list" where
  "new_records db db' name = filter (\<lambda>r. r \<notin> set (family db name)) (family db' name)"

definition trade_records :: "source_db \<Rightarrow> raw_record set" where
  "trade_records db = set (family db trade_updates_cf) \<union> set (family db trade_updates_unmatched_cf)"

lemma vals_set: "bm_wf m \<Longrightarrow> set (concat (bm_vals m)) = {r. \<exists>n rs. bm_get m n = Some rs \<and> r \<in> set rs}"
  by (force simp: bm_vals_def simp flip: bm_get_mem)

lemma goes_on_family:
  assumes "goes_on db db'"
  shows "set (family db n) \<subseteq> set (family db' n)" "family db' n = [] \<Longrightarrow> family db n = []"
  using assms unfolding goes_on_def by (blast, metis set_empty2 subset_empty set_empty)

text \<open>Each family of a database that goes on is read once.\<close>

lemma family_read:
  assumes tracked: "family_tracked (bm_get cps n) (family db n)" and ok: "db_ok db'" and on: "goes_on db db'"
  defines "scan \<equiv> scan_of (bm_get cps n) (family db' n)"
  shows "unseen cps n scan = new_records db db' n"
    "family_tracked (Some (merge_checkpoint (bm_get cps n) (fst (scanned_of scan)) (snd (scanned_of scan)))) (family db' n)"
proof -
  have sorted: "sorted_wrt (<) (map fst (family db' n))" "\<forall>r \<in> set (family db' n). key_time (fst r) \<noteq> None" using ok unfolding db_ok_def by blast+
  have late: "\<forall>r \<in> set (family db' n) - set (family db n). \<forall>last_ts t. family db n \<noteq> [] \<and> key_time (fst (last (family db n))) = Some last_ts
    \<and> key_time (fst r) = Some t \<longrightarrow> last_ts - nav_history_scan_overlap_us \<le> t" using on unfolding goes_on_def by blast
  note fs = family_scan [OF tracked sorted goes_on_family(1) [OF on] late]
  show "unseen cps n scan = new_records db db' n" using fs(1) by (simp add: new_records_def unseen_def scan_def)
  show "family_tracked (Some (merge_checkpoint (bm_get cps n) (fst (scanned_of scan)) (snd (scanned_of scan)))) (family db' n)"
    using fs(4) by (simp add: scanned_of_def scan_def)
qed

lemma scans_timed:
  assumes ok: "db_ok db"
  shows "\<forall>scan \<in> set (read_column_families_from db (requests cps)). \<forall>r \<in> set (snd scan). key_time (fst r) \<noteq> None"
proof (intro ballI)
  fix scan r assume "scan \<in> set (read_column_families_from db (requests cps))" and r: "r \<in> set (snd scan)"
  then obtain rs where rs: "bm_get (sd_families db) (fst scan) = Some rs" "snd scan = scan_of (bm_get cps (fst scan)) rs"
    using bm_get_mem [OF scans_wf, of "fst scan" "snd scan"] by (auto simp: scans_get split: if_splits)
  then have "r \<in> set (family db (fst scan))"
    using r unfolding scan_of_def family_def by (auto split: option.splits dest: set_dropWhileD)
  then show "key_time (fst r) \<noteq> None" using ok unfolding db_ok_def by blast
qed

lemma families_scanned:
  assumes scan: "scan_families cps db' = Inr b" and ok: "db_ok db'" and on: "goes_on db db'"
    and tracked: "\<forall>n \<in> set nav_history_column_families. family_tracked (bm_get cps n) (family db n)"
  shows "sb_new_events b = map event_of (new_records db db' uniform_orders_cf)
      \<and> (\<forall>r \<in> set (new_records db db' uniform_orders_cf). \<not> isl (decode_event r))"
    "bm_get (sb_new_trades b) n = Some rs
      \<longleftrightarrow> n \<in> {trade_updates_cf, trade_updates_unmatched_cf} \<and> rs = new_records db db' n \<and> rs \<noteq> []"
    "bm_wf (sb_new_trades b)" "bm_wf (sb_scanned b)"
    "bm_get (sb_scanned b) n = (if n \<in> set nav_history_column_families \<and> bm_contains (sd_families db') n
       then Some (scanned_of (scan_of (bm_get cps n) (family db' n))) else None)"
proof -
  let ?scans = "read_column_families_from db' (requests cps)"
  have s: "bm_contains ?scans uniform_orders_cf"
    "rfold (scan_family cps) \<lparr>sb_new_events = [], sb_new_trades = [], sb_scanned = []\<rparr> ?scans = Inr b"
    using scan by (auto simp: scan_families_def rbind_Inr_iff rensure_def Let_def split: if_splits)
  have "distinct (map fst ?scans)" using scans_wf unfolding bm_wf_def strict_sorted_iff by blast
  note sf = scan_fold [OF s(2) this scans_timed [OF ok], simplified]
  have get: "bm_get ?scans n = (if n \<in> set nav_history_column_families \<and> bm_contains (sd_families db') n
       then Some (scan_of (bm_get cps n) (family db' n)) else None)" for n
    by (auto simp: scans_get bm_contains_def family_def)
  have new: "unseen cps n ys = new_records db db' n" if "bm_get ?scans n = Some ys" for n ys
    using that tracked family_read(1) [OF _ ok on, of cps n] by (auto simp: get split: if_splits)
  obtain us where us: "bm_get ?scans uniform_orders_cf = Some us" using s(1) by (auto simp: bm_contains_def)
  show "sb_new_events b = map event_of (new_records db db' uniform_orders_cf)
      \<and> (\<forall>r \<in> set (new_records db db' uniform_orders_cf). \<not> isl (decode_event r))" using sf us new [OF us] by simp
  show "bm_wf (sb_new_trades b)" "bm_wf (sb_scanned b)" using sf by simp_all
  show "bm_get (sb_scanned b) n = (if n \<in> set nav_history_column_families \<and> bm_contains (sd_families db') n
       then Some (scanned_of (scan_of (bm_get cps n) (family db' n))) else None)" using sf by (simp add: get)
  show "bm_get (sb_new_trades b) n = Some rs
      \<longleftrightarrow> n \<in> {trade_updates_cf, trade_updates_unmatched_cf} \<and> rs = new_records db db' n \<and> rs \<noteq> []"
  proof (cases "bm_get ?scans n")
    case None
    then have "n \<in> {trade_updates_cf, trade_updates_unmatched_cf} \<Longrightarrow> family db' n = []"
      by (auto simp: get family_def bm_contains_def nav_history_column_families_def split: if_splits)
    then show ?thesis using sf None by (auto simp: new_records_def)
  next
    case (Some ys)
    then have "n \<in> set nav_history_column_families" by (auto simp: get split: if_splits)
    then show ?thesis using sf Some new [OF Some]
      by (auto simp: nav_history_column_families_def uniform_orders_cf_def trade_updates_cf_def trade_updates_unmatched_cf_def)
  qed
qed

lemma families_tracked:
  assumes scan: "scan_families cps db' = Inr b" and ok: "db_ok db'" and on: "goes_on db db'"
    and tracked: "\<forall>n \<in> set nav_history_column_families. family_tracked (bm_get cps n) (family db n)"
  shows "\<forall>n \<in> set nav_history_column_families. family_tracked (bm_get (foldl update_checkpoint cps (sb_scanned b)) n) (family db' n)"
    "set (concat (bm_vals (sb_new_trades b))) \<union> trade_records db = trade_records db'"
proof -
  note fs = families_scanned [OF scan ok on tracked]
  show "\<forall>n \<in> set nav_history_column_families. family_tracked (bm_get (foldl update_checkpoint cps (sb_scanned b)) n) (family db' n)"
  proof
    fix n assume n: "n \<in> set nav_history_column_families"
    have t: "family_tracked (bm_get cps n) (family db n)" using tracked n by blast
    show "family_tracked (bm_get (foldl update_checkpoint cps (sb_scanned b)) n) (family db' n)"
    proof (cases "bm_contains (sd_families db') n")
      case False
      then have "family db' n = []" by (simp add: family_def bm_contains_def)
      then show ?thesis using t False goes_on_family(2) [OF on, of n] by (simp add: checkpoints_get [OF fs(4)] fs(5))
    next
      case True
      then show ?thesis using n family_read(2) [OF t ok on] by (simp add: checkpoints_get [OF fs(4)] fs(5) case_prod_beta)
    qed
  qed
  have "set (concat (bm_vals (sb_new_trades b)))
      = set (new_records db db' trade_updates_cf) \<union> set (new_records db db' trade_updates_unmatched_cf)"
    unfolding vals_set [OF fs(3)] fs(2) by force
  then show "set (concat (bm_vals (sb_new_trades b))) \<union> trade_records db = trade_records db'"
    using goes_on_family(1) [OF on] by (auto simp: trade_records_def new_records_def)
qed

subsection \<open>Roles, batch after batch\<close>

definition roles_seen :: "order_key \<Rightarrow> raw_record set \<Rightarrow> liquidity_role set" where
  "roles_seen k rs = trade_role ` {e \<in> trade_of ` rs. relevant_trade e \<and> trade_key e = k}"

lemma roles_seen_map: "observed_roles k (map trade_of rs) = roles_seen k (set rs)"
  by (simp add: observed_roles_def roles_seen_def)

lemma roles_seen_Un: "roles_seen k (a \<union> b) = roles_seen k a \<union> roles_seen k b"
  by (auto simp: roles_seen_def)

lemma roles_seen_sub: "roles_seen k rs \<subseteq> {Maker, Taker}"
  by (auto simp: roles_seen_def trade_role_def)

lemma evidence_again:
  assumes "a \<subseteq> {Maker, Taker}" and "b \<subseteq> {Maker, Taker}"
  shows "evidence (set_option (evidence a) \<union> b) = evidence (a \<union> b)"
proof -
  have e: "evidence {} = None" "evidence {r} = Some r" "evidence {Maker, Taker} = Some Unknown" "evidence {Maker, Unknown} = Some Unknown"
    "evidence {Taker, Unknown} = Some Unknown" "evidence {Maker, Taker, Unknown} = Some Unknown" for r by (simp_all add: evidence_def)
  have "x = {} \<or> x = {Maker} \<or> x = {Taker} \<or> x = {Maker, Taker}" if "x \<subseteq> {Maker, Taker}" for x :: "liquidity_role set" using that by auto
  from this [OF assms(1)] this [OF assms(2)] show ?thesis by (elim disjE) (simp_all add: e insert_commute)
qed

definition roles_of_records :: "liquidity_by_order \<Rightarrow> raw_record set \<Rightarrow> bool" where
  "roles_of_records roles rs \<longleftrightarrow> bm_wf roles \<and> (\<forall>r \<in> rs. \<not> isl (decode_trade_update (fst r) (snd r)))
     \<and> (\<forall>k. bm_get roles k = evidence (roles_seen k rs))"

lemma merge_batch:
  assumes "merge_liquidity_records roles families = Inr (roles', changed)" and "roles_of_records roles rs"
  shows "roles_of_records roles' (rs \<union> set (concat families))"
proof -
  obtain es where es: "rmapM (\<lambda>(key, payload). decode_trade_update key payload) (concat families) = Inr es"
    "\<And>k. bm_get roles' k = evidence (set_option (bm_get roles k) \<union> observed_roles k es)"
    "bm_wf roles \<Longrightarrow> bm_wf roles'" using merge_records [OF assms(1)] by metis
  have dec: "\<forall>r \<in> set (concat families). \<not> isl (decode_trade_update (fst r) (snd r))" "es = map trade_of (concat families)"
    using es(1) unfolding rmapM_trades by blast+
  have r: "bm_wf roles" "\<forall>r \<in> rs. \<not> isl (decode_trade_update (fst r) (snd r))" "\<And>k. bm_get roles k = evidence (roles_seen k rs)"
    using assms(2) unfolding roles_of_records_def by blast+
  have "bm_get roles' k = evidence (roles_seen k (rs \<union> set (concat families)))" for k
    unfolding es(2) dec(2) r(3) roles_seen_map roles_seen_Un by (rule evidence_again [OF roles_seen_sub roles_seen_sub])
  then show ?thesis using es(3) [OF r(1)] r(2) dec(1) unfolding roles_of_records_def by blast
qed

lemma merge_total:
  assumes "\<forall>r \<in> set (concat families). \<not> isl (decode_trade_update (fst r) (snd r))"
  shows "\<exists>roles' changed. merge_liquidity_records roles families = Inr (roles', changed)"
proof -
  have "\<exists>st'. rfold (\<lambda>st (key, payload). rbind (rmap_err NavDecode (decode_trade_update key payload)) (\<lambda>e. Inr (merge_liquidity_record st e)))
      st rs = Inr st'" if "\<forall>r \<in> set rs. \<not> isl (decode_trade_update (fst r) (snd r))" for rs st
    using that
  proof (induction rs arbitrary: st)
    case (Cons r rs)
    obtain e where "decode_trade_update (fst r) (snd r) = Inr e" using Cons.prems by (auto simp: isl_def) (metis sum.exhaust)
    then show ?case using Cons.IH [of "merge_liquidity_record st e"] Cons.prems by (simp add: case_prod_beta)
  qed simp
  from this [OF assms, of "(roles, [])"] show ?thesis by (auto simp: merge_liquidity_records_def rmap_def)
qed

text \<open>The table of the full load.\<close>

lemma roles_unique: "roles_of_records a rs \<Longrightarrow> roles_of_records b rs \<Longrightarrow> a = b"
  by (rule bm_ext) (auto simp: roles_of_records_def)

lemma available_get:
  "bm_get (read_available_column_families db names) n = (if n \<in> set names then bm_get (sd_families db) n else None)"
  "bm_wf (read_available_column_families db names)"
proof -
  have "bm_get (foldl (\<lambda>result (name, start). case bm_get (sd_families db) name of None \<Rightarrow> result
       | Some records \<Rightarrow> bm_insert name (case start of None \<Rightarrow> records | Some k \<Rightarrow> dropWhile (\<lambda>r. fst r < k) records) result) acc
         (map (\<lambda>name. (name, None)) names)) n = (if n \<in> set names \<and> bm_get (sd_families db) n \<noteq> None then bm_get (sd_families db) n else bm_get acc n)" for acc
    by (induction names arbitrary: acc) (auto split: option.split)
  then show "bm_get (read_available_column_families db names) n = (if n \<in> set names then bm_get (sd_families db) n else None)"
    by (auto simp: read_available_column_families_def read_column_families_from_def)
  have "bm_wf acc \<Longrightarrow> bm_wf (foldl (\<lambda>result (name, start). case bm_get (sd_families db) name of None \<Rightarrow> result
       | Some records \<Rightarrow> bm_insert name (case start of None \<Rightarrow> records | Some k \<Rightarrow> dropWhile (\<lambda>r. fst r < k) records) result) acc
         (map (\<lambda>name. (name, None)) names))" for acc
    by (induction names arbitrary: acc) (auto split: option.split)
  then show "bm_wf (read_available_column_families db names)"
    by (simp add: read_available_column_families_def read_column_families_from_def)
qed

lemma full_roles:
  assumes "roles_of_records roles (trade_records db)"
  shows "decode_liquidity_by_order (bm_remove uniform_orders_cf (read_available_column_families db nav_history_column_families)) = Inr roles"
proof -
  let ?m = "bm_remove uniform_orders_cf (read_available_column_families db nav_history_column_families)"
  have get: "bm_get ?m n = (if n \<in> {trade_updates_cf, trade_updates_unmatched_cf} then bm_get (sd_families db) n else None)" for n
    by (auto simp: available_get nav_history_column_families_def uniform_orders_cf_def trade_updates_cf_def trade_updates_unmatched_cf_def)
  have fam: "r \<in> set (family db n) \<longleftrightarrow> (\<exists>rs. bm_get (sd_families db) n = Some rs \<and> r \<in> set rs)" for r n by (cases "bm_get (sd_families db) n") (auto simp: family_def)
  have records: "set (concat (bm_vals ?m)) = trade_records db"
    unfolding vals_set [OF bm_wf_remove [OF available_get(2)]] get trade_records_def by (auto simp only: fam split: if_splits)
  have "\<forall>r \<in> set (concat (bm_vals ?m)). \<not> isl (decode_trade_update (fst r) (snd r))"
    using assms unfolding records roles_of_records_def by blast
  from merge_total [OF this] obtain roles' changed where m: "merge_liquidity_records [] (bm_vals ?m) = Inr (roles', changed)" by blast
  have "roles_of_records [] {}" by (simp add: roles_of_records_def roles_seen_def evidence_def)
  from merge_batch [OF m this] have "roles' = roles" unfolding records using roles_unique [OF _ assms] by simp
  then show ?thesis using m by (simp add: decode_liquidity_by_order_def rmap_def)
qed

subsection \<open>The reader\<close>

definition tracks :: "incremental \<Rightarrow> source_db \<Rightarrow> bool" where
  "tracks s db \<longleftrightarrow> db_ok db \<and> ih_db_identity s = sd_identity db
     \<and> (\<forall>n \<in> set nav_history_column_families. family_tracked (bm_get (ih_checkpoints s) n) (family db n))
     \<and> (\<forall>r \<in> set (family db uniform_orders_cf). \<not> isl (decode_event r))
     \<and> mset (combined_events s []) = mset (map event_of (family db uniform_orders_cf))
     \<and> (ih_raw_events s = None \<longrightarrow> nh_events (ih_history s) = map event_of (family db uniform_orders_cf))
     \<and> roles_of_records (nh_liquidity_by_order (ih_history s)) (trade_records db)"

lemma tracks_default: "tracks incremental_default no_db"
  by (simp add: tracks_def incremental_default_def no_db_def db_ok_def family_def family_tracked_def combined_events_def
      default_history_def roles_of_records_def trade_records_def roles_seen_def evidence_def)

lemma combined_journal: "combined_events (s\<lparr>ih_journal := j\<rparr>) news = combined_events s news"
  by (cases "ih_raw_events s") (simp_all add: combined_events_def)

lemma tracks_journal: "tracks (s\<lparr>ih_journal := j\<rparr>) db = tracks s db"
  by (simp add: tracks_def combined_journal)

lemma not_recreated: "tracks s db \<Longrightarrow> goes_on db db' \<Longrightarrow> \<not> recreated s db'"
  by (auto simp: tracks_def goes_on_def recreated_def)

text \<open>The records of a family that goes on are the old ones and the new ones.\<close>

lemma family_split:
  assumes "db_ok db" "db_ok db'" "goes_on db db'"
  shows "mset (family db' n) = mset (family db n @ new_records db db' n)"
proof -
  have distinct: "distinct (family d n)" if "db_ok d" for d
    using that unfolding db_ok_def strict_sorted_iff distinct_map by blast
  have "distinct (family db n @ new_records db db' n)" using distinct [OF assms(1)] distinct [OF assms(2)] by (auto simp: new_records_def)
  moreover have "set (family db' n) = set (family db n @ new_records db db' n)" using goes_on_family(1) [OF assms(3)] by (auto simp: new_records_def)
  ultimately show ?thesis using distinct [OF assms(2)] by (simp only: set_eq_iff_mset_eq_distinct)
qed

lemma next_events_sorted:
  assumes "sorted (map ne_record_key events)" and "sorted (map ne_record_key news)"
  shows "sorted (map ne_record_key (next_events events news None))"
proof (cases "out_of_order events news")
  case False
  have "x \<le> y" if xy: "x \<in> set (map ne_record_key events)" "y \<in> set (map ne_record_key news)" for x y
  proof -
    have ne: "events \<noteq> []" "news \<noteq> []" using xy by auto
    then have "ne_record_key (last events) \<le> ne_record_key (hd news)" using False by (simp add: out_of_order_def not_less)
    moreover have "x \<le> ne_record_key (last events)" using assms(1) xy(1) ne(1)
      by (cases events rule: rev_cases) (auto simp: sorted_append)
    moreover have "ne_record_key (hd news) \<le> y" using assms(2) xy(2) ne(2) by (cases news) auto
    ultimately show ?thesis by (meson order_trans)
  qed
  then have "sorted (map ne_record_key events @ map ne_record_key news)" using assms by (simp add: sorted_append)
  then show ?thesis using False by (simp add: next_events_def)
qed (simp add: next_events_def)

lemma commit_fields:
  assumes "commit_refresh s revision identity b recovered roles changed = (s', revision')"
  shows "ih_db_identity s' = identity" "ih_checkpoints s' = foldl update_checkpoint (ih_checkpoints s) (sb_scanned b)"
    "nh_liquidity_by_order (ih_history s') = roles"
    "ih_raw_events s' = (if recovered \<noteq> None \<or> ih_raw_events s \<noteq> None then Some (combined_events s (sb_new_events b)) else None)"
    "nh_events (ih_history s') = next_events (nh_events (ih_history s)) (sb_new_events b) (recovered_events s (sb_new_events b) recovered)"
  using assms by (auto simp: commit_refresh_def Let_def split: prod.splits)

lemma commit_tracks:
  assumes t: "tracks s db" and ok: "db_ok db'" and on: "goes_on db db'"
    and scan: "scan_families (ih_checkpoints s) db' = Inr b"
    and m: "merge_liquidity_records (nh_liquidity_by_order (ih_history s)) (bm_vals (sb_new_trades b)) = Inr (roles, changed)"
    and c: "commit_refresh s revision (sd_identity db') b recovered roles changed = (s', revision')"
  shows "tracks s' db'"
proof -
  let ?u = "uniform_orders_cf"
  have tr: "db_ok db" "\<forall>n \<in> set nav_history_column_families. family_tracked (bm_get (ih_checkpoints s) n) (family db n)"
    "\<forall>r \<in> set (family db ?u). \<not> isl (decode_event r)" "mset (combined_events s []) = mset (map event_of (family db ?u))"
    "ih_raw_events s = None \<Longrightarrow> nh_events (ih_history s) = map event_of (family db ?u)"
    "roles_of_records (nh_liquidity_by_order (ih_history s)) (trade_records db)" using t unfolding tracks_def by blast+
  note f = commit_fields [OF c]
  note ft = families_tracked [OF scan ok on tr(2)]
  note fs = families_scanned(1) [OF scan ok on tr(2)]
  have new: "sb_new_events b = map event_of (new_records db db' ?u)" "\<forall>r \<in> set (new_records db db' ?u). \<not> isl (decode_event r)" using fs by blast+
  have split: "mset (family db' ?u) = mset (family db ?u @ new_records db db' ?u)" by (rule family_split [OF tr(1) ok on])
  then have "set (family db' ?u) = set (family db ?u @ new_records db db' ?u)" by (rule mset_eq_setD)
  then have dec: "\<forall>r \<in> set (family db' ?u). \<not> isl (decode_event r)" using tr(3) new(2) by auto
  have "mset (combined_events s (sb_new_events b)) = mset (combined_events s []) + mset (sb_new_events b)" by (simp add: combined_events_def)
  also have "\<dots> = image_mset event_of (mset (family db ?u @ new_records db db' ?u))" unfolding tr(4) new(1) by simp
  finally have all: "mset (combined_events s (sb_new_events b)) = mset (map event_of (family db' ?u))" unfolding split [symmetric] by simp
  have sorted: "sorted_wrt (<) (map ne_record_key (map event_of (family d ?u)))" if "db_ok d" "\<forall>r \<in> set (family d ?u). \<not> isl (decode_event r)" for d
    using events_sorted [of "family d ?u"] that unfolding db_ok_def by (simp add: comp_def)
  have plain: "nh_events (ih_history s') = map event_of (family db' ?u)" if raw: "ih_raw_events s' = None"
  proof -
    have none: "recovered = None" "ih_raw_events s = None" using raw f(4) by (auto split: if_splits)
    then have ev: "nh_events (ih_history s') = next_events (map event_of (family db ?u)) (sb_new_events b) None"
      using f(5) tr(5) by (simp add: recovered_events_def)
    have "sorted_wrt (<) (map ne_record_key (map event_of (new_records db db' ?u)))"
      using sorted [OF ok dec] unfolding new_records_def by (simp add: sorted_wrt_map sorted_wrt_filter)
    then have "sorted (map ne_record_key (nh_events (ih_history s')))"
      unfolding ev using sorted [OF tr(1,3)] new(1) by (intro next_events_sorted) (simp_all only: strict_sorted_iff)
    moreover have "mset (nh_events (ih_history s')) = mset (map event_of (family db' ?u))"
      using all none tr(5) unfolding ev by (simp add: next_events_mset combined_events_def)
    ultimately show ?thesis by (rule events_in_order [OF sorted [OF ok dec]])
  qed
  have "mset (combined_events s' []) = mset (map event_of (family db' ?u))"
    using all plain f(4) by (cases "ih_raw_events s'") (auto simp: combined_events_def [of s'] split: if_splits)
  moreover have "roles_of_records roles (trade_records db')" using merge_batch [OF m tr(6)] ft(2) by (simp add: Un_commute)
  ultimately show ?thesis using ok f(1,2,3) ft(1) dec plain unfolding tracks_def by simp
qed

lemma refresh_tracks:
  assumes t: "tracks s db" and on: "goes_on db db'" and r: "refresh_source rc source db' (s, revision) = (r, s', revision')"
  shows "case r of Inl _ \<Rightarrow> tracks s' db | Inr _ \<Rightarrow> db_ok db' \<longrightarrow> tracks s' db'"
proof (cases "scan_families (ih_checkpoints s) db'")
  case (Inl e)
  then show ?thesis using r t not_recreated [OF t on] by (auto simp: refresh_source_def)
next
  case (Inr b)
  obtain res j where j: "recover rc source (combined_events s (sb_new_events b)) (ih_journal s) = (res, j)" by fastforce
  note r = r [unfolded refresh_source_def prod.case Let_def, simplified not_recreated [OF t on] if_False Inr sum.case j prod.case]
  let ?s = "s\<lparr>ih_journal := j\<rparr>"
  have tj: "tracks ?s db" using t by (simp add: tracks_journal)
  show ?thesis
  proof (cases res)
    case (Inl e)
    then show ?thesis using r tj by auto
  next
    case rec: (Inr recovered)
    show ?thesis
    proof (cases "merge_liquidity_records (nh_liquidity_by_order (ih_history s)) (bm_vals (sb_new_trades b))")
      case (Inl e)
      then show ?thesis using r rec tj by auto
    next
      case m: (Inr x)
      obtain roles changed where x: "x = (roles, changed)" by fastforce
      have c: "commit_refresh ?s revision (sd_identity db') b recovered roles changed = (s', revision')" "r = Inr ()"
        using r rec m x by auto
      have "tracks s' db'" if ok: "db_ok db'"
        by (rule commit_tracks [OF tj ok on _ _ c(1)]) (use Inr m x in simp_all)
      then show ?thesis using c(2) by simp
    qed
  qed
qed

lemma followed_tracks: "followed source db s \<Longrightarrow> tracks s db"
proof (induction rule: followed.induct)
  case start
  show ?case by (rule tracks_default)
next
  case (refreshed db s db' rc revision s' revision')
  then show ?case using refresh_tracks [OF _ refreshed.hyps(3,4)] by simp
next
  case (failed db s db' rc revision e s' revision')
  then show ?case using refresh_tracks [OF _ failed.hyps(2,3)] by simp
qed

text \<open>
  C5: The incremental reader reads every record once. However often it refreshed over a database that
  goes on (scans that overlap by five minutes, late records, failed refreshes in between), its events
  before recovery are the events of the full load, in the same order while nothing is recovered, its
  liquidity table is the full load's table, and the full load succeeds unless its recovery of fills
  fails.
\<close>

theorem incremental_reads_all:
  assumes "followed source db s" and "sd_readable db" and "bm_contains (sd_families db) uniform_orders_cf"
  shows "\<exists>es. mset (combined_events s []) = mset es
    \<and> (ih_raw_events s = None \<longrightarrow> nh_events (ih_history s) = es)
    \<and> (\<forall>rc. load_source_history rc source db =
          rbind (rmap_err HistoryEvidence (fst (recover rc source es journal_default))) (\<lambda>recovered.
          Inr (default_history\<lparr>nh_events := (case recovered of None \<Rightarrow> es | Some es' \<Rightarrow> es'),
                 nh_liquidity_by_order := nh_liquidity_by_order (ih_history s)\<rparr>)))"
proof -
  let ?es = "map event_of (family db uniform_orders_cf)"
  have t: "tracks s db" by (rule followed_tracks [OF assms(1)])
  obtain us where us: "bm_get (sd_families db) uniform_orders_cf = Some us" using assms(3) by (auto simp: bm_contains_def)
  then have fam: "family db uniform_orders_cf = us" by (simp add: family_def)
  have get: "bm_get (read_available_column_families db nav_history_column_families) uniform_orders_cf = Some us"
    using us by (simp add: available_get nav_history_column_families_def)
  have "rmapM decode_event us = Inr ?es" unfolding rmapM_events fam using t fam by (simp add: tracks_def)
  moreover have "decode_liquidity_by_order (bm_remove uniform_orders_cf (read_available_column_families db nav_history_column_families))
      = Inr (nh_liquidity_by_order (ih_history s))" by (rule full_roles) (use t in \<open>simp add: tracks_def\<close>)
  ultimately have "load_source_history rc source db =
          rbind (rmap_err HistoryEvidence (fst (recover rc source ?es journal_default))) (\<lambda>recovered.
          Inr (default_history\<lparr>nh_events := (case recovered of None \<Rightarrow> ?es | Some es' \<Rightarrow> es'),
                 nh_liquidity_by_order := nh_liquidity_by_order (ih_history s)\<rparr>))" for rc
    by (simp add: load_source_history_def get assms(2) rensure_def)
  moreover have "mset (combined_events s []) = mset ?es" "ih_raw_events s = None \<longrightarrow> nh_events (ih_history s) = ?es"
    using t unfolding tracks_def by blast+
  ultimately show ?thesis by (intro exI [of _ ?es] conjI allI)
qed

subsection \<open>A database of one order\<close>

definition sample_record :: raw_record where
  "sample_record = (zero_key, uniform_layout sample_uniform)"

definition sample_db :: source_db where
  "sample_db = \<lparr>sd_current = True, sd_readable = True, sd_identity = Some [7], sd_families = [(uniform_orders_cf, [sample_record])]\<rparr>"

definition sample_recovery :: recovery where
  "sample_recovery = \<lparr>rc_stored = (\<lambda>_. None), rc_json = (\<lambda>_. None), rc_sha = id,
     rc_input = \<lparr>ei_values = None, ei_records = None, ei_data_dir = [], ei_directory = (\<lambda>_. None)\<rparr>\<rparr>"

definition sample_event :: nav_event where
  "sample_event = nav_event_from (uniform_event (replicate 20 CHR ''0'', 0) sample_uniform)"

lemma sample_record_decodes: "decode_event sample_record = Inr sample_event"
proof -
  have "decode_uniform_order zero_key (uniform_layout sample_uniform) = Inr (uniform_event (replicate 20 CHR ''0'', 0) sample_uniform)"
    by (rule uniform_order_iff [THEN iffD2])
      (auto simp: zero_key_decodes uniform_layout_def sample_uniform_def uniform_fields_ok_def isize_max_def
        enc_string_def enc_prefixed_def intro!: exI [of _ sample_uniform])
  then show ?thesis by (simp add: decode_event_def sample_record_def sample_event_def)
qed

lemma sample_priced: "\<not> needs_price sample_event"
proof -
  have "f64_of_bits 0 = Fin 0" by (simp add: f64_of_bits_def Let_def)
  then show ?thesis by (simp add: f64_ops needs_price_def sample_event_def nav_event_from_def uniform_event_def sample_uniform_def f64_from_def)
qed

definition followed_reader :: incremental where
  "followed_reader = fst (snd (refresh_source sample_recovery (sample_source ''a'') sample_db (incremental_default, 1)))"

lemma sample_recovers: "recover sample_recovery source [sample_event] journal = (Inr None, journal)"
  using sample_priced by (simp add: recover_def resolve_evidence_def sample_recovery_def)

lemma zero_time: "key_time zero_key = Some 0"
  by (simp add: key_time_def zero_key_decodes)

lemma sample_refreshed:
  "refresh_source sample_recovery (sample_source ''a'') sample_db (incremental_default, 1) = (Inr (), followed_reader, 2)"
  "ih_raw_events followed_reader = None" "nh_events (ih_history followed_reader) = [sample_event]"
proof -
  have scan: "read_column_families_from sample_db (requests []) = [(uniform_orders_cf, [sample_record])]"
    by (simp add: read_column_families_from_def requests_def sample_db_def nav_history_column_families_def
        uniform_orders_cf_def trade_updates_cf_def trade_updates_unmatched_cf_def)
  have readable: "sd_readable sample_db" by (simp add: sample_db_def)
  have b: "scan_families [] sample_db = Inr \<lparr>sb_new_events = [sample_event], sb_new_trades = [],
      sb_scanned = [(uniform_orders_cf, scanned_of [sample_record])]\<rparr>"
    using parse_record_key [OF zero_time]
    by (simp add: readable scan_families_def scan Let_def bm_contains_def rensure_def scan_family_def seen_keys_def sample_record_decodes [unfolded sample_record_def] rmap_def
        scanned_of_def sample_record_def zero_time)
  show "refresh_source sample_recovery (sample_source ''a'') sample_db (incremental_default, 1) = (Inr (), followed_reader, 2)"
    "ih_raw_events followed_reader = None" "nh_events (ih_history followed_reader) = [sample_event]"
    unfolding followed_reader_def
    by (simp_all add: refresh_source_def recreated_def incremental_default_def b Let_def combined_events_def default_history_def sample_recovers
        merge_liquidity_records_def rmap_def bm_vals_def commit_refresh_def publish_change_def recovered_events_def next_events_def out_of_order_def)
qed

theorem incremental_reads_all_witness:
  "nh_events (ih_history followed_reader) = [sample_event]
   \<and> load_source_history sample_recovery (sample_source ''a'') sample_db
     = Inr (default_history\<lparr>nh_events := [sample_event], nh_liquidity_by_order := nh_liquidity_by_order (ih_history followed_reader)\<rparr>)"
proof -
  have "db_ok sample_db" by (simp add: db_ok_def family_def sample_db_def sample_record_def zero_time)
  moreover have "goes_on no_db sample_db" by (simp add: goes_on_def no_db_def family_def)
  ultimately have f: "followed (sample_source ''a'') sample_db followed_reader" using followed.refreshed [OF followed.start _ _ sample_refreshed(1)] by blast
  have "sd_readable sample_db" "bm_contains (sd_families sample_db) uniform_orders_cf" by (simp_all add: sample_db_def bm_contains_def)
  from incremental_reads_all [OF f this] show ?thesis
    using sample_refreshed(2,3) sample_recovers [of "sample_source ''a''" journal_default] by auto
qed

end
