(* ===== verification/Windows.thy ===== *)
theory Windows
  imports Dashboard Checkpoint "HOL-Library.Sublist"
begin

text \<open>
  What the timeline and the strategy export guarantee: the sampled time stamps are the window's ends
  and the grid between them, for every series; the rows of a strategy export are the strategy's fills of the window
  between two boundary rows; the selections pick what is enabled, configured and requested; and a
  downsampled series is a part of the series that keeps its ends.
\<close>

subsection \<open>Time stamps of a sample\<close>

definition stamp :: "i64 \<Rightarrow> i64 list \<Rightarrow> i64 list" where
  "stamp ts xs = (if xs \<noteq> [] \<and> last xs = ts then xs else xs @ [ts])"

abbreviation stamps_of :: "nav_timeline_point list \<Rightarrow> i64 list" where
  "stamps_of \<equiv> map tp_ts_us"

abbreviation run_stamps :: "timeline_run \<Rightarrow> i64 list" where
  "run_stamps run \<equiv> stamps_of (tr_points run)"

lemma stamp_idem [simp]: "stamp ts (stamp ts xs) = stamp ts xs"
  by (simp add: stamp_def)

lemma stamps_push: "stamps_of (push_or_replace_timeline_point points p) = stamp (tp_ts_us p) (stamps_of points)"
  by (cases points rule: rev_cases) (auto simp: push_or_replace_timeline_point_def stamp_def)

definition has_series :: "(string, nav_timeline_point list) bmap \<Rightarrow> i64 list \<Rightarrow> string \<Rightarrow> bool" where
  "has_series m ts k \<longleftrightarrow> (\<exists>points. bm_get m k = Some points \<and> stamps_of points = ts)"

lemma push_series_get:
  "bm_get (push_series k p m) k' =
     (if k' = k then map_option (\<lambda>points. push_or_replace_timeline_point points p) (bm_get m k) else bm_get m k')"
  by (simp add: push_series_def split: option.splits)

lemma push_series_fold:
  assumes "\<And>k. tp_ts_us (point k) = ts"
  shows "bm_get m k = Some points \<Longrightarrow>
    \<exists>points'. bm_get (foldl (\<lambda>m k. push_series k (point k) m) m ks) k = Some points'
      \<and> stamps_of points' = (if k \<in> set ks then stamp ts (stamps_of points) else stamps_of points)"
proof (induction ks arbitrary: m points)
  case (Cons a ks)
  obtain points1 where p1: "bm_get (push_series a (point a) m) k = Some points1"
    and s1: "stamps_of points1 = (if k = a then stamp ts (stamps_of points) else stamps_of points)"
    using Cons.prems by (cases "k = a") (simp_all add: push_series_get stamps_push assms)
  from Cons.IH [OF p1] s1 show ?case by auto
qed simp

definition aligned :: "window \<Rightarrow> timeline_run \<Rightarrow> bool" where
  "aligned w run \<longleftrightarrow>
     (\<forall>s \<in> set (wn_selected_symbols w). has_series (tr_points_by_symbol run) (run_stamps run) s)
     \<and> (\<forall>s \<in> set (wn_available_strategies w). has_series (tr_points_by_strategy run) (run_stamps run) s)"

lemma push_sample_stamps:
  assumes "push_timeline_sample w ts run = Inr run'"
  shows "run_stamps run' = stamp ts (run_stamps run)" and "aligned w run \<Longrightarrow> aligned w run'"
proof -
  from assms obtain sp yp where
    points: "run_stamps run' = stamp ts (run_stamps run)"
    and sy: "tr_points_by_symbol run' = foldl (\<lambda>m k. push_series k (sp k) m) (tr_points_by_symbol run) (wn_selected_symbols w)"
    and st: "tr_points_by_strategy run' = foldl (\<lambda>m k. push_series k (yp k) m) (tr_points_by_strategy run) (wn_available_strategies w)"
    and ts: "\<And>k. tp_ts_us (sp k) = ts" "\<And>k. tp_ts_us (yp k) = ts"
    unfolding push_timeline_sample_def Let_def
    by (auto simp: rbind_Inr_iff stamps_push split_def)
  show "run_stamps run' = stamp ts (run_stamps run)" by (rule points)
  show "aligned w run'" if "aligned w run"
    using that push_series_fold [of sp, OF ts(1)] push_series_fold [of yp, OF ts(2)]
    unfolding aligned_def has_series_def sy st points by fastforce
qed

subsection \<open>The sampling grid\<close>

definition on_grid :: "i64 \<Rightarrow> i64 \<Rightarrow> i64 \<Rightarrow> i64 \<Rightarrow> i64 list \<Rightarrow> bool" where
  "on_grid interval start_ts end_ts next_tick ts \<longleftrightarrow>
     sorted_wrt (<) ts \<and> set ts = insert start_ts {t. start_ts < t \<and> t < next_tick \<and> interval dvd t}
     \<and> (\<forall>t \<in> set ts. t \<le> end_ts) \<and> start_ts < next_tick \<and> interval dvd next_tick"

lemma dvd_below_next:
  fixes k :: int
  assumes "0 < k" and "k dvd n" and "k dvd t"
  shows "t < n + k \<longleftrightarrow> t \<le> n"
proof
  assume "t < n + k"
  moreover have "\<not> (0 < t - n \<and> t - n < k)"
    using assms(2,3) zdvd_not_zless [of "t - n" k] by (auto simp: dvd_diff)
  ultimately show "t \<le> n" by linarith
qed (use assms in linarith)

lemma on_grid_step:
  assumes "on_grid k s e n ts" and "0 < k" and "n \<le> e"
  shows "on_grid k s e (n + k) (stamp n ts)"
proof -
  note g = assms(1) [unfolded on_grid_def]
  have before: "t < n" if "t \<in> set ts" for t using g that by auto
  then have "ts = [] \<or> last ts < n" using last_in_set by blast
  then have st: "stamp n ts = ts @ [n]" by (auto simp: stamp_def)
  have "t < n \<or> t = n" if "t < n + k" "k dvd t" for t
    using dvd_below_next [OF assms(2), of n t] g that by linarith
  then have new: "insert s {t. s < t \<and> t < n + k \<and> k dvd t} = insert n (insert s {t. s < t \<and> t < n \<and> k dvd t})"
    using g assms(2) by fastforce
  have sorted: "sorted_wrt (<) (ts @ [n])" using g before by (simp add: sorted_wrt_append)
  have below: "\<forall>t \<in> set (ts @ [n]). t \<le> e" using g assms(3) by simp
  show ?thesis
    unfolding on_grid_def st new using sorted below g assms(2) by simp
qed

lemma advanced_tick_eq: "i64_min \<le> n + k \<Longrightarrow> n + k \<le> i64_max \<Longrightarrow> advanced_tick k n = n + k"
  by (simp add: advanced_tick_def in_i64_def)

lemma tick_until_grid:
  assumes "tick_until w k limit n run = Inr (run', n')"
    and "0 < k" and "limit \<le> e" and "e + k \<le> i64_max" and "i64_min \<le> s"
    and "on_grid k s e n (run_stamps run)" and "aligned w run"
  shows "on_grid k s e n' (run_stamps run') \<and> limit \<le> n' \<and> aligned w run'"
  using assms
proof (induction w k limit n run rule: tick_until.induct)
  case (1 w k limit n run)
  note prems = "1.prems"
  show ?case
  proof (cases "n < limit")
    case False
    then show ?thesis using prems by (simp add: tick_until.simps [of w k limit n])
  next
    case True
    from prems(1,2) True obtain run1 where push: "push_timeline_sample w n run = Inr run1"
      by (subst (asm) tick_until.simps) (auto split: sum.splits)
    have "s < n" using prems(6) by (simp add: on_grid_def)
    then have adv: "advanced_tick k n = n + k" using prems True by (intro advanced_tick_eq) auto
    have rec: "tick_until w k limit (n + k) run1 = Inr (run', n')"
      using prems(1,2) True push adv by (subst (asm) tick_until.simps) simp
    have "on_grid k s e (n + k) (run_stamps run1)"
      using on_grid_step [OF prems(6,2)] prems(3) True push_sample_stamps(1) [OF push] by simp
    moreover have "aligned w run1" using push_sample_stamps(2) [OF push] prems(7) .
    ultimately show ?thesis
      using "1.IH" [OF _ push, unfolded adv] True prems(2-5) rec by simp
  qed
qed

lemma apply_events_keep_points [simp]:
  "run_stamps (run\<lparr>tr_runtimes := rs\<rparr>) = run_stamps run" "aligned w (run\<lparr>tr_runtimes := rs\<rparr>) = aligned w run"
  by (simp_all add: aligned_def)

lemma event_loop_grid:
  assumes "event_loop w k e es n run = Inr (run', n')"
    and "0 < k" and "e + k \<le> i64_max" and "i64_min \<le> s"
    and "on_grid k s e n (run_stamps run)" and "aligned w run"
  shows "on_grid k s e n' (run_stamps run') \<and> aligned w run'"
  using assms
proof (induction w k e es n run rule: event_loop.induct)
  case (2 w k e ev es n run)
  note prems = "2.prems"
  define ts where "ts = te_ts_us ev"
  show ?case
  proof (cases "e < ts")
    case True
    then show ?thesis using prems by (simp add: ts_def)
  next
    case False
    define evs where "evs = takeWhile (\<lambda>x. te_ts_us x = ts) (ev # es)"
    define rest where "rest = dropWhile (\<lambda>x. te_ts_us x = ts) es"
    from prems(1) False obtain run1 n1 rs run3 n3 where
      t: "tick_until w k (min ts e) n run = Inr (run1, n1)"
      and rs: "rfold apply_timeline_event (tr_runtimes run1) evs = Inr rs"
      and p: "(if n1 = ts \<and> n1 \<le> e then rmap (\<lambda>run3. (run3, advanced_tick k n1)) (push_timeline_sample w n1 (run1\<lparr>tr_runtimes := rs\<rparr>))
               else Inr (run1\<lparr>tr_runtimes := rs\<rparr>, n1)) = Inr (run3, n3)"
      and rec: "event_loop w k e rest n3 run3 = Inr (run', n')"
      unfolding event_loop.simps Let_def ts_def [symmetric] evs_def rest_def
      by (auto simp: rbind_Inr_iff simp del: takeWhile.simps)
    have g1: "on_grid k s e n1 (run_stamps run1) \<and> min ts e \<le> n1 \<and> aligned w run1"
      using tick_until_grid [OF t prems(2) _ prems(3-6)] by simp
    have "on_grid k s e n3 (run_stamps run3) \<and> aligned w run3"
    proof (cases "n1 = ts \<and> n1 \<le> e")
      case False
      with p g1 show ?thesis by auto
    next
      case True
      with p obtain r where r: "push_timeline_sample w n1 (run1\<lparr>tr_runtimes := rs\<rparr>) = Inr r" "run3 = r" "n3 = advanced_tick k n1"
        by (auto simp: rmap_Inr_iff)
      have "s < n1" using g1 by (simp add: on_grid_def)
      then have "n3 = n1 + k" using r(3) True prems(2-4) by (simp add: advanced_tick_eq)
      then show ?thesis
        using push_sample_stamps [OF r(1)] r(2) g1 True on_grid_step [of k s e n1 "run_stamps run1"] prems(2) by simp
    qed
    moreover have "event_loop w k e rest n3 run3 = Inr (run', n') \<Longrightarrow> on_grid k s e n3 (run_stamps run3) \<Longrightarrow> aligned w run3
        \<Longrightarrow> on_grid k s e n' (run_stamps run') \<and> aligned w run'"
      using "2.IH" [OF ts_def] False t rs p prems(2-4) unfolding evs_def rest_def by blast
    ultimately show ?thesis using rec by blast
  qed
qed simp

subsection \<open>Downsampling\<close>

abbreviation increasing :: "nav_timeline_point list \<Rightarrow> bool" where
  "increasing points \<equiv> sorted_wrt (<) (stamps_of points)"

lemma increasing_inj: "increasing points \<Longrightarrow> inj_on tp_ts_us (set points)"
  using distinct_map strict_sorted_iff by blast

lemma subseq_by_key:
  fixes f :: "'a \<Rightarrow> 'b::linorder"
  shows "sorted_wrt (<) (map f ys) \<Longrightarrow> sorted_wrt (<) (map f xs) \<Longrightarrow> set ys \<subseteq> set xs \<Longrightarrow> subseq ys xs"
proof (induction xs arbitrary: ys)
  case (Cons x xs)
  show ?case
  proof (cases ys)
    case (Cons y zs)
    note ys = this
    show ?thesis
    proof (cases "y = x")
      case True
      have "x \<notin> set zs" using Cons.prems(1) ys True by (auto simp: sorted_wrt_map)
      then have "subseq zs xs" using Cons.prems ys True by (intro Cons.IH) auto
      then show ?thesis using ys True by simp
    next
      case False
      then have "y \<in> set xs" using Cons.prems(3) ys by auto
      then have "f x < f y" using Cons.prems(2) by auto
      then have "x \<notin> set ys" using Cons.prems(1) ys by (auto simp: sorted_wrt_map)
      then have "set ys \<subseteq> set xs" using Cons.prems(3) by auto
      then show ?thesis using Cons.prems(1,2) by (intro list_emb_Cons Cons.IH) auto
    qed
  qed simp
qed simp

lemma dedup_sorted:
  fixes f :: "'a \<Rightarrow> 'b::linorder"
  assumes "sorted (map f xs)"
  shows "sorted_wrt (<) (map f (dedup_by_key f xs)) \<and> set (dedup_by_key f xs) \<subseteq> set xs
    \<and> f ` set (dedup_by_key f xs) = f ` set xs \<and> length (dedup_by_key f xs) \<le> length xs"
  using assms
proof (induction f xs rule: dedup_by_key.induct)
  case (1 f x y xs)
  show ?case
  proof (cases "f x = f y")
    case True
    then show ?thesis using "1.IH"(1) "1.prems" by (auto simp: image_insert)
  next
    case False
    have le: "\<forall>z \<in> set (y # xs). f x < f z" using "1.prems" False by force
    note I = "1.IH"(2) [OF False]
    have "\<forall>z \<in> set (dedup_by_key f (y # xs)). f x < f z" using I "1.prems" le by auto
    then show ?thesis using I "1.prems" False by auto
  qed
qed simp_all

lemma f64_le_self [simp]: "x \<le> x \<longleftrightarrow> x \<noteq> (NaN :: f64)"
  by (auto simp: less_eq_f64_def)

lemma min_by_Some:
  assumes "min_by f xs = Some m"
  shows "m \<in> set xs" and "\<forall>x \<in> set xs. f x \<noteq> NaN \<Longrightarrow> x \<in> set xs \<Longrightarrow> f m \<le> f x"
proof -
  obtain a ys where xs: "xs = a # ys" "m = foldl (\<lambda>m y. if f y < f m then y else m) a ys"
    using assms by (auto simp: min_by_def split: list.splits)
  have "foldl (\<lambda>m y. if f y < f m then y else m) a ys \<in> set (a # ys)
    \<and> ((\<forall>x \<in> set (a # ys). f x \<noteq> NaN) \<longrightarrow>
        (\<forall>x \<in> set (a # ys). f (foldl (\<lambda>m y. if f y < f m then y else m) a ys) \<le> f x))"
    by (induction ys rule: rev_induct)
      (auto simp: f64_not_le dest: f64_less_le intro: f64_le_trans [OF f64_less_le] simp flip: f64_not_le)
  then show "m \<in> set xs" "\<forall>x \<in> set xs. f x \<noteq> NaN \<Longrightarrow> x \<in> set xs \<Longrightarrow> f m \<le> f x"
    using xs by auto
qed

lemma max_by_Some:
  assumes "max_by f xs = Some m"
  shows "m \<in> set xs" and "\<forall>x \<in> set xs. f x \<noteq> NaN \<Longrightarrow> x \<in> set xs \<Longrightarrow> f x \<le> f m"
proof -
  obtain a ys where xs: "xs = a # ys" "m = foldl (\<lambda>m y. if f y < f m then m else y) a ys"
    using assms by (auto simp: max_by_def split: list.splits)
  have step: "f x \<le> f y" if "f x \<le> f m" "\<not> f y < f m" "f y \<noteq> NaN" "f m \<noteq> NaN" for x y m
    using that f64_not_le f64_le_trans by blast
  have "foldl (\<lambda>m y. if f y < f m then m else y) a ys \<in> set (a # ys)
    \<and> ((\<forall>x \<in> set (a # ys). f x \<noteq> NaN) \<longrightarrow>
        (\<forall>x \<in> set (a # ys). f x \<le> f (foldl (\<lambda>m y. if f y < f m then m else y) a ys)))"
  proof (induction ys rule: rev_induct)
    case (snoc y ys)
    let ?m = "foldl (\<lambda>m y. if f y < f m then m else y) a ys"
    from snoc show ?case using step [of _ ?m y] f64_less_le [of "f y" "f ?m"] by auto
  qed simp
  then show "m \<in> set xs" "\<forall>x \<in> set xs. f x \<noteq> NaN \<Longrightarrow> x \<in> set xs \<Longrightarrow> f x \<le> f m"
    using xs by auto
qed

lemma min_by_exists: "xs \<noteq> [] \<Longrightarrow> \<exists>m. min_by f xs = Some m"
  and max_by_exists: "xs \<noteq> [] \<Longrightarrow> \<exists>m. max_by f xs = Some m"
  by (auto simp: min_by_def max_by_def split: list.splits)

lemma length_extrema:
  fixes xs :: "'a list"
  shows "length (concat (map (\<lambda>f. option_list (min_by f xs) @ option_list (max_by f xs)) fs)) \<le> 2 * length fs"
proof (induction fs)
  case (Cons f fs)
  have "length (option_list y) \<le> 1" for y :: "'a option"
    by (simp add: option_list_def split: option.splits)
  from this [of "min_by f xs"] this [of "max_by f xs"] Cons show ?case by simp
qed simp

lemma bucket_extrema_facts:
  assumes "increasing xs"
  shows "subseq (bucket_extrema xs) xs" and "length (bucket_extrema xs) \<le> 12"
    and "f \<in> set value_selectors \<Longrightarrow> \<forall>x \<in> set xs. f x \<noteq> NaN \<Longrightarrow> x \<in> set xs \<Longrightarrow>
      (\<exists>m \<in> set (bucket_extrema xs). f m \<le> f x) \<and> (\<exists>m \<in> set (bucket_extrema xs). f x \<le> f m)"
proof -
  define ys where "ys = concat (map (\<lambda>f. option_list (min_by f xs) @ option_list (max_by f xs)) value_selectors)"
  have ys: "set ys \<subseteq> set xs"
    unfolding ys_def option_list_def by (auto dest: min_by_Some(1) [OF sym] max_by_Some(1) [OF sym] split: option.splits)
  have be: "bucket_extrema xs = dedup_by_key tp_ts_us (sort_key tp_ts_us ys)" by (simp add: bucket_extrema_def ys_def)
  note D = dedup_sorted [of tp_ts_us "sort_key tp_ts_us ys", OF sorted_sort_key, folded be]
  have sub: "set (bucket_extrema xs) \<subseteq> set xs" using D ys by auto
  show "subseq (bucket_extrema xs) xs" using subseq_by_key [OF _ assms sub] D by blast
  show "length (bucket_extrema xs) \<le> 12"
    using D length_extrema [of xs value_selectors] by (simp add: ys_def value_selectors_def)
  have keep: "m \<in> set (bucket_extrema xs)" if "m \<in> set ys" for m
  proof -
    have "tp_ts_us m \<in> tp_ts_us ` set (bucket_extrema xs)" using D that by simp
    then obtain m' where m': "m' \<in> set (bucket_extrema xs)" "tp_ts_us m' = tp_ts_us m" by force
    have "m' = m"
      by (rule inj_onD [OF increasing_inj [OF assms] m'(2)]) (use sub ys that m'(1) in blast)+
    with m' show ?thesis by simp
  qed
  show "(\<exists>m \<in> set (bucket_extrema xs). f m \<le> f x) \<and> (\<exists>m \<in> set (bucket_extrema xs). f x \<le> f m)"
    if f: "f \<in> set value_selectors" and nan: "\<forall>x \<in> set xs. f x \<noteq> NaN" and x: "x \<in> set xs"
  proof -
    obtain lo hi where lo: "min_by f xs = Some lo" and hi: "max_by f xs = Some hi"
      using min_by_exists [of xs f] max_by_exists [of xs f] x by fastforce
    have "lo \<in> set ys" "hi \<in> set ys" using f lo hi by (auto simp: ys_def option_list_def intro!: bexI [of _ f])
    then show ?thesis using min_by_Some(2) [OF lo nan x] max_by_Some(2) [OF hi nan x] keep by blast
  qed
qed

subsection \<open>Buckets\<close>

lemma concat_chunks: "0 < n \<Longrightarrow> concat (chunks n xs) = xs"
proof (induction n xs rule: chunks.induct)
  case (1 n xs)
  then show ?case by (subst chunks.simps) simp
qed

lemma length_chunks: "0 < n \<Longrightarrow> length xs \<le> b * n \<Longrightarrow> length (chunks n xs) \<le> b"
proof (induction n xs arbitrary: b rule: chunks.induct)
  case (1 n xs)
  show ?case
  proof (cases "xs = []")
    case True
    then show ?thesis by (subst chunks.simps) simp
  next
    case False
    then obtain c where b: "b = Suc c" using "1.prems" by (cases b) auto
    have "length (chunks n (drop n xs)) \<le> c"
      using "1.prems" False b by (intro "1.IH") auto
    then show ?thesis using False "1.prems" b by (subst chunks.simps) simp
  qed
qed

lemma div_ceil_covers: "0 < b \<Longrightarrow> a \<le> b * div_ceil a b"
proof -
  assume "0 < b"
  have "a + b - 1 < b * ((a + b - 1) div b) + b" using \<open>0 < b\<close> by (metis add.commute dividend_less_times_div)
  then show ?thesis using \<open>0 < b\<close> unfolding div_ceil_def by linarith
qed

lemma subseq_concat: "list_all2 subseq xss yss \<Longrightarrow> subseq (concat xss) (concat yss)"
  by (induction xss yss rule: list_all2_induct) (auto intro: list_emb_append_mono)

lemma increasing_subseq: "subseq ys xs \<Longrightarrow> increasing xs \<Longrightarrow> increasing ys"
proof (induction rule: list_emb.induct)
  case (list_emb_Cons2 x y xs ys)
  then show ?case using list_emb_set [OF list_emb_Cons2.hyps(2)] by fastforce
qed simp_all

lemma downsample_cases:
  assumes "increasing points"
  obtains "downsample_timeline_points points m = points" and "length points \<le> m \<or> m < 10"
  | a interior z bs where "points = a # interior @ [z]" and "10 \<le> m" and "concat bs = interior"
      and "downsample_timeline_points points m = a # concat (map bucket_extrema bs) @ [z]"
      and "length bs \<le> max ((m - 2) div 12) 1"
proof (cases "length points \<le> m \<or> m < 10")
  case True
  then show ?thesis by (intro that(1)) (auto simp: downsample_timeline_points_def)
next
  case False
  define b where "b = max ((m - 2) div 12) 1"
  obtain a rest where "points = a # rest" "rest \<noteq> []" using False by (cases points) force+
  then obtain interior z where points: "points = a # interior @ [z]" by (metis append_butlast_last_id)
  let ?bs = "chunks (div_ceil (length interior) b) interior"
  have "0 < length interior" using points False by (cases interior) auto
  moreover have "length interior \<le> b * div_ceil (length interior) b"
    by (rule div_ceil_covers) (simp add: b_def)
  ultimately have pos: "0 < div_ceil (length interior) b" by (cases "div_ceil (length interior) b") auto
  have "downsample_timeline_points points m = a # concat (map bucket_extrema ?bs) @ [z]"
    using False points by (simp add: downsample_timeline_points_def Let_def b_def value_selectors_def)
  moreover have "length ?bs \<le> b"
    by (rule length_chunks [OF pos]) (rule div_ceil_covers, simp add: b_def)
  ultimately show ?thesis
    by (intro that(2) [of a interior z ?bs]) (use points False concat_chunks [OF pos] in \<open>simp_all add: b_def\<close>)
qed

lemma bucket_increasing:
  assumes "increasing (a # interior @ [z])" and "concat bs = interior" and "b \<in> set bs"
  shows "increasing b"
proof -
  have "subseq b (concat bs)" using assms(3)
    by (induction bs) (auto intro: list_emb_append2 list_emb_prefix)
  then have "subseq b (a # interior @ [z])"
    unfolding assms(2) by (intro list_emb_Cons list_emb_prefix)
  then show ?thesis using assms(1) by (rule increasing_subseq)
qed

lemma downsample_subseq:
  assumes "increasing points"
  shows "subseq (downsample_timeline_points points m) points"
  using downsample_cases [OF assms, of m]
proof cases
  case (2 a interior z bs)
  have "list_all2 subseq (map bucket_extrema bs) bs"
    using bucket_extrema_facts(1) bucket_increasing [OF assms [unfolded 2(1)] 2(3)]
    by (simp add: list_all2_map1 list_all2_same)
  then have "subseq (concat (map bucket_extrema bs)) interior" using subseq_concat 2(3) by blast
  then have "subseq (a # concat (map bucket_extrema bs) @ [z]) (a # interior @ [z])"
    by (simp add: list_emb_append_mono)
  then show ?thesis unfolding 2(4) by (simp add: 2(1))
qed simp

lemma downsample_ends:
  assumes "increasing points" and "points \<noteq> []"
  shows "downsample_timeline_points points m \<noteq> [] \<and> hd (downsample_timeline_points points m) = hd points
    \<and> last (downsample_timeline_points points m) = last points"
  using downsample_cases [OF assms(1), of m] assms(2) by cases simp_all

lemma downsample_length:
  assumes "increasing points" and "10 \<le> m"
  shows "length (downsample_timeline_points points m) \<le> max m 14"
  using downsample_cases [OF assms(1), of m]
proof cases
  case 1
  then show ?thesis using assms(2) by simp
next
  case (2 a interior z bs)
  have "length (bucket_extrema b) \<le> 12" if "b \<in> set bs" for b
    using bucket_extrema_facts(2) bucket_increasing [OF assms(1) [unfolded 2(1)] 2(3) that] by blast
  then have "length (concat (map bucket_extrema bs)) \<le> 12 * length bs"
    by (induction bs) fastforce+
  then show ?thesis unfolding 2(4) using 2(5) assms(2) by simp
qed

text \<open>
  C24: Downsampling a series with strictly increasing time stamps returns a part of it in its order that
  keeps the first and the last point; asked for at least 14 points it returns at most that many; and for
  each of the six displayed values it keeps the envelope: every value of the series lies between two
  values that are kept.
\<close>

theorem downsample_envelope:
  assumes "increasing points" and "points \<noteq> []" and "14 \<le> m"
    and "f \<in> set value_selectors" and "\<forall>x \<in> set points. f x \<noteq> NaN" and "p \<in> set points"
  shows "subseq (downsample_timeline_points points m) points
    \<and> hd (downsample_timeline_points points m) = hd points
    \<and> last (downsample_timeline_points points m) = last points
    \<and> length (downsample_timeline_points points m) \<le> m
    \<and> (\<exists>lo \<in> set (downsample_timeline_points points m). f lo \<le> f p)
    \<and> (\<exists>hi \<in> set (downsample_timeline_points points m). f p \<le> f hi)"
proof -
  have "(\<exists>lo \<in> set (downsample_timeline_points points m). f lo \<le> f p)
    \<and> (\<exists>hi \<in> set (downsample_timeline_points points m). f p \<le> f hi)"
    using downsample_cases [OF assms(1), of m]
  proof cases
    case 1
    then show ?thesis using assms(5,6) f64_le_self by metis
  next
    case (2 a interior z bs)
    show ?thesis
    proof (cases "p = a \<or> p = z")
      case True
      then show ?thesis unfolding 2(4) using assms(5,6) by auto
    next
      case False
      then have "p \<in> set (concat bs)" using assms(6) 2(1,3) by auto
      then obtain b where b: "b \<in> set bs" "p \<in> set b" by auto
      have "\<forall>x \<in> set b. f x \<noteq> NaN" using assms(5) b(1) unfolding 2(1) 2(3) [symmetric] by auto
      from bucket_extrema_facts(3) [OF bucket_increasing [OF assms(1) [unfolded 2(1)] 2(3) b(1)] assms(4) this b(2)]
      show ?thesis unfolding 2(4) using b(1) by auto
    qed
  qed
  then show ?thesis
    using downsample_subseq [OF assms(1)] downsample_ends [OF assms(1,2)] downsample_length [OF assms(1), of m] assms(3)
    by auto
qed

definition sample_point :: "int \<Rightarrow> nav_timeline_point" where
  "sample_point n = \<lparr>tp_ts_us = n, tp_gross_position_value_quote = Fin (of_int (n * n)),
     tp_net_position_value_quote = Fin (of_int (7 * n - n * n)), tp_totals = totals_default\<rparr>"

definition sample_points :: "int list \<Rightarrow> nav_timeline_point list" where
  "sample_points ns = map sample_point ns"

lemma sample_points_increasing: "sorted_wrt (<) ns \<Longrightarrow> increasing (sample_points ns)"
  by (simp add: sample_points_def comp_def sample_point_def)

theorem downsample_envelope_witness:
  "length (downsample_timeline_points (sample_points [0..30]) 14) \<le> 14
    \<and> last (downsample_timeline_points (sample_points [0..30]) 14) = sample_point 30"
proof -
  have inc: "increasing (sample_points [0..30])" by (rule sample_points_increasing) (simp add: upto_rec1)
  have f: "tp_gross_position_value_quote \<in> set value_selectors" by (simp add: value_selectors_def)
  have nan: "\<forall>x \<in> set (sample_points [0..30]). tp_gross_position_value_quote x \<noteq> NaN"
    by (auto simp: sample_points_def sample_point_def)
  have p: "sample_point 0 \<in> set (sample_points [0..30])" "sample_points [0..30] \<noteq> []" "last (sample_points [0..30]) = sample_point 30"
    by (simp_all add: sample_points_def upto_rec1)
  show ?thesis
    using downsample_envelope [OF inc p(2) _ f nan p(1), of 14] p(3) by simp
qed

subsection \<open>The stamps of a report\<close>

definition grid_stamps :: "i64 \<Rightarrow> i64 \<Rightarrow> i64 \<Rightarrow> i64 list" where
  "grid_stamps k s e = s # filter (\<lambda>t. k dvd t) [s + 1..e - 1] @ (if s < e then [e] else [])"

lemma on_grid_finish:
  assumes "on_grid k s e n ts" and "e \<le> n" and "s \<le> e"
  shows "stamp e ts = grid_stamps k s e"
proof (rule sorted_distinct_set_unique)
  note g = assms(1) [unfolded on_grid_def]
  have inc: "sorted_wrt (<) (stamp e ts)"
  proof (cases "ts \<noteq> [] \<and> last ts = e")
    case False
    have "t < e" if t_in: "t \<in> set ts" for t
    proof (rule ccontr)
      assume "\<not> t < e"
      then have t: "t = e" using g that by force
      obtain xs ys where ts: "ts = xs @ e # ys" using split_list [OF t_in] t by blast
      have "ys = []"
      proof (cases ys)
        case (Cons y zs)
        then have "e < y" "y \<le> e" using g ts by (auto simp: sorted_wrt_append)
        then show ?thesis by simp
      qed simp
      then show False using False ts by simp
    qed
    then show ?thesis using g False by (auto simp: stamp_def sorted_wrt_append)
  qed (use g in \<open>auto simp: stamp_def\<close>)
  have inc': "sorted_wrt (<) (grid_stamps k s e)"
    using assms(3) by (auto simp: grid_stamps_def sorted_wrt_append intro: sorted_wrt_filter)
  show "sorted (stamp e ts)" "distinct (stamp e ts)" "sorted (grid_stamps k s e)" "distinct (grid_stamps k s e)"
    using inc inc' by (simp_all add: strict_sorted_iff)
  have "set (stamp e ts) = insert e (set ts)" by (auto simp: stamp_def last_in_set)
  also have "\<dots> = insert s (insert e {t. s < t \<and> t < e \<and> k dvd t})"
  proof -
    have "\<And>t. t \<in> set ts \<Longrightarrow> t \<le> e" using g by blast
    moreover have "set ts = insert s {t. s < t \<and> t < n \<and> k dvd t}" using g by blast
    ultimately show ?thesis using assms(2) by fastforce
  qed
  also have "\<dots> = set (grid_stamps k s e)" using assms(3) by (auto simp: grid_stamps_def)
  finally show "set (stamp e ts) = set (grid_stamps k s e)" .
qed

lemma on_grid_start:
  assumes "0 < k" and "s \<le> e" and "i64_min \<le> s" and "s + k \<le> i64_max" and "0 \<le> e"
  shows "on_grid k s e (next_timeline_tick s k) [s]"
proof -
  have b: "(s div k) * k \<le> s" "s < (s div k + 1) * k" "(s div k + 1) * k \<le> s + k"
    using assms(1) div_mult_mod_eq [of s k] pos_mod_bound [of k s] pos_mod_sign [of k s]
    unfolding distrib_right by linarith+
  have q: "i64_min \<le> s div k + 1" "s div k + 1 \<le> i64_max"
  proof -
    have "s \<le> s div k \<or> 0 \<le> s div k" using zdiv_mono2_neg [of s 1 k] assms(1) by (cases "s < 0") (auto simp: pos_imp_zdiv_nonneg_iff)
    moreover have "s div k \<le> s \<or> s div k < 0" using zdiv_mono2 [of s 1 k] assms(1) by (cases "s < 0") (auto simp: pos_imp_zdiv_neg_iff)
    ultimately show "i64_min \<le> s div k + 1" "s div k + 1 \<le> i64_max"
      using assms(1,3,4) by (auto simp: i64_min_def i64_max_def)
  qed
  then have n: "next_timeline_tick s k = (s div k + 1) * k"
    using b assms by (simp add: next_timeline_tick_def in_i64_def)
  have "\<not> (s < t \<and> t < (s div k + 1) * k \<and> k dvd t)" for t
    using dvd_below_next [OF assms(1), of "(s div k) * k" t] b(1) by (auto simp: algebra_simps)
  then have none: "{t. s < t \<and> t < (s div k + 1) * k \<and> k dvd t} = {}" by blast
  show ?thesis unfolding on_grid_def n none using b assms(2) by simp
qed

lemma opened_window:
  assumes "open_window s symbols strategies prices earlier runtimes = Inr (w, run)"
  shows "run_stamps run = [s] \<and> aligned w run \<and> wn_selected_symbols w = symbols \<and> wn_available_strategies w = strategies"
proof -
  have start: "bm_get (bm_extend [] (map (\<lambda>s. (s, [])) ks)) k = Some ([] :: nav_timeline_point list)" if "k \<in> set ks" for k :: string and ks
  proof -
    have "map_of (rev (map (\<lambda>s. (s, [] :: nav_timeline_point list)) ks)) k = Some []"
      using that by (simp add: rev_map map_of_map_restrict restrict_map_def)
    then show ?thesis by (simp add: bm_get_extend)
  qed
  obtain rs prices' w' where
    push: "push_timeline_sample w' s
        \<lparr>tr_runtimes = rs, tr_points = [], tr_points_by_symbol = bm_extend [] (map (\<lambda>s. (s, [])) symbols),
         tr_points_by_strategy = bm_extend [] (map (\<lambda>s. (s, [])) strategies), tr_prices = prices'\<rparr> = Inr run"
    and w: "w = w'" "wn_selected_symbols w' = symbols" "wn_available_strategies w' = strategies"
    using assms unfolding open_window_def by (auto simp: rbind_Inr_iff rmap_Inr_iff Let_def)
  show ?thesis
    using push_sample_stamps [OF push] w start by (simp add: stamp_def aligned_def has_series_def)
qed

lemma ran_window:
  assumes "run_window w k s e es run = Inr run'"
    and "run_stamps run = [s]" and "aligned w run"
    and "s \<le> e" and "0 \<le> e" and "i64_min \<le> s" and "e + k \<le> i64_max"
  shows "0 < k \<and> run_stamps run' = grid_stamps k s e \<and> aligned w run'"
proof -
  from assms(1) obtain run1 n1 run2 n2 rs where
    k: "0 < k" and l: "event_loop w k e es (next_timeline_tick s k) run = Inr (run1, n1)"
    and t: "tick_until w k e n1 run1 = Inr (run2, n2)"
    and p: "push_timeline_sample w e (run2\<lparr>tr_runtimes := rs\<rparr>) = Inr run'"
    unfolding run_window_def by (auto simp: rbind_Inr_iff rensure_Inr_iff)
  have "on_grid k s e (next_timeline_tick s k) (run_stamps run)"
    using on_grid_start [OF k assms(4,6) _ assms(5)] assms(2,4,7) by simp
  from event_loop_grid [OF l k assms(7,6) this assms(3)]
  have "on_grid k s e n1 (run_stamps run1)" "aligned w run1" by simp_all
  from tick_until_grid [OF t k _ assms(7,6) this]
  have g: "on_grid k s e n2 (run_stamps run2)" "e \<le> n2" "aligned w run2" by simp_all
  show ?thesis
    using push_sample_stamps [OF p] on_grid_finish [OF g(1,2) assms(4)] g(3) k by simp
qed

lemma downsample_all:
  assumes "increasing points" and "\<not> length (downsample_timeline_points points m) < length points"
  shows "downsample_timeline_points points m = points"
  using downsample_subseq [OF assms(1), of m] assms(2)
  by (metis list_emb_length nat_less_le subseq_same_length)

definition series_on :: "i64 list \<Rightarrow> bool \<Rightarrow> nav_timeline_point list \<Rightarrow> bool" where
  "series_on ts full points \<longleftrightarrow>
     subseq (stamps_of points) ts \<and> stamps_of points \<noteq> [] \<and> hd (stamps_of points) = hd ts
     \<and> last (stamps_of points) = last ts \<and> (full \<longrightarrow> stamps_of points = ts)"

lemma grid_increasing: "s \<le> e \<Longrightarrow> sorted_wrt (<) (grid_stamps k s e)"
  by (auto simp: grid_stamps_def sorted_wrt_append intro: sorted_wrt_filter)

lemma downsampled_on:
  assumes "stamps_of points = grid_stamps k s e" and "s \<le> e"
  shows "series_on (grid_stamps k s e) (\<not> length (downsample_timeline_points points m) < length points)
    (downsample_timeline_points points m)"
proof -
  have inc: "increasing points" unfolding assms(1) by (rule grid_increasing [OF assms(2)])
  have ne: "points \<noteq> []" using assms(1) by (auto simp: grid_stamps_def)
  note D = downsample_ends [OF inc ne, of m]
  have "subseq (stamps_of (downsample_timeline_points points m)) (stamps_of points)"
    by (rule subseq_map [OF downsample_subseq [OF inc]])
  then show ?thesis
    using D ne downsample_all [OF inc, of m] unfolding series_on_def assms(1) [symmetric]
    by (auto simp: hd_map last_map)
qed

lemma series_on_weaken: "series_on ts a points \<Longrightarrow> (b \<Longrightarrow> a) \<Longrightarrow> series_on ts b points"
  by (auto simp: series_on_def)

lemma rebuilt_timeline:
  assumes "rebuild_nav_timeline fp config q snapshots strategy_snapshots histories cached prices = Inr (r, prices')"
  obtains w run0 run earlier ids earliest symbols selected strategies es start_ts runtimes where
    "open_window start_ts selected strategies prices earlier runtimes = Inr (w, run0)"
    "run_window w (case tq_tick_interval_us q of None \<Rightarrow> nav_tick_interval_us | Some i \<Rightarrow> i) start_ts (tq_end_ts_us q) es run0 = Inr run"
    "r = window_report q ids earliest start_ts symbols prices w run" "0 \<le> tq_end_ts_us q" "start_ts \<le> tq_end_ts_us q"
  using assms unfolding rebuild_nav_timeline_def Let_def by (auto simp: rbind_Inr_iff rensure_Inr_iff)

lemma window_report_fields:
  "tl_start_ts_us (window_report q ids earliest s symbols prices w run) = s"
  "tl_points (window_report q ids earliest s symbols prices w run) = downsample_timeline_points (tr_points run) (max (tq_max_points q) 2)"
  "tl_symbol_points (window_report q ids earliest s symbols prices w run) =
     map (\<lambda>k. \<lparr>yt_symbol = k, yt_points = downsample_timeline_points (series_of (tr_points_by_symbol run) k)
         (max 100 (min 800 (tq_max_points q)))\<rparr>) (wn_selected_symbols w)"
  "tl_strategy_points (window_report q ids earliest s symbols prices w run) =
     filter (\<lambda>t. \<not> empty_virtual t) (map (strategy_timeline w (max 100 (min 800 (tq_max_points q))) run) (wn_available_strategies w))"
  "\<not> tl_sampled (window_report q ids earliest s symbols prices w run) \<longleftrightarrow>
     \<not> length (downsample_timeline_points (tr_points run) (max (tq_max_points q) 2)) < length (tr_points run)
     \<and> (\<forall>k \<in> set (wn_selected_symbols w). \<not> length (downsample_timeline_points (series_of (tr_points_by_symbol run) k)
          (max 100 (min 800 (tq_max_points q)))) < length (series_of (tr_points_by_symbol run) k))
     \<and> (\<forall>k \<in> set (wn_available_strategies w). \<not> length (downsample_timeline_points (series_of (tr_points_by_strategy run) k)
          (max 100 (min 800 (tq_max_points q)))) < length (series_of (tr_points_by_strategy run) k))"
  by (auto simp: window_report_def Let_def list_ex_iff strategy_timeline_def split_def)

lemma strategy_timeline_points [simp]:
  "gt_points (strategy_timeline w m run k) = downsample_timeline_points (series_of (tr_points_by_strategy run) k) m"
  by (simp add: strategy_timeline_def Let_def split_def)

subsection \<open>Sampling and the ledgers\<close>

definition plain_states :: "timeline_state list \<Rightarrow> bool" where
  "plain_states rs \<longleftrightarrow> (\<forall>s \<in> set rs. rt_allocations s = [])"

definition plain_run :: "timeline_run \<Rightarrow> bool" where
  "plain_run run \<longleftrightarrow> tr_prices run = None \<and> plain_states (tr_runtimes run)"

lemma rmapM_Inr: "(\<And>x. x \<in> set xs \<Longrightarrow> f x = Inr (g x)) \<Longrightarrow> rmapM f xs = Inr (map g xs)"
  by (induction xs) simp_all

lemma advance_plain_states: "plain_states rs \<Longrightarrow> rmapM (advance_allocations ts i) rs = Inr rs"
  using rmapM_Inr [of rs "advance_allocations ts i" "\<lambda>s. s"] by (simp add: plain_states_def)

lemma push_plain:
  assumes "plain_run run"
  obtains run' where "push_timeline_sample w ts run = Inr run'" and "tr_runtimes run' = tr_runtimes run" and "plain_run run'"
proof -
  have "rmapM (advance_allocations ts (tr_points run \<noteq> [])) (tr_runtimes run) = Inr (tr_runtimes run)"
    using assms by (intro advance_plain_states) (simp add: plain_run_def)
  moreover have "tr_prices run = None" using assms by (simp add: plain_run_def)
  ultimately have "\<exists>run'. push_timeline_sample w ts run = Inr run' \<and> tr_runtimes run' = tr_runtimes run \<and> tr_prices run' = None"
    by (simp add: push_timeline_sample_def apply_minute_marks_def Let_def split_def)
  then show ?thesis using that assms by (auto simp: plain_run_def)
qed

lemma tick_until_plain:
  assumes "plain_run run"
  shows "\<exists>run' n'. tick_until w k limit n run = Inr (run', n') \<and> tr_runtimes run' = tr_runtimes run \<and> plain_run run'"
  using assms
proof (induction w k limit n run rule: tick_until.induct)
  case (1 w k limit n run)
  obtain run1 where push: "push_timeline_sample w n run = Inr run1" "tr_runtimes run1 = tr_runtimes run" "plain_run run1"
    using push_plain [OF "1.prems"] .
  show ?case
    using "1.IH" [OF _ push(1)] push "1.prems" by (subst tick_until.simps) auto
qed

lemma activate_allocations [simp]: "rt_allocations (activate_snapshot_at ts s) = rt_allocations s"
  by simp

lemma apply_event_plain:
  assumes "apply_timeline_event rs e = Inr rs'" and "plain_states rs"
  shows "plain_states rs'"
proof (cases "te_source_index e < length rs")
  case True
  then have "rt_allocations (rs ! te_source_index e) = []" using assms(2) by (simp add: plain_states_def)
  then show ?thesis
    using assms apply_fill_fields set_update_subset_insert
    by (cases e) (fastforce simp: apply_timeline_event_def plain_states_def rmap_Inr_iff)+
next
  case False
  then show ?thesis using assms by (auto simp: apply_timeline_event_def Let_def rmap_Inr_iff not_less list_update_beyond)
qed

lemma apply_events_plain: "rfold apply_timeline_event rs es = Inr rs' \<Longrightarrow> plain_states rs \<Longrightarrow> plain_states rs'"
  by (erule rfold_invariant) (auto intro: apply_event_plain)

lemma takeWhile_le_split:
  fixes e :: int
  assumes "te_ts_us ev \<le> e"
  shows "takeWhile (\<lambda>x. te_ts_us x \<le> e) (ev # es) =
    takeWhile (\<lambda>x. te_ts_us x = te_ts_us ev) (ev # es)
    @ takeWhile (\<lambda>x. te_ts_us x \<le> e) (dropWhile (\<lambda>x. te_ts_us x = te_ts_us ev) es)"
proof -
  have "takeWhile (\<lambda>x. te_ts_us x \<le> e) es = takeWhile (\<lambda>x. te_ts_us x = te_ts_us ev) es
    @ takeWhile (\<lambda>x. te_ts_us x \<le> e) (dropWhile (\<lambda>x. te_ts_us x = te_ts_us ev) es)"
    using assms by (induction es) auto
  then show ?thesis using assms by simp
qed

lemma event_loop_plain:
  assumes "plain_run run"
  shows "case rfold apply_timeline_event (tr_runtimes run) (takeWhile (\<lambda>x. te_ts_us x \<le> e) es) of
      Inl err \<Rightarrow> event_loop w k e es n run = Inl err
    | Inr rs \<Rightarrow> \<exists>run' n'. event_loop w k e es n run = Inr (run', n') \<and> tr_runtimes run' = rs \<and> plain_run run'"
  using assms
proof (induction w k e es n run rule: event_loop.induct)
  case (2 w k e ev es n run)
  define ts where "ts = te_ts_us ev"
  show ?case
  proof (cases "e < ts")
    case True
    then show ?thesis using "2.prems" by (simp add: ts_def)
  next
    case False
    define evs where "evs = takeWhile (\<lambda>x. te_ts_us x = ts) (ev # es)"
    define rest where "rest = dropWhile (\<lambda>x. te_ts_us x = ts) es"
    obtain run1 n1 where t: "tick_until w k (min ts e) n run = Inr (run1, n1)"
      and run1: "tr_runtimes run1 = tr_runtimes run" "plain_run run1"
      using tick_until_plain [OF "2.prems"] by blast
    have loop: "event_loop w k e (ev # es) n run = rbind (rfold apply_timeline_event (tr_runtimes run) evs) (\<lambda>rs.
        rbind (if n1 = ts \<and> n1 \<le> e
               then rmap (\<lambda>run3. (run3, advanced_tick k n1)) (push_timeline_sample w n1 (run1\<lparr>tr_runtimes := rs\<rparr>))
               else Inr (run1\<lparr>tr_runtimes := rs\<rparr>, n1)) (\<lambda>(run3, n3). event_loop w k e rest n3 run3))"
      using False t run1(1) unfolding event_loop.simps Let_def ts_def [symmetric] evs_def rest_def by simp
    have split: "takeWhile (\<lambda>x. te_ts_us x \<le> e) (ev # es) = evs @ takeWhile (\<lambda>x. te_ts_us x \<le> e) rest"
      using takeWhile_le_split [of ev e es] False by (simp add: ts_def evs_def rest_def)
    show ?thesis
    proof (cases "rfold apply_timeline_event (tr_runtimes run) evs")
      case (Inl err)
      then show ?thesis unfolding split rfold_append loop by simp
    next
      case (Inr rs)
      let ?run2 = "run1\<lparr>tr_runtimes := rs\<rparr>"
      have "plain_states rs" using apply_events_plain [OF Inr] "2.prems" by (simp add: plain_run_def)
      then have plain2: "plain_run ?run2" using run1(2) by (simp add: plain_run_def)
      obtain run4 where run4: "push_timeline_sample w n1 ?run2 = Inr run4" "tr_runtimes run4 = rs" "plain_run run4"
        using push_plain [OF plain2, of w n1] by auto
      obtain run3 n3 where p: "(if n1 = ts \<and> n1 \<le> e
               then rmap (\<lambda>run3. (run3, advanced_tick k n1)) (push_timeline_sample w n1 ?run2)
               else Inr (?run2, n1)) = Inr (run3, n3)" and run3: "tr_runtimes run3 = rs" "plain_run run3"
        using that [of run4 "advanced_tick k n1"] that [of ?run2 n1] plain2 run4
        by (cases "n1 = ts \<and> n1 \<le> e") simp_all
      have loop_eq: "event_loop w k e (ev # es) n run = event_loop w k e rest n3 run3"
        unfolding loop Inr rbind_simps p by simp
      have fold_eq: "rfold apply_timeline_event (tr_runtimes run) (takeWhile (\<lambda>x. te_ts_us x \<le> e) (ev # es))
          = rfold apply_timeline_event rs (takeWhile (\<lambda>x. te_ts_us x \<le> e) rest)"
        unfolding split rfold_append Inr by simp
      show ?thesis
        unfolding loop_eq fold_eq using "2.IH" [OF ts_def False refl rest_def run3(2)] unfolding run3(1) .
    qed
  qed
qed auto

lemma run_window_plain:
  assumes "plain_run run" and "0 < k"
  shows "rmap tr_runtimes (run_window w k s e es run) =
    rmap (map (activate_snapshot_at e))
      (rfold apply_timeline_event (tr_runtimes run) (takeWhile (\<lambda>x. te_ts_us x \<le> e) es))"
proof (cases "rfold apply_timeline_event (tr_runtimes run) (takeWhile (\<lambda>x. te_ts_us x \<le> e) es)")
  case (Inl err)
  then have "event_loop w k e es (next_timeline_tick s k) run = Inl err"
    using event_loop_plain [OF assms(1), of w k e es "next_timeline_tick s k"] by simp
  then show ?thesis using Inl assms(2) by (simp add: run_window_def rmap_def)
next
  case (Inr rs)
  then obtain run1 n1 where loop: "event_loop w k e es (next_timeline_tick s k) run = Inr (run1, n1)"
    and run1: "tr_runtimes run1 = rs" "plain_run run1"
    using event_loop_plain [OF assms(1), of w k e es "next_timeline_tick s k"] by auto
  obtain run2 n2 where ticks: "tick_until w k e n1 run1 = Inr (run2, n2)"
    and run2: "tr_runtimes run2 = rs" "plain_run run2"
    using tick_until_plain [OF run1(2), of w k e n1] run1(1) by auto
  have plain: "plain_states rs" using run2 by (simp add: plain_run_def)
  let ?rs = "map (activate_snapshot_at e) rs"
  have adv: "rmapM (\<lambda>s. advance_allocations e True (activate_snapshot_at e s)) rs = Inr ?rs"
    using plain by (intro rmapM_Inr) (simp add: plain_states_def)
  have "plain_run (run2\<lparr>tr_runtimes := ?rs\<rparr>)" using plain run2(2) by (simp add: plain_run_def plain_states_def)
  then obtain run3 where "push_timeline_sample w e (run2\<lparr>tr_runtimes := ?rs\<rparr>) = Inr run3" "tr_runtimes run3 = ?rs"
    using push_plain [of "run2\<lparr>tr_runtimes := ?rs\<rparr>" w e] by auto
  then have "run_window w k s e es run = Inr run3"
    using loop ticks adv run2(1) assms(2) by (simp add: run_window_def)
  then show ?thesis using Inr \<open>tr_runtimes run3 = ?rs\<close> by simp
qed


text \<open>A source with one fill.\<close>

lemma sample_validated: "validated_fill_side sample_fill = Inr (Some Buy)"
proof -
  have t: "trim ''BTCUSDT'' = ''BTCUSDT''" by (rule plain_text)
  have z: "\<not> (1 :: f64) < 0" "\<not> feq 1 0" by (simp_all add: f64_ops)
  show ?thesis using t z by (simp add: validated_fill_side_def sample_fill_def validate_positive_def)
qed

definition booked_fill :: prepared_fill where
  "booked_fill = \<lparr>pf_event = sample_fill, pf_side = Buy, pf_fill_ts_us = 11, pf_liquidity = Maker,
     pf_initial_position_close = False\<rparr>"

definition booked_prepared :: prepared_source_events where
  "booked_prepared = sample_prepared\<lparr>pe_fill_events := [booked_fill], pe_order_event_count := 1\<rparr>"

lemma sample_prepares: "prepare_source_events fp (sample_source ''a'') [sample_fill] None None [] [] = Inr booked_prepared"
proof -
  have "fifo_ts_us sample_fill = 11" "liquidity_role_for_event sample_fill [] = Maker"
    by (simp_all add: fifo_ts_us_def liquidity_role_for_event_def internal_cross_order_type_code_def sample_fill_def)
  then show ?thesis
    by (simp add: prepare_source_events_def scan_event_def sample_validated select_allocations_def allocation_resolve_def
        booked_prepared_def sample_prepared_def booked_fill_def attribute_initial_position_def bm_contains_def Let_def bm_extend_def)
qed

definition sample_runtime :: timeline_state where
  "sample_runtime =
     \<lparr>rt_allocations = [], rt_next_allocation = 0, rt_source_id = ''a'', rt_fee_rates = zero_rates, rt_snapshot_ts_us = None,
      rt_pending_initial_states = None, rt_pending_initial_strategy_states = None, rt_states = [], rt_strategy_states = [],
      rt_latest_marks = [], rt_strategy_allocation_active = False\<rparr>"

lemma sample_starts: "initial_timeline_state (sample_source ''a'') booked_prepared = Inr sample_runtime"
  by (simp add: initial_timeline_state_def sample_rates booked_prepared_def sample_prepared_def sample_runtime_def)
    (simp add: sample_source_def)

lemma sample_books:
  obtains s where "timeline_apply_fill booked_fill sample_runtime = Inr s" and "rt_allocations s = []" and "rt_snapshot_ts_us s = None"
  using sample_fill_booked [of booked_fill sample_runtime] by (auto simp: booked_fill_def sample_runtime_def)

definition blank_run :: "timeline_state list \<Rightarrow> timeline_run" where
  "blank_run rs = \<lparr>tr_runtimes = rs, tr_points = [], tr_points_by_symbol = [], tr_points_by_strategy = [], tr_prices = None\<rparr>"

definition blank_window :: window where
  "blank_window = \<lparr>wn_baselines = [], wn_strategy_baselines = [], wn_selected_symbols = [], wn_available_strategies = []\<rparr>"

lemma sample_events: "\<exists>s. rfold apply_timeline_event [sample_runtime] [FillEvent 0 ''a'' booked_fill] = Inr [s] \<and> activate_snapshot_at 33 s = s"
proof -
  obtain s where s: "timeline_apply_fill booked_fill sample_runtime = Inr s" "rt_snapshot_ts_us s = None" by (rule sample_books)
  then show ?thesis by (simp add: apply_timeline_event_def activate_not_due due_def)
qed

definition one_fill_history :: nav_source_history where
  "one_fill_history =
     \<lparr>nh_allocations = [], nh_events = [sample_fill], nh_liquidity_by_order = [], nh_revision = 1, nh_change = None\<rparr>"

definition sample_request :: nav_timeline_request where
  "sample_request =
     \<lparr>tq_start_ts_us = None, tq_end_ts_us = 33, tq_selected_source_ids = [], tq_selected_symbols = [],
      tq_max_points = 100, tq_tick_interval_us = Some 10\<rparr>"

definition rebuilt_sample :: "nav_error + nav_timeline_report \<times> minute_marks option" where
  "rebuilt_sample = rebuild_nav_timeline (\<lambda>_. Inr []) [sample_source ''a''] sample_request [] [] [(''a'', one_fill_history)] None None"

lemma sample_collected:
  "collect_source fp sample_request [] [] [(''a'', one_fill_history)] None
      \<lparr>cl_runtimes = [], cl_events = [], cl_symbols = [], cl_strategies = [], cl_anchors = []\<rparr> (sample_source ''a'') =
   Inr \<lparr>cl_runtimes = [sample_runtime], cl_events = [FillEvent 0 ''a'' booked_fill], cl_symbols = [ne_symbol sample_fill],
        cl_strategies = [fill_strategy booked_fill], cl_anchors = [11]\<rparr>"
proof -
  have id: "sc_id (sample_source ''a'') = ''a''" by (simp add: sample_source_def)
  have p: "pe_fill_events booked_prepared = [booked_fill]" "pe_snapshot_ts_us booked_prepared = None"
    "pe_allocations booked_prepared = []" "pe_strategy_allocation_active booked_prepared = False"
    "pf_fill_ts_us booked_fill = 11" "pf_event booked_fill = sample_fill"
    by (simp_all add: booked_prepared_def sample_prepared_def booked_fill_def)
  have point: "fill_partition_point (\<lambda>f. pf_fill_ts_us f \<le> 33) [booked_fill] = 1"
    by (simp add: fill_partition_point_def bsearch.simps p)
  have "window_fills booked_prepared 0 33 = [booked_fill]"
    by (simp add: window_fills_def p point)
  moreover have "due_snapshot booked_prepared 33 = None" by (simp add: due_snapshot_def p)
  ultimately show ?thesis
    by (simp add: collect_source_def sample_rates history_of_def id sample_request_def one_fill_history_def cached_hit_def
        sample_prepares sample_starts start_checkpoint_def Let_def snapshot_names_def allocation_names_def cached_names_def
        fill_names_def strategy_bucket_def p source_anchor_def or_else_def option_list_def)
qed

lemma sample_opens:
  obtains w run where "open_window 11 symbols strategies None [] [sample_runtime] = Inr (w, run)"
    and "tr_runtimes run = [sample_runtime]" and "plain_run run"
proof -
  let ?run = "\<lparr>tr_runtimes = [sample_runtime], tr_points = [],
           tr_points_by_symbol = bm_extend [] (map (\<lambda>s. (s, [])) symbols),
           tr_points_by_strategy = bm_extend [] (map (\<lambda>s. (s, [])) strategies), tr_prices = None\<rparr>"
  have plain: "plain_run ?run" by (simp add: plain_run_def plain_states_def sample_runtime_def)
  have act: "activate_snapshot_at 11 sample_runtime = sample_runtime"
    by (simp add: activate_not_due due_def sample_runtime_def)
  have adv: "advance_allocations 11 False sample_runtime = Inr sample_runtime"
    by (rule advance_plain) (simp add: sample_runtime_def)
  show ?thesis
    using that push_plain [OF plain] unfolding open_window_def
    by (simp add: act adv apply_minute_marks_def Let_def) (metis rmap_Inr(1))
qed

lemma rebuilt_sample_ok: "\<exists>r p. rebuilt_sample = Inr (r, p) \<and> tl_start_ts_us r = 11"
proof -
  let ?w = "open_window 11 [ne_symbol sample_fill] [fill_strategy booked_fill] None [] [sample_runtime]"
  obtain w run0 where o: "?w = Inr (w, run0)" and run0: "tr_runtimes run0 = [sample_runtime]" "plain_run run0"
    by (rule sample_opens)
  obtain s where s: "rfold apply_timeline_event [sample_runtime] [FillEvent 0 ''a'' booked_fill] = Inr [s]" using sample_events by blast
  have "takeWhile (\<lambda>x. te_ts_us x \<le> 33) [FillEvent 0 ''a'' booked_fill] = [FillEvent 0 ''a'' booked_fill]" by (simp add: booked_fill_def)
  then have "rmap tr_runtimes (run_window w 10 11 33 [FillEvent 0 ''a'' booked_fill] run0) = Inr [activate_snapshot_at 33 s]"
    using run_window_plain [OF run0(2), of 10 w 11 33 "[FillEvent 0 ''a'' booked_fill]"] run0(1) s by (simp del: rfold.simps)
  then obtain run where run: "run_window w 10 11 33 [FillEvent 0 ''a'' booked_fill] run0 = Inr run" by (auto simp: rmap_Inr_iff)
  have split: "partition_point (\<lambda>e. te_ts_us e < 11) [FillEvent 0 ''a'' booked_fill] = 0"
    by (simp add: partition_point_def bsearch.simps booked_fill_def)
  have sel: "select_sources [sample_source ''a''] [] = Inr [sample_source ''a'']"
    by (simp add: select_sources_def sample_source_def set_of_list_def bm_extend_def bm_keys_def Let_def)
  have names: "set_of_list [ne_symbol sample_fill] = [ne_symbol sample_fill]" "set_of_list [fill_strategy booked_fill] = [fill_strategy booked_fill]"
    "select_timeline_symbols symbols [] = Inr symbols" for symbols
    by (simp_all add: set_of_list_def bm_keys_def bm_extend_def select_timeline_symbols_def)
  show ?thesis
    unfolding rebuilt_sample_def rebuild_nav_timeline_def
    by (simp add: sample_request_def [THEN arg_cong [where f = tq_end_ts_us]] sample_request_def [THEN arg_cong [where f = tq_selected_source_ids]]
        sample_request_def [THEN arg_cong [where f = tq_selected_symbols]] sample_request_def [THEN arg_cong [where f = tq_tick_interval_us]]
        sample_request_def [THEN arg_cong [where f = tq_start_ts_us]]
        sel selected_only_def bm_keys_def sample_collected min_list_option_def resolved_start_ts_us_def names split Let_def o run window_report_fields)
qed

text \<open>
  C21: Every series a timeline report contains - the portfolio's, each selected symbol's and each
  displayed strategy's - is sampled on one grid, which the fills do not influence: the start, the
  multiples of the tick interval strictly between start and end, and the end. Downsampling keeps the
  two ends, and a report that does not say it was sampled holds the whole grid in every series.
\<close>

theorem timeline_sampling_grid:
  assumes "rebuild_nav_timeline fp config q snapshots strategy_snapshots histories cached prices = Inr (r, prices')"
    and "k = (case tq_tick_interval_us q of None \<Rightarrow> nav_tick_interval_us | Some i \<Rightarrow> i)"
    and "i64_min \<le> tl_start_ts_us r" and "tq_end_ts_us q + k \<le> i64_max"
  shows "0 < k \<and> tl_start_ts_us r \<le> tq_end_ts_us q
    \<and> series_on (grid_stamps k (tl_start_ts_us r) (tq_end_ts_us q)) (\<not> tl_sampled r) (tl_points r)
    \<and> list_all (\<lambda>t. series_on (grid_stamps k (tl_start_ts_us r) (tq_end_ts_us q)) (\<not> tl_sampled r) (yt_points t)) (tl_symbol_points r)
    \<and> list_all (\<lambda>t. series_on (grid_stamps k (tl_start_ts_us r) (tq_end_ts_us q)) (\<not> tl_sampled r) (gt_points t)) (tl_strategy_points r)"
proof -
  obtain w run0 run earlier ids earliest symbols selected strategies es s runtimes where
    o: "open_window s selected strategies prices earlier runtimes = Inr (w, run0)"
    and run: "run_window w k s (tq_end_ts_us q) es run0 = Inr run"
    and r: "r = window_report q ids earliest s symbols prices w run" and e: "0 \<le> tq_end_ts_us q" "s \<le> tq_end_ts_us q"
    using rebuilt_timeline [OF assms(1)] unfolding assms(2) by metis
  note O = opened_window [OF o]
  have s: "tl_start_ts_us r = s" by (simp add: r window_report_fields)
  have R: "0 < k" "run_stamps run = grid_stamps k s (tq_end_ts_us q)" "aligned w run"
    using ran_window [OF run _ _ e(2,1) _ assms(4)] O assms(3) s by simp_all
  have points: "series_on (grid_stamps k s (tq_end_ts_us q)) (\<not> tl_sampled r) (tl_points r)"
    unfolding r window_report_fields
    by (rule series_on_weaken [OF downsampled_on [OF R(2) e(2)]]) simp
  have sym: "stamps_of (series_of (tr_points_by_symbol run) y) = grid_stamps k s (tq_end_ts_us q)" if "y \<in> set (wn_selected_symbols w)" for y
    using R(2,3) that by (auto simp: aligned_def has_series_def series_of_def)
  have str: "stamps_of (series_of (tr_points_by_strategy run) y) = grid_stamps k s (tq_end_ts_us q)" if "y \<in> set (wn_available_strategies w)" for y
    using R(2,3) that by (auto simp: aligned_def has_series_def series_of_def)
  have "list_all (\<lambda>t. series_on (grid_stamps k s (tq_end_ts_us q)) (\<not> tl_sampled r) (yt_points t)) (tl_symbol_points r)"
    unfolding r window_report_fields list_all_iff
    using series_on_weaken [OF downsampled_on [OF sym e(2)]] by auto
  moreover have "list_all (\<lambda>t. series_on (grid_stamps k s (tq_end_ts_us q)) (\<not> tl_sampled r) (gt_points t)) (tl_strategy_points r)"
    unfolding r window_report_fields list_all_iff
    using series_on_weaken [OF downsampled_on [OF str e(2)]] by auto
  ultimately show ?thesis using R(1) e points by (simp add: s)
qed

theorem timeline_sampling_grid_witness:
  "\<exists>r p. rebuilt_sample = Inr (r, p) \<and> series_on [11, 20, 30, 33] (\<not> tl_sampled r) (tl_points r)"
proof -
  obtain r p where r: "rebuilt_sample = Inr (r, p)" "tl_start_ts_us r = 11" using rebuilt_sample_ok by blast
  have "grid_stamps 10 11 33 = [11, 20, 30, 33]" by (simp add: grid_stamps_def upto_rec1)
  then show ?thesis
    using timeline_sampling_grid [OF r(1) [unfolded rebuilt_sample_def], of 10] r
    by (auto simp: sample_request_def i64_min_def i64_max_def)
qed

subsection \<open>The rows of a strategy export\<close>

lemma sorted_wrt_subseq: "subseq ys xs \<Longrightarrow> sorted_wrt R xs \<Longrightarrow> sorted_wrt R ys"
proof (induction rule: list_emb.induct)
  case (list_emb_Cons2 x y xs ys)
  then show ?case using list_emb_set [OF list_emb_Cons2.hyps(2)] by fastforce
qed simp_all

lemma scan_event_fills:
  assumes "scan_event ts roles s e = Inr s'"
  shows "sn_fills s' = sn_fills s \<or> (\<exists>f. sn_fills s' = sn_fills s @ [f] \<and> fill_order_key f = event_order_key e)"
  using assms unfolding scan_event_def Let_def
  by (auto simp: rbind_Inr_iff fill_order_key_def event_order_key_def split: if_splits option.splits)

lemma scan_fills:
  "rfold (scan_event ts roles) s es = Inr s' \<Longrightarrow>
   \<exists>fs. sn_fills s' = sn_fills s @ fs \<and> subseq (map fill_order_key fs) (map event_order_key es)"
proof (induction es arbitrary: s)
  case (Cons e es)
  from Cons.prems obtain s1 where s1: "scan_event ts roles s e = Inr s1" "rfold (scan_event ts roles) s1 es = Inr s'"
    by (auto simp: rbind_Inr_iff)
  obtain fs where fs: "sn_fills s' = sn_fills s1 @ fs" "subseq (map fill_order_key fs) (map event_order_key es)"
    using Cons.IH [OF s1(2)] by blast
  from scan_event_fills [OF s1(1)] show ?case
  proof
    assume "sn_fills s1 = sn_fills s"
    with fs show ?thesis by (intro exI [of _ fs]) (simp add: list_emb_Cons)
  next
    assume "\<exists>f. sn_fills s1 = sn_fills s @ [f] \<and> fill_order_key f = event_order_key e"
    then obtain f where f: "sn_fills s1 = sn_fills s @ [f]" "fill_order_key f = event_order_key e" by blast
    with fs show ?thesis by (intro exI [of _ "f # fs"]) (simp add: list_emb_Cons2)
  qed
qed simp

lemma attribute_keeps_order [simp]: "fill_order_key (attribute_initial_position a i f) = fill_order_key f"
  by (simp add: fill_order_key_def attribute_initial_position_def)

lemma prepared_fills_sorted:
  assumes "prepare_source_events fp source events snapshot strategy_snapshot roles allocations = Inr p"
  shows "sorted (map fill_order_key (pe_fill_events p))"
proof -
  have "\<exists>ts s. rfold (scan_event ts roles) \<lparr>sn_ignored_snapshot = 0, sn_ignored_non_fill = 0, sn_fills = [], sn_first = []\<rparr>
      (sort_key event_order_key events) = Inr s \<and> map fill_order_key (pe_fill_events p) = map fill_order_key (sn_fills s)"
    using assms unfolding prepare_source_events_def Let_def rbind_Inr_iff by (fastforce simp: comp_def)
  then obtain ts s where
    scan: "rfold (scan_event ts roles) \<lparr>sn_ignored_snapshot = 0, sn_ignored_non_fill = 0, sn_fills = [], sn_first = []\<rparr>
      (sort_key event_order_key events) = Inr s"
    and p: "map fill_order_key (pe_fill_events p) = map fill_order_key (sn_fills s)"
    by blast
  have "subseq (map fill_order_key (sn_fills s)) (map event_order_key (sort_key event_order_key events))"
    using scan_fills [OF scan] by auto
  then have "sorted (map fill_order_key (sn_fills s))"
    by (rule sorted_wrt_subseq) simp
  then show ?thesis by (simp only: p)
qed

lemma takeWhile_sorted_key:
  fixes key :: "'a \<Rightarrow> int"
  assumes "sorted (map key xs)" and "\<And>a b. a \<le> b \<Longrightarrow> P b \<Longrightarrow> P a"
  shows "takeWhile (\<lambda>x. P (key x)) xs = filter (\<lambda>x. P (key x)) xs"
  using assms(1)
proof (induction xs)
  case (Cons x xs)
  show ?case
  proof (cases "P (key x)")
    case False
    then have "\<not> P (key y)" if "y \<in> set xs" for y using Cons.prems that assms(2) by auto
    with False show ?thesis by simp
  qed (use Cons in simp)
qed simp

lemma fill_partition_sorted:
  assumes "sorted (map pf_fill_ts_us fills)" and "\<And>a b. a \<le> b \<Longrightarrow> P b \<Longrightarrow> P a"
  shows "fill_partition_point (\<lambda>f. P (pf_fill_ts_us f)) fills = length (filter (\<lambda>f. P (pf_fill_ts_us f)) fills)"
proof -
  have "partition_point (\<lambda>f. P (pf_fill_ts_us f)) fills = length (takeWhile (\<lambda>f. P (pf_fill_ts_us f)) fills)"
    using assms by (intro partition_point_sorted [of "\<lambda>a b. pf_fill_ts_us a \<le> pf_fill_ts_us b"]) (auto simp: sorted_wrt_map)
  then show ?thesis
    using takeWhile_sorted_key [OF assms(1), of P] assms(2) by (simp add: fill_partition_point_def partition_point_def)
qed

lemma window_slice:
  fixes key :: "'a \<Rightarrow> int"
  assumes "sorted (map key xs)" and "s \<le> e"
  shows "take (length (filter (\<lambda>x. key x \<le> e) xs) - length (filter (\<lambda>x. key x < s) xs)) (drop (length (filter (\<lambda>x. key x < s) xs)) xs)
    = filter (\<lambda>x. s \<le> key x \<and> key x \<le> e) xs"
proof -
  let ?A = "filter (\<lambda>x. key x < s) xs" and ?B = "filter (\<lambda>x. s \<le> key x \<and> key x \<le> e) xs" and ?C = "filter (\<lambda>x. e < key x) xs"
  have split: "?A @ ?B @ ?C = xs"
    using assms(1)
  proof (induction xs)
    case (Cons x xs)
    have ge: "\<forall>y \<in> set xs. key x \<le> key y" using Cons.prems by simp
    have "filter (\<lambda>x. key x < s) xs = []" if "s \<le> key x" using ge that by (force simp: filter_empty_conv)
    moreover have "filter (\<lambda>x. s \<le> key x \<and> key x \<le> e) xs = []" if "e < key x" using ge that by (force simp: filter_empty_conv)
    ultimately show ?case using Cons assms(2) by (cases "key x < s"; cases "key x \<le> e") auto
  qed simp
  have "length (filter (\<lambda>x. key x \<le> e) xs) = length ?A + length ?B"
    using assms(2) by (induction xs) auto
  then have "take (length (filter (\<lambda>x. key x \<le> e) xs) - length ?A) (drop (length ?A) (?A @ ?B @ ?C)) = ?B"
    by simp
  then show ?thesis unfolding split .
qed

lemma activate_active [simp]: "rt_strategy_allocation_active (activate_snapshot_at ts s) = rt_strategy_allocation_active s"
  by (simp add: activate_snapshot_at_def Let_def split: option.splits)

lemma advance_active:
  assumes "advance_allocations ts i s = Inr s'"
  shows "rt_strategy_allocation_active s' = rt_strategy_allocation_active s"
proof -
  have "advance_loop ts i as s = Inr s' \<Longrightarrow> rt_strategy_allocation_active s' = rt_strategy_allocation_active s" for as
  proof (induction ts i as s rule: advance_loop.induct)
    case (2 ts i a rest s)
    show ?case
    proof (cases "ts < as_snapshot_ts_us a \<or> (\<not> i \<and> as_snapshot_ts_us a = ts)")
      case False
      then obtain s1 where s1: "apply_allocation a s = Inr s1"
        and rec: "advance_loop ts i rest (s1\<lparr>rt_next_allocation := rt_next_allocation s1 + 1\<rparr>) = Inr s'"
        using "2.prems" by (auto simp: rbind_Inr_iff)
      have "rt_strategy_allocation_active s1 = rt_strategy_allocation_active s"
        using s1 by (auto simp: apply_allocation_def Let_def rbind_Inr_iff)
      then show ?thesis using "2.IH" [OF False _] rec by simp
    qed (use "2.prems" in simp)
  qed simp
  then show ?thesis using assms by (simp add: advance_allocations_def)
qed

lemma apply_fill_active:
  assumes "timeline_apply_fill f s = Inr s'"
  shows "rt_strategy_allocation_active s' = rt_strategy_allocation_active s"
  using assms unfolding timeline_apply_fill_def Let_def
  by (auto simp: rbind_Inr_iff advance_active split: if_splits)

lemma mark_market_active:
  assumes "mark_market ts sm m = Inr sm'"
  shows "rt_strategy_allocation_active (fst sm') = rt_strategy_allocation_active (fst sm)"
  using assms by (auto simp: mark_market_def rbind_Inr_iff split: prod.splits option.splits)

lemma mark_runtime_active:
  assumes "mark_runtime ts symbols (s, prices) = Inr (s', prices')"
  shows "rt_strategy_allocation_active s' = rt_strategy_allocation_active s"
proof (cases prices)
  case None
  then show ?thesis using assms by (simp add: mark_runtime_def apply_minute_marks_def)
next
  case (Some m)
  then obtain m' where fold: "rfold (mark_market ts) (s, m) (open_markets s symbols) = Inr (s', m')"
    using assms by (auto simp: mark_runtime_def apply_minute_marks_def rmap_Inr_iff rbind_Inr_iff)
  have "rt_strategy_allocation_active (fst (s', m')) = rt_strategy_allocation_active s"
    by (rule rfold_invariant [OF fold, of "\<lambda>sm. rt_strategy_allocation_active (fst sm) = rt_strategy_allocation_active s"])
      (simp_all add: mark_market_active)
  then show ?thesis by simp
qed

text \<open>What identifies a row: its kind, its time and the record it stands for.\<close>

definition row_id :: "strategy_pnl_row \<Rightarrow> strategy_pnl_row_kind \<times> i64 \<times> (string \<times> string \<times> string) option" where
  "row_id r = (rw_row_kind r, rw_ts_us r,
     case (rw_record_key r, rw_symbol r, rw_venue r) of (Some k, Some y, Some v) \<Rightarrow> Some (k, y, v) | _ \<Rightarrow> None)"

definition fill_id :: "prepared_fill \<Rightarrow> strategy_pnl_row_kind \<times> i64 \<times> (string \<times> string \<times> string) option" where
  "fill_id f = (FillRow, pf_fill_ts_us f,
     Some (ne_record_key (pf_event f), ne_symbol (pf_event f), ne_venue (pf_event f)))"

lemma row_id_simps [simp]:
  "row_id (fill_row f t) = fill_id f" "row_id (boundary_row kind ts t) = (kind, ts, None)"
  by (simp_all add: row_id_def fill_row_def fill_id_def boundary_row_def)

lemma boundary_row_totals [simp]: "rw_totals (boundary_row kind ts t) = t"
  by (simp add: boundary_row_def)

lemmas strategy_fill_step_pair = strategy_fill_step_def [of _ _ _ "((s, prices), rows)" for s prices rows, simplified]

lemma strategy_fill_steps:
  "rfold (strategy_fill_step name symbols baseline) ((s, prices), rows) fills = Inr ((s', prices'), rows') \<Longrightarrow>
   rt_strategy_allocation_active s' = rt_strategy_allocation_active s
   \<and> (\<exists>new. rows' = rows @ new \<and> map row_id new =
        map fill_id (filter (is_strategy_fill (rt_strategy_allocation_active s) name) fills))"
proof (induction fills arbitrary: s prices rows)
  case (Cons f fills)
  from Cons.prems obtain s1 where s1: "timeline_apply_fill f s = Inr s1"
    by (auto simp: strategy_fill_step_pair rbind_Inr_iff)
  note a1 = apply_fill_active [OF s1]
  show ?case
  proof (cases "is_strategy_fill (rt_strategy_allocation_active s) name f")
    case False
    then have "rfold (strategy_fill_step name symbols baseline) ((s1, prices), rows) fills = Inr ((s', prices'), rows')"
      using Cons.prems s1 by (simp add: strategy_fill_step_pair)
    from Cons.IH [OF this] show ?thesis using False a1 by simp
  next
    case True
    then obtain s2 p2 where m: "mark_runtime (pf_fill_ts_us f) symbols (s1, prices) = Inr (s2, p2)"
      and rec: "rfold (strategy_fill_step name symbols baseline)
        ((s2, p2), rows @ [fill_row f (totals_difference (strategy_totals s2 name) baseline)]) fills = Inr ((s', prices'), rows')"
      using Cons.prems s1 by (auto simp: strategy_fill_step_pair rbind_Inr_iff)
    from Cons.IH [OF rec] show ?thesis using True a1 mark_runtime_active [OF m] by auto
  qed
qed simp

lemma strategy_rows_ids:
  assumes "strategy_rows name st en symbols prices fills s0 = Inr (rows, prices')"
    and "sorted (map pf_fill_ts_us fills)" and "st \<le> en"
  shows "map row_id rows = (WindowStart, st, None)
      # map fill_id (filter (is_strategy_fill (rt_strategy_allocation_active s0) name)
          (filter (\<lambda>f. st \<le> pf_fill_ts_us f \<and> pf_fill_ts_us f \<le> en) fills))
      @ [(WindowEnd, en, None)]
    \<and> rw_totals (hd rows) = totals_default"
proof -
  let ?active = "rt_strategy_allocation_active"
  let ?from = "length (filter (\<lambda>f. pf_fill_ts_us f < st) fills)"
  let ?to = "length (filter (\<lambda>f. pf_fill_ts_us f \<le> en) fills)"
  have cuts: "fill_partition_point (\<lambda>f. pf_fill_ts_us f < st) fills = ?from"
    "fill_partition_point (\<lambda>f. pf_fill_ts_us f \<le> en) fills = ?to"
    using fill_partition_sorted [OF assms(2), of "\<lambda>t. t < st"] fill_partition_sorted [OF assms(2), of "\<lambda>t. t \<le> en"] by simp_all
  from assms(1) obtain s1 s2 p2 s3 s4 p4 rows4 baseline t where
    run: "rfold (\<lambda>s f. timeline_apply_fill f s) (activate_snapshot_at st s0) (take ?from fills) = Inr s1"
    and mark: "mark_runtime st symbols (s1, prices) = Inr (s2, p2)"
    and adv: "advance_allocations st False s2 = Inr s3"
    and fold: "rfold (strategy_fill_step name symbols baseline) ((s3, p2), [boundary_row WindowStart st totals_default])
        (take (?to - ?from) (drop ?from fills)) = Inr ((s4, p4), rows4)"
    and rows: "rows = rows4 @ [boundary_row WindowEnd en t]"
    unfolding strategy_rows_def Let_def cuts by (auto simp: rbind_Inr_iff)
  have "?active s1 = ?active (activate_snapshot_at st s0)"
    by (rule rfold_invariant [OF run, of "\<lambda>s. ?active s = ?active (activate_snapshot_at st s0)"]) (simp_all add: apply_fill_active)
  then have active: "?active s3 = ?active s0"
    using mark_runtime_active [OF mark] advance_active [OF adv] by simp
  from strategy_fill_steps [OF fold] show ?thesis
    by (auto simp: rows active window_slice [OF assms(2,3)])
qed

definition export_request :: strategy_pnl_request where
  "export_request = \<lparr>sq_source_id = ''a'', sq_strategy_name = ''alpha'', sq_start_ts_us = 5, sq_end_ts_us = 33\<rparr>"

definition exported_sample :: "nav_error + strategy_pnl_report \<times> minute_marks option" where
  "exported_sample = rebuild_strategy_pnl (\<lambda>_. Inr []) [sample_source ''a''] export_request [] [] [(''a'', one_fill_history)] None"

lemma sample_fill_strategy: "fill_strategy booked_fill = ''alpha''"
  by (simp add: fill_strategy_def booked_fill_def sample_fill_def strategy_from_from_key_def batch_exec_from_key_prefix_def
      strip_prefix_def strategy_char_def is_alnum_def is_lower_def is_digit_def is_upper_def byte_of_def or_else_def)

lemma exported_sample_ok: "\<exists>r p. exported_sample = Inr (r, p)"
proof -
  obtain s where s: "timeline_apply_fill booked_fill sample_runtime = Inr s" "rt_allocations s = []" by (rule sample_books)
  have id: "sc_id (sample_source ''a'') = ''a''" by (simp add: sample_source_def)
  have f: "pf_fill_ts_us booked_fill = 11" by (simp add: booked_fill_def)
  have p: "pe_fill_events booked_prepared = [booked_fill]" by (simp add: booked_prepared_def)
  have sel: "select_sources [sample_source ''a''] [''a''] = Inr [sample_source ''a'']"
    by (simp add: select_sources_def sample_source_def set_of_list_def bm_extend_def bm_keys_def Let_def)
  have name: "strategy_from_from_key (batch_exec_from_key_prefix @ ''alpha'') = ''alpha''"
    by (simp add: strategy_from_from_key_def batch_exec_from_key_prefix_def strip_prefix_def strategy_char_def
        is_alnum_def is_lower_def is_digit_def is_upper_def byte_of_def or_else_def)
  have act: "activate_snapshot_at 5 sample_runtime = sample_runtime" by (simp add: activate_not_due due_def sample_runtime_def)
  have plain: "rt_allocations sample_runtime = []" by (simp add: sample_runtime_def)
  have cuts: "fill_partition_point (\<lambda>f. pf_fill_ts_us f < 5) [booked_fill] = 0"
    "fill_partition_point (\<lambda>f. pf_fill_ts_us f \<le> 33) [booked_fill] = 1"
    by (simp_all add: fill_partition_point_def bsearch.simps f)
  have mark: "mark_runtime ts symbols (x, None) = Inr (x, None)" for ts symbols x
    by (simp add: mark_runtime_def apply_minute_marks_def)
  have "\<exists>rows. strategy_rows ''alpha'' 5 33 symbols None [booked_fill] sample_runtime = Inr (rows, None)" for symbols
    using s by (simp add: strategy_rows_def cuts act mark plain strategy_fill_step_pair Let_def)
  then obtain rows where "strategy_rows ''alpha'' 5 33 (set_of_list (initial_symbols booked_prepared @ [ne_symbol (pf_event booked_fill)]))
      None [booked_fill] sample_runtime = Inr (rows, None)" by blast
  then show ?thesis
    by (simp add: exported_sample_def rebuild_strategy_pnl_def export_request_def name sel history_of_def id one_fill_history_def
        sample_prepares sample_starts p Let_def)
qed

text \<open>
  C23: A strategy export that succeeds is drawn from exactly one enabled source and consists of a zero row
  at the window's start, one row per fill of that strategy inside the window in replay order - under
  strategy allocation the residual strategy also lists the system closes - and one row at the window's
  end.
\<close>

theorem strategy_export_rows:
  assumes "rebuild_strategy_pnl fp config q snapshots strategy_snapshots histories prices = Inr (r, prices')"
  shows "\<exists>source h p.
    select_sources config [sq_source_id q] = Inr [source]
    \<and> bm_get histories (sc_id source) = Some h
    \<and> prepare_source_events fp source (nh_events h) (bm_get snapshots (sc_id source))
        (bm_get strategy_snapshots (sc_id source)) (nh_liquidity_by_order h) (nh_allocations h) = Inr p
    \<and> map row_id (sp_rows r) = (WindowStart, sq_start_ts_us q, None)
        # map fill_id (filter (is_strategy_fill (pe_strategy_allocation_active p) (sq_strategy_name q))
            (filter (\<lambda>f. sq_start_ts_us q \<le> pf_fill_ts_us f \<and> pf_fill_ts_us f \<le> sq_end_ts_us q) (pe_fill_events p)))
        @ [(WindowEnd, sq_end_ts_us q, None)]
    \<and> rw_totals (hd (sp_rows r)) = totals_default"
proof -
  from assms obtain selected source h p symbols s0 where
    time: "sq_start_ts_us q \<le> sq_end_ts_us q"
    and sel: "select_sources config [sq_source_id q] = Inr selected"
    and one: "(case selected of [source] \<Rightarrow> Inr source | _ \<Rightarrow> Inl (SelectionError ''exactly one source'')) = Inr source"
    and h: "history_of histories source = Inr h"
    and p: "prepare_source_events fp source (nh_events h) (bm_get snapshots (sc_id source))
        (bm_get strategy_snapshots (sc_id source)) (nh_liquidity_by_order h) (nh_allocations h) = Inr p"
    and s0: "initial_timeline_state source p = Inr s0"
    and rows: "strategy_rows (sq_strategy_name q) (sq_start_ts_us q) (sq_end_ts_us q) symbols prices (pe_fill_events p) s0 = Inr (sp_rows r, prices')"
    unfolding rebuild_strategy_pnl_def Let_def by (auto simp: rbind_Inr_iff rensure_Inr_iff)
  have "selected = [source]" using one by (auto split: list.splits)
  moreover have "rt_strategy_allocation_active s0 = pe_strategy_allocation_active p"
    using s0 by (auto simp: initial_timeline_state_def rbind_Inr_iff)
  moreover have "sorted (map pf_fill_ts_us (pe_fill_events p))"
    using sorted_fills_ts [OF prepared_fills_sorted [OF p]] .
  ultimately show ?thesis
    using strategy_rows_ids [OF rows _ time] sel p h by (auto simp: history_of_def of_option_Inr_iff)
qed

theorem strategy_export_rows_witness:
  "\<exists>r p. exported_sample = Inr (r, p)
     \<and> map row_id (sp_rows r) = [(WindowStart, 5, None), fill_id booked_fill, (WindowEnd, 33, None)]"
proof -
  obtain r p where r: "exported_sample = Inr (r, p)" using exported_sample_ok by blast
  have "bm_get [(''a'', one_fill_history)] (sc_id (sample_source ''a'')) = Some one_fill_history" by (simp add: sample_source_def)
  moreover have "select_sources [sample_source ''a''] [sq_source_id export_request] = Inr [sample_source ''a'']"
    by (simp add: export_request_def select_sources_def sample_source_def set_of_list_def bm_extend_def bm_keys_def Let_def)
  moreover have "filter (is_strategy_fill (pe_strategy_allocation_active booked_prepared) ''alpha'')
      (filter (\<lambda>f. 5 \<le> pf_fill_ts_us f \<and> pf_fill_ts_us f \<le> 33) (pe_fill_events booked_prepared)) = [booked_fill]"
    by (simp add: is_strategy_fill_def sample_fill_strategy booked_prepared_def) (simp add: booked_fill_def)
  ultimately show ?thesis
    using strategy_export_rows [OF r [unfolded exported_sample_def]] r
    by (auto simp: export_request_def one_fill_history_def sample_prepares)
qed

subsection \<open>Selections\<close>

lemma length_set_of_list: "length (set_of_list ks) = length ks \<longleftrightarrow> distinct ks"
proof -
  have "distinct (set_of_list ks)" using set_of_list_sorted [of ks] by (simp add: strict_sorted_iff)
  then have "length (set_of_list ks) = card (set ks)" using distinct_card [of "set_of_list ks"] by simp
  then show ?thesis using card_distinct [of ks] distinct_card [of ks] by metis
qed

lemma rfold_unit_Inr: "rfold (\<lambda>_ x. f x) () xs = Inr u \<longleftrightarrow> (\<forall>x \<in> set xs. f x = Inr ())"
  by (induction xs) (auto simp: rbind_Inr_iff)

definition enabled_as :: "source_config list \<Rightarrow> string \<Rightarrow> bool" where
  "enabled_as config i \<longleftrightarrow> (\<exists>s. find (\<lambda>s. sc_id s = i) config = Some s \<and> sc_enabled s)"

lemma select_sources_iff:
  "select_sources config ids = Inr selected \<longleftrightarrow>
     distinct ids \<and> list_all (enabled_as config) ids
     \<and> selected = filter (\<lambda>s. sc_enabled s \<and> (ids = [] \<or> sc_id s \<in> set ids)) config"
proof -
  let ?check = "\<lambda>i. case find (\<lambda>s. sc_id s = i) config of None \<Rightarrow> Inl (SelectionError ''not configured'')
      | Some s \<Rightarrow> rensure (sc_enabled s) (SelectionError ''disabled'')"
  have check: "?check i = Inr () \<longleftrightarrow> enabled_as config i" for i
    by (auto simp: enabled_as_def rensure_Inr_iff split: option.splits)
  have empty: "set_of_list ids = [] \<longleftrightarrow> ids = []" by (metis set_set_of_list set_empty)
  have found: "\<exists>s \<in> set config. sc_enabled s \<and> sc_id s = i" if "enabled_as config i" for i
    using that by (auto simp: enabled_as_def find_Some_iff)
  have some: "filter (\<lambda>s. sc_enabled s \<and> (ids = [] \<or> sc_id s \<in> set ids)) config \<noteq> []"
    if "ids \<noteq> []" "list_all (enabled_as config) ids"
    using that found by (cases ids) (auto simp: filter_empty_conv)
  let ?F = "filter (\<lambda>s. sc_enabled s \<and> (ids = [] \<or> sc_id s \<in> set ids)) config"
  have run: "rfold (\<lambda>_. ?check) () (set_of_list ids) = Inr () \<longleftrightarrow> list_all (enabled_as config) ids"
    unfolding rfold_unit_Inr check by (simp add: list_all_iff)
  have eq: "select_sources config ids = (if \<not> distinct ids then Inl (SelectionError ''duplicates'')
      else rbind (rfold (\<lambda>_. ?check) () (set_of_list ids)) (\<lambda>_.
        if ?F = [] \<and> ids \<noteq> [] then Inl (SelectionError ''none enabled'') else Inr ?F))"
    unfolding select_sources_def Let_def length_set_of_list empty set_set_of_list ..
  show ?thesis
  proof (cases "distinct ids \<and> list_all (enabled_as config) ids")
    case True
    then have r: "rfold (\<lambda>_. ?check) () (set_of_list ids) = Inr ()" using run by blast
    have ok: "(?F = [] \<and> ids \<noteq> []) = False" using some True by blast
    have d: "(\<not> distinct ids) = False" using True by blast
    have "select_sources config ids = Inr ?F" unfolding eq r rbind_simps ok d if_False ..
    then show ?thesis using True by auto
  next
    case False
    then have "select_sources config ids \<noteq> Inr selected" using run unfolding eq by (auto simp: rbind_Inr_iff)
    then show ?thesis using False by blast
  qed
qed

text \<open>
  A selection of sources succeeds exactly when the requested ids are distinct and each names a
  configured, enabled source, and then yields the enabled sources requested, in configuration order;
  an empty request means every enabled source. Any other request is refused.
\<close>

theorem select_sources_exact:
  "select_sources config ids = Inr selected \<longleftrightarrow>
     distinct ids \<and> list_all (enabled_as config) ids
     \<and> selected = filter (\<lambda>s. sc_enabled s \<and> (ids = [] \<or> sc_id s \<in> set ids)) config"
  by (rule select_sources_iff)

text \<open>
  A dashboard timeline is a function of the selected sources alone: histories that agree on the
  sources a request selects give the same report, or the same error, whatever the other accounts hold.
\<close>

theorem timeline_isolated:
  assumes "select_sources config (tq_selected_source_ids q) = Inr selected"
    and "list_all (\<lambda>s. bm_get histories' (sc_id s) = bm_get histories (sc_id s)) selected"
  shows "rebuild_nav_timeline fp config q snapshots strategy_snapshots histories' cached prices
    = rebuild_nav_timeline fp config q snapshots strategy_snapshots histories cached prices"
proof -
  have "rfold (collect_source fp q snapshots strategy_snapshots histories' cached) acc selected
      = rfold (collect_source fp q snapshots strategy_snapshots histories cached) acc selected" for acc
    using assms(2)
  proof (induction selected arbitrary: acc)
    case (Cons s rest)
    then have "collect_source fp q snapshots strategy_snapshots histories' cached acc s =
        collect_source fp q snapshots strategy_snapshots histories cached acc s"
      by (simp add: collect_source_def history_of_def)
    then show ?case using Cons by simp
  qed simp
  then show ?thesis by (simp add: rebuild_nav_timeline_def assms(1))
qed

theorem timeline_isolated_witness:
  "rebuild_nav_timeline (\<lambda>_. Inr []) [sample_source ''a''] sample_request [] [] [(''a'', one_fill_history), (''b'', one_fill_history)] None None
     = rebuilt_sample"
  unfolding rebuilt_sample_def
  by (rule timeline_isolated [of _ _ "[sample_source ''a'']"])
    (simp_all add: sample_request_def select_sources_def sample_source_def set_of_list_def bm_extend_def bm_keys_def Let_def)

end
