(* ===== verification/Sampling.thy ===== *)
theory Sampling
  imports Windows Corrections
begin

text \<open>
  Sampling and the ledgers. A sample applies the ownership corrections that fell due by its time and
  the closed-minute marks, so a sampled run is ahead of a plain replay of the same events: by
  corrections the replay applies later, before the next fill or at the end, and by marks. Relating
  the two by how far ahead the run may be shows that no sample changes a ledger. What an observer
  who does not look at the marks sees, and what one who does, are two views of a state; the laws
  both need are a locale.
\<close>

subsection \<open>One event\<close>

fun own_step :: "timeline_state \<Rightarrow> timeline_event \<Rightarrow> nav_error + timeline_state" where
  "own_step s (SnapshotEvent _ _ ts) = Inr (activate_snapshot_at ts s)"
| "own_step s (FillEvent _ _ f) = timeline_apply_fill f s"

lemma apply_timeline_event_own:
  "apply_timeline_event rs e = rmap (\<lambda>s. rs[te_source_index e := s]) (own_step (rs ! te_source_index e) e)"
  by (cases e) (simp_all add: apply_timeline_event_def)

text \<open>The replay of a window without its samples: the events, then the corrections left at its end.\<close>

definition replay_window :: "i64 \<Rightarrow> timeline_event list \<Rightarrow> timeline_state list \<Rightarrow> nav_error + timeline_state list" where
  "replay_window end_ts events runtimes =
     rbind (rfold apply_timeline_event runtimes (takeWhile (\<lambda>e. te_ts_us e \<le> end_ts) events))
       (rmapM (\<lambda>s. advance_allocations end_ts True (activate_snapshot_at end_ts s)))"

subsection \<open>Ahead by some corrections\<close>

definition ahead :: "i64 \<Rightarrow> timeline_state \<Rightarrow> timeline_state \<Rightarrow> bool" where
  "ahead b p p' \<longleftrightarrow> p' = p \<or> (\<exists>t i. t < b \<and> advance_allocations t i p = Inr p')"

definition doomed :: "i64 \<Rightarrow> timeline_state \<Rightarrow> bool" where
  "doomed b p \<longleftrightarrow> (\<exists>t i e. t < b \<and> advance_allocations t i p = Inl e)"

lemma ahead_refl [simp]: "ahead b p p"
  by (simp add: ahead_def)

lemma ahead_mono: "ahead b p p' \<Longrightarrow> b \<le> b' \<Longrightarrow> ahead b' p p'"
  by (force simp: ahead_def)

lemma doomed_mono: "doomed b p \<Longrightarrow> b \<le> b' \<Longrightarrow> doomed b' p"
  by (force simp: doomed_def)

lemma ahead_advance:
  assumes "ahead b p p'" and "advance_allocations t i p' = Inr p''"
  shows "ahead (max b (t + 1)) p p''"
proof -
  from assms(1) consider "p' = p" | t0 i0 where "t0 < b" "advance_allocations t0 i0 p = Inr p'" by (auto simp: ahead_def)
  then show ?thesis
  proof cases
    case 1
    have "t < max b (t + 1)" by simp
    then show ?thesis using assms(2) 1 unfolding ahead_def by blast
  next
    case (2 t0 i0)
    show ?thesis
    proof (cases "t0 < t \<or> (t0 = t \<and> (i0 \<longrightarrow> i))")
      case True
      have "advance_allocations t i p = Inr p''" using advance_advance [OF 2(2) True] assms(2) by simp
      moreover have "t < max b (t + 1)" by simp
      ultimately show ?thesis unfolding ahead_def by blast
    next
      case False
      then have "t < t0 \<or> (t = t0 \<and> (i \<longrightarrow> i0))" by auto
      then have "p'' = p'" using advance_again [OF 2(2)] assms(2) by simp
      then show ?thesis using ahead_mono [OF assms(1), of "max b (t + 1)"] by simp
    qed
  qed
qed

lemma ahead_doomed:
  assumes "ahead b p p'" and "advance_allocations t i p' = Inl e"
  shows "doomed (t + 1) p"
proof -
  from assms(1) consider "p' = p" | t0 i0 where "t0 < b" "advance_allocations t0 i0 p = Inr p'" by (auto simp: ahead_def)
  then have "advance_allocations t i p = Inl e"
  proof cases
    case (2 t0 i0)
    show ?thesis
    proof (cases "t0 < t \<or> (t0 = t \<and> (i0 \<longrightarrow> i))")
      case False
      then have "t < t0 \<or> (t = t0 \<and> (i \<longrightarrow> i0))" by auto
      then show ?thesis using advance_again [OF 2(2)] assms(2) by simp
    qed (use advance_advance [OF 2(2)] assms(2) in simp)
  qed (use assms(2) in simp)
  moreover have "t < t + 1" by simp
  ultimately show ?thesis unfolding doomed_def by blast
qed

lemma ahead_activate:
  assumes "ahead b p p'" and "corrections_late p"
  shows "ahead b (activate_snapshot_at ts p) (activate_snapshot_at ts p')"
proof -
  from assms(1) consider "p' = p" | t i where "t < b" "advance_allocations t i p = Inr p'" by (auto simp: ahead_def)
  then show ?thesis
  proof cases
    case (2 t i)
    from advance_activated [OF assms(2), of t i ts] 2(2)
    consider "p' = p" | "advance_allocations t i (activate_snapshot_at ts p) = Inr p'" "settled p'" by auto
    then show ?thesis
    proof cases
      case 2
      then show ?thesis using \<open>t < b\<close> by (auto simp: ahead_def settled_activate)
    qed simp
  qed simp
qed

lemma ahead_fill: "ahead b p p' \<Longrightarrow> b \<le> pf_fill_ts_us f \<Longrightarrow> timeline_apply_fill f p' = timeline_apply_fill f p"
  unfolding ahead_def using apply_fill_advanced by fastforce

lemma ahead_finish:
  assumes "ahead b p p'" and "corrections_late p" and "b \<le> e + 1"
  shows "advance_allocations e True (activate_snapshot_at e p') = advance_allocations e True (activate_snapshot_at e p)"
  using ahead_activate [OF assms(1,2), of e] assms(3) advance_advance [of _ _ "activate_snapshot_at e p" "activate_snapshot_at e p'" e True]
  by (fastforce simp: ahead_def)

lemma doomed_activate:
  assumes "doomed b p" and "corrections_late p"
  shows "doomed b (activate_snapshot_at ts p)"
proof -
  obtain t i e where t: "t < b" "advance_allocations t i p = Inl e" using assms(1) by (auto simp: doomed_def)
  then have "advance_allocations t i (activate_snapshot_at ts p) = Inl e" using advance_activated [OF assms(2), of t i ts] by auto
  then show ?thesis using t by (auto simp: doomed_def)
qed

lemma doomed_fill:
  assumes "doomed b p" and "b \<le> pf_fill_ts_us f"
  shows "\<exists>e. timeline_apply_fill f p = Inl e"
proof -
  obtain t i e where t: "t < b" "advance_allocations t i p = Inl e" using assms(1) by (auto simp: doomed_def)
  then have "advance_allocations (pf_fill_ts_us f) False p = Inl e" using advance_fails [OF t(2), of "pf_fill_ts_us f" False] assms(2) by simp
  then show ?thesis by (simp add: timeline_apply_fill_def)
qed

lemma doomed_finish:
  assumes "doomed b p" and "corrections_late p" and "b \<le> e + 1"
  shows "\<exists>err. advance_allocations e True (activate_snapshot_at e p) = Inl err"
proof -
  obtain t i err where t: "t < b" "advance_allocations t i (activate_snapshot_at e p) = Inl err"
    using doomed_activate [OF assms(1,2), of e] unfolding doomed_def by blast
  then have "t < e \<or> (t = e \<and> (i \<longrightarrow> True))" using assms(3) by auto
  then show ?thesis using advance_fails [OF t(2)] by blast
qed

subsection \<open>A replay that has a failing correction behind it\<close>

lemma own_step_corrections:
  "own_step s e = Inr s' \<Longrightarrow> corrections_late s' = corrections_late s"
  by (cases e) (auto intro!: corrections_late_cong dest: apply_fill_fields)

lemma apply_event_corrections:
  assumes "apply_timeline_event rs e = Inr rs'" and "\<forall>s \<in> set rs. corrections_late s" and "te_source_index e < length rs"
  shows "\<forall>s \<in> set rs'. corrections_late s"
  using assms own_step_corrections [of "rs ! te_source_index e" e] set_update_subset_insert
  by (fastforce simp: apply_timeline_event_own rmap_Inr_iff)

lemma doomed_events:
  assumes "rfold apply_timeline_event ps es = Inr ps'" and "\<exists>p \<in> set ps. doomed b p" and "\<forall>p \<in> set ps. corrections_late p"
    and "\<forall>e \<in> set es. b \<le> te_ts_us e \<and> te_source_index e < length ps"
  shows "(\<exists>p \<in> set ps'. doomed b p) \<and> (\<forall>p \<in> set ps'. corrections_late p)"
  using assms
proof (induction es arbitrary: ps)
  case (Cons e es)
  let ?i = "te_source_index e"
  obtain s where s: "own_step (ps ! ?i) e = Inr s" and rest: "rfold apply_timeline_event (ps[?i := s]) es = Inr ps'"
    using Cons.prems(1) by (auto simp: rbind_Inr_iff apply_timeline_event_own [of ps e] rmap_Inr_iff)
  have i: "?i < length ps" and b: "b \<le> te_ts_us e" using Cons.prems(4) by simp_all
  obtain j where j: "j < length ps" "doomed b (ps ! j)" using Cons.prems(2) by (auto simp: in_set_conv_nth)
  have keep: "doomed b s" if "j = ?i"
    using s j(2) that Cons.prems(3) i b
    by (cases e) (auto dest: doomed_fill [of b _ "_ :: prepared_fill"] intro!: doomed_activate)
  have "ps[?i := s] ! j = (if j = ?i then s else ps ! j)" using j(1) by simp
  then have d: "\<exists>p \<in> set (ps[?i := s]). doomed b p" using j keep by (metis length_list_update nth_mem)
  have c: "\<forall>p \<in> set (ps[?i := s]). corrections_late p"
    using apply_event_corrections [of ps e "ps[?i := s]"] s Cons.prems(3) i by (simp add: apply_timeline_event_own [of ps e])
  show ?case using Cons.IH [OF rest d c] Cons.prems(4) by simp
qed simp

lemma events_length: "rfold apply_timeline_event ps es = Inr ps' \<Longrightarrow> length ps' = length ps"
  by (rule rfold_invariant [where P = "\<lambda>rs. length rs = length ps"]) (auto simp: apply_timeline_event_own rmap_Inr_iff)

lemma events_corrections:
  assumes "rfold apply_timeline_event ps es = Inr ps'" and "\<forall>p \<in> set ps. corrections_late p"
    and "\<forall>e \<in> set es. te_source_index e < length ps"
  shows "\<forall>p \<in> set ps'. corrections_late p"
  using assms
proof (induction es arbitrary: ps)
  case (Cons e es)
  obtain qs where qs: "apply_timeline_event ps e = Inr qs" "rfold apply_timeline_event qs es = Inr ps'"
    using Cons.prems(1) by (auto simp: rbind_Inr_iff)
  have "length qs = length ps" using qs(1) by (auto simp: apply_timeline_event_own rmap_Inr_iff)
  then show ?case using Cons.IH [OF qs(2)] apply_event_corrections [OF qs(1)] Cons.prems(2,3) by simp
qed simp

lemma rmapM_Inl: "rmapM f xs = Inl e \<Longrightarrow> \<exists>n < length xs. f (xs ! n) = Inl e"
proof (induction xs)
  case (Cons x xs)
  show ?case
  proof (cases "f x")
    case (Inr y)
    then have "rmapM f xs = Inl e" using Cons.prems by (cases "rmapM f xs") auto
    then obtain n where "n < length xs" "f (xs ! n) = Inl e" using Cons.IH by blast
    then show ?thesis by (intro exI [of _ "Suc n"]) simp
  qed (use Cons.prems in auto)
qed simp

lemma rmapM_fails: "x \<in> set xs \<Longrightarrow> f x = Inl e \<Longrightarrow> \<exists>e. rmapM f xs = Inl e"
proof (induction xs)
  case (Cons y ys)
  then show ?case by (cases "f y"; cases "rmapM f ys") auto
qed simp

lemma doomed_window:
  assumes "\<exists>p \<in> set ps. doomed b p" and "\<forall>p \<in> set ps. corrections_late p"
    and "\<forall>x \<in> set (takeWhile (\<lambda>x. te_ts_us x \<le> e) es). b \<le> te_ts_us x \<and> te_source_index x < length ps" and "b \<le> e + 1"
  shows "\<exists>err. replay_window e es ps = Inl err"
proof (cases "rfold apply_timeline_event ps (takeWhile (\<lambda>x. te_ts_us x \<le> e) es)")
  case (Inr ps')
  obtain p where p: "p \<in> set ps'" "doomed b p" "corrections_late p" using doomed_events [OF Inr assms(1-3)] by blast
  obtain err where "advance_allocations e True (activate_snapshot_at e p) = Inl err" using doomed_finish [OF p(2,3) assms(4)] by blast
  then have "\<exists>err. rmapM (\<lambda>s. advance_allocations e True (activate_snapshot_at e s)) ps' = Inl err"
    by (rule rmapM_fails [OF p(1)])
  then show ?thesis using Inr by (simp add: replay_window_def)
qed (simp add: replay_window_def)

lemma sorted_dropWhile_map: "sorted (map f xs) \<Longrightarrow> sorted (map f (dropWhile P xs))"
  by (metis dropWhile_eq_drop drop_map sorted_wrt_drop)

lemma later_events:
  assumes "sorted (map te_ts_us es)" and "\<forall>x \<in> set es. ts \<le> te_ts_us x"
  shows "\<forall>x \<in> set (dropWhile (\<lambda>x. te_ts_us x = ts) es). ts + 1 \<le> te_ts_us x"
proof (intro ballI)
  fix x assume x: "x \<in> set (dropWhile (\<lambda>x. te_ts_us x = ts) es)"
  let ?rest = "dropWhile (\<lambda>x. te_ts_us x = ts) es"
  have ne: "?rest \<noteq> []" using x by (cases ?rest) simp_all
  have "te_ts_us (hd ?rest) \<noteq> ts" using hd_dropWhile [OF ne] .
  moreover have "hd ?rest \<in> set es" using hd_in_set [OF ne] by (rule set_dropWhileD)
  ultimately have "ts < te_ts_us (hd ?rest)" using assms(2) by fastforce
  moreover have "sorted (map te_ts_us ?rest)" by (rule sorted_dropWhile_map [OF assms(1)])
  then have "te_ts_us (hd ?rest) \<le> te_ts_us x" using x by (cases ?rest) auto
  ultimately show "ts + 1 \<le> te_ts_us x" by simp
qed

lemma rmapM_origin: "rmapM f xs = Inr ys \<Longrightarrow> y \<in> set ys \<Longrightarrow> \<exists>x \<in> set xs. f x = Inr y"
  by (induction xs arbitrary: ys) (auto simp: rbind_Inr_iff)

lemma finished_window:
  assumes "rmapM (\<lambda>s. advance_allocations e True (activate_snapshot_at e s)) ps = Inr qs" and "q \<in> set qs" and "t \<le> e"
  shows "advance_allocations t i q = Inr q"
proof -
  obtain p where "advance_allocations e True (activate_snapshot_at e p) = Inr q"
    using rmapM_origin [OF assms(1,2)] by blast
  then show ?thesis using assms(3) by (intro advance_again) auto
qed

lemma finished_corrections:
  assumes "rmapM (\<lambda>s. advance_allocations e True (activate_snapshot_at e s)) ps = Inr qs" and "\<forall>p \<in> set ps. corrections_late p"
  shows "\<forall>q \<in> set qs. corrections_late q"
proof
  fix q assume "q \<in> set qs"
  then obtain p where p: "p \<in> set ps" "advance_allocations e True (activate_snapshot_at e p) = Inr q"
    using rmapM_origin [OF assms(1)] by blast
  then show "corrections_late q" using assms(2) advance_fields [OF p(2)] corrections_late_cong [of q p] by simp
qed

subsection \<open>Views of a state\<close>

text \<open>
  What a view must not tell apart: states that every step of a replay treats alike, and a state
  before and after the marks of a sample, as far as the view allows marks.
\<close>

locale ledger_view =
  fixes view :: "timeline_state \<Rightarrow> 'v" and allowed :: "minute_marks option \<Rightarrow> bool"
  assumes view_activate: "view s = view s' \<Longrightarrow> view (activate_snapshot_at t s) = view (activate_snapshot_at t s')"
    and view_advance: "view s = view s' \<Longrightarrow> rmap view (advance_allocations t i s) = rmap view (advance_allocations t i s')"
    and view_fill: "view s = view s' \<Longrightarrow> rmap view (timeline_apply_fill f s) = rmap view (timeline_apply_fill f s')"
    and view_marks: "allowed p \<Longrightarrow> apply_minute_marks p rs symbols t = Inr (rs', p') \<Longrightarrow> map view rs' = map view rs \<and> allowed p'"

definition sampled :: "(timeline_state \<Rightarrow> 'v) \<Rightarrow> i64 \<Rightarrow> timeline_state \<Rightarrow> timeline_state \<Rightarrow> bool" where
  "sampled view b p s \<longleftrightarrow> corrections_late p \<and> (\<exists>p'. ahead b p p' \<and> view s = view p')"

lemma rmap_same_Inr: "rmap f m = rmap f m' \<Longrightarrow> m = Inr x \<Longrightarrow> \<exists>y. m' = Inr y \<and> f x = f y"
  by (cases m') (auto simp: rmap_def)

lemma rmap_same_Inl: "rmap f m = rmap f m' \<Longrightarrow> m = Inl e \<Longrightarrow> m' = Inl e"
  by (cases m') (auto simp: rmap_def)

lemma sampled_mono: "sampled view b p s \<Longrightarrow> b \<le> b' \<Longrightarrow> sampled view b' p s"
  unfolding sampled_def using ahead_mono by blast

context ledger_view begin

lemma sampled_step:
  assumes "sampled view b p s" and "b \<le> te_ts_us e"
  shows "case own_step p e of Inl err \<Rightarrow> own_step s e = Inl err
    | Inr q \<Rightarrow> \<exists>s'. own_step s e = Inr s' \<and> sampled view b q s'"
proof -
  obtain p' where p': "corrections_late p" "ahead b p p'" "view s = view p'" using assms(1) by (auto simp: sampled_def)
  show ?thesis
  proof (cases e)
    case (SnapshotEvent i x ts)
    then show ?thesis using ahead_activate [OF p'(2,1), of ts] view_activate [OF p'(3), of ts] p'(1) by (auto simp: sampled_def)
  next
    case (FillEvent i x f)
    have same: "rmap view (timeline_apply_fill f s) = rmap view (timeline_apply_fill f p)"
      using view_fill [OF p'(3), of f] ahead_fill [OF p'(2), of f] assms(2) FillEvent by simp
    show ?thesis
    proof (cases "timeline_apply_fill f p")
      case (Inl err)
      then show ?thesis using rmap_same_Inl [OF same [symmetric]] FillEvent by simp
    next
      case (Inr q)
      then obtain s' where "timeline_apply_fill f s = Inr s'" "view q = view s'" using rmap_same_Inr [OF same [symmetric]] by blast
      moreover have "corrections_late q" using own_step_corrections [of p e q] Inr FillEvent p'(1) by simp
      ultimately show ?thesis using Inr FillEvent by (auto simp: sampled_def intro!: exI [of _ q])
    qed
  qed
qed

lemma sampled_events:
  assumes "list_all2 (sampled view b) ps rs" and "\<forall>e \<in> set es. b \<le> te_ts_us e \<and> te_source_index e < length ps"
  shows "case rfold apply_timeline_event ps es of Inl err \<Rightarrow> rfold apply_timeline_event rs es = Inl err
    | Inr ps' \<Rightarrow> \<exists>rs'. rfold apply_timeline_event rs es = Inr rs' \<and> list_all2 (sampled view b) ps' rs'"
  using assms
proof (induction es arbitrary: ps rs)
  case (Cons e es)
  let ?i = "te_source_index e"
  have i: "?i < length ps" and b: "b \<le> te_ts_us e" using Cons.prems(2) by simp_all
  have step: "sampled view b (ps ! ?i) (rs ! ?i)" using list_all2_nthD [OF Cons.prems(1) i] .
  show ?case
  proof (cases "own_step (ps ! ?i) e")
    case (Inl err)
    then have "own_step (rs ! ?i) e = Inl err" using sampled_step [OF step b] by simp
    then show ?thesis using Inl by (simp add: apply_timeline_event_own [of ps e] apply_timeline_event_own [of rs e])
  next
    case (Inr q)
    then obtain s where s: "own_step (rs ! ?i) e = Inr s" "sampled view b q s" using sampled_step [OF step b] by auto
    have both: "list_all2 (sampled view b) (ps[?i := q]) (rs[?i := s])" using Cons.prems(1) s(2) by (simp add: list_all2_update_cong)
    have fold: "rfold apply_timeline_event ps (e # es) = rfold apply_timeline_event (ps[?i := q]) es"
      "rfold apply_timeline_event rs (e # es) = rfold apply_timeline_event (rs[?i := s]) es"
      using Inr s(1) by (simp_all add: apply_timeline_event_own [of ps e] apply_timeline_event_own [of rs e])
    have "\<forall>e \<in> set es. b \<le> te_ts_us e \<and> te_source_index e < length (ps[?i := q])" using Cons.prems(2) by simp
    then show ?thesis unfolding fold by (rule Cons.IH [OF both])
  qed
qed simp

lemma sampled_advance:
  assumes "sampled view b p s"
  shows "case advance_allocations t i s of Inl err \<Rightarrow> doomed (t + 1) p \<and> corrections_late p | Inr s' \<Rightarrow> sampled view (max b (t + 1)) p s'"
proof -
  obtain p' where p': "corrections_late p" "ahead b p p'" "view s = view p'" using assms by (auto simp: sampled_def)
  note same = view_advance [OF p'(3), of t i]
  show ?thesis
  proof (cases "advance_allocations t i s")
    case (Inl err)
    then show ?thesis using rmap_same_Inl [OF same] ahead_doomed [OF p'(2)] p'(1) by fastforce
  next
    case (Inr s')
    then obtain p'' where p'': "advance_allocations t i p' = Inr p''" "view s' = view p''" using rmap_same_Inr [OF same] by blast
    have "ahead (max b (t + 1)) p p''" by (rule ahead_advance [OF p'(2) p''(1)])
    then show ?thesis using Inr p'(1) p''(2) by (auto simp: sampled_def)
  qed
qed

lemma sampled_view:
  assumes "list_all2 (sampled view b) ps rs" and "map view rs' = map view rs"
  shows "list_all2 (sampled view b) ps rs'"
proof -
  have l: "length rs' = length rs" using assms(2) by (metis length_map)
  show ?thesis
  proof (rule list_all2_all_nthI)
    show "length ps = length rs'" using assms(1) l by (simp add: list_all2_lengthD)
    fix n assume n: "n < length ps"
    then have "view (rs' ! n) = view (rs ! n)" using assms l by (metis list_all2_lengthD nth_map)
    then show "sampled view b (ps ! n) (rs' ! n)" using list_all2_nthD [OF assms(1) n] by (simp add: sampled_def)
  qed
qed

lemma push_sampled:
  assumes "list_all2 (sampled view b) ps (tr_runtimes run)" and "allowed (tr_prices run)"
  shows "case push_timeline_sample w t run of
      Inl err \<Rightarrow> tr_prices run \<noteq> None \<or> (\<exists>p \<in> set ps. doomed (t + 1) p)
    | Inr run' \<Rightarrow> list_all2 (sampled view (max b (t + 1))) ps (tr_runtimes run') \<and> allowed (tr_prices run')
        \<and> (tr_prices run = None \<longrightarrow> tr_prices run' = None)"
proof (cases "rmapM (advance_allocations t (tr_points run \<noteq> [])) (tr_runtimes run)")
  case (Inl err)
  obtain n e where n: "n < length (tr_runtimes run)" "advance_allocations t (tr_points run \<noteq> []) (tr_runtimes run ! n) = Inl e"
    using rmapM_Inl [OF Inl] by blast
  have l: "n < length ps" using n(1) list_all2_lengthD [OF assms(1)] by simp
  then have "doomed (t + 1) (ps ! n)"
    using sampled_advance [OF list_all2_nthD [OF assms(1) l], of t "tr_points run \<noteq> []"] n(2) by simp
  then have "\<exists>p \<in> set ps. doomed (t + 1) p" using nth_mem [OF l] by blast
  then show ?thesis using Inl by (simp add: push_timeline_sample_def)
next
  case (Inr rs0)
  have rs0: "list_all2 (sampled view (max b (t + 1))) ps rs0"
  proof (rule list_all2_all_nthI)
    note A = Inr [unfolded rmapM_Inr_iff]
    show "length ps = length rs0" using list_all2_lengthD [OF A] list_all2_lengthD [OF assms(1)] by simp
    fix n assume n: "n < length ps"
    then have "advance_allocations t (tr_points run \<noteq> []) (tr_runtimes run ! n) = Inr (rs0 ! n)"
      using list_all2_nthD [OF A] list_all2_lengthD [OF assms(1)] by simp
    then show "sampled view (max b (t + 1)) (ps ! n) (rs0 ! n)"
      using sampled_advance [OF list_all2_nthD [OF assms(1) n], of t "tr_points run \<noteq> []"] by simp
  qed
  show ?thesis
  proof (cases "apply_minute_marks (tr_prices run) rs0 (wn_selected_symbols w) t")
    case (Inl err)
    then have "tr_prices run \<noteq> None" by (cases "tr_prices run") (simp_all add: apply_minute_marks_def)
    then show ?thesis using Inl Inr by (simp add: push_timeline_sample_def)
  next
    case marks: (Inr rp)
    obtain rs p where rp: "rp = (rs, p)" by (cases rp)
    note m = view_marks [OF assms(2) marks [unfolded rp]]
    have "tr_prices run = None \<longrightarrow> p = None" using marks rp by (auto simp: apply_minute_marks_def)
    moreover have "list_all2 (sampled view (max b (t + 1))) ps rs" using sampled_view [OF rs0] m by blast
    ultimately show ?thesis using Inr marks rp m by (auto simp: push_timeline_sample_def Let_def split_def)
  qed
qed

lemma ticks_sampled:
  assumes "list_all2 (sampled view b) ps (tr_runtimes run)" and "allowed (tr_prices run)"
  shows "case tick_until w k limit n run of
      Inl err \<Rightarrow> tr_prices run \<noteq> None \<or> (\<exists>p \<in> set ps. doomed limit p)
    | Inr (run', n') \<Rightarrow> list_all2 (sampled view (max b limit)) ps (tr_runtimes run') \<and> allowed (tr_prices run')
        \<and> (tr_prices run = None \<longrightarrow> tr_prices run' = None)"
  using assms
proof (induction w k limit n run arbitrary: b rule: tick_until.induct)
  case (1 w k limit n run)
  have grow: "list_all2 (sampled view (max b limit)) ps rs" if "list_all2 (sampled view b') ps rs" "b' \<le> max b limit" for b' rs
    using that(1) by (rule list_all2_mono) (rule sampled_mono [OF _ that(2)])
  show ?case
  proof (cases "0 < k \<and> n < limit")
    case False
    then have "tick_until w k limit n run = Inr (run, n)" by (subst tick_until.simps) simp
    then show ?thesis using "1.prems" grow [OF "1.prems"(1)] by simp
  next
    case True
    note P = push_sampled [OF "1.prems", where w = w and t = n]
    show ?thesis
    proof (cases "push_timeline_sample w n run")
      case (Inl err)
      then have "tr_prices run \<noteq> None \<or> (\<exists>p \<in> set ps. doomed limit p)" using P True doomed_mono [of "n + 1" _ limit] by auto
      then show ?thesis using Inl True by (subst tick_until.simps) simp
    next
      case (Inr run1)
      have le: "max b (n + 1) \<le> max b limit" "max (max b (n + 1)) limit = max b limit" using True by auto
      show ?thesis
      proof (cases "advanced_tick k n = n")
        case stuck: True
        have "tick_until w k limit n run = Inr (run1, n)" using Inr True stuck by (subst tick_until.simps) simp
        then show ?thesis using P Inr grow [OF _ le(1)] by simp
      next
        case False
        have go: "tick_until w k limit n run = tick_until w k limit (advanced_tick k n) run1"
          using Inr True False by (subst tick_until.simps) simp
        have "list_all2 (sampled view (max b (n + 1))) ps (tr_runtimes run1)" "allowed (tr_prices run1)"
          "tr_prices run = None \<longrightarrow> tr_prices run1 = None" using P Inr by simp_all
        then show ?thesis
          using "1.IH" [OF _ Inr False, of "max b (n + 1)"] True unfolding go le(2)
          by (auto split: sum.splits)
      qed
    qed
  qed
qed

lemma event_loop_sampled:
  assumes "list_all2 (sampled view b) ps (tr_runtimes run)" and "allowed (tr_prices run)"
    and "\<forall>x \<in> set es. b \<le> te_ts_us x \<and> te_source_index x < length ps" and "sorted (map te_ts_us es)" and "b \<le> e + 1"
    and "\<forall>p \<in> set ps. corrections_late p"
  shows "case event_loop w k e es n run of
      Inl err \<Rightarrow> tr_prices run \<noteq> None \<or> (\<exists>err. replay_window e es ps = Inl err)
    | Inr (run', n') \<Rightarrow> (\<exists>ps'. rfold apply_timeline_event ps (takeWhile (\<lambda>x. te_ts_us x \<le> e) es) = Inr ps'
          \<and> list_all2 (sampled view (e + 1)) ps' (tr_runtimes run')) \<and> allowed (tr_prices run')
        \<and> (tr_prices run = None \<longrightarrow> tr_prices run' = None)"
  using assms
proof (induction w k e es n run arbitrary: b ps rule: event_loop.induct)
  case (1 w k e n run)
  then show ?case using list_all2_mono [OF "1.prems"(1) sampled_mono] by auto
next
  case (2 w k e ev es n run)
  define ts where "ts = te_ts_us ev"
  show ?case
  proof (cases "e < ts")
    case True
    then show ?thesis using "2.prems" list_all2_mono [OF "2.prems"(1) sampled_mono] by (auto simp: ts_def)
  next
    case False
    note F = False
    define evs where "evs = takeWhile (\<lambda>x. te_ts_us x = ts) (ev # es)"
    define rest where "rest = dropWhile (\<lambda>x. te_ts_us x = ts) es"
    have split: "takeWhile (\<lambda>x. te_ts_us x \<le> e) (ev # es) = evs @ takeWhile (\<lambda>x. te_ts_us x \<le> e) rest"
      using takeWhile_le_split [of ev e es] F by (simp add: ts_def evs_def rest_def)
    have b: "max b ts = ts" "min ts e = ts" using "2.prems"(3) F by (auto simp: ts_def)
    have all: "\<forall>x \<in> set (takeWhile (\<lambda>x. te_ts_us x \<le> e) (ev # es)). ts \<le> te_ts_us x \<and> te_source_index x < length ps"
      using "2.prems"(3,4) by (auto simp: ts_def dest!: set_takeWhileD)
    have bad: "\<exists>err. replay_window e (ev # es) ps = Inl err" if d: "\<exists>p \<in> set ps. doomed ts p"
      by (rule doomed_window [OF d "2.prems"(6) all]) (use F in simp)
    note T = ticks_sampled [OF "2.prems"(1,2), where w = w and k = k and limit = ts and n = n, unfolded b]
    show ?thesis
    proof (cases "tick_until w k ts n run")
      case (Inl err)
      then show ?thesis using T F bad by (auto simp: ts_def Let_def min_def)
    next
      case (Inr rn)
      obtain run1 n1 where rn: "rn = (run1, n1)" by (cases rn)
      have R1: "list_all2 (sampled view ts) ps (tr_runtimes run1)" "allowed (tr_prices run1)"
        "tr_prices run = None \<longrightarrow> tr_prices run1 = None" using T Inr rn by simp_all
      have loop: "event_loop w k e (ev # es) n run = rbind (rfold apply_timeline_event (tr_runtimes run1) evs) (\<lambda>rs.
          rbind (if n1 = ts \<and> n1 \<le> e
               then rmap (\<lambda>run3. (run3, advanced_tick k n1)) (push_timeline_sample w n1 (run1\<lparr>tr_runtimes := rs\<rparr>))
               else Inr (run1\<lparr>tr_runtimes := rs\<rparr>, n1)) (\<lambda>(run3, n3). event_loop w k e rest n3 run3))"
        using F Inr rn b(2) unfolding event_loop.simps Let_def ts_def [symmetric] evs_def rest_def by simp
      have evs: "\<forall>x \<in> set evs. ts \<le> te_ts_us x \<and> te_source_index x < length ps"
        using "2.prems"(3) by (auto simp: evs_def ts_def dest!: set_takeWhileD)
      note E = sampled_events [OF R1(1) evs]
      show ?thesis
      proof (cases "rfold apply_timeline_event ps evs")
        case (Inl err)
        then have "rfold apply_timeline_event (tr_runtimes run1) evs = Inl err" using E by simp
        then show ?thesis unfolding loop replay_window_def split rfold_append Inl by simp
      next
        case ps': (Inr ps')
        then obtain rs where rs: "rfold apply_timeline_event (tr_runtimes run1) evs = Inr rs" "list_all2 (sampled view ts) ps' rs"
          using E by auto
        have len: "length ps' = length ps" by (rule events_length [OF ps'])
        have late': "\<forall>p \<in> set ps'. corrections_late p" by (rule events_corrections [OF ps' "2.prems"(6)]) (use evs in simp)
        have rest_late: "\<forall>x \<in> set rest. ts + 1 \<le> te_ts_us x \<and> te_source_index x < length ps'"
          using later_events [of es ts] "2.prems"(3,4) len by (auto simp: rest_def ts_def dest: set_dropWhileD)
        have rest_sorted: "sorted (map te_ts_us rest)" using "2.prems"(4) by (simp add: rest_def sorted_dropWhile_map)
        have window: "replay_window e (ev # es) ps = replay_window e rest ps'"
          unfolding replay_window_def split rfold_append ps' by simp
        have fold: "rfold apply_timeline_event ps (takeWhile (\<lambda>x. te_ts_us x \<le> e) (ev # es))
            = rfold apply_timeline_event ps' (takeWhile (\<lambda>x. te_ts_us x \<le> e) rest)"
          unfolding split rfold_append ps' by simp
        let ?run2 = "run1\<lparr>tr_runtimes := rs\<rparr>"
        have run2: "tr_runtimes ?run2 = rs" "tr_prices ?run2 = tr_prices run1" "max ts (ts + 1) = ts + 1" by simp_all
        have plus: "list_all2 (sampled view (ts + 1)) ps' rs" using rs(2) by (rule list_all2_mono) (rule sampled_mono, assumption, simp)
        have P: "case push_timeline_sample w ts ?run2 of
            Inl err \<Rightarrow> tr_prices run1 \<noteq> None \<or> (\<exists>p \<in> set ps'. doomed (ts + 1) p)
          | Inr run' \<Rightarrow> list_all2 (sampled view (ts + 1)) ps' (tr_runtimes run') \<and> allowed (tr_prices run')
              \<and> (tr_prices run1 = None \<longrightarrow> tr_prices run' = None)"
          using push_sampled [where b = ts and ps = ps' and run = ?run2 and w = w and t = ts, unfolded run2, OF rs(2) R1(2)] .
        let ?step = "if n1 = ts \<and> n1 \<le> e
               then rmap (\<lambda>run3. (run3, advanced_tick k n1)) (push_timeline_sample w n1 ?run2) else Inr (?run2, n1)"
        show ?thesis
        proof (cases ?step)
          case (Inl err)
          then have "push_timeline_sample w ts ?run2 = Inl err" by (cases "push_timeline_sample w ts ?run2") (auto split: if_splits)
          then have "tr_prices run1 \<noteq> None \<or> (\<exists>p \<in> set ps'. doomed (ts + 1) p)" using P by simp
          moreover have "\<exists>err. replay_window e rest ps' = Inl err" if "\<exists>p \<in> set ps'. doomed (ts + 1) p"
            by (rule doomed_window [OF that late']) (use rest_late F in \<open>auto dest!: set_takeWhileD\<close>)
          ultimately show ?thesis using R1(3) unfolding loop rs(1) rbind_simps Inl window by auto
        next
          case step: (Inr rn3)
          obtain run3 n3 where rn3: "rn3 = (run3, n3)" by (cases rn3)
          have R3: "list_all2 (sampled view (ts + 1)) ps' (tr_runtimes run3)" "allowed (tr_prices run3)"
            "tr_prices run = None \<longrightarrow> tr_prices run3 = None"
            using step rn3 P plus R1(2,3) by (auto split: if_splits simp: rmap_Inr_iff)
          have loop': "event_loop w k e (ev # es) n run = event_loop w k e rest n3 run3"
            unfolding loop rs(1) rbind_simps step rn3 by simp
          have "ts + 1 \<le> e + 1" using F by simp
          note I = "2.IH" [OF ts_def F refl rest_def R3(1,2) rest_late rest_sorted this late', of n3]
          then show ?thesis unfolding loop' fold window using R3(3) by (auto split: sum.splits)
        qed
      qed
    qed
  qed
qed

lemma finish_sampled:
  assumes "sampled view (e + 1) p s"
  shows "rmap view (advance_allocations e True (activate_snapshot_at e s)) = rmap view (advance_allocations e True (activate_snapshot_at e p))"
proof -
  obtain p' where p': "corrections_late p" "ahead (e + 1) p p'" "view s = view p'" using assms by (auto simp: sampled_def)
  have "view (activate_snapshot_at e s) = view (activate_snapshot_at e p')" by (rule view_activate [OF p'(3)])
  then have "rmap view (advance_allocations e True (activate_snapshot_at e s)) = rmap view (advance_allocations e True (activate_snapshot_at e p'))"
    by (rule view_advance)
  then show ?thesis using ahead_finish [OF p'(2,1)] by simp
qed

lemma finishes_sampled:
  assumes "list_all2 (sampled view (e + 1)) ps rs"
  shows "case rmapM (\<lambda>s. advance_allocations e True (activate_snapshot_at e s)) rs of
      Inl err \<Rightarrow> \<exists>err. rmapM (\<lambda>s. advance_allocations e True (activate_snapshot_at e s)) ps = Inl err
    | Inr rs' \<Rightarrow> \<exists>ps'. rmapM (\<lambda>s. advance_allocations e True (activate_snapshot_at e s)) ps = Inr ps' \<and> map view rs' = map view ps'"
  using assms
proof (induction rule: list_all2_induct)
  case (Cons p ps s rs)
  note same = finish_sampled [OF Cons.hyps(1)]
  show ?case
  proof (cases "advance_allocations e True (activate_snapshot_at e s)")
    case (Inl err)
    then show ?thesis using rmap_same_Inl [OF same] by simp
  next
    case (Inr s')
    then obtain p' where "advance_allocations e True (activate_snapshot_at e p) = Inr p'" "view s' = view p'"
      using rmap_same_Inr [OF same] by blast
    then show ?thesis using Inr Cons.IH by (auto split: sum.splits)
  qed
qed simp

lemma window_sampled:
  assumes "0 < k" and "allowed (tr_prices run)" and "sorted (map te_ts_us es)"
    and "\<forall>x \<in> set es. te_source_index x < length (tr_runtimes run)" and late: "\<forall>p \<in> set (tr_runtimes run). corrections_late p"
  shows "case run_window w k s e es run of
      Inl err \<Rightarrow> tr_prices run \<noteq> None \<or> (\<exists>err. replay_window e es (tr_runtimes run) = Inl err)
    | Inr run' \<Rightarrow> \<exists>rs. replay_window e es (tr_runtimes run) = Inr rs \<and> map view (tr_runtimes run') = map view rs"
proof -
  let ?ps = "tr_runtimes run" and ?finish = "rmapM (\<lambda>s. advance_allocations e True (activate_snapshot_at e s))"
  define b where "b = (if es = [] then e + 1 else min (e + 1) (te_ts_us (hd es)))"
  have "list_all2 (sampled view b) ?ps ?ps" using late by (auto simp: list_all2_same sampled_def intro: ahead_refl)
  moreover have "\<forall>x \<in> set es. b \<le> te_ts_us x \<and> te_source_index x < length ?ps"
    using assms(3,4) by (cases es) (auto simp: b_def)
  moreover have "b \<le> e + 1" by (simp add: b_def)
  ultimately have E: "case event_loop w k e es (next_timeline_tick s k) run of
      Inl err \<Rightarrow> tr_prices run \<noteq> None \<or> (\<exists>err. replay_window e es ?ps = Inl err)
    | Inr (run', n') \<Rightarrow> (\<exists>ps'. rfold apply_timeline_event ?ps (takeWhile (\<lambda>x. te_ts_us x \<le> e) es) = Inr ps'
          \<and> list_all2 (sampled view (e + 1)) ps' (tr_runtimes run')) \<and> allowed (tr_prices run')
        \<and> (tr_prices run = None \<longrightarrow> tr_prices run' = None)"
    using event_loop_sampled [where b = b and ps = ?ps and run = run] assms(2,3) late by blast
  have W: "run_window w k s e es run = rbind (event_loop w k e es (next_timeline_tick s k) run) (\<lambda>(run1, tick1).
      rbind (tick_until w k e tick1 run1) (\<lambda>(run2, _). rbind (?finish (tr_runtimes run2)) (\<lambda>rs.
      push_timeline_sample w e (run2\<lparr>tr_runtimes := rs\<rparr>))))" using assms(1) by (simp add: run_window_def)
  show ?thesis
  proof (cases "event_loop w k e es (next_timeline_tick s k) run")
    case (Inl err)
    then show ?thesis using E by (simp add: W)
  next
    case (Inr rn)
    obtain run1 n1 where rn: "rn = (run1, n1)" by (cases rn)
    obtain ps' where ps': "rfold apply_timeline_event ?ps (takeWhile (\<lambda>x. te_ts_us x \<le> e) es) = Inr ps'"
      and R1: "list_all2 (sampled view (e + 1)) ps' (tr_runtimes run1)" "allowed (tr_prices run1)" "tr_prices run = None \<longrightarrow> tr_prices run1 = None"
      using E Inr rn by auto
    have win: "replay_window e es ?ps = ?finish ps'" by (simp add: replay_window_def ps')
    have late': "\<forall>p \<in> set ps'. corrections_late p"
      by (rule events_corrections [OF ps' late]) (use assms(4) in \<open>auto dest!: set_takeWhileD\<close>)
    note T = ticks_sampled [OF R1(1,2), where w = w and k = k and limit = e and n = n1]
    show ?thesis
    proof (cases "tick_until w k e n1 run1")
      case (Inl err)
      have "\<exists>err. ?finish ps' = Inl err" if d: "\<exists>p \<in> set ps'. doomed e p"
        using d late' doomed_finish [of e _ e] rmapM_fails by (metis less_add_one less_imp_le)
      then show ?thesis using T Inl R1(3) \<open>event_loop w k e es (next_timeline_tick s k) run = Inr rn\<close> rn by (auto simp: W win)
    next
      case ticks: (Inr rn2)
      obtain run2 n2 where rn2: "rn2 = (run2, n2)" by (cases rn2)
      have R2: "list_all2 (sampled view (e + 1)) ps' (tr_runtimes run2)" "allowed (tr_prices run2)" "tr_prices run = None \<longrightarrow> tr_prices run2 = None"
        using T ticks rn2 R1(3) by (simp_all add: max_def)
      have W2: "run_window w k s e es run = rbind (?finish (tr_runtimes run2)) (\<lambda>rs. push_timeline_sample w e (run2\<lparr>tr_runtimes := rs\<rparr>))"
        using Inr rn ticks rn2 by (simp add: W)
      note D = finishes_sampled [OF R2(1)]
      show ?thesis
      proof (cases "?finish (tr_runtimes run2)")
        case (Inl err)
        then show ?thesis using D by (simp add: W2 win)
      next
        case fin: (Inr rs)
        then obtain qs where qs: "?finish ps' = Inr qs" "map view rs = map view qs" using D by auto
        have still: "advance_allocations t i q = Inr q" if "q \<in> set qs" "t \<le> e" for q t i
          using finished_window [OF qs(1) that] .
        have late_q: "\<forall>q \<in> set qs. corrections_late q" by (rule finished_corrections [OF qs(1) late'])
        have "list_all2 (sampled view (e + 1)) qs qs" using late_q by (auto simp: list_all2_same sampled_def intro: ahead_refl)
        then have "list_all2 (sampled view (e + 1)) qs rs" by (rule sampled_view [OF _ qs(2)])
        then have P: "case push_timeline_sample w e (run2\<lparr>tr_runtimes := rs\<rparr>) of
            Inl err \<Rightarrow> tr_prices run2 \<noteq> None \<or> (\<exists>p \<in> set qs. doomed (e + 1) p)
          | Inr run' \<Rightarrow> list_all2 (sampled view (e + 1)) qs (tr_runtimes run')"
          using push_sampled [where b = "e + 1" and ps = qs and run = "run2\<lparr>tr_runtimes := rs\<rparr>" and w = w and t = e] R2(2)
          by (auto split: sum.splits)
        have fixed: "q' = q" if "q \<in> set qs" "ahead (e + 1) q q'" for q q'
          using that still [OF that(1)] by (auto simp: ahead_def)
        show ?thesis
        proof (cases "push_timeline_sample w e (run2\<lparr>tr_runtimes := rs\<rparr>)")
          case (Inl err)
          have "\<not> (\<exists>p \<in> set qs. doomed (e + 1) p)" using still by (auto simp: doomed_def)
          then show ?thesis using P Inl R2(3) by (auto simp: W2 fin)
        next
          case last: (Inr run')
          then have L: "list_all2 (sampled view (e + 1)) qs (tr_runtimes run')" using P by simp
          have "map view (tr_runtimes run') = map view qs"
          proof (rule nth_equalityI)
            show "length (map view (tr_runtimes run')) = length (map view qs)" using list_all2_lengthD [OF L] by simp
            fix j assume "j < length (map view (tr_runtimes run'))"
            then have j: "j < length qs" using list_all2_lengthD [OF L] by simp
            then show "map view (tr_runtimes run') ! j = map view qs ! j"
              using list_all2_nthD [OF L j] fixed [OF nth_mem [OF j]] list_all2_lengthD [OF L] by (auto simp: sampled_def)
          qed
          then show ?thesis using last qs(1) by (simp add: W2 fin win)
        qed
      qed
    qed
  qed
qed

end

subsection \<open>What a run shows\<close>

text \<open>A state as its ledgers: everything but the marks.\<close>

definition ledgers :: "timeline_state \<Rightarrow> timeline_state" where
  "ledgers s = s\<lparr>rt_latest_marks := []\<rparr>"

lemma ledgers_idem [simp]: "ledgers (ledgers s) = ledgers s"
  by (simp add: ledgers_def)

lemma ledgers_activate: "ledgers (activate_snapshot_at t (ledgers s)) = ledgers (activate_snapshot_at t s)"
  by (simp add: ledgers_def activate_snapshot_at_def Let_def due_def split: option.splits)

lemma ledgers_quantity: "precondition_holds (ledgers s) = precondition_holds s"
  by (intro ext) (simp add: ledgers_def precondition_holds_def allocation_quantity_def)

lemma rfold_unit_cong: "(\<And>x. x \<in> set xs \<Longrightarrow> f x = g x) \<Longrightarrow> rfold (\<lambda>_. f) () xs = rfold (\<lambda>_. g) () xs"
  by (induction xs) auto

lemma ledgers_allocation: "rmap ledgers (apply_allocation a (ledgers s)) = rmap ledgers (apply_allocation a s)"
proof -
  let ?t = "as_snapshot_ts_us a"
  let ?x = "activate_snapshot_at ?t s" and ?y = "activate_snapshot_at ?t (ledgers s)"
  have l: "ledgers ?y = ledgers ?x" by (rule ledgers_activate)
  have p: "precondition_holds ?y = precondition_holds ?x" using ledgers_quantity [of ?x] ledgers_quantity [of ?y] l by simp
  have "f (ledgers ?y) = f (ledgers ?x)" for f :: "timeline_state \<Rightarrow> 'b" by (simp add: l)
  from this [of rt_source_id] this [of rt_strategy_states]
  have f: "rt_source_id ?y = rt_source_id ?x" "rt_strategy_states ?y = rt_strategy_states ?x" by (simp_all add: ledgers_def)
  have u: "ledgers (z\<lparr>rt_strategy_states := m\<rparr>) = (ledgers z)\<lparr>rt_strategy_states := m\<rparr>" for z m by (simp add: ledgers_def)
  show ?thesis unfolding apply_allocation_def Let_def rmap_rbind rmap_Inr u p f l ..
qed

lemma ledgers_advance_loop: "rmap ledgers (advance_loop t i as (ledgers s)) = rmap ledgers (advance_loop t i as s)"
proof (induction as arbitrary: s)
  case Nil
  then show ?case by simp
next
  case (Cons a as)
  show ?case
  proof (cases "fell_due t i a")
    case False
    then show ?thesis by (simp only: advance_loop_Cons if_False rmap_Inr ledgers_idem)
  next
    case True
    let ?go = "\<lambda>s'. advance_loop t i as (s'\<lparr>rt_next_allocation := rt_next_allocation s' + 1\<rparr>)"
    have go: "rmap ledgers (?go x) = rmap ledgers (?go y)" if e: "ledgers x = ledgers y" for x y
    proof -
      have "rt_next_allocation x = rt_next_allocation y" using arg_cong [OF e, of rt_next_allocation] by (simp add: ledgers_def)
      then have "ledgers (x\<lparr>rt_next_allocation := rt_next_allocation x + 1\<rparr>) = ledgers (y\<lparr>rt_next_allocation := rt_next_allocation y + 1\<rparr>)"
        using e by (cases x; cases y) (simp add: ledgers_def)
      then show ?thesis using Cons.IH by metis
    qed
    show ?thesis
    proof (cases "apply_allocation a s")
      case (Inl e)
      then have "apply_allocation a (ledgers s) = Inl e" using rmap_same_Inl [OF ledgers_allocation [symmetric]] by blast
      then show ?thesis using True Inl by (simp add: advance_loop_Cons)
    next
      case (Inr x)
      obtain y where "apply_allocation a (ledgers s) = Inr y" "ledgers x = ledgers y"
        using rmap_same_Inr [OF ledgers_allocation [symmetric] Inr] by blast
      then show ?thesis using True Inr go [of x y] by (simp add: advance_loop_Cons)
    qed
  qed
qed

lemma ledgers_advance: "rmap ledgers (advance_allocations t i (ledgers s)) = rmap ledgers (advance_allocations t i s)"
  using ledgers_advance_loop [of t i "drop (rt_next_allocation s) (rt_allocations s)" s]
  by (simp add: advance_allocations_def ledgers_def)

lemma ledgers_fill: "rmap ledgers (timeline_apply_fill f (ledgers s)) = rmap ledgers (timeline_apply_fill f s)"
proof -
  let ?t = "pf_fill_ts_us f"
  define go where "go s1 = (let s = activate_snapshot_at ?t s1; e = pf_event f;
         book = venue_apply_fill e (pf_side f) (rt_fee_rates s) (pf_liquidity f) ?t
     in rbind (book (or_new e (bm_get (rt_states s) (fill_market f)))) (\<lambda>v.
        let s' = s\<lparr>rt_states := bm_insert (fill_market f) v (rt_states s)\<rparr>
        in rbind (if rt_strategy_allocation_active s' \<and> is_system_position_close (fill_strategy f) then Inr s'
                  else let key = (fill_strategy f, ne_symbol e, ne_venue_code e)
                       in rbind (book (or_new e (bm_get (rt_strategy_states s') key))) (\<lambda>sv.
                          Inr (s'\<lparr>rt_strategy_states := bm_insert key sv (rt_strategy_states s')\<rparr>))) (\<lambda>s''.
        Inr (s''\<lparr>rt_latest_marks := bm_insert (fill_market f) (ne_price e) (rt_latest_marks s'')\<rparr>))))" for s1
  have def: "timeline_apply_fill f s = rbind (advance_allocations ?t False s) go" for s
    unfolding timeline_apply_fill_def go_def ..
  have go: "rmap ledgers (go x) = rmap ledgers (go y)" if e: "ledgers x = ledgers y" for x y
  proof -
    let ?x = "activate_snapshot_at ?t x" and ?y = "activate_snapshot_at ?t y"
    have "ledgers ?x = ledgers ?y" using ledgers_activate [of ?t x] ledgers_activate [of ?t y] e by simp
    then obtain m where y: "?y = ?x\<lparr>rt_latest_marks := m\<rparr>" by (cases ?x; cases ?y) (auto simp: ledgers_def)
    show ?thesis unfolding go_def Let_def y rmap_rbind
      by (auto intro!: rbind_cong_Inr simp: ledgers_def rmap_rbind rbind_assoc)
  qed
  show ?thesis
  proof (cases "advance_allocations ?t False s")
    case (Inl e)
    then show ?thesis using rmap_same_Inl [OF ledgers_advance [symmetric] Inl] by (simp add: def)
  next
    case (Inr x)
    obtain y where "advance_allocations ?t False (ledgers s) = Inr y" "ledgers x = ledgers y"
      using rmap_same_Inr [OF ledgers_advance [symmetric] Inr] by blast
    then show ?thesis using Inr go [of x y] by (simp add: def)
  qed
qed

text \<open>The marks of a sample change marks only.\<close>

lemma mark_market_ledgers: "mark_market t (s, m) k = Inr (s', m') \<Longrightarrow> ledgers s' = ledgers s"
  by (auto simp: mark_market_def ledgers_def rbind_Inr_iff split: option.splits)

lemma mark_markets_ledgers: "rfold (mark_market t) (s, m) ks = Inr (s', m') \<Longrightarrow> ledgers s' = ledgers s"
proof (induction ks arbitrary: s m)
  case (Cons k ks)
  obtain s1 m1 where "mark_market t (s, m) k = Inr (s1, m1)" "rfold (mark_market t) (s1, m1) ks = Inr (s', m')"
    using Cons.prems by (auto simp: rbind_Inr_iff)
  then show ?case using Cons.IH mark_market_ledgers by metis
qed simp

lemma mark_runtimes_ledgers: "mark_runtimes t symbols rs m = Inr (rs', m') \<Longrightarrow> map ledgers rs' = map ledgers rs"
  by (induction rs arbitrary: m rs' m') (auto simp: rbind_Inr_iff dest!: mark_markets_ledgers)

interpretation ledgers: ledger_view ledgers "\<lambda>_. True"
proof
  fix s s' t assume "ledgers s = ledgers s'"
  then show "ledgers (activate_snapshot_at t s) = ledgers (activate_snapshot_at t s')" by (metis ledgers_activate)
next
  fix s s' t i assume "ledgers s = ledgers s'"
  then show "rmap ledgers (advance_allocations t i s) = rmap ledgers (advance_allocations t i s')" by (metis ledgers_advance)
next
  fix s s' f assume "ledgers s = ledgers s'"
  then show "rmap ledgers (timeline_apply_fill f s) = rmap ledgers (timeline_apply_fill f s')" by (metis ledgers_fill)
next
  fix p p' rs rs' symbols t assume "apply_minute_marks p rs symbols t = Inr (rs', p')"
  then show "map ledgers rs' = map ledgers rs \<and> True"
    by (auto simp: apply_minute_marks_def rmap_Inr_iff dest: mark_runtimes_ledgers split: option.splits)
qed

text \<open>Without marks the whole state can be looked at.\<close>

interpretation unmarked: ledger_view "\<lambda>s. s" "\<lambda>p. p = None"
  by unfold_locales (auto simp: apply_minute_marks_def)

lemma plain_window:
  assumes "plain_run run" and "0 < k"
  shows "rmap tr_runtimes (run_window w k s e es run) = replay_window e es (tr_runtimes run)"
proof (cases "rfold apply_timeline_event (tr_runtimes run) (takeWhile (\<lambda>x. te_ts_us x \<le> e) es)")
  case (Inl err)
  then show ?thesis using run_window_plain [OF assms(1,2), of w s e es] by (simp add: replay_window_def)
next
  case (Inr rs)
  then have "plain_states rs" using apply_events_plain assms(1) by (auto simp: plain_run_def)
  then have "rmapM (\<lambda>s. advance_allocations e True (activate_snapshot_at e s)) rs = Inr (map (activate_snapshot_at e) rs)"
    by (intro rmapM_Inr) (simp add: plain_states_def)
  then show ?thesis using run_window_plain [OF assms(1,2), of w s e es] Inr by (simp add: replay_window_def)
qed

subsection \<open>The windows\<close>

text \<open>
  C22: Sampling never disturbs the ledgers. Running a window over its events in time order, for
  sources whose ownership corrections do not precede their opening snapshot, gives every source the
  ledgers - positions, strategy positions, open lots, results and corrections applied - that the
  plain replay gives: the events up to the end, each fill applying the corrections before it, then
  the corrections left. Samples apply corrections early and set closed-minute marks, and the marks
  are all that may differ; so the ledgers depend neither on the tick interval nor on the marks.
  Without marks the window succeeds exactly when the replay does, with the very same states, and
  without corrections too it fails with the replay's error.
\<close>

theorem sampling_keeps_ledgers:
  assumes "0 < k" and "sorted (map te_ts_us es)" and "list_all (\<lambda>x. te_source_index x < length (tr_runtimes run)) es"
    and "list_all corrections_late (tr_runtimes run)"
  shows "(\<forall>run'. run_window w k s e es run = Inr run' \<longrightarrow>
        (\<exists>rs. replay_window e es (tr_runtimes run) = Inr rs \<and> map ledgers (tr_runtimes run') = map ledgers rs))
    \<and> (tr_prices run = None \<longrightarrow> (case replay_window e es (tr_runtimes run) of
          Inl _ \<Rightarrow> \<exists>err. run_window w k s e es run = Inl err
        | Inr rs \<Rightarrow> rmap tr_runtimes (run_window w k s e es run) = Inr rs))
    \<and> (plain_run run \<longrightarrow> rmap tr_runtimes (run_window w k s e es run) = replay_window e es (tr_runtimes run))"
proof (intro conjI impI allI)
  have idx: "\<forall>x \<in> set es. te_source_index x < length (tr_runtimes run)" and late: "\<forall>p \<in> set (tr_runtimes run). corrections_late p"
    using assms(3,4) by (simp_all add: list_all_iff)
  show "\<exists>rs. replay_window e es (tr_runtimes run) = Inr rs \<and> map ledgers (tr_runtimes run') = map ledgers rs"
    if "run_window w k s e es run = Inr run'" for run'
    using ledgers.window_sampled [OF assms(1) TrueI assms(2) idx late, where w = w and s = s and e = e] that by simp
  show "case replay_window e es (tr_runtimes run) of
          Inl _ \<Rightarrow> \<exists>err. run_window w k s e es run = Inl err
        | Inr rs \<Rightarrow> rmap tr_runtimes (run_window w k s e es run) = Inr rs" if "tr_prices run = None"
    using unmarked.window_sampled [OF assms(1) that assms(2) idx late, where w = w and s = s and e = e] that by (auto split: sum.splits)
  show "rmap tr_runtimes (run_window w k s e es run) = replay_window e es (tr_runtimes run)" if "plain_run run"
    by (rule plain_window [OF that assms(1)])
qed

theorem sampling_keeps_ledgers_witness:
  "\<exists>s. rmap tr_runtimes (run_window blank_window 10 5 33 [FillEvent 0 ''a'' booked_fill] (blank_run [sample_runtime])) = Inr [s]
     \<and> timeline_apply_fill booked_fill sample_runtime = Inr s"
proof -
  obtain s where s: "rfold apply_timeline_event [sample_runtime] [FillEvent 0 ''a'' booked_fill] = Inr [s]" "activate_snapshot_at 33 s = s"
    using sample_events by blast
  have fill: "timeline_apply_fill booked_fill sample_runtime = Inr s"
    using s(1) by (auto simp: apply_timeline_event_def rbind_Inr_iff rmap_Inr_iff)
  then have "rt_allocations s = []" using apply_fill_fields by (fastforce simp: sample_runtime_def)
  moreover have "takeWhile (\<lambda>x. te_ts_us x \<le> 33) [FillEvent 0 ''a'' booked_fill] = [FillEvent 0 ''a'' booked_fill]"
    by (simp add: booked_fill_def)
  ultimately have "replay_window 33 [FillEvent 0 ''a'' booked_fill] [sample_runtime] = Inr [s]"
    using s by (simp add: replay_window_def del: rfold.simps)
  then show ?thesis
    using sampling_keeps_ledgers [of 10 "[FillEvent 0 ''a'' booked_fill]" "blank_run [sample_runtime]" blank_window 5 33] fill
    by (simp add: blank_run_def sample_runtime_def)
qed

end
