(* ===== verification/CachedWindow.thy ===== *)
theory CachedWindow
  imports Refresh Sampling
begin

text \<open>
  A timeline window that starts from a cached checkpoint is the window replayed from the opening
  position. The checkpoint holds the ledgers over a prefix of the fills, all of them before the
  window; what is left to replay, the names on the axes and the anchor of the window are the same.
  A checkpoint holds the ownership corrections its fills applied; those that fell due between the last
  fill and the window are applied by the first advance on either way.
\<close>

subsection \<open>The ledgers of one source\<close>

abbreviation apply_fills :: "timeline_state \<Rightarrow> prepared_fill list \<Rightarrow> nav_error + timeline_state" where
  "apply_fills s fs \<equiv> rfold (\<lambda>s f. timeline_apply_fill f s) s fs"

definition all_late :: "timeline_state \<Rightarrow> prepared_fill list \<Rightarrow> bool" where
  "all_late s fs \<longleftrightarrow> corrections_late s \<and> (\<forall>f \<in> set fs. late s (pf_fill_ts_us f))"

lemma apply_fills_settles:
  assumes "apply_fills s fs = Inr s'" and "all_late s fs" and "fs \<noteq> [] \<or> settled s"
  shows "settled s'"
  using assms
proof (induction fs arbitrary: s)
  case (Cons f fs)
  obtain s1 where s1: "timeline_apply_fill f s = Inr s1" "apply_fills s1 fs = Inr s'" using Cons.prems(1) by (auto simp: rbind_Inr_iff)
  have l: "late s (pf_fill_ts_us f)" using Cons.prems(2) by (simp add: all_late_def)
  have "all_late s1 fs"
    using apply_fill_fields [OF s1(1)] Cons.prems(2) corrections_late_cong [of s1 s] by (simp add: all_late_def late_def)
  then show ?case using Cons.IH [OF s1(2)] apply_fill_settles [OF s1(1) l] by simp
qed simp

lemma apply_fills_activated:
  "all_late s fs \<Longrightarrow> fs \<noteq> [] \<Longrightarrow> apply_fills (activate_snapshot_at t s) fs = apply_fills s fs"
  by (cases fs) (simp_all add: apply_fill_activated all_late_def)

text \<open>The replay loop applies the fills; the checkpoints it takes on the way do not show.\<close>

lemma run_fills_apply:
  assumes "run_fills active r n fs = Inr r'" and "all_late (rp_state r) fs"
  shows "apply_fills (rp_state r) fs = Inr (rp_state r')"
  using assms
proof (induction fs arbitrary: r n)
  case (Cons f fs)
  obtain r1 where step: "replay_step active r (n, f) = Inr r1" and rest: "run_fills active r1 (Suc n) fs = Inr r'"
    using Cons.prems(1) by (auto simp: rbind_Inr_iff)
  have l: "corrections_late (rp_state r)" "late (rp_state r) (pf_fill_ts_us f)" using Cons.prems(2) by (simp_all add: all_late_def)
  have "timeline_apply_fill f (rp_state (take_checkpoint n f r)) = timeline_apply_fill f (rp_state r)"
    using apply_fill_activated [OF l] by (simp add: take_checkpoint_def Let_def)
  then have s1: "timeline_apply_fill f (rp_state r) = Inr (rp_state r1)" using replay_step_Inr [OF step] by simp
  have "all_late (rp_state r1) fs"
    using apply_fill_fields [OF s1] Cons.prems(2) corrections_late_cong [of "rp_state r1" "rp_state r"]
    by (simp add: all_late_def late_def)
  then show ?case using s1 Cons.IH [OF rest] by simp
qed simp

text \<open>
  A cached source is the replay of the records it was prepared from, its corrections included: the
  loop starts with the names of the corrections already on the indexes.
\<close>

definition replayed :: "source_config \<Rightarrow> nat \<Rightarrow> cached_source \<Rightarrow> bool" where
  "replayed source n c \<longleftrightarrow> timed (cs_prepared c) \<and> rmap strip (build source (cs_prepared c) n) = Inr (strip c)"

abbreviation indexed_start :: "prepared_source_events \<Rightarrow> timeline_state \<Rightarrow> replay_state" where
  "indexed_start p s \<equiv> index_allocations (pe_allocations p) (build_start p s)"

lemma index_positions_fields:
  "rp_state (foldl (\<lambda>r p. r\<lparr>rp_symbols := bm_min (al_symbol p) t (rp_symbols r), rp_strategies := bm_min (al_strategy p) t (rp_strategies r)\<rparr>) r ps)
     = rp_state r"
  "rp_checkpoints (foldl (\<lambda>r p. r\<lparr>rp_symbols := bm_min (al_symbol p) t (rp_symbols r), rp_strategies := bm_min (al_strategy p) t (rp_strategies r)\<rparr>) r ps)
     = rp_checkpoints r"
  "rp_next_checkpoint (foldl (\<lambda>r p. r\<lparr>rp_symbols := bm_min (al_symbol p) t (rp_symbols r), rp_strategies := bm_min (al_strategy p) t (rp_strategies r)\<rparr>) r ps)
     = rp_next_checkpoint r"
  "rp_symbols (foldl (\<lambda>r p. r\<lparr>rp_symbols := bm_min (al_symbol p) t (rp_symbols r), rp_strategies := bm_min (al_strategy p) t (rp_strategies r)\<rparr>) r ps)
     = foldl (\<lambda>m p. bm_min (al_symbol p) t m) (rp_symbols r) ps"
  "rp_strategies (foldl (\<lambda>r p. r\<lparr>rp_symbols := bm_min (al_symbol p) t (rp_symbols r), rp_strategies := bm_min (al_strategy p) t (rp_strategies r)\<rparr>) r ps)
     = foldl (\<lambda>m p. bm_min (al_strategy p) t m) (rp_strategies r) ps"
  by (induction ps arbitrary: r) simp_all

definition correction_legs :: "allocation_snapshot list \<Rightarrow> (allocation_position \<times> i64) list" where
  "correction_legs as = concat (map (\<lambda>a. map (\<lambda>p. (p, as_snapshot_ts_us a)) (as_positions a)) as)"

lemma index_allocations_fields [simp]:
  "rp_state (index_allocations as r) = rp_state r"
  "rp_checkpoints (index_allocations as r) = rp_checkpoints r"
  "rp_next_checkpoint (index_allocations as r) = rp_next_checkpoint r"
  by (induction as arbitrary: r) (simp_all add: index_allocations_def index_positions_fields)

lemma index_allocations_names:
  "rp_symbols (index_allocations as r) = foldl (\<lambda>m x. bm_min (al_symbol (fst x)) (snd x) m) (rp_symbols r) (correction_legs as)"
  "rp_strategies (index_allocations as r) = foldl (\<lambda>m x. bm_min (al_strategy (fst x)) (snd x) m) (rp_strategies r) (correction_legs as)"
  by (induction as arbitrary: r)
    (simp_all add: index_allocations_def index_positions_fields correction_legs_def foldl_map)

lemma hour_ahead_indexed [simp]: "hour_ahead snap (index_allocations as r) N = hour_ahead snap r N"
  by (simp add: hour_ahead_def)

lemma replayed_run:
  assumes "replayed source n c"
  obtains s r where "initial_timeline_state source (cs_prepared c) = Inr s"
    and "run_fills (pe_strategy_allocation_active (cs_prepared c)) (indexed_start (cs_prepared c) s) 0 (pe_fill_events (cs_prepared c)) = Inr r"
    and "cs_checkpoints c = rp_checkpoints r" and "cs_symbols c = rp_symbols r" and "cs_strategies c = rp_strategies r"
proof -
  let ?p = "cs_prepared c"
  obtain c0 where c0: "build source ?p n = Inr c0" "strip c0 = strip c" using assms by (auto simp: replayed_def rmap_Inr_iff)
  obtain s where s: "initial_timeline_state source ?p = Inr s" and r: "replay source ?p n 0 (build_start ?p s) = Inr c0"
    using c0(1) by (auto simp: build_def Let_def rbind_Inr_iff build_start_def)
  obtain r where run: "run_fills (pe_strategy_allocation_active ?p) (indexed_start ?p s) 0 (pe_fill_events ?p) = Inr r"
    and f: "cs_checkpoints c0 = rp_checkpoints r" "cs_symbols c0 = rp_symbols r" "cs_strategies c0 = rp_strategies r"
    using r by (auto simp: replay_def rbind_Inr_iff)
  have "g (strip c0) = g (strip c)" for g :: "cached_source \<Rightarrow> 'x" by (simp add: c0(2))
  from this [of cs_checkpoints] this [of cs_symbols] this [of cs_strategies]
  show thesis using that [OF s run] f by (simp add: strip_def)
qed

lemma replayed_sorted:
  assumes "replayed source n c"
  shows "sorted (map pf_fill_ts_us (pe_fill_events (cs_prepared c)))" and "sorted (map fill_order_key (pe_fill_events (cs_prepared c)))"
  using assms by (simp_all add: replayed_def timed_def fills_ok_def sorted_fills_ts)

lemma initial_late:
  assumes "timed p" and "initial_timeline_state source p = Inr s0"
  shows "all_late s0 (pe_fill_events p)"
  using assms initial_state_fields [OF assms(2)]
  by (auto simp: all_late_def corrections_late_def timed_def fills_ok_def late_def split: option.splits)

lemma replayed_ahead:
  assumes "replayed source n c" and "pe_fill_events (cs_prepared c) \<noteq> []"
  obtains N where "hour_ahead (pe_snapshot_ts_us (cs_prepared c)) (indexed_start (cs_prepared c) s) N"
  using build_start_ahead [of "cs_prepared c" s] assms by (auto simp: replayed_def)

lemma replayed_checkpoints_sorted:
  assumes "replayed source n c"
  shows "sorted_wrt (<) (map cp_ts_us (cs_checkpoints c))"
proof -
  let ?p = "cs_prepared c"
  obtain s r where r: "run_fills (pe_strategy_allocation_active ?p) (indexed_start ?p s) 0 (pe_fill_events ?p) = Inr r"
    and cf: "cs_checkpoints c = rp_checkpoints r"
    using replayed_run [OF assms] by metis
  show ?thesis
  proof (cases "pe_fill_events ?p = []")
    case True
    then show ?thesis using r cf by (auto simp: build_start_def)
  next
    case False
    then obtain N0 where N0: "hour_ahead (pe_snapshot_ts_us ?p) (indexed_start ?p s) N0" using replayed_ahead [OF assms] by blast
    have "\<forall>f \<in> set (pe_fill_events ?p). in_time (pf_fill_ts_us f)" using assms by (simp add: replayed_def timed_def fills_ok_def)
    then show ?thesis using run_fills_hours [OF r N0 replayed_sorted(1) [OF assms]] by (auto simp: hour_ahead_def cf)
  qed
qed

lemma last_checkpoint:
  assumes "replayed source n c" and "start_checkpoint (Some c) start = Some cp"
  obtains i ts where "start = Some ts" "i < length (cs_checkpoints c)" "cp = cs_checkpoints c ! i" "cp_ts_us cp \<le> ts"
proof -
  obtain ts where ts: "start = Some ts" using assms(2) by (cases start) (simp_all add: start_checkpoint_def)
  let ?m = "partition_point (\<lambda>cp. cp_ts_us cp \<le> ts) (cs_checkpoints c)"
  have m: "?m = length (takeWhile (\<lambda>cp. cp_ts_us cp \<le> ts) (cs_checkpoints c))"
    using replayed_checkpoints_sorted [OF assms(1)]
    by (intro partition_point_sorted [of "\<lambda>a b. cp_ts_us a < cp_ts_us b"]) (auto simp: sorted_wrt_map)
  have cp: "?m \<noteq> 0" "cp = cs_checkpoints c ! (?m - 1)"
    using assms(2) ts by (simp_all add: start_checkpoint_def Let_def split: if_splits)
  then have "cp = takeWhile (\<lambda>cp. cp_ts_us cp \<le> ts) (cs_checkpoints c) ! (?m - 1)"
    using m by (simp add: takeWhile_nth)
  then have "cp \<in> set (takeWhile (\<lambda>cp. cp_ts_us cp \<le> ts) (cs_checkpoints c))"
    using cp(1) m by (metis diff_less neq0_conv nth_mem zero_less_one)
  then have "cp_ts_us cp \<le> ts" by (auto dest: set_takeWhileD)
  moreover have "?m - 1 < length (cs_checkpoints c)"
    using cp(1) m length_takeWhile_le [of "\<lambda>cp. cp_ts_us cp \<le> ts" "cs_checkpoints c"] by linarith
  ultimately show thesis using that ts cp(2) by blast
qed

lemma checkpoint_prefix:
  assumes c: "replayed source n c" and cp: "start_checkpoint (Some c) start = Some cp"
    and s0: "initial_timeline_state source (cs_prepared c) = Inr s0"
  obtains ts sk where "start = Some ts" "cp_ts_us cp \<le> ts"
    "\<forall>f \<in> set (take (cp_next_fill cp) (pe_fill_events (cs_prepared c))). pf_fill_ts_us f < cp_ts_us cp"
    "late s0 (cp_ts_us cp)" "apply_fills s0 (take (cp_next_fill cp) (pe_fill_events (cs_prepared c))) = Inr sk"
    "cp_state cp = activate_snapshot_at (cp_ts_us cp) sk"
proof -
  let ?p = "cs_prepared c"
  obtain s r where s: "initial_timeline_state source ?p = Inr s"
    and run: "run_fills (pe_strategy_allocation_active ?p) (indexed_start ?p s) 0 (pe_fill_events ?p) = Inr r"
    and cps: "cs_checkpoints c = rp_checkpoints r" using replayed_run [OF c] by metis
  have [simp]: "s = s0" using s s0 by simp
  have ok: "timed ?p" using c by (simp add: replayed_def)
  obtain i ts where i: "start = Some ts" "i < length (rp_checkpoints r)" "cp = rp_checkpoints r ! i" "cp_ts_us cp \<le> ts"
    using last_checkpoint [OF c cp] cps by metis
  have fs: "pe_fill_events ?p \<noteq> []" using run i(2) by (auto simp: build_start_def)
  obtain N where ahead: "hour_ahead (pe_snapshot_ts_us ?p) (indexed_start ?p s0) N" using replayed_ahead [OF c fs] .
  have none: "rp_checkpoints (indexed_start ?p s0) = []" by (simp add: build_start_def)
  have fok: "fills_ok (pe_snapshot_ts_us ?p) (pe_fill_events ?p)" using ok by (simp add: timed_def)
  note C = checkpoint_splits_fills [OF run [unfolded \<open>s = s0\<close>] none ahead fok i(2,3) refl]
  then obtain rk N' where rk: "run_fills (pe_strategy_allocation_active ?p) (indexed_start ?p s0) 0 (take (cp_next_fill cp) (pe_fill_events ?p)) = Inr rk"
    "hour_ahead (pe_snapshot_ts_us ?p) rk N'" "N' \<le> cp_ts_us cp" "cp_state cp = activate_snapshot_at (cp_ts_us cp) (rp_state rk)" by blast
  note F = initial_state_fields [OF s0]
  have "all_late s0 (take (cp_next_fill cp) (pe_fill_events ?p))"
    using initial_late [OF ok s0] by (auto simp: all_late_def dest: in_set_takeD)
  then have "apply_fills s0 (take (cp_next_fill cp) (pe_fill_events ?p)) = Inr (rp_state rk)"
    using run_fills_apply [OF rk(1)] by (simp add: build_start_def)
  moreover have "late s0 (cp_ts_us cp)" using rk(2,3) F by (auto simp: hour_ahead_def late_def split: option.splits)
  ultimately show thesis using that [OF i(1,4)] C rk(4) by blast
qed

text \<open>
  The state a window starts from, and the number of fills it leaves out: from the opening position,
  or from the checkpoint the cache offers.
\<close>

definition resume_state :: "cached_source \<Rightarrow> i64 option \<Rightarrow> timeline_state \<Rightarrow> timeline_state" where
  "resume_state c start s0 = (case start_checkpoint (Some c) start of None \<Rightarrow> s0 | Some cp \<Rightarrow> cp_state cp)"

definition resume_fill :: "cached_source \<Rightarrow> i64 option \<Rightarrow> nat" where
  "resume_fill c start = (case start_checkpoint (Some c) start of None \<Rightarrow> 0 | Some cp \<Rightarrow> cp_next_fill cp)"

lemma cache_applies:
  assumes "replayed source n c" and "initial_timeline_state source (cs_prepared c) = Inr s0"
  shows "all_late s0 (pe_fill_events (cs_prepared c)) \<and> (\<exists>s. apply_fills s0 (pe_fill_events (cs_prepared c)) = Inr s)"
proof -
  let ?p = "cs_prepared c"
  obtain s r where s: "initial_timeline_state source ?p = Inr s"
    and run: "run_fills (pe_strategy_allocation_active ?p) (indexed_start ?p s) 0 (pe_fill_events ?p) = Inr r"
    using replayed_run [OF assms(1)] by metis
  have "all_late s0 (pe_fill_events ?p)" using initial_late [OF _ assms(2)] assms(1) by (simp add: replayed_def)
  then show ?thesis using run_fills_apply [OF run] s assms(2) by (auto simp: build_start_def)
qed

lemma apply_prefix: "apply_fills s (xs @ ys) = Inr s' \<Longrightarrow> \<exists>t. apply_fills s xs = Inr t"
  by (auto simp: rfold_append rbind_Inr_iff)

lemma sorted_filter_prefix:
  assumes "sorted (map pf_fill_ts_us fs)"
  shows "\<exists>zs. fs = filter (\<lambda>f. pf_fill_ts_us f < t) fs @ zs"
  using takeWhile_sorted_key [OF assms, of "\<lambda>x. x < t"] takeWhile_dropWhile_id [of "\<lambda>f. pf_fill_ts_us f < t" fs]
  by (metis le_less_trans)

lemma all_late_subset: "all_late s fs \<Longrightarrow> set gs \<subseteq> set fs \<Longrightarrow> all_late s gs"
  by (auto simp: all_late_def)

lemma resumed_window:
  assumes c: "replayed source n c" and s0: "initial_timeline_state source (cs_prepared c) = Inr s0"
    and start: "\<forall>ts. start = Some ts \<longrightarrow> ts \<le> t"
  shows "\<exists>s. apply_fills (activate_snapshot_at t s0) (filter (\<lambda>f. pf_fill_ts_us f < t) (pe_fill_events (cs_prepared c))) = Inr s
      \<and> apply_fills (activate_snapshot_at t (resume_state c start s0))
          (filter (\<lambda>f. pf_fill_ts_us f < t) (drop (resume_fill c start) (pe_fill_events (cs_prepared c)))) = Inr s"
      (is "\<exists>s. ?plain = Inr s \<and> ?cached = Inr s")
    and "\<forall>f \<in> set (take (resume_fill c start) (pe_fill_events (cs_prepared c))). pf_fill_ts_us f < t"
proof -
  define fs where "fs = pe_fill_events (cs_prepared c)"
  define F where "F = filter (\<lambda>f. pf_fill_ts_us f < t) fs"
  have lf: "all_late s0 fs" and "\<exists>s. apply_fills s0 fs = Inr s" using cache_applies [OF c s0] by (simp_all add: fs_def)
  moreover obtain zs where "fs = F @ zs"
    using sorted_filter_prefix [of fs t] replayed_sorted(1) [OF c] unfolding F_def fs_def by blast
  ultimately obtain x where x: "apply_fills s0 F = Inr x" using apply_prefix by metis
  have lF: "all_late s0 F" using lf by (auto simp: F_def intro: all_late_subset)
  have plain: "apply_fills (activate_snapshot_at t s0) F = (if F = [] then Inr (activate_snapshot_at t s0) else Inr x)"
    using apply_fills_activated [OF lF] x by simp
  have "?cached = ?plain \<and> (\<forall>f \<in> set (take (resume_fill c start) fs). pf_fill_ts_us f < t)"
  proof (cases "start_checkpoint (Some c) start")
    case None
    then show ?thesis by (simp add: resume_state_def resume_fill_def fs_def)
  next
    case (Some cp)
    define A where "A = take (cp_next_fill cp) fs"
    define B where "B = filter (\<lambda>f. pf_fill_ts_us f < t) (drop (cp_next_fill cp) fs)"
    obtain ts sk where ts: "start = Some ts" "cp_ts_us cp \<le> ts" and early: "\<forall>f \<in> set A. pf_fill_ts_us f < cp_ts_us cp"
      and late: "late s0 (cp_ts_us cp)" and sk: "apply_fills s0 A = Inr sk" and cp: "cp_state cp = activate_snapshot_at (cp_ts_us cp) sk"
      using checkpoint_prefix [OF c Some s0] unfolding A_def fs_def by metis
    have le: "cp_ts_us cp \<le> t" using ts start by auto
    then have A: "\<forall>f \<in> set A. pf_fill_ts_us f < t" using early by fastforce
    have F: "F = A @ B"
    proof -
      have "F = filter (\<lambda>f. pf_fill_ts_us f < t) (A @ drop (cp_next_fill cp) fs)" by (simp add: F_def A_def)
      then show ?thesis using A by (simp add: B_def)
    qed
    have "apply_fills (activate_snapshot_at t (cp_state cp)) B = apply_fills (activate_snapshot_at t s0) F"
    proof (cases "A = []")
      case True
      then have "sk = s0" using sk by simp
      then have "activate_snapshot_at t (cp_state cp) = activate_snapshot_at t s0"
        using late_mono [OF late le] by (simp add: cp activate_late)
      then show ?thesis using True F by simp
    next
      case False
      have "all_late s0 A" using lF F by (auto intro: all_late_subset)
      then have "settled sk" using apply_fills_settles [OF sk] False by blast
      then have "activate_snapshot_at t (cp_state cp) = sk" by (simp add: cp settled_def)
      moreover have "apply_fills s0 F = apply_fills sk B" by (simp add: F rfold_append sk)
      ultimately show ?thesis using apply_fills_activated [OF lF] False F by simp
    qed
    then show ?thesis using A Some
      by (simp add: resume_state_def resume_fill_def A_def B_def F_def fs_def)
  qed
  then show "\<exists>s. ?plain = Inr s \<and> ?cached = Inr s"
    and "\<forall>f \<in> set (take (resume_fill c start) (pe_fill_events (cs_prepared c))). pf_fill_ts_us f < t"
    using plain by (auto simp: fs_def F_def split: if_splits)
qed

subsection \<open>Sources do not interfere\<close>

abbreviation own_events :: "nat \<Rightarrow> timeline_event list \<Rightarrow> timeline_event list" where
  "own_events i es \<equiv> filter (\<lambda>e. te_source_index e = i) es"

lemma apply_events_by_source:
  assumes "\<forall>e \<in> set es. te_source_index e < length rs"
    and "\<forall>i < length rs. rfold own_step (rs ! i) (own_events i es) = Inr (final i)"
  shows "rfold apply_timeline_event rs es = Inr (map final [0..<length rs])"
  using assms
proof (induction es arbitrary: rs)
  case Nil
  then have "rs = map final [0..<length rs]" by (intro nth_equalityI) auto
  then show ?case by simp
next
  case (Cons e es)
  let ?i = "te_source_index e"
  have i: "?i < length rs" using Cons.prems(1) by simp
  then obtain s where s: "own_step (rs ! ?i) e = Inr s" "rfold own_step s (own_events ?i es) = Inr (final ?i)"
    using Cons.prems(2) [rule_format, OF i] by (auto simp: rbind_Inr_iff)
  let ?rs = "rs[?i := s]"
  have "\<forall>j < length ?rs. rfold own_step (?rs ! j) (own_events j es) = Inr (final j)"
  proof (intro allI impI)
    fix j assume j: "j < length ?rs"
    show "rfold own_step (?rs ! j) (own_events j es) = Inr (final j)"
    proof (cases "j = ?i")
      case False
      then have "own_events j (e # es) = own_events j es" by simp
      then show ?thesis using Cons.prems(2) j False by (metis length_list_update nth_list_update_neq)
    qed (use s(2) i in simp)
  qed
  then have "rfold apply_timeline_event ?rs es = Inr (map final [0..<length ?rs])"
    using Cons.IH [of ?rs] Cons.prems(1) by simp
  then show ?case using s(1) by (simp add: apply_timeline_event_own [of rs e])
qed

subsection \<open>What a source contributes\<close>

definition source_events :: "nat \<Rightarrow> source_config \<Rightarrow> i64 option \<Rightarrow> prepared_fill list \<Rightarrow> timeline_event list" where
  "source_events i source opening fills =
     (case opening of None \<Rightarrow> [] | Some ts \<Rightarrow> [SnapshotEvent i (sc_id source) ts]) @ map (FillEvent i (sc_id source)) fills"

lemma own_source_events:
  "own_events j (source_events i source opening fills) = (if j = i then source_events i source opening fills else [])"
  by (simp add: source_events_def comp_def split: option.splits)

lemma own_all_events:
  "own_events j (concat (map (\<lambda>(i, x). source_events i x (opening x) (fills x)) (enumerate n xs)))
     = (if n \<le> j \<and> j < n + length xs then source_events j (xs ! (j - n)) (opening (xs ! (j - n))) (fills (xs ! (j - n))) else [])"
proof (induction xs arbitrary: n)
  case (Cons x xs)
  have "(x # xs) ! (j - n) = xs ! (j - Suc n)" if "n < j" using that by (simp add: nth_Cons')
  then show ?case by (auto simp: Cons.IH own_source_events)
qed auto

text \<open>The events of one source are in replay order already.\<close>

lemma source_events_sorted:
  assumes "sorted (map fill_order_key fills)" and "\<forall>ts. opening = Some ts \<longrightarrow> (\<forall>f \<in> set fills. ts < pf_fill_ts_us f)"
  shows "sort_key timeline_order_key (source_events i source opening fills) = source_events i source opening fills"
proof -
  have "sorted_wrt (\<lambda>f g. timeline_order_key (FillEvent i (sc_id source) f) \<le> timeline_order_key (FillEvent i (sc_id source) g)) fills"
    using assms(1) unfolding sorted_wrt_map
    by (rule sorted_wrt_mono_rel [rotated]) (auto simp: timeline_order_key_def fill_order_key_def less_eq_prod_def)
  then have "sorted (map timeline_order_key (source_events i source opening fills))"
    using assms(2) by (auto simp: source_events_def sorted_wrt_map comp_def timeline_order_key_def less_eq_prod_def split: option.splits)
  then show ?thesis by (rule sort_key_id_if_sorted)
qed

lemma window_fills_drop:
  assumes "sorted (map pf_fill_ts_us (pe_fill_events p))"
  shows "window_fills p k end_ts = filter (\<lambda>f. pf_fill_ts_us f \<le> end_ts) (drop k (pe_fill_events p))"
proof -
  let ?fs = "pe_fill_events p" and ?P = "\<lambda>f. pf_fill_ts_us f \<le> end_ts"
  have part: "fill_partition_point ?P ?fs = length (takeWhile ?P ?fs)"
    using fill_partition_sorted [OF assms, of "\<lambda>x. x \<le> end_ts"] takeWhile_sorted_key [OF assms, of "\<lambda>x. x \<le> end_ts"] by simp
  have "filter ?P ?fs = takeWhile ?P ?fs"
    using takeWhile_sorted_key [OF assms, of "\<lambda>x. x \<le> end_ts"] by simp
  moreover have "filter ?P (takeWhile ?P ?fs) = takeWhile ?P ?fs" by (auto simp: filter_id_conv dest: set_takeWhileD)
  ultimately have none: "filter ?P (dropWhile ?P ?fs) = []"
    by (metis (no_types) append.right_neutral filter_append same_append_eq takeWhile_dropWhile_id)
  show ?thesis
  proof (cases "k \<le> length (takeWhile ?P ?fs)")
    case True
    have "drop k ?fs = drop k (takeWhile ?P ?fs) @ dropWhile ?P ?fs"
      using True by (metis drop_append diff_is_0_eq' drop0 takeWhile_dropWhile_id)
    then show ?thesis using True none by (simp add: window_fills_def Let_def part min_def)
  next
    case False
    have "drop k ?fs = drop (k - length (takeWhile ?P ?fs)) (dropWhile ?P ?fs)"
      using False by (metis drop_append append_Nil drop_all linorder_le_cases takeWhile_dropWhile_id)
    moreover have "filter ?P (drop (k - length (takeWhile ?P ?fs)) (dropWhile ?P ?fs)) = []"
      using none by (metis (no_types, lifting) filter_False filter_empty_conv in_set_dropD)
    ultimately show ?thesis using False by (simp add: window_fills_def Let_def part)
  qed
qed

lemma min_after_upto:
  "(\<exists>v. bm_get (min_after key t fs) k = Some v \<and> v \<le> e) \<longleftrightarrow> (\<exists>f \<in> set fs. key f = k \<and> t f \<le> e)"
  unfolding min_after_def
  by (induction fs rule: rev_induct) (auto simp: bm_get_min min_def split: option.splits)

lemma min_after_names:
  "fst ` set (filter (\<lambda>(_, v). v \<le> e) (min_after key t fs)) = key ` set (filter (\<lambda>f. t f \<le> e) fs)"
proof -
  have wf: "bm_wf (min_after key t fs)" by (simp add: min_after_def)
  have "k \<in> fst ` set (filter (\<lambda>(_, v). v \<le> e) (min_after key t fs)) \<longleftrightarrow> (\<exists>v. bm_get (min_after key t fs) k = Some v \<and> v \<le> e)" for k
    using bm_get_mem [OF wf] by force
  then show ?thesis unfolding min_after_upto by (intro set_eqI) (simp add: image_iff, blast)
qed

text \<open>The index of first names after the loop: the names of the corrections, then those of the fills.\<close>

lemma min_after_two:
  "foldl (\<lambda>m f. bm_min (key f) (t f) m) (foldl (\<lambda>m x. bm_min (name (fst x)) (snd x) m) [] legs) fs
     = min_after fst snd (map (\<lambda>x. (name (fst x), snd x)) legs @ map (\<lambda>f. (key f, t f)) fs)"
  by (simp add: min_after_def foldl_map)

lemma correction_names:
  "set (fst (allocation_names p e)) = (\<lambda>x. al_symbol (fst x)) ` set (filter (\<lambda>x. snd x \<le> e) (correction_legs (pe_allocations p)))"
  "set (snd (allocation_names p e)) = (\<lambda>x. al_strategy (fst x)) ` set (filter (\<lambda>x. snd x \<le> e) (correction_legs (pe_allocations p)))"
  by (force simp: allocation_names_def correction_legs_def Let_def image_iff)+

lemma cached_names_of:
  assumes "replayed source n c"
  shows "set (fst (cached_names (Some c) end_ts)) = set (fst (allocation_names (cs_prepared c) end_ts))
      \<union> (\<lambda>f. ne_symbol (pf_event f)) ` set (filter (\<lambda>f. pf_fill_ts_us f \<le> end_ts) (pe_fill_events (cs_prepared c)))"
    and "set (snd (cached_names (Some c) end_ts)) = set (snd (allocation_names (cs_prepared c) end_ts))
      \<union> strategy_bucket (pe_strategy_allocation_active (cs_prepared c))
          ` set (filter (\<lambda>f. pf_fill_ts_us f \<le> end_ts) (pe_fill_events (cs_prepared c)))"
proof -
  let ?p = "cs_prepared c"
  obtain s r where s: "initial_timeline_state source ?p = Inr s"
    and run: "run_fills (pe_strategy_allocation_active ?p) (indexed_start ?p s) 0 (pe_fill_events ?p) = Inr r"
    and names: "cs_symbols c = rp_symbols r" "cs_strategies c = rp_strategies r" using replayed_run [OF assms] by metis
  let ?legs = "correction_legs (pe_allocations ?p)"
  have "cs_symbols c = min_after fst snd (map (\<lambda>x. (al_symbol (fst x), snd x)) ?legs @ map (\<lambda>f. (ne_symbol (pf_event f), pf_fill_ts_us f)) (pe_fill_events ?p))"
    "cs_strategies c = min_after fst snd (map (\<lambda>x. (al_strategy (fst x), snd x)) ?legs
        @ map (\<lambda>f. (strategy_bucket (pe_strategy_allocation_active ?p) f, pf_fill_ts_us f)) (pe_fill_events ?p))"
    using run_fills_fields [OF run] unfolding names min_after_two [of "\<lambda>f. ne_symbol (pf_event f)" pf_fill_ts_us al_symbol, symmetric]
      min_after_two [of "strategy_bucket (pe_strategy_allocation_active ?p)" pf_fill_ts_us al_strategy, symmetric]
    by (simp_all add: symbols_after_def strategies_after_def index_allocations_names build_start_def)
  then have "set (fst (cached_names (Some c) end_ts)) = fst ` set (filter (\<lambda>x. snd x \<le> end_ts)
      (map (\<lambda>x. (al_symbol (fst x), snd x)) ?legs @ map (\<lambda>f. (ne_symbol (pf_event f), pf_fill_ts_us f)) (pe_fill_events ?p)))"
    "set (snd (cached_names (Some c) end_ts)) = fst ` set (filter (\<lambda>x. snd x \<le> end_ts)
      (map (\<lambda>x. (al_strategy (fst x), snd x)) ?legs
        @ map (\<lambda>f. (strategy_bucket (pe_strategy_allocation_active ?p) f, pf_fill_ts_us f)) (pe_fill_events ?p)))"
    by (simp_all only: cached_names_def fst_conv snd_conv option.case set_map min_after_names)
  then show "set (fst (cached_names (Some c) end_ts)) = set (fst (allocation_names ?p end_ts))
      \<union> (\<lambda>f. ne_symbol (pf_event f)) ` set (filter (\<lambda>f. pf_fill_ts_us f \<le> end_ts) (pe_fill_events ?p))"
    "set (snd (cached_names (Some c) end_ts)) = set (snd (allocation_names ?p end_ts))
      \<union> strategy_bucket (pe_strategy_allocation_active ?p) ` set (filter (\<lambda>f. pf_fill_ts_us f \<le> end_ts) (pe_fill_events ?p))"
    unfolding correction_names
    by (simp_all only: filter_append filter_map set_append image_Un set_map image_image comp_def fst_conv snd_conv)
qed

definition source_names ::
    "prepared_source_events \<Rightarrow> i64 \<Rightarrow> cached_source option \<Rightarrow> prepared_fill list \<Rightarrow> (string list \<times> string list) list" where
  "source_names p end_ts hit fills =
     [snapshot_names p end_ts, allocation_names p end_ts,
      ([], if pe_strategy_allocation_active p then [unallocated_strategy] else []),
      cached_names hit end_ts, fill_names p fills]"

definition contributed ::
    "i64 \<Rightarrow> prepared_source_events \<Rightarrow> timeline_state \<Rightarrow> prepared_fill list \<Rightarrow> cached_source option \<Rightarrow> collected \<Rightarrow> source_config \<Rightarrow> collected" where
  "contributed end_ts p s fills hit acc source =
     \<lparr>cl_runtimes = cl_runtimes acc @ [s],
      cl_events = cl_events acc @ source_events (length (cl_runtimes acc)) source (due_snapshot p end_ts) fills,
      cl_symbols = cl_symbols acc @ concat (map fst (source_names p end_ts hit fills)),
      cl_strategies = cl_strategies acc @ concat (map snd (source_names p end_ts hit fills)),
      cl_anchors = cl_anchors acc @ option_list (source_anchor p end_ts)\<rparr>"

definition cache_current ::
    "fingerprint \<Rightarrow> snapshots \<Rightarrow> strategy_snapshots \<Rightarrow> histories \<Rightarrow> source_cache \<Rightarrow> bool \<Rightarrow> source_config \<Rightarrow> cached_source \<Rightarrow> bool" where
  "cache_current fp snapshots strategy_snapshots histories cache allocation source c \<longleftrightarrow>
     bm_get cache (sc_id source, allocation) = Some c
     \<and> (\<exists>h n. bm_get histories (sc_id source) = Some h \<and> replayed source n c
          \<and> prepare_source_events fp source (nh_events h) (bm_get snapshots (sc_id source))
              (bm_get strategy_snapshots (sc_id source)) (nh_liquidity_by_order h) (nh_allocations h) = Inr (cs_prepared c))"

lemma cache_current_start:
  assumes "cache_current fp snapshots strategy_snapshots histories cache allocation source c"
  shows "\<exists>s0. initial_timeline_state source (cs_prepared c) = Inr s0"
  using assms replayed_run by (metis cache_current_def)

lemma collect_contributed:
  assumes c: "cache_current fp snapshots strategy_snapshots histories cache allocation source c"
    and s0: "initial_timeline_state source (cs_prepared c) = Inr s0"
  shows "collect_source fp q snapshots strategy_snapshots histories (Some (cache, allocation)) acc source
      = Inr (contributed (tq_end_ts_us q) (cs_prepared c) (resume_state c (tq_start_ts_us q) s0)
          (window_fills (cs_prepared c) (resume_fill c (tq_start_ts_us q)) (tq_end_ts_us q)) (Some c) acc source)"
    and "collect_source fp q snapshots strategy_snapshots histories None acc source
      = Inr (contributed (tq_end_ts_us q) (cs_prepared c) s0
          (window_fills (cs_prepared c) 0 (tq_end_ts_us q)) None acc source)"
proof -
  have rates: "\<exists>r. nav_fee_rates source = Inr r" using s0 by (auto simp: initial_timeline_state_def rbind_Inr_iff rmap_err_Inr_iff)
  then show "collect_source fp q snapshots strategy_snapshots histories (Some (cache, allocation)) acc source
      = Inr (contributed (tq_end_ts_us q) (cs_prepared c) (resume_state c (tq_start_ts_us q) s0)
          (window_fills (cs_prepared c) (resume_fill c (tq_start_ts_us q)) (tq_end_ts_us q)) (Some c) acc source)"
    using c s0 unfolding collect_source_def contributed_def source_names_def source_events_def cache_current_def
    by (auto simp: cached_hit_def history_of_def resume_state_def resume_fill_def Let_def split: option.splits)
  show "collect_source fp q snapshots strategy_snapshots histories None acc source
      = Inr (contributed (tq_end_ts_us q) (cs_prepared c) s0
          (window_fills (cs_prepared c) 0 (tq_end_ts_us q)) None acc source)"
    using c s0 rates unfolding collect_source_def contributed_def source_names_def source_events_def cache_current_def
    by (auto simp: cached_hit_def history_of_def start_checkpoint_def Let_def)
qed

lemma collect_all:
  assumes "\<forall>x \<in> set xs. \<forall>acc. f acc x = Inr (contributed e (P x) (S x) (F x) (H x) acc x)"
  shows "rfold f acc xs = Inr
     \<lparr>cl_runtimes = cl_runtimes acc @ map S xs,
      cl_events = cl_events acc @ concat (map (\<lambda>(i, x). source_events i x (due_snapshot (P x) e) (F x)) (enumerate (length (cl_runtimes acc)) xs)),
      cl_symbols = cl_symbols acc @ concat (map (\<lambda>x. concat (map fst (source_names (P x) e (H x) (F x)))) xs),
      cl_strategies = cl_strategies acc @ concat (map (\<lambda>x. concat (map snd (source_names (P x) e (H x) (F x)))) xs),
      cl_anchors = cl_anchors acc @ concat (map (\<lambda>x. option_list (source_anchor (P x) e)) xs)\<rparr>"
  using assms
proof (induction xs arbitrary: acc)
  case Nil
  then show ?case by (cases acc) simp
next
  case (Cons x xs)
  then show ?case by (simp add: contributed_def)
qed

text \<open>The axes of the window: what the index of first fills adds is what the skipped fills would have.\<close>

lemma source_names_cached:
  assumes c: "replayed source n c"
  shows "set (concat (map fst (source_names (cs_prepared c) e (Some c) (window_fills (cs_prepared c) k e))))
      = set (concat (map fst (source_names (cs_prepared c) e None (window_fills (cs_prepared c) 0 e))))"
    and "set (concat (map snd (source_names (cs_prepared c) e (Some c) (window_fills (cs_prepared c) k e))))
      = set (concat (map snd (source_names (cs_prepared c) e None (window_fills (cs_prepared c) 0 e))))"
proof -
  note W = window_fills_drop [OF replayed_sorted(1) [OF c]]
  have sub: "set (window_fills (cs_prepared c) k e) \<subseteq> set (window_fills (cs_prepared c) 0 e)"
    unfolding W by (auto dest: in_set_dropD)
  have none: "cached_names None e = ([], [])" by (simp add: cached_names_def)
  note C = cached_names_of [OF c, of e]
  have W0: "set (window_fills (cs_prepared c) 0 e) = set (filter (\<lambda>f. pf_fill_ts_us f \<le> e) (pe_fill_events (cs_prepared c)))"
    unfolding W by simp
  show "set (concat (map fst (source_names (cs_prepared c) e (Some c) (window_fills (cs_prepared c) k e))))
      = set (concat (map fst (source_names (cs_prepared c) e None (window_fills (cs_prepared c) 0 e))))"
    using C(1) sub unfolding source_names_def none W0 [symmetric] by (auto simp: fill_names_def)
  show "set (concat (map snd (source_names (cs_prepared c) e (Some c) (window_fills (cs_prepared c) k e))))
      = set (concat (map snd (source_names (cs_prepared c) e None (window_fills (cs_prepared c) 0 e))))"
    using C(2) sub unfolding source_names_def none W0 [symmetric] by (auto simp: fill_names_def)
qed

lemma set_of_list_cong: "set xs = set ys \<Longrightarrow> set_of_list xs = set_of_list ys"
  by (rule strict_sorted_equal) (simp_all add: set_of_list_sorted)

subsection \<open>Before and after the start of the window\<close>

lemma event_split:
  fixes t :: i64 and es :: "timeline_event list"
  defines "events \<equiv> sort_key timeline_order_key es"
  defines "n \<equiv> partition_point (\<lambda>e. te_ts_us e < t) events"
  shows "take n events = sort_key timeline_order_key (filter (\<lambda>e. te_ts_us e < t) es)"
    and "drop n events = sort_key timeline_order_key (filter (\<lambda>e. \<not> te_ts_us e < t) es)"
proof -
  let ?P = "\<lambda>e. te_ts_us e < t"
  have "sorted (map timeline_order_key events)" by (simp add: events_def)
  then have sorted: "sorted (map te_ts_us events)"
    unfolding sorted_wrt_map by (rule sorted_wrt_mono_rel [rotated]) (auto simp: timeline_order_key_def less_eq_prod_def)
  then have n: "n = length (takeWhile ?P events)"
    unfolding n_def by (intro partition_point_sorted [of "\<lambda>a b. te_ts_us a \<le> te_ts_us b"]) (auto simp: sorted_wrt_map)
  have tw: "takeWhile ?P events = filter ?P events"
    using takeWhile_sorted_key [OF sorted, of "\<lambda>x. x < t"] by auto
  have dw: "dropWhile ?P events = filter (\<lambda>e. \<not> ?P e) events"
  proof -
    have "\<forall>e \<in> set (dropWhile ?P events). \<not> ?P e"
      by (rule sorted_wrt_split [of "\<lambda>a b. te_ts_us a \<le> te_ts_us b"]) (use sorted in \<open>auto simp: sorted_wrt_map\<close>)
    then have "filter (\<lambda>e. \<not> ?P e) (dropWhile ?P events) = dropWhile ?P events" by (simp only: filter_id_conv)
    moreover have "filter (\<lambda>e. \<not> ?P e) (takeWhile ?P events) = []" by (auto simp: filter_empty_conv dest: set_takeWhileD)
    ultimately show ?thesis by (metis append_Nil filter_append takeWhile_dropWhile_id)
  qed
  have "take n events = takeWhile ?P events" unfolding n by (rule takeWhile_eq_take [symmetric])
  then show "take n events = sort_key timeline_order_key (filter ?P es)"
    unfolding tw unfolding events_def by (simp only: filter_sort)
  have "drop n events = dropWhile ?P events" unfolding n by (rule dropWhile_eq_drop [symmetric])
  then show "drop n events = sort_key timeline_order_key (filter (\<lambda>e. \<not> ?P e) es)"
    unfolding dw unfolding events_def by (simp only: filter_sort)
qed

lemma filter_source_events:
  "filter (\<lambda>e. P (te_ts_us e)) (source_events i x opening fills)
     = source_events i x (case opening of None \<Rightarrow> None | Some ts \<Rightarrow> if P ts then Some ts else None) (filter (\<lambda>f. P (pf_fill_ts_us f)) fills)"
  by (simp add: source_events_def filter_map comp_def split: option.splits)

lemma apply_fills_snapshot: "apply_fills s fs = Inr s' \<Longrightarrow> rt_snapshot_ts_us s' = rt_snapshot_ts_us s"
  by (rule rfold_invariant [where P = "\<lambda>x. rt_snapshot_ts_us x = rt_snapshot_ts_us s"]) (auto dest: apply_fill_fields)

lemma resume_snapshot:
  assumes "replayed source n c" and "initial_timeline_state source (cs_prepared c) = Inr s0"
  shows "rt_snapshot_ts_us (resume_state c start s0) = pe_snapshot_ts_us (cs_prepared c)"
proof (cases "start_checkpoint (Some c) start")
  case None
  then show ?thesis using initial_state_fields [OF assms(2)] by (simp add: resume_state_def)
next
  case (Some cp)
  show ?thesis
    using checkpoint_prefix [OF assms(1) Some assms(2)] apply_fills_snapshot initial_state_fields [OF assms(2)] Some
    by (metis activate_fields(1) option.simps(5) resume_state_def)
qed

lemma own_steps_fills: "rfold own_step s (map (FillEvent i x) fs) = apply_fills s fs"
  by (induction fs arbitrary: s) (auto intro: rbind_cong_Inr)

lemma own_steps_source:
  assumes "\<forall>ts. anchor = Some ts \<longrightarrow> rt_snapshot_ts_us s = Some ts \<and> ts \<le> t"
  shows "rfold own_step (activate_snapshot_at t s) (source_events i x anchor fills) = apply_fills (activate_snapshot_at t s) fills"
proof (cases anchor)
  case (Some ts)
  then have "settled (activate_snapshot_at t s)" using assms by (intro settled_late) (simp add: late_def)
  then show ?thesis using Some by (simp add: source_events_def settled_def own_steps_fills)
qed (simp add: source_events_def own_steps_fills)

text \<open>All selected sources at once: the states at the start of the window, and the events after it.\<close>

lemma windows_agree:
  assumes cur: "\<forall>x \<in> set xs. \<exists>n. replayed x n (C x)" and s0: "\<forall>x \<in> set xs. initial_timeline_state x (cs_prepared (C x)) = Inr (S0 x)"
    and start: "\<forall>ts. start = Some ts \<longrightarrow> ts \<le> t" and t: "t \<le> e"
  defines "events k \<equiv> concat (map (\<lambda>(i, x). source_events i x (due_snapshot (cs_prepared (C x)) e) (window_fills (cs_prepared (C x)) (k x) e)) (enumerate 0 xs))"
  shows "filter (\<lambda>y. \<not> te_ts_us y < t) (events (\<lambda>x. resume_fill (C x) start)) = filter (\<lambda>y. \<not> te_ts_us y < t) (events (\<lambda>_. 0))"
    and "\<exists>final. rfold apply_timeline_event (map (activate_snapshot_at t) (map (\<lambda>x. resume_state (C x) start (S0 x)) xs))
          (sort_key timeline_order_key (filter (\<lambda>y. te_ts_us y < t) (events (\<lambda>x. resume_fill (C x) start)))) = Inr final
       \<and> rfold apply_timeline_event (map (activate_snapshot_at t) (map S0 xs))
          (sort_key timeline_order_key (filter (\<lambda>y. te_ts_us y < t) (events (\<lambda>_. 0)))) = Inr final"
proof -
  let ?P = "\<lambda>x. cs_prepared (C x)" and ?k = "\<lambda>x. resume_fill (C x) start"
  let ?fs = "\<lambda>x. pe_fill_events (?P x)"
  have sorted: "sorted (map pf_fill_ts_us (?fs x))" "sorted (map fill_order_key (?fs x))"
    and anchored: "\<forall>ts. pe_snapshot_ts_us (?P x) = Some ts \<longrightarrow> (\<forall>f \<in> set (?fs x). ts < pf_fill_ts_us f)" if "x \<in> set xs" for x
    using cur that by (auto simp: replayed_def timed_def fills_ok_def sorted_fills_ts split: option.splits)
  have early: "\<forall>f \<in> set (take (?k x) (?fs x)). pf_fill_ts_us f < t" if "x \<in> set xs" for x
    using resumed_window(2) [OF _ _ start] cur s0 that by blast
  have later: "filter (\<lambda>f. \<not> pf_fill_ts_us f < t) (window_fills (?P x) (?k x) e) = filter (\<lambda>f. \<not> pf_fill_ts_us f < t) (window_fills (?P x) 0 e)"
    if x: "x \<in> set xs" for x
  proof -
    have "filter (\<lambda>f. \<not> pf_fill_ts_us f < t) (filter (\<lambda>f. pf_fill_ts_us f \<le> e) (take (?k x) (?fs x))) = []"
      using early [OF x] by (auto simp: filter_empty_conv)
    then have "filter (\<lambda>f. \<not> pf_fill_ts_us f < t) (filter (\<lambda>f. pf_fill_ts_us f \<le> e) (take (?k x) (?fs x) @ drop (?k x) (?fs x)))
        = filter (\<lambda>f. \<not> pf_fill_ts_us f < t) (filter (\<lambda>f. pf_fill_ts_us f \<le> e) (drop (?k x) (?fs x)))"
      by (simp only: filter_append append_Nil)
    then show ?thesis by (simp add: window_fills_drop [OF sorted(1) [OF x]] del: filter_filter)
  qed
  show "filter (\<lambda>y. \<not> te_ts_us y < t) (events ?k) = filter (\<lambda>y. \<not> te_ts_us y < t) (events (\<lambda>_. 0))"
    unfolding events_def filter_concat map_map
    by (rule arg_cong [where f = concat], rule map_cong [OF refl])
      (auto simp: filter_source_events [of "\<lambda>u. \<not> u < t"] later in_set_enumerate_eq)
  define due_at where "due_at x = (case due_snapshot (?P x) e of None \<Rightarrow> None | Some ts \<Rightarrow> if ts < t then Some ts else None)" for x
  have own: "own_events i (sort_key timeline_order_key (filter (\<lambda>y. te_ts_us y < t) (events k)))
      = source_events i x (due_at x) (filter (\<lambda>f. pf_fill_ts_us f < t) (drop (k x) (?fs x)))"
    if i: "i < length xs" "x = xs ! i" for i x k
  proof -
    have x: "x \<in> set xs" using i by simp
    let ?E = "source_events i x (due_snapshot (?P x) e) (window_fills (?P x) (k x) e)"
    have "own_events i (events k) = ?E"
      unfolding events_def using own_all_events [of i "\<lambda>x. due_snapshot (?P x) e" "\<lambda>x. window_fills (?P x) (k x) e" 0 xs] i by simp
    then have "own_events i (filter (\<lambda>y. te_ts_us y < t) (events k)) = filter (\<lambda>y. te_ts_us y < t) ?E"
      by (metis (no_types, lifting) filter_filter filter_cong conj_commute)
    then have "own_events i (sort_key timeline_order_key (filter (\<lambda>y. te_ts_us y < t) (events k)))
        = filter (\<lambda>y. te_ts_us y < t) (sort_key timeline_order_key ?E)"
      by (simp only: filter_sort)
    also have "sort_key timeline_order_key ?E = ?E"
    proof (rule source_events_sorted)
      have "sorted (map fill_order_key (drop (k x) (?fs x)))"
        using sorted(2) [OF x] by (simp add: drop_map [symmetric] sorted_wrt_drop)
      then show "sorted (map fill_order_key (window_fills (?P x) (k x) e))"
        unfolding window_fills_drop [OF sorted(1) [OF x]] by (rule sorted_filter)
      show "\<forall>ts. due_snapshot (?P x) e = Some ts \<longrightarrow> (\<forall>f \<in> set (window_fills (?P x) (k x) e). ts < pf_fill_ts_us f)"
        using anchored [OF x] unfolding window_fills_drop [OF sorted(1) [OF x]]
        by (auto simp: due_snapshot_def dest!: in_set_dropD split: option.splits if_splits)
    qed
    also have "filter (\<lambda>y. te_ts_us y < t) ?E
        = source_events i x (due_at x) (filter (\<lambda>f. pf_fill_ts_us f < t) (window_fills (?P x) (k x) e))"
      by (simp add: filter_source_events [of "\<lambda>u. u < t"] due_at_def)
    also have "filter (\<lambda>f. pf_fill_ts_us f < t) (window_fills (?P x) (k x) e) = filter (\<lambda>f. pf_fill_ts_us f < t) (drop (k x) (?fs x))"
      unfolding window_fills_drop [OF sorted(1) [OF x]] filter_filter using t by (intro filter_cong) auto
    finally show ?thesis .
  qed
  define fin where "fin i = projr (apply_fills (activate_snapshot_at t (S0 (xs ! i))) (filter (\<lambda>f. pf_fill_ts_us f < t) (?fs (xs ! i))))" for i
  have due_at: "\<forall>ts. due_at x = Some ts \<longrightarrow> pe_snapshot_ts_us (?P x) = Some ts \<and> ts \<le> t" for x
    by (auto simp: due_at_def due_snapshot_def split: option.splits if_splits)
  have fold: "rfold own_step (activate_snapshot_at t (s (xs ! i))) (own_events i (sort_key timeline_order_key (filter (\<lambda>y. te_ts_us y < t) (events k)))) = Inr (fin i)"
    if i: "i < length xs" and sk: "(s = S0 \<and> k = (\<lambda>_. 0)) \<or> (s = (\<lambda>x. resume_state (C x) start (S0 x)) \<and> k = ?k)" for i s k
  proof -
    let ?x = "xs ! i"
    obtain n where c: "replayed ?x n (C ?x)" and s0: "initial_timeline_state ?x (?P ?x) = Inr (S0 ?x)"
      using cur s0 nth_mem [OF i] by blast
    obtain r where r: "apply_fills (activate_snapshot_at t (S0 ?x)) (filter (\<lambda>f. pf_fill_ts_us f < t) (?fs ?x)) = Inr r"
      "apply_fills (activate_snapshot_at t (resume_state (C ?x) start (S0 ?x)))
          (filter (\<lambda>f. pf_fill_ts_us f < t) (drop (?k ?x) (?fs ?x))) = Inr r"
      using resumed_window(1) [OF c s0 start] by blast
    have "rt_snapshot_ts_us (s ?x) = pe_snapshot_ts_us (?P ?x)"
      using sk resume_snapshot [OF c s0] initial_state_fields [OF s0] by auto
    then show ?thesis
      unfolding own [OF i refl] using due_at [of ?x] r sk by (subst own_steps_source) (auto simp: fin_def)
  qed
  have index: "\<forall>y \<in> set (sort_key timeline_order_key (filter (\<lambda>y. te_ts_us y < t) (events k))). te_source_index y < length xs" for k
    by (auto simp: events_def in_set_enumerate_eq source_events_def split: option.splits)
  have "rfold apply_timeline_event (map (activate_snapshot_at t) (map s xs))
      (sort_key timeline_order_key (filter (\<lambda>y. te_ts_us y < t) (events k))) = Inr (map fin [0..<length xs])"
    if sk: "(s = S0 \<and> k = (\<lambda>_. 0)) \<or> (s = (\<lambda>x. resume_state (C x) start (S0 x)) \<and> k = ?k)" for s k
    using apply_events_by_source [of "sort_key timeline_order_key (filter (\<lambda>y. te_ts_us y < t) (events k))"
        "map (activate_snapshot_at t) (map s xs)" fin] index [of k] fold [OF _ sk] by simp
  then show "\<exists>final. rfold apply_timeline_event (map (activate_snapshot_at t) (map (\<lambda>x. resume_state (C x) start (S0 x)) xs))
          (sort_key timeline_order_key (filter (\<lambda>y. te_ts_us y < t) (events ?k))) = Inr final
       \<and> rfold apply_timeline_event (map (activate_snapshot_at t) (map S0 xs))
          (sort_key timeline_order_key (filter (\<lambda>y. te_ts_us y < t) (events (\<lambda>_. 0)))) = Inr final"
    by (intro exI conjI) blast+
qed

subsection \<open>The report\<close>

text \<open>A window of the timeline, once the sources are collected.\<close>

definition window_of_sources ::
    "nav_timeline_request \<Rightarrow> minute_marks option \<Rightarrow> source_config list \<Rightarrow> collected \<Rightarrow> nav_error + nav_timeline_report \<times> minute_marks option" where
  "window_of_sources q prices selected c =
     (let anchor = min_list_option (cl_anchors c);
          start_ts = resolved_start_ts_us q anchor;
          symbols = set_of_list (cl_symbols c)
      in rbind (rensure (start_ts \<le> tq_end_ts_us q) (SelectionError ''end timestamp before start'')) (\<lambda>_.
         rbind (select_timeline_symbols symbols (tq_selected_symbols q)) (\<lambda>selected_symbols.
         let events = sort_key timeline_order_key (cl_events c);
             split = partition_point (\<lambda>e. te_ts_us e < start_ts) events
         in rbind (open_window start_ts selected_symbols (set_of_list (cl_strategies c)) prices
                     (take split events) (cl_runtimes c)) (\<lambda>(w, run0).
            rbind (run_window w (case tq_tick_interval_us q of None \<Rightarrow> nav_tick_interval_us | Some i \<Rightarrow> i)
                     start_ts (tq_end_ts_us q) (drop split events) run0) (\<lambda>run.
            Inr (window_report q (map sc_id selected) (case anchor of None \<Rightarrow> start_ts | Some e \<Rightarrow> e) start_ts symbols prices w run,
                 tr_prices run))))))"

lemma timeline_of_sources:
  "rebuild_nav_timeline fp config q snapshots strategy_snapshots histories cached prices =
     rbind (rensure (0 \<le> tq_end_ts_us q) (SelectionError ''end timestamp must not be negative'')) (\<lambda>_.
     rbind (select_sources config (tq_selected_source_ids q)) (\<lambda>selected.
     rbind (selected_only selected (bm_keys snapshots) ''position snapshots contain unselected source'') (\<lambda>_.
     rbind (selected_only selected (bm_keys strategy_snapshots) ''strategy position snapshots contain unselected source'') (\<lambda>_.
     rbind (rfold (collect_source fp q snapshots strategy_snapshots histories cached)
              \<lparr>cl_runtimes = [], cl_events = [], cl_symbols = [], cl_strategies = [], cl_anchors = []\<rparr> selected)
       (window_of_sources q prices selected)))))"
  unfolding rebuild_nav_timeline_def window_of_sources_def Let_def ..

lemma resolved_start_ge: "tq_start_ts_us q = Some ts \<Longrightarrow> ts \<le> resolved_start_ts_us q anchor"
  by (auto simp: resolved_start_ts_us_def split: option.splits)

lemma window_of_sources_cong:
  assumes "cl_anchors c' = cl_anchors c" and "set (cl_symbols c') = set (cl_symbols c)" and "set (cl_strategies c') = set (cl_strategies c)"
    and t: "t = resolved_start_ts_us q (min_list_option (cl_anchors c))"
    and later: "t \<le> tq_end_ts_us q \<longrightarrow>
      filter (\<lambda>y. \<not> te_ts_us y < t) (cl_events c') = filter (\<lambda>y. \<not> te_ts_us y < t) (cl_events c)"
    and earlier: "t \<le> tq_end_ts_us q \<longrightarrow>
      rfold apply_timeline_event (map (activate_snapshot_at t) (cl_runtimes c')) (sort_key timeline_order_key (filter (\<lambda>y. te_ts_us y < t) (cl_events c')))
    = rfold apply_timeline_event (map (activate_snapshot_at t) (cl_runtimes c)) (sort_key timeline_order_key (filter (\<lambda>y. te_ts_us y < t) (cl_events c)))"
  shows "window_of_sources q prices selected c' = window_of_sources q prices selected c"
proof (cases "t \<le> tq_end_ts_us q")
  case True
  have open_eq: "open_window t symbols strategies prices (sort_key timeline_order_key (filter (\<lambda>y. te_ts_us y < t) (cl_events c'))) (cl_runtimes c')
      = open_window t symbols strategies prices (sort_key timeline_order_key (filter (\<lambda>y. te_ts_us y < t) (cl_events c))) (cl_runtimes c)" for symbols strategies
    using earlier True by (simp add: open_window_def)
  show ?thesis
    unfolding window_of_sources_def Let_def event_split set_of_list_cong [OF assms(2)] set_of_list_cong [OF assms(3)] assms(1) t [symmetric]
    using later True by (simp only: open_eq)
next
  case False
  then show ?thesis by (simp add: window_of_sources_def Let_def assms(1) t [symmetric])
qed

definition requested_source :: "nav_timeline_request \<Rightarrow> source_config \<Rightarrow> bool" where
  "requested_source q x \<longleftrightarrow> sc_enabled x \<and> (tq_selected_source_ids q = [] \<or> sc_id x \<in> set (tq_selected_source_ids q))"

lemma selected_requested:
  assumes "select_sources config (tq_selected_source_ids q) = Inr selected" and "x \<in> set selected"
  shows "x \<in> set config \<and> requested_source q x"
proof -
  let ?ids = "tq_selected_source_ids q"
  have empty: "set_of_list ids = [] \<longleftrightarrow> ids = []" for ids :: "string list" by (metis set_set_of_list set_empty)
  obtain u where r: "length (set_of_list ?ids) = length ?ids" "rfold (\<lambda>_ i. case find (\<lambda>s. sc_id s = i) config of
                None \<Rightarrow> Inl (SelectionError ''not configured'')
              | Some s \<Rightarrow> rensure (sc_enabled s) (SelectionError ''disabled'')) () (set_of_list ?ids) = Inr u"
    using assms(1) unfolding select_sources_def Let_def rbind_def by (auto split: sum.splits if_splits)
  have "selected = filter (\<lambda>s. sc_enabled s \<and> (?ids = [] \<or> sc_id s \<in> set ?ids)) config"
    using assms(1) unfolding select_sources_def Let_def r rbind_simps empty set_set_of_list by (metis (no_types) sum.inject(2) sum.distinct(1))
  then show ?thesis using assms(2) by (simp add: requested_source_def)
qed

lemma set_concat_map_cong: "(\<And>x. x \<in> set xs \<Longrightarrow> set (f x) = set (g x)) \<Longrightarrow> set (concat (map f xs)) = set (concat (map g xs))"
  by auto

lemma window_from_cache:
  assumes cur: "\<forall>x \<in> set config. requested_source q x \<longrightarrow>
      (\<exists>c. cache_current fp snapshots strategy_snapshots histories cache allocation x c)"
  shows "rebuild_nav_timeline fp config q snapshots strategy_snapshots histories (Some (cache, allocation)) prices
    = rebuild_nav_timeline fp config q snapshots strategy_snapshots histories None prices"
  unfolding timeline_of_sources
proof (intro rbind_cong_Inr)
  fix u selected v w
  assume sel: "select_sources config (tq_selected_source_ids q) = Inr selected"
  let ?acc = "\<lparr>cl_runtimes = [], cl_events = [], cl_symbols = [], cl_strategies = [], cl_anchors = []\<rparr>"
  let ?start = "tq_start_ts_us q" and ?e = "tq_end_ts_us q"
  have all: "\<forall>x \<in> set selected. \<exists>c. cache_current fp snapshots strategy_snapshots histories cache allocation x c"
    using cur selected_requested [OF sel] by blast
  obtain C where C: "\<forall>x \<in> set selected. cache_current fp snapshots strategy_snapshots histories cache allocation x (C x)"
    using bchoice [OF all] ..
  then have "\<forall>x \<in> set selected. \<exists>s0. initial_timeline_state x (cs_prepared (C x)) = Inr s0" using cache_current_start by blast
  from bchoice [OF this] obtain S0 where S0: "\<forall>x \<in> set selected. initial_timeline_state x (cs_prepared (C x)) = Inr (S0 x)" ..
  have cache: "\<forall>x \<in> set selected. \<exists>n. replayed x n (C x)" using C by (auto simp: cache_current_def)
  define t where "t = resolved_start_ts_us q (min_list_option (concat (map (\<lambda>x. option_list (source_anchor (cs_prepared (C x)) ?e)) selected)))"
  have start: "\<forall>ts. ?start = Some ts \<longrightarrow> ts \<le> t" using resolved_start_ge by (auto simp: t_def)
  note A = windows_agree [OF cache S0 start, where e = ?e]
  have cached: "rfold (collect_source fp q snapshots strategy_snapshots histories (Some (cache, allocation))) ?acc selected = Inr
     \<lparr>cl_runtimes = map (\<lambda>x. resume_state (C x) ?start (S0 x)) selected,
      cl_events = concat (map (\<lambda>(i, x). source_events i x (due_snapshot (cs_prepared (C x)) ?e)
          (window_fills (cs_prepared (C x)) (resume_fill (C x) ?start) ?e)) (enumerate 0 selected)),
      cl_symbols = concat (map (\<lambda>x. concat (map fst (source_names (cs_prepared (C x)) ?e (Some (C x))
          (window_fills (cs_prepared (C x)) (resume_fill (C x) ?start) ?e)))) selected),
      cl_strategies = concat (map (\<lambda>x. concat (map snd (source_names (cs_prepared (C x)) ?e (Some (C x))
          (window_fills (cs_prepared (C x)) (resume_fill (C x) ?start) ?e)))) selected),
      cl_anchors = concat (map (\<lambda>x. option_list (source_anchor (cs_prepared (C x)) ?e)) selected)\<rparr>"
    using collect_all [of selected "collect_source fp q snapshots strategy_snapshots histories (Some (cache, allocation))" ?e
        "\<lambda>x. cs_prepared (C x)" "\<lambda>x. resume_state (C x) ?start (S0 x)"
        "\<lambda>x. window_fills (cs_prepared (C x)) (resume_fill (C x) ?start) ?e" "\<lambda>x. Some (C x)" ?acc]
      collect_contributed(1) C S0 by simp
  have each: "\<forall>x \<in> set selected. \<forall>acc. collect_source fp q snapshots strategy_snapshots histories None acc x
      = Inr (contributed ?e (cs_prepared (C x)) (S0 x) (window_fills (cs_prepared (C x)) 0 ?e) None acc x)"
    using collect_contributed(2) C S0 by blast
  have plain: "rfold (collect_source fp q snapshots strategy_snapshots histories None) ?acc selected = Inr
     \<lparr>cl_runtimes = map S0 selected,
      cl_events = concat (map (\<lambda>(i, x). source_events i x (due_snapshot (cs_prepared (C x)) ?e)
          (window_fills (cs_prepared (C x)) 0 ?e)) (enumerate 0 selected)),
      cl_symbols = concat (map (\<lambda>x. concat (map fst (source_names (cs_prepared (C x)) ?e None (window_fills (cs_prepared (C x)) 0 ?e)))) selected),
      cl_strategies = concat (map (\<lambda>x. concat (map snd (source_names (cs_prepared (C x)) ?e None (window_fills (cs_prepared (C x)) 0 ?e)))) selected),
      cl_anchors = concat (map (\<lambda>x. option_list (source_anchor (cs_prepared (C x)) ?e)) selected)\<rparr>"
    using collect_all [of selected "collect_source fp q snapshots strategy_snapshots histories None" ?e
        "\<lambda>x. cs_prepared (C x)" S0 "\<lambda>x. window_fills (cs_prepared (C x)) 0 ?e" "\<lambda>_. None" ?acc, OF each] by simp
  have names: "set (concat (map (\<lambda>x. concat (map g (source_names (cs_prepared (C x)) ?e (Some (C x)) (window_fills (cs_prepared (C x)) (resume_fill (C x) ?start) ?e)))) selected))
      = set (concat (map (\<lambda>x. concat (map g (source_names (cs_prepared (C x)) ?e None (window_fills (cs_prepared (C x)) 0 ?e)))) selected))"
    if "g = fst \<or> g = snd" for g :: "string list \<times> string list \<Rightarrow> string list"
  proof (rule set_concat_map_cong)
    fix x assume "x \<in> set selected"
    then obtain n where c: "replayed x n (C x)" using cache by blast
    show "set (concat (map g (source_names (cs_prepared (C x)) ?e (Some (C x)) (window_fills (cs_prepared (C x)) (resume_fill (C x) ?start) ?e))))
      = set (concat (map g (source_names (cs_prepared (C x)) ?e None (window_fills (cs_prepared (C x)) 0 ?e))))"
      using that source_names_cached [OF c] by (elim disjE) (simp_all only:)
  qed
  show "rbind (rfold (collect_source fp q snapshots strategy_snapshots histories (Some (cache, allocation))) ?acc selected)
       (window_of_sources q prices selected)
    = rbind (rfold (collect_source fp q snapshots strategy_snapshots histories None) ?acc selected)
       (window_of_sources q prices selected)"
    unfolding cached plain rbind_simps
  proof (rule window_of_sources_cong [where t = t], goal_cases)
    case 5
    show ?case unfolding collected.simps by (intro impI A(1))
  next
    case 2
    show ?case unfolding collected.simps by (rule names) simp
  next
    case 3
    show ?case unfolding collected.simps by (rule names) simp
  next
    case 6
    show ?case unfolding collected.simps by (intro impI, drule A(2)) (elim exE conjE, simp only:)
  qed (simp_all only: collected.simps t_def)
qed

text \<open>
  C3: A timeline window served from the cache is the window computed from the records. If the cached
  generation of every requested source has followed that source's history - loaded with the ownership
  corrections the history carries, carried over or refreshed in place ever since - then the report,
  the error and the marks consumed are those of replaying each source from its opening position,
  whatever the window, the sources, their corrections, the sampling and the marks are; so starting at
  an hourly checkpoint in place of the beginning never shows.
\<close>

theorem cached_window_exact:
  assumes "\<forall>x \<in> set config. requested_source q x \<longrightarrow>
    (\<exists>c h n. bm_get cache (sc_id x, allocation) = Some c \<and> bm_get histories (sc_id x) = Some h
       \<and> kept_current fp x (bm_get snapshots (sc_id x)) (bm_get strategy_snapshots (sc_id x)) n h c)"
  shows "rebuild_nav_timeline fp config q snapshots strategy_snapshots histories (Some (cache, allocation)) prices
    = rebuild_nav_timeline fp config q snapshots strategy_snapshots histories None prices"
proof (rule window_from_cache, intro ballI impI)
  fix x assume "x \<in> set config" and "requested_source q x"
  then obtain c h n where c: "bm_get cache (sc_id x, allocation) = Some c" "bm_get histories (sc_id x) = Some h"
    and k: "kept_current fp x (bm_get snapshots (sc_id x)) (bm_get strategy_snapshots (sc_id x)) n h c"
    using assms by blast
  have "replayed x n c" using kept_reads [OF k] kept_timed [OF k] by (simp add: replayed_def)
  then show "\<exists>c. cache_current fp snapshots strategy_snapshots histories cache allocation x c"
    using c kept_reads [OF k] by (auto simp: cache_current_def)
qed

definition cached_request :: "i64 option \<Rightarrow> nav_timeline_request" where
  "cached_request start = \<lparr>tq_start_ts_us = start, tq_end_ts_us = 33, tq_selected_source_ids = [], tq_selected_symbols = [],
     tq_max_points = 100, tq_tick_interval_us = Some 10\<rparr>"

lemma sample_kept_now: "\<exists>c. kept_current fp (sample_source ''a'') None None 0 sample_history c"
proof -
  obtain c c' where c: "cached_refresh c (sample_source ''a'') sample_history 0 = Inr (Some c')"
    "build (sample_source ''a'') sample_prepared 0 = Inr c" using sample_refresh by blast
  let ?h = "sample_history\<lparr>nh_events := []\<rparr>"
  have "kept_current fp (sample_source ''a'') None None 0 ?h c"
    by (rule kept_current.loaded [OF _ _ _ c(2)]) (simp_all add: history_ok_def sample_prepared_def sample_history_def sample_reads [unfolded sample_prepared_def])
  moreover have "extends (nh_events ?h) (nh_liquidity_by_order ?h) sample_history sample_change" using sample_extends by (simp add: sample_history_def)
  ultimately have "kept_current fp (sample_source ''a'') None None 0 sample_history c'"
    by (rule kept_current.updated [OF _ sample_history_change _ _ c(1)]) (simp add: sample_history_def)
  then show ?thesis by blast
qed

theorem cached_window_exact_witness:
  "\<exists>c. kept_current (\<lambda>_. Inr '''') (sample_source ''a'') None None 0 sample_history c
     \<and> rebuild_nav_timeline (\<lambda>_. Inr '''') [sample_source ''a''] (cached_request (Some 20)) [] [] [(''a'', sample_history)]
         (Some ([((''a'', True), c)], True)) None
       = rebuild_nav_timeline (\<lambda>_. Inr '''') [sample_source ''a''] (cached_request (Some 20)) [] [] [(''a'', sample_history)] None None"
proof -
  obtain c where c: "kept_current (\<lambda>_. Inr '''') (sample_source ''a'') None None 0 sample_history c" using sample_kept_now by blast
  then show ?thesis
    by (intro exI [of _ c] conjI cached_window_exact) (auto simp: sample_source_def)
qed

end
