(* ===== verification/QueryCache.thy ===== *)
theory QueryCache
  imports OrdMap
begin

text \<open>
  The coalescing query cache (\<open>analysis.rs\<close>). An entry maps a key to the clock of its last use and to
  a shared cell that is written once with the outcome of the computation. The cells live in a store
  indexed by their identity, which is what \<open>Arc::ptr_eq\<close> compares. \<open>get_or_compute_if\<close> is three
  atomic sections: \<open>acquire\<close> under the locks, \<open>fill_cell\<close> which only the first caller of a cell gets
  to do, and \<open>settle\<close> under the lock again; threads interleave between them. The relation
  \<open>cache_run\<close> ranges over all interleavings and carries the handles the threads hold.
\<close>

subsection \<open>The cache\<close>

record ('k, 'v) query_cache =
  qc_entries :: "('k, nat \<times> nat) bmap"
  qc_clock :: nat
  qc_capacity :: nat
  qc_cells :: "nat \<Rightarrow> (string + 'v) option"
  qc_next :: nat

definition cache_new :: "nat \<Rightarrow> ('k, 'v) query_cache" where
  "cache_new capacity = \<lparr>qc_entries = [], qc_clock = 0, qc_capacity = capacity, qc_cells = (\<lambda>_. None), qc_next = 0\<rparr>"

definition next_clock :: "('k, 'v) query_cache \<Rightarrow> nat" where
  "next_clock s = (qc_clock s + 1) mod 2 ^ 64"

definition finished_entries :: "('k, 'v) query_cache \<Rightarrow> ('k \<times> nat \<times> nat) list" where
  "finished_entries s = filter (\<lambda>(_, _, cell). qc_cells s cell \<noteq> None) (qc_entries s)"

definition oldest_finished :: "('k, 'v) query_cache \<Rightarrow> 'k option" where
  "oldest_finished s = (case finished_entries s of [] \<Rightarrow> None
     | e # es \<Rightarrow> Some (fst (foldl (\<lambda>m x. if fst (snd x) < fst (snd m) then x else m) e es)))"

definition drop_entry :: "'k \<Rightarrow> ('k, 'v) query_cache \<Rightarrow> ('k, 'v) query_cache" where
  "drop_entry k s = s\<lparr>qc_entries := bm_remove k (qc_entries s)\<rparr>"

definition make_room :: "'k \<Rightarrow> ('k, 'v) query_cache \<Rightarrow> ('k, 'v) query_cache" where
  "make_room k s =
     (if \<not> bm_contains (qc_entries s) k \<and> qc_capacity s \<le> length (qc_entries s)
      then (case oldest_finished s of None \<Rightarrow> s | Some old \<Rightarrow> drop_entry old s) else s)"

definition acquire :: "'k::linorder \<Rightarrow> ('k, 'v) query_cache \<Rightarrow> nat \<times> ('k, 'v) query_cache" where
  "acquire k s0 =
     (let s = make_room k (s0\<lparr>qc_clock := next_clock s0\<rparr>)
      in case bm_get (qc_entries s) k of
           Some (_, cell) \<Rightarrow> (cell, s\<lparr>qc_entries := bm_insert k (qc_clock s, cell) (qc_entries s)\<rparr>)
         | None \<Rightarrow> (qc_next s, s\<lparr>qc_entries := bm_insert k (qc_clock s, qc_next s) (qc_entries s), qc_next := qc_next s + 1\<rparr>))"

definition fill_cell :: "nat \<Rightarrow> string + 'v \<Rightarrow> ('k, 'v) query_cache \<Rightarrow> ('k, 'v) query_cache" where
  "fill_cell cell r s = (if qc_cells s cell = None then s\<lparr>qc_cells := (qc_cells s)(cell \<mapsto> r)\<rparr> else s)"

definition drop_own :: "'k \<Rightarrow> nat \<Rightarrow> ('k, 'v) query_cache \<Rightarrow> ('k, 'v) query_cache" where
  "drop_own k cell s =
     (case bm_get (qc_entries s) k of None \<Rightarrow> s
      | Some (_, c) \<Rightarrow> if c = cell then drop_entry k s else s)"

lemma oldest_finished_Some:
  assumes "oldest_finished s = Some k"
  shows "\<exists>u c. (k, u, c) \<in> set (qc_entries s) \<and> qc_cells s c \<noteq> None"
proof -
  obtain e es where es: "finished_entries s = e # es"
    and k: "k = fst (foldl (\<lambda>m x. if fst (snd x) < fst (snd m) then x else m) e es)"
    using assms by (auto simp: oldest_finished_def split: list.splits)
  define m where "m = foldl (\<lambda>m x. if fst (snd x) < fst (snd m) then x else m) e es"
  have "m \<in> set (e # es)" unfolding m_def by (induction es rule: rev_induct) auto
  then have "m \<in> set (finished_entries s)" using es by simp
  moreover obtain a u c where "m = (a, u, c)" by (cases m)
  ultimately show ?thesis using k by (auto simp: finished_entries_def m_def [symmetric])
qed

lemma length_remove_member: "(k, v) \<in> set m \<Longrightarrow> length (bm_remove k m) < length m"
  unfolding bm_remove_def by (rule length_filter_less) auto

function evict :: "('k, 'v) query_cache \<Rightarrow> ('k, 'v) query_cache" where
  "evict s =
     (if qc_capacity s < length (qc_entries s)
      then (case oldest_finished s of None \<Rightarrow> s | Some old \<Rightarrow> evict (drop_entry old s)) else s)"
  by pat_completeness auto
termination
  by (relation "measure (\<lambda>s. length (qc_entries s))")
    (auto simp: drop_entry_def dest!: oldest_finished_Some length_remove_member)

declare evict.simps [simp del]

definition settle :: "'k \<Rightarrow> nat \<Rightarrow> ('v \<Rightarrow> bool) \<Rightarrow> ('k, 'v) query_cache \<Rightarrow> (string + 'v) option \<times> ('k, 'v) query_cache" where
  "settle k cell retain s =
     (case qc_cells s cell of
        None \<Rightarrow> (None, s)
      | Some (Inr v) \<Rightarrow> (Some (Inr v), evict (if retain v then s else drop_own k cell s))
      | Some (Inl e) \<Rightarrow> (Some (Inl e), drop_own k cell s))"

definition cache_get :: "'k::linorder \<Rightarrow> ('k, 'v) query_cache \<Rightarrow> 'v option \<times> ('k, 'v) query_cache" where
  "cache_get k s =
     (case bm_get (qc_entries s) k of None \<Rightarrow> (None, s)
      | Some (_, cell) \<Rightarrow> (case qc_cells s cell of
            Some (Inr v) \<Rightarrow> (Some v, s\<lparr>qc_clock := next_clock s,
                                      qc_entries := bm_insert k (next_clock s, cell) (qc_entries s)\<rparr>)
          | _ \<Rightarrow> (None, s)))"

text \<open>A call that is not interleaved with others.\<close>

definition get_or_compute_if ::
    "'k::linorder \<Rightarrow> (string + 'v) \<Rightarrow> ('v \<Rightarrow> bool) \<Rightarrow> ('k, 'v) query_cache \<Rightarrow> (string + 'v) option \<times> ('k, 'v) query_cache" where
  "get_or_compute_if k outcome retain s =
     (let (cell, s1) = acquire k s in settle k cell retain (fill_cell cell outcome s1))"

definition get_or_compute ::
    "'k::linorder \<Rightarrow> (string + 'v) \<Rightarrow> ('k, 'v) query_cache \<Rightarrow> (string + 'v) option \<times> ('k, 'v) query_cache" where
  "get_or_compute k outcome s = get_or_compute_if k outcome (\<lambda>_. True) s"

subsection \<open>Interleavings\<close>

inductive cache_run :: "('k::linorder \<Rightarrow> string + 'v) \<Rightarrow> ('k, 'v) query_cache \<Rightarrow> ('k \<times> nat) set \<Rightarrow> bool" for f where
  created: "cache_run f (cache_new capacity) {}"
| acquiring: "cache_run f s held \<Longrightarrow> acquire k s = (cell, s') \<Longrightarrow> cache_run f s' (insert (k, cell) held)"
| computing: "cache_run f s held \<Longrightarrow> (k, cell) \<in> held \<Longrightarrow> cache_run f (fill_cell cell (f k) s) held"
| settling: "cache_run f s held \<Longrightarrow> (k, cell) \<in> held \<Longrightarrow> settle k cell retain s = (r, s') \<Longrightarrow> cache_run f s' held"
| reading: "cache_run f s held \<Longrightarrow> cache_get k s = (v, s') \<Longrightarrow> cache_run f s' held"

definition cache_ok :: "('k::linorder \<Rightarrow> string + 'v) \<Rightarrow> ('k, 'v) query_cache \<Rightarrow> ('k \<times> nat) set \<Rightarrow> bool" where
  "cache_ok f s held \<longleftrightarrow>
     bm_wf (qc_entries s)
     \<and> (\<forall>k u c. bm_get (qc_entries s) k = Some (u, c) \<longrightarrow> (k, c) \<in> held)
     \<and> (\<forall>k c. (k, c) \<in> held \<longrightarrow> c < qc_next s \<and> (\<forall>r. qc_cells s c = Some r \<longrightarrow> r = f k) \<and> (\<forall>k'. (k', c) \<in> held \<longrightarrow> k' = k))
     \<and> (\<forall>c. qc_next s \<le> c \<longrightarrow> qc_cells s c = None)"

lemma drop_entry_fields [simp]:
  "qc_cells (drop_entry k s) = qc_cells s" "qc_next (drop_entry k s) = qc_next s" "qc_clock (drop_entry k s) = qc_clock s"
  "qc_capacity (drop_entry k s) = qc_capacity s"
  "bm_get (qc_entries (drop_entry k s)) k' = (if k' = k then None else bm_get (qc_entries s) k')"
  by (simp_all add: drop_entry_def)

text \<open>An operation that only removes entries keeps the invariant.\<close>

definition shrinks :: "('k::linorder, 'v) query_cache \<Rightarrow> ('k, 'v) query_cache \<Rightarrow> bool" where
  "shrinks s s' \<longleftrightarrow> qc_cells s' = qc_cells s \<and> qc_next s' = qc_next s \<and> qc_capacity s' = qc_capacity s
     \<and> (bm_wf (qc_entries s) \<longrightarrow> bm_wf (qc_entries s'))
     \<and> (\<forall>k. bm_get (qc_entries s') k = None \<or> bm_get (qc_entries s') k = bm_get (qc_entries s) k)"

text \<open>An entry in flight survives every step but those of its own settled cell.\<close>

definition keeps_flying :: "('k::linorder, 'v) query_cache \<Rightarrow> ('k, 'v) query_cache \<Rightarrow> bool" where
  "keeps_flying s s' \<longleftrightarrow> (\<forall>k u c. bm_get (qc_entries s) k = Some (u, c) \<and> qc_cells s c = None \<longrightarrow>
     (\<exists>u'. bm_get (qc_entries s') k = Some (u', c)))"

lemma shrinks_refl [simp]: "shrinks s s" and flying_refl [simp]: "keeps_flying s s"
  by (simp_all add: shrinks_def keeps_flying_def)

lemma shrinks_ok: "cache_ok f s held \<Longrightarrow> shrinks s s' \<Longrightarrow> cache_ok f s' held"
  unfolding cache_ok_def shrinks_def by (metis option.distinct(1))

lemma drop_entry_shrinks: "shrinks s (drop_entry k s)"
  by (simp add: shrinks_def) (simp add: drop_entry_def)

lemma drop_finished_flying:
  assumes "bm_wf (qc_entries s)" and "oldest_finished s = Some k"
  shows "keeps_flying s (drop_entry k s)"
  using oldest_finished_Some [OF assms(2)] bm_get_mem [OF assms(1)] by (force simp: keeps_flying_def)

lemma evict_facts: "bm_wf (qc_entries s) \<Longrightarrow> shrinks s (evict s) \<and> keeps_flying s (evict s)
    \<and> (length (qc_entries (evict s)) \<le> qc_capacity s \<or> finished_entries (evict s) = [])"
proof (induction s rule: evict.induct)
  case (1 s)
  show ?case
  proof (cases "qc_capacity s < length (qc_entries s)")
    case False
    then show ?thesis by (subst (1 2 3 4) evict.simps) simp
  next
    case over: True
    show ?thesis
    proof (cases "oldest_finished s")
      case None
      then have "finished_entries s = []" by (simp add: oldest_finished_def split: list.splits)
      then show ?thesis using None over by (subst (1 2 3 4) evict.simps) simp
    next
      case (Some old)
      have e: "evict s = evict (drop_entry old s)" using over Some by (subst evict.simps) simp
      have wf: "bm_wf (qc_entries (drop_entry old s))" using "1.prems" by (simp add: drop_entry_def)
      note I = "1.IH" [OF over Some wf]
      note D = drop_entry_shrinks [of s old] and F = drop_finished_flying [OF "1.prems" Some]
      have "shrinks s (evict (drop_entry old s))"
        using I D unfolding shrinks_def by (metis)
      moreover have "keeps_flying s (evict (drop_entry old s))"
        using I F unfolding keeps_flying_def by (metis drop_entry_fields(1))
      ultimately show ?thesis using I unfolding e by simp
    qed
  qed
qed

lemma drop_own_facts:
  "shrinks s (drop_own k cell s)" "qc_cells s cell \<noteq> None \<Longrightarrow> keeps_flying s (drop_own k cell s)"
  using drop_entry_shrinks [of s k]
  by (auto simp: drop_own_def keeps_flying_def split: option.splits)

lemma shrinks_trans: "shrinks s t \<Longrightarrow> shrinks t u \<Longrightarrow> shrinks s u"
  unfolding shrinks_def by metis

lemma flying_trans: "keeps_flying s t \<Longrightarrow> qc_cells t = qc_cells s \<Longrightarrow> keeps_flying t u \<Longrightarrow> keeps_flying s u"
  unfolding keeps_flying_def by metis

lemma settle_facts:
  assumes "settle k cell retain s = (r, s')" and "bm_wf (qc_entries s)"
  shows "shrinks s s' \<and> keeps_flying s s' \<and> r = qc_cells s cell"
proof (cases "qc_cells s cell")
  case None
  then show ?thesis using assms(1) by (auto simp: settle_def)
next
  case (Some outcome)
  note D = drop_own_facts(1) [of s k cell] drop_own_facts(2) [of s cell k]
  show ?thesis
  proof (cases outcome)
    case (Inl e)
    then have "r = Some (Inl e)" "s' = drop_own k cell s" using assms(1) Some by (simp_all add: settle_def)
    then show ?thesis using Inl Some D by simp
  next
    case (Inr v)
    define t where "t = (if retain v then s else drop_own k cell s)"
    have t: "shrinks s t" "keeps_flying s t" using D Some by (auto simp: t_def)
    then have "bm_wf (qc_entries t)" "qc_cells t = qc_cells s" using assms(2) by (auto simp: shrinks_def)
    then have "shrinks t (evict t)" "keeps_flying t (evict t)" using evict_facts by blast+
    then have "shrinks s (evict t)" "keeps_flying s (evict t)"
      using shrinks_trans [OF t(1)] flying_trans [OF t(2)] \<open>qc_cells t = qc_cells s\<close> by blast+
    then show ?thesis using assms(1) Some Inr by (auto simp: settle_def t_def)
  qed
qed

lemma make_room_facts:
  assumes "bm_wf (qc_entries s)"
  shows "shrinks s (make_room k s)" and "keeps_flying s (make_room k s)" and "qc_clock (make_room k s) = qc_clock s"
    and "bm_contains (qc_entries s) k \<Longrightarrow> make_room k s = s"
  using drop_entry_shrinks [of s] drop_finished_flying [OF assms] by (auto simp: make_room_def split: option.splits)

lemma acquire_facts:
  assumes "acquire k s = (cell, s')" and "cache_ok f s held"
  shows "cache_ok f s' (insert (k, cell) held) \<and> keeps_flying s s'
    \<and> (\<forall>u c. bm_get (qc_entries s) k = Some (u, c) \<longrightarrow> cell = c)
    \<and> qc_cells s' = qc_cells s"
proof -
  define s1 where "s1 = s\<lparr>qc_clock := next_clock s\<rparr>"
  define t where "t = make_room k s1"
  have ok1: "cache_ok f s1 held" using assms(2) by (simp add: cache_ok_def s1_def)
  then have wf: "bm_wf (qc_entries s1)" by (simp add: cache_ok_def)
  note M = make_room_facts [OF wf, of k, folded t_def]
  have okt: "cache_ok f t held" by (rule shrinks_ok [OF ok1 M(1)])
  have fields: "qc_cells t = qc_cells s" using M(1) by (simp add: shrinks_def s1_def)
  have fly: "keeps_flying s t" using M(2) by (simp add: keeps_flying_def s1_def)
  have same: "t = s1" if "bm_get (qc_entries s) k = Some e" for e
    using M(4) that by (simp add: bm_contains_def s1_def)
  show ?thesis
  proof (cases "bm_get (qc_entries t) k")
    case None
    then have r: "cell = qc_next t" "s' = t\<lparr>qc_entries := bm_insert k (qc_clock t, qc_next t) (qc_entries t), qc_next := qc_next t + 1\<rparr>"
      using assms(1) unfolding acquire_def Let_def s1_def [symmetric] t_def [symmetric] by auto
    have absent: "bm_get (qc_entries s) k = None" using same None by (cases "bm_get (qc_entries s) k") (auto simp: s1_def)
    have "cache_ok f s' (insert (k, cell) held)"
      using okt unfolding cache_ok_def r by (auto simp: less_Suc_eq)
    moreover have "keeps_flying s s'"
      using fly absent unfolding keeps_flying_def r by auto
    ultimately show ?thesis using absent fields by (simp add: r)
  next
    case (Some e)
    obtain u c where e: "e = (u, c)" by (cases e)
    then have r: "cell = c" "s' = t\<lparr>qc_entries := bm_insert k (qc_clock t, c) (qc_entries t)\<rparr>"
      using assms(1) Some unfolding acquire_def Let_def s1_def [symmetric] t_def [symmetric] by auto
    have held: "(k, c) \<in> held" using okt Some e by (auto simp: cache_ok_def)
    have "cache_ok f s' (insert (k, cell) held)"
      using okt held unfolding cache_ok_def r by (auto simp: insert_absorb)
    moreover have c: "c' = c" if "bm_get (qc_entries s) k = Some (u', c')" for u' c'
      using same [OF that] that Some e by (simp add: s1_def)
    then have "keeps_flying s s'"
      unfolding keeps_flying_def
    proof (intro allI impI)
      fix k' u' c'
      assume a: "bm_get (qc_entries s) k' = Some (u', c') \<and> qc_cells s c' = None"
      show "\<exists>u'. bm_get (qc_entries s') k' = Some (u', c')"
      proof (cases "k' = k")
        case True
        then show ?thesis using c a by (auto simp: r)
      next
        case False
        then show ?thesis using fly a unfolding keeps_flying_def r by auto
      qed
    qed
    ultimately show ?thesis using c fields by (auto simp: r)
  qed
qed

lemma cache_get_facts:
  assumes "cache_get k s = (v, s')" and "cache_ok f s held"
  shows "cache_ok f s' held \<and> keeps_flying s s' \<and> (\<forall>x. v = Some x \<longrightarrow> f k = Inr x)"
proof (cases "bm_get (qc_entries s) k")
  case None
  then show ?thesis using assms by (simp add: cache_get_def)
next
  case (Some e)
  obtain u c where e: "e = (u, c)" by (cases e)
  have held: "(k, c) \<in> held" using assms(2) Some e by (auto simp: cache_ok_def)
  show ?thesis
  proof (cases "\<exists>x. qc_cells s c = Some (Inr x)")
    case False
    then have "v = None \<and> s' = s" using assms(1) Some e by (auto simp: cache_get_def split: option.splits sum.splits)
    then show ?thesis using assms(2) by simp
  next
    case True
    then obtain x where x: "qc_cells s c = Some (Inr x)" by blast
    then have r: "v = Some x" "s' = s\<lparr>qc_clock := next_clock s, qc_entries := bm_insert k (next_clock s, c) (qc_entries s)\<rparr>"
      using assms(1) Some e by (auto simp: cache_get_def)
    have "f k = Inr x" using assms(2) held x unfolding cache_ok_def by fastforce
    moreover have "cache_ok f s' held" using assms(2) held unfolding cache_ok_def r by auto
    moreover have "keeps_flying s s'" using Some e unfolding keeps_flying_def r by auto
    ultimately show ?thesis using r by simp
  qed
qed

lemma fill_ok: "cache_ok f s held \<Longrightarrow> (k, cell) \<in> held \<Longrightarrow> cache_ok f (fill_cell cell (f k) s) held"
  unfolding cache_ok_def fill_cell_def by (auto split: if_splits) (metis leD)+

lemma cache_run_ok: "cache_run f s held \<Longrightarrow> cache_ok f s held"
proof (induction rule: cache_run.induct)
  case (created capacity)
  show ?case by (simp add: cache_ok_def cache_new_def)
next
  case (settling s held k cell retain r s')
  then have "bm_wf (qc_entries s)" by (simp add: cache_ok_def)
  then show ?case using settle_facts [OF settling.hyps(3)] settling.IH shrinks_ok by blast
qed (auto dest: acquire_facts cache_get_facts fill_ok)

text \<open>One caller of a cache of capacity one.\<close>

definition flying_cache :: "(nat, nat) query_cache" where
  "flying_cache = snd (acquire 5 (cache_new 1))"

lemma flying_acquired: "acquire 5 (cache_new 1) = (0, flying_cache)"
  by (simp add: flying_cache_def acquire_def make_room_def cache_new_def next_clock_def Let_def)

lemma flying_entry: "bm_get (qc_entries flying_cache) 5 = Some (1, 0)" "qc_cells flying_cache 0 = None"
  by (simp_all add: flying_cache_def acquire_def make_room_def cache_new_def next_clock_def Let_def)

lemma flying_run: "cache_run Inr flying_cache {(5, 0)}"
  using cache_run.acquiring [OF cache_run.created flying_acquired, of Inr] by simp

lemma filled_run: "cache_run Inr (fill_cell 0 (Inr 5) flying_cache) {(5, 0)}"
  using cache_run.computing [OF flying_run, of 5 0] by simp

text \<open>
  C35: The cache is transparent under every interleaving of its callers: whatever a caller is handed -
  when it settles the cell it acquired, or when it only looks - is the outcome of its own query, and a
  cell in the cache is only ever shared by callers of the same query.
\<close>

theorem cache_transparent:
  assumes "cache_run f s held"
  shows "((k, cell) \<in> held \<longrightarrow> fst (settle k cell retain s) \<in> {None, Some (f k)})
    \<and> (fst (cache_get k s) = Some v \<longrightarrow> f k = Inr v)
    \<and> ((k, cell) \<in> held \<and> (k', cell) \<in> held \<longrightarrow> k' = k)"
proof -
  have ok: "cache_ok f s held" by (rule cache_run_ok [OF assms])
  then have wf: "bm_wf (qc_entries s)" by (simp add: cache_ok_def)
  obtain r s1 where r: "settle k cell retain s = (r, s1)" by (cases "settle k cell retain s")
  obtain v' s2 where g: "cache_get k s = (v', s2)" by (cases "cache_get k s")
  have "r \<in> {None, Some (f k)}" if "(k, cell) \<in> held"
  proof (cases r)
    case (Some a)
    then have "qc_cells s cell = Some a" using settle_facts [OF r wf] by simp
    then have "a = f k" using ok that unfolding cache_ok_def by blast
    then show ?thesis using Some by simp
  qed simp
  then show ?thesis
    using cache_get_facts [OF g ok] ok by (auto simp: r g cache_ok_def)
qed

theorem cache_transparent_witness:
  "fst (settle 5 0 (\<lambda>_. True) (fill_cell 0 (Inr 5) flying_cache)) = Some (Inr (5 :: nat))"
proof -
  have "qc_cells (fill_cell 0 (Inr 5) flying_cache) 0 = Some (Inr 5)" by (simp add: fill_cell_def flying_entry)
  then have "fst (settle 5 0 (\<lambda>_. True) (fill_cell 0 (Inr 5) flying_cache)) \<noteq> None" by (simp add: settle_def)
  then show ?thesis using cache_transparent [OF filled_run, of 5 0 "\<lambda>_. True"] by auto
qed

text \<open>
  C36: Work is never duplicated or lost: while a query is being computed, no operation of any caller
  evicts its entry, everybody who asks for it meanwhile gets the same cell, and the cell is written once.
\<close>

theorem cache_single_flight:
  assumes "cache_run f s held" and "bm_get (qc_entries s) k = Some (u, cell)" and "qc_cells s cell = None"
  shows "fst (acquire k s) = cell
    \<and> (\<exists>u'. bm_get (qc_entries (snd (acquire k' s))) k = Some (u', cell))
    \<and> (\<exists>u'. bm_get (qc_entries (snd (settle k' cell' retain s))) k = Some (u', cell))
    \<and> (\<exists>u'. bm_get (qc_entries (snd (cache_get k' s))) k = Some (u', cell))
    \<and> fill_cell cell r' (fill_cell cell r s) = fill_cell cell r s"
proof -
  have ok: "cache_ok f s held" by (rule cache_run_ok [OF assms(1)])
  then have wf: "bm_wf (qc_entries s)" by (simp add: cache_ok_def)
  have fly: "\<exists>u'. bm_get (qc_entries t) k = Some (u', cell)" if "keeps_flying s t" for t
    using that assms(2,3) unfolding keeps_flying_def by blast
  have "keeps_flying s (snd (acquire k' s))" "keeps_flying s (snd (settle k' cell' retain s))" "keeps_flying s (snd (cache_get k' s))"
    using acquire_facts [OF surjective_pairing ok] settle_facts [OF surjective_pairing wf] cache_get_facts [OF surjective_pairing ok]
    by blast+
  moreover have "fst (acquire k s) = cell"
    using acquire_facts [OF surjective_pairing ok] assms(2) by blast
  ultimately show ?thesis using fly assms(3) by (simp add: fill_cell_def)
qed

theorem cache_single_flight_witness:
  "fst (acquire 5 flying_cache) = 0 \<and> (\<exists>u. bm_get (qc_entries (snd (acquire 6 flying_cache))) 5 = Some (u, 0))"
  using cache_single_flight [OF flying_run flying_entry, of 6] by blast

text \<open>
  The cache stays within its capacity: once a caller has settled a result, either no more entries
  than the capacity are left, or every entry left is still being computed.
\<close>

theorem cache_bounded:
  assumes "cache_run f s held" and "settle k cell retain s = (Some (Inr v), s')"
  shows "length (qc_entries s') \<le> qc_capacity s' \<or> finished_entries s' = []"
proof -
  have wf: "bm_wf (qc_entries s)" using cache_run_ok [OF assms(1)] by (simp add: cache_ok_def)
  define t where "t = (if retain v then s else drop_own k cell s)"
  have s': "s' = evict t" using assms(2) by (auto simp: settle_def t_def split: option.splits sum.splits)
  have "shrinks s t" using drop_own_facts(1) [of s k cell] by (simp add: t_def)
  then have "bm_wf (qc_entries t)" using wf by (simp add: shrinks_def)
  from evict_facts [OF this] show ?thesis by (auto simp: s' shrinks_def)
qed

theorem cache_bounded_witness:
  "\<exists>s. settle 5 0 (\<lambda>_. True) (fill_cell 0 (Inr 5) flying_cache) = (Some (Inr (5 :: nat)), s)
     \<and> (length (qc_entries s) \<le> qc_capacity s \<or> finished_entries s = [])"
proof -
  have "qc_cells (fill_cell 0 (Inr 5) flying_cache) 0 = Some (Inr 5)" by (simp add: fill_cell_def flying_entry)
  then have "\<exists>s. settle 5 0 (\<lambda>_. True) (fill_cell 0 (Inr 5) flying_cache) = (Some (Inr (5 :: nat)), s)" by (simp add: settle_def)
  then show ?thesis using cache_bounded [OF filled_run] by blast
qed

end
