(* ===== verification/NavCache.thy ===== *)
theory NavCache
  imports CachedWindow QueryCache "HOL-Library.Option_ord"
begin

text \<open>
  One dashboard generation (\<open>NavTimelineCache\<close> of \<open>nav.rs\<close>): the cached replay of every enabled
  source in both allocation modes, refreshed as a whole from the previous generation, with the
  window results that unchanged sources let it share. An \<open>Arc\<close> is an address and a value: what
  \<open>Arc::ptr_eq\<close> compares is the address, and \<open>Arc::new\<close> takes one that no live generation uses. The
  results cache is shared by reference between generations, so a generation holds its address and
  the caches live in a store. Of the errors the sources of a refresh raise in parallel the first in
  order is reported. \<open>PartialEq\<close> on floats is equality: NaN is refused by the validation of everything
  compared here before an entry exists.
\<close>

subsection \<open>Data\<close>

record timeline_source_inputs =
  ti_allocations :: "allocation_snapshot list"
  ti_snapshot :: "position_snapshot option"
  ti_strategy :: "strategy_position_snapshot option"
  ti_fees :: fee_rates
  ti_account :: string
  ti_venue :: string

datatype timeline_cache_key = TimelineCacheKey
  (ck_start: "i64 option") (ck_end: i64) (ck_sources: "string list") (ck_symbols: "string list")
  (ck_max_points: nat) (ck_tick_interval_us: "i64 option") (ck_strategy_allocation: bool)
  (ck_minute_marks_revision: "nat option")

definition key_fields ::
    "timeline_cache_key \<Rightarrow> i64 option \<times> i64 \<times> string list \<times> string list \<times> nat \<times> i64 option \<times> bool \<times> nat option" where
  "key_fields k = (ck_start k, ck_end k, ck_sources k, ck_symbols k, ck_max_points k, ck_tick_interval_us k,
     ck_strategy_allocation k, ck_minute_marks_revision k)"

lemma key_fields_inject: "key_fields k = key_fields l \<Longrightarrow> k = l"
  by (cases k; cases l) (simp add: key_fields_def)

text \<open>The derived order compares the fields in the order of their declaration.\<close>

instantiation timeline_cache_key :: linorder
begin

definition less_eq_timeline_cache_key :: "timeline_cache_key \<Rightarrow> timeline_cache_key \<Rightarrow> bool" where
  "less_eq_timeline_cache_key k l \<longleftrightarrow> key_fields k \<le> key_fields l"

definition less_timeline_cache_key :: "timeline_cache_key \<Rightarrow> timeline_cache_key \<Rightarrow> bool" where
  "less_timeline_cache_key k l \<longleftrightarrow> key_fields k < key_fields l"

instance
  by standard (auto simp: less_eq_timeline_cache_key_def less_timeline_cache_key_def intro: key_fields_inject)

end

type_synonym results = "(timeline_cache_key, nav_timeline_report) query_cache"

record nav_cache =
  nc_config :: "source_config list"
  nc_snapshots :: snapshots
  nc_strategy_snapshots :: strategy_snapshots
  nc_histories_at :: nat
  nc_histories :: histories
  nc_sources :: "(string \<times> bool, nat \<times> cached_source) bmap"
  nc_inputs :: "(string \<times> bool, timeline_source_inputs) bmap"
  nc_results :: nat
  nc_mark_plans :: nat
  nc_next :: nat

subsection \<open>Refreshing a generation\<close>

text \<open>A strategy snapshot anchors a source unless the account snapshot is later.\<close>

definition anchors_strategy :: "snapshots \<Rightarrow> strategy_snapshots \<Rightarrow> source_config \<Rightarrow> bool" where
  "anchors_strategy snapshots strategy_snapshots source =
     (case bm_get strategy_snapshots (sc_id source) of None \<Rightarrow> False
      | Some t \<Rightarrow> (case bm_get snapshots (sc_id source) of None \<Rightarrow> True
                   | Some s \<Rightarrow> ps_snapshot_ts_us s \<le> ts_snapshot_ts_us t))"

definition timeline_work :: "source_config list \<Rightarrow> snapshots \<Rightarrow> strategy_snapshots \<Rightarrow> (source_config \<times> bool) list" where
  "timeline_work config snapshots strategy_snapshots =
     concat (map (\<lambda>source. (source, False) # (if anchors_strategy snapshots strategy_snapshots source then [(source, True)] else []))
       (filter sc_enabled config))"

definition source_inputs ::
    "source_config \<Rightarrow> nav_source_history \<Rightarrow> position_snapshot option \<Rightarrow> strategy_position_snapshot option
      \<Rightarrow> nav_error + timeline_source_inputs" where
  "source_inputs source h snapshot strategy =
     rbind (rmap_err NavConfig (nav_fee_rates source)) (\<lambda>fees.
     Inr \<lparr>ti_allocations = nh_allocations h, ti_snapshot = snapshot, ti_strategy = strategy, ti_fees = fees,
          ti_account = display_name source, ti_venue = sc_venue source\<rparr>)"

definition position_count :: "position_snapshot option \<Rightarrow> nat" where
  "position_count effective = (case effective of None \<Rightarrow> 0 | Some s \<Rightarrow> length (ps_positions s))"

text \<open>The entry of the previous generation that may be carried over: same inputs, and its history.\<close>

definition previous_entry ::
    "nav_cache option \<Rightarrow> string \<times> bool \<Rightarrow> timeline_source_inputs \<Rightarrow> (nat \<times> cached_source \<times> nav_source_history) option" where
  "previous_entry previous key inputs =
     (case previous of None \<Rightarrow> None
      | Some g \<Rightarrow>
          if bm_get (nc_inputs g) key \<noteq> Some inputs then None
          else (case (bm_get (nc_sources g) key, bm_get (nc_histories g) (fst key)) of
                  (Some (old_at, old), Some old_h) \<Rightarrow> Some (old_at, old, old_h)
                | _ \<Rightarrow> None))"

definition same_histories :: "nav_cache option \<Rightarrow> nat \<Rightarrow> bool" where
  "same_histories previous histories_at = (case previous of None \<Rightarrow> False | Some g \<Rightarrow> nc_histories_at g = histories_at)"

definition history_unchanged :: "bool \<Rightarrow> nav_source_history \<Rightarrow> nav_source_history \<Rightarrow> bool" where
  "history_unchanged same old_h h \<longleftrightarrow> same \<or> (nh_revision h \<noteq> 0 \<and> nh_revision h = nh_revision old_h)"

definition history_follows :: "nav_source_history \<Rightarrow> nav_source_history \<Rightarrow> bool" where
  "history_follows old_h h \<longleftrightarrow>
     (case nh_change h of None \<Rightarrow> False
      | Some change \<Rightarrow> hc_previous_revision change = nh_revision old_h \<and> (nh_revision old_h \<noteq> 0 \<or> nh_events old_h = []))"

definition load_entry ::
    "fingerprint \<Rightarrow> source_config \<Rightarrow> nav_source_history \<Rightarrow> position_snapshot option \<Rightarrow> strategy_position_snapshot option \<Rightarrow> nat
      \<Rightarrow> nav_error + cached_source" where
  "load_entry fp source h snapshot strategy n =
     rbind (prepare_source_events fp source (nh_events h) snapshot strategy (nh_liquidity_by_order h) (nh_allocations h))
       (\<lambda>p. build source p n)"

definition renew_entry ::
    "fingerprint \<Rightarrow> source_config \<Rightarrow> nav_source_history \<Rightarrow> position_snapshot option \<Rightarrow> strategy_position_snapshot option \<Rightarrow> nat
      \<Rightarrow> bool \<Rightarrow> (nat \<times> cached_source \<times> nav_source_history) option \<Rightarrow> nat \<Rightarrow> nav_error + nat \<times> cached_source" where
  "renew_entry fp source h snapshot strategy n same previous address =
     (let load = rmap (Pair address) (load_entry fp source h snapshot strategy n)
      in case previous of None \<Rightarrow> load
         | Some (old_at, old, old_h) \<Rightarrow>
             if history_unchanged same old_h h then Inr (old_at, old)
             else if history_follows old_h h
             then rbind (cached_refresh old source h n) (\<lambda>updated.
                    case updated of Some c \<Rightarrow> Inr (address, c) | None \<Rightarrow> load)
             else load)"

definition refresh_entry ::
    "fingerprint \<Rightarrow> snapshots \<Rightarrow> strategy_snapshots \<Rightarrow> nat \<Rightarrow> histories \<Rightarrow> nav_cache option \<Rightarrow> nat \<times> source_config \<times> bool
      \<Rightarrow> nav_error + (string \<times> bool) \<times> (nat \<times> cached_source) \<times> timeline_source_inputs" where
  "refresh_entry fp snapshots strategy_snapshots histories_at histories previous work =
     (case work of (address, source, allocation) \<Rightarrow>
        rbind (history_of histories source) (\<lambda>h.
        let key = (sc_id source, allocation);
            snapshot = bm_get snapshots (sc_id source);
            strategy = (if allocation then bm_get strategy_snapshots (sc_id source) else None)
        in rbind (source_inputs source h snapshot strategy) (\<lambda>inputs.
           rbind (effective_position_snapshot snapshot strategy) (\<lambda>effective.
           rmap (\<lambda>entry. (key, entry, inputs))
             (renew_entry fp source h snapshot strategy (position_count effective) (same_histories previous histories_at)
                (previous_entry previous key inputs) address)))))"

text \<open>A source without a strategy anchor shares its account entry in strategy mode.\<close>

definition share_entry :: "('s::linorder \<times> bool, 'v) bmap \<Rightarrow> 's \<Rightarrow> ('s \<times> bool, 'v) bmap" where
  "share_entry m i =
     (if bm_contains m (i, True) then m
      else (case bm_get m (i, False) of None \<Rightarrow> m | Some v \<Rightarrow> bm_insert (i, True) v m))"

definition same_sources ::
    "(string \<times> bool, nat \<times> cached_source) bmap \<Rightarrow> (string \<times> bool, nat \<times> cached_source) bmap \<Rightarrow> bool" where
  "same_sources old new \<longleftrightarrow> length old = length new
     \<and> list_all (\<lambda>(key, address, _). map_option fst (bm_get old key) = Some address) new"

definition nav_cache_refresh ::
    "fingerprint \<Rightarrow> source_config list \<Rightarrow> snapshots \<Rightarrow> strategy_snapshots \<Rightarrow> nat \<Rightarrow> histories \<Rightarrow> nav_cache option
      \<Rightarrow> nav_error + nav_cache" where
  "nav_cache_refresh fp config snapshots strategy_snapshots histories_at histories previous =
     (let work = timeline_work config snapshots strategy_snapshots;
          base = (case previous of None \<Rightarrow> 0 | Some g \<Rightarrow> nc_next g)
      in rbind (rmapM (refresh_entry fp snapshots strategy_snapshots histories_at histories previous) (enumerate base work)) (\<lambda>built.
         let ids = map sc_id (filter sc_enabled config);
             sources = foldl share_entry (bm_extend [] (map (\<lambda>(key, source, _). (key, source)) built)) ids;
             inputs = foldl share_entry (bm_extend [] (map (\<lambda>(key, _, input). (key, input)) built)) ids;
             after = base + length work;
             kept = (case previous of None \<Rightarrow> None
                     | Some g \<Rightarrow> if same_sources (nc_sources g) sources then Some g else None);
             results = (case kept of None \<Rightarrow> after | Some g \<Rightarrow> nc_results g);
             plans = (case previous of None \<Rightarrow> after + 1
                      | Some g \<Rightarrow> if nc_results g = results then nc_mark_plans g else after + 1)
         in Inr \<lparr>nc_config = config, nc_snapshots = snapshots, nc_strategy_snapshots = strategy_snapshots,
                 nc_histories_at = histories_at, nc_histories = histories, nc_sources = sources, nc_inputs = inputs,
                 nc_results = results, nc_mark_plans = plans, nc_next = after + 2\<rparr>))"

definition nav_cache_build ::
    "fingerprint \<Rightarrow> source_config list \<Rightarrow> snapshots \<Rightarrow> strategy_snapshots \<Rightarrow> nat \<Rightarrow> histories \<Rightarrow> nav_error + nav_cache" where
  "nav_cache_build fp config snapshots strategy_snapshots histories_at histories =
     nav_cache_refresh fp config snapshots strategy_snapshots histories_at histories None"

subsection \<open>Reading a generation\<close>

definition entry_of :: "nav_cache \<Rightarrow> string \<Rightarrow> bool \<Rightarrow> cached_source option" where
  "entry_of g source_id allocation = map_option snd (bm_get (nc_sources g) (source_id, allocation))"

text \<open>Indexing a missing entry panics; the entry of an enabled source exists in every generation.\<close>

definition dashboard_report :: "nav_cache \<Rightarrow> nav_error + nav_report" where
  "dashboard_report g =
     rbind (rmapM (\<lambda>source. of_option (SelectionError ''panic: no entry'') (map_option cs_report (entry_of g (sc_id source) True)))
       (filter sc_enabled (nc_config g))) (\<lambda>reports. Inr (aggregate_source_reports reports))"

definition generation_strategy_pnl :: "fingerprint \<Rightarrow> nav_cache \<Rightarrow> strategy_pnl_request \<Rightarrow> nav_error + strategy_pnl_report" where
  "generation_strategy_pnl fp g q =
     rmap fst (rebuild_strategy_pnl fp (nc_config g) q (nc_snapshots g) (nc_strategy_snapshots g) (nc_histories g) None)"

definition start_ts_us :: "nav_cache \<Rightarrow> string \<Rightarrow> i64 \<Rightarrow> bool \<Rightarrow> i64 option" where
  "start_ts_us g source_id end_ts_us allocation =
     (case entry_of g source_id allocation of None \<Rightarrow> None
      | Some c \<Rightarrow>
          let upto = (\<lambda>ts. case ts of None \<Rightarrow> None | Some t \<Rightarrow> if t \<le> end_ts_us then Some t else None)
          in or_else (upto (pe_snapshot_ts_us (cs_prepared c))) (upto (first_fill_ts (pe_fill_events (cs_prepared c)))))"

definition sort_dedup :: "string list \<Rightarrow> string list" where
  "sort_dedup xs = remdups_adj (sort xs)"

definition normal_request :: "nav_timeline_request \<Rightarrow> nav_timeline_request" where
  "normal_request q =
     q\<lparr>tq_selected_source_ids := sort_dedup (tq_selected_source_ids q), tq_selected_symbols := sort_dedup (tq_selected_symbols q)\<rparr>"

definition marks_revision :: "minute_marks \<Rightarrow> nat option" where
  "marks_revision m = (case m of Loaded revision _ \<Rightarrow> Some revision | Collect _ \<Rightarrow> None)"

definition collecting :: "minute_marks \<Rightarrow> bool" where
  "collecting m = (case m of Collect _ \<Rightarrow> True | Loaded _ _ \<Rightarrow> False)"

definition window_key :: "nav_timeline_request \<Rightarrow> bool \<Rightarrow> minute_marks option \<Rightarrow> timeline_cache_key" where
  "window_key q allocation prices =
     TimelineCacheKey (tq_start_ts_us q) (tq_end_ts_us q) (tq_selected_source_ids q) (tq_selected_symbols q) (tq_max_points q)
       (tq_tick_interval_us q) allocation (case prices of None \<Rightarrow> None | Some m \<Rightarrow> marks_revision m)"

definition asked_for :: "nav_timeline_request \<Rightarrow> (string, 'v) bmap \<Rightarrow> (string, 'v) bmap" where
  "asked_for q m = filter (\<lambda>(i, _). tq_selected_source_ids q = [] \<or> i \<in> set (tq_selected_source_ids q)) m"

definition generation_window ::
    "fingerprint \<Rightarrow> nav_cache \<Rightarrow> nav_timeline_request \<Rightarrow> bool \<Rightarrow> minute_marks option
      \<Rightarrow> nav_error + nav_timeline_report \<times> minute_marks option" where
  "generation_window fp g q allocation prices =
     rebuild_nav_timeline fp (nc_config g) q (asked_for q (nc_snapshots g))
       (if allocation then asked_for q (nc_strategy_snapshots g) else [])
       (nc_histories g) (Some (bm_map snd (nc_sources g), allocation)) prices"

text \<open>
  A window is served from the results cache, except when it only collects the minutes it will need;
  then nothing is stored. \<open>text\<close> is the rendering of an error, which is what the results cache keeps.
\<close>

definition rebuild_with_prices ::
    "fingerprint \<Rightarrow> (nav_error \<Rightarrow> string) \<Rightarrow> nav_cache \<Rightarrow> nav_timeline_request \<Rightarrow> bool \<Rightarrow> minute_marks option \<Rightarrow> (nat \<Rightarrow> results)
      \<Rightarrow> (string + nav_timeline_report) option \<times> minute_marks option \<times> (nat \<Rightarrow> results)" where
  "rebuild_with_prices fp text g q0 allocation prices store =
     (let q = normal_request q0;
          computed = rmap_err text (generation_window fp g q allocation prices)
      in if (case prices of None \<Rightarrow> False | Some m \<Rightarrow> collecting m)
         then (case computed of Inl e \<Rightarrow> (Some (Inl e), prices, store)
               | Inr (report, collected) \<Rightarrow> (Some (Inr report), collected, store))
         else let (r, cache) = get_or_compute (window_key q allocation prices) (rmap fst computed) (store (nc_results g))
              in (r, prices, store(nc_results g := cache)))"


subsection \<open>What an entry depends on\<close>

text \<open>The anchor is the time of one of the snapshots.\<close>

lemma anchor_time:
  assumes "prepare_source_events fp source es snapshot strategy_snapshot roles allocations = Inr p" and "pe_snapshot_ts_us p = Some ts"
  shows "(\<exists>s. snapshot = Some s \<and> ts = ps_snapshot_ts_us s) \<or> (\<exists>t. strategy_snapshot = Some t \<and> ts = ts_snapshot_ts_us t)"
proof -
  obtain e chosen where "chosen_anchors source snapshot strategy_snapshot = Inr (Some e, chosen)" "ts = ps_snapshot_ts_us e"
    using assms by (auto simp: prepare_selects rbind_Inr_iff rmap_Inr_iff read_events_def)
  then show ?thesis
    by (auto simp: chosen_anchors_def rbind_Inr_iff rmap_Inr_iff account_snapshot_def Let_def split: option.splits if_splits)
qed

text \<open>Sources that agree on what a replay reads.\<close>

definition same_source :: "source_config \<Rightarrow> source_config \<Rightarrow> bool" where
  "same_source x y \<longleftrightarrow> sc_id x = sc_id y \<and> nav_fee_rates x = nav_fee_rates y \<and> display_name x = display_name y
     \<and> sc_venue x = sc_venue y"

lemma same_source_prepare: "same_source x y \<Longrightarrow> prepare_source_events fp x = prepare_source_events fp y"
proof (intro ext)
  fix es s t roles allocations
  assume "same_source x y"
  then have id: "sc_id x = sc_id y" by (simp add: same_source_def)
  show "prepare_source_events fp x es s t roles allocations = prepare_source_events fp y es s t roles allocations"
    unfolding prepare_source_events_def id ..
qed

lemma same_source_build: "same_source x y \<Longrightarrow> build x = build y"
  by (intro ext) (simp add: same_source_def build_def initial_timeline_state_def replay_def source_report_def)

lemma same_source_refresh:
  assumes "same_source x y"
  shows "cached_refresh c x = cached_refresh c y"
proof -
  have "replay x = replay y" using assms by (intro ext) (simp add: same_source_def replay_def source_report_def)
  then show ?thesis using same_source_build [OF assms] by (intro ext) (simp only: cached_refresh_def)
qed

lemma served_same_source:
  assumes "same_source x y"
  shows "served x snapshot strategy n es roles c \<Longrightarrow> served y snapshot strategy n es roles c"
proof (induction rule: served.induct)
  case (loaded es fp roles p c)
  then show ?case by (intro served.loaded) (simp_all add: same_source_prepare [OF assms] same_source_build [OF assms])
next
  case (updated es roles c h change c')
  then show ?case by (intro served.updated) (simp_all add: same_source_refresh [OF assms])
qed


subsection \<open>Entries that have followed their source\<close>

text \<open>The times of the snapshots lie in the range of the hourly arithmetic.\<close>

definition anchors_in_time :: "position_snapshot option \<Rightarrow> strategy_position_snapshot option \<Rightarrow> bool" where
  "anchors_in_time snapshot strategy \<longleftrightarrow> (\<forall>s. snapshot = Some s \<longrightarrow> in_time (ps_snapshot_ts_us s))
     \<and> (\<forall>t. strategy = Some t \<longrightarrow> in_time (ts_snapshot_ts_us t))"

definition entry_good ::
    "fingerprint \<Rightarrow> source_config \<Rightarrow> position_snapshot option \<Rightarrow> strategy_position_snapshot option \<Rightarrow> nav_source_history
      \<Rightarrow> cached_source \<Rightarrow> bool" where
  "entry_good fp x snapshot strategy h c \<longleftrightarrow> history_ok (nh_events h) \<and> anchors_in_time snapshot strategy
     \<and> (\<exists>effective. effective_position_snapshot snapshot strategy = Inr effective
          \<and> rmap strip (load_entry fp x h snapshot strategy (position_count effective)) = Inr (strip c)
          \<and> prepare_source_events fp x (nh_events h) snapshot strategy (nh_liquidity_by_order h) (nh_allocations h) = Inr (cs_prepared c)
          \<and> (pe_allocations (cs_prepared c) = [] \<longrightarrow>
               served x snapshot strategy (position_count effective) (nh_events h) (nh_liquidity_by_order h) c))"

lemma entry_loaded:
  assumes "load_entry fp x h snapshot strategy (position_count effective) = Inr c"
    and "effective_position_snapshot snapshot strategy = Inr effective"
    and "history_ok (nh_events h)" and "anchors_in_time snapshot strategy"
  shows "entry_good fp x snapshot strategy h c"
proof -
  obtain p where p: "prepare_source_events fp x (nh_events h) snapshot strategy (nh_liquidity_by_order h) (nh_allocations h) = Inr p"
    and b: "build x p (position_count effective) = Inr c"
    using assms(1) by (auto simp: load_entry_def rbind_Inr_iff)
  have "served x snapshot strategy (position_count effective) (nh_events h) (nh_liquidity_by_order h) c"
    if none: "pe_allocations p = []"
    using assms(3,4) b anchor_time [OF p]
    by (intro served.loaded [OF _ prepare_without_corrections [OF p none]]) (auto simp: anchors_in_time_def)
  then show ?thesis using assms p build_prepared [OF b] by (auto simp: entry_good_def)
qed

lemma entry_updated:
  assumes e: "entry_good fp x snapshot strategy h0 c" and h: "nh_change h = Some change"
    and x: "extends (nh_events h0) (nh_liquidity_by_order h0) h change" and a: "nh_allocations h = nh_allocations h0"
    and n: "effective_position_snapshot snapshot strategy = Inr effective"
    and r: "cached_refresh c x h (position_count effective) = Inr (Some c')"
  shows "entry_good fp x snapshot strategy h c'"
proof -
  have none: "pe_allocations (cs_prepared c) = []" using r by (auto simp: cached_refresh_def split: if_splits)
  have s: "served x snapshot strategy (position_count effective) (nh_events h0) (nh_liquidity_by_order h0) c"
    and p: "prepare_source_events fp x (nh_events h0) snapshot strategy (nh_liquidity_by_order h0) (nh_allocations h0) = Inr (cs_prepared c)"
    using e none n by (auto simp: entry_good_def)
  have s': "served x snapshot strategy (position_count effective) (nh_events h) (nh_liquidity_by_order h) c'"
    by (rule served.updated [OF s h x r])
  have "prepare_source_events fp x (nh_events h) snapshot strategy (nh_liquidity_by_order h) [] = Inr (cs_prepared c')"
    using served_reads [OF s'] by (auto simp: prepare_reads)
  then have q: "prepare_source_events fp x (nh_events h) snapshot strategy (nh_liquidity_by_order h) (nh_allocations h) = Inr (cs_prepared c')"
    unfolding a by (rule prepare_with_corrections [OF p none])
  moreover have "rmap strip (build x (cs_prepared c') (position_count effective)) = Inr (strip c')"
    using served_reads [OF s'] by (simp add: cache_of_def)
  ultimately show ?thesis using e s' n x by (auto simp: entry_good_def load_entry_def extends_def)
qed

lemma entry_kept:
  assumes "entry_good fp x snapshot strategy h0 c" and "nh_allocations h = nh_allocations h0"
    and "nh_events h = nh_events h0" and "nh_liquidity_by_order h = nh_liquidity_by_order h0"
  shows "entry_good fp x snapshot strategy h c"
  using assms by (simp add: entry_good_def load_entry_def)

lemma entry_same_source:
  assumes "entry_good fp x snapshot strategy h c" and "same_source x y"
  shows "entry_good fp y snapshot strategy h c"
  using assms(1) served_same_source [OF assms(2)]
  by (auto simp: entry_good_def load_entry_def same_source_prepare [OF assms(2)] same_source_build [OF assms(2)])

lemma same_inputs:
  assumes "source_inputs x h snapshot strategy = Inr i" and "source_inputs y h' snapshot' strategy' = Inr i" and "sc_id x = sc_id y"
  shows "same_source x y \<and> snapshot' = snapshot \<and> strategy' = strategy \<and> nh_allocations h' = nh_allocations h"
  using assms by (auto simp: source_inputs_def rbind_Inr_iff rmap_err_Inr_iff same_source_def)

subsection \<open>Generations\<close>

text \<open>
  Every entry with its inputs has followed the history the generation holds; addresses are below
  the next free one.
\<close>

definition entries_good :: "fingerprint \<Rightarrow> nav_cache \<Rightarrow> bool" where
  "entries_good fp g \<longleftrightarrow> (\<forall>key inputs. bm_get (nc_inputs g) key = Some inputs \<longrightarrow>
     (\<exists>x s t h old_at c. sc_id x = fst key \<and> bm_get (nc_histories g) (fst key) = Some h \<and> source_inputs x h s t = Inr inputs
        \<and> bm_get (nc_sources g) key = Some (old_at, c) \<and> entry_good fp x s t h c))"

text \<open>What the history store promises between the histories of two generations.\<close>

definition history_promises :: "nav_cache \<Rightarrow> nat \<Rightarrow> histories \<Rightarrow> bool" where
  "history_promises g histories_at histories \<longleftrightarrow> (nc_histories_at g = histories_at \<longrightarrow> histories = nc_histories g)
     \<and> (\<forall>i h h0. bm_get histories i = Some h \<and> bm_get (nc_histories g) i = Some h0 \<longrightarrow>
          (nh_revision h \<noteq> 0 \<and> nh_revision h = nh_revision h0 \<longrightarrow>
             nh_events h = nh_events h0 \<and> nh_liquidity_by_order h = nh_liquidity_by_order h0)
          \<and> (\<forall>change. nh_change h = Some change \<and> history_follows h0 h \<longrightarrow>
               extends (nh_events h0) (nh_liquidity_by_order h0) h change))"

definition inputs_ok :: "source_config list \<Rightarrow> snapshots \<Rightarrow> strategy_snapshots \<Rightarrow> histories \<Rightarrow> bool" where
  "inputs_ok config snapshots strategy_snapshots histories \<longleftrightarrow> distinct (map sc_id config)
     \<and> bm_wf snapshots \<and> bm_wf strategy_snapshots
     \<and> (\<forall>x \<in> set config. sc_enabled x \<longrightarrow>
          anchors_in_time (bm_get snapshots (sc_id x)) (bm_get strategy_snapshots (sc_id x))
          \<and> (\<forall>h. bm_get histories (sc_id x) = Some h \<longrightarrow> history_ok (nh_events h)))"

lemma refresh_entry_good:
  assumes r: "refresh_entry fp snapshots strategy_snapshots histories_at histories previous (address, x, allocation) = Inr (key, (at', c), inputs)"
    and t: "strategy = (if allocation then bm_get strategy_snapshots (sc_id x) else None)"
    and ok: "anchors_in_time (bm_get snapshots (sc_id x)) strategy" "\<forall>h. bm_get histories (sc_id x) = Some h \<longrightarrow> history_ok (nh_events h)"
    and prev: "\<forall>g. previous = Some g \<longrightarrow> entries_good fp g \<and> history_promises g histories_at histories"
  shows "key = (sc_id x, allocation) \<and> (\<exists>h. bm_get histories (sc_id x) = Some h
      \<and> source_inputs x h (bm_get snapshots (sc_id x)) strategy = Inr inputs
      \<and> entry_good fp x (bm_get snapshots (sc_id x)) strategy h c)"
proof -
  let ?s = "bm_get snapshots (sc_id x)"
  obtain h effective where h: "bm_get histories (sc_id x) = Some h" and i: "source_inputs x h ?s strategy = Inr inputs"
    and e: "effective_position_snapshot ?s strategy = Inr effective" and k: "key = (sc_id x, allocation)"
    and r': "renew_entry fp x h ?s strategy (position_count effective) (same_histories previous histories_at)
      (previous_entry previous key inputs) address = Inr (at', c)"
    using r t unfolding refresh_entry_def Let_def prod.case
    by (simp add: rbind_Inr_iff rmap_Inr_iff history_of_def of_option_def split: option.splits) blast
  have loaded: "entry_good fp x ?s strategy h c" if "load_entry fp x h ?s strategy (position_count effective) = Inr c"
    using entry_loaded [OF that e _ ok(1)] ok(2) h by blast
  have "entry_good fp x ?s strategy h c"
  proof (cases "previous_entry previous key inputs")
    case None
    then show ?thesis using r' loaded by (auto simp: renew_entry_def rmap_Inr_iff)
  next
    case (Some entry)
    obtain g old_at old old_h where g: "previous = Some g" and en: "entry = (old_at, old, old_h)" "bm_get (nc_inputs g) key = Some inputs"
      "bm_get (nc_sources g) key = Some (old_at, old)" "bm_get (nc_histories g) (fst key) = Some old_h"
      using Some by (auto simp: previous_entry_def split: option.splits if_splits)
    obtain y s0 t0 where y: "sc_id y = fst key" "source_inputs y old_h s0 t0 = Inr inputs" "entry_good fp y s0 t0 old_h old"
      using prev g en unfolding entries_good_def by fastforce
    have same: "same_source y x \<and> ?s = s0 \<and> strategy = t0 \<and> nh_allocations h = nh_allocations old_h"
      using same_inputs [OF y(2) i] y(1) k by simp
    have old: "entry_good fp x ?s strategy old_h old" using entry_same_source y(3) same by blast
    have promise: "history_promises g histories_at histories" using prev g by blast
    have keep: "nh_events h = nh_events old_h \<and> nh_liquidity_by_order h = nh_liquidity_by_order old_h"
      if "history_unchanged (same_histories previous histories_at) old_h h"
      using that promise h en(4) k g by (auto simp: history_unchanged_def same_histories_def history_promises_def)
    note r' = r' [unfolded Some en(1) renew_entry_def Let_def option.case prod.case]
    show ?thesis
    proof (cases "history_unchanged (same_histories previous histories_at) old_h h")
      case True
      then show ?thesis using r' keep entry_kept [OF old] same by simp
    next
      case False
      note F = this
      have upd: "entry_good fp x ?s strategy h c"
        if fo: "history_follows old_h h" and re: "cached_refresh old x h (position_count effective) = Inr (Some c)"
      proof -
        obtain change where ch: "nh_change h = Some change" using fo by (auto simp: history_follows_def split: option.splits)
        have "extends (nh_events old_h) (nh_liquidity_by_order old_h) h change"
          using promise h en(4) k fo ch unfolding history_promises_def by auto
        then show ?thesis using entry_updated [OF old ch _ _ e re] same by blast
      qed
      show ?thesis
      proof (cases "history_follows old_h h")
        case True
        then obtain u where u: "cached_refresh old x h (position_count effective) = Inr u"
          "(case u of Some c \<Rightarrow> Inr (address, c)
             | None \<Rightarrow> rmap (Pair address) (load_entry fp x h ?s strategy (position_count effective))) = Inr (at', c)"
          using r' F by (auto simp: rbind_Inr_iff)
        then show ?thesis using upd [OF True] loaded by (cases u) (auto simp: rmap_Inr_iff)
      next
        case False
        then show ?thesis using r' F loaded by (auto simp: rmap_Inr_iff)
      qed
    qed
  qed
  then show ?thesis using h i k by blast
qed


lemma extend_nil_get:
  assumes "distinct (map fst kvs)"
  shows "bm_get (bm_extend [] kvs) k = map_of kvs k"
proof -
  have d: "distinct (map fst (rev kvs))" using assms by (simp add: rev_map [symmetric])
  have "map_of (rev kvs) = map_of kvs"
    by (rule map_of_inject_set [THEN iffD2, OF d assms]) simp
  then show ?thesis by (simp add: bm_get_extend split: option.split)
qed

lemma collected_lookup:
  assumes "rmapM f xs = Inr ys" and "\<forall>x \<in> set xs. \<forall>y. f x = Inr y \<longrightarrow> fst y = k x" and "distinct (map k xs)"
  shows "x \<in> set xs \<Longrightarrow> \<exists>y. f x = Inr y \<and> bm_get (bm_extend [] (map (\<lambda>(key, v). (key, g v)) ys)) (k x) = Some (g (snd y))"
    and "k0 \<notin> k ` set xs \<Longrightarrow> bm_get (bm_extend [] (map (\<lambda>(key, v). (key, g v)) ys)) k0 = None"
proof -
  have keys: "map fst ys = map k xs \<and> (\<forall>x \<in> set xs. \<exists>y \<in> set ys. f x = Inr y)"
    using assms(1,2)
  proof (induction xs arbitrary: ys)
    case (Cons x xs)
    then obtain y zs where y: "f x = Inr y" "rmapM f xs = Inr zs" "ys = y # zs" by (auto simp: rbind_Inr_iff)
    have "map fst zs = map k xs \<and> (\<forall>x \<in> set xs. \<exists>y \<in> set zs. f x = Inr y)"
      by (rule Cons.IH [OF y(2)]) (use Cons.prems(2) in auto)
    moreover have "fst y = k x" using Cons.prems(2) y(1) by (metis list.set_intros(1))
    ultimately show ?case using y by auto
  qed simp
  have fsts: "map fst (map (\<lambda>(key, v). (key, g v)) ys) = map k xs" using keys by (simp add: case_prod_beta comp_def)
  then have d: "distinct (map fst (map (\<lambda>(key, v). (key, g v)) ys))" using assms(3) by simp
  show "\<exists>y. f x = Inr y \<and> bm_get (bm_extend [] (map (\<lambda>(key, v). (key, g v)) ys)) (k x) = Some (g (snd y))" if x: "x \<in> set xs"
  proof -
    obtain y where y: "y \<in> set ys" "f x = Inr y" using keys x by blast
    then have "(k x, g (snd y)) \<in> set (map (\<lambda>(key, v). (key, g v)) ys)"       using assms(2) x y by (metis (no_types, lifting) case_prod_conv image_eqI list.set_map prod.collapse)
    then show ?thesis using y(2) by (simp only: extend_nil_get [OF d] map_of_eq_Some_iff [OF d]) blast
  qed
  show "bm_get (bm_extend [] (map (\<lambda>(key, v). (key, g v)) ys)) k0 = None" if "k0 \<notin> k ` set xs"
    using that fsts unfolding extend_nil_get [OF d] map_of_eq_None_iff by (metis image_set)
qed

lemma enumerated_member: "x \<in> set xs \<Longrightarrow> \<exists>i. (i, x) \<in> set (enumerate base xs)"
  by (metis map_snd_enumerate imageE list.set_map prod.collapse)

lemma enumerated_source: "(i, x) \<in> set (enumerate base xs) \<Longrightarrow> x \<in> set xs"
  by (metis map_snd_enumerate image_eqI list.set_map snd_conv)

lemma shared_lookup:
  "bm_get (foldl share_entry m ids) (i, a) =
     (if a \<and> i \<in> set ids \<and> bm_get m (i, True) = None then bm_get m (i, False) else bm_get m (i, a))"
proof (induction ids arbitrary: m)
  case (Cons j ids)
  show ?case
    by (simp only: foldl_Cons Cons.IH) (auto simp: share_entry_def bm_contains_def split: option.split)
qed simp

text \<open>The strategy snapshot that anchors a source in a mode.\<close>

definition mode_strategy :: "snapshots \<Rightarrow> strategy_snapshots \<Rightarrow> source_config \<Rightarrow> bool \<Rightarrow> strategy_position_snapshot option" where
  "mode_strategy snapshots strategy_snapshots x allocation =
     (if allocation \<and> anchors_strategy snapshots strategy_snapshots x then bm_get strategy_snapshots (sc_id x) else None)"

lemma work_members:
  "(x, a) \<in> set (timeline_work config snapshots strategy_snapshots) \<longleftrightarrow>
     x \<in> set config \<and> sc_enabled x \<and> (a \<longrightarrow> anchors_strategy snapshots strategy_snapshots x)"
  by (cases a) (auto simp: timeline_work_def)

lemma work_distinct:
  assumes "distinct (map sc_id config)"
  shows "distinct (map (\<lambda>(x, a). (sc_id x, a)) (timeline_work config snapshots strategy_snapshots))"
proof -
  have "distinct (map (\<lambda>(x, a). (sc_id x, a)) (concat (map (\<lambda>x. (x, False) # (if P x then [(x, True)] else [])) xs)))"
    if "distinct (map sc_id xs)" for xs and P :: "source_config \<Rightarrow> bool"
    using that by (induction xs) (auto simp: image_iff split: if_splits)
  then show ?thesis using assms by (simp add: timeline_work_def distinct_map_filter)
qed

lemma refresh_fields:
  assumes "nav_cache_refresh fp config snapshots strategy_snapshots histories_at histories previous = Inr g"
  shows "nc_config g = config" "nc_snapshots g = snapshots" "nc_strategy_snapshots g = strategy_snapshots"
    "nc_histories_at g = histories_at" "nc_histories g = histories"
  using assms by (auto simp: nav_cache_refresh_def Let_def rbind_Inr_iff)

lemma refresh_entry_key:
  "refresh_entry fp snapshots strategy_snapshots histories_at histories previous (address, x, a) = Inr y \<Longrightarrow> fst y = (sc_id x, a)"
  by (auto simp: refresh_entry_def Let_def rbind_Inr_iff rmap_Inr_iff)

lemma bm_wf_shared: "bm_wf m \<Longrightarrow> bm_wf (foldl share_entry m ids)"
  by (induction ids arbitrary: m) (auto simp: share_entry_def split: option.split)

lemma refresh_lookup:
  assumes r: "nav_cache_refresh fp config snapshots strategy_snapshots histories_at histories previous = Inr g"
    and d: "distinct (map sc_id config)"
  shows "x \<in> set config \<Longrightarrow> sc_enabled x \<Longrightarrow> \<exists>address entry inputs.
      refresh_entry fp snapshots strategy_snapshots histories_at histories previous
        (address, x, a \<and> anchors_strategy snapshots strategy_snapshots x)
        = Inr ((sc_id x, a \<and> anchors_strategy snapshots strategy_snapshots x), entry, inputs)
      \<and> (address, x, a \<and> anchors_strategy snapshots strategy_snapshots x)
          \<in> set (enumerate (case previous of None \<Rightarrow> 0 | Some g \<Rightarrow> nc_next g) (timeline_work config snapshots strategy_snapshots))
      \<and> bm_get (nc_sources g) (sc_id x, a) = Some entry \<and> bm_get (nc_inputs g) (sc_id x, a) = Some inputs"
    and "i \<notin> sc_id ` {x \<in> set config. sc_enabled x} \<Longrightarrow> bm_get (nc_sources g) (i, a) = None \<and> bm_get (nc_inputs g) (i, a) = None"
    and "x \<in> set config \<Longrightarrow> sc_enabled x \<Longrightarrow> \<not> anchors_strategy snapshots strategy_snapshots x
      \<Longrightarrow> bm_get (nc_sources g) (sc_id x, True) = bm_get (nc_sources g) (sc_id x, False)
        \<and> bm_get (nc_inputs g) (sc_id x, True) = bm_get (nc_inputs g) (sc_id x, False)"
proof -
  let ?work = "timeline_work config snapshots strategy_snapshots" and ?ids = "map sc_id (filter sc_enabled config)"
  let ?key = "\<lambda>(address :: nat, x, a). (sc_id x, a :: bool)"
  define base where "base = (case previous of None \<Rightarrow> 0 | Some g \<Rightarrow> nc_next g)"
  obtain built where b: "rmapM (refresh_entry fp snapshots strategy_snapshots histories_at histories previous) (enumerate base ?work) = Inr built"
    and s: "nc_sources g = foldl share_entry (bm_extend [] (map (\<lambda>(key, v). (key, fst v)) built)) ?ids"
    and i: "nc_inputs g = foldl share_entry (bm_extend [] (map (\<lambda>(key, v). (key, snd v)) built)) ?ids"
  proof -
    have parts: "(\<lambda>(key, entry, _). (key, entry)) = (\<lambda>(key, v). (key, fst v))"
      "(\<lambda>(key, _, inputs). (key, inputs)) = (\<lambda>(key, v). (key, snd v))"
      by (simp_all add: fun_eq_iff case_prod_beta)
    show thesis using r that unfolding nav_cache_refresh_def Let_def parts base_def by (fastforce simp: rbind_Inr_iff)
  qed
  have "map ?key (enumerate base ?work) = map (\<lambda>(x, a). (sc_id x, a)) ?work"
    by (rule nth_equalityI) (simp_all add: nth_enumerate_eq case_prod_beta)
  then have keys: "distinct (map ?key (enumerate base ?work))" using work_distinct [OF d] by simp
  have fsts: "\<forall>w \<in> set (enumerate base ?work). \<forall>y.
      refresh_entry fp snapshots strategy_snapshots histories_at histories previous w = Inr y \<longrightarrow> fst y = ?key w"
  proof (intro ballI allI impI)
    fix w y
    assume "refresh_entry fp snapshots strategy_snapshots histories_at histories previous w = Inr y"
    then show "fst y = ?key w" using refresh_entry_key [of fp snapshots strategy_snapshots histories_at histories previous "fst w" "fst (snd w)" "snd (snd w)" y] by (simp add: case_prod_beta)
  qed
  note L = collected_lookup [OF b fsts keys]
  have found: "\<exists>address entry inputs. refresh_entry fp snapshots strategy_snapshots histories_at histories previous (address, x, a)
        = Inr ((sc_id x, a), entry, inputs) \<and> (address, x, a) \<in> set (enumerate base ?work)
      \<and> bm_get (bm_extend [] (map (\<lambda>(key, v). (key, fst v)) built)) (sc_id x, a) = Some entry
      \<and> bm_get (bm_extend [] (map (\<lambda>(key, v). (key, snd v)) built)) (sc_id x, a) = Some inputs"
    if work: "(x, a) \<in> set ?work" for x a
  proof -
    obtain address where m: "(address, x, a) \<in> set (enumerate base ?work)"
      by (metis enumerated_member [OF work])
    obtain y where y: "refresh_entry fp snapshots strategy_snapshots histories_at histories previous (address, x, a) = Inr y"
      "bm_get (bm_extend [] (map (\<lambda>(key, v). (key, fst v)) built)) (sc_id x, a) = Some (fst (snd y))"
      using L(1) [OF m, where g = fst] by auto
    moreover have "bm_get (bm_extend [] (map (\<lambda>(key, v). (key, snd v)) built)) (sc_id x, a) = Some (snd (snd y))"
      using L(1) [OF m, where g = snd] y(1) by auto
    moreover have "y = ((sc_id x, a), fst (snd y), snd (snd y))" using refresh_entry_key [OF y(1)] by (metis prod.collapse)
    ultimately show ?thesis using m by metis
  qed
  have missing: "bm_get (bm_extend [] (map (\<lambda>(key, v). (key, fst v)) built)) (j, a) = None
      \<and> bm_get (bm_extend [] (map (\<lambda>(key, v). (key, snd v)) built)) (j, a) = None"
    if none: "\<forall>x. sc_id x = j \<longrightarrow> (x, a) \<notin> set ?work" for j a
  proof -
    have "(j, a) \<notin> ?key ` set (enumerate base ?work)"
    proof
      assume "(j, a) \<in> ?key ` set (enumerate base ?work)"
      then obtain w where w: "w \<in> set (enumerate base ?work)" "(j, a) = ?key w" by (rule imageE)
      obtain address x b where split: "w = (address, x, b)" by (rule prod_cases3)
      have "sc_id x = j" "b = a" using w(2) by (simp_all add: split)
      moreover have "(x, b) \<in> set ?work" using w(1) unfolding split by (rule enumerated_source)
      ultimately show False using none by simp
    qed
    then show ?thesis by (intro conjI L(2))
  qed
  show "\<exists>address entry inputs.
      refresh_entry fp snapshots strategy_snapshots histories_at histories previous
        (address, x, a \<and> anchors_strategy snapshots strategy_snapshots x)
        = Inr ((sc_id x, a \<and> anchors_strategy snapshots strategy_snapshots x), entry, inputs)
      \<and> (address, x, a \<and> anchors_strategy snapshots strategy_snapshots x)
          \<in> set (enumerate (case previous of None \<Rightarrow> 0 | Some g \<Rightarrow> nc_next g) (timeline_work config snapshots strategy_snapshots))
      \<and> bm_get (nc_sources g) (sc_id x, a) = Some entry \<and> bm_get (nc_inputs g) (sc_id x, a) = Some inputs"
    if x: "x \<in> set config" "sc_enabled x"
  proof (cases "a \<and> \<not> anchors_strategy snapshots strategy_snapshots x")
    case True
    then have "\<forall>y. sc_id y = sc_id x \<longrightarrow> (y, True) \<notin> set ?work"
      using x d by (metis (mono_tags) work_members distinct_map inj_onD)
    from missing [OF this] show ?thesis using True found [of x False] x
      unfolding s i shared_lookup base_def [symmetric] by (fastforce simp: work_members)
  next
    case False
    then have "(x, a) \<in> set ?work" using x by (auto simp: work_members)
    from found [OF this] show ?thesis using False unfolding s i shared_lookup base_def [symmetric] by (cases a) auto
  qed
  show "bm_get (nc_sources g) (j, a) = None \<and> bm_get (nc_inputs g) (j, a) = None"
    if "j \<notin> sc_id ` {x \<in> set config. sc_enabled x}" for j
  proof -
    have none: "\<forall>x. sc_id x = j \<longrightarrow> (x, b) \<notin> set ?work" for b using that by (auto simp: work_members)
    show ?thesis using missing [OF none, of False] missing [OF none, of True] unfolding s i shared_lookup by (cases a) auto
  qed
  show "bm_get (nc_sources g) (sc_id x, True) = bm_get (nc_sources g) (sc_id x, False)
      \<and> bm_get (nc_inputs g) (sc_id x, True) = bm_get (nc_inputs g) (sc_id x, False)"
    if x: "x \<in> set config" "sc_enabled x" "\<not> anchors_strategy snapshots strategy_snapshots x"
  proof -
    have "\<forall>y. sc_id y = sc_id x \<longrightarrow> (y, True) \<notin> set ?work"
      using x d by (metis (mono_tags) work_members distinct_map inj_onD)
    from missing [OF this] show ?thesis using x unfolding s i shared_lookup by (auto simp: image_iff)
  qed
qed


lemma refresh_entries:
  assumes r: "nav_cache_refresh fp config snapshots strategy_snapshots histories_at histories previous = Inr g"
    and ok: "inputs_ok config snapshots strategy_snapshots histories"
    and prev: "\<forall>g. previous = Some g \<longrightarrow> entries_good fp g \<and> history_promises g histories_at histories"
  shows "x \<in> set config \<Longrightarrow> sc_enabled x \<Longrightarrow> \<exists>h address c inputs. bm_get histories (sc_id x) = Some h
      \<and> source_inputs x h (bm_get snapshots (sc_id x)) (mode_strategy snapshots strategy_snapshots x a) = Inr inputs
      \<and> bm_get (nc_sources g) (sc_id x, a) = Some (address, c) \<and> bm_get (nc_inputs g) (sc_id x, a) = Some inputs
      \<and> entry_good fp x (bm_get snapshots (sc_id x)) (mode_strategy snapshots strategy_snapshots x a) h c"
    and "entries_good fp g"
proof -
  have d: "distinct (map sc_id config)" using ok by (simp add: inputs_ok_def)
  note L = refresh_lookup [OF r d]
  show E: "\<exists>h address c inputs. bm_get histories (sc_id x) = Some h
      \<and> source_inputs x h (bm_get snapshots (sc_id x)) (mode_strategy snapshots strategy_snapshots x a) = Inr inputs
      \<and> bm_get (nc_sources g) (sc_id x, a) = Some (address, c) \<and> bm_get (nc_inputs g) (sc_id x, a) = Some inputs
      \<and> entry_good fp x (bm_get snapshots (sc_id x)) (mode_strategy snapshots strategy_snapshots x a) h c"
    if x: "x \<in> set config" "sc_enabled x" for x a
  proof -
    let ?m = "a \<and> anchors_strategy snapshots strategy_snapshots x"
    obtain address at' c inputs where y: "refresh_entry fp snapshots strategy_snapshots histories_at histories previous (address, x, ?m)
        = Inr ((sc_id x, ?m), (at', c), inputs)"
      "bm_get (nc_sources g) (sc_id x, a) = Some (at', c)" "bm_get (nc_inputs g) (sc_id x, a) = Some inputs"
      using L(1) [OF x, of a] by force
    have times: "anchors_in_time (bm_get snapshots (sc_id x)) (mode_strategy snapshots strategy_snapshots x a)"
      "\<forall>h. bm_get histories (sc_id x) = Some h \<longrightarrow> history_ok (nh_events h)"
      using ok x by (auto simp: inputs_ok_def mode_strategy_def anchors_in_time_def)
    show ?thesis
      using refresh_entry_good [OF y(1) _ times prev] y(2,3) by (auto simp: mode_strategy_def)
  qed
  have H: "nc_histories g = histories" using refresh_fields [OF r] by simp
  show "entries_good fp g"
    unfolding entries_good_def
  proof (intro allI impI)
    fix key inputs
    assume k: "bm_get (nc_inputs g) key = Some inputs"
    then have "fst key \<in> sc_id ` {x \<in> set config. sc_enabled x}" using L(2) [of "fst key" "snd key"] by fastforce
    then obtain x where x: "x \<in> set config" "sc_enabled x" "sc_id x = fst key" by auto
    show "\<exists>x s t h old_at c. sc_id x = fst key \<and> bm_get (nc_histories g) (fst key) = Some h \<and> source_inputs x h s t = Inr inputs
        \<and> bm_get (nc_sources g) key = Some (old_at, c) \<and> entry_good fp x s t h c"
    proof -
      from E [OF x(1,2), of "snd key"] obtain h address c inputs' where e: "bm_get histories (sc_id x) = Some h"
        "source_inputs x h (bm_get snapshots (sc_id x)) (mode_strategy snapshots strategy_snapshots x (snd key)) = Inr inputs'"
        "bm_get (nc_sources g) (sc_id x, snd key) = Some (address, c)" "bm_get (nc_inputs g) (sc_id x, snd key) = Some inputs'"
        "entry_good fp x (bm_get snapshots (sc_id x)) (mode_strategy snapshots strategy_snapshots x (snd key)) h c" by blast
      moreover have "inputs' = inputs" using e(4) k x(3) by simp
      ultimately show ?thesis using x(3) unfolding H by (metis prod.collapse)
    qed
  qed
qed

text \<open>The generations a process goes through: one built from nothing, then one refresh after another.\<close>

inductive nav_generation :: "fingerprint \<Rightarrow> nav_cache \<Rightarrow> bool" for fp where
  built: "inputs_ok config snapshots strategy_snapshots histories
    \<Longrightarrow> nav_cache_build fp config snapshots strategy_snapshots histories_at histories = Inr g \<Longrightarrow> nav_generation fp g"
| refreshed: "nav_generation fp g \<Longrightarrow> inputs_ok config snapshots strategy_snapshots histories
    \<Longrightarrow> history_promises g histories_at histories
    \<Longrightarrow> nav_cache_refresh fp config snapshots strategy_snapshots histories_at histories (Some g) = Inr g' \<Longrightarrow> nav_generation fp g'"

definition generation_entry :: "fingerprint \<Rightarrow> nav_cache \<Rightarrow> source_config \<Rightarrow> bool \<Rightarrow> nav_source_history \<Rightarrow> cached_source \<Rightarrow> bool" where
  "generation_entry fp g x a h c \<longleftrightarrow> bm_get (nc_histories g) (sc_id x) = Some h \<and> entry_of g (sc_id x) a = Some c
     \<and> (\<exists>inputs. source_inputs x h (bm_get (nc_snapshots g) (sc_id x)) (mode_strategy (nc_snapshots g) (nc_strategy_snapshots g) x a) = Inr inputs
          \<and> bm_get (nc_inputs g) (sc_id x, a) = Some inputs)
     \<and> entry_good fp x (bm_get (nc_snapshots g) (sc_id x)) (mode_strategy (nc_snapshots g) (nc_strategy_snapshots g) x a) h c"

definition generation_ok :: "fingerprint \<Rightarrow> nav_cache \<Rightarrow> bool" where
  "generation_ok fp g \<longleftrightarrow> entries_good fp g
     \<and> inputs_ok (nc_config g) (nc_snapshots g) (nc_strategy_snapshots g) (nc_histories g)
     \<and> bm_wf (nc_sources g) \<and> bm_wf (nc_inputs g)
     \<and> (\<forall>x \<in> set (nc_config g). sc_enabled x \<longrightarrow> (\<forall>a. \<exists>h c. generation_entry fp g x a h c))
     \<and> (\<forall>i a. i \<notin> sc_id ` {x \<in> set (nc_config g). sc_enabled x} \<longrightarrow>
          bm_get (nc_sources g) (i, a) = None \<and> bm_get (nc_inputs g) (i, a) = None)"

lemma refresh_ok:
  assumes ok: "inputs_ok config snapshots strategy_snapshots histories"
    and r: "nav_cache_refresh fp config snapshots strategy_snapshots histories_at histories previous = Inr g"
    and prev: "\<forall>g. previous = Some g \<longrightarrow> entries_good fp g \<and> history_promises g histories_at histories"
  shows "generation_ok fp g"
proof -
  note F = refresh_fields [OF r] and E = refresh_entries [OF r ok prev]
  have "bm_wf (nc_sources g) \<and> bm_wf (nc_inputs g)"
    using r by (auto simp: nav_cache_refresh_def Let_def rbind_Inr_iff bm_wf_shared)
  moreover have "distinct (map sc_id config)" using ok by (simp add: inputs_ok_def)
  note L = refresh_lookup(2) [OF r this]
  have "\<exists>h c. generation_entry fp g x a h c" if x: "x \<in> set config" "sc_enabled x" for x a
    using E(1) [OF x, of a] by (auto simp: generation_entry_def entry_of_def F)
  ultimately show ?thesis using E(2) ok L by (simp add: generation_ok_def F)
qed

lemma generations_ok: "nav_generation fp g \<Longrightarrow> generation_ok fp g"
proof (induction rule: nav_generation.induct)
  case (built config snapshots strategy_snapshots histories histories_at g)
  then show ?case by (intro refresh_ok [where previous = None]) (simp_all add: nav_cache_build_def)
next
  case (refreshed g config snapshots strategy_snapshots histories histories_at g')
  show ?case
    by (rule refresh_ok [OF refreshed.hyps(2,4)]) (use refreshed.hyps(3) refreshed.IH in \<open>simp add: generation_ok_def\<close>)
qed


subsection \<open>A refreshed generation is a cold start\<close>

lemma rmapM_succeeds: "\<forall>x \<in> set xs. \<exists>y. f x = Inr y \<Longrightarrow> \<exists>ys. rmapM f xs = Inr ys"
  by (induction xs) auto

lemma cold_entry:
  "refresh_entry fp snapshots strategy_snapshots histories_at histories None (address, x, a) = Inr (key, entry, inputs) \<longleftrightarrow>
     (\<exists>h effective c. bm_get histories (sc_id x) = Some h
        \<and> source_inputs x h (bm_get snapshots (sc_id x)) (if a then bm_get strategy_snapshots (sc_id x) else None) = Inr inputs
        \<and> effective_position_snapshot (bm_get snapshots (sc_id x)) (if a then bm_get strategy_snapshots (sc_id x) else None) = Inr effective
        \<and> load_entry fp x h (bm_get snapshots (sc_id x)) (if a then bm_get strategy_snapshots (sc_id x) else None) (position_count effective) = Inr c
        \<and> key = (sc_id x, a) \<and> entry = (address, c))"
  by (auto simp: refresh_entry_def Let_def rbind_Inr_iff rmap_Inr_iff history_of_def of_option_def previous_entry_def renew_entry_def
      split: option.split)

lemma build_succeeds:
  assumes "\<And>x a. x \<in> set config \<Longrightarrow> sc_enabled x \<Longrightarrow> \<exists>h effective c inputs. bm_get histories (sc_id x) = Some h
      \<and> source_inputs x h (bm_get snapshots (sc_id x)) (mode_strategy snapshots strategy_snapshots x a) = Inr inputs
      \<and> effective_position_snapshot (bm_get snapshots (sc_id x)) (mode_strategy snapshots strategy_snapshots x a) = Inr effective
      \<and> load_entry fp x h (bm_get snapshots (sc_id x)) (mode_strategy snapshots strategy_snapshots x a) (position_count effective) = Inr c"
  shows "\<exists>g. nav_cache_build fp config snapshots strategy_snapshots histories_at histories = Inr g"
proof -
  have "\<exists>y. refresh_entry fp snapshots strategy_snapshots histories_at histories None w = Inr y"
    if w: "w \<in> set (enumerate 0 (timeline_work config snapshots strategy_snapshots))" for w
  proof -
    obtain address x a where split: "w = (address, x, a)" by (rule prod_cases3)
    have work: "x \<in> set config" "sc_enabled x" "a \<longrightarrow> anchors_strategy snapshots strategy_snapshots x"
      using enumerated_source [OF w [unfolded split]] by (simp_all add: work_members)
    have "mode_strategy snapshots strategy_snapshots x a = (if a then bm_get strategy_snapshots (sc_id x) else None)"
      using work(3) by (simp add: mode_strategy_def)
    then have "\<exists>h effective c inputs. bm_get histories (sc_id x) = Some h
      \<and> source_inputs x h (bm_get snapshots (sc_id x)) (if a then bm_get strategy_snapshots (sc_id x) else None) = Inr inputs
      \<and> effective_position_snapshot (bm_get snapshots (sc_id x)) (if a then bm_get strategy_snapshots (sc_id x) else None) = Inr effective
      \<and> load_entry fp x h (bm_get snapshots (sc_id x)) (if a then bm_get strategy_snapshots (sc_id x) else None) (position_count effective) = Inr c"
      using assms [OF work(1,2), of a] by simp
    then have "\<exists>key entry inputs. refresh_entry fp snapshots strategy_snapshots histories_at histories None (address, x, a) = Inr (key, entry, inputs)"
      unfolding cold_entry by blast
    then show ?thesis unfolding split by blast
  qed
  then show ?thesis
    using rmapM_succeeds [of "enumerate 0 (timeline_work config snapshots strategy_snapshots)"
        "refresh_entry fp snapshots strategy_snapshots histories_at histories None"]
    by (auto simp: nav_cache_build_def nav_cache_refresh_def Let_def)
qed

lemma generation_loads:
  assumes "generation_entry fp g x a h c"
  obtains effective c0 inputs where
    "effective_position_snapshot (bm_get (nc_snapshots g) (sc_id x)) (mode_strategy (nc_snapshots g) (nc_strategy_snapshots g) x a) = Inr effective"
    "load_entry fp x h (bm_get (nc_snapshots g) (sc_id x)) (mode_strategy (nc_snapshots g) (nc_strategy_snapshots g) x a) (position_count effective) = Inr c0"
    "strip c0 = strip c" "bm_get (nc_histories g) (sc_id x) = Some h"
    "source_inputs x h (bm_get (nc_snapshots g) (sc_id x)) (mode_strategy (nc_snapshots g) (nc_strategy_snapshots g) x a) = Inr inputs"
    "bm_get (nc_inputs g) (sc_id x, a) = Some inputs"
  using assms by (auto simp: generation_entry_def entry_good_def rmap_Inr_iff)

text \<open>
  C6: A dashboard generation is what a cold start would build. However a generation has come about -
  entries carried over because nothing changed, entries updated from the changes of their history,
  entries loaded anew because their fees, names, snapshots or corrections changed, account entries
  shared with the strategy mode - building everything from the records gives the same entries in
  both modes, up to the count of replayed fills, and the same inputs.
\<close>

theorem generation_is_cold_start:
  assumes "nav_generation fp g"
  shows "\<exists>g0. nav_cache_build fp (nc_config g) (nc_snapshots g) (nc_strategy_snapshots g) (nc_histories_at g) (nc_histories g) = Inr g0
    \<and> bm_map (\<lambda>(_, c). strip c) (nc_sources g) = bm_map (\<lambda>(_, c). strip c) (nc_sources g0) \<and> nc_inputs g = nc_inputs g0"
proof -
  note G = generations_ok [OF assms, unfolded generation_ok_def]
  have entries: "\<exists>h c. generation_entry fp g x a h c" if "x \<in> set (nc_config g)" "sc_enabled x" for x a
    using G that by blast
  have "\<exists>g0. nav_cache_build fp (nc_config g) (nc_snapshots g) (nc_strategy_snapshots g) (nc_histories_at g) (nc_histories g) = Inr g0"
  proof (rule build_succeeds)
    fix x a assume "x \<in> set (nc_config g)" "sc_enabled x"
    then obtain h c where "generation_entry fp g x a h c" using entries by blast
    then show "\<exists>h effective c inputs. bm_get (nc_histories g) (sc_id x) = Some h
      \<and> source_inputs x h (bm_get (nc_snapshots g) (sc_id x)) (mode_strategy (nc_snapshots g) (nc_strategy_snapshots g) x a) = Inr inputs
      \<and> effective_position_snapshot (bm_get (nc_snapshots g) (sc_id x)) (mode_strategy (nc_snapshots g) (nc_strategy_snapshots g) x a) = Inr effective
      \<and> load_entry fp x h (bm_get (nc_snapshots g) (sc_id x)) (mode_strategy (nc_snapshots g) (nc_strategy_snapshots g) x a) (position_count effective) = Inr c"
      by (rule generation_loads) blast
  qed
  then obtain g0 where g0: "nav_cache_refresh fp (nc_config g) (nc_snapshots g) (nc_strategy_snapshots g) (nc_histories_at g) (nc_histories g) None = Inr g0"
    by (auto simp: nav_cache_build_def)
  have d: "distinct (map sc_id (nc_config g))" using G by (simp add: inputs_ok_def)
  note L = refresh_lookup [OF g0 d]
  have same: "map_option (\<lambda>(_, c). strip c) (bm_get (nc_sources g) (i, a)) = map_option (\<lambda>(_, c). strip c) (bm_get (nc_sources g0) (i, a))
      \<and> bm_get (nc_inputs g) (i, a) = bm_get (nc_inputs g0) (i, a)" for i a
  proof (cases "i \<in> sc_id ` {x \<in> set (nc_config g). sc_enabled x}")
    case False
    then show ?thesis using G L(2) [OF False, of a] by simp
  next
    case True
    then obtain x where x: "x \<in> set (nc_config g)" "sc_enabled x" "i = sc_id x" by blast
    obtain h c where e: "generation_entry fp g x a h c" using entries x by blast
    obtain address entry inputs where y: "refresh_entry fp (nc_snapshots g) (nc_strategy_snapshots g) (nc_histories_at g) (nc_histories g) None
        (address, x, a \<and> anchors_strategy (nc_snapshots g) (nc_strategy_snapshots g) x)
        = Inr ((sc_id x, a \<and> anchors_strategy (nc_snapshots g) (nc_strategy_snapshots g) x), entry, inputs)"
      "bm_get (nc_sources g0) (sc_id x, a) = Some entry" "bm_get (nc_inputs g0) (sc_id x, a) = Some inputs"
      using L(1) [OF x(1,2), of a] by blast
    note y1 = y(1) [unfolded cold_entry mode_strategy_def [symmetric]]
    obtain effective c0 inputs' where l:
      "effective_position_snapshot (bm_get (nc_snapshots g) (sc_id x)) (mode_strategy (nc_snapshots g) (nc_strategy_snapshots g) x a) = Inr effective"
      "load_entry fp x h (bm_get (nc_snapshots g) (sc_id x)) (mode_strategy (nc_snapshots g) (nc_strategy_snapshots g) x a) (position_count effective) = Inr c0"
      "strip c0 = strip c" "bm_get (nc_histories g) (sc_id x) = Some h"
      "source_inputs x h (bm_get (nc_snapshots g) (sc_id x)) (mode_strategy (nc_snapshots g) (nc_strategy_snapshots g) x a) = Inr inputs'"
      "bm_get (nc_inputs g) (sc_id x, a) = Some inputs'"
      using e by (rule generation_loads)
    have "entry = (address, c0) \<and> inputs = inputs'" using y1 l(1,2,4,5) by auto
    then show ?thesis using e l(3,6) y(2,3) by (auto simp: x(3) generation_entry_def entry_of_def)
  qed
  have wf: "bm_wf (nc_sources g0) \<and> bm_wf (nc_inputs g0)"
    using g0 by (auto simp: nav_cache_refresh_def Let_def rbind_Inr_iff bm_wf_shared)
  have "bm_map (\<lambda>(_, c). strip c) (nc_sources g) = bm_map (\<lambda>(_, c). strip c) (nc_sources g0)"
    by (rule bm_ext) (use G wf same in auto)
  moreover have "nc_inputs g = nc_inputs g0" by (rule bm_ext) (use G wf same in auto)
  ultimately show ?thesis using g0 by (auto simp: nav_cache_build_def)
qed

end
