(* ===== verification/Generation.thy ===== *)
theory Generation
  imports NavCache
begin

text \<open>
  What a dashboard generation serves: its account report is the report computed from the records,
  its windows are the windows computed from the records, its start of a series is the anchor of the
  source, and results shared between generations are right for both.
\<close>

subsection \<open>The account ledgers of a replay\<close>

text \<open>The account ledgers a state stands for: until its snapshot is due, the opening ones.\<close>

definition account_states :: "timeline_state \<Rightarrow> market_states" where
  "account_states s = (case rt_pending_initial_states s of None \<Rightarrow> rt_states s | Some initial \<Rightarrow> initial)"

definition same_account :: "timeline_state \<Rightarrow> timeline_state \<Rightarrow> bool" where
  "same_account s s' \<longleftrightarrow> account_states s' = account_states s \<and> rt_fee_rates s' = rt_fee_rates s
     \<and> rt_snapshot_ts_us s' = rt_snapshot_ts_us s \<and> (rt_pending_initial_states s = None \<longrightarrow> rt_pending_initial_states s' = None)"

lemma same_account_refl [simp]: "same_account s s"
  by (simp add: same_account_def)

lemma same_account_trans: "same_account s t \<Longrightarrow> same_account t u \<Longrightarrow> same_account s u"
  by (simp add: same_account_def)

lemma activate_same_account: "same_account s (activate_snapshot_at ts s)"
  by (auto simp: same_account_def account_states_def activate_snapshot_at_def Let_def due_def split: option.split)

lemma allocation_same_account: "apply_allocation a s = Inr s' \<Longrightarrow> same_account s s'"
  using activate_same_account [of s "as_snapshot_ts_us a"]
  by (auto simp: apply_allocation_def Let_def rbind_Inr_iff same_account_def account_states_def split: option.split)

lemma advance_loop_same_account: "advance_loop ts inclusive as s = Inr s' \<Longrightarrow> same_account s s'"
proof (induction ts inclusive as s rule: advance_loop.induct)
  case (2 ts inclusive a rest s)
  show ?case
  proof (cases "ts < as_snapshot_ts_us a \<or> (\<not> inclusive \<and> as_snapshot_ts_us a = ts)")
    case True
    then show ?thesis using 2(2) by auto
  next
    case False
    then obtain t where t: "apply_allocation a s = Inr t"
      "advance_loop ts inclusive rest (t\<lparr>rt_next_allocation := rt_next_allocation t + 1\<rparr>) = Inr s'"
      using 2(2) by (auto simp: rbind_Inr_iff)
    have "same_account t (t\<lparr>rt_next_allocation := rt_next_allocation t + 1\<rparr>)"      by (simp add: same_account_def account_states_def split: option.split)
    then show ?thesis
      using same_account_trans [OF same_account_trans [OF allocation_same_account [OF t(1)]]] 2(1) [OF False t(2)] by blast
  qed
qed simp

lemma advance_same_account: "advance_allocations ts inclusive s = Inr s' \<Longrightarrow> same_account s s'"
  unfolding advance_allocations_def by (rule advance_loop_same_account)

text \<open>A state is ripe for a fill once its snapshot is due no later than the fill.\<close>

definition ripe :: "timeline_state \<Rightarrow> i64 \<Rightarrow> bool" where
  "ripe s ts \<longleftrightarrow> rt_pending_initial_states s = None \<or> due s ts"

lemma ripe_activated: "ripe s ts \<Longrightarrow> rt_pending_initial_states (activate_snapshot_at ts s) = None"
  by (cases "rt_snapshot_ts_us s"; cases "rt_pending_initial_states s")
    (auto simp: ripe_def activate_snapshot_at_def Let_def due_def split: option.split)

lemma ripe_same_account: "same_account s s' \<Longrightarrow> ripe s ts \<Longrightarrow> ripe s' ts"
  by (auto simp: ripe_def same_account_def due_def)

lemma fill_same_account:
  assumes "timeline_apply_fill f s = Inr s'" and "ripe s (pf_fill_ts_us f)"
  shows "apply_account_fill (rt_fee_rates s) (account_states s) f = Inr (account_states s')
    \<and> rt_fee_rates s' = rt_fee_rates s \<and> rt_pending_initial_states s' = None \<and> rt_snapshot_ts_us s' = rt_snapshot_ts_us s"
proof -
  obtain t where t: "advance_allocations (pf_fill_ts_us f) False s = Inr t"
    using assms(1) by (auto simp: timeline_apply_fill_def rbind_Inr_iff)
  define u where "u = activate_snapshot_at (pf_fill_ts_us f) t"
  have st: "same_account s t" by (rule advance_same_account [OF t])
  have su: "same_account s u" unfolding u_def by (rule same_account_trans [OF st activate_same_account])
  have pending: "rt_pending_initial_states u = None" unfolding u_def by (rule ripe_activated [OF ripe_same_account [OF st assms(2)]])
  then have rates: "rt_fee_rates u = rt_fee_rates s" "rt_states u = account_states s" "rt_snapshot_ts_us u = rt_snapshot_ts_us s"
    using su by (simp_all add: same_account_def account_states_def)
  show ?thesis
    using assms(1) pending rates
    unfolding timeline_apply_fill_def t rbind_simps Let_def u_def [symmetric]
    by (auto simp: rbind_Inr_iff apply_account_fill_def account_states_def split: if_splits)
qed


text \<open>The account fills of a replay, in one fold.\<close>

lemma replay_step_account:
  assumes "replay_step active r (i, f) = Inr r'" and "ripe (rp_state r) (pf_fill_ts_us f)"
  shows "apply_account_fill (rt_fee_rates (rp_state r)) (account_states (rp_state r)) f = Inr (account_states (rp_state r'))
    \<and> rt_fee_rates (rp_state r') = rt_fee_rates (rp_state r) \<and> rt_pending_initial_states (rp_state r') = None"
proof -
  let ?r1 = "take_checkpoint i f (index_fill active f r)"
  have "same_account (rp_state r) (rp_state ?r1)"
    by (auto simp: take_checkpoint_def index_fill_def Let_def activate_same_account)
  moreover obtain s where "timeline_apply_fill f (rp_state ?r1) = Inr s" "rp_state r' = s"
    using assms(1) by (auto simp: replay_step_def Let_def rbind_Inr_iff)
  ultimately show ?thesis
    using fill_same_account [of f "rp_state ?r1" s] ripe_same_account [OF _ assms(2)] by (simp add: same_account_def)
qed

lemma replay_account:
  assumes "rfold (replay_step active) r (enumerate n fs) = Inr r'" and "\<forall>f \<in> set fs. ripe (rp_state r) (pf_fill_ts_us f)"
  shows "rfold (apply_account_fill (rt_fee_rates (rp_state r))) (account_states (rp_state r)) fs = Inr (account_states (rp_state r'))
    \<and> rt_fee_rates (rp_state r') = rt_fee_rates (rp_state r)
    \<and> (fs \<noteq> [] \<longrightarrow> rt_pending_initial_states (rp_state r') = None) \<and> (fs = [] \<longrightarrow> rp_state r' = rp_state r)"
  using assms
proof (induction fs arbitrary: n r)
  case (Cons f fs)
  obtain t where t: "replay_step active r (n, f) = Inr t" "rfold (replay_step active) t (enumerate (Suc n) fs) = Inr r'"
    using Cons.prems(1) by (auto simp: rbind_Inr_iff)
  have "ripe (rp_state r) (pf_fill_ts_us f)" using Cons.prems(2) by simp
  note S = replay_step_account [OF t(1) this]
  have "\<forall>f \<in> set fs. ripe (rp_state t) (pf_fill_ts_us f)" using S by (simp add: ripe_def)
  note I = Cons.IH [OF t(2) this]
  have "rt_pending_initial_states (rp_state r') = None" using I S by metis
  moreover have "rfold (apply_account_fill (rt_fee_rates (rp_state r))) (account_states (rp_state t)) fs = Inr (account_states (rp_state r'))"
    "rt_fee_rates (rp_state r') = rt_fee_rates (rp_state r)" using I S by metis+
  ultimately show ?case using S by (simp only: rfold.simps rbind_simps) simp
qed simp


text \<open>A finished replay has booked the account fills on the opening ledgers.\<close>

lemma build_account:
  assumes b: "build x p n = Inr c" and rates: "nav_fee_rates x = Inr rates"
    and late: "\<forall>ts. pe_snapshot_ts_us p = Some ts \<longrightarrow> ts \<le> i64_max \<and> (\<forall>f \<in> set (pe_fill_events p). ts \<le> pf_fill_ts_us f)"
    and none: "pe_snapshot_ts_us p = None \<longrightarrow> pe_initial_states p = []"
  shows "rfold (apply_account_fill rates) (pe_initial_states p) (pe_fill_events p) = Inr (rt_states (cs_end_state c))
    \<and> rt_fee_rates (cs_end_state c) = rates \<and> cs_report c = source_report x p n (cs_end_state c)"
proof -
  obtain s0 where s0: "initial_timeline_state x p = Inr s0" using b by (auto simp: build_def rbind_Inr_iff)
  have f0: "account_states s0 = pe_initial_states p" "rt_fee_rates s0 = rates" "rt_snapshot_ts_us s0 = pe_snapshot_ts_us p"
    "rt_pending_initial_states s0 = map_option (\<lambda>_. pe_initial_states p) (pe_snapshot_ts_us p)"
    using s0 rates none by (auto simp: initial_timeline_state_def account_states_def split: option.split)
  have ripe0: "ripe s0 ts" if "\<forall>t. pe_snapshot_ts_us p = Some t \<longrightarrow> t \<le> ts" for ts
    using that f0(3,4) by (auto simp: ripe_def due_def split: option.split)
  obtain r0 r s where r: "rfold (replay_step (pe_strategy_allocation_active p)) r0 (enumerate 0 (pe_fill_events p)) = Inr r"
    and start: "rp_state r0 = s0" and s: "advance_allocations i64_max True (activate_snapshot_at i64_max (rp_state r)) = Inr s"
    and c: "cs_end_state c = s" "cs_report c = source_report x p n s"
    using b unfolding build_def replay_def Let_def s0 rbind_simps
    by (auto simp: rbind_Inr_iff index_allocations_fields)
  have A: "rfold (apply_account_fill rates) (pe_initial_states p) (pe_fill_events p) = Inr (account_states (rp_state r))
    \<and> rt_fee_rates (rp_state r) = rates
    \<and> (pe_fill_events p \<noteq> [] \<longrightarrow> rt_pending_initial_states (rp_state r) = None) \<and> (pe_fill_events p = [] \<longrightarrow> rp_state r = s0)"
    using replay_account [OF r] ripe0 late f0 unfolding start by auto
  have "ripe (rp_state r) i64_max"
    using A ripe0 [of i64_max] late by (cases "pe_fill_events p = []") (auto simp: ripe_def)
  then have "rt_pending_initial_states (activate_snapshot_at i64_max (rp_state r)) = None" by (rule ripe_activated)
  then have "rt_pending_initial_states s = None" using advance_same_account [OF s] by (simp add: same_account_def)
  moreover have "same_account (rp_state r) s"
    by (rule same_account_trans [OF activate_same_account advance_same_account [OF s]])
  ultimately show ?thesis using A c by (simp add: same_account_def account_states_def)
qed


subsection \<open>The account report\<close>

lemma anchors_effective:
  "chosen_anchors x snapshot strategy = Inr (effective, chosen) \<Longrightarrow> effective_position_snapshot snapshot strategy = Inr effective"
  by (auto simp: chosen_anchors_def effective_position_snapshot_def rbind_Inr_iff split: option.splits if_splits)

lemma anchors_of_effective:
  assumes "chosen_anchors x snapshot strategy = Inr (effective, chosen)"
  shows "chosen_anchors x effective None = Inr (effective, None)"
  using assms
  by (auto simp: chosen_anchors_def rbind_Inr_iff rmap_Inr_iff rensure_Inr_iff account_snapshot_def Let_def split: option.splits if_splits)

lemma opened_account:
  "opened chosen effective fs = Inr (initial, strategies) \<Longrightarrow> \<exists>strategies'. opened None effective fs = Inr (initial, strategies')"
  by (auto simp: opened_def rbind_Inr_iff)

lemma account_fill_attributed: "apply_account_fill rates states (attribute_initial_position a i f) = apply_account_fill rates states f"
  by (simp add: apply_account_fill_def attribute_initial_position_def fill_market_def)

lemma account_fills_attributed:
  "rfold (apply_account_fill rates) states (map (attribute_initial_position a i) fs) = rfold (apply_account_fill rates) states fs"
  by (induction fs arbitrary: states) (simp_all add: account_fill_attributed)

lemma account_report:
  assumes p: "prepare_source_events fp x es snapshot strategy roles allocations = Inr p"
    and b: "build x p (position_count effective) = Inr c"
    and e: "effective_position_snapshot snapshot strategy = Inr effective"
    and es: "history_ok es" and t: "anchors_in_time snapshot strategy"
  shows "estimate_source_events fp x es [] effective roles = Inr (cs_report c)"
proof -
  have bound: "length es \<le> u64_max" using es by (simp add: history_ok_def)
  obtain chosen p0 as where a: "chosen_anchors x snapshot strategy = Inr (effective, chosen)"
    and p0: "read_events x roles es effective chosen = Inr p0" and pp: "p = p0\<lparr>pe_allocations := as\<rparr>"
    using p e anchors_effective by (fastforce simp: prepare_selects rbind_Inr_iff rmap_Inr_iff)
  let ?fs = "sort_key fill_order_key (fills_from roles (map_option ps_snapshot_ts_us effective) es)"
  obtain initial strategies where read: "list_all (readable (map_option ps_snapshot_ts_us effective)) es"
    and o: "opened chosen effective ?fs = Inr (initial, strategies)" and p0': "p0 = prepared_of effective chosen initial strategies roles es"
    using p0 unfolding read_events_closed [OF bound] by blast
  obtain strategies' where o': "opened None effective ?fs = Inr (initial, strategies')" using opened_account [OF o] by blast
  define q where "q = prepared_of effective None initial strategies' roles es"
  have "read_events x roles es effective None = Inr q"
    unfolding read_events_closed [OF bound] q_def using read o' by blast
  then have q: "prepare_source_events fp x es effective None roles [] = Inr q"
    using anchors_of_effective [OF a] by (simp add: prepare_reads)
  have fills: "\<exists>f. pe_fill_events p = map (attribute_initial_position (chosen \<noteq> None) initial) f
      \<and> pe_fill_events q = map (attribute_initial_position False initial) f"
    by (rule exI [of _ ?fs]) (simp add: pp p0' q_def prepared_of_def Let_def)
  then obtain f where f: "pe_fill_events p = map (attribute_initial_position (chosen \<noteq> None) initial) f"
    "pe_fill_events q = map (attribute_initial_position False initial) f" by blast
  have fields: "pe_initial_states p = initial" "pe_initial_states q = initial" "pe_snapshot_ts_us p = map_option ps_snapshot_ts_us effective"
    "pe_snapshot_ts_us q = map_option ps_snapshot_ts_us effective" "pe_order_event_count p = pe_order_event_count q"
    "pe_ignored_at_or_before_snapshot_event_count p = pe_ignored_at_or_before_snapshot_event_count q"
    "pe_ignored_non_fill_event_count p = pe_ignored_non_fill_event_count q"
    by (simp_all add: pp p0' q_def prepared_of_def Let_def)
  have times: "pf_fill_ts_us (attribute_initial_position a i g) = pf_fill_ts_us g" for a i g
    by (simp add: attribute_initial_position_def)
  obtain rates where rates: "nav_fee_rates x = Inr rates"
    using b by (auto simp: build_def initial_timeline_state_def rbind_Inr_iff rmap_err_Inr_iff)
  have late: "\<forall>ts. pe_snapshot_ts_us p = Some ts \<longrightarrow> ts \<le> i64_max \<and> (\<forall>f \<in> set (pe_fill_events p). ts \<le> pf_fill_ts_us f)"
  proof (intro allI impI conjI ballI)
    fix ts assume ts: "pe_snapshot_ts_us p = Some ts"
    show "ts \<le> i64_max" using anchor_time [OF p ts] t by (auto simp: anchors_in_time_def in_time_def i64_max_def checkpoint_us_def)
    fix g assume "g \<in> set (pe_fill_events p)"
    then have "g \<in> set (pe_fill_events p0)" by (simp add: pp)
    then show "ts \<le> pf_fill_ts_us g"
      unfolding p0' by (rule prepared_of_fills) (use ts fields in \<open>auto simp: after_anchor_def\<close>)
  qed
  have none: "pe_snapshot_ts_us p = None \<longrightarrow> pe_initial_states p = []"
    using o by (auto simp: fields opened_def)
  have A: "rfold (apply_account_fill rates) initial (pe_fill_events q) = Inr (rt_states (cs_end_state c))"
    "rt_fee_rates (cs_end_state c) = rates" "cs_report c = source_report x p (position_count effective) (cs_end_state c)"
    using build_account [OF b rates late none] by (simp_all add: f fields account_fills_attributed)
  have first: "(case pe_fill_events p of [] \<Rightarrow> None | f # _ \<Rightarrow> Some (pf_fill_ts_us f))
      = map_option pf_fill_ts_us (if pe_fill_events q = [] then None else Some (hd (pe_fill_events q)))"
    by (cases f) (simp_all add: f times)
  have last: "(case pe_fill_events p of [] \<Rightarrow> None | fs \<Rightarrow> Some (pf_fill_ts_us (last fs))) = map_option pf_fill_ts_us (last_option (pe_fill_events q))"
  proof -
    have L: "(case fs of [] \<Rightarrow> None | fs \<Rightarrow> Some (pf_fill_ts_us (last fs))) = map_option pf_fill_ts_us (last_option fs)" for fs
      by (cases fs) (simp_all add: last_option_def)
    show ?thesis unfolding L by (simp add: f times last_option_def last_map)
  qed
  show ?thesis
    unfolding estimate_source_events_def rates q Let_def
    by (simp add: A(1) A(3) fields(2) del: map_option_eq_Some)
      (simp add: A(2) source_report_def Let_def fields position_count_def first last split: option.split)
qed


text \<open>The snapshots name enabled sources only.\<close>

definition snapshots_known :: "nav_cache \<Rightarrow> bool" where
  "snapshots_known g \<longleftrightarrow> set (bm_keys (nc_snapshots g)) \<union> set (bm_keys (nc_strategy_snapshots g))
     \<subseteq> sc_id ` {x \<in> set (nc_config g). sc_enabled x}"

lemma select_all: "select_sources config [] = Inr (filter sc_enabled config)"
  by (simp add: select_sources_def set_of_list_def bm_keys_def bm_extend_def)

lemma selected_known: "set ids \<subseteq> set (map sc_id selected) \<Longrightarrow> selected_only selected ids what = Inr ()"
  unfolding selected_only_def by (induction ids) auto

lemma mode_effective:
  "effective_position_snapshot (bm_get snapshots (sc_id x)) (mode_strategy snapshots strategy_snapshots x True)
     = effective_position_snapshot (bm_get snapshots (sc_id x)) (bm_get strategy_snapshots (sc_id x))"
  by (auto simp: effective_position_snapshot_def mode_strategy_def anchors_strategy_def split: option.splits)

lemma dashboard_report_rebuilt:
  assumes "nav_generation fp g" and "snapshots_known g"
  shows "dashboard_report g
    = rebuild_nav_from_histories fp (nc_config g) [] (nc_snapshots g) (nc_strategy_snapshots g) (nc_histories g)"
proof -
  note G = generations_ok [OF assms(1), unfolded generation_ok_def]
  let ?sel = "filter sc_enabled (nc_config g)"
  have each: "\<exists>c. entry_of g (sc_id x) True = Some c
      \<and> rbind (history_of (nc_histories g) x) (\<lambda>h.
         rbind (effective_position_snapshot (bm_get (nc_snapshots g) (sc_id x)) (bm_get (nc_strategy_snapshots g) (sc_id x))) (\<lambda>effective.
         estimate_source_events fp x (nh_events h) [] effective (nh_liquidity_by_order h))) = Inr (cs_report c)"
    if "x \<in> set ?sel" for x
  proof -
    from that obtain h c where e: "generation_entry fp g x True h c" using G by fastforce
    then obtain effective c0 where l:
      "effective_position_snapshot (bm_get (nc_snapshots g) (sc_id x)) (mode_strategy (nc_snapshots g) (nc_strategy_snapshots g) x True) = Inr effective"
      "load_entry fp x h (bm_get (nc_snapshots g) (sc_id x)) (mode_strategy (nc_snapshots g) (nc_strategy_snapshots g) x True) (position_count effective) = Inr c0"
      "strip c0 = strip c" "bm_get (nc_histories g) (sc_id x) = Some h"
      by (rule generation_loads)
    obtain p where p: "prepare_source_events fp x (nh_events h) (bm_get (nc_snapshots g) (sc_id x))
        (mode_strategy (nc_snapshots g) (nc_strategy_snapshots g) x True) (nh_liquidity_by_order h) (nh_allocations h) = Inr p"
      "build x p (position_count effective) = Inr c0"
      using l(2) by (auto simp: load_entry_def rbind_Inr_iff)
    have "estimate_source_events fp x (nh_events h) [] effective (nh_liquidity_by_order h) = Inr (cs_report c0)"
      using account_report [OF p l(1)] e by (simp add: generation_entry_def entry_good_def)
    moreover have "cs_report c0 = cs_report c" using arg_cong [OF l(3), of cs_report] by (simp add: strip_def)
    ultimately show ?thesis
      using e l(1,4) by (simp add: mode_effective history_of_def of_option_def generation_entry_def)
  qed
  have keys: "set (bm_keys (nc_snapshots g)) \<subseteq> set (map sc_id ?sel)" "set (bm_keys (nc_strategy_snapshots g)) \<subseteq> set (map sc_id ?sel)"
    using assms(2) by (auto simp: snapshots_known_def)
  have "rmapM (\<lambda>x. of_option (SelectionError ''panic: no entry'') (map_option cs_report (entry_of g (sc_id x) True))) xs
      = rmapM (\<lambda>x. rbind (history_of (nc_histories g) x) (\<lambda>h.
         rbind (effective_position_snapshot (bm_get (nc_snapshots g) (sc_id x)) (bm_get (nc_strategy_snapshots g) (sc_id x))) (\<lambda>effective.
         estimate_source_events fp x (nh_events h) [] effective (nh_liquidity_by_order h)))) xs"
    if "set xs \<subseteq> set ?sel" for xs
    using that
  proof (induction xs)
    case (Cons x xs)
    then obtain c where "entry_of g (sc_id x) True = Some c"
      "rbind (history_of (nc_histories g) x) (\<lambda>h.
         rbind (effective_position_snapshot (bm_get (nc_snapshots g) (sc_id x)) (bm_get (nc_strategy_snapshots g) (sc_id x))) (\<lambda>effective.
         estimate_source_events fp x (nh_events h) [] effective (nh_liquidity_by_order h))) = Inr (cs_report c)"
      using each [of x] by auto
    then show ?case using Cons by (simp add: of_option_def)
  qed simp
  then show ?thesis
    unfolding dashboard_report_def rebuild_nav_from_histories_def select_all rbind_simps
    by (simp add: selected_known [OF keys(1)] selected_known [OF keys(2)])
qed

text \<open>
  C8: The account report of a generation is the report computed from the records. Each enabled
  source contributes, in the order of the configuration, the report that the estimate over its whole
  history gives from its effective opening snapshot - although the generation replayed it once, with
  strategies and corrections alongside, and has only followed the changes since.
\<close>

theorem dashboard_report_exact:
  assumes "nav_generation fp g" and "snapshots_known g"
  shows "dashboard_report g
    = rebuild_nav_from_histories fp (nc_config g) [] (nc_snapshots g) (nc_strategy_snapshots g) (nc_histories g)"
  by (rule dashboard_report_rebuilt [OF assms])


subsection \<open>Windows\<close>

lemma prepare_older_strategy:
  assumes "snapshot = Some s" and "ts_snapshot_ts_us t < ps_snapshot_ts_us s" and "strategy_snapshot_validate t = Inr ()"
    and "ts_source_id t = sc_id x"
  shows "prepare_source_events fp x es snapshot (Some t) roles allocations = prepare_source_events fp x es snapshot None roles allocations"
  using assms by (simp add: prepare_selects chosen_anchors_def)

definition strategies_valid :: "nav_cache \<Rightarrow> bool" where
  "strategies_valid g \<longleftrightarrow> (\<forall>x \<in> set (nc_config g). sc_enabled x \<longrightarrow> (\<forall>t. bm_get (nc_strategy_snapshots g) (sc_id x) = Some t \<longrightarrow>
     strategy_snapshot_validate t = Inr () \<and> ts_source_id t = sc_id x))"

lemma prepare_mode:
  assumes "strategies_valid g" and "x \<in> set (nc_config g)" and "sc_enabled x"
  shows "prepare_source_events fp x es (bm_get (nc_snapshots g) (sc_id x)) (bm_get (nc_strategy_snapshots g) (sc_id x)) roles allocations
    = prepare_source_events fp x es (bm_get (nc_snapshots g) (sc_id x))
        (mode_strategy (nc_snapshots g) (nc_strategy_snapshots g) x True) roles allocations"
proof (cases "anchors_strategy (nc_snapshots g) (nc_strategy_snapshots g) x \<or> bm_get (nc_strategy_snapshots g) (sc_id x) = None")
  case True
  then show ?thesis by (auto simp: mode_strategy_def)
next
  case False
  then obtain s t where st: "bm_get (nc_strategy_snapshots g) (sc_id x) = Some t" "bm_get (nc_snapshots g) (sc_id x) = Some s"
    "ts_snapshot_ts_us t < ps_snapshot_ts_us s"
    by (auto simp: anchors_strategy_def split: option.splits)
  have "strategy_snapshot_validate t = Inr ()" "ts_source_id t = sc_id x"
    using assms st(1) by (auto simp: strategies_valid_def)
  from prepare_older_strategy [OF st(2,3) this] show ?thesis using False st by (simp add: mode_strategy_def)
qed

lemma asked_for_requested:
  assumes "bm_wf m" and "requested_source q x"
  shows "bm_get (asked_for q m) (sc_id x) = bm_get m (sc_id x)"
  using assms by (auto simp: asked_for_def bm_get_filter requested_source_def split: option.split)

text \<open>Every entry is the replay of its records, its corrections included.\<close>

lemma entry_replayed:
  assumes "entry_good fp x snapshot strategy h c"
  obtains n where "replayed x n c"
proof -
  obtain effective c0 where l: "load_entry fp x h snapshot strategy (position_count effective) = Inr c0" "strip c0 = strip c"
    and p: "prepare_source_events fp x (nh_events h) snapshot strategy (nh_liquidity_by_order h) (nh_allocations h) = Inr (cs_prepared c)"
    and ok: "history_ok (nh_events h)" "anchors_in_time snapshot strategy"
    using assms by (auto simp: entry_good_def rmap_Inr_iff)
  have "\<forall>ts. pe_snapshot_ts_us (cs_prepared c) = Some ts \<longrightarrow> in_time ts"
    using anchor_time [OF p] ok(2) by (auto simp: anchors_in_time_def)
  then have "timed (cs_prepared c)" by (rule prepare_timed [OF p ok(1)])
  moreover have "rmap strip (build x (cs_prepared c) (position_count effective)) = Inr (strip c)"
    using l p by (simp add: load_entry_def)
  ultimately show thesis using that by (simp add: replayed_def)
qed

lemma generation_window_rebuilt:
  assumes "nav_generation fp g" and "allocation \<longrightarrow> strategies_valid g"
  shows "generation_window fp g q allocation prices
    = rebuild_nav_timeline fp (nc_config g) q (asked_for q (nc_snapshots g))
        (if allocation then asked_for q (nc_strategy_snapshots g) else []) (nc_histories g) None prices"
  unfolding generation_window_def
proof (rule window_from_cache, intro ballI impI)
  fix x assume x: "x \<in> set (nc_config g)" and q: "requested_source q x"
  note G = generations_ok [OF assms(1), unfolded generation_ok_def]
  let ?snapshots = "asked_for q (nc_snapshots g)" and ?strategies = "if allocation then asked_for q (nc_strategy_snapshots g) else []"
  have enabled: "sc_enabled x" using q by (simp add: requested_source_def)
  then obtain h c where e: "generation_entry fp g x allocation h c" using G x by blast
  then have "entry_good fp x (bm_get (nc_snapshots g) (sc_id x))
      (mode_strategy (nc_snapshots g) (nc_strategy_snapshots g) x allocation) h c" by (simp add: generation_entry_def)
  then obtain n where cache: "replayed x n c" by (rule entry_replayed)
  have wf: "bm_wf (nc_snapshots g)" "bm_wf (nc_strategy_snapshots g)" using G by (simp_all add: inputs_ok_def)
  have p: "prepare_source_events fp x (nh_events h) (bm_get (nc_snapshots g) (sc_id x))
      (mode_strategy (nc_snapshots g) (nc_strategy_snapshots g) x allocation) (nh_liquidity_by_order h) (nh_allocations h) = Inr (cs_prepared c)"
    using e by (auto simp: generation_entry_def entry_good_def)
  have "prepare_source_events fp x (nh_events h) (bm_get ?snapshots (sc_id x)) (bm_get ?strategies (sc_id x))
      (nh_liquidity_by_order h) (nh_allocations h) = Inr (cs_prepared c)"
    using p prepare_mode [OF _ x enabled] assms(2)
    by (cases allocation) (simp_all add: asked_for_requested [OF wf(1) q] asked_for_requested [OF wf(2) q] mode_strategy_def)
  then show "\<exists>c. cache_current fp ?snapshots ?strategies (nc_histories g) (bm_map snd (nc_sources g)) allocation x c"
    using e cache by (auto simp: cache_current_def generation_entry_def entry_of_def)
qed

text \<open>
  C7: Every window a generation serves is the window computed from the records. In both modes, with
  the ownership corrections in effect, for every range, sampling, selection and minute marks, the
  report, the error and the consumed marks are those of replaying each requested source from its
  opening position and its corrections, with the same snapshots. In strategy mode the strategy
  snapshots are to be valid and under their source's id, as their loader checks: the rebuild
  validates one that is older than the account snapshot, where the generation passes it over.
\<close>

theorem generation_window_exact:
  assumes "nav_generation fp g" and "allocation \<longrightarrow> strategies_valid g"
  shows "generation_window fp g q allocation prices
    = rebuild_nav_timeline fp (nc_config g) q (asked_for q (nc_snapshots g))
        (if allocation then asked_for q (nc_strategy_snapshots g) else []) (nc_histories g) None prices"
  by (rule generation_window_rebuilt [OF assms])


subsection \<open>Shared results\<close>

text \<open>
  Addresses identify values: two entries at one address are one entry, and every address in use is
  below the next free one.
\<close>

definition addresses_ok :: "nav_cache \<Rightarrow> bool" where
  "addresses_ok g \<longleftrightarrow> nc_results g < nc_next g
     \<and> (\<forall>key address c. bm_get (nc_sources g) key = Some (address, c) \<longrightarrow> address < nc_next g)
     \<and> (\<forall>key key' address c c'. bm_get (nc_sources g) key = Some (address, c) \<and> bm_get (nc_sources g) key' = Some (address, c') \<longrightarrow> c = c')"


text \<open>An entry of a refresh is the previous one of its key and inputs, or it has the address reserved for it.\<close>

lemma renewed_address:
  "renew_entry fp x h snapshot strategy n same previous address = Inr (at', c) \<Longrightarrow>
     at' = address \<or> (\<exists>old_h. previous = Some (at', c, old_h))"
  by (auto simp: renew_entry_def Let_def rbind_Inr_iff rmap_Inr_iff split: option.splits if_splits)

lemma previous_entry_Some:
  "previous_entry previous key inputs = Some (old_at, c, old_h) \<Longrightarrow>
     \<exists>g. previous = Some g \<and> bm_get (nc_sources g) key = Some (old_at, c) \<and> bm_get (nc_inputs g) key = Some inputs"
  by (auto simp: previous_entry_def split: option.splits if_splits)

lemma entry_address:
  assumes "refresh_entry fp snapshots strategy_snapshots histories_at histories previous (address, x, a) = Inr (key, (at', c), inputs)"
  shows "at' = address \<or> (\<exists>g. previous = Some g \<and> bm_get (nc_sources g) (sc_id x, a) = Some (at', c)
    \<and> bm_get (nc_inputs g) (sc_id x, a) = Some inputs)"
proof -
  obtain h snapshot strategy n same where "renew_entry fp x h snapshot strategy n same (previous_entry previous (sc_id x, a) inputs) address = Inr (at', c)"
    using assms by (auto simp: refresh_entry_def Let_def rbind_Inr_iff rmap_Inr_iff)
  then show ?thesis using renewed_address previous_entry_Some by blast
qed

lemma entry_inputs:
  assumes "refresh_entry fp snapshots strategy_snapshots histories_at histories previous (address, x, a) = Inr (key, entry, inputs)"
  shows "rmap_err NavConfig (nav_fee_rates x) = Inr (ti_fees inputs)"
  using assms by (auto simp: refresh_entry_def source_inputs_def Let_def rbind_Inr_iff rmap_Inr_iff)

lemma enumerated_bounds: "(i, x) \<in> set (enumerate base xs) \<Longrightarrow> base \<le> i \<and> i < base + length xs"
  by (simp add: in_set_enumerate_eq)

lemma enumerated_once: "(i, x) \<in> set (enumerate base xs) \<Longrightarrow> (i, y) \<in> set (enumerate base xs) \<Longrightarrow> x = y"
  by (simp add: in_set_enumerate_eq)

definition first_address :: "nav_cache option \<Rightarrow> nat" where
  "first_address previous = (case previous of None \<Rightarrow> 0 | Some g \<Rightarrow> nc_next g)"

text \<open>Where an entry of a refreshed generation comes from.\<close>

lemma refreshed_entry:
  assumes r: "nav_cache_refresh fp config snapshots strategy_snapshots histories_at histories previous = Inr g"
    and d: "distinct (map sc_id config)" and k: "bm_get (nc_sources g) (i, a) = Some (at', c)"
  obtains address x inputs where "x \<in> set config" "sc_enabled x" "i = sc_id x"
    "(address, x, a \<and> anchors_strategy snapshots strategy_snapshots x)
        \<in> set (enumerate (first_address previous) (timeline_work config snapshots strategy_snapshots))"
    "refresh_entry fp snapshots strategy_snapshots histories_at histories previous
        (address, x, a \<and> anchors_strategy snapshots strategy_snapshots x)
        = Inr ((i, a \<and> anchors_strategy snapshots strategy_snapshots x), (at', c), inputs)"
    "bm_get (nc_inputs g) (i, a) = Some inputs"
proof -
  note L = refresh_lookup [OF r d]
  have "i \<in> sc_id ` {x \<in> set config. sc_enabled x}" using L(2) [of i a] k by fastforce
  then obtain x where x: "x \<in> set config" "sc_enabled x" "i = sc_id x" by blast
  show thesis using L(1) [OF x(1,2), of a] that [OF x] k unfolding x(3) first_address_def by (elim exE conjE) auto
qed

lemma refresh_next:
  assumes "nav_cache_refresh fp config snapshots strategy_snapshots histories_at histories previous = Inr g"
  shows "nc_next g = first_address previous + length (timeline_work config snapshots strategy_snapshots) + 2"
    and "\<forall>p. previous = Some p \<longrightarrow> nc_results p < nc_next p \<Longrightarrow> nc_results g < nc_next g"
    and "nc_results g < first_address previous \<Longrightarrow> \<exists>p. previous = Some p \<and> same_sources (nc_sources p) (nc_sources g) \<and> nc_results g = nc_results p"
    and "previous = Some p \<Longrightarrow> same_sources (nc_sources p) (nc_sources g) \<Longrightarrow>
      nc_results g = nc_results p \<and> nc_mark_plans g = nc_mark_plans p"
  using assms by (auto simp: nav_cache_refresh_def Let_def rbind_Inr_iff first_address_def split: option.splits if_splits)

lemma refresh_addresses:
  assumes r: "nav_cache_refresh fp config snapshots strategy_snapshots histories_at histories previous = Inr g"
    and d: "distinct (map sc_id config)" and prev: "\<forall>p. previous = Some p \<longrightarrow> addresses_ok p"
  shows "addresses_ok g"
proof -
  let ?base = "first_address previous" and ?work = "timeline_work config snapshots strategy_snapshots"
  have origin: "(\<exists>p key. previous = Some p \<and> bm_get (nc_sources p) key = Some (at', c) \<and> at' < ?base)
      \<or> (\<exists>w inputs key. (at', w) \<in> set (enumerate ?base ?work)
           \<and> refresh_entry fp snapshots strategy_snapshots histories_at histories previous (at', w) = Inr (key, (at', c), inputs))"
    if key: "bm_get (nc_sources g) key = Some (at', c)" for key at' c
  proof -
    obtain address x inputs where e:
      "(address, x, snd key \<and> anchors_strategy snapshots strategy_snapshots x) \<in> set (enumerate ?base ?work)"
      "refresh_entry fp snapshots strategy_snapshots histories_at histories previous
        (address, x, snd key \<and> anchors_strategy snapshots strategy_snapshots x)
        = Inr ((fst key, snd key \<and> anchors_strategy snapshots strategy_snapshots x), (at', c), inputs)"
      using refreshed_entry [OF r d, of "fst key" "snd key" at' c] key by (metis prod.collapse)
    show ?thesis
    proof (cases "at' = address")
      case True
      then show ?thesis using e by blast
    next
      case False
      then obtain p key where "previous = Some p" "bm_get (nc_sources p) key = Some (at', c)"
        using entry_address [OF e(2)] by blast
      moreover from this have "at' < ?base" using prev unfolding addresses_ok_def first_address_def by (metis option.simps(5))
      ultimately show ?thesis by blast
    qed
  qed
  note N = refresh_next [OF r]
  have "at' < nc_next g" if "bm_get (nc_sources g) key = Some (at', c)" for key at' c
    using origin [OF that] enumerated_bounds [of at' _ ?base ?work] unfolding N(1) by fastforce
  moreover have "c = c'" if "bm_get (nc_sources g) key = Some (at', c)" "bm_get (nc_sources g) key' = Some (at', c')" for key key' at' c c'
    using origin [OF that(1)] origin [OF that(2)]
  proof (elim disjE exE conjE)
    fix p k p' k'
    assume "previous = Some p" "bm_get (nc_sources p) k = Some (at', c)" "previous = Some p'" "bm_get (nc_sources p') k' = Some (at', c')"
    then show "c = c'" using prev unfolding addresses_ok_def by (metis option.sel)
  next
    fix w inputs k w' inputs' k'
    assume "(at', w) \<in> set (enumerate ?base ?work)" "(at', w') \<in> set (enumerate ?base ?work)"
      and "refresh_entry fp snapshots strategy_snapshots histories_at histories previous (at', w) = Inr (k, (at', c), inputs)"
        "refresh_entry fp snapshots strategy_snapshots histories_at histories previous (at', w') = Inr (k', (at', c'), inputs')"
    then show "c = c'" using enumerated_once by fastforce
  qed (use enumerated_bounds [of at' _ ?base ?work] in fastforce)+
  moreover have "nc_results g < nc_next g" using N(2) prev by (simp add: addresses_ok_def)
  ultimately show ?thesis unfolding addresses_ok_def by blast
qed


lemma generation_addresses: "nav_generation fp g \<Longrightarrow> addresses_ok g"
proof (induction rule: nav_generation.induct)
  case (built config snapshots strategy_snapshots histories histories_at g)
  then show ?case by (intro refresh_addresses [where previous = None]) (auto simp: nav_cache_build_def inputs_ok_def)
next
  case (refreshed g config snapshots strategy_snapshots histories histories_at g')
  show ?case
    by (rule refresh_addresses [OF refreshed.hyps(4)]) (use refreshed.hyps(2) refreshed.IH in \<open>auto simp: inputs_ok_def\<close>)
qed

text \<open>Generations that read the same entries and fees for the same sources in the same order.\<close>

definition interchangeable :: "nav_cache \<Rightarrow> nav_cache \<Rightarrow> bool" where
  "interchangeable g g' \<longleftrightarrow> map sc_id (filter sc_enabled (nc_config g)) = map sc_id (filter sc_enabled (nc_config g'))
     \<and> (\<forall>i a. entry_of g i a = entry_of g' i a)
     \<and> (\<forall>x \<in> set (nc_config g). \<forall>x' \<in> set (nc_config g'). sc_enabled x \<and> sc_enabled x' \<and> sc_id x = sc_id x' \<longrightarrow>
          rmap_err NavConfig (nav_fee_rates x) = rmap_err NavConfig (nav_fee_rates x'))"

lemma generation_present:
  assumes "generation_ok fp g" and "x \<in> set (nc_config g)" and "sc_enabled x"
  shows "\<exists>address c. bm_get (nc_sources g) (sc_id x, a) = Some (address, c)"
proof -
  obtain h c where "generation_entry fp g x a h c" using assms unfolding generation_ok_def by blast
  then show ?thesis by (auto simp: generation_entry_def entry_of_def)
qed

lemma enabled_as_known:
  assumes "distinct (map sc_id config)"
  shows "enabled_as config i \<longleftrightarrow> i \<in> set (map sc_id (filter sc_enabled config))"
proof
  assume "i \<in> set (map sc_id (filter sc_enabled config))"
  then obtain x where x: "x \<in> set config" "sc_enabled x" "sc_id x = i" by auto
  then obtain y where y: "find (\<lambda>s. sc_id s = i) config = Some y"
    by (metis (mono_tags, lifting) find_None_iff not_None_eq)
  then have "y \<in> set config" "sc_id y = i" by (auto simp: find_Some_iff)
  then have "y = x" using assms x by (metis distinct_map inj_onD)
  then show "enabled_as config i" using x y by (simp add: enabled_as_def)
qed (auto simp: enabled_as_def find_Some_iff)

lemma asked_known:
  assumes "set (bm_keys m) \<subseteq> set (map sc_id (filter sc_enabled config))"
    and "select_sources config (tq_selected_source_ids q) = Inr selected"
  shows "set (bm_keys (asked_for q m)) \<subseteq> set (map sc_id selected)"
proof
  fix i assume "i \<in> set (bm_keys (asked_for q m))"
  then have i: "i \<in> set (bm_keys m)" "tq_selected_source_ids q = [] \<or> i \<in> set (tq_selected_source_ids q)"
    by (auto simp: asked_for_def bm_keys_def)
  then obtain x where "x \<in> set config" "sc_enabled x" "sc_id x = i" using assms(1) by auto
  then show "i \<in> set (map sc_id selected)" using i(2) assms(2) by (auto simp: select_sources_iff)
qed

lemma rfold_list_all2:
  assumes "list_all2 (\<lambda>x y. \<forall>s. f s x = g s y) xs ys"
  shows "rfold f s xs = rfold g s ys"
  using assms
proof (induction arbitrary: s)
  case (Cons x xs y ys)
  then show ?case by (cases "g s y") auto
qed simp

lemma window_interchange:
  assumes ok: "generation_ok fp g" "generation_ok fp g'" and known: "snapshots_known g" "snapshots_known g'"
    and inter: "interchangeable g g'" and r: "generation_window fp g q a prices = Inr r"
  shows "generation_window fp g' q a prices = Inr r"
proof -
  let ?hit = "\<lambda>g. Some (bm_map snd (nc_sources g), a)"
  let ?collect = "\<lambda>g. collect_source fp q (asked_for q (nc_snapshots g)) (if a then asked_for q (nc_strategy_snapshots g) else [])
      (nc_histories g) (?hit g)"
  have d: "distinct (map sc_id (nc_config g))" "distinct (map sc_id (nc_config g'))"
    using ok by (simp_all add: generation_ok_def inputs_ok_def)
  have ids: "map sc_id (filter sc_enabled (nc_config g)) = map sc_id (filter sc_enabled (nc_config g'))"
    using inter by (simp add: interchangeable_def)
  obtain selected where sel: "select_sources (nc_config g) (tq_selected_source_ids q) = Inr selected"
    using r by (auto simp: generation_window_def timeline_of_sources rbind_Inr_iff)
  define selected' where "selected' = filter (\<lambda>s. sc_enabled s \<and> (tq_selected_source_ids q = [] \<or> sc_id s \<in> set (tq_selected_source_ids q))) (nc_config g')"
  have sel': "select_sources (nc_config g') (tq_selected_source_ids q) = Inr selected'"
    using sel by (simp add: select_sources_iff list_all_iff enabled_as_known [OF d(1)] enabled_as_known [OF d(2)] ids selected'_def)
  have "map sc_id (filter (\<lambda>s. sc_enabled s \<and> P (sc_id s)) config) = filter P (map sc_id (filter sc_enabled config))" for P config
    by (induction config) auto
  note M = this [of "\<lambda>i. tq_selected_source_ids q = [] \<or> i \<in> set (tq_selected_source_ids q)"]
  have names: "map sc_id selected = map sc_id selected'"
    using sel unfolding select_sources_iff selected'_def by (elim conjE) (simp only: M ids)
  have keys: "set (bm_keys (asked_for q (nc_snapshots h))) \<subseteq> set (map sc_id s)"
    "set (bm_keys (if a then asked_for q (nc_strategy_snapshots h) else [])) \<subseteq> set (map sc_id s)"
    if "snapshots_known h" "select_sources (nc_config h) (tq_selected_source_ids q) = Inr s" for h s
  proof -
    have "set (bm_keys (nc_snapshots h)) \<subseteq> set (map sc_id (filter sc_enabled (nc_config h)))"
      "set (bm_keys (nc_strategy_snapshots h)) \<subseteq> set (map sc_id (filter sc_enabled (nc_config h)))"
      using that(1) by (auto simp: snapshots_known_def)
    from asked_known [OF this(1) that(2)] asked_known [OF this(2) that(2)]
    show "set (bm_keys (asked_for q (nc_snapshots h))) \<subseteq> set (map sc_id s)"
      "set (bm_keys (if a then asked_for q (nc_strategy_snapshots h) else [])) \<subseteq> set (map sc_id s)"
      by (cases a; simp add: bm_keys_def)+
  qed
  have same: "?collect g acc x = ?collect g' acc x'"
    if x: "x \<in> set selected" "x' \<in> set selected'" "sc_id x = sc_id x'" for acc x x'
  proof -
    have mem: "x \<in> set (nc_config g)" "sc_enabled x" "x' \<in> set (nc_config g')" "sc_enabled x'"
      using x sel by (simp_all add: select_sources_iff selected'_def)
    obtain h c h' where e: "bm_get (nc_histories g) (sc_id x) = Some h" "entry_of g (sc_id x) a = Some c"
      "bm_get (nc_histories g') (sc_id x') = Some h'"
      using ok mem by (simp add: generation_ok_def generation_entry_def) metis
    have hit: "cached_hit (?hit g) x = Some c" "cached_hit (?hit g') x' = Some c"
    proof -
      have "entry_of g' (sc_id x') a = Some c" using e(2) inter x(3) unfolding interchangeable_def by metis
      then show "cached_hit (?hit g) x = Some c" "cached_hit (?hit g') x' = Some c"
        using e(2) by (auto simp: cached_hit_def entry_of_def)
    qed
    have fees: "rmap_err NavConfig (nav_fee_rates x) = rmap_err NavConfig (nav_fee_rates x')"
      using inter mem x(3) by (simp add: interchangeable_def)
    show ?thesis
      unfolding collect_source_def initial_timeline_state_def history_of_def e(1,3) of_option_def option.case hit fees Let_def
      by (simp only: rbind_simps x(3) option.case)
  qed
  have "list_all2 (\<lambda>x x'. \<forall>acc. ?collect g acc x = ?collect g' acc x') selected selected'"
  proof (rule list_all2_all_nthI)
    show len: "length selected = length selected'" using names by (metis length_map)
    show "\<forall>acc. ?collect g acc (selected ! n) = ?collect g' acc (selected' ! n)" if n: "n < length selected" for n
    proof -
      have "sc_id (selected ! n) = sc_id (selected' ! n)" using names n len by (metis nth_map)
      then show ?thesis using same n len by simp
    qed
  qed
  note fold = rfold_list_all2 [OF this]
  have "window_of_sources q prices selected = window_of_sources q prices selected'"
    by (rule ext) (simp add: window_of_sources_def names)
  then show ?thesis
    using r unfolding generation_window_def timeline_of_sources sel sel' rbind_simps
      selected_known [OF keys(1) [OF known(1) sel]] selected_known [OF keys(2) [OF known(1) sel]]
      selected_known [OF keys(1) [OF known(2) sel']] selected_known [OF keys(2) [OF known(2) sel']] fold by simp
qed

lemma shared_sources:
  assumes r: "nav_cache_refresh fp config snapshots strategy_snapshots histories_at histories (Some g) = Inr g'"
    and ok: "generation_ok fp g" "generation_ok fp g'" and ad: "addresses_ok g"
    and s: "same_sources (nc_sources g) (nc_sources g')"
    and order: "map sc_id (filter sc_enabled (nc_config g)) = map sc_id (filter sc_enabled (nc_config g'))"
  shows "interchangeable g g'"
proof -
  have config: "nc_config g' = config" using refresh_fields [OF r] by simp
  have d: "distinct (map sc_id config)" using ok(2) by (simp add: generation_ok_def inputs_ok_def config)
  have kept: "\<exists>b inputs. bm_get (nc_sources g) (i, b) = Some (at', c) \<and> bm_get (nc_sources g) (i, a) = Some (at', c)
      \<and> (a = False \<longrightarrow> b = False) \<and> bm_get (nc_inputs g) (i, b) = Some inputs
      \<and> (\<exists>x \<in> set config. sc_enabled x \<and> sc_id x = i \<and> rmap_err NavConfig (nav_fee_rates x) = Inr (ti_fees inputs))"
    if k: "bm_get (nc_sources g') (i, a) = Some (at', c)" for i a at' c
  proof -
    have "bm_wf (nc_sources g')" using ok(2) by (simp add: generation_ok_def)
    then have "((i, a), at', c) \<in> set (nc_sources g')" using k by (simp add: bm_get_mem)
    then obtain c0 where c0: "bm_get (nc_sources g) (i, a) = Some (at', c0)"
      using s by (auto simp: same_sources_def list_all_iff)
    obtain address x inputs where e: "x \<in> set config" "sc_enabled x" "i = sc_id x"
      "(address, x, a \<and> anchors_strategy snapshots strategy_snapshots x)
          \<in> set (enumerate (first_address (Some g)) (timeline_work config snapshots strategy_snapshots))"
      "refresh_entry fp snapshots strategy_snapshots histories_at histories (Some g)
          (address, x, a \<and> anchors_strategy snapshots strategy_snapshots x)
          = Inr ((i, a \<and> anchors_strategy snapshots strategy_snapshots x), (at', c), inputs)"
      using refreshed_entry [OF r d k] by blast
    have "at' < nc_next g" using ad c0 by (auto simp: addresses_ok_def)
    then have "at' \<noteq> address" using enumerated_bounds [OF e(4)] by (simp add: first_address_def)
    then have old: "bm_get (nc_sources g) (i, a \<and> anchors_strategy snapshots strategy_snapshots x) = Some (at', c)"
      "bm_get (nc_inputs g) (i, a \<and> anchors_strategy snapshots strategy_snapshots x) = Some inputs"
      using entry_address [OF e(5)] e(3) by auto
    moreover have "c0 = c" using ad c0 old(1) unfolding addresses_ok_def by blast
    ultimately show ?thesis using c0 entry_inputs [OF e(5)] e(1-3) by blast
  qed
  have enabled: "sc_id ` {x \<in> set (nc_config g). sc_enabled x} = sc_id ` {x \<in> set config. sc_enabled x}"
    using arg_cong [OF order, of set] by (auto simp: config)
  have "entry_of g i a = entry_of g' i a" for i a
  proof (cases "bm_get (nc_sources g') (i, a)")
    case (Some e)
    then have "bm_get (nc_sources g') (i, a) = Some (fst e, snd e)" by simp
    from kept [OF this] have "bm_get (nc_sources g) (i, a) = Some (fst e, snd e)" by blast
    then show ?thesis using Some by (simp add: entry_of_def)
  next
    case None
    have "i \<notin> sc_id ` {x \<in> set config. sc_enabled x}"
    proof
      assume "i \<in> sc_id ` {x \<in> set config. sc_enabled x}"
      then obtain x where x: "x \<in> set (nc_config g')" "sc_enabled x" "i = sc_id x" unfolding config by blast
      show False using generation_present [OF ok(2) x(1,2), of a] None unfolding x(3) by simp
    qed
    then have "bm_get (nc_sources g) (i, a) = None" using ok(1) enabled by (simp add: generation_ok_def)
    then show ?thesis using None by (simp add: entry_of_def)
  qed
  moreover have "rmap_err NavConfig (nav_fee_rates x) = rmap_err NavConfig (nav_fee_rates x')"
    if x: "x \<in> set (nc_config g)" "x' \<in> set (nc_config g')" "sc_enabled x" "sc_enabled x'" "sc_id x = sc_id x'" for x x'
  proof -
    obtain h c where "generation_entry fp g x False h c" using ok(1) x unfolding generation_ok_def by blast
    then obtain inputs where e: "source_inputs x h (bm_get (nc_snapshots g) (sc_id x)) (mode_strategy (nc_snapshots g) (nc_strategy_snapshots g) x False) = Inr inputs"
      "bm_get (nc_inputs g) (sc_id x, False) = Some inputs"
      unfolding generation_entry_def by blast
    obtain at' c' where k: "bm_get (nc_sources g') (sc_id x', False) = Some (at', c')"
      using generation_present [OF ok(2) x(2,4)] by blast
    obtain inputs' y where y: "bm_get (nc_inputs g) (sc_id x', False) = Some inputs'" "y \<in> set config" "sc_enabled y" "sc_id y = sc_id x'"
      "rmap_err NavConfig (nav_fee_rates y) = Inr (ti_fees inputs')"
      using kept [OF k] by auto
    have "y = x'" using d y x by (metis config distinct_map inj_onD)
    moreover have "rmap_err NavConfig (nav_fee_rates x) = Inr (ti_fees inputs)"
      using e(1) by (auto simp: source_inputs_def rbind_Inr_iff)
    ultimately show ?thesis using e(2) y(1,5) x(5) by simp
  qed
  ultimately show ?thesis using order by (simp add: interchangeable_def)
qed

text \<open>
  C9: Sharing results by the identity of the entries is sound. If a refresh keeps the results cache of
  the previous generation - which it does when every entry of the new generation is, by address, the
  old one - then whatever either generation computes for a request is what the other computes, for
  every mode, range and marks, as long as the configuration lists its sources in the same order.
\<close>

theorem shared_results_agree:
  assumes "nav_generation fp g" and "inputs_ok config snapshots strategy_snapshots histories"
    and "history_promises g histories_at histories"
    and "nav_cache_refresh fp config snapshots strategy_snapshots histories_at histories (Some g) = Inr g'"
    and "nc_results g' = nc_results g" and "snapshots_known g" and "snapshots_known g'"
    and "map sc_id (filter sc_enabled config) = map sc_id (filter sc_enabled (nc_config g))"
  shows "generation_window fp g q a prices = Inr r \<longleftrightarrow> generation_window fp g' q a prices = Inr r"
proof -
  have ok: "generation_ok fp g" "generation_ok fp g'" and ad: "addresses_ok g"
    using generations_ok generation_addresses assms(1) nav_generation.refreshed [OF assms(1-4)] by blast+
  have config: "nc_config g' = config" using refresh_fields [OF assms(4)] by simp
  have "nc_results g' < nc_next g" using ad assms(5) by (simp add: addresses_ok_def)
  then have "same_sources (nc_sources g) (nc_sources g')"
    using refresh_next(3) [OF assms(4)] by (auto simp: first_address_def)
  then have i: "interchangeable g g'"
    by (rule shared_sources [OF assms(4) ok ad]) (simp add: assms(8) config)
  then have i': "interchangeable g' g" by (auto simp: interchangeable_def)
  show ?thesis using window_interchange [OF ok assms(6,7) i] window_interchange [OF ok(2,1) assms(7,6) i'] by blast
qed


subsection \<open>A refresh without news\<close>

lemma generation_shared:
  assumes "nav_generation fp g" and "x \<in> set (nc_config g)" and "sc_enabled x"
    and "\<not> anchors_strategy (nc_snapshots g) (nc_strategy_snapshots g) x"
  shows "bm_get (nc_sources g) (sc_id x, True) = bm_get (nc_sources g) (sc_id x, False)
    \<and> bm_get (nc_inputs g) (sc_id x, True) = bm_get (nc_inputs g) (sc_id x, False)"
  using assms
proof (cases rule: nav_generation.cases)
  case (built config snapshots strategy_snapshots histories histories_at)
  note r = built(2) [unfolded nav_cache_build_def]
  show ?thesis
    using refresh_lookup(3) [OF r] built(1) assms(2-) unfolding refresh_fields [OF r] by (simp add: inputs_ok_def)
next
  case (refreshed g0 config snapshots strategy_snapshots histories histories_at)
  note r = refreshed(4)
  show ?thesis
    using refresh_lookup(3) [OF r] refreshed(2) assms(2-) unfolding refresh_fields [OF r] by (simp add: inputs_ok_def)
qed

lemma unchanged_entry:
  assumes e: "generation_entry fp g x a h c" and k: "bm_get (nc_sources g) (sc_id x, a) = Some (at', c)"
    and m: "a \<longrightarrow> anchors_strategy (nc_snapshots g) (nc_strategy_snapshots g) x"
  shows "\<exists>inputs. bm_get (nc_inputs g) (sc_id x, a) = Some inputs
    \<and> refresh_entry fp (nc_snapshots g) (nc_strategy_snapshots g) (nc_histories_at g) (nc_histories g) (Some g) (address, x, a)
        = Inr ((sc_id x, a), (at', c), inputs)"
proof -
  have mode: "mode_strategy (nc_snapshots g) (nc_strategy_snapshots g) x a = (if a then bm_get (nc_strategy_snapshots g) (sc_id x) else None)"
    using m by (auto simp: mode_strategy_def)
  obtain effective c0 inputs where l:
    "effective_position_snapshot (bm_get (nc_snapshots g) (sc_id x)) (mode_strategy (nc_snapshots g) (nc_strategy_snapshots g) x a) = Inr effective"
    "bm_get (nc_histories g) (sc_id x) = Some h"
    "source_inputs x h (bm_get (nc_snapshots g) (sc_id x)) (mode_strategy (nc_snapshots g) (nc_strategy_snapshots g) x a) = Inr inputs"
    "bm_get (nc_inputs g) (sc_id x, a) = Some inputs"
    using e by (rule generation_loads)
  have "previous_entry (Some g) (sc_id x, a) inputs = Some (at', c, h)"
    using l(2,4) k by (simp add: previous_entry_def)
  then have "renew_entry fp x h snapshot strategy n (same_histories (Some g) (nc_histories_at g))
      (previous_entry (Some g) (sc_id x, a) inputs) address = Inr (at', c)" for snapshot strategy n
    by (simp add: renew_entry_def history_unchanged_def same_histories_def)
  then show ?thesis using l unfolding mode by (simp add: refresh_entry_def history_of_def of_option_def Let_def)
qed

lemma refresh_keeps:
  assumes "nav_generation fp g"
  shows "\<exists>g'. nav_cache_refresh fp (nc_config g) (nc_snapshots g) (nc_strategy_snapshots g) (nc_histories_at g) (nc_histories g) (Some g) = Inr g'
    \<and> nc_sources g' = nc_sources g \<and> nc_inputs g' = nc_inputs g \<and> nc_results g' = nc_results g \<and> nc_mark_plans g' = nc_mark_plans g"
proof -
  let ?refresh = "refresh_entry fp (nc_snapshots g) (nc_strategy_snapshots g) (nc_histories_at g) (nc_histories g) (Some g)"
  let ?anchored = "anchors_strategy (nc_snapshots g) (nc_strategy_snapshots g)"
  have ok: "generation_ok fp g" by (rule generations_ok [OF assms])
  have d: "distinct (map sc_id (nc_config g))" and wf: "bm_wf (nc_sources g)" "bm_wf (nc_inputs g)"
    using ok by (simp_all add: generation_ok_def inputs_ok_def)
  have entry: "\<exists>at' c inputs. bm_get (nc_sources g) (sc_id x, a) = Some (at', c) \<and> bm_get (nc_inputs g) (sc_id x, a) = Some inputs
      \<and> ?refresh (address, x, a) = Inr ((sc_id x, a), (at', c), inputs)"
    if x: "x \<in> set (nc_config g)" "sc_enabled x" "a \<longrightarrow> ?anchored x" for x a address
  proof -
    obtain h c where e: "generation_entry fp g x a h c" using ok x(1,2) unfolding generation_ok_def by blast
    then obtain at' where k: "bm_get (nc_sources g) (sc_id x, a) = Some (at', c)" by (auto simp: generation_entry_def entry_of_def)
    show ?thesis using unchanged_entry [OF e k x(3)] k by blast
  qed
  have "\<exists>y. ?refresh w = Inr y"
    if "w \<in> set (enumerate (nc_next g) (timeline_work (nc_config g) (nc_snapshots g) (nc_strategy_snapshots g)))" for w
  proof -
    obtain address x a where split: "w = (address, x, a)" by (rule prod_cases3)
    show ?thesis using enumerated_source [OF that [unfolded split]] entry unfolding split work_members by blast
  qed
  then obtain g' where g': "nav_cache_refresh fp (nc_config g) (nc_snapshots g) (nc_strategy_snapshots g) (nc_histories_at g) (nc_histories g) (Some g) = Inr g'"
    using rmapM_succeeds [of "enumerate (nc_next g) (timeline_work (nc_config g) (nc_snapshots g) (nc_strategy_snapshots g))" ?refresh]
    by (auto simp: nav_cache_refresh_def Let_def)
  note L = refresh_lookup [OF g' d]
  have same: "bm_get (nc_sources g') (i, a) = bm_get (nc_sources g) (i, a) \<and> bm_get (nc_inputs g') (i, a) = bm_get (nc_inputs g) (i, a)" for i a
  proof (cases "i \<in> sc_id ` {x \<in> set (nc_config g). sc_enabled x}")
    case False
    then show ?thesis using L(2) ok unfolding generation_ok_def by metis
  next
    case True
    then obtain x where x: "x \<in> set (nc_config g)" "sc_enabled x" "i = sc_id x" by blast
    obtain address e inputs where r: "?refresh (address, x, a \<and> ?anchored x) = Inr ((sc_id x, a \<and> ?anchored x), e, inputs)"
      "bm_get (nc_sources g') (sc_id x, a) = Some e" "bm_get (nc_inputs g') (sc_id x, a) = Some inputs"
      using L(1) [OF x(1,2), of a] by blast
    have "bm_get (nc_sources g) (sc_id x, a \<and> ?anchored x) = Some e \<and> bm_get (nc_inputs g) (sc_id x, a \<and> ?anchored x) = Some inputs"
      using entry [OF x(1,2), of "a \<and> ?anchored x" address] r(1) by auto
    then show ?thesis
      using r(2,3) generation_shared [OF assms x(1,2)] unfolding x(3) by (cases a; cases "?anchored x") simp_all
  qed
  have wf': "bm_wf (nc_sources g') \<and> bm_wf (nc_inputs g')"
    using g' by (auto simp: nav_cache_refresh_def Let_def rbind_Inr_iff bm_wf_shared)
  have s: "nc_sources g' = nc_sources g" by (rule bm_ext) (use wf wf' same in auto)
  have i: "nc_inputs g' = nc_inputs g" by (rule bm_ext) (use wf wf' same in auto)
  have refl: "same_sources (nc_sources g) (nc_sources g)"
    using bm_get_mem [OF wf(1)] by (auto simp: same_sources_def list_all_iff)
  have "nc_results g' = nc_results g \<and> nc_mark_plans g' = nc_mark_plans g"
    using refl by (intro refresh_next(4) [OF g']) (simp_all add: s)
  then show ?thesis using g' s i by blast
qed

text \<open>
  A refresh without news changes nothing. With the configuration, the snapshots and the histories
  of a generation, a refresh succeeds and keeps every entry by address, the results and the plans of
  minute marks, so that nothing is replayed or computed twice.
\<close>

theorem refresh_without_news:
  assumes "nav_generation fp g"
  shows "\<exists>g'. nav_cache_refresh fp (nc_config g) (nc_snapshots g) (nc_strategy_snapshots g) (nc_histories_at g) (nc_histories g) (Some g) = Inr g'
    \<and> nc_sources g' = nc_sources g \<and> nc_inputs g' = nc_inputs g \<and> nc_results g' = nc_results g \<and> nc_mark_plans g' = nc_mark_plans g"
  by (rule refresh_keeps [OF assms])


subsection \<open>Witnesses\<close>

lemma sample_generation:
  "\<exists>g. nav_generation (\<lambda>_. Inr '''') g \<and> nc_config g = [sample_source ''a''] \<and> nc_snapshots g = [] \<and> nc_strategy_snapshots g = []
     \<and> nc_histories_at g = 7 \<and> nc_histories g = [(''a'', sample_history)]
     \<and> inputs_ok [sample_source ''a''] [] [] [(''a'', sample_history)]"
proof -
  let ?fp = "\<lambda>_. Inr ''''" and ?x = "sample_source ''a''"
  obtain c where s: "served ?x None None 0 [sample_fill] [] c" using sample_served by blast
  note R = served_reads [OF s]
  have h: "history_ok (nh_events sample_history)" using R by (simp add: sample_history_def)
  have ok: "inputs_ok [?x] [] [] [(''a'', sample_history)]"
    using h by (simp add: inputs_ok_def anchors_in_time_def sample_source_def)
  obtain c0 where "build ?x (cs_prepared c) 0 = Inr c0" using R by (auto simp: cache_of_def rmap_Inr_iff)
  then have l: "load_entry ?fp ?x sample_history None None (position_count None) = Inr c0"
    using R by (auto simp: load_entry_def prepare_reads position_count_def sample_history_def)
  then obtain rates where "nav_fee_rates ?x = Inr rates"
    by (auto simp: load_entry_def build_def initial_timeline_state_def rbind_Inr_iff rmap_err_Inr_iff)
  then have "\<exists>g. nav_cache_build ?fp [?x] [] [] 7 [(''a'', sample_history)] = Inr g"
    using l by (intro build_succeeds) (auto simp: mode_strategy_def source_inputs_def effective_position_snapshot_def sample_source_def)
  then obtain g where g: "nav_cache_build ?fp [?x] [] [] 7 [(''a'', sample_history)] = Inr g" by blast
  show ?thesis
    using nav_generation.built [OF ok g] refresh_fields [OF g [unfolded nav_cache_build_def]] ok by blast
qed

theorem generation_is_cold_start_witness:
  "\<exists>g g0. nav_generation (\<lambda>_. Inr '''') g \<and> nav_cache_build (\<lambda>_. Inr '''') [sample_source ''a''] [] [] 7 [(''a'', sample_history)] = Inr g0
     \<and> bm_map (\<lambda>(_, c). strip c) (nc_sources g) = bm_map (\<lambda>(_, c). strip c) (nc_sources g0) \<and> nc_inputs g = nc_inputs g0"
proof -
  obtain g where g: "nav_generation (\<lambda>_. Inr '''') g" "nc_config g = [sample_source ''a'']" "nc_snapshots g = []"
    "nc_strategy_snapshots g = []" "nc_histories_at g = 7" "nc_histories g = [(''a'', sample_history)]"
    using sample_generation by blast
  show ?thesis using generation_is_cold_start [OF g(1)] g by auto
qed

theorem dashboard_report_exact_witness:
  "\<exists>g. nav_generation (\<lambda>_. Inr '''') g
     \<and> dashboard_report g = rebuild_nav_from_histories (\<lambda>_. Inr '''') [sample_source ''a''] [] [] [] [(''a'', sample_history)]"
proof -
  obtain g where g: "nav_generation (\<lambda>_. Inr '''') g" "nc_config g = [sample_source ''a'']" "nc_snapshots g = []"
    "nc_strategy_snapshots g = []" "nc_histories g = [(''a'', sample_history)]"
    using sample_generation by blast
  have "snapshots_known g" by (simp add: snapshots_known_def g bm_keys_def)
  then show ?thesis using dashboard_report_exact [OF g(1)] g by auto
qed

theorem generation_window_exact_witness:
  "\<exists>g. nav_generation (\<lambda>_. Inr '''') g
     \<and> generation_window (\<lambda>_. Inr '''') g (cached_request (Some 20)) True None
       = rebuild_nav_timeline (\<lambda>_. Inr '''') [sample_source ''a''] (cached_request (Some 20)) [] [] [(''a'', sample_history)] None None"
proof -
  obtain g where g: "nav_generation (\<lambda>_. Inr '''') g" "nc_config g = [sample_source ''a'']" "nc_snapshots g = []"
    "nc_strategy_snapshots g = []" "nc_histories g = [(''a'', sample_history)]"
    using sample_generation by blast
  have "strategies_valid g" by (simp add: strategies_valid_def g)
  then have "True \<longrightarrow> strategies_valid g" ..
  from generation_window_exact [OF g(1) this, of "cached_request (Some 20)" None]
  show ?thesis using g by (intro exI [of _ g]) (simp add: asked_for_def)
qed

theorem refresh_without_news_witness:
  "\<exists>g g'. nav_generation (\<lambda>_. Inr '''') g
     \<and> nav_cache_refresh (\<lambda>_. Inr '''') [sample_source ''a''] [] [] 7 [(''a'', sample_history)] (Some g) = Inr g'
     \<and> nc_sources g' = nc_sources g \<and> nc_inputs g' = nc_inputs g \<and> nc_results g' = nc_results g \<and> nc_mark_plans g' = nc_mark_plans g"
proof -
  obtain g where g: "nav_generation (\<lambda>_. Inr '''') g" "nc_config g = [sample_source ''a'']" "nc_snapshots g = []"
    "nc_strategy_snapshots g = []" "nc_histories_at g = 7" "nc_histories g = [(''a'', sample_history)]"
    using sample_generation by blast
  show ?thesis using refresh_without_news [OF g(1)] g by auto
qed


theorem shared_results_agree_witness:
  "\<exists>g g' r. nav_cache_refresh (\<lambda>_. Inr '''') [sample_source ''a''] [] [] 7 [(''a'', sample_history)] (Some g) = Inr g'
     \<and> nc_results g' = nc_results g
     \<and> (generation_window (\<lambda>_. Inr '''') g (cached_request None) False None = Inr r
        \<longleftrightarrow> generation_window (\<lambda>_. Inr '''') g' (cached_request None) False None = Inr r)"
proof -
  obtain g where g: "nav_generation (\<lambda>_. Inr '''') g" "nc_config g = [sample_source ''a'']" "nc_snapshots g = []"
    "nc_strategy_snapshots g = []" "nc_histories_at g = 7" "nc_histories g = [(''a'', sample_history)]"
    "inputs_ok [sample_source ''a''] [] [] [(''a'', sample_history)]"
    using sample_generation by blast
  obtain g' where g': "nav_cache_refresh (\<lambda>_. Inr '''') [sample_source ''a''] [] [] 7 [(''a'', sample_history)] (Some g) = Inr g'"
    "nc_results g' = nc_results g"
    using refresh_keeps [OF g(1)] g by auto
  note F = refresh_fields [OF g'(1)]
  have promise: "history_promises g 7 [(''a'', sample_history)]"
    by (auto simp: history_promises_def g(6) history_follows_def sample_history_def sample_change_def split: if_splits)
  show ?thesis
    using shared_results_agree [OF g(1,7) promise g'] g'
    by (fastforce simp: snapshots_known_def bm_keys_def g F)
qed

end
