(* ===== verification/Service.thy ===== *)
theory Service
  imports ReadOnce Generation
begin

text \<open>
  The dashboard service (\<open>web.rs\<close>: \<open>build_dashboard\<close>, \<open>refresh_loop\<close>): each tick reads the operator's
  rates, reads and validates the anchors (\<open>postgres.rs\<close>), refreshes the history store, attaches the ownership corrections, refreshes the
  cache of replayed sources and publishes the account report. A failed tick keeps the last dashboard.
\<close>

subsection \<open>Inputs of a tick\<close>

text \<open>The last equity and risk readings of an account (values of the live equity hub).\<close>

record live_reading =
  lr_equity :: "(f64 \<times> i64) option"
  lr_unified_account :: bool
  lr_uni_mmr :: "f64 option"
  lr_uni_mmr_ts_ms :: "i64 option"

text \<open>What a tick reads: tables of the database, execution databases and evidence, clocks, a fresh address.\<close>

record service_inputs =
  si_fee_rates :: "(string, fee_rates) bmap"
  si_allocations :: "(string, allocation_snapshot list) bmap"
  si_anchor :: "string \<Rightarrow> (i64 \<times> snapshot_position list) option"
  si_strategy_anchor :: "string \<Rightarrow> (i64 \<times> strategy_snapshot_position list) option"
  si_live :: "string \<Rightarrow> live_reading option"
  si_recovery :: "source_config \<Rightarrow> recovery"
  si_databases :: "source_config \<Rightarrow> source_db"
  si_histories_at :: nat
  si_now_ms :: i64
  si_duration_ms :: nat
  si_generated_at_us :: i64

definition attach :: "histories \<Rightarrow> (string, allocation_snapshot list) bmap \<Rightarrow> histories" where
  "attach histories snapshots =
     map (\<lambda>(source, h). (source, h\<lparr>nh_allocations := (case bm_get snapshots source of None \<Rightarrow> [] | Some a \<Rightarrow> a)\<rparr>)) histories"

text \<open>
  The latest stored anchors (\<open>postgres.rs\<close>): the time and the positions of the newest row, under the
  source's id, refused when they are not a valid snapshot.
\<close>

definition load_latest_position_snapshot :: "(i64 \<times> snapshot_position list) option \<Rightarrow> string \<Rightarrow> nav_error + position_snapshot option" where
  "load_latest_position_snapshot row source_id =
     (case row of None \<Rightarrow> Inr None
      | Some (snapshot_ts_us, positions) \<Rightarrow>
          let snapshot = \<lparr>ps_source_id = source_id, ps_snapshot_ts_us = snapshot_ts_us, ps_positions = positions\<rparr>
          in rbind (snapshot_validate snapshot) (\<lambda>_. Inr (Some snapshot)))"

definition load_latest_strategy_position_snapshot ::
    "(i64 \<times> strategy_snapshot_position list) option \<Rightarrow> string \<Rightarrow> nav_error + strategy_position_snapshot option" where
  "load_latest_strategy_position_snapshot row source_id =
     (case row of None \<Rightarrow> Inr None
      | Some (snapshot_ts_us, positions) \<Rightarrow>
          let snapshot = \<lparr>ts_source_id = source_id, ts_snapshot_ts_us = snapshot_ts_us, ts_positions = positions\<rparr>
          in rbind (strategy_snapshot_validate snapshot) (\<lambda>_. Inr (Some snapshot)))"

definition insert_found :: "string \<Rightarrow> 'a option \<Rightarrow> (string, 'a) bmap \<Rightarrow> (string, 'a) bmap" where
  "insert_found source_id found m = (case found of None \<Rightarrow> m | Some snapshot \<Rightarrow> bm_insert source_id snapshot m)"

definition load_source_anchors ::
    "service_inputs \<Rightarrow> snapshots \<times> strategy_snapshots \<Rightarrow> source_config \<Rightarrow> nav_error + snapshots \<times> strategy_snapshots" where
  "load_source_anchors i loaded source =
     rbind (load_latest_position_snapshot (si_anchor i (sc_id source)) (sc_id source)) (\<lambda>snapshot.
     rbind (load_latest_strategy_position_snapshot (si_strategy_anchor i (sc_id source)) (sc_id source)) (\<lambda>strategy_snapshot.
     Inr (insert_found (sc_id source) snapshot (fst loaded), insert_found (sc_id source) strategy_snapshot (snd loaded))))"

text \<open>The anchors of the enabled sources that have one.\<close>

definition load_anchors :: "service_inputs \<Rightarrow> source_config list \<Rightarrow> nav_error + snapshots \<times> strategy_snapshots" where
  "load_anchors i config = rfold (load_source_anchors i) ([], []) (filter sc_enabled config)"

subsection \<open>Accounts\<close>

record dashboard_account =
  da_source_id :: string
  da_account :: string
  da_venue :: string
  da_enabled :: bool
  da_gateway_prefix :: "string option"
  da_configurable :: bool
  da_target_proxy_enabled :: bool
  da_account_pnl_start_ts_us :: "i64 option"
  da_strategy_pnl_start_ts_us :: "i64 option"
  da_live_equity_usdt :: "f64 option"
  da_live_equity_status :: "string option"
  da_unified_account :: bool
  da_uni_mmr :: "f64 option"
  da_uni_mmr_status :: "string option"

definition live_equity_status :: "i64 \<Rightarrow> i64 \<Rightarrow> string" where
  "live_equity_status snapshot_ts_ms now_ms =
     (if 45000 < max 0 (max i64_min (min i64_max (now_ms - snapshot_ts_ms))) then ''stale'' else ''ok'')"

definition strategy_pnl_start :: "i64 option \<Rightarrow> strategy_position_snapshot option \<Rightarrow> i64 option" where
  "strategy_pnl_start account_start strategy =
     or_else (case strategy of None \<Rightarrow> None
         | Some t \<Rightarrow> if (case account_start of None \<Rightarrow> True | Some start \<Rightarrow> start \<le> ts_snapshot_ts_us t) then Some (ts_snapshot_ts_us t) else None)
       account_start"

definition account_row :: "service_inputs \<Rightarrow> snapshots \<Rightarrow> strategy_snapshots \<Rightarrow> source_config \<Rightarrow> dashboard_account" where
  "account_row inputs snapshots strategy_snapshots source =
     (let reading = si_live inputs (sc_id source);
          live = (case reading of None \<Rightarrow> None | Some r \<Rightarrow> lr_equity r);
          account_start = map_option ps_snapshot_ts_us (bm_get snapshots (sc_id source))
      in \<lparr>da_source_id = sc_id source, da_account = display_name source, da_venue = sc_venue source, da_enabled = sc_enabled source,
          da_gateway_prefix = sc_gateway_prefix source, da_configurable = (sc_exec_config_url source \<noteq> None),
          da_target_proxy_enabled = (sc_target_proxy source \<noteq> None),
          da_account_pnl_start_ts_us = account_start,
          da_strategy_pnl_start_ts_us = strategy_pnl_start account_start (bm_get strategy_snapshots (sc_id source)),
          da_live_equity_usdt = map_option fst live,
          da_live_equity_status = map_option (\<lambda>(_, ts). live_equity_status ts (si_now_ms inputs)) live,
          da_unified_account = (case reading of None \<Rightarrow> False | Some r \<Rightarrow> lr_unified_account r),
          da_uni_mmr = (case reading of None \<Rightarrow> None | Some r \<Rightarrow> lr_uni_mmr r),
          da_uni_mmr_status = (case reading of None \<Rightarrow> None
             | Some r \<Rightarrow> map_option (\<lambda>ts. live_equity_status ts (si_now_ms inputs)) (lr_uni_mmr_ts_ms r))\<rparr>)"

subsection \<open>A build\<close>

record dashboard_snapshot =
  ds_generated_at_us :: i64
  ds_generation_duration_ms :: nat
  ds_refresh_interval_secs :: nat
  ds_accounts :: "dashboard_account list"
  ds_report :: nav_report

record dashboard_build =
  db_dashboard :: dashboard_snapshot
  db_histories :: histories
  db_snapshots :: snapshots
  db_strategy_snapshots :: strategy_snapshots
  db_generation :: nav_cache
  db_fee_rates :: "(string, fee_rates) bmap"

type_synonym store = "(string, incremental) bmap \<times> nat"

datatype dashboard_error = DatabaseUnread | AnchorInvalid nav_error | StoreFailed history_error | RebuildFailed nav_error

text \<open>\<open>None\<close> for the inputs is a failed read of the database.\<close>

definition build_dashboard ::
    "fingerprint \<Rightarrow> source_config list \<Rightarrow> nat \<Rightarrow> service_inputs option \<Rightarrow> nav_cache option \<Rightarrow> store \<Rightarrow> (dashboard_error + dashboard_build) \<times> store" where
  "build_dashboard fp config interval inputs previous store =
     (case inputs of None \<Rightarrow> (Inl DatabaseUnread, store)
      | Some i \<Rightarrow>
        let nav_config = with_fee_rates (si_fee_rates i) config
        in case load_anchors i config of
             Inl e \<Rightarrow> (Inl (AnchorInvalid e), store)
           | Inr (snapshots, strategy_snapshots) \<Rightarrow>
             (case store_refresh (si_recovery i) (si_databases i) nav_config store of
                (Inl e, store') \<Rightarrow> (Inl (StoreFailed e), store')
              | (Inr histories, store') \<Rightarrow>
                  let histories = attach histories (si_allocations i)
                  in (rmap_err RebuildFailed
                        (rbind (nav_cache_refresh fp nav_config snapshots strategy_snapshots (si_histories_at i) histories previous) (\<lambda>g.
                         rbind (dashboard_report g) (\<lambda>report.
                         Inr \<lparr>db_dashboard = \<lparr>ds_generated_at_us = si_generated_at_us i, ds_generation_duration_ms = si_duration_ms i,
                                 ds_refresh_interval_secs = interval, ds_accounts = map (account_row i snapshots strategy_snapshots) config,
                                 ds_report = report\<rparr>,
                              db_histories = histories, db_snapshots = snapshots, db_strategy_snapshots = strategy_snapshots,
                              db_generation = g, db_fee_rates = si_fee_rates i\<rparr>))), store')))"

text \<open>The state of the service: the store and the published build, with the last attempt and its error.\<close>

record service =
  sv_store :: store
  sv_build :: dashboard_build
  sv_last_attempt_at_us :: i64
  sv_last_refresh_error :: "dashboard_error option"

definition refresh_tick :: "fingerprint \<Rightarrow> source_config list \<Rightarrow> nat \<Rightarrow> i64 \<Rightarrow> service_inputs option \<Rightarrow> service \<Rightarrow> service" where
  "refresh_tick fp config interval attempted_at_us inputs s =
     (case build_dashboard fp config interval inputs (Some (db_generation (sv_build s))) (sv_store s) of
        (Inr made, store) \<Rightarrow>
          \<lparr>sv_store = store, sv_build = made, sv_last_attempt_at_us = attempted_at_us, sv_last_refresh_error = None\<rparr>
      | (Inl e, store) \<Rightarrow>
          s\<lparr>sv_store := store, sv_last_attempt_at_us := attempted_at_us, sv_last_refresh_error := Some e\<rparr>)"

definition start_service :: "fingerprint \<Rightarrow> source_config list \<Rightarrow> nat \<Rightarrow> service_inputs option \<Rightarrow> dashboard_error + service" where
  "start_service fp config interval inputs =
     (case build_dashboard fp config interval inputs None ([], 1) of
        (Inr made, store) \<Rightarrow> Inr \<lparr>sv_store = store, sv_build = made,
             sv_last_attempt_at_us = ds_generated_at_us (db_dashboard made), sv_last_refresh_error = None\<rparr>
      | (Inl e, _) \<Rightarrow> Inl e)"

subsection \<open>Histories the store published\<close>

lemma bm_get_attach:
  "bm_get (attach H al) i = map_option (\<lambda>h. h\<lparr>nh_allocations := (case bm_get al i of None \<Rightarrow> [] | Some a \<Rightarrow> a)\<rparr>) (bm_get H i)"
  unfolding attach_def by (induction H) auto

text \<open>What two published histories promise of each other is what the cache asks of them.\<close>

lemma store_promises:
  assumes run: "store_run store revision published" and H: "H \<in> set published" "H0 \<in> set published"
    and g: "nc_histories g = attach H0 al0" and at: "nc_histories_at g \<noteq> histories_at"
    and ok: "\<And>i h. bm_get H i = Some h \<Longrightarrow> history_ok (nh_events h)"
  shows "history_promises g histories_at (attach H al)"
proof -
  have both: "(nh_revision h = nh_revision h0 \<longrightarrow> nh_events h = nh_events h0 \<and> nh_liquidity_by_order h = nh_liquidity_by_order h0)
      \<and> (\<forall>change. nh_change h = Some change \<and> history_follows h0 h \<longrightarrow> extends (nh_events h0) (nh_liquidity_by_order h0) h change)"
    if h: "bm_get (attach H al) i = Some h" and h0: "bm_get (nc_histories g) i = Some h0" for i h h0
  proof -
    obtain k k0 a a0 where k: "bm_get H i = Some k" "h = k\<lparr>nh_allocations := a\<rparr>" "bm_get H0 i = Some k0" "h0 = k0\<lparr>nh_allocations := a0\<rparr>"
      using h h0 by (auto simp: bm_get_attach g)
    have "extends (nh_events h0) (nh_liquidity_by_order h0) h change" if c: "nh_change h = Some change" "history_follows h0 h" for change
    proof -
      have "grown k0 k change"
        by (rule store_histories(2) [OF run H k(1,3)]) (use c k in \<open>simp_all add: history_follows_def\<close>)
      then show ?thesis using ok [OF k(1)] by (simp add: k extends_def grown_def)
    qed
    then show ?thesis using store_histories(1) [OF run H k(1,3)] by (simp add: k same_content_def)
  qed
  then show ?thesis using at unfolding history_promises_def by blast
qed

lemma refresh_sources_keys:
  "refresh_sources rc db sources (store, revision) acc = (Inr H, state') \<Longrightarrow> bm_get H i \<noteq> None
   \<Longrightarrow> bm_get acc i \<noteq> None \<or> i \<in> sc_id ` set sources"
proof (induction sources arbitrary: store revision acc)
  case (Cons source sources)
  show ?case
  proof (cases "sd_current (db source)")
    case False
    then show ?thesis using Cons.IH [OF _ Cons.prems(2)] Cons.prems(1) by (fastforce split: if_splits)
  next
    case True
    define s where "s = (case bm_get store (sc_id source) of None \<Rightarrow> incremental_default | Some s \<Rightarrow> s)"
    obtain r s' revision' where one: "refresh_source (rc source) source (db source) (s, revision) = (r, s', revision')" by (metis prod.collapse)
    have "refresh_sources rc db sources (bm_insert (sc_id source) s' store, revision') (bm_insert (sc_id source) (ih_history s') acc) = (Inr H, state')"
      using Cons.prems(1) True one by (cases r) (simp_all add: s_def [symmetric] Let_def)
    from Cons.IH [OF this Cons.prems(2)] show ?thesis by (auto split: if_splits)
  qed
qed simp

lemma store_refresh_keys:
  assumes "store_refresh rc db config store = (Inr H, store')" and "bm_get H i \<noteq> None"
  shows "\<exists>x \<in> set config. sc_enabled x \<and> sc_id x = i"
proof -
  have "select_sources config [] = Inr (filter sc_enabled config)" by (rule select_all)
  then show ?thesis using assms refresh_sources_keys [OF _ assms(2)] by (fastforce simp: store_refresh_def)
qed

subsection \<open>Runs of the service\<close>

text \<open>
  The promise of the data: sources and anchors are valid, and the events of a published history are
  labelled, in range and under distinct keys.
\<close>

definition inputs_hold :: "source_config list \<Rightarrow> service_inputs \<Rightarrow> store \<Rightarrow> bool" where
  "inputs_hold config i store \<longleftrightarrow>
     (\<forall>snapshots strategy_snapshots H store'. load_anchors i config = Inr (snapshots, strategy_snapshots)
        \<and> store_refresh (si_recovery i) (si_databases i) (with_fee_rates (si_fee_rates i) config) store = (Inr H, store') \<longrightarrow>
        inputs_ok (with_fee_rates (si_fee_rates i) config) snapshots strategy_snapshots (attach H (si_allocations i)))"

inductive service_run :: "fingerprint \<Rightarrow> source_config list \<Rightarrow> nat \<Rightarrow> service \<Rightarrow> bool" for fp config interval where
  started: "start_service fp config interval (Some i) = Inr s \<Longrightarrow> inputs_hold config i ([], 1) \<Longrightarrow> service_run fp config interval s"
| ticked: "service_run fp config interval s \<Longrightarrow> inputs_hold config i (sv_store s)
    \<Longrightarrow> si_histories_at i \<noteq> nc_histories_at (db_generation (sv_build s))
    \<Longrightarrow> service_run fp config interval (refresh_tick fp config interval now (Some i) s)"
| unread: "service_run fp config interval s \<Longrightarrow> service_run fp config interval (refresh_tick fp config interval now None s)"

definition build_ok :: "fingerprint \<Rightarrow> source_config list \<Rightarrow> histories list \<Rightarrow> dashboard_build \<Rightarrow> bool" where
  "build_ok fp config published b \<longleftrightarrow>
     (let g = db_generation b
      in nav_generation fp g \<and> (\<exists>H \<in> set published. \<exists>al. db_histories b = attach H al)
         \<and> nc_config g = with_fee_rates (db_fee_rates b) config \<and> nc_snapshots g = db_snapshots b
         \<and> nc_strategy_snapshots g = db_strategy_snapshots b \<and> nc_histories g = db_histories b
         \<and> snapshots_known g \<and> strategies_valid g \<and> dashboard_report g = Inr (ds_report (db_dashboard b)))"

text \<open>What the loaders promise: the anchors of enabled sources only, and valid strategy anchors under their source's id.\<close>

definition anchors_loaded :: "string set \<Rightarrow> snapshots \<times> strategy_snapshots \<Rightarrow> bool" where
  "anchors_loaded ids loaded \<longleftrightarrow> (\<forall>i. bm_get (fst loaded) i \<noteq> None \<longrightarrow> i \<in> ids)
     \<and> (\<forall>i t. bm_get (snd loaded) i = Some t \<longrightarrow> i \<in> ids \<and> strategy_snapshot_validate t = Inr () \<and> ts_source_id t = i)"

lemma bm_get_insert_found:
  "bm_get (insert_found k found m) i = (case found of None \<Rightarrow> bm_get m i | Some v \<Rightarrow> if i = k then Some v else bm_get m i)"
  by (simp add: insert_found_def split: option.split)

lemma strategy_loaded:
  assumes "load_latest_strategy_position_snapshot row i = Inr (Some t)"
  shows "strategy_snapshot_validate t = Inr () \<and> ts_source_id t = i"
  using assms by (auto simp: load_latest_strategy_position_snapshot_def Let_def rbind_Inr_iff split: option.splits)

lemma load_source_anchors_loaded:
  assumes "sc_id x \<in> ids" and "anchors_loaded ids loaded" and "load_source_anchors i loaded x = Inr loaded'"
  shows "anchors_loaded ids loaded'"
  using assms by (auto simp: load_source_anchors_def anchors_loaded_def rbind_Inr_iff bm_get_insert_found
      split: option.splits if_splits dest: strategy_loaded)

lemma anchors_known:
  assumes "load_anchors i config = Inr loaded"
  shows "anchors_loaded (sc_id ` {x \<in> set config. sc_enabled x}) loaded"
  by (rule rfold_invariant [OF assms [unfolded load_anchors_def]])
     (simp add: anchors_loaded_def, rule load_source_anchors_loaded, auto)

lemma overlay_ids:
  "sc_id ` {x \<in> set (with_fee_rates rates config). sc_enabled x} = sc_id ` {x \<in> set config. sc_enabled x}"
proof -
  obtain f where f: "with_fee_rates rates config = map f config" "\<And>x. sc_id (f x) = sc_id x" "\<And>x. sc_enabled (f x) = sc_enabled x"
    by (rule that [of "\<lambda>s. case bm_get rates (sc_id s) of None \<Rightarrow> s
        | Some r \<Rightarrow> s\<lparr>sc_maker_fee_rate := Some (fr_maker r), sc_taker_fee_rate := Some (fr_taker r), sc_quote_fee_rates := fr_by_quote r\<rparr>"])
      (simp_all add: with_fee_rates_def split: option.split)
  have "{x \<in> set (map f config). sc_enabled x} = f ` {x \<in> set config. sc_enabled x}" using f(3) by auto
  then show ?thesis by (simp add: f(1,2) image_image)
qed

lemma build_succeeds_ok:
  assumes b: "build_dashboard fp config interval (Some i) previous store = (Inr b, store')"
    and hold: "inputs_hold config i store"
    and run: "store_run (fst store) (snd store) published"
    and prev: "previous = None \<or> (\<exists>b0. previous = Some (db_generation b0) \<and> build_ok fp config published b0
        \<and> si_histories_at i \<noteq> nc_histories_at (db_generation b0))"
  shows "\<exists>H. store_run (fst store') (snd store') (H # published) \<and> build_ok fp config (H # published) b"
proof -
  let ?config = "with_fee_rates (si_fee_rates i) config" and ?g = "db_generation b"
  obtain s t H where anchors: "load_anchors i config = Inr (s, t)" and H: "store_refresh (si_recovery i) (si_databases i) ?config store = (Inr H, store')"
    and made: "nav_cache_refresh fp ?config s t (si_histories_at i) (attach H (si_allocations i)) previous = Inr ?g"
      "dashboard_report ?g = Inr (ds_report (db_dashboard b))"
      "db_histories b = attach H (si_allocations i)" "db_snapshots b = s" "db_strategy_snapshots b = t" "db_fee_rates b = si_fee_rates i"
    using b by (auto simp: build_dashboard_def Let_def rbind_Inr_iff rmap_err_Inr_iff split: prod.splits sum.splits)
  have run': "store_run (fst store') (snd store') (H # published)"
    by (rule store_run.published [OF run]) (use H in simp)
  have ok: "inputs_ok ?config s t (attach H (si_allocations i))" using hold anchors H unfolding inputs_hold_def by blast
  have hok: "history_ok (nh_events h)" if h: "bm_get H j = Some h" for j h
  proof -
    obtain x where "x \<in> set ?config" "sc_enabled x" "sc_id x = j" using store_refresh_keys [OF H] h by blast
    then show ?thesis using ok h unfolding inputs_ok_def by (force simp: bm_get_attach)
  qed
  have gen: "nav_generation fp ?g"
  proof (cases previous)
    case None
    then show ?thesis using nav_generation.built [OF ok] made(1) by (simp add: nav_cache_build_def)
  next
    case (Some g0)
    then obtain b0 where b0: "g0 = db_generation b0" "build_ok fp config published b0" "si_histories_at i \<noteq> nc_histories_at g0"
      using prev by auto
    then obtain H0 al0 where H0: "H0 \<in> set (H # published)" "nc_histories g0 = attach H0 al0" "nav_generation fp g0"
      by (auto simp: build_ok_def Let_def)
    have "history_promises g0 (si_histories_at i) (attach H (si_allocations i))"
      by (rule store_promises [OF run' _ H0(1,2) _ hok]) (use b0(3) in auto)
    then show ?thesis by (rule nav_generation.refreshed [OF H0(3) ok]) (use made(1) Some in simp)
  qed
  note fields = refresh_fields [OF made(1)]
  note loaded = anchors_known [OF anchors, unfolded anchors_loaded_def]
  have keys: "set (bm_keys m) = {k. bm_get m k \<noteq> None}" for m :: "(string, 'v) bmap"
    by (simp add: bm_keys_def bm_get_None_iff)
  have "snapshots_known ?g"
    unfolding snapshots_known_def fields overlay_ids using loaded by (auto simp: keys)
  moreover have "strategies_valid ?g" using loaded by (simp add: strategies_valid_def fields)
  ultimately have "build_ok fp config (H # published) b" using gen made fields by (auto simp: build_ok_def Let_def)
  then show ?thesis using run' by blast
qed

lemma build_failed_runs:
  assumes "build_dashboard fp config interval i previous store = (Inl e, store')" and "store_run (fst store) (snd store) published"
  shows "\<exists>published'. store_run (fst store') (snd store') published' \<and> set published \<subseteq> set published'"
proof (cases "store' = store")
  case True
  then show ?thesis using assms(2) by blast
next
  case False
  then obtain i' loaded where i: "i = Some i'" "load_anchors i' config = Inr loaded"
    using assms(1) by (auto simp: build_dashboard_def Let_def split: option.splits sum.splits)
  obtain r st where r: "store_refresh (si_recovery i') (si_databases i') (with_fee_rates (si_fee_rates i') config) store = (r, st)" by (rule prod.exhaust)
  have st: "store' = st" using assms(1) r i by (auto simp: build_dashboard_def Let_def split: sum.splits prod.splits)
  show ?thesis
  proof (cases r)
    case (Inl e)
    then show ?thesis using store_run.failed [OF assms(2)] r st by (metis order_refl prod.collapse)
  next
    case (Inr H)
    then have "store_run (fst st) (snd st) (H # published)" using store_run.published [OF assms(2)] r by simp
    then show ?thesis using st by (meson set_subset_Cons)
  qed
qed

lemma build_ok_mono: "build_ok fp config published b \<Longrightarrow> set published \<subseteq> set published' \<Longrightarrow> build_ok fp config published' b"
  unfolding build_ok_def Let_def by blast

lemma service_ok:
  "service_run fp config interval s \<Longrightarrow> \<exists>published. store_run (fst (sv_store s)) (snd (sv_store s)) published \<and> build_ok fp config published (sv_build s)"
proof (induction rule: service_run.induct)
  case (started i s)
  obtain b store where b: "build_dashboard fp config interval (Some i) None ([], 1) = (Inr b, store)" "sv_build s = b" "sv_store s = store"
    using started.hyps(1) by (auto simp: start_service_def split: prod.splits sum.splits)
  have "store_run (fst ([], 1)) (snd ([], 1)) []" by (simp add: store_run.empty)
  from build_succeeds_ok [OF b(1) started.hyps(2) this] show ?case unfolding b(2,3) by blast
next
  case (ticked s i now)
  obtain published where p: "store_run (fst (sv_store s)) (snd (sv_store s)) published" "build_ok fp config published (sv_build s)"
    using ticked.IH by blast
  obtain r store where r: "build_dashboard fp config interval (Some i) (Some (db_generation (sv_build s))) (sv_store s) = (r, store)" by (rule prod.exhaust)
  show ?case
  proof (cases r)
    case (Inl e)
    then show ?thesis using build_failed_runs [OF r [unfolded Inl] p(1)] build_ok_mono [OF p(2)] r by (auto simp: refresh_tick_def)
  next
    case (Inr b)
    from build_succeeds_ok [OF r [unfolded Inr] ticked.hyps(2) p(1)] obtain H where
      "store_run (fst store) (snd store) (H # published) \<and> build_ok fp config (H # published) b" using p(2) ticked.hyps(3) by blast
    then show ?thesis using r Inr by (auto simp: refresh_tick_def)
  qed
next
  case (unread s now)
  then show ?case by (simp add: refresh_tick_def build_dashboard_def)
qed

text \<open>
  C4: The dashboard the service shows is the report recomputed from its histories. After any ticks -
  refreshes of the store that fail half way, database reads that fail, stored anchors that are refused,
  rebuilds that fail after the store has moved on, changed rates, anchors and ownership corrections -
  the published report is what rebuilding every source from the published histories gives, and every
  window served from the published generation, by account or by strategy, for any range, sampling,
  selection and minute marks, is the window replayed from those histories, their corrections included.
\<close>

theorem service_shows_rebuild:
  assumes "service_run fp config interval s"
  defines "b \<equiv> sv_build s"
  defines "rates \<equiv> with_fee_rates (db_fee_rates b) config"
  shows "rebuild_nav_from_histories fp rates [] (db_snapshots b) (db_strategy_snapshots b) (db_histories b) = Inr (ds_report (db_dashboard b))
    \<and> generation_window fp (db_generation b) q allocation prices
        = rebuild_nav_timeline fp rates q (asked_for q (db_snapshots b))
            (if allocation then asked_for q (db_strategy_snapshots b) else []) (db_histories b) None prices"
proof -
  obtain published where "build_ok fp config published b" using service_ok [OF assms(1)] unfolding b_def by blast
  then have g: "nav_generation fp (db_generation b)" "snapshots_known (db_generation b)"
    "dashboard_report (db_generation b) = Inr (ds_report (db_dashboard b))" "nc_config (db_generation b) = rates"
    "nc_snapshots (db_generation b) = db_snapshots b" "nc_strategy_snapshots (db_generation b) = db_strategy_snapshots b"
    "nc_histories (db_generation b) = db_histories b" "strategies_valid (db_generation b)"
    unfolding build_ok_def Let_def rates_def by blast+
  show ?thesis
    using dashboard_report_rebuilt [OF g(1,2)] generation_window_rebuilt [OF g(1), of allocation q prices] g(3,8)
    unfolding g(4-7) by simp
qed

subsection \<open>A service of one source\<close>

definition sample_inputs :: service_inputs where
  "sample_inputs = \<lparr>si_fee_rates = [], si_allocations = [], si_anchor = (\<lambda>_. None), si_strategy_anchor = (\<lambda>_. None),
     si_live = (\<lambda>_. None), si_recovery = (\<lambda>_. sample_recovery), si_databases = (\<lambda>_. no_db), si_histories_at = 7,
     si_now_ms = 1, si_duration_ms = 1, si_generated_at_us = 1\<rparr>"

lemma sample_start:
  "\<exists>s. service_run (\<lambda>_. Inr '''') [sample_source ''a''] 60 s \<and> db_fee_rates (sv_build s) = []
     \<and> nav_generation (\<lambda>_. Inr '''') (db_generation (sv_build s))
     \<and> nc_config (db_generation (sv_build s)) = [sample_source ''a''] \<and> nc_strategy_snapshots (db_generation (sv_build s)) = []
     \<and> nc_histories (db_generation (sv_build s)) = [(''a'', default_history)] \<and> db_snapshots (sv_build s) = []
     \<and> db_strategy_snapshots (sv_build s) = [] \<and> db_histories (sv_build s) = [(''a'', default_history)]"
proof -
  let ?fp = "\<lambda>_. Inr ''''" and ?x = "sample_source ''a''"
  have rates: "with_fee_rates [] [?x] = [?x]" by (simp add: with_fee_rates_def)
  have en: "sc_enabled ?x" "sc_id ?x = ''a''" by (simp_all add: sample_source_def)
  have store: "store_refresh (\<lambda>_. sample_recovery) (\<lambda>_. no_db) [?x] ([], 1) = (Inr [(''a'', default_history)], ([], 1))"
    by (simp add: store_refresh_def select_all en no_db_def bm_remove_def bm_retain_def)
  have attach: "attach [(''a'', default_history)] [] = [(''a'', default_history)]"
    by (simp add: attach_def default_history_def)
  have anchors: "load_anchors sample_inputs [?x] = Inr ([], [])"
    by (simp add: load_anchors_def load_source_anchors_def load_latest_position_snapshot_def
        load_latest_strategy_position_snapshot_def insert_found_def sample_inputs_def en)
  have ok: "inputs_ok [?x] [] [] [(''a'', default_history)]"
    by (simp add: inputs_ok_def anchors_in_time_def en default_history_def history_ok_def)
  have hold: "inputs_hold [?x] sample_inputs ([], 1)"
    using store ok by (simp add: inputs_hold_def anchors) (simp add: sample_inputs_def rates attach)
  obtain c0 where "build ?x sample_prepared 0 = Inr c0" using sample_built by blast
  then have l: "load_entry ?fp ?x default_history None None (position_count None) = Inr c0"
    using sample_reads by (simp add: load_entry_def default_history_def position_count_def)
  have "\<exists>g. nav_cache_build ?fp [?x] [] [] 7 [(''a'', default_history)] = Inr g"
    using l sample_rates by (intro build_succeeds) (auto simp: mode_strategy_def source_inputs_def effective_position_snapshot_def sample_source_def)
  then obtain g where g: "nav_cache_build ?fp [?x] [] [] 7 [(''a'', default_history)] = Inr g" by blast
  have gen: "nav_generation ?fp g" by (rule nav_generation.built [OF ok g])
  note f = refresh_fields [OF g [unfolded nav_cache_build_def]]
  obtain address c where "bm_get (nc_sources g) (sc_id ?x, True) = Some (address, c)"
    using generation_present [OF generations_ok [OF gen], of ?x True] f en by auto
  then have "\<exists>report. dashboard_report g = Inr report" by (simp add: dashboard_report_def f en entry_of_def of_option_def)
  then obtain report where r: "dashboard_report g = Inr report" by blast
  then have "\<exists>s. start_service ?fp [?x] 60 (Some sample_inputs) = Inr s \<and> db_generation (sv_build s) = g \<and> db_fee_rates (sv_build s) = []
      \<and> db_snapshots (sv_build s) = [] \<and> db_strategy_snapshots (sv_build s) = [] \<and> db_histories (sv_build s) = [(''a'', default_history)]"
    using g r store by (simp add: start_service_def build_dashboard_def anchors) (simp add: sample_inputs_def rates attach nav_cache_build_def Let_def)
  then obtain s where s: "start_service ?fp [?x] 60 (Some sample_inputs) = Inr s" "db_generation (sv_build s) = g" "db_fee_rates (sv_build s) = []"
      "db_snapshots (sv_build s) = []" "db_strategy_snapshots (sv_build s) = []" "db_histories (sv_build s) = [(''a'', default_history)]" by blast
  have "service_run ?fp [?x] 60 s" by (rule service_run.started [OF s(1) hold])
  then show ?thesis using gen s f by (intro exI [of _ s]) simp
qed

theorem service_shows_rebuild_witness:
  "\<exists>s. service_run (\<lambda>_. Inr '''') [sample_source ''a''] 60 s
     \<and> rebuild_nav_from_histories (\<lambda>_. Inr '''') [sample_source ''a''] [] [] [] [(''a'', default_history)] = Inr (ds_report (db_dashboard (sv_build s)))
     \<and> generation_window (\<lambda>_. Inr '''') (db_generation (sv_build s)) (cached_request None) False None
       = rebuild_nav_timeline (\<lambda>_. Inr '''') [sample_source ''a''] (cached_request None) [] [] [(''a'', default_history)] None None"
proof -
  obtain s where s: "service_run (\<lambda>_. Inr '''') [sample_source ''a''] 60 s" "db_fee_rates (sv_build s) = []"
    "nav_generation (\<lambda>_. Inr '''') (db_generation (sv_build s))" "nc_config (db_generation (sv_build s)) = [sample_source ''a'']"
    "nc_strategy_snapshots (db_generation (sv_build s)) = []" "nc_histories (db_generation (sv_build s)) = [(''a'', default_history)]"
    "db_snapshots (sv_build s) = []" "db_strategy_snapshots (sv_build s) = []" "db_histories (sv_build s) = [(''a'', default_history)]"
    using sample_start by blast
  have "with_fee_rates [] [sample_source ''a''] = [sample_source ''a'']" by (simp add: with_fee_rates_def)
  then show ?thesis using s(1) service_shows_rebuild [OF s(1), of "cached_request None" False None]
    by (intro exI [of _ s]) (simp add: s(2,7-9) asked_for_def)
qed

end
