(* ===== verification/RateLimit.thy ===== *)
theory RateLimit
  imports Text OrdMap
begin

text \<open>
  The treasury rate limiter (\<open>treasury_rate_limit.rs\<close>): one budget per egress address and origin,
  shared by every asset-management request. A reservation books the weight of a request before it
  is sent; an observation records the weight the exchange reports and its cooling-down answers. An
  \<open>Instant\<close> is a natural number of nanoseconds of the monotonic clock, \<open>duration_since\<close> saturates
  at zero as subtraction of naturals does. Each operation runs under the limiter's lock with the
  time read inside it, so the operations of a limiter are a sequence with non-decreasing times: the
  relation \<open>limiter_run\<close>, which carries the log of admitted requests the budgets are proved of.
\<close>

subsection \<open>Pools and weights\<close>

datatype http_method = GET | POST | OtherMethod

datatype pool = Futures | Spot | SapiIp | SapiAccount

primrec pool_rank :: "pool \<Rightarrow> nat" where
  "pool_rank Futures = 0"
| "pool_rank Spot = 1"
| "pool_rank SapiIp = 2"
| "pool_rank SapiAccount = 3"

instantiation pool :: linorder
begin
definition less_eq_pool :: "pool \<Rightarrow> pool \<Rightarrow> bool" where "less_eq_pool p q = (pool_rank p \<le> pool_rank q)"
definition less_pool :: "pool \<Rightarrow> pool \<Rightarrow> bool" where "less_pool p q = (pool_rank p < pool_rank q)"
instance
proof
  fix p q :: pool
  assume "p \<le> q" "q \<le> p"
  then show "p = q" by (cases p; cases q) (simp_all add: less_eq_pool_def)
qed (auto simp: less_eq_pool_def less_pool_def)
end

primrec pool_limit :: "pool \<Rightarrow> nat" where
  "pool_limit Futures = 1800"
| "pool_limit Spot = 4500"
| "pool_limit SapiIp = 4500"
| "pool_limit SapiAccount = 6000"

primrec pool_header :: "pool \<Rightarrow> string" where
  "pool_header Futures = ''x-mbx-used-weight-1m''"
| "pool_header Spot = ''x-mbx-used-weight-1m''"
| "pool_header SapiIp = ''x-sapi-used-ip-weight-1m''"
| "pool_header SapiAccount = ''x-sapi-used-uid-weight-1m''"

datatype limit_error = UnknownEndpoint string | CoolingDown | QuoteBudget | EarnCooldown | WeightBudget | RoundCapacity

definition futures_get_quote :: string where "futures_get_quote = ''/fapi/v1/convert/getQuote''"
definition futures_accept_quote :: string where "futures_accept_quote = ''/fapi/v1/convert/acceptQuote''"
definition sapi_get_quote :: string where "sapi_get_quote = ''/sapi/v1/convert/getQuote''"
definition sapi_accept_quote :: string where "sapi_accept_quote = ''/sapi/v1/convert/acceptQuote''"

definition request_cost :: "http_method \<Rightarrow> string \<Rightarrow> limit_error + pool \<times> nat" where
  "request_cost m path =
     (if path = ''/api/v3/account'' then Inr (Spot, 20)
      else if path = ''/api/v3/ticker/price'' then Inr (Spot, 2)
      else if path = ''/fapi/v2/account'' then Inr (Futures, 5)
      else if path = ''/fapi/v1/feeBurn'' then Inr (Futures, 1)
      else if path = ''/fapi/v1/convert/exchangeInfo'' then Inr (Futures, 20)
      else if path \<in> {futures_get_quote, ''/fapi/v1/convert/orderStatus''} then Inr (Futures, 50)
      else if path = futures_accept_quote then Inr (Futures, 200)
      else if path = ''/sapi/v1/convert/exchangeInfo'' then Inr (SapiIp, 3000)
      else if path = sapi_get_quote then Inr (SapiAccount, 200)
      else if path = sapi_accept_quote then Inr (SapiAccount, 500)
      else if path = ''/sapi/v1/convert/orderStatus'' then Inr (SapiAccount, 100)
      else if path = ''/sapi/v1/asset/transfer'' then (if m = GET then Inr (SapiIp, 1) else Inr (SapiAccount, 900))
      else if path \<in> {''/sapi/v1/bfusd/quota'', ''/sapi/v1/bfusd/subscribe''} then Inr (SapiIp, 150)
      else if path \<in> {''/sapi/v1/simple-earn/flexible/position'', ''/sapi/v1/simple-earn/flexible/list'',
                      ''/sapi/v1/simple-earn/flexible/personalLeftQuota''} then Inr (SapiIp, 150)
      else if path \<in> {''/sapi/v1/simple-earn/flexible/history/redemptionRecord'',
                      ''/sapi/v1/simple-earn/flexible/history/subscriptionRecord''} then Inr (SapiIp, 150)
      else if path \<in> {''/sapi/v1/simple-earn/flexible/subscribe'', ''/sapi/v1/simple-earn/flexible/redeem''} then Inr (SapiIp, 1)
      else Inl (UnknownEndpoint path))"

subsection \<open>Rolling windows\<close>

type_synonym instant = nat

definition seconds :: "nat \<Rightarrow> nat" where
  "seconds n = n * 10 ^ 9"

record rate_window =
  wd_reservations :: "(instant \<times> nat) list"
  wd_observations :: "(instant \<times> nat) list"

definition empty_window :: rate_window where
  "empty_window = \<lparr>wd_reservations = [], wd_observations = []\<rparr>"

definition recent :: "nat \<Rightarrow> instant \<Rightarrow> (instant \<times> 'a) list \<Rightarrow> (instant \<times> 'a) list" where
  "recent d now xs = filter (\<lambda>(since, _). now - since < d) xs"

text \<open>A sum of \<open>u32\<close> values, with the wrap-around of the release build.\<close>

definition u32_sum :: "nat list \<Rightarrow> nat" where
  "u32_sum xs = sum_list xs mod 2 ^ 32"

definition window_used :: "instant \<Rightarrow> rate_window \<Rightarrow> nat \<times> rate_window" where
  "window_used now w =
     (let rs = recent (seconds 60) now (wd_reservations w);
          os = recent (seconds 60) now (wd_observations w);
          local = u32_sum (map snd rs);
          external = map (\<lambda>(since, used). sat_add_u32 used (u32_sum (map snd (filter (\<lambda>(t, _). since < t) rs)))) os
      in (max local (case external of [] \<Rightarrow> 0 | x # xs \<Rightarrow> foldl max x xs), \<lparr>wd_reservations = rs, wd_observations = os\<rparr>))"

record capacity =
  ca_remaining :: nat
  ca_limit :: nat

definition capacity_score :: "capacity \<Rightarrow> nat" where
  "capacity_score c = sat_mul_u32 (ca_remaining c) 10000 div ca_limit c"

subsection \<open>The limiter\<close>

record limiter =
  lm_windows :: "(pool, rate_window) bmap"
  lm_cooldown :: "instant option"
  lm_last_earn_write :: "instant option"
  lm_futures_quotes :: "instant list"

definition limiter_default :: limiter where
  "limiter_default = \<lparr>lm_windows = [], lm_cooldown = None, lm_last_earn_write = None, lm_futures_quotes = []\<rparr>"

definition window_of :: "limiter \<Rightarrow> pool \<Rightarrow> rate_window" where
  "window_of s p = (case bm_get (lm_windows s) p of None \<Rightarrow> empty_window | Some w \<Rightarrow> w)"

definition ready :: "instant \<Rightarrow> limiter \<Rightarrow> limit_error + unit" where
  "ready now s = rensure (case lm_cooldown s of None \<Rightarrow> True | Some t \<Rightarrow> \<not> now < t) CoolingDown"

definition quote_headroom :: "string \<Rightarrow> nat" where
  "quote_headroom path = (if path = futures_get_quote then 200 else if path = sapi_get_quote then 500 else 0)"

definition is_earn_write :: "http_method \<Rightarrow> string \<Rightarrow> bool" where
  "is_earn_write m path \<longleftrightarrow> m = POST \<and> starts_with ''/sapi/v1/simple-earn/'' path"

definition quotes_exhausted :: "instant \<Rightarrow> instant list \<Rightarrow> bool" where
  "quotes_exhausted now quotes \<longleftrightarrow>
     500 \<le> length quotes \<or> 360 \<le> length (filter (\<lambda>t. now - t < seconds 3600) quotes)"

definition earn_blocked :: "instant \<Rightarrow> limiter \<Rightarrow> bool" where
  "earn_blocked now s \<longleftrightarrow> (case lm_last_earn_write s of None \<Rightarrow> False | Some t \<Rightarrow> now - t < seconds 3)"

text \<open>A refusal keeps what the attempt has already pruned; an admission books the request.\<close>

definition reserve :: "http_method \<Rightarrow> string \<Rightarrow> instant \<Rightarrow> limiter \<Rightarrow> (limit_error + unit) \<times> limiter" where
  "reserve m path now s =
     (case rbind (ready now s) (\<lambda>_. request_cost m path) of
        Inl e \<Rightarrow> (Inl e, s)
      | Inr (pool, weight) \<Rightarrow>
          let is_quote = (path = futures_get_quote);
              s1 = s\<lparr>lm_futures_quotes := filter (\<lambda>t. now - t < seconds 86400) (lm_futures_quotes s)\<rparr>
          in if is_quote \<and> quotes_exhausted now (lm_futures_quotes s1) then (Inl QuoteBudget, s1)
             else if is_earn_write m path \<and> earn_blocked now s1 then (Inl EarnCooldown, s1)
             else let (used, w) = window_used now (window_of s1 pool)
                  in if pool_limit pool < sat_add_u32 (sat_add_u32 used weight) (quote_headroom path)
                     then (Inl WeightBudget, s1\<lparr>lm_windows := bm_insert pool w (lm_windows s1)\<rparr>)
                     else (Inr (), s1\<lparr>
                         lm_windows := bm_insert pool (w\<lparr>wd_reservations := wd_reservations w @ [(now, weight)]\<rparr>) (lm_windows s1),
                         lm_futures_quotes := (if is_quote then lm_futures_quotes s1 @ [now] else lm_futures_quotes s1),
                         lm_last_earn_write := (if is_earn_write m path then Some now else lm_last_earn_write s1)\<rparr>))"

text \<open>
  Response headers are the text of the header values, by lower-case name; a value that is not visible
  ASCII is absent. \<open>Instant::checked_add\<close> fails past the 64-bit seconds of the platform's clock.
\<close>

definition instant_max :: nat where
  "instant_max = 2 ^ 63 * 10 ^ 9 - 1"

definition cooldown_until :: "nat \<Rightarrow> (string \<Rightarrow> string option) \<Rightarrow> instant \<Rightarrow> instant" where
  "cooldown_until status headers now =
     (let retry = (case headers ''retry-after'' of None \<Rightarrow> None | Some v \<Rightarrow> parse_unsigned u64_max v);
          secs = max (case retry of None \<Rightarrow> (if status = 418 then 180 else 60) | Some v \<Rightarrow> v) 1
      in if now + seconds secs \<le> instant_max then now + seconds secs else now + seconds (86400 * 3))"

definition observe ::
    "http_method \<Rightarrow> string \<Rightarrow> nat \<Rightarrow> (string \<Rightarrow> string option) \<Rightarrow> instant \<Rightarrow> limiter \<Rightarrow> (limit_error + unit) \<times> limiter" where
  "observe m path status headers now s =
     (case request_cost m path of Inl e \<Rightarrow> (Inl e, s)
      | Inr (pool, _) \<Rightarrow>
          let s1 = (case headers (pool_header pool) of None \<Rightarrow> s
                | Some v \<Rightarrow> (case parse_unsigned u32_max v of None \<Rightarrow> s
                  | Some weight \<Rightarrow>
                      let w = window_of s pool
                      in s\<lparr>lm_windows := bm_insert pool
                             (w\<lparr>wd_observations := recent (seconds 60) now (wd_observations w) @ [(now, weight)]\<rparr>)
                             (lm_windows s)\<rparr>))
          in (Inr (), if status = 429 \<or> status = 418
                then s1\<lparr>lm_cooldown := Some (case lm_cooldown s1 of
                         None \<Rightarrow> cooldown_until status headers now
                       | Some old \<Rightarrow> max old (cooldown_until status headers now))\<rparr>
                else s1))"

definition measure_capacity :: "http_method \<Rightarrow> string \<Rightarrow> instant \<Rightarrow> limiter \<Rightarrow> (limit_error + capacity) \<times> limiter" where
  "measure_capacity m path now s =
     (case rbind (ready now s) (\<lambda>_. request_cost m path) of
        Inl e \<Rightarrow> (Inl e, s)
      | Inr (pool, weight) \<Rightarrow>
          let (used, w) = window_used now (window_of s pool);
              s1 = s\<lparr>lm_windows := bm_insert pool w (lm_windows s)\<rparr>
          in (if pool_limit pool < sat_add_u32 used weight then Inl RoundCapacity
              else Inr \<lparr>ca_remaining = pool_limit pool - used, ca_limit = pool_limit pool\<rparr>, s1))"

text \<open>Limiters are shared per egress address and origin: the registry creates each one once.\<close>

definition shared_limiter :: "'a::linorder \<times> string \<Rightarrow> ('a \<times> string, limiter) bmap \<Rightarrow> ('a \<times> string, limiter) bmap" where
  "shared_limiter key registry = bm_upsert key limiter_default (\<lambda>s. s) registry"

subsection \<open>Runs\<close>

type_synonym admission = "instant \<times> http_method \<times> string"

inductive limiter_run :: "admission list \<Rightarrow> instant \<Rightarrow> limiter \<Rightarrow> bool" where
  started: "limiter_run [] 0 limiter_default"
| admitted: "limiter_run hist t s \<Longrightarrow> t \<le> now \<Longrightarrow> reserve m path now s = (Inr (), s') \<Longrightarrow>
     limiter_run (hist @ [(now, m, path)]) now s'"
| refused: "limiter_run hist t s \<Longrightarrow> t \<le> now \<Longrightarrow> reserve m path now s = (Inl e, s') \<Longrightarrow> limiter_run hist now s'"
| observed: "limiter_run hist t s \<Longrightarrow> t \<le> now \<Longrightarrow> observe m path status headers now s = (r, s') \<Longrightarrow> limiter_run hist now s'"
| measured: "limiter_run hist t s \<Longrightarrow> t \<le> now \<Longrightarrow> measure_capacity m path now s = (r', s') \<Longrightarrow> limiter_run hist now s'"

inductive_cases limiter_runE: "limiter_run hist t s"

subsection \<open>Budgets over rolling windows\<close>

definition spent :: "nat \<Rightarrow> instant \<Rightarrow> (instant \<times> nat) list \<Rightarrow> nat" where
  "spent d t xs = sum_list (map snd (filter (\<lambda>(since, _). since \<le> t \<and> t < since + d) xs))"

definition budget :: "nat \<Rightarrow> nat \<Rightarrow> (instant \<times> nat) list \<Rightarrow> bool" where
  "budget d l xs \<longleftrightarrow> (\<forall>t. spent d t xs \<le> l)"

definition up_to :: "instant \<Rightarrow> (instant \<times> 'a) list \<Rightarrow> bool" where
  "up_to t xs \<longleftrightarrow> (\<forall>x \<in> set xs. fst x \<le> t)"

lemma up_to_mono: "up_to t xs \<Longrightarrow> t \<le> now \<Longrightarrow> up_to now xs"
  by (force simp: up_to_def)

lemma recent_recent: "t \<le> now \<Longrightarrow> recent d now (recent d t xs) = recent d now xs"
  unfolding recent_def by (auto simp: filter_filter intro!: filter_cong)

lemma recent_eq_later: "recent d t xs = recent d t ys \<Longrightarrow> t \<le> now \<Longrightarrow> recent d now xs = recent d now ys"
  by (metis recent_recent)

lemma recent_idem [simp]: "recent d now (recent d now xs) = recent d now xs"
  by (simp add: recent_recent)

lemma spent_now: "0 < d \<Longrightarrow> up_to now xs \<Longrightarrow> spent d now xs = sum_list (map snd (recent d now xs))"
  unfolding spent_def recent_def up_to_def by (intro arg_cong [where f = "\<lambda>ys. sum_list (map snd ys)"] filter_cong) auto

lemma sum_filter_mono:
  fixes f :: "'a \<Rightarrow> nat"
  shows "(\<And>x. x \<in> set xs \<Longrightarrow> P x \<Longrightarrow> Q x) \<Longrightarrow> sum_list (map f (filter P xs)) \<le> sum_list (map f (filter Q xs))"
  by (induction xs) (auto simp: trans_le_add2)

lemma budget_append:
  assumes "budget d l xs" and "up_to now xs" and "0 < d"
    and "sum_list (map snd (recent d now xs)) + w \<le> l"
  shows "budget d l (xs @ [(now, w)])"
  unfolding budget_def
proof
  fix t
  show "spent d t (xs @ [(now, w)]) \<le> l"
  proof (cases "now \<le> t")
    case False
    then show ?thesis using assms(1) by (simp add: spent_def budget_def)
  next
    case True
    have "spent d t xs \<le> spent d now xs"
      unfolding spent_def using assms(2) True by (intro sum_filter_mono) (force simp: up_to_def)
    then have "spent d t xs + w \<le> l" using spent_now [OF assms(3,2)] assms(4) by simp
    then show ?thesis by (simp add: spent_def)
  qed
qed

lemma budget_recent: "budget d l xs \<Longrightarrow> up_to now xs \<Longrightarrow> 0 < d \<Longrightarrow> sum_list (map snd (recent d now xs)) \<le> l"
  by (metis budget_def spent_now)

lemma u32_sum_exact: "sum_list xs < 2 ^ 32 \<Longrightarrow> u32_sum xs = sum_list xs"
  by (simp add: u32_sum_def)

lemma sat_add_u32_le: "sat_add_u32 a b \<le> l \<longleftrightarrow> a + b \<le> l" if "l < u32_max"
  using that by (auto simp: sat_add_u32_def min_def)

lemma pool_limit_small: "pool_limit p < u32_max" "pool_limit p < 2 ^ 32"
  by (cases p; simp add: u32_max_def)+

lemma foldl_max_start: "(a :: nat) \<le> foldl max a xs"
  by (induction xs arbitrary: a) (simp, metis foldl_Cons max.bounded_iff)

lemma foldl_max_ge: "(x :: nat) \<in> set xs \<Longrightarrow> x \<le> foldl max a xs"
proof (induction xs arbitrary: a)
  case (Cons y ys)
  then show ?case using foldl_max_start [of "max a y" ys] by auto
qed simp

lemma foldl_max_le: "(a :: nat) \<le> b \<Longrightarrow> (\<And>x. x \<in> set xs \<Longrightarrow> x \<le> b) \<Longrightarrow> foldl max a xs \<le> b"
  by (induction xs arbitrary: a) auto

lemma window_used_snd [simp]:
  "snd (window_used now w) = \<lparr>wd_reservations = recent (seconds 60) now (wd_reservations w),
     wd_observations = recent (seconds 60) now (wd_observations w)\<rparr>"
  by (simp add: window_used_def Let_def)

lemma window_used_prunes:
  "window_used now w = (u, w') \<Longrightarrow> wd_reservations w' = recent (seconds 60) now (wd_reservations w)"
  using window_used_snd [of now w] by simp

lemma window_used_local: "u32_sum (map snd (recent (seconds 60) now (wd_reservations w))) \<le> fst (window_used now w)"
  by (simp add: window_used_def Let_def)

subsection \<open>What an admission implies\<close>

lemma reserve_Inr:
  assumes "reserve m path now s = (Inr (), s')"
  obtains p w where "request_cost m path = Inr (p, w)" and "ready now s = Inr ()"
    and "fst (window_used now (window_of s p)) + w + quote_headroom path \<le> pool_limit p"
    and "path = futures_get_quote \<longrightarrow>
      \<not> quotes_exhausted now (filter (\<lambda>t. now - t < seconds 86400) (lm_futures_quotes s))"
    and "is_earn_write m path \<longrightarrow> \<not> earn_blocked now s"
    and "s' = \<lparr>lm_windows = bm_insert p (snd (window_used now (window_of s p))\<lparr>wd_reservations :=
                recent (seconds 60) now (wd_reservations (window_of s p)) @ [(now, w)]\<rparr>) (lm_windows s),
           lm_cooldown = lm_cooldown s,
           lm_last_earn_write = (if is_earn_write m path then Some now else lm_last_earn_write s),
           lm_futures_quotes = filter (\<lambda>t. now - t < seconds 86400) (lm_futures_quotes s)
             @ (if path = futures_get_quote then [now] else [])\<rparr>"
proof -
  obtain p w where pw: "request_cost m path = Inr (p, w)" "ready now s = Inr ()"
    using assms unfolding reserve_def by (auto split: sum.splits simp: rbind_Inr_iff dest!: sym [of "rbind _ _"])
  let ?s1 = "s\<lparr>lm_futures_quotes := filter (\<lambda>t. now - t < seconds 86400) (lm_futures_quotes s)\<rparr>"
  obtain used win where u: "window_used now (window_of s p) = (used, win)" by (cases "window_used now (window_of s p)")
  have w1: "window_of ?s1 p = window_of s p" by (simp add: window_of_def)
  have e1: "earn_blocked now ?s1 = earn_blocked now s" by (simp add: earn_blocked_def)
  have win: "win = \<lparr>wd_reservations = recent (seconds 60) now (wd_reservations (window_of s p)),
      wd_observations = recent (seconds 60) now (wd_observations (window_of s p))\<rparr>"
    using window_used_snd [of now "window_of s p"] by (simp add: u)
  have ok: "\<not> (path = futures_get_quote \<and> quotes_exhausted now (lm_futures_quotes ?s1))"
    "\<not> (is_earn_write m path \<and> earn_blocked now s)"
    "\<not> pool_limit p < sat_add_u32 (sat_add_u32 used w) (quote_headroom path)"
    and s': "s' = ?s1\<lparr>lm_windows := bm_insert p (win\<lparr>wd_reservations := wd_reservations win @ [(now, w)]\<rparr>) (lm_windows ?s1),
         lm_futures_quotes := (if path = futures_get_quote then lm_futures_quotes ?s1 @ [now] else lm_futures_quotes ?s1),
         lm_last_earn_write := (if is_earn_write m path then Some now else lm_last_earn_write ?s1)\<rparr>"
    using assms unfolding reserve_def pw rbind_simps sum.case prod.case Let_def w1 u e1 by (simp_all split: if_splits)
  have "used + w + quote_headroom path \<le> pool_limit p"
    using ok(3) pool_limit_small(1) [of p] by (auto simp: not_less sat_add_u32_le sat_add_u32_def min_def split: if_splits)
  then show ?thesis
    using that [OF pw] ok(1,2) s' by (simp add: u win)
qed

subsection \<open>The log of admissions\<close>

definition pool_entries :: "pool \<Rightarrow> admission list \<Rightarrow> (instant \<times> nat) list" where
  "pool_entries p hist = concat (map (\<lambda>(t, m, path).
     case request_cost m path of Inl _ \<Rightarrow> [] | Inr (q, w) \<Rightarrow> if q = p then [(t, w)] else []) hist)"

definition quote_entries :: "admission list \<Rightarrow> (instant \<times> nat) list" where
  "quote_entries hist = map (\<lambda>(t, _). (t, 1)) (filter (\<lambda>(_, _, path). path = futures_get_quote) hist)"

definition earn_times :: "admission list \<Rightarrow> instant list" where
  "earn_times hist = map fst (filter (\<lambda>(_, m, path). is_earn_write m path) hist)"

definition logged :: "instant list \<Rightarrow> (instant \<times> nat) list" where
  "logged ts = map (\<lambda>t. (t, 1)) ts"

definition limiter_ok :: "admission list \<Rightarrow> instant \<Rightarrow> limiter \<Rightarrow> bool" where
  "limiter_ok hist t s \<longleftrightarrow>
     up_to t hist
     \<and> (\<forall>p. recent (seconds 60) t (wd_reservations (window_of s p)) = recent (seconds 60) t (pool_entries p hist)
         \<and> budget (seconds 60) (pool_limit p) (pool_entries p hist))
     \<and> recent (seconds 86400) t (logged (lm_futures_quotes s)) = recent (seconds 86400) t (quote_entries hist)
     \<and> budget (seconds 86400) 500 (quote_entries hist) \<and> budget (seconds 3600) 360 (quote_entries hist)
     \<and> lm_last_earn_write s = (if earn_times hist = [] then None else Some (last (earn_times hist)))
     \<and> sorted_wrt (\<lambda>a b. a + seconds 3 \<le> b) (earn_times hist)"

lemma entries_snoc:
  "pool_entries p (hist @ [(t, m, path)]) =
     pool_entries p hist @ (case request_cost m path of Inl _ \<Rightarrow> [] | Inr (q, w) \<Rightarrow> if q = p then [(t, w)] else [])"
  "quote_entries (hist @ [(t, m, path)]) = quote_entries hist @ (if path = futures_get_quote then [(t, 1)] else [])"
  "earn_times (hist @ [(t, m, path)]) = earn_times hist @ (if is_earn_write m path then [t] else [])"
  by (simp_all add: pool_entries_def quote_entries_def earn_times_def)

lemma entries_up_to:
  assumes "up_to t hist"
  shows "up_to t (pool_entries p hist)" and "up_to t (quote_entries hist)" and "x \<in> set (earn_times hist) \<Longrightarrow> x \<le> t"
  using assms by (fastforce simp: up_to_def pool_entries_def quote_entries_def earn_times_def split: sum.splits if_splits)+

lemma recent_logged: "recent d t (logged ts) = logged (filter (\<lambda>x. t - x < d) ts)"
  by (induction ts) (auto simp: recent_def logged_def)

lemma sum_recent_logged: "sum_list (map snd (recent d t (logged ts))) = length (filter (\<lambda>x. t - x < d) ts)"
  by (induction ts) (auto simp: recent_def logged_def)

lemma recent_append: "recent d now (xs @ ys) = recent d now xs @ recent d now ys"
  by (simp add: recent_def)

lemma recent_narrow: "d \<le> d' \<Longrightarrow> recent d now (recent d' now xs) = recent d now xs"
  unfolding recent_def by (auto simp: filter_filter intro!: filter_cong)

text \<open>What a step that admits nothing does: it prunes, or leaves alone.\<close>

definition pruned :: "instant \<Rightarrow> limiter \<Rightarrow> limiter \<Rightarrow> bool" where
  "pruned now s s' \<longleftrightarrow>
     (\<forall>p. recent (seconds 60) now (wd_reservations (window_of s' p)) = recent (seconds 60) now (wd_reservations (window_of s p)))
     \<and> recent (seconds 86400) now (logged (lm_futures_quotes s')) = recent (seconds 86400) now (logged (lm_futures_quotes s))
     \<and> lm_last_earn_write s' = lm_last_earn_write s"

lemma window_of_insert [simp]:
  "window_of (s\<lparr>lm_windows := bm_insert p w m\<rparr>) q = (if q = p then w else window_of (s\<lparr>lm_windows := m\<rparr>) q)"
  "window_of (s\<lparr>lm_futures_quotes := qs\<rparr>) q = window_of s q"
  "window_of (s\<lparr>lm_cooldown := c\<rparr>) q = window_of s q"
  "window_of (s\<lparr>lm_windows := lm_windows s\<rparr>) q = window_of s q"
  by (simp_all add: window_of_def)

lemma filter_recent_logged [simp]:
  "recent d now (logged (filter (\<lambda>t. now - t < d) ts)) = recent d now (logged ts)"
  by (simp add: recent_logged)

lemma pruned_refl [simp]: "pruned now s s"
  by (simp add: pruned_def)

lemma reserve_Inl_pruned:
  assumes "reserve m path now s = (Inl e, s')"
  shows "pruned now s s'"
proof (cases "rbind (ready now s) (\<lambda>_. request_cost m path)")
  case (Inl a)
  then show ?thesis using assms by (simp add: reserve_def)
next
  case (Inr a)
  obtain p w where a: "a = (p, w)" by (cases a)
  let ?s1 = "s\<lparr>lm_futures_quotes := filter (\<lambda>t. now - t < seconds 86400) (lm_futures_quotes s)\<rparr>"
  obtain used win where u: "window_used now (window_of s p) = (used, win)" by (cases "window_used now (window_of s p)")
  note win = window_used_prunes [OF u]
  have "s' = ?s1 \<or> s' = ?s1\<lparr>lm_windows := bm_insert p win (lm_windows s)\<rparr>"
    using assms u unfolding reserve_def Inr a Let_def sum.case prod.case
    by (auto split: if_splits)
  then show ?thesis by (auto simp: pruned_def window_of_def win [unfolded window_of_def])
qed

lemma observe_pruned: "observe m path status headers now s = (r, s') \<Longrightarrow> pruned now s s'"
  by (auto simp: observe_def Let_def pruned_def window_of_def split: sum.splits prod.splits option.splits if_splits)

lemma measure_pruned: "measure_capacity m path now s = (r, s') \<Longrightarrow> pruned now s s'"
  by (auto dest!: window_used_prunes simp: measure_capacity_def Let_def pruned_def window_of_def split: sum.splits prod.splits option.splits if_splits)

lemma limiter_ok_pruned:
  assumes "limiter_ok hist t s" and "t \<le> now" and "pruned now s s'"
  shows "limiter_ok hist now s'"
  using assms recent_eq_later [OF _ assms(2)] up_to_mono [OF _ assms(2)]
  unfolding limiter_ok_def pruned_def by metis

lemma limiter_ok_later: "limiter_ok hist t s \<Longrightarrow> t \<le> now \<Longrightarrow> limiter_ok hist now s"
  by (rule limiter_ok_pruned [OF _ _ pruned_refl])

lemma limiter_ok_admitted:
  assumes ok: "limiter_ok hist now s" and res: "reserve m path now s = (Inr (), s')"
  shows "limiter_ok (hist @ [(now, m, path)]) now s'"
proof -
  obtain p w where pw: "request_cost m path = Inr (p, w)" and "ready now s = Inr ()"
    and fits: "fst (window_used now (window_of s p)) + w + quote_headroom path \<le> pool_limit p"
    and quotes: "path = futures_get_quote \<longrightarrow>
      \<not> quotes_exhausted now (filter (\<lambda>t. now - t < seconds 86400) (lm_futures_quotes s))"
    and earn: "is_earn_write m path \<longrightarrow> \<not> earn_blocked now s"
    and s': "s' = \<lparr>lm_windows = bm_insert p (snd (window_used now (window_of s p))\<lparr>wd_reservations :=
                recent (seconds 60) now (wd_reservations (window_of s p)) @ [(now, w)]\<rparr>) (lm_windows s),
           lm_cooldown = lm_cooldown s,
           lm_last_earn_write = (if is_earn_write m path then Some now else lm_last_earn_write s),
           lm_futures_quotes = filter (\<lambda>t. now - t < seconds 86400) (lm_futures_quotes s)
             @ (if path = futures_get_quote then [now] else [])\<rparr>"
    using reserve_Inr [OF res] .
  note I = ok [unfolded limiter_ok_def]
  have times: "up_to now hist" using I by simp
  note E = entries_up_to [OF times]
  have pos: "0 < seconds n" if "0 < n" for n using that by (simp add: seconds_def)
  have "sum_list (map snd (recent (seconds 60) now (pool_entries p hist))) \<le> pool_limit p"
    using I by (intro budget_recent [OF _ E(1)]) (simp_all add: pos)
  then have exact: "u32_sum (map snd (recent (seconds 60) now (wd_reservations (window_of s p))))
      = sum_list (map snd (recent (seconds 60) now (pool_entries p hist)))"
    using I pool_limit_small(2) [of p] by (simp add: u32_sum_exact)
  have budget_p: "budget (seconds 60) (pool_limit p) (pool_entries p hist @ [(now, w)])"
    using I window_used_local [of now "window_of s p"] exact fits
    by (intro budget_append [OF _ E(1)]) (simp_all add: pos)
  have same: "recent (seconds 86400) now (logged (lm_futures_quotes s)) = recent (seconds 86400) now (quote_entries hist)"
    using I by simp
  have hour_le: "seconds 3600 \<le> seconds 86400" by (simp add: seconds_def)
  have counts: "length (filter (\<lambda>t. now - t < seconds 86400) (lm_futures_quotes s)) =
      sum_list (map snd (recent (seconds 86400) now (quote_entries hist)))"
    "length (filter (\<lambda>t. now - t < seconds 3600) (filter (\<lambda>t. now - t < seconds 86400) (lm_futures_quotes s))) =
      sum_list (map snd (recent (seconds 3600) now (quote_entries hist)))"
    unfolding sum_recent_logged [symmetric] same filter_recent_logged recent_logged [symmetric]
    using recent_narrow [OF hour_le, of now "logged (lm_futures_quotes s)"] recent_narrow [OF hour_le, of now "quote_entries hist"] same
    by (simp_all add: recent_logged)
  have budget_q: "budget (seconds 86400) 500 (quote_entries (hist @ [(now, m, path)]))"
    "budget (seconds 3600) 360 (quote_entries (hist @ [(now, m, path)]))"
  proof (atomize (full), cases "path = futures_get_quote")
    case True
    then have "\<not> 500 \<le> sum_list (map snd (recent (seconds 86400) now (quote_entries hist)))"
      "\<not> 360 \<le> sum_list (map snd (recent (seconds 3600) now (quote_entries hist)))"
      using quotes counts by (simp_all add: quotes_exhausted_def)
    then show "budget (seconds 86400) 500 (quote_entries (hist @ [(now, m, path)]))
        \<and> budget (seconds 3600) 360 (quote_entries (hist @ [(now, m, path)]))"
      using I E(2) True by (auto simp: entries_snoc pos intro!: budget_append)
  qed (use I in \<open>simp add: entries_snoc\<close>)
  have spaced: "sorted_wrt (\<lambda>a b. a + seconds 3 \<le> b) (earn_times (hist @ [(now, m, path)]))"
  proof (cases "is_earn_write m path")
    case True
    have "x + seconds 3 \<le> now" if "x \<in> set (earn_times hist)" for x
    proof -
      have ne: "earn_times hist \<noteq> []" using that by auto
      have "lm_last_earn_write s = Some (last (earn_times hist))" using I ne by simp
      then have gap: "last (earn_times hist) + seconds 3 \<le> now"
        using earn True E(3) [OF last_in_set [OF ne]] by (auto simp: earn_blocked_def)
      have "sorted_wrt (\<lambda>a b. a + seconds 3 \<le> b) (butlast (earn_times hist) @ [last (earn_times hist)])"
        using I ne by simp
      moreover have "x \<in> set (butlast (earn_times hist)) \<or> x = last (earn_times hist)"
        using that ne by (metis append_butlast_last_id in_set_conv_decomp set_ConsD set_append Un_iff empty_iff empty_set)
      ultimately show ?thesis using gap by (auto simp: sorted_wrt_append)
    qed
    then show ?thesis using I True by (simp add: entries_snoc sorted_wrt_append)
  qed (use I in \<open>simp add: entries_snoc\<close>)
  have pools: "recent (seconds 60) now (wd_reservations (window_of s' q)) = recent (seconds 60) now (pool_entries q (hist @ [(now, m, path)]))
      \<and> budget (seconds 60) (pool_limit q) (pool_entries q (hist @ [(now, m, path)]))" for q
  proof (cases "q = p")
    case True
    have "recent (seconds 60) now (xs @ [(now, w)]) = recent (seconds 60) now xs @ [(now, w)]" for xs
      by (simp add: recent_def seconds_def)
    then show ?thesis using True I budget_p by (simp add: s' window_of_def entries_snoc pw)
  next
    case False
    then show ?thesis using I by (simp add: s' window_of_def entries_snoc pw)
  qed
  have "recent (seconds 86400) now (logged (lm_futures_quotes s')) = recent (seconds 86400) now (quote_entries (hist @ [(now, m, path)]))"
  proof -
    have "logged (lm_futures_quotes s') = logged (filter (\<lambda>t. now - t < seconds 86400) (lm_futures_quotes s))
        @ (if path = futures_get_quote then [(now, 1)] else [])"
      by (simp add: s' logged_def)
    then show ?thesis by (simp add: entries_snoc recent_append same)
  qed
  moreover have "up_to now (hist @ [(now, m, path)])" using times by (simp add: up_to_def)
  moreover have "lm_last_earn_write s' = (if earn_times (hist @ [(now, m, path)]) = [] then None else Some (last (earn_times (hist @ [(now, m, path)]))))"
    using I by (simp add: s' entries_snoc)
  ultimately show ?thesis
    unfolding limiter_ok_def using pools budget_q spaced by blast
qed

lemma limiter_run_ok: "limiter_run hist t s \<Longrightarrow> limiter_ok hist t s"
proof (induction rule: limiter_run.induct)
  case started
  show ?case
    by (simp add: limiter_ok_def up_to_def limiter_default_def window_of_def empty_window_def pool_entries_def quote_entries_def
        earn_times_def budget_def spent_def recent_def logged_def)
next
  case (admitted hist t s now m path s')
  then show ?case using limiter_ok_admitted limiter_ok_later by blast
next
  case (refused hist t s now m path e s')
  then show ?case using limiter_ok_pruned reserve_Inl_pruned by blast
next
  case (observed hist t s now m path status headers r s')
  then show ?case using limiter_ok_pruned observe_pruned by blast
next
  case (measured hist t s now m path r' s')
  then show ?case using limiter_ok_pruned measure_pruned by blast
qed

text \<open>
  C32: The limiter never lets an egress past its budgets, whatever mix of requests, responses and
  refusals it sees: in every rolling minute the admitted requests of a pool weigh at most the pool's
  limit, at most 360 futures quotes are admitted in any hour and 500 in any day, and two Simple Earn
  writes are at least three seconds apart.
\<close>

theorem limiter_budgets:
  assumes "limiter_run hist t s"
  shows "spent (seconds 60) T (pool_entries p hist) \<le> pool_limit p
    \<and> spent (seconds 3600) T (quote_entries hist) \<le> 360
    \<and> spent (seconds 86400) T (quote_entries hist) \<le> 500
    \<and> sorted_wrt (\<lambda>a b. a + seconds 3 \<le> b) (earn_times hist)"
  using limiter_run_ok [OF assms] by (simp add: limiter_ok_def budget_def)

definition quota_log :: "admission list" where
  "quota_log = [(0, POST, futures_get_quote), (seconds 1, POST, futures_accept_quote)]"

lemma endpoint_costs [simp]:
  "request_cost m futures_get_quote = Inr (Futures, 50)" "request_cost m futures_accept_quote = Inr (Futures, 200)"
  "request_cost m sapi_get_quote = Inr (SapiAccount, 200)" "request_cost m sapi_accept_quote = Inr (SapiAccount, 500)"
  by (simp_all add: request_cost_def futures_get_quote_def futures_accept_quote_def sapi_get_quote_def sapi_accept_quote_def)

lemma endpoint_facts [simp]:
  "quote_headroom futures_get_quote = 200" "quote_headroom futures_accept_quote = 0"
  "quote_headroom sapi_get_quote = 500" "quote_headroom sapi_accept_quote = 0"
  "futures_accept_quote \<noteq> futures_get_quote" "sapi_get_quote \<noteq> futures_get_quote" "sapi_accept_quote \<noteq> futures_get_quote"
  "\<not> is_earn_write m futures_get_quote" "\<not> is_earn_write m futures_accept_quote"
  "\<not> is_earn_write m sapi_get_quote" "\<not> is_earn_write m sapi_accept_quote"
  by (simp_all add: quote_headroom_def is_earn_write_def starts_with_def futures_get_quote_def futures_accept_quote_def
      sapi_get_quote_def sapi_accept_quote_def)

lemma quota_first: "\<exists>s. reserve POST futures_get_quote 0 limiter_default = (Inr (), s)"
  by (simp add: reserve_def ready_def limiter_default_def quotes_exhausted_def window_used_def window_of_def empty_window_def
      recent_def u32_sum_def sat_add_u32_def u32_max_def Let_def)

lemma quota_run: "\<exists>s. limiter_run quota_log (seconds 1) s"
proof -
  obtain s1 where s1: "reserve POST futures_get_quote 0 limiter_default = (Inr (), s1)" using quota_first by blast
  then have s1': "s1 = \<lparr>lm_windows = bm_insert Futures \<lparr>wd_reservations = [(0, 50)], wd_observations = []\<rparr> [],
      lm_cooldown = None, lm_last_earn_write = None, lm_futures_quotes = [0]\<rparr>"
    by (auto simp: reserve_def ready_def limiter_default_def quotes_exhausted_def window_used_def window_of_def empty_window_def
        recent_def u32_sum_def sat_add_u32_def u32_max_def Let_def)
  have "\<exists>s2. reserve POST futures_accept_quote (seconds 1) s1 = (Inr (), s2)"
    by (simp add: s1' reserve_def ready_def window_used_def window_of_def
        recent_def u32_sum_def sat_add_u32_def u32_max_def Let_def seconds_def)
  then obtain s2 where s2: "reserve POST futures_accept_quote (seconds 1) s1 = (Inr (), s2)" by blast
  have "limiter_run ([] @ [(0, POST, futures_get_quote)]) 0 s1"
    by (rule limiter_run.admitted [OF limiter_run.started _ s1]) simp
  then have "limiter_run (([] @ [(0, POST, futures_get_quote)]) @ [(seconds 1, POST, futures_accept_quote)]) (seconds 1) s2"
    by (rule limiter_run.admitted [OF _ _ s2]) simp
  then show ?thesis by (auto simp: quota_log_def)
qed

theorem limiter_budgets_witness:
  "spent (seconds 60) (seconds 1) (pool_entries Futures quota_log) \<le> 1800
    \<and> spent (seconds 60) (seconds 1) (pool_entries Futures quota_log) = 250"
proof -
  obtain s where "limiter_run quota_log (seconds 1) s" using quota_run by blast
  from limiter_budgets [OF this, of "seconds 1" Futures] show ?thesis
    by (simp add: quota_log_def pool_entries_def spent_def seconds_def)
qed

subsection \<open>Room to accept a quote\<close>

lemma sum_filter_le: "sum_list (map f (filter P xs)) \<le> sum_list (map (f :: 'a \<Rightarrow> nat) xs)"
  by (induction xs) auto

lemma recent_subset: "set (recent d t xs) \<subseteq> set xs"
  by (auto simp: recent_def)

lemma window_used_grows:
  assumes "now \<le> later" and "sum_list (map snd (recent (seconds 60) now (wd_reservations w))) + k < 2 ^ 32"
  shows "fst (window_used later \<lparr>wd_reservations = recent (seconds 60) now (wd_reservations w) @ [(now, k)],
      wd_observations = recent (seconds 60) now (wd_observations w)\<rparr>) \<le> fst (window_used now w) + k"
proof -
  let ?r = "recent (seconds 60) now (wd_reservations w)" and ?o = "recent (seconds 60) now (wd_observations w)"
  let ?r2 = "recent (seconds 60) later (?r @ [(now, k)])"
  let ?sum = "\<lambda>P xs. sum_list (map snd (filter P xs))"
  have later_le: "?sum P ?r2 \<le> ?sum P ?r + k" for P
    unfolding recent_def [of _ later] filter_filter
    by (rule order_trans [OF sum_filter_mono [of _ _ P]]) (auto simp: sum_filter_le)
  have small: "?sum P ?r < 2 ^ 32" "?sum P ?r2 < 2 ^ 32" for P
    using sum_filter_le [of snd P ?r] later_le [of P] assms(2) by linarith+
  have loc: "u32_sum (map snd ?r2) \<le> u32_sum (map snd ?r) + k"
    using later_le [of "\<lambda>_. True"] small [of "\<lambda>_. True"] by (simp add: u32_sum_exact)
  define ext :: "(instant \<times> nat) list \<Rightarrow> (instant \<times> nat) list \<Rightarrow> nat list" where
    "ext r = map (\<lambda>(since, used). sat_add_u32 used (u32_sum (map snd (filter (\<lambda>(t, _). since < t) r))))" for r
  have used: "fst (window_used t v) = max (u32_sum (map snd (recent (seconds 60) t (wd_reservations v))))
      (foldl max 0 (ext (recent (seconds 60) t (wd_reservations v)) (recent (seconds 60) t (wd_observations v))))" for t v
    by (simp add: window_used_def Let_def ext_def split: list.split)
  have sat: "sat_add_u32 a x \<le> sat_add_u32 a y + k" if "x \<le> y + k" for a x y
    using that by (auto simp: sat_add_u32_def)
  have e: "x \<le> foldl max 0 (ext ?r ?o) + k" if x_in: "x \<in> set (ext ?r2 (recent (seconds 60) later ?o))" for x
  proof -
    obtain since v where o2: "(since, v) \<in> set (recent (seconds 60) later ?o)" and x: "x = sat_add_u32 v (u32_sum (map snd (filter (\<lambda>(t, _). since < t) ?r2)))"
      using x_in by (auto simp: ext_def)
    note o = subsetD [OF recent_subset o2]
    have "x \<le> sat_add_u32 v (u32_sum (map snd (filter (\<lambda>(t, _). since < t) ?r))) + k"
      unfolding x by (rule sat) (use later_le small in \<open>simp add: u32_sum_exact\<close>)
    also have "\<dots> \<le> foldl max 0 (ext ?r ?o) + k"
      using o by (intro add_right_mono foldl_max_ge) (force simp: ext_def)
    finally show ?thesis .
  qed
  have "foldl max 0 (ext ?r2 (recent (seconds 60) later ?o)) \<le> foldl max 0 (ext ?r ?o) + k"
    by (rule foldl_max_le) (simp_all add: e)
  then show ?thesis using loc unfolding used by (auto simp: recent_idem)
qed

lemma limiter_fits:
  assumes "limiter_run hist t s" and "t \<le> now"
  shows "sum_list (map snd (recent (seconds 60) now (wd_reservations (window_of s p)))) \<le> pool_limit p"
proof -
  have ok: "limiter_ok hist now s" by (rule limiter_ok_later [OF limiter_run_ok [OF assms(1)] assms(2)])
  then have "up_to now (pool_entries p hist)" using entries_up_to(1) by (simp add: limiter_ok_def)
  then have "sum_list (map snd (recent (seconds 60) now (pool_entries p hist))) \<le> pool_limit p"
    using ok by (intro budget_recent) (simp_all add: limiter_ok_def seconds_def)
  then show ?thesis using ok by (simp add: limiter_ok_def)
qed

text \<open>
  C33: An admitted conversion quote leaves room for its acceptance: unless something else is sent or
  observed in between, the accept request of the same market is admitted at any later time, so a
  ten-second quote is never lost to the budget.
\<close>

theorem quote_then_accept:
  assumes "limiter_run hist t s" and "t \<le> now" and "now \<le> later"
    and "(quote, accept) \<in> {(futures_get_quote, futures_accept_quote), (sapi_get_quote, sapi_accept_quote)}"
    and "reserve m quote now s = (Inr (), s')"
  shows "fst (reserve m' accept later s') = Inr ()"
proof -
  obtain p w a where pw: "request_cost m quote = Inr (p, w)" "request_cost m' accept = Inr (p, a)"
    and fine: "\<not> is_earn_write m' accept" "accept \<noteq> futures_get_quote" "quote_headroom accept = 0" "quote_headroom quote = a"
    using assms(4) by auto
  have r: "ready now s = Inr ()"
    and fits: "fst (window_used now (window_of s p)) + w + a \<le> pool_limit p"
    and win: "window_of s' p = \<lparr>wd_reservations = recent (seconds 60) now (wd_reservations (window_of s p)) @ [(now, w)],
        wd_observations = recent (seconds 60) now (wd_observations (window_of s p))\<rparr>"
    and cool: "lm_cooldown s' = lm_cooldown s"
  proof -
    obtain q v where qv: "request_cost m quote = Inr (q, v)" and r: "ready now s = Inr ()"
      and fits: "fst (window_used now (window_of s q)) + v + quote_headroom quote \<le> pool_limit q"
      and "quote = futures_get_quote \<longrightarrow> \<not> quotes_exhausted now (filter (\<lambda>t. now - t < seconds 86400) (lm_futures_quotes s))"
      and "is_earn_write m quote \<longrightarrow> \<not> earn_blocked now s"
      and s': "s' = \<lparr>lm_windows = bm_insert q (snd (window_used now (window_of s q))\<lparr>wd_reservations :=
                recent (seconds 60) now (wd_reservations (window_of s q)) @ [(now, v)]\<rparr>) (lm_windows s),
           lm_cooldown = lm_cooldown s,
           lm_last_earn_write = (if is_earn_write m quote then Some now else lm_last_earn_write s),
           lm_futures_quotes = filter (\<lambda>t. now - t < seconds 86400) (lm_futures_quotes s)
             @ (if quote = futures_get_quote then [now] else [])\<rparr>"
      using reserve_Inr [OF assms(5)] .
    have "q = p" "v = w" using qv pw(1) by simp_all
    then show "ready now s = Inr ()" "fst (window_used now (window_of s p)) + w + a \<le> pool_limit p"
      "window_of s' p = \<lparr>wd_reservations = recent (seconds 60) now (wd_reservations (window_of s p)) @ [(now, w)],
        wd_observations = recent (seconds 60) now (wd_observations (window_of s p))\<rparr>"
      "lm_cooldown s' = lm_cooldown s"
      using r fits fine(4) by (simp_all add: s' window_of_def)
  qed
  have ready': "ready later s' = Inr ()"
    using r cool assms(3) by (auto simp: ready_def rensure_Inr_iff split: option.splits)
  have "sum_list (map snd (recent (seconds 60) now (wd_reservations (window_of s p)))) + w < 2 ^ 32"
    using limiter_fits [OF assms(1,2), of p] fits pool_limit_small(2) [of p] window_used_local [of now "window_of s p"]
    by (simp add: u32_sum_exact)
  from window_used_grows [OF assms(3) this] have "fst (window_used later (window_of s' p)) + a \<le> pool_limit p"
    using fits win by simp
  then have "\<not> pool_limit p < sat_add_u32 (sat_add_u32 (fst (window_used later (window_of s' p))) a) 0"
    by (simp add: sat_add_u32_def min_def)
  then show ?thesis
    by (simp add: reserve_def ready' pw(2) fine Let_def split_def window_of_def)
qed

theorem quote_then_accept_witness:
  "\<exists>s. reserve POST futures_get_quote 0 limiter_default = (Inr (), s) \<and> fst (reserve POST futures_accept_quote (seconds 9) s) = Inr ()"
proof -
  obtain s where s: "reserve POST futures_get_quote 0 limiter_default = (Inr (), s)"
    using quota_first by blast
  from quote_then_accept [OF limiter_run.started _ _ _ s, of "seconds 9" futures_accept_quote POST]
  show ?thesis using s by (intro exI [of _ s]) (simp add: seconds_def)
qed

subsection \<open>Cooling down\<close>

text \<open>What may happen to a limiter from one moment to a later one.\<close>

inductive continues :: "instant \<Rightarrow> limiter \<Rightarrow> instant \<Rightarrow> limiter \<Rightarrow> bool" for t0 s0 where
  here: "continues t0 s0 t0 s0"
| reserving: "continues t0 s0 t s \<Longrightarrow> t \<le> now \<Longrightarrow> reserve m path now s = (r, s') \<Longrightarrow> continues t0 s0 now s'"
| observing: "continues t0 s0 t s \<Longrightarrow> t \<le> now \<Longrightarrow> observe m path status headers now s = (r, s') \<Longrightarrow> continues t0 s0 now s'"
| measuring: "continues t0 s0 t s \<Longrightarrow> t \<le> now \<Longrightarrow> measure_capacity m path now s = (r', s') \<Longrightarrow> continues t0 s0 now s'"

definition cooling :: "instant \<Rightarrow> limiter \<Rightarrow> bool" where
  "cooling until s \<longleftrightarrow> (case lm_cooldown s of None \<Rightarrow> False | Some t \<Rightarrow> until \<le> t)"

lemma reserve_cooldown: "reserve m path now s = (r, s') \<Longrightarrow> lm_cooldown s' = lm_cooldown s"
  by (auto simp: reserve_def Let_def split: sum.splits prod.splits if_splits)

lemma measure_cooldown: "measure_capacity m path now s = (r, s') \<Longrightarrow> lm_cooldown s' = lm_cooldown s"
  by (auto simp: measure_capacity_def Let_def split: sum.splits prod.splits)

lemma observe_cooling: "observe m path status headers now s = (r, s') \<Longrightarrow> cooling until s \<Longrightarrow> cooling until s'"
  by (auto simp: observe_def cooling_def Let_def split: sum.splits prod.splits option.splits if_splits)

lemma continues_cooling: "continues t0 s0 t s \<Longrightarrow> cooling until s0 \<Longrightarrow> cooling until s"
  by (induction rule: continues.induct)
    (auto simp: cooling_def dest: reserve_cooldown measure_cooldown observe_cooling [unfolded cooling_def])

text \<open>
  C34: After the exchange answers 429 or 418, nothing is sent to it until the announced time is over:
  whatever happens to the limiter meanwhile - later answers included - every reservation and every
  capacity reading before that time is refused, and changes nothing. The pause lasts at least a second.
\<close>

theorem cooldown_enforced:
  assumes "observe m path status headers now s = (Inr (), s1)" and "status = 429 \<or> status = 418"
    and "continues now s1 t s2" and "t \<le> later" and "later < cooldown_until status headers now"
  shows "reserve m' path' later s2 = (Inl CoolingDown, s2) \<and> measure_capacity m' path' later s2 = (Inl CoolingDown, s2)
    \<and> now + seconds 1 \<le> cooldown_until status headers now"
proof -
  have "cooling (cooldown_until status headers now) s1"
    using assms(1,2) by (auto simp: observe_def cooling_def Let_def split: sum.splits prod.splits option.splits)
  then have "cooling (cooldown_until status headers now) s2" by (rule continues_cooling [OF assms(3)])
  then have "ready later s2 = Inl CoolingDown"
    using assms(5) by (auto simp: cooling_def ready_def rensure_def split: option.splits)
  then show ?thesis
    by (simp add: reserve_def measure_capacity_def cooldown_until_def Let_def seconds_def)
qed

theorem cooldown_enforced_witness:
  "\<exists>s. observe GET ''/fapi/v2/account'' 429 (\<lambda>_. None) 5 limiter_default = (Inr (), s)
     \<and> reserve POST futures_get_quote (seconds 30) s = (Inl CoolingDown, s)"
proof -
  have "\<exists>s. observe GET ''/fapi/v2/account'' 429 (\<lambda>_. None) 5 limiter_default = (Inr (), s)"
    by (simp add: observe_def request_cost_def)
  then obtain s where s: "observe GET ''/fapi/v2/account'' 429 (\<lambda>_. None) 5 limiter_default = (Inr (), s)" by blast
  have "seconds 30 < cooldown_until 429 (\<lambda>_. None) 5" by (simp add: cooldown_until_def seconds_def instant_max_def)
  moreover have "5 \<le> seconds 30" by (simp add: seconds_def)
  ultimately show ?thesis using cooldown_enforced [OF s _ continues.here, of "seconds 30"] s by blast
qed

end
