(* ===== verification/Markets.thy ===== *)
theory Markets
  imports Numbers Venue
begin

text \<open>
  Symbols and markets (\<open>order_config.rs\<close>, \<open>exec_routing.rs\<close>, \<open>market_data.rs\<close>): which symbols an
  execution process trades, in which market of a venue, and under which key their public prices are
  cached. The Unicode tables of the standard library are a parameter.
\<close>

subsection \<open>Unicode\<close>

text \<open>
  \<open>str::to_uppercase\<close>, and \<open>char::is_alphanumeric\<close> of a non-ASCII character given by its bytes.
\<close>

record unicode =
  uc_upper :: "string \<Rightarrow> string"
  uc_alnum :: "string \<Rightarrow> bool"

definition continues_char :: "char \<Rightarrow> bool" where
  "continues_char c \<longleftrightarrow> 128 \<le> byte_of c \<and> byte_of c < 192"

text \<open>\<open>str::chars\<close>: each character as its bytes.\<close>

function utf8_chars :: "string \<Rightarrow> string list" where
  "utf8_chars [] = []"
| "utf8_chars (c # s) = (c # takeWhile continues_char s) # utf8_chars (dropWhile continues_char s)"
  by pat_completeness auto
termination
  by (relation "measure length") (auto simp: le_imp_less_Suc length_dropWhile_le)

definition ascii_alnum :: "string \<Rightarrow> bool" where
  "ascii_alnum s \<longleftrightarrow> list_all is_alnum s"

subsection \<open>Symbols\<close>

datatype symbol_error =
    Delivery string | InvalidSymbol string | NotCoinPerpetual string | NotInMarket string string
  | UnsupportedMarket string | UnsupportedMarketCode i16 | EmptyMarketSymbol | NotLinear string
  | NoncanonicalTarget string | DuplicateTarget string

definition is_delivery :: "string \<Rightarrow> bool" where
  "is_delivery symbol \<longleftrightarrow> 9 < length symbol \<and> list_all is_digit (drop (length symbol - 6) symbol)
     \<and> ends_with ''USD'' (take (length symbol - 6) symbol)"

definition symbol_char :: "unicode \<Rightarrow> string \<Rightarrow> bool" where
  "symbol_char uc ch \<longleftrightarrow> (if byte_of (hd ch) < 128 then is_upper (hd ch) \<or> is_digit (hd ch) else uc_alnum uc ch)"

definition validate_exec_symbol :: "unicode \<Rightarrow> string \<Rightarrow> symbol_error + unit" where
  "validate_exec_symbol uc symbol =
     (if is_delivery symbol then Inl (Delivery symbol)
      else if symbol = [] \<or> \<not> list_all (symbol_char uc) (utf8_chars symbol) then Inl (InvalidSymbol symbol)
      else Inr ())"

definition normalize_exec_symbol :: "unicode \<Rightarrow> string \<Rightarrow> symbol_error + string" where
  "normalize_exec_symbol uc raw =
     (let symbol = uc_upper uc (trim raw)
      in rbind (case split_once (CHR ''_'') symbol of
                  Some (stem, suffix) \<Rightarrow>
                    if 3 < length stem \<and> ends_with ''USD'' stem \<and> ascii_alnum stem \<and> suffix = ''PERP''
                    then Inr stem else Inl (InvalidSymbol raw)
                | None \<Rightarrow> Inr symbol) (\<lambda>symbol.
         let symbol = (if ends_with ''USDPERP'' symbol then take (length symbol - 4) symbol else symbol)
         in rbind (validate_exec_symbol uc symbol) (\<lambda>_. Inr symbol)))"

definition binance_coin_wire_symbol :: "unicode \<Rightarrow> string \<Rightarrow> symbol_error + string" where
  "binance_coin_wire_symbol uc symbol =
     rbind (normalize_exec_symbol uc symbol) (\<lambda>symbol.
     if \<not> ends_with ''USD'' symbol \<or> length symbol \<le> 3 \<or> \<not> ascii_alnum symbol
     then Inl (NotCoinPerpetual symbol) else Inr (symbol @ ''_PERP''))"

subsection \<open>Markets of a venue\<close>

definition symbol_market :: "unicode \<Rightarrow> string \<Rightarrow> string \<Rightarrow> symbol_error + string" where
  "symbol_market uc configured_venue symbol =
     rbind (normalize_exec_symbol uc symbol) (\<lambda>symbol.
     if configured_venue = ''bybit-futures'' \<and> ends_with ''USDT'' symbol then Inr ''bybit-futures''
     else if configured_venue = ''bitget-futures'' \<and> ends_with ''USDT'' symbol then Inr ''bitget-futures''
     else if configured_venue = ''binance-futures'' \<and> (ends_with ''USDT'' symbol \<or> ends_with ''USDC'' symbol)
     then Inr ''binance-futures''
     else if configured_venue = ''binance-coin-futures'' \<and> ends_with ''USD'' symbol
     then rbind (binance_coin_wire_symbol uc symbol) (\<lambda>_. Inr ''binance-coin-futures'')
     else if configured_venue = ''okex-futures'' \<and> (ends_with ''USDT'' symbol \<or> ends_with ''USDC'' symbol)
     then Inr ''okex-futures''
     else if configured_venue \<in> {''binance-futures'', ''binance-margin''} \<and> is_spot_target symbol then Inr ''binance-margin''
     else if configured_venue \<in> {''okex-futures'', ''okex-margin''} \<and> is_spot_target symbol then Inr ''okex-margin''
     else Inl (NotInMarket symbol configured_venue))"

definition archived_symbol_market :: "unicode \<Rightarrow> string \<Rightarrow> string \<Rightarrow> symbol_error + string" where
  "archived_symbol_market uc configured_venue symbol =
     rbind (normalize_exec_symbol uc symbol) (\<lambda>normalized.
     let venue = (if starts_with ''binance-'' configured_venue \<and> ends_with ''USD'' normalized then ''binance-coin-futures''
                  else if starts_with ''binance-'' configured_venue then ''binance-futures'' else configured_venue)
     in symbol_market uc venue normalized)"

subsection \<open>Keys of public prices\<close>

definition market_code :: "string \<Rightarrow> symbol_error + i16" where
  "market_code venue =
     (if venue = ''binance-margin'' then Inr 0 else if venue = ''binance-futures'' then Inr 1
      else if venue = ''okex-margin'' then Inr 2 else if venue = ''okex-futures'' then Inr 3
      else Inl (UnsupportedMarket venue))"

definition cache_symbol :: "unicode \<Rightarrow> string \<Rightarrow> i16 \<Rightarrow> symbol_error + string" where
  "cache_symbol uc symbol venue =
     rbind (validate_exec_symbol uc symbol) (\<lambda>_.
     if venue = 0 \<or> venue = 1 then Inr symbol
     else if venue = 2 then Inr (''okex-margin:'' @ symbol)
     else if venue = 3 then Inr (''okex-futures:'' @ symbol)
     else Inl (UnsupportedMarketCode venue))"

definition price_key :: "unicode \<Rightarrow> string \<Rightarrow> string \<Rightarrow> symbol_error + string" where
  "price_key uc venue symbol = rbind (market_code venue) (cache_symbol uc symbol)"

definition split_cache_symbol :: "unicode \<Rightarrow> string \<Rightarrow> symbol_error + string \<times> string" where
  "split_cache_symbol uc key =
     (let (venue, symbol) = (case split_once (CHR '':'') key of Some p \<Rightarrow> p
        | None \<Rightarrow> (if is_spot_target key then ''binance-margin'' else ''binance-futures'', key))
      in rbind (market_code venue) (\<lambda>_. rbind (validate_exec_symbol uc symbol) (\<lambda>_.
         rbind (rensure (symbol \<noteq> []) EmptyMarketSymbol) (\<lambda>_. Inr (venue, symbol)))))"

definition normalize_target :: "unicode \<Rightarrow> string \<Rightarrow> symbol_error + string" where
  "normalize_target uc raw =
     (case split_once (CHR '':'') (trim raw) of
        Some (venue, symbol) \<Rightarrow>
          let venue = ascii_lower venue
          in if venue \<notin> {''okex-futures'', ''binance-futures''} then Inl (UnsupportedMarket venue)
             else rbind (normalize_exec_symbol uc symbol) (\<lambda>symbol.
               if \<not> ends_with ''USDT'' symbol \<or> length symbol \<le> 4 then Inl (NotLinear symbol)
               else Inr (venue @ '':'' @ symbol))
      | None \<Rightarrow> normalize_exec_symbol uc raw)"

definition validate_target :: "unicode \<Rightarrow> string \<Rightarrow> symbol_error + unit" where
  "validate_target uc key =
     rbind (normalize_target uc key) (\<lambda>t. if t \<noteq> key then Inl (NoncanonicalTarget key) else Inr ())"

definition normalize_targets :: "unicode \<Rightarrow> (string, 'v) bmap \<Rightarrow> symbol_error + (string, 'v) bmap" where
  "normalize_targets uc targets =
     rfold (\<lambda>result (key, v). rbind (normalize_target uc key) (\<lambda>key.
       if bm_contains result key then Inl (DuplicateTarget key) else Inr (bm_insert key v result))) [] targets"

subsection \<open>A key names one market\<close>

lemma valid_symbol_chars:
  "list_all (symbol_char uc) (utf8_chars s) \<Longrightarrow> c \<in> set s \<Longrightarrow> byte_of c < 128 \<Longrightarrow> is_upper c \<or> is_digit c"
proof (induction s rule: utf8_chars.induct)
  case (2 d s)
  have split: "s = takeWhile continues_char s @ dropWhile continues_char s" by simp
  have "c \<notin> set (takeWhile continues_char s)"
  proof
    assume "c \<in> set (takeWhile continues_char s)"
    then have "continues_char c" by (rule set_takeWhileD [THEN conjunct2])
    then show False using 2(4) by (simp add: continues_char_def)
  qed
  then have "c = d \<or> c \<in> set (dropWhile continues_char s)" using 2(3) split
    by (metis Un_iff set_ConsD set_append)
  then show ?case using 2 by (auto simp: symbol_char_def)
qed simp

lemma valid_no_colon: "validate_exec_symbol uc symbol = Inr () \<Longrightarrow> CHR '':'' \<notin> set symbol"
  using valid_symbol_chars [of uc symbol "CHR '':''"]
  by (auto simp: validate_exec_symbol_def byte_of_def is_upper_def is_digit_def split: if_splits)

lemma split_once_prefix: "c \<notin> set p \<Longrightarrow> split_once c (p @ c # s) = Some (p, s)"
  unfolding split_once_def by (induction p) auto

lemma split_once_none: "c \<notin> set s \<Longrightarrow> split_once c s = None"
  by (simp add: split_once_def)

text \<open>
  The key of a market's public prices names it. Splitting a key gives back the symbol, and the venue
  it was built for, except that the two Binance markets share the bare symbol and the symbol itself
  says which of them it is.
\<close>

theorem price_key_split:
  assumes "price_key uc venue symbol = Inr key"
  shows "split_cache_symbol uc key
    = Inr (if venue \<in> {''binance-margin'', ''binance-futures''}
           then (if is_spot_target symbol then ''binance-margin'' else ''binance-futures'') else venue, symbol)"
proof -
  have v: "validate_exec_symbol uc symbol = Inr ()" using assms by (auto simp: price_key_def cache_symbol_def rbind_Inr_iff)
  then have ne: "symbol \<noteq> []" by (auto simp: validate_exec_symbol_def split: if_splits)
  have colon: "CHR '':'' \<notin> set symbol" by (rule valid_no_colon [OF v])
  have okex: "split_once (CHR '':'') (''okex-margin:'' @ symbol) = Some (''okex-margin'', symbol)"
    "split_once (CHR '':'') (''okex-futures:'' @ symbol) = Some (''okex-futures'', symbol)"
    using split_once_prefix [of "CHR '':''" "''okex-margin''" symbol] split_once_prefix [of "CHR '':''" "''okex-futures''" symbol] by simp_all
  consider "venue \<in> {''binance-margin'', ''binance-futures''}" "key = symbol"
    | "venue = ''okex-margin''" "key = ''okex-margin:'' @ symbol" | "venue = ''okex-futures''" "key = ''okex-futures:'' @ symbol"
    using assms v by (auto simp: price_key_def cache_symbol_def market_code_def split: if_splits)
  then show ?thesis
    using v ne split_once_none [OF colon] okex by cases (simp_all add: split_cache_symbol_def market_code_def rensure_def Let_def)
qed

theorem price_key_split_witness:
  "split_cache_symbol \<lparr>uc_upper = ascii_upper, uc_alnum = (\<lambda>_. False)\<rparr> ''okex-futures:BTCUSDT'' = Inr (''okex-futures'', ''BTCUSDT'')"
proof -
  have "price_key \<lparr>uc_upper = ascii_upper, uc_alnum = (\<lambda>_. False)\<rparr> ''okex-futures'' ''BTCUSDT'' = Inr ''okex-futures:BTCUSDT''"
    by code_simp
  from price_key_split [OF this] show ?thesis by simp
qed

end
