(* ===== verification/Bits.thy ===== *)
theory Bits
  imports Decode
begin

text \<open>
  \<open>f64::to_bits\<close>, the inverse of \<open>f64_of_bits\<close> on the values the format represents. The model has
  one zero and one NaN; they are written as \<open>0.0\<close> and the quiet NaN.
\<close>

definition f64_bits :: "f64 \<Rightarrow> nat" where
  "f64_bits v =
     (case v of
        Fin r \<Rightarrow>
          let a = \<bar>r\<bar>; sign = (if r < 0 then 2 ^ 63 else 0)
          in if a < pow2 (-1022) then sign + nat \<lfloor>a / pow2 (-1074)\<rfloor>
             else sign + nat (flog2 a + 1023) * 2 ^ 52 + (nat \<lfloor>a / pow2 (flog2 a - 52)\<rfloor> - 2 ^ 52)
      | PosInf \<Rightarrow> 2047 * 2 ^ 52
      | NegInf \<Rightarrow> 2 ^ 63 + 2047 * 2 ^ 52
      | NaN \<Rightarrow> 2047 * 2 ^ 52 + 2 ^ 51)"

text \<open>The three fields of a pattern.\<close>

lemma bit_fields:
  fixes s ex fr :: nat
  assumes "s \<le> 1" and "ex < 2 ^ 11" and "fr < 2 ^ 52"
  defines "b \<equiv> s * 2 ^ 63 + ex * 2 ^ 52 + fr"
  shows "b < 2 ^ 64" and "b div 2 ^ 63 = s" and "(b div 2 ^ 52) mod 2 ^ 11 = ex" and "b mod 2 ^ 52 = fr"
proof -
  have b: "b = (s * 2 ^ 11 + ex) * 2 ^ 52 + fr" by (simp add: b_def algebra_simps)
  have "b div 2 ^ 52 = s * 2 ^ 11 + ex" using assms(3) by (simp add: b)
  with assms(2) show "(b div 2 ^ 52) mod 2 ^ 11 = ex" by simp
  show "b mod 2 ^ 52 = fr" using assms(3) unfolding b by (metis mod_less mod_mult_self3)
  have low: "ex * 2 ^ 52 + fr < 2 ^ 63" using assms(2,3) by simp
  then show "b div 2 ^ 63 = s" by (simp add: b_def add.assoc)
  show "b < 2 ^ 64" using low assms(1) by (simp add: b_def)
qed

lemma f64_from_fields:
  assumes "s \<le> 1" and "ex < 2047" and "fr < 2 ^ 52"
  shows "f64_from (s * 2 ^ 63 + ex * 2 ^ 52 + fr) =
     Fin ((if s = 1 then - 1 else 1) * (if ex = 0 then of_nat fr * pow2 (-1074) else of_nat (2 ^ 52 + fr) * pow2 (int ex - 1075)))"
proof -
  let ?b = "s * 2 ^ 63 + ex * 2 ^ 52 + fr"
  have ex: "ex < 2 ^ 11" using assms(2) by simp
  note f = bit_fields [OF assms(1) ex assms(3)]
  have u: "unat (of_nat ?b :: 64 word) = ?b" unfolding unat_of_nat by (rule mod_less) (use f(1) in simp)
  show ?thesis
    unfolding f64_from_def f64_of_bits_def Let_def u f(2-4) using assms(2) by auto
qed

lemma subnormal_bits:
  assumes "is_repr a" and "0 \<le> a" and "a < pow2 (-1022)"
  obtains n where "n < 2 ^ 52" and "a = of_nat n * pow2 (-1074)" and "nat \<lfloor>a / pow2 (-1074)\<rfloor> = n"
proof (cases "a = 0")
  case True
  then show ?thesis using that [of 0] by simp
next
  case False
  have "flog2 \<bar>a\<bar> \<le> -1023" using flog2_le [of a "-1023"] assms False by simp
  then have u: "ulp_exp a = -1074" by (simp add: ulp_exp_def)
  obtain m where m: "a = of_int m * pow2 (-1074)" using is_repr_ulp [OF assms(1) False] unfolding u .
  have m0: "0 \<le> m" using assms(2) m pow2_pos [of "-1074"] by (simp add: zero_le_mult_iff)
  have "pow2 (-1022) = pow2 (52 + (-1074))" by simp
  also have "\<dots> = 2 ^ 52 * pow2 (-1074)" by (simp only: pow2_add pow2_numerals)
  finally have "of_int m * pow2 (-1074) < 2 ^ 52 * pow2 (-1074)" using assms(3) m by simp
  then have "of_int m < (of_int (2 ^ 52) :: rat)" using pow2_pos [of "-1074"] by simp
  then have "m < 2 ^ 52" by (simp only: of_int_less_iff)
  with m0 have n: "nat m < 2 ^ 52" by (simp add: nat_less_iff)
  have "a / pow2 (-1074) = of_int m" by (simp add: m)
  then have "nat \<lfloor>a / pow2 (-1074)\<rfloor> = nat m" by simp
  with that [of "nat m"] n m m0 show ?thesis by simp
qed

lemma normal_bits:
  assumes "is_repr a" and "pow2 (-1022) \<le> a"
  obtains ex fr where "0 < ex" and "ex < 2047" and "fr < 2 ^ 52" and "a = of_nat (2 ^ 52 + fr) * pow2 (int ex - 1075)"
    and "nat (flog2 a + 1023) = ex" and "nat \<lfloor>a / pow2 (flog2 a - 52)\<rfloor> - 2 ^ 52 = fr"
proof -
  have a0: "0 < a" using assms(2) pow2_pos [of "-1022"] by linarith
  note lg = flog2_bounds [OF a0]
  let ?e = "flog2 a"
  have lo: "-1022 \<le> ?e" using lg(2) assms(2) pow2_less_iff [of "-1022" "?e + 1"] by linarith
  have "a < pow2 1024" using assms(1) a0 by (simp add: is_repr_def)
  with lg(1) have "pow2 ?e < pow2 1024" by (rule le_less_trans)
  then have hi: "?e < 1024" by simp
  have u: "ulp_exp a = ?e - 52" using lo a0 by (simp add: ulp_exp_def)
  have a1: "a \<noteq> 0" using a0 by simp
  obtain m where m: "a = of_int m * pow2 (?e - 52)" using is_repr_ulp [OF assms(1) a1] unfolding u .
  let ?p = "pow2 (?e - 52)"
  have "pow2 ?e = pow2 (52 + (?e - 52))" by simp
  also have "\<dots> = 2 ^ 52 * ?p" by (simp only: pow2_add pow2_numerals)
  finally have "2 ^ 52 * ?p \<le> of_int m * ?p" using lg(1) m by simp
  then have ml: "(of_int (2 ^ 52) :: rat) \<le> of_int m" by simp
  have "pow2 (?e + 1) = pow2 (53 + (?e - 52))" by (rule arg_cong [of _ _ pow2]) simp
  also have "\<dots> = 2 ^ 53 * ?p" by (simp only: pow2_add pow2_numerals)
  finally have "of_int m * ?p < 2 ^ 53 * ?p" using lg(2) m by simp
  then have mh: "of_int m < (of_int (2 ^ 53) :: rat)" by simp
  have mi: "2 ^ 52 \<le> m" "m < 2 ^ 53" using ml mh by (simp_all only: of_int_less_iff of_int_le_iff)
  define fr where "fr = nat m - 2 ^ 52"
  have fr: "fr < 2 ^ 52" using mi by (simp add: fr_def nat_less_iff)
  have sum: "2 ^ 52 + fr = nat m" using mi unfolding fr_def by (subst le_add_diff_inverse) (simp_all add: le_nat_iff)
  have e: "int (nat (?e + 1023)) - 1075 = ?e - 52" using lo by simp
  have val: "a = of_nat (2 ^ 52 + fr) * pow2 (int (nat (?e + 1023)) - 1075)"
    unfolding sum e using m mi by simp
  have "a / ?p = of_int m" by (subst m) simp
  then have fl: "nat \<lfloor>a / ?p\<rfloor> - 2 ^ 52 = fr" by (simp add: fr_def)
  show ?thesis
    by (rule that [OF _ _ fr val refl fl]) (use lo hi in simp_all)
qed

lemma f64_bits_fields:
  assumes "is_repr r"
  obtains s ex fr where "s \<le> 1" and "ex < 2047" and "fr < 2 ^ 52" and "f64_bits (Fin r) = s * 2 ^ 63 + ex * 2 ^ 52 + fr"
    and "f64_from (f64_bits (Fin r)) = Fin r"
proof -
  define s :: nat where "s = (if r < 0 then 1 else 0)"
  have s: "s \<le> 1" "(if r < 0 then 2 ^ 63 else 0) = s * 2 ^ 63" by (simp_all add: s_def)
  have sgn: "(if s = 1 then - 1 else 1) * \<bar>r\<bar> = r" by (auto simp: s_def)
  have repr: "is_repr \<bar>r\<bar>" using assms by simp
  show ?thesis
  proof (cases "\<bar>r\<bar> < pow2 (-1022)")
    case True
    obtain n where n: "n < 2 ^ 52" "\<bar>r\<bar> = of_nat n * pow2 (-1074)" "nat \<lfloor>\<bar>r\<bar> / pow2 (-1074)\<rfloor> = n"
      by (rule subnormal_bits [OF repr abs_ge_zero True])
    have b: "f64_bits (Fin r) = s * 2 ^ 63 + 0 * 2 ^ 52 + n"
      using True n(3) s(2) by (simp add: f64_bits_def Let_def)
    have "f64_from (f64_bits (Fin r)) = Fin ((if s = 1 then - 1 else 1) * \<bar>r\<bar>)"
      unfolding b by (subst f64_from_fields [OF s(1) _ n(1)]) (simp_all add: n(2))
    with that [OF s(1) _ n(1) b] sgn show ?thesis by simp
  next
    case False
    then have "pow2 (-1022) \<le> \<bar>r\<bar>" by simp
    then obtain ex fr where x: "0 < ex" "ex < 2047" "fr < 2 ^ 52" "\<bar>r\<bar> = of_nat (2 ^ 52 + fr) * pow2 (int ex - 1075)"
      "nat (flog2 \<bar>r\<bar> + 1023) = ex" "nat \<lfloor>\<bar>r\<bar> / pow2 (flog2 \<bar>r\<bar> - 52)\<rfloor> - 2 ^ 52 = fr"
      by (rule normal_bits [OF repr])
    have b: "f64_bits (Fin r) = s * 2 ^ 63 + ex * 2 ^ 52 + fr"
      using False x(5,6) s(2) by (simp add: f64_bits_def Let_def)
    have "f64_from (f64_bits (Fin r)) = Fin ((if s = 1 then - 1 else 1) * \<bar>r\<bar>)"
      unfolding b by (subst f64_from_fields [OF s(1) x(2,3)]) (use x(1,4) in simp)
    with that [OF s(1) x(2,3) b] sgn show ?thesis by simp
  qed
qed

lemma f64_bits_bound: "f_ok v \<Longrightarrow> f64_bits v < 2 ^ 64"
proof (cases v)
  case (Fin r)
  assume "f_ok v"
  then have "is_repr r" using Fin by simp
  then obtain s ex fr where "s \<le> 1" "ex < 2047" "fr < 2 ^ 52" "f64_bits v = s * 2 ^ 63 + ex * 2 ^ 52 + fr"
    unfolding Fin by (rule f64_bits_fields)
  then show ?thesis using bit_fields(1) [of s ex fr] by simp
qed (simp_all add: f64_bits_def)

lemma f64_from_bits: "f_ok v \<Longrightarrow> is_fin v \<Longrightarrow> f64_from (f64_bits v) = v"
  by (cases v) (auto elim: f64_bits_fields)

end
