(* ===== verification/Candles.thy ===== *)
theory Candles
  imports Markets Bits Environment Valuation Evidence
begin

text \<open>
  Minute candles (\<open>kline.rs\<close>) and the execution models that price a target change from them
  (\<open>theoretical_execution.rs\<close>): the stored form of a candle, the cache of candles and of priced
  windows of each market, and its reads and writes.
\<close>

subsection \<open>Execution models\<close>

datatype execution_model = Twap5m | Vwap3m | Twap3m | InstantTaker

fun model_rank :: "execution_model \<Rightarrow> nat" where
  "model_rank Twap5m = 0" | "model_rank Vwap3m = 1" | "model_rank Twap3m = 2" | "model_rank InstantTaker = 3"

lemma model_rank_inj: "model_rank x = model_rank y \<Longrightarrow> x = y"
  by (cases x; cases y) simp_all

instantiation execution_model :: linorder
begin

definition less_eq_execution_model :: "execution_model \<Rightarrow> execution_model \<Rightarrow> bool" where
  "less_eq_execution_model x y \<longleftrightarrow> model_rank x \<le> model_rank y"

definition less_execution_model :: "execution_model \<Rightarrow> execution_model \<Rightarrow> bool" where
  "less_execution_model x y \<longleftrightarrow> model_rank x < model_rank y"

instance
  by standard (auto simp: less_eq_execution_model_def less_execution_model_def intro: model_rank_inj)

end

definition day_us :: i64 where
  "day_us = 86400000000"

definition first_complete_open :: "i64 \<Rightarrow> i64" where
  "first_complete_open received_at_us = wrap64 (sat64 (received_at_us + (minute_us - 1)) div minute_us * minute_us)"

fun sample_count :: "execution_model \<Rightarrow> nat" where
  "sample_count Twap5m = 5" | "sample_count Vwap3m = 3" | "sample_count Twap3m = 3" | "sample_count InstantTaker = 1"

definition window_secs :: "execution_model \<Rightarrow> nat" where
  "window_secs model = (if model = InstantTaker then 0 else sample_count model * 60)"

definition model_open_ts_us :: "execution_model \<Rightarrow> i64 \<Rightarrow> i64" where
  "model_open_ts_us model received_at_us =
     (if model = InstantTaker then wrap64 (received_at_us div minute_us * minute_us) else first_complete_open received_at_us)"

text \<open>The model of a source follows its execution backend; a portfolio comparison may replace the RapidX one.\<close>

definition model_for_backend :: "backend \<Rightarrow> execution_model" where
  "model_for_backend backend = (if backend = Ltp then Vwap3m else Twap5m)"

type_synonym execution_models = "(string, execution_model) bmap"

definition resolve_models :: "(source_config \<Rightarrow> 'e + backend) \<Rightarrow> source_config list \<Rightarrow> string list \<Rightarrow> 'e + execution_models" where
  "resolve_models backend config sources =
     rmap (\<lambda>kvs. bm_extend [] kvs)
       (rmapM (\<lambda>source. rmap (\<lambda>b. (sc_id source, model_for_backend b)) (backend source))
         (filter (\<lambda>source. sc_enabled source \<and> (sources = [] \<or> sc_id source \<in> set sources)) config))"

definition select_reference :: "execution_models \<Rightarrow> execution_model \<Rightarrow> execution_models" where
  "select_reference models reference = bm_map (\<lambda>model. if model = Vwap3m then reference else model) models"

definition references :: "execution_models \<Rightarrow> execution_model list" where
  "references models = (if Vwap3m \<in> set (bm_vals models) then [Vwap3m, Twap3m, InstantTaker] else [Twap5m])"

definition scope_model :: "execution_models \<Rightarrow> execution_model option" where
  "scope_model models =
     (let first = (case bm_vals models of [] \<Rightarrow> Twap5m | m # _ \<Rightarrow> m)
      in if list_all (\<lambda>m. m = first) (bm_vals models) then Some first else None)"

definition scope_window_secs :: "execution_models \<Rightarrow> nat" where
  "scope_window_secs models = (case map window_secs (bm_vals models) of [] \<Rightarrow> 300 | w # ws \<Rightarrow> foldl max w ws)"

subsection \<open>Candles\<close>

record kline =
  kl_open_ts_us :: i64
  kl_open :: f64
  kl_high :: f64
  kl_low :: f64
  kl_close :: f64
  kl_base_volume :: f64
  kl_quote_volume :: f64
  kl_trades :: nat

definition kl_end_ts_us :: "kline \<Rightarrow> i64" where
  "kl_end_ts_us k = wrap64 (kl_open_ts_us k + minute_us)"

definition kl_vwap :: "kline \<Rightarrow> f64 option" where
  "kl_vwap k =
     (let price = kl_quote_volume k / kl_base_volume k
      in if 0 < kl_base_volume k \<and> 0 < kl_quote_volume k \<and> is_fin price \<and> 0 < price then Some price else None)"

datatype candle_error =
    CandleSize | UnalignedCandle | InvalidCandle | CandleSymbol | CandleOutsidePage | CandleKey | WindowVwap
  | DbRead | DbWrite | UnsupportedRange | AnalysisDisabled | BeyondRetention | FetchFailed string

definition kl_encode :: "kline \<Rightarrow> bytes" where
  "kl_encode k =
     concat (map (\<lambda>v. le_bytes 8 (f64_bits v)) [kl_open k, kl_high k, kl_low k, kl_close k, kl_base_volume k, kl_quote_volume k])
     @ le_bytes 8 (kl_trades k)"

definition kl_validate :: "kline \<Rightarrow> candle_error + unit" where
  "kl_validate k =
     rbind (rensure (0 < kl_open_ts_us k \<and> kl_open_ts_us k mod minute_us = 0) UnalignedCandle) (\<lambda>_.
     rensure (list_all (\<lambda>v. is_fin v \<and> 0 < v) [kl_open k, kl_high k, kl_low k, kl_close k]
       \<and> list_all (\<lambda>v. is_fin v \<and> 0 \<le> v) [kl_base_volume k, kl_quote_volume k]
       \<and> f_max (kl_open k) (kl_close k) \<le> kl_high k \<and> kl_low k \<le> f_min (kl_open k) (kl_close k) \<and> kl_low k \<le> kl_high k) InvalidCandle)"

definition candle_bytes :: nat where
  "candle_bytes = 56"

definition kl_decode :: "i64 \<Rightarrow> bytes \<Rightarrow> candle_error + kline" where
  "kl_decode open_ts_us bs =
     rbind (rensure (length bs = candle_bytes) CandleSize) (\<lambda>_.
     let number = (\<lambda>i. f64_from (le_nat (take 8 (drop (i * 8) bs))));
         k = \<lparr>kl_open_ts_us = open_ts_us, kl_open = number 0, kl_high = number 1, kl_low = number 2, kl_close = number 3,
              kl_base_volume = number 4, kl_quote_volume = number 5, kl_trades = le_nat (take 8 (drop 48 bs))\<rparr>
     in rbind (kl_validate k) (\<lambda>_. Inr k))"

subsection \<open>Keys of the candle table\<close>

text \<open>Length of the symbol, symbol, and the time of opening as eight bytes, most significant first.\<close>

definition time_bytes :: "i64 \<Rightarrow> bytes" where
  "time_bytes t = rev (le_bytes 8 (nat (t mod 2 ^ 64)))"

definition key_prefix :: "unicode \<Rightarrow> string \<Rightarrow> candle_error + bytes" where
  "key_prefix uc symbol =
     rbind (rensure (length symbol < 256 \<and> \<not> isl (split_cache_symbol uc symbol)) CandleSymbol) (\<lambda>_.
     Inr (of_nat (length symbol) # utf8 symbol))"

definition candle_key :: "unicode \<Rightarrow> string \<Rightarrow> i64 \<Rightarrow> candle_error + bytes" where
  "candle_key uc symbol open_ts_us = rbind (key_prefix uc symbol) (\<lambda>p. Inr (p @ time_bytes open_ts_us))"

subsection \<open>The price of a window\<close>

text \<open>
  One simulated fill per minute of a window, or its single arrival price: the prices and weights of the
  samples, the average, and how many empty minutes were skipped or priced by their close.
\<close>

record minute_schedule =
  mp_prices :: "f64 option list"
  mp_quantity_weights :: "f64 list"
  mp_execution_model :: execution_model
  mp_average_price :: "f64 option"
  mp_skipped :: nat
  mp_fallback :: nat

definition flatten_options :: "'a option list \<Rightarrow> 'a list" where
  "flatten_options xs = map the (filter (\<lambda>x. x \<noteq> None) xs)"

definition priced_sample_count :: "minute_schedule \<Rightarrow> nat" where
  "priced_sample_count p = length (flatten_options (mp_prices p))"

definition mp_quantity :: "minute_schedule \<Rightarrow> f64 \<Rightarrow> nat \<Rightarrow> f64" where
  "mp_quantity p delta index =
     (if mp_prices p ! index = None then 0
      else if mp_execution_model p = Vwap3m then delta * mp_quantity_weights p ! index
      else delta / f_lit (of_nat (priced_sample_count p)))"

definition first_price :: "minute_schedule \<Rightarrow> f64 option" where
  "first_price p = (case flatten_options (mp_prices p) of [] \<Rightarrow> None | x # _ \<Rightarrow> Some x)"

definition window_opens :: "i64 \<Rightarrow> execution_model \<Rightarrow> i64 list" where
  "window_opens open_ts_us model = map (\<lambda>index. wrap64 (open_ts_us + int index * minute_us)) [0..<sample_count model]"

definition instant_schedule :: "kline \<Rightarrow> minute_schedule" where
  "instant_schedule k =
     \<lparr>mp_prices = [Some (kl_open k)], mp_quantity_weights = [1], mp_execution_model = InstantTaker,
      mp_average_price = Some (kl_open k), mp_skipped = 0, mp_fallback = 0\<rparr>"

record window_sums =
  ws_prices :: "f64 option list"
  ws_closes :: "f64 list"
  ws_volumes :: "f64 list"
  ws_quote_volume :: f64
  ws_skipped :: nat

text \<open>The loop over the minutes of a window; a missing or unusable minute leaves the window unpriced.\<close>

definition window_sample :: "(i64 \<Rightarrow> kline option) \<Rightarrow> window_sums \<Rightarrow> i64 \<Rightarrow> unit + window_sums" where
  "window_sample candles w ts =
     rbind (of_option () (candles ts)) (\<lambda>k.
     let w = w\<lparr>ws_closes := ws_closes w @ [kl_close k]\<rparr>
     in if feq (kl_base_volume k) 0 \<and> feq (kl_quote_volume k) 0
        then Inr (w\<lparr>ws_prices := ws_prices w @ [None], ws_volumes := ws_volumes w @ [0], ws_skipped := ws_skipped w + 1\<rparr>)
        else rbind (of_option () (kl_vwap k)) (\<lambda>price.
          Inr (w\<lparr>ws_prices := ws_prices w @ [Some price], ws_volumes := ws_volumes w @ [kl_base_volume k],
                 ws_quote_volume := ws_quote_volume w + kl_quote_volume k\<rparr>)))"

definition window_totals :: "(i64 \<Rightarrow> kline option) \<Rightarrow> i64 list \<Rightarrow> unit + window_sums" where
  "window_totals candles opens =
     rfold (window_sample candles) \<lparr>ws_prices = [], ws_closes = [], ws_volumes = [], ws_quote_volume = 0, ws_skipped = 0\<rparr> opens"

definition window_schedule :: "execution_model \<Rightarrow> window_sums \<Rightarrow> minute_schedule" where
  "window_schedule model w =
     (let count = sample_count model;
          all_empty = (ws_skipped w = count);
          prices = (if all_empty then map Some (ws_closes w)
                    else if model = Twap3m
                    then map2 (\<lambda>price close. if price = None then Some close else price) (ws_prices w) (ws_closes w)
                    else ws_prices w);
          fallback = (if all_empty then count
                      else if model = Twap3m then length (filter (\<lambda>price. price = None) (ws_prices w)) else 0);
          priced = flatten_options prices;
          n = f_lit (of_nat (length priced));
          total = f_sum (ws_volumes w);
          (average, weights) =
            (if model = Twap3m
             then (if length priced = 3 then Some (f_sum priced / f_lit 3) else None, replicate 3 (1 / f_lit 3))
             else if model = Twap5m
             then (Some (f_sum priced / n), map (\<lambda>price. if price \<noteq> None then 1 / n else 0) prices)
             else (Some (if 0 < total then ws_quote_volume w / total else f_sum (ws_closes w) / f_lit (of_nat count)),
                   map (\<lambda>volume. if 0 < total then volume / total else 1 / f_lit (of_nat count)) (ws_volumes w)))
      in \<lparr>mp_prices = prices, mp_quantity_weights = weights, mp_execution_model = model, mp_average_price = average,
          mp_skipped = (if all_empty \<or> model = Twap3m then 0 else ws_skipped w), mp_fallback = fallback\<rparr>)"

definition price_window :: "(i64 \<Rightarrow> kline option) \<Rightarrow> i64 \<Rightarrow> execution_model \<Rightarrow> candle_error + minute_schedule option" where
  "price_window candles open_ts_us model =
     (if model = InstantTaker then Inr (map_option instant_schedule (candles open_ts_us))
      else case window_totals candles (window_opens open_ts_us model) of
             Inl _ \<Rightarrow> Inr None
           | Inr w \<Rightarrow>
               let p = window_schedule model w
               in rbind (rensure (case mp_average_price p of None \<Rightarrow> True | Some a \<Rightarrow> is_fin a \<and> 0 < a) WindowVwap) (\<lambda>_.
                  Inr (Some p)))"

subsection \<open>The cache of a market\<close>

record minute_cache =
  mc_candles :: "(i64, kline) bmap"
  mc_prices :: "(i64 \<times> execution_model, minute_schedule) bmap"

definition minute_cache_default :: minute_cache where
  "minute_cache_default = \<lparr>mc_candles = [], mc_prices = []\<rparr>"

text \<open>A candle that replaces another one takes the windows that contain it out of the cache.\<close>

definition affected_windows :: "i64 \<Rightarrow> (i64 \<times> execution_model) list" where
  "affected_windows open_ts_us =
     concat (map (\<lambda>index. map (\<lambda>model. (wrap64 (open_ts_us - int index * minute_us), model)) [Twap5m, Vwap3m, Twap3m, InstantTaker]) [0..<5])"

definition mc_insert :: "minute_cache \<Rightarrow> kline \<Rightarrow> minute_cache" where
  "mc_insert c k =
     (let replaced = (case bm_get (mc_candles c) (kl_open_ts_us k) of None \<Rightarrow> False | Some old \<Rightarrow> old \<noteq> k)
      in c\<lparr>mc_prices := (if replaced then foldl (\<lambda>prices w. bm_remove w prices) (mc_prices c) (affected_windows (kl_open_ts_us k))
                          else mc_prices c),
           mc_candles := bm_insert (kl_open_ts_us k) k (mc_candles c)\<rparr>)"

definition mc_prune :: "minute_cache \<Rightarrow> i64 \<Rightarrow> minute_cache" where
  "mc_prune c cutoff =
     c\<lparr>mc_candles := bm_retain (\<lambda>ts _. cutoff \<le> ts) (mc_candles c),
       mc_prices := bm_retain (\<lambda>w _. (cutoff, Twap5m) \<le> w) (mc_prices c)\<rparr>"

subsection \<open>Round trip of a candle\<close>

text \<open>The values of a candle lie in their machine types.\<close>

definition kl_typed :: "kline \<Rightarrow> bool" where
  "kl_typed k \<longleftrightarrow> in_i64 (kl_open_ts_us k) \<and> kl_trades k < 2 ^ 64
     \<and> list_all f_ok [kl_open k, kl_high k, kl_low k, kl_close k, kl_base_volume k, kl_quote_volume k]"

lemma kl_validate_Inr:
  "kl_validate k = Inr () \<longleftrightarrow> 0 < kl_open_ts_us k \<and> kl_open_ts_us k mod minute_us = 0
     \<and> list_all (\<lambda>v. is_fin v \<and> 0 < v) [kl_open k, kl_high k, kl_low k, kl_close k]
     \<and> list_all (\<lambda>v. is_fin v \<and> 0 \<le> v) [kl_base_volume k, kl_quote_volume k]
     \<and> f_max (kl_open k) (kl_close k) \<le> kl_high k \<and> kl_low k \<le> f_min (kl_open k) (kl_close k) \<and> kl_low k \<le> kl_high k"
  by (auto simp: kl_validate_def rbind_Inr_iff rensure_Inr_iff)

lemma valid_open: "kl_validate k = Inr () \<Longrightarrow> 0 < kl_open_ts_us k"
  by (simp add: kl_validate_Inr)

lemma length_kl_encode: "length (kl_encode k) = candle_bytes"
  by (simp add: kl_encode_def candle_bytes_def)

lemma encoded_number: "f_ok v \<Longrightarrow> is_fin v \<Longrightarrow> f64_from (le_nat (le_bytes 8 (f64_bits v))) = v"
  using f64_bits_bound [of v] by (simp add: le_nat_le_bytes f64_from_bits)

lemma kl_decode_encode:
  assumes "kl_typed k" and "kl_validate k = Inr ()"
  shows "kl_decode (kl_open_ts_us k) (kl_encode k) = Inr k"
proof -
  let ?vs = "[kl_open k, kl_high k, kl_low k, kl_close k, kl_base_volume k, kl_quote_volume k]"
  have ok: "\<And>v. v \<in> set ?vs \<Longrightarrow> f64_from (le_nat (le_bytes 8 (f64_bits v))) = v"
    using assms by (intro encoded_number) (auto simp: kl_typed_def kl_validate_Inr)
  have trades: "le_nat (le_bytes 8 (kl_trades k)) = kl_trades k"
    using assms(1) by (intro le_nat_le_bytes) (simp add: kl_typed_def)
  have fields: "\<lparr>kl_open_ts_us = kl_open_ts_us k, kl_open = kl_open k, kl_high = kl_high k, kl_low = kl_low k, kl_close = kl_close k,
      kl_base_volume = kl_base_volume k, kl_quote_volume = kl_quote_volume k, kl_trades = kl_trades k\<rparr> = k"
    by (cases k) simp
  have "kl_decode (kl_open_ts_us k) (kl_encode k) = rbind (kl_validate k) (\<lambda>_. Inr k)"
    unfolding kl_decode_def length_kl_encode by (simp add: kl_encode_def Let_def ok trades fields)
  then show ?thesis using assms(2) by simp
qed

lemma kl_decode_Inr: "kl_decode ts bs = Inr k \<Longrightarrow> kl_validate k = Inr () \<and> kl_open_ts_us k = ts"
  by (auto simp: kl_decode_def rbind_Inr_iff Let_def)

subsection \<open>Cached prices are the prices of the cached candles\<close>

lemma rfold_cong: "(\<And>s x. x \<in> set xs \<Longrightarrow> f s x = g s x) \<Longrightarrow> rfold f s xs = rfold g s xs"
  by (induction xs arbitrary: s) (auto simp: rbind_def split: sum.splits)

lemma window_opens_instant: "in_i64 ts \<Longrightarrow> window_opens ts InstantTaker = [ts]"
  by (simp add: window_opens_def)

lemma price_window_cong:
  assumes "in_i64 ts" and "\<And>t. t \<in> set (window_opens ts model) \<Longrightarrow> c t = d t"
  shows "price_window c ts model = price_window d ts model"
proof (cases "model = InstantTaker")
  case True
  then show ?thesis using assms by (simp add: price_window_def window_opens_instant)
next
  case False
  have "window_totals c (window_opens ts model) = window_totals d (window_opens ts model)"
    unfolding window_totals_def by (rule rfold_cong) (simp add: window_sample_def assms(2))
  with False show ?thesis by (simp add: price_window_def)
qed

lemma rfold_all: "rfold f s xs = Inr s' \<Longrightarrow> x \<in> set xs \<Longrightarrow> \<exists>t t'. f t x = Inr t'"
  by (induction xs arbitrary: s) (auto simp: rbind_Inr_iff)

text \<open>A priced window has all its candles.\<close>

lemma priced_window_complete:
  assumes "price_window c ts model = Inr (Some p)" and "in_i64 ts" and "t \<in> set (window_opens ts model)"
  shows "c t \<noteq> None"
proof (cases "model = InstantTaker")
  case True
  then show ?thesis using assms by (auto simp: price_window_def window_opens_instant)
next
  case False
  with assms(1) obtain w where "window_totals c (window_opens ts model) = Inr w"
    by (auto simp: price_window_def split: sum.splits)
  from rfold_all [OF this [unfolded window_totals_def] assms(3)] show ?thesis
    by (auto simp: window_sample_def of_option_Inr_iff rbind_Inr_iff)
qed

lemma window_minute:
  assumes "in_i64 ts" and "t \<in> set (window_opens ts model)" and "0 < t"
  obtains i where "i < 5" and "t = ts + int i * minute_us"
proof -
  from assms(2) obtain i where i: "i < sample_count model" "t = wrap64 (ts + int i * minute_us)"
    by (auto simp: window_opens_def)
  have i5: "i < 5" using i(1) by (cases model) auto
  then have "int i * minute_us \<le> 300000000" by (simp add: minute_us_def)
  then have up: "0 \<le> int i * minute_us" "ts + int i * minute_us \<le> i64_max + 300000000" "i64_min \<le> ts + int i * minute_us"
    using assms(1) by (simp_all add: in_i64_def minute_us_def)
  have "in_i64 (ts + int i * minute_us)"
  proof (rule ccontr)
    assume "\<not> in_i64 (ts + int i * minute_us)"
    then have over: "i64_max < ts + int i * minute_us" using up by (simp add: in_i64_def)
    let ?x = "ts + int i * minute_us + 2 ^ 63"
    have "?x mod 2 ^ 64 = (?x - 2 ^ 64) mod 2 ^ 64" by (rule minus_mod_self2 [symmetric])
    also have "\<dots> = ?x - 2 ^ 64"
      by (rule mod_pos_pos_trivial) (use over up(2) in \<open>simp_all add: i64_max_def\<close>)
    finally have "t < 0" using up(2) i(2) by (simp add: wrap64_def i64_max_def)
    then show False using assms(3) by simp
  qed
  with i(2) have "t = ts + int i * minute_us" by simp
  with i5 show thesis by (rule that)
qed

lemma affected:
  assumes "in_i64 ts" and "t \<in> set (window_opens ts model)" and "0 < t"
  shows "(ts, model) \<in> set (affected_windows t)"
proof -
  obtain i where i: "i < 5" "t = ts + int i * minute_us" by (rule window_minute [OF assms])
  then have w: "wrap64 (t - int i * minute_us) = ts" using assms(1) by simp
  have "model \<in> set [Twap5m, Vwap3m, Twap3m, InstantTaker]" by (cases model) simp_all
  then show ?thesis unfolding affected_windows_def using i(1) w by force
qed

definition minute_cache_ok :: "minute_cache \<Rightarrow> bool" where
  "minute_cache_ok c \<longleftrightarrow> bm_wf (mc_candles c) \<and> bm_wf (mc_prices c)
     \<and> (\<forall>ts k. bm_get (mc_candles c) ts = Some k \<longrightarrow> kl_open_ts_us k = ts \<and> kl_validate k = Inr ())
     \<and> (\<forall>ts model p. bm_get (mc_prices c) (ts, model) = Some p \<longrightarrow>
          in_i64 ts \<and> price_window (bm_get (mc_candles c)) ts model = Inr (Some p))"

lemma cache_okD:
  assumes "minute_cache_ok c"
  shows "bm_wf (mc_candles c)" and "bm_wf (mc_prices c)"
    and "\<And>ts k. bm_get (mc_candles c) ts = Some k \<Longrightarrow> kl_open_ts_us k = ts \<and> kl_validate k = Inr ()"
    and "\<And>ts model p. bm_get (mc_prices c) (ts, model) = Some p \<Longrightarrow>
           in_i64 ts \<and> price_window (bm_get (mc_candles c)) ts model = Inr (Some p)"
  using assms by (auto simp: minute_cache_ok_def)

lemma cache_ok_default [simp]: "minute_cache_ok minute_cache_default"
  by (simp add: minute_cache_ok_def minute_cache_default_def)

lemma bm_get_removes: "bm_get (foldl (\<lambda>prices w. bm_remove w prices) m ws) w = (if w \<in> set ws then None else bm_get m w)"
  by (induction ws arbitrary: m) auto

lemma bm_wf_removes: "bm_wf m \<Longrightarrow> bm_wf (foldl (\<lambda>prices w. bm_remove w prices) m ws)"
  by (induction ws arbitrary: m) auto

lemma cache_ok_insert:
  assumes ok: "minute_cache_ok c" and valid: "kl_validate k = Inr ()"
  shows "minute_cache_ok (mc_insert c k)"
  unfolding minute_cache_ok_def
proof (intro conjI allI impI)
  note d = cache_okD [OF ok]
  let ?t = "kl_open_ts_us k"
  show "bm_wf (mc_candles (mc_insert c k))" "bm_wf (mc_prices (mc_insert c k))"
    using d(1,2) by (simp_all add: mc_insert_def Let_def bm_wf_removes)
  fix ts k' assume "bm_get (mc_candles (mc_insert c k)) ts = Some k'"
  then show "kl_open_ts_us k' = ts" "kl_validate k' = Inr ()"
    using d(3) valid by (auto simp: mc_insert_def Let_def split: if_splits)
next
  note d = cache_okD [OF ok]
  let ?t = "kl_open_ts_us k"
  fix ts model p assume p: "bm_get (mc_prices (mc_insert c k)) (ts, model) = Some p"
  have old: "bm_get (mc_prices c) (ts, model) = Some p"
    using p by (auto simp: mc_insert_def Let_def bm_get_removes split: if_splits)
  from d(4) [OF old] show "in_i64 ts" by simp
  have pw: "price_window (bm_get (mc_candles c)) ts model = Inr (Some p)" using d(4) [OF old] by simp
  have same: "bm_get (mc_candles (mc_insert c k)) t = bm_get (mc_candles c) t" if t: "t \<in> set (window_opens ts model)" for t
  proof (cases "t = ?t")
    case True
    obtain old_k where o: "bm_get (mc_candles c) ?t = Some old_k"
      using priced_window_complete [OF pw \<open>in_i64 ts\<close> t] True by auto
    have "(ts, model) \<in> set (affected_windows ?t)"
      using affected [OF \<open>in_i64 ts\<close> t] valid_open [OF valid] True by simp
    then have "old_k = k" using p o by (auto simp: mc_insert_def Let_def bm_get_removes split: if_splits)
    then show ?thesis using o True by (simp add: mc_insert_def Let_def)
  qed (simp add: mc_insert_def Let_def)
  show "price_window (bm_get (mc_candles (mc_insert c k))) ts model = Inr (Some p)"
    using price_window_cong [OF \<open>in_i64 ts\<close> same] pw by simp
qed

lemma window_key_le: "(cutoff, Twap5m) \<le> (ts, model) \<longleftrightarrow> cutoff \<le> (ts :: i64)"
  by (cases model) (auto simp: less_eq_execution_model_def)

lemma cache_ok_prune:
  assumes ok: "minute_cache_ok c"
  shows "minute_cache_ok (mc_prune c cutoff)"
  unfolding minute_cache_ok_def
proof (intro conjI allI impI)
  note d = cache_okD [OF ok]
  show "bm_wf (mc_candles (mc_prune c cutoff))" "bm_wf (mc_prices (mc_prune c cutoff))"
    using d(1,2) by (simp_all add: mc_prune_def)
  fix ts k' assume "bm_get (mc_candles (mc_prune c cutoff)) ts = Some k'"
  then show "kl_open_ts_us k' = ts" "kl_validate k' = Inr ()"
    using d(1,3) by (auto simp: mc_prune_def bm_get_retain split: option.splits if_splits)
next
  note d = cache_okD [OF ok]
  fix ts model p assume "bm_get (mc_prices (mc_prune c cutoff)) (ts, model) = Some p"
  then have p: "bm_get (mc_prices c) (ts, model) = Some p" and cut: "cutoff \<le> ts"
    using d(2) by (auto simp: mc_prune_def bm_get_retain window_key_le split: option.splits if_splits)
  from d(4) [OF p] show i: "in_i64 ts" by simp
  have pw: "price_window (bm_get (mc_candles c)) ts model = Inr (Some p)" using d(4) [OF p] by simp
  have same: "bm_get (mc_candles (mc_prune c cutoff)) t = bm_get (mc_candles c) t" if t: "t \<in> set (window_opens ts model)" for t
  proof -
    obtain k where k: "bm_get (mc_candles c) t = Some k" using priced_window_complete [OF pw i t] by auto
    then have "0 < t" using d(3) valid_open by blast
    then obtain j where "t = ts + int j * minute_us" using window_minute [OF i t] by blast
    then have "cutoff \<le> t" using cut by (simp add: minute_us_def)
    then show ?thesis using k d(1) by (simp add: mc_prune_def bm_get_retain)
  qed
  show "price_window (bm_get (mc_candles (mc_prune c cutoff))) ts model = Inr (Some p)"
    using price_window_cong [OF i same] pw by simp
qed

lemma cache_ok_priced:
  assumes "minute_cache_ok c" and "in_i64 ts" and "price_window (bm_get (mc_candles c)) ts model = Inr (Some p)"
  shows "minute_cache_ok (c\<lparr>mc_prices := bm_insert (ts, model) p (mc_prices c)\<rparr>)"
  using assms by (auto simp: minute_cache_ok_def)

end
