(* ===== verification/CandleStore.thy ===== *)
theory CandleStore
  imports Candles Windows TimeKeys
begin

text \<open>
  The store of minute candles (\<open>kline.rs\<close>): a column family of RocksDB, a cache of candles and priced
  windows for each market in front of it, and the reads, page writes and retention over both. Each
  operation is one step; where the code reads the clock more than once the readings are arguments.
\<close>

subsection \<open>State\<close>

record cache_status =
  st_requests :: nat
  st_fetched_candles :: nat
  st_cache_hits :: nat
  st_active_backfills :: nat
  st_last_error :: "candle_error option"
  st_disk_range_reads :: nat
  st_disk_batch_reads :: nat
  st_memory_candle_hits :: nat
  st_pricing_cache_hits :: nat

text \<open>The table of candles: its rows in key order, and whether the database answers.\<close>

record candle_db =
  cd_readable :: bool
  cd_writable :: bool
  cd_rows :: "(bytes, bytes) bmap"

record kline_store =
  ks_enabled :: bool
  ks_retain_days :: nat
  ks_db :: candle_db
  ks_minutes :: "(string, minute_cache) bmap"
  ks_revision :: nat
  ks_status :: cache_status

definition add_u64 :: "nat \<Rightarrow> nat \<Rightarrow> nat" where
  "add_u64 a b = (a + b) mod 2 ^ 64"

definition cutoff_us :: "kline_store \<Rightarrow> i64 \<Rightarrow> i64" where
  "cutoff_us s now = sat64 (now - wrap64 (int (ks_retain_days s) * day_us))"

definition validate_range :: "kline_store \<Rightarrow> i64 \<Rightarrow> i64 \<Rightarrow> i64 \<Rightarrow> candle_error + unit" where
  "validate_range s start end_ts now = rensure (cutoff_us s now \<le> start \<and> start \<le> end_ts \<and> end_ts \<le> now) UnsupportedRange"

text \<open>\<open>minute_cache\<close>: the entry of a market, made empty at its first use.\<close>

definition minute_cache_of :: "kline_store \<Rightarrow> string \<Rightarrow> minute_cache" where
  "minute_cache_of s symbol = (case bm_get (ks_minutes s) symbol of None \<Rightarrow> minute_cache_default | Some c \<Rightarrow> c)"

definition set_minute_cache :: "string \<Rightarrow> minute_cache \<Rightarrow> kline_store \<Rightarrow> kline_store" where
  "set_minute_cache symbol c s = s\<lparr>ks_minutes := bm_insert symbol c (ks_minutes s)\<rparr>"

definition with_status :: "(cache_status \<Rightarrow> cache_status) \<Rightarrow> kline_store \<Rightarrow> kline_store" where
  "with_status f s = s\<lparr>ks_status := f (ks_status s)\<rparr>"

definition count_memory_hits :: "nat \<Rightarrow> kline_store \<Rightarrow> kline_store" where
  "count_memory_hits n = with_status (\<lambda>t. t\<lparr>st_memory_candle_hits := add_u64 (st_memory_candle_hits t) n\<rparr>)"

subsection \<open>Reading minutes\<close>

fun load_minutes :: "minute_cache \<Rightarrow> (i64 \<times> bytes option) list \<Rightarrow> (candle_error + unit) \<times> minute_cache" where
  "load_minutes c [] = (Inr (), c)"
| "load_minutes c ((ts, None) # rest) = load_minutes c rest"
| "load_minutes c ((ts, Some row) # rest) =
     (case kl_decode ts row of Inl e \<Rightarrow> (Inl e, c) | Inr k \<Rightarrow> load_minutes (mc_insert c k) rest)"

text \<open>The missing minutes, 4096 to a batch; what a failed batch decoded stays in the cache.\<close>

fun load_chunks :: "unicode \<Rightarrow> string \<Rightarrow> candle_db \<Rightarrow> minute_cache \<times> nat \<Rightarrow> i64 list list \<Rightarrow> (candle_error + unit) \<times> minute_cache \<times> nat" where
  "load_chunks uc symbol db c [] = (Inr (), c)"
| "load_chunks uc symbol db (c, reads) (chunk # rest) =
     (case rmapM (candle_key uc symbol) chunk of
        Inl e \<Rightarrow> (Inl e, c, reads)
      | Inr keys \<Rightarrow>
          if \<not> cd_readable db then (Inl DbRead, c, add_u64 reads 1)
          else case load_minutes c (zip chunk (map (bm_get (cd_rows db)) keys)) of
                 (Inl e, c) \<Rightarrow> (Inl e, c, add_u64 reads 1)
               | (Inr _, c) \<Rightarrow> load_chunks uc symbol db (c, add_u64 reads 1) rest)"

definition closed_minute :: "kline_store \<Rightarrow> i64 \<Rightarrow> i64 \<Rightarrow> bool" where
  "closed_minute s now ts \<longleftrightarrow> cutoff_us s now \<le> ts \<and> wrap64 (ts + minute_us) \<le> now"

definition read_minutes ::
    "unicode \<Rightarrow> i64 \<Rightarrow> kline_store \<Rightarrow> string \<Rightarrow> i64 list \<Rightarrow> (candle_error + kline option list) \<times> kline_store" where
  "read_minutes uc now s symbol opens =
     (case key_prefix uc symbol of
        Inl e \<Rightarrow> (Inl e, s)
      | Inr _ \<Rightarrow>
          let c = minute_cache_of s symbol;
              wanted = set_of_list (filter (closed_minute s now) opens);
              missing = filter (\<lambda>ts. \<not> bm_contains (mc_candles c) ts) wanted;
              s1 = count_memory_hits (length wanted - length missing) s;
              (r, c', reads) = load_chunks uc symbol (ks_db s) (c, st_disk_batch_reads (ks_status s)) (chunks 4096 missing);
              s2 = with_status (\<lambda>t. t\<lparr>st_disk_batch_reads := reads\<rparr>) (set_minute_cache symbol c' s1)
          in (rmap (\<lambda>_. map (\<lambda>ts. if closed_minute s now ts then bm_get (mc_candles c') ts else None) opens) r, s2))"

definition kl_get :: "unicode \<Rightarrow> i64 \<Rightarrow> kline_store \<Rightarrow> string \<Rightarrow> i64 \<Rightarrow> (candle_error + kline option) \<times> kline_store" where
  "kl_get uc now s symbol ts =
     (if ts < cutoff_us s now \<or> now < wrap64 (ts + minute_us) then (Inr None, s)
      else case read_minutes uc now s symbol [ts] of
             (r, s) \<Rightarrow> (rmap (\<lambda>bars. case rev bars of [] \<Rightarrow> None | bar # _ \<Rightarrow> bar) r, s))"

subsection \<open>Pricing windows\<close>

text \<open>A price once found is served from the cache; otherwise the minutes of the window are read and priced.\<close>

definition window_prices ::
    "unicode \<Rightarrow> i64 \<Rightarrow> kline_store \<Rightarrow> string \<Rightarrow> i64 \<Rightarrow> execution_model \<Rightarrow> (candle_error + minute_schedule option) \<times> kline_store" where
  "window_prices uc now s symbol ts model =
     (if ts < cutoff_us s now \<or> now < wrap64 (ts + int (sample_count model) * minute_us) then (Inr None, s)
      else
        let c = minute_cache_of s symbol; s = set_minute_cache symbol c s
        in case bm_get (mc_prices c) (ts, model) of
             Some p \<Rightarrow> (Inr (Some p), with_status (\<lambda>t. t\<lparr>st_pricing_cache_hits := add_u64 (st_pricing_cache_hits t) 1\<rparr>) s)
           | None \<Rightarrow>
               (case read_minutes uc now s symbol (window_opens ts model) of
                  (Inl e, s) \<Rightarrow> (Inl e, s)
                | (Inr _, s) \<Rightarrow>
                    let c = minute_cache_of s symbol
                    in case price_window (bm_get (mc_candles c)) ts model of
                         Inl e \<Rightarrow> (Inl e, s)
                       | Inr None \<Rightarrow> (Inr None, s)
                       | Inr (Some p) \<Rightarrow>
                           (Inr (Some p),
                            if mp_average_price p = None then s
                            else set_minute_cache symbol (c\<lparr>mc_prices := bm_insert (ts, model) p (mc_prices c)\<rparr>) s)))"

subsection \<open>Scanning a range\<close>

definition bm_range :: "'k::linorder \<Rightarrow> 'k \<Rightarrow> ('k, 'v) bmap \<Rightarrow> ('k, 'v) bmap" where
  "bm_range lo hi m = filter (\<lambda>(k, _). lo \<le> k \<and> k < hi) m"

definition minutes_between :: "i64 \<Rightarrow> i64 \<Rightarrow> i64 list" where
  "minutes_between start end_ts = map (\<lambda>i. start + int i * minute_us) [0..<nat ((end_ts - start + minute_us - 1) div minute_us)]"

definition be_signed64 :: "bytes \<Rightarrow> i64" where
  "be_signed64 bs = to_signed64 (le_nat (rev bs))"

fun load_rows :: "nat \<Rightarrow> minute_cache \<Rightarrow> (bytes \<times> bytes) list \<Rightarrow> (candle_error + unit) \<times> minute_cache" where
  "load_rows prefix_len c [] = (Inr (), c)"
| "load_rows prefix_len c ((k, row) # rest) =
     (if length k \<noteq> prefix_len + 8 then (Inl CandleKey, c)
      else case kl_decode (be_signed64 (drop prefix_len k)) row of
             Inl e \<Rightarrow> (Inl e, c)
           | Inr candle \<Rightarrow> load_rows prefix_len (mc_insert c candle) rest)"

definition cached_between :: "kline_store \<Rightarrow> string \<Rightarrow> i64 \<Rightarrow> i64 \<Rightarrow> kline list" where
  "cached_between s symbol start end_ts = bm_vals (bm_range start end_ts (mc_candles (minute_cache_of s symbol)))"

definition scan_disk ::
    "unicode \<Rightarrow> kline_store \<Rightarrow> string \<Rightarrow> i64 list \<Rightarrow> (candle_error + unit) \<times> kline_store" where
  "scan_disk uc s symbol missing =
     (case rbind (candle_key uc symbol (hd missing)) (\<lambda>lo. rmap (Pair lo) (candle_key uc symbol (wrap64 (last missing + minute_us)))) of
        Inl e \<Rightarrow> (Inl e, s)
      | Inr (lo, hi) \<Rightarrow>
          let s = with_status (\<lambda>t. t\<lparr>st_disk_range_reads := add_u64 (st_disk_range_reads t) 1\<rparr>) s
          in if \<not> cd_readable (ks_db s) then (Inl DbRead, s)
             else case load_rows (length symbol + 1) (minute_cache_of s symbol) (bm_range lo hi (cd_rows (ks_db s))) of
                    (r, c) \<Rightarrow> (r, set_minute_cache symbol c s))"

definition scan_bounds :: "kline_store \<Rightarrow> i64 \<Rightarrow> i64 \<Rightarrow> i64 \<Rightarrow> i64 \<times> i64" where
  "scan_bounds s now start end_ts = (first_complete_open (max start (cutoff_us s now)), min end_ts (now div minute_us * minute_us))"

text \<open>A few missing minutes are read by key, many by one pass over the range of rows.\<close>

definition scan_missing :: "unicode \<Rightarrow> i64 \<Rightarrow> kline_store \<Rightarrow> string \<Rightarrow> i64 list \<Rightarrow> (candle_error + unit) \<times> kline_store" where
  "scan_missing uc now s symbol missing =
     (if length missing \<le> 64 then (case read_minutes uc now s symbol missing of (r, s) \<Rightarrow> (rmap (\<lambda>_. ()) r, s))
      else scan_disk uc s symbol missing)"

definition scan_candles :: "unicode \<Rightarrow> i64 \<Rightarrow> kline_store \<Rightarrow> string \<Rightarrow> i64 \<Rightarrow> i64 \<Rightarrow> (candle_error + kline list) \<times> kline_store" where
  "scan_candles uc now s symbol start end_ts =
     (case scan_bounds s now start end_ts of (start, end_ts) \<Rightarrow>
        if end_ts \<le> start then (Inr [], s)
        else case key_prefix uc symbol of
          Inl e \<Rightarrow> (Inl e, s)
        | Inr _ \<Rightarrow>
            let c = minute_cache_of s symbol;
                present = bm_vals (bm_range start end_ts (mc_candles c));
                s = count_memory_hits (length present) (set_minute_cache symbol c s);
                missing = filter (\<lambda>ts. \<not> bm_contains (mc_candles c) ts) (minutes_between start end_ts)
            in if length present = nat ((end_ts - start) div minute_us) then (Inr present, s)
               else case scan_missing uc now s symbol missing of (r, s) \<Rightarrow> (rmap (\<lambda>_. cached_between s symbol start end_ts) r, s))"

subsection \<open>Writing a page, and retention\<close>

text \<open>A page is checked whole before any of it is written.\<close>

definition page_row :: "unicode \<Rightarrow> kline_store \<Rightarrow> string \<Rightarrow> i64 \<Rightarrow> i64 \<Rightarrow> i64 \<Rightarrow> (bytes \<times> bytes) list \<Rightarrow> kline \<Rightarrow> candle_error + (bytes \<times> bytes) list" where
  "page_row uc s symbol start end_ts cutoff batch candle =
     rbind (kl_validate candle) (\<lambda>_.
     rbind (rensure (start \<le> kl_open_ts_us candle \<and> kl_end_ts_us candle \<le> end_ts) CandleOutsidePage) (\<lambda>_.
     if cutoff \<le> kl_open_ts_us candle
     then rmap (\<lambda>k. batch @ [(k, kl_encode candle)]) (candle_key uc symbol (kl_open_ts_us candle))
     else Inr batch))"

definition write_rows :: "(bytes \<times> bytes) list \<Rightarrow> candle_db \<Rightarrow> candle_error + candle_db" where
  "write_rows batch db = (if cd_writable db then Inr (db\<lparr>cd_rows := bm_extend (cd_rows db) batch\<rparr>) else Inl DbWrite)"

definition save_page ::
    "unicode \<Rightarrow> i64 \<Rightarrow> kline_store \<Rightarrow> string \<Rightarrow> i64 \<Rightarrow> i64 \<Rightarrow> kline list \<Rightarrow> (candle_error + unit) \<times> kline_store" where
  "save_page uc now s symbol start end_ts candles =
     (let cutoff = cutoff_us s now
      in case rbind (rfold (page_row uc s symbol start end_ts cutoff) [] candles) (\<lambda>batch. write_rows batch (ks_db s)) of
           Inl e \<Rightarrow> (Inl e, s)
         | Inr db \<Rightarrow>
             let c = foldl mc_insert (minute_cache_of s symbol) (filter (\<lambda>candle. cutoff \<le> kl_open_ts_us candle) candles);
                 s = set_minute_cache symbol c (s\<lparr>ks_db := db\<rparr>);
                 s = (if candles = [] then s else s\<lparr>ks_revision := add_u64 (ks_revision s) 1\<rparr>)
             in (Inr (), with_status (\<lambda>t. t\<lparr>st_fetched_candles := add_u64 (st_fetched_candles t) (length candles)\<rparr>) s))"

definition delete_rows :: "bytes list \<Rightarrow> candle_db \<Rightarrow> candle_error + candle_db" where
  "delete_rows batch db = (if cd_writable db then Inr (db\<lparr>cd_rows := bm_retain (\<lambda>k _. k \<notin> set batch) (cd_rows db)\<rparr>) else Inl DbWrite)"

text \<open>Expired rows are deleted in batches of 4096 while the rows of the moment are walked.\<close>

fun prune_rows :: "i64 \<Rightarrow> candle_db \<Rightarrow> bytes list \<Rightarrow> nat \<Rightarrow> bytes list \<Rightarrow> (candle_error + nat) \<times> candle_db" where
  "prune_rows cutoff db batch removed [] =
     (if batch = [] then (Inr removed, db)
      else case delete_rows batch db of Inl e \<Rightarrow> (Inl e, db) | Inr db \<Rightarrow> (Inr removed, db))"
| "prune_rows cutoff db batch removed (k # rest) =
     (if \<not> (9 \<le> length k \<and> length k = unat (hd k) + 9) then (Inl CandleKey, db)
      else
        let expired = be_signed64 (drop (length k - 8) k) < cutoff;
            batch = (if expired then batch @ [k] else batch);
            removed = (if expired then removed + 1 else removed)
        in if 4096 \<le> length batch
           then (case delete_rows batch db of Inl e \<Rightarrow> (Inl e, db) | Inr db \<Rightarrow> prune_rows cutoff db [] removed rest)
           else prune_rows cutoff db batch removed rest)"

definition prune :: "i64 \<Rightarrow> kline_store \<Rightarrow> (candle_error + nat) \<times> kline_store" where
  "prune now s =
     (let cutoff = cutoff_us s now
      in if \<not> cd_readable (ks_db s) then (Inl DbRead, s)
         else case prune_rows cutoff (ks_db s) [] 0 (bm_keys (cd_rows (ks_db s))) of
           (Inl e, db) \<Rightarrow> (Inl e, s\<lparr>ks_db := db\<rparr>)
         | (Inr removed, db) \<Rightarrow>
             let s = s\<lparr>ks_db := db, ks_minutes := bm_map (\<lambda>c. mc_prune c cutoff) (ks_minutes s)\<rparr>
             in (Inr removed, if 0 < removed then s\<lparr>ks_revision := add_u64 (ks_revision s) 1\<rparr> else s))"

subsection \<open>Keys\<close>

lemma be_signed64_time: "in_i64 t \<Longrightarrow> be_signed64 (time_bytes t) = t"
proof -
  assume t: "in_i64 t"
  have "nat (t mod 2 ^ 64) < 256 ^ 8" by (simp add: nat_less_iff)
  then have "le_nat (rev (time_bytes t)) = nat (t mod 2 ^ 64)" by (simp add: time_bytes_def le_nat_le_bytes)
  moreover have "to_signed64 (nat (t mod 2 ^ 64)) = t"
  proof (cases "0 \<le> t")
    case True
    then have "t mod 2 ^ 64 = t" using t by (simp add: in_i64_def i64_max_def)
    then show ?thesis using True t by (simp add: to_signed64_def in_i64_def i64_max_def nat_less_iff)
  next
    case False
    have "t mod 2 ^ 64 = (t + 2 ^ 64) mod 2 ^ 64" by simp
    also have "\<dots> = t + 2 ^ 64"
      by (rule mod_pos_pos_trivial) (use False t in \<open>simp_all add: in_i64_def i64_min_def\<close>)
    finally have m: "t mod 2 ^ 64 = t + 2 ^ 64" .
    then show ?thesis using False t unfolding m by (simp add: to_signed64_def in_i64_def i64_min_def nat_less_iff)
  qed
  ultimately show "be_signed64 (time_bytes t) = t" by (simp add: be_signed64_def)
qed

lemma length_time_bytes [simp]: "length (time_bytes t) = 8"
  by (simp add: time_bytes_def)

lemma length_utf8 [simp]: "length (utf8 s) = length s"
  by (simp add: utf8_def)

lemma utf8_inj: "utf8 s = utf8 s' \<Longrightarrow> s = s'"
  by (metis chars_of_utf8)

lemma key_prefix_Inr: "key_prefix uc symbol = Inr p \<Longrightarrow> p = of_nat (length symbol) # utf8 symbol \<and> length symbol < 256"
  by (auto simp: key_prefix_def rbind_Inr_iff rensure_Inr_iff)

lemma candle_key_Inr: "candle_key uc symbol t = Inr k \<longleftrightarrow> (\<exists>p. key_prefix uc symbol = Inr p \<and> k = p @ time_bytes t)"
  by (auto simp: candle_key_def rbind_Inr_iff)

text \<open>A key names its market and minute.\<close>

lemma candle_key_inj:
  assumes "candle_key uc s a = Inr k" and "candle_key uc' s' b = Inr k" and "in_i64 a" and "in_i64 b"
  shows "s = s' \<and> a = b"
proof -
  obtain p p' where p: "key_prefix uc s = Inr p" "k = p @ time_bytes a" "key_prefix uc' s' = Inr p'" "k = p' @ time_bytes b"
    using assms(1,2) by (auto simp: candle_key_Inr)
  then have "p = p'" "time_bytes a = time_bytes b" by auto
  with key_prefix_Inr [OF p(1)] key_prefix_Inr [OF p(3)] have "utf8 s = utf8 s'" by simp
  moreover have "a = b" using \<open>time_bytes a = time_bytes b\<close> be_signed64_time assms(3,4) by metis
  ultimately show ?thesis using utf8_inj by blast
qed

lemma key_length:
  assumes "candle_key uc symbol t = Inr k"
  shows "length k = unat (hd k) + 9" and "drop (length k - 8) k = time_bytes t" and "drop (length symbol + 1) k = time_bytes t"
    and "length k = length symbol + 1 + 8"
proof -
  obtain p where p: "key_prefix uc symbol = Inr p" "k = p @ time_bytes t" using assms by (auto simp: candle_key_Inr)
  with key_prefix_Inr [OF p(1)] show "length k = unat (hd k) + 9" "drop (length k - 8) k = time_bytes t"
    "drop (length symbol + 1) k = time_bytes t" "length k = length symbol + 1 + 8"
    by (simp_all add: unat_of_nat)
qed

text \<open>The keys of a market are in the order of time.\<close>

lemma snoc_less: "length xs = length ys \<Longrightarrow> xs @ [a] < ys @ [b] \<longleftrightarrow> xs < ys \<or> (xs = ys \<and> a < (b :: 'a :: linorder))"
  by (induction xs ys rule: list_induct2) auto

lemma digit_less:
  fixes q q' r r' :: nat
  assumes "r < 256" and "r' < 256"
  shows "256 * q + r < 256 * q' + r' \<longleftrightarrow> q < q' \<or> (q = q' \<and> r < r')"
proof (cases q q' rule: linorder_cases)
  case less
  then have "256 * (q + 1) \<le> 256 * q'" by (intro mult_le_mono2) simp
  then show ?thesis using assms less by simp
next
  case greater
  then have "256 * (q' + 1) \<le> 256 * q" by (intro mult_le_mono2) simp
  then show ?thesis using assms greater by simp
qed simp

lemma big_endian_less: "x < 256 ^ n \<Longrightarrow> y < 256 ^ n \<Longrightarrow> rev (le_bytes n x) < rev (le_bytes n y) \<longleftrightarrow> x < y"
proof (induction n arbitrary: x y)
  case 0
  then show ?case by simp
next
  case (Suc n)
  have d: "x div 256 < 256 ^ n" "y div 256 < 256 ^ n"
    using Suc.prems by (simp_all add: less_mult_imp_div_less mult.commute)
  have eq: "rev (le_bytes n (x div 256)) = rev (le_bytes n (y div 256)) \<longleftrightarrow> x div 256 = y div 256"
    using le_nat_le_bytes [OF d(1)] le_nat_le_bytes [OF d(2)] by (metis rev_rev_ident)
  have low: "(of_nat (x mod 256) :: 8 word) < of_nat (y mod 256) \<longleftrightarrow> x mod 256 < y mod 256"
    by (simp add: word_less_nat_alt unat_byte)
  have "256 * (x div 256) + x mod 256 < 256 * (y div 256) + y mod 256
      \<longleftrightarrow> x div 256 < y div 256 \<or> (x div 256 = y div 256 \<and> x mod 256 < y mod 256)"
    by (rule digit_less) simp_all
  then have "x < y \<longleftrightarrow> x div 256 < y div 256 \<or> (x div 256 = y div 256 \<and> x mod 256 < y mod 256)"
    by simp
  moreover have "rev (le_bytes (Suc n) x) < rev (le_bytes (Suc n) y)
      \<longleftrightarrow> rev (le_bytes n (x div 256)) < rev (le_bytes n (y div 256))
        \<or> (rev (le_bytes n (x div 256)) = rev (le_bytes n (y div 256)) \<and> (of_nat (x mod 256) :: 8 word) < of_nat (y mod 256))"
    unfolding le_bytes.simps rev.simps by (rule snoc_less) simp
  ultimately show ?case unfolding Suc.IH [OF d] eq low by blast
qed

lemma time_bytes_less:
  assumes "0 \<le> a" and "0 \<le> b" and "a \<le> i64_max" and "b \<le> i64_max"
  shows "time_bytes a < time_bytes b \<longleftrightarrow> a < b"
proof -
  have m: "a mod 2 ^ 64 = a" "b mod 2 ^ 64 = b" using assms by (simp_all add: i64_max_def)
  have "nat a < 256 ^ 8" "nat b < 256 ^ 8" using assms by (simp_all add: i64_max_def nat_less_iff)
  note less = big_endian_less [OF this]
  show ?thesis unfolding time_bytes_def m less using assms(1,2) by (auto simp: nat_less_eq_zless)
qed

lemma prefix_less [simp]: "p @ x < p @ y \<longleftrightarrow> x < (y :: 'a :: linorder list)"
  by (induction p) auto

lemma between_prefix:
  "p @ x \<le> k \<Longrightarrow> k < p @ y \<Longrightarrow> \<exists>z. k = p @ z \<and> x \<le> z \<and> z < (y :: 'a :: linorder list)"
proof (induction p arbitrary: k)
  case (Cons c p)
  then show ?case by (cases k) (force simp: less_le_not_le)+
qed simp

subsection \<open>What the table holds, and what the caches may hold\<close>

definition disk_candle :: "unicode \<Rightarrow> (bytes, bytes) bmap \<Rightarrow> string \<Rightarrow> i64 \<Rightarrow> kline option" where
  "disk_candle uc rows symbol ts =
     (if \<not> in_i64 ts then None
      else case candle_key uc symbol ts of Inl _ \<Rightarrow> None
      | Inr k \<Rightarrow> (case bm_get rows k of None \<Rightarrow> None
                 | Some row \<Rightarrow> (case kl_decode ts row of Inl _ \<Rightarrow> None | Inr candle \<Rightarrow> Some candle)))"

text \<open>Every row is a candle under the key of its market and minute.\<close>

definition rows_ok :: "unicode \<Rightarrow> (bytes, bytes) bmap \<Rightarrow> bool" where
  "rows_ok uc rows \<longleftrightarrow> bm_wf rows \<and> (\<forall>k row. bm_get rows k = Some row \<longrightarrow>
     (\<exists>symbol ts candle. in_i64 ts \<and> candle_key uc symbol ts = Inr k \<and> kl_decode ts row = Inr candle))"

lemma rows_okD:
  assumes "rows_ok uc rows" and "candle_key uc symbol ts = Inr k" and "in_i64 ts" and "bm_get rows k = Some row"
  obtains candle where "kl_decode ts row = Inr candle" and "disk_candle uc rows symbol ts = Some candle"
proof -
  from assms(1,4) obtain s' t' candle where r: "in_i64 t'" "candle_key uc s' t' = Inr k" "kl_decode t' row = Inr candle"
    unfolding rows_ok_def by blast
  have "t' = ts" using candle_key_inj [OF r(2) assms(2) r(1) assms(3)] by simp
  with r(3) have "kl_decode ts row = Inr candle" by simp
  with that assms(2-4) show thesis by (simp add: disk_candle_def)
qed

lemma disk_candle_SomeD:
  assumes "disk_candle uc rows symbol ts = Some k"
  shows "kl_validate k = Inr () \<and> kl_open_ts_us k = ts \<and> in_i64 ts"
  using assms kl_decode_Inr by (fastforce simp: disk_candle_def split: sum.splits option.splits if_splits)

text \<open>Candles of \<open>D\<close> loaded into a cache: the rest of it is kept, and a cache stays well-formed.\<close>

definition loaded :: "(i64 \<Rightarrow> kline option) \<Rightarrow> minute_cache \<Rightarrow> minute_cache \<Rightarrow> bool" where
  "loaded D c c' \<longleftrightarrow> (minute_cache_ok c \<longrightarrow> minute_cache_ok c')
     \<and> (\<forall>t. bm_get (mc_candles c') t = bm_get (mc_candles c) t \<or> (D t \<noteq> None \<and> bm_get (mc_candles c') t = D t))"

lemma loaded_refl [simp]: "loaded D c c"
  by (simp add: loaded_def)

lemma loaded_trans: "loaded D a b \<Longrightarrow> loaded D b c \<Longrightarrow> loaded D a c"
  unfolding loaded_def by metis

lemma loaded_get: "loaded D c c' \<Longrightarrow> bm_get (mc_candles c) t = D t \<Longrightarrow> bm_get (mc_candles c') t = D t"
  unfolding loaded_def by metis

lemma get_mc_insert [simp]: "bm_get (mc_candles (mc_insert c k)) t = (if t = kl_open_ts_us k then Some k else bm_get (mc_candles c) t)"
  by (simp add: mc_insert_def Let_def)

lemma loaded_insert: "D (kl_open_ts_us k) = Some k \<Longrightarrow> kl_validate k = Inr () \<Longrightarrow> loaded D c (mc_insert c k)"
  by (simp add: loaded_def cache_ok_insert)

lemma load_minutes_loaded:
  assumes "\<And>t row. (t, Some row) \<in> set xs \<Longrightarrow> \<exists>k. kl_decode t row = Inr k \<and> D t = Some k"
    and "\<And>t. (t, None) \<in> set xs \<Longrightarrow> D t = None"
  shows "fst (load_minutes c xs) = Inr () \<and> loaded D c (snd (load_minutes c xs))
    \<and> (\<forall>t \<in> fst ` set xs. D t = None \<or> bm_get (mc_candles (snd (load_minutes c xs))) t = D t)"
  using assms
proof (induction c xs rule: load_minutes.induct)
  case (1 c)
  then show ?case by simp
next
  case (2 c ts rest)
  have "D ts = None" by (rule 2(3)) simp
  moreover have "\<And>t row. (t, Some row) \<in> set rest \<Longrightarrow> \<exists>k. kl_decode t row = Inr k \<and> D t = Some k"
    "\<And>t. (t, None) \<in> set rest \<Longrightarrow> D t = None" using 2(2,3) by auto
  from 2(1) [OF this] have "fst (load_minutes c rest) = Inr () \<and> loaded D c (snd (load_minutes c rest))
    \<and> (\<forall>t \<in> fst ` set rest. D t = None \<or> bm_get (mc_candles (snd (load_minutes c rest))) t = D t)" .
  ultimately show ?case by simp
next
  case (3 c ts row rest)
  have "\<exists>k. kl_decode ts row = Inr k \<and> D ts = Some k" by (rule 3(2)) simp
  then obtain k where k: "kl_decode ts row = Inr k" "D ts = Some k" by blast
  note kd = kl_decode_Inr [OF k(1)]
  have step: "loaded D c (mc_insert c k)" by (rule loaded_insert) (use k kd in simp_all)
  have "\<And>t row. (t, Some row) \<in> set rest \<Longrightarrow> \<exists>k. kl_decode t row = Inr k \<and> D t = Some k"
    "\<And>t. (t, None) \<in> set rest \<Longrightarrow> D t = None" using 3(2,3) by auto
  note IH = 3(1) [OF k(1) this]
  let ?c' = "snd (load_minutes (mc_insert c k) rest)"
  have "bm_get (mc_candles ?c') ts = D ts"
    by (rule loaded_get [of _ "mc_insert c k"]) (use IH kd k in simp_all)
  with IH k(1) loaded_trans [OF step] show ?case by simp
qed

lemma rmapM_keys: "key_prefix uc symbol = Inr p \<Longrightarrow> rmapM (candle_key uc symbol) ts = Inr (map (\<lambda>t. p @ time_bytes t) ts)"
  by (induction ts) (simp_all add: candle_key_def)

lemma load_chunk:
  fixes c :: minute_cache
  assumes "rows_ok uc rows" and "key_prefix uc symbol = Inr p" and "\<And>t. t \<in> set ts \<Longrightarrow> in_i64 t"
  defines "D \<equiv> disk_candle uc rows symbol"
    and "r \<equiv> load_minutes c (zip ts (map (bm_get rows) (map (\<lambda>t. p @ time_bytes t) ts)))"
  shows "fst r = Inr () \<and> loaded D c (snd r) \<and> (\<forall>t \<in> set ts. D t = None \<or> bm_get (mc_candles (snd r)) t = D t)"
proof -
  let ?xs = "zip ts (map (bm_get rows) (map (\<lambda>t. p @ time_bytes t) ts))"
  have key: "candle_key uc symbol t = Inr (p @ time_bytes t)" for t using assms(2) by (simp add: candle_key_def)
  have xs: "?xs = map (\<lambda>t. (t, bm_get rows (p @ time_bytes t))) ts" by (simp add: zip_map2 zip_same_conv_map)
  have some: "\<exists>k. kl_decode t row = Inr k \<and> D t = Some k" if x: "(t, Some row) \<in> set ?xs" for t row
  proof -
    have "in_i64 t" "bm_get rows (p @ time_bytes t) = Some row" using x assms(3) unfolding xs by auto
    from rows_okD [OF assms(1) key this] show ?thesis unfolding D_def by metis
  qed
  have none: "D t = None" if x: "(t, None) \<in> set ?xs" for t
    using x unfolding xs D_def by (auto simp: disk_candle_def key)
  have dom: "fst ` set ?xs = set ts" unfolding xs by force
  show ?thesis unfolding r_def using load_minutes_loaded [of ?xs D c, OF some none] unfolding dom .
qed

lemma load_chunks_loaded:
  fixes cn :: "minute_cache \<times> nat"
  assumes "rows_ok uc (cd_rows db)" and "key_prefix uc symbol = Inr p" and "\<And>t. t \<in> set (concat tss) \<Longrightarrow> in_i64 t"
  defines "D \<equiv> disk_candle uc (cd_rows db) symbol"
    and "r \<equiv> load_chunks uc symbol db cn tss"
  shows "loaded D (fst cn) (fst (snd r))
    \<and> (cd_readable db \<longrightarrow> fst r = Inr () \<and> (\<forall>t \<in> set (concat tss). D t = None \<or> bm_get (mc_candles (fst (snd r))) t = D t))"
  unfolding r_def using assms(3)
proof (induction tss arbitrary: cn)
  case Nil
  then show ?case by simp
next
  case (Cons chunk rest)
  obtain c reads where cn: "cn = (c, reads)" by (rule prod.exhaust)
  note keys = rmapM_keys [OF assms(2), of chunk]
  have i64: "\<And>t. t \<in> set chunk \<Longrightarrow> in_i64 t" "\<And>t. t \<in> set (concat rest) \<Longrightarrow> in_i64 t" using Cons.prems by auto
  show ?case
  proof (cases "cd_readable db")
    case False
    then show ?thesis using keys by (simp add: cn)
  next
    case True
    define l where "l = load_minutes c (zip chunk (map (bm_get (cd_rows db)) (map (\<lambda>t. p @ time_bytes t) chunk)))"
    have l: "fst l = Inr ()" "loaded D c (snd l)" "\<forall>t \<in> set chunk. D t = None \<or> bm_get (mc_candles (snd l)) t = D t"
      using load_chunk [OF assms(1,2) i64(1), of chunk c] unfolding l_def D_def by auto
    obtain lc where lc: "l = (Inr (), lc)" using l(1) by (cases l) simp
    have step: "load_chunks uc symbol db cn (chunk # rest) = load_chunks uc symbol db (lc, add_u64 reads 1) rest"
      using True keys lc unfolding l_def by (simp add: cn)
    let ?c' = "fst (snd (load_chunks uc symbol db (lc, add_u64 reads 1) rest))"
    note IH = Cons.IH [OF i64(2), of "(lc, add_u64 reads 1)"]
    have ld: "loaded D lc ?c'" using IH by simp
    have "D t = None \<or> bm_get (mc_candles ?c') t = D t" if t: "t \<in> set chunk" for t
      using l(3) t loaded_get [OF ld] lc by auto
    then show ?thesis unfolding step using IH True loaded_trans [OF _ ld] l(2) lc by (auto simp: cn)
  qed
qed

subsection \<open>The caches agree with the table\<close>

text \<open>
  From \<open>since\<close> on, a cached candle is the one in the table: what an interrupted cleanup has deleted from
  the table only is older than its cutoff.
\<close>

definition cache_matches :: "unicode \<Rightarrow> i64 \<Rightarrow> (bytes, bytes) bmap \<Rightarrow> string \<Rightarrow> minute_cache \<Rightarrow> bool" where
  "cache_matches uc since rows symbol c \<longleftrightarrow> minute_cache_ok c
     \<and> (\<forall>t k. bm_get (mc_candles c) t = Some k \<and> since \<le> t \<longrightarrow> disk_candle uc rows symbol t = Some k)"

definition coherent :: "unicode \<Rightarrow> i64 \<Rightarrow> kline_store \<Rightarrow> bool" where
  "coherent uc since s \<longleftrightarrow> rows_ok uc (cd_rows (ks_db s)) \<and> bm_wf (ks_minutes s)
     \<and> (\<forall>symbol c. bm_get (ks_minutes s) symbol = Some c \<longrightarrow> cache_matches uc since (cd_rows (ks_db s)) symbol c)"

lemma cache_matches_default [simp]: "cache_matches uc since rows symbol minute_cache_default"
  by (simp add: cache_matches_def) (simp add: minute_cache_default_def)

lemma coherentD:
  assumes "coherent uc since s"
  shows "rows_ok uc (cd_rows (ks_db s))" and "bm_wf (ks_minutes s)"
    and "cache_matches uc since (cd_rows (ks_db s)) symbol (minute_cache_of s symbol)"
  using assms by (auto simp: coherent_def minute_cache_of_def split: option.splits)

lemma coherent_status [simp]: "coherent uc since (with_status f s) = coherent uc since s"
  by (simp add: coherent_def with_status_def)

lemma store_simps [simp]:
  "ks_db (with_status f s) = ks_db s" "ks_db (set_minute_cache symbol c s) = ks_db s"
  "ks_minutes (with_status f s) = ks_minutes s" "ks_retain_days (with_status f s) = ks_retain_days s"
  "ks_retain_days (set_minute_cache symbol c s) = ks_retain_days s"
  "minute_cache_of (with_status f s) symbol = minute_cache_of s symbol"
  "minute_cache_of (set_minute_cache symbol c s) symbol = c"
  "ks_db (count_memory_hits n s) = ks_db s" "ks_retain_days (count_memory_hits n s) = ks_retain_days s"
  "minute_cache_of (count_memory_hits n s) symbol = minute_cache_of s symbol"
  "coherent uc since (count_memory_hits n s) = coherent uc since s"
  by (simp_all add: with_status_def set_minute_cache_def minute_cache_of_def count_memory_hits_def coherent_def)

lemma cutoff_simps [simp]:
  "cutoff_us (with_status f s) = cutoff_us s" "cutoff_us (set_minute_cache symbol c s) = cutoff_us s"
  "cutoff_us (count_memory_hits n s) = cutoff_us s"
  by (simp_all add: cutoff_us_def fun_eq_iff)

lemma coherent_set:
  "coherent uc since s \<Longrightarrow> cache_matches uc since (cd_rows (ks_db s)) symbol c \<Longrightarrow> coherent uc since (set_minute_cache symbol c s)"
  by (auto simp: coherent_def set_minute_cache_def)

lemma matches_loaded:
  "cache_matches uc since rows symbol c \<Longrightarrow> loaded (disk_candle uc rows symbol) c c' \<Longrightarrow> cache_matches uc since rows symbol c'"
  unfolding cache_matches_def loaded_def by metis

lemma matches_get:
  assumes "cache_matches uc since rows symbol c" and "since \<le> t"
    and "disk_candle uc rows symbol t = None \<or> bm_get (mc_candles c) t = disk_candle uc rows symbol t"
  shows "bm_get (mc_candles c) t = disk_candle uc rows symbol t"
proof (cases "bm_get (mc_candles c) t")
  case None
  then show ?thesis using assms(3) by auto
next
  case (Some k)
  then show ?thesis using assms(1,2) by (simp add: cache_matches_def)
qed

text \<open>What a read leaves: the table and the retention as they were, and for each minute read what the table holds.\<close>

lemma read_minutes_facts:
  assumes coh: "coherent uc since s" and i64: "\<And>t. t \<in> set opens \<Longrightarrow> in_i64 t"
    and r: "read_minutes uc now s symbol opens = (r, s')"
  shows "coherent uc since s'" and "ks_db s' = ks_db s" and "cutoff_us s' = cutoff_us s"
    and "isl (key_prefix uc symbol) \<Longrightarrow> isl r"
    and "\<not> isl (key_prefix uc symbol) \<Longrightarrow> cd_readable (ks_db s) \<Longrightarrow> since \<le> cutoff_us s now \<Longrightarrow>
      r = Inr (map (\<lambda>t. if closed_minute s now t then disk_candle uc (cd_rows (ks_db s)) symbol t else None) opens)
      \<and> (\<forall>t \<in> set opens. closed_minute s now t \<longrightarrow>
           bm_get (mc_candles (minute_cache_of s' symbol)) t = disk_candle uc (cd_rows (ks_db s)) symbol t)"
    and "loaded (disk_candle uc (cd_rows (ks_db s)) symbol) (minute_cache_of s symbol) (minute_cache_of s' symbol)"
proof -
  show "isl (key_prefix uc symbol) \<Longrightarrow> isl r" using r by (auto simp: read_minutes_def split: sum.splits)
  have all: "coherent uc since s' \<and> ks_db s' = ks_db s \<and> cutoff_us s' = cutoff_us s \<and>
    loaded (disk_candle uc (cd_rows (ks_db s)) symbol) (minute_cache_of s symbol) (minute_cache_of s' symbol) \<and>
    (\<not> isl (key_prefix uc symbol) \<longrightarrow> cd_readable (ks_db s) \<longrightarrow> since \<le> cutoff_us s now \<longrightarrow>
      r = Inr (map (\<lambda>t. if closed_minute s now t then disk_candle uc (cd_rows (ks_db s)) symbol t else None) opens)
      \<and> (\<forall>t \<in> set opens. closed_minute s now t \<longrightarrow>
           bm_get (mc_candles (minute_cache_of s' symbol)) t = disk_candle uc (cd_rows (ks_db s)) symbol t))"
  proof (cases "key_prefix uc symbol")
    case (Inl e)
    then show ?thesis using r coh by (simp add: read_minutes_def)
  next
    case (Inr p)
    let ?rows = "cd_rows (ks_db s)"
    let ?D = "disk_candle uc ?rows symbol"
    define c where "c = minute_cache_of s symbol"
    define wanted where "wanted = set_of_list (filter (closed_minute s now) opens)"
    define missing where "missing = filter (\<lambda>t. \<not> bm_contains (mc_candles c) t) wanted"
    define q where "q = load_chunks uc symbol (ks_db s) (c, st_disk_batch_reads (ks_status s)) (chunks 4096 missing)"
    note d = coherentD(1) [OF coh] coherentD(2) [OF coh] coherentD(3) [OF coh, of symbol, folded c_def]
    have mem: "set (concat (chunks 4096 missing)) = set missing" by (simp add: concat_chunks)
    have mi: "\<And>t. t \<in> set (concat (chunks 4096 missing)) \<Longrightarrow> in_i64 t"
      unfolding mem using i64 by (auto simp: missing_def wanted_def)
    have ld: "loaded ?D c (fst (snd q)) \<and> (cd_readable (ks_db s) \<longrightarrow> fst q = Inr ()
        \<and> (\<forall>t \<in> set (concat (chunks 4096 missing)). ?D t = None \<or> bm_get (mc_candles (fst (snd q))) t = ?D t))"
      unfolding q_def
      by (rule load_chunks_loaded [where cn = "(c, st_disk_batch_reads (ks_status s))", unfolded fst_conv, OF d(1) Inr mi])
    have ldm: "cd_readable (ks_db s) \<Longrightarrow> \<forall>t \<in> set missing. ?D t = None \<or> bm_get (mc_candles (fst (snd q))) t = ?D t"
      using ld unfolding mem by blast
    obtain r' c' reads where q: "q = (r', c', reads)" by (rule prod_cases3)
    have matches: "cache_matches uc since ?rows symbol c'"
      by (rule matches_loaded [OF d(3)]) (use ld q in simp)
    have s': "r = rmap (\<lambda>_. map (\<lambda>t. if closed_minute s now t then bm_get (mc_candles c') t else None) opens) r'"
      "s' = with_status (\<lambda>t. t\<lparr>st_disk_batch_reads := reads\<rparr>) (set_minute_cache symbol c'
              (count_memory_hits (length wanted - length missing) s))"
      using r q unfolding q_def c_def missing_def wanted_def by (simp_all add: read_minutes_def Inr Let_def)
    have coh': "coherent uc since s'" unfolding s'(2) by (simp add: coherent_set coh matches)
    have get: "bm_get (mc_candles c') t = ?D t"
      if "cd_readable (ks_db s)" "since \<le> cutoff_us s now" and t: "t \<in> set opens" "closed_minute s now t" for t
    proof (rule matches_get [OF matches])
      show "since \<le> t" using that by (simp add: closed_minute_def)
      show "?D t = None \<or> bm_get (mc_candles c') t = ?D t"
      proof (cases "bm_get (mc_candles c) t")
        case None
        then have "t \<in> set missing" using t by (simp add: missing_def wanted_def bm_contains_def)
        then show ?thesis using ldm that(1) q by simp
      next
        case (Some k)
        then have "bm_get (mc_candles c) t = ?D t" using d(3) \<open>since \<le> t\<close> by (simp add: cache_matches_def)
        then show ?thesis using ld loaded_get q by (metis fst_conv snd_conv)
      qed
    qed
    have "r' = Inr ()" if "cd_readable (ks_db s)" using ld that q by simp
    moreover have "loaded ?D (minute_cache_of s symbol) (minute_cache_of s' symbol)" unfolding s'(2) using ld q by (simp add: c_def)
    ultimately show ?thesis using coh' get s' by (auto simp: rmap_def)
  qed
  then show "coherent uc since s'" "ks_db s' = ks_db s" "cutoff_us s' = cutoff_us s"
    "loaded (disk_candle uc (cd_rows (ks_db s)) symbol) (minute_cache_of s symbol) (minute_cache_of s' symbol)" by auto
  show "\<not> isl (key_prefix uc symbol) \<Longrightarrow> cd_readable (ks_db s) \<Longrightarrow> since \<le> cutoff_us s now \<Longrightarrow>
      r = Inr (map (\<lambda>t. if closed_minute s now t then disk_candle uc (cd_rows (ks_db s)) symbol t else None) opens)
      \<and> (\<forall>t \<in> set opens. closed_minute s now t \<longrightarrow>
           bm_get (mc_candles (minute_cache_of s' symbol)) t = disk_candle uc (cd_rows (ks_db s)) symbol t)"
    using all by simp
qed

subsection \<open>Windows are priced from the table\<close>

lemma wrap64_window_open:
  assumes "in_i64 ts" and "in_i64 now" and "ts + int (sample_count model) * minute_us \<le> now" and "t \<in> set (window_opens ts model)"
  shows "in_i64 t" and "ts \<le> t" and "in_i64 (t + minute_us)" and "t + minute_us \<le> now"
proof -
  obtain i where i: "i < sample_count model" "t = wrap64 (ts + int i * minute_us)" using assms(4) by (auto simp: window_opens_def)
  have "int i * minute_us + minute_us \<le> int (sample_count model) * minute_us"
    using i(1) by (simp add: minute_us_def)
  moreover have "0 \<le> int i * minute_us" "0 \<le> minute_us" by (simp_all add: minute_us_def)
  ultimately have b: "ts \<le> ts + int i * minute_us" "ts + int i * minute_us + minute_us \<le> now" "ts + int i * minute_us \<le> now"
    "ts \<le> ts + int i * minute_us + minute_us"
    using assms(3) by linarith+
  then have "in_i64 (ts + int i * minute_us)" "in_i64 (ts + int i * minute_us + minute_us)"
    using assms(1,2) by (auto simp: in_i64_def)
  then show "in_i64 t" "ts \<le> t" "in_i64 (t + minute_us)" "t + minute_us \<le> now" using i(2) b by simp_all
qed

lemma coherent_priced:
  assumes "coherent uc since s" and "in_i64 ts"
    and "price_window (bm_get (mc_candles (minute_cache_of s symbol))) ts model = Inr (Some p)"
  defines "c \<equiv> minute_cache_of s symbol"
  shows "coherent uc since (set_minute_cache symbol (c\<lparr>mc_prices := bm_insert (ts, model) p (mc_prices c)\<rparr>) s)"
  by (rule coherent_set [OF assms(1)])
    (use coherentD(3) [OF assms(1), of symbol] assms(2,3) cache_ok_priced in \<open>auto simp: cache_matches_def c_def\<close>)

lemma window_prices_keeps:
  assumes "coherent uc since s" and "in_i64 ts" and "window_prices uc now s symbol ts model = (r, s')"
  shows "coherent uc since s' \<and> ks_db s' = ks_db s \<and> cutoff_us s' = cutoff_us s"
proof -
  define s1 where "s1 = set_minute_cache symbol (minute_cache_of s symbol) s"
  have c1: "coherent uc since s1" unfolding s1_def by (rule coherent_set [OF assms(1) coherentD(3) [OF assms(1)]])
  have opens: "\<And>t. t \<in> set (window_opens ts model) \<Longrightarrow> in_i64 t" by (auto simp: window_opens_def wrap64_in_range)
  obtain rr s2 where rd: "read_minutes uc now s1 symbol (window_opens ts model) = (rr, s2)" by (rule prod.exhaust)
  note f = read_minutes_facts(1-3) [OF c1 opens rd]
  show ?thesis
    using assms(3) c1 f coherent_priced [OF f(1) assms(2), of symbol model] assms(1)
    by (auto simp: window_prices_def Let_def rd s1_def [symmetric] split: if_splits option.splits sum.splits)
      (simp_all add: s1_def)
qed

lemma window_prices_disk:
  assumes coh: "coherent uc since s" and since: "since \<le> cutoff_us s now" and ok: "\<not> isl (key_prefix uc symbol)" "cd_readable (ks_db s)"
    and i64: "in_i64 ts" "in_i64 now" and guard: "cutoff_us s now \<le> ts" "ts + int (sample_count model) * minute_us \<le> now"
  shows "fst (window_prices uc now s symbol ts model) = price_window (disk_candle uc (cd_rows (ks_db s)) symbol) ts model"
proof -
  let ?D = "disk_candle uc (cd_rows (ks_db s)) symbol"
  define s1 where "s1 = set_minute_cache symbol (minute_cache_of s symbol) s"
  have c1: "coherent uc since s1" unfolding s1_def by (rule coherent_set [OF coh coherentD(3) [OF coh]])
  have w: "wrap64 (ts + int (sample_count model) * minute_us) = ts + int (sample_count model) * minute_us"
    by (rule wrap64_id) (use i64 guard(2) in \<open>auto simp: in_i64_def minute_us_def\<close>)
  have g: "\<not> (ts < cutoff_us s now \<or> now < wrap64 (ts + int (sample_count model) * minute_us))"
    unfolding w using guard by simp
  note opens = wrap64_window_open [OF i64 guard(2)]
  show ?thesis
  proof (cases "bm_get (mc_prices (minute_cache_of s symbol)) (ts, model)")
    case (Some p)
    note m = coherentD(3) [OF coh, of symbol]
    have pw: "price_window (bm_get (mc_candles (minute_cache_of s symbol))) ts model = Inr (Some p)"
      using m Some cache_okD(4) unfolding cache_matches_def by blast
    have "price_window (bm_get (mc_candles (minute_cache_of s symbol))) ts model = price_window ?D ts model"
    proof (rule price_window_cong [OF i64(1)])
      fix t assume t: "t \<in> set (window_opens ts model)"
      obtain k where k: "bm_get (mc_candles (minute_cache_of s symbol)) t = Some k"
        using priced_window_complete [OF pw i64(1) t] by auto
      have "since \<le> t" using opens(2) [OF t] guard(1) since by simp
      then show "bm_get (mc_candles (minute_cache_of s symbol)) t = ?D t" using m k by (simp add: cache_matches_def)
    qed
    with pw Some g show ?thesis by (simp add: window_prices_def Let_def)
  next
    case None
    obtain rr s2 where rd: "read_minutes uc now s1 symbol (window_opens ts model) = (rr, s2)" by (rule prod.exhaust)
    have cut: "cutoff_us s1 = cutoff_us s" "ks_db s1 = ks_db s" by (simp_all add: s1_def)
    have ok1: "cd_readable (ks_db s1)" "since \<le> cutoff_us s1 now" using ok since cut by simp_all
    note f = read_minutes_facts(5) [OF c1 opens(1) rd ok(1) ok1]
    obtain bars where rr: "rr = Inr bars" using f by simp
    have get: "bm_get (mc_candles (minute_cache_of s2 symbol)) t = ?D t" if t: "t \<in> set (window_opens ts model)" for t
    proof -
      have "closed_minute s1 now t" using opens [OF t] guard(1) by (simp add: closed_minute_def cut)
      then show ?thesis using f t by (simp add: cut)
    qed
    have pw: "price_window (bm_get (mc_candles (minute_cache_of s2 symbol))) ts model = price_window ?D ts model"
      by (rule price_window_cong [OF i64(1) get])
    show ?thesis using g None rd rr pw
      by (auto simp: window_prices_def Let_def s1_def [symmetric] split: sum.splits option.splits)
  qed
qed

subsection \<open>A scan is the table\<close>

text \<open>The candles of the table in a range of minutes.\<close>

definition disk_between :: "unicode \<Rightarrow> (bytes, bytes) bmap \<Rightarrow> string \<Rightarrow> i64 \<Rightarrow> i64 \<Rightarrow> kline list" where
  "disk_between uc rows symbol start end_ts = List.map_filter (disk_candle uc rows symbol) (minutes_between start end_ts)"

lemma bm_get_range: "bm_wf m \<Longrightarrow> bm_get (bm_range lo hi m) k = (if lo \<le> k \<and> k < hi then bm_get m k else None)"
  by (simp add: bm_range_def bm_get_filter split: option.splits)

lemma bm_wf_range: "bm_wf m \<Longrightarrow> bm_wf (bm_range lo hi m)"
  by (simp add: bm_range_def bm_wf_filter)

lemma minutes_mem:
  assumes "start mod minute_us = 0"
  shows "t \<in> set (minutes_between start end_ts) \<longleftrightarrow> start \<le> t \<and> t < end_ts \<and> t mod minute_us = 0"
proof
  have m: "0 < minute_us" by (simp add: minute_us_def)
  assume "t \<in> set (minutes_between start end_ts)"
  then obtain i where "t = start + int i * minute_us" "i < nat ((end_ts - start + minute_us - 1) div minute_us)"
    unfolding minutes_between_def set_map by fastforce
  then have i: "t = start + int i * minute_us" "int i < (end_ts - start + minute_us - 1) div minute_us" by auto
  have "(int i + 1) * minute_us \<le> (end_ts - start + minute_us - 1) div minute_us * minute_us"
    using i(2) m by (intro mult_right_mono) auto
  also have "\<dots> \<le> end_ts - start + minute_us - 1" using pos_mod_sign [OF m, of "end_ts - start + minute_us - 1"] by (simp add: minus_mod_eq_div_mult [symmetric])
  finally have "t < end_ts" using i(1) by (simp add: algebra_simps)
  then show "start \<le> t \<and> t < end_ts \<and> t mod minute_us = 0" using i(1) m assms by auto
next
  have m: "0 < minute_us" by (simp add: minute_us_def)
  assume t: "start \<le> t \<and> t < end_ts \<and> t mod minute_us = 0"
  define i where "i = nat ((t - start) div minute_us)"
  have "minute_us dvd t - start" using t assms by (simp add: mod_eq_0_iff_dvd)
  then have ti: "t = start + int i * minute_us" using t m by (simp add: i_def pos_imp_zdiv_nonneg_iff)
  have "int i * minute_us + minute_us \<le> end_ts - start + minute_us - 1" using t ti by simp
  then have "(int i + 1) * minute_us \<le> end_ts - start + minute_us - 1" by (simp add: algebra_simps)
  then have "int i + 1 \<le> (end_ts - start + minute_us - 1) div minute_us"
    using m by (metis zdiv_mono1 nonzero_mult_div_cancel_right less_imp_neq)
  then show "t \<in> set (minutes_between start end_ts)" unfolding minutes_between_def using ti by force
qed

lemma minutes_sorted: "sorted_wrt (<) (minutes_between start end_ts)"
  unfolding minutes_between_def sorted_wrt_map by (rule sorted_wrt_mono_rel [OF _ sorted_wrt_upt]) (simp add: minute_us_def)

lemma map_filter_pairs:
  fixes f :: "int \<Rightarrow> 'v option"
  assumes "sorted_wrt (<) (ts :: int list)"
  defines "m \<equiv> List.map_filter (\<lambda>t. map_option (Pair t) (f t)) ts"
  shows "bm_wf m" and "bm_get m t = (if t \<in> set ts then f t else None)" and "bm_vals m = List.map_filter f ts"
proof -
  have keys: "fst ` set (List.map_filter (\<lambda>t. map_option (Pair t) (f t)) ts) \<subseteq> set ts" for ts :: "int list"
    by (force simp: List.map_filter_def)
  have "bm_wf (List.map_filter (\<lambda>t. map_option (Pair t) (f t)) ts) \<and>
    bm_get (List.map_filter (\<lambda>t. map_option (Pair t) (f t)) ts) t = (if t \<in> set ts then f t else None) \<and>
    bm_vals (List.map_filter (\<lambda>t. map_option (Pair t) (f t)) ts) = List.map_filter f ts"
    using assms(1)
  proof (induction ts)
    case Nil
    then show ?case by (simp add: List.map_filter_def bm_vals_def)
  next
    case (Cons x xs)
    then show ?case using keys [of xs]
      by (cases "f x") (auto simp: List.map_filter_simps bm_wf_Cons bm_vals_def)
  qed
  then show "bm_wf m" "bm_get m t = (if t \<in> set ts then f t else None)" "bm_vals m = List.map_filter f ts"
    unfolding m_def by auto
qed

text \<open>The cached candles of a range, minute by minute.\<close>

lemma cached_range:
  assumes "minute_cache_ok c" and "start mod minute_us = 0"
  shows "bm_vals (bm_range start end_ts (mc_candles c)) = List.map_filter (bm_get (mc_candles c)) (minutes_between start end_ts)"
proof -
  note d = cache_okD [OF assms(1)]
  let ?m = "List.map_filter (\<lambda>t. map_option (Pair t) (bm_get (mc_candles c) t)) (minutes_between start end_ts)"
  note mf = map_filter_pairs [OF minutes_sorted, of "bm_get (mc_candles c)" start end_ts]
  have "bm_range start end_ts (mc_candles c) = ?m"
  proof (rule bm_ext [OF bm_wf_range [OF d(1)] mf(1)])
    fix t
    have "t mod minute_us = 0" if "bm_get (mc_candles c) t = Some k" for k
      using d(3) [OF that] by (auto simp: kl_validate_Inr)
    then show "bm_get (bm_range start end_ts (mc_candles c)) t = bm_get ?m t"
      unfolding bm_get_range [OF d(1)] mf(2) minutes_mem [OF assms(2)] by (cases "bm_get (mc_candles c) t") auto
  qed
  with mf(3) show ?thesis by simp
qed

lemma load_rows_loaded:
  assumes "\<And>k row. (k, row) \<in> set rs \<Longrightarrow> \<exists>t candle. in_i64 t \<and> k = p @ time_bytes t \<and> kl_decode t row = Inr candle \<and> D t = Some candle"
  shows "fst (load_rows (length p) c rs) = Inr () \<and> loaded D c (snd (load_rows (length p) c rs))
    \<and> (\<forall>t. in_i64 t \<longrightarrow> p @ time_bytes t \<in> fst ` set rs \<longrightarrow> bm_get (mc_candles (snd (load_rows (length p) c rs))) t = D t)"
  using assms
proof (induction "length p" c rs rule: load_rows.induct)
  case (1 c)
  then show ?case by simp
next
  case (2 c k row rest)
  have "\<exists>t candle. in_i64 t \<and> k = p @ time_bytes t \<and> kl_decode t row = Inr candle \<and> D t = Some candle" by (rule 2(2)) simp
  then obtain t candle where t: "in_i64 t" "k = p @ time_bytes t" "kl_decode t row = Inr candle" "D t = Some candle" by blast
  have "be_signed64 (drop (length p) k) = t" using t(1,2) by (simp add: be_signed64_time)
  then have dec: "kl_decode (be_signed64 (drop (length p) k)) row = Inr candle" using t(3) by simp
  have len: "\<not> length k \<noteq> length p + 8" using t(2) by simp
  have step: "load_rows (length p) c ((k, row) # rest) = load_rows (length p) (mc_insert c candle) rest" using dec len by simp
  note kd = kl_decode_Inr [OF t(3)]
  have ins: "loaded D c (mc_insert c candle)" by (rule loaded_insert) (use t kd in simp_all)
  have rest: "\<And>k row. (k, row) \<in> set rest \<Longrightarrow> \<exists>t candle. in_i64 t \<and> k = p @ time_bytes t \<and> kl_decode t row = Inr candle \<and> D t = Some candle"
    using 2(2) by simp
  note IH = 2(1) [OF len dec rest]
  let ?c' = "snd (load_rows (length p) (mc_insert c candle) rest)"
  have own: "bm_get (mc_candles ?c') t = D t"
    by (rule loaded_get [of _ "mc_insert c candle"]) (use IH kd t in simp_all)
  have "bm_get (mc_candles ?c') u = D u" if u: "in_i64 u" "p @ time_bytes u \<in> fst ` set ((k, row) # rest)" for u
  proof (cases "p @ time_bytes u = k")
    case True
    then have "u = t" using t(1,2) u(1) be_signed64_time by (metis same_append_eq)
    then show ?thesis using own by simp
  next
    case False
    then show ?thesis using u IH by auto
  qed
  then show ?case unfolding step using IH loaded_trans [OF ins] by blast
qed

lemma range_rows:
  assumes rows: "rows_ok uc rows" and p: "key_prefix uc symbol = Inr p"
    and mem: "(k, row) \<in> set (bm_range (p @ x) (p @ y) rows)"
  shows "\<exists>t candle. in_i64 t \<and> k = p @ time_bytes t \<and> kl_decode t row = Inr candle \<and> disk_candle uc rows symbol t = Some candle"
proof -
  have wf: "bm_wf rows" using rows by (simp add: rows_ok_def)
  have k: "p @ x \<le> k" "k < p @ y" and get: "bm_get rows k = Some row"
    using mem bm_get_mem [OF wf] by (auto simp: bm_range_def)
  obtain z where z: "k = p @ z" using between_prefix [OF k] by blast
  from rows get obtain s' t candle where r: "in_i64 t" "candle_key uc s' t = Inr k" "kl_decode t row = Inr candle"
    unfolding rows_ok_def by blast
  from r(2) obtain p' where p': "key_prefix uc s' = Inr p'" "k = p' @ time_bytes t" by (auto simp: candle_key_Inr)
  note pf = key_prefix_Inr [OF p] key_prefix_Inr [OF p'(1)]
  have "(of_nat (length s') :: 8 word) = of_nat (length symbol)" using pf z p'(2) by simp
  then have "unat (of_nat (length s') :: 8 word) = unat (of_nat (length symbol) :: 8 word)" by simp
  then have "length s' = length symbol" using pf by (simp add: unat_of_nat)
  then have "p' = p" using z p'(2) pf by (metis append_eq_append_conv length_Cons length_utf8)
  then have key: "candle_key uc symbol t = Inr k" using p p'(2) by (simp add: candle_key_Inr)
  from rows_okD [OF rows key r(1) get] obtain c where "kl_decode t row = Inr c" "disk_candle uc rows symbol t = Some c" .
  with r(1) p'(2) \<open>p' = p\<close> show ?thesis by blast
qed

lemma scan_disk_facts:
  assumes coh: "coherent uc since s" and p: "key_prefix uc symbol = Inr p" and r: "scan_disk uc s symbol missing = (r, s')"
  defines "D \<equiv> disk_candle uc (cd_rows (ks_db s)) symbol"
  shows "coherent uc since s' \<and> ks_db s' = ks_db s \<and> cutoff_us s' = cutoff_us s
    \<and> loaded D (minute_cache_of s symbol) (minute_cache_of s' symbol)
    \<and> (cd_readable (ks_db s) \<longrightarrow> r = Inr () \<and>
        (\<forall>t. in_i64 t \<longrightarrow> D t \<noteq> None \<longrightarrow> time_bytes (hd missing) \<le> time_bytes t
           \<longrightarrow> time_bytes t < time_bytes (wrap64 (last missing + minute_us)) \<longrightarrow> bm_get (mc_candles (minute_cache_of s' symbol)) t = D t))"
proof -
  let ?rows = "cd_rows (ks_db s)"
  let ?lo = "p @ time_bytes (hd missing)" and ?hi = "p @ time_bytes (wrap64 (last missing + minute_us))"
  have len: "length symbol + 1 = length p" using key_prefix_Inr [OF p] by simp
  note d = coherentD(1) [OF coh] coherentD(3) [OF coh, of symbol]
  note ld = load_rows_loaded [where p = p and D = D and rs = "bm_range ?lo ?hi ?rows" and c = "minute_cache_of s symbol",
      OF range_rows [where x = "time_bytes (hd missing)" and y = "time_bytes (wrap64 (last missing + minute_us))", OF d(1) p, folded D_def]]
  show ?thesis
  proof (cases "cd_readable (ks_db s)")
    case False
    then show ?thesis using r coh by (auto simp: scan_disk_def candle_key_def p rmap_def)
  next
    case True
    define c' where "c' = snd (load_rows (length p) (minute_cache_of s symbol) (bm_range ?lo ?hi ?rows))"
    have s': "r = Inr ()" "s' = set_minute_cache symbol c' (with_status (\<lambda>t. t\<lparr>st_disk_range_reads := add_u64 (st_disk_range_reads t) 1\<rparr>) s)"
      using r True ld unfolding c'_def
      by (auto simp: scan_disk_def candle_key_def p rmap_def len [symmetric] Let_def split: prod.splits)
    have matches: "cache_matches uc since ?rows symbol c'"
      by (rule matches_loaded [OF d(2)]) (use ld in \<open>simp add: c'_def D_def\<close>)
    have get: "bm_get (mc_candles c') t = D t"
      if i: "in_i64 t" and x: "D t \<noteq> None" and b: "time_bytes (hd missing) \<le> time_bytes t"
        "time_bytes t < time_bytes (wrap64 (last missing + minute_us))" for t
    proof -
      have wf: "bm_wf ?rows" using d(1) by (simp add: rows_ok_def)
      obtain row where row: "bm_get ?rows (p @ time_bytes t) = Some row"
        using x unfolding D_def by (auto simp: disk_candle_def candle_key_def p split: option.splits if_splits)
      have "?lo \<le> p @ time_bytes t" "p @ time_bytes t < ?hi" using b by (simp_all flip: not_less)
      then have "(p @ time_bytes t, row) \<in> set (bm_range ?lo ?hi ?rows)"
        using bm_get_mem [OF wf] row by (auto simp: bm_range_def)
      then have "p @ time_bytes t \<in> fst ` set (bm_range ?lo ?hi ?rows)" by force
      then show ?thesis using ld i unfolding c'_def by blast
    qed
    have "coherent uc since s'" unfolding s'(2) by (rule coherent_set) (simp_all add: coh matches)
    then show ?thesis using s' get ld by (auto simp: c'_def)
  qed
qed

lemma map_filter_cong: "(\<And>x. x \<in> set xs \<Longrightarrow> f x = g x) \<Longrightarrow> List.map_filter f xs = List.map_filter g xs"
  by (simp add: List.map_filter_def cong: filter_cong map_cong)

lemma map_filter_full: "length (List.map_filter f xs) = length xs \<Longrightarrow> x \<in> set xs \<Longrightarrow> f x \<noteq> None"
proof -
  assume "length (List.map_filter f xs) = length xs" "x \<in> set xs"
  then have "length (filter (\<lambda>y. f y \<noteq> None) xs) = length xs" by (simp add: List.map_filter_def comp_def)
  then have "filter (\<lambda>y. f y \<noteq> None) xs = xs" by (metis filter_True length_filter_less less_irrefl)
  then show "f x \<noteq> None" using \<open>x \<in> set xs\<close> unfolding filter_id_conv by blast
qed

lemma length_minutes_between:
  assumes "start mod minute_us = 0" and "end_ts mod minute_us = 0" and "start < end_ts"
  shows "length (minutes_between start end_ts) = nat ((end_ts - start) div minute_us)"
proof -
  have m: "0 < minute_us" by (simp add: minute_us_def)
  have "(end_ts - start) mod minute_us = 0" using assms(1,2) by (metis cancel_comm_monoid_add_class.diff_cancel mod_0 mod_diff_eq)
  then obtain q where q: "end_ts - start = minute_us * q" by (auto simp: mod_eq_0_iff_dvd elim: dvdE)
  have "end_ts - start + minute_us - 1 = (minute_us - 1) + minute_us * q" using q by simp
  then have "(end_ts - start + minute_us - 1) div minute_us = q + (minute_us - 1) div minute_us"
    using m by (simp only: div_mult_self2)
  also have "(minute_us - 1) div minute_us = 0" using m by (simp add: div_pos_pos_trivial)
  finally show ?thesis using m q by (simp add: minutes_between_def)
qed

lemma scan_start:
  assumes "in_i64 x" and "0 \<le> x"
  shows "0 \<le> first_complete_open x" and "first_complete_open x mod minute_us = 0" and "in_i64 (first_complete_open x)"
    and "in_i64 now \<Longrightarrow> first_complete_open x < now div minute_us * minute_us \<Longrightarrow> x \<le> first_complete_open x"
proof -
  have m: "0 < minute_us" by (simp add: minute_us_def)
  define y where "y = sat64 (x + (minute_us - 1))"
  have y: "0 \<le> y" "y \<le> i64_max" using assms m by (auto simp: y_def sat64_def i64_max_def i64_min_def)
  have "y div minute_us * minute_us \<le> y"
    using pos_mod_sign [OF m, of y] minus_mod_eq_div_mult [of y minute_us] by linarith
  moreover have "0 \<le> y div minute_us * minute_us" using m y by (simp add: pos_imp_zdiv_nonneg_iff)
  ultimately have q: "y div minute_us * minute_us \<le> y" "0 \<le> y div minute_us * minute_us" .
  then have f: "first_complete_open x = y div minute_us * minute_us"
    unfolding first_complete_open_def y_def [symmetric] using y by (intro wrap64_id) (simp add: in_i64_def i64_min_def)
  show "0 \<le> first_complete_open x" "first_complete_open x mod minute_us = 0" using q by (simp_all add: f)
  show "in_i64 (first_complete_open x)" unfolding first_complete_open_def by (rule wrap64_in_range)
  assume n: "in_i64 now" "first_complete_open x < now div minute_us * minute_us"
  have "\<not> y = i64_max"
  proof
    assume "y = i64_max"
    then have "now div minute_us \<le> y div minute_us" using n(1) m by (intro zdiv_mono1) (simp_all add: in_i64_def)
    then have "now div minute_us * minute_us \<le> y div minute_us * minute_us" using m by (intro mult_right_mono) auto
    then show False using n(2) by (simp add: f)
  qed
  then have y': "y = x + (minute_us - 1)" using assms m by (auto simp: y_def sat64_def in_i64_def split: if_splits)
  have "y - minute_us < y div minute_us * minute_us" using pos_mod_bound [OF m, of y] by (simp add: minus_mod_eq_div_mult [symmetric])
  then show "x \<le> first_complete_open x" by (simp add: f y')
qed

lemma scan_missing_facts:
  assumes coh: "coherent uc since s" and p: "\<not> isl (key_prefix uc symbol)" and i64: "\<And>t. t \<in> set missing \<Longrightarrow> in_i64 t"
    and r: "scan_missing uc now s symbol missing = (r, s')"
  defines "D \<equiv> disk_candle uc (cd_rows (ks_db s)) symbol"
  shows "coherent uc since s' \<and> ks_db s' = ks_db s \<and> cutoff_us s' = cutoff_us s
      \<and> loaded D (minute_cache_of s symbol) (minute_cache_of s' symbol)"
    and "cd_readable (ks_db s) \<Longrightarrow> since \<le> cutoff_us s now \<Longrightarrow> 0 \<le> cutoff_us s now \<Longrightarrow> sorted_wrt (<) missing
      \<Longrightarrow> (\<And>t. t \<in> set missing \<Longrightarrow> closed_minute s now t \<and> in_i64 (t + minute_us))
      \<Longrightarrow> r = Inr () \<and> (\<forall>t \<in> set missing. bm_get (mc_candles (minute_cache_of s' symbol)) t = D t)"
proof -
  obtain p where p': "key_prefix uc symbol = Inr p" using p by (cases "key_prefix uc symbol") auto
  show "coherent uc since s' \<and> ks_db s' = ks_db s \<and> cutoff_us s' = cutoff_us s
      \<and> loaded D (minute_cache_of s symbol) (minute_cache_of s' symbol)"
  proof (cases "length missing \<le> 64")
    case True
    obtain rr where rd: "read_minutes uc now s symbol missing = (rr, s')" using r True by (auto simp: scan_missing_def split: prod.splits)
    show ?thesis using read_minutes_facts(1-3,6) [OF coh i64 rd] by (simp add: D_def)
  next
    case False
    then have "scan_disk uc s symbol missing = (r, s')" using r by (simp add: scan_missing_def)
    from scan_disk_facts [OF coh p' this] show ?thesis by (simp add: D_def)
  qed
  assume readable: "cd_readable (ks_db s)" and since: "since \<le> cutoff_us s now" and pos: "0 \<le> cutoff_us s now"
    and sorted: "sorted_wrt (<) missing" and closed: "\<And>t. t \<in> set missing \<Longrightarrow> closed_minute s now t \<and> in_i64 (t + minute_us)"
  show "r = Inr () \<and> (\<forall>t \<in> set missing. bm_get (mc_candles (minute_cache_of s' symbol)) t = D t)"
  proof (cases "length missing \<le> 64")
    case True
    obtain rr where rd: "read_minutes uc now s symbol missing = (rr, s')" "r = rmap (\<lambda>_. ()) rr"
      using r True by (auto simp: scan_missing_def split: prod.splits)
    from read_minutes_facts(5) [OF coh i64 rd(1) p readable since] closed rd(2) show ?thesis by (simp add: D_def rmap_def)
  next
    case False
    then have sd: "scan_disk uc s symbol missing = (r, s')" using r by (simp add: scan_missing_def)
    note f = scan_disk_facts [OF coh p' sd, folded D_def]
    have ne: "missing \<noteq> []" using False by auto
    have m: "0 < minute_us" by (simp add: minute_us_def)
    have last: "in_i64 (last missing + minute_us)" "wrap64 (last missing + minute_us) = last missing + minute_us"
      using closed ne by simp_all
    have get: "bm_get (mc_candles (minute_cache_of s' symbol)) t = D t" if t: "t \<in> set missing" for t
    proof (cases "D t")
      case None
      have "since \<le> t" using closed [OF t] since by (simp add: closed_minute_def)
      have "cache_matches uc since (cd_rows (ks_db s)) symbol (minute_cache_of s' symbol)"
        using coherentD(3) [of uc since s' symbol] f by simp
      then show ?thesis
        by (rule matches_get [OF _ \<open>since \<le> t\<close>, of uc "cd_rows (ks_db s)" symbol, folded D_def]) (simp add: None)
    next
      case (Some k)
      have hd: "hd missing \<le> t" using t sorted ne by (cases missing) (auto intro: less_imp_le)
      have lt: "t \<le> last missing" using t sorted ne
        by (metis append_butlast_last_id in_set_butlastD less_imp_le order_refl set_ConsD rotate1.simps(2) set_rotate1 sorted_wrt_append list.set_intros(1))
      have nn: "0 \<le> hd missing" "0 \<le> t" using closed [of "hd missing"] closed [OF t] ne pos by (simp_all add: closed_minute_def)
      have up: "hd missing \<le> i64_max" "t \<le> i64_max" "last missing + minute_us \<le> i64_max"
        using i64 [OF t] i64 [of "hd missing"] last ne by (simp_all add: in_i64_def)
      have "\<not> time_bytes t < time_bytes (hd missing)" using hd nn up by (simp add: time_bytes_less)
      moreover have "time_bytes t < time_bytes (last missing + minute_us)" using lt nn up m by (simp add: time_bytes_less)
      ultimately show ?thesis using f readable Some i64 [OF t] last(2) by simp
    qed
    then show ?thesis using f readable by simp
  qed
qed

lemma scan_keeps:
  assumes coh: "coherent uc since s" and now: "in_i64 now" and r: "scan_candles uc now s symbol start end_ts = (r, s')"
  shows "coherent uc since s' \<and> ks_db s' = ks_db s \<and> cutoff_us s' = cutoff_us s"
proof -
  obtain a b where ab: "scan_bounds s now start end_ts = (a, b)" by (rule prod.exhaust)
  have ai: "in_i64 a" using ab by (auto simp: scan_bounds_def first_complete_open_def wrap64_in_range)
  have m: "0 < minute_us" by (simp add: minute_us_def)
  have "now div minute_us * minute_us \<le> now" using pos_mod_sign [OF m, of now] minus_mod_eq_div_mult [of now minute_us] by linarith
  then have bn: "b \<le> now" using ab by (auto simp: scan_bounds_def)
  define c where "c = minute_cache_of s symbol"
  define missing where "missing = filter (\<lambda>ts. \<not> bm_contains (mc_candles c) ts) (minutes_between a b)"
  define s1 where "s1 = count_memory_hits (length (bm_vals (bm_range a b (mc_candles c)))) (set_minute_cache symbol c s)"
  have i64: "in_i64 t" if t: "t \<in> set missing" for t
  proof -
    obtain i where i: "t = a + int i * minute_us" "i < nat ((b - a + minute_us - 1) div minute_us)"
      using t unfolding missing_def minutes_between_def by (fastforce split: if_splits)
    have "(int i + 1) * minute_us \<le> (b - a + minute_us - 1) div minute_us * minute_us"
      using i(2) m by (intro mult_right_mono) auto
    also have "\<dots> \<le> b - a + minute_us - 1"
      using pos_mod_sign [OF m, of "b - a + minute_us - 1"] minus_mod_eq_div_mult [of "b - a + minute_us - 1" minute_us] by linarith
    finally have "t < b" using i(1) by (simp add: algebra_simps)
    moreover have "a \<le> t" using i(1) m by simp
    ultimately show ?thesis using ai bn now by (simp add: in_i64_def)
  qed
  have s1: "coherent uc since s1" "ks_db s1 = ks_db s" "cutoff_us s1 = cutoff_us s"
    unfolding s1_def c_def using coherent_set [OF coh coherentD(3) [OF coh]] by simp_all
  show ?thesis
  proof (cases "b \<le> a \<or> isl (key_prefix uc symbol) \<or> length (bm_vals (bm_range a b (mc_candles c))) = nat ((b - a) div minute_us)")
    case True
    then show ?thesis using r coh s1 unfolding s1_def c_def
      by (auto simp: scan_candles_def ab Let_def split: sum.splits if_splits)
  next
    case False
    obtain rr s2 where sm: "scan_missing uc now s1 symbol missing = (rr, s2)" by (rule prod.exhaust)
    have "s' = s2" using r False sm unfolding s1_def missing_def c_def
      by (auto simp: scan_candles_def ab Let_def split: sum.splits if_splits)
    moreover have "\<not> isl (key_prefix uc symbol)" using False by simp
    ultimately show ?thesis using scan_missing_facts(1) [OF s1(1) _ i64 sm] s1 by simp
  qed
qed

lemma scan_table:
  assumes coh: "coherent uc since s" and since: "since \<le> cutoff_us s now" and pos: "0 \<le> cutoff_us s now"
    and ok: "\<not> isl (key_prefix uc symbol)" "cd_readable (ks_db s)"
    and i64: "in_i64 now" "in_i64 start" and aligned: "end_ts mod minute_us = 0"
  defines "rows \<equiv> cd_rows (ks_db s)"
    and "a \<equiv> first_complete_open (max start (cutoff_us s now))" and "b \<equiv> min end_ts (now div minute_us * minute_us)"
  shows "fst (scan_candles uc now s symbol start end_ts) = Inr (disk_between uc rows symbol a b)"
proof -
  let ?D = "disk_candle uc rows symbol"
  have sb: "scan_bounds s now start end_ts = (a, b)" by (simp add: scan_bounds_def a_def b_def)
  have m: "0 < minute_us" by (simp add: minute_us_def)
  have cut: "in_i64 (cutoff_us s now)" by (simp add: cutoff_us_def sat64_in_range)
  have x: "in_i64 (max start (cutoff_us s now))" "0 \<le> max start (cutoff_us s now)" using i64 cut pos by (auto simp: max_def)
  note st = scan_start(1,2) [OF x, folded a_def]
  show ?thesis
  proof (cases "a < b")
    case False
    have "t \<notin> set (minutes_between a b)" for t unfolding minutes_mem [OF st(2)] using False by linarith
    then have "minutes_between a b = []" by (metis list.set_intros(1) neq_Nil_conv)
    then have "disk_between uc rows symbol a b = []" by (simp add: disk_between_def List.map_filter_simps)
    then show ?thesis using False by (simp add: scan_candles_def sb)
  next
    case True
    have xa: "max start (cutoff_us s now) \<le> a"
      using scan_start(4) [OF x i64(1), folded a_def] True by (simp add: b_def)
    have bm: "b mod minute_us = 0" using aligned by (simp add: b_def min_def)
    have "now div minute_us * minute_us \<le> now" using pos_mod_sign [OF m, of now] minus_mod_eq_div_mult [of now minute_us] by linarith
    then have bn: "b \<le> now" by (simp add: b_def)
    define c where "c = minute_cache_of s symbol"
    have mc: "cache_matches uc since rows symbol c" unfolding c_def rows_def by (rule coherentD(3) [OF coh])
    have minute: "closed_minute s now t \<and> in_i64 (t + minute_us) \<and> in_i64 t \<and> since \<le> t" if t: "t \<in> set (minutes_between a b)" for t
    proof -
      have t: "a \<le> t" "t < b" "t mod minute_us = 0" using t minutes_mem [OF st(2)] by auto
      have "minute_us dvd b - t" using t(3) bm by (simp add: mod_eq_0_iff_dvd)
      then have "minute_us \<le> b - t" using t(2) by (intro zdvd_imp_le) simp_all
      then have u: "t + minute_us \<le> now" "0 \<le> t" using bn t st(1) by simp_all
      then have "in_i64 (t + minute_us)" "in_i64 t" using i64(1) m by (simp_all add: in_i64_def i64_min_def)
      then show ?thesis using u t(1) xa since by (simp add: closed_minute_def)
    qed
    define s1 where "s1 = count_memory_hits (length (bm_vals (bm_range a b (mc_candles c)))) (set_minute_cache symbol c s)"
    have s1: "coherent uc since s1" "ks_db s1 = ks_db s" "cutoff_us s1 = cutoff_us s" "minute_cache_of s1 symbol = c"
      unfolding s1_def c_def using coherent_set [OF coh coherentD(3) [OF coh]] by simp_all
    obtain p where p: "key_prefix uc symbol = Inr p" using ok(1) by (cases "key_prefix uc symbol") auto
    have range: "bm_vals (bm_range a b (mc_candles c)) = disk_between uc rows symbol a b"
      if get: "\<And>t. t \<in> set (minutes_between a b) \<Longrightarrow> bm_get (mc_candles c) t = ?D t" and okc: "minute_cache_ok c" for c
      unfolding cached_range [OF okc st(2)] disk_between_def by (rule map_filter_cong) (rule get)
    show ?thesis
    proof (cases "length (bm_vals (bm_range a b (mc_candles c))) = nat ((b - a) div minute_us)")
      case full: True
      have okc: "minute_cache_ok c" using mc by (simp add: cache_matches_def)
      have "length (List.map_filter (bm_get (mc_candles c)) (minutes_between a b)) = length (minutes_between a b)"
        using full unfolding cached_range [OF okc st(2)] length_minutes_between [OF st(2) bm True] .
      note some = map_filter_full [OF this]
      have "bm_get (mc_candles c) t = ?D t" if t: "t \<in> set (minutes_between a b)" for t
        using some [OF t] mc minute [OF t] by (auto simp: cache_matches_def)
      from range [OF this okc] show ?thesis using full True p by (simp add: scan_candles_def sb c_def [symmetric] Let_def)
    next
      case False
      define missing where "missing = filter (\<lambda>ts. \<not> bm_contains (mc_candles c) ts) (minutes_between a b)"
      obtain rr s2 where sm: "scan_missing uc now s1 symbol missing = (rr, s2)" by (rule prod.exhaust)
      have i: "\<And>t. t \<in> set missing \<Longrightarrow> in_i64 t" using minute by (auto simp: missing_def)
      have cl: "\<And>t. t \<in> set missing \<Longrightarrow> closed_minute s1 now t \<and> in_i64 (t + minute_us)"
        using minute unfolding closed_minute_def s1(3) missing_def set_filter by blast
      have srt: "sorted_wrt (<) missing" unfolding missing_def by (intro sorted_wrt_filter minutes_sorted)
      have pre: "cd_readable (ks_db s1)" "since \<le> cutoff_us s1 now" "0 \<le> cutoff_us s1 now" using s1 ok since pos by simp_all
      note f1 = scan_missing_facts(1) [OF s1(1) ok(1) i sm, unfolded s1(2,4), folded rows_def]
      note f2 = scan_missing_facts(2) [OF s1(1) ok(1) i sm pre srt cl, unfolded s1(2,4), folded rows_def]
      have get: "bm_get (mc_candles (minute_cache_of s2 symbol)) t = ?D t" if t: "t \<in> set (minutes_between a b)" for t
      proof (cases "t \<in> set missing")
        case True
        then show ?thesis using f2 by simp
      next
        case False
        then obtain k where "bm_get (mc_candles c) t = Some k" using t by (auto simp: missing_def bm_contains_def)
        then have "bm_get (mc_candles c) t = ?D t" using mc minute [OF t] by (simp add: cache_matches_def)
        then show ?thesis using f1 loaded_get by blast
      qed
      have okc: "minute_cache_ok (minute_cache_of s2 symbol)"
        using coherentD(3) [of uc since s2 symbol] f1 by (simp add: cache_matches_def)
      have "fst (scan_candles uc now s symbol start end_ts) = rmap (\<lambda>_. cached_between s2 symbol a b) rr"
        using False True p sm by (simp add: scan_candles_def sb c_def [symmetric] missing_def [symmetric] s1_def [symmetric] Let_def)
      then show ?thesis using f2 range [OF get okc] by (simp add: rmap_def cached_between_def)
    qed
  qed
qed

subsection \<open>Pages\<close>

lemma put_candle:
  assumes rows: "rows_ok uc rows" and key: "candle_key uc symbol (kl_open_ts_us k) = Inr key"
    and typed: "kl_typed k" and valid: "kl_validate k = Inr ()"
  defines "rows' \<equiv> bm_insert key (kl_encode k) rows"
  shows "rows_ok uc rows'"
    and "disk_candle uc rows' s t = (if s = symbol \<and> t = kl_open_ts_us k then Some k else disk_candle uc rows s t)"
proof -
  have i: "in_i64 (kl_open_ts_us k)" using typed by (simp add: kl_typed_def)
  note dec = kl_decode_encode [OF typed valid]
  show "rows_ok uc rows'"
    using rows key i dec unfolding rows_ok_def rows'_def by (auto split: if_splits)
  show "disk_candle uc rows' s t = (if s = symbol \<and> t = kl_open_ts_us k then Some k else disk_candle uc rows s t)"
  proof (cases "s = symbol \<and> t = kl_open_ts_us k")
    case True
    then show ?thesis using i key dec by (simp add: disk_candle_def rows'_def)
  next
    case False
    have "k' \<noteq> key" if "candle_key uc s t = Inr k'" "in_i64 t" for k'
      using candle_key_inj [OF that(1) _ that(2) i, of uc symbol] key False by auto
    then show ?thesis using False by (auto simp: disk_candle_def rows'_def split: sum.splits)
  qed
qed

text \<open>The rows of a page.\<close>

definition page_rows :: "unicode \<Rightarrow> string \<Rightarrow> kline list \<Rightarrow> (bytes \<times> bytes) list" where
  "page_rows uc symbol ks = map (\<lambda>k. (projr (candle_key uc symbol (kl_open_ts_us k)), kl_encode k)) ks"

lemma page_batch:
  "rfold (page_row uc s symbol start end_ts cutoff) batch ks = Inr batch' \<Longrightarrow>
     batch' = batch @ page_rows uc symbol (filter (\<lambda>k. cutoff \<le> kl_open_ts_us k) ks)
     \<and> (\<forall>k \<in> set ks. kl_validate k = Inr () \<and> start \<le> kl_open_ts_us k \<and> kl_end_ts_us k \<le> end_ts
          \<and> (cutoff \<le> kl_open_ts_us k \<longrightarrow> \<not> isl (candle_key uc symbol (kl_open_ts_us k))))"
proof (induction ks arbitrary: batch)
  case Nil
  then show ?case by (simp add: page_rows_def)
next
  case (Cons k ks)
  from Cons.prems obtain b where b: "page_row uc s symbol start end_ts cutoff batch k = Inr b"
    "rfold (page_row uc s symbol start end_ts cutoff) b ks = Inr batch'" by (auto simp: rbind_Inr_iff)
  note IH = Cons.IH [OF b(2)]
  show ?case using IH b(1)
    by (auto simp: page_row_def page_rows_def rbind_Inr_iff rensure_Inr_iff rmap_Inr_iff split: if_splits)
qed

lemma put_page:
  assumes "rows_ok uc rows" and "cache_matches uc since rows symbol c"
    and "\<And>k. k \<in> set ks \<Longrightarrow> kl_typed k \<and> kl_validate k = Inr () \<and> \<not> isl (candle_key uc symbol (kl_open_ts_us k))"
  shows "rows_ok uc (bm_extend rows (page_rows uc symbol ks))
    \<and> cache_matches uc since (bm_extend rows (page_rows uc symbol ks)) symbol (foldl mc_insert c ks)
    \<and> (\<forall>s t. s \<noteq> symbol \<longrightarrow> disk_candle uc (bm_extend rows (page_rows uc symbol ks)) s t = disk_candle uc rows s t)"
  using assms
proof (induction ks arbitrary: rows c)
  case Nil
  then show ?case by (simp add: page_rows_def bm_extend_def)
next
  case (Cons k ks)
  have k: "kl_typed k" "kl_validate k = Inr ()" "\<not> isl (candle_key uc symbol (kl_open_ts_us k))" using Cons.prems(3) by simp_all
  then obtain key where key: "candle_key uc symbol (kl_open_ts_us k) = Inr key" by (cases "candle_key uc symbol (kl_open_ts_us k)") auto
  let ?rows = "bm_insert key (kl_encode k) rows"
  note put = put_candle [OF Cons.prems(1) key k(1,2)]
  have m: "cache_matches uc since ?rows symbol (mc_insert c k)"
    using Cons.prems(2) k(2) cache_ok_insert put(2) by (auto simp: cache_matches_def)
  have ext: "bm_extend rows (page_rows uc symbol (k # ks)) = bm_extend ?rows (page_rows uc symbol ks)"
    by (simp add: page_rows_def bm_extend_def key)
  have rest: "\<And>k. k \<in> set ks \<Longrightarrow> kl_typed k \<and> kl_validate k = Inr () \<and> \<not> isl (candle_key uc symbol (kl_open_ts_us k))"
    using Cons.prems(3) by simp
  show ?case unfolding ext foldl.simps using Cons.IH [OF put(1) m rest] put(2) by auto
qed

lemma cache_matches_cong:
  "(\<And>t. since \<le> t \<Longrightarrow> disk_candle uc rows symbol t = disk_candle uc rows' symbol t) \<Longrightarrow>
   cache_matches uc since rows symbol c = cache_matches uc since rows' symbol c"
  by (auto simp: cache_matches_def)

lemma save_page_keeps:
  assumes coh: "coherent uc since s" and typed: "\<And>k. k \<in> set ks \<Longrightarrow> kl_typed k"
    and r: "save_page uc now s symbol start end_ts ks = (r, s')"
  shows "coherent uc since s' \<and> cutoff_us s' = cutoff_us s"
proof (cases "rbind (rfold (page_row uc s symbol start end_ts (cutoff_us s now)) [] ks) (\<lambda>batch. write_rows batch (ks_db s))")
  case (Inl e)
  then show ?thesis using r coh by (auto simp: save_page_def Let_def)
next
  case (Inr db)
  let ?kept = "filter (\<lambda>k. cutoff_us s now \<le> kl_open_ts_us k) ks"
  let ?c = "foldl mc_insert (minute_cache_of s symbol) ?kept"
  from Inr obtain batch where b: "rfold (page_row uc s symbol start end_ts (cutoff_us s now)) [] ks = Inr batch"
    "write_rows batch (ks_db s) = Inr db" by (auto simp: rbind_Inr_iff)
  note pb = page_batch [OF b(1)]
  have rows: "cd_rows db = bm_extend (cd_rows (ks_db s)) (page_rows uc symbol ?kept)"
    using b(2) pb by (auto simp: write_rows_def split: if_splits)
  have ok: "\<And>k. k \<in> set ?kept \<Longrightarrow> kl_typed k \<and> kl_validate k = Inr () \<and> \<not> isl (candle_key uc symbol (kl_open_ts_us k))"
    using pb typed by auto
  have put: "rows_ok uc (cd_rows db) \<and> cache_matches uc since (cd_rows db) symbol ?c
    \<and> (\<forall>s' t. s' \<noteq> symbol \<longrightarrow> disk_candle uc (cd_rows db) s' t = disk_candle uc (cd_rows (ks_db s)) s' t)"
    unfolding rows by (rule put_page [OF coherentD(1) [OF coh] coherentD(3) [OF coh] ok])
  let ?s = "set_minute_cache symbol ?c (s\<lparr>ks_db := db\<rparr>)"
  have "s' = with_status (\<lambda>t. t\<lparr>st_fetched_candles := add_u64 (st_fetched_candles t) (length ks)\<rparr>)
      (if ks = [] then ?s else ?s\<lparr>ks_revision := add_u64 (ks_revision ?s) 1\<rparr>)"
    using r unfolding save_page_def Let_def Inr sum.case by simp
  then have s': "ks_db s' = db" "ks_minutes s' = bm_insert symbol ?c (ks_minutes s)" "ks_retain_days s' = ks_retain_days s"
    by (simp_all add: with_status_def set_minute_cache_def split: if_split)
  have "coherent uc since s'"
    unfolding coherent_def s'
  proof (intro conjI allI impI)
    show "rows_ok uc (cd_rows db)" by (rule put [THEN conjunct1])
    show "bm_wf (bm_insert symbol ?c (ks_minutes s))" using coherentD(2) [OF coh] by simp
    fix symbol' c' assume c': "bm_get (bm_insert symbol ?c (ks_minutes s)) symbol' = Some c'"
    show "cache_matches uc since (cd_rows db) symbol' c'"
    proof (cases "symbol' = symbol")
      case True
      then show ?thesis using put [THEN conjunct2, THEN conjunct1] c' by simp
    next
      case False
      then have "cache_matches uc since (cd_rows (ks_db s)) symbol' c'" using coh c' by (simp add: coherent_def)
      moreover have "disk_candle uc (cd_rows db) symbol' t = disk_candle uc (cd_rows (ks_db s)) symbol' t" for t
        using put [THEN conjunct2, THEN conjunct2] False by simp
      ultimately show ?thesis using cache_matches_cong [of since uc "cd_rows db" symbol' "cd_rows (ks_db s)"] by simp
    qed
  qed
  then show ?thesis using s'(3) by (simp add: cutoff_us_def fun_eq_iff)
qed

subsection \<open>Retention\<close>

definition expired_key :: "i64 \<Rightarrow> bytes \<Rightarrow> bool" where
  "expired_key cutoff k \<longleftrightarrow> be_signed64 (drop (length k - 8) k) < cutoff"

lemma bm_retain_retain: "bm_retain P (bm_retain Q m) = bm_retain (\<lambda>k v. P k v \<and> Q k v) m"
  unfolding bm_retain_def filter_filter by (rule filter_cong) auto

lemma bm_retain_True: "bm_retain (\<lambda>_ _. True) m = m"
  by (simp add: bm_retain_def)

text \<open>Whatever a cleanup deletes has expired, also when it fails half-way.\<close>

lemma prune_rows_deletes:
  assumes "\<forall>k \<in> set batch. expired_key cutoff k"
  shows "\<exists>dead. (\<forall>k \<in> set dead. expired_key cutoff k)
     \<and> snd (prune_rows cutoff db batch removed ks) = db\<lparr>cd_rows := bm_retain (\<lambda>k _. k \<notin> set dead) (cd_rows db)\<rparr>"
  using assms
proof (induction ks arbitrary: db batch removed)
  case Nil
  show ?case
  proof (cases "batch = [] \<or> \<not> cd_writable db")
    case True
    then have "snd (prune_rows cutoff db batch removed []) = db" by (auto simp: delete_rows_def)
    then show ?thesis by (intro exI [of _ "[]"]) (simp add: bm_retain_True)
  next
    case False
    then show ?thesis using Nil by (intro exI [of _ batch]) (simp add: delete_rows_def)
  qed
next
  case (Cons k ks)
  have same: "db = db\<lparr>cd_rows := bm_retain (\<lambda>k _. k \<notin> set []) (cd_rows db)\<rparr>" by (simp add: bm_retain_True)
  let ?expired = "be_signed64 (drop (length k - 8) k) < cutoff"
  define batch' where "batch' = (if ?expired then batch @ [k] else batch)"
  define removed' where "removed' = (if ?expired then removed + 1 else removed)"
  have all: "\<forall>k \<in> set batch'. expired_key cutoff k" using Cons.prems by (auto simp: batch'_def expired_key_def)
  consider "\<not> (9 \<le> length k \<and> length k = unat (hd k) + 9)"
    | "9 \<le> length k \<and> length k = unat (hd k) + 9" "4096 \<le> length batch'" "\<not> cd_writable db"
    | "9 \<le> length k \<and> length k = unat (hd k) + 9" "4096 \<le> length batch'" "cd_writable db"
    | "9 \<le> length k \<and> length k = unat (hd k) + 9" "\<not> 4096 \<le> length batch'" by blast
  then show ?case
  proof cases
    case 1
    then have "snd (prune_rows cutoff db batch removed (k # ks)) = db" by auto
    then show ?thesis using same by (metis empty_iff empty_set)
  next
    case 2
    then have "snd (prune_rows cutoff db batch removed (k # ks)) = db"
      by (simp add: Let_def batch'_def delete_rows_def)
    then show ?thesis using same by (metis empty_iff empty_set)
  next
    case 3
    let ?db = "db\<lparr>cd_rows := bm_retain (\<lambda>k _. k \<notin> set batch') (cd_rows db)\<rparr>"
    have "prune_rows cutoff db batch removed (k # ks) = prune_rows cutoff ?db [] removed' ks"
      using 3 by (simp add: Let_def batch'_def removed'_def delete_rows_def)
    moreover obtain dead where "\<forall>k \<in> set dead. expired_key cutoff k"
      "snd (prune_rows cutoff ?db [] removed' ks) = ?db\<lparr>cd_rows := bm_retain (\<lambda>k _. k \<notin> set dead) (cd_rows ?db)\<rparr>"
      using Cons.IH [of "[]" ?db removed'] by auto
    ultimately show ?thesis using all
      by (intro exI [of _ "dead @ batch'"]) (auto simp: bm_retain_retain)
  next
    case 4
    have "prune_rows cutoff db batch removed (k # ks) = prune_rows cutoff db batch' removed' ks"
      using 4 by (simp add: Let_def batch'_def removed'_def)
    then show ?thesis using Cons.IH [OF all] by simp
  qed
qed

lemma rows_ok_retain: "rows_ok uc rows \<Longrightarrow> rows_ok uc (bm_retain P rows)"
  unfolding rows_ok_def by (auto simp: bm_get_retain split: option.splits if_splits)

lemma disk_candle_retain:
  assumes rows: "rows_ok uc rows" and dead: "\<forall>k \<in> set dead. expired_key cutoff k" and t: "cutoff \<le> t"
  shows "disk_candle uc (bm_retain (\<lambda>k _. k \<notin> set dead) rows) s t = disk_candle uc rows s t"
proof -
  have "k \<notin> set dead" if "candle_key uc s t = Inr k" "in_i64 t" for k
    using dead key_length(2) [OF that(1)] t that(2) by (auto simp: expired_key_def be_signed64_time)
  moreover have "bm_wf rows" using rows by (simp add: rows_ok_def)
  ultimately show ?thesis by (auto simp: disk_candle_def bm_get_retain split: sum.splits option.splits)
qed

lemma prune_keeps:
  assumes coh: "coherent uc since s" and r: "prune now s = (r, s')"
  shows "coherent uc (max since (cutoff_us s now)) s' \<and> cutoff_us s' = cutoff_us s
    \<and> (\<forall>symbol t. cutoff_us s now \<le> t \<longrightarrow> disk_candle uc (cd_rows (ks_db s')) symbol t = disk_candle uc (cd_rows (ks_db s)) symbol t)"
proof -
  let ?cut = "cutoff_us s now"
  let ?rows = "cd_rows (ks_db s)"
  have mono: "cache_matches uc since ?rows symbol c \<Longrightarrow> cache_matches uc (max since ?cut) ?rows symbol c" for symbol c
    by (auto simp: cache_matches_def)
  show ?thesis
  proof (cases "cd_readable (ks_db s)")
    case False
    then have "s' = s" using r by (auto simp: prune_def Let_def)
    then show ?thesis using coh mono by (auto simp: coherent_def)
  next
    case True
    obtain dead where dead: "\<forall>k \<in> set dead. expired_key ?cut k"
      "snd (prune_rows ?cut (ks_db s) [] 0 (bm_keys ?rows)) = (ks_db s)\<lparr>cd_rows := bm_retain (\<lambda>k _. k \<notin> set dead) ?rows\<rparr>"
      using prune_rows_deletes [of "[]" ?cut "ks_db s" 0 "bm_keys ?rows"] by auto
    note rows = coherentD(1) [OF coh]
    have db: "ks_db s' = (ks_db s)\<lparr>cd_rows := bm_retain (\<lambda>k _. k \<notin> set dead) ?rows\<rparr>"
      and days: "ks_retain_days s' = ks_retain_days s"
      and minutes: "ks_minutes s' = ks_minutes s \<or> ks_minutes s' = bm_map (\<lambda>c. mc_prune c ?cut) (ks_minutes s)"
      using r True dead(2) by (auto simp: prune_def Let_def split: prod.splits sum.splits if_splits)
    have disk: "?cut \<le> t \<Longrightarrow> disk_candle uc (cd_rows (ks_db s')) symbol t = disk_candle uc ?rows symbol t" for symbol t
      unfolding db by (simp add: disk_candle_retain [OF rows dead(1)])
    have m: "cache_matches uc (max since ?cut) (cd_rows (ks_db s')) symbol c"
      if "cache_matches uc since ?rows symbol c" for symbol c
      using cache_matches_cong [of "max since ?cut" uc "cd_rows (ks_db s')" symbol ?rows] disk mono [OF that] by simp
    have p: "cache_matches uc since' rows symbol c \<Longrightarrow> cache_matches uc since' rows symbol (mc_prune c ?cut)" for since' rows symbol c
      using cache_ok_prune cache_okD(1) [of c]
      by (auto simp: cache_matches_def) (auto simp: mc_prune_def bm_get_retain split: option.splits if_splits)
    have "rows_ok uc (cd_rows (ks_db s'))" unfolding db using rows by (simp add: rows_ok_retain)
    then have "coherent uc (max since ?cut) s'"
      using minutes coh m p unfolding coherent_def by (auto split: option.splits)
    then show ?thesis using disk days by (simp add: cutoff_us_def fun_eq_iff)
  qed
qed

subsection \<open>The store in operation\<close>

text \<open>
  A store opened on a well-formed table, its operations at later and later readings of the clock, a
  database that may stop and resume answering, and counters that others move.
\<close>

inductive kline_reach :: "unicode \<Rightarrow> kline_store \<Rightarrow> i64 \<Rightarrow> bool" for uc where
  opened: "rows_ok uc (cd_rows (ks_db s)) \<Longrightarrow> ks_minutes s = [] \<Longrightarrow> in_i64 clock \<Longrightarrow> kline_reach uc s clock"
| reads: "kline_reach uc s clock \<Longrightarrow> clock \<le> now \<Longrightarrow> in_i64 now \<Longrightarrow> list_all in_i64 opens \<Longrightarrow>
    read_minutes uc now s symbol opens = (r, s') \<Longrightarrow> kline_reach uc s' now"
| gets: "kline_reach uc s clock \<Longrightarrow> clock \<le> now \<Longrightarrow> in_i64 now \<Longrightarrow> in_i64 ts \<Longrightarrow>
    kl_get uc now s symbol ts = (k, s') \<Longrightarrow> kline_reach uc s' now"
| prices: "kline_reach uc s clock \<Longrightarrow> clock \<le> now \<Longrightarrow> in_i64 now \<Longrightarrow> in_i64 ts \<Longrightarrow>
    window_prices uc now s symbol ts model = (p, s') \<Longrightarrow> kline_reach uc s' now"
| scans: "kline_reach uc s clock \<Longrightarrow> clock \<le> now \<Longrightarrow> in_i64 now \<Longrightarrow>
    scan_candles uc now s symbol start end_ts = (ks, s') \<Longrightarrow> kline_reach uc s' now"
| saves: "kline_reach uc s clock \<Longrightarrow> clock \<le> now \<Longrightarrow> in_i64 now \<Longrightarrow> list_all kl_typed page \<Longrightarrow>
    save_page uc now s symbol start end_ts page = (u, s') \<Longrightarrow> kline_reach uc s' now"
| prunes: "kline_reach uc s clock \<Longrightarrow> clock \<le> now \<Longrightarrow> in_i64 now \<Longrightarrow> prune now s = (n, s') \<Longrightarrow> kline_reach uc s' now"
| answers: "kline_reach uc s clock \<Longrightarrow>
    kline_reach uc (s\<lparr>ks_db := (ks_db s)\<lparr>cd_readable := answering, cd_writable := writing\<rparr>\<rparr>) clock"
| counts: "kline_reach uc s clock \<Longrightarrow> kline_reach uc (s\<lparr>ks_status := status\<rparr>) clock"

lemma cutoff_mono: "t \<le> u \<Longrightarrow> cutoff_us s t \<le> cutoff_us s u"
  by (auto simp: cutoff_us_def sat64_def)

lemma coherent_mono: "coherent uc since s \<Longrightarrow> since \<le> since' \<Longrightarrow> coherent uc since' s"
  by (fastforce simp: coherent_def cache_matches_def)

text \<open>From the cutoff of the clock on, the caches agree with the table.\<close>

lemma reach_coherent: "kline_reach uc s clock \<Longrightarrow> in_i64 clock \<and> coherent uc (cutoff_us s clock) s"
proof (induction rule: kline_reach.induct)
  case (opened s clock)
  then show ?case by (simp add: coherent_def)
next
  case (reads s clock now opens symbol r s')
  have i: "\<And>t. t \<in> set opens \<Longrightarrow> in_i64 t" using reads(4) by (simp add: list_all_iff)
  note f = read_minutes_facts(1,3) [OF conjunct2 [OF reads(6)] i reads(5)]
  then show ?case using coherent_mono [OF f(1)] cutoff_mono [OF reads(2)] reads(3) by simp
next
  case (gets s clock now ts symbol k s')
  show ?case
  proof (cases "ts < cutoff_us s now \<or> now < wrap64 (ts + minute_us)")
    case True
    then show ?thesis using gets coherent_mono [OF conjunct2 [OF gets(6)]] cutoff_mono [OF gets(2)] by (auto simp: kl_get_def)
  next
    case False
    obtain r where rd: "read_minutes uc now s symbol [ts] = (r, s')" using gets(5) False by (auto simp: kl_get_def split: prod.splits)
    have i: "\<And>t. t \<in> set [ts] \<Longrightarrow> in_i64 t" using gets(4) by simp
    note f = read_minutes_facts(1,3) [OF conjunct2 [OF gets(6)] i rd]
    then show ?thesis using coherent_mono [OF f(1)] cutoff_mono [OF gets(2)] gets(3) by simp
  qed
next
  case (prices s clock now ts symbol model p s')
  note f = window_prices_keeps [OF conjunct2 [OF prices(6)] prices(4,5)]
  then show ?case using coherent_mono [OF conjunct1 [OF f]] cutoff_mono [OF prices(2)] prices(3) by simp
next
  case (scans s clock now symbol start end_ts ks s')
  note f = scan_keeps [OF conjunct2 [OF scans(5)] scans(3,4)]
  then show ?case using coherent_mono [OF conjunct1 [OF f]] cutoff_mono [OF scans(2)] scans(3) by simp
next
  case (saves s clock now page symbol start end_ts u s')
  have t: "\<And>k. k \<in> set page \<Longrightarrow> kl_typed k" using saves(4) by (simp add: list_all_iff)
  note f = save_page_keeps [OF conjunct2 [OF saves(6)] t saves(5)]
  then show ?case using coherent_mono [OF conjunct1 [OF f]] cutoff_mono [OF saves(2)] saves(3) by simp
next
  case (prunes s clock now n s')
  note f = prune_keeps [OF conjunct2 [OF prunes(5)] prunes(4)]
  have "max (cutoff_us s clock) (cutoff_us s now) = cutoff_us s now" using cutoff_mono [OF prunes(2)] by simp
  then show ?case using f prunes(3) by simp
next
  case (answers s clock answering writing)
  then show ?case by (simp add: coherent_def cutoff_us_def)
next
  case (counts s clock status)
  then show ?case by (simp add: coherent_def cutoff_us_def)
qed

lemma reach_later: "kline_reach uc s clock \<Longrightarrow> clock \<le> now \<Longrightarrow> coherent uc (cutoff_us s now) s"
  using reach_coherent coherent_mono cutoff_mono by blast

text \<open>
  C11: Theoretical prices come from the table alone. Whatever reads, page writes, cleanups and database
  failures went before, and whatever the caches of candles and of priced windows hold from them, pricing
  a closed window inside the retention gives exactly the schedule computed from the candles stored now.
\<close>

theorem window_priced_from_table:
  assumes "kline_reach uc s clock" and "clock \<le> now" and "in_i64 now" and "in_i64 ts"
    and "key_prefix uc symbol = Inr p" and "cd_readable (ks_db s)"
    and "cutoff_us s now \<le> ts" and "ts + int (sample_count model) * minute_us \<le> now"
  shows "fst (window_prices uc now s symbol ts model) = price_window (disk_candle uc (cd_rows (ks_db s)) symbol) ts model"
  by (rule window_prices_disk [OF reach_later [OF assms(1,2)] order_refl _ assms(6,4,3,7,8)]) (simp add: assms(5))

text \<open>
  C12: A scan is the table. After any history of the store, scanning a range that ends on a minute gives,
  in order of time, exactly the stored candles of the closed minutes of the range inside the retention,
  whether it is served from memory, by single reads or by a pass over the rows.
\<close>

theorem scan_reads_table:
  assumes "kline_reach uc s clock" and "clock \<le> now" and "in_i64 now" and "in_i64 start"
    and "key_prefix uc symbol = Inr p" and "cd_readable (ks_db s)" and "0 \<le> cutoff_us s now" and "end_ts mod minute_us = 0"
  shows "fst (scan_candles uc now s symbol start end_ts) =
    Inr (disk_between uc (cd_rows (ks_db s)) symbol (first_complete_open (max start (cutoff_us s now)))
           (min end_ts (now div minute_us * minute_us)))"
  by (rule scan_table [OF reach_later [OF assms(1,2)] order_refl assms(7) _ assms(6,3,4,8)]) (simp add: assms(5))

text \<open>
  C13: A stored candle is the candle that was saved: decoding the 56 bytes a valid candle is encoded to,
  under its minute, gives it back with every price, volume and count bit for bit.
\<close>

theorem candle_roundtrip:
  assumes "kl_typed k" and "kl_validate k = Inr ()"
  shows "kl_decode (kl_open_ts_us k) (kl_encode k) = Inr k"
  by (rule kl_decode_encode [OF assms])

text \<open>
  C14: Cleanup never takes a candle that is still retained. However it ends, also when a batch cannot be
  written or a malformed key stops it half-way, every candle from the cutoff on reads as before.
\<close>

theorem prune_keeps_retained:
  assumes "kline_reach uc s clock" and "cutoff_us s now \<le> t"
  shows "disk_candle uc (cd_rows (ks_db (snd (prune now s)))) symbol t = disk_candle uc (cd_rows (ks_db s)) symbol t"
proof -
  obtain r s' where r: "prune now s = (r, s')" by (rule prod.exhaust)
  show ?thesis using prune_keeps [OF conjunct2 [OF reach_coherent [OF assms(1)]] r] assms(2) r by simp
qed

subsection \<open>Instances\<close>

definition ascii_unicode :: unicode where
  "ascii_unicode = \<lparr>uc_upper = ascii_upper, uc_alnum = (\<lambda>_. False)\<rparr>"

definition sample_candle :: "i64 \<Rightarrow> kline" where
  "sample_candle ts = \<lparr>kl_open_ts_us = ts, kl_open = 1, kl_high = 1, kl_low = 1, kl_close = 1, kl_base_volume = 1,
     kl_quote_volume = 1, kl_trades = 7\<rparr>"

definition sample_minute :: i64 where
  "sample_minute = 2592060000000"

definition btc_key :: bytes where
  "btc_key = (3 :: 8 word) # utf8 ''BTC'' @ time_bytes sample_minute"

definition sample_store :: kline_store where
  "sample_store =
     \<lparr>ks_enabled = True, ks_retain_days = 30,
      ks_db = \<lparr>cd_readable = True, cd_writable = True, cd_rows = [(btc_key, kl_encode (sample_candle sample_minute))]\<rparr>,
      ks_minutes = [], ks_revision = 0,
      ks_status = \<lparr>st_requests = 0, st_fetched_candles = 0, st_cache_hits = 0, st_active_backfills = 0, st_last_error = None,
        st_disk_range_reads = 0, st_disk_batch_reads = 0, st_memory_candle_hits = 0, st_pricing_cache_hits = 0\<rparr>\<rparr>"

lemma sample_prefix: "key_prefix ascii_unicode ''BTC'' = Inr ((3 :: 8 word) # utf8 ''BTC'')"
  by code_simp

lemma one_facts: "NaN \<noteq> 1" "1 \<noteq> NaN" "(1 :: f64) \<le> 1" "0 \<le> (1 :: f64)" "f_max 1 1 = 1" "f_min 1 1 = 1"
  by (simp_all add: f_max_def f_min_def f64_ops)

lemma sample_facts:
  "kl_typed (sample_candle sample_minute)" "kl_validate (sample_candle sample_minute) = Inr ()"
  "kl_open_ts_us (sample_candle sample_minute) = sample_minute"
  by (simp_all add: kl_typed_def kl_validate_Inr sample_candle_def sample_minute_def in_i64_def i64_min_def i64_max_def
      minute_us_def one_facts)

lemma btc_key_of: "candle_key ascii_unicode ''BTC'' sample_minute = Inr btc_key"
  by (simp add: candle_key_def sample_prefix btc_key_def)

lemma sample_table:
  "rows_ok ascii_unicode (cd_rows (ks_db sample_store))"
  "disk_candle ascii_unicode (cd_rows (ks_db sample_store)) ''BTC'' sample_minute = Some (sample_candle sample_minute)"
  using put_candle [of ascii_unicode "[]" "''BTC''" "sample_candle sample_minute" btc_key] sample_facts btc_key_of
  by (simp_all add: rows_ok_def sample_store_def)

lemma sample_reach: "kline_reach ascii_unicode sample_store (sample_minute + minute_us)"
  by (rule opened [OF sample_table(1)]) (simp_all add: sample_store_def sample_minute_def minute_us_def in_i64_def i64_min_def i64_max_def)

lemma sample_cutoff: "cutoff_us sample_store (sample_minute + minute_us) = 120000000"
  by (simp add: cutoff_us_def sample_store_def sample_minute_def minute_us_def day_us_def wrap64_def sat64_def i64_min_def i64_max_def)

theorem window_priced_from_table_witness:
  "fst (window_prices ascii_unicode (sample_minute + minute_us) sample_store ''BTC'' sample_minute InstantTaker)
     = Inr (Some (instant_schedule (sample_candle sample_minute)))"
proof -
  have "fst (window_prices ascii_unicode (sample_minute + minute_us) sample_store ''BTC'' sample_minute InstantTaker)
     = price_window (disk_candle ascii_unicode (cd_rows (ks_db sample_store)) ''BTC'') sample_minute InstantTaker"
    by (rule window_priced_from_table [OF sample_reach order_refl _ _ sample_prefix])
      (simp_all add: sample_cutoff, simp_all add: sample_store_def sample_minute_def minute_us_def in_i64_def i64_min_def i64_max_def)
  then show ?thesis by (simp add: price_window_def sample_table(2))
qed

theorem scan_reads_table_witness:
  "fst (scan_candles ascii_unicode (sample_minute + minute_us) sample_store ''BTC'' sample_minute (sample_minute + minute_us))
     = Inr [sample_candle sample_minute]"
proof -
  have b: "first_complete_open (max sample_minute (cutoff_us sample_store (sample_minute + minute_us))) = sample_minute"
    "min (sample_minute + minute_us) ((sample_minute + minute_us) div minute_us * minute_us) = sample_minute + minute_us"
    "minutes_between sample_minute (sample_minute + minute_us) = [sample_minute]"
    by (simp_all add: sample_cutoff, simp_all add: first_complete_open_def minutes_between_def sample_minute_def minute_us_def
        wrap64_def sat64_def i64_min_def i64_max_def)
  have "fst (scan_candles ascii_unicode (sample_minute + minute_us) sample_store ''BTC'' sample_minute (sample_minute + minute_us))
    = Inr (disk_between ascii_unicode (cd_rows (ks_db sample_store)) ''BTC''
        (first_complete_open (max sample_minute (cutoff_us sample_store (sample_minute + minute_us))))
        (min (sample_minute + minute_us) ((sample_minute + minute_us) div minute_us * minute_us)))"
    by (rule scan_reads_table [OF sample_reach order_refl _ _ sample_prefix])
      (simp_all add: sample_cutoff, simp_all add: sample_store_def sample_minute_def minute_us_def in_i64_def i64_min_def i64_max_def)
  then show ?thesis unfolding b disk_between_def by (simp add: List.map_filter_simps sample_table(2))
qed

theorem candle_roundtrip_witness:
  "kl_decode sample_minute (kl_encode (sample_candle sample_minute)) = Inr (sample_candle sample_minute)"
  using candle_roundtrip [OF sample_facts(1,2)] by (simp add: sample_facts(3))

theorem prune_keeps_retained_witness:
  "disk_candle ascii_unicode (cd_rows (ks_db (snd (prune (sample_minute + minute_us) sample_store)))) ''BTC'' sample_minute
     = Some (sample_candle sample_minute)"
proof -
  have "cutoff_us sample_store (sample_minute + minute_us) \<le> sample_minute" unfolding sample_cutoff by (simp add: sample_minute_def)
  from prune_keeps_retained [OF sample_reach this, of "''BTC''"] show ?thesis by (simp add: sample_table(2))
qed

end
