(* ===== verification/CandleFetch.thy ===== *)
theory CandleFetch
  imports CandleStore
begin

text \<open>
  Filling the table of candles (\<open>kline.rs\<close>): the budget of request weight over every rolling minute,
  the candles of an exchange response, and the backfill of what is missing in a range. Requests are
  answered by a feed, a parameter, whose counter of requests is not kept; one reading of the clock
  stands for those of a response.
\<close>

subsection \<open>The weight of requests\<close>

text \<open>\<open>tokio::time::Instant\<close> is a natural number of nanoseconds, as in \<open>RateLimit\<close>. A panic is an error.\<close>

datatype gate_panic = WeightAboveBudget | NothingToExpire

record weight_gate =
  wg_reservations :: "(nat \<times> nat) list"
  wg_used :: nat
  wg_blocked_until :: nat

definition gate_window :: nat where
  "gate_window = 60 * 1000000000"

definition sub_u32 :: "nat \<Rightarrow> nat \<Rightarrow> nat" where
  "sub_u32 a b = (a + 2 ^ 32 - b) mod 2 ^ 32"

definition add_u32 :: "nat \<Rightarrow> nat \<Rightarrow> nat" where
  "add_u32 a b = (a + b) mod 2 ^ 32"

fun expire_reservations :: "nat \<Rightarrow> nat \<Rightarrow> (nat \<times> nat) list \<Rightarrow> nat \<times> (nat \<times> nat) list" where
  "expire_reservations now used [] = (used, [])"
| "expire_reservations now used ((made, expired) # rest) =
     (if now < made + gate_window then (used, (made, expired) # rest)
      else expire_reservations now (sub_u32 used expired) rest)"

fun release_at :: "nat \<Rightarrow> nat \<Rightarrow> nat \<Rightarrow> (nat \<times> nat) list \<Rightarrow> nat option" where
  "release_at weight budget remaining [] = None"
| "release_at weight budget remaining ((made, reserved) # rest) =
     (if add_u32 (sub_u32 remaining reserved) weight \<le> budget then Some (made + gate_window)
      else release_at weight budget (sub_u32 remaining reserved) rest)"

text \<open>\<open>None\<close>: the request may go out now; otherwise the instant to try again.\<close>

definition gate_reserve :: "weight_gate \<Rightarrow> nat \<Rightarrow> nat \<Rightarrow> nat \<Rightarrow> gate_panic + nat option \<times> weight_gate" where
  "gate_reserve g now weight budget =
     rbind (rensure (weight \<le> budget) WeightAboveBudget) (\<lambda>_.
     let (used, reservations) = expire_reservations now (wg_used g) (wg_reservations g);
         g = g\<lparr>wg_used := used, wg_reservations := reservations\<rparr>
     in if now < wg_blocked_until g then Inr (Some (wg_blocked_until g), g)
        else if add_u32 used weight \<le> budget
        then Inr (None, g\<lparr>wg_reservations := reservations @ [(now, weight)], wg_used := add_u32 used weight\<rparr>)
        else rmap (\<lambda>ready. (Some ready, g)) (of_option NothingToExpire (release_at weight budget used reservations)))"

text \<open>What a refusal of an exchange does to the gate.\<close>

definition binance_limited :: "weight_gate \<Rightarrow> nat \<Rightarrow> string option \<Rightarrow> weight_gate" where
  "binance_limited g now retry_after =
     (let seconds = max 1 (case (case retry_after of None \<Rightarrow> None | Some text \<Rightarrow> parse_unsigned u64_max text) of None \<Rightarrow> 120 | Some n \<Rightarrow> n)
      in g\<lparr>wg_blocked_until := max (wg_blocked_until g) (now + seconds * 1000000000)\<rparr>)"

definition okex_limited :: "weight_gate \<Rightarrow> nat \<Rightarrow> weight_gate" where
  "okex_limited g now = g\<lparr>wg_blocked_until := now + gate_window\<rparr>"

subsection \<open>Exchange responses\<close>

text \<open>\<open>Value::as_i64\<close> and \<open>Value::as_u64\<close> of \<open>serde_json\<close>.\<close>

record json_integers =
  ji_i64 :: "json \<Rightarrow> i64 option"
  ji_u64 :: "json \<Rightarrow> nat option"

definition json_array :: "json \<Rightarrow> json list option" where
  "json_array j = (case j of JArray xs \<Rightarrow> Some xs | _ \<Rightarrow> None)"

definition candle_number :: "json list \<Rightarrow> nat \<Rightarrow> candle_error + f64" where
  "candle_number row index =
     of_option (FetchFailed ''candle number'') (case json_str (row ! index) of None \<Rightarrow> None | Some s \<Rightarrow> parse_f64 s)"

definition checked_ms :: "i64 \<Rightarrow> candle_error + i64" where
  "checked_ms ms = rbind (rensure (in_i64 (ms * 1000)) (FetchFailed ''candle time overflow'')) (\<lambda>_. Inr (ms * 1000))"

definition parse_candle :: "json_integers \<Rightarrow> json \<Rightarrow> candle_error + kline" where
  "parse_candle ji raw =
     rbind (of_option (FetchFailed ''candle row'') (json_array raw)) (\<lambda>row.
     rbind (rensure (9 \<le> length row) (FetchFailed ''short candle row'')) (\<lambda>_.
     rbind (of_option (FetchFailed ''candle open time'') (ji_i64 ji (row ! 0))) (\<lambda>open_ms.
     rbind (checked_ms open_ms) (\<lambda>ts.
     rbind (candle_number row 1) (\<lambda>op. rbind (candle_number row 2) (\<lambda>hi.
     rbind (candle_number row 3) (\<lambda>lo. rbind (candle_number row 4) (\<lambda>cl.
     rbind (candle_number row 5) (\<lambda>base. rbind (candle_number row 7) (\<lambda>quot.
     rbind (of_option (FetchFailed ''trade count'') (ji_u64 ji (row ! 8))) (\<lambda>trades.
     let candle = \<lparr>kl_open_ts_us = ts, kl_open = op, kl_high = hi, kl_low = lo, kl_close = cl,
                   kl_base_volume = base, kl_quote_volume = quot, kl_trades = trades\<rparr>
     in rbind (kl_validate candle) (\<lambda>_.
        rbind (rensure (ji_i64 ji (row ! 6) = Some (wrap64 (open_ms + 59999))) (FetchFailed ''candle span'')) (\<lambda>_.
        Inr candle)))))))))))))"

definition okex_instrument :: "unicode \<Rightarrow> string \<Rightarrow> string \<Rightarrow> candle_error + string" where
  "okex_instrument uc venue symbol =
     (let quot = (if ends_with ''USDT'' symbol then ''USDT'' else if ends_with ''USDC'' symbol then ''USDC'' else ''USDT'')
      in rbind (if venue = ''okex-futures'' then of_option (FetchFailed ''linear symbol'') (strip_suffix quot symbol) else Inr symbol) (\<lambda>base.
         rbind (rmap_err (\<lambda>_. CandleSymbol) (validate_exec_symbol uc base)) (\<lambda>_.
         rbind (rensure (base \<noteq> []) CandleSymbol) (\<lambda>_.
         Inr (base @ ''-'' @ quot @ (if venue = ''okex-futures'' then ''-SWAP'' else []))))))"

definition parse_okex_candle :: "string \<Rightarrow> json \<Rightarrow> candle_error + kline" where
  "parse_okex_candle venue raw =
     rbind (of_option (FetchFailed ''candle row'') (json_array raw)) (\<lambda>row.
     rbind (rensure (length row = 9 \<and> json_str (row ! 8) = Some ''1'') (FetchFailed ''unconfirmed candle'')) (\<lambda>_.
     rbind (of_option (FetchFailed ''candle time'') (case json_str (row ! 0) of None \<Rightarrow> None | Some s \<Rightarrow> parse_i64 s)) (\<lambda>ms.
     rbind (checked_ms ms) (\<lambda>ts.
     rbind (candle_number row 1) (\<lambda>op. rbind (candle_number row 2) (\<lambda>hi.
     rbind (candle_number row 3) (\<lambda>lo. rbind (candle_number row 4) (\<lambda>cl.
     rbind (candle_number row (if venue = ''okex-futures'' then 6 else 5)) (\<lambda>base. rbind (candle_number row 7) (\<lambda>quot.
     let candle = \<lparr>kl_open_ts_us = ts, kl_open = op, kl_high = hi, kl_low = lo, kl_close = cl,
                   kl_base_volume = base, kl_quote_volume = quot, kl_trades = 0\<rparr>
     in rbind (kl_validate candle) (\<lambda>_. Inr candle)))))))))))"

text \<open>The rows of one response: each a closed candle of the requested range.\<close>

definition page_candles :: "(json \<Rightarrow> candle_error + kline) \<Rightarrow> i64 \<Rightarrow> i64 \<Rightarrow> i64 \<Rightarrow> json list \<Rightarrow> candle_error + kline list" where
  "page_candles parse now start end_ts rows =
     rmapM (\<lambda>row. rbind (parse row) (\<lambda>candle.
       rbind (rensure (start \<le> kl_open_ts_us candle \<and> kl_end_ts_us candle \<le> end_ts \<and> kl_end_ts_us candle \<le> now) CandleOutsidePage) (\<lambda>_.
       Inr candle))) rows"

definition distinct_page :: "kline list \<Rightarrow> candle_error + kline list" where
  "distinct_page candles =
     (let page = sort_key kl_open_ts_us candles
      in rbind (rensure (sorted_wrt (<) (map kl_open_ts_us page)) (FetchFailed ''duplicate candle'')) (\<lambda>_. Inr page))"

definition binance_page :: "json_integers \<Rightarrow> i64 \<Rightarrow> i64 \<Rightarrow> i64 \<Rightarrow> json list \<Rightarrow> candle_error + kline list" where
  "binance_page ji now start end_ts rows = rbind (page_candles (parse_candle ji) now start end_ts rows) distinct_page"

text \<open>OKX serves at most 300 candles: blocks from the end of the range behind to its start.\<close>

function okex_blocks :: "string \<Rightarrow> (i64 \<Rightarrow> i64 \<Rightarrow> candle_error + json) \<Rightarrow> (i64 \<Rightarrow> i64) \<Rightarrow> i64 \<Rightarrow> i64 \<Rightarrow> kline list \<Rightarrow> candle_error + kline list" where
  "okex_blocks venue http now start edge candles =
     (if edge \<le> start then Inr candles
      else
        let block = max (edge - 300 * minute_us) start
        in rbind (http block edge) (\<lambda>body.
           rbind (rensure (json_str (json_at body ''code'') = Some ''0'') (FetchFailed ''OKX error'')) (\<lambda>_.
           rbind (of_option (FetchFailed ''missing candles'') (json_array (json_at body ''data''))) (\<lambda>rows.
           rbind (page_candles (parse_okex_candle venue) (now edge) block edge rows) (\<lambda>page.
           okex_blocks venue http now start block (candles @ page))))))"
  by pat_completeness auto
termination
  by (relation "measure (\<lambda>(venue, http, now, start, edge, candles). nat (edge - start))") (auto simp: minute_us_def)

declare okex_blocks.simps [simp del]

definition okex_page :: "string \<Rightarrow> (i64 \<Rightarrow> i64 \<Rightarrow> candle_error + json) \<Rightarrow> (i64 \<Rightarrow> i64) \<Rightarrow> i64 \<Rightarrow> i64 \<Rightarrow> candle_error + kline list" where
  "okex_page venue http now start end_ts = rbind (okex_blocks venue http now start end_ts []) distinct_page"

subsection \<open>Filling what is missing\<close>

definition page_limit :: int where
  "page_limit = 499"

text \<open>The start of the page of missing minutes that ends at \<open>last\<close>.\<close>

function page_start :: "i64 list \<Rightarrow> i64 \<Rightarrow> i64 \<Rightarrow> i64 \<Rightarrow> i64" where
  "page_start existing start page_end edge =
     (if start < edge \<and> (page_end - edge) div minute_us < page_limit \<and> edge - minute_us \<notin> set existing
      then page_start existing start page_end (edge - minute_us) else edge)"
  by pat_completeness auto
termination
  by (relation "measure (\<lambda>(existing, start, page_end, edge). nat (edge - start))") (auto simp: minute_us_def)

declare page_start.simps [simp del]

lemma page_start_le: "page_start existing start page_end edge \<le> edge"
proof (induction existing start page_end edge rule: page_start.induct)
  case (1 existing start page_end edge)
  then show ?case by (subst page_start.simps) (auto simp: minute_us_def)
qed

text \<open>The feed: what a request for a page returns, and the clock when its candles are saved.\<close>

record feed =
  fd_page :: "i64 \<Rightarrow> i64 \<Rightarrow> candle_error + kline list"
  fd_saved_at :: "i64 \<Rightarrow> i64"

function fill_pages ::
    "unicode \<Rightarrow> feed \<Rightarrow> string \<Rightarrow> i64 list \<Rightarrow> i64 \<Rightarrow> i64 \<Rightarrow> kline_store \<Rightarrow> (candle_error + unit) \<times> kline_store" where
  "fill_pages uc fd symbol existing start edge s =
     (if edge \<le> start then (Inr (), s)
      else if edge - minute_us \<in> set existing then fill_pages uc fd symbol existing start (edge - minute_us) s
      else
        let first = page_start existing start edge (edge - minute_us)
        in case fd_page fd first edge of
             Inl e \<Rightarrow> (Inl e, with_status (\<lambda>t. t\<lparr>st_last_error := Some e\<rparr>) s)
           | Inr candles \<Rightarrow>
               (case save_page uc (fd_saved_at fd first) s symbol first edge candles of
                  (Inl e, s) \<Rightarrow> (Inl e, s)
                | (Inr _, s) \<Rightarrow> fill_pages uc fd symbol existing start first (with_status (\<lambda>t. t\<lparr>st_last_error := None\<rparr>) s)))"
  by pat_completeness auto
termination
proof (relation "measure (\<lambda>(uc, fd, symbol, existing, start, edge, s). nat (edge - start))", goal_cases)
  case (3 uc fd symbol existing start edge)
  then show ?case using page_start_le [of existing start edge "edge - minute_us"] by (simp add: minute_us_def)
qed (auto simp: minute_us_def)

declare fill_pages.simps [simp del]

definition fill_missing ::
    "unicode \<Rightarrow> i64 \<Rightarrow> feed \<Rightarrow> kline_store \<Rightarrow> string \<Rightarrow> i64 \<Rightarrow> i64 \<Rightarrow> (candle_error + unit) \<times> kline_store" where
  "fill_missing uc now fd s symbol start end_ts =
     (case scan_candles uc now s symbol start end_ts of
        (Inl e, s) \<Rightarrow> (Inl e, s)
      | (Inr bars, s) \<Rightarrow> fill_pages uc fd symbol (map kl_open_ts_us bars) start end_ts s)"

subsection \<open>Backfilling a range\<close>

definition closed_range :: "unicode \<Rightarrow> i64 \<Rightarrow> kline_store \<Rightarrow> string \<Rightarrow> i64 \<Rightarrow> i64 \<Rightarrow> candle_error + i64 \<times> i64" where
  "closed_range uc now s symbol start end_ts =
     rbind (rensure (ks_enabled s) AnalysisDisabled) (\<lambda>_.
     rbind (key_prefix uc symbol) (\<lambda>_.
     rbind (rensure (cutoff_us s now \<le> start) BeyondRetention) (\<lambda>_.
     Inr (first_complete_open start, min (first_complete_open end_ts) (now div minute_us * minute_us)))))"

text \<open>
  Blocks of a day from the end of the range backwards; \<open>clock i\<close> is the clock at the start of block \<open>i\<close> and
  \<open>fd i\<close> the feed during it. The loop need not end: not returning is \<open>None\<close>.
\<close>

partial_function (option) backfill ::
    "unicode \<Rightarrow> (nat \<Rightarrow> i64) \<Rightarrow> (nat \<Rightarrow> feed) \<Rightarrow> string \<Rightarrow> i64 \<Rightarrow> nat \<Rightarrow> i64 \<Rightarrow> kline_store \<Rightarrow> ((candle_error + unit) \<times> kline_store) option" where
  "backfill uc clock fd symbol start i block_end s =
     (if block_end \<le> start then Some (Inr (), s)
      else
        let block_start = first_complete_open (max (block_end - day_us) (cutoff_us s (clock i)))
        in case fill_missing uc (clock i) (fd i) s symbol block_start block_end of
             (Inl e, s) \<Rightarrow> Some (Inl e, s)
           | (Inr _, s) \<Rightarrow> backfill uc clock fd symbol start (i + 1) block_start s)"

definition all_cached :: "unicode \<Rightarrow> i64 \<Rightarrow> kline_store \<Rightarrow> string \<Rightarrow> i64 \<Rightarrow> i64 \<Rightarrow> (candle_error + bool) \<times> kline_store" where
  "all_cached uc now s symbol start end_ts =
     (case scan_candles uc now s symbol start end_ts of
        (r, s) \<Rightarrow> (rmap (\<lambda>bars. length bars = nat ((end_ts - start) div minute_us)) r, s))"

definition count_cache_hit :: "kline_store \<Rightarrow> kline_store" where
  "count_cache_hit = with_status (\<lambda>t. t\<lparr>st_cache_hits := add_u64 (st_cache_hits t) 1\<rparr>)"

text \<open>
  The range is looked up before waiting for the other backfills of the market and again after; the
  number of backfills under way is raised meanwhile and lowered on every way out.
\<close>

definition ensure_range ::
    "unicode \<Rightarrow> i64 \<Rightarrow> (nat \<Rightarrow> i64) \<Rightarrow> (nat \<Rightarrow> feed) \<Rightarrow> kline_store \<Rightarrow> string \<Rightarrow> i64 \<Rightarrow> i64 \<Rightarrow> ((candle_error + unit) \<times> kline_store) option" where
  "ensure_range uc now clock fd s symbol start end_ts =
     (case closed_range uc now s symbol start end_ts of
        Inl e \<Rightarrow> Some (Inl e, s)
      | Inr (start, end_ts) \<Rightarrow>
          if end_ts \<le> start then Some (Inr (), s)
          else case all_cached uc now s symbol start end_ts of
            (Inl e, s) \<Rightarrow> Some (Inl e, s)
          | (Inr True, s) \<Rightarrow> Some (Inr (), count_cache_hit s)
          | (Inr False, s) \<Rightarrow>
              let s = with_status (\<lambda>t. t\<lparr>st_active_backfills := st_active_backfills t + 1\<rparr>) s;
                  leave = with_status (\<lambda>t. t\<lparr>st_active_backfills := st_active_backfills t - 1\<rparr>)
              in case all_cached uc (clock 0) s symbol start end_ts of
                   (Inl e, s) \<Rightarrow> Some (Inl e, leave s)
                 | (Inr True, s) \<Rightarrow> Some (Inr (), leave (count_cache_hit s))
                 | (Inr False, s) \<Rightarrow> map_option (apsnd leave) (backfill uc clock fd symbol start 0 end_ts s))"

subsection \<open>The budget over every rolling minute\<close>

definition weight_sum :: "(nat \<times> nat) list \<Rightarrow> nat" where
  "weight_sum rs = sum_list (map snd rs)"

lemma weight_sum_simps [simp]:
  "weight_sum [] = 0" "weight_sum (r # rs) = snd r + weight_sum rs" "weight_sum (rs @ rs') = weight_sum rs + weight_sum rs'"
  by (simp_all add: weight_sum_def)

lemma sub_u32_exact: "b \<le> a \<Longrightarrow> a < 2 ^ 32 \<Longrightarrow> sub_u32 a b = a - b"
proof -
  assume "b \<le> a" "a < 2 ^ 32"
  then have "a + 2 ^ 32 - b = (a - b) + 2 ^ 32" "a - b < 2 ^ 32" by simp_all
  then show "sub_u32 a b = a - b" unfolding sub_u32_def by (metis mod_add_self2 mod_less)
qed

lemma expire_exact:
  "weight_sum rs < 2 ^ 32 \<Longrightarrow>
   expire_reservations now (weight_sum rs) rs =
     (weight_sum (dropWhile (\<lambda>r. fst r + gate_window \<le> now) rs), dropWhile (\<lambda>r. fst r + gate_window \<le> now) rs)"
proof (induction rs)
  case (Cons r rs)
  then have "sub_u32 (weight_sum (r # rs)) (snd r) = weight_sum rs" by (simp add: sub_u32_exact)
  then show ?case using Cons by (cases r) auto
qed simp

lemma weight_sum_dropWhile: "weight_sum (dropWhile P rs) \<le> weight_sum rs"
  by (induction rs) auto

lemma weight_sum_filter: "weight_sum (filter P rs) \<le> weight_sum rs"
  by (induction rs) auto

text \<open>The instant returned is when enough of the oldest reservations have expired.\<close>

lemma release_exact:
  assumes "weight_sum rs < 2 ^ 31" and "weight \<le> budget" and "budget < 2 ^ 31" and "rs \<noteq> []"
  shows "\<exists>front made reserved behind. rs = front @ (made, reserved) # behind
    \<and> release_at weight budget (weight_sum rs) rs = Some (made + gate_window) \<and> weight_sum behind + weight \<le> budget"
  using assms(1,4)
proof (induction rs)
  case (Cons r rs)
  obtain made reserved where r: "r = (made, reserved)" by (rule prod.exhaust)
  have rest: "sub_u32 (weight_sum (r # rs)) reserved = weight_sum rs" using Cons.prems(1) by (simp add: sub_u32_exact r)
  have add: "add_u32 (weight_sum rs) weight = weight_sum rs + weight" using Cons.prems(1) assms(2,3) by (simp add: add_u32_def)
  show ?case
  proof (cases "weight_sum rs + weight \<le> budget")
    case True
    then show ?thesis using rest add by (intro exI [of _ "[]"]) (simp add: r)
  next
    case False
    then have "rs \<noteq> []" using assms(2) by auto
    have "weight_sum rs < 2 ^ 31" using Cons.prems(1) by simp
    from Cons.IH [OF this \<open>rs \<noteq> []\<close>] obtain front m w behind where i: "rs = front @ (m, w) # behind"
      "release_at weight budget (weight_sum rs) rs = Some (m + gate_window)" "weight_sum behind + weight \<le> budget"
      by blast
    have "release_at weight budget (weight_sum (r # rs)) (r # rs) = release_at weight budget (weight_sum rs) rs"
      using False rest add by (simp add: r)
    with i show ?thesis by (intro exI [of _ "r # front"]) auto
  qed
qed simp

text \<open>Every reservation that may still count is held, the oldest first.\<close>

definition gate_ok :: "nat \<Rightarrow> weight_gate \<Rightarrow> (nat \<times> nat) list \<Rightarrow> nat \<Rightarrow> bool" where
  "gate_ok budget g sent clock \<longleftrightarrow>
     (\<exists>gone. sent = gone @ wg_reservations g \<and> (\<forall>r \<in> set gone. fst r + gate_window \<le> clock))
     \<and> sorted (map fst sent) \<and> (\<forall>r \<in> set sent. fst r \<le> clock)
     \<and> wg_used g = weight_sum (wg_reservations g) \<and> wg_used g \<le> budget
     \<and> (\<forall>t. weight_sum (filter (\<lambda>r. t \<le> fst r \<and> fst r < t + gate_window) sent) \<le> budget)"

lemma gate_ok_later: "gate_ok budget g sent clock \<Longrightarrow> clock \<le> now \<Longrightarrow> gate_ok budget g sent now"
proof -
  assume ok: "gate_ok budget g sent clock" and later: "clock \<le> now"
  from ok obtain gone where "sent = gone @ wg_reservations g" "\<forall>r \<in> set gone. fst r + gate_window \<le> clock"
    unfolding gate_ok_def by blast
  then have "\<exists>gone. sent = gone @ wg_reservations g \<and> (\<forall>r \<in> set gone. fst r + gate_window \<le> now)"
    using later by (intro exI [of _ gone]) auto
  moreover have "\<forall>r \<in> set sent. fst r \<le> now" using ok later by (auto simp: gate_ok_def)
  ultimately show "gate_ok budget g sent now" using ok unfolding gate_ok_def by blast
qed

lemma gate_reserve_facts:
  assumes ok: "gate_ok budget g sent clock" and b: "budget < 2 ^ 31" and now: "clock \<le> now" and w: "weight \<le> budget"
  obtains ready g' where "gate_reserve g now weight budget = Inr (ready, g')"
    and "gate_ok budget g' (if ready = None then sent @ [(now, weight)] else sent) now"
    and "wg_blocked_until g' = wg_blocked_until g"
    and "\<And>t. ready = Some t \<Longrightarrow> wg_blocked_until g \<le> now \<Longrightarrow> now < t \<and>
      weight_sum (dropWhile (\<lambda>r. fst r + gate_window \<le> t) (wg_reservations g')) + weight \<le> budget"
    and "\<And>t. ready = Some t \<Longrightarrow> now < wg_blocked_until g \<Longrightarrow> t = wg_blocked_until g"
    and "wg_blocked_until g \<le> now \<Longrightarrow>
      weight_sum (dropWhile (\<lambda>r. fst r + gate_window \<le> now) (wg_reservations g)) + weight \<le> budget \<Longrightarrow> ready = None"
proof -
  from gate_ok_later [OF ok now] obtain gone where l: "sent = gone @ wg_reservations g" "\<forall>r \<in> set gone. fst r + gate_window \<le> now"
    and srt: "sorted (map fst sent)" and past: "\<forall>r \<in> set sent. fst r \<le> now"
    and used: "wg_used g = weight_sum (wg_reservations g)" "wg_used g \<le> budget"
    and roll: "\<And>t. weight_sum (filter (\<lambda>r. t \<le> fst r \<and> fst r < t + gate_window) sent) \<le> budget"
    unfolding gate_ok_def by blast
  define rs where "rs = dropWhile (\<lambda>r. fst r + gate_window \<le> now) (wg_reservations g)"
  have ex: "expire_reservations now (wg_used g) (wg_reservations g) = (weight_sum rs, rs)"
    unfolding used(1) rs_def by (rule expire_exact) (use used b in simp)
  have su: "weight_sum rs \<le> budget" using used weight_sum_dropWhile [of _ "wg_reservations g"] unfolding rs_def by (metis order_trans)
  let ?tw = "takeWhile (\<lambda>r. fst r + gate_window \<le> now) (wg_reservations g)"
  have split: "sent = (gone @ ?tw) @ rs" unfolding l(1) rs_def by simp
  have gone: "\<forall>r \<in> set (gone @ ?tw). fst r + gate_window \<le> now" using l(2) by (auto dest: set_takeWhileD)
  define g1 where "g1 = g\<lparr>wg_used := weight_sum rs, wg_reservations := rs\<rparr>"
  have ok1: "gate_ok budget g1 sent now"
    unfolding gate_ok_def g1_def using split gone srt past su roll by auto
  have res: "gate_reserve g now weight budget =
     (if now < wg_blocked_until g then Inr (Some (wg_blocked_until g), g1)
      else if weight_sum rs + weight \<le> budget
      then Inr (None, g1\<lparr>wg_reservations := rs @ [(now, weight)], wg_used := weight_sum rs + weight\<rparr>)
      else rmap (\<lambda>ready. (Some ready, g1)) (of_option NothingToExpire (release_at weight budget (weight_sum rs) rs)))"
    using w su b by (simp add: gate_reserve_def ex g1_def add_u32_def)
  consider "now < wg_blocked_until g" | "wg_blocked_until g \<le> now" "weight_sum rs + weight \<le> budget"
    | "wg_blocked_until g \<le> now" "\<not> weight_sum rs + weight \<le> budget" by linarith
  then show thesis
  proof cases
    case 1
    then show thesis by (intro that [of "Some (wg_blocked_until g)" g1]) (use res ok1 in \<open>simp_all add: g1_def\<close>)
  next
    case 2
    define g2 where "g2 = g1\<lparr>wg_reservations := rs @ [(now, weight)], wg_used := weight_sum rs + weight\<rparr>"
    have roll2: "weight_sum (filter (\<lambda>r. t \<le> fst r \<and> fst r < t + gate_window) (sent @ [(now, weight)])) \<le> budget" for t
    proof (cases "t \<le> now \<and> now < t + gate_window")
      case True
      have "filter (\<lambda>r. t \<le> fst r \<and> fst r < t + gate_window) (gone @ ?tw) = []"
      proof (rule filter_False, intro ballI notI)
        fix r assume "r \<in> set (gone @ ?tw)" and r: "t \<le> fst r \<and> fst r < t + gate_window"
        with gone have "fst r + gate_window \<le> now" by blast
        with r True show False by linarith
      qed
      then have "weight_sum (filter (\<lambda>r. t \<le> fst r \<and> fst r < t + gate_window) sent) \<le> weight_sum rs"
        unfolding split filter_append by (simp add: weight_sum_filter)
      then show ?thesis using True 2(2) by simp
    next
      case False
      then show ?thesis using roll [of t] by auto
    qed
    have "gate_ok budget g2 (sent @ [(now, weight)]) now"
      unfolding gate_ok_def
    proof (intro conjI allI)
      show "\<exists>gone. sent @ [(now, weight)] = gone @ wg_reservations g2 \<and> (\<forall>r \<in> set gone. fst r + gate_window \<le> now)"
        using split gone by (intro exI [of _ "gone @ ?tw"]) (simp add: g2_def)
      show "sorted (map fst (sent @ [(now, weight)]))" using srt past by (simp add: sorted_append)
      show "\<forall>r \<in> set (sent @ [(now, weight)]). fst r \<le> now" using past by simp
      show "wg_used g2 = weight_sum (wg_reservations g2)" "wg_used g2 \<le> budget" using 2(2) by (simp_all add: g2_def)
    qed (rule roll2)
    then show thesis using 2 res by (intro that [of None g2]) (simp_all add: g2_def g1_def)
  next
    case 3
    then have "rs \<noteq> []" using w by auto
    have "weight_sum rs < 2 ^ 31" using su b by simp
    from release_exact [OF this w b \<open>rs \<noteq> []\<close>] obtain front made reserved behind where rel: "rs = front @ (made, reserved) # behind"
      "release_at weight budget (weight_sum rs) rs = Some (made + gate_window)" "weight_sum behind + weight \<le> budget"
      by blast
    have hd: "now < fst (hd rs) + gate_window" using hd_dropWhile [of "\<lambda>r. fst r + gate_window \<le> now" "wg_reservations g"] \<open>rs \<noteq> []\<close>
      unfolding rs_def by simp
    have sr: "sorted (map fst rs)" using srt unfolding split by (simp add: sorted_append)
    have "fst (hd rs) \<le> made" using sr unfolding rel(1) by (cases front) (auto simp: sorted_append)
    then have later: "now < made + gate_window" using hd by simp
    have "\<forall>r \<in> set (front @ [(made, reserved)]). fst r + gate_window \<le> made + gate_window"
      using sr unfolding rel(1) by (auto simp: sorted_append)
    then have "dropWhile (\<lambda>r. fst r + gate_window \<le> made + gate_window) ((front @ [(made, reserved)]) @ behind)
        = dropWhile (\<lambda>r. fst r + gate_window \<le> made + gate_window) behind"
      by (intro dropWhile_append2) blast
    then have "weight_sum (dropWhile (\<lambda>r. fst r + gate_window \<le> made + gate_window) rs) \<le> weight_sum behind"
      unfolding rel(1) using weight_sum_dropWhile [of _ behind] by simp
    then have enough: "weight_sum (dropWhile (\<lambda>r. fst r + gate_window \<le> made + gate_window) rs) + weight \<le> budget"
      using rel(3) by linarith
    obtain u where u: "u = made + gate_window" by simp
    have "gate_reserve g now weight budget = Inr (Some u, g1)" using 3 res rel(2) by (simp add: rmap_def u)
    then show thesis using 3 enough [folded u] later [folded u] ok1
      by (intro that [of "Some u" g1]) (simp_all add: g1_def rs_def [symmetric])
  qed
qed

text \<open>Requests at later and later instants, and refusals of an exchange that block the gate for a while.\<close>

inductive gate_run :: "nat \<Rightarrow> weight_gate \<Rightarrow> (nat \<times> nat) list \<Rightarrow> nat \<Rightarrow> bool" for budget where
  start: "gate_run budget \<lparr>wg_reservations = [], wg_used = 0, wg_blocked_until = now\<rparr> [] now"
| request: "gate_run budget g sent clock \<Longrightarrow> clock \<le> now \<Longrightarrow> weight \<le> budget \<Longrightarrow>
    gate_reserve g now weight budget = Inr (ready, g') \<Longrightarrow>
    gate_run budget g' (if ready = None then sent @ [(now, weight)] else sent) now"
| refused: "gate_run budget g sent clock \<Longrightarrow> clock \<le> now \<Longrightarrow> gate_run budget (binance_limited g now retry_after) sent now"
| refused_okex: "gate_run budget g sent clock \<Longrightarrow> clock \<le> now \<Longrightarrow> gate_run budget (okex_limited g now) sent now"

lemma gate_ok_blocked: "gate_ok budget (g\<lparr>wg_blocked_until := t\<rparr>) sent clock = gate_ok budget g sent clock"
  by (simp add: gate_ok_def)

lemma gate_run_ok: "gate_run budget g sent clock \<Longrightarrow> budget < 2 ^ 31 \<Longrightarrow> gate_ok budget g sent clock"
proof (induction rule: gate_run.induct)
  case (start now)
  then show ?case by (simp add: gate_ok_def)
next
  case (request g sent clock now weight ready g')
  obtain ready2 g2 where r: "gate_reserve g now weight budget = Inr (ready2, g2)"
    "gate_ok budget g2 (if ready2 = None then sent @ [(now, weight)] else sent) now"
    by (rule gate_reserve_facts [OF request.IH [OF request.prems] request.prems request.hyps(2,3)])
  then show ?case using request.hyps(4) by simp
next
  case (refused g sent clock now retry_after)
  then show ?case by (simp add: binance_limited_def Let_def gate_ok_blocked gate_ok_later)
next
  case (refused_okex g sent clock now)
  then show ?case by (simp add: okex_limited_def gate_ok_blocked gate_ok_later)
qed

text \<open>
  C18: The weight of the requests let through in any sixty seconds, wherever they begin, stays within the
  budget, however requests, waits and refusals of the exchanges interleave.
\<close>

theorem request_weight_budget:
  assumes "gate_run budget g sent clock" and "budget < 2 ^ 31"
  shows "weight_sum (filter (\<lambda>r. t \<le> fst r \<and> fst r < t + gate_window) sent) \<le> budget"
  using gate_run_ok [OF assms] unfolding gate_ok_def by blast

text \<open>
  C19: Waiting is enough. A request within the budget is never a panic; told to wait for want of budget, it
  is let through at the instant it was given unless others were let through or an exchange refused
  meanwhile.
\<close>

theorem request_wait_suffices:
  assumes "gate_run budget g sent clock" and "budget < 2 ^ 31" and "clock \<le> now" and "weight \<le> budget"
  shows "\<exists>ready g'. gate_reserve g now weight budget = Inr (ready, g') \<and>
    (\<forall>t. ready = Some t \<longrightarrow> now < t \<and> (wg_blocked_until g \<le> now \<longrightarrow> (\<exists>g''. gate_reserve g' t weight budget = Inr (None, g''))))"
proof -
  obtain ready g' where r: "gate_reserve g now weight budget = Inr (ready, g')"
    "gate_ok budget g' (if ready = None then sent @ [(now, weight)] else sent) now" "wg_blocked_until g' = wg_blocked_until g"
    "\<And>t. ready = Some t \<Longrightarrow> wg_blocked_until g \<le> now \<Longrightarrow> now < t \<and>
      weight_sum (dropWhile (\<lambda>r. fst r + gate_window \<le> t) (wg_reservations g')) + weight \<le> budget"
    "\<And>t. ready = Some t \<Longrightarrow> now < wg_blocked_until g \<Longrightarrow> t = wg_blocked_until g"
    by (rule gate_reserve_facts [OF gate_run_ok [OF assms(1,2)] assms(2,3,4)]) blast
  have "\<exists>g''. gate_reserve g' t weight budget = Inr (None, g'')" if t: "ready = Some t" and b: "wg_blocked_until g \<le> now" for t
  proof -
    have later: "now < t" "weight_sum (dropWhile (\<lambda>r. fst r + gate_window \<le> t) (wg_reservations g')) + weight \<le> budget"
      using r(4) [OF t b] by auto
    have ok: "gate_ok budget g' sent now" using r(2) t by simp
    obtain ready2 g2 where r2: "gate_reserve g' t weight budget = Inr (ready2, g2)"
      "wg_blocked_until g' \<le> t \<Longrightarrow>
        weight_sum (dropWhile (\<lambda>r. fst r + gate_window \<le> t) (wg_reservations g')) + weight \<le> budget \<Longrightarrow> ready2 = None"
      by (rule gate_reserve_facts [OF ok assms(2) less_imp_le [OF later(1)] assms(4)]) blast
    then show ?thesis using later r(3) b by auto
  qed
  moreover have "now < t" if t: "ready = Some t" for t
    using r(4) [OF t] r(5) [OF t] by (cases "wg_blocked_until g \<le> now") auto
  ultimately show ?thesis using r(1) by blast
qed

subsection \<open>Pages\<close>

text \<open>What a page promises: typed, valid and closed candles of its range, in order of time.\<close>

definition page_ok :: "i64 \<Rightarrow> i64 \<Rightarrow> i64 \<Rightarrow> kline list \<Rightarrow> bool" where
  "page_ok now start end_ts ks \<longleftrightarrow> sorted_wrt (<) (map kl_open_ts_us ks)
     \<and> (\<forall>k \<in> set ks. kl_typed k \<and> kl_validate k = Inr () \<and> start \<le> kl_open_ts_us k
          \<and> kl_end_ts_us k \<le> end_ts \<and> kl_end_ts_us k \<le> now)"

lemma parse_f64_ok: "parse_f64 s = Some v \<Longrightarrow> f_ok v"
  by (auto simp: parse_f64_def split: if_splits prod.splits)

lemma candle_number_ok: "candle_number row i = Inr v \<Longrightarrow> f_ok v"
  by (auto simp: candle_number_def of_option_Inr_iff split: option.splits intro: parse_f64_ok)

lemma checked_ms_Inr: "checked_ms ms = Inr ts \<longleftrightarrow> in_i64 (ms * 1000) \<and> ts = ms * 1000"
  by (auto simp: checked_ms_def rbind_Inr_iff rensure_Inr_iff)

lemma parse_candle_sound:
  assumes "parse_candle ji raw = Inr k" and "\<And>j n. ji_u64 ji j = Some n \<Longrightarrow> n < 2 ^ 64"
  shows "kl_typed k \<and> kl_validate k = Inr ()"
  using assms(1)
  by (auto simp: parse_candle_def rbind_Inr_iff Let_def kl_typed_def checked_ms_Inr of_option_Inr_iff
      intro: candle_number_ok dest!: assms(2))

lemma parse_okex_candle_sound: "parse_okex_candle venue raw = Inr k \<Longrightarrow> kl_typed k \<and> kl_validate k = Inr ()"
  by (auto simp: parse_okex_candle_def rbind_Inr_iff Let_def kl_typed_def checked_ms_Inr intro: candle_number_ok)

lemma page_candles_sound:
  assumes "page_candles parse now start end_ts rows = Inr ks" and "\<And>raw k. parse raw = Inr k \<Longrightarrow> kl_typed k \<and> kl_validate k = Inr ()"
  shows "\<forall>k \<in> set ks. kl_typed k \<and> kl_validate k = Inr () \<and> start \<le> kl_open_ts_us k \<and> kl_end_ts_us k \<le> end_ts \<and> kl_end_ts_us k \<le> now"
proof
  fix k assume "k \<in> set ks"
  then obtain raw where "rbind (parse raw) (\<lambda>candle.
       rbind (rensure (start \<le> kl_open_ts_us candle \<and> kl_end_ts_us candle \<le> end_ts \<and> kl_end_ts_us candle \<le> now) CandleOutsidePage) (\<lambda>_.
       Inr candle)) = Inr k"
    using assms(1) unfolding page_candles_def rmapM_Inr_iff by (auto simp: list_all2_conv_all_nth in_set_conv_nth)
  then show "kl_typed k \<and> kl_validate k = Inr () \<and> start \<le> kl_open_ts_us k \<and> kl_end_ts_us k \<le> end_ts \<and> kl_end_ts_us k \<le> now"
    using assms(2) by (auto simp: rbind_Inr_iff rensure_Inr_iff)
qed

lemma distinct_page_sound: "distinct_page ks = Inr page \<Longrightarrow> set page = set ks \<and> sorted_wrt (<) (map kl_open_ts_us page)"
  by (auto simp: distinct_page_def rbind_Inr_iff rensure_Inr_iff Let_def)

lemma binance_page_sound:
  assumes "binance_page ji now start end_ts rows = Inr page" and "\<And>j n. ji_u64 ji j = Some n \<Longrightarrow> n < 2 ^ 64"
  shows "page_ok now start end_ts page"
proof -
  obtain ks where ks: "page_candles (parse_candle ji) now start end_ts rows = Inr ks" "distinct_page ks = Inr page"
    using assms(1) by (auto simp: binance_page_def rbind_Inr_iff)
  show ?thesis
    using page_candles_sound [OF ks(1) parse_candle_sound [OF _ assms(2)]] distinct_page_sound [OF ks(2)]
    by (simp add: page_ok_def)
qed

text \<open>The blocks of an OKX page cover its range: each candle is closed at the clock of its own block.\<close>

lemma okex_blocks_sound:
  assumes "okex_blocks venue http now start edge ks = Inr ks'" and "\<And>t. now t \<le> latest"
    and "\<forall>k \<in> set ks. kl_typed k \<and> kl_validate k = Inr () \<and> start \<le> kl_open_ts_us k \<and> kl_end_ts_us k \<le> end_ts \<and> kl_end_ts_us k \<le> latest"
    and "edge \<le> end_ts"
  shows "\<forall>k \<in> set ks'. kl_typed k \<and> kl_validate k = Inr () \<and> start \<le> kl_open_ts_us k \<and> kl_end_ts_us k \<le> end_ts \<and> kl_end_ts_us k \<le> latest"
  using assms
proof (induction venue http now start edge ks rule: okex_blocks.induct)
  case (1 venue http now start edge ks)
  show ?case
  proof (cases "edge \<le> start")
    case True
    then show ?thesis using 1(2,4) by (simp add: okex_blocks.simps)
  next
    case False
    let ?block = "max (edge - 300 * minute_us) start"
    from False 1(2) obtain body rows page where p: "http ?block edge = Inr body"
      "json_str (json_at body ''code'') = Some ''0''" "json_array (json_at body ''data'') = Some rows"
      "page_candles (parse_okex_candle venue) (now edge) ?block edge rows = Inr page"
      "okex_blocks venue http now start ?block (ks @ page) = Inr ks'"
      by (subst (asm) okex_blocks.simps) (auto simp: rbind_Inr_iff rensure_Inr_iff of_option_Inr_iff Let_def)
    have page: "\<forall>k \<in> set page. kl_typed k \<and> kl_validate k = Inr () \<and> ?block \<le> kl_open_ts_us k \<and> kl_end_ts_us k \<le> edge \<and> kl_end_ts_us k \<le> now edge"
      by (rule page_candles_sound [OF p(4)]) (rule parse_okex_candle_sound)
    have "kl_typed k \<and> kl_validate k = Inr () \<and> start \<le> kl_open_ts_us k \<and> kl_end_ts_us k \<le> end_ts \<and> kl_end_ts_us k \<le> latest"
      if k: "k \<in> set page" for k
      using bspec [OF page k] 1(3) [of edge] 1(5) by simp
    then have all: "\<forall>k \<in> set (ks @ page). kl_typed k \<and> kl_validate k = Inr () \<and> start \<le> kl_open_ts_us k \<and> kl_end_ts_us k \<le> end_ts \<and> kl_end_ts_us k \<le> latest"
      using 1(4) by auto
    have "?block \<le> end_ts" using 1(5) False by (simp add: minute_us_def)
    then show ?thesis by (rule 1(1) [OF False refl, OF p(5) 1(3) all])
  qed
qed

lemma okex_page_sound:
  assumes "okex_page venue http now start end_ts = Inr page" and "\<And>t. now t \<le> latest"
  shows "page_ok latest start end_ts page"
proof -
  obtain ks where ks: "okex_blocks venue http now start end_ts [] = Inr ks" "distinct_page ks = Inr page"
    using assms(1) by (auto simp: okex_page_def rbind_Inr_iff)
  show ?thesis
    using okex_blocks_sound [OF ks(1) assms(2), where end_ts = end_ts] distinct_page_sound [OF ks(2)] by (simp add: page_ok_def)
qed

subsection \<open>What a saved page leaves\<close>

lemma page_row_ok:
  assumes "key_prefix uc symbol = Inr p"
    and "\<forall>k \<in> set ks. kl_validate k = Inr () \<and> start \<le> kl_open_ts_us k \<and> kl_end_ts_us k \<le> end_ts"
  shows "rfold (page_row uc s symbol start end_ts cutoff) batch ks
    = Inr (batch @ page_rows uc symbol (filter (\<lambda>k. cutoff \<le> kl_open_ts_us k) ks))"
  using assms(2) by (induction ks arbitrary: batch) (simp_all add: page_row_def page_rows_def candle_key_def assms(1) rmap_def)

lemma put_page_disk:
  assumes "rows_ok uc rows" and "key_prefix uc symbol = Inr p" and "\<forall>k \<in> set ks. kl_typed k \<and> kl_validate k = Inr ()"
    and "distinct (map kl_open_ts_us ks)"
  shows "disk_candle uc (bm_extend rows (page_rows uc symbol ks)) symbol t =
    (case map_of (map (\<lambda>k. (kl_open_ts_us k, k)) ks) t of None \<Rightarrow> disk_candle uc rows symbol t | Some k \<Rightarrow> Some k)"
  using assms(1,3,4)
proof (induction ks arbitrary: rows)
  case Nil
  then show ?case by (simp add: page_rows_def bm_extend_def)
next
  case (Cons k ks)
  have key: "candle_key uc symbol (kl_open_ts_us k) = Inr (p @ time_bytes (kl_open_ts_us k))" using assms(2) by (simp add: candle_key_def)
  have k: "kl_typed k" "kl_validate k = Inr ()" using Cons.prems by simp_all
  note put = put_candle [OF Cons.prems(1) key k]
  have ext: "bm_extend rows (page_rows uc symbol (k # ks))
      = bm_extend (bm_insert (p @ time_bytes (kl_open_ts_us k)) (kl_encode k) rows) (page_rows uc symbol ks)"
    by (simp add: page_rows_def bm_extend_def key)
  have fresh: "map_of (map (\<lambda>k. (kl_open_ts_us k, k)) ks) (kl_open_ts_us k) = None"
    using Cons.prems(3) by (auto simp: map_of_eq_None_iff)
  have rest: "\<forall>k \<in> set ks. kl_typed k \<and> kl_validate k = Inr ()" "distinct (map kl_open_ts_us ks)" using Cons.prems by simp_all
  show ?case unfolding ext Cons.IH [OF put(1) rest] put(2) using fresh by (auto split: option.splits)
qed

text \<open>The environment of the table stays; a page leaves its retained candles and takes none away.\<close>

definition same_setup :: "kline_store \<Rightarrow> kline_store \<Rightarrow> bool" where
  "same_setup s s' \<longleftrightarrow> cutoff_us s' = cutoff_us s
     \<and> cd_readable (ks_db s') = cd_readable (ks_db s) \<and> cd_writable (ks_db s') = cd_writable (ks_db s)"

lemma same_setup_trans: "same_setup a b \<Longrightarrow> same_setup b c \<Longrightarrow> same_setup a c"
  by (simp add: same_setup_def)

lemma same_setup_cutoff: "same_setup s s' \<Longrightarrow> cutoff_us s' = cutoff_us s"
  by (simp add: same_setup_def)

lemma save_page_table:
  fixes now :: i64
  assumes coh: "coherent uc since s" and p: "key_prefix uc symbol = Inr p" and w: "cd_writable (ks_db s)"
    and page: "page_ok latest start end_ts ks"
  defines "kept \<equiv> filter (\<lambda>k. cutoff_us s now \<le> kl_open_ts_us k) ks"
  obtains s' where "save_page uc now s symbol start end_ts ks = (Inr (), s')" and "coherent uc since s'" and "same_setup s s'"
    and "\<And>t. disk_candle uc (cd_rows (ks_db s')) symbol t =
      (case map_of (map (\<lambda>k. (kl_open_ts_us k, k)) kept) t of None \<Rightarrow> disk_candle uc (cd_rows (ks_db s)) symbol t | Some k \<Rightarrow> Some k)"
proof -
  have ok: "\<forall>k \<in> set ks. kl_validate k = Inr () \<and> start \<le> kl_open_ts_us k \<and> kl_end_ts_us k \<le> end_ts"
    using page by (simp add: page_ok_def)
  let ?db = "(ks_db s)\<lparr>cd_rows := bm_extend (cd_rows (ks_db s)) (page_rows uc symbol kept)\<rparr>"
  have wr: "rbind (rfold (page_row uc s symbol start end_ts (cutoff_us s now)) [] ks) (\<lambda>batch. write_rows batch (ks_db s)) = Inr ?db"
    unfolding page_row_ok [OF p ok] kept_def using w by (simp add: write_rows_def)
  let ?s = "set_minute_cache symbol (foldl mc_insert (minute_cache_of s symbol) kept) (s\<lparr>ks_db := ?db\<rparr>)"
  obtain s' where s': "save_page uc now s symbol start end_ts ks = (Inr (), s')"
    "s' = with_status (\<lambda>t. t\<lparr>st_fetched_candles := add_u64 (st_fetched_candles t) (length ks)\<rparr>)
      (if ks = [] then ?s else ?s\<lparr>ks_revision := add_u64 (ks_revision ?s) 1\<rparr>)"
    unfolding save_page_def Let_def wr sum.case kept_def by simp
  have db: "ks_db s' = ?db" and same: "same_setup s s'"
    using s'(2) by (simp_all add: with_status_def set_minute_cache_def same_setup_def cutoff_us_def fun_eq_iff split: if_split)
  have typed: "\<And>k. k \<in> set ks \<Longrightarrow> kl_typed k" using page by (simp add: page_ok_def)
  have kept: "\<forall>k \<in> set kept. kl_typed k \<and> kl_validate k = Inr ()" "distinct (map kl_open_ts_us kept)"
    using page unfolding page_ok_def kept_def by (auto intro!: distinct_map_filter simp: strict_sorted_iff)
  show thesis
    by (rule that [OF s'(1)])
      (use save_page_keeps [OF coh typed s'(1)] same put_page_disk [OF coherentD(1) [OF coh] p kept] in \<open>simp_all add: db\<close>)
qed

subsection \<open>Missing minutes are requested, and only those\<close>

lemma aligned_step: "start < t \<Longrightarrow> start mod minute_us = 0 \<Longrightarrow> t mod minute_us = 0 \<Longrightarrow> start + minute_us \<le> t"
  using zdvd_imp_le [of minute_us "t - start"] by (auto simp: mod_eq_0_iff_dvd)

lemma aligned_minus: "t mod minute_us = 0 \<Longrightarrow> (t - minute_us) mod minute_us = 0"
  by (simp add: minus_mod_self2)

text \<open>A page stays in the range, within the limit of a request, and asks for no minute that is there.\<close>

lemma page_start_facts:
  assumes "start \<le> edge" and "start mod minute_us = 0" and "edge mod minute_us = 0" and "page_end mod minute_us = 0"
    and "edge \<le> page_end" and "page_end - edge \<le> page_limit * minute_us"
  shows "start \<le> page_start existing start page_end edge \<and> page_start existing start page_end edge mod minute_us = 0
    \<and> page_end - page_start existing start page_end edge \<le> page_limit * minute_us
    \<and> (\<forall>t. page_start existing start page_end edge \<le> t \<and> t < edge \<and> t mod minute_us = 0 \<longrightarrow> t \<notin> set existing)"
  using assms
proof (induction existing start page_end edge rule: page_start.induct)
  case (1 existing start page_end edge)
  let ?more = "start < edge \<and> (page_end - edge) div minute_us < page_limit \<and> edge - minute_us \<notin> set existing"
  have m: "0 < minute_us" by (simp add: minute_us_def)
  show ?case
  proof (cases ?more)
    case False
    then have "page_start existing start page_end edge = edge" by (subst page_start.simps) auto
    then show ?thesis using "1.prems" by (auto simp: not_less)
  next
    case True
    have step: "page_start existing start page_end edge = page_start existing start page_end (edge - minute_us)"
      using True by (subst page_start.simps) simp
    have s: "start \<le> edge - minute_us" using aligned_step True "1.prems"(2,3) by fastforce
    have "(page_end - edge) mod minute_us = 0"
      using "1.prems"(3,4) by (metis cancel_comm_monoid_add_class.diff_cancel mod_0 mod_diff_eq)
    then have "page_end - edge = (page_end - edge) div minute_us * minute_us" by (metis add.right_neutral div_mult_mod_eq)
    also have "\<dots> \<le> (page_limit - 1) * minute_us" using True m by (intro mult_right_mono) auto
    finally have l: "page_end - (edge - minute_us) \<le> page_limit * minute_us" by (simp add: algebra_simps)
    have e: "edge - minute_us \<le> page_end" using "1.prems"(5) m by simp
    note IH = "1.IH" [OF True s "1.prems"(2) aligned_minus [OF "1.prems"(3)] "1.prems"(4) e l]
    have "t \<notin> set existing" if t: "page_start existing start page_end (edge - minute_us) \<le> t" "t < edge" "t mod minute_us = 0" for t
    proof (cases "t < edge - minute_us")
      case True
      then show ?thesis using IH [THEN conjunct2, THEN conjunct2, THEN conjunct2, rule_format, of t] t by simp
    next
      case False
      then have "t = edge - minute_us" using aligned_step [OF t(2) t(3) "1.prems"(3)] by linarith
      then show ?thesis using \<open>?more\<close> by (simp only: simp_thms not_False_eq_True)
    qed
    then have missing: "\<forall>t. page_start existing start page_end (edge - minute_us) \<le> t \<and> t < edge \<and> t mod minute_us = 0 \<longrightarrow> t \<notin> set existing"
      by simp
    show ?thesis unfolding step
      by (intro conjI missing IH [THEN conjunct1] IH [THEN conjunct2, THEN conjunct1] IH [THEN conjunct2, THEN conjunct2, THEN conjunct1])
  qed
qed

text \<open>A feed that answers every page with all its candles.\<close>

definition feed_complete :: "i64 \<Rightarrow> feed \<Rightarrow> bool" where
  "feed_complete latest fd \<longleftrightarrow>
     (\<forall>first edge. 0 < first \<and> first < edge \<and> edge \<le> latest \<and> first mod minute_us = 0 \<and> edge mod minute_us = 0
        \<and> edge - first \<le> page_limit * minute_us \<longrightarrow>
        (\<exists>ks. fd_page fd first edge = Inr ks \<and> page_ok latest first edge ks
           \<and> (\<forall>t \<in> set (minutes_between first edge). t \<in> kl_open_ts_us ` set ks)))"

definition stored :: "unicode \<Rightarrow> kline_store \<Rightarrow> string \<Rightarrow> i64 \<Rightarrow> bool" where
  "stored uc s symbol t \<longleftrightarrow> disk_candle uc (cd_rows (ks_db s)) symbol t \<noteq> None"

lemma save_full_page:
  assumes coh: "coherent uc since s" and p: "key_prefix uc symbol = Inr p" and w: "cd_writable (ks_db s)"
    and page: "page_ok latest first edge ks" and keep: "cutoff_us s now \<le> keep"
    and full: "\<forall>t \<in> set (minutes_between first edge). t \<in> kl_open_ts_us ` set ks"
  obtains s' where "save_page uc now s symbol first edge ks = (Inr (), s')" and "coherent uc since s'" and "same_setup s s'"
    and "\<And>t. stored uc s symbol t \<Longrightarrow> stored uc s' symbol t"
    and "\<And>t. t \<in> set (minutes_between first edge) \<Longrightarrow> keep \<le> t \<Longrightarrow> stored uc s' symbol t"
proof -
  let ?kept = "filter (\<lambda>k. cutoff_us s now \<le> kl_open_ts_us k) ks"
  obtain s' where s': "save_page uc now s symbol first edge ks = (Inr (), s')" "coherent uc since s'" "same_setup s s'"
    "\<And>t. disk_candle uc (cd_rows (ks_db s')) symbol t =
      (case map_of (map (\<lambda>k. (kl_open_ts_us k, k)) ?kept) t of None \<Rightarrow> disk_candle uc (cd_rows (ks_db s)) symbol t | Some k \<Rightarrow> Some k)"
    by (rule save_page_table [OF coh p w page]) blast
  have "stored uc s' symbol t" if t: "t \<in> set (minutes_between first edge)" "keep \<le> t" for t
  proof -
    obtain k where "k \<in> set ks" "kl_open_ts_us k = t" using full t(1) by auto
    then have "t \<in> fst ` set (map (\<lambda>k. (kl_open_ts_us k, k)) ?kept)" using t(2) keep by force
    then have "map_of (map (\<lambda>k. (kl_open_ts_us k, k)) ?kept) t \<noteq> None" by (simp add: map_of_eq_None_iff)
    then show ?thesis using s'(4) [of t] by (auto simp: stored_def)
  qed
  moreover have "stored uc s' symbol t" if t: "stored uc s symbol t" for t
    using t s'(4) [of t] by (auto simp: stored_def split: option.splits)
  ultimately show thesis using that [OF s'(1-3)] by blast
qed

lemma fill_pages_complete:
  assumes "feed_complete latest fd" and "key_prefix uc symbol = Inr p"
    and "coherent uc since s" and "cd_writable (ks_db s)" and "\<And>t. cutoff_us s (fd_saved_at fd t) \<le> keep"
    and "0 < start" and "start mod minute_us = 0" and "edge mod minute_us = 0" and "edge \<le> latest"
    and "\<And>t. t \<in> set existing \<Longrightarrow> stored uc s symbol t"
  shows "\<exists>s'. fill_pages uc fd symbol existing start edge s = (Inr (), s') \<and> coherent uc since s' \<and> same_setup s s'
    \<and> (\<forall>t. stored uc s symbol t \<longrightarrow> stored uc s' symbol t)
    \<and> (\<forall>t \<in> set (minutes_between start edge). keep \<le> t \<longrightarrow> stored uc s' symbol t)"
  using assms(3-)
proof (induction "nat (edge - start)" arbitrary: edge s rule: less_induct)
  case (less edge s)
  have m: "0 < minute_us" by (simp add: minute_us_def)
  note mem = minutes_mem [OF \<open>start mod minute_us = 0\<close>]
  consider "edge \<le> start" | "start < edge" "edge - minute_us \<in> set existing" | "start < edge" "edge - minute_us \<notin> set existing" by linarith
  then show ?case
  proof cases
    case 1
    then have "fill_pages uc fd symbol existing start edge s = (Inr (), s)" by (simp add: fill_pages.simps)
    then show ?thesis using 1 less.prems(1) mem by (auto simp: same_setup_def)
  next
    case 2
    have step: "fill_pages uc fd symbol existing start edge s = fill_pages uc fd symbol existing start (edge - minute_us) s"
      using 2 by (subst fill_pages.simps) simp
    have small: "nat (edge - minute_us - start) < nat (edge - start)" using 2 m by simp
    have "edge - minute_us \<le> latest" using less.prems(7) m by simp
    from less.hyps [OF small less.prems(1-5) aligned_minus [OF less.prems(6)] this less.prems(8)]
    obtain s' where s': "fill_pages uc fd symbol existing start (edge - minute_us) s = (Inr (), s')" "coherent uc since s'" "same_setup s s'"
      "\<forall>t. stored uc s symbol t \<longrightarrow> stored uc s' symbol t"
      "\<forall>t \<in> set (minutes_between start (edge - minute_us)). keep \<le> t \<longrightarrow> stored uc s' symbol t" by blast
    have "stored uc s' symbol t" if t: "t \<in> set (minutes_between start edge)" "keep \<le> t" for t
    proof (cases "t < edge - minute_us")
      case True
      then have "t \<in> set (minutes_between start (edge - minute_us))" using t(1) unfolding mem by blast
      then show ?thesis using s'(5) t(2) by blast
    next
      case False
      have "t < edge" "t mod minute_us = 0" using t(1) unfolding mem by auto
      then have "t = edge - minute_us" using False aligned_step [of t edge] less.prems(6) by simp
      then show ?thesis using 2(2) less.prems(8) s'(4) by blast
    qed
    then show ?thesis unfolding step using s' by blast
  next
    case 3
    let ?first = "page_start existing start edge (edge - minute_us)"
    have se: "start \<le> edge - minute_us" using aligned_step [OF 3(1) less.prems(5,6)] by simp
    have first: "start \<le> ?first" "?first mod minute_us = 0" "edge - ?first \<le> page_limit * minute_us"
      using page_start_facts [OF se less.prems(5) aligned_minus [OF less.prems(6)] less.prems(6), of existing] m
      by (simp_all add: page_limit_def)
    have fl: "?first < edge" using page_start_le [of existing start edge "edge - minute_us"] m by simp
    obtain ks where ks: "fd_page fd ?first edge = Inr ks" "page_ok latest ?first edge ks"
      "\<forall>t \<in> set (minutes_between ?first edge). t \<in> kl_open_ts_us ` set ks"
      using assms(1) first fl less.prems(4,6,7) unfolding feed_complete_def by (meson less_le_trans)
    obtain s1 where s1: "save_page uc (fd_saved_at fd ?first) s symbol ?first edge ks = (Inr (), s1)" "coherent uc since s1" "same_setup s s1"
      "\<And>t. stored uc s symbol t \<Longrightarrow> stored uc s1 symbol t"
      "\<And>t. t \<in> set (minutes_between ?first edge) \<Longrightarrow> keep \<le> t \<Longrightarrow> stored uc s1 symbol t"
      by (rule save_full_page [OF less.prems(1) assms(2) less.prems(2) ks(2) less.prems(3) ks(3)]) blast
    define s2 where "s2 = with_status (\<lambda>t. t\<lparr>st_last_error := None\<rparr>) s1"
    have s2: "coherent uc since s2" "same_setup s s2" "stored uc s2 symbol t = stored uc s1 symbol t" for t
      using s1(2,3) by (simp_all add: s2_def same_setup_def stored_def)
    have step: "fill_pages uc fd symbol existing start edge s = fill_pages uc fd symbol existing start ?first s2"
      using 3 ks(1) s1(1) by (subst fill_pages.simps) (simp add: Let_def s2_def)
    have small: "nat (?first - start) < nat (edge - start)" using fl first(1) 3(1) by simp
    have w2: "cd_writable (ks_db s2)" using s2(2) less.prems(2) by (simp add: same_setup_def)
    have c2: "\<And>t. cutoff_us s2 (fd_saved_at fd t) \<le> keep" using same_setup_cutoff [OF s2(2)] less.prems(3) by simp
    have e2: "\<And>t. t \<in> set existing \<Longrightarrow> stored uc s2 symbol t" using s2(3) s1(4) less.prems(8) by blast
    have l2: "?first \<le> latest" using fl less.prems(7) by simp
    from less.hyps [OF small s2(1) w2 c2 less.prems(4,5) first(2) l2 e2]
    obtain s' where s': "fill_pages uc fd symbol existing start ?first s2 = (Inr (), s')" "coherent uc since s'" "same_setup s2 s'"
      "\<forall>t. stored uc s2 symbol t \<longrightarrow> stored uc s' symbol t"
      "\<forall>t \<in> set (minutes_between start ?first). keep \<le> t \<longrightarrow> stored uc s' symbol t" by blast
    have "stored uc s' symbol t" if t: "t \<in> set (minutes_between start edge)" "keep \<le> t" for t
    proof (cases "t < ?first")
      case True
      then have "t \<in> set (minutes_between start ?first)" using t(1) unfolding mem by blast
      then show ?thesis using s'(5) t(2) by blast
    next
      case False
      then have "t \<in> set (minutes_between ?first edge)" using t(1) unfolding mem minutes_mem [OF first(2)] by simp
      then show ?thesis using s1(5) t(2) s2(3) s'(4) by blast
    qed
    moreover have "same_setup s s'" by (rule same_setup_trans [OF s2(2) s'(3)])
    ultimately show ?thesis unfolding step using s' s1(4) s2(3) by blast
  qed
qed

subsection \<open>A backfill ends with the range stored, unless retention overtakes it\<close>

lemma fco_between:
  assumes "0 \<le> x" and "x + minute_us \<le> i64_max"
  shows "x \<le> first_complete_open x" and "first_complete_open x < x + minute_us" and "first_complete_open x mod minute_us = 0"
proof -
  have m: "0 < minute_us" by (simp add: minute_us_def)
  let ?y = "x + (minute_us - 1)"
  have y: "sat64 ?y = ?y" using assms m by (intro sat64_id) (simp add: in_i64_def i64_min_def)
  have q: "?y div minute_us * minute_us \<le> ?y" "?y - minute_us < ?y div minute_us * minute_us"
    using pos_mod_sign [OF m, of ?y] pos_mod_bound [OF m, of ?y] minus_mod_eq_div_mult [of ?y minute_us] by linarith+
  have "in_i64 (?y div minute_us * minute_us)" using q assms m by (simp add: in_i64_def i64_min_def)
  then have f: "first_complete_open x = ?y div minute_us * minute_us" by (simp add: first_complete_open_def y)
  show "x \<le> first_complete_open x" "first_complete_open x < x + minute_us" using q by (simp_all add: f)
  show "first_complete_open x mod minute_us = 0" by (simp add: f)
qed

lemma fco_le_aligned:
  assumes "0 \<le> x" and "x + minute_us \<le> i64_max" and "x \<le> y" and "y mod minute_us = 0"
  shows "first_complete_open x \<le> y"
proof (rule ccontr)
  assume "\<not> first_complete_open x \<le> y"
  then have "y + minute_us \<le> first_complete_open x"
    using aligned_step [of y "first_complete_open x"] assms(4) fco_between(3) [OF assms(1,2)] by simp
  then show False using fco_between(2) [OF assms(1,2)] assms(3) by simp
qed

text \<open>The state a backfill works in: retention begins after the epoch and the table answers.\<close>

definition ready_store :: "unicode \<Rightarrow> i64 \<Rightarrow> kline_store \<Rightarrow> bool" where
  "ready_store uc since s \<longleftrightarrow> coherent uc since s \<and> cd_readable (ks_db s) \<and> cd_writable (ks_db s)"

lemma ready_same: "ready_store uc since s \<Longrightarrow> coherent uc since s' \<Longrightarrow> same_setup s s' \<Longrightarrow> ready_store uc since s'"
  by (simp add: ready_store_def same_setup_def)

lemma scan_ready:
  assumes ready: "ready_store uc since s" and p: "key_prefix uc symbol = Inr p" and now: "in_i64 now" "in_i64 start"
    and cut: "since \<le> cutoff_us s now" "0 < cutoff_us s now" and e: "end_ts mod minute_us = 0"
  obtains s' where "scan_candles uc now s symbol start end_ts = (Inr (disk_between uc (cd_rows (ks_db s)) symbol
        (first_complete_open (max start (cutoff_us s now))) (min end_ts (now div minute_us * minute_us))), s')"
    and "ready_store uc since s'" and "same_setup s s'" and "ks_db s' = ks_db s"
proof -
  have r: "coherent uc since s" "cd_readable (ks_db s)" using ready by (simp_all add: ready_store_def)
  obtain bars s' where sc: "scan_candles uc now s symbol start end_ts = (bars, s')" by (rule prod.exhaust)
  have bars: "bars = Inr (disk_between uc (cd_rows (ks_db s)) symbol
        (first_complete_open (max start (cutoff_us s now))) (min end_ts (now div minute_us * minute_us)))"
    using scan_table [OF r(1) cut(1) less_imp_le [OF cut(2)] _ r(2) now e, of symbol] p sc by simp
  note k = scan_keeps [OF r(1) now(1) sc]
  have same: "same_setup s s'" using k by (simp add: same_setup_def)
  show thesis
    by (rule that [of s']) (use sc bars same k ready_same [OF ready _ same] in simp_all)
qed

lemma disk_between_stored:
  "k \<in> set (disk_between uc (cd_rows (ks_db s)) symbol a b) \<Longrightarrow> stored uc s symbol (kl_open_ts_us k)"
proof -
  assume "k \<in> set (disk_between uc (cd_rows (ks_db s)) symbol a b)"
  then obtain t where "disk_candle uc (cd_rows (ks_db s)) symbol t = Some k"
    by (auto simp: disk_between_def List.map_filter_def)
  then show "stored uc s symbol (kl_open_ts_us k)" using disk_candle_SomeD [of uc _ symbol t k] by (simp add: stored_def)
qed

lemma fill_missing_complete:
  assumes fd: "feed_complete latest fd" and p: "key_prefix uc symbol = Inr p" and ready: "ready_store uc since s"
    and now: "in_i64 now" "in_i64 start" and cut: "since \<le> cutoff_us s now" "0 < cutoff_us s now"
    and keep: "\<And>t. cutoff_us s (fd_saved_at fd t) \<le> keep"
    and al: "0 < start" "start mod minute_us = 0" "end_ts mod minute_us = 0" "end_ts \<le> latest"
  obtains s' where "fill_missing uc now fd s symbol start end_ts = (Inr (), s')" and "ready_store uc since s'" and "same_setup s s'"
    and "\<And>t. stored uc s symbol t \<Longrightarrow> stored uc s' symbol t"
    and "\<And>t. t \<in> set (minutes_between start end_ts) \<Longrightarrow> keep \<le> t \<Longrightarrow> stored uc s' symbol t"
proof -
  define bars where "bars = disk_between uc (cd_rows (ks_db s)) symbol
        (first_complete_open (max start (cutoff_us s now))) (min end_ts (now div minute_us * minute_us))"
  obtain s1 where sc: "scan_candles uc now s symbol start end_ts = (Inr bars, s1)" "ready_store uc since s1" "same_setup s s1" "ks_db s1 = ks_db s"
    unfolding bars_def by (rule scan_ready [OF ready p now cut al(3)])
  have st: "stored uc s1 symbol t = stored uc s symbol t" for t by (simp add: stored_def sc(4))
  have r1: "coherent uc since s1" "cd_writable (ks_db s1)" using sc(2) by (simp_all add: ready_store_def)
  have k1: "\<And>t. cutoff_us s1 (fd_saved_at fd t) \<le> keep" using keep same_setup_cutoff [OF sc(3)] by simp
  have ex: "\<And>t. t \<in> set (map kl_open_ts_us bars) \<Longrightarrow> stored uc s1 symbol t" unfolding st using disk_between_stored by (auto simp: bars_def)
  from fill_pages_complete [OF fd p r1 k1 al ex] obtain s' where s':
    "fill_pages uc fd symbol (map kl_open_ts_us bars) start end_ts s1 = (Inr (), s')" "coherent uc since s'" "same_setup s1 s'"
    "\<forall>t. stored uc s1 symbol t \<longrightarrow> stored uc s' symbol t"
    "\<forall>t \<in> set (minutes_between start end_ts). keep \<le> t \<longrightarrow> stored uc s' symbol t" by blast
  have "fill_missing uc now fd s symbol start end_ts = (Inr (), s')" by (simp add: fill_missing_def sc(1) s'(1))
  then show thesis
    by (rule that) (use s' st ready_same [OF sc(2) s'(2,3)] same_setup_trans [OF sc(3) s'(3)] in simp_all)
qed

lemma day_aligned: "t mod minute_us = 0 \<Longrightarrow> (t - day_us) mod minute_us = 0"
proof -
  have "day_us = 1440 * minute_us" by (simp add: day_us_def minute_us_def)
  then have "t - day_us = t + (- 1440) * minute_us" by simp
  moreover assume "t mod minute_us = 0"
  ultimately show ?thesis by (metis mod_mult_self1)
qed

text \<open>A block: the feed and the clock during it.\<close>

definition block_ready :: "i64 \<Rightarrow> i64 \<Rightarrow> (i64 \<Rightarrow> i64) \<Rightarrow> i64 \<Rightarrow> feed \<Rightarrow> bool" where
  "block_ready latest since cutoff now fd \<longleftrightarrow>
     in_i64 now \<and> since \<le> cutoff now \<and> 0 < cutoff now \<and> cutoff now + minute_us \<le> latest \<and> feed_complete latest fd"

lemma backfill_block:
  assumes p: "key_prefix uc symbol = Inr p" and ready: "ready_store uc since s"
    and blk: "block_ready latest since (cutoff_us s) now fd" and keep: "\<And>t. cutoff_us s (fd_saved_at fd t) \<le> keep"
    and e: "block_end mod minute_us = 0" "block_end \<le> latest" "latest + minute_us \<le> i64_max"
  defines "block_start \<equiv> first_complete_open (max (block_end - day_us) (cutoff_us s now))"
  shows "\<exists>s'. fill_missing uc now fd s symbol block_start block_end = (Inr (), s') \<and> ready_store uc since s' \<and> same_setup s s'
    \<and> (\<forall>t. stored uc s symbol t \<longrightarrow> stored uc s' symbol t)
    \<and> (\<forall>t \<in> set (minutes_between block_start block_end). keep \<le> t \<longrightarrow> stored uc s' symbol t)
    \<and> cutoff_us s now \<le> block_start \<and> block_start mod minute_us = 0 \<and> block_start \<le> latest"
proof -
  let ?x = "max (block_end - day_us) (cutoff_us s now)"
  have m: "0 < minute_us" "0 < day_us" by (simp_all add: minute_us_def day_us_def)
  have b: "in_i64 now" "since \<le> cutoff_us s now" "0 < cutoff_us s now" "cutoff_us s now + minute_us \<le> latest" "feed_complete latest fd"
    using blk by (simp_all add: block_ready_def)
  have x: "0 \<le> ?x" "?x + minute_us \<le> i64_max" using b e m by auto
  note f = fco_between [OF x, folded block_start_def]
  have i: "in_i64 block_start" unfolding block_start_def first_complete_open_def by (rule wrap64_in_range)
  have pos: "0 < block_start" "cutoff_us s now \<le> block_start" using f(1) b(3) by simp_all
  have le: "block_start \<le> latest"
  proof (cases "cutoff_us s now \<le> block_end - day_us")
    case True
    then have "block_start \<le> block_end - day_us"
      unfolding block_start_def using fco_le_aligned [OF x, of "block_end - day_us"] day_aligned [OF e(1)] by simp
    then show ?thesis using e(2) m by simp
  next
    case False
    then show ?thesis using f(2) b(4) by simp
  qed
  obtain s' where "fill_missing uc now fd s symbol block_start block_end = (Inr (), s')" "ready_store uc since s'" "same_setup s s'"
    "\<And>t. stored uc s symbol t \<Longrightarrow> stored uc s' symbol t"
    "\<And>t. t \<in> set (minutes_between block_start block_end) \<Longrightarrow> keep \<le> t \<Longrightarrow> stored uc s' symbol t"
    by (rule fill_missing_complete [OF b(5) p ready b(1) i b(2,3) keep pos(1) f(3) e(1,2)]) blast
  then show ?thesis using pos f(3) le by (intro exI [of _ s'] conjI allI ballI impI) simp_all
qed

lemma backfill_stores:
  assumes p: "key_prefix uc symbol = Inr p" and start: "start mod minute_us = 0" and l: "latest + minute_us \<le> i64_max"
    and "ready_store uc since s" and "\<And>i. block_ready latest since (cutoff_us s) (clock i) (fd i)"
    and "\<And>i. cutoff_us s (clock i) \<le> start" and "\<And>i t. cutoff_us s (fd_saved_at (fd i) t) \<le> start"
    and "block_end mod minute_us = 0" and "block_end \<le> latest"
  shows "\<exists>s'. backfill uc clock fd symbol start i block_end s = Some (Inr (), s') \<and> ready_store uc since s' \<and> same_setup s s'
    \<and> (\<forall>t. stored uc s symbol t \<longrightarrow> stored uc s' symbol t)
    \<and> (\<forall>t \<in> set (minutes_between start block_end). stored uc s' symbol t)"
  using assms(4-)
proof (induction "nat (block_end - start)" arbitrary: block_end i s rule: less_induct)
  case (less block_end i s)
  note mem = minutes_mem [OF start]
  show ?case
  proof (cases "block_end \<le> start")
    case True
    then have "backfill uc clock fd symbol start i block_end s = Some (Inr (), s)" by (simp add: backfill.simps)
    then show ?thesis using True less.prems(1) mem by (auto simp: same_setup_def)
  next
    case False
    let ?x = "max (block_end - day_us) (cutoff_us s (clock i))"
    let ?bs = "first_complete_open ?x"
    have m: "0 < minute_us" "0 < day_us" by (simp_all add: minute_us_def day_us_def)
    from backfill_block [OF p less.prems(1) less.prems(2) [of i] less.prems(4) [of i] less.prems(5,6) l]
    obtain s1 where s1: "fill_missing uc (clock i) (fd i) s symbol ?bs block_end = (Inr (), s1)" "ready_store uc since s1" "same_setup s s1"
      "\<forall>t. stored uc s symbol t \<longrightarrow> stored uc s1 symbol t"
      "\<forall>t \<in> set (minutes_between ?bs block_end). start \<le> t \<longrightarrow> stored uc s1 symbol t"
      "cutoff_us s (clock i) \<le> ?bs" "?bs mod minute_us = 0" "?bs \<le> latest" by (elim exE conjE)
    have br: "0 < cutoff_us s (clock i)" "cutoff_us s (clock i) + minute_us \<le> latest"
      using less.prems(2) [of i] by (simp_all add: block_ready_def)
    have x: "0 \<le> ?x" "?x + minute_us \<le> i64_max" using br less.prems(6) l m by auto
    have small: "?bs < block_end"
    proof (cases "cutoff_us s (clock i) \<le> block_end - day_us")
      case True
      then have "?bs \<le> block_end - day_us" using fco_le_aligned [OF x, of "block_end - day_us"] day_aligned [OF less.prems(5)] by simp
      then show ?thesis using m by simp
    next
      case f: False
      then have "?bs \<le> start" using fco_le_aligned [OF x, of start] less.prems(3) [of i] start by simp
      then show ?thesis using False by simp
    qed
    then have dec: "nat (?bs - start) < nat (block_end - start)" using False by simp
    have cut: "cutoff_us s1 = cutoff_us s" by (rule same_setup_cutoff [OF s1(3)])
    from less.hyps [OF dec s1(2), unfolded cut, OF less.prems(2-4) s1(7,8), of "i + 1"]
    obtain s' where s': "backfill uc clock fd symbol start (i + 1) ?bs s1 = Some (Inr (), s')" "ready_store uc since s'" "same_setup s1 s'"
      "\<forall>t. stored uc s1 symbol t \<longrightarrow> stored uc s' symbol t" "\<forall>t \<in> set (minutes_between start ?bs). stored uc s' symbol t" by blast
    have step: "backfill uc clock fd symbol start i block_end s = Some (Inr (), s')"
      using False s1(1) s'(1) by (subst backfill.simps) (simp add: Let_def)
    have "stored uc s' symbol t" if t: "t \<in> set (minutes_between start block_end)" for t
    proof (cases "t < ?bs")
      case True
      then have "t \<in> set (minutes_between start ?bs)" using t unfolding mem by blast
      then show ?thesis using s'(5) by blast
    next
      case False
      then have "t \<in> set (minutes_between ?bs block_end)" "start \<le> t" using t unfolding mem minutes_mem [OF s1(7)] by auto
      then show ?thesis using s1(5) s'(4) by blast
    qed
    then show ?thesis using step s' s1(4) same_setup_trans [OF s1(3) s'(3)] by blast
  qed
qed

text \<open>Once retention has passed the start of the range, no block ever reaches it.\<close>

definition overtaken ::
    "i64 \<Rightarrow> i64 \<Rightarrow> unicode \<Rightarrow> (nat \<Rightarrow> i64) \<Rightarrow> (nat \<Rightarrow> feed) \<Rightarrow> string \<Rightarrow> i64 \<Rightarrow> i64 \<Rightarrow> kline_store \<Rightarrow> bool" where
  "overtaken latest since uc clock fd symbol start block_end s \<longleftrightarrow>
     \<not> isl (key_prefix uc symbol) \<and> start < block_end \<and> block_end mod minute_us = 0 \<and> block_end \<le> latest \<and> ready_store uc since s
     \<and> (\<forall>i. block_ready latest since (cutoff_us s) (clock i) (fd i)) \<and> (\<forall>i. start < cutoff_us s (clock i))"

lemma overtaken_block:
  fixes i :: nat
  assumes o: "overtaken latest since uc clock fd symbol start block_end s" and l: "latest + minute_us \<le> i64_max"
  defines "block_start \<equiv> first_complete_open (max (block_end - day_us) (cutoff_us s (clock i)))"
  shows "\<exists>s'. fill_missing uc (clock i) (fd i) s symbol block_start block_end = (Inr (), s')
    \<and> overtaken latest since uc clock fd symbol start block_start s'"
proof -
  from o have a: "\<not> isl (key_prefix uc symbol)" "start < block_end" "block_end mod minute_us = 0" "block_end \<le> latest"
    "ready_store uc since s" "\<And>i. block_ready latest since (cutoff_us s) (clock i) (fd i)" "\<And>i. start < cutoff_us s (clock i)"
    by (simp_all add: overtaken_def)
  obtain p where p: "key_prefix uc symbol = Inr p" using a(1) by (cases "key_prefix uc symbol") simp_all
  have keep: "\<And>t. cutoff_us s (fd_saved_at (fd i) t) \<le> i64_max" by (simp add: cutoff_us_def sat64_def i64_max_def i64_min_def)
  from backfill_block [OF p a(5) a(6) [of i] keep a(3,4) l]
  obtain s1 where s1: "fill_missing uc (clock i) (fd i) s symbol block_start block_end = (Inr (), s1)" "ready_store uc since s1" "same_setup s s1"
    "cutoff_us s (clock i) \<le> block_start" "block_start mod minute_us = 0" "block_start \<le> latest"
    unfolding block_start_def by (elim exE conjE)
  have "start < block_start" using s1(4) a(7) [of i] by linarith
  then have "overtaken latest since uc clock fd symbol start block_start s1"
    unfolding overtaken_def same_setup_cutoff [OF s1(3)] using s1(2,5,6) a(1,6,7) by simp
  with s1(1) show ?thesis by blast
qed

lemma backfill_overtaken_none:
  assumes "backfill uc clock fd symbol start i block_end s = Some r" and l: "latest + minute_us \<le> i64_max"
  shows "\<not> overtaken latest since uc clock fd symbol start block_end s"
proof (rule backfill.raw_induct [where P = "\<lambda>uc clock fd symbol start i block_end s r.
    \<not> overtaken latest since uc clock fd symbol start block_end s", OF _ assms(1)], rule notI)
  fix f uc clock fd symbol start i block_end s r
  assume IH: "\<And>uc clock fd symbol start i block_end s r. f uc clock fd symbol start i block_end s = Some r \<Longrightarrow>
      \<not> overtaken latest since uc clock fd symbol start block_end s"
    and r: "(if block_end \<le> start then Some (Inr (), s)
      else let block_start = first_complete_open (max (block_end - day_us) (cutoff_us s (clock i)))
        in case fill_missing uc (clock i) (fd i) s symbol block_start block_end of
             (Inl e, s) \<Rightarrow> Some (Inl e, s)
           | (Inr _, s) \<Rightarrow> f uc clock fd symbol start (i + 1) block_start s) = Some r"
    and o: "overtaken latest since uc clock fd symbol start block_end s"
  let ?bs = "first_complete_open (max (block_end - day_us) (cutoff_us s (clock i)))"
  obtain s' where s': "fill_missing uc (clock i) (fd i) s symbol ?bs block_end = (Inr (), s')"
    "overtaken latest since uc clock fd symbol start ?bs s'"
    using overtaken_block [OF o l] by blast
  have "start < block_end" using o by (simp add: overtaken_def)
  then have "f uc clock fd symbol start (i + 1) ?bs s' = Some r" using r s'(1) by (simp add: Let_def)
  from IH [OF this] s'(2) show False by blast
qed

lemma ready_status [simp]: "ready_store uc since (with_status f s) = ready_store uc since s"
  by (simp add: ready_store_def)

lemma stored_status [simp]: "stored uc (with_status f s) symbol t = stored uc s symbol t"
  by (simp add: stored_def)

lemma floor_mono: "now \<le> (later :: i64) \<Longrightarrow> now div minute_us * minute_us \<le> later div minute_us * minute_us"
  by (intro mult_right_mono zdiv_mono1) (simp_all add: minute_us_def)

lemma all_cached_facts:
  assumes ready: "ready_store uc since s" and p: "key_prefix uc symbol = Inr p" and now: "in_i64 now" "in_i64 start"
    and cut: "since \<le> cutoff_us s now" "0 < cutoff_us s now" "cutoff_us s now \<le> start"
    and al: "start mod minute_us = 0" "end_ts mod minute_us = 0" "start < end_ts" "end_ts \<le> now div minute_us * minute_us"
      "end_ts + minute_us \<le> i64_max"
  shows "\<exists>full s'. all_cached uc now s symbol start end_ts = (Inr full, s') \<and> ready_store uc since s' \<and> same_setup s s'
    \<and> (\<forall>t. stored uc s' symbol t = stored uc s symbol t)
    \<and> (full \<longrightarrow> (\<forall>t \<in> set (minutes_between start end_ts). stored uc s symbol t))"
proof -
  have b: "first_complete_open (max start (cutoff_us s now)) = start" "min end_ts (now div minute_us * minute_us) = end_ts"
  proof -
    have x: "0 \<le> start" "start + minute_us \<le> i64_max" using cut al by simp_all
    have "first_complete_open start = start"
      using fco_between(1) [OF x] fco_le_aligned [OF x order_refl al(1)] by simp
    then show "first_complete_open (max start (cutoff_us s now)) = start" using cut(3) by (simp add: max_def)
  qed (use al in simp)
  obtain s' where s': "scan_candles uc now s symbol start end_ts = (Inr (disk_between uc (cd_rows (ks_db s)) symbol start end_ts), s')"
    "ready_store uc since s'" "same_setup s s'" "ks_db s' = ks_db s"
    by (rule scan_ready [OF ready p now cut(1,2) al(2), unfolded b])
  let ?full = "length (disk_between uc (cd_rows (ks_db s)) symbol start end_ts) = nat ((end_ts - start) div minute_us)"
  have "stored uc s symbol t" if f: ?full and t: "t \<in> set (minutes_between start end_ts)" for t
    using map_filter_full [of "disk_candle uc (cd_rows (ks_db s)) symbol", OF _ t] f
    unfolding disk_between_def length_minutes_between [OF al(1-3)] stored_def by blast
  then show ?thesis using s' by (intro exI [of _ ?full] exI [of _ s']) (simp add: all_cached_def rmap_def stored_def)
qed

lemma ensure_range_waits:
  assumes "closed_range uc now s symbol start end_ts = Inr (a, b)" and "a < b" and "all_cached uc now s symbol a b = (Inr False, s1)"
  defines "leave \<equiv> with_status (\<lambda>t. t\<lparr>st_active_backfills := st_active_backfills t - 1\<rparr>)"
  shows "ensure_range uc now clock fd s symbol start end_ts =
    (case all_cached uc (clock 0) (with_status (\<lambda>t. t\<lparr>st_active_backfills := st_active_backfills t + 1\<rparr>) s1) symbol a b of
       (Inl e, s) \<Rightarrow> Some (Inl e, leave s)
     | (Inr True, s) \<Rightarrow> Some (Inr (), leave (count_cache_hit s))
     | (Inr False, s) \<Rightarrow> map_option (apsnd leave) (backfill uc clock fd symbol a 0 b s))"
  using assms(2) unfolding not_le [symmetric]
  by (simp only: ensure_range_def leave_def assms(1,3) sum.case prod.case bool.case Let_def if_False)

lemma closed_range_facts:
  assumes "key_prefix uc symbol = Inr p" and "ks_enabled s" and "0 < cutoff_us s now" and "cutoff_us s now \<le> start"
    and "now \<le> latest" and "start + minute_us \<le> i64_max" and "0 \<le> end_ts" and "end_ts + minute_us \<le> i64_max"
  defines "a \<equiv> first_complete_open start" and "b \<equiv> min (first_complete_open end_ts) (now div minute_us * minute_us)"
  shows "closed_range uc now s symbol start end_ts = Inr (a, b)" and "start \<le> a" and "a mod minute_us = 0" and "in_i64 a"
    and "b mod minute_us = 0" and "b \<le> now div minute_us * minute_us" and "b \<le> latest"
proof -
  have m: "0 < minute_us" by (simp add: minute_us_def)
  have x: "0 \<le> start" using assms(3,4) by simp
  show "closed_range uc now s symbol start end_ts = Inr (a, b)" using assms(1,2,4) by (simp add: closed_range_def a_def b_def)
  show "start \<le> a" "a mod minute_us = 0" "in_i64 a"
    using fco_between [OF x assms(6)] by (simp_all add: a_def first_complete_open_def wrap64_in_range)
  show "b mod minute_us = 0" using fco_between(3) [OF assms(7,8)] by (simp add: b_def min_def)
  show "b \<le> now div minute_us * minute_us" "b \<le> latest"
    using assms(5) pos_mod_sign [OF m, of now] minus_mod_eq_div_mult [of now minute_us] by (simp_all add: b_def)
qed

lemma ensure_range_facts:
  assumes coh: "coherent uc (cutoff_us s now) s" and p: "key_prefix uc symbol = Inr p"
    and up: "ks_enabled s" "cd_readable (ks_db s)" "cd_writable (ks_db s)"
    and now: "in_i64 now" "now \<le> latest" "latest + minute_us \<le> i64_max" and cut: "0 < cutoff_us s now" "cutoff_us s now \<le> start"
    and ends: "start + minute_us \<le> i64_max" "0 \<le> end_ts" "end_ts + minute_us \<le> i64_max"
    and clock: "\<And>i. now \<le> clock i \<and> in_i64 (clock i) \<and> cutoff_us s (clock i) \<le> start"
    and fd: "\<And>i. feed_complete latest (fd i)" and saved: "\<And>i t. cutoff_us s (fd_saved_at (fd i) t) \<le> start"
  defines "a \<equiv> first_complete_open start" and "b \<equiv> min (first_complete_open end_ts) (now div minute_us * minute_us)"
  shows "\<exists>s'. ensure_range uc now clock fd s symbol start end_ts = Some (Inr (), s') \<and> (\<forall>t \<in> set (minutes_between a b). stored uc s' symbol t)"
proof -
  let ?since = "cutoff_us s now"
  note range = closed_range_facts [OF p up(1) cut now(2) ends, folded a_def b_def]
  note cr = range(1) and a = range(2-4) and bm = range(5) and bn = range(6,7)
  show ?thesis
  proof (cases "b \<le> a")
    case True
    then have "minutes_between a b = []" using minutes_mem [OF a(2), of "hd (minutes_between a b)" b] by (metis linorder_not_less list.set_sel(1) order.trans)
    then show ?thesis using True by (simp add: ensure_range_def cr)
  next
    case False
    then have ab: "a < b" "b + minute_us \<le> i64_max" using bn(2) now(3) by simp_all
    have room: "a + minute_us \<le> b" by (rule aligned_step [OF ab(1) a(2) bm])
    have r: "ready_store uc ?since s" using coh up by (simp add: ready_store_def)
    have ca: "cutoff_us s now \<le> a" using cut(2) a(1) by simp
    from all_cached_facts [OF r p now(1) a(3) order_refl cut(1) ca a(2) bm ab(1) bn(1) ab(2)]
    obtain f1 s1 where c1: "all_cached uc now s symbol a b = (Inr f1, s1)" "ready_store uc ?since s1" "same_setup s s1"
      "\<forall>t. stored uc s1 symbol t = stored uc s symbol t" "f1 \<longrightarrow> (\<forall>t \<in> set (minutes_between a b). stored uc s symbol t)"
      by (elim exE conjE)
    show ?thesis
    proof (cases f1)
      case True
      then show ?thesis using c1 False by (simp add: ensure_range_def cr count_cache_hit_def)
    next
      case f1: False
      define s2 where "s2 = with_status (\<lambda>t. t\<lparr>st_active_backfills := st_active_backfills t + 1\<rparr>) s1"
      define leave where "leave = with_status (\<lambda>t. t\<lparr>st_active_backfills := st_active_backfills t - 1\<rparr>)"
      have r2: "ready_store uc ?since s2" using c1(2) by (simp add: s2_def)
      have cut2: "cutoff_us s2 = cutoff_us s" using same_setup_cutoff [OF c1(3)] by (simp add: s2_def)
      have since: "?since \<le> cutoff_us s (clock i)" "0 < cutoff_us s (clock i)" "cutoff_us s (clock i) \<le> a" for i
        using cutoff_mono [of now "clock i" s] clock [of i] cut(1) a(1) by simp_all
      have b0: "b \<le> clock 0 div minute_us * minute_us" using floor_mono [of now "clock 0"] clock [of 0] bn(1) by linarith
      have i0: "in_i64 (clock 0)" using clock by blast
      from all_cached_facts [OF r2 p i0 a(3), unfolded cut2, OF since [of 0] a(2) bm ab(1) b0 ab(2)]
      obtain f3 s3 where c3: "all_cached uc (clock 0) s2 symbol a b = (Inr f3, s3)" "ready_store uc ?since s3" "same_setup s2 s3"
        "\<forall>t. stored uc s3 symbol t = stored uc s2 symbol t" "f3 \<longrightarrow> (\<forall>t \<in> set (minutes_between a b). stored uc s2 symbol t)"
        by (elim exE conjE)
      have "all_cached uc now s symbol a b = (Inr False, s1)" using c1(1) f1 by simp
      note er = ensure_range_waits [OF cr ab(1) this, folded s2_def leave_def]
      have left: "stored uc (leave s) symbol t = stored uc s symbol t" "stored uc (count_cache_hit s) symbol t = stored uc s symbol t" for s t
        by (simp_all add: leave_def count_cache_hit_def)
      show ?thesis
      proof (cases f3)
        case True
        then show ?thesis using c3(4,5) by (simp add: er c3(1) left)
      next
        case f3: False
        have cut3: "cutoff_us s3 = cutoff_us s" using same_setup_cutoff [OF c3(3)] cut2 by simp
        have blk: "\<And>i. block_ready latest ?since (cutoff_us s3) (clock i) (fd i)"
          using since clock fd room bn(2) unfolding block_ready_def cut3 by (metis add_le_cancel_right order.trans)
        have k3: "\<And>i. cutoff_us s3 (clock i) \<le> a" "\<And>i t. cutoff_us s3 (fd_saved_at (fd i) t) \<le> a"
          using since(3) saved a(1) order.trans unfolding cut3 by blast+
        from backfill_stores [where clock = clock and fd = fd and i = 0, OF p a(2) now(3) c3(2) blk k3 bm bn(2)]
        obtain s4 where s4: "backfill uc clock fd symbol a 0 b s3 = Some (Inr (), s4)"
          "\<forall>t \<in> set (minutes_between a b). stored uc s4 symbol t" by blast
        have "ensure_range uc now clock fd s symbol start end_ts = Some (Inr (), leave s4)"
          using f3 by (simp add: er c3(1) s4(1))
        then show ?thesis using s4(2) by (simp add: left)
      qed
    qed
  qed
qed

lemma late_lookup_short:
  assumes ready: "ready_store uc since s" and p: "key_prefix uc symbol = Inr p" and now: "in_i64 now" "in_i64 start"
    and cut: "since \<le> cutoff_us s now" "0 < cutoff_us s now" "start < cutoff_us s now" "cutoff_us s now + minute_us \<le> i64_max"
    and al: "start mod minute_us = 0" "end_ts mod minute_us = 0" "start < end_ts"
  shows "\<exists>s'. all_cached uc now s symbol start end_ts = (Inr False, s') \<and> ready_store uc since s' \<and> same_setup s s'"
proof -
  let ?a = "first_complete_open (max start (cutoff_us s now))" and ?b = "min end_ts (now div minute_us * minute_us)"
  have m: "0 < minute_us" by (simp add: minute_us_def)
  obtain s' where s': "scan_candles uc now s symbol start end_ts = (Inr (disk_between uc (cd_rows (ks_db s)) symbol ?a ?b), s')"
    "ready_store uc since s'" "same_setup s s'"
    by (rule scan_ready [OF ready p now cut(1,2) al(2)])
  have x: "0 \<le> max start (cutoff_us s now)" "max start (cutoff_us s now) + minute_us \<le> i64_max" using cut by simp_all
  have "start + minute_us \<le> ?a" using aligned_step [of start ?a] fco_between(1,3) [OF x] al(1) cut(3) by simp
  then have b: "?b - ?a + minute_us - 1 < end_ts - start" using m by simp
  have "(end_ts - start) mod minute_us = 0" using al(1,2) by (metis cancel_comm_monoid_add_class.diff_cancel mod_0 mod_diff_eq)
  then obtain q where q: "end_ts - start = q * minute_us" by (metis add.right_neutral div_mult_mod_eq)
  have "(?b - ?a + minute_us - 1) div minute_us < q"
  proof (rule ccontr)
    assume "\<not> (?b - ?a + minute_us - 1) div minute_us < q"
    then have "q * minute_us \<le> (?b - ?a + minute_us - 1) div minute_us * minute_us" using m by (intro mult_right_mono) simp_all
    also have "\<dots> \<le> ?b - ?a + minute_us - 1"
      using pos_mod_sign [OF m, of "?b - ?a + minute_us - 1"] unfolding minus_mod_eq_div_mult [symmetric] by linarith
    finally show False using b unfolding q by simp
  qed
  moreover have "0 < q" using q al(3) m by (metis diff_gt_0_iff_gt zero_less_mult_pos2)
  ultimately have "length (minutes_between ?a ?b) < nat ((end_ts - start) div minute_us)" unfolding q minutes_between_def using m by simp
  moreover have "length (disk_between uc (cd_rows (ks_db s)) symbol ?a ?b) \<le> length (minutes_between ?a ?b)"
    by (simp add: disk_between_def List.map_filter_def)
  ultimately have "length (disk_between uc (cd_rows (ks_db s)) symbol ?a ?b) \<noteq> nat ((end_ts - start) div minute_us)" by linarith
  then show ?thesis using s' by (intro exI [of _ s']) (simp add: all_cached_def rmap_def)
qed

text \<open>
  C15: A range inside retention is completed. With a database that answers, feeds that answer every page with
  all its candles and a start that stays inside retention while the call runs, \<open>ensure_range\<close> returns, without
  an error and with every closed minute of the range in the table, whatever was there before.
\<close>

theorem ensure_range_stores:
  assumes "kline_reach uc s clock0" and "clock0 \<le> now" and "in_i64 now" and "key_prefix uc symbol = Inr p"
    and "ks_enabled s" and "cd_readable (ks_db s)" and "cd_writable (ks_db s)"
    and "now \<le> latest" and "latest + minute_us \<le> i64_max" and "0 < cutoff_us s now" and "cutoff_us s now \<le> start"
    and "start + minute_us \<le> i64_max" and "0 \<le> end_ts" and "end_ts + minute_us \<le> i64_max"
    and "\<And>i. now \<le> clock i \<and> in_i64 (clock i) \<and> cutoff_us s (clock i) \<le> start"
    and "\<And>i. feed_complete latest (fd i)" and "\<And>i t. cutoff_us s (fd_saved_at (fd i) t) \<le> start"
  shows "\<exists>s'. ensure_range uc now clock fd s symbol start end_ts = Some (Inr (), s')
    \<and> (\<forall>t \<in> set (minutes_between (first_complete_open start) (min (first_complete_open end_ts) (now div minute_us * minute_us))).
        disk_candle uc (cd_rows (ks_db s')) symbol t \<noteq> None)"
  by (rule ensure_range_facts [OF reach_later [OF assms(1,2)] assms(4-7,3,8-17), unfolded stored_def])

text \<open>
  C17: The backfill of a range whose start falls out of retention before its first block never ends. The blocks
  stop at the first minute still retained and the loop asks for the start of the range: with a missing minute, a
  database that answers, complete feeds and a cutoff past the start at every block's reading of the clock,
  \<open>ensure_range\<close> does not return.
\<close>

theorem ensure_range_never_returns:
  assumes "kline_reach uc s clock0" and "clock0 \<le> now" and "in_i64 now" and "key_prefix uc symbol = Inr p"
    and "ks_enabled s" and "cd_readable (ks_db s)" and "cd_writable (ks_db s)"
    and "now \<le> latest" and "latest + minute_us \<le> i64_max" and "0 < cutoff_us s now" and "cutoff_us s now \<le> start"
    and "start + minute_us \<le> i64_max" and "0 \<le> end_ts" and "end_ts + minute_us \<le> i64_max"
    and missing: "t \<in> set (minutes_between (first_complete_open start) (min (first_complete_open end_ts) (now div minute_us * minute_us)))"
      "disk_candle uc (cd_rows (ks_db s)) symbol t = None"
    and clock: "\<And>i. now \<le> clock i \<and> in_i64 (clock i) \<and> cutoff_us s (clock i) + minute_us \<le> latest"
    and late: "\<And>i. first_complete_open start < cutoff_us s (clock i)" and fd: "\<And>i. feed_complete latest (fd i)"
  shows "ensure_range uc now clock fd s symbol start end_ts = None"
proof -
  define a where "a = first_complete_open start"
  define b where "b = min (first_complete_open end_ts) (now div minute_us * minute_us)"
  note range = closed_range_facts [OF assms(4,5,10,11,8,12-14), folded a_def b_def]
  have r: "ready_store uc (cutoff_us s now) s" using reach_later [OF assms(1,2)] assms(6,7) by (simp add: ready_store_def)
  have t: "a \<le> t" "t < b" using missing(1) unfolding a_def [symmetric] b_def [symmetric] minutes_mem [OF range(3)] by auto
  then have ab: "a < b" by simp
  have "cutoff_us s now \<le> a" "b + minute_us \<le> i64_max" using assms(9,11) range(2,7) by simp_all
  from all_cached_facts [OF r assms(4,3) range(4) order_refl assms(10) this(1) range(3,5) ab range(6) this(2)]
  obtain full s1 where c1: "all_cached uc now s symbol a b = (Inr full, s1)" "ready_store uc (cutoff_us s now) s1" "same_setup s s1"
    "full \<longrightarrow> (\<forall>t \<in> set (minutes_between a b). stored uc s symbol t)" by (elim exE conjE)
  then have nf: "all_cached uc now s symbol a b = (Inr False, s1)"
    using missing unfolding a_def [symmetric] b_def [symmetric] stored_def by (cases full) auto
  define s2 where "s2 = with_status (\<lambda>t. t\<lparr>st_active_backfills := st_active_backfills t + 1\<rparr>) s1"
  have s2: "ready_store uc (cutoff_us s now) s2" "cutoff_us s2 = cutoff_us s"
    using c1(2) same_setup_cutoff [OF c1(3)] by (simp_all add: s2_def)
  have cut: "cutoff_us s now \<le> cutoff_us s (clock i)" "0 < cutoff_us s (clock i)" "a < cutoff_us s (clock i)"
    "cutoff_us s (clock i) + minute_us \<le> i64_max" for i
    using cutoff_mono [of now "clock i" s] clock [of i] late [of i] assms(9,10) by (simp_all add: a_def minute_us_def)
  have i0: "in_i64 (clock 0)" using clock by blast
  from late_lookup_short [OF s2(1) assms(4) i0 range(4), unfolded s2(2), OF cut [of 0] range(3,5) ab]
  obtain s3 where c3: "all_cached uc (clock 0) s2 symbol a b = (Inr False, s3)" "ready_store uc (cutoff_us s now) s3" "same_setup s2 s3"
    by (elim exE conjE)
  have cut3: "cutoff_us s3 = cutoff_us s" using same_setup_cutoff [OF c3(3)] s2(2) by simp
  have blk: "\<And>i. block_ready latest (cutoff_us s now) (cutoff_us s3) (clock i) (fd i)"
    using cut clock fd by (simp add: block_ready_def cut3)
  have "overtaken latest (cutoff_us s now) uc clock fd symbol a b s3"
    using assms(4) ab range(5,7) c3(2) blk cut(3) by (simp add: overtaken_def cut3)
  then have "backfill uc clock fd symbol a 0 b s3 = None"
    using backfill_overtaken_none [OF _ assms(9)] by (metis not_None_eq)
  then show ?thesis
    unfolding ensure_range_waits [OF range(1) ab nf, where clock = clock and fd = fd, folded s2_def] by (simp add: c3(1))
qed

lemma fco_aligned: "0 \<le> x \<Longrightarrow> x + minute_us \<le> i64_max \<Longrightarrow> x mod minute_us = 0 \<Longrightarrow> first_complete_open x = x"
  using fco_between(1) [of x] fco_le_aligned [of x x] by simp

lemma fill_pages_asks:
  assumes "start mod minute_us = 0" and "fd_saved_at fd = fd_saved_at fd'"
    and "\<And>first page_end. start \<le> first \<Longrightarrow> first < page_end \<Longrightarrow> page_end \<le> upper \<Longrightarrow> first mod minute_us = 0 \<Longrightarrow>
      page_end - first \<le> page_limit * minute_us \<Longrightarrow> (\<forall>t \<in> set (minutes_between first page_end). t \<notin> set existing) \<Longrightarrow>
      fd_page fd first page_end = fd_page fd' first page_end"
    and "edge mod minute_us = 0" and "edge \<le> upper"
  shows "fill_pages uc fd symbol existing start edge s = fill_pages uc fd' symbol existing start edge s"
  using assms(4,5)
proof (induction "nat (edge - start)" arbitrary: edge s rule: less_induct)
  case (less edge s)
  have m: "0 < minute_us" by (simp add: minute_us_def)
  consider "edge \<le> start" | "start < edge" "edge - minute_us \<in> set existing" | "start < edge" "edge - minute_us \<notin> set existing" by linarith
  then show ?case
  proof cases
    case 1
    then show ?thesis by (simp add: fill_pages.simps)
  next
    case 2
    have small: "nat (edge - minute_us - start) < nat (edge - start)" and le: "edge - minute_us \<le> upper" using 2 m less.prems(2) by simp_all
    show ?thesis
      using 2 less.hyps [OF small aligned_minus [OF less.prems(1)] le]
      by (subst (1 2) fill_pages.simps) simp
  next
    case 3
    let ?first = "page_start existing start edge (edge - minute_us)"
    have se: "start \<le> edge - minute_us" using aligned_step [OF 3(1) assms(1) less.prems(1)] by simp
    note first = page_start_facts [OF se assms(1) aligned_minus [OF less.prems(1)] less.prems(1), of existing]
    have f: "start \<le> ?first" "?first mod minute_us = 0" "edge - ?first \<le> page_limit * minute_us"
      "\<And>t. ?first \<le> t \<Longrightarrow> t < edge - minute_us \<Longrightarrow> t mod minute_us = 0 \<Longrightarrow> t \<notin> set existing"
      using first m by (simp_all add: page_limit_def)
    have fl: "?first < edge" using page_start_le [of existing start edge "edge - minute_us"] m by simp
    have "t \<notin> set existing" if t: "t \<in> set (minutes_between ?first edge)" for t
    proof (cases "t < edge - minute_us")
      case True
      moreover have "?first \<le> t" "t mod minute_us = 0" using t unfolding minutes_mem [OF f(2)] by auto
      ultimately show ?thesis using f(4) [of t] by simp
    next
      case False
      have "t < edge" "t mod minute_us = 0" using t unfolding minutes_mem [OF f(2)] by auto
      then have "t = edge - minute_us" using False aligned_step [of t edge] less.prems(1) by simp
      then show ?thesis using 3(2) by blast
    qed
    then have page: "fd_page fd ?first edge = fd_page fd' ?first edge" using assms(3) [OF f(1) fl less.prems(2) f(2,3)] by blast
    have small: "nat (?first - start) < nat (edge - start)" and le: "?first \<le> upper" using fl f(1) 3(1) less.prems(2) by simp_all
    note step = less.hyps [OF small f(2) le]
    show ?thesis
    proof (cases "fd_page fd' ?first edge")
      case (Inl e)
      then show ?thesis using 3 page by (subst (1 2) fill_pages.simps) (simp add: Let_def)
    next
      case (Inr candles)
      obtain u s1 where sv: "save_page uc (fd_saved_at fd' ?first) s symbol ?first edge candles = (u, s1)" by (rule prod.exhaust)
      then show ?thesis
        using 3 page Inr assms(2) step [of "with_status (\<lambda>t. t\<lparr>st_last_error := None\<rparr>) s1"]
        by (subst (1 2) fill_pages.simps) (cases u, simp_all add: Let_def)
    qed
  qed
qed

text \<open>
  C16: A candle that is stored is never asked for again, and no request is longer than an exchange accepts.
  Filling a range consults the feed only for pages of at most 499 minutes inside the range none of which is
  in the table: two feeds that agree on those pages lead to the same result and the same store.
\<close>

theorem fill_asks_missing:
  assumes reach: "kline_reach uc s clock0" "clock0 \<le> now" and now: "in_i64 now" "in_i64 start" and p: "key_prefix uc symbol = Inr p"
    and db: "cd_readable (ks_db s)" and cut: "0 \<le> cutoff_us s now" "cutoff_us s now \<le> start"
    and al: "start mod minute_us = 0" "end_ts mod minute_us = 0" "end_ts \<le> now div minute_us * minute_us"
    and agree: "fd_saved_at fd = fd_saved_at fd'"
      "\<And>first edge. start \<le> first \<Longrightarrow> first < edge \<Longrightarrow> edge \<le> end_ts \<Longrightarrow> edge - first \<le> 499 * minute_us \<Longrightarrow>
        (\<forall>t \<in> set (minutes_between first edge). disk_candle uc (cd_rows (ks_db s)) symbol t = None) \<Longrightarrow>
        fd_page fd first edge = fd_page fd' first edge"
  shows "fill_missing uc now fd s symbol start end_ts = fill_missing uc now fd' s symbol start end_ts"
proof -
  let ?D = "disk_candle uc (cd_rows (ks_db s)) symbol"
  obtain r s' where sc: "scan_candles uc now s symbol start end_ts = (r, s')" by (rule prod.exhaust)
  show ?thesis
  proof (cases "end_ts \<le> start")
    case True
    then show ?thesis by (simp add: fill_missing_def sc fill_pages.simps split: sum.split)
  next
    case False
    have m: "0 < minute_us" by (simp add: minute_us_def)
    have "now div minute_us * minute_us \<le> now" using pos_mod_sign [OF m, of now] minus_mod_eq_div_mult [of now minute_us] by simp
    moreover have "now \<le> i64_max" using now(1) by (simp add: in_i64_def)
    ultimately have x: "0 \<le> start" "start + minute_us \<le> i64_max" using cut al aligned_step [of start end_ts] False by simp_all
    have b: "first_complete_open (max start (cutoff_us s now)) = start" "min end_ts (now div minute_us * minute_us) = end_ts"
      using fco_aligned [OF x al(1)] cut(2) al(3) by (simp_all add: max_def)
    have r: "r = Inr (disk_between uc (cd_rows (ks_db s)) symbol start end_ts)"
      using scan_table [OF reach_later [OF reach] order_refl cut(1) _ db now al(2), of symbol] p sc unfolding b by simp
    let ?existing = "map kl_open_ts_us (disk_between uc (cd_rows (ks_db s)) symbol start end_ts)"
    have gone: "?D t = None" if t: "t \<notin> set ?existing" "t \<in> set (minutes_between start end_ts)" for t
    proof (rule ccontr)
      assume "?D t \<noteq> None"
      then obtain k where k: "?D t = Some k" by blast
      then have "k \<in> set (disk_between uc (cd_rows (ks_db s)) symbol start end_ts)" "kl_open_ts_us k = t"
        using t(2) disk_candle_SomeD [of uc _ symbol t k] by (force simp: disk_between_def List.map_filter_def)+
      then show False using t(1) by auto
    qed
    have same: "fd_page fd first edge = fd_page fd' first edge"
      if g: "start \<le> first" "first < edge" "edge \<le> end_ts" "first mod minute_us = 0" "edge - first \<le> page_limit * minute_us"
        "\<forall>t \<in> set (minutes_between first edge). t \<notin> set ?existing" for first edge
    proof (rule agree(2) [OF g(1-3)])
      show "edge - first \<le> 499 * minute_us" using g(5) by (simp add: page_limit_def)
      show "\<forall>t \<in> set (minutes_between first edge). ?D t = None"
      proof
        fix t assume t: "t \<in> set (minutes_between first edge)"
        then have "t \<in> set (minutes_between start end_ts)" using g(1,3) unfolding minutes_mem [OF g(4)] minutes_mem [OF al(1)] by auto
        then show "?D t = None" using gone g(6) t by blast
      qed
    qed
    show ?thesis unfolding fill_missing_def sc r prod.case sum.case
      by (rule fill_pages_asks [OF al(1) agree(1) same al(2) order_refl])
  qed
qed

subsection \<open>Instances\<close>

theorem request_weight_budget_witness:
  "weight_sum (filter (\<lambda>r. 0 \<le> fst r \<and> fst r < 0 + gate_window) [(5, 4)]) \<le> 10"
proof -
  have "gate_run 10 \<lparr>wg_reservations = [(5, 4)], wg_used = 4, wg_blocked_until = 0\<rparr> (if None = (None :: nat option) then [] @ [(5, 4)] else []) 5"
    by (rule gate_run.request [OF gate_run.start [of 10 0], where weight = 4])
      (simp_all add: gate_reserve_def rensure_def add_u32_def Let_def)
  then show ?thesis using request_weight_budget [where budget = 10 and t = 0] by simp
qed

theorem request_wait_suffices_witness:
  "\<exists>ready g'. gate_reserve \<lparr>wg_reservations = [], wg_used = 0, wg_blocked_until = 3\<rparr> 7 8 10 = Inr (ready, g') \<and>
    (\<forall>t. ready = Some t \<longrightarrow> 7 < t \<and> ((3 :: nat) \<le> 7 \<longrightarrow> (\<exists>g''. gate_reserve g' t 8 10 = Inr (None, g''))))"
  using request_wait_suffices [OF gate_run.start [of 10 3], of 7 8] by simp

definition sample_feed :: feed where
  "sample_feed = \<lparr>fd_page = (\<lambda>first edge. Inr (map sample_candle (minutes_between first edge))), fd_saved_at = (\<lambda>_. sample_minute + minute_us)\<rparr>"

lemma sample_candle_ok:
  "0 < t \<Longrightarrow> t + minute_us \<le> i64_max \<Longrightarrow> t mod minute_us = 0 \<Longrightarrow>
   kl_typed (sample_candle t) \<and> kl_validate (sample_candle t) = Inr () \<and> kl_end_ts_us (sample_candle t) = t + minute_us"
  by (simp add: kl_typed_def kl_validate_Inr sample_candle_def in_i64_def i64_min_def i64_max_def minute_us_def one_facts
      kl_end_ts_us_def wrap64_id)

lemma sample_feed_complete: "latest \<le> i64_max \<Longrightarrow> feed_complete latest sample_feed"
  unfolding feed_complete_def
proof (intro allI impI)
  fix first edge :: i64
  assume l: "latest \<le> i64_max" and e: "0 < first \<and> first < edge \<and> edge \<le> latest \<and> first mod minute_us = 0 \<and> edge mod minute_us = 0
    \<and> edge - first \<le> page_limit * minute_us"
  let ?ks = "map sample_candle (minutes_between first edge)"
  have fm: "first mod minute_us = 0" using e by blast
  have ok: "kl_typed (sample_candle t) \<and> kl_validate (sample_candle t) = Inr () \<and> first \<le> t \<and> kl_end_ts_us (sample_candle t) \<le> edge"
    if "t \<in> set (minutes_between first edge)" for t
  proof -
    have t: "first \<le> t" "t < edge" "t mod minute_us = 0" using that unfolding minutes_mem [OF fm] by auto
    then have "t + minute_us \<le> edge" using aligned_step [of t edge] e by simp
    then show ?thesis using sample_candle_ok [of t] t e l by auto
  qed
  have opens: "kl_open_ts_us (sample_candle t) = t" for t by (simp add: sample_candle_def)
  have "page_ok latest first edge ?ks"
    using ok e minutes_sorted [of first edge] by (fastforce simp: page_ok_def opens comp_def)
  then show "\<exists>ks. fd_page sample_feed first edge = Inr ks \<and> page_ok latest first edge ks
      \<and> (\<forall>t \<in> set (minutes_between first edge). t \<in> kl_open_ts_us ` set ks)"
    by (intro exI [of _ ?ks]) (auto simp: sample_feed_def opens image_image)
qed

definition sample_now :: i64 where
  "sample_now = sample_minute + 2 * minute_us"

lemma sample_numbers:
  "in_i64 sample_minute" "in_i64 sample_now" "in_i64 (sample_minute + minute_us)" "sample_minute mod minute_us = 0"
  "sample_now mod minute_us = 0" "sample_now div minute_us * minute_us = sample_now" "sample_minute + minute_us \<le> sample_now"
  "sample_now + minute_us \<le> i64_max" "0 < sample_minute" "sample_minute < sample_now" "0 < sample_now"
  by (simp_all add: sample_now_def sample_minute_def minute_us_def in_i64_def i64_min_def i64_max_def)

lemma sample_fco: "first_complete_open sample_minute = sample_minute" "first_complete_open sample_now = sample_now"
  using sample_numbers by (simp_all add: fco_aligned)

lemma sample_cutoffs: "cutoff_us sample_store (sample_minute + minute_us) = 120000000" "cutoff_us sample_store sample_now = 180000000"
  by (simp_all add: cutoff_us_def sample_store_def sample_now_def sample_minute_def minute_us_def day_us_def wrap64_def sat64_def
      i64_min_def i64_max_def)

lemma sample_open: "ks_enabled sample_store" "cd_readable (ks_db sample_store)" "cd_writable (ks_db sample_store)"
  by (simp_all add: sample_store_def)

theorem fill_asks_missing_witness:
  "fill_missing ascii_unicode sample_now sample_feed sample_store ''BTC'' sample_minute sample_now
     = fill_missing ascii_unicode sample_now
         (sample_feed\<lparr>fd_page := \<lambda>first edge. if first = sample_minute then Inl CandleSymbol else fd_page sample_feed first edge\<rparr>)
         sample_store ''BTC'' sample_minute sample_now"
proof (rule fill_asks_missing [OF sample_reach _ _ _ sample_prefix])
  fix first edge :: i64
  assume "first < edge" "\<forall>t \<in> set (minutes_between first edge). disk_candle ascii_unicode (cd_rows (ks_db sample_store)) ''BTC'' t = None"
  moreover have "sample_minute \<in> set (minutes_between sample_minute edge)" if "sample_minute < edge"
    using that sample_numbers(4) by (simp add: minutes_mem)
  ultimately have "first \<noteq> sample_minute" using sample_table(2) by fastforce
  then show "fd_page sample_feed first edge = fd_page (sample_feed\<lparr>fd_page := \<lambda>first edge.
      if first = sample_minute then Inl CandleSymbol else fd_page sample_feed first edge\<rparr>) first edge" by simp
qed (use sample_numbers sample_open sample_cutoffs in \<open>simp_all add: sample_minute_def\<close>)

theorem ensure_range_stores_witness:
  "\<exists>s'. ensure_range ascii_unicode sample_now (\<lambda>_. sample_now) (\<lambda>_. sample_feed) sample_store ''BTC'' sample_minute sample_now
      = Some (Inr (), s')
    \<and> (\<forall>t \<in> set (minutes_between sample_minute sample_now). disk_candle ascii_unicode (cd_rows (ks_db s')) ''BTC'' t \<noteq> None)"
proof -
  have late: "cutoff_us sample_store (fd_saved_at sample_feed t) \<le> sample_minute" for t
    by (simp add: sample_feed_def sample_cutoffs) (simp add: sample_minute_def)
  have l: "sample_now \<le> i64_max" using sample_numbers(8) by (simp add: minute_us_def)
  have e: "sample_minute + minute_us \<le> i64_max" "cutoff_us sample_store sample_now \<le> sample_minute"
    using sample_numbers(7) l sample_cutoffs by (simp_all add: sample_minute_def)
  show ?thesis
    using ensure_range_stores [OF sample_reach sample_numbers(7,2) sample_prefix sample_open order_refl sample_numbers(8) _ e(2,1)
        less_imp_le [OF sample_numbers(11)] sample_numbers(8), of "\<lambda>_. sample_now" "\<lambda>_. sample_feed"]
      sample_feed_complete [OF l] late e(2) sample_numbers(2)
    by (simp add: sample_cutoffs sample_fco sample_numbers(6))
qed

theorem ensure_range_never_returns_witness:
  "ensure_range ascii_unicode sample_now (\<lambda>_. sample_now + 2 * minute_us) (\<lambda>_. sample_feed) sample_store ''BTC''
     (3 * minute_us) sample_now = None"
proof -
  have c: "cutoff_us sample_store (sample_now + 2 * minute_us) = 300000000"
    by (simp add: cutoff_us_def sample_store_def sample_now_def sample_minute_def minute_us_def day_us_def wrap64_def sat64_def
        i64_min_def i64_max_def)
  have a: "first_complete_open (3 * minute_us) = 3 * minute_us"
    by (rule fco_aligned) (simp_all add: minute_us_def i64_max_def)
  let ?t = "sample_minute + minute_us"
  have empty: "disk_candle ascii_unicode [] symbol t = None" for symbol t by (simp add: disk_candle_def split: sum.split)
  have "disk_candle ascii_unicode (cd_rows (ks_db sample_store)) ''BTC'' ?t = None"
    using put_candle [of ascii_unicode "[]" "''BTC''" "sample_candle sample_minute" btc_key] sample_facts btc_key_of
    by (simp add: rows_ok_def sample_store_def empty) (simp add: minute_us_def)
  moreover have "?t \<in> set (minutes_between (3 * minute_us) sample_now)"
    by (simp add: minutes_mem) (simp add: sample_now_def sample_minute_def minute_us_def)
  ultimately show ?thesis
    using ensure_range_never_returns [OF sample_reach sample_numbers(7,2) sample_prefix sample_open, of "sample_now + 4 * minute_us" "3 * minute_us"
        sample_now ?t "\<lambda>_. sample_now + 2 * minute_us" "\<lambda>_. sample_feed"] sample_feed_complete [of "sample_now + 4 * minute_us"]
    by (simp add: a sample_fco sample_numbers(6) c sample_cutoffs)
      (simp add: sample_now_def sample_minute_def minute_us_def in_i64_def i64_min_def i64_max_def)
qed

end
