(* ===== verification/Spec2Isabelle.thy ===== *)
theory Spec2Isabelle
  imports Service RateLimit CandleFetch
begin

text \<open>
  The core of the CTA manager (\<open>src/src/*.rs\<close>): how the profit and loss of trading accounts is
  computed from the records an execution process leaves behind.

  \<^bold>\<open>The program.\<close> Execution processes write order and trade records into RocksDB. The manager reads
  them (\<open>rocks_source.rs\<close>), decodes them (\<open>model.rs\<close>), chooses an opening position (\<open>snapshot.rs\<close>),
  attributes every fill to a strategy, applies audited ownership corrections (\<open>nav/allocation.rs\<close>) and
  replays the fills through FIFO lot ledgers per market and per strategy (\<open>nav.rs\<close>). The dashboard
  asks for three reports: the account report, a window of the timeline on a fixed sampling grid, and
  the rows of one strategy. A per-source cache with hourly checkpoints is kept up to date
  incrementally, and query results are shared between callers (\<open>analysis.rs\<close>). Theoretical results are
  priced from public minute candles kept in a table of their own (\<open>kline.rs\<close>). Beside it, treasury
  workflows spend from one exchange request budget (\<open>treasury_rate_limit.rs\<close>).

  \<^bold>\<open>Theories, in the order of the data.\<close>

  \<^item> \<open>Prelude\<close>: results as sums, fallible loops, binary search, saturating and wrapping integers.
  \<^item> \<open>OrdMap\<close>: \<open>BTreeMap\<close> and \<open>BTreeSet\<close> as sorted association lists, with a locale for the map contract.
  \<^item> \<open>F64\<close>: IEEE binary64 as extended rationals with round-half-even, NaN and infinities; ticks are
    the dyadic grids on which sums are exact. The sign of zero and NaN payloads are not distinguished.
  \<^item> \<open>Text\<close>: ASCII string operations of the standard library, \<open>trim\<close>, unsigned parsing.
  \<^item> \<open>Fifo\<close>: \<open>QuantityFifo\<close> and \<open>close_fifo\<close>. The loop is a \<open>function\<close> whose termination proof rests on
    rounding never leaving a positive remainder of a lot that was matched.
  \<^item> \<open>Decode\<close>: \<open>model.rs\<close>, byte for byte, with lossy UTF-8.
  \<^item> \<open>Config\<close>: source configuration and fee rates (\<open>config.rs\<close>).
  \<^item> \<open>Venue\<close>: \<open>VenueState\<close>, the report builders, aggregation, liquidity evidence, strategy attribution.
  \<^item> \<open>Snapshot\<close>: \<open>snapshot.rs\<close> and the strategy names of \<open>order_config.rs\<close>.
  \<^item> \<open>Allocation\<close>: corrections and their restatements; the fingerprint (SHA-256) is a parameter.
  \<^item> \<open>Timeline\<close>: \<open>prepare_source_events\<close>, \<open>TimelineSourceState\<close>, \<open>CachedTimelineSource\<close>.
  \<^item> \<open>Corrections\<close>: the opening snapshot and the ownership corrections of a replay, each applied once and
    in order, whichever fill, sample or end of a window first finds them due.
  \<^item> \<open>Checkpoint\<close>, \<open>Refresh\<close>: what the incremental cache promises.
  \<^item> \<open>Valuation\<close>, \<open>Dashboard\<close>, \<open>Windows\<close>: samples, windows and reports, and what they promise.
  \<^item> \<open>Sampling\<close>: a sampled window leaves the ledgers of the plain replay, corrections and closed-minute
    marks included.
  \<^item> \<open>CachedWindow\<close>: a window served from the cache is the window computed from the records.
  \<^item> \<open>NavCache\<close>, \<open>Generation\<close>: dashboard generations, refreshed as a whole, and what they serve.
  \<^item> \<open>Numbers\<close>, \<open>Environment\<close>: parsing and printing of numbers, splitting of text; the environment file of
    an execution process and the backend it selects.
  \<^item> \<open>Evidence\<close>, \<open>Journal\<close>: fills recovered from stored executions, their roles from a growing journal
    (\<open>nav/fill_recovery.rs\<close>); JSON text and SHA-256 are parameters.
  \<^item> \<open>History\<close>, \<open>TimeKeys\<close>, \<open>ReadOnce\<close>: the full load of a source and the incremental store
    (\<open>NavHistoryStore\<close>), with overlapping scans of each column family; what the published histories
    promise of each other, and that every record is read once.
  \<^item> \<open>Service\<close>: a tick of the dashboard service (\<open>build_dashboard\<close>, \<open>refresh_loop\<close> of \<open>web.rs\<close>): the
    stored anchors, validated as \<open>postgres.rs\<close> does, store, corrections, cache and report together,
    failures included.
  \<^item> \<open>Markets\<close>: symbols, the market a symbol trades in, keys of public prices (\<open>order_config.rs\<close>,
    \<open>exec_routing.rs\<close>, \<open>market_data.rs\<close>); the Unicode tables are a parameter.
  \<^item> \<open>Bits\<close>, \<open>Candles\<close>: the bit pattern of a float; execution models, minute candles in their stored form,
    the price of a window of minutes, the cache of a market (\<open>theoretical_execution.rs\<close>, \<open>kline.rs\<close>).
  \<^item> \<open>CandleStore\<close>: reads, pricing, scans, page writes and retention over the table of candles.
  \<^item> \<open>CandleFetch\<close>: the weight of requests over every rolling minute, the candles of a response, and the
    backfill of a range (\<open>ensure_range\<close>); what an exchange answers is a parameter.
  \<^item> \<open>RateLimit\<close>, \<open>QueryCache\<close>: the budget of exchange requests and the cache of query results.

  \<^bold>\<open>How code becomes definitions.\<close> A struct is a record, an enum a datatype, a function a definition of
  the same name; \<open>Result\<close> is \<open>error + value\<close> with the error constructors of the component, and a fallible
  loop is \<open>rfold\<close>. Machine integers are \<open>int\<close> or \<open>nat\<close> with wrap-around, saturation and checked
  arithmetic written out where the code has them. \<open>Arc\<close> sharing is value sharing; a generation of
  the cache that is reused by pointer is the same value. Error texts are kept only as constructors.

  \<^bold>\<open>What the lemmas show.\<close> The ledgers: one-sided, positive lots, exact on a tick grid, every fill
  booked once under its role. The records: a payload decodes exactly when it is the layout of its
  fields. The corrections: they move ownership and conserve every market. The cache: along any
  sequence of history updates it equals a cold start over the whole history; it gives up on a source
  with ownership corrections at every update, and otherwise only where a reference price may have been
  preceded; windows served from it are those of the records, corrections included. The reports: their
  time grid, the ledgers under sampling, corrections and marks, their isolation from unselected sources, their envelope under downsampling, the rows of an export. The evidence: every
  external fill leaves with a price, each stored execution counts once, a journal read in pieces is the
  journal read at once. The store: overlapping scans of a growing database add up to one full load, and
  a service that ticks, fails and goes on shows what a rebuild from its histories gives. The candles: a
  stored candle reads back bit for bit, and prices and scans are those of the table whatever the caches
  went through; a range inside retention is completed by a backfill that asks only for what is missing,
  and one that retention overtakes never ends. The limiter: budgets
  per rolling window, room for the acceptance of a quote, cooldowns. The query cache: transparent,
  single flight, bounded.

  \<^bold>\<open>Bounds.\<close> Loops are structural recursions or terminate by a measure, except \<open>backfill\<close>, which need not
  end and has \<open>None\<close> for not returning; no fuel is used. Statements
  about checkpoints assume event times within the range where the hourly arithmetic does not
  saturate (\<open>in_time\<close>: some 146,000 years either side of the epoch).

  \<^bold>\<open>Not modelled.\<close> Files, RocksDB, PostgreSQL, Redis, HTTP, shared memory and threads: the code that only
  moves data between these and the functions modelled here. The manifest lists every such part.
\<close>

end
